(* ===== verification/Uos_Prelude.thy ===== *)
theory Uos_Prelude
  imports Main "HOL-Library.Word" "HOL-Library.Monad_Syntax"
begin

text \<open>
  Shared vocabulary of the development: the machine integer types of the C sources, the
  collections of rules the component theories add to, the guard that models the
  \<open>assert\<close> macro of \<open>runtime/assert.h\<close>, and a few lemmas on lists and words
  that several components use.

  The kernel and the libraries are compiled with assertions on (\<open>NDEBUG\<close> undefined):
  a failed \<open>assert\<close> prints a message and halts the system, so it ends the operation.
  An operation that can halt is modelled with an \<open>option\<close> result and \<open>None\<close> is
  the halt.
\<close>

unbundle bit_operations_syntax

type_synonym u8 = "8 word"
type_synonym u16 = "16 word"
type_synonym u32 = "32 word"

named_theorems link_simps \<open>equations of the abstract linked lists\<close>
named_theorems kernel_defs \<open>definitions of the kernel operations\<close>

definition assert_c :: "bool \<Rightarrow> unit option" where
  "assert_c b = (if b then Some () else None)"

lemma assert_c_simps [simp]:
  "assert_c True = Some ()"
  "assert_c False = None"
  "(assert_c b = None) = (\<not> b)"
  "(assert_c b = Some u) = b"
  by (auto simp: assert_c_def)

lemma bind_assert_c [simp]:
  "(assert_c b \<bind> f = Some y) = (b \<and> f () = Some y)"
  by (auto simp: assert_c_def)

text \<open>A call that may have to wait: it waits, and is started again when it is woken up, or it returns.\<close>

datatype 'a blocking = Waits | Returns 'a

section \<open>Lists\<close>

lemma distinct_removeAll_split:
  assumes "distinct (as @ x # bs)"
  shows "removeAll x (as @ x # bs) = as @ bs"
  using assms by simp

lemma length_removeAll_in: "x \<in> set xs \<Longrightarrow> length (removeAll x xs) < length xs"
  by (simp add: length_removeAll_less)

section \<open>Machine words\<close>

lemma bit_u8: "bit (b :: u8) n \<Longrightarrow> n < 8"
  and bit_u16: "bit (h :: u16) n \<Longrightarrow> n < 16"
  and bit_u32: "bit (w :: u32) n \<Longrightarrow> n < 32"
  using bit_imp_le_length by fastforce+

lemma signed_31:
  fixes v :: int
  assumes "0 \<le> v" "v < 4294967296"
  shows "signed_take_bit 31 v = (if v < 2147483648 then v else v - 4294967296)"
proof -
  have e: "signed_take_bit 31 v = (v + 2147483648) mod 4294967296 - 2147483648"
    by (simp add: signed_take_bit_eq_take_bit_shift take_bit_eq_mod)
  show ?thesis
  proof (cases "v < 2147483648")
    case True
    then have "(v + 2147483648) mod 4294967296 = v + 2147483648" using assms by (intro mod_pos_pos_trivial) linarith+
    then show ?thesis unfolding e if_P [OF True] by linarith
  next
    case False
    have "(v + 2147483648) mod 4294967296 = (v - 2147483648 + 4294967296) mod 4294967296" by (rule arg_cong [of _ _ "\<lambda>x. x mod 4294967296"]) linarith
    also have "\<dots> = (v - 2147483648) mod 4294967296" by (rule mod_add_self2)
    also have "\<dots> = v - 2147483648" using False assms by (intro mod_pos_pos_trivial) linarith+
    finally show ?thesis unfolding e if_not_P [OF False] by linarith
  qed
qed

lemma sint_u32: "sint (w :: u32) = (if unat w < 2 ^ 31 then int (unat w) else int (unat w) - 2 ^ 32)"
proof -
  have c: "int n < 2147483648 \<longleftrightarrow> n < 2147483648" for n by simp
  have "sint w = signed_take_bit 31 (uint w)" by (simp add: sint_uint)
  also have "\<dots> = (if uint w < 2147483648 then uint w else uint w - 4294967296)"
    using uint_bounded [of w] by (intro signed_31) auto
  finally have "sint w = (if unat w < 2147483648 then int (unat w) else int (unat w) - 4294967296)"
    unfolding uint_nat c .
  then show ?thesis by simp
qed

lemma u32_bound: "unat (w :: u32) < 2 ^ 32"
  using unsigned_less [of w] by simp

lemma unat_diff_u32: "unat (a - b :: u32) = (if unat b \<le> unat a then unat a - unat b else 2 ^ 32 + unat a - unat b)"
  using u32_bound [of a] u32_bound [of b] by (auto simp: unat_sub_if_size word_size)

lemma unat_of_nat_small: "n < 65536 \<Longrightarrow> unat (of_nat n :: u32) = n"
  by (simp only: unat_of_nat) (simp add: take_bit_nat_eq_self)

end
