(* ===== verification/Link_Lists.thy ===== *)
theory Link_Lists
  imports Uos_Prelude
begin

text \<open>
  Doubly linked lists, \<open>src/sources/runtime/list.h\<close>.

  The first half is the code: a heap maps every address to a \<open>list_t\<close>, the pair of
  its \<open>next\<close> and \<open>prev\<close> pointers, and each inline function is the sequence of its
  pointer writes. The second half is the contract the kernel relies on: a store gives every
  list head a finite list of elements, every element stands in at most one list, and
  \<open>list_append\<close>, \<open>list_prepend\<close> and \<open>list_unlink\<close> first take the element
  out of the list it is in. The locale \<open>link_store\<close> states that contract; it is
  interpreted on the pointer heap, which is the refinement theorem for \<open>list.h\<close>, and
  on the abstract store itself, which is what the kernel theories use.
\<close>

section \<open>The code: pointers in a heap\<close>

record 'n list_t =
  nxt :: 'n
  prv :: 'n

type_synonym 'n heap = "'n \<Rightarrow> 'n list_t"

definition list_init :: "'n \<Rightarrow> 'n heap \<Rightarrow> 'n heap" where
  "list_init l h = h(l := \<lparr>nxt = l, prv = l\<rparr>)"

definition list_put_in_between :: "'n \<Rightarrow> 'n \<Rightarrow> 'n \<Rightarrow> 'n heap \<Rightarrow> 'n heap" where
  "list_put_in_between elem left right h =
     (let h = h(right := (h right)\<lparr>prv := elem\<rparr>);
          h = h(elem := (h elem)\<lparr>nxt := right\<rparr>);
          h = h(elem := (h elem)\<lparr>prv := left\<rparr>)
      in h(left := (h left)\<lparr>nxt := elem\<rparr>))"

definition list_connect_together :: "'n \<Rightarrow> 'n \<Rightarrow> 'n heap \<Rightarrow> 'n heap" where
  "list_connect_together left right h =
     (let h = h(right := (h right)\<lparr>prv := left\<rparr>)
      in h(left := (h left)\<lparr>nxt := right\<rparr>))"

definition list_prepend :: "'n \<Rightarrow> 'n \<Rightarrow> 'n heap \<Rightarrow> 'n heap" where
  "list_prepend l elem h =
     (let h = list_connect_together (prv (h elem)) (nxt (h elem)) h
      in list_put_in_between elem l (nxt (h l)) h)"

definition list_append :: "'n \<Rightarrow> 'n \<Rightarrow> 'n heap \<Rightarrow> 'n heap" where
  "list_append l elem h =
     (let h = list_connect_together (prv (h elem)) (nxt (h elem)) h
      in list_put_in_between elem (prv (h l)) l h)"

definition list_unlink :: "'n \<Rightarrow> 'n heap \<Rightarrow> 'n heap" where
  "list_unlink elem h =
     list_init elem (list_connect_together (prv (h elem)) (nxt (h elem)) h)"

definition list_is_empty :: "'n \<Rightarrow> 'n heap \<Rightarrow> bool" where
  "list_is_empty l h \<longleftrightarrow> nxt (h l) = l"

definition list_first :: "'n \<Rightarrow> 'n heap \<Rightarrow> 'n" where
  "list_first l h = nxt (h l)"

text \<open>
  \<open>list_iterate\<close> visits \<open>next\<close> pointers until it is back at the head. On a
  damaged list the loop may never end, so the walk is a partial function; the elements it
  visits are returned in order.
\<close>

partial_function (option) list_walk :: "'n heap \<Rightarrow> 'n \<Rightarrow> 'n \<Rightarrow> 'n list option" where
  "list_walk h l i =
     (if i = l then Some []
      else do { xs \<leftarrow> list_walk h l (nxt (h i)); Some (i # xs) })"

declare list_walk.simps [code]

definition list_iterate :: "'n \<Rightarrow> 'n heap \<Rightarrow> 'n list option" where
  "list_iterate l h = list_walk h l (nxt (h l))"

section \<open>Chains of nodes\<close>

text \<open>\<open>chain h a xs b\<close>: from \<open>a\<close> the \<open>next\<close> pointers visit \<open>xs\<close> and then
  \<open>b\<close>, and the \<open>prev\<close> pointers lead back.\<close>

fun chain :: "'n heap \<Rightarrow> 'n \<Rightarrow> 'n list \<Rightarrow> 'n \<Rightarrow> bool" where
  "chain h a [] b \<longleftrightarrow> nxt (h a) = b \<and> prv (h b) = a"
| "chain h a (x # xs) b \<longleftrightarrow> nxt (h a) = x \<and> prv (h x) = a \<and> chain h x xs b"

lemma chain_append [simp]:
  "chain h a (xs @ y # ys) b \<longleftrightarrow> chain h a xs y \<and> chain h y ys b"
  by (induction xs arbitrary: a) auto

lemma chain_frame:
  assumes "chain h a xs b"
    and "\<And>n. n = a \<or> n \<in> set xs \<Longrightarrow> nxt (h' n) = nxt (h n)"
    and "\<And>n. n = b \<or> n \<in> set xs \<Longrightarrow> prv (h' n) = prv (h n)"
  shows "chain h' a xs b"
  using assms by (induction xs arbitrary: a) auto

lemma chain_last: "chain h a xs b \<Longrightarrow> prv (h b) = last (a # xs)"
  by (induction xs arbitrary: a) auto

lemma chain_first: "chain h a xs b \<Longrightarrow> nxt (h a) = hd (xs @ [b])"
  by (cases xs) auto

lemma chain_walk:
  assumes "chain h a xs l" "l \<notin> set xs"
  shows "list_walk h l (nxt (h a)) = Some xs"
  using assms
proof (induction xs arbitrary: a)
  case Nil
  then show ?case by (simp add: list_walk.simps)
next
  case (Cons x xs)
  then have "list_walk h l (nxt (h x)) = Some xs" by simp
  moreover have "nxt (h a) = x" "x \<noteq> l" using Cons.prems by auto
  ultimately show ?case by (simp add: list_walk.simps [of h l x])
qed

definition is_list :: "'n heap \<Rightarrow> 'n \<Rightarrow> 'n list \<Rightarrow> bool" where
  "is_list h l xs \<longleftrightarrow> chain h l xs l \<and> distinct (l # xs)"

lemma is_list_frame:
  assumes "is_list h l xs" "\<And>n. n \<in> insert l (set xs) \<Longrightarrow> h' n = h n"
  shows "is_list h' l xs"
  using assms unfolding is_list_def by (auto intro: chain_frame [of h])

text \<open>Taking an element out: its neighbours are connected.\<close>

lemma connect_out:
  assumes "is_list h l (as @ e # bs)"
  shows "is_list (list_connect_together (prv (h e)) (nxt (h e)) h) l (as @ bs)"
proof -
  from assms have ca: "chain h l as e" and cb: "chain h e bs l"
    and d: "distinct (l # as @ e # bs)"
    by (auto simp: is_list_def)
  define p q where "p = prv (h e)" and "q = nxt (h e)"
  define h' where "h' = list_connect_together p q h"
  have pl: "p = last (l # as)" using chain_last [OF ca] by (simp add: p_def q_def)
  have ql: "q = hd (bs @ [l])" using chain_first [OF cb] by (simp add: p_def q_def)
  have pin: "p \<in> insert l (set as)" using pl by (auto split: if_splits dest: last_in_set)
  have qin: "q \<in> insert l (set bs)" using ql by (cases bs) auto
  have n: "nxt (h' n) = (if n = p then q else nxt (h n))" for n
    by (simp add: h'_def list_connect_together_def Let_def)
  have pr: "prv (h' n) = (if n = q then p else prv (h n))" for n
    by (simp add: h'_def list_connect_together_def Let_def)
  have "chain h' l (as @ bs) l"
  proof (cases bs)
    case Nil
    show ?thesis
    proof (cases as rule: rev_cases)
      case Nil
      with \<open>bs = []\<close> pl ql show ?thesis by (simp add: n pr)
    next
      case (snoc as' y)
      have "chain h' l as' y"
      proof (rule chain_frame [of h l as' y])
        show "chain h l as' y" using ca snoc by simp
        show "nxt (h' m) = nxt (h m)" if "m = l \<or> m \<in> set as'" for m
          using that pl snoc d by (auto simp: n)
        show "prv (h' m) = prv (h m)" if "m = y \<or> m \<in> set as'" for m
          using that qin \<open>bs = []\<close> snoc d by (auto simp: pr)
      qed
      then show ?thesis using snoc \<open>bs = []\<close> pl ql by (simp add: n pr)
    qed
  next
    case (Cons z bs')
    have zb: "chain h' z bs' l"
    proof (rule chain_frame [of h z bs' l])
      show "chain h z bs' l" using cb Cons by simp
      show "nxt (h' m) = nxt (h m)" if "m = z \<or> m \<in> set bs'" for m
        using that pin Cons d by (auto simp: n)
      show "prv (h' m) = prv (h m)" if "m = l \<or> m \<in> set bs'" for m
        using that ql Cons d by (auto simp: pr)
    qed
    show ?thesis
    proof (cases as rule: rev_cases)
      case Nil
      with Cons zb pl ql show ?thesis by (simp add: n pr)
    next
      case (snoc as' y)
      have "chain h' l as' y"
      proof (rule chain_frame [of h l as' y])
        show "chain h l as' y" using ca snoc by simp
        show "nxt (h' m) = nxt (h m)" if "m = l \<or> m \<in> set as'" for m
          using that pl snoc d by (auto simp: n)
        show "prv (h' m) = prv (h m)" if "m = y \<or> m \<in> set as'" for m
          using that ql Cons snoc d by (auto simp: pr)
      qed
      then show ?thesis using snoc Cons zb pl ql by (simp add: n pr)
    qed
  qed
  then show ?thesis using d by (simp add: is_list_def h'_def p_def q_def)
qed

text \<open>Putting an element in, at either end.\<close>

lemma put_last:
  assumes "is_list h l xs" "e \<notin> insert l (set xs)"
  shows "is_list (list_put_in_between e (prv (h l)) l h) l (xs @ [e])"
proof -
  define p where "p = prv (h l)"
  define h' where "h' = list_put_in_between e p l h"
  from assms have c: "chain h l xs l" and d: "distinct (l # xs)" by (auto simp: is_list_def)
  have pl: "p = last (l # xs)" using chain_last [OF c] by (simp add: p_def)
  have pe: "p \<noteq> e" using assms(2) pl by (auto split: if_splits dest: last_in_set)
  have n: "nxt (h' n) = (if n = p then e else if n = e then l else nxt (h n))" for n
    using pe by (simp add: h'_def list_put_in_between_def Let_def)
  have pr: "prv (h' n) = (if n = e then p else if n = l then e else prv (h n))" for n
    using assms(2) pe by (auto simp: h'_def list_put_in_between_def Let_def)
  have "chain h' l xs e"
  proof (cases xs rule: rev_cases)
    case Nil
    then show ?thesis using pl by (simp add: n pr)
  next
    case (snoc xs' y)
    have "chain h' l xs' y"
    proof (rule chain_frame [of h l xs' y])
      show "chain h l xs' y" using c snoc by simp
      show "nxt (h' m) = nxt (h m)" if "m = l \<or> m \<in> set xs'" for m
        using that pl snoc d assms(2) by (auto simp: n)
      show "prv (h' m) = prv (h m)" if "m = y \<or> m \<in> set xs'" for m
        using that snoc d assms(2) by (auto simp: pr)
    qed
    then show ?thesis using snoc pl d by (simp add: n pr)
  qed
  moreover have "nxt (h' e) = l" "prv (h' l) = e"
    using pe assms(2) by (auto simp: n pr)
  ultimately show ?thesis using d assms(2) by (auto simp: is_list_def h'_def p_def)
qed

lemma put_first:
  assumes "is_list h l xs" "e \<notin> insert l (set xs)"
  shows "is_list (list_put_in_between e l (nxt (h l)) h) l (e # xs)"
proof -
  define q where "q = nxt (h l)"
  define h' where "h' = list_put_in_between e l q h"
  from assms have c: "chain h l xs l" and d: "distinct (l # xs)" by (auto simp: is_list_def)
  have ql: "q = hd (xs @ [l])" using chain_first [OF c] by (simp add: q_def)
  have qe: "q \<noteq> e" using assms(2) ql by (cases xs) auto
  have n: "nxt (h' n) = (if n = l then e else if n = e then q else nxt (h n))" for n
    using assms(2) by (simp add: h'_def list_put_in_between_def Let_def)
  have pr: "prv (h' n) = (if n = e then l else if n = q then e else prv (h n))" for n
    using qe by (simp add: h'_def list_put_in_between_def Let_def)
  have "chain h' e xs l"
  proof (cases xs)
    case Nil
    then show ?thesis using ql assms(2) by (auto simp: n pr)
  next
    case (Cons y xs')
    have "chain h' y xs' l"
    proof (rule chain_frame [of h y xs' l])
      show "chain h y xs' l" using c Cons by simp
      show "nxt (h' m) = nxt (h m)" if "m = y \<or> m \<in> set xs'" for m
        using that Cons d assms(2) by (auto simp: n)
      show "prv (h' m) = prv (h m)" if "m = l \<or> m \<in> set xs'" for m
        using that ql Cons d assms(2) by (auto simp: pr)
    qed
    then show ?thesis using Cons ql d assms(2) by (auto simp: n pr)
  qed
  moreover have "nxt (h' l) = e" "prv (h' e) = l" by (auto simp: n pr)
  ultimately show ?thesis using d assms(2) by (auto simp: is_list_def h'_def q_def)
qed

section \<open>The contract: a store of disjoint lists\<close>

text \<open>The abstract store: the elements of each list head, in order, and for each element
  whether it is linked (its \<open>next\<close> pointer does not lead back to itself).\<close>

record ('h, 'e) store =
  items :: "'h \<Rightarrow> 'e list"
  linked :: "'e \<Rightarrow> bool"

definition wf_store :: "('h, 'e) store \<Rightarrow> bool" where
  "wf_store L \<longleftrightarrow>
     (\<forall>l. distinct (items L l))
     \<and> (\<forall>l l' e. e \<in> set (items L l) \<and> e \<in> set (items L l') \<longrightarrow> l = l')
     \<and> (\<forall>e. linked L e \<longleftrightarrow> (\<exists>l. e \<in> set (items L l)))"

definition l_empty :: "('h, 'e) store" where
  "l_empty = \<lparr>items = (\<lambda>_. []), linked = (\<lambda>_. False)\<rparr>"

definition l_init :: "'h \<Rightarrow> ('h, 'e) store \<Rightarrow> ('h, 'e) store" where
  "l_init l L = L\<lparr>items := (items L)(l := [])\<rparr>"

definition l_unlink :: "'e \<Rightarrow> ('h, 'e) store \<Rightarrow> ('h, 'e) store" where
  "l_unlink e L = \<lparr>items = (\<lambda>l. removeAll e (items L l)), linked = (linked L)(e := False)\<rparr>"

definition l_append :: "'h \<Rightarrow> 'e \<Rightarrow> ('h, 'e) store \<Rightarrow> ('h, 'e) store" where
  "l_append l e L =
     \<lparr>items = (\<lambda>l'. if l' = l then removeAll e (items L l) @ [e] else removeAll e (items L l')),
      linked = (linked L)(e := True)\<rparr>"

definition l_prepend :: "'h \<Rightarrow> 'e \<Rightarrow> ('h, 'e) store \<Rightarrow> ('h, 'e) store" where
  "l_prepend l e L =
     \<lparr>items = (\<lambda>l'. if l' = l then e # removeAll e (items L l) else removeAll e (items L l')),
      linked = (linked L)(e := True)\<rparr>"

text \<open>For evaluation: one lookup in the old store for one in the new.\<close>

lemma l_append_code [code]:
  "l_append l e L =
     \<lparr>items = (\<lambda>l'. removeAll e (items L l') @ (if l' = l then [e] else [])),
      linked = (linked L)(e := True)\<rparr>"
  by (auto simp: l_append_def fun_eq_iff)

lemma l_prepend_code [code]:
  "l_prepend l e L =
     \<lparr>items = (\<lambda>l'. (if l' = l then [e] else []) @ removeAll e (items L l')),
      linked = (linked L)(e := True)\<rparr>"
  by (auto simp: l_prepend_def fun_eq_iff)

lemma l_apply [link_simps]:
  "items (l_unlink e L) l' = removeAll e (items L l')"
  "items (l_append l e L) l' =
     (if l' = l then removeAll e (items L l) @ [e] else removeAll e (items L l'))"
  "items (l_prepend l e L) l' =
     (if l' = l then e # removeAll e (items L l) else removeAll e (items L l'))"
  "items (l_init l L) l' = (if l' = l then [] else items L l')"
  "items l_empty l' = []"
  by (simp_all add: l_unlink_def l_append_def l_prepend_def l_init_def l_empty_def)

lemma l_linked [link_simps]:
  "linked (l_unlink e L) x \<longleftrightarrow> x \<noteq> e \<and> linked L x"
  "linked (l_append l e L) x \<longleftrightarrow> x = e \<or> linked L x"
  "linked (l_prepend l e L) x \<longleftrightarrow> x = e \<or> linked L x"
  "linked (l_init l L) x \<longleftrightarrow> linked L x"
  "linked l_empty x \<longleftrightarrow> False"
  by (auto simp: l_unlink_def l_append_def l_prepend_def l_init_def l_empty_def)

lemma l_mem [link_simps]:
  "x \<in> set (items (l_unlink e L) l') \<longleftrightarrow> x \<noteq> e \<and> x \<in> set (items L l')"
  "x \<in> set (items (l_append l e L) l') \<longleftrightarrow> (if x = e then l' = l else x \<in> set (items L l'))"
  "x \<in> set (items (l_prepend l e L) l') \<longleftrightarrow> (if x = e then l' = l else x \<in> set (items L l'))"
  by (auto simp: l_apply)

lemma wf_storeI:
  assumes "\<And>l. distinct (items L l)"
    and "\<And>l l' e. e \<in> set (items L l) \<Longrightarrow> e \<in> set (items L l') \<Longrightarrow> l = l'"
    and "\<And>e. linked L e \<longleftrightarrow> (\<exists>l. e \<in> set (items L l))"
  shows "wf_store L"
  using assms unfolding wf_store_def by blast

lemma wf_store_unique:
  "wf_store L \<Longrightarrow> e \<in> set (items L l) \<Longrightarrow> e \<in> set (items L l') \<Longrightarrow> l = l'"
  by (auto simp: wf_store_def)

lemma wf_store_distinct: "wf_store L \<Longrightarrow> distinct (items L l)"
  by (auto simp: wf_store_def)

lemma wf_store_linked: "wf_store L \<Longrightarrow> linked L e \<longleftrightarrow> (\<exists>l. e \<in> set (items L l))"
  by (auto simp: wf_store_def)

lemma wf_store_empty [simp]: "wf_store l_empty"
  by (auto simp: wf_store_def link_simps)

lemma wf_store_unlink [simp]: "wf_store L \<Longrightarrow> wf_store (l_unlink e L)"
  by (rule wf_storeI) (auto simp: link_simps distinct_removeAll wf_store_distinct
      wf_store_linked dest: wf_store_unique)

lemma wf_store_append [simp]: "wf_store L \<Longrightarrow> wf_store (l_append l e L)"
proof (rule wf_storeI)
  assume wf: "wf_store L"
  show "distinct (items (l_append l e L) k)" for k
    using wf_store_distinct [OF wf] by (simp add: l_apply distinct_removeAll)
  show "k = k'" if "x \<in> set (items (l_append l e L) k)" "x \<in> set (items (l_append l e L) k')" for x k k'
    using that wf_store_unique [OF wf] by (auto simp: l_mem split: if_splits)
  show "linked (l_append l e L) x \<longleftrightarrow> (\<exists>k. x \<in> set (items (l_append l e L) k))" for x
    by (cases "x = e") (auto simp: l_mem l_linked wf_store_linked [OF wf])
qed

lemma wf_store_prepend [simp]: "wf_store L \<Longrightarrow> wf_store (l_prepend l e L)"
proof (rule wf_storeI)
  assume wf: "wf_store L"
  show "distinct (items (l_prepend l e L) k)" for k
    using wf_store_distinct [OF wf] by (simp add: l_apply distinct_removeAll)
  show "k = k'" if "x \<in> set (items (l_prepend l e L) k)" "x \<in> set (items (l_prepend l e L) k')" for x k k'
    using that wf_store_unique [OF wf] by (auto simp: l_mem split: if_splits)
  show "linked (l_prepend l e L) x \<longleftrightarrow> (\<exists>k. x \<in> set (items (l_prepend l e L) k))" for x
    by (cases "x = e") (auto simp: l_mem l_linked wf_store_linked [OF wf])
qed

lemma l_init_idle: "items L l = [] \<Longrightarrow> l_init l L = L"
  by (simp add: l_init_def fun_upd_idem)

text \<open>Moving the head of a list to the end of another.\<close>

lemma l_unlink_idle:
  assumes "wf_store L" "\<not> linked L e"
  shows "l_unlink e L = L"
proof -
  have "e \<notin> set (items L l)" for l using assms by (auto simp: wf_store_linked)
  then have "(\<lambda>l. removeAll e (items L l)) = items L" by (auto simp: removeAll_id)
  moreover have "(linked L)(e := False) = linked L" using assms(2) by (simp add: fun_upd_idem_iff)
  ultimately show ?thesis by (simp add: l_unlink_def)
qed

lemma l_append_head:
  assumes "wf_store L" "items L src = e # es" "src \<noteq> dst"
  shows "items (l_append dst e L) = (items L)(src := es, dst := items L dst @ [e])"
proof -
  have e: "e \<in> set (items L src)" "e \<notin> set es"
    using assms(2) wf_store_distinct [OF assms(1), of src] by auto
  have "e \<notin> set (items L l)" if "l \<noteq> src" for l
    using wf_store_unique [OF assms(1) e(1)] that by metis
  then show ?thesis using assms e(2) by (auto simp: fun_eq_iff l_apply)
qed

datatype ('h, 'e) list_op = Append 'h 'e | Prepend 'h 'e | Unlink 'e

fun l_exec :: "('h, 'e) list_op \<Rightarrow> ('h, 'e) store \<Rightarrow> ('h, 'e) store" where
  "l_exec (Append l e) = l_append l e"
| "l_exec (Prepend l e) = l_prepend l e"
| "l_exec (Unlink e) = l_unlink e"

locale link_store =
  fixes rep :: "'s \<Rightarrow> ('h, 'e) store \<Rightarrow> bool"
    and append :: "'h \<Rightarrow> 'e \<Rightarrow> 's \<Rightarrow> 's"
    and prepend :: "'h \<Rightarrow> 'e \<Rightarrow> 's \<Rightarrow> 's"
    and unlink :: "'e \<Rightarrow> 's \<Rightarrow> 's"
    and is_empty :: "'h \<Rightarrow> 's \<Rightarrow> bool"
    and first :: "'h \<Rightarrow> 's \<Rightarrow> 'e"
    and is_linked :: "'e \<Rightarrow> 's \<Rightarrow> bool"
    and iterate :: "'h \<Rightarrow> 's \<Rightarrow> 'e list option"
  assumes rep_wf: "rep s L \<Longrightarrow> wf_store L"
    and rep_append: "rep s L \<Longrightarrow> rep (append l e s) (l_append l e L)"
    and rep_prepend: "rep s L \<Longrightarrow> rep (prepend l e s) (l_prepend l e L)"
    and rep_unlink: "rep s L \<Longrightarrow> rep (unlink e s) (l_unlink e L)"
    and rep_is_empty: "rep s L \<Longrightarrow> is_empty l s \<longleftrightarrow> items L l = []"
    and rep_first: "rep s L \<Longrightarrow> items L l \<noteq> [] \<Longrightarrow> first l s = hd (items L l)"
    and rep_linked: "rep s L \<Longrightarrow> is_linked e s \<longleftrightarrow> linked L e"
    and rep_iterate: "rep s L \<Longrightarrow> iterate l s = Some (items L l)"
begin

fun exec :: "('h, 'e) list_op \<Rightarrow> 's \<Rightarrow> 's" where
  "exec (Append l e) = append l e"
| "exec (Prepend l e) = prepend l e"
| "exec (Unlink e) = unlink e"

lemma rep_exec: "rep s L \<Longrightarrow> rep (exec p s) (l_exec p L)"
  by (cases p) (auto intro: rep_append rep_prepend rep_unlink)

lemma rep_run: "rep s L \<Longrightarrow> rep (fold exec ps s) (fold l_exec ps L)"
  by (induction ps arbitrary: s L) (auto intro: rep_exec)

lemma run_iterate: "rep s L \<Longrightarrow> iterate l (fold exec ps s) = Some (items (fold l_exec ps L) l)"
  by (rule rep_iterate [OF rep_run])

text \<open>The wake-up loop of the kernel, \<open>while not empty: append dst (first src)\<close>: one
  round moves the first element, so the whole list goes over in order.\<close>

lemma move_all:
  assumes "rep s L" "src \<noteq> dst"
  shows "\<exists>L'. rep (fold (append dst) (items L src) s) L'
    \<and> items L' = (items L)(src := [], dst := items L dst @ items L src)"
  using assms
proof (induction "items L src" arbitrary: s L)
  case Nil
  then show ?case by (intro exI [of _ L]) (auto simp: fun_eq_iff)
next
  case (Cons e es)
  let ?L = "l_append dst e L"
  have i: "items ?L = (items L)(src := es, dst := items L dst @ [e])"
    using l_append_head [OF rep_wf [OF Cons.prems(1)] Cons.hyps(2) [symmetric] Cons.prems(2)] .
  have "es = items ?L src" using i Cons.prems(2) by simp
  from Cons.hyps(1) [OF this rep_append [OF Cons.prems(1)] Cons.prems(2)]
  obtain L' where L': "rep (fold (append dst) (items ?L src) (append dst e s)) L'"
    "items L' = (items ?L)(src := [], dst := items ?L dst @ items ?L src)" by blast
  have "items L' = (items L)(src := [], dst := items L dst @ (e # es))"
    unfolding L'(2) i using Cons.prems(2) by (auto simp: fun_eq_iff)
  moreover have "rep (fold (append dst) (e # es) s) L'"
    using L'(1) \<open>es = items ?L src\<close> by simp
  ultimately show ?case unfolding Cons.hyps(2) [symmetric] by blast
qed

end

section \<open>The pointer heap implements the contract\<close>

text \<open>The nodes the kernel links: list heads and elements (the \<open>item\<close> fields).\<close>

datatype ('h, 'e) node = Head 'h | Elem (elem_of: 'e)

definition heap_rep :: "('h, 'e) node heap \<Rightarrow> ('h, 'e) store \<Rightarrow> bool" where
  "heap_rep h L \<longleftrightarrow> wf_store L
     \<and> (\<forall>l. is_list h (Head l) (map Elem (items L l)))
     \<and> (\<forall>e. \<not> linked L e \<longrightarrow> h (Elem e) = \<lparr>nxt = Elem e, prv = Elem e\<rparr>)"

lemma heap_repD:
  assumes "heap_rep h L"
  shows "wf_store L" "is_list h (Head l) (map Elem (items L l))"
    and "\<not> linked L e \<Longrightarrow> h (Elem e) = \<lparr>nxt = Elem e, prv = Elem e\<rparr>"
  using assms by (auto simp: heap_rep_def)

text \<open>Closing the gap around an element keeps every list, less that element.\<close>

lemma connect_frame:
  "n \<noteq> p \<Longrightarrow> n \<noteq> q \<Longrightarrow> list_connect_together p q h n = h n"
  by (simp add: list_connect_together_def Let_def)

lemma connect_heap:
  fixes e :: 'e
  assumes "heap_rep h L"
  defines "h' \<equiv> list_connect_together (prv (h (Elem e))) (nxt (h (Elem e))) h"
  shows "is_list h' (Head l) (map Elem (removeAll e (items L l)))"
    and "n \<noteq> Elem e \<Longrightarrow> (\<And>l. n \<noteq> Head l) \<Longrightarrow> (\<And>l. n \<notin> Elem ` set (items L l)) \<Longrightarrow> h' n = h n"
proof -
  note R = heap_repD [OF assms(1)]
  have key: "is_list h' (Head l) (map Elem (removeAll e (items L l))) \<and>
      (n \<noteq> Elem e \<longrightarrow> (\<forall>l. n \<noteq> Head l) \<longrightarrow> (\<forall>l. n \<notin> Elem ` set (items L l)) \<longrightarrow> h' n = h n)"
  proof (cases "\<not> linked L e")
    case True
    then have self: "h (Elem e) = \<lparr>nxt = Elem e, prv = Elem e\<rparr>" by (rule R(3))
    then have "h' = h" unfolding h'_def by (auto simp: list_connect_together_def Let_def)
    with True R(2) [of l] wf_store_linked [OF R(1)] show ?thesis by simp
  next
    case False
    then obtain k where k: "e \<in> set (items L k)" using wf_store_linked [OF R(1)] by blast
    have other: "e \<notin> set (items L l)" if "l \<noteq> k" for l
      using wf_store_unique [OF R(1) k] that by metis
    obtain as bs where Lk: "items L k = as @ e # bs" using split_list [OF k] by blast
    have d: "distinct (items L k)" by (rule wf_store_distinct [OF R(1)])
    have il: "is_list h (Head k) (map Elem as @ Elem e # map Elem bs)" using R(2) [of k] Lk by simp
    have c: "chain h (Head k) (map Elem as) (Elem e)" "chain h (Elem e) (map Elem bs) (Head k)"
      using il by (auto simp: is_list_def)
    have p: "prv (h (Elem e)) \<in> insert (Head k) (Elem ` set as)"
      using chain_last [OF c(1)] by (cases as rule: rev_cases) auto
    have q: "nxt (h (Elem e)) \<in> insert (Head k) (Elem ` set bs)"
      using chain_first [OF c(2)] by (cases bs) auto
    have fr: "h' n = h n" if "n \<notin> insert (Head k) (Elem ` set (items L k))" for n
      using that p q Lk unfolding h'_def by (intro connect_frame) auto
    have "is_list h' (Head l) (map Elem (removeAll e (items L l)))"
    proof (cases "l = k")
      case True
      have "removeAll e (items L k) = as @ bs" using d Lk by simp
      with connect_out [OF il] True show ?thesis by (simp add: h'_def)
    next
      case False
      have "h' n = h n" if "n \<in> insert (Head l) (set (map Elem (items L l)))" for n
        using that False wf_store_unique [OF R(1)] by (intro fr) auto
      with is_list_frame [OF R(2)] other [OF False] show ?thesis by simp
    qed
    moreover have "h' n = h n" if "\<forall>l. n \<noteq> Head l" "\<forall>l. n \<notin> Elem ` set (items L l)"
      using that by (intro fr) auto
    ultimately show ?thesis by blast
  qed
  show "is_list h' (Head l) (map Elem (removeAll e (items L l)))" using key by blast
  show "n \<noteq> Elem e \<Longrightarrow> (\<And>l. n \<noteq> Head l) \<Longrightarrow> (\<And>l. n \<notin> Elem ` set (items L l)) \<Longrightarrow> h' n = h n"
    using key by blast
qed

text \<open>Inserting an element that is in no list at an end of list \<open>k\<close>.\<close>

lemma put_frame:
  "n \<noteq> e \<Longrightarrow> n \<noteq> l \<Longrightarrow> n \<noteq> r \<Longrightarrow> list_put_in_between e l r h n = h n"
  by (simp add: list_put_in_between_def Let_def)

lemma put_heap:
  fixes e :: 'e and k :: 'h
  assumes wf: "wf_store L" "wf_store L'" and il: "\<And>l. is_list h (Head l) (map Elem (items L l))"
    and e: "\<And>l. e \<notin> set (items L l)"
    and fr: "\<And>n. n \<notin> insert (Elem e) (insert (Head k) (Elem ` set (items L k))) \<Longrightarrow> h' n = h n"
    and put: "is_list h' (Head k) (map Elem (items L' k))"
    and self: "\<And>x. x \<noteq> e \<Longrightarrow> \<not> linked L x \<Longrightarrow> h (Elem x) = \<lparr>nxt = Elem x, prv = Elem x\<rparr>"
    and L': "\<And>l. l \<noteq> k \<Longrightarrow> items L' l = items L l" "linked L' = (linked L)(e := True)"
  shows "heap_rep h' L'"
proof -
  have "is_list h' (Head l) (map Elem (items L' l))" for l
  proof (cases "l = k")
    case True
    then show ?thesis using put by simp
  next
    case False
    have "h' n = h n" if "n \<in> insert (Head l) (set (map Elem (items L l)))" for n
      using that False e wf_store_unique [OF wf(1)] by (intro fr) auto
    then show ?thesis using is_list_frame [OF il] False L' by simp
  qed
  moreover have "h' (Elem x) = \<lparr>nxt = Elem x, prv = Elem x\<rparr>" if "\<not> linked L' x" for x
  proof -
    have x: "x \<noteq> e" "\<not> linked L x" using that L'(2) by (auto split: if_splits)
    then have "\<forall>l. x \<notin> set (items L l)" using wf_store_linked [OF wf(1)] by blast
    then have "h' (Elem x) = h (Elem x)" using x by (intro fr) auto
    then show ?thesis using self [OF x] by simp
  qed
  ultimately show ?thesis using wf(2) by (simp add: heap_rep_def)
qed

lemma heap_rep_unlink:
  assumes "heap_rep h L"
  shows "heap_rep (list_unlink (Elem e) h) (l_unlink e L)"
proof -
  note C = connect_heap [OF assms, where e = e]
  let ?c = "list_connect_together (prv (h (Elem e))) (nxt (h (Elem e))) h"
  have u: "list_unlink (Elem e) h n = (if n = Elem e then \<lparr>nxt = n, prv = n\<rparr> else ?c n)" for n
    by (simp add: list_unlink_def list_init_def)
  have "is_list (list_unlink (Elem e) h) (Head l) (map Elem (items (l_unlink e L) l))" for l
    unfolding l_apply using C(1) [of l] by (rule is_list_frame) (auto simp: u)
  moreover have "list_unlink (Elem e) h (Elem x) = \<lparr>nxt = Elem x, prv = Elem x\<rparr>"
    if "\<not> linked (l_unlink e L) x" for x
  proof (cases "x = e")
    case False
    with that have "\<not> linked L x" by (simp add: l_linked)
    moreover have "\<forall>l. x \<notin> set (items L l)"
      using calculation wf_store_linked [OF heap_repD(1) [OF assms]] by blast
    ultimately show ?thesis using False C(2) [of "Elem x"] heap_repD(3) [OF assms, of x]
      by (auto simp: u)
  qed (simp add: u)
  ultimately show ?thesis using heap_repD(1) [OF assms] by (simp add: heap_rep_def)
qed

lemma heap_rep_append:
  assumes "heap_rep h L"
  shows "heap_rep (list_append (Head k) (Elem e) h) (l_append k e L)"
proof -
  let ?c = "list_connect_together (prv (h (Elem e))) (nxt (h (Elem e))) h"
  let ?U = "l_unlink e L"
  note C = connect_heap [OF assms, where e = e]
  have il: "is_list ?c (Head l) (map Elem (items ?U l))" for l using C(1) by (simp add: l_apply)
  have e: "e \<notin> set (items ?U l)" for l by (simp add: l_mem)
  have wf: "wf_store ?U" using heap_repD(1) [OF assms] by simp
  have p: "prv (?c (Head k)) \<in> insert (Head k) (Elem ` set (items ?U k))"
    using chain_last [of ?c "Head k" "map Elem (items ?U k)" "Head k"] il [of k]
    by (cases "items ?U k" rule: rev_cases) (auto simp: is_list_def)
  have it: "items (l_append k e L) k = items ?U k @ [e]" by (simp add: l_apply)
  show ?thesis
  proof (rule put_heap [OF wf _ il e, where k = k])
    show "wf_store (l_append k e L)" using heap_repD(1) [OF assms] by simp
    show "is_list (list_append (Head k) (Elem e) h) (Head k) (map Elem (items (l_append k e L) k))"
      using put_last [OF il [of k], of "Elem e"] e unfolding it
      by (auto simp: list_append_def Let_def)
    show "list_append (Head k) (Elem e) h n = ?c n"
      if "n \<notin> insert (Elem e) (insert (Head k) (Elem ` set (items ?U k)))" for n
      using that p unfolding list_append_def Let_def by (intro put_frame) auto
    show "?c (Elem x) = \<lparr>nxt = Elem x, prv = Elem x\<rparr>" if "x \<noteq> e" "\<not> linked ?U x" for x
    proof -
      have x: "\<not> linked L x" using that by (simp add: l_linked)
      then have "\<forall>l. x \<notin> set (items L l)" using wf_store_linked [OF heap_repD(1) [OF assms]] by blast
      then show ?thesis using that C(2) [of "Elem x"] heap_repD(3) [OF assms x] by auto
    qed
  qed (auto simp: l_apply l_linked fun_eq_iff)
qed

lemma heap_rep_prepend:
  assumes "heap_rep h L"
  shows "heap_rep (list_prepend (Head k) (Elem e) h) (l_prepend k e L)"
proof -
  let ?c = "list_connect_together (prv (h (Elem e))) (nxt (h (Elem e))) h"
  let ?U = "l_unlink e L"
  note C = connect_heap [OF assms, where e = e]
  have il: "is_list ?c (Head l) (map Elem (items ?U l))" for l using C(1) by (simp add: l_apply)
  have e: "e \<notin> set (items ?U l)" for l by (simp add: l_mem)
  have wf: "wf_store ?U" using heap_repD(1) [OF assms] by simp
  have p: "nxt (?c (Head k)) \<in> insert (Head k) (Elem ` set (items ?U k))"
    using chain_first [of ?c "Head k" "map Elem (items ?U k)" "Head k"] il [of k]
    by (cases "items ?U k") (auto simp: is_list_def)
  have it: "items (l_prepend k e L) k = e # items ?U k" by (simp add: l_apply)
  show ?thesis
  proof (rule put_heap [OF wf _ il e, where k = k])
    show "wf_store (l_prepend k e L)" using heap_repD(1) [OF assms] by simp
    show "is_list (list_prepend (Head k) (Elem e) h) (Head k) (map Elem (items (l_prepend k e L) k))"
      using put_first [OF il [of k], of "Elem e"] e unfolding it
      by (auto simp: list_prepend_def Let_def)
    show "list_prepend (Head k) (Elem e) h n = ?c n"
      if "n \<notin> insert (Elem e) (insert (Head k) (Elem ` set (items ?U k)))" for n
      using that p unfolding list_prepend_def Let_def by (intro put_frame) auto
    show "?c (Elem x) = \<lparr>nxt = Elem x, prv = Elem x\<rparr>" if "x \<noteq> e" "\<not> linked ?U x" for x
    proof -
      have x: "\<not> linked L x" using that by (simp add: l_linked)
      then have "\<forall>l. x \<notin> set (items L l)" using wf_store_linked [OF heap_repD(1) [OF assms]] by blast
      then show ?thesis using that C(2) [of "Elem x"] heap_repD(3) [OF assms x] by auto
    qed
  qed (auto simp: l_apply l_linked fun_eq_iff)
qed

lemma heap_rep_observe:
  assumes "heap_rep h L"
  shows "list_is_empty (Head l) h \<longleftrightarrow> items L l = []"
    and "items L l \<noteq> [] \<Longrightarrow> list_first (Head l) h = Elem (hd (items L l))"
    and "list_is_empty (Elem e) h \<longleftrightarrow> \<not> linked L e"
    and "list_iterate (Head l) h = Some (map Elem (items L l))"
proof -
  note R = heap_repD [OF assms]
  have c: "chain h (Head l) (map Elem (items L l)) (Head l)" for l
    using R(2) by (simp add: is_list_def)
  have n: "nxt (h (Head l)) = hd (map Elem (items L l) @ [Head l])" for l
    by (rule chain_first [OF c])
  show "list_is_empty (Head l) h \<longleftrightarrow> items L l = []"
    using n [of l] by (cases "items L l") (auto simp: list_is_empty_def)
  show "items L l \<noteq> [] \<Longrightarrow> list_first (Head l) h = Elem (hd (items L l))"
    using n [of l] by (cases "items L l") (auto simp: list_first_def)
  show "list_iterate (Head l) h = Some (map Elem (items L l))"
    unfolding list_iterate_def by (rule chain_walk [OF c]) auto
  have "nxt (h (Elem e)) \<noteq> Elem e" if ek: "e \<in> set (items L k)" for k
  proof -
    obtain as bs where s: "items L k = as @ e # bs" using split_list [OF ek] by blast
    have "nxt (h (Elem e)) = hd (map Elem bs @ [Head k])"
      using c [of k] s by (auto dest: chain_first)
    moreover have "e \<notin> set bs" using wf_store_distinct [OF R(1), of k] s by simp
    ultimately show ?thesis by (cases bs) auto
  qed
  then show "list_is_empty (Elem e) h \<longleftrightarrow> \<not> linked L e"
    using R(3) [of e] wf_store_linked [OF R(1)] by (auto simp: list_is_empty_def)
qed

definition heap_first :: "'h \<Rightarrow> ('h, 'e) node heap \<Rightarrow> 'e" where
  "heap_first l h = elem_of (list_first (Head l) h)"

definition heap_iterate :: "'h \<Rightarrow> ('h, 'e) node heap \<Rightarrow> 'e list option" where
  "heap_iterate l h = map_option (map elem_of) (list_iterate (Head l) h)"

interpretation list_h: link_store heap_rep
    "\<lambda>l e. list_append (Head l) (Elem e)" "\<lambda>l e. list_prepend (Head l) (Elem e)"
    "\<lambda>e. list_unlink (Elem e)" "\<lambda>l. list_is_empty (Head l)" heap_first
    "\<lambda>e h. \<not> list_is_empty (Elem e) h" heap_iterate
  by unfold_locales
    (simp_all add: heap_repD heap_rep_append heap_rep_prepend heap_rep_unlink heap_rep_observe
      heap_first_def heap_iterate_def o_def)

text \<open>The abstract store is its own implementation; the kernel model works on it.\<close>

interpretation abs_h: link_store "\<lambda>s L. s = L \<and> wf_store L" l_append l_prepend l_unlink
    "\<lambda>l s. items s l = []" "\<lambda>l s. hd (items s l)" "\<lambda>e s. linked s e" "\<lambda>l s. Some (items s l)"
  by unfold_locales auto

section \<open>The pointer operations do what the contract says\<close>

text \<open>All elements unlinked, all lists empty: every node points to itself.\<close>

definition fresh_heap :: "('h, 'e) node heap" where
  "fresh_heap n = \<lparr>nxt = n, prv = n\<rparr>"

lemma fresh_heap_rep: "heap_rep fresh_heap l_empty"
  by (simp add: heap_rep_def fresh_heap_def is_list_def l_empty_def wf_store_def)

fun list_exec :: "('h, 'e) list_op \<Rightarrow> ('h, 'e) node heap \<Rightarrow> ('h, 'e) node heap" where
  "list_exec (Append l e) = list_append (Head l) (Elem e)"
| "list_exec (Prepend l e) = list_prepend (Head l) (Elem e)"
| "list_exec (Unlink e) = list_unlink (Elem e)"

lemma list_exec_eq: "list_exec p = list_h.exec p"
  by (cases p) simp_all

text \<open>C5: after any sequence of \<open>list_append\<close>, \<open>list_prepend\<close> and \<open>list_unlink\<close> on the
  pointer heap, following the \<open>next\<close> pointers from a list head comes back to the head after
  exactly the elements the sequence semantics puts there, in order. An element already linked
  moves; no element is ever on two lists.\<close>

theorem list_ops_refine:
  assumes "heap_rep h L"
  shows "heap_iterate l (fold list_exec ps h) = Some (items (fold l_exec ps L) l)
    \<and> wf_store (fold l_exec ps L)"
proof -
  have e: "list_exec = list_h.exec" by (rule ext) (rule list_exec_eq)
  show ?thesis unfolding e
    using list_h.run_iterate [OF assms] list_h.rep_wf [OF list_h.rep_run [OF assms]] by blast
qed

theorem list_ops_refine_witness:
  "heap_iterate (0::nat) (fold list_exec [Append (0::nat) 1, Append 0 2, Prepend 1 (3::nat), Append 0 3, Unlink 1] fresh_heap)
    = Some [2, 3]"
proof -
  have "items (fold l_exec [Append (0::nat) 1, Append 0 2, Prepend 1 (3::nat), Append 0 3, Unlink 1] l_empty) 0 = [2, 3]"
    by (simp add: l_apply)
  then show ?thesis using list_ops_refine [OF fresh_heap_rep] by metis
qed

end
