(* ===== verification/Kernel_State.thy ===== *)
theory Kernel_State
  imports Link_Lists
begin

text \<open>
  The kernel's data and its core operations: the task, lock and group structures of
  \<open>kernel/uos.h\<close> and \<open>kernel/internal.h\<close>, the scheduler and the wake-up
  routines of \<open>kernel/main.c\<close>, and the two priority routines of
  \<open>kernel/mutex.c\<close>.

  Pointers to tasks, locks and groups are the types \<open>tid\<close>, \<open>mid\<close> and \<open>gid\<close>;
  the \<open>finish\<close> lock embedded in a task is \<open>Finish t\<close>. The intrusive lists the
  structures are linked in form one store (theory \<open>Link_Lists\<close>). A blocked task sits
  inside a kernel call: the rest of that call is kept as a list of frames, the model of the
  task's saved stack context, and runs when the scheduler picks the task again.

  The stack area of a task is not modelled, only whether its lowest byte still holds
  \<open>STACK_MAGIC\<close> (\<open>t_guard\<close>); the event \<open>Overflow\<close> of theory \<open>Kernel_Run\<close> clears it. The depth of a
  lock is a \<open>small_int_t\<close>, 16 bits on the MSP430, and wraps around. Priorities are
  copied and compared only.
\<close>

section \<open>Data\<close>

type_synonym tid = nat
type_synonym gid = nat
type_synonym msg = nat

text \<open>\<open>small_int_t\<close>, read with \<open>sint\<close>.\<close>

type_synonym small_int = "16 word"

datatype mid = Lock nat | Finish tid

datatype list_head = TaskActive | Waiters mid | Slaves mid | Owned tid | Groups mid

datatype item = TaskItem tid | LockItem mid | SlotItem gid nat

text \<open>What is left to do in a kernel call that gave up the processor.\<close>

datatype frame =
    FLock mid
  | FLockIrq mid nat nat nat
  | FReacquire mid small_int
  | FWaitDone
  | FGroupWait gid
  | FDelete tid msg
  | FDeleteEnd

datatype retval = RNone | RBool bool | RMsg msg | RSlot mid msg

record task_t =
  t_lock :: "mid option"
  t_wait :: "mid option"
  t_message :: msg
  t_private :: nat
  t_name :: string
  t_base :: int
  t_prio :: int
  t_ticks :: u32
  t_guard :: bool

record mutex_t =
  m_init :: bool
  m_master :: "tid option"
  m_irq :: "nat option"
  m_prio :: int
  m_deep :: small_int

record mutex_irq_t =
  q_lock :: "mid option"
  q_handler :: nat
  q_arg :: nat
  q_irq :: nat
  q_pending :: bool

record mutex_slot_t =
  s_lock :: mid
  s_message :: msg
  s_active :: bool

record mutex_group_t =
  g_waiter :: "tid option"
  g_size :: nat
  g_slots :: "mutex_slot_t list"

record kstate =
  lists :: "(list_head, item) store"
  task :: "tid \<Rightarrow> task_t"
  mtx :: "mid \<Rightarrow> mutex_t"
  grp :: "gid \<Rightarrow> mutex_group_t"
  irqv :: "nat \<Rightarrow> mutex_irq_t"
  current :: tid
  need_schedule :: bool
  idle :: tid
  stack :: "tid \<Rightarrow> frame list"
  retv :: "tid \<Rightarrow> retval"

text \<open>
  The fast interrupt handlers are driver code. A handler is a parameter of the operations
  that call it: from its argument it computes whether it fully serviced the interrupt and
  which locks it activates, with which message (\<open>timer/timer.c\<close> does both).
\<close>

type_synonym fast_handler = "nat \<Rightarrow> nat \<Rightarrow> bool \<times> (mid \<times> msg) list"

abbreviation lst :: "kstate \<Rightarrow> list_head \<Rightarrow> item list" where
  "lst s l \<equiv> items (lists s) l"

definition upd_task :: "tid \<Rightarrow> (task_t \<Rightarrow> task_t) \<Rightarrow> kstate \<Rightarrow> kstate" where
  "upd_task t f s = s\<lparr>task := (task s)(t := f (task s t))\<rparr>"

definition upd_mtx :: "mid \<Rightarrow> (mutex_t \<Rightarrow> mutex_t) \<Rightarrow> kstate \<Rightarrow> kstate" where
  "upd_mtx m f s = s\<lparr>mtx := (mtx s)(m := f (mtx s m))\<rparr>"

definition upd_grp :: "gid \<Rightarrow> (mutex_group_t \<Rightarrow> mutex_group_t) \<Rightarrow> kstate \<Rightarrow> kstate" where
  "upd_grp g f s = s\<lparr>grp := (grp s)(g := f (grp s g))\<rparr>"

definition upd_irq :: "nat \<Rightarrow> (mutex_irq_t \<Rightarrow> mutex_irq_t) \<Rightarrow> kstate \<Rightarrow> kstate" where
  "upd_irq q f s = s\<lparr>irqv := (irqv s)(q := f (irqv s q))\<rparr>"

definition upd_lists ::
  "((list_head, item) store \<Rightarrow> (list_head, item) store) \<Rightarrow> kstate \<Rightarrow> kstate" where
  "upd_lists f s = s\<lparr>lists := f (lists s)\<rparr>"

definition push_frame :: "frame \<Rightarrow> kstate \<Rightarrow> kstate" where
  "push_frame k s = s\<lparr>stack := (stack s)(current s := k # stack s (current s))\<rparr>"

definition set_ret :: "retval \<Rightarrow> kstate \<Rightarrow> kstate" where
  "set_ret v s = s\<lparr>retv := (retv s)(current s := v)\<rparr>"

lemmas upd_defs = upd_task_def upd_mtx_def upd_grp_def upd_irq_def upd_lists_def
  push_frame_def set_ret_def

section \<open>Scheduler\<close>

definition task_is_waiting :: "kstate \<Rightarrow> tid \<Rightarrow> bool" where
  "task_is_waiting s t \<longleftrightarrow> t_lock (task s t) \<noteq> None \<or> t_wait (task s t) \<noteq> None"

definition task_activate :: "tid \<Rightarrow> kstate \<Rightarrow> kstate option" where
  "task_activate t s = do {
     assert_c (\<not> task_is_waiting s t);
     let s = upd_lists (l_append TaskActive (TaskItem t)) s;
     Some (if t_prio (task s (current s)) < t_prio (task s t)
           then s\<lparr>need_schedule := True\<rparr> else s)
   }"

fun policy_pick :: "kstate \<Rightarrow> item \<Rightarrow> tid \<Rightarrow> tid" where
  "policy_pick s (TaskItem t) r = (if t_prio (task s t) > t_prio (task s r) then t else r)"
| "policy_pick s _ r = r"

definition task_policy :: "kstate \<Rightarrow> tid" where
  "task_policy s = fold (policy_pick s) (lst s TaskActive) (idle s)"

definition task_schedule :: "kstate \<Rightarrow> kstate" where
  "task_schedule s =
     (let s = s\<lparr>need_schedule := False\<rparr>;
          new = task_policy s
      in if new \<noteq> current s
         then (upd_task new (\<lambda>t. t\<lparr>t_ticks := t_ticks t + 1\<rparr>) s)\<lparr>current := new\<rparr>
         else s)"

definition schedule_if_needed :: "kstate \<Rightarrow> kstate" where
  "schedule_if_needed s = (if need_schedule s then task_schedule s else s)"

section \<open>Locks: initialisation and wake-up\<close>

definition mutex_init :: "mid \<Rightarrow> kstate \<Rightarrow> kstate" where
  "mutex_init m s =
     upd_mtx m (\<lambda>_. \<lparr>m_init = True, m_master = None, m_irq = None, m_prio = 0, m_deep = 0\<rparr>)
       (upd_lists (\<lambda>L. l_init (Groups m) (l_init (Slaves m) (l_init (Waiters m) (l_unlink (LockItem m) L)))) s)"

definition ensure_init :: "mid \<Rightarrow> kstate \<Rightarrow> kstate" where
  "ensure_init m s = (if m_init (mtx s m) then s else mutex_init m s)"

lemma task_activate_lists:
  "task_activate t s = Some s' \<Longrightarrow> lists s' = l_append TaskActive (TaskItem t) (lists s)"
  by (auto simp: task_activate_def upd_lists_def Let_def)

text \<open>
  The two wake-up loops take the first element until the list is empty; each round moves
  that element to \<open>task_active\<close>, so the list gets shorter.
\<close>

lemma wake_shorter:
  assumes "task_activate t s' = Some s''" "lists s' = lists s"
    and "lst s l = TaskItem t # rest" "l \<noteq> TaskActive"
  shows "length (lst s'' l) < length (lst s l)"
  using assms length_removeAll_in [of "TaskItem t" "lst s l"]
  by (simp add: task_activate_lists l_apply del: removeAll.simps)

function activate_waiters :: "mid \<Rightarrow> msg \<Rightarrow> kstate \<Rightarrow> kstate option" where
  "activate_waiters m msg s =
     (case lst s (Waiters m) of
        [] \<Rightarrow> Some s
      | TaskItem t # _ \<Rightarrow>
          (if t_wait (task s t) \<noteq> Some m then None
           else case task_activate t (upd_task t (\<lambda>r. r\<lparr>t_wait := None, t_message := msg\<rparr>) s) of
                  None \<Rightarrow> None
                | Some s' \<Rightarrow> activate_waiters m msg s')
      | _ \<Rightarrow> None)"
  by pat_completeness auto
termination
  by (relation "measure (\<lambda>(m, msg, s). length (lst s (Waiters m)))")
    (auto simp del: removeAll.simps dest: wake_shorter simp: upd_task_def)

declare activate_waiters.simps [simp del]

function wake_slaves :: "mid \<Rightarrow> kstate \<Rightarrow> kstate option" where
  "wake_slaves m s =
     (case lst s (Slaves m) of
        [] \<Rightarrow> Some s
      | TaskItem t # _ \<Rightarrow>
          (if t_lock (task s t) \<noteq> Some m then None
           else case task_activate t (upd_task t (\<lambda>r. r\<lparr>t_lock := None\<rparr>) s) of
                  None \<Rightarrow> None
                | Some s' \<Rightarrow> wake_slaves m s')
      | _ \<Rightarrow> None)"
  by pat_completeness auto
termination
  by (relation "measure (\<lambda>(m, s). length (lst s (Slaves m)))")
    (auto simp del: removeAll.simps dest: wake_shorter simp: upd_task_def)

declare wake_slaves.simps [simp del]

text \<open>Group slots on the lock get the message; a task waiting for its group wakes up.\<close>

definition signal_slot :: "msg \<Rightarrow> mutex_slot_t \<Rightarrow> mutex_slot_t" where
  "signal_slot msg r = r\<lparr>s_message := msg, s_active := True\<rparr>"

fun activate_groups :: "mid \<Rightarrow> msg \<Rightarrow> item list \<Rightarrow> kstate \<Rightarrow> kstate option" where
  "activate_groups m msg [] s = Some s"
| "activate_groups m msg (SlotItem g i # is) s = do {
     assert_c (i < length (g_slots (grp s g)) \<and> s_lock (g_slots (grp s g) ! i) = m);
     let s = upd_grp g (\<lambda>r. r\<lparr>g_slots := (g_slots r)[i := signal_slot msg (g_slots r ! i)]\<rparr>) s;
     s \<leftarrow> (case g_waiter (grp s g) of
            None \<Rightarrow> Some s
          | Some t \<Rightarrow> do {
              assert_c (\<not> linked (lists s) (TaskItem t));
              task_activate t (upd_grp g (\<lambda>r. r\<lparr>g_waiter := None\<rparr>) s)
            });
     activate_groups m msg is s
   }"
| "activate_groups m msg (_ # is) s = None"

definition mutex_activate :: "mid \<Rightarrow> msg \<Rightarrow> kstate \<Rightarrow> kstate option" where
  "mutex_activate m msg s = do {
     let s = ensure_init m s;
     s \<leftarrow> activate_waiters m msg s;
     activate_groups m msg (lst s (Groups m)) s
   }"

fun activate_all :: "(mid \<times> msg) list \<Rightarrow> kstate \<Rightarrow> kstate option" where
  "activate_all [] s = Some s"
| "activate_all ((m, msg) # as) s = do { s \<leftarrow> mutex_activate m msg s; activate_all as s }"

definition call_handler :: "fast_handler \<Rightarrow> nat \<Rightarrow> kstate \<Rightarrow> (bool \<times> kstate) option" where
  "call_handler fast q s =
     (let (done, acts) = fast (q_handler (irqv s q)) (q_arg (irqv s q))
      in map_option (Pair done) (activate_all acts s))"

section \<open>Priorities\<close>

text \<open>
  \<open>task_recalculate_prio\<close> and \<open>mutex_recalculate_prio\<close> call each other, always in
  tail position, along the chain task, lock it is blocked on, master of that lock. One link of
  the chain is a function that returns the next object to visit; the chain itself may not end
  when tasks block each other in a circle, so the walk is a partial function.
\<close>

definition owned_locks :: "kstate \<Rightarrow> tid \<Rightarrow> mid list" where
  "owned_locks s t = [m. LockItem m \<leftarrow> lst s (Owned t)]"

definition slave_tasks :: "kstate \<Rightarrow> mid \<Rightarrow> tid list" where
  "slave_tasks s m = [t. TaskItem t \<leftarrow> lst s (Slaves m)]"

definition max_prio :: "int \<Rightarrow> int list \<Rightarrow> int" where
  "max_prio p ps = fold (\<lambda>q r. if r < q then q else r) ps p"

definition task_reprio :: "tid \<Rightarrow> kstate \<Rightarrow> kstate \<times> mid option" where
  "task_reprio t s =
     (let old_prio = t_prio (task s t);
          new_prio = max_prio (t_base (task s t)) (map (\<lambda>m. m_prio (mtx s m)) (owned_locks s t));
          s = upd_task t (\<lambda>r. r\<lparr>t_prio := new_prio\<rparr>) s
      in if new_prio \<noteq> old_prio then
           (case t_lock (task s t) of
              Some l \<Rightarrow>
                if new_prio > old_prio then
                  (s, if m_prio (mtx s l) < new_prio then Some l else None)
                else
                  (s, if m_prio (mtx s l) \<le> old_prio then Some l else None)
            | None \<Rightarrow>
                if new_prio > old_prio then
                  (if t_prio (task s (current s)) < new_prio \<and> \<not> task_is_waiting s t
                   then (s\<lparr>need_schedule := True\<rparr>, None) else (s, None))
                else if t = current s then (s\<lparr>need_schedule := True\<rparr>, None)
                else (s, None))
         else (s, None))"

definition mutex_reprio :: "mid \<Rightarrow> kstate \<Rightarrow> kstate \<times> tid option" where
  "mutex_reprio m s =
     (let old_prio = m_prio (mtx s m);
          new_prio = max_prio 0 (map (\<lambda>t. t_prio (task s t)) (slave_tasks s m));
          s = upd_mtx m (\<lambda>r. r\<lparr>m_prio := new_prio\<rparr>) s
      in case m_master (mtx s m) of
           None \<Rightarrow> (s, None)
         | Some t \<Rightarrow>
             if new_prio \<noteq> old_prio then
               if new_prio > old_prio then
                 (s, if t_prio (task s t) < new_prio then Some t else None)
               else
                 (s, if t_prio (task s t) \<le> old_prio \<and> t_base (task s t) < old_prio
                     then Some t else None)
             else (s, None))"

partial_function (option) task_recalculate_prio :: "tid \<Rightarrow> kstate \<Rightarrow> kstate option" where
  "task_recalculate_prio t s =
     (case snd (task_reprio t s) of
        None \<Rightarrow> Some (fst (task_reprio t s))
      | Some m \<Rightarrow>
          (case snd (mutex_reprio m (fst (task_reprio t s))) of
             None \<Rightarrow> Some (fst (mutex_reprio m (fst (task_reprio t s))))
           | Some t' \<Rightarrow> task_recalculate_prio t' (fst (mutex_reprio m (fst (task_reprio t s))))))"

declare task_recalculate_prio.simps [code]

definition mutex_recalculate_prio :: "mid \<Rightarrow> kstate \<Rightarrow> kstate option" where
  "mutex_recalculate_prio m s =
     (case mutex_reprio m s of
        (s, None) \<Rightarrow> Some s
      | (s, Some t) \<Rightarrow> task_recalculate_prio t s)"

end
