(* ===== verification/Kernel_Calls.thy ===== *)
theory Kernel_Calls
  imports Kernel_State
begin

text \<open>
  The kernel calls of \<open>kernel/uos.h\<close>: locks (\<open>mutex.c\<close>, \<open>mtry.c\<close>,
  \<open>msignal.c\<close>), interrupt-bound locks (\<open>itake.c\<close>, \<open>irelease.c\<close>,
  \<open>iattach.c\<close>), lock groups (\<open>mgroup.c\<close>), tasks (\<open>tcreate.c\<close>,
  \<open>tdelete.c\<close>, \<open>texit.c\<close>, \<open>twait.c\<close>, \<open>tyield.c\<close>, \<open>tprio.c\<close>,
  \<open>tsetprio.c\<close>, \<open>tprivate.c\<close>, \<open>tsetprivate.c\<close>, \<open>tname.c\<close>,
  \<open>tstack.c\<close>) and the interrupt entry (\<open>msp430/machdep.c\<close>).

  A call runs with interrupts disabled, from its start or from the frame it left behind, up to
  the next \<open>task_schedule\<close> or its return: one definition per such stretch. Before a call
  gives up the processor in the middle, it pushes the frame that says where it goes on.
  Interrupt masking (\<open>arch_intr_bind\<close>, \<open>arch_intr_allow\<close>) touches hardware only
  and has no counterpart in the state.
\<close>

definition current_task :: "kstate \<Rightarrow> task_t" where
  "current_task s = task s (current s)"

definition stack_guard :: "kstate \<Rightarrow> bool" where
  "stack_guard s \<longleftrightarrow> t_guard (current_task s)"

section \<open>Acquiring a lock\<close>

text \<open>The body of the blocking loop: queue up behind the master, raise priorities.\<close>

definition lock_block :: "mid \<Rightarrow> tid \<Rightarrow> frame \<Rightarrow> kstate \<Rightarrow> kstate option" where
  "lock_block m master k s = do {
     assert_c (t_lock (current_task s) = None);
     assert_c (sint (m_deep (mtx s m)) > 0);
     let s = upd_task (current s) (\<lambda>r. r\<lparr>t_lock := Some m\<rparr>) s;
     let s = upd_lists (l_append (Slaves m) (TaskItem (current s))) s;
     let s = (if m_prio (mtx s m) < t_prio (current_task s) then
                let s = upd_mtx m (\<lambda>r. r\<lparr>m_prio := t_prio (current_task s)\<rparr>) s
                in if t_prio (task s master) < m_prio (mtx s m)
                   then upd_task master (\<lambda>r. r\<lparr>t_prio := m_prio (mtx s m)\<rparr>) s else s
              else s);
     Some (task_schedule (push_frame k s))
   }"

text \<open>The lock is free: take it.\<close>

definition lock_take :: "mid \<Rightarrow> kstate \<Rightarrow> kstate option" where
  "lock_take m s = do {
     assert_c (lst s (Slaves m) = []);
     assert_c (m_deep (mtx s m) = 0);
     let s = upd_mtx m (\<lambda>r. r\<lparr>m_master := Some (current s)\<rparr>) s;
     let s = upd_lists (l_append (Owned (current s)) (LockItem m)) s;
     Some (if t_prio (current_task s) < m_prio (mtx s m)
           then upd_task (current s) (\<lambda>r. r\<lparr>t_prio := m_prio (mtx s m)\<rparr>) s else s)
   }"

definition deeper :: "mid \<Rightarrow> kstate \<Rightarrow> kstate" where
  "deeper m s = upd_mtx m (\<lambda>r. r\<lparr>m_deep := m_deep r + 1\<rparr>) s"

definition mutex_lock_loop :: "mid \<Rightarrow> kstate \<Rightarrow> kstate option" where
  "mutex_lock_loop m s =
     (case m_master (mtx s m) of
        Some t \<Rightarrow> if t \<noteq> current s then lock_block m t (FLock m) s else Some (deeper m s)
      | None \<Rightarrow> do { s \<leftarrow> lock_take m s; Some (deeper m s) })"

definition mutex_lock :: "mid \<Rightarrow> kstate \<Rightarrow> kstate option" where
  "mutex_lock m s = do {
     assert_c (stack_guard s);
     assert_c (m_master (mtx s m) \<noteq> Some (current s));
     mutex_lock_loop m (ensure_init m s)
   }"

definition mutex_trylock :: "mid \<Rightarrow> kstate \<Rightarrow> kstate option" where
  "mutex_trylock m s = do {
     assert_c (stack_guard s);
     let s = ensure_init m s;
     (case m_master (mtx s m) of
        Some t \<Rightarrow>
          if t \<noteq> current s then Some (set_ret (RBool False) s)
          else Some (set_ret (RBool True) (deeper m s))
      | None \<Rightarrow> do { s \<leftarrow> lock_take m s; Some (set_ret (RBool True) (deeper m s)) })
   }"

text \<open>\<open>mutex_lock_irq\<close> goes on to bind the interrupt once it has the lock.\<close>

definition bind_irq :: "mid \<Rightarrow> nat \<Rightarrow> nat \<Rightarrow> nat \<Rightarrow> kstate \<Rightarrow> kstate" where
  "bind_irq m irq func arg s =
     upd_irq irq (\<lambda>r. r\<lparr>q_lock := Some m, q_irq := irq, q_handler := func, q_arg := arg,
                       q_pending := False\<rparr>)
       (upd_mtx m (\<lambda>r. r\<lparr>m_irq := Some irq\<rparr>) s)"

definition mutex_lock_irq_loop :: "mid \<Rightarrow> nat \<Rightarrow> nat \<Rightarrow> nat \<Rightarrow> kstate \<Rightarrow> kstate option" where
  "mutex_lock_irq_loop m irq func arg s =
     (case m_master (mtx s m) of
        Some t \<Rightarrow>
          if t \<noteq> current s then lock_block m t (FLockIrq m irq func arg) s
          else Some (bind_irq m irq func arg (deeper m s))
      | None \<Rightarrow> do { s \<leftarrow> lock_take m s; Some (bind_irq m irq func arg (deeper m s)) })"

definition mutex_lock_irq :: "mid \<Rightarrow> nat \<Rightarrow> nat \<Rightarrow> nat \<Rightarrow> kstate \<Rightarrow> kstate option" where
  "mutex_lock_irq m irq func arg s = do {
     assert_c (stack_guard s);
     mutex_lock_irq_loop m irq func arg (ensure_init m s)
   }"

definition mutex_attach_irq :: "mid \<Rightarrow> nat \<Rightarrow> nat \<Rightarrow> nat \<Rightarrow> kstate \<Rightarrow> kstate option" where
  "mutex_attach_irq m irq func arg s = do {
     let s = ensure_init m s;
     assert_c (q_lock (irqv s irq) = None);
     Some (bind_irq m irq func arg s)
   }"

section \<open>Releasing a lock\<close>

text \<open>The part of \<open>mutex_unlock\<close> and \<open>mutex_wait\<close> that takes the lock from its
  master: unlink it and recompute the master's priority.\<close>

definition lock_drop :: "mid \<Rightarrow> tid \<Rightarrow> kstate \<Rightarrow> kstate option" where
  "lock_drop m master s = do {
     let s = upd_lists (l_unlink (LockItem m)) s;
     s \<leftarrow> (if t_prio (task s master) \<le> m_prio (mtx s m) \<and> t_base (task s master) < m_prio (mtx s m)
           then task_recalculate_prio master s else Some s);
     Some (upd_mtx m (\<lambda>r. r\<lparr>m_master := None\<rparr>) s)
   }"

text \<open>A pending interrupt is handled now; unless the handler is done with it, the tasks waiting
  for it wake up.\<close>

definition handle_pending :: "fast_handler \<Rightarrow> mid \<Rightarrow> nat \<Rightarrow> kstate \<Rightarrow> (bool \<times> kstate) option" where
  "handle_pending fast m q s =
     (if q_pending (irqv s q) then do {
        (done, s) \<leftarrow> call_handler fast q (upd_irq q (\<lambda>r. r\<lparr>q_pending := False\<rparr>) s);
        if done then Some (False, s)
        else do { s \<leftarrow> mutex_activate m 0 s; Some (True, s) }
      } else Some (False, s))"

definition wake_all_slaves :: "mid \<Rightarrow> kstate \<Rightarrow> kstate option" where
  "wake_all_slaves m s =
     (if lst s (Slaves m) \<noteq> [] then do {
        s \<leftarrow> wake_slaves m s;
        Some (upd_mtx m (\<lambda>r. r\<lparr>m_prio := 0\<rparr>) s)
      } else Some s)"

definition mutex_unlock :: "fast_handler \<Rightarrow> mid \<Rightarrow> kstate \<Rightarrow> kstate option" where
  "mutex_unlock fast m s = do {
     assert_c (stack_guard s);
     (case m_master (mtx s m) of
        None \<Rightarrow> None
      | Some master \<Rightarrow> do {
          let s = upd_mtx m (\<lambda>r. r\<lparr>m_deep := m_deep r - 1\<rparr>) s;
          if sint (m_deep (mtx s m)) > 0 then Some s
          else do {
            s \<leftarrow> lock_drop m master s;
            s \<leftarrow> (case m_irq (mtx s m) of
                   None \<Rightarrow> Some s
                 | Some q \<Rightarrow> map_option snd (handle_pending fast m q s));
            s \<leftarrow> wake_all_slaves m s;
            Some (schedule_if_needed s)
          }
        })
   }"

definition mutex_unlock_irq :: "fast_handler \<Rightarrow> mid \<Rightarrow> kstate \<Rightarrow> kstate option" where
  "mutex_unlock_irq fast m s = do {
     assert_c (stack_guard s);
     (case m_master (mtx s m) of
        None \<Rightarrow> None
      | Some master \<Rightarrow> do {
          assert_c (sint (m_deep (mtx s m)) > 0);
          let s = upd_mtx m (\<lambda>r. r\<lparr>m_deep := m_deep r - 1\<rparr>) s;
          if sint (m_deep (mtx s m)) > 0 then Some s
          else do {
            s \<leftarrow> lock_drop m master s;
            s \<leftarrow> (case m_irq (mtx s m) of
                   None \<Rightarrow> Some s
                 | Some q \<Rightarrow> do {
                     (_, s) \<leftarrow> handle_pending fast m q s;
                     Some (upd_mtx m (\<lambda>r. r\<lparr>m_irq := None\<rparr>)
                             (upd_irq q (\<lambda>r. r\<lparr>q_lock := None\<rparr>) s))
                   });
            s \<leftarrow> wake_all_slaves m s;
            Some (schedule_if_needed s)
          }
        })
   }"

section \<open>Signals\<close>

definition mutex_signal :: "mid \<Rightarrow> msg \<Rightarrow> kstate \<Rightarrow> kstate option" where
  "mutex_signal m msg s = do {
     assert_c (stack_guard s);
     let s = ensure_init m s;
     if lst s (Waiters m) \<noteq> [] \<or> lst s (Groups m) \<noteq> [] then do {
       s \<leftarrow> mutex_activate m msg s;
       Some (schedule_if_needed s)
     } else Some s
   }"

definition wait_block :: "mid \<Rightarrow> kstate \<Rightarrow> kstate option" where
  "wait_block m s = do {
     let s = upd_task (current s) (\<lambda>r. r\<lparr>t_wait := Some m\<rparr>) s;
     let s = upd_lists (l_append (Waiters m) (TaskItem (current s))) s;
     if m_master (mtx s m) \<noteq> Some (current s)
     then Some (task_schedule (push_frame FWaitDone s))
     else do {
       let deep = m_deep (mtx s m);
       assert_c (sint deep > 0);
       let s = upd_mtx m (\<lambda>r. r\<lparr>m_deep := 0\<rparr>) s;
       s \<leftarrow> lock_drop m (current s) s;
       s \<leftarrow> wake_slaves m s;
       let s = upd_mtx m (\<lambda>r. r\<lparr>m_prio := 0\<rparr>) s;
       Some (task_schedule (push_frame (FReacquire m deep) s))
     }
   }"

definition mutex_wait :: "fast_handler \<Rightarrow> mid \<Rightarrow> kstate \<Rightarrow> kstate option" where
  "mutex_wait fast m s = do {
     assert_c (stack_guard s);
     assert_c (t_wait (current_task s) = None);
     let s = ensure_init m s;
     (activated, s) \<leftarrow> (case m_irq (mtx s m) of
                          None \<Rightarrow> Some (False, s)
                        | Some q \<Rightarrow> handle_pending fast m q s);
     if activated then Some (schedule_if_needed (set_ret (RMsg 0) s))
     else wait_block m s
   }"

text \<open>Back from \<open>task_schedule\<close> in \<open>mutex_wait\<close>: acquire the lock again.\<close>

definition mutex_reacquire :: "mid \<Rightarrow> small_int \<Rightarrow> kstate \<Rightarrow> kstate option" where
  "mutex_reacquire m deep s =
     (case m_master (mtx s m) of
        Some t \<Rightarrow> lock_block m t (FReacquire m deep) s
      | None \<Rightarrow> do {
          let s = upd_mtx m (\<lambda>r. r\<lparr>m_master := Some (current s)\<rparr>) s;
          assert_c (m_deep (mtx s m) = 0);
          let s = upd_mtx m (\<lambda>r. r\<lparr>m_deep := deep\<rparr>) s;
          let s = upd_lists (l_append (Owned (current s)) (LockItem m)) s;
          let s = (if t_prio (current_task s) < m_prio (mtx s m)
                   then upd_task (current s) (\<lambda>r. r\<lparr>t_prio := m_prio (mtx s m)\<rparr>) s else s);
          Some (set_ret (RMsg (t_message (current_task s))) s)
        })"

section \<open>Lock groups\<close>

text \<open>The group structure lives in a zeroed buffer; the two sizes are the target's
  \<open>sizeof (mutex_group_t)\<close> and \<open>sizeof (mutex_slot_t)\<close>.\<close>

definition mutex_group_init :: "nat \<Rightarrow> nat \<Rightarrow> gid \<Rightarrow> nat \<Rightarrow> kstate \<Rightarrow> kstate option" where
  "mutex_group_init sz_group sz_slot g buf_size s = do {
     assert_c (buf_size \<ge> sz_group);
     Some (upd_grp g (\<lambda>r. r\<lparr>g_size := 1 + (buf_size - sz_group) div sz_slot\<rparr>) s)
   }"

definition mutex_group_add :: "gid \<Rightarrow> mid \<Rightarrow> kstate \<Rightarrow> kstate" where
  "mutex_group_add g m s =
     (let s = ensure_init m s
      in if length (g_slots (grp s g)) \<ge> g_size (grp s g) then set_ret (RBool False) s
         else set_ret (RBool True)
           (upd_grp g (\<lambda>r. r\<lparr>g_slots := g_slots r
              @ [\<lparr>s_lock = m, s_message = 0, s_active = False\<rparr>]\<rparr>) s))"

definition clear_message :: "gid \<Rightarrow> nat \<Rightarrow> kstate \<Rightarrow> kstate" where
  "clear_message g i = upd_grp g
     (\<lambda>r. r\<lparr>g_slots := (g_slots r)[i := (g_slots r ! i)\<lparr>s_message := 0\<rparr>]\<rparr>)"

text \<open>The loops over the slots run from the last to the first.\<close>

fun listen_slots :: "gid \<Rightarrow> nat \<Rightarrow> kstate \<Rightarrow> kstate option" where
  "listen_slots g 0 s = Some s"
| "listen_slots g (Suc i) s = do {
     assert_c (\<not> linked (lists s) (SlotItem g i));
     let s = clear_message g i s;
     listen_slots g i
       (upd_lists (l_prepend (Groups (s_lock (g_slots (grp s g) ! i))) (SlotItem g i)) s)
   }"

fun unlisten_slots :: "gid \<Rightarrow> nat \<Rightarrow> kstate \<Rightarrow> kstate option" where
  "unlisten_slots g 0 s = Some s"
| "unlisten_slots g (Suc i) s = do {
     assert_c (linked (lists s) (SlotItem g i));
     unlisten_slots g i (upd_lists (l_unlink (SlotItem g i)) (clear_message g i s))
   }"

definition mutex_group_listen :: "gid \<Rightarrow> kstate \<Rightarrow> kstate option" where
  "mutex_group_listen g s = do {
     assert_c (stack_guard s);
     listen_slots g (length (g_slots (grp s g))) s
   }"

definition mutex_group_unlisten :: "gid \<Rightarrow> kstate \<Rightarrow> kstate option" where
  "mutex_group_unlisten g s = do {
     assert_c (stack_guard s);
     unlisten_slots g (length (g_slots (grp s g))) s
   }"

fun find_active :: "mutex_slot_t list \<Rightarrow> nat \<Rightarrow> nat option" where
  "find_active ss 0 = None"
| "find_active ss (Suc i) = (if s_active (ss ! i) then Some i else find_active ss i)"

definition group_wait_loop :: "gid \<Rightarrow> kstate \<Rightarrow> kstate" where
  "group_wait_loop g s =
     (let ss = g_slots (grp s g)
      in case find_active ss (length ss) of
           Some i \<Rightarrow> set_ret (RSlot (s_lock (ss ! i)) (s_message (ss ! i)))
                       (upd_grp g (\<lambda>r. r\<lparr>g_slots := ss[i := (ss ! i)\<lparr>s_active := False\<rparr>]\<rparr>) s)
         | None \<Rightarrow>
             (let s = upd_lists (l_unlink (TaskItem (current s))) s;
                  s = upd_grp g (\<lambda>r. r\<lparr>g_waiter := Some (current s)\<rparr>) s
              in task_schedule (push_frame (FGroupWait g) s)))"

definition mutex_group_wait :: "gid \<Rightarrow> kstate \<Rightarrow> kstate option" where
  "mutex_group_wait g s = do {
     assert_c (stack_guard s);
     assert_c (t_wait (current_task s) = None);
     assert_c (length (g_slots (grp s g)) > 0);
     Some (group_wait_loop g s)
   }"

section \<open>Tasks\<close>

definition zero_mutex :: mutex_t where
  "zero_mutex = \<lparr>m_init = False, m_master = None, m_irq = None, m_prio = 0, m_deep = 0\<rparr>"

definition new_task :: "string \<Rightarrow> int \<Rightarrow> task_t" where
  "new_task name prio = \<lparr>t_lock = None, t_wait = None, t_message = 0, t_private = 0,
     t_name = name, t_base = prio, t_prio = prio, t_ticks = 0, t_guard = True\<rparr>"

text \<open>The task structure is zeroed with the lock in it and starts in user code, on an empty
  kernel stack.\<close>

definition task_create :: "tid \<Rightarrow> string \<Rightarrow> int \<Rightarrow> kstate \<Rightarrow> kstate option" where
  "task_create t name prio s =
     (let s = upd_task t (\<lambda>_. new_task name prio) s;
          s = upd_mtx (Finish t) (\<lambda>_. zero_mutex) s;
          s = upd_lists (\<lambda>L. l_init (Groups (Finish t)) (l_init (Slaves (Finish t))
                (l_init (Waiters (Finish t)) (l_init (Owned t) (l_unlink (TaskItem t) L))))) s;
          s = s\<lparr>stack := (stack s)(t := []), retv := (retv s)(t := RNone)\<rparr>
      in task_activate t s)"

definition task_delete :: "tid \<Rightarrow> msg \<Rightarrow> kstate \<Rightarrow> kstate option" where
  "task_delete t message s = do {
     let s = upd_lists (l_unlink (TaskItem t)) s;
     let s = (if t = current s then s\<lparr>need_schedule := True\<rparr> else s);
     s \<leftarrow> (case t_lock (task s t) of
            None \<Rightarrow> Some s
          | Some l \<Rightarrow> do {
              s \<leftarrow> (if m_prio (mtx s l) \<le> t_prio (task s t) then mutex_recalculate_prio l s else Some s);
              Some (upd_task t (\<lambda>r. r\<lparr>t_lock := None\<rparr>) s)
            });
     let s = upd_task t (\<lambda>r. r\<lparr>t_wait := None\<rparr>) s;
     Some (push_frame (FDelete t message) s)
   }"

text \<open>The loop that releases the locks of the deleted task, one \<open>mutex_unlock\<close> call per
  round, and then the end of \<open>task_delete\<close>.\<close>

definition task_delete_loop :: "fast_handler \<Rightarrow> tid \<Rightarrow> msg \<Rightarrow> kstate \<Rightarrow> kstate option" where
  "task_delete_loop fast t message s =
     (case lst s (Owned t) of
        LockItem m # _ \<Rightarrow> do {
          assert_c (m_master (mtx s m) = Some t);
          mutex_unlock fast m (push_frame (FDelete t message) s)
        }
      | _ # _ \<Rightarrow> None
      | [] \<Rightarrow> do {
          let s = upd_task t (\<lambda>r. r\<lparr>t_base := 0\<rparr>) s;
          mutex_signal (Finish t) message (push_frame FDeleteEnd s)
        })"

definition task_exit :: "msg \<Rightarrow> kstate \<Rightarrow> kstate option" where
  "task_exit message s = task_delete (current s) message s"

definition task_yield :: "kstate \<Rightarrow> kstate" where
  "task_yield s = task_schedule (upd_lists (l_append TaskActive (TaskItem (current s))) s)"

definition task_priority :: "kstate \<Rightarrow> tid \<Rightarrow> int" where
  "task_priority s t = t_base (task s t)"

definition task_set_priority :: "tid \<Rightarrow> int \<Rightarrow> kstate \<Rightarrow> kstate option" where
  "task_set_priority t new_prio s = do {
     assert_c (stack_guard s);
     let s = upd_task t (\<lambda>r. r\<lparr>t_base := new_prio\<rparr>) s;
     s \<leftarrow> task_recalculate_prio t s;
     Some (schedule_if_needed s)
   }"

definition task_private :: "kstate \<Rightarrow> tid \<Rightarrow> nat" where
  "task_private s t = t_private (task s t)"

definition task_set_private :: "tid \<Rightarrow> nat \<Rightarrow> kstate \<Rightarrow> kstate option" where
  "task_set_private t p s = do {
     assert_c (stack_guard s);
     Some (upd_task t (\<lambda>r. r\<lparr>t_private := p\<rparr>) s)
   }"

text \<open>
  \<open>task_name\<close> looks at up to 16 bytes of the name: a terminator after more than two of
  them returns the name, anything else is reported as damaged. The bytes are the memory the
  name pointer leads to.
\<close>

fun task_name_scan :: "nat \<Rightarrow> (nat \<Rightarrow> u8) \<Rightarrow> nat \<Rightarrow> bool" where
  "task_name_scan 0 p n = False"
| "task_name_scan (Suc k) p n =
     (let c = p n
      in if c = 0 then n > 2
         else if c < 32 \<or> c > 126 then False
         else task_name_scan k p (Suc n))"

definition task_name :: "string \<Rightarrow> (nat \<Rightarrow> u8) \<Rightarrow> string" where
  "task_name name p = (if task_name_scan 16 p 0 then name else ''(damaged)'')"

text \<open>
  \<open>task_stack_avail\<close> counts the untouched bytes at the low end of the stack; on a stack
  with no touched byte the scan runs past its end, which is \<open>None\<close> here.
\<close>

fun task_stack_avail :: "u8 list \<Rightarrow> nat option" where
  "task_stack_avail [] = None"
| "task_stack_avail (b # bs) =
     (if b = 0xaa then map_option Suc (task_stack_avail bs) else Some 0)"

section \<open>Interrupts\<close>

text \<open>The interrupt entry, in the context of the interrupted task.\<close>

definition irq_signal :: "mid \<Rightarrow> kstate \<Rightarrow> kstate option" where
  "irq_signal m s = do {
     s \<leftarrow> mutex_activate m 0 s;
     Some (schedule_if_needed s)
   }"

definition irq_handler :: "fast_handler \<Rightarrow> nat \<Rightarrow> kstate \<Rightarrow> kstate option" where
  "irq_handler fast q s =
     (case q_lock (irqv s q) of
        None \<Rightarrow> None
      | Some m \<Rightarrow>
          if q_handler (irqv s q) \<noteq> 0 then
            if m_master (mtx s m) \<noteq> None then
              Some (upd_irq q (\<lambda>r. r\<lparr>q_pending := True\<rparr>) s)
            else do {
              (done, s) \<leftarrow> call_handler fast q s;
              if done then Some s else irq_signal m s
            }
          else irq_signal m s)"

section \<open>Start-up\<close>

definition idle_task :: task_t where
  "idle_task = (new_task ''idle'' 0)"

definition kernel_init :: "tid \<Rightarrow> kstate" where
  "kernel_init i =
     \<lparr>lists = l_append TaskActive (TaskItem i) l_empty,
      task = (\<lambda>_. (new_task [] 0))(i := idle_task),
      mtx = (\<lambda>_. zero_mutex),
      grp = (\<lambda>_. \<lparr>g_waiter = None, g_size = 0, g_slots = []\<rparr>),
      irqv = (\<lambda>_. \<lparr>q_lock = None, q_handler = 0, q_arg = 0, q_irq = 0, q_pending = False\<rparr>),
      current = i, need_schedule = False, idle = i,
      stack = (\<lambda>_. []), retv = (\<lambda>_. RNone)\<rparr>"

section \<open>The kernel as a machine\<close>

datatype call =
    CLock mid | CTryLock mid | CUnlock mid | CSignal mid msg | CWait mid
  | CLockIrq mid nat nat nat | CUnlockIrq mid | CAttachIrq mid nat nat nat
  | CGroupAdd gid mid | CGroupListen gid | CGroupUnlisten gid | CGroupWait gid
  | CCreate tid string int | CDelete tid msg | CExit msg | CYield
  | CSetPriority tid int | CSetPrivate tid nat

fun do_call :: "fast_handler \<Rightarrow> call \<Rightarrow> kstate \<Rightarrow> kstate option" where
  "do_call fast (CLock m) s = mutex_lock m s"
| "do_call fast (CTryLock m) s = mutex_trylock m s"
| "do_call fast (CUnlock m) s = mutex_unlock fast m s"
| "do_call fast (CSignal m msg) s = mutex_signal m msg s"
| "do_call fast (CWait m) s = mutex_wait fast m s"
| "do_call fast (CLockIrq m q f a) s = mutex_lock_irq m q f a s"
| "do_call fast (CUnlockIrq m) s = mutex_unlock_irq fast m s"
| "do_call fast (CAttachIrq m q f a) s = mutex_attach_irq m q f a s"
| "do_call fast (CGroupAdd g m) s = Some (mutex_group_add g m s)"
| "do_call fast (CGroupListen g) s = mutex_group_listen g s"
| "do_call fast (CGroupUnlisten g) s = mutex_group_unlisten g s"
| "do_call fast (CGroupWait g) s = mutex_group_wait g s"
| "do_call fast (CCreate t n p) s = task_create t n p s"
| "do_call fast (CDelete t msg) s = task_delete t msg s"
| "do_call fast (CExit msg) s = task_exit msg s"
| "do_call fast CYield s = Some (task_yield s)"
| "do_call fast (CSetPriority t p) s = task_set_priority t p s"
| "do_call fast (CSetPrivate t p) s = task_set_private t p s"

fun run_frame :: "fast_handler \<Rightarrow> frame \<Rightarrow> kstate \<Rightarrow> kstate option" where
  "run_frame fast (FLock m) s = mutex_lock_loop m s"
| "run_frame fast (FLockIrq m q f a) s = mutex_lock_irq_loop m q f a s"
| "run_frame fast (FReacquire m deep) s = mutex_reacquire m deep s"
| "run_frame fast FWaitDone s = Some (set_ret (RMsg (t_message (current_task s))) s)"
| "run_frame fast (FGroupWait g) s = Some (group_wait_loop g s)"
| "run_frame fast (FDelete t msg) s = task_delete_loop fast t msg s"
| "run_frame fast FDeleteEnd s = Some (schedule_if_needed s)"

text \<open>Going on with the current task's kernel call, if it is in one.\<close>

definition resume :: "fast_handler \<Rightarrow> kstate \<Rightarrow> kstate option" where
  "resume fast s =
     (case stack s (current s) of
        [] \<Rightarrow> None
      | f # fs \<Rightarrow> run_frame fast f (s\<lparr>stack := (stack s)(current s := fs)\<rparr>))"

end
