(* ===== verification/Kernel_Inv.thy ===== *)
theory Kernel_Inv
  imports Kernel_Calls
begin

text \<open>
  What the kernel keeps true of its structures. \<open>SI X\<close> relates the lists to the fields
  of tasks, locks and groups (\<open>X\<close> exempts the locks a release is in the middle of: free,
  with tasks still queued); \<open>prio_ok\<close> is the priority rule of \<open>mutex.c\<close>;
  \<open>sched_ok\<close> says that the running task has the highest priority of all ready tasks
  unless a reschedule is due; \<open>cur_inv\<close> describes the running task. The lemmas show that
  the building blocks of the calls keep them.
\<close>

section \<open>The invariant\<close>

definition inv_lists :: "kstate \<Rightarrow> bool" where
  "inv_lists s \<longleftrightarrow> wf_store (lists s)
     \<and> (\<forall>t l. TaskItem t \<in> set (lst s l) \<longrightarrow>
          l = TaskActive \<or> (\<exists>m. l = Slaves m) \<or> (\<exists>m. l = Waiters m))
     \<and> (\<forall>m l. LockItem m \<in> set (lst s l) \<longrightarrow> (\<exists>t. l = Owned t))
     \<and> (\<forall>g i l. SlotItem g i \<in> set (lst s l) \<longrightarrow> (\<exists>m. l = Groups m))"

definition inv_task :: "kstate \<Rightarrow> bool" where
  "inv_task s \<longleftrightarrow>
     (\<forall>t m. TaskItem t \<in> set (lst s (Slaves m)) \<longleftrightarrow> t_lock (task s t) = Some m)
     \<and> (\<forall>t m. TaskItem t \<in> set (lst s (Waiters m)) \<longleftrightarrow> t_wait (task s t) = Some m)
     \<and> (\<forall>t. TaskItem t \<in> set (lst s TaskActive) \<longrightarrow>
          t_lock (task s t) = None \<and> t_wait (task s t) = None)"

definition inv_lock :: "mid set \<Rightarrow> kstate \<Rightarrow> bool" where
  "inv_lock X s \<longleftrightarrow>
     (\<forall>t m. LockItem m \<in> set (lst s (Owned t)) \<longleftrightarrow> m_master (mtx s m) = Some t)
     \<and> (\<forall>m. m_master (mtx s m) = None \<longrightarrow> m_deep (mtx s m) = 0)
     \<and> (\<forall>m x. x \<in> set (lst s (Slaves m)) \<longrightarrow> m_master (mtx s m) \<noteq> None \<or> m \<in> X)
     \<and> (\<forall>m. m_master (mtx s m) \<noteq> None \<longrightarrow> sint (m_deep (mtx s m)) > 0 \<and> m_init (mtx s m))
     \<and> (\<forall>m x. x \<in> set (lst s (Slaves m)) \<or> x \<in> set (lst s (Waiters m))
          \<or> x \<in> set (lst s (Groups m)) \<longrightarrow> m_init (mtx s m))"

definition inv_group :: "kstate \<Rightarrow> bool" where
  "inv_group s \<longleftrightarrow>
     (\<forall>g t. g_waiter (grp s g) = Some t \<longrightarrow> \<not> linked (lists s) (TaskItem t)
        \<and> t_lock (task s t) = None \<and> t_wait (task s t) = None)
     \<and> (\<forall>g g' t. g_waiter (grp s g) = Some t \<and> g_waiter (grp s g') = Some t \<longrightarrow> g = g')
     \<and> (\<forall>g i m. SlotItem g i \<in> set (lst s (Groups m)) \<longrightarrow>
          i < length (g_slots (grp s g)) \<and> s_lock (g_slots (grp s g) ! i) = m)
     \<and> (\<forall>g r. r \<in> set (g_slots (grp s g)) \<longrightarrow> m_init (mtx s (s_lock r)))"

fun frame_lock :: "frame \<Rightarrow> mid option" where
  "frame_lock (FLock m) = Some m"
| "frame_lock (FLockIrq m q h a) = Some m"
| "frame_lock (FReacquire m d) = Some m"
| "frame_lock k = None"

definition inv_stack :: "kstate \<Rightarrow> bool" where
  "inv_stack s \<longleftrightarrow>
     (\<forall>t m d. FReacquire m d \<in> set (stack s t) \<longrightarrow> sint d > 0)
     \<and> (\<forall>t k m. k \<in> set (stack s t) \<and> frame_lock k = Some m \<longrightarrow> m_init (mtx s m))
     \<and> stack s (idle s) = []
     \<and> TaskItem (idle s) \<in> set (lst s TaskActive)"

definition SI :: "mid set \<Rightarrow> kstate \<Rightarrow> bool" where
  "SI X s \<longleftrightarrow> inv_lists s \<and> inv_task s \<and> inv_lock X s \<and> inv_group s \<and> inv_stack s"

definition prio_of_locks :: "kstate \<Rightarrow> tid \<Rightarrow> int" where
  "prio_of_locks s t = max_prio (t_base (task s t)) (map (\<lambda>m. m_prio (mtx s m)) (owned_locks s t))"

definition prio_ok :: "tid set \<Rightarrow> kstate \<Rightarrow> bool" where
  "prio_ok Y s \<longleftrightarrow>
     (\<forall>t. t \<notin> Y \<longrightarrow> t_base (task s t) \<noteq> 0 \<longrightarrow> t_prio (task s t) = prio_of_locks s t)"

definition sched_ok :: "kstate \<Rightarrow> bool" where
  "sched_ok s \<longleftrightarrow> need_schedule s \<or>
     (\<forall>t. TaskItem t \<in> set (lst s TaskActive) \<longrightarrow>
        t_prio (task s t) \<le> t_prio (task s (current s)))"

definition cur_free :: "kstate \<Rightarrow> bool" where
  "cur_free s \<longleftrightarrow> t_lock (task s (current s)) = None \<and> t_wait (task s (current s)) = None
     \<and> (\<forall>g. g_waiter (grp s g) \<noteq> Some (current s))"

text \<open>The running task is ready, unless it is being deleted by itself; then a reschedule is due.\<close>

fun in_own_delete :: "tid \<Rightarrow> frame list \<Rightarrow> bool" where
  "in_own_delete t (FDelete t' _ # _) = (t' = t)"
| "in_own_delete t (FDeleteEnd # _) = True"
| "in_own_delete t _ = False"

definition deleting_self :: "kstate \<Rightarrow> bool" where
  "deleting_self s \<longleftrightarrow> need_schedule s \<and> in_own_delete (current s) (stack s (current s))"

definition cur_inv :: "kstate \<Rightarrow> bool" where
  "cur_inv s \<longleftrightarrow> cur_free s
     \<and> (TaskItem (current s) \<in> set (lst s TaskActive) \<or> deleting_self s)"

definition MI :: "mid set \<Rightarrow> kstate \<Rightarrow> bool" where
  "MI X s \<longleftrightarrow> SI X s \<and> prio_ok {} s \<and> sched_ok s \<and> cur_inv s"

abbreviation KI :: "kstate \<Rightarrow> bool" where
  "KI \<equiv> MI {}"

lemmas inv_defs = inv_lists_def inv_task_def inv_lock_def inv_group_def inv_stack_def

lemma SI_intro:
  "inv_lists s \<Longrightarrow> inv_task s \<Longrightarrow> inv_lock X s \<Longrightarrow> inv_group s \<Longrightarrow> inv_stack s \<Longrightarrow> SI X s"
  by (simp add: SI_def)

lemma SI_parts:
  assumes "SI X s"
  shows "inv_lists s" "inv_task s" "inv_lock X s" "inv_group s" "inv_stack s" "wf_store (lists s)"
  using assms by (auto simp: SI_def inv_lists_def)

lemma SI_weaken: "SI X s \<Longrightarrow> X \<subseteq> Y \<Longrightarrow> SI Y s"
  unfolding SI_def inv_lock_def by blast

lemma SI_done: "SI (insert m X) s \<Longrightarrow> lst s (Slaves m) = [] \<Longrightarrow> SI X s"
  unfolding SI_def inv_lock_def by (auto simp del: not_None_eq)

text \<open>Facts about one task, lock or list, in the form the proofs use them.\<close>

lemma SI_slave: "SI X s \<Longrightarrow> TaskItem t \<in> set (lst s (Slaves m)) \<longleftrightarrow> t_lock (task s t) = Some m"
  and SI_waiter: "SI X s \<Longrightarrow> TaskItem t \<in> set (lst s (Waiters m)) \<longleftrightarrow> t_wait (task s t) = Some m"
  and SI_active: "SI X s \<Longrightarrow> TaskItem t \<in> set (lst s TaskActive) \<Longrightarrow>
    t_lock (task s t) = None \<and> t_wait (task s t) = None"
  and SI_owned: "SI X s \<Longrightarrow> LockItem m \<in> set (lst s (Owned t)) \<longleftrightarrow> m_master (mtx s m) = Some t"
  and SI_idle: "SI X s \<Longrightarrow> TaskItem (idle s) \<in> set (lst s TaskActive)"
  and SI_free: "SI X s \<Longrightarrow> m_master (mtx s m) = None \<Longrightarrow> m_deep (mtx s m) = 0"
  and SI_no_slaves: "SI X s \<Longrightarrow> m_master (mtx s m) = None \<Longrightarrow> m \<notin> X \<Longrightarrow> lst s (Slaves m) = []"
  and SI_held: "SI X s \<Longrightarrow> m_master (mtx s m) = Some t \<Longrightarrow> sint (m_deep (mtx s m)) > 0"
  and SI_uninit: "SI X s \<Longrightarrow> \<not> m_init (mtx s m) \<Longrightarrow> m_master (mtx s m) = None
    \<and> lst s (Slaves m) = [] \<and> lst s (Waiters m) = [] \<and> lst s (Groups m) = []"
  unfolding SI_def inv_task_def inv_lock_def inv_stack_def
  by (blast | (metis list.set_intros(1) neq_Nil_conv option.distinct(1)))+

lemma SI_task_item:
  "SI X s \<Longrightarrow> x \<in> set (lst s TaskActive) \<or> x \<in> set (lst s (Slaves m)) \<or> x \<in> set (lst s (Waiters m))
    \<Longrightarrow> \<exists>t. x = TaskItem t"
  unfolding SI_def inv_lists_def by (cases x) (simp, blast+)

lemma SI_lock_item: "SI X s \<Longrightarrow> x \<in> set (lst s (Owned t)) \<Longrightarrow> \<exists>m. x = LockItem m"
  unfolding SI_def inv_lists_def by (cases x) (blast+)

lemma SI_slot_item:
  assumes "SI X s" "x \<in> set (lst s (Groups m))"
  shows "\<exists>g i. x = SlotItem g i \<and> i < length (g_slots (grp s g)) \<and> s_lock (g_slots (grp s g) ! i) = m"
  using assms by (cases x) (auto simp: SI_def inv_lists_def inv_group_def)

section \<open>Making a task ready\<close>

text \<open>What no wake-up touches.\<close>

definition kframe :: "kstate \<Rightarrow> kstate \<Rightarrow> bool" where
  "kframe s s' \<longleftrightarrow> current s' = current s \<and> idle s' = idle s \<and> stack s' = stack s
     \<and> retv s' = retv s
     \<and> (\<forall>t. t_prio (task s' t) = t_prio (task s t) \<and> t_base (task s' t) = t_base (task s t))
     \<and> (\<forall>m. m_init (mtx s m) \<longrightarrow> mtx s' m = mtx s m)
     \<and> (\<forall>m. m_master (mtx s' m) = m_master (mtx s m))
     \<and> (\<forall>t. lst s' (Owned t) = lst s (Owned t)) \<and> (\<forall>m. lst s' (Groups m) = lst s (Groups m))
     \<and> (\<forall>t. TaskItem t \<in> set (lst s TaskActive) \<longrightarrow> TaskItem t \<in> set (lst s' TaskActive))
     \<and> (need_schedule s \<longrightarrow> need_schedule s')
     \<and> (cur_free s \<longrightarrow> cur_free s') \<and> (sched_ok s \<longrightarrow> sched_ok s')"

lemma kframe_refl [simp]: "kframe s s"
  by (simp add: kframe_def)

lemma kframe_trans: "kframe s s' \<Longrightarrow> kframe s' s'' \<Longrightarrow> kframe s s''"
  unfolding kframe_def by force

lemma kframe_cur_inv:
  assumes k: "kframe s s'" and c: "cur_inv s"
  shows "cur_inv s'"
proof -
  have "current s' = current s" "stack s' = stack s" "need_schedule s \<Longrightarrow> need_schedule s'"
    "cur_free s'" "TaskItem t \<in> set (lst s TaskActive) \<Longrightarrow> TaskItem t \<in> set (lst s' TaskActive)" for t
    using k c unfolding kframe_def cur_inv_def by blast+
  with c show ?thesis unfolding cur_inv_def deleting_self_def by auto
qed

lemma make_ready:
  assumes SI: "SI X s" and p: "prio_ok Y s"
    and f: "t_lock (f (task s t)) = None" "t_wait (f (task s t)) = None"
      "t_prio (f (task s t)) = t_prio (task s t)" "t_base (f (task s t)) = t_base (task s t)"
      "t_guard (f (task s t)) = t_guard (task s t)"
    and g: "\<And>g. g_waiter (grp s g) \<noteq> Some t"
  shows "\<exists>s'. task_activate t (upd_task t f s) = Some s' \<and> SI X s' \<and> prio_ok Y s' \<and> kframe s s'
    \<and> lists s' = l_append TaskActive (TaskItem t) (lists s) \<and> mtx s' = mtx s \<and> irqv s' = irqv s
    \<and> grp s' = grp s"
proof -
  let ?s1 = "upd_lists (l_append TaskActive (TaskItem t)) (upd_task t f s)"
  define s' where "s' = (if t_prio (task ?s1 (current s)) < t_prio (task ?s1 t)
    then ?s1\<lparr>need_schedule := True\<rparr> else ?s1)"
  have act: "task_activate t (upd_task t f s) = Some s'"
    using f by (simp add: task_activate_def s'_def task_is_waiting_def upd_defs)
  have L: "lists s' = l_append TaskActive (TaskItem t) (lists s)"
    by (simp add: s'_def upd_defs)
  have fld: "task s' = (task s)(t := f (task s t))"
    "mtx s' = mtx s" "irqv s' = irqv s" "grp s' = grp s" "current s' = current s" "idle s' = idle s"
    "stack s' = stack s" "retv s' = retv s"
    "need_schedule s' = (need_schedule s \<or> t_prio (task s (current s)) < t_prio (task s t))"
    using f by (auto simp: s'_def upd_defs)
  have it: "x \<in> set (lst s' l) \<longleftrightarrow> (if x = TaskItem t then l = TaskActive else x \<in> set (lst s l))" for x l
    by (simp add: L l_mem)
  have lk: "linked (lists s') x \<longleftrightarrow> x = TaskItem t \<or> linked (lists s) x" for x
    by (simp add: L l_linked)
  have other: "lst s' l = lst s l" if "TaskItem t \<notin> set (lst s l)" "l \<noteq> TaskActive" for l
    using that by (simp add: L l_apply)
  have notin: "TaskItem t \<notin> set (lst s (Owned u))" "TaskItem t \<notin> set (lst s (Groups m))" for u m
    using SI by (auto simp: SI_def inv_lists_def)
  have "inv_lists s'" using SI_parts(1) [OF SI] unfolding inv_lists_def L
    by (auto simp: l_mem split: if_splits)
  moreover have "inv_task s'" using SI_parts(2) [OF SI] f unfolding inv_task_def
    by (auto simp: it fld)
  moreover have "inv_lock X s'" using SI_parts(3) [OF SI] notin unfolding inv_lock_def
    by (simp add: it fld) blast
  moreover have "inv_group s'" using SI_parts(4) [OF SI] g f unfolding inv_group_def
    by (auto simp: it lk fld)
  moreover have "inv_stack s'" using SI_parts(5) [OF SI] f unfolding inv_stack_def
    by (auto simp: it fld)
  ultimately have "SI X s'" by (rule SI_intro)
  moreover have "owned_locks s' u = owned_locks s u" for u
    using other [OF notin(1)] by (simp add: owned_locks_def)
  then have "prio_ok Y s'" using p f by (auto simp: prio_ok_def prio_of_locks_def fld)
  moreover have "kframe s s'" unfolding kframe_def
    using f other notin by (auto simp: it fld cur_free_def sched_ok_def)
  ultimately show ?thesis using act L fld by blast
qed

lemma SI_alone:
  assumes "SI X s" "TaskItem t \<in> set (lst s l)"
  shows "\<And>g. g_waiter (grp s g) \<noteq> Some t" "\<And>l'. TaskItem t \<in> set (lst s l') \<Longrightarrow> l' = l"
    "\<And>m. t_lock (task s t) = Some m \<Longrightarrow> l = Slaves m"
    "\<And>m. t_wait (task s t) = Some m \<Longrightarrow> l = Waiters m"
proof -
  note wf = SI_parts(6) [OF assms(1)]
  show u: "\<And>l'. TaskItem t \<in> set (lst s l') \<Longrightarrow> l' = l"
    using wf_store_unique [OF wf assms(2)] by blast
  show "\<And>g. g_waiter (grp s g) \<noteq> Some t"
    using SI_parts(4) [OF assms(1)] assms(2) wf_store_linked [OF wf] unfolding inv_group_def by blast
  show "\<And>m. t_lock (task s t) = Some m \<Longrightarrow> l = Slaves m"
    using u SI_slave [OF assms(1)] by blast
  show "\<And>m. t_wait (task s t) = Some m \<Longrightarrow> l = Waiters m"
    using u SI_waiter [OF assms(1)] by blast
qed

text \<open>The wake-up of all tasks waiting for a signal.\<close>

lemma activate_waiters_ok:
  "SI X s \<Longrightarrow> prio_ok Y s \<Longrightarrow>
   \<exists>s'. activate_waiters m msg s = Some s' \<and> SI X s' \<and> prio_ok Y s' \<and> kframe s s'
     \<and> lst s' (Waiters m) = [] \<and> mtx s' = mtx s \<and> irqv s' = irqv s"
proof (induction m msg s rule: activate_waiters.induct)
  case (1 m msg s)
  show ?case
  proof (cases "lst s (Waiters m)")
    case Nil
    then show ?thesis using 1 by (subst activate_waiters.simps) simp
  next
    case (Cons x xs)
    then obtain t where x: "x = TaskItem t" using SI_task_item [OF 1(2), of x m] by auto
    then have t: "TaskItem t \<in> set (lst s (Waiters m))" using Cons by simp
    note al = SI_alone [OF 1(2) t]
    have w: "t_wait (task s t) = Some m" using SI_waiter [OF 1(2)] t by blast
    have l: "t_lock (task s t) = None" using al(3) by force
    let ?f = "\<lambda>r. r\<lparr>t_wait := None, t_message := msg\<rparr>"
    obtain s1 where s1: "task_activate t (upd_task t ?f s) = Some s1" "SI X s1" "prio_ok Y s1"
      "kframe s s1" "mtx s1 = mtx s" "irqv s1 = irqv s"
      using make_ready [OF 1(2,3), of ?f t] al(1) l by auto
    from 1(1) [OF Cons x _ s1(1) s1(2,3)] w obtain s2 where
      "activate_waiters m msg s1 = Some s2 \<and> SI X s2 \<and> prio_ok Y s2 \<and> kframe s1 s2
        \<and> lst s2 (Waiters m) = [] \<and> mtx s2 = mtx s1 \<and> irqv s2 = irqv s1" by auto
    then show ?thesis using Cons x w s1 kframe_trans
      by (subst activate_waiters.simps) auto
  qed
qed

lemma wake_slaves_ok:
  "SI X s \<Longrightarrow> prio_ok Y s \<Longrightarrow>
   \<exists>s'. wake_slaves m s = Some s' \<and> SI X s' \<and> prio_ok Y s' \<and> kframe s s'
     \<and> lst s' (Slaves m) = [] \<and> mtx s' = mtx s \<and> irqv s' = irqv s"
proof (induction m s rule: wake_slaves.induct)
  case (1 m s)
  show ?case
  proof (cases "lst s (Slaves m)")
    case Nil
    then show ?thesis using 1 by (subst wake_slaves.simps) simp
  next
    case (Cons x xs)
    then obtain t where x: "x = TaskItem t" using SI_task_item [OF 1(2), of x m] by auto
    then have t: "TaskItem t \<in> set (lst s (Slaves m))" using Cons by simp
    note al = SI_alone [OF 1(2) t]
    have w: "t_lock (task s t) = Some m" using SI_slave [OF 1(2)] t by blast
    have l: "t_wait (task s t) = None" using al(4) by force
    let ?f = "\<lambda>r. r\<lparr>t_lock := None\<rparr>"
    obtain s1 where s1: "task_activate t (upd_task t ?f s) = Some s1" "SI X s1" "prio_ok Y s1"
      "kframe s s1" "mtx s1 = mtx s" "irqv s1 = irqv s"
      using make_ready [OF 1(2,3), of ?f t] al(1) l by auto
    from 1(1) [OF Cons x _ s1(1) s1(2,3)] w obtain s2 where
      "wake_slaves m s1 = Some s2 \<and> SI X s2 \<and> prio_ok Y s2 \<and> kframe s1 s2
        \<and> lst s2 (Slaves m) = [] \<and> mtx s2 = mtx s1 \<and> irqv s2 = irqv s1" by auto
    then show ?thesis using Cons x w s1 kframe_trans
      by (subst wake_slaves.simps) auto
  qed
qed

text \<open>One slot of a group: the message arrives, and the task waiting for the group is made ready.\<close>

lemma signal_slot_ok:
  fixes s :: kstate and msg :: msg and w :: "tid option"
  assumes SI: "SI X s" and p: "prio_ok Y s" and i: "SlotItem g i \<in> set (lst s (Groups m))"
  defines "s1 \<equiv> upd_grp g (\<lambda>r. r\<lparr>g_slots := (g_slots r)[i := signal_slot msg (g_slots r ! i)],
    g_waiter := w\<rparr>) s"
  assumes w: "w = None \<or> w = g_waiter (grp s g)"
  shows "SI X s1" "prio_ok Y s1" "kframe s s1"
proof -
  have i': "i < length (g_slots (grp s g))" "s_lock (g_slots (grp s g) ! i) = m"
    using SI_parts(4) [OF SI] i unfolding inv_group_def by blast+
  have fld: "lists s1 = lists s" "task s1 = task s" "mtx s1 = mtx s" "current s1 = current s"
    "idle s1 = idle s" "stack s1 = stack s" "retv s1 = retv s" "need_schedule s1 = need_schedule s"
    by (auto simp: s1_def upd_defs)
  have gw: "g_waiter (grp s1 g') = Some t \<Longrightarrow> g_waiter (grp s g') = Some t" for g' t
    using w by (auto simp: s1_def upd_defs split: if_splits)
  have gs: "length (g_slots (grp s1 g')) = length (g_slots (grp s g'))"
    "s_lock (g_slots (grp s1 g') ! j) = s_lock (g_slots (grp s g') ! j)" for g' j
    using i' by (auto simp: s1_def upd_defs nth_list_update signal_slot_def)
  have "m_init (mtx s m)" using SI i'(1) i' unfolding SI_def inv_group_def by (metis nth_mem)
  then have gl: "\<exists>r'. r' \<in> set (g_slots (grp s g')) \<and> s_lock r' = s_lock r"
    if "r \<in> set (g_slots (grp s1 g'))" for r g'
    using that gs by (metis in_set_conv_nth)
  have "\<forall>g r. r \<in> set (g_slots (grp s1 g)) \<longrightarrow> m_init (mtx s (s_lock r))"
    using gl SI_parts(4) [OF SI] unfolding inv_group_def by metis
  then have "inv_group s1" using SI_parts(4) [OF SI] gw unfolding inv_group_def fld gs by blast
  then show "SI X s1" using SI by (simp add: SI_def inv_defs fld)
  show "prio_ok Y s1" using p by (simp add: prio_ok_def prio_of_locks_def owned_locks_def fld)
  show "kframe s s1" using gw unfolding kframe_def cur_free_def sched_ok_def by (auto simp: fld)
qed

lemma activate_groups_ok:
  "SI X s \<Longrightarrow> prio_ok Y s \<Longrightarrow> set is \<subseteq> set (lst s (Groups m)) \<Longrightarrow>
   \<exists>s'. activate_groups m msg is s = Some s' \<and> SI X s' \<and> prio_ok Y s' \<and> kframe s s'
     \<and> mtx s' = mtx s \<and> irqv s' = irqv s"
proof (induction "is" arbitrary: s)
  case (Cons x xs)
  then have "x \<in> set (lst s (Groups m))" by simp
  from SI_slot_item [OF Cons(2) this] obtain g i where x: "x = SlotItem g i"
    "i < length (g_slots (grp s g))" "s_lock (g_slots (grp s g) ! i) = m" by blast
  have xi: "SlotItem g i \<in> set (lst s (Groups m))" using Cons(4) x(1) by simp
  let ?s1 = "\<lambda>w. upd_grp g (\<lambda>r. r\<lparr>g_slots := (g_slots r)[i := signal_slot msg (g_slots r ! i)],
    g_waiter := w\<rparr>) s"
  note slot = signal_slot_ok [OF Cons(2,3) xi, of _ msg]
  have "\<exists>s2. SI X s2 \<and> prio_ok Y s2 \<and> kframe s s2 \<and> mtx s2 = mtx s \<and> irqv s2 = irqv s
    \<and> activate_groups m msg (x # xs) s = activate_groups m msg xs s2"
  proof (cases "g_waiter (grp s g)")
    case None
    have e: "?s1 None = upd_grp g (\<lambda>r. r\<lparr>g_slots := (g_slots r)[i := signal_slot msg (g_slots r ! i)]\<rparr>) s"
      using None by (cases "grp s g") (simp add: upd_grp_def)
    have "mtx (?s1 None) = mtx s" "irqv (?s1 None) = irqv s" "g_waiter (grp (?s1 None) g) = None"
      by (auto simp: upd_grp_def)
    then show ?thesis using slot [of None] None x unfolding e by (auto simp: assert_c_def)
  next
    case (Some t)
    have nl: "\<not> linked (lists s) (TaskItem t)" "t_lock (task s t) = None" "t_wait (task s t) = None"
      and u: "g_waiter (grp s g') = Some t \<Longrightarrow> g' = g" for g'
      using SI_parts(4) [OF Cons(2)] Some unfolding inv_group_def by blast+
    have "g_waiter (grp (?s1 None) g') \<noteq> Some t" for g'
      using u [of g'] by (auto simp: upd_grp_def)
    moreover have e: "upd_task t (\<lambda>r. r) (?s1 None) = ?s1 None"
      "?s1 None = upd_grp g (\<lambda>r. r\<lparr>g_waiter := None\<rparr>)
        (upd_grp g (\<lambda>r. r\<lparr>g_slots := (g_slots r)[i := signal_slot msg (g_slots r ! i)]\<rparr>) s)"
      "task (?s1 None) = task s" "mtx (?s1 None) = mtx s" "irqv (?s1 None) = irqv s"
      by (simp_all add: upd_grp_def upd_task_def)
    ultimately obtain s2 where s2: "task_activate t (?s1 None) = Some s2" "SI X s2" "prio_ok Y s2"
      "kframe (?s1 None) s2" "mtx s2 = mtx s" "irqv s2 = irqv s"
      using make_ready [OF slot(1,2) [of None], of "\<lambda>r. r" t] nl by auto
    have "activate_groups m msg (x # xs) s = activate_groups m msg xs s2"
      using Some x nl(1) s2(1) unfolding e(2) by (simp add: upd_grp_def assert_c_def)
    then show ?thesis using s2 kframe_trans [OF slot(3) [of None] s2(4)] by blast
  qed
  then obtain s2 where s2: "SI X s2" "prio_ok Y s2" "kframe s s2" "mtx s2 = mtx s" "irqv s2 = irqv s"
    "activate_groups m msg (x # xs) s = activate_groups m msg xs s2" by blast
  have "set xs \<subseteq> set (lst s2 (Groups m))" using s2(3) Cons(4) by (auto simp: kframe_def)
  from Cons(1) [OF s2(1,2) this] s2 show ?case using kframe_trans by metis
qed simp

lemma ensure_init_ok:
  assumes SI: "SI X s" and p: "prio_ok Y s"
  shows "SI X (ensure_init m s)" "prio_ok Y (ensure_init m s)" "kframe s (ensure_init m s)"
    "m_init (mtx (ensure_init m s) m)" "lists (ensure_init m s) = lists s"
    "task (ensure_init m s) = task s" "grp (ensure_init m s) = grp s" "irqv (ensure_init m s) = irqv s"
    "m_master (mtx (ensure_init m s) m') = m_master (mtx s m')"
    "current (ensure_init m s) = current s" "idle (ensure_init m s) = idle s"
    "stack (ensure_init m s) = stack s" "need_schedule (ensure_init m s) = need_schedule s"
proof -
  show ini: "m_init (mtx (ensure_init m s) m)" by (simp add: ensure_init_def mutex_init_def upd_defs)
  have L: "lists (ensure_init m s) = lists s"
  proof (cases "m_init (mtx s m)")
    case False
    note un = SI_uninit [OF SI False]
    have "LockItem m \<notin> set (lst s l)" for l
      using SI_owned [OF SI, of m] un SI_parts(1) [OF SI] unfolding inv_lists_def by force
    then have "l_unlink (LockItem m) (lists s) = lists s"
      using wf_store_linked [OF SI_parts(6) [OF SI]] SI_parts(6) [OF SI] by (intro l_unlink_idle) auto
    then show ?thesis using un False
      by (simp add: ensure_init_def mutex_init_def upd_defs l_init_idle)
  qed (simp add: ensure_init_def)
  then show "lists (ensure_init m s) = lists s" .
  show fld: "task (ensure_init m s) = task s" "grp (ensure_init m s) = grp s"
    "irqv (ensure_init m s) = irqv s" "current (ensure_init m s) = current s"
    "idle (ensure_init m s) = idle s" "stack (ensure_init m s) = stack s"
    "need_schedule (ensure_init m s) = need_schedule s"
    by (simp_all add: ensure_init_def mutex_init_def upd_defs)
  have r: "retv (ensure_init m s) = retv s" by (simp add: ensure_init_def mutex_init_def upd_defs)
  have M: "m_init (mtx s k) \<Longrightarrow> mtx (ensure_init m s) k = mtx s k" for k
    by (auto simp: ensure_init_def mutex_init_def upd_defs)
  have M2: "m_init (mtx s k) \<Longrightarrow> m_init (mtx (ensure_init m s) k)" for k
    using M [of k] by simp
  show mm: "m_master (mtx (ensure_init m s) k) = m_master (mtx s k)" for k
    using SI_uninit [OF SI, of k] by (auto simp: ensure_init_def mutex_init_def upd_defs)
  have d: "m_deep (mtx (ensure_init m s) k) = m_deep (mtx s k)" for k
    using SI_uninit [OF SI, of k] SI_free [OF SI, of k]
    by (auto simp: ensure_init_def mutex_init_def upd_defs)
  note P = SI_parts(1-5) [OF SI]
  have "inv_lock X (ensure_init m s)" using P(3) M2 unfolding inv_lock_def L fld mm d by blast
  moreover have "inv_group (ensure_init m s)" using P(4) M2 unfolding inv_group_def L fld by blast
  moreover have "inv_stack (ensure_init m s)" using P(5) M2 unfolding inv_stack_def L fld by blast
  ultimately show "SI X (ensure_init m s)" using P(1,2)
    by (intro SI_intro) (simp_all add: inv_lists_def inv_task_def L fld)
  have pm: "LockItem k \<in> set (lst s (Owned t)) \<Longrightarrow> m_prio (mtx (ensure_init m s) k) = m_prio (mtx s k)" for k t
    using SI_owned [OF SI, of k t] SI_uninit [OF SI, of k] M [of k] by force
  have "prio_of_locks (ensure_init m s) t = prio_of_locks s t" for t
    unfolding prio_of_locks_def owned_locks_def L fld
    using pm [of _ t] by (auto simp: map_concat comp_def intro!: arg_cong [of _ _ "max_prio _"]
      arg_cong [of _ _ concat] split: item.splits)
  then show "prio_ok Y (ensure_init m s)" using p by (simp add: prio_ok_def fld)
  show "kframe s (ensure_init m s)" using M
    by (simp add: kframe_def cur_free_def sched_ok_def fld r L mm)
qed

lemma mutex_activate_ok:
  assumes "SI X s" "prio_ok Y s"
  shows "\<exists>s'. mutex_activate m msg s = Some s' \<and> SI X s' \<and> prio_ok Y s' \<and> kframe s s'
    \<and> irqv s' = irqv s \<and> m_init (mtx s' m)"
proof -
  note e = ensure_init_ok [OF assms, of m]
  obtain s1 where s1: "activate_waiters m msg (ensure_init m s) = Some s1" "SI X s1" "prio_ok Y s1"
    "kframe (ensure_init m s) s1" "mtx s1 = mtx (ensure_init m s)" "irqv s1 = irqv (ensure_init m s)"
    using activate_waiters_ok [OF e(1,2)] by metis
  obtain s2 where "activate_groups m msg (lst s1 (Groups m)) s1 = Some s2" "SI X s2" "prio_ok Y s2"
    "kframe s1 s2" "mtx s2 = mtx s1" "irqv s2 = irqv s1"
    using activate_groups_ok [OF s1(2,3) subset_refl] by metis
  with s1 e show ?thesis by (auto simp: mutex_activate_def intro: kframe_trans)
qed

lemma activate_all_ok:
  "SI X s \<Longrightarrow> prio_ok Y s \<Longrightarrow>
   \<exists>s'. activate_all as s = Some s' \<and> SI X s' \<and> prio_ok Y s' \<and> kframe s s' \<and> irqv s' = irqv s"
proof (induction "as" s rule: activate_all.induct)
  case (2 m msg "as" s)
  obtain s1 where s1: "mutex_activate m msg s = Some s1" "SI X s1" "prio_ok Y s1" "kframe s s1"
    "irqv s1 = irqv s" using mutex_activate_ok [OF 2(2,3)] by blast
  from 2(1) [OF s1(1-3)] s1 show ?case by (auto intro: kframe_trans)
qed simp

lemma call_handler_ok:
  assumes "SI X s" "prio_ok Y s"
  shows "\<exists>b s'. call_handler fast q s = Some (b, s') \<and> SI X s' \<and> prio_ok Y s' \<and> kframe s s'
    \<and> irqv s' = irqv s"
proof -
  obtain b as where h: "fast (q_handler (irqv s q)) (q_arg (irqv s q)) = (b, as)" by fastforce
  show ?thesis using activate_all_ok [OF assms, of as] by (auto simp: call_handler_def h)
qed

text \<open>Fields of interrupt slots and the interrupt of a lock are outside the invariant.\<close>

definition irq_frame :: "kstate \<Rightarrow> kstate \<Rightarrow> bool" where
  "irq_frame s s' \<longleftrightarrow> lists s' = lists s \<and> task s' = task s \<and> grp s' = grp s
     \<and> current s' = current s \<and> need_schedule s' = need_schedule s \<and> idle s' = idle s
     \<and> stack s' = stack s \<and> retv s' = retv s
     \<and> (\<forall>m. m_init (mtx s' m) = m_init (mtx s m) \<and> m_master (mtx s' m) = m_master (mtx s m)
          \<and> m_prio (mtx s' m) = m_prio (mtx s m) \<and> m_deep (mtx s' m) = m_deep (mtx s m))"

lemma irq_frame_fields:
  assumes "irq_frame s s'"
  shows "lists s' = lists s" "task s' = task s" "grp s' = grp s" "current s' = current s"
    "need_schedule s' = need_schedule s" "idle s' = idle s" "stack s' = stack s" "retv s' = retv s"
    "m_init (mtx s' m) = m_init (mtx s m)" "m_master (mtx s' m) = m_master (mtx s m)"
    "m_prio (mtx s' m) = m_prio (mtx s m)" "m_deep (mtx s' m) = m_deep (mtx s m)"
  using assms by (simp_all add: irq_frame_def)

lemma irq_frame_inv:
  assumes "irq_frame s s'"
  shows "SI X s' = SI X s" "prio_ok Y s' = prio_ok Y s" "sched_ok s' = sched_ok s"
    "cur_inv s' = cur_inv s" "cur_free s' = cur_free s" "MI X s' = MI X s"
proof -
  note f = irq_frame_fields [OF assms]
  show *: "SI X s' = SI X s" by (simp add: SI_def inv_defs f)
  show "prio_ok Y s' = prio_ok Y s" for Y
    by (simp add: prio_ok_def prio_of_locks_def owned_locks_def f)
  moreover show "sched_ok s' = sched_ok s" "cur_inv s' = cur_inv s" "cur_free s' = cur_free s"
    by (simp_all add: sched_ok_def cur_inv_def cur_free_def deleting_self_def f)
  ultimately show "MI X s' = MI X s" using * by (simp add: MI_def)
qed

lemma irq_frame_upd [simp]:
  "irq_frame s (upd_irq q f s)"
  "irq_frame s (upd_mtx m (\<lambda>r. r\<lparr>m_irq := v\<rparr>) s)"
  "irq_frame s (upd_mtx m (\<lambda>r. r\<lparr>m_irq := v\<rparr>) (upd_irq q f s))"
  "irq_frame s (bind_irq m irq h arg s)"
  by (simp_all add: irq_frame_def upd_defs bind_irq_def)

lemma handle_pending_ok:
  assumes "SI X s" "prio_ok Y s"
  shows "\<exists>b s'. handle_pending fast m q s = Some (b, s') \<and> SI X s' \<and> prio_ok Y s' \<and> kframe s s'"
proof (cases "q_pending (irqv s q)")
  case True
  let ?s1 = "upd_irq q (\<lambda>r. r\<lparr>q_pending := False\<rparr>) s"
  have k: "kframe s ?s1" by (simp add: kframe_def upd_irq_def cur_free_def sched_ok_def)
  note inv = irq_frame_inv [OF irq_frame_upd(1) [of s q "\<lambda>r. r\<lparr>q_pending := False\<rparr>"]]
  obtain b s2 where s2: "call_handler fast q ?s1 = Some (b, s2)" "SI X s2" "prio_ok Y s2" "kframe ?s1 s2"
    using call_handler_ok [of X ?s1 Y fast q] assms inv(1,2) by blast
  note k2 = kframe_trans [OF k s2(4)]
  obtain s3 where "mutex_activate m 0 s2 = Some s3" "SI X s3" "prio_ok Y s3" "kframe s2 s3"
    using mutex_activate_ok [OF s2(2,3)] by blast
  with s2 k2 True show ?thesis
    by (cases b) (auto simp: handle_pending_def intro: kframe_trans)
next
  case False
  then have "handle_pending fast m q s = Some (False, s)" by (simp add: handle_pending_def)
  then show ?thesis using assms kframe_refl by blast
qed

end
