(* ===== verification/Kernel_Prio.thy ===== *)
theory Kernel_Prio
  imports Kernel_Inv
begin

text \<open>
  The two priority routines of \<open>mutex.c\<close>: they change priorities only
  (\<open>prio_frame\<close>), they restore the priority rule for the task they start with, and they
  come to an end whenever the chain task, lock it is blocked on, master of that lock does, which
  is so in every state without a circle of blocked tasks.
\<close>

section \<open>Changes of priorities only\<close>

definition prio_frame :: "kstate \<Rightarrow> kstate \<Rightarrow> bool" where
  "prio_frame s s' \<longleftrightarrow> lists s' = lists s \<and> grp s' = grp s \<and> irqv s' = irqv s
     \<and> current s' = current s \<and> idle s' = idle s \<and> stack s' = stack s \<and> retv s' = retv s
     \<and> (need_schedule s \<longrightarrow> need_schedule s')
     \<and> (\<forall>t. t_lock (task s' t) = t_lock (task s t) \<and> t_wait (task s' t) = t_wait (task s t)
          \<and> t_base (task s' t) = t_base (task s t) \<and> t_guard (task s' t) = t_guard (task s t)
          \<and> t_message (task s' t) = t_message (task s t))
     \<and> (\<forall>m. m_init (mtx s' m) = m_init (mtx s m) \<and> m_master (mtx s' m) = m_master (mtx s m)
          \<and> m_irq (mtx s' m) = m_irq (mtx s m) \<and> m_deep (mtx s' m) = m_deep (mtx s m))"

lemma prio_frame_refl [simp]: "prio_frame s s"
  by (simp add: prio_frame_def)

lemma prio_frame_trans: "prio_frame s s' \<Longrightarrow> prio_frame s' s'' \<Longrightarrow> prio_frame s s''"
  by (simp add: prio_frame_def)

lemma prio_frame_fields:
  assumes "prio_frame s s'"
  shows "lists s' = lists s" "grp s' = grp s" "irqv s' = irqv s" "current s' = current s"
    "idle s' = idle s" "stack s' = stack s" "retv s' = retv s"
    "t_lock (task s' t) = t_lock (task s t)" "t_wait (task s' t) = t_wait (task s t)"
    "t_base (task s' t) = t_base (task s t)" "t_guard (task s' t) = t_guard (task s t)"
    "t_message (task s' t) = t_message (task s t)"
    "m_init (mtx s' m) = m_init (mtx s m)" "m_master (mtx s' m) = m_master (mtx s m)"
    "m_irq (mtx s' m) = m_irq (mtx s m)" "m_deep (mtx s' m) = m_deep (mtx s m)"
  using assms by (simp_all add: prio_frame_def)

lemma prio_frame_SI: "prio_frame s s' \<Longrightarrow> SI X s' = SI X s"
  by (simp add: SI_def inv_defs prio_frame_fields)

lemma prio_frame_cur_free: "prio_frame s s' \<Longrightarrow> cur_free s' = cur_free s"
  by (simp add: cur_free_def prio_frame_fields)

section \<open>The largest priority\<close>

lemma max_prio_Max: "max_prio p qs = Max (insert p (set qs))"
proof -
  have "(\<lambda>q r :: int. if r < q then q else r) = max" by (auto simp: max_def fun_eq_iff)
  then show ?thesis by (simp add: max_prio_def flip: Max.set_eq_fold)
qed

lemma max_prio_ge: "p \<le> max_prio p qs" "q \<in> set qs \<Longrightarrow> q \<le> max_prio p qs"
  and max_prio_in: "max_prio p qs = p \<or> max_prio p qs \<in> set qs"
  using Max_in [of "insert p (set qs)"] by (auto simp: max_prio_Max)

lemma max_prio_eqI:
  assumes "p \<le> r" "\<And>q. q \<in> set qs \<Longrightarrow> q \<le> r" "r = p \<or> r \<in> set qs"
  shows "max_prio p qs = r"
  unfolding max_prio_Max using assms by (intro Max_eqI) auto

lemma owned_locks_mem [simp]: "m \<in> set (owned_locks s t) \<longleftrightarrow> LockItem m \<in> set (lst s (Owned t))"
  by (auto simp: owned_locks_def split: item.splits)

lemma slave_tasks_mem [simp]: "t \<in> set (slave_tasks s m) \<longleftrightarrow> TaskItem t \<in> set (lst s (Slaves m))"
  by (auto simp: slave_tasks_def split: item.splits)

lemma prio_of_locks_ge:
  "t_base (task s t) \<le> prio_of_locks s t"
  "LockItem m \<in> set (lst s (Owned t)) \<Longrightarrow> m_prio (mtx s m) \<le> prio_of_locks s t"
  by (auto simp: prio_of_locks_def intro!: max_prio_ge)

lemma prio_of_locks_eqI:
  assumes "t_base (task s t) \<le> r"
    and "\<And>m. LockItem m \<in> set (lst s (Owned t)) \<Longrightarrow> m_prio (mtx s m) \<le> r"
    and "r = t_base (task s t) \<or> (\<exists>m. LockItem m \<in> set (lst s (Owned t)) \<and> m_prio (mtx s m) = r)"
  shows "prio_of_locks s t = r"
  unfolding prio_of_locks_def using assms by (intro max_prio_eqI) auto

lemma prio_of_locks_is:
  "prio_of_locks s t = t_base (task s t)
   \<or> (\<exists>m. LockItem m \<in> set (lst s (Owned t)) \<and> m_prio (mtx s m) = prio_of_locks s t)"
  using max_prio_in [of "t_base (task s t)" "map (\<lambda>m. m_prio (mtx s m)) (owned_locks s t)"]
  by (auto simp: prio_of_locks_def)

lemma prio_of_locks_cong:
  assumes "t_base (task s' t) = t_base (task s t)" "lst s' (Owned t) = lst s (Owned t)"
    and "\<And>m. LockItem m \<in> set (lst s (Owned t)) \<Longrightarrow> m_prio (mtx s' m) = m_prio (mtx s m)"
  shows "prio_of_locks s' t = prio_of_locks s t"
  using assms prio_of_locks_is [of s t] prio_of_locks_ge(1) [of s t] prio_of_locks_ge(2) [of _ s t]
  by (intro prio_of_locks_eqI) auto

section \<open>One link of the chain\<close>

text \<open>What the routines need of the lists.\<close>

definition links_ok :: "kstate \<Rightarrow> bool" where
  "links_ok s \<longleftrightarrow>
     (\<forall>t m. LockItem m \<in> set (lst s (Owned t)) \<longrightarrow> m_master (mtx s m) = Some t)
     \<and> (\<forall>t. TaskItem t \<in> set (lst s TaskActive) \<longrightarrow>
          t_lock (task s t) = None \<and> t_wait (task s t) = None)
     \<and> t_lock (task s (current s)) = None"

lemma links_ok_frame: "prio_frame s s' \<Longrightarrow> links_ok s' = links_ok s"
  by (simp add: links_ok_def prio_frame_fields)

lemma SI_links_ok: "SI X s \<Longrightarrow> cur_free s \<Longrightarrow> links_ok s"
  by (auto simp: links_ok_def cur_free_def SI_owned dest: SI_active)

lemma task_reprio_ok:
  assumes l: "links_ok s" and p: "prio_ok {t} s" and r: "task_reprio t s = (s', n)"
  shows "prio_frame s s'" "prio_ok {} s'" "sched_ok s \<Longrightarrow> sched_ok s'"
    "n = Some m \<Longrightarrow> t_lock (task s t) = Some m"
proof -
  let ?new = "prio_of_locks s t"
  let ?s1 = "upd_task t (\<lambda>r. r\<lparr>t_prio := ?new\<rparr>) s"
  have s': "s' = ?s1 \<or> s' = ?s1\<lparr>need_schedule := True\<rparr>"
    and n: "n = Some m \<Longrightarrow> t_lock (task s t) = Some m"
    using r by (auto simp: task_reprio_def prio_of_locks_def [symmetric] Let_def upd_task_def
        split: if_splits option.splits)
  show "prio_frame s s'" using s' by (auto simp: prio_frame_def upd_task_def split: if_splits)
  show "n = Some m \<Longrightarrow> t_lock (task s t) = Some m" by fact
  have "prio_of_locks s' u = prio_of_locks s u" for u
    using s' by (intro prio_of_locks_cong) (auto simp: upd_task_def)
  then show "prio_ok {} s'" using p s' by (auto simp: prio_ok_def upd_task_def)
  show "sched_ok s'" if so: "sched_ok s"
  proof (cases "need_schedule s'")
    case False
    with s' have e: "s' = ?s1" by auto
    from False e so have le: "TaskItem u \<in> set (lst s TaskActive) \<Longrightarrow>
      t_prio (task s u) \<le> t_prio (task s (current s))" for u
      by (auto simp: sched_ok_def upd_task_def)
    have act: "TaskItem t \<in> set (lst s TaskActive) \<Longrightarrow> \<not> task_is_waiting s t"
      and cl: "t_lock (task s (current s)) = None"
      using l by (auto simp: links_ok_def task_is_waiting_def)
    have up: "?new \<le> t_prio (task s (current s))"
      if "TaskItem t \<in> set (lst s TaskActive)" "t \<noteq> current s"
    proof (rule ccontr)
      assume "\<not> ?thesis"
      with le [OF that(1)] have "t_prio (task s t) < ?new" "t_prio (task s (current s)) < ?new" by auto
      with act [OF that(1)] r False that(2) show False
        by (auto simp: task_reprio_def prio_of_locks_def [symmetric] Let_def upd_task_def
            task_is_waiting_def split: if_splits)
    qed
    have dn: "t_prio (task s t) \<le> ?new" if "t = current s"
    proof (rule ccontr)
      assume "\<not> ?thesis"
      with cl r False that show False
        by (auto simp: task_reprio_def prio_of_locks_def [symmetric] Let_def upd_task_def
            split: if_splits)
    qed
    have "t_prio (task s' u) \<le> t_prio (task s' (current s'))"
      if "TaskItem u \<in> set (lst s' TaskActive)" for u
      using that le up dn unfolding e
      by (cases "u = t"; cases "t = current s") (auto simp: upd_task_def intro: order_trans)
    then show ?thesis by (simp add: sched_ok_def)
  qed (simp add: sched_ok_def)
qed

lemma mutex_reprio_ok:
  assumes l: "links_ok s" and p: "prio_ok {} s" and r: "mutex_reprio m s = (s', n)"
  shows "prio_frame s s'" "prio_ok (case n of None \<Rightarrow> {} | Some t \<Rightarrow> {t}) s'"
    "sched_ok s \<Longrightarrow> sched_ok s'" "n = Some t \<Longrightarrow> m_master (mtx s m) = Some t"
proof -
  let ?old = "m_prio (mtx s m)"
  let ?new = "max_prio 0 (map (\<lambda>t. t_prio (task s t)) (slave_tasks s m))"
  have s': "s' = upd_mtx m (\<lambda>r. r\<lparr>m_prio := ?new\<rparr>) s"
    and n: "n = Some t \<Longrightarrow> m_master (mtx s m) = Some t" for t
    using r by (auto simp: mutex_reprio_def Let_def upd_mtx_def split: if_splits option.splits)
  show "prio_frame s s'" using s' by (auto simp: prio_frame_def upd_mtx_def)
  show "n = Some t \<Longrightarrow> m_master (mtx s m) = Some t" by fact
  show "sched_ok s'" if "sched_ok s" using that s' by (simp add: sched_ok_def upd_mtx_def)
  have own: "LockItem k \<in> set (lst s (Owned u)) \<Longrightarrow> m_master (mtx s k) = Some u" for k u
    using l by (simp add: links_ok_def)
  have other: "prio_of_locks s' u = prio_of_locks s u" if "LockItem m \<notin> set (lst s (Owned u))" for u
    using that s' by (intro prio_of_locks_cong) (auto simp: upd_mtx_def)
  have mast: "t_prio (task s u) = prio_of_locks s' u"
    if u: "LockItem m \<in> set (lst s (Owned u))" and nu: "n \<noteq> Some u" and b: "t_base (task s u) \<noteq> 0" for u
  proof -
    have pu: "t_prio (task s u) = prio_of_locks s u" using p b by (simp add: prio_ok_def)
    note ge = prio_of_locks_ge(1) [of s u, folded pu] prio_of_locks_ge(2) [of _ s u, folded pu]
      and at = prio_of_locks_is [of s u, folded pu]
    have c: "?new = ?old \<or> (?new > ?old \<and> ?new \<le> t_prio (task s u))
      \<or> (?new < ?old \<and> (?old < t_prio (task s u) \<or> ?old \<le> t_base (task s u)))"
      using r nu own [OF u] by (auto simp: mutex_reprio_def Let_def upd_mtx_def split: if_splits)
    have "prio_of_locks s' u = t_prio (task s u)"
    proof (rule prio_of_locks_eqI)
      show "t_base (task s' u) \<le> t_prio (task s u)" using ge(1) s' by (simp add: upd_mtx_def)
      show "m_prio (mtx s' k) \<le> t_prio (task s u)" if "LockItem k \<in> set (lst s' (Owned u))" for k
        using that c ge s' u by (cases "k = m") (auto simp: upd_mtx_def intro: order_trans)
      show "t_prio (task s u) = t_base (task s' u)
        \<or> (\<exists>k. LockItem k \<in> set (lst s' (Owned u)) \<and> m_prio (mtx s' k) = t_prio (task s u))"
      proof (cases "t_prio (task s u) = t_base (task s u)")
        case False
        with at obtain k where k: "LockItem k \<in> set (lst s (Owned u))"
          "m_prio (mtx s k) = t_prio (task s u)" by auto
        have "m_prio (mtx s' k) = t_prio (task s u)"
          using k c ge(1) False s' by (cases "k = m") (auto simp: upd_mtx_def)
        then show ?thesis using k(1) s' by (auto simp: upd_mtx_def)
      qed (simp add: s' upd_mtx_def)
    qed
    then show ?thesis by simp
  qed
  have "t_prio (task s' u) = prio_of_locks s' u"
    if nu: "n \<noteq> Some u" and b: "t_base (task s' u) \<noteq> 0" for u
    using mast [of u] other [of u] nu b p s'
    by (cases "LockItem m \<in> set (lst s (Owned u))") (auto simp: upd_mtx_def prio_ok_def)
  then show "prio_ok (case n of None \<Rightarrow> {} | Some t \<Rightarrow> {t}) s'"
    by (auto simp: prio_ok_def split: option.splits)
qed

section \<open>The whole chain\<close>

text \<open>The chain of blocked tasks that starts with a task is finite: no circle of tasks blocked
  by each other is on it.\<close>

inductive chain_ok :: "kstate \<Rightarrow> tid \<Rightarrow> bool" for s where
  "(\<And>m t'. t_lock (task s t) = Some m \<Longrightarrow> m_master (mtx s m) = Some t' \<Longrightarrow> chain_ok s t')
   \<Longrightarrow> chain_ok s t"

definition deadlock_free :: "kstate \<Rightarrow> bool" where
  "deadlock_free s \<longleftrightarrow> (\<forall>t. chain_ok s t)"

lemma chain_ok_cong:
  assumes "chain_ok s t"
    and "\<And>t. t_lock (task s' t) = t_lock (task s t)" "\<And>m. m_master (mtx s' m) = m_master (mtx s m)"
  shows "chain_ok s' t"
  using assms(1) by induction (auto simp: assms(2,3) intro: chain_ok.intros)

lemma chain_ok_free: "t_lock (task s t) = None \<Longrightarrow> chain_ok s t"
  by (rule chain_ok.intros) simp

lemma recalculate_ok:
  assumes "chain_ok s t" "links_ok s" "prio_ok {t} s"
  shows "\<exists>s'. task_recalculate_prio t s = Some s' \<and> prio_frame s s' \<and> prio_ok {} s'
    \<and> (sched_ok s \<longrightarrow> sched_ok s')"
proof -
  have "\<exists>s''. task_recalculate_prio t s' = Some s'' \<and> prio_frame s' s'' \<and> prio_ok {} s''
    \<and> (sched_ok s' \<longrightarrow> sched_ok s'')"
    if "prio_frame s s'" "links_ok s'" "prio_ok {t} s'" for s'
    using assms(1) that
  proof (induction t arbitrary: s' rule: chain_ok.induct)
    case (1 t)
    obtain s1 n where r1: "task_reprio t s' = (s1, n)" by fastforce
    note t1 = task_reprio_ok [OF 1(4,5) r1]
    have l1: "links_ok s1" using links_ok_frame [OF t1(1)] 1(4) by simp
    show ?case
    proof (cases n)
      case None
      then show ?thesis using r1 t1 by (subst task_recalculate_prio.simps) auto
    next
      case (Some m)
      obtain s2 n2 where r2: "mutex_reprio m s1 = (s2, n2)" by fastforce
      note t2 = mutex_reprio_ok [OF l1 t1(2) r2]
      note f = prio_frame_trans [OF t1(1) t2(1)]
      note f0 = prio_frame_trans [OF 1(3) f]
      have l2: "links_ok s2" using links_ok_frame [OF f] 1(4) by simp
      show ?thesis
      proof (cases n2)
        case None
        then show ?thesis using Some r1 r2 t1(3) t2 f by (subst task_recalculate_prio.simps) auto
      next
        case (Some t')
        have m: "t_lock (task s t) = Some m" "m_master (mtx s m) = Some t'"
          using t1(4) [OF \<open>n = Some m\<close>] t2(4) [OF Some] prio_frame_fields [OF 1(3)]
            prio_frame_fields [OF t1(1)] by simp_all
        obtain s3 where "task_recalculate_prio t' s2 = Some s3" "prio_frame s2 s3" "prio_ok {} s3"
          "sched_ok s2 \<longrightarrow> sched_ok s3"
          using 1(2) [OF m f0 l2] t2(2) Some by auto
        then show ?thesis using Some \<open>n = Some m\<close> r1 r2 t1(3) t2(3) prio_frame_trans [OF f]
          by (subst task_recalculate_prio.simps) auto
      qed
    qed
  qed
  then show ?thesis using assms(2,3) by simp
qed

lemma mutex_recalculate_ok:
  assumes "\<And>t. m_master (mtx s m) = Some t \<Longrightarrow> chain_ok s t" "links_ok s" "prio_ok {} s"
  shows "\<exists>s'. mutex_recalculate_prio m s = Some s' \<and> prio_frame s s' \<and> prio_ok {} s'
    \<and> (sched_ok s \<longrightarrow> sched_ok s')"
proof -
  obtain s1 n where r: "mutex_reprio m s = (s1, n)" by fastforce
  note t1 = mutex_reprio_ok [OF assms(2,3) r]
  show ?thesis
  proof (cases n)
    case None
    then show ?thesis using r t1 by (auto simp: mutex_recalculate_prio_def)
  next
    case (Some t)
    have "chain_ok s1 t" using assms(1) [OF t1(4) [OF Some]]
      by (rule chain_ok_cong) (simp_all add: prio_frame_fields [OF t1(1)])
    moreover have "links_ok s1" using links_ok_frame [OF t1(1)] assms(2) by simp
    ultimately obtain s2 where "task_recalculate_prio t s1 = Some s2" "prio_frame s1 s2"
      "prio_ok {} s2" "sched_ok s1 \<longrightarrow> sched_ok s2"
      using recalculate_ok t1(2) Some by fastforce
    then show ?thesis using Some r t1 prio_frame_trans [OF t1(1)]
      by (auto simp: mutex_recalculate_prio_def)
  qed
qed

end
