(* ===== verification/Kernel_Safe.thy ===== *)
theory Kernel_Safe
  imports Kernel_Prio
begin

text \<open>
  Every kernel call, and every continuation of a call that gave up the processor, keeps the
  invariant \<open>KI\<close> and fails no assertion, when it is used as \<open>kernel/uos.h\<close> asks.
\<close>

section \<open>The scheduler\<close>

lemma fold_pick:
  assumes "\<forall>x \<in> set xs. \<exists>t. x = TaskItem t"
  shows "(fold (policy_pick s) xs r = r \<or> TaskItem (fold (policy_pick s) xs r) \<in> set xs)
    \<and> t_prio (task s r) \<le> t_prio (task s (fold (policy_pick s) xs r))
    \<and> (\<forall>t. TaskItem t \<in> set xs \<longrightarrow> t_prio (task s t) \<le> t_prio (task s (fold (policy_pick s) xs r)))"
  using assms
proof (induction xs arbitrary: r)
  case (Cons x xs)
  obtain u where x: "x = TaskItem u" using Cons(2) by auto
  show ?case using Cons(1) [of "policy_pick s x r"] Cons(2) x by (auto split: if_splits)
qed simp

lemma task_policy_ok:
  assumes "SI X s"
  shows "TaskItem (task_policy s) \<in> set (lst s TaskActive)"
    and "TaskItem t \<in> set (lst s TaskActive) \<Longrightarrow> t_prio (task s t) \<le> t_prio (task s (task_policy s))"
  using fold_pick [of "lst s TaskActive" s "idle s"] SI_task_item [OF assms] SI_idle [OF assms]
  unfolding task_policy_def by (force, blast)

lemma schedule_ok:
  assumes SI: "SI {} s" and p: "prio_ok {} s"
  shows "KI (task_schedule s)"
proof -
  let ?n = "task_policy s"
  let ?s' = "task_schedule s"
  have pol: "task_policy (s\<lparr>need_schedule := False\<rparr>) = ?n"
  proof -
    have "policy_pick (s\<lparr>need_schedule := False\<rparr>) x = policy_pick s x" for x
      by (cases x) auto
    then have "policy_pick (s\<lparr>need_schedule := False\<rparr>) = policy_pick s" by (rule ext)
    then show ?thesis by (simp add: task_policy_def)
  qed
  have fld: "lists ?s' = lists s" "mtx ?s' = mtx s" "grp ?s' = grp s" "stack ?s' = stack s"
    "idle ?s' = idle s" "current ?s' = ?n" "t_lock (task ?s' t) = t_lock (task s t)"
    "t_wait (task ?s' t) = t_wait (task s t)" "t_prio (task ?s' t) = t_prio (task s t)"
    "t_base (task ?s' t) = t_base (task s t)" "t_guard (task ?s' t) = t_guard (task s t)" for t
    using pol by (auto simp: task_schedule_def Let_def upd_task_def)
  note act = task_policy_ok [OF SI]
  have SI': "SI {} ?s'" using SI by (simp add: SI_def inv_defs fld)
  moreover have "prio_ok {} ?s'" using p
    by (simp add: prio_ok_def prio_of_locks_def owned_locks_def fld)
  moreover have "sched_ok ?s'" using act(2) by (simp add: sched_ok_def fld)
  moreover have "cur_inv ?s'"
    using act(1) SI_active [OF SI act(1)] SI_alone(1) [OF SI act(1)]
    by (simp add: cur_inv_def cur_free_def fld)
  ultimately show ?thesis by (simp add: MI_def)
qed

lemma schedule_if_ok:
  assumes "SI {} s" "prio_ok {} s" "sched_ok s" "cur_inv s \<or> need_schedule s"
  shows "KI (schedule_if_needed s)"
  using assms schedule_ok by (auto simp: schedule_if_needed_def MI_def)

lemma MI_parts:
  assumes "MI X s"
  shows "SI X s" "prio_ok {} s" "sched_ok s" "cur_inv s" "cur_free s" "links_ok s"
  using assms SI_links_ok by (auto simp: MI_def cur_inv_def)

text \<open>The depth as a signed number.\<close>

lemma deep_bounds: "- 32768 \<le> sint d \<and> sint d < 32768" for d :: small_int
  using sint_range_size [of d] by (simp add: word_size)

lemma deep_inc: "sint d < 32767 \<Longrightarrow> sint (d + 1) = sint d + 1" for d :: small_int
  using deep_bounds [of d] by (simp add: signed_take_bit_int_eq_self_iff sint_word_ariths)

lemma deep_dec: "sint d > 0 \<Longrightarrow> sint (d - 1) = sint d - 1" for d :: small_int
  using deep_bounds [of d] by (simp add: signed_take_bit_int_eq_self_iff sint_word_ariths)

lemma deep_one: "sint d > 0 \<Longrightarrow> \<not> sint d > 1 \<Longrightarrow> d = 1" for d :: small_int
proof -
  assume "sint d > 0" "\<not> sint d > 1"
  then have "sint d = sint (1 :: small_int)" by simp
  then show "d = 1" by (rule signed_word_eqI)
qed

section \<open>Releasing a lock\<close>

definition released :: "mid \<Rightarrow> kstate \<Rightarrow> kstate" where
  "released m s = upd_mtx m (\<lambda>r. r\<lparr>m_deep := 0, m_master := None\<rparr>)
     (upd_lists (l_unlink (LockItem m)) s)"

lemma released_SI:
  assumes SI: "SI X s" and i: "m_init (mtx s m)"
  shows "SI (insert m X) (released m s)"
proof -
  let ?s = "released m s"
  note P = SI_parts [OF SI]
  have fld: "task ?s = task s" "grp ?s = grp s" "current ?s = current s" "idle ?s = idle s"
    "stack ?s = stack s" "m_init (mtx ?s k) = m_init (mtx s k)"
    "m_master (mtx ?s k) = (if k = m then None else m_master (mtx s k))"
    "m_deep (mtx ?s k) = (if k = m then 0 else m_deep (mtx s k))" for k
    by (auto simp: released_def upd_defs)
  have it: "x \<in> set (lst ?s l) \<longleftrightarrow> x \<noteq> LockItem m \<and> x \<in> set (lst s l)" for x l
    by (simp add: released_def upd_defs l_mem)
  have wf: "wf_store (lists ?s)" using P(6) by (simp add: released_def upd_defs)
  have lk: "linked (lists ?s) (TaskItem t) = linked (lists s) (TaskItem t)" for t
    by (simp add: released_def upd_defs l_linked)
  show ?thesis
  proof (rule SI_intro)
    show "inv_lists ?s" using P(1) wf unfolding inv_lists_def it by blast
    show "inv_task ?s" using P(2) unfolding inv_task_def it fld by blast
    show "inv_lock (insert m X) ?s" using P(3) i unfolding inv_lock_def it fld by auto
    show "inv_group ?s" using P(4) unfolding inv_group_def it fld lk by blast
    show "inv_stack ?s" using P(5) unfolding inv_stack_def it fld by blast
  qed
qed

text \<open>\<open>lock_drop\<close> leaves the released state, up to priorities, and repairs them.\<close>

lemma prio_frame_master:
  "prio_frame s s' \<Longrightarrow> prio_frame (upd_mtx m (\<lambda>r. r\<lparr>m_master := None\<rparr>) s) (upd_mtx m (\<lambda>r. r\<lparr>m_master := None\<rparr>) s')"
  by (simp add: prio_frame_def upd_mtx_def)

lemma lock_drop_ok:
  assumes SI: "SI X s0" and p: "prio_ok {} s0" and cf: "links_ok s0" and ch: "chain_ok s0 t"
    and m: "m_master (mtx s0 m) = Some t" and s: "s = upd_mtx m (\<lambda>r. r\<lparr>m_deep := 0\<rparr>) s0"
  shows "\<exists>s'. lock_drop m t s = Some s' \<and> prio_frame (released m s0) s' \<and> prio_ok {} s'
    \<and> (sched_ok s0 \<longrightarrow> sched_ok s')"
proof -
  let ?s1 = "upd_lists (l_unlink (LockItem m)) s"
  let ?f = "\<lambda>r. r\<lparr>m_master := None\<rparr>"
  have fld: "task ?s1 = task s0" "current ?s1 = current s0" "need_schedule ?s1 = need_schedule s0"
    "m_prio (mtx ?s1 k) = m_prio (mtx s0 k)" "m_master (mtx ?s1 k) = m_master (mtx s0 k)" for k
    by (auto simp: s upd_defs)
  have it: "x \<in> set (lst ?s1 l) \<longleftrightarrow> x \<noteq> LockItem m \<and> x \<in> set (lst s0 l)" for x l
    by (simp add: s upd_defs l_mem)
  have own: "LockItem m \<in> set (lst s0 (Owned u)) \<longleftrightarrow> u = t" for u
    using SI_owned [OF SI, of m u] m by auto
  have un: "lst ?s1 (Owned u) = lst s0 (Owned u)" if "u \<noteq> t" for u
    using own [of u] that by (simp add: s upd_defs l_apply)
  have rel: "upd_mtx m ?f ?s1 = released m s0"
    by (simp add: s released_def upd_defs)
  have links: "links_ok ?s1" using cf unfolding links_ok_def it fld by blast
  have same: "prio_of_locks ?s1 u = prio_of_locks s0 u" if "u \<noteq> t" for u
    using un [OF that] by (intro prio_of_locks_cong) (simp_all add: fld)
  have so: "sched_ok s0 \<Longrightarrow> sched_ok ?s1" by (simp add: sched_ok_def fld it)
  have fin: "\<exists>s'. lock_drop m t s = Some s' \<and> prio_frame (released m s0) s' \<and> prio_ok {} s'
    \<and> (sched_ok s0 \<longrightarrow> sched_ok s')"
    if r: "(if t_prio (task ?s1 t) \<le> m_prio (mtx ?s1 m) \<and> t_base (task ?s1 t) < m_prio (mtx ?s1 m)
           then task_recalculate_prio t ?s1 else Some ?s1) = Some s2"
      and f: "prio_frame ?s1 s2" and p2: "prio_ok {} s2" and so2: "sched_ok ?s1 \<longrightarrow> sched_ok s2" for s2
  proof -
    have "lock_drop m t s = Some (upd_mtx m ?f s2)" using r by (simp add: lock_drop_def Let_def)
    moreover have "prio_frame (released m s0) (upd_mtx m ?f s2)"
      unfolding rel [symmetric] by (rule prio_frame_master [OF f])
    moreover have "prio_of_locks (upd_mtx m ?f s2) u = prio_of_locks s2 u" for u
      by (rule prio_of_locks_cong) (auto simp: upd_mtx_def)
    then have "prio_ok {} (upd_mtx m ?f s2)" using p2 by (simp add: prio_ok_def) (simp add: upd_mtx_def)
    moreover have "sched_ok s2 \<Longrightarrow> sched_ok (upd_mtx m ?f s2)" by (simp add: sched_ok_def upd_mtx_def)
    ultimately show ?thesis using so so2 by blast
  qed
  show ?thesis
  proof (cases "t_prio (task s0 t) \<le> m_prio (mtx s0 m) \<and> t_base (task s0 t) < m_prio (mtx s0 m)")
    case True
    have "chain_ok ?s1 t" by (rule chain_ok_cong [OF ch]) (simp_all add: fld)
    moreover have "prio_ok {t} ?s1" using p same by (simp add: prio_ok_def fld)
    ultimately obtain s2 where "task_recalculate_prio t ?s1 = Some s2" "prio_frame ?s1 s2" "prio_ok {} s2"
      "sched_ok ?s1 \<longrightarrow> sched_ok s2" using recalculate_ok links by blast
    with True show ?thesis by (intro fin) (simp_all add: fld)
  next
    case False
    have "t_prio (task s0 t) = prio_of_locks ?s1 t" if b: "t_base (task s0 t) \<noteq> 0"
    proof -
      have pt: "t_prio (task s0 t) = prio_of_locks s0 t" using p b by (simp add: prio_ok_def)
      note ge = prio_of_locks_ge(1) [of s0 t, folded pt] prio_of_locks_ge(2) [of _ s0 t, folded pt]
      have "prio_of_locks ?s1 t = t_prio (task s0 t)"
      proof (rule prio_of_locks_eqI)
        show "t_base (task ?s1 t) \<le> t_prio (task s0 t)" using ge(1) by (simp add: fld)
        show "m_prio (mtx ?s1 k) \<le> t_prio (task s0 t)" if "LockItem k \<in> set (lst ?s1 (Owned t))" for k
          using that ge(2) by (simp add: fld it)
        show "t_prio (task s0 t) = t_base (task ?s1 t)
          \<or> (\<exists>k. LockItem k \<in> set (lst ?s1 (Owned t)) \<and> m_prio (mtx ?s1 k) = t_prio (task s0 t))"
          using prio_of_locks_is [of s0 t, folded pt] False ge own [of t] unfolding fld it
          by (metis item.inject(2) order.order_iff_strict)
      qed
      then show ?thesis by simp
    qed
    then have "prio_ok {} ?s1" using p same by (simp add: prio_ok_def fld) metis
    with False show ?thesis by (intro fin [of ?s1]) (auto simp: fld)
  qed
qed

lemma kframe_parts:
  assumes "kframe s s'"
  shows "sched_ok s \<Longrightarrow> sched_ok s'" "cur_inv s \<Longrightarrow> cur_inv s'" "need_schedule s \<Longrightarrow> need_schedule s'"
    "m_master (mtx s' m) = m_master (mtx s m)" "current s' = current s" "idle s' = idle s"
    "stack s' = stack s" "cur_free s \<Longrightarrow> cur_free s'"
  using assms kframe_cur_inv [OF assms] unfolding kframe_def by blast+

lemma clear_prio_ok:
  assumes SI: "SI X s" and p: "prio_ok {} s" and m: "m_master (mtx s m) = None"
  defines "s' \<equiv> upd_mtx m (\<lambda>r. r\<lparr>m_prio := 0\<rparr>) s"
  shows "SI X s'" "prio_ok {} s'" "sched_ok s' = sched_ok s" "cur_inv s' = cur_inv s"
    "need_schedule s' = need_schedule s" "cur_free s' = cur_free s" "lists s' = lists s"
proof -
  have f: "prio_frame s s'" by (simp add: s'_def prio_frame_def upd_mtx_def)
  show "SI X s'" using SI prio_frame_SI [OF f] by simp
  have t: "task s' = task s" "need_schedule s' = need_schedule s" by (simp_all add: s'_def upd_mtx_def)
  have "LockItem m \<notin> set (lst s (Owned u))" for u using SI_owned [OF SI, of m u] m by simp
  then have "prio_of_locks s' u = prio_of_locks s u" for u
    by (intro prio_of_locks_cong) (auto simp: s'_def upd_mtx_def)
  then show "prio_ok {} s'" using p by (simp add: prio_ok_def t)
  show "sched_ok s' = sched_ok s" "cur_inv s' = cur_inv s" "need_schedule s' = need_schedule s"
    "cur_free s' = cur_free s" "lists s' = lists s"
    by (simp_all add: sched_ok_def cur_inv_def cur_free_def deleting_self_def t prio_frame_fields [OF f])
qed

lemma wake_all_slaves_ok:
  assumes SI: "SI (insert m X) s" and p: "prio_ok {} s" and m: "m_master (mtx s m) = None"
  shows "\<exists>s'. wake_all_slaves m s = Some s' \<and> SI X s' \<and> prio_ok {} s'
    \<and> (sched_ok s \<longrightarrow> sched_ok s') \<and> (cur_inv s \<longrightarrow> cur_inv s')
    \<and> (need_schedule s \<longrightarrow> need_schedule s')"
proof (cases "lst s (Slaves m) = []")
  case True
  then show ?thesis using SI_done [OF SI] p by (simp add: wake_all_slaves_def)
next
  case False
  obtain s1 where s1: "wake_slaves m s = Some s1" "SI (insert m X) s1" "prio_ok {} s1" "kframe s s1"
    "lst s1 (Slaves m) = []" using wake_slaves_ok [OF SI p] by blast
  have m1: "m_master (mtx s1 m) = None" using kframe_parts(4) [OF s1(4)] m by simp
  note c = clear_prio_ok [OF SI_done [OF s1(2,5)] s1(3) m1]
  show ?thesis using False s1(1) c kframe_parts(1-3) [OF s1(4)]
    by (auto simp: wake_all_slaves_def)
qed

lemma released_cur:
  assumes "prio_frame (released m s) s'"
  shows "cur_inv s \<Longrightarrow> need_schedule s' \<Longrightarrow> cur_inv s'" "cur_inv s \<Longrightarrow> need_schedule s \<Longrightarrow> need_schedule s'"
    "cur_inv s \<Longrightarrow> cur_inv s'" "m_master (mtx s' m) = None" "cur_free s \<Longrightarrow> cur_free s'"
    "stack s' = stack s" "current s' = current s" "idle s' = idle s"
    "t_lock (task s' t) = t_lock (task s t)" "t_wait (task s' t) = t_wait (task s t)"
    "grp s' = grp s" "irqv s' = irqv s" "TaskItem t \<in> set (lst s' l) \<longleftrightarrow> TaskItem t \<in> set (lst s l)"
proof -
  note f = prio_frame_fields [OF assms]
  have n: "need_schedule s \<Longrightarrow> need_schedule s'" using assms by (simp add: prio_frame_def released_def upd_defs)
  have it: "TaskItem t \<in> set (lst s' l) \<longleftrightarrow> TaskItem t \<in> set (lst s l)" for t l
    by (simp add: f released_def upd_defs l_mem)
  show "cur_inv s \<Longrightarrow> need_schedule s \<Longrightarrow> need_schedule s'" "m_master (mtx s' m) = None"
    "stack s' = stack s" "current s' = current s" "idle s' = idle s"
    "t_lock (task s' t) = t_lock (task s t)" "t_wait (task s' t) = t_wait (task s t)"
    "grp s' = grp s" "irqv s' = irqv s" "TaskItem t \<in> set (lst s' l) \<longleftrightarrow> TaskItem t \<in> set (lst s l)"
    using n it by (simp_all add: f released_def upd_defs)
  show "cur_inv s \<Longrightarrow> cur_inv s'" "cur_inv s \<Longrightarrow> need_schedule s' \<Longrightarrow> cur_inv s'" "cur_free s \<Longrightarrow> cur_free s'"
    using n it by (simp_all add: cur_inv_def cur_free_def deleting_self_def f released_def upd_defs
        del: not_None_eq) blast+
qed

text \<open>Both unlock calls are this sequence; they differ in the assertion on the depth and in what
  they do to the interrupt slot.\<close>

lemma unlock_deep_ok:
  assumes K: "KI s" and d: "sint (m_deep (mtx s m)) > 1"
  shows "KI (upd_mtx m (\<lambda>r. r\<lparr>m_deep := m_deep r - 1\<rparr>) s)" (is "KI ?s")
proof -
  note P = MI_parts [OF K]
  have fld: "task ?s = task s" "lists ?s = lists s" "grp ?s = grp s" "current ?s = current s"
    "idle ?s = idle s" "stack ?s = stack s" "need_schedule ?s = need_schedule s"
    "m_prio (mtx ?s k) = m_prio (mtx s k)" "m_init (mtx ?s k) = m_init (mtx s k)"
    "m_master (mtx ?s k) = m_master (mtx s k)"
    "m_deep (mtx ?s k) = (if k = m then m_deep (mtx s k) - 1 else m_deep (mtx s k))" for k
    by (auto simp: upd_mtx_def)
  have "m_master (mtx s m) \<noteq> None" using SI_free [OF P(1), of m] d by fastforce
  then have "inv_lock {} ?s" using SI_parts(3) [OF P(1)] d deep_dec [of "m_deep (mtx s m)"] unfolding inv_lock_def fld by auto
  then have "SI {} ?s" using SI_parts(1,2,4,5) [OF P(1)]
    by (intro SI_intro) (simp_all add: inv_lists_def inv_task_def inv_group_def inv_stack_def fld)
  then show ?thesis using P(2-4)
    by (simp add: MI_def prio_ok_def prio_of_locks_def owned_locks_def sched_ok_def cur_inv_def
        cur_free_def deleting_self_def fld)
qed

lemma unlock_last_ok:
  assumes K: "KI s" and m: "m_master (mtx s m) = Some t" and d: "m_deep (mtx s m) = 1"
    and ch: "chain_ok s t"
  shows "\<exists>s'. lock_drop m t (upd_mtx m (\<lambda>r. r\<lparr>m_deep := m_deep r - 1\<rparr>) s) = Some s'
    \<and> SI {m} s' \<and> prio_ok {} s' \<and> sched_ok s' \<and> cur_inv s' \<and> m_master (mtx s' m) = None"
proof -
  note P = MI_parts [OF K]
  have e: "upd_mtx m (\<lambda>r. r\<lparr>m_deep := m_deep r - 1\<rparr>) s = upd_mtx m (\<lambda>r. r\<lparr>m_deep := 0\<rparr>) s"
    using d by (simp add: upd_mtx_def)
  have i: "m_init (mtx s m)" using SI_uninit [OF P(1)] m by force
  obtain s' where s': "lock_drop m t (upd_mtx m (\<lambda>r. r\<lparr>m_deep := 0\<rparr>) s) = Some s'"
    "prio_frame (released m s) s'" "prio_ok {} s'" "sched_ok s'"
    using lock_drop_ok [OF P(1,2,6) ch m refl] P(3) by blast
  then show ?thesis unfolding e
    using released_SI [OF P(1) i] prio_frame_SI [OF s'(2)] released_cur(3,4) [OF s'(2)] P(4) by auto
qed

lemma mutex_unlock_ok:
  assumes K: "KI s" and g: "stack_guard s" and m: "m_master (mtx s m) = Some t" and ch: "chain_ok s t"
  shows "\<exists>s'. mutex_unlock fast m s = Some s' \<and> KI s'"
proof -
  let ?s1 = "upd_mtx m (\<lambda>r. r\<lparr>m_deep := m_deep r - 1\<rparr>) s"
  show ?thesis
  proof (cases "sint (m_deep (mtx s m)) > 1")
    case True
    then show ?thesis using unlock_deep_ok [OF K True] g m deep_dec [of "m_deep (mtx s m)"] True
      by (auto simp: mutex_unlock_def assert_c_def Let_def upd_mtx_def)
  next
    case False
    then have d: "m_deep (mtx s m) = 1" using deep_one SI_held [OF MI_parts(1) [OF K] m] by blast
    obtain s2 where s2: "lock_drop m t ?s1 = Some s2" "SI {m} s2" "prio_ok {} s2" "sched_ok s2"
      "cur_inv s2" "m_master (mtx s2 m) = None" using unlock_last_ok [OF K m d ch] by blast
    have "\<exists>s3. (case m_irq (mtx s2 m) of None \<Rightarrow> Some s2
        | Some q \<Rightarrow> map_option snd (handle_pending fast m q s2)) = Some s3
        \<and> SI {m} s3 \<and> prio_ok {} s3 \<and> kframe s2 s3"
      using handle_pending_ok [OF s2(2,3)] s2(2,3) by (fastforce split: option.splits)
    then obtain s3 where s3: "(case m_irq (mtx s2 m) of None \<Rightarrow> Some s2
        | Some q \<Rightarrow> map_option snd (handle_pending fast m q s2)) = Some s3"
      "SI {m} s3" "prio_ok {} s3" "kframe s2 s3" by blast
    note k = kframe_parts [OF s3(4)]
    obtain s4 where s4: "wake_all_slaves m s3 = Some s4" "SI {} s4" "prio_ok {} s4" "sched_ok s4" "cur_inv s4"
      using wake_all_slaves_ok [OF s3(2,3)] k(1,2,4) s2(4-6) by auto
    have "mutex_unlock fast m s = Some (schedule_if_needed s4)"
      using g m d s2(1) s3(1) s4(1)
      by (simp add: mutex_unlock_def assert_c_def Let_def) (simp add: upd_mtx_def)
    then show ?thesis using schedule_if_ok [OF s4(2-4)] s4(5) by simp
  qed
qed

lemma mutex_unlock_irq_ok:
  assumes K: "KI s" and g: "stack_guard s" and m: "m_master (mtx s m) = Some t" and ch: "chain_ok s t"
  shows "\<exists>s'. mutex_unlock_irq fast m s = Some s' \<and> KI s'"
proof -
  let ?s1 = "upd_mtx m (\<lambda>r. r\<lparr>m_deep := m_deep r - 1\<rparr>) s"
  have pos: "sint (m_deep (mtx s m)) > 0" using SI_held [OF MI_parts(1) [OF K] m] .
  show ?thesis
  proof (cases "sint (m_deep (mtx s m)) > 1")
    case True
    then show ?thesis using unlock_deep_ok [OF K True] g m deep_dec [of "m_deep (mtx s m)"] True
      by (auto simp: mutex_unlock_irq_def assert_c_def Let_def upd_mtx_def)
  next
    case False
    then have d: "m_deep (mtx s m) = 1" using deep_one pos False by blast
    obtain s2 where s2: "lock_drop m t ?s1 = Some s2" "SI {m} s2" "prio_ok {} s2" "sched_ok s2"
      "cur_inv s2" "m_master (mtx s2 m) = None" using unlock_last_ok [OF K m d ch] by blast
    let ?free = "\<lambda>q s. upd_mtx m (\<lambda>r. r\<lparr>m_irq := None\<rparr>) (upd_irq q (\<lambda>r. r\<lparr>q_lock := None\<rparr>) s)"
    let ?unbind = "\<lambda>s. case m_irq (mtx s m) of None \<Rightarrow> Some s
        | Some q \<Rightarrow> do { (_, s) \<leftarrow> handle_pending fast m q s; Some (?free q s) }"
    have "\<exists>s3. ?unbind s2 = Some s3 \<and> SI {m} s3 \<and> prio_ok {} s3 \<and> sched_ok s3 \<and> cur_inv s3
        \<and> m_master (mtx s3 m) = None"
    proof (cases "m_irq (mtx s2 m)")
      case None
      then show ?thesis using s2 by simp
    next
      case (Some q)
      obtain b s3 where s3: "handle_pending fast m q s2 = Some (b, s3)" "SI {m} s3" "prio_ok {} s3"
        "kframe s2 s3" using handle_pending_ok [OF s2(2,3)] by blast
      have f: "irq_frame s3 (?free q s3)" by simp
      note k = kframe_parts [OF s3(4)]
      show ?thesis using Some s3(1-3) irq_frame_inv [OF f] irq_frame_fields(10) [OF f] k(1,2,4) s2(4-6)
        by simp
    qed
    then obtain s3 where s3: "?unbind s2 = Some s3" "SI {m} s3" "prio_ok {} s3" "sched_ok s3"
      "cur_inv s3" "m_master (mtx s3 m) = None" by blast
    obtain s4 where s4: "wake_all_slaves m s3 = Some s4" "SI {} s4" "prio_ok {} s4" "sched_ok s4" "cur_inv s4"
      using wake_all_slaves_ok [OF s3(2,3,6)] s3(4,5) by auto
    have "mutex_unlock_irq fast m s = Some (schedule_if_needed s4)"
      using g m d s2(1) s3(1) s4(1) pos
      by (simp add: mutex_unlock_irq_def assert_c_def Let_def) (simp add: upd_mtx_def)
    then show ?thesis using schedule_if_ok [OF s4(2-4)] s4(5) by simp
  qed
qed

section \<open>Signals\<close>

lemma ensure_init_MI: "MI X s \<Longrightarrow> MI X (ensure_init m s)"
  using ensure_init_ok(1-3) [of X s "{}" m] kframe_parts(1,2) [of s "ensure_init m s"]
  by (auto simp: MI_def)

lemma activate_schedule_ok:
  assumes "KI s"
  shows "\<exists>s'. do { s \<leftarrow> mutex_activate m msg s; Some (schedule_if_needed s) } = Some s' \<and> KI s'"
proof -
  note P = MI_parts [OF assms]
  obtain s1 where s1: "mutex_activate m msg s = Some s1" "SI {} s1" "prio_ok {} s1" "kframe s s1"
    using mutex_activate_ok [OF P(1,2)] by blast
  then show ?thesis using schedule_if_ok [OF s1(2,3)] kframe_parts(1,2) [OF s1(4)] P(3,4) by simp
qed

lemma mutex_signal_ok:
  assumes K: "KI s" and g: "stack_guard s"
  shows "\<exists>s'. mutex_signal m msg s = Some s' \<and> KI s'"
  using ensure_init_MI [OF K, of m] activate_schedule_ok [of "ensure_init m s" m msg] g
  by (auto simp: mutex_signal_def assert_c_def Let_def)

lemma irq_handler_ok:
  assumes K: "KI s" and q: "q_lock (irqv s q) \<noteq> None"
  shows "\<exists>s'. irq_handler fast q s = Some s' \<and> KI s'"
proof -
  note P = MI_parts [OF K]
  obtain m where m: "q_lock (irqv s q) = Some m" using q by blast
  have sig: "\<exists>s'. irq_signal m s0 = Some s' \<and> KI s'" if "KI s0" for s0
    using activate_schedule_ok [OF that] by (simp add: irq_signal_def)
  obtain b s1 where s1: "call_handler fast q s = Some (b, s1)" "SI {} s1" "prio_ok {} s1" "kframe s s1"
    using call_handler_ok [OF P(1,2)] by blast
  have K1: "KI s1" using s1(2,3) kframe_parts(1,2) [OF s1(4)] P(3,4) by (simp add: MI_def)
  have KP: "KI (upd_irq q (\<lambda>r. r\<lparr>q_pending := True\<rparr>) s)"
    using irq_frame_inv(6) [OF irq_frame_upd(1)] K by simp
  show ?thesis using sig [OF K] sig [OF K1] K1 KP s1(1) m
    by (auto simp: irq_handler_def)
qed

section \<open>Acquiring a lock\<close>

text \<open>States in which the running task is ready: where user code and blocking calls run.\<close>

definition RI :: "kstate \<Rightarrow> bool" where
  "RI s \<longleftrightarrow> KI s \<and> TaskItem (current s) \<in> set (lst s TaskActive)"

lemma RI_KI: "RI s \<Longrightarrow> KI s"
  by (simp add: RI_def)

lemma RI_user: "KI s \<Longrightarrow> stack s (current s) = [] \<Longrightarrow> RI s"
  by (simp add: RI_def MI_def cur_inv_def deleting_self_def)

lemma ensure_init_RI:
  assumes "RI s" shows "RI (ensure_init m s)"
proof -
  note P = MI_parts [OF RI_KI [OF assms]]
  note e = ensure_init_ok [OF P(1,2), of m]
  show ?thesis using ensure_init_MI [OF RI_KI [OF assms]] assms by (simp add: RI_def e)
qed

text \<open>The state in which the running task has become the master.\<close>

definition taken :: "mid \<Rightarrow> small_int \<Rightarrow> kstate \<Rightarrow> kstate" where
  "taken m d s =
     (let s = upd_mtx m (\<lambda>r. r\<lparr>m_master := Some (current s), m_deep := d\<rparr>) s;
          s = upd_lists (l_append (Owned (current s)) (LockItem m)) s
      in if t_prio (task s (current s)) < m_prio (mtx s m)
         then upd_task (current s) (\<lambda>r. r\<lparr>t_prio := m_prio (mtx s m)\<rparr>) s else s)"

lemma taken_fields:
  "grp (taken m d s) = grp s" "current (taken m d s) = current s" "idle (taken m d s) = idle s"
  "stack (taken m d s) = stack s" "need_schedule (taken m d s) = need_schedule s"
  "irqv (taken m d s) = irqv s" "retv (taken m d s) = retv s"
  "lists (taken m d s) = l_append (Owned (current s)) (LockItem m) (lists s)"
  "m_init (mtx (taken m d s) k) = m_init (mtx s k)" "m_prio (mtx (taken m d s) k) = m_prio (mtx s k)"
  "m_master (mtx (taken m d s) k) = (if k = m then Some (current s) else m_master (mtx s k))"
  "m_deep (mtx (taken m d s) k) = (if k = m then d else m_deep (mtx s k))"
  "t_lock (task (taken m d s) t) = t_lock (task s t)" "t_wait (task (taken m d s) t) = t_wait (task s t)"
  "t_base (task (taken m d s) t) = t_base (task s t)" "t_guard (task (taken m d s) t) = t_guard (task s t)"
  "t_prio (task (taken m d s) t)
     = (if t = current s then max (t_prio (task s t)) (m_prio (mtx s m)) else t_prio (task s t))"
  by (auto simp: taken_def Let_def upd_defs)

lemma taken_ok:
  assumes R: "RI s" and m: "m_master (mtx s m) = None" "m_init (mtx s m)" and d: "sint d > 0"
  shows "RI (taken m d s)"
proof -
  let ?s = "taken m d s" and ?c = "current s"
  note P = MI_parts [OF RI_KI [OF R]] and f = taken_fields [of m d s]
  note L = SI_parts [OF P(1)]
  have it: "x \<in> set (lst ?s l) \<longleftrightarrow> (if x = LockItem m then l = Owned ?c else x \<in> set (lst s l))" for x l
    by (simp add: f l_mem)
  have wf: "wf_store (lists ?s)" using L(6) by (simp add: f)
  have lk: "linked (lists ?s) (TaskItem t) = linked (lists s) (TaskItem t)" for t
    by (simp add: f l_linked)
  have no: "LockItem m \<notin> set (lst s (Owned t))" for t using SI_owned [OF P(1), of m t] m(1) by simp
  have SI: "SI {} ?s"
  proof (rule SI_intro)
    show "inv_lists ?s" using L(1) wf unfolding inv_lists_def it by (auto split: if_splits)
    show "inv_task ?s" using L(2) unfolding inv_task_def it f(13,14) by simp
    show "inv_lock {} ?s" using L(3) m d no unfolding inv_lock_def it f(9,11,12) by (auto split: if_splits)
    show "inv_group ?s" using L(4) unfolding inv_group_def it lk f(1,9,13,14) by (auto split: if_splits)
    show "inv_stack ?s" using L(5) unfolding inv_stack_def it by (simp add: f(1-7,9,16))
  qed
  moreover have "prio_ok {} ?s"
  proof -
    have "t_prio (task ?s t) = prio_of_locks ?s t" if b: "t_base (task s t) \<noteq> 0" for t
    proof (cases "t = ?c")
      case False
      then have "prio_of_locks ?s t = prio_of_locks s t"
        by (intro prio_of_locks_cong) (simp_all add: f l_apply removeAll_id [OF no])
      then show ?thesis using P(2) b False by (simp add: prio_ok_def f(17))
    next
      case True
      have pu: "t_prio (task s t) = prio_of_locks s t" using P(2) b by (simp add: prio_ok_def)
      note ge = prio_of_locks_ge(1) [of s t, folded pu] prio_of_locks_ge(2) [of _ s t, folded pu]
        and at = prio_of_locks_is [of s t, folded pu]
      have "prio_of_locks ?s t = max (t_prio (task s t)) (m_prio (mtx s m))"
      proof (rule prio_of_locks_eqI)
        show "t_base (task ?s t) \<le> max (t_prio (task s t)) (m_prio (mtx s m))"
          using ge(1) by (simp add: f)
        show "m_prio (mtx ?s k) \<le> max (t_prio (task s t)) (m_prio (mtx s m))"
          if "LockItem k \<in> set (lst ?s (Owned t))" for k
          using that ge(2) [of k] unfolding it by (auto simp: f(10) split: if_splits)
        show "max (t_prio (task s t)) (m_prio (mtx s m)) = t_base (task ?s t)
          \<or> (\<exists>k. LockItem k \<in> set (lst ?s (Owned t)) \<and> m_prio (mtx ?s k)
              = max (t_prio (task s t)) (m_prio (mtx s m)))"
          using at True no unfolding it f(10,15) max_def by (metis item.inject(2))
      qed
      then show ?thesis using True by (simp add: f(17))
    qed
    then show ?thesis by (simp add: prio_ok_def f)
  qed
  moreover have "sched_ok ?s" using P(3) unfolding sched_ok_def it f(2,5,17) by auto
  moreover have "cur_inv ?s" "TaskItem (current ?s) \<in> set (lst ?s TaskActive)"
    using P(4,5) R unfolding RI_def cur_inv_def cur_free_def it f(1,2,13,14) by auto
  ultimately show ?thesis by (simp add: RI_def MI_def)
qed

text \<open>The state in which the running task has queued up behind the master.\<close>

definition blocked :: "mid \<Rightarrow> tid \<Rightarrow> frame \<Rightarrow> kstate \<Rightarrow> kstate" where
  "blocked m master k s =
     (let s = upd_task (current s) (\<lambda>r. r\<lparr>t_lock := Some m\<rparr>) s;
          s = upd_lists (l_append (Slaves m) (TaskItem (current s))) s;
          s = (if m_prio (mtx s m) < t_prio (current_task s) then
                let s = upd_mtx m (\<lambda>r. r\<lparr>m_prio := t_prio (current_task s)\<rparr>) s
                in if t_prio (task s master) < m_prio (mtx s m)
                   then upd_task master (\<lambda>r. r\<lparr>t_prio := m_prio (mtx s m)\<rparr>) s else s
              else s)
      in push_frame k s)"

lemma blocked_fields:
  "grp (blocked m u k s) = grp s" "current (blocked m u k s) = current s"
  "idle (blocked m u k s) = idle s"
  "stack (blocked m u k s) = (stack s)(current s := k # stack s (current s))"
  "lists (blocked m u k s) = l_append (Slaves m) (TaskItem (current s)) (lists s)"
  "m_init (mtx (blocked m u k s) j) = m_init (mtx s j)"
  "m_master (mtx (blocked m u k s) j) = m_master (mtx s j)"
  "m_deep (mtx (blocked m u k s) j) = m_deep (mtx s j)"
  "t_lock (task (blocked m u k s) t) = (if t = current s then Some m else t_lock (task s t))"
  "t_wait (task (blocked m u k s) t) = t_wait (task s t)"
  "t_base (task (blocked m u k s) t) = t_base (task s t)"
  "t_guard (task (blocked m u k s) t) = t_guard (task s t)"
  "m_prio (mtx (blocked m u k s) j)
     = (if j = m then max (m_prio (mtx s m)) (t_prio (task s (current s))) else m_prio (mtx s j))"
  "t_prio (task (blocked m u k s) t)
     = (if t = u \<and> m_prio (mtx s m) < t_prio (task s (current s))
        then max (t_prio (task s t)) (t_prio (task s (current s))) else t_prio (task s t))"
  by (auto simp: blocked_def Let_def upd_defs current_task_def)

lemma blocked_ok:
  assumes R: "RI s" and i: "current s \<noteq> idle s" and m: "m_master (mtx s m) = Some u"
    and k: "\<And>m d. k = FReacquire m d \<Longrightarrow> sint d > 0" "\<And>m. frame_lock k = Some m \<Longrightarrow> m_init (mtx s m)"
  shows "SI {} (blocked m u k s)" "prio_ok {} (blocked m u k s)"
proof -
  let ?s = "blocked m u k s" and ?c = "current s"
  note P = MI_parts [OF RI_KI [OF R]] and f = blocked_fields [of m u k s]
  note L = SI_parts [OF P(1)]
  have act: "TaskItem ?c \<in> set (lst s TaskActive)" using R by (simp add: RI_def)
  note al = SI_alone [OF P(1) act]
  have cf: "t_lock (task s ?c) = None" "t_wait (task s ?c) = None" "\<And>g. g_waiter (grp s g) \<noteq> Some ?c"
    using P(5) by (auto simp: cur_free_def)
  have mi: "m_init (mtx s m)" using SI_uninit [OF P(1), of m] m by force
  have it: "x \<in> set (lst ?s l) \<longleftrightarrow> (if x = TaskItem ?c then l = Slaves m else x \<in> set (lst s l))" for x l
    by (simp add: f l_mem)
  have wf: "wf_store (lists ?s)" using L(6) by (simp add: f)
  have lk: "linked (lists ?s) x \<longleftrightarrow> x = TaskItem ?c \<or> linked (lists s) x" for x
    by (simp add: f l_linked)
  have own: "TaskItem ?c \<notin> set (lst s (Owned t))" for t using al(2) by blast
  show "SI {} ?s"
  proof (rule SI_intro)
    show "inv_lists ?s" using L(1) wf unfolding inv_lists_def it by (auto split: if_splits)
    show "inv_task ?s" using L(2) cf al unfolding inv_task_def it f(9,10) by auto
    show "inv_lock {} ?s" using L(3) m mi own unfolding inv_lock_def it f(6-8) by (auto split: if_splits)
    show "inv_group ?s" using L(4) cf(3) unfolding inv_group_def it lk f(1,6,9,10) by (auto split: if_splits)
    show "inv_stack ?s" using L(5) i k unfolding inv_stack_def it f(3,4,6,12) by (auto split: if_splits)
  qed
  have "t_prio (task ?s t) = prio_of_locks ?s t" if b: "t_base (task s t) \<noteq> 0" for t
  proof -
    have pu: "t_prio (task s t) = prio_of_locks s t" using P(2) b by (simp add: prio_ok_def)
    note ge = prio_of_locks_ge(1) [of s t, folded pu] prio_of_locks_ge(2) [of _ s t, folded pu]
      and at = prio_of_locks_is [of s t, folded pu]
    have ol: "LockItem j \<in> set (lst ?s (Owned t)) \<longleftrightarrow> LockItem j \<in> set (lst s (Owned t))" for j
      unfolding it by simp
    have om: "LockItem m \<in> set (lst s (Owned t)) \<longleftrightarrow> t = u" using SI_owned [OF P(1), of m t] m by auto
    have "prio_of_locks ?s t = t_prio (task ?s t)"
    proof (rule prio_of_locks_eqI)
      show "t_base (task ?s t) \<le> t_prio (task ?s t)" using ge(1) unfolding f(11,14) by auto
      show "m_prio (mtx ?s j) \<le> t_prio (task ?s t)" if "LockItem j \<in> set (lst ?s (Owned t))" for j
        using that ge(2) [of j] om unfolding f(13,14) ol by (auto intro: order_trans)
      show "t_prio (task ?s t) = t_base (task ?s t)
        \<or> (\<exists>j. LockItem j \<in> set (lst ?s (Owned t)) \<and> m_prio (mtx ?s j) = t_prio (task ?s t))"
      proof (cases "t = u \<and> t_prio (task s t) < t_prio (task s ?c) \<and> m_prio (mtx s m) < t_prio (task s ?c)")
        case True
        then show ?thesis using om unfolding f(11,13,14) ol by (intro disjI2 exI [of _ m]) auto
      next
        case False
        then have e: "t_prio (task ?s t) = t_prio (task s t)" unfolding f(14) by auto
        have "m_prio (mtx ?s j) = t_prio (task s t)"
          if "LockItem j \<in> set (lst s (Owned t))" "m_prio (mtx s j) = t_prio (task s t)" for j
          using that False om unfolding f(13) by auto
        then show ?thesis using at unfolding e f(11) ol by blast
      qed
    qed
    then show ?thesis by simp
  qed
  then show "prio_ok {} ?s" by (simp add: prio_ok_def f(11))
qed

lemma lock_block_ok:
  assumes R: "RI s" and i: "current s \<noteq> idle s" and m: "m_master (mtx s m) = Some u"
    and k: "\<And>m d. k = FReacquire m d \<Longrightarrow> sint d > 0" "\<And>m. frame_lock k = Some m \<Longrightarrow> m_init (mtx s m)"
  shows "\<exists>s'. lock_block m u k s = Some s' \<and> KI s'"
proof -
  note P = MI_parts [OF RI_KI [OF R]]
  have "t_lock (current_task s) = None" "sint (m_deep (mtx s m)) > 0"
    using P(5) SI_held [OF P(1) m] by (auto simp: cur_free_def current_task_def)
  then have "lock_block m u k s = Some (task_schedule (blocked m u k s))"
    by (simp add: lock_block_def blocked_def assert_c_def Let_def)
  then show ?thesis using schedule_ok [OF blocked_ok [OF R i m k]] by simp
qed

lemma lock_take_ok:
  assumes R: "RI s" and m: "m_master (mtx s m) = None" "m_init (mtx s m)"
  shows "\<exists>s'. lock_take m s = Some s' \<and> deeper m s' = taken m 1 s"
    and "RI (taken m 1 s)"
proof -
  note P = MI_parts [OF RI_KI [OF R]]
  have d: "m_deep (mtx s m) = 0" by (rule SI_free [OF P(1) m(1)])
  have "lst s (Slaves m) = []" by (rule SI_no_slaves [OF P(1) m(1)]) simp
  then show "\<exists>s'. lock_take m s = Some s' \<and> deeper m s' = taken m 1 s"
    using d by (auto simp: lock_take_def taken_def deeper_def Let_def assert_c_def upd_defs current_task_def)
  show "RI (taken m 1 s)" by (rule taken_ok [OF R m]) simp
qed

end
