(* ===== verification/Kernel_Run.thy ===== *)
theory Kernel_Run
  imports Kernel_Safe
begin

text \<open>
  The remaining kernel calls keep the invariant, and the kernel as a machine: user calls,
  continuations, interrupts and the overflow of a stack as steps, the states reachable from start-up, and the theorem
  that no assertion fails in any of them when the event keeps the rules (\<open>event_ok\<close>).
\<close>

section \<open>Locking calls\<close>

text \<open>A lock that the running task holds can be taken once more: its depth is not the greatest \<open>small_int_t\<close>.\<close>

definition deep_room :: "mid \<Rightarrow> kstate \<Rightarrow> bool" where
  "deep_room m s \<longleftrightarrow> (m_master (mtx s m) = Some (current s) \<longrightarrow> sint (m_deep (mtx s m)) < 32767)"

lemma set_ret_MI: "MI X (set_ret v s) = MI X s"
  by (simp add: MI_def SI_def inv_defs prio_ok_def prio_of_locks_def owned_locks_def sched_ok_def
      cur_inv_def cur_free_def deleting_self_def set_ret_def)

lemma deeper_MI:
  assumes K: "MI X s" and m: "m_master (mtx s m) = Some t" and r: "sint (m_deep (mtx s m)) < 32767"
  shows "MI X (deeper m s)"
proof -
  let ?s = "deeper m s"
  note P = MI_parts [OF K]
  have fld: "task ?s = task s" "lists ?s = lists s" "grp ?s = grp s" "current ?s = current s"
    "idle ?s = idle s" "stack ?s = stack s" "need_schedule ?s = need_schedule s"
    "m_prio (mtx ?s k) = m_prio (mtx s k)" "m_init (mtx ?s k) = m_init (mtx s k)"
    "m_master (mtx ?s k) = m_master (mtx s k)"
    "m_deep (mtx ?s k) = (if k = m then m_deep (mtx s k) + 1 else m_deep (mtx s k))" for k
    by (auto simp: deeper_def upd_mtx_def)
  have "inv_lock X ?s" using SI_parts(3) [OF P(1)] m deep_inc [OF r] unfolding inv_lock_def fld by force
  then have "SI X ?s" using SI_parts(1,2,4,5) [OF P(1)]
    by (intro SI_intro) (simp_all add: inv_lists_def inv_task_def inv_group_def inv_stack_def fld)
  then show ?thesis using P(2-4)
    by (simp add: MI_def prio_ok_def prio_of_locks_def owned_locks_def sched_ok_def cur_inv_def
        cur_free_def deleting_self_def fld)
qed

lemma mutex_lock_loop_ok:
  assumes R: "RI s" and i: "current s \<noteq> idle s" and m: "m_init (mtx s m)" and r: "deep_room m s"
  shows "\<exists>s'. mutex_lock_loop m s = Some s' \<and> KI s'"
proof (cases "m_master (mtx s m)")
  case None
  show ?thesis using lock_take_ok [OF R None m] None by (auto simp: mutex_lock_loop_def intro: RI_KI)
next
  case (Some t)
  then show ?thesis using lock_block_ok [OF R i Some, of "FLock m"] m deeper_MI [OF RI_KI [OF R] Some] r
    by (simp add: mutex_lock_loop_def deep_room_def)
qed

lemma mutex_lock_ok:
  assumes R: "RI s" and i: "current s \<noteq> idle s" and m: "m_master (mtx s m) \<noteq> Some (current s)"
    and g: "stack_guard s"
  shows "\<exists>s'. mutex_lock m s = Some s' \<and> KI s'"
proof -
  note P = MI_parts [OF RI_KI [OF R]]
  note e = ensure_init_ok [OF P(1,2), of m]
  show ?thesis using mutex_lock_loop_ok [OF ensure_init_RI [OF R, of m]] i m e g
    by (simp add: mutex_lock_def assert_c_def deep_room_def)
qed

lemma ensure_init_deep:
  assumes "SI X s"
  shows "deep_room m (ensure_init m s) = deep_room m s"
  using SI_uninit [OF assms, of m] by (auto simp: deep_room_def ensure_init_def mutex_init_def upd_defs)

lemma mutex_trylock_ok:
  assumes R: "RI s" and g: "stack_guard s" and r: "deep_room m s"
  shows "\<exists>s'. mutex_trylock m s = Some s' \<and> KI s'"
proof -
  let ?s = "ensure_init m s"
  note P = MI_parts [OF RI_KI [OF R]]
  note e = ensure_init_ok [OF P(1,2), of m] and R1 = ensure_init_RI [OF R, of m]
  show ?thesis
  proof (cases "m_master (mtx ?s m)")
    case None
    show ?thesis using lock_take_ok [OF R1 None e(4)] None g
      by (auto simp: mutex_trylock_def assert_c_def Let_def set_ret_MI intro: RI_KI)
  next
    case (Some t)
    show ?thesis using Some g RI_KI [OF R1] deeper_MI [OF RI_KI [OF R1] Some] r [folded ensure_init_deep [OF P(1)]]
      by (auto simp: mutex_trylock_def assert_c_def Let_def set_ret_MI deep_room_def)
  qed
qed

lemma bind_irq_MI: "MI X (bind_irq m q h a s) = MI X s"
  by (rule irq_frame_inv(6)) simp

lemma mutex_lock_irq_loop_ok:
  assumes R: "RI s" and i: "current s \<noteq> idle s" and m: "m_init (mtx s m)" and r: "deep_room m s"
  shows "\<exists>s'. mutex_lock_irq_loop m q h a s = Some s' \<and> KI s'"
proof (cases "m_master (mtx s m)")
  case None
  show ?thesis using lock_take_ok [OF R None m] None
    by (auto simp: mutex_lock_irq_loop_def bind_irq_MI intro: RI_KI)
next
  case (Some t)
  then show ?thesis using lock_block_ok [OF R i Some, of "FLockIrq m q h a"] m
      deeper_MI [OF RI_KI [OF R] Some] r
    by (simp add: mutex_lock_irq_loop_def bind_irq_MI deep_room_def)
qed

lemma mutex_lock_irq_ok:
  assumes R: "RI s" and i: "current s \<noteq> idle s" and g: "stack_guard s" and r: "deep_room m s"
  shows "\<exists>s'. mutex_lock_irq m q h a s = Some s' \<and> KI s'"
proof -
  note P = MI_parts [OF RI_KI [OF R]]
  note e = ensure_init_ok [OF P(1,2), of m]
  show ?thesis using mutex_lock_irq_loop_ok [OF ensure_init_RI [OF R, of m]] i e g r
    by (simp add: mutex_lock_irq_def assert_c_def ensure_init_deep [OF P(1)])
qed

lemma mutex_attach_irq_ok:
  assumes K: "KI s" and q: "q_lock (irqv s q) = None"
  shows "\<exists>s'. mutex_attach_irq m q h a s = Some s' \<and> KI s'"
proof -
  note P = MI_parts [OF K]
  note e = ensure_init_ok [OF P(1,2), of m]
  show ?thesis using ensure_init_MI [OF K, of m] q e
    by (simp add: mutex_attach_irq_def assert_c_def bind_irq_MI)
qed

section \<open>Waiting\<close>

definition waiting :: "mid \<Rightarrow> kstate \<Rightarrow> kstate" where
  "waiting m s = upd_lists (l_append (Waiters m) (TaskItem (current s)))
     (upd_task (current s) (\<lambda>r. r\<lparr>t_wait := Some m\<rparr>) s)"

lemma waiting_ok:
  assumes R: "RI s" and i: "current s \<noteq> idle s" and m: "m_init (mtx s m)"
  shows "SI {} (waiting m s)" "prio_ok {} (waiting m s)" "links_ok (waiting m s)"
proof -
  let ?s = "waiting m s" and ?c = "current s"
  note P = MI_parts [OF RI_KI [OF R]]
  note L = SI_parts [OF P(1)]
  have act: "TaskItem ?c \<in> set (lst s TaskActive)" using R by (simp add: RI_def)
  note al = SI_alone [OF P(1) act]
  have cf: "t_lock (task s ?c) = None" "t_wait (task s ?c) = None" "\<And>g. g_waiter (grp s g) \<noteq> Some ?c"
    using P(5) by (auto simp: cur_free_def)
  have fld: "mtx ?s = mtx s" "grp ?s = grp s" "current ?s = ?c" "idle ?s = idle s" "stack ?s = stack s"
    "t_lock (task ?s t) = t_lock (task s t)" "t_prio (task ?s t) = t_prio (task s t)"
    "t_base (task ?s t) = t_base (task s t)" "t_guard (task ?s t) = t_guard (task s t)"
    "t_wait (task ?s t) = (if t = ?c then Some m else t_wait (task s t))" for t
    by (auto simp: waiting_def upd_defs)
  have it: "x \<in> set (lst ?s l) \<longleftrightarrow> (if x = TaskItem ?c then l = Waiters m else x \<in> set (lst s l))" for x l
    by (simp add: waiting_def upd_defs l_mem)
  have wf: "wf_store (lists ?s)" using L(6) by (simp add: waiting_def upd_defs)
  have lk: "linked (lists ?s) x \<longleftrightarrow> x = TaskItem ?c \<or> linked (lists s) x" for x
    by (simp add: waiting_def upd_defs l_linked)
  have own: "TaskItem ?c \<notin> set (lst s (Owned t))" for t using al(2) by blast
  show "SI {} ?s"
  proof (rule SI_intro)
    show "inv_lists ?s" using L(1) wf unfolding inv_lists_def it by (auto split: if_splits)
    show "inv_task ?s" using L(2) cf al unfolding inv_task_def it fld by auto
    show "inv_lock {} ?s" using L(3) m own unfolding inv_lock_def it fld by (auto split: if_splits)
    show "inv_group ?s" using L(4) cf(3) unfolding inv_group_def it lk fld by (auto split: if_splits)
    show "inv_stack ?s" using L(5) i unfolding inv_stack_def it fld by (auto split: if_splits)
  qed
  have "prio_of_locks ?s t = prio_of_locks s t" for t
    using own by (intro prio_of_locks_cong) (simp_all add: fld, simp add: waiting_def upd_defs l_apply)
  then show "prio_ok {} ?s" using P(2) by (simp add: prio_ok_def fld)
  show "links_ok ?s" using P(6) unfolding links_ok_def it fld by auto
qed

lemma push_frame_ok:
  assumes SI: "SI X s" and p: "prio_ok Y s" and c: "current s \<noteq> idle s"
    and k: "\<And>m d. k = FReacquire m d \<Longrightarrow> sint d > 0" "\<And>m. frame_lock k = Some m \<Longrightarrow> m_init (mtx s m)"
  shows "SI X (push_frame k s)" "prio_ok Y (push_frame k s)"
proof -
  have "inv_stack (push_frame k s)" using SI_parts(5) [OF SI] c k
    unfolding inv_stack_def push_frame_def by (auto split: if_splits)
  then show "SI X (push_frame k s)" using SI
    by (simp add: SI_def inv_lists_def inv_task_def inv_lock_def inv_group_def push_frame_def)
  show "prio_ok Y (push_frame k s)" using p
    by (simp add: prio_ok_def prio_of_locks_def owned_locks_def push_frame_def)
qed

lemma wait_block_ok:
  assumes R: "RI s" and i: "current s \<noteq> idle s" and m: "m_init (mtx s m)"
  shows "\<exists>s'. wait_block m s = Some s' \<and> KI s'"
proof -
  let ?w = "waiting m s" and ?c = "current s"
  note W = waiting_ok [OF assms] and P = MI_parts [OF RI_KI [OF R]]
  have fld: "mtx ?w = mtx s" "current ?w = ?c" "idle ?w = idle s" "t_lock (task ?w ?c) = t_lock (task s ?c)"
    by (auto simp: waiting_def upd_defs)
  show ?thesis
  proof (cases "m_master (mtx s m) = Some ?c")
    case False
    have "wait_block m s = Some (task_schedule (push_frame FWaitDone ?w))"
      using False by (simp add: wait_block_def waiting_def upd_defs Let_def)
    then show ?thesis using schedule_ok push_frame_ok [OF W(1,2), of FWaitDone] i fld by simp
  next
    case True
    have d: "sint (m_deep (mtx s m)) > 0" using SI_held [OF P(1) True] .
    have ch: "chain_ok ?w ?c" using P(5) fld(4) by (intro chain_ok_free) (simp add: cur_free_def)
    have mw: "m_master (mtx ?w m) = Some ?c" using True fld(1) by simp
    obtain s1 where s1: "lock_drop m ?c (upd_mtx m (\<lambda>r. r\<lparr>m_deep := 0\<rparr>) ?w) = Some s1"
      "prio_frame (released m ?w) s1" "prio_ok {} s1"
      using lock_drop_ok [OF W ch mw refl] by blast
    have m1: "m_master (mtx s1 m) = None" "current s1 = ?c" "idle s1 = idle s"
      using released_cur [OF s1(2)] fld by simp_all
    have S1: "SI {m} s1" using released_SI [OF W(1), of m] m fld(1) prio_frame_SI [OF s1(2)] by simp
    obtain s2 where s2: "wake_slaves m s1 = Some s2" "SI {m} s2" "prio_ok {} s2" "kframe s1 s2"
      "lst s2 (Slaves m) = []" using wake_slaves_ok [OF S1 s1(3)] by blast
    note k = kframe_parts [OF s2(4)]
    have m2: "m_master (mtx s2 m) = None" using k(4) m1 by simp
    let ?s3 = "upd_mtx m (\<lambda>r. r\<lparr>m_prio := 0\<rparr>) s2"
    note c = clear_prio_ok [OF SI_done [OF s2(2,5)] s2(3) m2]
    have cur: "current ?s3 \<noteq> idle ?s3" using k(5,6) m1 i by (simp add: upd_mtx_def)
    have "m_init (mtx s1 m)" using prio_frame_fields(13) [OF s1(2), of m] m fld(1)
      by (simp add: released_def upd_mtx_def upd_lists_def)
    then have mi: "m_init (mtx ?s3 m)" using s2(4) by (simp add: kframe_def upd_mtx_def)
    have "KI (task_schedule (push_frame (FReacquire m (m_deep (mtx s m))) ?s3))"
      using push_frame_ok [OF c(1,2) cur, of "FReacquire m (m_deep (mtx s m))"] d mi
      by (intro schedule_ok) auto
    moreover have "wait_block m s = Some (task_schedule (push_frame (FReacquire m (m_deep (mtx s m))) ?s3))"
      using True d s1(1) s2(1) by (simp add: wait_block_def waiting_def upd_defs Let_def assert_c_def)
    ultimately show ?thesis by simp
  qed
qed

lemma mutex_wait_ok:
  assumes R: "RI s" and i: "current s \<noteq> idle s" and sg: "stack_guard s"
  shows "\<exists>s'. mutex_wait fast m s = Some s' \<and> KI s'"
proof -
  let ?s = "ensure_init m s"
  note P = MI_parts [OF RI_KI [OF R]]
  note e = ensure_init_ok [OF P(1,2), of m] and R1 = ensure_init_RI [OF R, of m]
  note P1 = MI_parts [OF RI_KI [OF R1]]
  have g: "stack_guard s" "t_wait (current_task s) = None"
    using sg P(5) by (auto simp: cur_free_def current_task_def)
  have "\<exists>b s1. (case m_irq (mtx ?s m) of None \<Rightarrow> Some (False, ?s)
      | Some q \<Rightarrow> handle_pending fast m q ?s) = Some (b, s1) \<and> SI {} s1 \<and> prio_ok {} s1 \<and> kframe ?s s1"
  proof (cases "m_irq (mtx ?s m)")
    case None
    have "(case m_irq (mtx ?s m) of None \<Rightarrow> Some (False, ?s)
      | Some q \<Rightarrow> handle_pending fast m q ?s) = Some (False, ?s)" using None by simp
    then show ?thesis using P1(1,2) kframe_refl by blast
  qed (use handle_pending_ok [OF P1(1,2)] in auto)
  then obtain b s1 where h: "(case m_irq (mtx ?s m) of None \<Rightarrow> Some (False, ?s)
      | Some q \<Rightarrow> handle_pending fast m q ?s) = Some (b, s1)"
    and s1: "SI {} s1" "prio_ok {} s1" "kframe ?s s1" by blast
  note k = kframe_parts [OF s1(3)]
  have "KI s1" using s1 k P1(3,4) by (simp add: MI_def)
  moreover have "TaskItem (current s1) \<in> set (lst s1 TaskActive)"
    using R1 s1(3) by (auto simp: RI_def kframe_def)
  ultimately have R2: "RI s1" by (simp add: RI_def)
  have "m_init (mtx s1 m)" using s1(3) e(4) by (auto simp: kframe_def)
  then have "\<exists>s'. wait_block m s1 = Some s' \<and> KI s'"
    using wait_block_ok [OF R2] k(5,6) e(10,11) i by simp
  moreover have "KI (schedule_if_needed (set_ret (RMsg 0) s1))"
    using \<open>KI s1\<close> set_ret_MI [of "{}" "RMsg 0" s1] by (intro schedule_if_ok) (auto simp: MI_def)
  ultimately show ?thesis using h g
    by (cases b) (simp_all add: mutex_wait_def assert_c_def Let_def)
qed

lemma mutex_reacquire_ok:
  assumes R: "RI s" and i: "current s \<noteq> idle s" and m: "m_init (mtx s m)" and d: "sint d > 0"
  shows "\<exists>s'. mutex_reacquire m d s = Some s' \<and> KI s'"
proof (cases "m_master (mtx s m)")
  case None
  have "m_deep (mtx s m) = 0" by (rule SI_free [OF MI_parts(1) [OF RI_KI [OF R]] None])
  then have "\<exists>v. mutex_reacquire m d s = Some (set_ret v (taken m d s))" using None
    by (auto simp: mutex_reacquire_def taken_def Let_def assert_c_def upd_defs current_task_def)
  then show ?thesis using taken_ok [OF R None m d] set_ret_MI RI_KI by auto
next
  case (Some t)
  then show ?thesis using lock_block_ok [OF R i Some, of "FReacquire m d"] d m
    by (simp add: mutex_reacquire_def)
qed

section \<open>Lock groups\<close>

text \<open>A change of one group that keeps its waiter and the locks of its slots.\<close>

lemma upd_grp_ok:
  assumes K: "MI X s"
    and w: "g_waiter (f (grp s g)) = g_waiter (grp s g)"
    and old: "\<And>i. i < length (g_slots (grp s g)) \<Longrightarrow> i < length (g_slots (f (grp s g)))
        \<and> s_lock (g_slots (f (grp s g)) ! i) = s_lock (g_slots (grp s g) ! i)"
    and new: "\<And>r. r \<in> set (g_slots (f (grp s g))) \<Longrightarrow> m_init (mtx s (s_lock r))"
  shows "MI X (upd_grp g f s)"
proof -
  let ?s = "upd_grp g f s"
  note P = MI_parts [OF K]
  have fld: "task ?s = task s" "lists ?s = lists s" "mtx ?s = mtx s" "current ?s = current s"
    "idle ?s = idle s" "stack ?s = stack s" "need_schedule ?s = need_schedule s"
    "g_waiter (grp ?s g') = g_waiter (grp s g')"
    "grp ?s g' = (if g' = g then f (grp s g) else grp s g')" for g'
    using w by (auto simp: upd_grp_def)
  have "inv_group ?s" using SI_parts(4) [OF P(1)] old new unfolding inv_group_def fld(1-8)
    by (auto simp: fld(9))
  then have "SI X ?s" using SI_parts [OF P(1)]
    by (intro SI_intro) (simp_all add: inv_lists_def inv_task_def inv_lock_def inv_stack_def fld(1-8))
  then show ?thesis using P(2-4)
    by (simp add: MI_def prio_ok_def prio_of_locks_def owned_locks_def sched_ok_def cur_inv_def
        cur_free_def deleting_self_def fld(1-8))
qed

lemma SI_slot_init: "SI X s \<Longrightarrow> r \<in> set (g_slots (grp s g)) \<Longrightarrow> m_init (mtx s (s_lock r))"
  by (auto simp: SI_def inv_group_def)

lemma mutex_group_add_ok: "KI s \<Longrightarrow> KI (mutex_group_add g m s)"
proof -
  assume K: "KI s"
  note P = MI_parts [OF K]
  note e = ensure_init_ok [OF P(1,2), of m] and K1 = ensure_init_MI [OF K, of m]
  let ?f = "\<lambda>r. r\<lparr>g_slots := g_slots r @ [\<lparr>s_lock = m, s_message = 0, s_active = False\<rparr>]\<rparr>"
  have "KI (upd_grp g ?f (ensure_init m s))"
    using SI_slot_init [OF e(1)] e(4) by (intro upd_grp_ok K1) (auto simp: nth_append)
  then show ?thesis using K1 set_ret_MI by (simp add: mutex_group_add_def Let_def)
qed

lemma clear_message_ok:
  assumes K: "MI X s" and i: "i < length (g_slots (grp s g))"
  shows "MI X (clear_message g i s)" "lists (clear_message g i s) = lists s"
    "length (g_slots (grp (clear_message g i s) g)) = length (g_slots (grp s g))"
    "s_lock (g_slots (grp (clear_message g i s) g) ! j) = s_lock (g_slots (grp s g) ! j)"
    "current (clear_message g i s) = current s"
proof -
  have "m_init (mtx s (s_lock r))"
    if "r \<in> set ((g_slots (grp s g))[i := (g_slots (grp s g) ! i)\<lparr>s_message := 0\<rparr>])" for r
  proof -
    from that i have "\<exists>r'. r' \<in> set (g_slots (grp s g)) \<and> s_lock r = s_lock r'"
      by (auto simp: in_set_conv_nth nth_list_update split: if_splits)
    then show ?thesis using SI_slot_init [OF MI_parts(1) [OF K]] by metis
  qed
  then show "MI X (clear_message g i s)" unfolding clear_message_def using i
    by (intro upd_grp_ok K) (auto simp: nth_list_update)
  show "lists (clear_message g i s) = lists s"
    "length (g_slots (grp (clear_message g i s) g)) = length (g_slots (grp s g))"
    "s_lock (g_slots (grp (clear_message g i s) g) ! j) = s_lock (g_slots (grp s g) ! j)"
    "current (clear_message g i s) = current s"
    using i by (auto simp: clear_message_def upd_grp_def nth_list_update)
qed

text \<open>Linking and unlinking of group slots.\<close>

lemma slot_lists_ok:
  assumes K: "MI X s" and wf: "wf_store (f (lists s))"
    and it: "\<And>x l. x \<in> set (items (f (lists s)) l) \<Longrightarrow> x \<in> set (lst s l)
        \<or> (x = SlotItem g i \<and> l = Groups (s_lock (g_slots (grp s g) ! i)) \<and> i < length (g_slots (grp s g)))"
    and old: "\<And>x l. x \<in> set (lst s l) \<Longrightarrow> x \<noteq> SlotItem g i \<Longrightarrow> x \<in> set (items (f (lists s)) l)"
    and own: "\<And>t. items (f (lists s)) (Owned t) = lst s (Owned t)"
  shows "MI X (upd_lists f s)"
proof -
  let ?s = "upd_lists f s"
  note P = MI_parts [OF K]
  have fld: "task ?s = task s" "grp ?s = grp s" "mtx ?s = mtx s" "current ?s = current s"
    "idle ?s = idle s" "stack ?s = stack s" "need_schedule ?s = need_schedule s" "lists ?s = f (lists s)"
    by (auto simp: upd_lists_def)
  have task: "TaskItem t \<in> set (items (f (lists s)) l) \<longleftrightarrow> TaskItem t \<in> set (lst s l)" for t l
    using it [of "TaskItem t" l] old [of "TaskItem t" l] by auto
  have lk: "linked (f (lists s)) (TaskItem t) = linked (lists s) (TaskItem t)" for t
    using wf_store_linked [OF wf] wf_store_linked [OF SI_parts(6) [OF P(1)]] task by simp
  have lock: "LockItem m \<in> set (items (f (lists s)) l) \<longleftrightarrow> LockItem m \<in> set (lst s l)" for m l
    using it [of "LockItem m" l] old [of "LockItem m" l] by auto
  note L = SI_parts [OF P(1)]
  have slotg: "x \<in> set (items (f (lists s)) l) \<Longrightarrow> x \<in> set (lst s l) \<or> (\<exists>m. l = Groups m
      \<and> m_init (mtx s m))" for x l
    using it SI_slot_init [OF P(1), of "g_slots (grp s g) ! i" g] by fastforce
  have "SI X ?s"
  proof (rule SI_intro)
    show "inv_lists ?s" using L(1) wf it unfolding inv_lists_def fld task lock by (metis item.inject(3))
    show "inv_task ?s" using L(2) unfolding inv_task_def fld task by blast
    show "inv_lock X ?s" using L(3) slotg unfolding inv_lock_def fld lock by (metis list_head.distinct list_head.inject(4))
    show "inv_group ?s" using L(4) it unfolding inv_group_def fld lk
      by (metis item.inject(3) list_head.inject(4))
    show "inv_stack ?s" using L(5) unfolding inv_stack_def fld task by blast
  qed
  then show ?thesis using P(2-4)
    by (simp add: MI_def prio_ok_def prio_of_locks_def owned_locks_def sched_ok_def cur_inv_def
        cur_free_def deleting_self_def fld task own)
qed

lemma listen_slots_ok:
  "KI s \<Longrightarrow> n \<le> length (g_slots (grp s g)) \<Longrightarrow> (\<And>i. i < n \<Longrightarrow> \<not> linked (lists s) (SlotItem g i)) \<Longrightarrow>
   \<exists>s'. listen_slots g n s = Some s' \<and> KI s'"
proof (induction n arbitrary: s)
  case (Suc i)
  have i: "i < length (g_slots (grp s g))" using Suc(3) by simp
  have nl: "\<not> linked (lists s) (SlotItem g i)" using Suc(4) by simp
  note c = clear_message_ok [OF Suc(2) i]
  let ?s1 = "clear_message g i s"
  let ?G = "Groups (s_lock (g_slots (grp ?s1 g) ! i))"
  let ?s2 = "upd_lists (l_prepend ?G (SlotItem g i)) ?s1"
  note wf = SI_parts(6) [OF MI_parts(1) [OF c(1)]]
  have no: "SlotItem g i \<notin> set (lst ?s1 l)" for l
    using nl wf_store_linked [OF wf] by (simp add: c(2))
  have "KI ?s2" using wf i c(3) no
    by (intro slot_lists_ok [OF c(1), of _ g i]) (auto simp: l_mem l_apply removeAll_id split: if_splits)
  moreover have "i \<le> length (g_slots (grp ?s2 g))" using i c(3) by (simp add: upd_lists_def)
  moreover have "\<not> linked (lists ?s2) (SlotItem g j)" if "j < i" for j
    using that Suc(4) [of j] by (simp add: upd_lists_def l_linked c(2))
  ultimately obtain s' where "listen_slots g i ?s2 = Some s' \<and> KI s'" using Suc(1) by blast
  then show ?case using nl by (simp add: Let_def assert_c_def)
qed simp

lemma unlisten_slots_ok:
  "KI s \<Longrightarrow> n \<le> length (g_slots (grp s g)) \<Longrightarrow> (\<And>i. i < n \<Longrightarrow> linked (lists s) (SlotItem g i)) \<Longrightarrow>
   \<exists>s'. unlisten_slots g n s = Some s' \<and> KI s'"
proof (induction n arbitrary: s)
  case (Suc i)
  have i: "i < length (g_slots (grp s g))" using Suc(3) by simp
  have lk: "linked (lists s) (SlotItem g i)" using Suc(4) by simp
  note c = clear_message_ok [OF Suc(2) i]
  let ?s1 = "clear_message g i s"
  let ?s2 = "upd_lists (l_unlink (SlotItem g i)) ?s1"
  note P = MI_parts [OF c(1)]
  note wf = SI_parts(6) [OF P(1)]
  have "SlotItem g i \<notin> set (lst ?s1 (Owned t))" for t using SI_lock_item [OF P(1)] by blast
  then have "KI ?s2" using wf
    by (intro slot_lists_ok [OF c(1), of _ g i]) (auto simp: l_mem l_apply removeAll_id)
  moreover have "i \<le> length (g_slots (grp ?s2 g))" using i c(3) by (simp add: upd_lists_def)
  moreover have "linked (lists ?s2) (SlotItem g j)" if "j < i" for j
    using that Suc(4) [of j] by (simp add: upd_lists_def l_linked c(2))
  ultimately obtain s' where "unlisten_slots g i ?s2 = Some s' \<and> KI s'" using Suc(1) by blast
  then show ?case using lk by (simp add: Let_def assert_c_def)
qed simp

lemma mutex_group_listen_ok:
  assumes "KI s" "\<And>i. i < length (g_slots (grp s g)) \<Longrightarrow> \<not> linked (lists s) (SlotItem g i)" "stack_guard s"
  shows "\<exists>s'. mutex_group_listen g s = Some s' \<and> KI s'"
  using listen_slots_ok [OF assms(1) order_refl assms(2)] assms(3)
  by (simp add: mutex_group_listen_def assert_c_def)

lemma mutex_group_unlisten_ok:
  assumes "KI s" "\<And>i. i < length (g_slots (grp s g)) \<Longrightarrow> linked (lists s) (SlotItem g i)" "stack_guard s"
  shows "\<exists>s'. mutex_group_unlisten g s = Some s' \<and> KI s'"
  using unlisten_slots_ok [OF assms(1) order_refl assms(2)] assms(3)
  by (simp add: mutex_group_unlisten_def assert_c_def)

lemma find_active_Some: "find_active ss n = Some i \<Longrightarrow> i < n \<and> s_active (ss ! i)"
  by (induction n) (auto split: if_splits)

lemma find_active_None: "find_active ss n = None \<longleftrightarrow> (\<forall>i < n. \<not> s_active (ss ! i))"
  by (induction n) (auto simp: less_Suc_eq)

lemma group_wait_loop_ok:
  assumes R: "RI s" and i: "current s \<noteq> idle s"
  shows "KI (group_wait_loop g s)"
proof (cases "find_active (g_slots (grp s g)) (length (g_slots (grp s g)))")
  case (Some i)
  note K = RI_KI [OF R]
  note b = find_active_Some [OF Some]
  let ?ss = "g_slots (grp s g)"
  have "m_init (mtx s (s_lock r))" if "r \<in> set (?ss[i := (?ss ! i)\<lparr>s_active := False\<rparr>])" for r
  proof -
    from that b have "\<exists>r'. r' \<in> set ?ss \<and> s_lock r = s_lock r'"
      by (auto simp: in_set_conv_nth nth_list_update split: if_splits)
    then show ?thesis using SI_slot_init [OF MI_parts(1) [OF K]] by metis
  qed
  then have "KI (upd_grp g (\<lambda>r. r\<lparr>g_slots := ?ss[i := (?ss ! i)\<lparr>s_active := False\<rparr>]\<rparr>) s)"
    using b by (intro upd_grp_ok K) (auto simp: nth_list_update)
  then show ?thesis using Some set_ret_MI by (simp add: group_wait_loop_def Let_def)
next
  case None
  let ?c = "current s"
  let ?s = "upd_grp g (\<lambda>r. r\<lparr>g_waiter := Some ?c\<rparr>) (upd_lists (l_unlink (TaskItem ?c)) s)"
  note P = MI_parts [OF RI_KI [OF R]]
  note L = SI_parts [OF P(1)]
  have act: "TaskItem ?c \<in> set (lst s TaskActive)" using R by (simp add: RI_def)
  note al = SI_alone [OF P(1) act]
  have cf: "t_lock (task s ?c) = None" "t_wait (task s ?c) = None" "\<And>g. g_waiter (grp s g) \<noteq> Some ?c"
    using P(5) by (auto simp: cur_free_def)
  have fld: "task ?s = task s" "mtx ?s = mtx s" "current ?s = ?c" "idle ?s = idle s" "stack ?s = stack s"
    "g_waiter (grp ?s g') = (if g' = g then Some ?c else g_waiter (grp s g'))"
    "g_slots (grp ?s g') = g_slots (grp s g')" for g'
    by (auto simp: upd_grp_def upd_lists_def)
  have it: "x \<in> set (lst ?s l) \<longleftrightarrow> x \<noteq> TaskItem ?c \<and> x \<in> set (lst s l)" for x l
    by (simp add: upd_grp_def upd_lists_def l_mem)
  have wf: "wf_store (lists ?s)" using L(6) by (simp add: upd_grp_def upd_lists_def)
  have lk: "linked (lists ?s) x \<longleftrightarrow> x \<noteq> TaskItem ?c \<and> linked (lists s) x" for x
    by (simp add: upd_grp_def upd_lists_def l_linked)
  have own: "TaskItem ?c \<notin> set (lst s (Owned t))" for t using al(2) by blast
  have S: "SI {} ?s"
  proof (rule SI_intro)
    show "inv_lists ?s" using L(1) wf unfolding inv_lists_def it by blast
    show "inv_task ?s" using L(2) cf al unfolding inv_task_def it fld by auto
    show "inv_lock {} ?s" using L(3) unfolding inv_lock_def it fld by blast
    show "inv_group ?s" using L(4) cf unfolding inv_group_def it lk fld by (auto split: if_splits)
    show "inv_stack ?s" using L(5) i unfolding inv_stack_def it fld by auto
  qed
  have "prio_of_locks ?s t = prio_of_locks s t" for t
    using own by (intro prio_of_locks_cong)
      (simp_all add: fld, simp add: upd_grp_def upd_lists_def l_apply removeAll_id)
  then have "prio_ok {} ?s" using P(2) by (simp add: prio_ok_def fld)
  then have "KI (task_schedule (push_frame (FGroupWait g) ?s))"
    using push_frame_ok [OF S, of "{}" "FGroupWait g"] i fld by (intro schedule_ok) auto
  moreover have "upd_lists f (upd_grp g h s) = upd_grp g h (upd_lists f s)" for f h
    by (simp add: upd_grp_def upd_lists_def)
  ultimately show ?thesis using None
    by (simp add: group_wait_loop_def Let_def) (simp add: upd_lists_def)
qed

lemma mutex_group_wait_ok:
  assumes R: "RI s" and i: "current s \<noteq> idle s" and n: "g_slots (grp s g) \<noteq> []" and sg: "stack_guard s"
  shows "\<exists>s'. mutex_group_wait g s = Some s' \<and> KI s'"
proof -
  have "t_wait (current_task s) = None" using MI_parts(5) [OF RI_KI [OF R]]
    by (simp add: cur_free_def current_task_def)
  then show ?thesis using group_wait_loop_ok [OF R i] sg n
    by (simp add: mutex_group_wait_def assert_c_def)
qed

section \<open>Tasks\<close>

text \<open>A task control block that is not in use: nothing in the kernel refers to it.\<close>

definition fresh_task :: "tid \<Rightarrow> kstate \<Rightarrow> bool" where
  "fresh_task t s \<longleftrightarrow> t \<noteq> current s \<and> t \<noteq> idle s \<and> \<not> linked (lists s) (TaskItem t)
     \<and> (\<forall>g. g_waiter (grp s g) \<noteq> Some t) \<and> lst s (Owned t) = [] \<and> \<not> m_init (mtx s (Finish t))"

lemma task_create_ok:
  assumes K: "KI s" and t: "fresh_task t s"
  shows "\<exists>s'. task_create t name prio s = Some s' \<and> KI s'"
proof -
  define s1 where "s1 = (upd_mtx (Finish t) (\<lambda>_. zero_mutex) (upd_task t (\<lambda>_. new_task name prio) s))
    \<lparr>stack := (stack s)(t := []), retv := (retv s)(t := RNone)\<rparr>"
  note P = MI_parts [OF K]
  note L = SI_parts [OF P(1)]
  note F = t [unfolded fresh_task_def]
  note un = SI_uninit [OF P(1), of "Finish t"]
  have no: "TaskItem t \<notin> set (lst s l)" for l using F wf_store_linked [OF L(6)] by blast
  have tl: "t_lock (task s t) = None" "t_wait (task s t) = None"
  proof -
    have "t_lock (task s t) \<noteq> Some m" "t_wait (task s t) \<noteq> Some m" for m
      using no SI_slave [OF P(1), of t m] SI_waiter [OF P(1), of t m] by simp_all
    then show "t_lock (task s t) = None" "t_wait (task s t) = None"
      by (metis not_None_eq)+
  qed
  have fld: "lists s1 = lists s" "grp s1 = grp s" "current s1 = current s" "idle s1 = idle s"
    "need_schedule s1 = need_schedule s" "stack s1 u = (if u = t then [] else stack s u)"
    "task s1 u = (if u = t then new_task name prio else task s u)"
    "mtx s1 m = (if m = Finish t then zero_mutex else mtx s m)" for u m
    by (auto simp: s1_def upd_defs)
  have mm: "m_master (mtx s1 m) = m_master (mtx s m)" "m_init (mtx s1 m) = m_init (mtx s m)"
    "m_deep (mtx s1 m) = m_deep (mtx s m)" for m
    using un F SI_free [OF P(1), of "Finish t"] by (auto simp: s1_def upd_defs zero_mutex_def)
  have "SI {} s1"
  proof (rule SI_intro)
    show "inv_lists s1" using L(1) unfolding inv_lists_def fld .
    show "inv_task s1" using L(2) no tl unfolding inv_task_def fld
      by (auto simp: new_task_def)
    show "inv_lock {} s1" using L(3) unfolding inv_lock_def fld(1) mm .
    show "inv_group s1" using L(4) F unfolding inv_group_def fld(1-5,7) mm
      by (auto simp: new_task_def split: if_splits)
    show "inv_stack s1" using L(5) F unfolding inv_stack_def fld(1-7) mm
      by (auto simp: new_task_def)
  qed
  moreover have "prio_ok {} s1"
  proof -
    have "prio_of_locks s1 t = prio"
      using F by (simp add: prio_of_locks_def owned_locks_def fld max_prio_def new_task_def)
    moreover have "prio_of_locks s1 u = prio_of_locks s u" if "u \<noteq> t" for u
    proof (rule prio_of_locks_cong)
      fix m assume "LockItem m \<in> set (lst s (Owned u))"
      then have "m_master (mtx s m) = Some u" using SI_owned [OF P(1)] by blast
      then show "m_prio (mtx s1 m) = m_prio (mtx s m)" using un F by (auto simp: fld)
    qed (use that in \<open>simp_all add: fld\<close>)
    ultimately show ?thesis using P(2) unfolding prio_ok_def fld(7) by (simp add: new_task_def)
  qed
  moreover have "g_waiter (grp s1 g) \<noteq> Some t" for g using F by (simp add: fld)
  moreover have "upd_task t (\<lambda>r. r) s1 = s1" by (simp add: upd_task_def)
  ultimately obtain s' where s': "task_activate t s1 = Some s'" "SI {} s'" "prio_ok {} s'" "kframe s1 s'"
    using make_ready [of "{}" s1 "{}" "\<lambda>r. r" t] by (auto simp: fld new_task_def)
  have "sched_ok s1" using P(3) no F unfolding sched_ok_def fld(1,3,5)
    by (auto simp: fld)
  moreover have "cur_inv s1" using P(4) F unfolding cur_inv_def cur_free_def deleting_self_def fld(1-5)
    by (auto simp: fld)
  ultimately have "KI s'" using s' kframe_parts(1,2) [OF s'(4)] by (simp add: MI_def)
  moreover have "l_init (Groups (Finish t)) (l_init (Slaves (Finish t)) (l_init (Waiters (Finish t))
    (l_init (Owned t) (l_unlink (TaskItem t) (lists s))))) = lists s"
    using F un l_unlink_idle [OF L(6)] by (simp add: l_init_idle)
  then have "task_create t name prio s = task_activate t s1"
    by (simp add: task_create_def upd_defs s1_def)
  ultimately show ?thesis using s'(1) by simp
qed

lemma task_yield_ok: "RI s \<Longrightarrow> KI (task_yield s)"
proof -
  assume R: "RI s"
  note P = MI_parts [OF RI_KI [OF R]]
  have act: "TaskItem (current s) \<in> set (lst s TaskActive)" using R by (simp add: RI_def)
  have e: "upd_task (current s) (\<lambda>r. r) s = s" by (simp add: upd_task_def)
  have cf: "t_lock (task s (current s)) = None" "t_wait (task s (current s)) = None"
    using P(5) by (simp_all add: cur_free_def)
  obtain s' where s': "task_activate (current s) s = Some s'" "SI {} s'" "prio_ok {} s'"
    using make_ready [OF P(1,2), of "\<lambda>r. r" "current s"] SI_alone(1) [OF P(1) act] cf unfolding e by auto
  have "s' = upd_lists (l_append TaskActive (TaskItem (current s))) s"
    using s'(1) cf by (auto simp: task_activate_def Let_def upd_lists_def task_is_waiting_def)
  then show ?thesis using schedule_ok [OF s'(2,3)] by (simp add: task_yield_def)
qed

lemma task_set_priority_ok:
  assumes K: "KI s" and ch: "chain_ok s t" and g: "stack_guard s"
  shows "\<exists>s'. task_set_priority t p s = Some s' \<and> KI s'"
proof -
  let ?s = "upd_task t (\<lambda>r. r\<lparr>t_base := p\<rparr>) s"
  note P = MI_parts [OF K]
  have fld: "lists ?s = lists s" "grp ?s = grp s" "current ?s = current s" "idle ?s = idle s"
    "stack ?s = stack s" "mtx ?s = mtx s" "need_schedule ?s = need_schedule s"
    "t_lock (task ?s u) = t_lock (task s u)" "t_wait (task ?s u) = t_wait (task s u)"
    "t_guard (task ?s u) = t_guard (task s u)" "t_prio (task ?s u) = t_prio (task s u)"
    "t_base (task ?s u) = (if u = t then p else t_base (task s u))" for u
    by (auto simp: upd_task_def)
  have S: "SI {} ?s" using P(1) by (simp add: SI_def inv_defs fld(1-11))
  have cf: "cur_free ?s" using P(5) by (simp add: cur_free_def fld)
  have "prio_of_locks ?s u = prio_of_locks s u" if "u \<noteq> t" for u
    using that by (intro prio_of_locks_cong) (simp_all add: fld)
  then have "prio_ok {t} ?s" using P(2) by (simp add: prio_ok_def fld)
  moreover have "chain_ok ?s t" by (rule chain_ok_cong [OF ch]) (simp_all add: fld)
  ultimately obtain s1 where s1: "task_recalculate_prio t ?s = Some s1" "prio_frame ?s s1" "prio_ok {} s1"
    "sched_ok ?s \<longrightarrow> sched_ok s1" using recalculate_ok SI_links_ok [OF S cf] by blast
  have "sched_ok ?s" using P(3) unfolding sched_ok_def fld .
  then have "sched_ok s1" using s1(4) by simp
  moreover have "cur_inv s1"
    using P(4) s1(2) by (auto simp: cur_inv_def cur_free_def deleting_self_def prio_frame_fields [OF s1(2)] fld
        prio_frame_def)
  moreover have "SI {} s1" using prio_frame_SI [OF s1(2)] S by simp
  ultimately have "KI (schedule_if_needed s1)" using s1(3) by (intro schedule_if_ok) auto
  then show ?thesis using s1(1) g by (simp add: task_set_priority_def assert_c_def)
qed

lemma task_set_private_ok:
  assumes K: "KI s" and g: "stack_guard s"
  shows "\<exists>s'. task_set_private t p s = Some s' \<and> KI s'"
proof -
  let ?s = "upd_task t (\<lambda>r. r\<lparr>t_private := p\<rparr>) s"
  have f: "prio_frame s ?s" "t_prio (task ?s u) = t_prio (task s u)" "mtx ?s = mtx s"
    "need_schedule ?s = need_schedule s" for u
    by (auto simp: prio_frame_def upd_task_def split: if_splits)
  have "KI ?s" using K prio_frame_SI [OF f(1)]
    by (simp add: MI_def prio_ok_def prio_of_locks_def owned_locks_def sched_ok_def cur_inv_def
        cur_free_def deleting_self_def f(2-4) prio_frame_fields [OF f(1)])
  then show ?thesis using g by (simp add: task_set_private_def assert_c_def)
qed

text \<open>Deleting a task unlinks it and clears what it was blocked on. A task that waits for a lock
  group has no mark of it in its own structure and cannot be deleted safely.\<close>

definition unblocked :: "tid \<Rightarrow> kstate \<Rightarrow> kstate" where
  "unblocked t s = upd_task t (\<lambda>r. r\<lparr>t_lock := None, t_wait := None\<rparr>)
     (upd_lists (l_unlink (TaskItem t)) s)"

lemma unblocked_ok:
  assumes K: "KI s" and t: "t \<noteq> idle s" and g: "\<And>g. g_waiter (grp s g) \<noteq> Some t"
  shows "SI {} (unblocked t s)"
proof -
  let ?s = "unblocked t s"
  note P = MI_parts [OF K]
  note L = SI_parts [OF P(1)]
  have fld: "mtx ?s = mtx s" "grp ?s = grp s" "idle ?s = idle s" "stack ?s = stack s"
    "t_guard (task ?s u) = t_guard (task s u)"
    "t_lock (task ?s u) = (if u = t then None else t_lock (task s u))"
    "t_wait (task ?s u) = (if u = t then None else t_wait (task s u))" for u
    by (auto simp: unblocked_def upd_defs)
  have it: "x \<in> set (lst ?s l) \<longleftrightarrow> x \<noteq> TaskItem t \<and> x \<in> set (lst s l)" for x l
    by (simp add: unblocked_def upd_defs l_mem)
  have wf: "wf_store (lists ?s)" using L(6) by (simp add: unblocked_def upd_defs)
  have lk: "linked (lists ?s) x \<longleftrightarrow> x \<noteq> TaskItem t \<and> linked (lists s) x" for x
    by (simp add: unblocked_def upd_defs l_linked)
  show ?thesis
  proof (rule SI_intro)
    show "inv_lists ?s" using L(1) wf unfolding inv_lists_def it by blast
    show "inv_task ?s" using L(2) unfolding inv_task_def it fld by auto
    show "inv_lock {} ?s" using L(3) unfolding inv_lock_def it fld by blast
    show "inv_group ?s" using L(4) g unfolding inv_group_def it lk fld by (auto split: if_splits)
    show "inv_stack ?s" using L(5) t unfolding inv_stack_def it fld by auto
  qed
qed

lemma current_upd_lists [simp]: "current (upd_lists f s) = current s"
  by (simp add: upd_lists_def)

lemma task_delete_ok:
  assumes R: "RI s" and t: "t \<noteq> idle s" and g: "\<And>g. g_waiter (grp s g) \<noteq> Some t"
    and df: "deadlock_free s" and c: "current s \<noteq> idle s"
  shows "\<exists>s'. task_delete t msg s = Some s' \<and> KI s'"
proof -
  let ?u = "upd_lists (l_unlink (TaskItem t)) s"
  let ?s1 = "if t = current s then ?u\<lparr>need_schedule := True\<rparr> else ?u"
  let ?D = "upd_task t (\<lambda>r. r\<lparr>t_lock := None, t_wait := None\<rparr>)"
  note K = RI_KI [OF R]
  note P = MI_parts [OF K]
  note L = SI_parts [OF P(1)]
  have fld: "task ?s1 = task s" "mtx ?s1 = mtx s" "current ?s1 = current s" "grp ?s1 = grp s"
    "idle ?s1 = idle s" "stack ?s1 = stack s"
    "need_schedule ?s1 = (need_schedule s \<or> t = current s)"
    by (auto simp: upd_lists_def)
  have it: "x \<in> set (lst ?s1 l) \<longleftrightarrow> x \<noteq> TaskItem t \<and> x \<in> set (lst s l)" for x l
    by (simp add: upd_lists_def l_mem)
  have own: "removeAll (TaskItem t) (lst s (Owned u)) = lst s (Owned u)" for u
    using SI_lock_item [OF P(1), of "TaskItem t" u] by (intro removeAll_id) blast
  have l1: "links_ok ?s1" using P(6) unfolding links_ok_def it fld by blast
  have "prio_of_locks ?s1 u = prio_of_locks s u" for u
    using own by (intro prio_of_locks_cong) (simp_all add: fld, auto simp: upd_lists_def l_apply)
  then have p1: "prio_ok {} ?s1" using P(2) by (simp add: prio_ok_def fld)
  have so1: "sched_ok ?s1" using P(3) unfolding sched_ok_def it fld by blast
  have ch: "chain_ok ?s1 u" for u
    using df chain_ok_cong [of s u ?s1] by (simp add: deadlock_free_def fld)
  let ?rec = "\<lambda>s0. case t_lock (task s0 t) of None \<Rightarrow> Some s0
     | Some l \<Rightarrow> do {
         s \<leftarrow> (if m_prio (mtx s0 l) \<le> t_prio (task s0 t) then mutex_recalculate_prio l s0 else Some s0);
         Some (upd_task t (\<lambda>r. r\<lparr>t_lock := None\<rparr>) s) }"
  have "\<exists>s2. map_option (upd_task t (\<lambda>r. r\<lparr>t_wait := None\<rparr>)) (?rec ?s1) = Some (?D s2)
      \<and> prio_frame ?s1 s2 \<and> prio_ok {} s2 \<and> sched_ok s2"
  proof (cases "t_lock (task s t)")
    case None
    then have "upd_task t (\<lambda>r. r\<lparr>t_wait := None\<rparr>) ?s1 = ?D ?s1"
      by (cases "task s t") (auto simp: upd_defs)
    then show ?thesis using None p1 so1 prio_frame_refl [of ?s1] by (auto simp: fld simp del: prio_frame_refl)
  next
    case (Some l)
    obtain s2 where "(if m_prio (mtx ?s1 l) \<le> t_prio (task ?s1 t) then mutex_recalculate_prio l ?s1
      else Some ?s1) = Some s2" "prio_frame ?s1 s2" "prio_ok {} s2" "sched_ok s2"
      using mutex_recalculate_ok [OF ch l1 p1] p1 so1 prio_frame_refl [of ?s1] by metis
    moreover have "upd_task t (\<lambda>r. r\<lparr>t_wait := None\<rparr>) (upd_task t (\<lambda>r. r\<lparr>t_lock := None\<rparr>) s2) = ?D s2" for s2
      by (simp add: upd_task_def)
    ultimately show ?thesis using Some by (auto simp: fld)
  qed
  then obtain s2 where s2: "map_option (upd_task t (\<lambda>r. r\<lparr>t_wait := None\<rparr>)) (?rec ?s1) = Some (?D s2)"
    "prio_frame ?s1 s2" "prio_ok {} s2" "sched_ok s2" by blast
  note f2 = prio_frame_fields [OF s2(2), unfolded fld]
  let ?s3 = "push_frame (FDelete t msg) (?D s2)"
  have "prio_frame (unblocked t s) (?D s2)" using s2(2)
    by (auto simp: prio_frame_def unblocked_def upd_defs)
  then have S3: "SI {} (?D s2)" using unblocked_ok [OF K t g] prio_frame_SI by blast
  have fD: "lists (?D s2) = lists s2" "mtx (?D s2) = mtx s2" "current (?D s2) = current s2"
    "need_schedule (?D s2) = need_schedule s2" "grp (?D s2) = grp s2" "idle (?D s2) = idle s2"
    "t_prio (task (?D s2) u) = t_prio (task s2 u)" "t_base (task (?D s2) u) = t_base (task s2 u)" for u
    by (auto simp: upd_task_def)
  have p3: "prio_ok {} (?D s2)" using s2(3)
    by (simp add: prio_ok_def prio_of_locks_def owned_locks_def fD)
  have "SI {} ?s3" "prio_ok {} ?s3"
    using push_frame_ok [OF S3 p3, of "FDelete t msg"] c f2 by (simp_all add: fD)
  moreover have "sched_ok ?s3" using s2(4) by (simp add: sched_ok_def push_frame_def fD)
  moreover have "cur_inv ?s3"
  proof -
    have n: "t = current s \<longrightarrow> need_schedule s2" "need_schedule s \<longrightarrow> need_schedule s2"
      using s2(2) by (simp_all add: prio_frame_def fld)
    have st: "stack ?s3 (current s) = FDelete t msg # stack s (current s)" "current ?s3 = current s"
      "need_schedule ?s3 = need_schedule s2" "lists ?s3 = lists ?s1" "grp ?s3 = grp s"
      "\<And>u. t_lock (task ?s3 u) = (if u = t then None else t_lock (task s u))"
      "\<And>u. t_wait (task ?s3 u) = (if u = t then None else t_wait (task s u))"
      using f2 by (auto simp: push_frame_def upd_task_def)
    have "cur_free ?s3" using P(5) by (simp add: cur_free_def st)
    moreover have "t \<noteq> current s \<Longrightarrow> TaskItem (current s) \<in> set (lst ?s3 TaskActive)"
      using R unfolding st it by (simp add: RI_def)
    ultimately show ?thesis using n unfolding cur_inv_def deleting_self_def st by auto
  qed
  ultimately have "KI ?s3" by (simp add: MI_def)
  moreover have "task_delete t msg s = Some ?s3"
  proof -
    obtain r where r: "?rec ?s1 = Some r" "upd_task t (\<lambda>r. r\<lparr>t_wait := None\<rparr>) r = ?D s2"
      using s2(1) by blast
    have "task_delete t msg s = do { s \<leftarrow> ?rec ?s1;
        Some (push_frame (FDelete t msg) (upd_task t (\<lambda>r. r\<lparr>t_wait := None\<rparr>) s)) }"
      unfolding task_delete_def Let_def current_upd_lists by (rule refl)
    then show ?thesis unfolding r(1) by (simp add: r(2))
  qed
  ultimately show ?thesis by simp
qed

section \<open>The kernel as a machine\<close>

text \<open>
  What a call asks of its caller. A task that takes a lock must not hold it (\<open>mutex_lock\<close>
  asserts it), and by the calls that may take it again it must not do so more than 32767 times
  over; a lock that is released must be held; an interrupt is attached once; a group is
  listened to and left alternately; a task structure is created once, and a task that waits for
  a lock group is not deleted.
\<close>

fun call_ok :: "call \<Rightarrow> kstate \<Rightarrow> bool" where
  "call_ok (CLock m) s = (m_master (mtx s m) \<noteq> Some (current s))"
| "call_ok (CTryLock m) s = deep_room m s"
| "call_ok (CLockIrq m q h a) s = deep_room m s"
| "call_ok (CUnlock m) s = (m_master (mtx s m) \<noteq> None)"
| "call_ok (CUnlockIrq m) s = (m_master (mtx s m) \<noteq> None)"
| "call_ok (CAttachIrq m q h a) s = (q_lock (irqv s q) = None)"
| "call_ok (CGroupListen g) s = (\<forall>i < length (g_slots (grp s g)). \<not> linked (lists s) (SlotItem g i))"
| "call_ok (CGroupUnlisten g) s = (\<forall>i < length (g_slots (grp s g)). linked (lists s) (SlotItem g i))"
| "call_ok (CGroupWait g) s = (g_slots (grp s g) \<noteq> [])"
| "call_ok (CCreate t n p) s = fresh_task t s"
| "call_ok (CDelete t msg) s = (t \<noteq> idle s \<and> (\<forall>g. g_waiter (grp s g) \<noteq> Some t))"
| "call_ok _ s = True"

text \<open>The idle task, which also runs the user's \<open>uos_init\<close>, must never block.\<close>

fun may_block :: "call \<Rightarrow> bool" where
  "may_block (CLock m) = True"
| "may_block (CLockIrq m q h a) = True"
| "may_block (CWait m) = True"
| "may_block (CGroupWait g) = True"
| "may_block (CDelete t msg) = True"
| "may_block (CExit msg) = True"
| "may_block _ = False"

text \<open>The calls that assert that the stack of the running task has not overflowed.\<close>

fun call_checks :: "call \<Rightarrow> bool" where
  "call_checks (CAttachIrq m q h a) = False"
| "call_checks (CGroupAdd g m) = False"
| "call_checks (CCreate t n p) = False"
| "call_checks (CDelete t msg) = False"
| "call_checks (CExit msg) = False"
| "call_checks CYield = False"
| "call_checks _ = True"

text \<open>What the rest of a call asks: \<open>task_delete\<close> goes on with \<open>mutex_unlock\<close> and \<open>mutex_signal\<close>.\<close>

fun frame_ok :: "frame \<Rightarrow> kstate \<Rightarrow> bool" where
  "frame_ok (FLock m) s = deep_room m s"
| "frame_ok (FLockIrq m q h a) s = deep_room m s"
| "frame_ok (FDelete t msg) s = stack_guard s"
| "frame_ok _ s = True"

text \<open>The calls that follow the chain of blocked tasks. They are the ones that need a state without
  deadlock: on a circle of blocked tasks the walk need not end.\<close>

fun call_walks :: "call \<Rightarrow> bool" where
  "call_walks (CUnlock m) = True"
| "call_walks (CUnlockIrq m) = True"
| "call_walks (CDelete t msg) = True"
| "call_walks (CExit msg) = True"
| "call_walks (CSetPriority t p) = True"
| "call_walks _ = False"

lemma do_call_ok:
  assumes K: "KI s" and st: "stack s (current s) = []"
    and i: "may_block c \<Longrightarrow> current s \<noteq> idle s"
    and df: "call_walks c \<Longrightarrow> deadlock_free s" and c: "call_ok c s" and g: "call_checks c \<Longrightarrow> stack_guard s"
  shows "\<exists>s'. do_call fast c s = Some s' \<and> KI s'"
proof -
  have R: "RI s" by (rule RI_user [OF K st])
  have ch: "call_walks c \<Longrightarrow> chain_ok s t" for t using df by (simp add: deadlock_free_def)
  have gw: "g_waiter (grp s g) \<noteq> Some (current s)" for g
    using MI_parts(5) [OF K] by (simp add: cur_free_def)
  show ?thesis
  proof (cases c)
    case (CUnlock m)
    then obtain t where "m_master (mtx s m) = Some t" using c by auto
    then show ?thesis using mutex_unlock_ok [OF K _ _ ch] g CUnlock by simp
  next
    case (CUnlockIrq m)
    then obtain t where "m_master (mtx s m) = Some t" using c by auto
    then show ?thesis using mutex_unlock_irq_ok [OF K _ _ ch] g CUnlockIrq by simp
  next
    case (CDelete t msg)
    then show ?thesis using task_delete_ok [OF R _ _ df] i c by simp
  next
    case (CExit msg)
    then show ?thesis using task_delete_ok [OF R _ gw df] i by (simp add: task_exit_def)
  qed (use c i g in \<open>simp_all add: mutex_lock_ok [OF R] mutex_trylock_ok [OF R] mutex_signal_ok [OF K]
    mutex_wait_ok [OF R] mutex_lock_irq_ok [OF R] mutex_attach_irq_ok [OF K] mutex_group_add_ok [OF K]
    mutex_group_listen_ok [OF K] mutex_group_unlisten_ok [OF K] mutex_group_wait_ok [OF R]
    task_create_ok [OF K] task_yield_ok [OF R] task_set_priority_ok [OF K ch] task_set_private_ok [OF K]\<close>)
qed

text \<open>A continuation starts in the state with its frame taken off the stack.\<close>

lemma pop_frame_ok:
  assumes K: "KI s" and st: "stack s (current s) = k # ks"
  defines "s' \<equiv> s\<lparr>stack := (stack s)(current s := ks)\<rparr>"
  shows "SI {} s'" "prio_ok {} s'" "sched_ok s'" "cur_free s'" "current s' = current s"
    "current s' \<noteq> idle s'" "mtx s' = mtx s" "push_frame k s' = s"
    "\<not> in_own_delete (current s) (k # ks) \<Longrightarrow> RI s'"
    "TaskItem (current s') \<in> set (lst s' TaskActive) \<or> need_schedule s'"
    "\<And>m. frame_lock k = Some m \<Longrightarrow> m_init (mtx s' m)" "\<And>m d. k = FReacquire m d \<Longrightarrow> sint d > 0"
    "stack s' = (stack s)(current s := ks)" "need_schedule s' = need_schedule s" "lists s' = lists s"
proof -
  note P = MI_parts [OF K]
  note L = SI_parts [OF P(1)]
  have fld: "lists s' = lists s" "task s' = task s" "mtx s' = mtx s" "grp s' = grp s"
    "current s' = current s" "need_schedule s' = need_schedule s" "idle s' = idle s"
    by (simp_all add: s'_def)
  have sub: "set (stack s' t) \<subseteq> set (stack s t)" for t using st by (auto simp: s'_def)
  have i: "current s \<noteq> idle s" using L(5) st unfolding inv_stack_def by force
  have si: "stack s' (idle s) = []" using L(5) i by (auto simp: inv_stack_def s'_def)
  have "inv_stack s'" using L(5) sub si unfolding inv_stack_def fld by blast
  then show S: "SI {} s'" using L
    by (intro SI_intro) (simp_all add: inv_lists_def inv_task_def inv_lock_def inv_group_def fld)
  show p: "prio_ok {} s'" using P(2) by (simp add: prio_ok_def prio_of_locks_def owned_locks_def fld)
  show so: "sched_ok s'" using P(3) by (simp add: sched_ok_def fld)
  show cf: "cur_free s'" using P(5) by (simp add: cur_free_def fld)
  show "current s' = current s" "current s' \<noteq> idle s'" "mtx s' = mtx s" "need_schedule s' = need_schedule s"
    "lists s' = lists s"
    using i by (simp_all add: fld)
  show "push_frame k s' = s" using st by (simp add: push_frame_def s'_def fun_upd_idem)
  show "TaskItem (current s') \<in> set (lst s' TaskActive) \<or> need_schedule s'"
    using P(4) by (auto simp: cur_inv_def deleting_self_def fld)
  show "RI s'" if "\<not> in_own_delete (current s) (k # ks)"
    using that P(4) S p so cf st by (auto simp: RI_def MI_def cur_inv_def deleting_self_def fld)
  have kin: "k \<in> set (stack s (current s))" using st by simp
  show "\<And>m. frame_lock k = Some m \<Longrightarrow> m_init (mtx s' m)" "\<And>m d. k = FReacquire m d \<Longrightarrow> sint d > 0"
    using L(5) kin unfolding inv_stack_def fld by blast+
  show "stack s' = (stack s)(current s := ks)" by (simp add: s'_def)
qed

lemma task_delete_loop_ok:
  assumes K: "KI s" and st: "stack s (current s) = FDelete t msg # ks" and df: "deadlock_free s"
    and g: "stack_guard s"
  shows "\<exists>s'. task_delete_loop fast t msg (s\<lparr>stack := (stack s)(current s := ks)\<rparr>) = Some s' \<and> KI s'"
proof -
  let ?s = "s\<lparr>stack := (stack s)(current s := ks)\<rparr>"
  note pop = pop_frame_ok [OF K st]
  show ?thesis
  proof (cases "lst s (Owned t)")
    case (Cons x xs)
    then obtain m where x: "x = LockItem m" using SI_lock_item [OF MI_parts(1) [OF K], of x t] by auto
    have m: "m_master (mtx s m) = Some t" using SI_owned [OF MI_parts(1) [OF K], of m t] Cons x by simp
    have "task_delete_loop fast t msg ?s = mutex_unlock fast m s"
      using Cons x m pop(8) by (simp add: task_delete_loop_def assert_c_def)
    then show ?thesis using mutex_unlock_ok [OF K g m] df by (simp add: deadlock_free_def)
  next
    case Nil
    let ?s1 = "upd_task t (\<lambda>r. r\<lparr>t_base := 0\<rparr>) ?s"
    have f: "prio_frame ?s ?s1 \<or> True" by simp
    have fld: "lists ?s1 = lists ?s" "mtx ?s1 = mtx ?s" "grp ?s1 = grp ?s" "current ?s1 = current ?s"
      "idle ?s1 = idle ?s" "stack ?s1 = stack ?s" "need_schedule ?s1 = need_schedule ?s"
      "t_lock (task ?s1 u) = t_lock (task ?s u)" "t_wait (task ?s1 u) = t_wait (task ?s u)"
      "t_guard (task ?s1 u) = t_guard (task ?s u)" "t_prio (task ?s1 u) = t_prio (task ?s u)"
      "t_base (task ?s1 u) = (if u = t then 0 else t_base (task ?s u))" for u
      by (auto simp: upd_task_def)
    have S1: "SI {} ?s1" using pop(1) by (simp add: SI_def inv_defs fld(1-11))
    have "prio_of_locks ?s1 u = prio_of_locks ?s u" if "u \<noteq> t" for u
      using that by (intro prio_of_locks_cong) (simp_all add: fld)
    then have p1: "prio_ok {} ?s1" using pop(2) by (auto simp: prio_ok_def fld)
    let ?s2 = "push_frame FDeleteEnd ?s1"
    have "SI {} ?s2" "prio_ok {} ?s2"
      using push_frame_ok [OF S1 p1, of FDeleteEnd] pop(6) by (simp_all add: fld)
    moreover have "sched_ok ?s2" using pop(3) by (simp add: sched_ok_def push_frame_def fld)
    moreover have "cur_inv ?s2" using pop(4,10)
      by (auto simp: cur_inv_def cur_free_def deleting_self_def push_frame_def upd_task_def)
    ultimately have "KI ?s2" by (simp add: MI_def)
    moreover have "stack_guard ?s2" using g
      by (auto simp: stack_guard_def current_task_def push_frame_def upd_task_def)
    ultimately show ?thesis using mutex_signal_ok Nil by (simp add: task_delete_loop_def Let_def)
  qed
qed

lemma resume_ok:
  assumes K: "KI s" and st: "stack s (current s) \<noteq> []" and df: "deadlock_free s"
    and fo: "frame_ok (hd (stack s (current s))) s"
  shows "\<exists>s'. resume fast s = Some s' \<and> KI s'"
proof -
  obtain k ks where k: "stack s (current s) = k # ks" using st by (meson neq_Nil_conv)
  note pop = pop_frame_ok [OF K k]
  let ?s = "s\<lparr>stack := (stack s)(current s := ks)\<rparr>"
  have dr: "deep_room m ?s = deep_room m s" for m by (simp add: deep_room_def)
  have "\<exists>s'. run_frame fast k ?s = Some s' \<and> KI s'"
  proof (cases k)
    case (FLock m)
    then show ?thesis using mutex_lock_loop_ok [OF pop(9) pop(6) pop(11)] dr fo k by simp
  next
    case (FLockIrq m q h a)
    then show ?thesis using mutex_lock_irq_loop_ok [OF pop(9) pop(6) pop(11)] dr fo k by simp
  next
    case (FReacquire m d)
    then show ?thesis using mutex_reacquire_ok [OF pop(9) pop(6) pop(11) pop(12)] by simp
  next
    case FWaitDone
    then show ?thesis using RI_KI [OF pop(9)] set_ret_MI by simp
  next
    case (FGroupWait g)
    then show ?thesis using group_wait_loop_ok [OF pop(9) pop(6)] by simp
  next
    case (FDelete t msg)
    then show ?thesis using task_delete_loop_ok [OF K _ df] fo k by simp
  next
    case FDeleteEnd
    have "KI (schedule_if_needed ?s)"
      using pop(1-4,10) by (intro schedule_if_ok) (auto simp: cur_inv_def)
    then show ?thesis using FDeleteEnd by simp
  qed
  then show ?thesis using k by (simp add: resume_def)
qed

text \<open>
  One event: the running task makes a call, or goes on with the call it is in; an interrupt
  arrives while the running task is outside the kernel; \<open>main\<close>, in the idle task, starts
  the scheduler after \<open>uos_init\<close>; or the stack of the running task overflows while it is in its own code, and
  overwrites the guard.
\<close>

datatype event = Call call | Resume | Irq nat | Start | Overflow

fun kstep :: "fast_handler \<Rightarrow> event \<Rightarrow> kstate \<Rightarrow> kstate option" where
  "kstep fast (Call c) s = do_call fast c s"
| "kstep fast Resume s = resume fast s"
| "kstep fast (Irq q) s = irq_handler fast q s"
| "kstep fast Start s = do { assert_c (current s = idle s); Some (task_schedule s) }"
| "kstep fast Overflow s = Some (upd_task (current s) (\<lambda>r. r\<lparr>t_guard := False\<rparr>) s)"

fun event_ok :: "event \<Rightarrow> kstate \<Rightarrow> bool" where
  "event_ok (Call c) s = (stack s (current s) = [] \<and> (may_block c \<longrightarrow> current s \<noteq> idle s) \<and> call_ok c s
     \<and> (call_checks c \<longrightarrow> stack_guard s))"
| "event_ok Resume s = (stack s (current s) \<noteq> [] \<and> frame_ok (hd (stack s (current s))) s)"
| "event_ok (Irq q) s = (stack s (current s) = [] \<and> q_lock (irqv s q) \<noteq> None)"
| "event_ok Start s = (stack s (current s) = [] \<and> current s = idle s)"
| "event_ok Overflow s = (stack s (current s) = [])"

fun walks_chain :: "event \<Rightarrow> bool" where
  "walks_chain (Call c) = call_walks c"
| "walks_chain Resume = True"
| "walks_chain _ = False"

inductive reachable :: "fast_handler \<Rightarrow> tid \<Rightarrow> kstate \<Rightarrow> bool" for fast i where
  boot: "reachable fast i (kernel_init i)"
| step: "reachable fast i s \<Longrightarrow> (walks_chain e \<longrightarrow> deadlock_free s) \<Longrightarrow> event_ok e s \<Longrightarrow> kstep fast e s = Some s'
    \<Longrightarrow> reachable fast i s'"

lemma overflow_KI:
  assumes K: "KI s"
  shows "KI (upd_task t (\<lambda>r. r\<lparr>t_guard := False\<rparr>) s)" (is "KI ?s")
proof -
  have fld: "lists ?s = lists s" "mtx ?s = mtx s" "grp ?s = grp s" "current ?s = current s" "idle ?s = idle s"
    "stack ?s = stack s" "need_schedule ?s = need_schedule s" "t_lock (task ?s u) = t_lock (task s u)"
    "t_wait (task ?s u) = t_wait (task s u)" "t_prio (task ?s u) = t_prio (task s u)"
    "t_base (task ?s u) = t_base (task s u)" for u
    by (auto simp: upd_task_def)
  show ?thesis using K
    by (simp add: MI_def SI_def inv_defs prio_ok_def prio_of_locks_def owned_locks_def sched_ok_def cur_inv_def
        cur_free_def deleting_self_def fld)
qed

lemma kstep_ok:
  assumes K: "KI s" and df: "walks_chain e \<Longrightarrow> deadlock_free s" and e: "event_ok e s"
  shows "\<exists>s'. kstep fast e s = Some s' \<and> KI s'"
proof (cases e)
  case (Call c)
  then show ?thesis using do_call_ok [OF K, of c] df e by simp
next
  case Resume
  then show ?thesis using resume_ok [OF K] df e by simp
next
  case (Irq q)
  then show ?thesis using irq_handler_ok [OF K] e by simp
next
  case Start
  then show ?thesis using schedule_ok [OF MI_parts(1,2) [OF K]] e by (simp add: assert_c_def)
next
  case Overflow
  then show ?thesis using overflow_KI [OF K] by simp
qed

lemma kernel_init_KI: "KI (kernel_init i)"
proof -
  let ?s = "kernel_init i"
  have l: "lst ?s l = (if l = TaskActive then [TaskItem i] else [])" for l
    by (simp add: kernel_init_def l_apply l_empty_def)
  have wf: "wf_store (lists ?s)" by (simp add: kernel_init_def)
  have "SI {} ?s"
    using wf by (simp add: SI_def inv_defs l)
      (simp add: kernel_init_def zero_mutex_def idle_task_def new_task_def)
  moreover have "prio_ok {} ?s"
    by (simp add: prio_ok_def prio_of_locks_def owned_locks_def l)
      (simp add: kernel_init_def idle_task_def new_task_def)
  moreover have "sched_ok ?s" by (simp add: sched_ok_def l) (simp add: kernel_init_def)
  moreover have "cur_inv ?s" by (simp add: cur_inv_def cur_free_def l)
      (simp add: kernel_init_def idle_task_def new_task_def)
  ultimately show ?thesis by (simp add: MI_def)
qed

lemma reachable_KI: "reachable fast i s \<Longrightarrow> KI s"
proof (induction rule: reachable.induct)
  case (step s e s')
  then show ?case using kstep_ok [of s e fast] by auto
qed (rule kernel_init_KI)

end
