(* ===== verification/Kernel_Props.thy ===== *)
theory Kernel_Props
  imports Kernel_Run
begin

text \<open>
  What the kernel promises its users: no assertion of it fails as long as the calls are used by their rules, priorities follow the
  locks, the running task is the most urgent one unless a reschedule is due, signals and releases reach every task that waits for
  them, in order. The last section shows by evaluation where the code does less than its comments
  say.
\<close>

section \<open>Effects of the wake-up loops\<close>

lemma activate_waiters_effect:
  "SI X s \<Longrightarrow> prio_ok Y s \<Longrightarrow> activate_waiters m msg s = Some s' \<Longrightarrow>
   lists s' = fold (l_append TaskActive) (lst s (Waiters m)) (lists s)
   \<and> task s' = (\<lambda>t. if TaskItem t \<in> set (lst s (Waiters m))
        then (task s t)\<lparr>t_wait := None, t_message := msg\<rparr> else task s t)"
proof (induction m msg s arbitrary: s' rule: activate_waiters.induct)
  case (1 m msg s)
  show ?case
  proof (cases "lst s (Waiters m)")
    case Nil
    then show ?thesis using 1(4) by (subst (asm) activate_waiters.simps) simp
  next
    case (Cons x xs)
    then obtain t where x: "x = TaskItem t" using SI_task_item [OF 1(2), of x m] by auto
    then have t: "TaskItem t \<in> set (lst s (Waiters m))" using Cons by simp
    note al = SI_alone [OF 1(2) t]
    have w: "t_wait (task s t) = Some m" using SI_waiter [OF 1(2)] t by blast
    have l: "t_lock (task s t) = None" using al(3) by force
    let ?f = "\<lambda>r. r\<lparr>t_wait := None, t_message := msg\<rparr>"
    obtain s1 where s1: "task_activate t (upd_task t ?f s) = Some s1" "SI X s1" "prio_ok Y s1"
      "lists s1 = l_append TaskActive (TaskItem t) (lists s)"
      using make_ready [OF 1(2,3), of ?f t] al(1) l by auto
    have tk: "task s1 = (task s)(t := ?f (task s t))"
      using s1(1) by (auto simp: task_activate_def Let_def upd_defs)
    have W: "lst s1 (Waiters m) = xs"
      using l_append_head [OF SI_parts(6) [OF 1(2)] Cons, of TaskActive] s1(4) x by simp
    have nx: "TaskItem t \<notin> set xs" using wf_store_distinct [OF SI_parts(6) [OF 1(2)], of "Waiters m"] Cons x by simp
    have "activate_waiters m msg s1 = Some s'"
      using 1(4) Cons x w s1(1) by (subst (asm) activate_waiters.simps) simp
    from 1(1) [OF Cons x _ s1(1) s1(2,3) this] w
    have "lists s' = fold (l_append TaskActive) xs (lists s1)"
      "task s' = (\<lambda>u. if TaskItem u \<in> set xs then ?f (task s1 u) else task s1 u)"
      by (simp_all add: W)
    then show ?thesis using Cons x s1(4) tk nx by (auto simp: fun_eq_iff)
  qed
qed

lemma wake_slaves_effect:
  "SI X s \<Longrightarrow> prio_ok Y s \<Longrightarrow> wake_slaves m s = Some s' \<Longrightarrow>
   lists s' = fold (l_append TaskActive) (lst s (Slaves m)) (lists s)
   \<and> task s' = (\<lambda>t. if TaskItem t \<in> set (lst s (Slaves m)) then (task s t)\<lparr>t_lock := None\<rparr> else task s t)"
proof (induction m s arbitrary: s' rule: wake_slaves.induct)
  case (1 m s)
  show ?case
  proof (cases "lst s (Slaves m)")
    case Nil
    then show ?thesis using 1(4) by (subst (asm) wake_slaves.simps) simp
  next
    case (Cons x xs)
    then obtain t where x: "x = TaskItem t" using SI_task_item [OF 1(2), of x m] by auto
    then have t: "TaskItem t \<in> set (lst s (Slaves m))" using Cons by simp
    note al = SI_alone [OF 1(2) t]
    have w: "t_lock (task s t) = Some m" using SI_slave [OF 1(2)] t by blast
    have l: "t_wait (task s t) = None" using al(4) by force
    let ?f = "\<lambda>r. r\<lparr>t_lock := None\<rparr>"
    obtain s1 where s1: "task_activate t (upd_task t ?f s) = Some s1" "SI X s1" "prio_ok Y s1"
      "lists s1 = l_append TaskActive (TaskItem t) (lists s)"
      using make_ready [OF 1(2,3), of ?f t] al(1) l by auto
    have tk: "task s1 = (task s)(t := ?f (task s t))"
      using s1(1) by (auto simp: task_activate_def Let_def upd_defs)
    have W: "lst s1 (Slaves m) = xs"
      using l_append_head [OF SI_parts(6) [OF 1(2)] Cons, of TaskActive] s1(4) x by simp
    have nx: "TaskItem t \<notin> set xs" using wf_store_distinct [OF SI_parts(6) [OF 1(2)], of "Slaves m"] Cons x by simp
    have "wake_slaves m s1 = Some s'"
      using 1(4) Cons x w s1(1) by (subst (asm) wake_slaves.simps) simp
    from 1(1) [OF Cons x _ s1(1) s1(2,3) this] w
    have "lists s' = fold (l_append TaskActive) xs (lists s1)"
      "task s' = (\<lambda>u. if TaskItem u \<in> set xs then ?f (task s1 u) else task s1 u)"
      by (simp_all add: W)
    then show ?thesis using Cons x s1(4) tk nx by (auto simp: fun_eq_iff)
  qed
qed

lemma fold_active:
  assumes "wf_store L" "l \<noteq> TaskActive"
  shows "items (fold (l_append TaskActive) (items L l) L)
    = (items L)(l := [], TaskActive := items L TaskActive @ items L l)"
  using abs_h.move_all [of L L l TaskActive] assms by simp

lemma task_activate_task: "task_activate t s = Some s' \<Longrightarrow> task s' = task s"
  by (auto simp: task_activate_def upd_lists_def Let_def)

lemma activate_groups_task: "activate_groups m msg is s = Some s' \<Longrightarrow> task s' = task s"
proof (induction "is" arbitrary: s)
  case (Cons x xs)
  show ?case
  proof (cases x)
    case (SlotItem g i)
    let ?s1 = "upd_grp g (\<lambda>r. r\<lparr>g_slots := (g_slots r)[i := signal_slot msg (g_slots r ! i)]\<rparr>) s"
    have t1: "task ?s1 = task s" "task (upd_grp g f ?s1) = task s" for f by (simp_all add: upd_grp_def)
    obtain s2 where s2: "activate_groups m msg xs s2 = Some s'"
      "(case g_waiter (grp ?s1 g) of None \<Rightarrow> Some ?s1
        | Some t \<Rightarrow> do { assert_c (\<not> linked (lists ?s1) (TaskItem t));
            task_activate t (upd_grp g (\<lambda>r. r\<lparr>g_waiter := None\<rparr>) ?s1) }) = Some s2"
      using Cons(2) unfolding SlotItem activate_groups.simps Let_def bind_assert_c bind_eq_Some_conv
      by blast
    have "task s2 = task s" using s2(2) task_activate_task t1
      by (cases "g_waiter (grp ?s1 g)") fastforce+
    then show ?thesis using Cons(1) [OF s2(1)] by simp
  qed (use Cons(2) in simp_all)
qed simp

lemma schedule_fields:
  "lists (schedule_if_needed s) = lists s" "mtx (schedule_if_needed s) = mtx s"
  "t_wait (task (schedule_if_needed s) t) = t_wait (task s t)"
  "t_lock (task (schedule_if_needed s) t) = t_lock (task s t)"
  "t_message (task (schedule_if_needed s) t) = t_message (task s t)"
  "t_prio (task (schedule_if_needed s) t) = t_prio (task s t)"
  by (simp_all add: schedule_if_needed_def task_schedule_def Let_def upd_task_def)

lemma mutex_activate_wakes:
  assumes SI: "SI X s" and p: "prio_ok Y s" and w: "t_wait (task s t) = Some m"
    and r: "mutex_activate m msg s = Some s'"
  shows "t_wait (task s' t) = None" "t_message (task s' t) = msg" "TaskItem t \<in> set (lst s' TaskActive)"
proof -
  note e = ensure_init_ok [OF SI p, of m]
  obtain s1 where s1: "activate_waiters m msg (ensure_init m s) = Some s1"
    and g: "activate_groups m msg (lst s1 (Groups m)) s1 = Some s'"
    using r by (auto simp: mutex_activate_def bind_eq_Some_conv)
  obtain s1' where s1': "activate_waiters m msg (ensure_init m s) = Some s1'" "SI X s1'" "prio_ok Y s1'"
    using activate_waiters_ok [OF e(1,2)] by blast
  have S1: "SI X s1" "prio_ok Y s1" using s1' s1 by simp_all
  have in_w: "TaskItem t \<in> set (lst s (Waiters m))" using SI_waiter [OF SI] w by blast
  note ef = activate_waiters_effect [OF e(1,2) s1]
  note fa = fold_active [OF SI_parts(6) [OF SI], of "Waiters m"]
  have act: "TaskItem t \<in> set (lst s1 TaskActive)" using ef fa in_w by (simp add: e(5))
  have tk: "task s1 t = (task s t)\<lparr>t_wait := None, t_message := msg\<rparr>"
    using ef in_w by (simp add: e(5,6))
  obtain s2 where "activate_groups m msg (lst s1 (Groups m)) s1 = Some s2" "kframe s1 s2"
    using activate_groups_ok [OF S1 subset_refl] by blast
  then have "kframe s1 s'" using g by simp
  then show "TaskItem t \<in> set (lst s' TaskActive)" using act by (simp add: kframe_def)
  show "t_wait (task s' t) = None" "t_message (task s' t) = msg"
    using activate_groups_task [OF g] tk by simp_all
qed

section \<open>Scenarios\<close>

text \<open>
  Concrete runs for the examples below, of events that do not walk the chain of blocked tasks. As
  long as no task waits for a group, what each of them asks of the state can be computed.
\<close>

definition no_fast :: fast_handler where
  "no_fast f a = (False, [])"

definition calm_state :: "kstate \<Rightarrow> bool" where
  "calm_state s \<longleftrightarrow> (\<forall>g. g_waiter (grp s g) = None)"

fun calm_event :: "event \<Rightarrow> kstate \<Rightarrow> bool" where
  "calm_event (Call (CCreate t n p)) s = (stack s (current s) = [] \<and> t \<noteq> current s \<and> t \<noteq> idle s
     \<and> \<not> linked (lists s) (TaskItem t) \<and> lst s (Owned t) = [] \<and> \<not> m_init (mtx s (Finish t)))"
| "calm_event (Call CYield) s = (stack s (current s) = [])"
| "calm_event (Call (CLock m)) s = (stack s (current s) = [] \<and> stack_guard s \<and> current s \<noteq> idle s
     \<and> m_master (mtx s m) \<noteq> Some (current s))"
| "calm_event (Call (CWait m)) s = (stack s (current s) = [] \<and> stack_guard s \<and> current s \<noteq> idle s
     \<and> m_master (mtx s m) \<noteq> Some (current s) \<and> m_irq (mtx s m) = None)"
| "calm_event Start s = (stack s (current s) = [] \<and> current s = idle s)"
| "calm_event _ s = False"

fun calm_run :: "event list \<Rightarrow> kstate \<Rightarrow> kstate option" where
  "calm_run [] s = Some s"
| "calm_run (e # es) s = (if calm_event e s then kstep no_fast e s \<bind> calm_run es else None)"

lemma calm_event_ok:
  "calm_event e s \<Longrightarrow> calm_state s \<Longrightarrow> event_ok e s \<and> \<not> walks_chain e"
  by (induction e s rule: calm_event.induct) (auto simp: calm_state_def fresh_task_def)

lemma task_schedule_grp [simp]: "grp (task_schedule s) = grp s"
  by (simp add: task_schedule_def Let_def upd_task_def)

lemma lock_block_grp: "lock_block m u k s = Some s' \<Longrightarrow> grp s' = grp s"
  by (auto simp: lock_block_def Let_def upd_defs bind_eq_Some_conv)

lemma lock_take_grp: "lock_take m s = Some s' \<Longrightarrow> grp s' = grp s"
  by (auto simp: lock_take_def Let_def upd_defs bind_eq_Some_conv)

lemma calm_step:
  assumes "calm_event e s" "calm_state s" "kstep no_fast e s = Some s'"
  shows "calm_state s'"
proof -
  have "grp s' = grp s"
    using assms(1,3)
  proof (induction e s rule: calm_event.induct)
    case (1 t n p s)
    then show ?case
      by (auto simp: task_create_def task_activate_def upd_defs Let_def bind_eq_Some_conv)
  next
    case (2 s)
    then show ?case by (auto simp: task_yield_def upd_lists_def)
  next
    case (3 m s)
    have e: "grp (ensure_init m s) = grp s" by (simp add: ensure_init_def mutex_init_def upd_defs)
    show ?case using 3 e
      by (auto simp: mutex_lock_def mutex_lock_loop_def deeper_def upd_mtx_def bind_eq_Some_conv
          dest: lock_block_grp lock_take_grp split: option.splits if_splits)
  next
    case (4 m s)
    have e: "task (ensure_init m s) = task s" "grp (ensure_init m s) = grp s"
      "current (ensure_init m s) = current s" "m_master (mtx (ensure_init m s) m) \<noteq> Some (current s)"
      "m_irq (mtx (ensure_init m s) m) = None"
      using 4 by (simp_all add: ensure_init_def mutex_init_def upd_defs)
    have "s' = task_schedule (push_frame FWaitDone (waiting m (ensure_init m s)))"
      using 4 e by (auto simp: mutex_wait_def wait_block_def waiting_def upd_defs Let_def bind_eq_Some_conv)
    then show ?case using e by (simp add: push_frame_def waiting_def upd_defs)
  next
    case (5 s)
    then show ?case by (auto simp: assert_c_def)
  qed simp_all
  then show ?thesis using assms(2) by (simp add: calm_state_def)
qed

lemma calm_reachable:
  "calm_run es s = Some s' \<Longrightarrow> reachable no_fast i s \<Longrightarrow> calm_state s \<Longrightarrow>
   reachable no_fast i s' \<and> calm_state s'"
proof (induction es arbitrary: s)
  case (Cons e es)
  then obtain s1 where s1: "calm_event e s" "kstep no_fast e s = Some s1" "calm_run es s1 = Some s'"
    by (auto simp: bind_eq_Some_conv split: if_splits)
  have "reachable no_fast i s1"
    using reachable.step [OF Cons(3) _ _ s1(2)] calm_event_ok [OF s1(1) Cons(4)] by blast
  then show ?case using Cons(1) [OF s1(3)] calm_step [OF s1(1) Cons(4) s1(2)] by simp
qed simp

lemma calm_init: "calm_state (kernel_init i)"
  by (simp add: calm_state_def kernel_init_def)

lemmas calm_start = calm_reachable [OF _ reachable.boot calm_init]

text \<open>Task 1, of priority 1, owns a lock; task 2, of priority 2, runs.\<close>

definition held_run :: "event list" where
  "held_run = [Call (CCreate 1 ''low'' 1), Start, Call (CLock (Lock 0)), Call (CCreate 2 ''high'' 2),
     Call CYield]"

text \<open>Task 1 waits for a signal; task 2 runs.\<close>

definition wait_run :: "event list" where
  "wait_run = [Call (CCreate 1 ''high'' 2), Call (CCreate 2 ''low'' 1), Start, Call (CWait (Lock 0))]"

lemma held_state: "\<exists>s. reachable no_fast 0 s \<and> current s = 2
  \<and> m_master (mtx s (Lock 0)) = Some 1 \<and> t_base (task s 1) = 1 \<and> t_base (task s 2) = 2
  \<and> stack s 2 = [] \<and> t_guard (task s 2) \<and> idle s = 0 \<and> \<not> need_schedule s \<and> TaskItem 1 \<in> set (lst s TaskActive)
  \<and> m_init (mtx s (Lock 0)) \<and> m_master (mtx s (Lock 5)) = None"
proof -
  have "case calm_run held_run (kernel_init 0) of None \<Rightarrow> False
    | Some s \<Rightarrow> current s = 2 \<and> m_master (mtx s (Lock 0)) = Some 1 \<and> t_base (task s 1) = 1
       \<and> t_base (task s 2) = 2 \<and> stack s 2 = [] \<and> t_guard (task s 2) \<and> idle s = 0 \<and> \<not> need_schedule s
       \<and> TaskItem 1 \<in> set (lst s TaskActive) \<and> m_init (mtx s (Lock 0))
       \<and> m_master (mtx s (Lock 5)) = None"
    by code_simp
  then obtain s where "calm_run held_run (kernel_init 0) = Some s" "current s = 2
       \<and> m_master (mtx s (Lock 0)) = Some 1 \<and> t_base (task s 1) = 1 \<and> t_base (task s 2) = 2
       \<and> stack s 2 = [] \<and> t_guard (task s 2) \<and> idle s = 0 \<and> \<not> need_schedule s \<and> TaskItem 1 \<in> set (lst s TaskActive)
       \<and> m_init (mtx s (Lock 0)) \<and> m_master (mtx s (Lock 5)) = None"
    by (auto split: option.splits)
  then show ?thesis using calm_start by blast
qed

lemma wait_state: "\<exists>s. reachable no_fast 0 s \<and> current s = 2
  \<and> t_wait (task s 1) = Some (Lock 0) \<and> stack s 2 = [] \<and> t_guard (task s 2)"
proof -
  have "case calm_run wait_run (kernel_init 0) of None \<Rightarrow> False
    | Some s \<Rightarrow> current s = 2 \<and> t_wait (task s 1) = Some (Lock 0) \<and> stack s 2 = [] \<and> t_guard (task s 2)"
    by code_simp
  then obtain s where "calm_run wait_run (kernel_init 0) = Some s" "current s = 2
       \<and> t_wait (task s 1) = Some (Lock 0) \<and> stack s 2 = [] \<and> t_guard (task s 2)"
    by (auto split: option.splits)
  then show ?thesis using calm_start by blast
qed

lemma blocked_state: "\<exists>s. reachable no_fast 0 s \<and> t_lock (task s 2) = Some (Lock 0)
  \<and> current s = 1 \<and> m_master (mtx s (Lock 0)) = Some 1 \<and> m_deep (mtx s (Lock 0)) = 1
  \<and> m_irq (mtx s (Lock 0)) = None \<and> t_lock (task s 1) = None \<and> t_base (task s 1) = 1
  \<and> t_prio (task s 1) = 2 \<and> t_guard (task s 1)"
proof -
  have "case calm_run (held_run @ [Call (CLock (Lock 0))]) (kernel_init 0) of None \<Rightarrow> False
    | Some s \<Rightarrow> t_lock (task s 2) = Some (Lock 0) \<and> current s = 1 \<and> m_master (mtx s (Lock 0)) = Some 1
         \<and> m_deep (mtx s (Lock 0)) = 1 \<and> m_irq (mtx s (Lock 0)) = None \<and> t_lock (task s 1) = None
         \<and> t_base (task s 1) = 1 \<and> t_prio (task s 1) = 2 \<and> t_guard (task s 1)"
    by code_simp
  then obtain s where "calm_run (held_run @ [Call (CLock (Lock 0))]) (kernel_init 0) = Some s"
    "t_lock (task s 2) = Some (Lock 0) \<and> current s = 1 \<and> m_master (mtx s (Lock 0)) = Some 1
         \<and> m_deep (mtx s (Lock 0)) = 1 \<and> m_irq (mtx s (Lock 0)) = None \<and> t_lock (task s 1) = None
         \<and> t_base (task s 1) = 1 \<and> t_prio (task s 1) = 2 \<and> t_guard (task s 1)"
    by (auto split: option.splits)
  then show ?thesis using calm_start by blast
qed

section \<open>Properties\<close>



text \<open>C2: the priority of every task in use is the largest of its base priority and the priorities
  of the locks it owns, in every reachable state.\<close>

theorem priority_rule:
  assumes "reachable fast i s" "t_base (task s t) \<noteq> 0"
  shows "t_prio (task s t)
    = Max (insert (t_base (task s t)) {m_prio (mtx s m) | m. m_master (mtx s m) = Some t})"
proof -
  note P = MI_parts [OF reachable_KI [OF assms(1)]]
  have "{m_prio (mtx s m) | m. m_master (mtx s m) = Some t}
    = (\<lambda>m. m_prio (mtx s m)) ` set (owned_locks s t)"
    using SI_owned [OF P(1)] by auto
  then show ?thesis using P(2) assms(2)
    by (simp add: prio_ok_def prio_of_locks_def max_prio_Max)
qed

theorem priority_rule_witness:
  "\<exists>s. reachable no_fast 0 s \<and> t_base (task s 1) = 1 \<and> t_prio (task s 1) = 2
    \<and> Max (insert 1 {m_prio (mtx s m) | m. m_master (mtx s m) = Some 1}) = 2"
proof -
  obtain s where s: "reachable no_fast 0 s" "t_base (task s 1) = 1" "t_prio (task s 1) = 2"
    using blocked_state by blast
  then show ?thesis using priority_rule [of no_fast 0 s 1] by auto
qed

text \<open>C3: outside the kernel, when no reschedule is due (\<open>task_create\<close> of a more urgent task returns with one
  due), the running task is ready and no ready
  task has a higher priority.\<close>

theorem running_task_highest:
  assumes "reachable fast i s" "stack s (current s) = []" "\<not> need_schedule s"
    and "TaskItem t \<in> set (lst s TaskActive)"
  shows "TaskItem (current s) \<in> set (lst s TaskActive) \<and> t_prio (task s t) \<le> t_prio (task s (current s))"
  using RI_user [OF reachable_KI [OF assms(1)] assms(2)] assms(3,4)
  by (auto simp: RI_def MI_def sched_ok_def)

theorem running_task_highest_witness:
  "\<exists>s. reachable no_fast 0 s \<and> current s = 2 \<and> TaskItem 2 \<in> set (lst s TaskActive)
    \<and> t_prio (task s 1) \<le> t_prio (task s 2)"
proof -
  obtain s where "reachable no_fast 0 s" "current s = 2" "stack s 2 = []" "\<not> need_schedule s"
    "TaskItem 1 \<in> set (lst s TaskActive)" using held_state by blast
  then show ?thesis using running_task_highest [of no_fast 0 s 1] by auto
qed

text \<open>A task blocked on a lock is in the lock's queue and not among the ready tasks, and the
  lock has a master whose release will wake it: no blocked task is lost.\<close>

theorem blocked_has_master:
  assumes "reachable fast i s" "t_lock (task s t) = Some m"
  shows "TaskItem t \<in> set (lst s (Slaves m)) \<and> TaskItem t \<notin> set (lst s TaskActive)
    \<and> (\<exists>u. m_master (mtx s m) = Some u \<and> LockItem m \<in> set (lst s (Owned u)))"
proof -
  note SI = MI_parts(1) [OF reachable_KI [OF assms(1)]]
  have q: "TaskItem t \<in> set (lst s (Slaves m))" using SI_slave [OF SI] assms(2) by blast
  then have "m_master (mtx s m) \<noteq> None" using SI_no_slaves [OF SI] by fastforce
  then show ?thesis using q SI_owned [OF SI] SI_active [OF SI] assms(2) by fastforce
qed

theorem blocked_has_master_witness:
  "\<exists>s. reachable no_fast 0 s \<and> t_lock (task s 2) = Some (Lock 0) \<and> TaskItem 2 \<in> set (lst s (Slaves (Lock 0)))"
  using blocked_state blocked_has_master by blast

text \<open>C4: a signal of a task whose stack guard is intact reaches every task that waits on the lock: the task gets the message, stops
  waiting and is ready.\<close>

theorem signal_wakes_waiters:
  assumes "reachable fast i s" "t_wait (task s t) = Some m" "stack_guard s"
  shows "\<exists>s'. mutex_signal m msg s = Some s' \<and> t_wait (task s' t) = None
    \<and> t_message (task s' t) = msg \<and> TaskItem t \<in> set (lst s' TaskActive)"
proof -
  note K = reachable_KI [OF assms(1)]
  note P = MI_parts [OF K]
  note e = ensure_init_ok [OF P(1,2), of m]
  have w: "t_wait (task (ensure_init m s) t) = Some m" by (simp add: e assms(2))
  have "TaskItem t \<in> set (lst s (Waiters m))" using SI_waiter [OF P(1)] assms(2) by blast
  then have ne: "lst (ensure_init m s) (Waiters m) \<noteq> []" by (auto simp: e)
  obtain s1 where s1: "mutex_activate m msg (ensure_init m s) = Some s1"
    using mutex_activate_ok [OF e(1,2)] by blast
  note woken = mutex_activate_wakes [OF e(1,2) w s1]
  have "mutex_signal m msg s = Some (schedule_if_needed s1)"
    using assms(3) ne s1 by (simp add: mutex_signal_def assert_c_def Let_def)
  then show ?thesis using woken by (simp add: schedule_fields)
qed

theorem signal_wakes_waiters_witness:
  "\<exists>s s'. t_wait (task s 1) = Some (Lock 0) \<and> mutex_signal (Lock 0) 7 s = Some s'
    \<and> t_wait (task s' 1) = None \<and> t_message (task s' 1) = 7"
proof -
  obtain s where s: "reachable no_fast 0 s" "t_wait (task s 1) = Some (Lock 0)" "stack_guard s"
    using wait_state by (auto simp: stack_guard_def current_task_def)
  then show ?thesis using signal_wakes_waiters [OF s, of 7] by blast
qed

text \<open>The last release of a lock frees it and moves all tasks blocked on it to the end of the
  list of ready tasks, in the order in which they queued up, before it schedules.\<close>

theorem unlock_wakes_slaves:
  assumes r: "reachable fast i s" and c: "chain_ok s u" and m: "m_master (mtx s m) = Some u"
    and d: "m_deep (mtx s m) = 1" and q: "m_irq (mtx s m) = None" and g: "stack_guard s"
  shows "\<exists>s1. mutex_unlock fast m s = Some (schedule_if_needed s1)
    \<and> lst s1 TaskActive = lst s TaskActive @ lst s (Slaves m) \<and> lst s1 (Slaves m) = []
    \<and> m_master (mtx s1 m) = None \<and> m_deep (mtx s1 m) = 0
    \<and> (\<forall>t. t_lock (task s1 t) = (if t_lock (task s t) = Some m then None else t_lock (task s t)))"
proof -
  note K = reachable_KI [OF r]
  note P = MI_parts [OF K]
  have e: "upd_mtx m (\<lambda>r. r\<lparr>m_deep := m_deep r - 1\<rparr>) s = upd_mtx m (\<lambda>r. r\<lparr>m_deep := 0\<rparr>) s"
    using d by (simp add: upd_mtx_def)
  obtain s2 where s2: "lock_drop m u (upd_mtx m (\<lambda>r. r\<lparr>m_deep := 0\<rparr>) s) = Some s2"
    "prio_frame (released m s) s2" "prio_ok {} s2"
    using lock_drop_ok [OF P(1,2,6) c m refl] by blast
  note f = prio_frame_fields [OF s2(2)]
  have ini: "m_init (mtx s m)" using SI_uninit [OF P(1), of m] m by force
  have S2: "SI {m} s2" using released_SI [OF P(1) ini] prio_frame_SI [OF s2(2)] by simp
  have nt: "LockItem m \<notin> set (lst s TaskActive)" "LockItem m \<notin> set (lst s (Slaves m))"
    using SI_task_item [OF P(1)] by blast+
  have L2: "lst s2 TaskActive = lst s TaskActive" "lst s2 (Slaves m) = lst s (Slaves m)"
    using nt by (simp_all add: f(1) released_def upd_defs l_apply)
  have M2: "m_master (mtx s2 m) = None" "m_deep (mtx s2 m) = 0" "m_irq (mtx s2 m) = None"
    using q by (simp_all add: f released_def upd_defs)
  have T2: "t_lock (task s2 t) = t_lock (task s t)" for t by (simp add: f released_def upd_defs)
  obtain s3 where s3: "wake_slaves m s2 = Some s3" "mtx s3 = mtx s2" "lst s3 (Slaves m) = []"
    using wake_slaves_ok [OF S2 s2(3)] by blast
  note ef = wake_slaves_effect [OF S2 s2(3) s3(1)]
  have A3: "lst s3 TaskActive = lst s TaskActive @ lst s (Slaves m)"
    using ef fold_active [OF SI_parts(6) [OF S2], of "Slaves m"] by (simp add: L2)
  have T3: "t_lock (task s3 t) = (if t_lock (task s t) = Some m then None else t_lock (task s t))" for t
    using ef T2 SI_slave [OF P(1), of t m] by (simp add: L2)
  let ?s4 = "if lst s (Slaves m) \<noteq> [] then upd_mtx m (\<lambda>r. r\<lparr>m_prio := 0\<rparr>) s3 else s2"
  have w: "wake_all_slaves m s2 = Some ?s4" using s3(1) by (simp add: wake_all_slaves_def L2)
  have "mutex_unlock fast m s = Some (schedule_if_needed ?s4)"
    using g m d M2 s2(1) w unfolding mutex_unlock_def e
    by (simp add: assert_c_def Let_def) (simp add: upd_mtx_def)
  moreover have "lst ?s4 TaskActive = lst s TaskActive @ lst s (Slaves m)" "lst ?s4 (Slaves m) = []"
    "m_master (mtx ?s4 m) = None" "m_deep (mtx ?s4 m) = 0"
    using A3 s3(2,3) M2 L2 by (simp_all add: upd_mtx_def)
  moreover have "t_lock (task ?s4 t) = (if t_lock (task s t) = Some m then None else t_lock (task s t))" for t
    using T3 T2 SI_slave [OF P(1), of t m] by (auto simp: upd_mtx_def)
  ultimately show ?thesis by blast
qed

theorem unlock_wakes_slaves_witness:
  "\<exists>s s1. t_lock (task s 2) = Some (Lock 0) \<and> mutex_unlock no_fast (Lock 0) s = Some (schedule_if_needed s1)
    \<and> t_lock (task s1 2) = None"
proof -
  obtain s where s: "reachable no_fast 0 s" "t_lock (task s 2) = Some (Lock 0)"
    "m_master (mtx s (Lock 0)) = Some 1" "m_deep (mtx s (Lock 0)) = 1" "m_irq (mtx s (Lock 0)) = None"
    "t_lock (task s 1) = None" "stack_guard s"
    using blocked_state by (auto simp: stack_guard_def current_task_def)
  then show ?thesis using unlock_wakes_slaves [OF s(1) chain_ok_free [OF s(6)] s(3,4,5,7)] s(2) by metis
qed

lemma schedule_prio [simp]: "t_prio (task (task_schedule s) t) = t_prio (task s t)"
  "mtx (task_schedule s) = mtx s" "t_lock (task (task_schedule s) t) = t_lock (task s t)"
  "lists (task_schedule s) = lists s" "stack (task_schedule s) = stack s"
  by (simp_all add: task_schedule_def Let_def upd_task_def)

text \<open>Taking a lock that another task holds blocks the caller behind it, and both the lock
  and its holder inherit the caller's priority.\<close>

theorem lock_inherits:
  assumes r: "reachable fast i s" and st: "stack s (current s) = []" and i: "current s \<noteq> idle s"
    and m: "m_master (mtx s m) = Some u" "u \<noteq> current s" and g: "stack_guard s"
  shows "\<exists>s'. mutex_lock m s = Some s' \<and> t_lock (task s' (current s)) = Some m
    \<and> lst s' (Slaves m) = lst s (Slaves m) @ [TaskItem (current s)]
    \<and> stack s' (current s) = [FLock m]
    \<and> t_prio (task s (current s)) \<le> m_prio (mtx s' m)
    \<and> (t_base (task s u) \<noteq> 0 \<longrightarrow> t_prio (task s (current s)) \<le> t_prio (task s' u))"
proof -
  note K = reachable_KI [OF r]
  note R = RI_user [OF K st]
  note P = MI_parts [OF K]
  have ini: "m_init (mtx s m)" using SI_uninit [OF P(1), of m] m by force
  then have e: "ensure_init m s = s" by (simp add: ensure_init_def)
  have "t_lock (current_task s) = None" "sint (m_deep (mtx s m)) > 0"
    using P(5) SI_held [OF P(1) m(1)] by (auto simp: cur_free_def current_task_def)
  then have b: "mutex_lock m s = Some (task_schedule (blocked m u (FLock m) s))"
    using m g
    by (simp add: mutex_lock_def e mutex_lock_loop_def lock_block_def blocked_def assert_c_def Let_def)
  note f = blocked_fields [of m u "FLock m" s]
  have nin: "TaskItem (current s) \<notin> set (lst s (Slaves m))"
    using P(5) SI_slave [OF P(1), of "current s" m] by (simp add: cur_free_def)
  have up: "t_prio (task s (current s)) \<le> t_prio (task (blocked m u (FLock m) s) u)"
    if bu: "t_base (task s u) \<noteq> 0"
  proof -
    have "t_prio (task s u) = prio_of_locks s u" using P(2) bu by (simp add: prio_ok_def)
    then have "m_prio (mtx s m) \<le> t_prio (task s u)"
      using prio_of_locks_ge(2) [of m s u] SI_owned [OF P(1), of m u] m(1) by simp
    then show ?thesis unfolding f(14) by auto
  qed
  show ?thesis using b up nin st by (simp add: f l_apply removeAll_id)
qed

theorem lock_inherits_witness:
  "\<exists>s s'. mutex_lock (Lock 0) s = Some s' \<and> current s = 2 \<and> t_lock (task s' 2) = Some (Lock 0)
    \<and> t_prio (task s 2) \<le> t_prio (task s' 1)"
proof -
  obtain s where s: "reachable no_fast 0 s" "current s = 2" "stack s 2 = []" "idle s = 0"
    "m_master (mtx s (Lock 0)) = Some 1" "t_base (task s 1) = 1" "stack_guard s"
    using held_state by (auto simp: stack_guard_def current_task_def)
  then have "\<exists>s'. mutex_lock (Lock 0) s = Some s' \<and> t_lock (task s' (current s)) = Some (Lock 0)
    \<and> (t_base (task s 1) \<noteq> 0 \<longrightarrow> t_prio (task s (current s)) \<le> t_prio (task s' 1))"
    using lock_inherits [of no_fast 0 s "Lock 0" 1] by auto
  then show ?thesis using s by auto
qed

text \<open>\<open>mutex_trylock\<close> never blocks and never schedules: it takes a free lock, counts one
  level deeper on a lock the caller holds, and leaves a lock another task holds alone.\<close>

theorem trylock_result:
  assumes r: "reachable fast i s" and st: "stack s (current s) = []" and g: "stack_guard s"
  shows "\<exists>s'. mutex_trylock m s = Some s' \<and> current s' = current s
    \<and> (if m_master (mtx s m) = None \<or> m_master (mtx s m) = Some (current s)
       then retv s' (current s) = RBool True \<and> m_master (mtx s' m) = Some (current s)
         \<and> m_deep (mtx s' m) = m_deep (mtx s m) + 1
       else s' = set_ret (RBool False) s)"
proof -
  note K = reachable_KI [OF r]
  note R = ensure_init_RI [OF RI_user [OF K st], of m]
  note P = MI_parts [OF K]
  note e = ensure_init_ok [OF P(1,2), of m]
  let ?s = "ensure_init m s"
  have dp: "m_deep (mtx ?s m) = m_deep (mtx s m)"
    using SI_free [OF P(1), of m] SI_uninit [OF P(1), of m]
    by (auto simp: ensure_init_def mutex_init_def upd_defs)
  show ?thesis
  proof (cases "m_master (mtx s m)")
    case None
    obtain s1 where s1: "lock_take m ?s = Some s1" "deeper m s1 = taken m 1 ?s"
      using lock_take_ok [OF R _ e(4)] None e(9) by auto
    have "m_deep (mtx s m) = 0" by (rule SI_free [OF P(1) None])
    then show ?thesis using g None s1 e(9,10)
      by (simp add: mutex_trylock_def assert_c_def Let_def set_ret_def taken_fields)
  next
    case (Some t)
    have i: "?s = s" using SI_uninit [OF P(1), of m] Some by (force simp: ensure_init_def)
    show ?thesis
    proof (cases "t = current s")
      case True
      then show ?thesis using g Some i
        by (simp add: mutex_trylock_def assert_c_def Let_def set_ret_def deeper_def upd_mtx_def)
    next
      case False
      then show ?thesis using g Some i
        by (simp add: mutex_trylock_def assert_c_def Let_def) (simp add: set_ret_def)
    qed
  qed
qed

theorem trylock_result_witness:
  "\<exists>s. current s = 2 \<and> m_master (mtx s (Lock 0)) = Some 1
    \<and> mutex_trylock (Lock 0) s = Some (set_ret (RBool False) s)"
proof -
  obtain s where s: "reachable no_fast 0 s" "current s = 2" "stack s 2 = []"
    "m_master (mtx s (Lock 0)) = Some 1" "stack_guard s"
    using held_state by (auto simp: stack_guard_def current_task_def)
  then show ?thesis using trylock_result [of no_fast 0 s "Lock 0"] by auto
qed

text \<open>A task that waits on a lock it holds gives up the lock entirely; when it goes on and finds
  the lock free, it owns it again as deep as before and returns the message of the signal.\<close>

theorem wait_restores_depth:
  assumes K: "KI s" and st: "stack s (current s) = FReacquire m d # ks"
    and free: "m_master (mtx s m) = None"
  shows "\<exists>s'. resume fast s = Some s' \<and> m_master (mtx s' m) = Some (current s)
    \<and> m_deep (mtx s' m) = d \<and> sint d > 0 \<and> current s' = current s
    \<and> retv s' (current s) = RMsg (t_message (task s (current s)))"
proof -
  note pop = pop_frame_ok [OF K st]
  let ?s = "s\<lparr>stack := (stack s)(current s := ks)\<rparr>"
  have "m_deep (mtx s m) = 0" by (rule SI_free [OF MI_parts(1) [OF K] free])
  then have "mutex_reacquire m d ?s = Some (set_ret (RMsg (t_message (task s (current s)))) (taken m d ?s))"
    using free
    by (simp add: mutex_reacquire_def taken_def Let_def assert_c_def upd_defs current_task_def)
  then show ?thesis using st pop(12) [of m d]
    by (simp add: resume_def taken_fields set_ret_def)
qed

theorem wait_restores_depth_witness:
  "\<exists>s s'. stack s 2 = [FReacquire (Lock 5) 3] \<and> resume no_fast s = Some s'
    \<and> m_master (mtx s' (Lock 5)) = Some 2 \<and> m_deep (mtx s' (Lock 5)) = 3"
proof -
  obtain s where s: "reachable no_fast 0 s" "current s = 2" "stack s 2 = []" "idle s = 0"
    "m_master (mtx s (Lock 5)) = None" using held_state by blast
  let ?e = "ensure_init (Lock 5) s"
  let ?s = "push_frame (FReacquire (Lock 5) 3) ?e"
  note P = MI_parts [OF reachable_KI [OF s(1)]]
  note e = ensure_init_ok [OF P(1,2), of "Lock 5"]
  have R: "RI ?e" using ensure_init_RI [OF RI_user [OF reachable_KI [OF s(1)]]] s by simp
  note Q = MI_parts [OF RI_KI [OF R]]
  have "SI {} ?s" "prio_ok {} ?s"
    using push_frame_ok [OF Q(1,2), of "FReacquire (Lock 5) 3"] e s by simp_all
  moreover have "sched_ok ?s" "cur_inv ?s" using Q(3,5) R
    by (auto simp: sched_ok_def cur_inv_def cur_free_def push_frame_def RI_def)
  ultimately have "KI ?s" by (simp add: MI_def)
  moreover have "stack ?s (current ?s) = FReacquire (Lock 5) 3 # []" "current ?s = 2"
    "m_master (mtx ?s (Lock 5)) = None"
    using s e by (simp_all add: push_frame_def)
  ultimately show ?thesis using wait_restores_depth [of ?s "Lock 5" 3 "[]" no_fast] by auto
qed

text \<open>The priority update along the chain of blocked tasks comes to an end whenever the chain
  does, changes nothing but priorities, and restores the priority rule.\<close>

theorem recalculate_restores:
  assumes "chain_ok s t" "links_ok s" "prio_ok {t} s"
  shows "\<exists>s'. task_recalculate_prio t s = Some s' \<and> prio_frame s s' \<and> prio_ok {} s'
    \<and> (sched_ok s \<longrightarrow> sched_ok s')"
  by (rule recalculate_ok [OF assms])

theorem recalculate_restores_witness:
  "\<exists>s'. task_recalculate_prio 2 (upd_task 2 (\<lambda>r. r\<lparr>t_base := 4\<rparr>) (kernel_init 0)) = Some s' \<and> prio_ok {} s'"
proof -
  let ?k = "kernel_init 0"
  let ?s = "upd_task 2 (\<lambda>r. r\<lparr>t_base := 4\<rparr>) ?k"
  note P = MI_parts [OF kernel_init_KI [of 0]]
  have f: "lists ?s = lists ?k" "mtx ?s = mtx ?k" "current ?s = current ?k"
    "t_lock (task ?s u) = t_lock (task ?k u)" "t_wait (task ?s u) = t_wait (task ?k u)"
    "t_prio (task ?s u) = t_prio (task ?k u)"
    "t_base (task ?s u) = (if u = 2 then 4 else t_base (task ?k u))" for u
    by (auto simp: upd_task_def)
  have "t_lock (task ?s 2) = None" unfolding f by (simp add: kernel_init_def new_task_def)
  then have "chain_ok ?s 2" by (rule chain_ok_free)
  moreover have "links_ok ?s" using P(6) unfolding links_ok_def f .
  moreover have "prio_of_locks ?s u = prio_of_locks ?k u" if "u \<noteq> 2" for u
    using that by (intro prio_of_locks_cong) (simp_all add: f)
  then have "prio_ok {2} ?s" using P(2) by (simp add: prio_ok_def f)
  ultimately show ?thesis using recalculate_restores by blast
qed

section \<open>Where the code falls short\<close>

text \<open>The states after a list of calls of the running task.\<close>

fun run_calls :: "call list \<Rightarrow> kstate \<Rightarrow> kstate option" where
  "run_calls [] s = Some s"
| "run_calls (c # cs) s = do_call no_fast c s \<bind> run_calls cs"

definition one_task :: kstate where
  "one_task = task_schedule (the (task_create 1 ''low'' 1 (kernel_init 0)))"

text \<open>Priority inheritance is not transitive. Task 1 owns lock 0; task 2 owns lock 1 and is
  blocked on lock 0; task 3, of priority 3, blocks on lock 1. Task 2 inherits priority 3, but
  the lock it waits for and the owner of that lock stay at 2: \<open>mutex_lock\<close> raises the master only
  and does not follow the chain as \<open>task_recalculate_prio\<close> does.\<close>

theorem inheritance_not_transitive:
  "map_option (\<lambda>s. (t_prio (task s 3), t_prio (task s 2), t_lock (task s 2),
       m_prio (mtx s (Lock 0)), m_master (mtx s (Lock 0)), t_prio (task s 1)))
     (run_calls [CLock (Lock 0), CCreate 2 ''mid'' 2, CYield, CLock (Lock 1), CLock (Lock 0),
        CCreate 3 ''high'' 3, CYield, CLock (Lock 1)] one_task)
   = Some (3, 3, Some (Lock 0), 2, Some 1, 2)"
  by code_simp

text \<open>A task that ends while it owns two locks releases one of them only. The first release
  schedules, another task runs, and the ending task is not in any list that could bring it back:
  the second lock stays with it for ever and nobody is told that the task has finished.\<close>

theorem exit_keeps_locks:
  "map_option (\<lambda>s. (current s, linked (lists s) (TaskItem 1), stack s 1,
       m_master (mtx s (Lock 0)), m_master (mtx s (Lock 1))))
     (run_calls [CCreate 2 ''peer'' 1, CLock (Lock 0), CLock (Lock 1), CExit 7] one_task
        \<bind> resume no_fast)
   = Some (2, False, [FDelete 1 7], None, Some 1)"
  by code_simp

end
