(* ===== verification/Timer.thy ===== *)
theory Timer
  imports Kernel_Props
begin

text \<open>
  The system timer (\<open>timer/timer.c\<close>), with ticks of whole milliseconds and with user timers: the clock, the handler of its
  interrupt with what it does to the kernel, and delays. The lists of a lock that nobody has used yet are zeroed
  memory, and \<open>list_is_empty\<close> does not find them empty.
\<close>

section \<open>The clock\<close>

record user_timer_t =
  ut_lock :: mid
  ut_msec_per_tick :: u32
  ut_cur_time :: u32

record timer_t =
  tm_lock :: mid
  tm_decisec :: mid
  tm_khz :: u32
  tm_msec_per_tick :: u32
  tm_milliseconds :: u32
  tm_next_decisec :: u32
  tm_days :: u32
  tm_user_timers :: "user_timer_t list"

definition TIMER_MSEC_PER_DAY :: u32 where
  "TIMER_MSEC_PER_DAY = 24 * 60 * 60 * 1000"

text \<open>The interval is a \<open>long\<close>; the second comparison is one of \<open>unsigned long\<close>.\<close>

definition interval_greater_or_equal :: "u32 \<Rightarrow> u32 \<Rightarrow> bool" where
  "interval_greater_or_equal interval msec =
     (let interval = (if sint interval < 0 then interval + TIMER_MSEC_PER_DAY
                      else if interval \<ge> TIMER_MSEC_PER_DAY then interval - TIMER_MSEC_PER_DAY else interval)
      in sint interval \<ge> sint msec)"

definition timer_advance :: "timer_t \<Rightarrow> timer_t" where
  "timer_advance tm =
     (let tm = tm\<lparr>tm_milliseconds := tm_milliseconds tm + tm_msec_per_tick tm\<rparr>
      in if tm_milliseconds tm \<ge> TIMER_MSEC_PER_DAY
         then tm\<lparr>tm_days := tm_days tm + 1, tm_milliseconds := tm_milliseconds tm - TIMER_MSEC_PER_DAY,
                 tm_next_decisec := tm_next_decisec tm - TIMER_MSEC_PER_DAY\<rparr>
         else tm)"

definition timer_due :: "timer_t \<Rightarrow> bool" where
  "timer_due tm \<longleftrightarrow> tm_msec_per_tick tm \<le> 100 \<and> tm_milliseconds tm \<ge> tm_next_decisec tm"

section \<open>The interrupt\<close>

definition has_waiters :: "mid \<Rightarrow> kstate \<Rightarrow> bool" where
  "has_waiters m s \<longleftrightarrow> \<not> m_init (mtx s m) \<or> lst s (Waiters m) \<noteq> []"

definition has_groups :: "mid \<Rightarrow> kstate \<Rightarrow> bool" where
  "has_groups m s \<longleftrightarrow> \<not> m_init (mtx s m) \<or> lst s (Groups m) \<noteq> []"

definition timer_decisec :: "timer_t \<Rightarrow> kstate \<Rightarrow> (timer_t \<times> kstate) option" where
  "timer_decisec tm s =
     (if timer_due tm then do {
        let tm = tm\<lparr>tm_next_decisec := tm_next_decisec tm + 100\<rparr>;
        s \<leftarrow> (if has_waiters (tm_decisec tm) s \<or> has_groups (tm_decisec tm) s
              then mutex_activate (tm_decisec tm) (unat (tm_milliseconds tm)) s else Some s);
        Some (tm, s)
      } else Some (tm, s))"

text \<open>The groups that are looked at are those of \<open>decisec\<close>.\<close>

definition user_timer_update :: "timer_t \<Rightarrow> user_timer_t \<Rightarrow> kstate \<Rightarrow> (user_timer_t \<times> kstate) option" where
  "user_timer_update tm ut s =
     (let ut = ut\<lparr>ut_cur_time := ut_cur_time ut - tm_msec_per_tick tm\<rparr>
      in if sint (ut_cur_time ut) \<le> 0 \<and> (has_waiters (ut_lock ut) s \<or> has_groups (tm_decisec tm) s)
         then do {
           s \<leftarrow> mutex_activate (ut_lock ut) (unat (tm_milliseconds tm)) s;
           Some (ut\<lparr>ut_cur_time := ut_cur_time ut + ut_msec_per_tick ut\<rparr>, s)
         } else Some (ut, s))"

fun user_timers_update :: "timer_t \<Rightarrow> user_timer_t list \<Rightarrow> kstate \<Rightarrow> (user_timer_t list \<times> kstate) option" where
  "user_timers_update tm [] s = Some ([], s)"
| "user_timers_update tm (ut # uts) s = do {
     (ut, s) \<leftarrow> user_timer_update tm ut s;
     (uts, s) \<leftarrow> user_timers_update tm uts s;
     Some (ut # uts, s)
   }"

definition timer_update :: "timer_t \<Rightarrow> kstate \<Rightarrow> (timer_t \<times> kstate) option" where
  "timer_update tm s = do {
     (tm, s) \<leftarrow> timer_decisec (timer_advance tm) s;
     (uts, s) \<leftarrow> user_timers_update tm (tm_user_timers tm) s;
     Some (tm\<lparr>tm_user_timers := uts\<rparr>, s)
   }"

text \<open>The handler leaves it to the kernel to wake up those who wait on the lock of the timer.\<close>

definition timer_handler :: "timer_t \<Rightarrow> kstate \<Rightarrow> (bool \<times> timer_t \<times> kstate) option" where
  "timer_handler tm s = map_option (Pair False) (timer_update tm s)"

text \<open>The interrupt as \<open>irq_handler\<close> treats it, when the slot of the interrupt holds the timer.\<close>

definition timer_irq :: "nat \<Rightarrow> timer_t \<Rightarrow> kstate \<Rightarrow> (timer_t \<times> kstate) option" where
  "timer_irq q tm s =
     (if m_master (mtx s (tm_lock tm)) \<noteq> None then Some (tm, upd_irq q (\<lambda>r. r\<lparr>q_pending := True\<rparr>) s)
      else do {
        (done, tm, s) \<leftarrow> timer_handler tm s;
        if done then Some (tm, s) else map_option (Pair tm) (irq_signal (tm_lock tm) s)
      })"

section \<open>Calls\<close>

definition timer_init :: "timer_t \<Rightarrow> u32 \<Rightarrow> u32 \<Rightarrow> nat \<Rightarrow> nat \<Rightarrow> nat \<Rightarrow> kstate \<Rightarrow> (timer_t \<times> kstate) option" where
  "timer_init tm khz msec_per_tick irq handler self s =
     map_option (Pair (tm\<lparr>tm_msec_per_tick := msec_per_tick, tm_khz := khz, tm_user_timers := []\<rparr>))
       (mutex_attach_irq (tm_lock tm) irq handler self s)"

text \<open>What the calls read and write while they hold the lock.\<close>

definition timer_milliseconds :: "timer_t \<Rightarrow> u32" where
  "timer_milliseconds tm = tm_milliseconds tm"

definition timer_days :: "timer_t \<Rightarrow> u32 \<times> u32" where
  "timer_days tm = (ucast (ucast (tm_days tm) :: u16), tm_milliseconds tm)"

definition timer_passed :: "timer_t \<Rightarrow> u32 \<Rightarrow> u32 \<Rightarrow> bool" where
  "timer_passed tm t0 msec = interval_greater_or_equal (tm_milliseconds tm - t0) msec"

definition user_timer_init :: "user_timer_t \<Rightarrow> u32 \<Rightarrow> user_timer_t" where
  "user_timer_init ut msec_per_tick = ut\<lparr>ut_msec_per_tick := msec_per_tick, ut_cur_time := msec_per_tick\<rparr>"

definition user_timer_add :: "timer_t \<Rightarrow> user_timer_t \<Rightarrow> timer_t" where
  "user_timer_add tm ut = tm\<lparr>tm_user_timers := tm_user_timers tm @ [ut]\<rparr>"

text \<open>The clock through one call of the handler, without the user timers.\<close>

definition timer_tick :: "timer_t \<Rightarrow> timer_t" where
  "timer_tick tm =
     (let tm = timer_advance tm
      in if timer_due tm then tm\<lparr>tm_next_decisec := tm_next_decisec tm + 100\<rparr> else tm)"

text \<open>
  \<open>timer_delay\<close>: the lock is held but while the task waits; each element of \<open>wakes\<close> is a return of \<open>mutex_wait\<close>, with the
  number of ticks that have been handled before it. \<open>None\<close>: the task still waits.
\<close>

fun delay_loop :: "u32 \<Rightarrow> u32 \<Rightarrow> nat list \<Rightarrow> timer_t \<Rightarrow> (timer_t \<times> nat list) option" where
  "delay_loop t0 msec wakes tm =
     (if interval_greater_or_equal (tm_milliseconds tm - t0) msec then Some (tm, wakes)
      else case wakes of [] \<Rightarrow> None | n # ns \<Rightarrow> delay_loop t0 msec ns ((timer_tick ^^ n) tm))"

declare delay_loop.simps [simp del]

definition timer_delay :: "u32 \<Rightarrow> nat list \<Rightarrow> timer_t \<Rightarrow> (timer_t \<times> nat list) option" where
  "timer_delay msec wakes tm = delay_loop (tm_milliseconds tm) msec wakes tm"

end
