(* ===== verification/Timer_Props.thy ===== *)
theory Timer_Props
  imports Timer
begin

text \<open>
  The timer in the kernel: the clock counts the ticks that are handled, in every run of the kernel with the timer; its
  interrupt wakes up the tasks that wait; delays are neither too short nor, by more than one wake-up, too long.
\<close>

section \<open>The clock counts\<close>

lemma unat_day [simp]: "unat TIMER_MSEC_PER_DAY = 86400000"
  by (simp add: TIMER_MSEC_PER_DAY_def)

lemma unat_add_u32: "unat (x :: u32) + unat y < 2 ^ 32 \<Longrightarrow> unat (x + y) = unat x + unat y"
  by (simp add: unat_word_ariths)

definition same_timer :: "timer_t \<Rightarrow> timer_t \<Rightarrow> bool" where
  "same_timer tm tm' \<longleftrightarrow> tm_msec_per_tick tm' = tm_msec_per_tick tm \<and> tm_lock tm' = tm_lock tm \<and> tm_decisec tm' = tm_decisec tm
     \<and> tm_user_timers tm' = tm_user_timers tm"

lemma same_timer_tick: "same_timer tm (timer_tick tm)"
  by (simp add: same_timer_def timer_tick_def timer_advance_def Let_def)

lemma same_timer_trans: "same_timer a b \<Longrightarrow> same_timer b c \<Longrightarrow> same_timer a c"
  by (simp add: same_timer_def)

lemma same_timer_ticks: "same_timer tm ((timer_tick ^^ n) tm)"
  by (induction n) (auto intro: same_timer_trans same_timer_tick simp: same_timer_def [of tm tm])

text \<open>One tick, in numbers.\<close>

lemma timer_advance_nat:
  assumes "unat (tm_milliseconds tm) < 86400000" "unat (tm_msec_per_tick tm) \<le> 100"
  defines "M \<equiv> unat (tm_milliseconds tm) + unat (tm_msec_per_tick tm)"
  shows "unat (tm_milliseconds (timer_advance tm)) = (if 86400000 \<le> M then M - 86400000 else M)"
    "tm_days (timer_advance tm) = (if 86400000 \<le> M then tm_days tm + 1 else tm_days tm)"
    "tm_next_decisec (timer_advance tm) = (if 86400000 \<le> M then tm_next_decisec tm - TIMER_MSEC_PER_DAY else tm_next_decisec tm)"
    "tm_msec_per_tick (timer_advance tm) = tm_msec_per_tick tm"
proof -
  have u: "unat (tm_milliseconds tm + tm_msec_per_tick tm) = M"
    using assms(1,2) unfolding M_def by (intro unat_add_u32) simp
  then have c: "TIMER_MSEC_PER_DAY \<le> tm_milliseconds tm + tm_msec_per_tick tm \<longleftrightarrow> 86400000 \<le> M"
    by (simp add: word_le_nat_alt)
  show "unat (tm_milliseconds (timer_advance tm)) = (if 86400000 \<le> M then M - 86400000 else M)"
    using c u by (auto simp: timer_advance_def Let_def unat_sub)
  show "tm_days (timer_advance tm) = (if 86400000 \<le> M then tm_days tm + 1 else tm_days tm)"
    "tm_next_decisec (timer_advance tm) = (if 86400000 \<le> M then tm_next_decisec tm - TIMER_MSEC_PER_DAY else tm_next_decisec tm)"
    "tm_msec_per_tick (timer_advance tm) = tm_msec_per_tick tm"
    using c by (auto simp: timer_advance_def Let_def)
qed

lemma timer_tick_fields:
  "tm_milliseconds (timer_tick tm) = tm_milliseconds (timer_advance tm)" "tm_days (timer_tick tm) = tm_days (timer_advance tm)"
  "tm_next_decisec (timer_tick tm)
     = (if timer_due (timer_advance tm) then tm_next_decisec (timer_advance tm) + 100 else tm_next_decisec (timer_advance tm))"
  by (simp_all add: timer_tick_def Let_def)

lemma mod_div_add:
  fixes x t D :: nat
  assumes "0 < D" "t \<le> D"
  shows "(x + t) mod D = (if D \<le> x mod D + t then x mod D + t - D else x mod D + t)"
    "(x + t) div D = (if D \<le> x mod D + t then x div D + 1 else x div D)"
proof -
  have r: "x mod D < D" using assms(1) by simp
  have "(x + t) mod D = (x mod D + t) mod D" by (simp add: mod_add_left_eq)
  then show "(x + t) mod D = (if D \<le> x mod D + t then x mod D + t - D else x mod D + t)"
    using r assms(2) by (simp add: le_mod_geq)
  have "x + t = (x mod D + t) + x div D * D" by simp
  then have "(x + t) div D = x div D + (x mod D + t) div D" using assms(1) by (metis div_mult_self1 less_not_refl2)
  moreover have "(x mod D + t) div D = (if D \<le> x mod D + t then 1 else 0)" 
  proof (cases "D \<le> x mod D + t")
    case True
    then have "x mod D + t - D < D" using r assms(2) by linarith
    then show ?thesis using True assms(1) by (simp add: le_div_geq)
  qed simp
  ultimately show "(x + t) div D = (if D \<le> x mod D + t then x div D + 1 else x div D)" by simp
qed

text \<open>After \<open>n\<close> ticks from the start of the system.\<close>

definition fresh_timer :: "timer_t \<Rightarrow> bool" where
  "fresh_timer tm \<longleftrightarrow> tm_milliseconds tm = 0 \<and> tm_next_decisec tm = 0 \<and> tm_days tm = 0"

definition elapsed :: "timer_t \<Rightarrow> nat \<Rightarrow> nat" where
  "elapsed tm n = n * unat (tm_msec_per_tick tm)"

lemma ticks_clock:
  assumes "unat (tm_msec_per_tick tm) \<le> 100" "unat (tm_milliseconds tm) < 86400000"
  shows "unat (tm_milliseconds ((timer_tick ^^ n) tm)) = (unat (tm_milliseconds tm) + elapsed tm n) mod 86400000
    \<and> tm_days ((timer_tick ^^ n) tm) = tm_days tm + of_nat ((unat (tm_milliseconds tm) + elapsed tm n) div 86400000)"
proof (induction n)
  case 0
  then show ?case using assms(2) by (simp add: elapsed_def)
next
  case (Suc n)
  let ?tm = "(timer_tick ^^ n) tm" and ?x = "unat (tm_milliseconds tm) + elapsed tm n" and ?t = "unat (tm_msec_per_tick tm)"
  have t: "tm_msec_per_tick ?tm = tm_msec_per_tick tm" using same_timer_ticks [of tm n] by (simp add: same_timer_def)
  have M: "unat (tm_milliseconds ?tm) = ?x mod 86400000" using Suc by simp
  then have "unat (tm_milliseconds ?tm) < 86400000" "unat (tm_msec_per_tick ?tm) \<le> 100" using assms(1) t by simp_all
  note a = timer_advance_nat [OF this]
  have e: "unat (tm_milliseconds tm) + elapsed tm (Suc n) = ?x + ?t" by (simp add: elapsed_def)
  note m = mod_div_add [of 86400000 ?t ?x]
  have "(timer_tick ^^ Suc n) tm = timer_tick ?tm" by simp
  then show ?case using a(1,2) m assms(1) Suc unfolding e by (simp add: timer_tick_fields t M)
qed



section \<open>Ticks of 100 ms\<close>

lemma coarse_ticks:
  assumes "tm_msec_per_tick tm = 100" "fresh_timer tm" "n < 864000"
  shows "unat (tm_milliseconds ((timer_tick ^^ n) tm)) = 100 * n \<and> unat (tm_next_decisec ((timer_tick ^^ n) tm)) = 100 * n"
  using assms(3)
proof (induction n)
  case 0
  then show ?case using assms(2) by (simp add: fresh_timer_def)
next
  case (Suc n)
  let ?tm = "(timer_tick ^^ n) tm"
  have t: "tm_msec_per_tick ?tm = 100" using same_timer_ticks [of tm n] assms(1) by (simp add: same_timer_def)
  have IH: "unat (tm_milliseconds ?tm) = 100 * n" "unat (tm_next_decisec ?tm) = 100 * n" using Suc by simp_all
  have "unat (tm_milliseconds ?tm) < 86400000" "unat (tm_msec_per_tick ?tm) \<le> 100" using IH Suc(2) t by simp_all
  note a = timer_advance_nat [OF this]
  have ms: "unat (tm_milliseconds (timer_advance ?tm)) = 100 * Suc n" and nx: "tm_next_decisec (timer_advance ?tm) = tm_next_decisec ?tm"
    using a(1,3) IH t Suc(2) by simp_all
  have "timer_due (timer_advance ?tm)" using a(4) t ms nx IH by (simp add: timer_due_def word_le_nat_alt)
  moreover have "unat (tm_next_decisec ?tm + 100) = 100 * Suc n" using IH Suc(2) by (subst unat_add_u32) simp_all
  ultimately show ?case using ms nx by (simp add: timer_tick_fields)
qed

lemma coarse_second_day:
  assumes "tm_msec_per_tick tm = 100" "fresh_timer tm" "k < 864000"
  shows "unat (tm_milliseconds ((timer_tick ^^ (864000 + k)) tm)) = 100 * k \<and> tm_next_decisec ((timer_tick ^^ (864000 + k)) tm) = - 100"
  using assms(3)
proof (induction k)
  case 0
  let ?tm = "(timer_tick ^^ 863999) tm"
  have t: "tm_msec_per_tick ?tm = 100" using same_timer_ticks [of tm 863999] assms(1) by (simp add: same_timer_def)
  have IH: "unat (tm_milliseconds ?tm) = 86399900" "unat (tm_next_decisec ?tm) = 86399900"
    using coarse_ticks [OF assms(1,2), of 863999] by simp_all
  have "unat (tm_milliseconds ?tm) < 86400000" "unat (tm_msec_per_tick ?tm) \<le> 100" using IH t by simp_all
  note a = timer_advance_nat [OF this]
  have "tm_next_decisec ?tm = 86399900" using IH by (simp add: word_unat_eq_iff)
  then have nx: "tm_next_decisec (timer_advance ?tm) = - 100" using a(3) IH t by (simp add: TIMER_MSEC_PER_DAY_def)
  have ms: "unat (tm_milliseconds (timer_advance ?tm)) = 0" using a(1) IH t by simp
  have "\<not> timer_due (timer_advance ?tm)" using nx ms by (simp add: timer_due_def word_le_nat_alt)
  moreover have "(timer_tick ^^ 864000) tm = timer_tick ?tm" using funpow.simps(2) [of 863999 timer_tick] by simp
  ultimately show ?case using ms nx by (simp add: timer_tick_fields)
next
  case (Suc k)
  let ?tm = "(timer_tick ^^ (864000 + k)) tm"
  have t: "tm_msec_per_tick ?tm = 100" using same_timer_ticks [of tm "864000 + k"] assms(1) by (simp add: same_timer_def)
  have IH: "unat (tm_milliseconds ?tm) = 100 * k" "tm_next_decisec ?tm = - 100" using Suc by simp_all
  have "unat (tm_milliseconds ?tm) < 86400000" "unat (tm_msec_per_tick ?tm) \<le> 100" using IH Suc(2) t by simp_all
  note a = timer_advance_nat [OF this]
  have ms: "unat (tm_milliseconds (timer_advance ?tm)) = 100 * Suc k" and nx: "tm_next_decisec (timer_advance ?tm) = - 100"
    using a(1,3) IH t Suc(2) by simp_all
  have "\<not> timer_due (timer_advance ?tm)" using nx ms Suc(2) by (simp add: timer_due_def word_le_nat_alt)
  moreover have "(timer_tick ^^ (864000 + Suc k)) tm = timer_tick ?tm" by (simp only: add_Suc_right funpow.simps o_apply)
  ultimately show ?case using ms nx by (simp only: timer_tick_fields if_False simp_thms)
qed

section \<open>The timer in the kernel\<close>

text \<open>The activations of the handler, and the timer as one of the fast handlers that the kernel is given.\<close>

definition timer_acts :: "timer_t \<Rightarrow> (mid \<times> msg) list" where
  "timer_acts tm = (let tm = timer_advance tm in if timer_due tm then [(tm_decisec tm, unat (tm_milliseconds tm))] else [])"

definition timer_fast :: "fast_handler \<Rightarrow> nat \<Rightarrow> timer_t \<Rightarrow> fast_handler" where
  "timer_fast other h tm = (\<lambda>f a. if f = h then (False, timer_acts tm) else other f a)"

lemma activate_nobody: "\<not> has_waiters m s \<Longrightarrow> \<not> has_groups m s \<Longrightarrow> mutex_activate m msg s = Some s"
  by (simp add: has_waiters_def has_groups_def mutex_activate_def ensure_init_def activate_waiters.simps)

lemma advance_same: "same_timer tm (timer_advance tm)"
  by (simp add: same_timer_def timer_advance_def Let_def)

lemma timer_update_acts:
  assumes "tm_user_timers tm = []"
  shows "timer_update tm s = map_option (Pair (timer_tick tm)) (activate_all (timer_acts tm) s)"
proof -
  have u: "tm_user_timers (timer_advance tm) = []" using assms advance_same [of tm] by (simp add: same_timer_def)
  have "timer_decisec (timer_advance tm) s = map_option (Pair (timer_tick tm)) (activate_all (timer_acts tm) s)"
    using activate_nobody [of "tm_decisec (timer_advance tm)" s "unat (tm_milliseconds (timer_advance tm))"]
    by (auto simp: timer_decisec_def timer_tick_def timer_acts_def Let_def split: option.splits bind_splits)
  moreover have "tm_user_timers (timer_tick tm) = []" using assms same_timer_tick [of tm] by (simp add: same_timer_def)
  ultimately show ?thesis by (cases "activate_all (timer_acts tm) s") (simp_all add: timer_update_def)
qed

lemma timer_irq_is_irq_handler:
  assumes "tm_user_timers tm = []" "q_lock (irqv s q) = Some (tm_lock tm)" "q_handler (irqv s q) = h" "h \<noteq> 0"
  shows "timer_irq q tm s = map_option (Pair (if m_master (mtx s (tm_lock tm)) = None then timer_tick tm else tm))
    (irq_handler (timer_fast other h tm) q s)"
proof -
  have "tm_lock (timer_tick tm) = tm_lock tm" using same_timer_tick [of tm] by (simp add: same_timer_def)
  then show ?thesis
    using assms by (cases "activate_all (timer_acts tm) s")
      (auto simp: timer_irq_def timer_handler_def timer_update_acts irq_handler_def call_handler_def timer_fast_def)
qed

text \<open>The handler never fails, with user timers too.\<close>

lemma activate_KI:
  assumes "KI s"
  shows "\<exists>s'. mutex_activate m msg s = Some s' \<and> KI s'"
proof -
  note P = MI_parts [OF assms]
  obtain s' where "mutex_activate m msg s = Some s'" "SI {} s'" "prio_ok {} s'" "kframe s s'"
    using mutex_activate_ok [OF P(1,2)] by blast
  then show ?thesis using kframe_parts(1,2) [of s s'] P(3,4) by (simp add: MI_def)
qed

lemma user_timer_update_ok: "KI s \<Longrightarrow> \<exists>ut' s'. user_timer_update tm ut s = Some (ut', s') \<and> KI s'"
  using activate_KI [of s "ut_lock ut" "unat (tm_milliseconds tm)"] by (auto simp: user_timer_update_def Let_def)

lemma user_timers_update_ok: "KI s \<Longrightarrow> \<exists>uts' s'. user_timers_update tm uts s = Some (uts', s') \<and> KI s'"
proof (induction uts arbitrary: s)
  case (Cons ut uts)
  obtain ut' s1 where u: "user_timer_update tm ut s = Some (ut', s1)" "KI s1" using user_timer_update_ok [OF Cons.prems] by blast
  then show ?case using Cons.IH [OF u(2)] by auto
qed simp

lemma timer_handler_ok: "KI s \<Longrightarrow> \<exists>tm' s'. timer_handler tm s = Some (False, tm', s') \<and> KI s'"
proof -
  assume K: "KI s"
  have "\<exists>tm' s'. timer_decisec (timer_advance tm) s = Some (tm', s') \<and> KI s'"
    using K activate_KI [OF K, of "tm_decisec (timer_advance tm)" "unat (tm_milliseconds (timer_advance tm))"]
    by (auto simp: timer_decisec_def Let_def)
  then obtain tm1 s1 where d: "timer_decisec (timer_advance tm) s = Some (tm1, s1)" "KI s1" by blast
  then show ?thesis using user_timers_update_ok [OF d(2), of tm1 "tm_user_timers tm1"]
    by (auto simp: timer_handler_def timer_update_def)
qed

text \<open>Runs of the kernel with the timer, which alone uses its interrupt. The handler runs when the interrupt finds the lock free, or
  later, when the lock is released or waited on. \<open>n\<close> counts the ticks that were handled.\<close>

fun uses_irq :: "nat \<Rightarrow> event \<Rightarrow> kstate \<Rightarrow> bool" where
  "uses_irq q (Call (CLockIrq m q' f a)) s = (q' = q)"
| "uses_irq q (Call (CAttachIrq m q' f a)) s = (q' = q)"
| "uses_irq q Resume s = (case stack s (current s) of FLockIrq m q' f a # _ \<Rightarrow> q' = q | _ \<Rightarrow> False)"
| "uses_irq q (Irq q') s = (q' = q)"
| "uses_irq q e s = False"

definition caught_up :: "nat \<Rightarrow> kstate \<Rightarrow> kstate \<Rightarrow> nat" where
  "caught_up q s s' = (if q_pending (irqv s q) \<and> \<not> q_pending (irqv s' q) then 1 else 0)"

inductive timer_run :: "fast_handler \<Rightarrow> tid \<Rightarrow> nat \<Rightarrow> nat \<Rightarrow> timer_t \<Rightarrow> nat \<Rightarrow> timer_t \<Rightarrow> kstate \<Rightarrow> bool" for other i q h tm0 where
  start: "reachable other i s \<Longrightarrow> timer_init tm0 khz (tm_msec_per_tick tm0) q h a s = Some (tm, s')
    \<Longrightarrow> timer_run other i q h tm0 0 tm s'"
| call: "timer_run other i q h tm0 n tm s \<Longrightarrow> \<not> uses_irq q e s \<Longrightarrow> (walks_chain e \<longrightarrow> deadlock_free s) \<Longrightarrow> event_ok e s
    \<Longrightarrow> kstep (timer_fast other h tm) e s = Some s'
    \<Longrightarrow> timer_run other i q h tm0 (n + caught_up q s s') ((timer_tick ^^ caught_up q s s') tm) s'"
| tick: "timer_run other i q h tm0 n tm s \<Longrightarrow> event_ok (Irq q) s \<Longrightarrow> q_lock (irqv s q) = Some (tm_lock tm)
    \<Longrightarrow> q_handler (irqv s q) = h \<Longrightarrow> timer_irq q tm s = Some (tm', s')
    \<Longrightarrow> timer_run other i q h tm0 (if m_master (mtx s (tm_lock tm)) = None then Suc n else n) tm' s'"

lemma timer_run_inv:
  assumes "timer_run other i q h tm0 n tm s" "h \<noteq> 0"
  shows "KI s \<and> (\<exists>khz. tm = (timer_tick ^^ n) (tm0\<lparr>tm_khz := khz, tm_user_timers := []\<rparr>))"
  using assms(1)
proof induction
  case (start s khz a tm s')
  have a: "mutex_attach_irq (tm_lock tm0) q h a s = Some s'" using start(2) by (auto simp: timer_init_def)
  then have "q_lock (irqv s q) = None"
    by (auto simp: mutex_attach_irq_def assert_c_def Let_def ensure_init_def mutex_init_def upd_defs split: if_splits)
  then have "KI s'" using a mutex_attach_irq_ok [OF reachable_KI [OF start(1)], of q "tm_lock tm0" h a] by simp
  then show ?case using start(2) by (auto simp: timer_init_def intro: exI [of _ khz])
next
  case (call n tm s e s')
  have "KI s'" using kstep_ok [of s e "timer_fast other h tm"] call by auto
  moreover have "(timer_tick ^^ caught_up q s s') ((timer_tick ^^ n) t0) = (timer_tick ^^ (n + caught_up q s s')) t0" for t0
    by (metis add.commute funpow_add o_apply)
  ultimately show ?case using call by auto
next
  case (tick n tm s tm' s')
  then obtain khz where K: "KI s" and tm: "tm = (timer_tick ^^ n) (tm0\<lparr>tm_khz := khz, tm_user_timers := []\<rparr>)" by blast
  have u: "tm_user_timers tm = []" unfolding tm using same_timer_ticks [of "tm0\<lparr>tm_khz := khz, tm_user_timers := []\<rparr>" n] by (simp add: same_timer_def)
  note irq = timer_irq_is_irq_handler [OF u tick(3,4) assms(2), of other]
  obtain s1 where "irq_handler (timer_fast other h tm) q s = Some s1" "KI s1"
    using irq_handler_ok [OF K, of q] tick(3) by blast
  then have "KI s'" "tm' = (if m_master (mtx s (tm_lock tm)) = None then timer_tick tm else tm)" using tick(5) irq by simp_all
  then show ?case using tm by (cases "m_master (mtx s (tm_lock tm)) = None") auto
qed

section \<open>Waking up\<close>

lemma activate_other:
  assumes "SI X s" "prio_ok Y s" "t_wait (task s t) = None" "TaskItem t \<in> set (lst s TaskActive)" "mutex_activate m msg s = Some s'"
  shows "task s' t = task s t" "TaskItem t \<in> set (lst s' TaskActive)"
proof -
  note e = ensure_init_ok [OF assms(1,2), of m]
  obtain s1 where s1: "activate_waiters m msg (ensure_init m s) = Some s1"
    and g: "activate_groups m msg (lst s1 (Groups m)) s1 = Some s'"
    using assms(5) by (auto simp: mutex_activate_def bind_eq_Some_conv)
  have "TaskItem t \<notin> set (lst s (Waiters m))" using SI_waiter [OF assms(1)] assms(3) by simp
  then have "task s1 t = task s t" using activate_waiters_effect [OF e(1,2) s1] by (simp add: e)
  then show "task s' t = task s t" using activate_groups_task [OF g] by simp
  show "TaskItem t \<in> set (lst s' TaskActive)"
    using mutex_activate_ok [OF assms(1,2), of m msg] assms(4,5) by (auto simp: kframe_def)
qed

lemma activate_still_waits:
  assumes "SI X s" "prio_ok Y s" "t_wait (task s t) = Some m'" "m' \<noteq> m" "mutex_activate m msg s = Some s'"
  shows "t_wait (task s' t) = Some m'"
proof -
  note e = ensure_init_ok [OF assms(1,2), of m]
  obtain s1 where s1: "activate_waiters m msg (ensure_init m s) = Some s1"
    and g: "activate_groups m msg (lst s1 (Groups m)) s1 = Some s'"
    using assms(5) by (auto simp: mutex_activate_def bind_eq_Some_conv)
  have "TaskItem t \<notin> set (lst s (Waiters m))" using SI_waiter [OF assms(1)] assms(3,4) by simp
  then have "task s1 t = task s t" using activate_waiters_effect [OF e(1,2) s1] by (simp add: e)
  then show ?thesis using activate_groups_task [OF g] assms(3) by simp
qed

text \<open>A task that is ready, with the message it was woken up with.\<close>

definition woken :: "tid \<Rightarrow> msg \<Rightarrow> kstate \<Rightarrow> bool" where
  "woken t msg s \<longleftrightarrow> t_wait (task s t) = None \<and> t_message (task s t) = msg \<and> TaskItem t \<in> set (lst s TaskActive)"

lemma irq_signal_wakes:
  assumes "KI s" "t_wait (task s t) = Some m \<and> msg = 0 \<or> woken t msg s" "irq_signal m s = Some s'"
  shows "woken t msg s'"
proof -
  note P = MI_parts [OF assms(1)]
  obtain s1 where s1: "mutex_activate m 0 s = Some s1" and s': "s' = schedule_if_needed s1"
    using assms(3) by (auto simp: irq_signal_def bind_eq_Some_conv)
  have "woken t msg s1"
    using mutex_activate_wakes [OF P(1,2) _ s1, of t] activate_other [OF P(1,2) _ _ s1, of t] assms(2)
    by (auto simp: woken_def)
  then show ?thesis by (simp add: woken_def s' schedule_fields)
qed

lemma timer_handler_wakes:
  assumes "KI s" "t_wait (task s t) = Some m" "timer_due (timer_advance tm)" "m = tm_decisec tm"
    "activate_all (timer_acts tm) s = Some s'"
  shows "KI s'" "woken t (unat (tm_milliseconds (timer_advance tm))) s'"
proof -
  note P = MI_parts [OF assms(1)]
  have d: "tm_decisec (timer_advance tm) = tm_decisec tm" using advance_same [of tm] by (simp add: same_timer_def)
  have a: "mutex_activate m (unat (tm_milliseconds (timer_advance tm))) s = Some s'"
    using assms(3-5) d by (auto simp: timer_acts_def Let_def bind_eq_Some_conv)
  show "woken t (unat (tm_milliseconds (timer_advance tm))) s'"
    using mutex_activate_wakes [OF P(1,2) assms(2) a] by (simp add: woken_def)
  show "KI s'" using a activate_KI [OF assms(1), of m "unat (tm_milliseconds (timer_advance tm))"] by simp
qed

section \<open>Delays\<close>

lemma small_sint: "unat (x :: u32) < 2 ^ 31 \<Longrightarrow> sint x \<le> int e \<longleftrightarrow> unat x \<le> e"
proof -
  assume x: "unat x < 2 ^ 31"
  define n where "n = unat x"
  then have "x = of_nat n" by simp
  then have "sint x = int n" using x unfolding n_def [symmetric]
    by (simp only: signed_of_nat) (simp add: signed_take_bit_int_eq_self)
  then show ?thesis by (simp add: n_def [symmetric])
qed

lemma interval_elapsed:
  assumes "unat t0 < 86400000" "unat ms = (unat t0 + e) mod 86400000"
  shows "interval_greater_or_equal (ms - t0) msec \<longleftrightarrow> sint msec \<le> int (e mod 86400000)"
proof -
  define d where "d = e mod 86400000"
  have d: "d < 86400000" by (simp add: d_def)
  have sd: "sint (of_nat d :: u32) = int d" using d by (simp add: signed_of_nat signed_take_bit_int_eq_self)
  have ms: "unat ms = (unat t0 + d) mod 86400000" using assms(2) by (simp add: d_def mod_add_right_eq)
  show ?thesis
  proof (cases "unat t0 + d < 86400000")
    case True
    then have "unat ms = unat t0 + d" using ms by simp
    then have "(of_nat (unat ms) :: u32) = of_nat (unat t0 + d)" by (rule arg_cong)
    then have "ms - t0 = of_nat d" by simp
    moreover have "\<not> TIMER_MSEC_PER_DAY \<le> (of_nat d :: u32)" using d by (simp add: word_le_nat_alt unat_of_nat take_bit_nat_eq_self)
    ultimately show ?thesis using sd by (simp add: interval_greater_or_equal_def Let_def d_def)
  next
    case False
    then have "unat ms + 86400000 = unat t0 + d" using ms d assms(1) by (simp add: le_mod_geq)
    then have "(of_nat (unat ms + unat TIMER_MSEC_PER_DAY) :: u32) = of_nat (unat t0 + d)" by simp
    then have "ms + TIMER_MSEC_PER_DAY = t0 + of_nat d" by (simp del: unat_day)
    then have e: "ms - t0 + TIMER_MSEC_PER_DAY = of_nat d" by (simp add: algebra_simps)
    then have "ms - t0 = of_nat d - TIMER_MSEC_PER_DAY" by (simp add: algebra_simps)
    also have "\<dots> = of_int (int d - 86400000)" by (simp add: TIMER_MSEC_PER_DAY_def)
    finally have eq: "ms - t0 = of_int (int d - 86400000)" .
    have "sint (ms - t0) = int d - 86400000" unfolding eq
      by (subst signed_of_int) (use d in \<open>simp add: signed_take_bit_int_eq_self\<close>)
    then have "sint (ms - t0) < 0" using d by simp
    then show ?thesis using e sd by (simp add: interval_greater_or_equal_def Let_def d_def)
  qed
qed

lemma delay_none:
  assumes "unat (tm_msec_per_tick tm) \<le> 100" "unat (tm_milliseconds tm) < 86400000" "86400000 \<le> sint msec"
  shows "delay_loop (tm_milliseconds tm) msec wakes ((timer_tick ^^ c) tm) = None"
proof (induction wakes arbitrary: c)
  case Nil
  then show ?case using interval_elapsed [OF assms(2), of _ "elapsed tm c" msec] ticks_clock [OF assms(1,2), of c] assms(3)
    by (subst delay_loop.simps) simp
next
  case (Cons n ns)
  have "(timer_tick ^^ n) ((timer_tick ^^ c) tm) = (timer_tick ^^ (n + c)) tm" by (simp add: funpow_add)
  then show ?case using interval_elapsed [OF assms(2), of _ "elapsed tm c" msec] ticks_clock [OF assms(1,2), of c] assms(3) Cons [of "n + c"]
    by (subst delay_loop.simps) simp
qed

lemma delay_some:
  assumes "unat (tm_msec_per_tick tm) \<le> 100" "unat (tm_milliseconds tm) < 86400000" "unat msec < 86400000"
    and "\<forall>n \<in> set wakes. elapsed tm n + unat msec \<le> 86400000" "elapsed tm c < 86400000"
    and "k \<le> length wakes" "unat msec \<le> elapsed tm (c + sum_list (take k wakes))"
    "\<forall>j < k. elapsed tm (c + sum_list (take j wakes)) < unat msec"
  shows "delay_loop (tm_milliseconds tm) msec wakes ((timer_tick ^^ c) tm)
    = Some ((timer_tick ^^ (c + sum_list (take k wakes))) tm, drop k wakes)"
  using assms(4-8)
proof (induction wakes arbitrary: c k)
  case Nil
  have "sint msec \<le> int e \<longleftrightarrow> unat msec \<le> e" for e using assms(3) by (intro small_sint) simp
  then show ?case using interval_elapsed [OF assms(2), of _ "elapsed tm c" msec] ticks_clock [OF assms(1,2), of c] Nil
    by (subst delay_loop.simps) simp
next
  case (Cons n ns)
  have s: "sint msec \<le> int e \<longleftrightarrow> unat msec \<le> e" for e using assms(3) by (intro small_sint) simp
  have i: "interval_greater_or_equal (tm_milliseconds ((timer_tick ^^ c) tm) - tm_milliseconds tm) msec \<longleftrightarrow> unat msec \<le> elapsed tm c"
    using interval_elapsed [OF assms(2), of _ "elapsed tm c" msec] ticks_clock [OF assms(1,2), of c] s Cons.prems(2) by simp
  show ?case
  proof (cases k)
    case 0
    then show ?thesis using i Cons.prems(4) by (subst delay_loop.simps) simp
  next
    case (Suc k')
    then have lt: "elapsed tm c < unat msec" using Cons.prems(5) by force
    have f: "(timer_tick ^^ n) ((timer_tick ^^ c) tm) = (timer_tick ^^ (c + n)) tm" by (metis add.commute funpow_add o_apply)
    have "elapsed tm (c + n) = elapsed tm c + elapsed tm n" by (simp add: elapsed_def add_mult_distrib)
    then have "elapsed tm (c + n) < 86400000" using lt Cons.prems(1) by force
    moreover have "\<forall>j < k'. elapsed tm (c + n + sum_list (take j ns)) < unat msec"
    proof (intro allI impI)
      fix j assume "j < k'"
      then show "elapsed tm (c + n + sum_list (take j ns)) < unat msec"
        using Cons.prems(5) [rule_format, of "Suc j"] Suc by (simp add: add.assoc)
    qed
    ultimately have "delay_loop (tm_milliseconds tm) msec ns ((timer_tick ^^ (c + n)) tm)
        = Some ((timer_tick ^^ (c + n + sum_list (take k' ns))) tm, drop k' ns)"
      using Cons.IH [of "c + n" k'] Cons.prems(1,3,4) Suc by (simp add: add.assoc)
    then show ?thesis using i lt Suc by (subst delay_loop.simps) (simp add: f add.assoc)
  qed
qed

section \<open>A run\<close>

definition a_timer :: "u32 \<Rightarrow> timer_t" where
  "a_timer msec = \<lparr>tm_lock = Lock 0, tm_decisec = Lock 1, tm_khz = 8000, tm_msec_per_tick = msec, tm_milliseconds = 0,
     tm_next_decisec = 0, tm_days = 0, tm_user_timers = []\<rparr>"

text \<open>Task 1 waits on the lock of the timer.\<close>

lemma timer_state:
  "\<exists>s. timer_run no_fast 0 5 1 (a_timer 10) 0 (a_timer 10) s \<and> event_ok (Irq 5) s \<and> q_lock (irqv s 5) = Some (Lock 0)
     \<and> q_handler (irqv s 5) = 1 \<and> m_master (mtx s (Lock 0)) = None \<and> t_wait (task s 1) = Some (Lock 0)"
proof -
  have "case calm_run wait_run (kernel_init 0) of None \<Rightarrow> False | Some s \<Rightarrow>
      (case timer_init (a_timer 10) 8000 10 5 1 0 s of None \<Rightarrow> False
       | Some (tm, s) \<Rightarrow> tm = a_timer 10 \<and> stack s (current s) = [] \<and> q_lock (irqv s 5) = Some (Lock 0)
           \<and> q_handler (irqv s 5) = 1 \<and> m_master (mtx s (Lock 0)) = None \<and> t_wait (task s 1) = Some (Lock 0))"
    by code_simp
  then obtain s0 tm s where s: "calm_run wait_run (kernel_init 0) = Some s0" "timer_init (a_timer 10) 8000 10 5 1 0 s0 = Some (tm, s)"
    "tm = a_timer 10" "stack s (current s) = []" "q_lock (irqv s 5) = Some (Lock 0)" "q_handler (irqv s 5) = 1"
    "m_master (mtx s (Lock 0)) = None" "t_wait (task s 1) = Some (Lock 0)"
    by (auto split: option.splits)
  have "reachable no_fast 0 s0" using calm_start s(1) by blast
  from timer_run.start [OF this, of "a_timer 10" 8000 5 1 0 tm s] have "timer_run no_fast 0 5 1 (a_timer 10) 0 (a_timer 10) s"
    using s(2,3) by (simp add: a_timer_def)
  then show ?thesis using s(4-8) by (intro exI [of _ s]) simp
qed

section \<open>Properties\<close>



text \<open>C19: the interrupt of the timer that finds the lock free makes ready every task that waits on the lock (in
  \<open>timer_delay\<close>), and, when the milliseconds reach the next multiple of 100, every task that waits for the signal of \<open>decisec\<close>, with the
  milliseconds as its message; it never fails and keeps the invariant of the kernel.\<close>

theorem timer_irq_wakes:
  assumes "timer_run other i q h tm0 n tm s" "h \<noteq> 0" "event_ok (Irq q) s" "q_lock (irqv s q) = Some (tm_lock tm)"
    "q_handler (irqv s q) = h" "m_master (mtx s (tm_lock tm)) = None"
    and "t_wait (task s t) = Some m" "m = tm_lock tm \<and> m \<noteq> tm_decisec tm \<and> msg = 0
      \<or> m = tm_decisec tm \<and> timer_due (timer_advance tm) \<and> msg = unat (tm_milliseconds (timer_advance tm))"
  shows "\<exists>s'. timer_irq q tm s = Some (timer_tick tm, s') \<and> KI s' \<and> woken t msg s'"
proof -
  obtain khz where K: "KI s" and tm: "tm = (timer_tick ^^ n) (tm0\<lparr>tm_khz := khz, tm_user_timers := []\<rparr>)"
    using timer_run_inv [OF assms(1,2)] by blast
  have u: "tm_user_timers tm = []"
    unfolding tm using same_timer_ticks [of "tm0\<lparr>tm_khz := khz, tm_user_timers := []\<rparr>" n] by (simp add: same_timer_def)
  have l: "tm_lock (timer_tick tm) = tm_lock tm" using same_timer_tick [of tm] by (simp add: same_timer_def)
  obtain s' where s': "irq_handler (timer_fast other h tm) q s = Some s'" "KI s'"
    using irq_handler_ok [OF K, of q] assms(4) by blast
  have irq: "timer_irq q tm s = Some (timer_tick tm, s')"
    using timer_irq_is_irq_handler [OF u assms(4,5,2), of other] s'(1) assms(6) by simp
  obtain s1 where a: "activate_all (timer_acts tm) s = Some s1" and sig: "irq_signal (tm_lock tm) s1 = Some s'"
    using irq assms(6) l
    by (cases "activate_all (timer_acts tm) s") (auto simp: timer_irq_def timer_handler_def timer_update_acts [OF u])
  have "KI s1 \<and> (t_wait (task s1 t) = Some (tm_lock tm) \<and> msg = 0 \<or> woken t msg s1)"
  proof (cases "m = tm_decisec tm")
    case True
    then show ?thesis using timer_handler_wakes [OF K assms(7) _ True a] assms(8) by simp
  next
    case False
    have d: "tm_decisec (timer_advance tm) = tm_decisec tm" using advance_same [of tm] by (simp add: same_timer_def)
    have w: "m = tm_lock tm" "msg = 0" using False assms(8) by blast+
    show ?thesis
    proof (cases "timer_due (timer_advance tm)")
      case True
      then have a': "mutex_activate (tm_decisec tm) (unat (tm_milliseconds (timer_advance tm))) s = Some s1"
        using a d by (auto simp: timer_acts_def Let_def bind_eq_Some_conv)
      note P = MI_parts [OF K]
      have "KI s1" using a' activate_KI [OF K, of "tm_decisec tm" "unat (tm_milliseconds (timer_advance tm))"] by simp
      moreover have "t_wait (task s1 t) = Some m" using activate_still_waits [OF P(1,2) assms(7) False a'] .
      ultimately show ?thesis using w by simp
    next
      case False
      then show ?thesis using a K assms(7) w by (simp add: timer_acts_def Let_def)
    qed
  qed
  then have "woken t msg s'" using irq_signal_wakes [OF _ _ sig] by blast
  then show ?thesis using irq s'(2) by blast
qed

theorem timer_irq_wakes_witness:
  "\<exists>s s'. t_wait (task s 1) = Some (Lock 0) \<and> timer_irq 5 (a_timer 10) s = Some (timer_tick (a_timer 10), s') \<and> woken 1 0 s'"
proof -
  obtain s where s: "timer_run no_fast 0 5 1 (a_timer 10) 0 (a_timer 10) s" "event_ok (Irq 5) s"
    "q_lock (irqv s 5) = Some (Lock 0)" "q_handler (irqv s 5) = 1" "m_master (mtx s (Lock 0)) = None" "t_wait (task s 1) = Some (Lock 0)"
    using timer_state by blast
  have l: "tm_lock (a_timer 10) = Lock 0" "tm_decisec (a_timer 10) = Lock 1" by (simp_all add: a_timer_def)
  show ?thesis using timer_irq_wakes [OF s(1) _ s(2), of 1 "Lock 0" 0] s(3-6) l by auto
qed

text \<open>\<open>timer_delay\<close> returns at the first wake-up at which at least \<open>msec\<close> milliseconds have passed, neither
  earlier nor later, across midnight too, as long as no wake-up comes so late that the day is over; for a delay of a day or more
  it never returns, and for one of 2 to the 31 or more it returns at once.\<close>

theorem timer_delay_exact:
  assumes "unat (tm_msec_per_tick tm) \<le> 100" "unat (tm_milliseconds tm) < 86400000"
  shows "(unat msec < 86400000 \<and> (\<forall>n \<in> set wakes. elapsed tm n + unat msec \<le> 86400000)
        \<and> k \<le> length wakes \<and> unat msec \<le> elapsed tm (sum_list (take k wakes))
        \<and> (\<forall>j < k. elapsed tm (sum_list (take j wakes)) < unat msec)
      \<longrightarrow> timer_delay msec wakes tm = Some ((timer_tick ^^ sum_list (take k wakes)) tm, drop k wakes))
    \<and> (86400000 \<le> sint msec \<longrightarrow> timer_delay msec wakes tm = None)
    \<and> (sint msec < 0 \<longrightarrow> timer_delay msec wakes tm = Some (tm, wakes))"
proof (intro conjI impI; (elim conjE)?)
  have z: "elapsed tm 0 = 0" by (simp add: elapsed_def)
  show "timer_delay msec wakes tm = Some ((timer_tick ^^ sum_list (take k wakes)) tm, drop k wakes)"
    if "unat msec < 86400000" "\<forall>n \<in> set wakes. elapsed tm n + unat msec \<le> 86400000" "k \<le> length wakes"
      "unat msec \<le> elapsed tm (sum_list (take k wakes))" "\<forall>j < k. elapsed tm (sum_list (take j wakes)) < unat msec"
    using delay_some [OF assms that(1,2), of 0 k] that(3-5) z by (simp add: timer_delay_def)
  show "timer_delay msec wakes tm = None" if "86400000 \<le> sint msec"
    using delay_none [OF assms that, of wakes 0] by (simp add: timer_delay_def)
  show "timer_delay msec wakes tm = Some (tm, wakes)" if "sint msec < 0"
    using interval_elapsed [OF assms(2), of "tm_milliseconds tm" 0 msec] assms(2) that
    by (subst timer_delay_def, subst delay_loop.simps) simp
qed

theorem timer_delay_exact_witness:
  "timer_delay 25 [1, 1, 1, 1] (a_timer 10) = Some ((timer_tick ^^ 3) (a_timer 10), [1])
   \<and> timer_delay 86400000 [1, 2, 3] (a_timer 10) = None \<and> timer_delay (- 1) [1] (a_timer 10) = Some (a_timer 10, [1])"
proof -
  have t: "unat (tm_msec_per_tick (a_timer 10)) \<le> 100" "unat (tm_milliseconds (a_timer 10)) < 86400000"
    and e: "elapsed (a_timer 10) n = n * 10" for n by (simp_all add: a_timer_def elapsed_def)
  have "\<forall>j < 3. sum_list (take j [1, 1, 1, 1 :: nat]) * 10 < 25" by (auto simp: numeral_3_eq_3 less_Suc_eq)
  then have "timer_delay 25 [1, 1, 1, 1] (a_timer 10) = Some ((timer_tick ^^ 3) (a_timer 10), [1])"
    using timer_delay_exact [OF t, of 25 "[1, 1, 1, 1]" 3] by (simp add: e) (simp add: numeral_3_eq_3)
  moreover have "timer_delay 86400000 [1, 2, 3] (a_timer 10) = None" "timer_delay (- 1) [1] (a_timer 10) = Some (a_timer 10, [1])"
    using timer_delay_exact [OF t, of 86400000 "[1, 2, 3]"] timer_delay_exact [OF t, of "- 1" "[1]"] by simp_all
  ultimately show ?thesis by blast
qed

text \<open>With ticks of 100 ms, which the code admits, \<open>decisec\<close> is signalled on every tick of the first day
  and then not once on the second one: at midnight \<open>next_decisec\<close> becomes negative, which is a very late time.\<close>

theorem decisec_stops:
  assumes "tm_msec_per_tick tm = 100" "fresh_timer tm"
  shows "(n < 863999 \<longrightarrow> timer_due (timer_advance ((timer_tick ^^ n) tm)))
    \<and> (863999 \<le> n \<and> n < 1727999 \<longrightarrow> \<not> timer_due (timer_advance ((timer_tick ^^ n) tm)))"
proof (intro conjI impI; (elim conjE)?)
  let ?tm = "(timer_tick ^^ n) tm"
  have t: "tm_msec_per_tick ?tm = 100" using same_timer_ticks [of tm n] assms(1) by (simp add: same_timer_def)
  then have u: "unat (tm_msec_per_tick ?tm) \<le> 100" by simp
  show "timer_due (timer_advance ?tm)" if n: "n < 863999"
  proof -
    have c: "unat (tm_milliseconds ?tm) = 100 * n" "unat (tm_next_decisec ?tm) = 100 * n" using coarse_ticks [OF assms, of n] n by simp_all
    then show ?thesis using timer_advance_nat [OF _ u] t n by (simp add: timer_due_def word_le_nat_alt)
  qed
  show "\<not> timer_due (timer_advance ?tm)" if n: "863999 \<le> n" "n < 1727999"
  proof (cases "n = 863999")
    case True
    then have c: "unat (tm_milliseconds ?tm) = 86399900" "unat (tm_next_decisec ?tm) = 86399900" using coarse_ticks [OF assms, of n] by simp_all
    then have "tm_next_decisec ?tm = 86399900" by (simp add: word_unat_eq_iff)
    then show ?thesis using timer_advance_nat [OF _ u] t c(1) by (simp add: timer_due_def word_le_nat_alt TIMER_MSEC_PER_DAY_def)
  next
    case False
    define k where "k = n - 864000"
    have k: "n = 864000 + k" "k < 863999" using False n by (simp_all add: k_def)
    have c: "unat (tm_milliseconds ?tm) = 100 * k" "tm_next_decisec ?tm = - 100" using coarse_second_day [OF assms, of k] k by simp_all
    then show ?thesis using timer_advance_nat [OF _ u] t k(2) by (simp add: timer_due_def word_le_nat_alt)
  qed
qed

theorem decisec_stops_witness:
  "timer_due (timer_advance ((timer_tick ^^ 17) (a_timer 100))) \<and> \<not> timer_due (timer_advance ((timer_tick ^^ 863999) (a_timer 100)))"
  using decisec_stops [of "a_timer 100" 17] decisec_stops [of "a_timer 100" 863999]
  by (simp add: a_timer_def fresh_timer_def del: funpow.simps)

end
