(* ===== verification/Mem_Alloc.thy ===== *)
theory Mem_Alloc
  imports Uos_Prelude
begin

text \<open>
  The memory allocator \<open>mem/mem.c\<close>, with the debug checks on (\<open>MEM_DEBUG\<close>), for a
  32-bit target: \<open>sizeof (void*)\<close> is 4 and \<open>sizeof (mheader_t)\<close> is 12. Addresses and
  sizes are natural numbers below \<open>2 ^ 32\<close>; every sum and difference of the code is taken modulo
  \<open>2 ^ 32\<close>. The header of a block lives at its address in \<open>hdr\<close>, together with the word after it,
  which holds the \<open>NEXT\<close> pointer of a hole; the other bytes of memory are \<open>bytes\<close>. The locking
  of the pool around each operation is left out: the operations are atomic here.

  The second half shows that the pointer code implements first fit on an address ordered list of
  holes, and that holes and allocated blocks never overlap.
\<close>

section \<open>The code\<close>

record mheader_t =
  h_size :: nat
  h_pool :: nat
  h_magic :: nat
  h_next :: nat

record mem_pool_t =
  p_free_size :: nat
  p_free_list :: nat

record mem =
  hdr :: "nat \<Rightarrow> mheader_t"
  pools :: "nat \<Rightarrow> mem_pool_t"
  bytes :: "nat \<Rightarrow> u8"

definition hole_magic :: nat where "hole_magic = 0x4d48"
definition block_magic :: nat where "block_magic = 0x4d42"

abbreviation wrap :: "nat \<Rightarrow> nat" where
  "wrap n \<equiv> n mod 2 ^ 32"

definition sub32 :: "nat \<Rightarrow> nat \<Rightarrow> nat" where
  "sub32 a b = wrap (a + 2 ^ 32 - b)"

definition upd_hdr :: "nat \<Rightarrow> (mheader_t \<Rightarrow> mheader_t) \<Rightarrow> mem \<Rightarrow> mem" where
  "upd_hdr a f M = M\<lparr>hdr := (hdr M)(a := f (hdr M a))\<rparr>"

definition upd_pool :: "nat \<Rightarrow> (mem_pool_t \<Rightarrow> mem_pool_t) \<Rightarrow> mem \<Rightarrow> mem" where
  "upd_pool p f M = M\<lparr>pools := (pools M)(p := f (pools M p))\<rparr>"

text \<open>\<open>MEM_ALIGN\<close>: round up to a multiple of the pointer size.\<close>

definition mem_align :: "nat \<Rightarrow> nat" where
  "mem_align x = wrap (x + 3) div 4 * 4"

definition block_size :: "nat \<Rightarrow> nat" where
  "block_size required = mem_align (wrap ((if required < 4 then 4 else required) + 12))"

text \<open>The variable \<open>hprev\<close> points to the pool's \<open>free_list\<close> or to the \<open>NEXT\<close> field of a hole.\<close>

datatype link = FreeList nat | NextOf nat

fun set_link :: "link \<Rightarrow> nat \<Rightarrow> mem \<Rightarrow> mem" where
  "set_link (FreeList p) v = upd_pool p (\<lambda>r. r\<lparr>p_free_list := v\<rparr>)"
| "set_link (NextOf a) v = upd_hdr a (\<lambda>r. r\<lparr>h_next := v\<rparr>)"

partial_function (option) find_hole :: "mem \<Rightarrow> nat \<Rightarrow> nat \<Rightarrow> link \<Rightarrow> nat \<Rightarrow> (link \<times> nat) option" where
  "find_hole M p required hprev h =
     (if h = 0 then Some (hprev, 0)
      else if h_magic (hdr M h) \<noteq> hole_magic then None
      else if h_pool (hdr M h) \<noteq> p then None
      else if h_size (hdr M h) \<ge> required then Some (hprev, h)
      else find_hole M p required (NextOf h) (h_next (hdr M h)))"

declare find_hole.simps [code]

text \<open>Split the hole if the rest is large enough to be a hole, else take all of it.\<close>

definition take_hole :: "nat \<Rightarrow> nat \<Rightarrow> link \<Rightarrow> nat \<Rightarrow> mem \<Rightarrow> mem" where
  "take_hole p required hprev h M =
     (let M = (if h_size (hdr M h) \<ge> wrap (required + 12 + 2 * 4) then
                 let newh = wrap (h + required);
                     M = upd_hdr newh (\<lambda>r. r\<lparr>h_pool := h_pool (hdr M h)\<rparr>) M;
                     M = upd_hdr newh (\<lambda>r. r\<lparr>h_size := sub32 (h_size (hdr M h)) required\<rparr>) M;
                     M = upd_hdr h (\<lambda>r. r\<lparr>h_size := required\<rparr>) M;
                     M = upd_hdr newh (\<lambda>r. r\<lparr>h_next := h_next (hdr M h)\<rparr>) M;
                     M = set_link hprev newh M
                 in upd_hdr newh (\<lambda>r. r\<lparr>h_magic := hole_magic\<rparr>) M
               else set_link hprev (h_next (hdr M h)) M);
          M = upd_hdr h (\<lambda>r. r\<lparr>h_magic := block_magic\<rparr>) M
      in upd_pool p (\<lambda>r. r\<lparr>p_free_size := sub32 (p_free_size r) (h_size (hdr M h))\<rparr>) M)"

definition mem_alloc_dirty :: "nat \<Rightarrow> nat \<Rightarrow> mem \<Rightarrow> (nat \<times> mem) option" where
  "mem_alloc_dirty p required M = do {
     (hprev, h) \<leftarrow> find_hole M p (block_size required) (FreeList p) (p_free_list (pools M p));
     if h = 0 then Some (0, M)
     else Some (wrap (h + 12), take_hole p (block_size required) hprev h M)
   }"

definition memset_bytes :: "nat \<Rightarrow> u8 \<Rightarrow> nat \<Rightarrow> mem \<Rightarrow> mem" where
  "memset_bytes a c n M = M\<lparr>bytes := (\<lambda>x. if a \<le> x \<and> x < a + n then c else bytes M x)\<rparr>"

definition memcpy_bytes :: "nat \<Rightarrow> nat \<Rightarrow> nat \<Rightarrow> mem \<Rightarrow> mem" where
  "memcpy_bytes a b n M =
     M\<lparr>bytes := (\<lambda>x. if a \<le> x \<and> x < a + n then bytes M (b + (x - a)) else bytes M x)\<rparr>"

definition mem_alloc :: "nat \<Rightarrow> nat \<Rightarrow> mem \<Rightarrow> (nat \<times> mem) option" where
  "mem_alloc p required M = do {
     (a, M) \<leftarrow> mem_alloc_dirty p required M;
     Some (a, if a \<noteq> 0 \<and> required > 0 then memset_bytes a 0 required M else M)
   }"

partial_function (option) insert_hole_loop :: "nat \<Rightarrow> link \<Rightarrow> nat \<Rightarrow> mem \<Rightarrow> mem option" where
  "insert_hole_loop newh hprev h M =
     (if h = 0 then Some (upd_hdr newh (\<lambda>r. r\<lparr>h_next := 0\<rparr>) (set_link hprev newh M))
      else if h > newh then
        (let M = set_link hprev newh M
         in if wrap (newh + h_size (hdr M newh)) = h then
              Some (upd_hdr newh (\<lambda>r. r\<lparr>h_next := h_next (hdr M h)\<rparr>)
                (upd_hdr newh (\<lambda>r. r\<lparr>h_size := wrap (h_size r + h_size (hdr M h))\<rparr>) M))
            else Some (upd_hdr newh (\<lambda>r. r\<lparr>h_next := h\<rparr>) M))
      else if wrap (h + h_size (hdr M h)) = newh then
        (let M = upd_hdr h (\<lambda>r. r\<lparr>h_size := wrap (h_size r + h_size (hdr M newh))\<rparr>) M;
             n = h_next (hdr M h)
         in if wrap (h + h_size (hdr M h)) = n then
              Some (upd_hdr h (\<lambda>r. r\<lparr>h_next := h_next (hdr M n)\<rparr>)
                (upd_hdr h (\<lambda>r. r\<lparr>h_size := wrap (h_size r + h_size (hdr M n))\<rparr>) M))
            else Some M)
      else insert_hole_loop newh (NextOf h) (h_next (hdr M h)) M)"

declare insert_hole_loop.simps [code]

definition make_hole_locked :: "nat \<Rightarrow> mem \<Rightarrow> mem option" where
  "make_hole_locked newh M =
     (let p = h_pool (hdr M newh);
          M = upd_pool p (\<lambda>r. r\<lparr>p_free_size := wrap (p_free_size r + h_size (hdr M newh))\<rparr>) M;
          M = upd_hdr newh (\<lambda>r. r\<lparr>h_magic := hole_magic\<rparr>) M
      in insert_hole_loop newh (FreeList p) (p_free_list (pools M p)) M)"

definition mem_free :: "nat \<Rightarrow> mem \<Rightarrow> mem option" where
  "mem_free block M =
     (if block = 0 then Some M
      else let h = sub32 block 12
           in if h_magic (hdr M h) \<noteq> block_magic then None else make_hole_locked h M)"

definition mem_realloc :: "nat \<Rightarrow> nat \<Rightarrow> mem \<Rightarrow> (nat \<times> mem) option" where
  "mem_realloc old_block n M =
     (if old_block = 0 then Some (0, M)
      else let h = sub32 old_block 12
           in if h_magic (hdr M h) \<noteq> block_magic then None
              else let old_size = sub32 (h_size (hdr M h)) 12
              in if old_size \<ge> n then Some (old_block, M)
                 else do {
                   (block, M) \<leftarrow> mem_alloc (h_pool (hdr M h)) n M;
                   if block = 0 then do { M \<leftarrow> make_hole_locked h M; Some (0, M) }
                   else do {
                     M \<leftarrow> make_hole_locked h (memcpy_bytes block old_block old_size M);
                     Some (block, M)
                   }
                 })"

definition mem_truncate :: "nat \<Rightarrow> nat \<Rightarrow> mem \<Rightarrow> mem option" where
  "mem_truncate block n M =
     (if block = 0 then Some M
      else let required = block_size n; h = sub32 block 12
           in if h_magic (hdr M h) \<noteq> block_magic then None
              else if h_size (hdr M h) \<ge> wrap (required + 12 + 2 * 4) then
                let newh = wrap (h + required);
                    M = upd_hdr newh (\<lambda>r. r\<lparr>h_pool := h_pool (hdr M h)\<rparr>) M;
                    M = upd_hdr newh (\<lambda>r. r\<lparr>h_size := sub32 (h_size (hdr M h)) required\<rparr>) M;
                    M = upd_hdr h (\<lambda>r. r\<lparr>h_size := required\<rparr>) M
                in make_hole_locked newh M
              else Some M)"

definition mem_available :: "mem \<Rightarrow> nat \<Rightarrow> nat" where
  "mem_available M p = p_free_size (pools M p)"

definition mem_size :: "mem \<Rightarrow> nat \<Rightarrow> nat option" where
  "mem_size M block =
     (if block = 0 then Some 0
      else let h = sub32 block 12
           in if h_magic (hdr M h) \<noteq> block_magic then None else Some (sub32 (h_size (hdr M h)) 12))"

definition mem_pool :: "mem \<Rightarrow> nat \<Rightarrow> nat option" where
  "mem_pool M block =
     (if block = 0 then Some 0
      else let h = sub32 block 12
           in if h_magic (hdr M h) \<noteq> block_magic then None else Some (h_pool (hdr M h)))"

definition mem_init :: "nat \<Rightarrow> nat \<Rightarrow> nat \<Rightarrow> mem \<Rightarrow> mem option" where
  "mem_init p start stop M = do {
     assert_c (stop > start);
     Some (upd_pool p (\<lambda>r. r\<lparr>p_free_list := start, p_free_size := wrap (p_free_size r + (stop - start))\<rparr>)
       (upd_hdr start (\<lambda>r. r\<lparr>h_size := stop - start, h_pool := p, h_magic := hole_magic,
          h_next := p_free_list (pools M p)\<rparr>) M))
   }"

section \<open>Hole lists\<close>

text \<open>The abstract state: for each pool its holes, as pairs of address and size in the order of
  the list, and the allocated blocks.\<close>

type_synonym hole = "nat \<times> nat"

record heap =
  holes :: "nat \<Rightarrow> hole list"
  used :: "nat \<Rightarrow> (nat \<times> nat) option"

fun cover :: "hole list \<Rightarrow> nat set" where
  "cover [] = {}"
| "cover ((a, n) # hs) = {a..<a + n} \<union> cover hs"

text \<open>Ascending addresses, no two holes overlap or touch.\<close>

fun sep :: "nat \<Rightarrow> hole list \<Rightarrow> bool" where
  "sep lo [] \<longleftrightarrow> True"
| "sep lo ((a, n) # hs) \<longleftrightarrow> lo < a \<and> 16 \<le> n \<and> a + n < 2 ^ 32 \<and> sep (a + n) hs"

definition total :: "hole list \<Rightarrow> nat" where
  "total hs = sum_list (map snd hs)"

text \<open>First fit, and insertion with coalescing.\<close>

fun first_fit :: "nat \<Rightarrow> hole list \<Rightarrow> (hole \<times> hole list) option" where
  "first_fit r [] = None"
| "first_fit r ((a, n) # hs) =
     (if n < r then map_option (\<lambda>(b, hs'). (b, (a, n) # hs')) (first_fit r hs)
      else if r + 20 \<le> n then Some ((a, r), (a + r, n - r) # hs)
      else Some ((a, n), hs))"

fun insert_hole :: "hole \<Rightarrow> hole list \<Rightarrow> hole list" where
  "insert_hole (a, n) [] = [(a, n)]"
| "insert_hole (a, n) ((b, k) # hs) =
     (if a < b then (if a + n = b then (a, n + k) # hs else (a, n) # (b, k) # hs)
      else if b + k = a then
        (case hs of
           (c, l) # hs' \<Rightarrow> if b + (k + n) = c then (b, k + n + l) # hs' else (b, k + n) # hs
         | [] \<Rightarrow> [(b, k + n)])
      else (b, k) # insert_hole (a, n) hs)"

lemma total_simps [simp]: "total [] = 0" "total (h # hs) = snd h + total hs"
  "total (hs @ hs') = total hs + total hs'"
  by (simp_all add: total_def)

lemma cover_append [simp]: "cover (hs @ hs') = cover hs \<union> cover hs'"
  by (induction hs) auto

lemma cover_above: "sep lo hs \<Longrightarrow> x \<in> cover hs \<Longrightarrow> lo < x \<and> x < 2 ^ 32"
  by (induction lo hs rule: sep.induct) auto

lemma sep_weaken: "sep lo hs \<Longrightarrow> lo' \<le> lo \<Longrightarrow> sep lo' hs"
  by (cases hs) auto

lemma sep_append:
  "sep lo (hs @ hs') \<longleftrightarrow> sep lo hs \<and> sep (if hs = [] then lo else fst (last hs) + snd (last hs)) hs'"
  by (induction lo hs rule: sep.induct) auto

lemma sep_total: "sep lo hs \<Longrightarrow> lo < 2 ^ 32 \<Longrightarrow> lo + total hs < 2 ^ 32"
  by (induction lo hs rule: sep.induct) auto

lemma sep_member: "sep lo hs \<Longrightarrow> (a, n) \<in> set hs \<Longrightarrow> lo < a \<and> 16 \<le> n \<and> a + n < 2 ^ 32 \<and> {a..<a + n} \<subseteq> cover hs"
  by (induction lo hs rule: sep.induct) auto

lemma sep_distinct: "sep lo hs \<Longrightarrow> distinct (map fst hs)"
proof (induction lo hs rule: sep.induct)
  case (2 lo a n hs)
  then have "a \<notin> fst ` set hs" using sep_member [of "a + n" hs] by force
  then show ?case using 2 by simp
qed simp

lemma disjoint_intervals:
  assumes "{a..<a + n} \<inter> {b..<b + k} = {}" "0 < n" "0 < (k::nat)"
  shows "a + n \<le> b \<or> b + k \<le> a"
proof (rule ccontr)
  assume "\<not> ?thesis"
  then have "max a b \<in> {a..<a + n} \<inter> {b..<b + k}" using assms(2,3) by (auto simp: max_def)
  with assms(1) show False by blast
qed

lemma insert_hole_cover:
  assumes "sep lo hs" "lo < a" "16 \<le> n" "a + n < 2 ^ 32" "{a..<a + n} \<inter> cover hs = {}"
  shows "sep lo (insert_hole (a, n) hs) \<and> cover (insert_hole (a, n) hs) = {a..<a + n} \<union> cover hs
    \<and> total (insert_hole (a, n) hs) = n + total hs"
  using assms
proof (induction "(a, n)" hs arbitrary: lo rule: insert_hole.induct)
  case (2 b k hs)
  have sb: "lo < b" "16 \<le> k" "b + k < 2 ^ 32" "sep (b + k) hs" and dis: "{a..<a + n} \<inter> cover hs = {}"
    and dk: "{a..<a + n} \<inter> {b..<b + k} = {}"
    using 2(2,6) by (simp_all add: Int_Un_distrib)
  have d: "a + n \<le> b \<or> b + k \<le> a"
    using 2(4) sb by (intro disjoint_intervals dk) auto
  show ?case
  proof (cases "a < b")
    case True
    then have "a + n \<le> b" using d by simp
    then show ?thesis using True 2(3-6) sb by (auto intro: sep_weaken)
  next
    case False
    then have ab: "b + k \<le> a" using d 2(4) by simp
    show ?thesis
    proof (cases "b + k = a")
      case True
      show ?thesis
      proof (cases hs)
        case (Cons c hs')
        obtain c0 l where c: "c = (c0, l)" by fastforce
        have "a < c0" "16 \<le> l" using sb(4) True Cons c by auto
        moreover have "{a..<a + n} \<inter> {c0..<c0 + l} = {}"
          using dis Cons c by (simp add: Int_Un_distrib)
        then have "a + n \<le> c0 \<or> c0 + l \<le> a"
          using 2(4) \<open>16 \<le> l\<close> by (intro disjoint_intervals) auto
        ultimately have "a + n \<le> c0" by simp
        then show ?thesis using True False 2(3-6) sb Cons c by (auto intro: sep_weaken)
      qed (use True False 2(3-6) sb in auto)
    next
      case ne: False
      have "sep (b + k) (insert_hole (a, n) hs) \<and> cover (insert_hole (a, n) hs) = {a..<a + n} \<union> cover hs
        \<and> total (insert_hole (a, n) hs) = n + total hs"
        using 2(1) [OF False ne sb(4)] ab ne 2(4,5) dis by simp
      then show ?thesis using False ne sb by auto
    qed
  qed
qed simp

lemma first_fit_cover:
  assumes "sep lo hs" "16 \<le> r" "first_fit r hs = Some ((a, n), hs')"
  shows "sep lo hs' \<and> lo < a \<and> r \<le> n \<and> a + n < 2 ^ 32 \<and> cover hs = {a..<a + n} \<union> cover hs'
    \<and> {a..<a + n} \<inter> cover hs' = {} \<and> total hs = n + total hs'"
  using assms
proof (induction r hs arbitrary: lo hs' rule: first_fit.induct)
  case (2 r b k hs)
  have sb: "lo < b" "16 \<le> k" "b + k < 2 ^ 32" "sep (b + k) hs" using 2(2) by auto
  have above: "x \<in> cover hs \<Longrightarrow> b + k < x" for x using cover_above [OF sb(4)] by blast
  show ?case
  proof (cases "k < r")
    case True
    then obtain hs'' where h: "first_fit r hs = Some ((a, n), hs'')" "hs' = (b, k) # hs''"
      using 2(4) by auto
    note IH = 2(1) [OF True sb(4) 2(3) h(1)]
    then have "a + n \<le> b \<or> b + k \<le> a" by simp
    then show ?thesis using IH sb h(2) by auto
  next
    case False
    show ?thesis
    proof (cases "r + 20 \<le> k")
      case True
      then have e: "a = b" "n = r" "hs' = (b + r, k - r) # hs" using False 2(4) by auto
      have "{b..<b + k} = {b..<b + r} \<union> {b + r..<b + k}" using True by auto
      then show ?thesis using True 2(3) sb above unfolding e by (auto dest: above)
    next
      case no: False
      then have e: "a = b" "n = k" "hs' = hs" using False 2(4) by auto
      show ?thesis using False sb above unfolding e by (auto intro: sep_weaken dest: above)
    qed
  qed
qed simp

lemma first_fit_split:
  "first_fit r hs = Some ((a, n), hs') \<Longrightarrow>
   \<exists>pre k post. hs = pre @ (a, k) # post \<and> (\<forall>(b, j) \<in> set pre. j < r) \<and> r \<le> k
     \<and> (if r + 20 \<le> k then n = r \<and> hs' = pre @ (a + r, k - r) # post else n = k \<and> hs' = pre @ post)"
proof (induction r hs arbitrary: hs' rule: first_fit.induct)
  case (2 r b k hs)
  show ?case
  proof (cases "k < r")
    case True
    then obtain hs'' where h: "first_fit r hs = Some ((a, n), hs'')" "hs' = (b, k) # hs''"
      using 2(2) by auto
    from 2(1) [OF True h(1)] obtain pre j post where
      "hs = pre @ (a, j) # post \<and> (\<forall>(b, j) \<in> set pre. j < r) \<and> r \<le> j
       \<and> (if r + 20 \<le> j then n = r \<and> hs'' = pre @ (a + r, j - r) # post else n = j \<and> hs'' = pre @ post)"
      by blast
    then show ?thesis using True h(2)
      by (intro exI [of _ "(b, k) # pre"] exI [of _ j] exI [of _ post]) (auto split: if_splits)
  next
    case False
    then show ?thesis using 2(2)
      by (intro exI [of _ "[]"] exI [of _ k] exI [of _ hs]) (auto split: if_splits)
  qed
qed simp

lemma first_fit_None: "first_fit r hs = None \<longleftrightarrow> (\<forall>(b, j) \<in> set hs. j < r)"
  by (induction r hs rule: first_fit.induct) auto

section \<open>The pointer code refines the hole lists\<close>

text \<open>\<open>free_chain M p h hs\<close>: from the pointer \<open>h\<close>, following \<open>NEXT\<close>, one finds exactly the holes
  \<open>hs\<close> of pool \<open>p\<close>, with intact headers.\<close>

fun free_chain :: "mem \<Rightarrow> nat \<Rightarrow> nat \<Rightarrow> hole list \<Rightarrow> bool" where
  "free_chain M p h [] \<longleftrightarrow> h = 0"
| "free_chain M p h ((a, n) # hs) \<longleftrightarrow> h = a \<and> a \<noteq> 0 \<and> h_magic (hdr M a) = hole_magic
     \<and> h_pool (hdr M a) = p \<and> h_size (hdr M a) = n \<and> free_chain M p (h_next (hdr M a)) hs"

lemma free_chain_cong:
  "(\<And>a. a \<in> fst ` set hs \<Longrightarrow> hdr M' a = hdr M a) \<Longrightarrow> free_chain M' p h hs = free_chain M p h hs"
  by (induction M p h hs rule: free_chain.induct) auto

text \<open>The link that leads out of a prefix of the list.\<close>

definition link_after :: "nat \<Rightarrow> hole list \<Rightarrow> link" where
  "link_after p pre = (if pre = [] then FreeList p else NextOf (fst (last pre)))"

lemma link_after_snoc [simp]: "link_after p [] = FreeList p" "link_after p (pre @ [h]) = NextOf (fst h)"
  by (simp_all add: link_after_def)

fun read_link :: "mem \<Rightarrow> link \<Rightarrow> nat" where
  "read_link M (FreeList p) = p_free_list (pools M p)"
| "read_link M (NextOf a) = h_next (hdr M a)"

text \<open>Where the walk stands after a prefix, and what writing the link there does.\<close>

lemma free_chain_split:
  "free_chain M p h (pre @ post) \<Longrightarrow> h = p_free_list (pools M p) \<Longrightarrow>
   free_chain M p (read_link M (link_after p pre)) post"
proof (induction pre arbitrary: h post rule: rev_induct)
  case (snoc x pre)
  obtain a n where x: "x = (a, n)" by fastforce
  have "free_chain M p (read_link M (link_after p pre)) (x # post)" using snoc by simp
  then show ?case using x by simp
qed simp

lemma free_chain_prefix:
  "free_chain M p h (pre @ post) \<Longrightarrow> distinct (map fst pre) \<Longrightarrow> pre \<noteq> [] \<Longrightarrow>
   hdr M' (fst (last pre)) = (hdr M (fst (last pre)))\<lparr>h_next := v\<rparr> \<Longrightarrow>
   (\<And>a. a \<in> fst ` set (butlast pre) \<Longrightarrow> hdr M' a = hdr M a) \<Longrightarrow>
   free_chain M' p v post' \<Longrightarrow> free_chain M' p h (pre @ post')"
proof (induction pre arbitrary: h)
  case (Cons x pre)
  obtain a n where x: "x = (a, n)" by fastforce
  show ?case
  proof (cases "pre = []")
    case True
    then show ?thesis using Cons.prems x by simp
  next
    case False
    have "hdr M' a = hdr M a" using Cons.prems(5) [of a] x False by force
    moreover have "free_chain M' p (h_next (hdr M a)) (pre @ post')"
      using Cons.prems x False by (intro Cons.IH) auto
    ultimately show ?thesis using Cons.prems(1) x by simp
  qed
qed simp

lemma set_link_chain:
  assumes c: "free_chain M p (p_free_list (pools M p)) (pre @ post)" and d: "distinct (map fst pre)"
    and M': "\<And>a. a \<in> fst ` set pre \<Longrightarrow> hdr M' a = hdr (set_link (link_after p pre) v M) a"
    and P': "p_free_list (pools M' p) = p_free_list (pools (set_link (link_after p pre) v M) p)"
    and v: "free_chain M' p v post'"
  shows "free_chain M' p (p_free_list (pools M' p)) (pre @ post')"
proof (cases "pre = []")
  case True
  then show ?thesis using P' v by (simp add: upd_pool_def)
next
  case False
  then have lk: "link_after p pre = NextOf (fst (last pre))" by (simp add: link_after_def)
  have nin: "fst (last pre) \<notin> fst ` set (butlast pre)" using d False
    by (cases pre rule: rev_cases) auto
  have h2: "hdr M' a = hdr M a" if "a \<in> fst ` set (butlast pre)" for a
  proof -
    have "a \<noteq> fst (last pre)" using that nin by blast
    moreover have "a \<in> fst ` set pre" using that by (auto dest: in_set_butlastD)
    ultimately show ?thesis using M' [of a] lk by (simp add: upd_hdr_def)
  qed
  have h1: "hdr M' (fst (last pre)) = (hdr M (fst (last pre)))\<lparr>h_next := v\<rparr>"
    using M' [of "fst (last pre)"] lk False by (simp add: upd_hdr_def)
  have "p_free_list (pools M' p) = p_free_list (pools M p)" using P' lk by (simp add: upd_hdr_def)
  then show ?thesis using free_chain_prefix [OF c d False h1 h2 v] by simp
qed

lemma find_hole_skip:
  "free_chain M p h (pre @ post) \<Longrightarrow> \<forall>(b, j) \<in> set pre. j < r \<Longrightarrow>
   find_hole M p r hprev h = find_hole M p r (if pre = [] then hprev else NextOf (fst (last pre)))
     (if pre = [] then h else h_next (hdr M (fst (last pre))))"
proof (induction pre arbitrary: h hprev)
  case (Cons x pre)
  obtain a n where x: "x = (a, n)" by fastforce
  have "find_hole M p r hprev h = find_hole M p r (NextOf a) (h_next (hdr M a))"
    using Cons.prems x by (subst find_hole.simps) simp
  also have "\<dots> = find_hole M p r (if pre = [] then NextOf a else NextOf (fst (last pre)))
     (if pre = [] then h_next (hdr M a) else h_next (hdr M (fst (last pre))))"
    using Cons.prems x by (intro Cons.IH) auto
  finally show ?case using x by simp
qed simp

lemma find_hole_at:
  assumes "free_chain M p (p_free_list (pools M p)) (pre @ post)" "\<forall>(b, j) \<in> set pre. j < r"
  shows "find_hole M p r (FreeList p) (p_free_list (pools M p))
    = find_hole M p r (link_after p pre) (read_link M (link_after p pre))"
  using find_hole_skip [OF assms, of "FreeList p"] by (cases "pre = []") (simp_all add: link_after_def)

text \<open>Replacing the list behind a prefix that stays as it is.\<close>

lemma keep_link_chain:
  assumes "free_chain M p (p_free_list (pools M p)) (pre @ post)"
    and "\<And>a. a \<in> fst ` set pre \<Longrightarrow> hdr M' a = hdr M a"
    and "p_free_list (pools M' p) = p_free_list (pools M p)"
    and "free_chain M' p (read_link M (link_after p pre)) post'"
  shows "free_chain M' p (p_free_list (pools M' p)) (pre @ post')"
proof -
  have "free_chain M' p h (pre @ post')"
    if "free_chain M p h (pre @ post)" "\<And>a. a \<in> fst ` set pre \<Longrightarrow> hdr M' a = hdr M a"
      "free_chain M' p (if pre = [] then h else h_next (hdr M (fst (last pre)))) post'" for h pre
    using that
  proof (induction pre arbitrary: h)
    case (Cons x pre)
    obtain a n where x: "x = (a, n)" by fastforce
    have "hdr M' a = hdr M a" using Cons.prems(2) [of a] x by simp
    moreover have "free_chain M' p (h_next (hdr M a)) (pre @ post')"
      using Cons.prems x by (intro Cons.IH) auto
    ultimately show ?case using Cons.prems(1) x by simp
  qed simp
  from this [OF assms(1,2)] show ?thesis using assms(3,4)
    by (cases "pre = []") (simp_all add: link_after_def)
qed

text \<open>What the insertion of a hole leaves alone.\<close>

definition hole_frame :: "nat \<Rightarrow> nat set \<Rightarrow> mem \<Rightarrow> mem \<Rightarrow> bool" where
  "hole_frame p S M M' \<longleftrightarrow> (\<forall>x. x \<notin> S \<longrightarrow> hdr M' x = hdr M x)
     \<and> (\<forall>x. h_magic (hdr M' x) = h_magic (hdr M x) \<and> h_pool (hdr M' x) = h_pool (hdr M x))
     \<and> (\<forall>q. q \<noteq> p \<longrightarrow> pools M' q = pools M q)
     \<and> p_free_size (pools M' p) = p_free_size (pools M p) \<and> bytes M' = bytes M"

lemma hole_frame_refl [simp]: "hole_frame p S M M"
  by (simp add: hole_frame_def)

lemma hole_frame_trans: "hole_frame p S M M' \<Longrightarrow> hole_frame p S M' M'' \<Longrightarrow> hole_frame p S M M''"
  by (simp add: hole_frame_def)

lemma hole_frame_hdr:
  "a \<in> S \<Longrightarrow> (\<And>r. h_magic (f r) = h_magic r) \<Longrightarrow> (\<And>r. h_pool (f r) = h_pool r) \<Longrightarrow>
   hole_frame p S M (upd_hdr a f M)"
  by (auto simp: hole_frame_def upd_hdr_def)

lemma hole_frame_link: "fst ` set pre \<subseteq> S \<Longrightarrow> hole_frame p S M (set_link (link_after p pre) v M)"
  by (cases pre rule: rev_cases) (auto simp: hole_frame_def link_after_def upd_hdr_def upd_pool_def)

lemma set_link_hdr:
  "a \<notin> fst ` set pre \<Longrightarrow> hdr (set_link (link_after p pre) v M) a = hdr M a"
  "h_size (hdr (set_link (link_after p pre) v M) a) = h_size (hdr M a)"
  by (auto simp: link_after_def upd_hdr_def upd_pool_def)

lemma hdr_upd_hdr [simp]: "hdr (upd_hdr a f M) x = (if x = a then f (hdr M a) else hdr M x)"
  "pools (upd_hdr a f M) = pools M" "bytes (upd_hdr a f M) = bytes M"
  by (simp_all add: upd_hdr_def)

lemma insert_loop_ok:
  assumes "free_chain M p (p_free_list (pools M p)) (pre @ hs)" "sep 0 (pre @ hs)"
    and "h_size (hdr M a) = n" "h_pool (hdr M a) = p" "h_magic (hdr M a) = hole_magic"
    and "0 < a" "16 \<le> n" "a + n < 2 ^ 32" "{a..<a + n} \<inter> cover (pre @ hs) = {}"
    and "fst ` set (pre @ hs) \<subseteq> S" "a \<in> S"
  shows "\<exists>M'. insert_hole_loop a (link_after p pre) (read_link M (link_after p pre)) M = Some M'
    \<and> free_chain M' p (p_free_list (pools M' p)) (pre @ insert_hole (a, n) hs) \<and> hole_frame p S M M'"
  using assms
proof (induction hs arbitrary: pre)
  case Nil
  note ch = Nil(1) and d = sep_distinct [OF Nil(2)]
  have an: "a \<notin> fst ` set pre" using Nil(2,7,9) sep_member by fastforce
  have r: "read_link M (link_after p pre) = 0" using free_chain_split [OF ch] by simp
  let ?M = "upd_hdr a (\<lambda>r. r\<lparr>h_next := 0\<rparr>) (set_link (link_after p pre) a M)"
  have "free_chain ?M p (p_free_list (pools ?M p)) (pre @ [(a, n)])"
  proof (rule set_link_chain [OF ch])
    show "free_chain ?M p a [(a, n)]" using an Nil(3-6) by (simp add: set_link_hdr)
  qed (use an d in auto)
  moreover have "hole_frame p S M ?M"
    using Nil(10,11) by (intro hole_frame_trans [OF hole_frame_link hole_frame_hdr]) auto
  ultimately show ?case using r by (subst insert_hole_loop.simps) simp
next
  case (Cons x hs)
  obtain b k where x: "x = (b, k)" by fastforce
  note ch = Cons(2) [unfolded x] and sp = Cons(3) [unfolded x]
  note new = Cons(4-9)
  note dis = Cons(10) [unfolded x]
  have d: "distinct (map fst (pre @ (b, k) # hs))" by (rule sep_distinct [OF sp])
  have mem: "c \<notin> {a..<a + n} \<and> a \<notin> {c..<c + l}" if "(c, l) \<in> set (pre @ (b, k) # hs)" for c l
  proof -
    have cv: "{c..<c + l} \<subseteq> cover (pre @ (b, k) # hs)" "c \<in> {c..<c + l}"
      using sep_member [OF sp that] by auto
    have "a \<in> {a..<a + n}" using new(5) by simp
    then show ?thesis using cv dis by blast
  qed
  have an: "a \<notin> fst ` set (pre @ (b, k) # hs)"
  proof
    assume "a \<in> fst ` set (pre @ (b, k) # hs)"
    then obtain l where "(a, l) \<in> set (pre @ (b, k) # hs)" by force
    from mem [OF this] show False using new(5) by simp
  qed
  have hh: "c \<notin> fst ` set pre" "c \<noteq> a" "c \<noteq> b" if "c \<in> fst ` set hs" for c
  proof -
    have "fst ` set pre \<inter> fst ` set hs = {}" "b \<notin> fst ` set hs" using d by simp_all
    moreover have "a \<notin> fst ` set hs" using an by (simp add: image_Un)
    ultimately show "c \<notin> fst ` set pre" "c \<noteq> a" "c \<noteq> b" using that by blast+
  qed
  have bk: "0 < b" "16 \<le> k" "b + k < 2 ^ 32" using sep_member [OF sp, of b k] by auto
  have r: "read_link M (link_after p pre) = b" using free_chain_split [OF ch] by simp
  have hb: "h_magic (hdr M b) = hole_magic" "h_pool (hdr M b) = p" "h_size (hdr M b) = k"
    "free_chain M p (h_next (hdr M b)) hs"
    using free_chain_split [OF ch] by simp_all
  let ?l = "link_after p pre"
  show ?case
  proof (cases "a < b")
    case ab: True
    have anb: "a + n \<le> b" using mem [of b k] ab by auto
    let ?M1 = "set_link ?l a M"
    have "a \<notin> fst ` set pre" "b \<notin> fst ` set pre" using an d by (simp_all add: image_Un)
    then have h1: "hdr ?M1 a = hdr M a" "hdr ?M1 b = hdr M b" by (simp_all add: set_link_hdr)
    show ?thesis
    proof (cases "a + n = b")
      case True
      let ?M = "upd_hdr a (\<lambda>r. r\<lparr>h_next := h_next (hdr M b)\<rparr>)
        (upd_hdr a (\<lambda>r. r\<lparr>h_size := n + k\<rparr>) ?M1)"
      have "free_chain ?M p (p_free_list (pools ?M p)) (pre @ (a, n + k) # hs)"
      proof (rule set_link_chain [OF ch])
        have "free_chain ?M p (h_next (hdr M b)) hs = free_chain M p (h_next (hdr M b)) hs"
          using hh by (intro free_chain_cong) (simp add: set_link_hdr)
        then show "free_chain ?M p a ((a, n + k) # hs)" using h1 new hb by simp
      qed (use an d in auto)
      moreover have "hole_frame p S M ?M"
        using Cons(11,12) by (intro hole_frame_trans [OF hole_frame_link
            hole_frame_trans [OF hole_frame_hdr hole_frame_hdr]]) auto
      moreover have "insert_hole_loop a ?l b M = Some ?M"
        using bk ab True h1 new bk hb by (subst insert_hole_loop.simps) (simp add: Let_def upd_hdr_def)
      ultimately show ?thesis using x ab True r by simp
    next
      case False
      let ?M = "upd_hdr a (\<lambda>r. r\<lparr>h_next := b\<rparr>) ?M1"
      have "free_chain ?M p (p_free_list (pools ?M p)) (pre @ (a, n) # (b, k) # hs)"
      proof (rule set_link_chain [OF ch])
        have "free_chain ?M p (h_next (hdr M b)) hs = free_chain M p (h_next (hdr M b)) hs"
          using hh by (intro free_chain_cong) (simp add: set_link_hdr)
        then show "free_chain ?M p a ((a, n) # (b, k) # hs)" using h1 new hb bk ab by simp
      qed (use an d in auto)
      moreover have "hole_frame p S M ?M"
        using Cons(11,12) by (intro hole_frame_trans [OF hole_frame_link hole_frame_hdr]) auto
      moreover have "insert_hole_loop a ?l b M = Some ?M"
        using bk ab False h1 new by (subst insert_hole_loop.simps) (simp add: Let_def)
      ultimately show ?thesis using x ab False r by simp
    qed
  next
    case ab: False
    have bka: "b + k \<le> a" using mem [of b k] ab by auto
    show ?thesis
    proof (cases "b + k = a")
      case adj: True
      let ?M1 = "upd_hdr b (\<lambda>r. r\<lparr>h_size := k + n\<rparr>) M"
      have w1: "wrap (k + n) = k + n" "wrap (b + (k + n)) = a + n" using adj new by auto
      have start: "insert_hole_loop a ?l b M =
         (if a + n = h_next (hdr M b) then
            Some (upd_hdr b (\<lambda>r. r\<lparr>h_next := h_next (hdr ?M1 (a + n))\<rparr>)
              (upd_hdr b (\<lambda>r. r\<lparr>h_size := wrap (k + n + h_size (hdr ?M1 (a + n)))\<rparr>) ?M1))
          else Some ?M1)"
        using bk ab adj new hb w1 an by (subst insert_hole_loop.simps) (simp add: Let_def upd_hdr_def)
      have keep: "free_chain M' p (p_free_list (pools M' p)) (pre @ post')"
        if "\<And>c. c \<in> fst ` set pre \<Longrightarrow> hdr M' c = hdr M c" "pools M' = pools M" "free_chain M' p b post'" for M' post'
        using keep_link_chain [OF ch that(1)] that(2,3) r by simp
      have chs: "free_chain M' p (h_next (hdr M b)) hs" if "\<And>c. c \<noteq> b \<Longrightarrow> hdr M' c = hdr M c" for M'
      proof -
        have "free_chain M' p (h_next (hdr M b)) hs = free_chain M p (h_next (hdr M b)) hs"
          using hh that by (intro free_chain_cong) auto
        then show ?thesis using hb by simp
      qed
      show ?thesis
      proof (cases hs)
        case Nil
        then have "h_next (hdr M b) = 0" using hb by simp
        then have "insert_hole_loop a ?l b M = Some ?M1" using start new by simp
        moreover have "free_chain ?M1 p (p_free_list (pools ?M1 p)) (pre @ [(b, k + n)])"
          using d hb bk Nil by (intro keep) auto
        moreover have "hole_frame p S M ?M1" using Cons(11) x by (intro hole_frame_hdr) auto
        ultimately show ?thesis using x ab adj Nil r by auto
      next
        case (Cons y hs')
        obtain c l where y: "y = (c, l)" by fastforce
        have nb: "h_next (hdr M b) = c" "h_size (hdr M c) = l" "free_chain M p (h_next (hdr M c)) hs'"
          using hb(4) Cons y by simp_all
        have cb: "c \<noteq> b" "b \<notin> fst ` set hs'" using d Cons y by auto
        have cl: "c + l < 2 ^ 32" using sep_member [OF sp, of c l] Cons y by simp
        show ?thesis
        proof (cases "a + n = c")
          case True
          let ?M = "upd_hdr b (\<lambda>r. r\<lparr>h_next := h_next (hdr M c)\<rparr>)
            (upd_hdr b (\<lambda>r. r\<lparr>h_size := k + n + l\<rparr>) ?M1)"
          have "wrap (k + n + l) = k + n + l" using True adj cl by simp
          then have "insert_hole_loop a ?l b M = Some ?M" using start True nb cb by simp
          moreover have "free_chain ?M p (h_next (hdr M c)) hs' = free_chain M p (h_next (hdr M c)) hs'"
            using cb by (intro free_chain_cong) auto
          then have "free_chain ?M p (p_free_list (pools ?M p)) (pre @ (b, k + n + l) # hs')"
            using d hb bk nb by (intro keep) auto
          moreover have "hole_frame p S M ?M" using \<open>fst ` set (pre @ x # hs) \<subseteq> S\<close> x
            by (intro hole_frame_trans [OF hole_frame_hdr hole_frame_trans [OF hole_frame_hdr hole_frame_hdr]]) auto
          ultimately show ?thesis using x ab adj Cons y r True by (auto simp: add.assoc)
        next
          case False
          have "insert_hole_loop a ?l b M = Some ?M1" using start False nb by simp
          moreover have "free_chain ?M1 p (p_free_list (pools ?M1 p)) (pre @ (b, k + n) # hs)"
            using d hb bk chs [of ?M1] by (intro keep) auto
          moreover have "hole_frame p S M ?M1" using \<open>fst ` set (pre @ x # hs) \<subseteq> S\<close> x
            by (intro hole_frame_hdr) auto
          ultimately show ?thesis using x ab adj Cons y r False by (auto simp: add.assoc)
        qed
      qed
    next
      case adj: False
      have "insert_hole_loop a ?l b M = insert_hole_loop a (NextOf b) (h_next (hdr M b)) M"
        using bk ab adj hb by (subst insert_hole_loop.simps) simp
      moreover have "\<exists>M'. insert_hole_loop a (link_after p (pre @ [(b, k)]))
          (read_link M (link_after p (pre @ [(b, k)]))) M = Some M'
        \<and> free_chain M' p (p_free_list (pools M' p)) ((pre @ [(b, k)]) @ insert_hole (a, n) hs)
        \<and> hole_frame p S M M'"
        using Cons(2-12) x by (intro Cons.IH) auto
      ultimately show ?thesis using x ab adj r by simp
    qed
  qed
qed

section \<open>The whole heap\<close>

definition heap_ok :: "heap \<Rightarrow> bool" where
  "heap_ok A \<longleftrightarrow>
     (\<forall>p. sep 0 (holes A p))
     \<and> (\<forall>p q. p \<noteq> q \<longrightarrow> cover (holes A p) \<inter> cover (holes A q) = {})
     \<and> (\<forall>a p n. used A a = Some (p, n) \<longrightarrow> 0 < a \<and> 16 \<le> n \<and> a + n < 2 ^ 32
          \<and> (\<forall>q. {a..<a + n} \<inter> cover (holes A q) = {}))
     \<and> (\<forall>a b p q n k. used A a = Some (p, n) \<longrightarrow> used A b = Some (q, k) \<longrightarrow> a \<noteq> b \<longrightarrow>
          {a..<a + n} \<inter> {b..<b + k} = {})"

definition mem_rep :: "mem \<Rightarrow> heap \<Rightarrow> bool" where
  "mem_rep M A \<longleftrightarrow>
     (\<forall>p. free_chain M p (p_free_list (pools M p)) (holes A p)
        \<and> p_free_size (pools M p) = total (holes A p))
     \<and> (\<forall>a. h_magic (hdr M a) = block_magic \<longleftrightarrow> used A a \<noteq> None)
     \<and> (\<forall>a p n. used A a = Some (p, n) \<longrightarrow> h_pool (hdr M a) = p \<and> h_size (hdr M a) = n)"

definition a_alloc :: "nat \<Rightarrow> nat \<Rightarrow> heap \<Rightarrow> (nat \<times> heap) option" where
  "a_alloc p r A =
     (case first_fit r (holes A p) of
        None \<Rightarrow> None
      | Some ((a, n), hs) \<Rightarrow>
          Some (a, A\<lparr>holes := (holes A)(p := hs), used := (used A)(a := Some (p, n))\<rparr>))"

definition a_free :: "nat \<Rightarrow> heap \<Rightarrow> heap" where
  "a_free a A =
     (case used A a of
        None \<Rightarrow> A
      | Some (p, n) \<Rightarrow>
          A\<lparr>holes := (holes A)(p := insert_hole (a, n) (holes A p)), used := (used A)(a := None)\<rparr>)"

lemma heap_okD:
  assumes "heap_ok A"
  shows "sep 0 (holes A p)" "p \<noteq> q \<Longrightarrow> cover (holes A p) \<inter> cover (holes A q) = {}"
    "used A a = Some (p, n) \<Longrightarrow> 0 < a" "used A a = Some (p, n) \<Longrightarrow> 16 \<le> n"
    "used A a = Some (p, n) \<Longrightarrow> a + n < 2 ^ 32"
    "used A a = Some (p, n) \<Longrightarrow> {a..<a + n} \<inter> cover (holes A q) = {}"
    "used A a = Some (p, n) \<Longrightarrow> used A b = Some (q, k) \<Longrightarrow> a \<noteq> b \<Longrightarrow> {a..<a + n} \<inter> {b..<b + k} = {}"
  using assms unfolding heap_ok_def by blast+

lemma a_alloc_ok:
  assumes ok: "heap_ok A" and r: "16 \<le> r" and f: "first_fit r (holes A p) = Some ((a, n), hs)"
  shows "heap_ok (A\<lparr>holes := (holes A)(p := hs), used := (used A)(a := Some (p, n))\<rparr>)"
    and "used A a = None"
proof -
  note D = heap_okD [OF ok]
  note c = first_fit_cover [OF D(1) r f]
  have nb: "{a..<a + n} \<subseteq> cover (holes A p)" "cover hs \<subseteq> cover (holes A p)" using c by auto
  show un: "used A a = None"
  proof (rule ccontr)
    assume "used A a \<noteq> None"
    then obtain q k where u: "used A a = Some (q, k)" by auto
    have "a \<in> {a..<a + k} \<inter> cover (holes A p)" using D(4) [OF u] nb c r by auto
    then show False using D(6) [OF u] by blast
  qed
  show "heap_ok (A\<lparr>holes := (holes A)(p := hs), used := (used A)(a := Some (p, n))\<rparr>)" (is "heap_ok ?A")
  proof -
    have h: "holes ?A q = (if q = p then hs else holes A q)"
      "used ?A x = (if x = a then Some (p, n) else used A x)" for q x by auto
    have sepq: "sep 0 (holes ?A q)" for q using c D(1) [of q] by (simp add: h)
    have sub: "cover (holes ?A q) \<subseteq> cover (holes A q)" for q using nb by (simp add: h)
    have disj: "cover (holes ?A q) \<inter> cover (holes ?A q') = {}" if "q \<noteq> q'" for q q'
      using sub [of q] sub [of q'] D(2) [OF that] by blast
    have blk: "0 < x \<and> 16 \<le> k \<and> x + k < 2 ^ 32 \<and> (\<forall>q. {x..<x + k} \<inter> cover (holes ?A q) = {})"
      if "used ?A x = Some (s, k)" for x s k
    proof (cases "x = a")
      case True
      then have "k = n" using that by (simp add: h)
      moreover have "{a..<a + n} \<inter> cover (holes ?A q) = {}" for q
        using c nb D(2) [of p q] by (cases "q = p") (auto simp: h)
      ultimately show ?thesis using True c r by simp
    next
      case False
      then have u: "used A x = Some (s, k)" using that by (simp add: h)
      then show ?thesis using D(3-5) [OF u] D(6) [OF u] sub by blast
    qed
    have pair: "{x..<x + j} \<inter> {y..<y + k} = {}"
      if uv: "used ?A x = Some (s, j)" "used ?A y = Some (t, k)" "x \<noteq> y" for x y s t j k
    proof -
      have nd: "{a..<a + n} \<inter> {z..<z + i} = {}" if "used A z = Some (q, i)" for z q i
        using D(6) [OF that, of p] nb by blast
      consider "x = a" "used A y = Some (t, k)" "j = n" | "y = a" "used A x = Some (s, j)" "k = n"
        | "used A x = Some (s, j)" "used A y = Some (t, k)"
        using uv by (auto simp: h split: if_splits)
      then show ?thesis
      proof cases
        case 1
        then show ?thesis using nd [OF 1(2)] by simp
      next
        case 2
        then show ?thesis using nd [OF 2(2)] by (simp add: Int_commute)
      next
        case 3
        then show ?thesis using D(7) uv(3) by blast
      qed
    qed
    show ?thesis unfolding heap_ok_def using sepq disj blk pair by blast
  qed
qed

lemma a_free_ok:
  assumes ok: "heap_ok A" and u: "used A a = Some (p, n)"
  shows "heap_ok (a_free a A)" "total (holes (a_free a A) p) = n + total (holes A p)"
proof -
  note D = heap_okD [OF ok]
  let ?hs = "insert_hole (a, n) (holes A p)"
  note c = insert_hole_cover [OF D(1) D(3-5) [OF u] D(6) [OF u]]
  have h: "holes (a_free a A) q = (if q = p then ?hs else holes A q)"
    "used (a_free a A) x = (if x = a then None else used A x)" for q x
    using u by (auto simp: a_free_def)
  show "total (holes (a_free a A) p) = n + total (holes A p)" using c by (simp add: h)
  have cov: "cover (holes (a_free a A) q) = (if q = p then {a..<a + n} \<union> cover (holes A p) else cover (holes A q))" for q
    using c by (simp add: h)
  have sepq: "sep 0 (holes (a_free a A) q)" for q using c D(1) [of q] by (simp add: h)
  have disj: "cover (holes (a_free a A) q) \<inter> cover (holes (a_free a A) q') = {}" if "q \<noteq> q'" for q q'
    using D(2) [OF that] D(6) [OF u, of q] D(6) [OF u, of q'] that unfolding cov by auto
  have blk: "0 < x \<and> 16 \<le> k \<and> x + k < 2 ^ 32 \<and> (\<forall>q. {x..<x + k} \<inter> cover (holes (a_free a A) q) = {})"
    if "used (a_free a A) x = Some (s, k)" for x s k
  proof -
    have ux: "used A x = Some (s, k)" "x \<noteq> a" using that by (auto simp: h split: if_splits)
    show ?thesis using D(3-5) [OF ux(1)] D(6) [OF ux(1)] D(7) [OF ux(1) u ux(2)] unfolding cov by auto
  qed
  have pair: "{x..<x + j} \<inter> {y..<y + k} = {}"
    if "used (a_free a A) x = Some (s, j)" "used (a_free a A) y = Some (t, k)" "x \<noteq> y" for x y s t j k
    using that D(7) unfolding h by (auto split: if_splits)
  show "heap_ok (a_free a A)" unfolding heap_ok_def using sepq disj blk pair by blast
qed

text \<open>The sizes the code computes, when the request is not so large that they wrap.\<close>

lemma block_size_eq:
  assumes "n + 40 < 2 ^ 32"
  shows "block_size n = (max n 4 + 15) div 4 * 4"
  using assms by (simp add: block_size_def mem_align_def max_def add.commute)

lemma block_size_bounds:
  assumes "n + 40 < 2 ^ 32"
  shows "n + 12 \<le> block_size n" "16 \<le> block_size n" "wrap (block_size n + 20) = block_size n + 20"
    "block_size n + 20 < 2 ^ 32"
proof -
  let ?x = "max n 4 + 15"
  have "?x div 4 * 4 \<le> ?x" "?x < ?x div 4 * 4 + 4"
    using div_mult_mod_eq [of ?x 4] mod_less_divisor [of 4 ?x] by linarith+
  then show "n + 12 \<le> block_size n" "16 \<le> block_size n" "block_size n + 20 < 2 ^ 32"
    using assms by (auto simp: block_size_eq max_def split: if_splits)
  then show "wrap (block_size n + 20) = block_size n + 20" by simp
qed

lemma sub32_less: "b \<le> a \<Longrightarrow> a < 2 ^ 32 \<Longrightarrow> sub32 a b = a - b"
  by (simp add: sub32_def mod_if)

text \<open>Pools other than the one an operation works on keep their chains.\<close>

lemma other_chain:
  assumes "mem_rep M A" "heap_ok A" "q \<noteq> p"
    and "pools M' q = pools M q" "\<And>x. x \<in> cover (holes A q) \<Longrightarrow> hdr M' x = hdr M x"
  shows "free_chain M' q (p_free_list (pools M' q)) (holes A q) \<and> p_free_size (pools M' q) = total (holes A q)"
proof -
  have "free_chain M' q (p_free_list (pools M q)) (holes A q)
    = free_chain M q (p_free_list (pools M q)) (holes A q)"
  proof (rule free_chain_cong)
    fix x assume "x \<in> fst ` set (holes A q)"
    then have "x \<in> cover (holes A q)" using sep_member [OF heap_okD(1) [OF assms(2)]] by fastforce
    then show "hdr M' x = hdr M x" by (rule assms(5))
  qed
  then show ?thesis using assms(1,4) by (simp add: mem_rep_def)
qed

lemma set_link_cases:
  "set_link (link_after p pre) v M = (if pre = [] then upd_pool p (\<lambda>r. r\<lparr>p_free_list := v\<rparr>) M
     else upd_hdr (fst (last pre)) (\<lambda>r. r\<lparr>h_next := v\<rparr>) M)"
  by (simp add: link_after_def)

lemma pools_upd_pool [simp]: "pools (upd_pool p f M) q = (if q = p then f (pools M p) else pools M q)"
  "hdr (upd_pool p f M) = hdr M" "bytes (upd_pool p f M) = bytes M"
  by (simp_all add: upd_pool_def)

lemma bytes_set_link [simp]: "bytes (set_link l v M) = bytes M"
  by (cases l) simp_all

lemma take_hole_split:
  fixes p :: nat
  assumes l: "a \<notin> fst ` set pre" "wrap (a + r) \<notin> fst ` set pre" "wrap (a + r) \<noteq> a"
    and w: "wrap (r + 20) = r + 20" and n: "r + 20 \<le> h_size (hdr M a)" "h_size (hdr M a) < 2 ^ 32"
  defines "M' \<equiv> take_hole p r (link_after p pre) a M" and "b \<equiv> wrap (a + r)"
  shows "hdr M' x =
      (if x = a then (hdr M a)\<lparr>h_size := r, h_magic := block_magic\<rparr>
       else if x = b then \<lparr>h_size = h_size (hdr M a) - r, h_pool = h_pool (hdr M a),
         h_magic = hole_magic, h_next = h_next (hdr M a)\<rparr>
       else hdr (set_link (link_after p pre) b M) x)"
    and "pools M' q = (if q = p then (pools (set_link (link_after p pre) b M) p)
         \<lparr>p_free_size := sub32 (p_free_size (pools M p)) r\<rparr> else pools M q)"
    and "bytes M' = bytes M"
proof -
  define M1 where "M1 = upd_hdr b (\<lambda>r. r\<lparr>h_pool := h_pool (hdr M a)\<rparr>) M"
  define M2 where "M2 = upd_hdr b (\<lambda>q. q\<lparr>h_size := sub32 (h_size (hdr M1 a)) r\<rparr>) M1"
  define M3 where "M3 = upd_hdr a (\<lambda>q. q\<lparr>h_size := r\<rparr>) M2"
  define M4 where "M4 = upd_hdr b (\<lambda>r. r\<lparr>h_next := h_next (hdr M3 a)\<rparr>) M3"
  define M5 where "M5 = set_link (link_after p pre) b M4"
  define M6 where "M6 = upd_hdr b (\<lambda>r. r\<lparr>h_magic := hole_magic\<rparr>) M5"
  define M7 where "M7 = upd_hdr a (\<lambda>r. r\<lparr>h_magic := block_magic\<rparr>) M6"
  have "wrap (r + 12 + 2 * 4) \<le> h_size (hdr M a)" using w n by (simp add: add.assoc)
  then have M': "M' = upd_pool p (\<lambda>r. r\<lparr>p_free_size := sub32 (p_free_size r) (h_size (hdr M7 a))\<rparr>) M7"
    unfolding M'_def take_hole_def b_def [symmetric] Let_def M7_def M6_def M5_def M4_def M3_def M2_def M1_def
    by (simp only: if_True)
  have ba: "b \<noteq> a" using l(3) by (simp add: b_def)
  have s: "sub32 (h_size (hdr M a)) r = h_size (hdr M a) - r" using n by (intro sub32_less) auto
  have h4: "hdr M4 x = (if x = a then (hdr M a)\<lparr>h_size := r\<rparr>
      else if x = b then (hdr M b)\<lparr>h_pool := h_pool (hdr M a), h_size := h_size (hdr M a) - r,
        h_next := h_next (hdr M a)\<rparr> else hdr M x)" "pools M4 = pools M" "bytes M4 = bytes M" for x
    using ba s by (simp_all add: M4_def M3_def M2_def M1_def)
  have lk: "pre \<noteq> [] \<Longrightarrow> fst (last pre) \<noteq> a \<and> fst (last pre) \<noteq> b"
    using l(1,2) last_in_set [of pre] unfolding b_def by (metis image_eqI)
  have h5: "hdr M5 x = (if x = a then (hdr M a)\<lparr>h_size := r\<rparr>
      else if x = b then (hdr M b)\<lparr>h_pool := h_pool (hdr M a), h_size := h_size (hdr M a) - r,
        h_next := h_next (hdr M a)\<rparr> else hdr (set_link (link_after p pre) b M) x)"
    "pools M5 = pools (set_link (link_after p pre) b M)" for x
    using lk by (auto simp: M5_def set_link_cases h4)
  have b5: "bytes M5 = bytes M" by (simp add: M5_def h4)
  have h7: "hdr M7 x =
      (if x = a then (hdr M a)\<lparr>h_size := r, h_magic := block_magic\<rparr>
       else if x = b then \<lparr>h_size = h_size (hdr M a) - r, h_pool = h_pool (hdr M a),
         h_magic = hole_magic, h_next = h_next (hdr M a)\<rparr>
       else hdr (set_link (link_after p pre) b M) x)" for x
    using ba by (cases "hdr M b") (simp add: M7_def M6_def h5)
  have p7: "pools M7 = pools (set_link (link_after p pre) b M)" "bytes M7 = bytes M"
    by (simp_all add: M7_def M6_def h5 b5)
  have pq: "pools (set_link (link_after p pre) b M) q = (if q = p then pools (set_link (link_after p pre) b M) p else pools M q)"
    "p_free_size (pools (set_link (link_after p pre) b M) p) = p_free_size (pools M p)"
    by (simp_all add: set_link_cases)
  show "hdr M' x =
      (if x = a then (hdr M a)\<lparr>h_size := r, h_magic := block_magic\<rparr>
       else if x = b then \<lparr>h_size = h_size (hdr M a) - r, h_pool = h_pool (hdr M a),
         h_magic = hole_magic, h_next = h_next (hdr M a)\<rparr>
       else hdr (set_link (link_after p pre) b M) x)"
    by (simp add: M' h7)
  show "pools M' q = (if q = p then (pools (set_link (link_after p pre) b M) p)
         \<lparr>p_free_size := sub32 (p_free_size (pools M p)) r\<rparr> else pools M q)"
    using pq by (simp add: M' p7 h7)
  show "bytes M' = bytes M" by (simp add: M' p7)
qed

lemma take_hole_all:
  fixes p :: nat
  assumes l: "a \<notin> fst ` set pre" and w: "wrap (r + 20) = r + 20" and n: "\<not> r + 20 \<le> h_size (hdr M a)"
  defines "M' \<equiv> take_hole p r (link_after p pre) a M" and "v \<equiv> h_next (hdr M a)"
  shows "hdr M' x = (if x = a then (hdr M a)\<lparr>h_magic := block_magic\<rparr>
       else hdr (set_link (link_after p pre) v M) x)"
    and "pools M' q = (if q = p then (pools (set_link (link_after p pre) v M) p)
         \<lparr>p_free_size := sub32 (p_free_size (pools M p)) (h_size (hdr M a))\<rparr> else pools M q)"
    and "bytes M' = bytes M"
proof -
  define M1 where "M1 = set_link (link_after p pre) v M"
  define M2 where "M2 = upd_hdr a (\<lambda>r. r\<lparr>h_magic := block_magic\<rparr>) M1"
  have "\<not> wrap (r + 12 + 2 * 4) \<le> h_size (hdr M a)" using w n by (simp add: add.assoc)
  then have M': "M' = upd_pool p (\<lambda>r. r\<lparr>p_free_size := sub32 (p_free_size r) (h_size (hdr M2 a))\<rparr>) M2"
    unfolding M'_def take_hole_def Let_def M2_def M1_def v_def by (simp only: if_False)
  have h1: "hdr M1 a = hdr M a" using l by (simp add: M1_def set_link_hdr)
  have h2: "hdr M2 x = (if x = a then (hdr M a)\<lparr>h_magic := block_magic\<rparr> else hdr M1 x)" for x
    by (simp add: M2_def h1)
  have p2: "pools M2 = pools M1" "bytes M2 = bytes M" by (simp_all add: M2_def M1_def)
  have pq: "pools M1 q = (if q = p then pools M1 p else pools M q)" "p_free_size (pools M1 p) = p_free_size (pools M p)"
    by (simp_all add: M1_def set_link_cases)
  show "hdr M' x = (if x = a then (hdr M a)\<lparr>h_magic := block_magic\<rparr>
       else hdr (set_link (link_after p pre) v M) x)"
    by (simp add: M' h2 M1_def)
  show "pools M' q = (if q = p then (pools (set_link (link_after p pre) v M) p)
         \<lparr>p_free_size := sub32 (p_free_size (pools M p)) (h_size (hdr M a))\<rparr> else pools M q)"
    using pq by (simp add: M' h2 p2 M1_def)
  show "bytes M' = bytes M" by (simp add: M' p2)
qed

lemma mem_repD:
  assumes "mem_rep M A"
  shows "free_chain M p (p_free_list (pools M p)) (holes A p)"
    "p_free_size (pools M p) = total (holes A p)"
    "h_magic (hdr M a) = block_magic \<longleftrightarrow> used A a \<noteq> None"
    "used A a = Some (p, n) \<Longrightarrow> h_pool (hdr M a) = p" "used A a = Some (p, n) \<Longrightarrow> h_size (hdr M a) = n"
  using assms unfolding mem_rep_def by blast+

lemma alloc_refines:
  assumes rep: "mem_rep M A" and ok: "heap_ok A" and n: "n + 40 < 2 ^ 32"
    and f: "first_fit (block_size n) (holes A p) = Some ((a, k), hs)"
  shows "\<exists>M'. mem_alloc_dirty p n M = Some (a + 12, M') \<and> a + 12 < 2 ^ 32
    \<and> mem_rep M' (A\<lparr>holes := (holes A)(p := hs), used := (used A)(a := Some (p, k))\<rparr>)
    \<and> bytes M' = bytes M"
proof -
  let ?r = "block_size n"
  let ?A = "A\<lparr>holes := (holes A)(p := hs), used := (used A)(a := Some (p, k))\<rparr>"
  note bs = block_size_bounds [OF n] and D = heap_okD [OF ok]
  note fc = first_fit_cover [OF D(1) bs(2) f]
  note aok = a_alloc_ok [OF ok bs(2) f]
  obtain pre j post where sp: "holes A p = pre @ (a, j) # post" "\<forall>(b, i) \<in> set pre. i < ?r" "?r \<le> j"
    and res: "if ?r + 20 \<le> j then k = ?r \<and> hs = pre @ (a + ?r, j - ?r) # post else k = j \<and> hs = pre @ post"
    using first_fit_split [OF f] by blast
  have ch: "free_chain M p (p_free_list (pools M p)) (pre @ (a, j) # post)"
    and sz: "p_free_size (pools M p) = total (holes A p)"
    using mem_repD(1,2) [OF rep, of p] unfolding sp(1) by simp_all
  have sep: "sep 0 (pre @ (a, j) # post)" using D(1) [of p] sp(1) by simp
  have d: "distinct (map fst (pre @ (a, j) # post))" by (rule sep_distinct [OF sep])
  have aj: "0 < a" "16 \<le> j" "a + j < 2 ^ 32" using sep_member [OF sep, of a j] by auto
  have r: "read_link M (link_after p pre) = a" using free_chain_split [OF ch] by simp
  have ha: "h_magic (hdr M a) = hole_magic" "h_pool (hdr M a) = p" "h_size (hdr M a) = j"
    "free_chain M p (h_next (hdr M a)) post"
    using free_chain_split [OF ch] by simp_all
  let ?l = "link_after p pre"
  let ?M = "take_hole p ?r ?l a M"
  have "find_hole M p ?r ?l a = Some (?l, a)" using aj ha sp(3) by (subst find_hole.simps) simp
  then have fh: "find_hole M p ?r (FreeList p) (p_free_list (pools M p)) = Some (?l, a)"
    using find_hole_at [OF ch sp(2)] r by simp
  have alloc: "mem_alloc_dirty p n M = Some (a + 12, ?M)"
    using fh aj by (simp add: mem_alloc_dirty_def)
  have pre: "a \<notin> fst ` set pre" "c \<in> fst ` set post \<Longrightarrow> c \<noteq> a \<and> c \<notin> fst ` set pre" for c
    using d by auto
  have tot: "total (holes A p) < 2 ^ 32" using sep_total [OF D(1) [of p]] by simp
  have ksz: "k \<le> total (holes A p)" using fc by simp
  have chain: "free_chain ?M p (p_free_list (pools ?M p)) hs \<and> p_free_size (pools ?M p) = total hs
    \<and> (\<forall>q. q \<noteq> p \<longrightarrow> pools ?M q = pools M q) \<and> bytes ?M = bytes M
    \<and> (\<forall>x. x \<notin> cover (holes A p) \<longrightarrow> hdr ?M x = hdr M x)
    \<and> (\<forall>x. h_magic (hdr ?M x) = block_magic \<longleftrightarrow> x = a \<or> h_magic (hdr M x) = block_magic)
    \<and> h_pool (hdr ?M a) = p \<and> h_size (hdr ?M a) = k"
  proof -
    have cpre: "fst ` set pre \<subseteq> cover (holes A p)" and ca: "{a..<a + j} \<subseteq> cover (holes A p)"
      using sep_member [OF sep] sp(1) by force+
    have lk: "x \<notin> fst ` set pre \<Longrightarrow> hdr (set_link ?l v M) x = hdr M x" for x v by (simp add: set_link_hdr)
    have lm: "h_magic (hdr (set_link ?l v M) x) = h_magic (hdr M x)" for x v by (simp add: set_link_cases)
    show ?thesis
    proof (cases "?r + 20 \<le> j")
      case True
      have k: "k = ?r" "hs = pre @ (a + ?r, j - ?r) # post" using res True by auto
      have w: "wrap (a + ?r) = a + ?r" using aj True by simp
      have ab: "a + ?r \<in> {a..<a + j}" "a + ?r \<noteq> a" using True bs(2) by auto
      have nb: "a + ?r \<notin> fst ` set (pre @ post)"
      proof
        assume "a + ?r \<in> fst ` set (pre @ post)"
        then obtain l where m: "(a + ?r, l) \<in> set (pre @ post)" by force
        have "sep 0 pre" "sep (if pre = [] then 0 else fst (last pre) + snd (last pre)) ((a, j) # post)"
          using sep unfolding sep_append by blast+
        then have s: "sep 0 pre" "sep (a + j) post" "(if pre = [] then 0 else fst (last pre) + snd (last pre)) < a"
          by auto
        have low: "fst h + snd h \<le> (if pre = [] then 0 else fst (last pre) + snd (last pre))" if "h \<in> set pre" for h
          using that s(1)
        proof (induction pre rule: rev_induct)
          case (snoc y ys)
          have "sep 0 ys" using snoc(3) unfolding sep_append by blast
          moreover have "sep (if ys = [] then 0 else fst (last ys) + snd (last ys)) [y]"
            using snoc(3) unfolding sep_append by blast
          ultimately show ?case using snoc(1,2) by (cases y) (auto split: if_splits)
        qed simp
        from m consider "(a + ?r, l) \<in> set pre" | "(a + ?r, l) \<in> set post" by auto
        then show False
        proof cases
          case 1
          then show False using low [OF 1] s(3) by simp
        next
          case 2
          then show False using sep_member [OF s(2) 2] ab by simp
        qed
      qed
      have nb1: "a + ?r \<notin> fst ` set pre" "a + ?r \<notin> fst ` set post" using nb by auto
      have hyp: "wrap (a + ?r) \<notin> fst ` set pre" "wrap (a + ?r) \<noteq> a" using nb1 ab w by simp_all
      have jr: "?r + 20 \<le> h_size (hdr M a)" "h_size (hdr M a) < 2 ^ 32" using True ha aj by simp_all
      note T = take_hole_split [OF pre(1) hyp bs(3) jr, unfolded w ha(2,3)]
      have "free_chain ?M p (p_free_list (pools ?M p)) hs" unfolding k(2)
      proof (rule set_link_chain [OF ch])
        show "distinct (map fst pre)" using d by simp
        fix x assume "x \<in> fst ` set pre"
        then have "x \<noteq> a" "x \<noteq> a + ?r" using pre(1) nb1 by metis+
        then show "hdr ?M x = hdr (set_link ?l (a + ?r) M) x" by (simp add: T)
      next
        show "p_free_list (pools ?M p) = p_free_list (pools (set_link ?l (a + ?r) M) p)" by (simp add: T)
        have "free_chain ?M p (h_next (hdr M a)) post = free_chain M p (h_next (hdr M a)) post"
        proof (rule free_chain_cong)
          fix x assume "x \<in> fst ` set post"
          then have "x \<noteq> a" "x \<notin> fst ` set pre" "x \<noteq> a + ?r" using pre(2) nb1 by metis+
          then show "hdr ?M x = hdr M x" by (simp add: T lk)
        qed
        then show "free_chain ?M p (a + ?r) ((a + ?r, j - ?r) # post)"
          using ha(4) ab aj by (simp add: T)
      qed
      moreover have "hdr ?M x = hdr M x" if "x \<notin> cover (holes A p)" for x
      proof -
        have "a \<in> {a..<a + j}" using aj by simp
        then have "x \<noteq> a" "x \<notin> fst ` set pre" "x \<noteq> a + ?r" using that cpre ca ab by blast+
        then show ?thesis by (simp add: T lk)
      qed
      moreover have "h_magic (hdr ?M x) = block_magic \<longleftrightarrow> x = a \<or> h_magic (hdr M x) = block_magic" for x
      proof -
        have "used A (a + ?r) = None"
        proof (rule ccontr)
          assume "used A (a + ?r) \<noteq> None"
          then obtain q i where u: "used A (a + ?r) = Some (q, i)" by auto
          show False using D(4,6) [OF u] ca ab by fastforce
        qed
        then have "h_magic (hdr M (a + ?r)) \<noteq> block_magic" using rep by (simp add: mem_rep_def)
        then show ?thesis by (auto simp: T lm hole_magic_def block_magic_def)
      qed
      moreover have "sub32 (p_free_size (pools M p)) ?r = total hs"
        using sz fc k(1) tot by (simp add: sub32_less)
      ultimately show ?thesis using k ha by (simp add: T)
    next
      case False
      have k: "k = j" "hs = pre @ post" using res False by auto
      have jr: "\<not> ?r + 20 \<le> h_size (hdr M a)" using False ha by simp
      note T = take_hole_all [OF pre(1) bs(3) jr, unfolded ha(2,3)]
      have "free_chain ?M p (p_free_list (pools ?M p)) hs" unfolding k(2)
      proof (rule set_link_chain [OF ch])
        show "distinct (map fst pre)" using d by simp
        fix x assume "x \<in> fst ` set pre"
        then have "x \<noteq> a" using pre(1) by metis
        then show "hdr ?M x = hdr (set_link ?l (h_next (hdr M a)) M) x" by (simp add: T)
      next
        show "p_free_list (pools ?M p) = p_free_list (pools (set_link ?l (h_next (hdr M a)) M) p)" by (simp add: T)
        have "free_chain ?M p (h_next (hdr M a)) post = free_chain M p (h_next (hdr M a)) post"
        proof (rule free_chain_cong)
          fix x assume "x \<in> fst ` set post"
          then have "x \<noteq> a" "x \<notin> fst ` set pre" using pre(2) by metis+
          then show "hdr ?M x = hdr M x" by (simp add: T lk)
        qed
        then show "free_chain ?M p (h_next (hdr M a)) post" using ha(4) by simp
      qed
      moreover have "hdr ?M x = hdr M x" if "x \<notin> cover (holes A p)" for x
      proof -
        have "a \<in> {a..<a + j}" using aj by simp
        then have "x \<noteq> a" "x \<notin> fst ` set pre" using that cpre ca by blast+
        then show ?thesis by (simp add: T lk)
      qed
      moreover have "h_magic (hdr ?M x) = block_magic \<longleftrightarrow> x = a \<or> h_magic (hdr M x) = block_magic" for x
        by (auto simp: T lm)
      moreover have "sub32 (p_free_size (pools M p)) j = total hs"
        using sz fc k(1) tot by (simp add: sub32_less)
      ultimately show ?thesis using k ha by (simp add: T)
    qed
  qed
  have "mem_rep ?M ?A"
  proof -
    have "free_chain ?M q (p_free_list (pools ?M q)) (holes ?A q) \<and> p_free_size (pools ?M q) = total (holes ?A q)" for q
    proof (cases "q = p")
      case False
      have "hdr ?M x = hdr M x" if "x \<in> cover (holes A q)" for x
        using that D(2) [OF False] chain by blast
      then show ?thesis using other_chain [OF rep ok False] chain False by simp
    qed (use chain in simp)
    moreover have "h_magic (hdr ?M x) = block_magic \<longleftrightarrow> used ?A x \<noteq> None" for x
      using chain rep by (simp add: mem_rep_def)
    moreover have "h_pool (hdr ?M x) = q \<and> h_size (hdr ?M x) = i" if "used ?A x = Some (q, i)" for x q i
    proof (cases "x = a")
      case False
      then have u: "used A x = Some (q, i)" using that by simp
      have "x \<notin> cover (holes A p)" using D(4,6) [OF u] by force
      then show ?thesis using chain rep u by (simp add: mem_rep_def)
    qed (use that chain in simp)
    ultimately show ?thesis unfolding mem_rep_def by blast
  qed
  then show ?thesis using alloc aj chain by auto
qed

lemma make_hole_refines:
  assumes rep: "mem_rep M A" and ok: "heap_ok A" and u: "used A a = Some (p, n)"
  shows "\<exists>M'. make_hole_locked a M = Some M' \<and> mem_rep M' (a_free a A) \<and> bytes M' = bytes M"
proof -
  note R = mem_repD [OF rep] and D = heap_okD [OF ok]
  have an: "0 < a" "16 \<le> n" "a + n < 2 ^ 32" using D(3-5) [OF u] by auto
  have ha: "h_pool (hdr M a) = p" "h_size (hdr M a) = n" using R(4,5) [OF u] .
  let ?hs = "holes A p"
  let ?S = "insert a (fst ` set ?hs)"
  let ?M1 = "upd_hdr a (\<lambda>r. r\<lparr>h_magic := hole_magic\<rparr>)
    (upd_pool p (\<lambda>r. r\<lparr>p_free_size := wrap (p_free_size r + n)\<rparr>) M)"
  have start: "make_hole_locked a M = insert_hole_loop a (FreeList p) (p_free_list (pools M p)) ?M1"
    by (simp add: make_hole_locked_def Let_def ha)
  have na: "a \<notin> cover (holes A q)" for q using D(6) [OF u, of q] an(2) by fastforce
  have sub: "fst ` set (holes A q) \<subseteq> cover (holes A q)" for q using sep_member [OF D(1) [of q]] by force
  have nh: "a \<notin> fst ` set ?hs" using na sub by blast
  have ch1: "free_chain ?M1 p (p_free_list (pools ?M1 p)) ([] @ ?hs)"
  proof -
    have "free_chain ?M1 p (p_free_list (pools M p)) ?hs = free_chain M p (p_free_list (pools M p)) ?hs"
      using nh by (intro free_chain_cong) auto
    then show ?thesis using R(1) [of p] by simp
  qed
  have "\<exists>M'. insert_hole_loop a (link_after p []) (read_link ?M1 (link_after p [])) ?M1 = Some M'
    \<and> free_chain M' p (p_free_list (pools M' p)) ([] @ insert_hole (a, n) ?hs) \<and> hole_frame p ?S ?M1 M'"
    using D(1) [of p] D(6) [OF u, of p] an ha by (intro insert_loop_ok [OF ch1]) auto
  then obtain M' where M': "insert_hole_loop a (FreeList p) (p_free_list (pools M p)) ?M1 = Some M'"
    "free_chain M' p (p_free_list (pools M' p)) (insert_hole (a, n) ?hs)" "hole_frame p ?S ?M1 M'"
    by auto
  note fr = M'(3) [unfolded hole_frame_def]
  have h: "holes (a_free a A) q = (if q = p then insert_hole (a, n) ?hs else holes A q)"
    "used (a_free a A) x = (if x = a then None else used A x)" for q x
    using u by (auto simp: a_free_def)
  have tot: "n + total ?hs < 2 ^ 32"
    using sep_total [OF heap_okD(1) [OF a_free_ok(1) [OF ok u]], of p] a_free_ok(2) [OF ok u] by simp
  have out: "hdr M' x = hdr M x" if "x \<noteq> a" "x \<notin> fst ` set ?hs" for x using fr that by simp
  have "free_chain M' q (p_free_list (pools M' q)) (holes (a_free a A) q)
    \<and> p_free_size (pools M' q) = total (holes (a_free a A) q)" for q
  proof (cases "q = p")
    case True
    have "p_free_size (pools M' p) = wrap (p_free_size (pools M p) + n)" using fr by simp
    then show ?thesis using M'(2) True tot R(2) [of p] a_free_ok(2) [OF ok u] by (simp add: h add.commute)
  next
    case False
    have "pools M' q = pools M q" using fr False by simp
    moreover have "hdr M' x = hdr M x" if "x \<in> cover (holes A q)" for x
      using that na [of q] D(2) [OF False] sub [of p] by (intro out) auto
    ultimately show ?thesis using other_chain [OF rep ok False] False by (simp add: h)
  qed
  moreover have "h_magic (hdr M' x) = block_magic \<longleftrightarrow> used (a_free a A) x \<noteq> None" for x
    using fr R(3) [of x] by (simp add: h hole_magic_def block_magic_def)
  moreover have "h_pool (hdr M' x) = q \<and> h_size (hdr M' x) = i"
    if v: "used (a_free a A) x = Some (q, i)" for x q i
  proof -
    have xu: "x \<noteq> a" "used A x = Some (q, i)" using v by (auto simp: h split: if_splits)
    have "x \<notin> cover ?hs" using D(4,6) [OF xu(2)] by force
    then have "hdr M' x = hdr M x" using sub [of p] xu(1) by (intro out) auto
    then show ?thesis using R(4,5) [OF xu(2)] by simp
  qed
  ultimately have "mem_rep M' (a_free a A)" unfolding mem_rep_def by blast
  then show ?thesis using start M'(1) fr by simp
qed

lemma free_refines:
  assumes rep: "mem_rep M A" and ok: "heap_ok A" and u: "used A a = Some (p, n)"
  shows "\<exists>M'. mem_free (a + 12) M = Some M' \<and> mem_rep M' (a_free a A) \<and> bytes M' = bytes M"
proof -
  have an: "0 < a" "16 \<le> n" "a + n < 2 ^ 32" using heap_okD(3-5) [OF ok u] by auto
  have "sub32 (a + 12) 12 = a" using an by (subst sub32_less) auto
  then show ?thesis using make_hole_refines [OF assms] mem_repD(3) [OF rep, of a] u
    by (simp add: mem_free_def)
qed

section \<open>The interface of the allocator\<close>

text \<open>
  What users of the allocator rely on: the blocks handed out do not overlap, a new block is
  large enough, an operation on one block leaves the others as they are, and nothing but the
  allocator's own work changes the contents of memory. A state carries the blocks in use as a
  map from data address to usable size.
\<close>

locale allocator =
  fixes live :: "'s \<Rightarrow> (nat \<Rightarrow> nat option) \<Rightarrow> bool"
    and alloc :: "nat \<Rightarrow> 's \<Rightarrow> (nat \<times> 's) option"
    and free :: "nat \<Rightarrow> 's \<Rightarrow> 's option"
    and limit :: nat
    and valid :: "nat \<Rightarrow> bool"
  assumes disjoint: "live s B \<Longrightarrow> B a = Some n \<Longrightarrow> B b = Some k \<Longrightarrow> a \<noteq> b \<Longrightarrow> {a..<a + n} \<inter> {b..<b + k} = {}"
    and live_valid: "live s B \<Longrightarrow> B a = Some n \<Longrightarrow> valid a \<and> 0 < a"
    and alloc_total: "live s B \<Longrightarrow> n < limit \<Longrightarrow> \<exists>a s'. alloc n s = Some (a, s')"
    and alloc_null: "live s B \<Longrightarrow> n < limit \<Longrightarrow> alloc n s = Some (0, s') \<Longrightarrow> live s' B"
    and alloc_new: "live s B \<Longrightarrow> n < limit \<Longrightarrow> alloc n s = Some (a, s') \<Longrightarrow> a \<noteq> 0 \<Longrightarrow>
      B a = None \<and> (\<exists>k. n \<le> k \<and> live s' (B(a := Some k)))"
    and free_live: "live s B \<Longrightarrow> B a = Some n \<Longrightarrow> \<exists>s'. free a s = Some s' \<and> live s' (B(a := None))"
    and free_dead: "live s B \<Longrightarrow> B a = None \<Longrightarrow> valid a \<Longrightarrow> free a s = None"
begin

lemma double_free:
  assumes "live s B" "B a = Some n" "free a s = Some s'"
  shows "free a s' = None"
proof -
  obtain s'' where "free a s = Some s''" "live s'' (B(a := None))" using free_live [OF assms(1,2)] by blast
  then have "live s' (B(a := None))" using assms(3) by simp
  then show ?thesis using live_valid [OF assms(1,2)] free_dead [of s' "B(a := None)" a] by simp
qed

text \<open>Any number of requests: the blocks received are pairwise disjoint.\<close>

fun alloc_many :: "nat list \<Rightarrow> 's \<Rightarrow> (nat list \<times> 's) option" where
  "alloc_many [] s = Some ([], s)"
| "alloc_many (n # ns) s = do {
     (a, s) \<leftarrow> alloc n s;
     (as, s) \<leftarrow> alloc_many ns s;
     Some (a # as, s)
   }"

lemma alloc_many_ok:
  "live s B \<Longrightarrow> \<forall>n \<in> set ns. n < limit \<Longrightarrow>
   \<exists>as s' B'. alloc_many ns s = Some (as, s') \<and> live s' B' \<and> B \<subseteq>\<^sub>m B' \<and> length as = length ns
     \<and> (\<forall>i < length ns. as ! i \<noteq> 0 \<longrightarrow> B (as ! i) = None \<and> (\<exists>k. B' (as ! i) = Some k \<and> ns ! i \<le> k))
     \<and> distinct (filter (\<lambda>a. a \<noteq> 0) as)"
proof (induction ns arbitrary: s B)
  case Nil
  then show ?case by auto
next
  case (Cons n ns)
  obtain a s1 where a: "alloc n s = Some (a, s1)" using alloc_total [OF Cons(2)] Cons(3) by force
  show ?case
  proof (cases "a = 0")
    case True
    have l1: "live s1 B" using alloc_null [OF Cons(2), of n s1] Cons(3) a True by simp
    obtain as s' B' where r: "alloc_many ns s1 = Some (as, s')" "live s' B'" "B \<subseteq>\<^sub>m B'" "length as = length ns"
      "\<forall>i < length ns. as ! i \<noteq> 0 \<longrightarrow> B (as ! i) = None \<and> (\<exists>k. B' (as ! i) = Some k \<and> ns ! i \<le> k)"
      "distinct (filter (\<lambda>a. a \<noteq> 0) as)" using Cons(1) [OF l1] Cons(3) by auto
    then show ?thesis using a True
      by (intro exI [of _ "a # as"] exI [of _ s'] exI [of _ B']) (auto simp: nth_Cons split: nat.splits)
  next
    case False
    obtain k where k: "B a = None" "n \<le> k" "live s1 (B(a := Some k))"
      using alloc_new [OF Cons(2) _ a False] Cons(3) by auto
    obtain as s' B' where r: "alloc_many ns s1 = Some (as, s')" "live s' B'" "B(a := Some k) \<subseteq>\<^sub>m B'"
      "length as = length ns"
      "\<forall>i < length ns. as ! i \<noteq> 0 \<longrightarrow> (B(a := Some k)) (as ! i) = None \<and> (\<exists>k. B' (as ! i) = Some k \<and> ns ! i \<le> k)"
      "distinct (filter (\<lambda>a. a \<noteq> 0) as)" using Cons(1) [OF k(3)] Cons(3) unfolding list.set ball_simps by blast
    have sub: "B \<subseteq>\<^sub>m B'" using r(3) k(1) by (auto simp: map_le_def dom_def split: if_splits)
    have ak: "B' a = Some k" using r(3) by (auto simp: map_le_def)
    have na: "a \<notin> set (filter (\<lambda>a. a \<noteq> 0) as)"
    proof
      assume "a \<in> set (filter (\<lambda>a. a \<noteq> 0) as)"
      then obtain i where "i < length ns" "as ! i = a" using r(4) by (auto simp: in_set_conv_nth)
      then show False using r(5) False by auto
    qed
    have "\<forall>i < length (n # ns). (a # as) ! i \<noteq> 0 \<longrightarrow> B ((a # as) ! i) = None
      \<and> (\<exists>k. B' ((a # as) ! i) = Some k \<and> (n # ns) ! i \<le> k)"
      using r(5) k ak by (auto simp: nth_Cons split: nat.splits if_splits)
    then show ?thesis using a r(1,2,4,6) sub na False
      by (intro exI [of _ "a # as"] exI [of _ s'] exI [of _ B']) auto
  qed
qed

end

section \<open>The model provides the interface\<close>

lemma alloc_fails:
  assumes rep: "mem_rep M A" and f: "first_fit (block_size n) (holes A p) = None"
  shows "mem_alloc_dirty p n M = Some (0, M)"
proof -
  have ch: "free_chain M p (p_free_list (pools M p)) (holes A p @ [])" using mem_repD(1) [OF rep] by simp
  have "read_link M (link_after p (holes A p)) = 0" using free_chain_split [OF ch] by simp
  moreover have "find_hole M p (block_size n) (FreeList p) (p_free_list (pools M p))
    = find_hole M p (block_size n) (link_after p (holes A p)) (read_link M (link_after p (holes A p)))"
    using f by (intro find_hole_at [OF ch]) (simp add: first_fit_None)
  ultimately show ?thesis by (simp add: mem_alloc_dirty_def find_hole.simps)
qed

lemma mem_rep_bytes [simp]: "mem_rep (M\<lparr>bytes := b\<rparr>) A = mem_rep M A"
proof -
  have "free_chain (M\<lparr>bytes := b\<rparr>) p h hs = free_chain M p h hs" for p h hs
    by (intro free_chain_cong) simp
  then show ?thesis by (simp add: mem_rep_def)
qed

lemma mem_rep_memset [simp]: "mem_rep (memset_bytes a c n M) A = mem_rep M A"
  by (simp add: memset_bytes_def)

lemma mem_rep_memcpy [simp]: "mem_rep (memcpy_bytes a b n M) A = mem_rep M A"
  by (simp add: memcpy_bytes_def)

text \<open>The blocks as the users see them: by the address of the data, with the usable size.\<close>

definition data_blocks :: "heap \<Rightarrow> nat \<Rightarrow> nat option" where
  "data_blocks A x = (if x < 12 then None else map_option (\<lambda>(p, n). n - 12) (used A (x - 12)))"

definition mem_live :: "mem \<Rightarrow> (nat \<Rightarrow> nat option) \<Rightarrow> bool" where
  "mem_live M B \<longleftrightarrow> (\<exists>A. mem_rep M A \<and> heap_ok A \<and> B = data_blocks A)"

lemma data_blocks_Some:
  "data_blocks A x = Some k \<longleftrightarrow> (\<exists>a p n. x = a + 12 \<and> used A a = Some (p, n) \<and> k = n - 12)"
proof (cases "x < 12")
  case False
  then obtain a where "x = a + 12" by (metis le_add_diff_inverse2 not_less)
  then show ?thesis by (auto simp: data_blocks_def)
qed (auto simp: data_blocks_def)

lemma mem_live_alloc:
  assumes "mem_live M B" "n + 40 < 2 ^ 32"
  shows "mem_alloc_dirty p n M = Some (0, M)
    \<or> (\<exists>a M' k. mem_alloc_dirty p n M = Some (a, M') \<and> 0 < a \<and> n \<le> k \<and> B a = None
         \<and> mem_live M' (B(a := Some k)) \<and> bytes M' = bytes M)"
proof -
  obtain A where A: "mem_rep M A" "heap_ok A" "B = data_blocks A" using assms(1) by (auto simp: mem_live_def)
  show ?thesis
  proof (cases "first_fit (block_size n) (holes A p)")
    case None
    then show ?thesis using alloc_fails [OF A(1)] by simp
  next
    case (Some r)
    then obtain a k hs where f: "first_fit (block_size n) (holes A p) = Some ((a, k), hs)"
      by (metis prod.exhaust)
    let ?A = "A\<lparr>holes := (holes A)(p := hs), used := (used A)(a := Some (p, k))\<rparr>"
    note bs = block_size_bounds [OF assms(2)]
    obtain M' where M': "mem_alloc_dirty p n M = Some (a + 12, M')" "mem_rep M' ?A" "bytes M' = bytes M"
      using alloc_refines [OF A(1,2) assms(2) f] by blast
    note ok = a_alloc_ok [OF A(2) bs(2) f]
    have "data_blocks ?A = B(a + 12 := Some (k - 12))"
      by (rule ext) (auto simp: A(3) data_blocks_def)
    moreover have "n \<le> k - 12"
      using first_fit_cover [OF heap_okD(1) [OF A(2)] bs(2) f] bs(1) by linarith
    moreover have "B (a + 12) = None" using ok(2) A(3) by (simp add: data_blocks_def)
    ultimately show ?thesis using M' ok(1) unfolding mem_live_def
      by (intro disjI2 exI [of _ "a + 12"] exI [of _ M'] exI [of _ "k - 12"]) auto
  qed
qed

lemma mem_live_free:
  assumes "mem_live M B" "B x = Some k"
  shows "\<exists>M'. mem_free x M = Some M' \<and> mem_live M' (B(x := None)) \<and> bytes M' = bytes M"
proof -
  obtain A where A: "mem_rep M A" "heap_ok A" "B = data_blocks A" using assms(1) by (auto simp: mem_live_def)
  obtain a p n where x: "x = a + 12" "used A a = Some (p, n)"
    using assms(2) unfolding A(3) data_blocks_Some by blast
  have "data_blocks (a_free a A) = B(x := None)"
    by (rule ext) (auto simp: A(3) x data_blocks_def a_free_def)
  then show ?thesis using free_refines [OF A(1,2) x(2)] a_free_ok(1) [OF A(2) x(2)]
    unfolding mem_live_def x(1) by metis
qed

lemma mem_live_bad_free:
  assumes "mem_live M B" "B x = None" "12 \<le> x" "x < 2 ^ 32"
  shows "mem_free x M = None"
proof -
  obtain A where A: "mem_rep M A" "heap_ok A" "B = data_blocks A" using assms(1) by (auto simp: mem_live_def)
  have "used A (x - 12) = None" using assms(2,3) by (simp add: A(3) data_blocks_def)
  moreover have "sub32 x 12 = x - 12" using assms(3,4) by (simp add: sub32_less)
  ultimately show ?thesis using mem_repD(3) [OF A(1), of "x - 12"] assms(3)
    by (simp add: mem_free_def)
qed

lemma mem_live_block:
  assumes "mem_live M B" "B x = Some k"
  shows "12 < x" "4 \<le> k" "x + k < 2 ^ 32" "mem_size M x = Some k"
proof -
  obtain A where A: "mem_rep M A" "heap_ok A" "B = data_blocks A" using assms(1) by (auto simp: mem_live_def)
  obtain a p n where x: "x = a + 12" "used A a = Some (p, n)" "k = n - 12"
    using assms(2) unfolding A(3) data_blocks_Some by blast
  note D = heap_okD(3-5) [OF A(2) x(2)]
  show "12 < x" "4 \<le> k" "x + k < 2 ^ 32" using D x by auto
  have "sub32 x 12 = a" using D x(1) by (subst sub32_less) auto
  moreover have "sub32 n 12 = k" using D x(3) by (subst sub32_less) auto
  ultimately show "mem_size M x = Some k"
    using mem_repD(3-5) [OF A(1), of a] x(1,2) by (simp add: mem_size_def)
qed

lemma mem_live_disjoint:
  assumes "mem_live M B" "B x = Some n" "B y = Some k" "x \<noteq> y"
  shows "{x..<x + n} \<inter> {y..<y + k} = {}"
proof -
  obtain A where A: "mem_rep M A" "heap_ok A" "B = data_blocks A" using assms(1) by (auto simp: mem_live_def)
  obtain a p i where x: "x = a + 12" "used A a = Some (p, i)" "n = i - 12"
    using assms(2) unfolding A(3) data_blocks_Some by blast
  obtain b q j where y: "y = b + 12" "used A b = Some (q, j)" "k = j - 12"
    using assms(3) unfolding A(3) data_blocks_Some by blast
  have "{a..<a + i} \<inter> {b..<b + j} = {}" using heap_okD(7) [OF A(2) x(2) y(2)] assms(4) x y by simp
  moreover have "{x..<x + n} \<subseteq> {a..<a + i}" "{y..<y + k} \<subseteq> {b..<b + j}"
    using heap_okD(4) [OF A(2) x(2)] heap_okD(4) [OF A(2) y(2)] x y by auto
  ultimately show ?thesis by blast
qed

interpretation pool: allocator mem_live "mem_alloc_dirty p" mem_free "2 ^ 32 - 40" "\<lambda>a. 12 \<le> a \<and> a < 2 ^ 32" for p
proof
  fix M B a n b k
  assume l: "mem_live M B"
  show "B a = Some n \<Longrightarrow> B b = Some k \<Longrightarrow> a \<noteq> b \<Longrightarrow> {a..<a + n} \<inter> {b..<b + k} = {}"
    using mem_live_disjoint [OF l] by blast
  show "B a = Some n \<Longrightarrow> (12 \<le> a \<and> a < 2 ^ 32) \<and> 0 < a"
    using mem_live_block(1,3) [OF l, of a n] by simp
  show "B a = Some n \<Longrightarrow> \<exists>s'. mem_free a M = Some s' \<and> mem_live s' (B(a := None))"
    using mem_live_free [OF l] by blast
next
  fix M B a n M'
  assume l: "mem_live M B" and n: "n < 2 ^ 32 - (40::nat)"
  have n': "n + 40 < 2 ^ 32" using n by simp
  note al = mem_live_alloc [OF l n', of p]
  show "\<exists>a M'. mem_alloc_dirty p n M = Some (a, M')" using al by blast
  show "mem_alloc_dirty p n M = Some (0, M') \<Longrightarrow> mem_live M' B" using al l by auto
  show "mem_alloc_dirty p n M = Some (a, M') \<Longrightarrow> a \<noteq> 0 \<Longrightarrow>
    B a = None \<and> (\<exists>k\<ge>n. mem_live M' (B(a := Some k)))" using al by auto
next
  fix M B a
  assume "mem_live M B" "B a = None" "12 \<le> a \<and> a < 2 ^ 32"
  then show "mem_free a M = None" using mem_live_bad_free by blast
qed

end
