(* ===== verification/Mem_Props.thy ===== *)
theory Mem_Props
  imports Mem_Alloc
begin

text \<open>
  What the users of the memory allocator may rely on: the operations of \<open>mem/mem.c\<close> that are
  built from allocation and release, and the properties of the whole component.
\<close>

section \<open>Composite operations\<close>

lemma mem_alloc_live:
  assumes "mem_live M B" "n + 40 < 2 ^ 32"
  shows "mem_alloc p n M = Some (0, M)
    \<or> (\<exists>a M' k. mem_alloc p n M = Some (a, M') \<and> 0 < a \<and> n \<le> k \<and> B a = None
         \<and> mem_live M' (B(a := Some k)) \<and> (\<forall>i < n. bytes M' (a + i) = 0)
         \<and> (\<forall>z. z \<notin> {a..<a + n} \<longrightarrow> bytes M' z = bytes M z))"
proof -
  consider "mem_alloc_dirty p n M = Some (0, M)"
    | a M' k where "mem_alloc_dirty p n M = Some (a, M')" "0 < a" "n \<le> k" "B a = None"
      "mem_live M' (B(a := Some k))" "bytes M' = bytes M"
    using mem_live_alloc [OF assms, of p] by blast
  then show ?thesis
  proof cases
    case 1
    then show ?thesis by (simp add: mem_alloc_def)
  next
    case 2
    let ?M = "if n > 0 then memset_bytes a 0 n M' else M'"
    have "mem_alloc p n M = Some (a, ?M)" using 2 by (simp add: mem_alloc_def)
    moreover have "mem_live ?M (B(a := Some k))" using 2(5) by (simp add: mem_live_def)
    moreover have "\<forall>i < n. bytes ?M (a + i) = 0" by (simp add: memset_bytes_def)
    moreover have "\<forall>z. z \<notin> {a..<a + n} \<longrightarrow> bytes ?M z = bytes M z" using 2(6) by (auto simp: memset_bytes_def)
    ultimately show ?thesis using 2(2-4) by blast
  qed
qed

text \<open>Releasing a block through its header, as \<open>mem_realloc\<close> does.\<close>

lemma make_hole_live:
  assumes "mem_live M B" "B x = Some k"
  shows "\<exists>M'. make_hole_locked (sub32 x 12) M = Some M' \<and> mem_live M' (B(x := None)) \<and> bytes M' = bytes M"
proof -
  have "mem_free x M = make_hole_locked (sub32 x 12) M"
    using mem_live_block(1,4) [OF assms] by (auto simp: mem_free_def mem_size_def Let_def split: if_splits)
  then show ?thesis using mem_live_free [OF assms] by simp
qed

lemma mem_realloc_live:
  assumes l: "mem_live M B" and x: "B x = Some k" and n: "n + 40 < 2 ^ 32"
  shows "if n \<le> k then mem_realloc x n M = Some (x, M)
    else (\<exists>M'. mem_realloc x n M = Some (0, M') \<and> mem_live M' (B(x := None)) \<and> bytes M' = bytes M)
      \<or> (\<exists>y M' k'. mem_realloc x n M = Some (y, M') \<and> 0 < y \<and> n \<le> k' \<and> B y = None
           \<and> mem_live M' (B(x := None, y := Some k'))
           \<and> (\<forall>i < n. bytes M' (y + i) = (if i < k then bytes M (x + i) else 0))
           \<and> (\<forall>z. z \<notin> {y..<y + n} \<longrightarrow> bytes M' z = bytes M z))"
proof -
  note b = mem_live_block [OF l x]
  let ?h = "sub32 x 12"
  have h: "h_magic (hdr M ?h) = block_magic" "sub32 (h_size (hdr M ?h)) 12 = k"
    using b by (auto simp: mem_size_def Let_def split: if_splits)
  show ?thesis
  proof (cases "n \<le> k")
    case True
    then show ?thesis using b(1) h by (simp add: mem_realloc_def)
  next
    case False
    note al = mem_alloc_live [OF l n, of "h_pool (hdr M ?h)"]
    consider "mem_alloc (h_pool (hdr M ?h)) n M = Some (0, M)"
      | y M1 k' where "mem_alloc (h_pool (hdr M ?h)) n M = Some (y, M1)" "0 < y" "n \<le> k'" "B y = None"
        "mem_live M1 (B(y := Some k'))" "\<forall>i < n. bytes M1 (y + i) = 0"
        "\<forall>z. z \<notin> {y..<y + n} \<longrightarrow> bytes M1 z = bytes M z"
      using al by blast
    then show ?thesis
    proof cases
      case 1
      then show ?thesis using b(1) h False make_hole_live [OF l x] by (auto simp: mem_realloc_def)
    next
      case 2
      let ?M = "memcpy_bytes y x k M1"
      have xy: "x \<noteq> y" using x 2(4) by auto
      have l2: "mem_live ?M (B(y := Some k'))" using 2(5) by (simp add: mem_live_def)
      obtain M' where M': "make_hole_locked ?h ?M = Some M'" "mem_live M' (B(y := Some k', x := None))"
        "bytes M' = bytes ?M" using make_hole_live [OF l2, of x k] x xy by auto
      have r: "mem_realloc x n M = Some (y, M')" using b(1) h False 2(1,2) M'(1) by (simp add: mem_realloc_def)
      have dis: "{x..<x + k} \<inter> {y..<y + k'} = {}"
        using mem_live_disjoint [OF 2(5), of x k y k'] x xy by simp
      have src: "bytes M1 (x + i) = bytes M (x + i)" if "i < k" for i
      proof -
        have "x + i \<in> {x..<x + k}" using that by simp
        then have "x + i \<notin> {y..<y + k'}" using dis by blast
        then show ?thesis using 2(3,7) by auto
      qed
      have "bytes M' (y + i) = (if i < k then bytes M (x + i) else 0)" if "i < n" for i
        using M'(3) 2(6) that src by (simp add: memcpy_bytes_def)
      moreover have "bytes M' z = bytes M z" if "z \<notin> {y..<y + n}" for z
        using M'(3) 2(7) that False by (auto simp: memcpy_bytes_def)
      moreover have "B(y := Some k', x := None) = B(x := None, y := Some k')" using xy by (simp add: fun_upd_twist)
      ultimately show ?thesis using r M'(2) 2(2-4) False by auto
    qed
  qed
qed

text \<open>
  Truncation cuts a block in two. Its tail is released by the same code as any block: the code
  never looks at the magic of the new header before setting it, so the tail may be thought of
  as a second block in use.
\<close>

lemma make_hole_ignores_magic:
  "make_hole_locked a (upd_hdr a (\<lambda>r. r\<lparr>h_magic := c\<rparr>) M) = make_hole_locked a M"
  by (simp add: make_hole_locked_def Let_def upd_hdr_def upd_pool_def)

definition a_split :: "nat \<Rightarrow> nat \<Rightarrow> heap \<Rightarrow> heap" where
  "a_split a r A = (case used A a of None \<Rightarrow> A
     | Some (p, n) \<Rightarrow> A\<lparr>used := (used A)(a := Some (p, r), a + r := Some (p, n - r))\<rparr>)"

lemma a_split_ok:
  assumes ok: "heap_ok A" and u: "used A a = Some (p, n)" and r: "16 \<le> r" "r + 16 \<le> n"
  shows "heap_ok (a_split a r A)" "used A (a + r) = None"
proof -
  note D = heap_okD [OF ok]
  let ?A = "a_split a r A"
  show fresh: "used A (a + r) = None"
  proof (rule ccontr)
    assume "used A (a + r) \<noteq> None"
    then obtain q k where v: "used A (a + r) = Some (q, k)" by auto
    have "a + r \<in> {a..<a + n} \<inter> {a + r..<a + r + k}" using r D(4) [OF v] by auto
    then show False using D(7) [OF u v] r by auto
  qed
  have h: "holes ?A = holes A" "used ?A x = (if x = a then Some (p, r) else if x = a + r then Some (p, n - r) else used A x)"
    for x using u r by (auto simp: a_split_def)
  define orig where "orig x = (if x = a + r then a else x)" for x
  have part: "\<exists>q' k'. used A (orig x) = Some (q', k') \<and> {x..<x + k} \<subseteq> {orig x..<orig x + k'} \<and> 0 < x \<and> 16 \<le> k"
    if "used ?A x = Some (q, k)" for x q k
    using that u r D(3,4) [of x q k] D(3) [OF u] fresh by (auto simp: h orig_def split: if_splits)
  have blk: "0 < x \<and> 16 \<le> k \<and> x + k < 2 ^ 32 \<and> (\<forall>q. {x..<x + k} \<inter> cover (holes ?A q) = {})"
    if v: "used ?A x = Some (s, k)" for x s k
  proof -
    obtain q' k' where w: "used A (orig x) = Some (q', k')" "{x..<x + k} \<subseteq> {orig x..<orig x + k'}" "0 < x" "16 \<le> k"
      using part [OF v] by blast
    have "x + k \<le> orig x + k'" using w(2,4) by (simp add: atLeastLessThan_subset_iff)
    then show ?thesis using w D(5,6) [OF w(1)] unfolding h(1) by fastforce
  qed
  have pair: "{x..<x + j} \<inter> {y..<y + k} = {}"
    if v: "used ?A x = Some (s, j)" "used ?A y = Some (t, k)" "x \<noteq> y" for x y s t j k
  proof (cases "orig x = orig y")
    case True
    then have "x = a \<and> y = a + r \<or> y = a \<and> x = a + r" using v(3) by (auto simp: orig_def split: if_splits)
    then show ?thesis using v r by (auto simp: h)
  next
    case False
    obtain q k' where w: "used A (orig x) = Some (q, k')" "{x..<x + j} \<subseteq> {orig x..<orig x + k'}"
      using part [OF v(1)] by blast
    obtain q' l' where w': "used A (orig y) = Some (q', l')" "{y..<y + k} \<subseteq> {orig y..<orig y + l'}"
      using part [OF v(2)] by blast
    show ?thesis using D(7) [OF w(1) w'(1) False] w(2) w'(2) by blast
  qed
  show "heap_ok ?A" unfolding heap_ok_def using D(1,2) blk pair unfolding h(1) by blast
qed

lemma mem_truncate_live:
  assumes l: "mem_live M B" and x: "B x = Some k" and n: "n + 40 < 2 ^ 32"
  shows "\<exists>M'. mem_truncate x n M = Some M' \<and> bytes M' = bytes M
    \<and> mem_live M' (B(x := Some (if block_size n + 20 \<le> k + 12 then block_size n - 12 else k)))"
proof -
  obtain A where A: "mem_rep M A" "heap_ok A" "B = data_blocks A" using l by (auto simp: mem_live_def)
  obtain a p m where x': "x = a + 12" "used A a = Some (p, m)" "k = m - 12"
    using x unfolding A(3) data_blocks_Some by blast
  note D = heap_okD(3-5) [OF A(2) x'(2)] and R = mem_repD [OF A(1)] and bs = block_size_bounds [OF n]
  let ?r = "block_size n"
  have sa: "sub32 x 12 = a" using D x'(1) by (subst sub32_less) auto
  have mg: "h_magic (hdr M a) = block_magic" "h_pool (hdr M a) = p" "h_size (hdr M a) = m"
    using R(3) [of a] R(4,5) [OF x'(2)] x'(2) by auto
  show ?thesis
  proof (cases "?r + 20 \<le> m")
    case False
    then have "mem_truncate x n M = Some M" using x'(1) sa mg bs(3) by (simp add: mem_truncate_def Let_def)
    moreover have "\<not> ?r + 20 \<le> k + 12" using False x'(3) D(2) by linarith
    moreover have "B(x := Some k) = B" using x by (simp add: fun_upd_idem)
    ultimately show ?thesis using l by simp
  next
    case True
    let ?b = "a + ?r"
    have wb: "wrap ?b = ?b" "sub32 m ?r = m - ?r" using D True by (auto simp: sub32_less)
    define M1 where "M1 = upd_hdr a (\<lambda>r. r\<lparr>h_size := ?r\<rparr>) (upd_hdr ?b (\<lambda>r. r\<lparr>h_size := m - ?r\<rparr>)
      (upd_hdr ?b (\<lambda>r. r\<lparr>h_pool := p\<rparr>) M))"
    define M2 where "M2 = upd_hdr ?b (\<lambda>r. r\<lparr>h_magic := block_magic\<rparr>) M1"
    let ?A = "a_split a ?r A"
    have ok: "heap_ok ?A" "used A ?b = None" using a_split_ok [OF A(2) x'(2) bs(2)] True by auto
    have t: "mem_truncate x n M = make_hole_locked ?b M1"
      using x'(1) sa mg bs(2,3) True wb by (simp add: mem_truncate_def Let_def M1_def)
    have h: "holes ?A = holes A" "used ?A y = (if y = a then Some (p, ?r) else if y = ?b then Some (p, m - ?r) else used A y)"
      for y using x'(2) bs(2) by (auto simp: a_split_def)
    have hd: "hdr M2 y = (if y = a then (hdr M a)\<lparr>h_size := ?r\<rparr>
      else if y = ?b then (hdr M ?b)\<lparr>h_pool := p, h_size := m - ?r, h_magic := block_magic\<rparr> else hdr M y)" for y
      using bs(2) by (simp add: M1_def M2_def)
    have pl: "pools M2 = pools M" "bytes M2 = bytes M" by (simp_all add: M1_def M2_def upd_hdr_def)
    have out: "y \<noteq> a \<and> y \<noteq> ?b" if "y \<in> fst ` set (holes A q)" for y q
    proof -
      have "y \<in> cover (holes A q)" using that sep_member [OF heap_okD(1) [OF A(2), of q]] by fastforce
      then have "y \<notin> {a..<a + m}" using heap_okD(6) [OF A(2) x'(2)] by blast
      then show ?thesis using True D(2) by auto
    qed
    have ch: "free_chain M2 q (p_free_list (pools M2 q)) (holes ?A q)" for q
    proof -
      have "free_chain M2 q (p_free_list (pools M q)) (holes A q) = free_chain M q (p_free_list (pools M q)) (holes A q)"
        using out by (intro free_chain_cong) (simp add: hd)
      then show ?thesis using R(1) [of q] by (simp add: pl h)
    qed
    have rep: "mem_rep M2 ?A" unfolding mem_rep_def
      using ch R(2-5) mg(1,2) by (auto simp: h hd pl)
    have u: "used ?A ?b = Some (p, m - ?r)" using bs(2) by (simp add: h)
    obtain M' where M': "make_hole_locked ?b M2 = Some M'" "mem_rep M' (a_free ?b ?A)" "bytes M' = bytes M2"
      using make_hole_refines [OF rep ok(1) u] by blast
    have "mem_truncate x n M = Some M'" using t M'(1) by (simp add: M2_def make_hole_ignores_magic)
    moreover have "data_blocks (a_free ?b ?A) = B(x := Some (?r - 12))"
      using bs(2) ok(2) by (intro ext) (auto simp: A(3) x'(1) data_blocks_def a_free_def u h)
    then have "mem_live M' (B(x := Some (?r - 12)))"
      using M'(2) a_free_ok(1) [OF ok(1) u] unfolding mem_live_def by metis
    moreover have "?r + 20 \<le> k + 12" using True x'(3) D(2) by linarith
    ultimately show ?thesis using M'(3) pl(2) by simp
  qed
qed

section \<open>Setting up\<close>

lemma mem_init_ok:
  assumes rep: "mem_rep M A" and ok: "heap_ok A" and s: "sep 0 ((start, stop - start) # holes A p)"
    and q: "\<And>q. q \<noteq> p \<Longrightarrow> {start..<stop} \<inter> cover (holes A q) = {}"
    and u: "\<And>a q n. used A a = Some (q, n) \<Longrightarrow> {start..<stop} \<inter> {a..<a + n} = {}"
  shows "\<exists>M'. mem_init p start stop M = Some M'
    \<and> mem_rep M' (A\<lparr>holes := (holes A)(p := (start, stop - start) # holes A p)\<rparr>)
    \<and> heap_ok (A\<lparr>holes := (holes A)(p := (start, stop - start) # holes A p)\<rparr>)"
proof -
  note R = mem_repD [OF rep] and D = heap_okD [OF ok]
  let ?h = "(start, stop - start)"
  let ?A = "A\<lparr>holes := (holes A)(p := ?h # holes A p)\<rparr>"
  have ss: "0 < start" "start + 16 \<le> stop" "stop < 2 ^ 32" "sep stop (holes A p)" using s by auto
  define M' where "M' = upd_pool p (\<lambda>r. r\<lparr>p_free_list := start, p_free_size := wrap (p_free_size r + (stop - start))\<rparr>)
       (upd_hdr start (\<lambda>r. r\<lparr>h_size := stop - start, h_pool := p, h_magic := hole_magic,
          h_next := p_free_list (pools M p)\<rparr>) M)"
  have i: "mem_init p start stop M = Some M'" using ss by (simp add: mem_init_def M'_def)
  have hd: "hdr M' x = (if x = start then (hdr M start)\<lparr>h_size := stop - start, h_pool := p, h_magic := hole_magic,
          h_next := p_free_list (pools M p)\<rparr> else hdr M x)" for x by (simp add: M'_def)
  have pl: "pools M' x = (if x = p then (pools M p)\<lparr>p_free_list := start,
      p_free_size := wrap (p_free_size (pools M p) + (stop - start))\<rparr> else pools M x)" for x
    by (simp add: M'_def upd_hdr_def)
  have sin: "start \<in> {start..<stop}" using ss by simp
  have out: "start \<notin> fst ` set (holes A x)" for x
  proof (cases "x = p")
    case True
    then show ?thesis using sep_member [OF ss(4)] ss(2) by fastforce
  next
    case False
    have "fst ` set (holes A x) \<subseteq> cover (holes A x)" using sep_member [OF D(1) [of x]] by force
    then show ?thesis using q [OF False] sin by blast
  qed
  have ch: "free_chain M' x h (holes A x) = free_chain M x h (holes A x)" for x h
    using out by (intro free_chain_cong) (metis hd)
  have chain: "free_chain M' x (p_free_list (pools M' x)) (holes ?A x)" for x
    using R(1) [of x] R(1) [of p] ss by (cases "x = p") (simp_all add: ch pl hd)
  have tot: "total (holes A p) + (stop - start) < 2 ^ 32" using sep_total [OF ss(4) ss(3)] by linarith
  have size: "p_free_size (pools M' x) = total (holes ?A x)" for x
    using R(2) [of x] R(2) [of p] tot by (cases "x = p") (simp_all add: pl add.commute)
  have un: "used A start = None"
  proof (rule ccontr)
    assume "used A start \<noteq> None"
    then obtain q n where v: "used A start = Some (q, n)" by auto
    then show False using u [OF v] D(4) [OF v] sin by auto
  qed
  have "mem_rep M' ?A" unfolding mem_rep_def
    using chain size R(3-5) un by (auto simp: hd hole_magic_def block_magic_def)
  moreover have "heap_ok ?A"
  proof -
    have cov: "cover (holes ?A x) = (if x = p then {start..<stop} \<union> cover (holes A p) else cover (holes A x))" for x
      using ss by simp
    have "sep 0 (holes ?A x)" for x using s D(1) [of x] by simp
    moreover have "cover (holes ?A x) \<inter> cover (holes ?A y) = {}" if "x \<noteq> y" for x y
      using D(2) [OF that] q [of x] q [of y] that unfolding cov by auto
    moreover have "{a..<a + n} \<inter> cover (holes ?A x) = {}" if "used A a = Some (r, n)" for a r n x
      using D(6) [OF that] u [OF that] unfolding cov by auto
    ultimately show ?thesis using D(3-5,7) unfolding heap_ok_def by simp
  qed
  ultimately show ?thesis using i by blast
qed

lemma mem_reset_rep:
  assumes "\<And>a. h_magic (hdr M a) \<noteq> block_magic" "\<And>p. pools M p = \<lparr>p_free_size = 0, p_free_list = 0\<rparr>"
  shows "mem_rep M \<lparr>holes = \<lambda>_. [], used = Map.empty\<rparr>" "heap_ok \<lparr>holes = \<lambda>_. [], used = Map.empty\<rparr>"
  using assms by (auto simp: mem_rep_def heap_ok_def)

text \<open>A request of a user, the condition under which it is legal, and its service.\<close>

datatype mem_req = Alloc nat nat | Alloc_dirty nat nat | Free nat | Realloc nat nat | Truncate nat nat

fun legal :: "(nat \<Rightarrow> nat option) \<Rightarrow> mem_req \<Rightarrow> bool" where
  "legal B (Alloc p n) \<longleftrightarrow> n + 40 < 2 ^ 32"
| "legal B (Alloc_dirty p n) \<longleftrightarrow> n + 40 < 2 ^ 32"
| "legal B (Free x) \<longleftrightarrow> B x \<noteq> None"
| "legal B (Realloc x n) \<longleftrightarrow> B x \<noteq> None \<and> n + 40 < 2 ^ 32"
| "legal B (Truncate x n) \<longleftrightarrow> B x \<noteq> None \<and> n + 40 < 2 ^ 32"

fun serve :: "mem_req \<Rightarrow> mem \<Rightarrow> (nat \<times> mem) option" where
  "serve (Alloc p n) M = mem_alloc p n M"
| "serve (Alloc_dirty p n) M = mem_alloc_dirty p n M"
| "serve (Free x) M = map_option (\<lambda>M. (0, M)) (mem_free x M)"
| "serve (Realloc x n) M = mem_realloc x n M"
| "serve (Truncate x n) M = map_option (\<lambda>M. (x, M)) (mem_truncate x n M)"

fun subject :: "mem_req \<Rightarrow> nat" where
  "subject (Free x) = x"
| "subject (Realloc x n) = x"
| "subject (Truncate x n) = x"
| "subject _ = 0"

lemma serve_ok:
  assumes l: "mem_live M B" and g: "legal B r"
  shows "\<exists>a M' B'. serve r M = Some (a, M') \<and> mem_live M' B'
    \<and> (\<forall>y. y \<noteq> a \<longrightarrow> y \<noteq> subject r \<longrightarrow> B' y = B y)
    \<and> (\<forall>y k i. y \<noteq> a \<longrightarrow> y \<noteq> subject r \<longrightarrow> B y = Some k \<longrightarrow> i < k \<longrightarrow>
         bytes M' (y + i) = bytes M (y + i))"
proof -
  have keep: "bytes M' (y + i) = bytes M (y + i)"
    if "mem_live M' (B'(a := Some k'))" "n \<le> k'" "\<forall>z. z \<notin> {a..<a + n} \<longrightarrow> bytes M' z = bytes M z"
      "y \<noteq> a" "B' y = Some k" "i < k" for a M' B' k' n y k i
  proof -
    have "{y..<y + k} \<inter> {a..<a + k'} = {}"
      using mem_live_disjoint [OF that(1), of y k a k'] that(4,5) by simp
    moreover have "y + i \<in> {y..<y + k}" using that(6) by simp
    ultimately have "y + i \<notin> {a..<a + n}" using that(2) by fastforce
    then show ?thesis using that(3) by simp
  qed
  show ?thesis
  proof (cases r)
    case (Alloc p n)
    then have n: "n + 40 < 2 ^ 32" using g by simp
    from mem_alloc_live [OF l n, of p] show ?thesis
    proof
      assume "mem_alloc p n M = Some (0, M)"
      then show ?thesis using l Alloc by auto
    next
      assume "\<exists>a M' k. mem_alloc p n M = Some (a, M') \<and> 0 < a \<and> n \<le> k \<and> B a = None
         \<and> mem_live M' (B(a := Some k)) \<and> (\<forall>i < n. bytes M' (a + i) = 0)
         \<and> (\<forall>z. z \<notin> {a..<a + n} \<longrightarrow> bytes M' z = bytes M z)"
      then obtain a M' k' where m: "mem_alloc p n M = Some (a, M')" "n \<le> k'" "B a = None"
        "mem_live M' (B(a := Some k'))" "\<forall>z. z \<notin> {a..<a + n} \<longrightarrow> bytes M' z = bytes M z" by blast
      have "serve r M = Some (a, M')" "\<forall>y. y \<noteq> a \<longrightarrow> y \<noteq> subject r \<longrightarrow> (B(a := Some k')) y = B y"
        using Alloc m(1) by auto
      moreover have "\<forall>y k i. y \<noteq> a \<longrightarrow> y \<noteq> subject r \<longrightarrow> B y = Some k \<longrightarrow> i < k \<longrightarrow>
         bytes M' (y + i) = bytes M (y + i)"
        using keep [OF m(4,2,5)] by blast
      ultimately show ?thesis using m(4) by blast
    qed
  next
    case (Alloc_dirty p n)
    then have "n + 40 < 2 ^ 32" using g by simp
    then show ?thesis using mem_live_alloc [OF l, of n p] l Alloc_dirty by fastforce
  next
    case (Free x)
    then obtain k where k: "B x = Some k" using g by auto
    then show ?thesis using mem_live_free [OF l k] Free by fastforce
  next
    case (Realloc x n)
    then obtain k where k: "B x = Some k" "n + 40 < 2 ^ 32" using g by auto
    note re = mem_realloc_live [OF l k]
    show ?thesis
    proof (cases "n \<le> k")
      case True
      then have "mem_realloc x n M = Some (x, M)" using re by simp
      then show ?thesis using l Realloc by auto
    next
      case False
      then consider M' where "mem_realloc x n M = Some (0, M')" "mem_live M' (B(x := None))" "bytes M' = bytes M"
        | y M' k' where "mem_realloc x n M = Some (y, M')" "n \<le> k'" "B y = None"
           "mem_live M' (B(x := None, y := Some k'))" "\<forall>z. z \<notin> {y..<y + n} \<longrightarrow> bytes M' z = bytes M z"
        using re by (simp only: if_False) blast
      then show ?thesis
      proof cases
        case 1
        then show ?thesis using Realloc by (intro exI [of _ 0] exI [of _ M'] exI [of _ "B(x := None)"]) simp
      next
        case 2
        have m: "serve r M = Some (y, M')" using Realloc 2(1) by simp
        have "\<forall>z k i. z \<noteq> y \<longrightarrow> z \<noteq> subject r \<longrightarrow> B z = Some k \<longrightarrow> i < k \<longrightarrow>
         bytes M' (z + i) = bytes M (z + i)"
          using keep [OF 2(4,2,5)] Realloc by simp
        moreover have "\<forall>z. z \<noteq> y \<longrightarrow> z \<noteq> subject r \<longrightarrow> (B(x := None, y := Some k')) z = B z"
          using Realloc by simp
        ultimately show ?thesis using m 2(4) by blast
      qed
    qed
  next
    case (Truncate x n)
    then obtain k where k: "B x = Some k" "n + 40 < 2 ^ 32" using g by auto
    show ?thesis using mem_truncate_live [OF l k] Truncate by fastforce
  qed
qed

lemma alloc_free_available:
  assumes l: "mem_rep M A" "heap_ok A" and n: "n + 40 < 2 ^ 32" and a: "mem_alloc_dirty p n M = Some (x, M1)"
    and x: "x \<noteq> 0"
  shows "\<exists>M2. mem_free x M1 = Some M2 \<and> mem_available M2 p = mem_available M p
    \<and> mem_available M1 p + (n + 12) \<le> mem_available M p"
proof -
  note bs = block_size_bounds [OF n]
  have "first_fit (block_size n) (holes A p) \<noteq> None"
    using alloc_fails [OF l(1), of n p] a x by (cases "first_fit (block_size n) (holes A p)") auto
  then obtain b k hs where f: "first_fit (block_size n) (holes A p) = Some ((b, k), hs)"
    by (metis option.exhaust prod.exhaust)
  let ?A = "A\<lparr>holes := (holes A)(p := hs), used := (used A)(b := Some (p, k))\<rparr>"
  have x1: "x = b + 12" "mem_rep M1 ?A" using alloc_refines [OF l n f] a by auto
  note fc = first_fit_cover [OF heap_okD(1) [OF l(2)] bs(2) f]
  have ok: "heap_ok ?A" by (rule a_alloc_ok(1) [OF l(2) bs(2) f])
  have u: "used ?A b = Some (p, k)" by simp
  obtain M2 where M2: "mem_free x M1 = Some M2" "mem_rep M2 (a_free b ?A)"
    using free_refines [OF x1(2) ok u] x1(1) by auto
  have "total (holes (a_free b ?A) p) = k + total hs" using a_free_ok(2) [OF ok u] by simp
  then have "mem_available M2 p = mem_available M p"
    using mem_repD(2) [OF M2(2), of p] mem_repD(2) [OF l(1), of p] fc by (simp add: mem_available_def)
  moreover have "mem_available M1 p + (n + 12) \<le> mem_available M p"
    using mem_repD(2) [OF x1(2), of p] mem_repD(2) [OF l(1), of p] fc bs(1) by (simp add: mem_available_def)
  ultimately show ?thesis using M2(1) by blast
qed

section \<open>A memory to run on\<close>

definition boot_mem :: mem where
  "boot_mem = the (mem_init 1 0x1000 0x2000 \<lparr>hdr = \<lambda>_. \<lparr>h_size = 0, h_pool = 0, h_magic = 0, h_next = 0\<rparr>,
     pools = \<lambda>_. \<lparr>p_free_size = 0, p_free_list = 0\<rparr>, bytes = \<lambda>_. 7\<rparr>)"

definition boot_heap :: heap where
  "boot_heap = \<lparr>holes = (\<lambda>_. [])(1 := [(0x1000, 0x1000)]), used = Map.empty\<rparr>"

lemma boot_ok: "mem_rep boot_mem boot_heap" "heap_ok boot_heap"
proof -
  let ?M = "\<lparr>hdr = \<lambda>_. \<lparr>h_size = 0, h_pool = 0, h_magic = 0, h_next = 0\<rparr>,
     pools = \<lambda>_. \<lparr>p_free_size = 0, p_free_list = 0\<rparr>, bytes = \<lambda>_. 7 :: u8\<rparr>"
  have r: "mem_rep ?M \<lparr>holes = \<lambda>_. [], used = Map.empty\<rparr>" "heap_ok \<lparr>holes = \<lambda>_. [], used = Map.empty\<rparr>"
    using mem_reset_rep [of ?M] by (simp_all add: block_magic_def)
  have "\<exists>M'. mem_init 1 0x1000 0x2000 ?M = Some M' \<and> mem_rep M' boot_heap \<and> heap_ok boot_heap"
    using mem_init_ok [OF r, of "0x1000" "0x2000" 1] by (simp add: boot_heap_def)
  then show "mem_rep boot_mem boot_heap" "heap_ok boot_heap" by (auto simp: boot_mem_def)
qed

lemma boot_live: "mem_live boot_mem Map.empty"
proof -
  have "data_blocks boot_heap = Map.empty" by (rule ext) (simp add: data_blocks_def boot_heap_def)
  then show ?thesis using boot_ok unfolding mem_live_def by metis
qed

section \<open>Properties\<close>

text \<open>C6: \<open>mem_alloc_dirty\<close> implements first fit. On a heap whose free lists are intact it takes the
  lowest hole that is large enough, splits it if the rest can hold a hole of its own, and returns
  the address behind the header; if no hole is large enough it returns null and changes nothing.\<close>

theorem alloc_is_first_fit:
  assumes "mem_rep M A" "heap_ok A" "n + 40 < 2 ^ 32"
  shows "case a_alloc p (block_size n) A of
      None \<Rightarrow> mem_alloc_dirty p n M = Some (0, M)
    | Some (a, A') \<Rightarrow> \<exists>M'. mem_alloc_dirty p n M = Some (a + 12, M') \<and> mem_rep M' A' \<and> heap_ok A'"
proof (cases "first_fit (block_size n) (holes A p)")
  case None
  then show ?thesis using alloc_fails [OF assms(1)] by (simp add: a_alloc_def)
next
  case (Some r)
  obtain a k hs where r: "r = ((a, k), hs)" by (metis prod.exhaust)
  show ?thesis
    using alloc_refines [OF assms Some [unfolded r]] a_alloc_ok(1) [OF assms(2) _ Some [unfolded r]]
      block_size_bounds(2) [OF assms(3)] by (auto simp: a_alloc_def Some r)
qed

lemma alloc_is_first_fit_witness:
  "\<exists>M'. mem_alloc_dirty 1 100 boot_mem = Some (0x100c, M') \<and> mem_rep M'
     \<lparr>holes = (\<lambda>_. [])(1 := [(0x1070, 0xf90)]), used = [0x1000 \<mapsto> (1, 0x70)]\<rparr>"
proof -
  have "a_alloc 1 (block_size 100) boot_heap
    = Some (0x1000, \<lparr>holes = (\<lambda>_. [])(1 := [(0x1070, 0xf90)]), used = [0x1000 \<mapsto> (1, 0x70)]\<rparr>)"
    by (simp add: a_alloc_def boot_heap_def block_size_def mem_align_def)
  then show ?thesis using alloc_is_first_fit [OF boot_ok, of 100 1] by auto
qed

text \<open>C7: \<open>mem_free\<close> of a block in use inserts it into the address ordered list of holes of its pool
  and joins it with the hole before it and the hole behind it when they touch; the holes still
  do not overlap or touch each other or a block in use.\<close>

theorem free_coalesces:
  assumes "mem_rep M A" "heap_ok A" "used A a = Some (p, n)"
  shows "\<exists>M'. mem_free (a + 12) M = Some M' \<and> mem_rep M' (a_free a A) \<and> heap_ok (a_free a A)
    \<and> cover (holes (a_free a A) p) = cover (holes A p) \<union> {a..<a + n}"
  using free_refines [OF assms] a_free_ok(1) [OF assms(2,3)] assms(3)
    insert_hole_cover [OF heap_okD(1) [OF assms(2)] heap_okD(3-5) [OF assms(2,3)] heap_okD(6) [OF assms(2,3)]]
  by (auto simp: a_free_def)

lemma free_coalesces_witness:
  "\<exists>M M'. mem_alloc_dirty 1 100 boot_mem = Some (0x100c, M) \<and> mem_free 0x100c M = Some M' \<and> mem_rep M' boot_heap"
proof -
  let ?A = "\<lparr>holes = (\<lambda>_. [])(1 := [(0x1070, 0xf90)]), used = [0x1000 \<mapsto> (1, 0x70)]\<rparr>"
  have f: "first_fit (block_size 100) (holes boot_heap 1) = Some ((0x1000, 0x70), [(0x1070, 0xf90)])"
    by (simp add: boot_heap_def block_size_def mem_align_def)
  have A: "boot_heap\<lparr>holes := (holes boot_heap)(1 := [(0x1070, 0xf90)]),
      used := (used boot_heap)(0x1000 := Some (1, 0x70))\<rparr> = ?A" by (simp add: boot_heap_def)
  obtain M where M: "mem_alloc_dirty 1 100 boot_mem = Some (0x100c, M)" "mem_rep M ?A"
    using alloc_refines [OF boot_ok _ f] unfolding A by auto
  have ok: "heap_ok ?A" using a_alloc_ok(1) [OF boot_ok(2) block_size_bounds(2) f] unfolding A by simp
  have b: "a_free 0x1000 ?A = boot_heap"
    by (auto simp: a_free_def boot_heap_def)
  have "\<exists>M'. mem_free (0x1000 + 12) M = Some M' \<and> mem_rep M' (a_free 0x1000 ?A)"
    using free_coalesces [OF M(2) ok, of "0x1000"] by auto
  then show ?thesis using M(1) unfolding b by auto
qed

text \<open>C8: No legal request halts the system, and none disturbs a block it is not about: the other
  blocks keep their address, their size and their contents, and the blocks in use stay disjoint.\<close>

theorem requests_keep_blocks:
  assumes "mem_live M B" "legal B r"
  shows "\<exists>a M' B'. serve r M = Some (a, M') \<and> mem_live M' B'
    \<and> (\<forall>y. y \<noteq> a \<longrightarrow> y \<noteq> subject r \<longrightarrow> B' y = B y)
    \<and> (\<forall>y k i. y \<noteq> a \<longrightarrow> y \<noteq> subject r \<longrightarrow> B y = Some k \<longrightarrow> i < k \<longrightarrow>
         bytes M' (y + i) = bytes M (y + i))
    \<and> (\<forall>x y j k. B' x = Some j \<longrightarrow> B' y = Some k \<longrightarrow> x \<noteq> y \<longrightarrow> {x..<x + j} \<inter> {y..<y + k} = {})"
proof -
  obtain a M' B' where *: "serve r M = Some (a, M')" "mem_live M' B'"
    "\<forall>y. y \<noteq> a \<longrightarrow> y \<noteq> subject r \<longrightarrow> B' y = B y"
    "\<forall>y k i. y \<noteq> a \<longrightarrow> y \<noteq> subject r \<longrightarrow> B y = Some k \<longrightarrow> i < k \<longrightarrow> bytes M' (y + i) = bytes M (y + i)"
    using serve_ok [OF assms] by blast
  have "\<forall>x y j k. B' x = Some j \<longrightarrow> B' y = Some k \<longrightarrow> x \<noteq> y \<longrightarrow> {x..<x + j} \<inter> {y..<y + k} = {}"
    using mem_live_disjoint [OF *(2)] by blast
  with * show ?thesis by (intro exI [of _ a] exI [of _ M'] exI [of _ B'] conjI)
qed

lemma requests_keep_blocks_witness:
  "\<exists>a M' B'. serve (Alloc 1 100) boot_mem = Some (a, M') \<and> mem_live M' B'"
  using requests_keep_blocks [OF boot_live, of "Alloc 1 100"] by auto

text \<open>\<open>mem_realloc\<close> returns the block itself if it is large enough; otherwise it moves it to a
  new block with the old contents followed by zeroes and releases the old one, or, with no
  memory left, releases the old block and returns null.\<close>

theorem realloc_moves_contents:
  assumes "mem_live M B" "B x = Some k" "n + 40 < 2 ^ 32"
  shows "if n \<le> k then mem_realloc x n M = Some (x, M)
    else (\<exists>M'. mem_realloc x n M = Some (0, M') \<and> mem_live M' (B(x := None)) \<and> bytes M' = bytes M)
      \<or> (\<exists>y M' k'. mem_realloc x n M = Some (y, M') \<and> 0 < y \<and> n \<le> k' \<and> B y = None
           \<and> mem_live M' (B(x := None, y := Some k'))
           \<and> (\<forall>i < n. bytes M' (y + i) = (if i < k then bytes M (x + i) else 0)))"
proof (cases "n \<le> k")
  case True
  then show ?thesis using mem_realloc_live [OF assms] by simp
next
  case False
  then show ?thesis using mem_realloc_live [OF assms] by (simp only: if_False) blast
qed

lemma realloc_moves_contents_witness:
  "\<exists>x M k. mem_alloc_dirty 1 8 boot_mem = Some (x, M) \<and> mem_realloc x 4 M = Some (x, M) \<and> (8::nat) \<le> k"
proof -
  have "a_alloc 1 (block_size 8) boot_heap \<noteq> None"
    by (simp add: a_alloc_def boot_heap_def block_size_def mem_align_def)
  then have "mem_alloc_dirty 1 8 boot_mem \<noteq> Some (0, boot_mem)"
    using alloc_is_first_fit [OF boot_ok, of 8 1] by auto
  then obtain x M k where a: "mem_alloc_dirty 1 8 boot_mem = Some (x, M)" "8 \<le> k" "mem_live M [x \<mapsto> k]"
    using mem_live_alloc [OF boot_live, of 8 1] by auto
  have "mem_realloc x 4 M = Some (x, M)"
    using realloc_moves_contents [OF a(3), of x k 4] a(2) by simp
  then show ?thesis using a by blast
qed

text \<open>\<open>mem_truncate\<close> shrinks a block to the size asked for when the rest can be a block of its
  own, and otherwise leaves its size; the part that stays in use keeps its contents.\<close>

theorem truncate_keeps_front:
  assumes "mem_live M B" "B x = Some k" "n + 40 < 2 ^ 32"
  shows "\<exists>M' k'. mem_truncate x n M = Some M' \<and> mem_live M' (B(x := Some k')) \<and> k' \<le> k \<and> min n k \<le> k'
    \<and> (k' = k \<or> k' = block_size n - 12) \<and> (\<forall>i < k'. bytes M' (x + i) = bytes M (x + i))"
proof -
  let ?k = "if block_size n + 20 \<le> k + 12 then block_size n - 12 else k"
  have "min n k \<le> ?k" "?k \<le> k" using block_size_bounds(1) [OF assms(3)] by auto
  moreover obtain M' where "mem_truncate x n M = Some M'" "bytes M' = bytes M" "mem_live M' (B(x := Some ?k))"
    using mem_truncate_live [OF assms] by blast
  ultimately show ?thesis by (intro exI [of _ M'] exI [of _ ?k]) simp
qed

lemma truncate_keeps_front_witness:
  "\<exists>x k M M' k'. mem_live M [x \<mapsto> k] \<and> mem_truncate x 8 M = Some M' \<and> mem_live M' [x \<mapsto> k'] \<and> 8 \<le> k'"
proof -
  have "a_alloc 1 (block_size 100) boot_heap \<noteq> None"
    by (simp add: a_alloc_def boot_heap_def block_size_def mem_align_def)
  then have "mem_alloc_dirty 1 100 boot_mem \<noteq> Some (0, boot_mem)"
    using alloc_is_first_fit [OF boot_ok, of 100 1] by auto
  then obtain x M k where a: "100 \<le> k" "mem_live M [x \<mapsto> k]"
    using mem_live_alloc [OF boot_live, of 100 1] by auto
  have k: "[x \<mapsto> k] x = Some k" and e: "8 + 40 < (2::nat) ^ 32" by simp_all
  obtain M' k' where "mem_truncate x 8 M = Some M'" "mem_live M' ([x \<mapsto> k](x := Some k'))" "min 8 k \<le> k'"
    using truncate_keeps_front [OF a(2) k e] by blast
  then show ?thesis using a
    by (intro exI [of _ x] exI [of _ k] exI [of _ M] exI [of _ M'] exI [of _ k']) auto
qed

text \<open>Releasing the block just received gives the pool back exactly the free space it had
  before, and a second release of the same block halts the system.\<close>

theorem alloc_free_roundtrip:
  assumes "mem_rep M A" "heap_ok A" "n + 40 < 2 ^ 32" "mem_alloc_dirty p n M = Some (x, M1)" "x \<noteq> 0"
  shows "\<exists>M2. mem_free x M1 = Some M2 \<and> mem_available M2 p = mem_available M p
    \<and> mem_available M1 p + (n + 12) \<le> mem_available M p \<and> mem_free x M2 = None"
proof -
  obtain M2 where M2: "mem_free x M1 = Some M2" "mem_available M2 p = mem_available M p"
    "mem_available M1 p + (n + 12) \<le> mem_available M p" using alloc_free_available [OF assms] by blast
  have l: "mem_live M (data_blocks A)" using assms(1,2) unfolding mem_live_def by blast
  obtain k where "mem_live M1 ((data_blocks A)(x := Some k))"
    using pool.alloc_new [OF l _ assms(4,5)] assms(3) by auto
  then have "mem_free x M2 = None" using pool.double_free [of M1 _ x k M2] M2(1) by simp
  then show ?thesis using M2 by blast
qed

lemma alloc_free_roundtrip_witness:
  "\<exists>x M1 M2. mem_alloc_dirty 1 8 boot_mem = Some (x, M1) \<and> mem_free x M1 = Some M2 \<and> mem_free x M2 = None"
proof -
  have f: "first_fit (block_size 8) (holes boot_heap 1) = Some ((0x1000, 20), [(0x1014, 0xfec)])"
    by (simp add: boot_heap_def block_size_def mem_align_def)
  obtain M1 where M1: "mem_alloc_dirty 1 8 boot_mem = Some (0x1000 + 12, M1)"
    using alloc_refines [OF boot_ok _ f] by auto
  obtain M2 where "mem_free (0x1000 + 12) M1 = Some M2" "mem_free (0x1000 + 12) M2 = None"
    using alloc_free_roundtrip [OF boot_ok _ M1] by auto
  then show ?thesis using M1 by blast
qed

text \<open>The size computation wraps for requests close to the top of the address range: the request
  below needs a block of size 0, so the first hole satisfies it. The properties above exclude it
  by their bound on the size.\<close>

lemma huge_request_succeeds:
  "block_size 0xfffffff4 = 0"
  "\<exists>M'. mem_alloc_dirty 1 0xfffffff4 boot_mem = Some (0x100c, M')"
proof -
  show b: "block_size 0xfffffff4 = 0" by (simp add: block_size_def mem_align_def)
  have "find_hole boot_mem 1 0 (FreeList 1) 0x1000 = Some (FreeList 1, 0x1000)"
    by (subst find_hole.simps) (simp add: boot_mem_def mem_init_def upd_pool_def upd_hdr_def)
  moreover have "p_free_list (pools boot_mem 1) = 0x1000"
    by (simp add: boot_mem_def mem_init_def upd_pool_def upd_hdr_def)
  ultimately show "\<exists>M'. mem_alloc_dirty 1 0xfffffff4 boot_mem = Some (0x100c, M')"
    by (simp add: mem_alloc_dirty_def b)
qed

end
