(* ===== verification/Crc.thy ===== *)
theory Crc
  imports Uos_Prelude
begin

text \<open>
  The cyclic redundancy checks of \<open>crc/*.c\<close>: the table driven CCITT and CRC-16 sums with 16
  bits and the ATM and Dallas sums with 8 bits, in their portable C variant. A buffer and its
  length are one list of bytes.

  The lemmas show that the tables hold the remainders of polynomial division, that the table
  driven update is eight steps of the bitwise division, and that an update can be undone, so
  that no error within one byte goes unnoticed.
\<close>

section \<open>The code\<close>

text \<open>\<open>crc16-ccitt.c\<close>\<close>

definition ccitt_tab :: "u16 list" where
  "ccitt_tab = [
    0x0000, 0x1189, 0x2312, 0x329b, 0x4624, 0x57ad, 0x6536, 0x74bf,
    0x8c48, 0x9dc1, 0xaf5a, 0xbed3, 0xca6c, 0xdbe5, 0xe97e, 0xf8f7,
    0x1081, 0x0108, 0x3393, 0x221a, 0x56a5, 0x472c, 0x75b7, 0x643e,
    0x9cc9, 0x8d40, 0xbfdb, 0xae52, 0xdaed, 0xcb64, 0xf9ff, 0xe876,
    0x2102, 0x308b, 0x0210, 0x1399, 0x6726, 0x76af, 0x4434, 0x55bd,
    0xad4a, 0xbcc3, 0x8e58, 0x9fd1, 0xeb6e, 0xfae7, 0xc87c, 0xd9f5,
    0x3183, 0x200a, 0x1291, 0x0318, 0x77a7, 0x662e, 0x54b5, 0x453c,
    0xbdcb, 0xac42, 0x9ed9, 0x8f50, 0xfbef, 0xea66, 0xd8fd, 0xc974,
    0x4204, 0x538d, 0x6116, 0x709f, 0x0420, 0x15a9, 0x2732, 0x36bb,
    0xce4c, 0xdfc5, 0xed5e, 0xfcd7, 0x8868, 0x99e1, 0xab7a, 0xbaf3,
    0x5285, 0x430c, 0x7197, 0x601e, 0x14a1, 0x0528, 0x37b3, 0x263a,
    0xdecd, 0xcf44, 0xfddf, 0xec56, 0x98e9, 0x8960, 0xbbfb, 0xaa72,
    0x6306, 0x728f, 0x4014, 0x519d, 0x2522, 0x34ab, 0x0630, 0x17b9,
    0xef4e, 0xfec7, 0xcc5c, 0xddd5, 0xa96a, 0xb8e3, 0x8a78, 0x9bf1,
    0x7387, 0x620e, 0x5095, 0x411c, 0x35a3, 0x242a, 0x16b1, 0x0738,
    0xffcf, 0xee46, 0xdcdd, 0xcd54, 0xb9eb, 0xa862, 0x9af9, 0x8b70,
    0x8408, 0x9581, 0xa71a, 0xb693, 0xc22c, 0xd3a5, 0xe13e, 0xf0b7,
    0x0840, 0x19c9, 0x2b52, 0x3adb, 0x4e64, 0x5fed, 0x6d76, 0x7cff,
    0x9489, 0x8500, 0xb79b, 0xa612, 0xd2ad, 0xc324, 0xf1bf, 0xe036,
    0x18c1, 0x0948, 0x3bd3, 0x2a5a, 0x5ee5, 0x4f6c, 0x7df7, 0x6c7e,
    0xa50a, 0xb483, 0x8618, 0x9791, 0xe32e, 0xf2a7, 0xc03c, 0xd1b5,
    0x2942, 0x38cb, 0x0a50, 0x1bd9, 0x6f66, 0x7eef, 0x4c74, 0x5dfd,
    0xb58b, 0xa402, 0x9699, 0x8710, 0xf3af, 0xe226, 0xd0bd, 0xc134,
    0x39c3, 0x284a, 0x1ad1, 0x0b58, 0x7fe7, 0x6e6e, 0x5cf5, 0x4d7c,
    0xc60c, 0xd785, 0xe51e, 0xf497, 0x8028, 0x91a1, 0xa33a, 0xb2b3,
    0x4a44, 0x5bcd, 0x6956, 0x78df, 0x0c60, 0x1de9, 0x2f72, 0x3efb,
    0xd68d, 0xc704, 0xf59f, 0xe416, 0x90a9, 0x8120, 0xb3bb, 0xa232,
    0x5ac5, 0x4b4c, 0x79d7, 0x685e, 0x1ce1, 0x0d68, 0x3ff3, 0x2e7a,
    0xe70e, 0xf687, 0xc41c, 0xd595, 0xa12a, 0xb0a3, 0x8238, 0x93b1,
    0x6b46, 0x7acf, 0x4854, 0x59dd, 0x2d62, 0x3ceb, 0x0e70, 0x1ff9,
    0xf78f, 0xe606, 0xd49d, 0xc514, 0xb1ab, 0xa022, 0x92b9, 0x8330,
    0x7bc7, 0x6a4e, 0x58d5, 0x495c, 0x3de3, 0x2c6a, 0x1ef1, 0x0f78]"

definition crc16_ccitt_byte :: "u16 \<Rightarrow> u8 \<Rightarrow> u16" where
  "crc16_ccitt_byte s byte = drop_bit 8 s XOR ccitt_tab ! unat (byte XOR ucast s)"

fun crc16_ccitt :: "u16 \<Rightarrow> u8 list \<Rightarrow> u16" where
  "crc16_ccitt s [] = s"
| "crc16_ccitt s (b # buf) =
     crc16_ccitt (drop_bit 8 s XOR ccitt_tab ! unat (b XOR ucast s)) buf"

definition CRC16_CCITT_INIT :: u16 where "CRC16_CCITT_INIT = 0xffff"
definition CRC16_CCITT_GOOD :: u16 where "CRC16_CCITT_GOOD = 0xf0b8"
definition CRC16_INIT :: u16 where "CRC16_INIT = 0"
definition CRC16_GOOD :: u16 where "CRC16_GOOD = 0"

text \<open>\<open>crc16.c\<close>: a table for half a byte\<close>

definition poly_tab_data :: "u16 list" where
  "poly_tab_data = [0x0000, 0xcc01, 0xd801, 0x1400, 0xf001, 0x3c00, 0x2800, 0xe401,
    0xa001, 0x6c00, 0x7800, 0xb401, 0x5000, 0x9c01, 0x8801, 0x4400]"

definition poly_tab :: "u8 \<Rightarrow> u16" where
  "poly_tab nibble = poly_tab_data ! unat nibble"

definition crc16_byte :: "u16 \<Rightarrow> u8 \<Rightarrow> u16" where
  "crc16_byte s byte =
     (let s = drop_bit 4 s XOR poly_tab (ucast (s AND 0xF)) XOR poly_tab (byte AND 0xF)
      in drop_bit 4 s XOR poly_tab (ucast (s AND 0xF)) XOR poly_tab (drop_bit 4 byte))"

fun crc16 :: "u16 \<Rightarrow> u8 list \<Rightarrow> u16" where
  "crc16 s [] = s"
| "crc16 s (b # buf) = crc16 (crc16_byte s b) buf"

text \<open>\<open>crc8-atm.c\<close> and \<open>crc8-dallas.c\<close>. The loop of both counts the length down.\<close>

definition atm_tab :: "u8 list" where
  "atm_tab = [
    0, 7, 14, 9, 28, 27, 18, 21, 56, 63, 54, 49, 36, 35, 42, 45,
    112, 119, 126, 121, 108, 107, 98, 101, 72, 79, 70, 65, 84, 83, 90, 93,
    224, 231, 238, 233, 252, 251, 242, 245, 216, 223, 214, 209, 196, 195, 202, 205,
    144, 151, 158, 153, 140, 139, 130, 133, 168, 175, 166, 161, 180, 179, 186, 189,
    199, 192, 201, 206, 219, 220, 213, 210, 255, 248, 241, 246, 227, 228, 237, 234,
    183, 176, 185, 190, 171, 172, 165, 162, 143, 136, 129, 134, 147, 148, 157, 154,
    39, 32, 41, 46, 59, 60, 53, 50, 31, 24, 17, 22, 3, 4, 13, 10,
    87, 80, 89, 94, 75, 76, 69, 66, 111, 104, 97, 102, 115, 116, 125, 122,
    137, 142, 135, 128, 149, 146, 155, 156, 177, 182, 191, 184, 173, 170, 163, 164,
    249, 254, 247, 240, 229, 226, 235, 236, 193, 198, 207, 200, 221, 218, 211, 212,
    105, 110, 103, 96, 117, 114, 123, 124, 81, 86, 95, 88, 77, 74, 67, 68,
    25, 30, 23, 16, 5, 2, 11, 12, 33, 38, 47, 40, 61, 58, 51, 52,
    78, 73, 64, 71, 82, 85, 92, 91, 118, 113, 120, 127, 106, 109, 100, 99,
    62, 57, 48, 55, 34, 37, 44, 43, 6, 1, 8, 15, 26, 29, 20, 19,
    174, 169, 160, 167, 178, 181, 188, 187, 150, 145, 152, 159, 138, 141, 132, 131,
    222, 217, 208, 215, 194, 197, 204, 203, 230, 225, 232, 239, 250, 253, 244, 243]"

definition dallas_tab :: "u8 list" where
  "dallas_tab = [
    0, 49, 98, 83, 196, 245, 166, 151, 185, 136, 219, 234, 125, 76, 31, 46,
    67, 114, 33, 16, 135, 182, 229, 212, 250, 203, 152, 169, 62, 15, 92, 109,
    134, 183, 228, 213, 66, 115, 32, 17, 63, 14, 93, 108, 251, 202, 153, 168,
    197, 244, 167, 150, 1, 48, 99, 82, 124, 77, 30, 47, 184, 137, 218, 235,
    61, 12, 95, 110, 249, 200, 155, 170, 132, 181, 230, 215, 64, 113, 34, 19,
    126, 79, 28, 45, 186, 139, 216, 233, 199, 246, 165, 148, 3, 50, 97, 80,
    187, 138, 217, 232, 127, 78, 29, 44, 2, 51, 96, 81, 198, 247, 164, 149,
    248, 201, 154, 171, 60, 13, 94, 111, 65, 112, 35, 18, 133, 180, 231, 214,
    122, 75, 24, 41, 190, 143, 220, 237, 195, 242, 161, 144, 7, 54, 101, 84,
    57, 8, 91, 106, 253, 204, 159, 174, 128, 177, 226, 211, 68, 117, 38, 23,
    252, 205, 158, 175, 56, 9, 90, 107, 69, 116, 39, 22, 129, 176, 227, 210,
    191, 142, 221, 236, 123, 74, 25, 40, 6, 55, 100, 85, 194, 243, 160, 145,
    71, 118, 37, 20, 131, 178, 225, 208, 254, 207, 156, 173, 58, 11, 88, 105,
    4, 53, 102, 87, 192, 241, 162, 147, 189, 140, 223, 238, 121, 72, 27, 42,
    193, 240, 163, 146, 5, 52, 103, 86, 120, 73, 26, 43, 188, 141, 222, 239,
    130, 179, 224, 209, 70, 119, 36, 21, 59, 10, 89, 104, 255, 206, 157, 172]"

fun crc8_loop :: "u8 list \<Rightarrow> u8 \<Rightarrow> u8 list \<Rightarrow> u8" where
  "crc8_loop tab s [] = s"
| "crc8_loop tab s (b # buf) = crc8_loop tab (b XOR tab ! unat s) buf"

definition crc8_atm :: "u8 list \<Rightarrow> u8" where
  "crc8_atm buf = NOT (crc8_loop atm_tab 0 buf)"

definition crc8_dallas :: "u8 list \<Rightarrow> u8" where
  "crc8_dallas buf = NOT (crc8_loop dallas_tab 0 buf)"

text \<open>The bitwise variant \<open>crc8_atm_slow\<close>, which the file keeps for tests.\<close>

definition slow_step :: "u16 \<Rightarrow> u16" where
  "slow_step s = (if s AND 0x8000 \<noteq> 0 then push_bit 1 s XOR 0x0700 else push_bit 1 s)"

fun slow_loop :: "u16 \<Rightarrow> u8 list \<Rightarrow> u16" where
  "slow_loop s [] = s"
| "slow_loop s (b # buf) = slow_loop ((slow_step ^^ 8) (s OR ucast b)) buf"

definition crc8_atm_slow :: "u8 list \<Rightarrow> u8" where
  "crc8_atm_slow buf = NOT (ucast (drop_bit 8 (slow_loop 0 buf)))"

section \<open>Polynomial division\<close>

text \<open>One step of the division, for the bit reversed representation (the 16-bit sums) and for
  the straight one (the 8-bit sums). Both are linear over exclusive or.\<close>

definition rstep :: "u16 \<Rightarrow> u16 \<Rightarrow> u16" where
  "rstep P x = drop_bit 1 x XOR (if odd x then P else 0)"

definition lstep :: "u8 \<Rightarrow> u8 \<Rightarrow> u8" where
  "lstep P x = push_bit 1 x XOR (if bit x 7 then P else 0)"

definition linear :: "('a::len word \<Rightarrow> 'b::len word) \<Rightarrow> bool" where
  "linear f \<longleftrightarrow> (\<forall>x y. f (x XOR y) = f x XOR f y)"

lemma linear_xor: "linear f \<Longrightarrow> f (x XOR y) = f x XOR f y"
  by (simp add: linear_def)

lemma linear_0: "linear f \<Longrightarrow> f 0 = 0"
  using linear_xor [of f 0 0] by simp

lemma linear_funpow: "linear (f :: 'a::len word \<Rightarrow> 'a word) \<Longrightarrow> linear (f ^^ n)"
  by (induction n) (simp_all add: linear_def)

lemma linear_inj: "linear f \<Longrightarrow> (\<And>z. f z = 0 \<Longrightarrow> z = 0) \<Longrightarrow> f x = f y \<Longrightarrow> x = y"
proof -
  assume l: "linear f" and z: "\<And>z. f z = 0 \<Longrightarrow> z = 0" and e: "f x = f y"
  have "f (x XOR y) = 0" using linear_xor [OF l, of x y] e by simp
  then have "x XOR y = 0" by (rule z)
  then have "(x XOR y) XOR y = y" by simp
  then show "x = y" by (simp add: xor.assoc)
qed

lemma odd_xor_word: "odd (x XOR y :: 'a::len word) \<longleftrightarrow> odd x \<noteq> odd y"
  by (simp add: even_xor_iff)

lemma linear_rstep: "linear (rstep P)"
  by (auto simp: linear_def rstep_def odd_xor_word ac_simps bit.xor_left_self)

lemma linear_lstep: "linear (lstep P)"
  by (simp add: linear_def lstep_def bit_xor_iff ac_simps bit.xor_left_self del: push_bit_Suc)

text \<open>A table of a linear function is spanned by its values at the powers of two.\<close>

fun span :: "'a::len word list \<Rightarrow> 'a word list \<Rightarrow> 'a word list" where
  "span L [] = L"
| "span L (t # ts) = span (L @ map (\<lambda>x. x XOR t) L) ts"

lemma of_nat_power_add:
  assumes "i < 2 ^ k"
  shows "(of_nat (2 ^ k + i) :: 'a::len word) = of_nat i XOR 2 ^ k"
proof -
  have "take_bit k i = i" using assms by (simp add: take_bit_nat_eq_self)
  then have "2 ^ k AND i = 0" by (metis bit_take_bit_iff and_exp_eq_0_iff_not_bit and.commute less_irrefl)
  then have "2 ^ k + i = 2 ^ k XOR i" by (rule disjunctive_add_eq_xor)
  then show ?thesis by (simp add: of_nat_xor_eq xor.commute)
qed

lemma span_linear:
  fixes f :: "'b::len word \<Rightarrow> 'a::len word"
  assumes l: "linear f"
  shows "span (map (\<lambda>i. f (of_nat i)) [0..<2 ^ k]) (map (\<lambda>j. f (2 ^ j)) [k..<k + n])
    = map (\<lambda>i. f (of_nat i)) [0..<2 ^ (k + n)]"
proof (induction n arbitrary: k)
  case (Suc n)
  have "map (\<lambda>i. f (of_nat i)) [0..<2 ^ k] @ map (\<lambda>x. x XOR f (2 ^ k)) (map (\<lambda>i. f (of_nat i)) [0..<2 ^ k])
    = map (\<lambda>i. f (of_nat i)) [0..<2 ^ Suc k]" (is "?L = ?R")
  proof (rule nth_equalityI)
    show "length ?L = length ?R" by simp
    fix i assume i: "i < length ?L"
    show "?L ! i = ?R ! i"
    proof (cases "i < 2 ^ k")
      case True
      then show ?thesis by (simp add: nth_append)
    next
      case False
      define j where "j = i - 2 ^ k"
      have j: "i = 2 ^ k + j" "j < 2 ^ k" using i False by (simp_all add: j_def)
      have "f (of_nat i) = f (of_nat j) XOR f (2 ^ k)"
        unfolding j(1) of_nat_power_add [OF j(2)] by (rule linear_xor [OF l])
      then show ?thesis using i j by (simp add: nth_append)
    qed
  qed
  moreover have "[k..<k + Suc n] = k # [Suc k..<Suc k + n]" by (simp add: upt_rec)
  ultimately show ?case using Suc [of "Suc k"] by simp
qed simp

lemma span_table:
  fixes f :: "'b::len word \<Rightarrow> 'a::len word"
  assumes "linear f" "span [0] (map (\<lambda>j. f (2 ^ j)) [0..<n]) = tab" "i < 2 ^ n"
  shows "tab ! i = f (of_nat i)"
  using span_linear [OF assms(1), of 0 n] assms(2,3) linear_0 [OF assms(1)] by auto

text \<open>The steps on given numbers.\<close>

lemma funpow8: "(f ^^ 8) x = f (f (f (f (f (f (f (f x)))))))"
  by (simp add: numeral_eq_Suc)

lemma funpow4: "(f ^^ 4) x = f (f (f (f x)))"
  by (simp add: numeral_eq_Suc)

lemma upt8: "[0..<8] = [0, 1, 2, 3, 4, 5, 6, 7]"
  by code_simp

lemma upt4: "[0..<4] = [0, 1, 2, 3]"
  by code_simp

lemma rstep_cases:
  "even x \<Longrightarrow> rstep P x = drop_bit 1 x"
  "odd x \<Longrightarrow> rstep P x = drop_bit 1 x XOR P"
  by (simp_all add: rstep_def)

lemma lstep_cases:
  "\<not> bit x 7 \<Longrightarrow> lstep P x = push_bit 1 x"
  "bit x 7 \<Longrightarrow> lstep P x = push_bit 1 x XOR P"
  by (simp_all add: lstep_def)

lemmas run_steps = funpow8 funpow4 upt8 upt4 rstep_cases lstep_cases

lemma ccitt_tab_nth: "i < 256 \<Longrightarrow> ccitt_tab ! i = (rstep 0x8408 ^^ 8) (of_nat i)"
proof -
  have "map (\<lambda>j. (rstep 0x8408 ^^ 8) (2 ^ j)) [0..<8]
    = [0x1189, 0x2312, 0x4624, 0x8c48, 0x1081, 0x2102, 0x4204, 0x8408]"
    by (simp add: run_steps)
  moreover have "span [0] [0x1189, 0x2312, 0x4624, 0x8c48, 0x1081, 0x2102, 0x4204, 0x8408] = ccitt_tab"
    by (simp add: ccitt_tab_def)
  moreover assume "i < 256"
  ultimately show ?thesis
    using span_table [OF linear_funpow [OF linear_rstep], of 8 "0x8408" 8 ccitt_tab i] by simp
qed

lemma poly_tab_nth: "i < 16 \<Longrightarrow> poly_tab_data ! i = (rstep 0xA001 ^^ 4) (of_nat i)"
proof -
  have "map (\<lambda>j. (rstep 0xA001 ^^ 4) (2 ^ j)) [0..<4] = [0xcc01, 0xd801, 0xf001, 0xa001]"
    by (simp add: run_steps)
  moreover have "span [0] [0xcc01, 0xd801, 0xf001, 0xa001] = poly_tab_data"
    by (simp add: poly_tab_data_def)
  moreover assume "i < 16"
  ultimately show ?thesis
    using span_table [OF linear_funpow [OF linear_rstep], of 4 "0xA001" 4 poly_tab_data i] by simp
qed

lemma atm_tab_nth: "i < 256 \<Longrightarrow> atm_tab ! i = (lstep 7 ^^ 8) (of_nat i)"
proof -
  have "map (\<lambda>j. (lstep 7 ^^ 8) (2 ^ j)) [0..<8] = [7, 14, 28, 56, 112, 224, 199, 137]"
    by (simp add: run_steps)
  moreover have "span [0] [7, 14, 28, 56, 112, 224, 199, 137] = atm_tab"
    by (simp add: atm_tab_def)
  moreover assume "i < 256"
  ultimately show ?thesis
    using span_table [OF linear_funpow [OF linear_lstep], of 8 7 8 atm_tab i] by simp
qed

lemma dallas_tab_nth: "i < 256 \<Longrightarrow> dallas_tab ! i = (lstep 0x31 ^^ 8) (of_nat i)"
proof -
  have "map (\<lambda>j. (lstep 0x31 ^^ 8) (2 ^ j)) [0..<8] = [49, 98, 196, 185, 67, 134, 61, 122]"
    by (simp add: run_steps)
  moreover have "span [0] [49, 98, 196, 185, 67, 134, 61, 122] = dallas_tab"
    by (simp add: dallas_tab_def)
  moreover assume "i < 256"
  ultimately show ?thesis
    using span_table [OF linear_funpow [OF linear_lstep], of 8 "0x31" 8 dallas_tab i] by simp
qed

section \<open>The updates are divisions\<close>

lemma rstep_push: "j < k \<Longrightarrow> rstep P (push_bit (Suc j) (drop_bit k x)) = push_bit j (drop_bit k x)"
  by (rule bit_word_eqI) (auto simp: rstep_def bit_simps simp del: push_bit_Suc dest: bit_imp_le_length)

lemma rsteps_push: "j \<le> k \<Longrightarrow> (rstep P ^^ j) (push_bit j (drop_bit k x)) = drop_bit k x"
proof (induction j)
  case (Suc j)
  then show ?case by (simp add: funpow_Suc_right rstep_push del: funpow.simps push_bit_Suc)
qed simp

lemma rsteps_split:
  assumes "k \<le> 16"
  shows "(rstep P ^^ k) x = drop_bit k x XOR (rstep P ^^ k) (take_bit k x)"
proof -
  have "x = push_bit k (drop_bit k x) XOR take_bit k x"
    by (rule bit_word_eqI) (auto simp: bit_simps)
  then have "(rstep P ^^ k) x = (rstep P ^^ k) (push_bit k (drop_bit k x)) XOR (rstep P ^^ k) (take_bit k x)"
    using linear_xor [OF linear_funpow [OF linear_rstep], of k P "push_bit k (drop_bit k x)" "take_bit k x"]
    by simp
  then show ?thesis by (simp add: rsteps_push)
qed

lemma ccitt_byte_division: "crc16_ccitt_byte s b = (rstep 0x8408 ^^ 8) (s XOR ucast b)"
proof -
  let ?i = "b XOR ucast s"
  have "of_nat (unat ?i) = take_bit 8 (s XOR ucast b)"
    by (rule bit_word_eqI) (auto simp: bit_simps dest: bit_imp_le_length)
  moreover have "unat ?i < 256" using unsigned_less [where 'a = nat, of ?i] by simp
  moreover have "drop_bit 8 (s XOR ucast b) = drop_bit 8 s"
    by (rule bit_word_eqI) (auto simp: bit_simps dest: bit_imp_le_length)
  ultimately show ?thesis
    unfolding crc16_ccitt_byte_def by (subst rsteps_split) (simp_all add: ccitt_tab_nth)
qed

lemma crc16_ccitt_foldl: "crc16_ccitt s buf = foldl crc16_ccitt_byte s buf"
  by (induction s buf rule: crc16_ccitt.induct) (simp_all add: crc16_ccitt_byte_def)

lemma crc16_foldl: "crc16 s buf = foldl crc16_byte s buf"
  by (induction s buf rule: crc16.induct) simp_all

lemma poly_tab_rsteps: "poly_tab (ucast (take_bit 4 (x :: u16))) = (rstep 0xA001 ^^ 4) (take_bit 4 x)"
  and poly_tab_rsteps_8: "poly_tab (take_bit 4 y) = (rstep 0xA001 ^^ 4) (ucast (take_bit 4 y))"
proof -
  have t: "poly_tab n = (rstep 0xA001 ^^ 4) (ucast n)" if "take_bit 4 n = n" for n
  proof -
    have "unat n < 2 ^ 4" using that by (metis unsigned_take_bit_eq take_bit_nat_less_exp)
    then show ?thesis by (simp add: poly_tab_def poly_tab_nth)
  qed
  show "poly_tab (take_bit 4 y) = (rstep 0xA001 ^^ 4) (ucast (take_bit 4 y))" by (rule t) simp
  have "take_bit 4 (ucast (take_bit 4 x) :: u8) = ucast (take_bit 4 x)" "ucast (ucast (take_bit 4 x) :: u8) = take_bit 4 x"
    by (rule bit_word_eqI; auto simp: bit_simps)+
  then show "poly_tab (ucast (take_bit 4 (x :: u16))) = (rstep 0xA001 ^^ 4) (take_bit 4 x)"
    using t by metis
qed

lemma crc16_nibble:
  "drop_bit 4 s XOR poly_tab (ucast (s AND 0xF)) XOR poly_tab (take_bit 4 n)
    = (rstep 0xA001 ^^ 4) (s XOR ucast (take_bit 4 n))"
proof -
  have "s AND 0xF = take_bit 4 s" by (simp add: take_bit_eq_mask mask_eq_exp_minus_1)
  then have "drop_bit 4 s XOR poly_tab (ucast (s AND 0xF)) = (rstep 0xA001 ^^ 4) s"
    using rsteps_split [of 4 "0xA001" s] by (simp add: poly_tab_rsteps)
  then show ?thesis
    by (simp only: linear_xor [OF linear_funpow [OF linear_rstep]] poly_tab_rsteps_8 xor.assoc [symmetric])
qed

lemma crc16_byte_division: "crc16_byte s b = (rstep 0xA001 ^^ 8) (s XOR ucast b)"
proof -
  let ?f = "rstep 0xA001 ^^ 4"
  have b: "b AND 0xF = take_bit 4 b" by (simp add: take_bit_eq_mask mask_eq_exp_minus_1)
  have d: "take_bit 4 (drop_bit 4 b) = drop_bit 4 b"
    by (rule bit_word_eqI) (auto simp: bit_simps dest: bit_imp_le_length)
  have "crc16_byte s b = ?f (?f (s XOR ucast (take_bit 4 b)) XOR ucast (drop_bit 4 b))"
    using crc16_nibble [of s b] crc16_nibble [of "?f (s XOR ucast (take_bit 4 b))" "drop_bit 4 b"]
    by (simp add: crc16_byte_def Let_def b d)
  also have "ucast (drop_bit 4 b) = ?f (push_bit 4 (ucast (drop_bit 4 b)))"
  proof -
    have "push_bit 4 (ucast (drop_bit 4 b) :: u16) = push_bit 4 (drop_bit 4 (ucast b))"
      "(ucast (drop_bit 4 b) :: u16) = drop_bit 4 (ucast b)"
      by (rule bit_word_eqI; auto simp: bit_simps dest: bit_imp_le_length)+
    then show ?thesis by (simp add: rsteps_push)
  qed
  also have "?f (s XOR ucast (take_bit 4 b)) XOR ?f (push_bit 4 (ucast (drop_bit 4 b)))
    = ?f (s XOR ucast b)"
  proof -
    have "s XOR ucast b = (s XOR ucast (take_bit 4 b)) XOR push_bit 4 (ucast (drop_bit 4 b))"
      by (rule bit_word_eqI) (auto simp: bit_simps)
    then show ?thesis by (simp only: linear_xor [OF linear_funpow [OF linear_rstep]])
  qed
  also have "?f (?f (s XOR ucast b)) = (rstep 0xA001 ^^ 8) (s XOR ucast b)"
    by (simp add: funpow_add [of 4 4, simplified])
  finally show ?thesis .
qed

section \<open>Errors that are noticed\<close>

text \<open>An update that can be undone, in the state and in the byte, passes every difference on.\<close>

locale byte_check =
  fixes upd :: "'s \<Rightarrow> u8 \<Rightarrow> 's"
  assumes upd_state: "upd s b = upd s' b \<Longrightarrow> s = s'"
    and upd_byte: "upd s b = upd s b' \<Longrightarrow> b = b'"
begin

lemma foldl_state: "foldl upd s ys = foldl upd s' ys \<Longrightarrow> s = s'"
  by (induction ys arbitrary: s s') (auto dest: upd_state)

lemma byte_error: "b \<noteq> b' \<Longrightarrow> foldl upd s (xs @ b # ys) \<noteq> foldl upd s (xs @ b' # ys)"
  by (auto dest: foldl_state upd_byte)

end

locale burst_check = byte_check upd for upd :: "'s \<Rightarrow> u8 \<Rightarrow> 's" +
  assumes upd_pair: "upd (upd s a) b = upd (upd s a') b' \<Longrightarrow> a = a' \<and> b = b'"
begin

lemma burst_error: "(a, b) \<noteq> (a', b') \<Longrightarrow> foldl upd s (xs @ a # b # ys) \<noteq> foldl upd s (xs @ a' # b' # ys)"
  by (auto dest: foldl_state upd_pair)

end

lemma rstep_0: "bit P 15 \<Longrightarrow> rstep P z = 0 \<Longrightarrow> z = 0"
proof -
  assume P: "bit P 15" and z: "rstep P z = 0"
  have "bit (rstep P z) 15 = odd z" using P by (auto simp: rstep_def bit_simps dest: bit_imp_le_length)
  then have e: "even z" using z by simp
  then have "drop_bit 1 z = 0" using z by (simp add: rstep_def)
  moreover have "bit z (Suc n) = bit (drop_bit 1 z) n" for n by (simp add: bit_simps)
  ultimately have "\<not> bit z (Suc n)" for n by simp
  moreover have "\<not> bit z 0" using e by (simp add: bit_0)
  ultimately have "\<not> bit z n" for n by (cases n) auto
  then show "z = 0" by (intro bit_word_eqI) simp
qed

lemma rsteps_0: "bit P 15 \<Longrightarrow> (rstep P ^^ k) z = 0 \<Longrightarrow> z = 0"
  by (induction k) (auto dest: rstep_0)

lemma rsteps_inj: "bit P 15 \<Longrightarrow> (rstep P ^^ k) x = (rstep P ^^ k) y \<Longrightarrow> x = y"
  by (rule linear_inj [OF linear_funpow [OF linear_rstep]]) (auto dest: rsteps_0)

lemma ucast_8_16_inj: "(ucast (b :: u8) :: u16) = ucast b' \<Longrightarrow> b = b'"
proof -
  assume e: "(ucast b :: u16) = ucast b'"
  show "b = b'"
  proof (rule bit_word_eqI)
    fix n assume "n < LENGTH(8)"
    then show "bit b n = bit b' n" using arg_cong [OF e, of "\<lambda>w. bit w n"] by (simp add: bit_simps)
  qed
qed

lemma division_check:
  assumes P: "bit P 15" and u: "\<And>s b. upd s b = (rstep P ^^ 8) (s XOR ucast b)"
  shows "burst_check upd"
proof
  have xi: "x XOR y = x XOR z \<Longrightarrow> y = z" "y XOR x = z XOR x \<Longrightarrow> y = z" for x y z :: u16
    by (metis bit.xor_left_self) (metis bit.xor_left_self xor.commute)
  show "s = s'" if "upd s b = upd s' b" for s s' b
    using rsteps_inj [OF P that [unfolded u]] xi by blast
  show "b = b'" if "upd s b = upd s b'" for s b b'
    using rsteps_inj [OF P that [unfolded u]] xi ucast_8_16_inj by blast
  show "a = a' \<and> b = b'" if "upd (upd s a) b = upd (upd s a') b'" for s a b a' b'
  proof -
    let ?f = "rstep P ^^ 8" and ?d = "ucast a XOR ucast a' :: u16"
    have "?f (s XOR ucast a) XOR ucast b = ?f (s XOR ucast a') XOR ucast b'"
      using rsteps_inj [OF P that [unfolded u]] by simp
    then have "?f s XOR ?f (ucast a) XOR ucast b = ?f s XOR ?f (ucast a') XOR ucast b'"
      by (simp add: linear_xor [OF linear_funpow [OF linear_rstep]] xor.assoc)
    then have e: "?f (ucast a) XOR ucast b = ?f (ucast a') XOR ucast b'" using xi by blast
    have "?f ?d = ucast b XOR ucast b'"
    proof -
      have "?f ?d = ?f (ucast a) XOR ?f (ucast a')" by (simp add: linear_xor [OF linear_funpow [OF linear_rstep]])
      also have "\<dots> = (?f (ucast a) XOR ucast b) XOR ucast b XOR ?f (ucast a')"
        by (simp add: xor.assoc)
      also have "\<dots> = ucast b XOR ucast b'" unfolding e by (simp add: ac_simps)
      finally show ?thesis .
    qed
    also have "\<dots> = drop_bit 8 (push_bit 8 (ucast b XOR ucast b'))"
      by (rule bit_word_eqI) (auto simp: bit_simps dest: bit_imp_le_length)
    also have "\<dots> = ?f (push_bit 8 (drop_bit 8 (push_bit 8 (ucast b XOR ucast b'))))"
      by (rule rsteps_push [symmetric]) simp
    finally have d: "?d = push_bit 8 (drop_bit 8 (push_bit 8 (ucast b XOR ucast b')))"
      by (rule rsteps_inj [OF P])
    have "?d = 0"
    proof (rule bit_word_eqI)
      fix n assume "n < LENGTH(16)"
      show "bit ?d n = bit 0 n"
      proof (cases "n < 8")
        case True
        then show ?thesis by (subst d) (simp add: bit_simps)
      next
        case False
        then show ?thesis by (auto simp: bit_simps dest: bit_imp_le_length)
      qed
    qed
    then have aa: "(ucast a :: u16) = ucast a'" by (metis bit.xor_left_self xor.right_neutral)
    then have "(ucast b :: u16) = ucast b'" using e xi by metis
    then show ?thesis using aa ucast_8_16_inj by blast
  qed
qed

interpretation ccitt: burst_check crc16_ccitt_byte
  by (rule division_check [of "0x8408"]) (simp_all add: ccitt_byte_division)

interpretation crc16: burst_check crc16_byte
  by (rule division_check [of "0xA001"]) (simp_all add: crc16_byte_division)

section \<open>Checking a received message\<close>

lemma two_bytes_division:
  assumes u: "\<And>s b. upd s (b :: u8) = (rstep P ^^ 8) (s XOR ucast b)"
  shows "upd (upd s a) b = (rstep P ^^ 8) ((rstep P ^^ 8) (s XOR ucast a XOR push_bit 8 (ucast b)))"
proof -
  let ?f = "rstep P ^^ 8"
  have "(ucast b :: u16) = ?f (push_bit 8 (ucast b))"
  proof -
    have d: "(ucast b :: u16) = drop_bit 8 (push_bit 8 (ucast b))"
      by (rule bit_word_eqI) (auto simp: bit_simps intro: bit_u8)
    show ?thesis using rsteps_push [of 8 8 P "push_bit 8 (ucast b)"] d by simp
  qed
  then have "upd (upd s a) b = ?f (?f (s XOR ucast a) XOR ?f (push_bit 8 (ucast b)))" by (simp add: u)
  then show ?thesis by (simp add: linear_xor [OF linear_funpow [OF linear_rstep], symmetric] xor.assoc)
qed

lemma bytes_of_u16: "ucast (ucast w :: u8) XOR push_bit 8 (ucast (ucast (drop_bit 8 w) :: u8)) = (w :: u16)"
  by (rule bit_word_eqI) (auto simp: bit_simps)

lemma residue:
  assumes u: "\<And>s b. upd s (b :: u8) = (rstep P ^^ 8) (s XOR ucast b)"
  shows "upd (upd s (ucast w)) (ucast (drop_bit 8 w)) = (rstep P ^^ 8) ((rstep P ^^ 8) (s XOR w))"
  using bytes_of_u16 [of w] by (simp add: two_bytes_division [of upd P, OF u] xor.assoc)

section \<open>The bitwise variant\<close>

lemma bit_15: "(s :: u16) AND 0x8000 \<noteq> 0 \<longleftrightarrow> bit s 15"
proof -
  have "(0x8000 :: u16) = 2 ^ 15" by simp
  then show ?thesis by (metis and_exp_eq_0_iff_not_bit)
qed

lemma linear_slow: "linear slow_step"
  by (simp add: linear_def slow_step_def bit_15 bit_xor_iff ac_simps bit.xor_left_self)

lemma slow_step_low: "j < 8 \<Longrightarrow> slow_step (push_bit j (ucast (b :: u8))) = push_bit (Suc j) (ucast b)"
  by (rule bit_word_eqI) (auto simp: slow_step_def bit_15 bit_simps simp del: push_bit_Suc dest: bit_imp_le_length)

lemma slow_steps_low: "j \<le> 8 \<Longrightarrow> (slow_step ^^ j) (ucast (b :: u8)) = push_bit j (ucast b)"
proof (induction j)
  case (Suc j)
  then show ?case by (simp add: slow_step_low del: push_bit_Suc)
qed simp

lemma high_xor: "push_bit 8 (ucast x) XOR push_bit 8 (ucast y) = (push_bit 8 (ucast (x XOR y :: u8)) :: u16)"
  by (rule bit_word_eqI) (auto simp: bit_simps)

lemma slow_step_high: "slow_step (push_bit 8 (ucast (u :: u8))) = push_bit 8 (ucast (lstep 7 u))"
proof -
  have b: "bit (push_bit 8 (ucast u) :: u16) 15 = bit u 7" by (simp add: bit_simps)
  have p: "push_bit 8 (ucast x) XOR 0x0700 = (push_bit 8 (ucast (x XOR 7)) :: u16)" for x :: u8
    using high_xor [of x 7] by simp
  have "push_bit 1 (push_bit 8 (ucast u) :: u16) = push_bit 8 (ucast (push_bit 1 u))"
    by (rule bit_word_eqI) (auto simp: bit_simps simp del: push_bit_Suc)
  then show ?thesis by (simp only: slow_step_def bit_15 b p lstep_def xor.right_neutral split: if_split) simp
qed

lemma slow_steps_high: "(slow_step ^^ j) (push_bit 8 (ucast (u :: u8))) = push_bit 8 (ucast ((lstep 7 ^^ j) u))"
  by (induction j) (simp_all add: slow_step_high)

lemma atm_tab_lsteps: "atm_tab ! unat u = (lstep 7 ^^ 8) u"
  using unsigned_less [where 'a = nat, of u] by (simp add: atm_tab_nth)

lemma slow_byte:
  "(slow_step ^^ 8) (push_bit 8 (ucast u) OR ucast b) = push_bit 8 (ucast (b XOR atm_tab ! unat (u :: u8)))"
proof -
  have "push_bit 8 (ucast u) OR ucast b = (push_bit 8 (ucast u) XOR ucast b :: u16)"
    by (rule bit_word_eqI) (auto simp: bit_simps dest: bit_imp_le_length)
  then have "(slow_step ^^ 8) (push_bit 8 (ucast u) OR ucast b)
    = push_bit 8 (ucast ((lstep 7 ^^ 8) u)) XOR push_bit 8 (ucast b)"
    by (simp only: linear_xor [OF linear_funpow [OF linear_slow]] slow_steps_high slow_steps_low order_refl)
  then show ?thesis
    by (simp only: atm_tab_lsteps high_xor xor.commute)
qed

lemma slow_loop_eq: "slow_loop (push_bit 8 (ucast (u :: u8))) buf = push_bit 8 (ucast (crc8_loop atm_tab u buf))"
  by (induction buf arbitrary: u) (simp_all add: slow_byte)

section \<open>Properties\<close>

text \<open>The table driven updates of both 16-bit sums are eight steps of the bitwise division of
  their polynomials, for every sum and byte.\<close>

theorem crc16_tables_divide:
  "crc16_ccitt_byte s b = (rstep 0x8408 ^^ 8) (s XOR ucast b)
   \<and> crc16_byte s b = (rstep 0xA001 ^^ 8) (s XOR ucast b)
   \<and> crc16_ccitt s buf = foldl crc16_ccitt_byte s buf"
  by (simp add: ccitt_byte_division crc16_byte_division crc16_ccitt_foldl)

text \<open>C9: Two messages of equal length that differ only within two adjacent bytes have different
  16-bit sums.\<close>

theorem crc16_detects_bursts:
  assumes "(a, b) \<noteq> (a', b')"
  shows "crc16_ccitt s (xs @ a # b # ys) \<noteq> crc16_ccitt s (xs @ a' # b' # ys)
    \<and> crc16 s (xs @ a # b # ys) \<noteq> crc16 s (xs @ a' # b' # ys)"
  using assms unfolding crc16_ccitt_foldl crc16_foldl
  by (simp_all add: ccitt.burst_error crc16.burst_error del: foldl_append foldl_Cons)

lemma crc16_detects_bursts_witness:
  "crc16_ccitt CRC16_CCITT_INIT [1, 2, 3] \<noteq> crc16_ccitt CRC16_CCITT_INIT [1, 7, 3]"
  using crc16_detects_bursts [of 2 3 7 3 CRC16_CCITT_INIT "[1]" "[]"] by simp

text \<open>A message followed by its inverted sum, low byte first, always checks to the constant
  \<open>CRC16_CCITT_GOOD\<close>; with the sum of \<open>crc16.c\<close> appended as it is, to \<open>CRC16_GOOD\<close>.\<close>

theorem crc16_good_message:
  "(let c = NOT (crc16_ccitt CRC16_CCITT_INIT buf)
    in crc16_ccitt CRC16_CCITT_INIT (buf @ [ucast c, ucast (drop_bit 8 c)]) = CRC16_CCITT_GOOD)
   \<and> (let c = crc16 CRC16_INIT buf
      in crc16 CRC16_INIT (buf @ [ucast c, ucast (drop_bit 8 c)]) = CRC16_GOOD)"
proof -
  have n: "(s :: u16) XOR NOT s = 0xffff" for s by (simp add: bit.xor_compl_right)
  have z: "(rstep P ^^ 8) 0 = 0" for P by (rule linear_0 [OF linear_funpow [OF linear_rstep]])
  have "(rstep 0x8408 ^^ 8) ((rstep 0x8408 ^^ 8) 0xffff) = CRC16_CCITT_GOOD"
    by (simp add: run_steps CRC16_CCITT_GOOD_def)
  moreover have "(0xffff :: u16) = - 1" by simp
  ultimately have "(rstep 0x8408 ^^ 8) ((rstep 0x8408 ^^ 8) (- 1)) = CRC16_CCITT_GOOD" by (simp only:)
  then show ?thesis
    by (simp add: Let_def crc16_ccitt_foldl crc16_foldl residue [of crc16_ccitt_byte, OF ccitt_byte_division]
        residue [of crc16_byte, OF crc16_byte_division] n z CRC16_GOOD_def)
qed

text \<open>The table driven ATM checksum equals the bitwise routine kept for tests.\<close>

theorem crc8_atm_slow_equal: "crc8_atm buf = crc8_atm_slow buf"
proof -
  have "slow_loop 0 buf = push_bit 8 (ucast (crc8_loop atm_tab 0 buf))"
    using slow_loop_eq [of 0 buf] by simp
  moreover have "ucast (drop_bit 8 (push_bit 8 (ucast u) :: u16)) = (u :: u8)" for u
    by (rule bit_word_eqI) (auto simp: bit_simps)
  ultimately show ?thesis by (simp add: crc8_atm_def crc8_atm_slow_def)
qed

end
