(* ===== verification/Buf_Queue.thy ===== *)
theory Buf_Queue
  imports Uos_Prelude
begin

text \<open>
  Queues of packet buffers: the ring of \<open>buf/buf-queue.c\<close> and the eight priority queues of
  \<open>buf/buf-prio.c\<close>. A buffer is named by its address, 0 is the null pointer. The array a queue
  uses is part of an array of slots that several queues may share, so the pointers of a queue are
  positions in it. Where the code calls \<open>buf_free\<close>, the model returns the buffers released.

  The ring fills downwards: \<open>tail\<close> points to the oldest entry, and newer ones lie below it. The
  locale \<open>fifo\<close> states what a bounded queue promises.
\<close>

section \<open>The ring\<close>

type_synonym slots = "int \<Rightarrow> nat"

record buf_queue_t =
  q_tail :: int
  q_count :: nat
  q_queue :: int
  q_size :: nat

text \<open>One step down in the ring: \<open>if (--p < q->queue) p += q->size\<close>.\<close>

definition buf_queue_next :: "buf_queue_t \<Rightarrow> int \<Rightarrow> int" where
  "buf_queue_next q p = (let p = p - 1 in if p < q_queue q then p + int (q_size q) else p)"

definition buf_queue_first :: "buf_queue_t \<Rightarrow> int" where
  "buf_queue_first q =
     (let head = q_tail q - int (q_count q)
      in if head < q_queue q then head + int (q_size q) else head)"

definition buf_queue_last :: "buf_queue_t \<Rightarrow> int" where
  "buf_queue_last q = q_tail q"

definition buf_queue_is_full :: "buf_queue_t \<Rightarrow> bool" where
  "buf_queue_is_full q \<longleftrightarrow> q_count q = q_size q"

definition buf_queue_is_empty :: "buf_queue_t \<Rightarrow> bool" where
  "buf_queue_is_empty q \<longleftrightarrow> q_count q = 0"

definition buf_queue_get :: "slots \<Rightarrow> buf_queue_t \<Rightarrow> (nat \<times> buf_queue_t) option" where
  "buf_queue_get M q = do {
     assert_c (q_tail q \<ge> q_queue q);
     assert_c (q_tail q < q_queue q + int (q_size q));
     if q_count q = 0 then Some (0, q)
     else do {
       assert_c (M (q_tail q) \<noteq> 0);
       Some (M (q_tail q), q\<lparr>q_tail := buf_queue_next q (q_tail q), q_count := q_count q - 1\<rparr>)
     }
   }"

definition buf_queue_put :: "buf_queue_t \<Rightarrow> nat \<Rightarrow> slots \<Rightarrow> (buf_queue_t \<times> slots) option" where
  "buf_queue_put q p M = do {
     assert_c (q_count q < q_size q);
     let head = q_tail q - int (q_count q);
         head = (if head < q_queue q then head + int (q_size q) else head)
     in Some (q\<lparr>q_count := q_count q + 1\<rparr>, M(head := p))
   }"

function buf_queue_clean :: "slots \<Rightarrow> buf_queue_t \<Rightarrow> nat list \<times> buf_queue_t" where
  "buf_queue_clean M q =
     (if q_count q > 0 then
        (let (freed, q') = buf_queue_clean M (q\<lparr>q_tail := buf_queue_next q (q_tail q), q_count := q_count q - 1\<rparr>)
         in (M (q_tail q) # freed, q'))
      else ([], q))"
  by pat_completeness auto
termination by (relation "measure (\<lambda>(M, q). q_count q)") auto

declare buf_queue_clean.simps [simp del]

text \<open>A pointer takes 4 bytes.\<close>

definition buf_queue_init :: "int \<Rightarrow> nat \<Rightarrow> buf_queue_t" where
  "buf_queue_init buf bytes = \<lparr>q_tail = buf, q_count = 0, q_queue = buf, q_size = bytes div 4\<rparr>"

section \<open>Bounded queues\<close>

locale fifo =
  fixes null :: 'p
    and item :: "'p \<Rightarrow> bool"
    and ok :: "'s \<Rightarrow> bool"
    and contents :: "'s \<Rightarrow> 'p list"
    and cap :: "'s \<Rightarrow> nat"
    and put :: "'p \<Rightarrow> 's \<Rightarrow> 's option"
    and get :: "'s \<Rightarrow> ('p \<times> 's) option"
  assumes put_ok: "ok s \<Longrightarrow> length (contents s) < cap s \<Longrightarrow> item p \<Longrightarrow>
      \<exists>s'. put p s = Some s' \<and> ok s' \<and> contents s' = contents s @ [p] \<and> cap s' = cap s"
    and put_full: "ok s \<Longrightarrow> length (contents s) \<ge> cap s \<Longrightarrow> put p s = None"
    and get_ok: "ok s \<Longrightarrow> contents s = p # ps \<Longrightarrow>
      \<exists>s'. get s = Some (p, s') \<and> ok s' \<and> contents s' = ps \<and> cap s' = cap s"
    and get_empty: "ok s \<Longrightarrow> contents s = [] \<Longrightarrow> get s = Some (null, s)"
    and bounded: "ok s \<Longrightarrow> length (contents s) \<le> cap s"
begin

text \<open>Runs: \<open>Some p\<close> puts \<open>p\<close>, \<open>None\<close> gets; the result lists what the gets returned. On the side of
  the specification the queue is a list.\<close>

fun run :: "'p option list \<Rightarrow> 's \<Rightarrow> ('p list \<times> 's) option" where
  "run [] s = Some ([], s)"
| "run (Some p # ops) s = do { s \<leftarrow> put p s; run ops s }"
| "run (None # ops) s = do { (p, s) \<leftarrow> get s; (out, s) \<leftarrow> run ops s; Some (p # out, s) }"

end

fun fifo_spec :: "'p \<Rightarrow> nat \<Rightarrow> 'p option list \<Rightarrow> 'p list \<Rightarrow> ('p list \<times> 'p list) option" where
  "fifo_spec null c [] xs = Some ([], xs)"
| "fifo_spec null c (Some p # ops) xs = (if length xs < c then fifo_spec null c ops (xs @ [p]) else None)"
| "fifo_spec null c (None # ops) [] = map_option (\<lambda>(out, ys). (null # out, ys)) (fifo_spec null c ops [])"
| "fifo_spec null c (None # ops) (x # xs) = map_option (\<lambda>(out, ys). (x # out, ys)) (fifo_spec null c ops xs)"

context fifo
begin

lemma run_refines:
  "ok s \<Longrightarrow> \<forall>p. Some p \<in> set ops \<longrightarrow> item p \<Longrightarrow>
   map_option (\<lambda>(out, s'). (out, contents s')) (run ops s) = fifo_spec null (cap s) ops (contents s)"
proof (induction ops arbitrary: s)
  case (Cons op ops s)
  show ?case
  proof (cases op)
    case (Some p)
    show ?thesis
    proof (cases "length (contents s) < cap s")
      case True
      obtain s' where s': "put p s = Some s'" "ok s'" "contents s' = contents s @ [p]" "cap s' = cap s"
        using put_ok [OF Cons.prems(1) True, of p] Cons.prems(2) Some by auto
      show ?thesis using Cons.IH [of s'] s' Cons.prems(2) True Some by simp
    next
      case False
      then show ?thesis using put_full [OF Cons.prems(1)] Some by simp
    qed
  next
    case None
    note op = this
    show ?thesis
    proof (cases "contents s")
      case Nil
      have "map_option (\<lambda>(out, s'). (out, contents s')) (run ops s) = fifo_spec null (cap s) ops []"
        using Cons.IH [of s] Cons.prems Nil by simp
      then show ?thesis using get_empty [OF Cons.prems(1) Nil] Nil op
        by (cases "run ops s") (auto simp: split_beta dest: sym)
    next
      case xs: (Cons x xs)
      obtain s' where s': "get s = Some (x, s')" "ok s'" "contents s' = xs" "cap s' = cap s"
        using get_ok [OF Cons.prems(1) xs] by auto
      have "map_option (\<lambda>(out, s'). (out, contents s')) (run ops s') = fifo_spec null (cap s) ops xs"
        using Cons.IH [of s'] s' Cons.prems(2) by simp
      then show ?thesis using s'(1) xs op by (cases "run ops s'") (auto simp: split_beta dest: sym)
    qed
  qed
qed simp

end

section \<open>The ring is a bounded queue\<close>

definition queue_ok :: "buf_queue_t \<Rightarrow> bool" where
  "queue_ok q \<longleftrightarrow> q_queue q \<le> q_tail q \<and> q_tail q < q_queue q + int (q_size q) \<and> q_count q \<le> q_size q"

definition slot :: "buf_queue_t \<Rightarrow> nat \<Rightarrow> int" where
  "slot q i = (let p = q_tail q - int i in if p < q_queue q then p + int (q_size q) else p)"

definition queued :: "slots \<Rightarrow> buf_queue_t \<Rightarrow> nat list" where
  "queued M q = map (\<lambda>i. M (slot q i)) [0..<q_count q]"

definition ring_ok :: "buf_queue_t \<times> slots \<Rightarrow> bool" where
  "ring_ok s \<longleftrightarrow> queue_ok (fst s) \<and> 0 \<notin> set (queued (snd s) (fst s))"

lemma slot_0 [simp]: "queue_ok q \<Longrightarrow> slot q 0 = q_tail q"
  by (simp add: slot_def queue_ok_def)

lemma slot_range: "queue_ok q \<Longrightarrow> i < q_size q \<Longrightarrow> q_queue q \<le> slot q i \<and> slot q i < q_queue q + int (q_size q)"
  by (auto simp: slot_def queue_ok_def Let_def)

lemma slot_inj: "queue_ok q \<Longrightarrow> i < q_size q \<Longrightarrow> j < q_size q \<Longrightarrow> slot q i = slot q j \<Longrightarrow> i = j"
  by (auto simp: slot_def queue_ok_def Let_def split: if_splits)

lemma first_slot: "buf_queue_first q = slot q (q_count q)"
  by (simp add: buf_queue_first_def slot_def)

lemma next_ok:
  "queue_ok q \<Longrightarrow> queue_ok (q\<lparr>q_tail := buf_queue_next q (q_tail q), q_count := q_count q - 1\<rparr>)"
  by (auto simp: queue_ok_def buf_queue_next_def Let_def)

lemma next_slot:
  "queue_ok q \<Longrightarrow> Suc i < q_size q \<Longrightarrow>
   slot (q\<lparr>q_tail := buf_queue_next q (q_tail q), q_count := n\<rparr>) i = slot q (Suc i)"
  by (auto simp: queue_ok_def slot_def buf_queue_next_def Let_def)

lemma queued_next:
  assumes "queue_ok q" "0 < q_count q"
  shows "queued M q = M (q_tail q) # queued M (q\<lparr>q_tail := buf_queue_next q (q_tail q), q_count := q_count q - 1\<rparr>)"
proof -
  have "[0..<q_count q] = 0 # map Suc [0..<q_count q - 1]"
    using assms(2) by (simp add: map_Suc_upt upt_conv_Cons)
  moreover have "map (\<lambda>i. M (slot q (Suc i))) [0..<q_count q - 1]
    = map (\<lambda>i. M (slot (q\<lparr>q_tail := buf_queue_next q (q_tail q), q_count := q_count q - 1\<rparr>) i)) [0..<q_count q - 1]"
  proof (intro map_cong refl)
    fix i assume "i \<in> set [0..<q_count q - 1]"
    then have "Suc i < q_size q" using assms by (auto simp: queue_ok_def)
    then show "M (slot q (Suc i)) = M (slot (q\<lparr>q_tail := buf_queue_next q (q_tail q), q_count := q_count q - 1\<rparr>) i)"
      using next_slot [OF assms(1), of i "q_count q - 1"] by simp
  qed
  ultimately show ?thesis using assms(1) by (simp add: queued_def comp_def)
qed

lemma queued_put:
  assumes "queue_ok q" "q_count q < q_size q"
  shows "queued (M(buf_queue_first q := p)) (q\<lparr>q_count := q_count q + 1\<rparr>) = queued M q @ [p]"
proof -
  let ?M = "M(buf_queue_first q := p)"
  have "?M (slot q i) = M (slot q i)" if "i < q_count q" for i
    using slot_inj [OF assms(1), of i "q_count q"] that assms(2) by (auto simp: first_slot)
  moreover have "slot (q\<lparr>q_count := n\<rparr>) i = slot q i" for n i by (simp add: slot_def Let_def)
  ultimately show ?thesis by (simp add: queued_def first_slot)
qed

lemma queued_other:
  assumes "queue_ok q" "\<And>a. q_queue q \<le> a \<Longrightarrow> a < q_queue q + int (q_size q) \<Longrightarrow> M' a = M a"
  shows "queued M' q = queued M q"
  using assms slot_range [OF assms(1)] by (auto simp: queued_def queue_ok_def)

lemma queue_put_ok:
  assumes "queue_ok q" "q_count q < q_size q"
  shows "buf_queue_put q p M = Some (q\<lparr>q_count := q_count q + 1\<rparr>, M(buf_queue_first q := p))"
  using assms(2) by (simp add: buf_queue_put_def buf_queue_first_def Let_def)

lemma queue_get_ok:
  assumes "queue_ok q" "queued M q = p # ps" "p \<noteq> 0"
  shows "buf_queue_get M q = Some (p, q\<lparr>q_tail := buf_queue_next q (q_tail q), q_count := q_count q - 1\<rparr>)"
    "queued M (q\<lparr>q_tail := buf_queue_next q (q_tail q), q_count := q_count q - 1\<rparr>) = ps"
proof -
  have c: "0 < q_count q" using assms(2) by (cases "q_count q") (auto simp: queued_def)
  then show "buf_queue_get M q = Some (p, q\<lparr>q_tail := buf_queue_next q (q_tail q), q_count := q_count q - 1\<rparr>)"
    "queued M (q\<lparr>q_tail := buf_queue_next q (q_tail q), q_count := q_count q - 1\<rparr>) = ps"
    using queued_next [OF assms(1) c, of M] assms by (auto simp: buf_queue_get_def queue_ok_def)
qed

lemma length_queued [simp]: "length (queued M q) = q_count q"
  by (simp add: queued_def)

interpretation ring: fifo "0 :: nat" "\<lambda>p. p \<noteq> 0" ring_ok "\<lambda>(q, M). queued M q" "\<lambda>(q, M). q_size q"
  "\<lambda>p (q, M). buf_queue_put q p M" "\<lambda>(q, M). map_option (\<lambda>(p, q). (p, q, M)) (buf_queue_get M q)"
proof (unfold_locales, goal_cases)
  case (1 s p)
  obtain q M where s: "s = (q, M)" by fastforce
  have q: "queue_ok q" "q_count q < q_size q" using 1 by (auto simp: s ring_ok_def)
  have "queue_ok (q\<lparr>q_count := q_count q + 1\<rparr>)" using q by (simp add: queue_ok_def)
  then show ?case using 1 queued_put [OF q, of M p] queue_put_ok [OF q, of p M] by (simp add: s ring_ok_def)
next
  case (2 s p)
  then show ?case by (auto simp: buf_queue_put_def split: prod.splits)
next
  case (3 s p ps)
  obtain q M where s: "s = (q, M)" by fastforce
  have q: "queue_ok q" "queued M q = p # ps" "p \<noteq> 0" "0 \<notin> set ps" using 3 by (auto simp: s ring_ok_def)
  then show ?case using queue_get_ok [OF q(1-3)] next_ok [OF q(1)] by (simp add: s ring_ok_def)
next
  case (4 s)
  obtain q M where s: "s = (q, M)" by fastforce
  have "queue_ok q" "q_count q = 0" using 4 length_queued [of M q] by (auto simp: s ring_ok_def simp del: length_queued)
  then show ?case by (simp add: s buf_queue_get_def queue_ok_def)
next
  case (5 s)
  then show ?case by (auto simp: ring_ok_def queue_ok_def split: prod.splits)
qed

lemma buf_queue_clean_ok:
  "queue_ok q \<Longrightarrow> fst (buf_queue_clean M q) = queued M q \<and> queue_ok (snd (buf_queue_clean M q))
    \<and> q_count (snd (buf_queue_clean M q)) = 0"
proof (induction M q rule: buf_queue_clean.induct)
  case (1 M q)
  show ?case
  proof (cases "0 < q_count q")
    case True
    show ?thesis using 1(1) [OF True next_ok [OF 1(2)]] queued_next [OF 1(2) True, of M] True
      by (subst (1 2 3) buf_queue_clean.simps) (simp add: split_beta)
  next
    case False
    then show ?thesis using 1(2) by (simp add: buf_queue_clean.simps queued_def)
  qed
qed

lemma buf_queue_init_ok: "4 \<le> bytes \<Longrightarrow> ring_ok (buf_queue_init buf bytes, M)"
  by (simp add: ring_ok_def queue_ok_def buf_queue_init_def queued_def)

end
