(* ===== verification/Buf_Prio.thy ===== *)
theory Buf_Prio
  imports Buf_Queue
begin

text \<open>
  The priority queues of \<open>buf/buf-prio.c\<close>: eight rings that share one array of slots and one
  limit. The lemmas relate the operations to a list of eight FIFO queues.
\<close>

section \<open>The code\<close>

definition BUF_PRIO_NQ :: nat where "BUF_PRIO_NQ = 8"

record buf_prio_queue_t =
  pq_count :: nat
  pq_size :: nat
  pq_queue :: "buf_queue_t list"

text \<open>The loop of \<open>buf_prio_queue_get\<close>, with the number of queues not looked at yet.\<close>

fun prio_get_loop :: "slots \<Rightarrow> buf_prio_queue_t \<Rightarrow> nat \<Rightarrow> (nat \<times> buf_prio_queue_t) option" where
  "prio_get_loop M q 0 = do { assert_c (pq_count q = 0); Some (0, q\<lparr>pq_count := 0\<rparr>) }"
| "prio_get_loop M q (Suc k) =
     (if q_count (pq_queue q ! k) > 0 then do {
        (p, qq) \<leftarrow> buf_queue_get M (pq_queue q ! k);
        Some (p, q\<lparr>pq_count := pq_count q - 1, pq_queue := (pq_queue q)[k := qq]\<rparr>)
      }
      else prio_get_loop M q k)"

definition buf_prio_queue_get :: "slots \<Rightarrow> buf_prio_queue_t \<Rightarrow> (nat \<times> buf_prio_queue_t) option" where
  "buf_prio_queue_get M q = (if pq_count q = 0 then Some (0, q) else prio_get_loop M q BUF_PRIO_NQ)"

text \<open>Drop the oldest packet of level \<open>k\<close> and queue \<open>p\<close> at level \<open>prio\<close>; \<open>prio_put_loop\<close> does so at the
  first level from \<open>k\<close> on that is not empty. The result has the return code and the packets freed.\<close>

definition replace_at ::
  "slots \<Rightarrow> buf_prio_queue_t \<Rightarrow> nat \<Rightarrow> nat \<Rightarrow> nat \<Rightarrow> (nat \<times> buf_prio_queue_t \<times> slots) option" where
  "replace_at M q k p prio = do {
     (r, qq) \<leftarrow> buf_queue_get M (pq_queue q ! k);
     let qs = (pq_queue q)[k := qq];
     (qq, M) \<leftarrow> buf_queue_put (qs ! prio) p M;
     Some (r, q\<lparr>pq_queue := qs[prio := qq]\<rparr>, M)
   }"

function prio_put_loop ::
  "slots \<Rightarrow> buf_prio_queue_t \<Rightarrow> nat \<Rightarrow> nat \<Rightarrow> nat \<Rightarrow> (nat \<times> nat list \<times> buf_prio_queue_t \<times> slots) option" where
  "prio_put_loop M q p prio k =
     (if k > prio then Some (0, [], q, M)
      else if q_count (pq_queue q ! k) > 0 then do {
        (r, q, M) \<leftarrow> replace_at M q k p prio;
        Some (2, [r], q, M)
      }
      else prio_put_loop M q p prio (k + 1))"
  by pat_completeness auto
termination by (relation "measure (\<lambda>(M, q, p, prio, k). Suc prio - k)") auto

declare prio_put_loop.simps [simp del]

definition buf_prio_queue_put ::
  "slots \<Rightarrow> buf_prio_queue_t \<Rightarrow> nat \<Rightarrow> nat \<Rightarrow> (nat \<times> nat list \<times> buf_prio_queue_t \<times> slots) option" where
  "buf_prio_queue_put M q p prio =
     (if pq_count q < pq_size q then do {
        (qq, M) \<leftarrow> buf_queue_put (pq_queue q ! prio) p M;
        Some (1, [], q\<lparr>pq_queue := (pq_queue q)[prio := qq], pq_count := pq_count q + 1\<rparr>, M)
      }
      else prio_put_loop M q p prio 0)"

fun prio_exchange_loop ::
  "slots \<Rightarrow> buf_prio_queue_t \<Rightarrow> nat \<Rightarrow> nat \<Rightarrow> nat \<Rightarrow> (nat \<times> buf_prio_queue_t \<times> slots) option" where
  "prio_exchange_loop M q p prio 0 = Some (p, q, M)"
| "prio_exchange_loop M q p prio (Suc k) =
     (if k < prio then Some (p, q, M)
      else if q_count (pq_queue q ! k) > 0 then replace_at M q k p prio
      else prio_exchange_loop M q p prio k)"

definition buf_prio_queue_exchange ::
  "slots \<Rightarrow> buf_prio_queue_t \<Rightarrow> nat \<Rightarrow> nat \<Rightarrow> (nat \<times> buf_prio_queue_t \<times> slots) option" where
  "buf_prio_queue_exchange M q p prio =
     (if pq_count q = 0 then Some (p, q, M) else prio_exchange_loop M q p prio BUF_PRIO_NQ)"

definition buf_prio_queue_init :: "int \<Rightarrow> nat \<Rightarrow> buf_prio_queue_t" where
  "buf_prio_queue_init buf bytes =
     (let bytes_per_queue = bytes div BUF_PRIO_NQ; size = bytes_per_queue div 4
      in \<lparr>pq_count = 0, pq_size = size,
          pq_queue = map (\<lambda>k. buf_queue_init (buf + int (k * size)) bytes_per_queue) [0..<BUF_PRIO_NQ]\<rparr>)"

section \<open>Levels\<close>

definition levels :: "slots \<Rightarrow> buf_prio_queue_t \<Rightarrow> nat list list" where
  "levels M q = map (queued M) (pq_queue q)"

definition prio_ok :: "int \<Rightarrow> slots \<Rightarrow> buf_prio_queue_t \<Rightarrow> bool" where
  "prio_ok buf M q \<longleftrightarrow>
     length (pq_queue q) = 8
     \<and> (\<forall>k < 8. queue_ok (pq_queue q ! k) \<and> 0 \<notin> set (queued M (pq_queue q ! k))
          \<and> q_size (pq_queue q ! k) = pq_size q \<and> q_queue (pq_queue q ! k) = buf + int (k * pq_size q))
     \<and> pq_count q = sum_list (map length (levels M q)) \<and> pq_count q \<le> pq_size q"

lemma prio_okD:
  assumes "prio_ok buf M q"
  shows "length (pq_queue q) = 8" "k < 8 \<Longrightarrow> queue_ok (pq_queue q ! k)"
    "k < 8 \<Longrightarrow> 0 \<notin> set (queued M (pq_queue q ! k))"
    "k < 8 \<Longrightarrow> q_size (pq_queue q ! k) = pq_size q" "k < 8 \<Longrightarrow> q_queue (pq_queue q ! k) = buf + int (k * pq_size q)"
    "pq_count q = sum_list (map length (levels M q))" "pq_count q \<le> pq_size q"
    "length (levels M q) = 8" "k < 8 \<Longrightarrow> levels M q ! k = queued M (pq_queue q ! k)"
  using assms by (auto simp: prio_ok_def levels_def)

lemma sum_list_update_nat:
  "k < length xs \<Longrightarrow> sum_list (xs[k := y]) + xs ! k = sum_list (xs :: nat list) + y"
  by (induction xs arbitrary: k) (auto split: nat.splits)

lemma level_le_total: "prio_ok buf M q \<Longrightarrow> k < 8 \<Longrightarrow> length (levels M q ! k) \<le> pq_count q"
  using member_le_sum_list [of "length (levels M q ! k)" "map length (levels M q)"] prio_okD(6,8) [of buf M q]
  by (simp add: nth_mem)

text \<open>Writing in the ring of one level leaves the other levels alone.\<close>

lemma other_level:
  assumes ok: "prio_ok buf M q" and k: "k < 8" "j < 8" "j \<noteq> k"
    and a: "q_queue (pq_queue q ! k) \<le> a" "a < q_queue (pq_queue q ! k) + int (pq_size q)"
  shows "queued (M(a := p)) (pq_queue q ! j) = queued M (pq_queue q ! j)"
proof (rule queued_other)
  note D = prio_okD [OF ok]
  show "queue_ok (pq_queue q ! j)" using D(2) k by simp
  fix b assume b: "q_queue (pq_queue q ! j) \<le> b" "b < q_queue (pq_queue q ! j) + int (q_size (pq_queue q ! j))"
  have "b \<noteq> a"
  proof (cases "j < k")
    case True
    then have "(j + 1) * pq_size q \<le> k * pq_size q" by (intro mult_le_mono1) simp
    then have "int (j * pq_size q) + int (pq_size q) \<le> int (k * pq_size q)"
      by (simp only: of_nat_add [symmetric] of_nat_le_iff) simp
    then show ?thesis using a b D(4,5) k by auto
  next
    case False
    then have "(k + 1) * pq_size q \<le> j * pq_size q" using k by (intro mult_le_mono1) simp
    then have "int (k * pq_size q) + int (pq_size q) \<le> int (j * pq_size q)"
      by (simp only: of_nat_add [symmetric] of_nat_le_iff) simp
    then show ?thesis using a b D(4,5) k by auto
  qed
  then show "(M(a := p)) b = M b" by simp
qed

text \<open>Taking the oldest packet of a level, and queueing a packet at a level.\<close>

lemma take_level:
  assumes ok: "prio_ok buf M q" and k: "k < 8" and l: "levels M q ! k = p # ps"
  shows "\<exists>qq. buf_queue_get M (pq_queue q ! k) = Some (p, qq)
    \<and> prio_ok buf M (q\<lparr>pq_count := pq_count q - 1, pq_queue := (pq_queue q)[k := qq]\<rparr>)
    \<and> levels M (q\<lparr>pq_count := pq_count q - 1, pq_queue := (pq_queue q)[k := qq]\<rparr>) = (levels M q)[k := ps]
    \<and> 0 < pq_count q"
proof -
  note D = prio_okD [OF ok]
  let ?q = "pq_queue q ! k"
  let ?qq = "?q\<lparr>q_tail := buf_queue_next ?q (q_tail ?q), q_count := q_count ?q - 1\<rparr>"
  let ?n = "q\<lparr>pq_count := pq_count q - 1, pq_queue := (pq_queue q)[k := ?qq]\<rparr>"
  have qd: "queued M ?q = p # ps" using l D(9) k by simp
  have p: "p \<noteq> 0" "0 \<notin> set ps" using D(3) [OF k] qd by auto
  note g = queue_get_ok [OF D(2) [OF k] qd p(1)]
  have lv: "levels M ?n = (levels M q)[k := ps]" using g(2) by (simp add: levels_def map_update)
  have "sum_list (map length ((levels M q)[k := ps])) + Suc (length ps) = pq_count q + length ps"
    using sum_list_update_nat [of k "map length (levels M q)" "length ps"] k l D(6,8)
    by (simp add: map_update)
  then have c: "sum_list (map length ((levels M q)[k := ps])) = pq_count q - 1" "0 < pq_count q" by auto
  have "prio_ok buf M ?n" unfolding prio_ok_def lv
    using D(1-5,7) c next_ok [OF D(2) [OF k]] g(2) p(2) k by (auto simp: nth_list_update)
  then show ?thesis using g(1) lv c(2) by blast
qed

lemma add_level:
  assumes ok: "prio_ok buf M q" and k: "k < 8" and p: "p \<noteq> 0" and c: "pq_count q < pq_size q"
  shows "\<exists>qq M'. buf_queue_put (pq_queue q ! k) p M = Some (qq, M')
    \<and> prio_ok buf M' (q\<lparr>pq_queue := (pq_queue q)[k := qq], pq_count := pq_count q + 1\<rparr>)
    \<and> levels M' (q\<lparr>pq_queue := (pq_queue q)[k := qq], pq_count := pq_count q + 1\<rparr>)
      = (levels M q)[k := levels M q ! k @ [p]]"
proof -
  note D = prio_okD [OF ok]
  let ?q = "pq_queue q ! k"
  let ?qq = "?q\<lparr>q_count := q_count ?q + 1\<rparr>"
  let ?M = "M(buf_queue_first ?q := p)"
  let ?n = "q\<lparr>pq_queue := (pq_queue q)[k := ?qq], pq_count := pq_count q + 1\<rparr>"
  have cs: "q_count ?q < q_size ?q"
    using level_le_total [OF ok k] c D(4,9) k by simp
  have r: "q_queue ?q \<le> buf_queue_first ?q" "buf_queue_first ?q < q_queue ?q + int (pq_size q)"
    using slot_range [OF D(2) [OF k] cs] D(4) k by (auto simp: first_slot)
  have qd: "queued ?M ((pq_queue q)[k := ?qq] ! j) = (levels M q)[k := levels M q ! k @ [p]] ! j" if j: "j < 8" for j
  proof (cases "j = k")
    case True
    then show ?thesis using queued_put [OF D(2) [OF k] cs] D(1,8,9) k by simp
  next
    case False
    then show ?thesis using other_level [OF ok k j _ r] D(1,8,9) j by simp
  qed
  have lv: "levels ?M ?n = (levels M q)[k := levels M q ! k @ [p]]"
    using qd D(1,8) by (intro nth_equalityI) (simp_all add: levels_def)
  have "sum_list (map length ((levels M q)[k := levels M q ! k @ [p]])) = pq_count q + 1"
    using sum_list_update_nat [of k "map length (levels M q)" "length (levels M q ! k @ [p])"] k D(6,8)
    by (simp add: map_update)
  moreover have "queue_ok ?qq" using D(2) [OF k] cs by (simp add: queue_ok_def)
  moreover have "0 \<notin> set (queued ?M ((pq_queue q)[k := ?qq] ! j))" if "j < 8" for j
    using qd [OF that] D(3,8,9) that k p by (auto simp: nth_list_update)
  ultimately have "prio_ok buf ?M ?n" unfolding prio_ok_def lv
    using D(1,2,4,5) c k by (auto simp: nth_list_update)
  then show ?thesis using queue_put_ok [OF D(2) [OF k] cs] lv by blast
qed

lemma replace_level:
  assumes ok: "prio_ok buf M q" and k: "k < 8" "prio < 8" and l: "levels M q ! k = r # rs" and p: "p \<noteq> 0"
  shows "\<exists>q' M'. replace_at M q k p prio = Some (r, q', M') \<and> prio_ok buf M' q' \<and> pq_count q' = pq_count q
    \<and> (let ls = (levels M q)[k := rs] in levels M' q' = ls[prio := ls ! prio @ [p]])"
proof -
  obtain qq where t: "buf_queue_get M (pq_queue q ! k) = Some (r, qq)"
    "prio_ok buf M (q\<lparr>pq_count := pq_count q - 1, pq_queue := (pq_queue q)[k := qq]\<rparr>)" (is "prio_ok buf M ?q")
    "levels M (q\<lparr>pq_count := pq_count q - 1, pq_queue := (pq_queue q)[k := qq]\<rparr>) = (levels M q)[k := rs]"
    "0 < pq_count q" using take_level [OF ok k(1) l] by blast
  have "pq_count ?q < pq_size ?q" using t(4) prio_okD(7) [OF ok] by simp
  then obtain q2 M' where a: "buf_queue_put (pq_queue ?q ! prio) p M = Some (q2, M')"
    "prio_ok buf M' (?q\<lparr>pq_queue := (pq_queue ?q)[prio := q2], pq_count := pq_count ?q + 1\<rparr>)" (is "prio_ok buf M' ?q'")
    "levels M' (?q\<lparr>pq_queue := (pq_queue ?q)[prio := q2], pq_count := pq_count ?q + 1\<rparr>)
      = (levels M ?q)[prio := levels M ?q ! prio @ [p]]"
    using add_level [OF t(2) k(2) p] by blast
  have e: "?q' = q\<lparr>pq_queue := ((pq_queue q)[k := qq])[prio := q2]\<rparr>" using t(4) by simp
  have "replace_at M q k p prio = Some (r, ?q', M')" using t(1) a(1) unfolding e
    by (simp add: replace_at_def)
  then show ?thesis using a(2,3) t(3,4) by (auto simp: Let_def)
qed

lemma level_count: "prio_ok buf M q \<Longrightarrow> k < 8 \<Longrightarrow> q_count (pq_queue q ! k) = length (levels M q ! k)"
  by (simp add: prio_okD(9))

lemma get_loop_ok:
  assumes "prio_ok buf M q" "j < n" "n \<le> 8" "levels M q ! j \<noteq> []"
  shows "\<exists>k p ps q'. k < n \<and> levels M q ! k = p # ps \<and> (\<forall>i. k < i \<longrightarrow> i < n \<longrightarrow> levels M q ! i = [])
    \<and> prio_get_loop M q n = Some (p, q') \<and> prio_ok buf M q' \<and> levels M q' = (levels M q)[k := ps]"
  using assms(2-4)
proof (induction n)
  case (Suc n)
  show ?case
  proof (cases "levels M q ! n")
    case Nil
    then have "j < n" using Suc.prems by (metis less_antisym)
    then obtain k p ps q' where "k < n" "levels M q ! k = p # ps" "\<forall>i. k < i \<longrightarrow> i < n \<longrightarrow> levels M q ! i = []"
      "prio_get_loop M q n = Some (p, q')" "prio_ok buf M q'" "levels M q' = (levels M q)[k := ps]"
      using Suc by auto
    then show ?thesis using Nil level_count [OF assms(1), of n] Suc.prems
      by (intro exI [of _ k] exI [of _ p] exI [of _ ps] exI [of _ q']) (auto simp: less_Suc_eq)
  next
    case (Cons p ps)
    obtain qq where "buf_queue_get M (pq_queue q ! n) = Some (p, qq)"
      "prio_ok buf M (q\<lparr>pq_count := pq_count q - 1, pq_queue := (pq_queue q)[n := qq]\<rparr>)"
      "levels M (q\<lparr>pq_count := pq_count q - 1, pq_queue := (pq_queue q)[n := qq]\<rparr>) = (levels M q)[n := ps]"
      using take_level [OF assms(1) _ Cons] Suc.prems by auto
    then show ?thesis using Cons level_count [OF assms(1), of n] Suc.prems
      by (intro exI [of _ n] exI [of _ p] exI [of _ ps]) auto
  qed
qed simp

lemma empty_levels:
  assumes "prio_ok buf M q"
  shows "pq_count q = 0 \<longleftrightarrow> (\<forall>k < 8. levels M q ! k = [])"
  using prio_okD(6,8) [OF assms] by (auto simp: all_set_conv_all_nth)

lemma put_loop_ok:
  assumes "prio_ok buf M q" "prio < 8" "p \<noteq> 0"
  shows "if \<exists>i. k \<le> i \<and> i \<le> prio \<and> levels M q ! i \<noteq> []
    then \<exists>i r rs q' M'. k \<le> i \<and> i \<le> prio \<and> levels M q ! i = r # rs \<and> (\<forall>j. k \<le> j \<longrightarrow> j < i \<longrightarrow> levels M q ! j = [])
      \<and> prio_put_loop M q p prio k = Some (2, [r], q', M') \<and> prio_ok buf M' q' \<and> pq_count q' = pq_count q
      \<and> (let ls = (levels M q)[i := rs] in levels M' q' = ls[prio := ls ! prio @ [p]])
    else prio_put_loop M q p prio k = Some (0, [], q, M)"
  using assms
proof (induction M q p prio k rule: prio_put_loop.induct)
  case (1 M q p prio k)
  consider "k > prio" | "k \<le> prio" "levels M q ! k = []" | r rs where "k \<le> prio" "levels M q ! k = r # rs"
    by (metis list.exhaust not_le)
  then show ?case
  proof cases
    case 1
    then show ?thesis by (simp add: prio_put_loop.simps)
  next
    case 2
    have c: "\<not> q_count (pq_queue q ! k) > 0" using level_count [OF \<open>prio_ok buf M q\<close>, of k] 2 \<open>prio < 8\<close> by simp
    have e: "prio_put_loop M q p prio k = prio_put_loop M q p prio (k + 1)"
      using 2 c by (subst prio_put_loop.simps) simp
    have q: "k + 1 \<le> i \<longleftrightarrow> k \<le> i" if "levels M q ! i \<noteq> []" for i using 2 that by (metis Suc_eq_plus1 Suc_leI le_eq_less_or_eq Suc_leD)
    note IH = "1.IH" [OF _ c "1.prems"]
    show ?thesis
    proof (cases "\<exists>i. k \<le> i \<and> i \<le> prio \<and> levels M q ! i \<noteq> []")
      case True
      then have "\<exists>i. k + 1 \<le> i \<and> i \<le> prio \<and> levels M q ! i \<noteq> []" using q by blast
      then obtain i r rs q' M' where i: "k + 1 \<le> i" "i \<le> prio" "levels M q ! i = r # rs" "\<forall>j. k + 1 \<le> j \<longrightarrow> j < i \<longrightarrow> levels M q ! j = []"
        "prio_put_loop M q p prio (k + 1) = Some (2, [r], q', M')" "prio_ok buf M' q'" "pq_count q' = pq_count q"
        "let ls = (levels M q)[i := rs] in levels M' q' = ls[prio := ls ! prio @ [p]]"
        using IH 2 by (auto simp del: prio_put_loop.simps)
      have "\<forall>j. k \<le> j \<longrightarrow> j < i \<longrightarrow> levels M q ! j = []" using i(4) 2(2) by (metis Suc_eq_plus1 Suc_leI le_neq_implies_less)
      then show ?thesis using True i e by (simp only: if_True) (metis Suc_leD Suc_eq_plus1)
    next
      case False
      then have "\<not> (\<exists>i. k + 1 \<le> i \<and> i \<le> prio \<and> levels M q ! i \<noteq> [])" using q by blast
      then show ?thesis using IH 2 False e by (simp only: if_False)
    qed
  next
    case 3
    have c: "q_count (pq_queue q ! k) > 0" using level_count [OF \<open>prio_ok buf M q\<close>, of k] 3 \<open>prio < 8\<close> by simp
    obtain q' M' where "replace_at M q k p prio = Some (r, q', M')" "prio_ok buf M' q'" "pq_count q' = pq_count q"
      "let ls = (levels M q)[k := rs] in levels M' q' = ls[prio := ls ! prio @ [p]]"
      using replace_level [OF \<open>prio_ok buf M q\<close> _ \<open>prio < 8\<close> 3(2) \<open>p \<noteq> 0\<close>] 3(1) \<open>prio < 8\<close> by auto
    moreover have "\<exists>i. k \<le> i \<and> i \<le> prio \<and> levels M q ! i \<noteq> []" using 3 by auto
    ultimately show ?thesis using 3 c
      by (simp only: if_True prio_put_loop.simps [of M q p prio k])
        (intro exI [of _ k] exI [of _ r] exI [of _ rs] exI [of _ q'] exI [of _ M'], auto)
  qed
qed

lemma exchange_loop_ok:
  assumes "prio_ok buf M q" "prio < 8" "p \<noteq> 0" "n \<le> 8"
  shows "if \<exists>i. prio \<le> i \<and> i < n \<and> levels M q ! i \<noteq> []
    then \<exists>i r rs q' M'. prio \<le> i \<and> i < n \<and> levels M q ! i = r # rs \<and> (\<forall>j. i < j \<longrightarrow> j < n \<longrightarrow> levels M q ! j = [])
      \<and> prio_exchange_loop M q p prio n = Some (r, q', M') \<and> prio_ok buf M' q' \<and> pq_count q' = pq_count q
      \<and> (let ls = (levels M q)[i := rs] in levels M' q' = ls[prio := ls ! prio @ [p]])
    else prio_exchange_loop M q p prio n = Some (p, q, M)"
  using assms(4)
proof (induction n)
  case (Suc n)
  consider "n < prio" | "prio \<le> n" "levels M q ! n = []" | r rs where "prio \<le> n" "levels M q ! n = r # rs"
    by (metis list.exhaust not_le)
  then show ?case
  proof cases
    case 1
    then show ?thesis by auto
  next
    case 2
    have e: "prio_exchange_loop M q p prio (Suc n) = prio_exchange_loop M q p prio n"
      using 2 level_count [OF assms(1), of n] Suc.prems by simp
    have q: "i < Suc n \<longleftrightarrow> i < n" if "levels M q ! i \<noteq> []" for i using 2 that by (metis less_Suc_eq)
    show ?thesis
    proof (cases "\<exists>i. prio \<le> i \<and> i < Suc n \<and> levels M q ! i \<noteq> []")
      case True
      then have "\<exists>i. prio \<le> i \<and> i < n \<and> levels M q ! i \<noteq> []" using q by blast
      then obtain i r rs q' M' where i: "prio \<le> i" "i < n" "levels M q ! i = r # rs" "\<forall>j. i < j \<longrightarrow> j < n \<longrightarrow> levels M q ! j = []"
        "prio_exchange_loop M q p prio n = Some (r, q', M')" "prio_ok buf M' q'" "pq_count q' = pq_count q"
        "let ls = (levels M q)[i := rs] in levels M' q' = ls[prio := ls ! prio @ [p]]"
        using Suc by auto
      have "\<forall>j. i < j \<longrightarrow> j < Suc n \<longrightarrow> levels M q ! j = []" using i(4) 2(2) by (metis less_Suc_eq)
      then show ?thesis using True i e by (simp only: if_True) (metis less_Suc_eq)
    next
      case False
      then have "\<not> (\<exists>i. prio \<le> i \<and> i < n \<and> levels M q ! i \<noteq> [])" using q by blast
      then show ?thesis using Suc False e by (simp only: if_False)
    qed
  next
    case 3
    have c: "q_count (pq_queue q ! n) > 0" using level_count [OF assms(1), of n] 3 Suc.prems by simp
    obtain q' M' where "replace_at M q n p prio = Some (r, q', M')" "prio_ok buf M' q'" "pq_count q' = pq_count q"
      "let ls = (levels M q)[n := rs] in levels M' q' = ls[prio := ls ! prio @ [p]]"
      using replace_level [OF assms(1) _ assms(2) 3(2) assms(3)] Suc.prems by auto
    moreover have "\<exists>i. prio \<le> i \<and> i < Suc n \<and> levels M q ! i \<noteq> []" using 3 by auto
    ultimately show ?thesis using 3 c
      by (simp only: if_True prio_exchange_loop.simps)
        (intro exI [of _ n] exI [of _ r] exI [of _ rs] exI [of _ q'] exI [of _ M'], auto)
  qed
qed simp

lemma buf_prio_queue_init_ok:
  assumes "32 \<le> bytes"
  shows "prio_ok buf M (buf_prio_queue_init buf bytes)"
    "levels M (buf_prio_queue_init buf bytes) = replicate 8 []"
proof -
  let ?q = "buf_prio_queue_init buf bytes"
  have n: "pq_queue ?q ! k = buf_queue_init (buf + int (k * (bytes div 8 div 4))) (bytes div 8)" if "k < 8" for k
    using that by (simp add: buf_prio_queue_init_def BUF_PRIO_NQ_def Let_def)
  show l: "levels M ?q = replicate 8 []"
    by (intro nth_equalityI)
      (simp_all add: levels_def buf_prio_queue_init_def BUF_PRIO_NQ_def Let_def queued_def buf_queue_init_def)
  have "queue_ok (pq_queue ?q ! k)" "queued M (pq_queue ?q ! k) = []" "q_size (pq_queue ?q ! k) = pq_size ?q"
    "q_queue (pq_queue ?q ! k) = buf + int (k * pq_size ?q)" if "k < 8" for k
    using assms by (simp_all add: n [OF that] queue_ok_def buf_queue_init_def queued_def,
      simp_all add: buf_prio_queue_init_def Let_def BUF_PRIO_NQ_def)
  moreover have "length (pq_queue ?q) = 8" "pq_count ?q = 0"
    by (simp_all add: buf_prio_queue_init_def Let_def BUF_PRIO_NQ_def)
  ultimately show "prio_ok buf M ?q" unfolding prio_ok_def l by simp
qed

section \<open>Properties\<close>

text \<open>C10: Any sequence of puts and gets on the ring of \<open>buf-queue.c\<close>, started on a well-formed
  queue, returns the packets of a bounded FIFO queue: the assertions hold exactly as long as no
  packet is put on a full queue, and the ring position of an entry does not matter.\<close>

theorem buf_queue_is_fifo:
  assumes "ring_ok (q, M)" "\<forall>op \<in> set ops. op \<noteq> Some 0"
  shows "map_option (\<lambda>(out, q, M). (out, queued M q)) (ring.run ops (q, M)) = fifo_spec 0 (q_size q) ops (queued M q)"
  proof -
  have "\<forall>p. Some p \<in> set ops \<longrightarrow> p \<noteq> 0" using assms(2) by auto
  then show ?thesis using ring.run_refines [OF assms(1), of ops] by (simp add: case_prod_unfold)
qed

lemma buf_queue_is_fifo_witness:
  "\<exists>q M. ring.run [Some 7, Some 8, None, Some 9, None, None, None] (buf_queue_init 100 8, \<lambda>_. 0) = Some ([7, 8, 9, 0], q, M)"
proof -
  have "ring_ok (buf_queue_init 100 8, \<lambda>_. 0)" by (rule buf_queue_init_ok) simp
  then show ?thesis
    using buf_queue_is_fifo [of "buf_queue_init 100 8" "\<lambda>_. 0" "[Some 7, Some 8, None, Some 9, None, None, None]"]
    by (auto simp: buf_queue_init_def queued_def)
qed

text \<open>C11: \<open>buf_prio_queue_get\<close> returns the oldest packet of the highest level that is not empty and
  removes it; on an empty queue it returns null. It never fails an assertion.\<close>

theorem prio_get_highest:
  assumes "prio_ok buf M q"
  shows "if \<forall>k < 8. levels M q ! k = [] then buf_prio_queue_get M q = Some (0, q)
    else \<exists>k p ps q'. k < 8 \<and> levels M q ! k = p # ps \<and> (\<forall>i. k < i \<longrightarrow> i < 8 \<longrightarrow> levels M q ! i = [])
      \<and> buf_prio_queue_get M q = Some (p, q') \<and> prio_ok buf M q' \<and> levels M q' = (levels M q)[k := ps]"
proof (cases "\<forall>k < 8. levels M q ! k = []")
  case True
  then show ?thesis using empty_levels [OF assms] by (simp add: buf_prio_queue_get_def)
next
  case False
  then obtain j where "j < 8" "levels M q ! j \<noteq> []" by auto
  then show ?thesis using get_loop_ok [OF assms, of j 8] False empty_levels [OF assms]
    by (simp only: if_False buf_prio_queue_get_def BUF_PRIO_NQ_def order_refl) simp
qed

text \<open>\<open>buf_prio_queue_put\<close> appends the packet to its level while the limit is not reached. At the
  limit it drops the oldest packet of the lowest level that is not empty, unless that level is
  above the packet's own: then the packet is refused and nothing changes.\<close>

theorem prio_put_policy:
  assumes "prio_ok buf M q" "prio < 8" "p \<noteq> 0"
  shows "if pq_count q < pq_size q then
      \<exists>q' M'. buf_prio_queue_put M q p prio = Some (1, [], q', M') \<and> prio_ok buf M' q'
        \<and> levels M' q' = (levels M q)[prio := levels M q ! prio @ [p]]
    else if \<exists>i \<le> prio. levels M q ! i \<noteq> [] then
      \<exists>i r rs q' M'. i \<le> prio \<and> levels M q ! i = r # rs \<and> (\<forall>j < i. levels M q ! j = [])
        \<and> buf_prio_queue_put M q p prio = Some (2, [r], q', M') \<and> prio_ok buf M' q' \<and> pq_count q' = pq_count q
        \<and> (let ls = (levels M q)[i := rs] in levels M' q' = ls[prio := ls ! prio @ [p]])
    else buf_prio_queue_put M q p prio = Some (0, [], q, M)"
proof (cases "pq_count q < pq_size q")
  case True
  then show ?thesis using add_level [OF assms(1,2,3) True] by (auto simp: buf_prio_queue_put_def)
next
  case False
  have e: "buf_prio_queue_put M q p prio = prio_put_loop M q p prio 0"
    using False by (simp add: buf_prio_queue_put_def)
  show ?thesis unfolding if_not_P [OF False] e using put_loop_ok [OF assms, of 0] by (simp only: le0 simp_thms)
qed

definition prio_example :: "buf_prio_queue_t" where
  "prio_example = buf_prio_queue_init 0 64"

lemma prio_get_highest_witness: "buf_prio_queue_get (\<lambda>_. 0) prio_example = Some (0, prio_example)"
  using prio_get_highest [OF buf_prio_queue_init_ok(1) [of 64 0 "\<lambda>_. 0"]]
    buf_prio_queue_init_ok(2) [of 64 "\<lambda>_. 0" 0] by (simp add: prio_example_def)

lemma prio_put_policy_witness:
  "\<exists>q' M'. buf_prio_queue_put (\<lambda>_. 0) prio_example 5 3 = Some (1, [], q', M') \<and> levels M' q' = (replicate 8 [])[3 := [5]]"
proof -
  have "pq_count prio_example < pq_size prio_example"
    by (simp add: prio_example_def buf_prio_queue_init_def Let_def BUF_PRIO_NQ_def)
  then show ?thesis
    using prio_put_policy [OF buf_prio_queue_init_ok(1) [of 64 0 "\<lambda>_. 0"], of 3 5]
      buf_prio_queue_init_ok(2) [of 64 "\<lambda>_. 0" 0] by (auto simp: prio_example_def)
qed

text \<open>\<open>buf_prio_queue_exchange\<close> swaps the packet for the oldest one of the highest level at or above
  its own, or gives it back.\<close>

lemma prio_exchange_ok:
  assumes "prio_ok buf M q" "prio < 8" "p \<noteq> 0"
  shows "if \<exists>i. prio \<le> i \<and> i < 8 \<and> levels M q ! i \<noteq> []
    then \<exists>i r rs q' M'. prio \<le> i \<and> i < 8 \<and> levels M q ! i = r # rs \<and> (\<forall>j. i < j \<longrightarrow> j < 8 \<longrightarrow> levels M q ! j = [])
      \<and> buf_prio_queue_exchange M q p prio = Some (r, q', M') \<and> prio_ok buf M' q' \<and> pq_count q' = pq_count q
      \<and> (let ls = (levels M q)[i := rs] in levels M' q' = ls[prio := ls ! prio @ [p]])
    else buf_prio_queue_exchange M q p prio = Some (p, q, M)"
proof (cases "pq_count q = 0")
  case True
  then have n: "\<not> (\<exists>i. prio \<le> i \<and> i < 8 \<and> levels M q ! i \<noteq> [])" using empty_levels [OF assms(1)] by auto
  show ?thesis unfolding if_not_P [OF n] using True by (simp add: buf_prio_queue_exchange_def)
next
  case False
  then have e: "buf_prio_queue_exchange M q p prio = prio_exchange_loop M q p prio 8"
    by (simp add: buf_prio_queue_exchange_def BUF_PRIO_NQ_def del: prio_exchange_loop.simps)
  show ?thesis unfolding e by (rule exchange_loop_ok [OF assms order_refl])
qed

end
