(* ===== verification/Crc_Inet.thy ===== *)
theory Crc_Inet
  imports Uos_Prelude
begin

text \<open>
  The Internet checksum of \<open>crc/crc16-inet.c\<close>, in the C variant for 32-bit little-endian
  processors, and the checksum of a buffer chain (\<open>buf/buf-chksum.c\<close>). The variable \<open>longsum\<close> is
  a natural number modulo \<open>2 ^ 32\<close>, the sums are 16-bit words.

  The code treats a buffer that starts at an odd address specially, and leaves the sum with its
  bytes swapped after an odd number of bytes, so that the next part of a message can be added.
  The lemmas compare everything with \<open>bsum\<close>, the sum byte by byte modulo \<open>2 ^ 16 - 1\<close>.
\<close>

section \<open>The code\<close>

text \<open>The little-endian short of two bytes, the swapping step after an odd byte, and the final
  folding of the carries.\<close>

definition short_le :: "u8 \<Rightarrow> u8 \<Rightarrow> nat" where
  "short_le a b = unat a + 256 * unat b"

definition swap_long :: "nat \<Rightarrow> nat" where
  "swap_long longsum = (longsum div 256 + longsum mod 256 * 256) mod 2 ^ 32"

definition cyclic_sum :: "nat \<Rightarrow> u16" where
  "cyclic_sum longsum =
     (let longsum = longsum div 2 ^ 16 + longsum mod 2 ^ 16; s = of_nat longsum :: u16
      in if odd (longsum div 2 ^ 16) then s + 1 else s)"

fun add_shorts :: "nat \<Rightarrow> u8 list \<Rightarrow> nat \<times> u8 list" where
  "add_shorts longsum (a # b # buf) = add_shorts ((longsum + short_le a b) mod 2 ^ 32) buf"
| "add_shorts longsum buf = (longsum, buf)"

text \<open>The flag says whether the buffer starts at an odd address. An empty buffer at an odd address
  makes the code read the byte there and wrap the length: no result.\<close>

definition crc16_inet_tail :: "nat \<Rightarrow> u8 list \<Rightarrow> u16" where
  "crc16_inet_tail longsum buf =
     (let (longsum, buf) = add_shorts longsum buf
      in cyclic_sum (case buf of [] \<Rightarrow> longsum | b # _ \<Rightarrow> swap_long ((longsum + unat b) mod 2 ^ 32)))"

definition crc16_inet :: "u16 \<Rightarrow> bool \<Rightarrow> u8 list \<Rightarrow> u16 option" where
  "crc16_inet s odd_addr buf =
     (let longsum = unat s
      in if odd_addr then
           (case buf of [] \<Rightarrow> None
            | b # buf \<Rightarrow> Some (crc16_inet_tail (swap_long ((longsum + unat b) mod 2 ^ 32)) buf))
         else Some (crc16_inet_tail longsum buf))"

text \<open>The pseudo header: the four bytes of each address, the protocol, the length.\<close>

type_synonym ipaddr = "u8 \<times> u8 \<times> u8 \<times> u8"

definition crc16_inet_header :: "ipaddr \<Rightarrow> ipaddr \<Rightarrow> u8 \<Rightarrow> u16 \<Rightarrow> u16" where
  "crc16_inet_header src dest proto proto_len =
     (case (src, dest) of ((s0, s1, s2, s3), (d0, d1, d2, d3)) \<Rightarrow>
        let longsum = unat proto_len;
            longsum = longsum + (unat proto + unat s1 + unat s3 + unat d1 + unat d3);
            longsum = longsum * 256;
            longsum = longsum + (unat s0 + unat s2 + unat d0 + unat d2)
        in cyclic_sum longsum)"

definition swap_bytes :: "u16 \<Rightarrow> u16" where
  "swap_bytes s = push_bit 8 s OR drop_bit 8 s"

definition crc16_inet_byte :: "u16 \<Rightarrow> u8 \<Rightarrow> u16" where
  "crc16_inet_byte s data = swap_bytes (cyclic_sum (unat s + unat data))"

text \<open>\<open>buf_chksum\<close>: a chain is the list of its segments, each with the parity of its address.\<close>

fun chain_sum :: "(bool \<times> u8 list) list \<Rightarrow> u16 \<Rightarrow> u16 option" where
  "chain_sum [] s = Some s"
| "chain_sum ((odd_addr, data) # p) s = do { s \<leftarrow> crc16_inet s odd_addr data; chain_sum p s }"

definition buf_chksum :: "(bool \<times> u8 list) list \<Rightarrow> u16 \<Rightarrow> u16 option" where
  "buf_chksum p s = map_option (\<lambda>s. NOT s) (chain_sum p s)"

section \<open>The sum byte by byte\<close>

fun bsum :: "nat \<Rightarrow> u8 list \<Rightarrow> nat" where
  "bsum s [] = s"
| "bsum s (b # bs) = bsum (256 * (s + unat b)) bs"

abbreviation same :: "nat \<Rightarrow> nat \<Rightarrow> bool" where
  "same a b \<equiv> a mod 65535 = b mod 65535 \<and> (a = 0 \<longleftrightarrow> b = 0)"

lemma unat_u8: "unat (b :: u8) < 256" and unat_u16: "unat (s :: u16) < 65536"
  using unsigned_less [where 'a = nat, of b] unsigned_less [where 'a = nat, of s] by simp_all

lemma bsum_cong: "same s t \<Longrightarrow> same (bsum s bs) (bsum t bs)"
proof (induction bs arbitrary: s t)
  case (Cons b bs)
  have "(256 * (s + unat b)) mod 65535 = (256 * (t + unat b)) mod 65535"
    using Cons.prems by (intro mod_mult_cong mod_add_cong refl) simp
  then show ?case using Cons by auto
qed simp

lemma bsum_append: "bsum s (bs @ cs) = bsum (bsum s bs) cs"
  by (induction s bs rule: bsum.induct) simp_all

lemma same_plus: "a + 65535 * k = b \<Longrightarrow> (a = 0 \<longleftrightarrow> b = 0) \<Longrightarrow> same b a"
  by auto

lemma swap_long_same: "l < 2 ^ 32 \<Longrightarrow> same (swap_long l) (256 * l)"
proof -
  assume l: "l < 2 ^ 32"
  have e: "l = 256 * (l div 256) + l mod 256" by simp
  have "l div 256 + l mod 256 * 256 < 2 ^ 32"
  proof -
    have "l mod 256 < 256" "l div 256 < 2 ^ 24" using l by (simp_all add: div_less_iff_less_mult)
    then show ?thesis by simp
  qed
  then have s: "swap_long l = l div 256 + l mod 256 * 256" by (simp add: swap_long_def)
  have "256 * l = swap_long l + 65535 * (l div 256)" using e unfolding s by linarith
  moreover have "swap_long l = 0 \<longleftrightarrow> l = 0" unfolding s using e by auto
  ultimately show ?thesis by (metis mod_mult_self2 mult_eq_0_iff zero_neq_numeral)
qed

lemma cyclic_sum_same: "l < 2 ^ 32 \<Longrightarrow> same (unat (cyclic_sum l)) l"
proof -
  assume l: "l < 2 ^ 32"
  define q r where "q = l div 65536" and "r = l mod 65536"
  have b: "q < 65536" "r < 65536" "l = 65536 * q + r" using l by (simp_all add: q_def r_def)
  have c: "cyclic_sum l = (if odd ((q + r) div 65536) then of_nat (q + r) + 1 else of_nat (q + r))"
    by (simp add: cyclic_sum_def q_def r_def Let_def)
  show ?thesis
  proof (cases "q + r < 65536")
    case True
    then have "unat (cyclic_sum l) = q + r" by (simp add: c unat_of_nat take_bit_nat_eq_self del: of_nat_add)
    moreover have "l = (q + r) + 65535 * q" using b by simp
    ultimately show ?thesis by (metis add_is_0 mod_mult_self2 mult_0_right)
  next
    case False
    then have d: "(q + r) div 65536 = 1" using b by (intro div_nat_eqI) simp_all
    have m: "(of_nat (q + r) :: u16) + 1 = of_nat (q + r - 65535)"
    proof -
      have "(q + r + 1) mod 65536 = (q + r - 65535 + 65536) mod 65536" using False by simp
      also have "\<dots> = (q + r - 65535) mod 65536" by (rule mod_add_self2)
      finally have "(of_nat (q + r + 1) :: u16) = of_nat (q + r - 65535)"
        by (simp add: word_of_nat_eq_iff take_bit_eq_mod del: of_nat_add of_nat_Suc)
      then show ?thesis by (simp add: add.commute)
    qed
    have "q + r - 65535 < 65536" using b by linarith
    moreover have "cyclic_sum l = of_nat (q + r) + 1" using c d by (simp del: of_nat_add)
    then have "cyclic_sum l = of_nat (q + r - 65535)" by (simp only: m)
    ultimately have "unat (cyclic_sum l) = q + r - 65535"
      by (simp add: unat_of_nat take_bit_nat_eq_self)
    moreover have "l mod 65535 = (q + r - 65535) mod 65535"
    proof -
      have "l = (q + r - 65535) + 65535 * (q + 1)" using b False by simp
      then show ?thesis by (metis mod_mult_self2)
    qed
    moreover have "l \<noteq> 0" "q + r - 65535 \<noteq> 0" using False b(3) by auto
    ultimately show ?thesis by simp
  qed
qed

lemma same_unique: "same (unat a) (unat b) \<Longrightarrow> (a :: u16) = b"
proof -
  assume s: "same (unat a) (unat b)"
  have "n mod 65535 = (if n = 65535 then 0 else n)" if "n < 65536" for n :: nat
    using that by (cases "n = 65535") auto
  then have "unat a = unat b" using s unat_u16 [of a] unat_u16 [of b] by (auto split: if_splits)
  then show ?thesis by (rule unsigned_word_eqI)
qed

section \<open>The code computes it\<close>

lemma unat_swap_bytes: "unat (swap_bytes w) = unat w div 256 + unat w mod 256 * 256"
proof -
  have "push_bit 8 w AND drop_bit 8 w = 0"
    by (rule bit_word_eqI) (auto simp: bit_simps dest: bit_u16)
  then have "swap_bytes w = push_bit 8 w + drop_bit 8 w"
    unfolding swap_bytes_def by (rule disjunctive_add_eq_or [symmetric])
  then have "unat (swap_bytes w) = (unat (push_bit 8 w) + unat (drop_bit 8 w)) mod 65536"
    by (simp only: unat_word_ariths(1)) simp
  moreover have "unat (push_bit 8 w) = unat w mod 256 * 256"
  proof -
    have "unat (push_bit 8 w) = (unat w * 256) mod 65536"
      by (simp add: push_bit_eq_mult unat_word_ariths(2))
    also have "\<dots> = (unat w * 256) mod (256 * 256)" by simp
    also have "\<dots> = unat w mod 256 * 256" by (rule mult_mod_left [symmetric])
    finally show ?thesis .
  qed
  moreover have "unat (drop_bit 8 w) = unat w div 256"
    by (simp add: drop_bit_eq_div unat_div)
  moreover have "unat w mod 256 * 256 + unat w div 256 < 65536"
  proof -
    have "unat w mod 256 < 256" "unat w div 256 < 256" using unat_u16 [of w] by (simp_all add: div_less_iff_less_mult)
    then show ?thesis by linarith
  qed
  ultimately show ?thesis by (simp only: mod_less add.commute)
qed

lemma byte_same: "same (unat (crc16_inet_byte s b)) (256 * (unat s + unat b))"
proof -
  let ?c = "cyclic_sum (unat s + unat b)"
  have c: "same (unat ?c) (unat s + unat b)"
    using unat_u16 [of s] unat_u8 [of b] by (intro cyclic_sum_same) simp
  have l: "same (swap_long (unat ?c)) (256 * unat ?c)" using unat_u16 [of ?c] by (intro swap_long_same) simp
  have "unat (swap_bytes ?c) = swap_long (unat ?c)"
  proof -
    have "unat ?c mod 256 < 256" "unat ?c div 256 < 256" using unat_u16 [of ?c] by (simp_all add: div_less_iff_less_mult)
    then have "unat ?c div 256 + unat ?c mod 256 * 256 < 2 ^ 32" by simp
    then show ?thesis by (simp add: unat_swap_bytes swap_long_def)
  qed
  moreover have "same (256 * unat ?c) (256 * (unat s + unat b))"
    using c by (intro conjI mod_mult_cong refl) auto
  ultimately show ?thesis using l by (simp add: crc16_inet_byte_def)
qed

lemma bytes_same: "same (unat (foldl crc16_inet_byte s buf)) (bsum (unat s) buf)"
proof (induction buf arbitrary: s)
  case (Cons b buf)
  show ?case using Cons [of "crc16_inet_byte s b"] bsum_cong [OF byte_same, of s b buf] by simp
qed simp

lemma shorts_same:
  "add_shorts l buf = (l', rest) \<Longrightarrow> l + 65536 * length buf < 2 ^ 32 \<Longrightarrow>
   l' + 65536 * length rest < 2 ^ 32 \<and> length rest \<le> 1 \<and> same (bsum l' rest) (bsum l buf)"
proof (induction l buf rule: add_shorts.induct)
  case (1 l a b buf)
  have s: "short_le a b < 65536" using unat_u8 [of a] unat_u8 [of b] by (simp add: short_le_def)
  have m: "(l + short_le a b) mod 2 ^ 32 = l + short_le a b" using 1(3) s by simp
  have IH: "l' + 65536 * length rest < 2 ^ 32 \<and> length rest \<le> 1 \<and> same (bsum l' rest) (bsum (l + short_le a b) buf)"
    using 1(1) [unfolded m] 1(2,3) s by (simp only: m add_shorts.simps) simp
  have "256 * (256 * (l + unat a) + unat b) = (l + short_le a b) + 65535 * (l + unat a)"
    by (simp add: short_le_def)
  then have "(256 * (256 * (l + unat a) + unat b)) mod 65535 = (l + short_le a b) mod 65535"
    by (simp only: mod_mult_self2)
  then have "same (256 * (256 * (l + unat a) + unat b)) (l + short_le a b)" by (auto simp: short_le_def)
  then have "same (bsum l (a # b # buf)) (bsum (l + short_le a b) buf)"
    using bsum_cong [of _ _ buf] by simp
  then show ?case using IH by simp
qed auto

lemma swap_long_less: "l < 2 ^ 32 \<Longrightarrow> swap_long l < 2 ^ 32"
  by (simp add: swap_long_def)

lemma tail_same:
  assumes "l + 65536 * length buf < 2 ^ 32"
  shows "same (unat (crc16_inet_tail l buf)) (bsum l buf)"
proof -
  obtain l' rest where r: "add_shorts l buf = (l', rest)" by fastforce
  note s = shorts_same [OF r assms]
  show ?thesis
  proof (cases rest)
    case Nil
    then show ?thesis using s cyclic_sum_same [of l'] r by (simp add: crc16_inet_tail_def)
  next
    case (Cons b bs)
    then have rest: "rest = [b]" and l: "l' + 65536 < 2 ^ 32" using s by auto
    have m: "(l' + unat b) mod 2 ^ 32 = l' + unat b" using l unat_u8 [of b] by simp
    have "same (swap_long (l' + unat b)) (256 * (l' + unat b))"
      using l unat_u8 [of b] by (intro swap_long_same) simp
    moreover have "same (unat (cyclic_sum (swap_long (l' + unat b)))) (swap_long (l' + unat b))"
      using l unat_u8 [of b] by (intro cyclic_sum_same swap_long_less) simp
    moreover have "crc16_inet_tail l buf = cyclic_sum (swap_long (l' + unat b))"
      using m by (simp add: crc16_inet_tail_def r rest)
    moreover have "bsum l' rest = 256 * (l' + unat b)" by (simp add: rest)
    ultimately show ?thesis using s by metis
  qed
qed

lemma crc16_inet_bytes:
  assumes "length buf < 2 ^ 16" "odd_addr \<Longrightarrow> buf \<noteq> []"
  shows "crc16_inet s odd_addr buf = Some (foldl crc16_inet_byte s buf)"
proof (cases odd_addr)
  case False
  have "same (unat (crc16_inet_tail (unat s) buf)) (bsum (unat s) buf)"
    using assms(1) unat_u16 [of s] by (intro tail_same) simp
  then have "crc16_inet_tail (unat s) buf = foldl crc16_inet_byte s buf"
    using bytes_same [of s buf] by (intro same_unique) metis
  then show ?thesis using False by (simp add: crc16_inet_def)
next
  case True
  then obtain b bs where b: "buf = b # bs" using assms(2) by (cases buf) auto
  let ?l = "unat s + unat b"
  have l: "?l < 65792" using unat_u16 [of s] unat_u8 [of b] by simp
  have sl: "swap_long ?l < 65536 + 65536"
  proof -
    have "?l div 256 < 257" "?l mod 256 < 256" using l by (simp_all add: div_less_iff_less_mult)
    moreover have "swap_long ?l \<le> ?l div 256 + ?l mod 256 * 256" by (simp add: swap_long_def)
    ultimately show ?thesis by linarith
  qed
  have "same (unat (crc16_inet_tail (swap_long ?l) bs)) (bsum (swap_long ?l) bs)"
    using assms(1) sl b by (intro tail_same) simp
  moreover have "same (bsum (swap_long ?l) bs) (bsum (256 * ?l) bs)"
    using l by (intro bsum_cong swap_long_same) simp
  moreover have "bsum (unat s) buf = bsum (256 * ?l) bs" by (simp add: b)
  ultimately have "same (unat (crc16_inet_tail (swap_long ?l) bs)) (unat (foldl crc16_inet_byte s buf))"
    using bytes_same [of s buf] by metis
  then have "crc16_inet_tail (swap_long ?l) bs = foldl crc16_inet_byte s buf" by (rule same_unique)
  moreover have "?l mod 2 ^ 32 = ?l" using l by simp
  ultimately show ?thesis using True by (simp add: crc16_inet_def b)
qed

lemma chain_bytes:
  "\<forall>(odd_addr, data) \<in> set p. length data < 2 ^ 16 \<and> (odd_addr \<longrightarrow> data \<noteq> []) \<Longrightarrow>
   chain_sum p s = Some (foldl crc16_inet_byte s (concat (map snd p)))"
proof (induction p arbitrary: s)
  case (Cons x p)
  then show ?case by (cases x) (simp add: crc16_inet_bytes)
qed simp

section \<open>The specification of RFC 1071\<close>

text \<open>The sum of the message as little-endian shorts, an odd last byte padded with zero.\<close>

fun rfc1071 :: "u8 list \<Rightarrow> nat" where
  "rfc1071 [] = 0"
| "rfc1071 [a] = unat a"
| "rfc1071 (a # b # bs) = short_le a b + rfc1071 bs"

lemma pair_same: "same (256 * (256 * (s + unat a) + unat b)) (s + short_le a b)"
proof -
  have "256 * (256 * (s + unat a) + unat b) = (s + short_le a b) + 65535 * (s + unat a)"
    by (simp add: short_le_def)
  then have "(256 * (256 * (s + unat a) + unat b)) mod 65535 = (s + short_le a b) mod 65535"
    by (simp only: mod_mult_self2)
  then show ?thesis by (auto simp: short_le_def)
qed

lemma bsum_rfc: "same (bsum s bs) (if even (length bs) then s + rfc1071 bs else 256 * (s + rfc1071 bs))"
proof (induction bs arbitrary: s rule: rfc1071.induct)
  case (3 a b bs)
  have "same (bsum s (a # b # bs)) (bsum (s + short_le a b) bs)"
    using bsum_cong [OF pair_same, of s a b bs] by simp
  then show ?case using 3 [of "s + short_le a b"] by (simp add: add.assoc)
qed simp_all

lemma rfc1071_append: "even (length xs) \<Longrightarrow> rfc1071 (xs @ ys) = rfc1071 xs + rfc1071 ys"
  by (induction xs rule: rfc1071.induct) simp_all

definition ip_list :: "ipaddr \<Rightarrow> u8 list" where
  "ip_list a = (case a of (a0, a1, a2, a3) \<Rightarrow> [a0, a1, a2, a3])"

lemma header_same:
  "same (unat (crc16_inet_header src dest proto len))
     (rfc1071 (ip_list src @ ip_list dest @ [0, proto, ucast (drop_bit 8 len), ucast len]))"
proof -
  obtain s0 s1 s2 s3 where s: "src = (s0, s1, s2, s3)" by (metis prod.exhaust)
  obtain d0 d1 d2 d3 where d: "dest = (d0, d1, d2, d3)" by (metis prod.exhaust)
  define m where "m = unat proto + unat s1 + unat s3 + unat d1 + unat d3"
  define n where "n = unat s0 + unat s2 + unat d0 + unat d2"
  define l where "l = (unat len + m) * 256 + n"
  have c: "crc16_inet_header src dest proto len = cyclic_sum l"
    by (simp add: crc16_inet_header_def s d l_def m_def n_def Let_def add.assoc)
  have "m < 1280" "n < 1024"
    using unat_u8 [of proto] unat_u8 [of s1] unat_u8 [of s3] unat_u8 [of d1] unat_u8 [of d3]
      unat_u8 [of s0] unat_u8 [of s2] unat_u8 [of d0] unat_u8 [of d2] by (simp_all add: m_def n_def)
  then have l: "l < 2 ^ 32" using unat_u16 [of len] by (simp add: l_def)
  have h: "unat (ucast (drop_bit 8 len) :: u8) = unat len div 256" "unat (ucast len :: u8) = unat len mod 256"
  proof -
    have "unat len div 256 < 256" using unat_u16 [of len] by (simp add: div_less_iff_less_mult)
    then show "unat (ucast (drop_bit 8 len) :: u8) = unat len div 256"
      by (simp add: drop_bit_eq_div unat_div unsigned_ucast_eq take_bit_nat_eq_self)
    show "unat (ucast len :: u8) = unat len mod 256"
      by (simp add: unsigned_ucast_eq take_bit_eq_mod)
  qed
  let ?R = "rfc1071 (ip_list src @ ip_list dest @ [0, proto, ucast (drop_bit 8 len), ucast len])"
  have R: "?R = n + 256 * m + unat len div 256 + 256 * (unat len mod 256)"
    by (simp add: ip_list_def s d short_le_def h m_def n_def)
  define q t where "q = unat len div 256" and "t = unat len mod 256"
  have e: "unat len = 256 * q + t" by (simp add: q_def t_def)
  have R': "?R = n + 256 * m + q + 256 * t" using R by (simp only: q_def t_def)
  have "l = ?R + 65535 * q" unfolding R' l_def e by simp
  then have "l mod 65535 = ?R mod 65535" by (simp only: mod_mult_self2)
  moreover have "l = 0 \<longleftrightarrow> ?R = 0" unfolding R' l_def e by auto
  ultimately show ?thesis using cyclic_sum_same [OF l] c by simp
qed

lemma unat_not_u16: "unat s + unat (NOT (s :: u16)) = 65535"
proof -
  have "NOT s = (- 1) - s" by (simp add: not_eq_complement)
  moreover have "unat ((- 1) - s) = unat (- 1 :: u16) - unat s" by (rule unat_sub) simp
  moreover have "unat (- 1 :: u16) = 65535"
  proof -
    have "(- 1 :: u16) = 0xffff" by simp
    then show ?thesis by (simp only: unat_numeral) simp
  qed
  ultimately show ?thesis using unat_u16 [of s] by simp
qed

text \<open>A message with the short \<open>c\<close> in a field at an even offset.\<close>

lemma field_same:
  assumes "even (length xs)" "even (length ys)"
  shows "same (unat (foldl crc16_inet_byte 0 (xs @ [ucast c, ucast (drop_bit 8 c)] @ ys)))
    (rfc1071 xs + rfc1071 ys + unat (c :: u16))"
proof -
  have "unat c div 256 < 256" using unat_u16 [of c] by (simp add: div_less_iff_less_mult)
  then have "unat (ucast (drop_bit 8 c) :: u8) = unat c div 256"
    by (simp add: drop_bit_eq_div unat_div unsigned_ucast_eq take_bit_nat_eq_self)
  moreover have "unat (ucast c :: u8) = unat c mod 256" by (simp add: unsigned_ucast_eq take_bit_eq_mod)
  ultimately have "short_le (ucast c) (ucast (drop_bit 8 c)) = unat c" by (simp add: short_le_def)
  then have "rfc1071 (xs @ [ucast c, ucast (drop_bit 8 c)] @ ys) = rfc1071 xs + rfc1071 ys + unat c"
    using assms(1) by (simp add: rfc1071_append)
  then show ?thesis
    using bytes_same [of 0 "xs @ [ucast c, ucast (drop_bit 8 c)] @ ys"]
      bsum_rfc [of 0 "xs @ [ucast c, ucast (drop_bit 8 c)] @ ys"] assms by simp
qed

lemma filled_field:
  assumes "even (length xs)" "even (length ys)" "c = NOT (foldl crc16_inet_byte 0 (xs @ [0, 0] @ ys))"
  shows "foldl crc16_inet_byte 0 (xs @ [ucast c, ucast (drop_bit 8 c)] @ ys) = 0xffff"
proof -
  define S where "S = foldl crc16_inet_byte 0 (xs @ [0, 0] @ ys)"
  define V where "V = foldl crc16_inet_byte 0 (xs @ [ucast c, ucast (drop_bit 8 c)] @ ys)"
  define R where "R = rfc1071 xs + rfc1071 ys"
  have S: "same (unat S) R" using field_same [OF assms(1,2), of 0] by (simp add: S_def R_def)
  have V: "same (unat V) (R + unat c)" using field_same [OF assms(1,2), of c] by (simp only: V_def R_def)
  have n: "unat S + unat c = 65535" using unat_not_u16 [of S] assms(3) by (simp add: S_def)
  have "(R + unat c) mod 65535 = (unat S + unat c) mod 65535" using S by (intro mod_add_cong) simp_all
  then have "(R + unat c) mod 65535 = 0" by (simp add: n)
  moreover have "R + unat c \<noteq> 0" using S n by auto
  ultimately have "same (unat V) (unat (0xffff :: u16))" using V by simp
  then have "V = 0xffff" by (rule same_unique)
  then show ?thesis by (simp only: V_def)
qed

section \<open>Properties\<close>

text \<open>C12: The checksum of a buffer chain does not depend on how the message is split into segments
  nor on the alignment of their addresses: it is the complement of the RFC 1071 sum of the whole
  message, with the two bytes swapped when the message has an odd length. It needs segments
  of less than 64 kbytes and no empty segment at an odd address.\<close>

theorem buf_chksum_is_rfc1071:
  assumes "\<forall>(odd_addr, data) \<in> set p. length data < 2 ^ 16 \<and> (odd_addr \<longrightarrow> data \<noteq> [])"
  shows "\<exists>c. buf_chksum p s = Some (NOT c)
    \<and> (let bs = concat (map snd p); r = unat s + rfc1071 bs
       in same (unat c) (if even (length bs) then r else 256 * r))"
proof -
  have "same (unat (foldl crc16_inet_byte s (concat (map snd p)))) (bsum (unat s) (concat (map snd p)))"
    by (rule bytes_same)
  then show ?thesis using chain_bytes [OF assms, of s] bsum_rfc [of "unat s" "concat (map snd p)"]
    by (auto simp: buf_chksum_def Let_def)
qed

lemma buf_chksum_is_rfc1071_witness:
  "buf_chksum [(True, [0x12]), (False, [0x34, 0x56, 0x78])] 0x1234 = buf_chksum [(False, [0x12, 0x34, 0x56, 0x78])] 0x1234"
proof -
  let ?p = "[(True, [0x12]), (False, [0x34, 0x56, 0x78])] :: (bool \<times> u8 list) list"
  let ?q = "[(False, [0x12, 0x34, 0x56, 0x78])] :: (bool \<times> u8 list) list"
  obtain c where c: "buf_chksum ?p 0x1234 = Some (NOT c)" "same (unat c) 48796"
    using buf_chksum_is_rfc1071 [of ?p "0x1234"] by (auto simp: short_le_def)
  obtain d where d: "buf_chksum ?q 0x1234 = Some (NOT d)" "same (unat d) 48796"
    using buf_chksum_is_rfc1071 [of ?q "0x1234"] by (auto simp: short_le_def)
  have "c = d" using c(2) d(2) by (intro same_unique) metis
  then show ?thesis using c d by simp
qed

text \<open>A message with its complemented sum stored in a field at an even offset, low byte first,
  sums to \<open>0xffff\<close>: the receiver's check succeeds, wherever it has placed the message.\<close>

theorem inet_checksum_verifies:
  assumes "even (length xs)" "even (length ys)" "length xs + length ys + 2 < 2 ^ 16"
    and "crc16_inet 0 odd_addr (xs @ [0, 0] @ ys) = Some s"
  shows "crc16_inet 0 odd_addr' (xs @ [ucast (NOT s), ucast (drop_bit 8 (NOT s))] @ ys) = Some 0xffff"
proof -
  have "s = foldl crc16_inet_byte 0 (xs @ [0, 0] @ ys)"
    using crc16_inet_bytes [of "xs @ [0, 0] @ ys" odd_addr 0] assms(3,4) by simp
  then have "foldl crc16_inet_byte 0 (xs @ [ucast (NOT s), ucast (drop_bit 8 (NOT s))] @ ys) = 0xffff"
    by (intro filled_field [OF assms(1,2)]) simp
  then show ?thesis using assms(3) by (subst crc16_inet_bytes) auto
qed

lemma inet_checksum_verifies_witness:
  "\<exists>s. crc16_inet 0 False ([0x45, 0] @ [0, 0] @ [1, 2]) = Some s
    \<and> crc16_inet 0 True ([0x45, 0] @ [ucast (NOT s), ucast (drop_bit 8 (NOT s))] @ [1, 2]) = Some 0xffff"
proof -
  obtain s where s: "crc16_inet 0 False ([0x45, 0] @ [0, 0] @ [1, 2]) = Some s"
    by (simp add: crc16_inet_def)
  show ?thesis using inet_checksum_verifies [OF _ _ _ s, of True] s by (intro exI [of _ s]) simp
qed

end
