(* ===== verification/Net_Buf.thy ===== *)
theory Net_Buf
  imports Crc_Inet
begin

text \<open>
  Packet buffers (\<open>buf/buf.c\<close>, \<open>buf/buf-copy.c\<close>, \<open>buf/buf-clen.c\<close>). A \<open>buf_t\<close> heads a block
  of memory: its data area, the position of the payload in it, and two lengths. A packet is a
  chain of such buffers; the null pointer is the empty chain. Two buffers never share memory, so a
  chain is a list of values.

  The memory pool is modelled in \<open>Mem_Alloc\<close>. Here it is the list of the answers it
  will give: \<open>None\<close> for no memory, else what the fresh block contains. An exhausted list means
  that there is no memory any more. An access outside of a data area has no result.
\<close>

record buf_t =
  b_area :: "u8 list"
  b_off :: nat
  b_len :: u16
  b_tot :: u16

type_synonym packet = "buf_t list"
type_synonym pool_t = "(nat \<Rightarrow> u8) option list"

section \<open>Memory\<close>

fun mem_get :: "nat \<Rightarrow> pool_t \<Rightarrow> u8 list option \<times> pool_t" where
  "mem_get n [] = (None, [])"
| "mem_get n (None # m) = (None, m)"
| "mem_get n (Some f # m) = (Some (map f [0..<n]), m)"

definition overwrite :: "nat \<Rightarrow> 'a list \<Rightarrow> 'a list \<Rightarrow> 'a list" where
  "overwrite i bs xs = take i xs @ bs @ drop (i + length bs) xs"

definition buf_ok :: "buf_t \<Rightarrow> bool" where
  "buf_ok b \<longleftrightarrow> b_off b + unat (b_len b) \<le> length (b_area b)"

definition b_data :: "buf_t \<Rightarrow> u8 list" where
  "b_data b = take (unat (b_len b)) (drop (b_off b) (b_area b))"

text \<open>Reading and writing \<open>payload [i]\<close> and what follows it.\<close>

definition payload_get :: "buf_t \<Rightarrow> nat \<Rightarrow> nat \<Rightarrow> u8 list option" where
  "payload_get b i n =
     (if b_off b + i + n \<le> length (b_area b) then Some (take n (drop (b_off b + i) (b_area b))) else None)"

definition payload_put :: "nat \<Rightarrow> u8 list \<Rightarrow> buf_t \<Rightarrow> buf_t option" where
  "payload_put i bs b =
     (if b_off b + i + length bs \<le> length (b_area b)
      then Some (b\<lparr>b_area := overwrite (b_off b + i) bs (b_area b)\<rparr>) else None)"

definition packet_data :: "packet \<Rightarrow> u8 list" where
  "packet_data p = concat (map b_data p)"

section \<open>The operations\<close>

definition buf_alloc :: "u16 \<Rightarrow> u16 \<Rightarrow> pool_t \<Rightarrow> packet \<times> pool_t" where
  "buf_alloc sz reserved m =
     (case mem_get (unat sz + unat reserved) m of
        (None, m) \<Rightarrow> ([], m)
      | (Some area, m) \<Rightarrow> ([\<lparr>b_area = area, b_off = unat reserved, b_len = sz, b_tot = sz\<rparr>], m))"

text \<open>The chain is cut in the buffer where the new end falls. The buffers left over behind it are
  released by a loop which calls \<open>buf_free\<close> on the first of them and then steps on to the next.
  But \<open>buf_free\<close> releases the whole rest of the chain: for the second buffer the loop reads the
  link of a block that is free and frees it once more (a bad magic number, when the memory is
  checked). This has no result. The flag says that the buffers are not yet released.\<close>

fun free_left_over :: "bool \<Rightarrow> packet \<Rightarrow> unit option" where
  "free_left_over live [] = Some ()"
| "free_left_over live (q # r) = (if live then free_left_over False r else None)"

fun truncate_at :: "u16 \<Rightarrow> packet \<Rightarrow> packet option" where
  "truncate_at rsize [] = None"
| "truncate_at rsize (q # r) =
     (if rsize > b_len q then map_option ((#) q) (truncate_at (rsize - b_len q) r)
      else do {
        free_left_over True r;
        Some [q\<lparr>b_area := take (b_off q + unat rsize) (b_area q), b_len := rsize\<rparr>]
      })"

definition buf_truncate :: "packet \<Rightarrow> u16 \<Rightarrow> packet option" where
  "buf_truncate p sz =
     (case p of [] \<Rightarrow> None
      | b # _ \<Rightarrow> if b_tot b \<le> sz then Some p
         else map_option (\<lambda>p. (hd p)\<lparr>b_tot := sz\<rparr> # tl p) (truncate_at sz p))"

text \<open>The size of the header is a signed short. The callers never pass a null packet.\<close>

definition buf_add_header :: "packet \<Rightarrow> int \<Rightarrow> bool \<times> packet" where
  "buf_add_header p header_size =
     (let h = sint (word_of_int header_size :: u16)
      in case p of [] \<Rightarrow> (False, [])
         | b # q \<Rightarrow> if int (b_off b) - h < 0 then (False, p)
            else (True, b\<lparr>b_off := nat (int (b_off b) - h), b_len := b_len b + word_of_int h,
                          b_tot := b_tot b + word_of_int h\<rparr> # q))"

definition buf_free :: "packet \<Rightarrow> u8" where
  "buf_free p = of_nat (length p)"

definition buf_chain_len :: "packet \<Rightarrow> u8" where
  "buf_chain_len p = of_nat (length p)"

definition buf_chain :: "packet \<Rightarrow> packet \<Rightarrow> packet option" where
  "buf_chain h t =
     (case (h, t) of (b # q, c # _) \<Rightarrow> Some (b\<lparr>b_tot := b_tot b + b_tot c\<rparr> # q @ t) | _ \<Rightarrow> None)"

definition buf_dechain :: "packet \<Rightarrow> (packet \<times> packet) option" where
  "buf_dechain p = (case p of [] \<Rightarrow> None | b # q \<Rightarrow> Some ([b\<lparr>b_tot := b_len b\<rparr>], q))"

text \<open>Copy the chunks of \<open>q\<close> to the end of \<open>p\<close>.\<close>

fun append_chunks :: "buf_t \<Rightarrow> packet \<Rightarrow> buf_t option" where
  "append_chunks p [] = Some p"
| "append_chunks p (q # qs) = do {
     bs \<leftarrow> payload_get q 0 (unat (b_len q));
     p \<leftarrow> payload_put (unat (b_len p)) bs p;
     append_chunks (p\<lparr>b_len := b_len p + b_len q\<rparr>) qs
   }"

text \<open>\<open>mem_realloc\<close> keeps the contents of the block and clears what it adds, or releases the block.\<close>

definition buf_make_continuous :: "packet \<Rightarrow> pool_t \<Rightarrow> (packet \<times> pool_t) option" where
  "buf_make_continuous p m =
     (case p of
        b # q # qs \<Rightarrow>
          (let sz = b_off b + unat (b_tot b)
           in case mem_get sz m of
                (None, m) \<Rightarrow> Some ([], m)
              | (Some _, m) \<Rightarrow> do {
                  b \<leftarrow> append_chunks (b\<lparr>b_area := take sz (b_area b @ replicate sz 0)\<rparr>) (q # qs);
                  Some ([b], m)
                })
      | _ \<Rightarrow> Some (p, m))"

definition buf_copy :: "packet \<Rightarrow> pool_t \<Rightarrow> (packet \<times> pool_t) option" where
  "buf_copy p m =
     (case p of
        [] \<Rightarrow> Some ([], m)
      | b # _ \<Rightarrow>
          (case mem_get (b_off b + unat (b_tot b)) m of
             (None, m) \<Rightarrow> Some ([], m)
           | (Some area, m) \<Rightarrow> do {
               x \<leftarrow> append_chunks \<lparr>b_area = overwrite 0 (replicate (b_off b) 0) area, b_off = b_off b,
                                   b_len = 0, b_tot = b_tot b\<rparr> p;
               Some ([x], m)
             }))"

text \<open>The checksum of a packet. The data areas start at even addresses.\<close>

definition packet_chksum :: "packet \<Rightarrow> u16 \<Rightarrow> u16 option" where
  "packet_chksum p s = buf_chksum (map (\<lambda>b. (odd (b_off b), b_data b)) p) s"

section \<open>Well-formed packets\<close>

definition packet_ok :: "packet \<Rightarrow> bool" where
  "packet_ok p \<longleftrightarrow> p \<noteq> [] \<and> (\<forall>b \<in> set p. buf_ok b) \<and> unat (b_tot (hd p)) = (\<Sum>b\<leftarrow>p. unat (b_len b))"

lemma length_overwrite [simp]: "i + length bs \<le> length xs \<Longrightarrow> length (overwrite i bs xs) = length xs"
  by (simp add: overwrite_def)

lemma mem_get_length: "mem_get n m = (Some area, m') \<Longrightarrow> length area = n"
  by (induction n m rule: mem_get.induct) auto

lemma mem_get_less: "mem_get n m = (Some area, m') \<Longrightarrow> length m' < length m"
  by (induction n m rule: mem_get.induct) auto

lemma length_b_data: "buf_ok b \<Longrightarrow> length (b_data b) = unat (b_len b)"
  by (simp add: b_data_def buf_ok_def)

lemma payload_get_data: "buf_ok b \<Longrightarrow> payload_get b 0 (unat (b_len b)) = Some (b_data b)"
  by (simp add: payload_get_def b_data_def buf_ok_def)

lemma length_packet_data: "\<forall>b \<in> set p. buf_ok b \<Longrightarrow> length (packet_data p) = (\<Sum>b\<leftarrow>p. unat (b_len b))"
  by (induction p) (auto simp: packet_data_def length_b_data)

lemma packet_ok_tot: "packet_ok p \<Longrightarrow> unat (b_tot (hd p)) = length (packet_data p)"
  by (simp add: packet_ok_def length_packet_data)

lemma unat_plus_u16: "unat a + unat b < 2 ^ 16 \<Longrightarrow> unat (a + b :: u16) = unat a + unat b"
  by (simp add: unat_word_ariths(1))

text \<open>One chunk more: the payload grows by the bytes written behind it.\<close>

lemma payload_put_data:
  assumes "payload_put (unat (b_len p)) bs p = Some p'" "buf_ok p"
    "unat (b_len p) + length bs < 2 ^ 16" "length bs = unat l"
  shows "buf_ok (p'\<lparr>b_len := b_len p' + l\<rparr>) \<and> b_data (p'\<lparr>b_len := b_len p' + l\<rparr>) = b_data p @ bs
    \<and> length (b_area p') = length (b_area p) \<and> b_off p' = b_off p \<and> b_len p' = b_len p \<and> b_tot p' = b_tot p"
proof -
  have b: "b_off p + unat (b_len p) + length bs \<le> length (b_area p)"
    and p': "p' = p\<lparr>b_area := overwrite (b_off p + unat (b_len p)) bs (b_area p)\<rparr>"
    using assms(1) by (auto simp: payload_put_def split: if_splits)
  have u: "unat (b_len p + l) = unat (b_len p) + length bs" using assms(3,4) by (simp add: unat_plus_u16)
  have "take (unat (b_len p) + length bs) (drop (b_off p) (overwrite (b_off p + unat (b_len p)) bs (b_area p)))
    = take (unat (b_len p)) (drop (b_off p) (b_area p)) @ bs"
    using b by (simp add: overwrite_def drop_take)
  then show ?thesis using b by (simp add: p' buf_ok_def b_data_def u)
qed

lemma append_chunks_data:
  assumes "buf_ok p" "\<forall>b \<in> set q. buf_ok b"
    "b_off p + unat (b_len p) + length (packet_data q) \<le> length (b_area p)"
    "unat (b_len p) + length (packet_data q) < 2 ^ 16"
  shows "\<exists>p'. append_chunks p q = Some p' \<and> buf_ok p' \<and> b_data p' = b_data p @ packet_data q
    \<and> b_off p' = b_off p \<and> b_tot p' = b_tot p"
  using assms
proof (induction q arbitrary: p)
  case (Cons c q)
  have c: "buf_ok c" and l: "length (b_data c) = unat (b_len c)" using Cons.prems(2) by (simp_all add: length_b_data)
  have n: "b_off p + unat (b_len p) + length (b_data c) \<le> length (b_area p)"
    using Cons.prems(3) by (simp add: packet_data_def)
  then obtain p' where p': "payload_put (unat (b_len p)) (b_data c) p = Some p'" by (simp add: payload_put_def)
  define x where "x = p'\<lparr>b_len := b_len p' + b_len c\<rparr>"
  have s: "unat (b_len p) + length (b_data c) < 2 ^ 16" using Cons.prems(4) by (simp add: packet_data_def)
  have x: "buf_ok x" "b_data x = b_data p @ b_data c" "length (b_area x) = length (b_area p)"
    "b_off x = b_off p" "b_len x = b_len p + b_len c" "b_tot x = b_tot p"
    using payload_put_data [OF p' Cons.prems(1) s l] by (auto simp: x_def)
  moreover have "unat (b_len x) = unat (b_len p) + length (b_data c)"
    using s l by (simp add: x(5) unat_plus_u16)
  ultimately obtain y where "append_chunks x q = Some y \<and> buf_ok y \<and> b_data y = b_data x @ packet_data q
      \<and> b_off y = b_off x \<and> b_tot y = b_tot x"
    using Cons.IH [of x] Cons.prems by (auto simp: packet_data_def)
  moreover have "append_chunks p (c # q) = append_chunks x q"
    using c p' by (simp add: payload_get_data x_def)
  ultimately show ?case using x by (simp add: packet_data_def)
qed (simp add: packet_data_def)


section \<open>Copies\<close>

lemma buf_copy_data:
  assumes "packet_ok p"
  shows "\<exists>q m'. buf_copy p m = Some (q, m') \<and>
    (q = [] \<or> packet_ok q \<and> length q = 1 \<and> packet_data q = packet_data p \<and> b_off (hd q) = b_off (hd p))"
proof -
  obtain b r where p: "p = b # r" using assms by (cases p) (auto simp: packet_ok_def)
  have t: "unat (b_tot b) = length (packet_data p)" using packet_ok_tot [OF assms] by (simp add: p)
  show ?thesis
  proof (cases "mem_get (b_off b + unat (b_tot b)) m")
    case (Pair a m')
    show ?thesis
    proof (cases a)
      case None
      then show ?thesis using Pair by (simp add: buf_copy_def p)
    next
      case (Some area)
      let ?x = "\<lparr>b_area = overwrite 0 (replicate (b_off b) 0) area, b_off = b_off b, b_len = 0, b_tot = b_tot b\<rparr>"
      have l: "length area = b_off b + unat (b_tot b)" using mem_get_length Pair Some by blast
      have "unat (b_tot b) < 2 ^ 16" using unat_u16 [of "b_tot b"] by simp
      then obtain x where x: "append_chunks ?x p = Some x" "buf_ok x" "b_data x = packet_data p" "b_off x = b_off b"
        "b_tot x = b_tot b"
        using append_chunks_data [of ?x p] assms l t by (auto simp: buf_ok_def packet_ok_def b_data_def)
      have "unat (b_len x) = length (packet_data p)" using x(2,3) length_b_data [of x] by simp
      then have "packet_ok [x]" using x t by (simp add: packet_ok_def)
      then show ?thesis using x Pair Some unfolding buf_copy_def p by (simp add: packet_data_def)
    qed
  qed
qed

lemma b_tot_update [simp]: "buf_ok (b\<lparr>b_tot := t\<rparr>) = buf_ok b" "b_data (b\<lparr>b_tot := t\<rparr>) = b_data b"
  by (simp_all add: buf_ok_def b_data_def)

lemma packet_ok_head:
  "packet_ok p \<Longrightarrow> \<exists>b q. p = b # q \<and> buf_ok b \<and> (\<forall>c \<in> set q. buf_ok c)
     \<and> unat (b_tot b) = unat (b_len b) + length (packet_data q)"
  by (cases p) (auto simp: packet_ok_def length_packet_data)

lemma make_continuous_data:
  assumes "packet_ok p"
  shows "\<exists>q m'. buf_make_continuous p m = Some (q, m') \<and>
    (q = [] \<or> packet_ok q \<and> length q = 1 \<and> packet_data q = packet_data p)"
proof (cases "length p = 1")
  case True
  then show ?thesis using assms by (cases p) (auto simp: buf_make_continuous_def)
next
  case False
  obtain b r where p: "p = b # r" and b: "buf_ok b" "\<forall>c \<in> set r. buf_ok c"
    and t: "unat (b_tot b) = unat (b_len b) + length (packet_data r)"
    using packet_ok_head [OF assms] by auto
  obtain c q where r: "r = c # q" using False p by (cases r) auto
  show ?thesis
  proof (cases "mem_get (b_off b + unat (b_tot b)) m")
    case (Pair a m')
    let ?n = "b_off b + unat (b_tot b)"
    let ?b = "b\<lparr>b_area := take ?n (b_area b @ replicate ?n 0)\<rparr>"
    have l: "length (b_area ?b) = ?n" by simp
    have d: "buf_ok ?b" "b_data ?b = b_data b"
      using b(1) t by (auto simp: buf_ok_def b_data_def drop_take)
    have "unat (b_tot b) < 2 ^ 16" using unat_u16 [of "b_tot b"] by simp
    then obtain x where x: "append_chunks ?b r = Some x" "buf_ok x" "b_data x = packet_data p" "b_tot x = b_tot b"
      using append_chunks_data [of ?b r] d b t l by (auto simp: p packet_data_def)
    have "unat (b_len x) = length (packet_data p)" using x(2,3) length_b_data [of x] by simp
    then have "packet_ok [x]" using x t b(1) by (simp add: packet_ok_def p packet_data_def length_b_data)
    moreover have "buf_make_continuous p m = (case a of None \<Rightarrow> Some ([], m')
        | Some _ \<Rightarrow> do { b \<leftarrow> append_chunks ?b r; Some ([b], m') })"
      unfolding buf_make_continuous_def p r Let_def by (simp only: list.case Pair prod.case split: option.split)
    ultimately show ?thesis using x by (cases a) (simp_all add: packet_data_def)
  qed
qed

text \<open>The number of buffers that begin at or behind the cut, the first buffer apart.\<close>

definition left_over :: "nat \<Rightarrow> packet \<Rightarrow> nat" where
  "left_over n p = length (filter (\<lambda>j. n \<le> length (packet_data (take j p))) [1..<length p])"

lemma free_left_over: "free_left_over True r = (if length r \<le> 1 then Some () else None)"
  by (cases r rule: remdups_adj.cases) simp_all

lemma packet_data_Cons: "packet_data (b # p) = b_data b @ packet_data p"
  by (simp add: packet_data_def)

lemma left_over_Cons:
  "left_over n (q # r) = (if n \<le> length (b_data q) then length r else left_over (n - length (b_data q)) r)"
proof -
  have u: "[1..<length (q # r)] = map Suc [0..<length r]" by (simp add: map_Suc_upt)
  have l: "left_over n (q # r) =
      length (filter (\<lambda>j. n \<le> length (b_data q) + length (packet_data (take j r))) [0..<length r])"
    unfolding left_over_def u by (simp add: filter_map comp_def packet_data_Cons)
  show ?thesis
  proof (cases "n \<le> length (b_data q)")
    case True
    then show ?thesis unfolding l by (simp add: filter_True trans_le_add1)
  next
    case False
    have "filter P [0..<length r] = filter P [1..<length r]" if "\<not> P 0" for P
      using that by (cases r) (simp_all add: upt_conv_Cons del: upt_Suc)
    moreover have "n \<le> length (b_data q) + k \<longleftrightarrow> n - length (b_data q) \<le> k" for k using False by auto
    ultimately show ?thesis using False unfolding l by (simp add: left_over_def packet_data_def)
  qed
qed

lemma truncate_at_data:
  assumes "\<forall>b \<in> set p. buf_ok b" "p \<noteq> []" "unat n \<le> length (packet_data p)"
  shows "if 2 \<le> left_over (unat n) p then truncate_at n p = None
    else \<exists>p'. truncate_at n p = Some p' \<and> p' \<noteq> [] \<and> (\<forall>b \<in> set p'. buf_ok b)
      \<and> packet_data p' = take (unat n) (packet_data p)"
  using assms
proof (induction n p rule: truncate_at.induct)
  case (2 n q qs)
  have l: "length (b_data q) = unat (b_len q)" using 2(2) by (simp add: length_b_data)
  show ?case
  proof (cases "n > b_len q")
    case True
    then have le: "b_len q \<le> n" by simp
    have u: "unat (n - b_len q) = unat n - unat (b_len q)" using le by (rule unat_sub)
    have lt: "unat (b_len q) < unat n" using True by (simp add: word_less_nat_alt)
    have "unat n - unat (b_len q) \<le> length (packet_data qs)" "qs \<noteq> []"
      using 2(4) l lt by (auto simp: packet_data_def)
    then have "if 2 \<le> left_over (unat (n - b_len q)) qs then truncate_at (n - b_len q) qs = None
      else \<exists>p'. truncate_at (n - b_len q) qs = Some p' \<and> p' \<noteq> [] \<and> (\<forall>b \<in> set p'. buf_ok b)
        \<and> packet_data p' = take (unat (n - b_len q)) (packet_data qs)"
      using 2(1) [OF True] 2(2) u by simp
    moreover have "left_over (unat n) (q # qs) = left_over (unat (n - b_len q)) qs"
      using lt by (simp add: left_over_Cons l u)
    ultimately show ?thesis using True 2(2) l u lt by (auto simp: packet_data_Cons split: if_splits)
  next
    case False
    then have le: "unat n \<le> unat (b_len q)" by (simp add: word_le_nat_alt not_less)
    let ?q = "q\<lparr>b_area := take (b_off q + unat n) (b_area q), b_len := n\<rparr>"
    have "buf_ok ?q" "b_data ?q = take (unat n) (b_data q)"
      using 2(2) le by (auto simp: buf_ok_def b_data_def drop_take)
    then show ?thesis using False le l
      by (simp add: left_over_Cons free_left_over packet_data_def not_le)
  qed
qed simp

lemma truncate_data:
  assumes "packet_ok p"
  shows "if n < b_tot (hd p) \<and> 2 \<le> left_over (unat n) p then buf_truncate p n = None
    else \<exists>p'. buf_truncate p n = Some p' \<and> packet_ok p' \<and> packet_data p' = take (unat n) (packet_data p)"
proof -
  obtain b q where p: "p = b # q" using packet_ok_head [OF assms] by auto
  have t: "unat (b_tot b) = length (packet_data p)" using packet_ok_tot [OF assms] by (simp add: p)
  show ?thesis
  proof (cases "b_tot b \<le> n")
    case True
    then have "length (packet_data p) \<le> unat n" using t by (simp add: word_le_nat_alt)
    then show ?thesis using True assms by (simp add: buf_truncate_def p not_less)
  next
    case False
    then have le: "unat n \<le> length (packet_data p)" using t by (simp add: word_le_nat_alt)
    have lt: "n < b_tot (hd p)" using False by (simp add: p)
    have tr: "if 2 \<le> left_over (unat n) p then truncate_at n p = None
      else \<exists>p'. truncate_at n p = Some p' \<and> p' \<noteq> [] \<and> (\<forall>b \<in> set p'. buf_ok b)
        \<and> packet_data p' = take (unat n) (packet_data p)"
      using truncate_at_data [of p n] assms le by (auto simp: packet_ok_def)
    have e: "buf_truncate p n = map_option (\<lambda>p. (hd p)\<lparr>b_tot := n\<rparr> # tl p) (truncate_at n p)"
      using False by (simp add: buf_truncate_def p)
    show ?thesis
    proof (cases "2 \<le> left_over (unat n) p")
      case True
      then show ?thesis using tr lt by (simp add: e)
    next
      case no: False
      then obtain p' where p': "truncate_at n p = Some p'" "p' \<noteq> []" "\<forall>b \<in> set p'. buf_ok b"
        "packet_data p' = take (unat n) (packet_data p)"
        using tr by auto
      obtain c r where c: "p' = c # r" using p'(2) by (cases p') auto
      have "(\<Sum>b\<leftarrow>p'. unat (b_len b)) = unat n" using length_packet_data [OF p'(3)] p'(4) le by simp
      then have "packet_ok (c\<lparr>b_tot := n\<rparr> # r)" "packet_data (c\<lparr>b_tot := n\<rparr> # r) = take (unat n) (packet_data p)"
        using p'(3,4) by (simp_all add: packet_ok_def packet_data_Cons c)
      then show ?thesis using no p'(1) by (simp add: e c)
    qed
  qed
qed

lemma add_header_ok:
  assumes "packet_ok p" "sint (word_of_int h :: u16) = h" "0 \<le> h"
    "int (length (packet_data p)) + h < 2 ^ 16"
  shows "case buf_add_header p h of
      (False, p') \<Rightarrow> p' = p \<and> int (b_off (hd p)) < h
    | (True, p') \<Rightarrow> packet_ok p' \<and> b_off (hd p') + nat h = b_off (hd p)
        \<and> (\<exists>bs. length bs = nat h \<and> packet_data p' = bs @ packet_data p)"
proof -
  obtain b q where p: "p = b # q" and b: "buf_ok b" "\<forall>c \<in> set q. buf_ok c"
    and t: "unat (b_tot b) = unat (b_len b) + length (packet_data q)"
    using packet_ok_head [OF assms(1)] by auto
  have d: "length (packet_data p) = unat (b_tot b)" using packet_ok_tot [OF assms(1)] by (simp add: p)
  have w: "unat (word_of_int h :: u16) = nat h"
    using assms(3,4) by (simp add: unsigned_of_int take_bit_int_eq_self)
  show ?thesis
  proof (cases "int (b_off b) < h")
    case True
    then show ?thesis by (simp add: buf_add_header_def p assms(2))
  next
    case False
    let ?b = "b\<lparr>b_off := nat (int (b_off b) - h), b_len := b_len b + word_of_int h, b_tot := b_tot b + word_of_int h\<rparr>"
    have u: "unat (b_len b + word_of_int h) = unat (b_len b) + nat h"
      "unat (b_tot b + word_of_int h) = unat (b_tot b) + nat h"
    proof -
      have "int (unat (b_tot b)) + h < 65536" using assms(4) by (simp only: d) simp
      then have "unat (b_tot b) + nat h < 65536" "unat (b_len b) + nat h < 65536"
        using assms(3) t by linarith+
      then show "unat (b_len b + word_of_int h) = unat (b_len b) + nat h"
        "unat (b_tot b + word_of_int h) = unat (b_tot b) + nat h"
        using w unat_plus_u16 [of "b_len b" "word_of_int h"] unat_plus_u16 [of "b_tot b" "word_of_int h"] by simp_all
    qed
    have o: "nat (int (b_off b) - h) = b_off b - nat h" "nat h \<le> b_off b" using False assms(3) by simp_all
    have ok: "buf_ok ?b" using b(1) by (simp add: buf_ok_def u o)
    moreover have "b_data ?b = take (nat h) (drop (b_off b - nat h) (b_area b)) @ b_data b"
    proof -
      have t: "take (n + nat h) (drop (b_off b - nat h) xs) = take (nat h) (drop (b_off b - nat h) xs) @ take n (drop (b_off b) xs)"
        for n and xs :: "u8 list" using o(2) by (subst add.commute) (simp add: take_add)
      have "b_data ?b = take (unat (b_len b) + nat h) (drop (b_off b - nat h) (b_area b))"
        by (simp add: b_data_def u o(1))
      then show ?thesis by (simp only: t b_data_def)
    qed
    moreover have "length (take (nat h) (drop (b_off b - nat h) (b_area b))) = nat h"
      using b(1) o by (simp add: buf_ok_def)
    moreover have "packet_ok (?b # q)" using ok b t u by (simp add: packet_ok_def length_packet_data)
    ultimately show ?thesis using False o
      by (simp add: buf_add_header_def p assms(2) packet_data_def)
  qed
qed

lemma strip_header_ok:
  assumes "packet_ok p" "sint (word_of_int (- int n) :: u16) = - int n" "n \<le> unat (b_len (hd p))"
  shows "\<exists>p'. buf_add_header p (- int n) = (True, p') \<and> packet_ok p' \<and> packet_data p' = drop n (packet_data p)"
proof -
  obtain b q where p: "p = b # q" and b: "buf_ok b" "\<forall>c \<in> set q. buf_ok c"
    and t: "unat (b_tot b) = unat (b_len b) + length (packet_data q)"
    using packet_ok_head [OF assms(1)] by auto
  have n: "n \<le> unat (b_len b)" "n < 65536" using assms(3) unat_u16 [of "b_len b"] by (simp_all add: p)
  have w: "x + word_of_int (- int n) = x - of_nat n" for x :: u16 by simp
  have un: "unat (of_nat n :: u16) = n" using n(2) by (simp add: unsigned_of_nat take_bit_nat_eq_self)
  have u: "unat (b_len b - of_nat n) = unat (b_len b) - n" "unat (b_tot b - of_nat n) = unat (b_tot b) - n"
    using n t un by (simp_all add: unat_sub word_le_nat_alt)
  let ?b = "b\<lparr>b_off := b_off b + n, b_len := b_len b - of_nat n, b_tot := b_tot b - of_nat n\<rparr>"
  have "buf_ok ?b" "b_data ?b = drop n (b_data b)"
    using b(1) n u by (simp_all add: buf_ok_def b_data_def drop_take add.commute)
  moreover have "packet_ok (?b # q)"
    using calculation b t u n by (simp add: packet_ok_def length_packet_data)
  moreover have "buf_add_header p (- int n) = (True, ?b # q)"
    unfolding buf_add_header_def p Let_def assms(2) by (simp add: nat_add_distrib)
  ultimately show ?thesis using n length_b_data [OF b(1)] by (simp add: p packet_data_def)
qed

lemma chain_data:
  assumes "packet_ok p" "packet_ok q" "length (packet_data p) + length (packet_data q) < 2 ^ 16"
  shows "\<exists>r. buf_chain p q = Some r \<and> packet_ok r \<and> packet_data r = packet_data p @ packet_data q"
proof -
  obtain b r where p: "p = b # r" using packet_ok_head [OF assms(1)] by auto
  obtain c t where q: "q = c # t" using packet_ok_head [OF assms(2)] by auto
  have "unat (b_tot b) = length (packet_data p)" "unat (b_tot c) = length (packet_data q)"
    using packet_ok_tot [OF assms(1)] packet_ok_tot [OF assms(2)] by (simp_all add: p q)
  then have "unat (b_tot b + b_tot c) = (\<Sum>b\<leftarrow>p. unat (b_len b)) + (\<Sum>b\<leftarrow>q. unat (b_len b))"
    using assms by (simp add: unat_plus_u16 packet_ok_def length_packet_data)
  then show ?thesis using assms(1,2) by (auto simp: buf_chain_def p q packet_ok_def packet_data_def)
qed

section \<open>Filling in a checksum\<close>

text \<open>The transport protocols store the complement of the sum, with its bytes swapped when the
  message has an odd length. Then the receiver sums up to \<open>0xffff\<close>. The value 0 may be replaced
  by \<open>0xffff\<close>.\<close>

definition chksum_field :: "u16 \<Rightarrow> nat \<Rightarrow> u16" where
  "chksum_field c len = (if odd len then swap_bytes c else c)"

lemma same_0: "same (unat (a :: u16)) n \<Longrightarrow> n mod 65535 = 0 \<Longrightarrow> n \<noteq> 0 \<Longrightarrow> a = 0xffff"
  by (rule same_unique) simp

lemma unat_swap_same: "unat (swap_bytes w) mod 65535 = (256 * unat w) mod 65535"
proof -
  have "256 * unat w = unat (swap_bytes w) + 65535 * (unat w div 256)"
    using div_mult_mod_eq [of "unat w" 256] unfolding unat_swap_bytes by linarith
  then show ?thesis by simp
qed

lemma swap_bytes_0: "unat (swap_bytes w) = 0 \<Longrightarrow> unat w = 0"
  using div_mult_mod_eq [of "unat w" 256] unfolding unat_swap_bytes by linarith

lemma chksum_field_good:
  assumes "even (length xs)" "c = NOT (foldl crc16_inet_byte s (xs @ [0, 0] @ ys))"
    and "v = chksum_field c (length ys) \<or> (c = 0 \<and> v = 0xffff)"
  shows "foldl crc16_inet_byte s (xs @ [ucast v, ucast (drop_bit 8 v)] @ ys) = 0xffff"
proof -
  define S where "S = foldl crc16_inet_byte s (xs @ [0, 0] @ ys)"
  define R where "R = unat s + rfc1071 xs + rfc1071 ys"
  define E :: nat where "E = (if even (length ys) then 1 else 256)"
  have short: "short_le (ucast v) (ucast (drop_bit 8 v)) = unat v" for v :: u16
  proof -
    have "unat v div 256 < 256" using unat_u16 [of v] by (simp add: div_less_iff_less_mult)
    then have "unat (ucast (drop_bit 8 v) :: u8) = unat v div 256"
      by (simp add: drop_bit_eq_div unat_div unsigned_ucast_eq take_bit_nat_eq_self)
    moreover have "unat (ucast v :: u8) = unat v mod 256" by (simp add: unsigned_ucast_eq take_bit_eq_mod)
    ultimately show ?thesis by (simp add: short_le_def)
  qed
  have sum: "same (unat (foldl crc16_inet_byte s (xs @ [ucast v, ucast (drop_bit 8 v)] @ ys))) (E * (R + unat v))" for v :: u16
  proof -
    have "rfc1071 (xs @ [ucast v, ucast (drop_bit 8 v)] @ ys) = rfc1071 xs + unat v + rfc1071 ys"
      using assms(1) short [of v] by (simp add: rfc1071_append)
    then have e: "E * (R + unat v) = (if even (length (xs @ [ucast v, ucast (drop_bit 8 v)] @ ys))
        then unat s + rfc1071 (xs @ [ucast v, ucast (drop_bit 8 v)] @ ys)
        else 256 * (unat s + rfc1071 (xs @ [ucast v, ucast (drop_bit 8 v)] @ ys)))"
      using assms(1) by (simp add: E_def R_def)
    show ?thesis unfolding e using bytes_same bsum_rfc by metis
  qed
  have S: "same (unat S) (E * R)" using sum [of 0] by (simp add: S_def)
  have n: "unat S + unat c = 65535" using unat_not_u16 [of S] assms(2) by (simp add: S_def)
  have v: "(E * unat v) mod 65535 = unat c mod 65535"
  proof -
    consider "v = 0xffff" "c = 0" | "odd (length ys)" "v = swap_bytes c" | "even (length ys)" "v = c"
      using assms(3) by (auto simp: chksum_field_def split: if_splits)
    then show ?thesis
    proof cases
      case 1
      then show ?thesis by simp
    next
      case 2
      have "(256 * unat (swap_bytes c)) mod 65535 = (256 * (256 * unat c)) mod 65535"
        by (intro mod_mult_cong refl unat_swap_same)
      also have "256 * (256 * unat c) = unat c + 65535 * unat c" by simp
      also have "(unat c + 65535 * unat c) mod 65535 = unat c mod 65535" by (rule mod_mult_self2)
      finally show ?thesis using 2 by (simp add: E_def)
    next
      case 3
      then show ?thesis by (simp add: E_def)
    qed
  qed
  have "(E * (R + unat v)) mod 65535 = (E * R + E * unat v) mod 65535" by (simp add: algebra_simps)
  also have "\<dots> = (unat S + unat c) mod 65535" using S v by (intro mod_add_cong) simp_all
  finally have m: "(E * (R + unat v)) mod 65535 = 0" by (simp add: n)
  have "E * (R + unat v) \<noteq> 0"
  proof
    assume "E * (R + unat v) = 0"
    then have z: "R = 0" "unat v = 0" by (auto simp: E_def split: if_splits)
    then have "unat S = 0" using S by simp
    then have "unat c = 65535" using n by simp
    moreover have "unat c = 0" using assms(3) z(2) swap_bytes_0 [of c]
      by (auto simp: chksum_field_def split: if_splits)
    ultimately show False by simp
  qed
  then show ?thesis using same_0 [OF sum [of v] m] by blast
qed

section \<open>Properties\<close>

text \<open>C14: The operations on packets implement operations on byte strings. Truncation is \<open>take\<close>,
  provided that at most one buffer of the chain begins behind the cut; with two or more left over
  they are freed twice and there is no result. Chaining is concatenation, when the two lengths
  together are below 65536. The copy and the continuous form hold the same bytes in a single
  buffer, unless there is no memory, when they return null. Where there is a result, no memory
  outside of the buffers was touched.\<close>

theorem buf_ops_keep_message:
  assumes "packet_ok p" "packet_ok q" "length (packet_data p) + length (packet_data q) < 2 ^ 16"
  shows "(if n < b_tot (hd p) \<and> 2 \<le> left_over (unat n) p then buf_truncate p n = None
      else \<exists>r. buf_truncate p n = Some r \<and> packet_ok r \<and> packet_data r = take (unat n) (packet_data p))
    \<and> (\<exists>r. buf_chain p q = Some r \<and> packet_ok r \<and> packet_data r = packet_data p @ packet_data q)
    \<and> (\<exists>r m'. buf_make_continuous p m = Some (r, m') \<and>
        (r = [] \<or> packet_ok r \<and> length r = 1 \<and> packet_data r = packet_data p))
    \<and> (\<exists>r m'. buf_copy p m = Some (r, m') \<and>
        (r = [] \<or> packet_ok r \<and> length r = 1 \<and> packet_data r = packet_data p \<and> b_off (hd r) = b_off (hd p)))"
  by (intro conjI truncate_data make_continuous_data buf_copy_data chain_data assms)

lemma buf_ops_keep_message_witness:
  "\<exists>r. buf_chain [\<lparr>b_area = [0, 0, 1, 2], b_off = 2, b_len = 2, b_tot = 2\<rparr>]
       [\<lparr>b_area = [3], b_off = 0, b_len = 1, b_tot = 1\<rparr>] = Some r
     \<and> packet_ok r \<and> packet_data r = [1, 2, 3]"
proof -
  let ?p = "[\<lparr>b_area = [0, 0, 1, 2], b_off = 2, b_len = 2, b_tot = 2\<rparr>]"
  let ?q = "[\<lparr>b_area = [3], b_off = 0, b_len = 1, b_tot = 1\<rparr>]"
  have "packet_ok ?p" "packet_ok ?q" "packet_data ?p = [1, 2]" "packet_data ?q = [3]"
    by (simp_all add: packet_ok_def buf_ok_def packet_data_def b_data_def)
  then show ?thesis using buf_ops_keep_message [of ?p ?q 1 "[]"] by simp
qed

end
