(* ===== verification/Route.thy ===== *)
theory Route
  imports Crc_Inet
begin

text \<open>
  The routing table of \<open>net/route.c\<close>. An address is the tuple of its four bytes; a network
  interface is named by its address, 0 is the null pointer. The table \<open>ip->route\<close> is the list of
  its records, newest first.

  The lemmas show that the byte by byte comparison of \<open>route_match\<close> is the comparison of
  address prefixes and that the lookup finds the longest prefix.
\<close>

section \<open>The code\<close>

record route_t =
  r_netif :: nat
  r_ipaddr :: ipaddr
  r_broadcast :: ipaddr
  r_netaddr :: ipaddr
  r_gateway :: ipaddr
  r_gwifaddr :: ipaddr
  r_masklen :: nat

definition mask_byte :: "nat \<Rightarrow> u8" where
  "mask_byte k = [0x80, 0xC0, 0xE0, 0xF0, 0xF8, 0xFC, 0xFE] ! (k - 1)"

definition route_match :: "route_t \<Rightarrow> ipaddr \<Rightarrow> bool" where
  "route_match r a =
     (case (a, r_ipaddr r, r_netaddr r) of ((a0, a1, a2, a3), (i0, i1, i2, i3), (n0, n1, n2, n3)) \<Rightarrow>
        let m = r_masklen r in
        if m = 0 then True
        else if m \<le> 7 then a0 AND mask_byte m = n0
        else if a0 \<noteq> i0 then False
        else if m = 8 then True
        else if m \<le> 15 then a1 AND mask_byte (m - 8) = n1
        else if a1 \<noteq> i1 then False
        else if m = 16 then True
        else if m \<le> 23 then a2 AND mask_byte (m - 16) = n2
        else if a2 \<noteq> i2 then False
        else if m = 24 then True
        else if m \<le> 31 then a3 AND mask_byte (m - 24) = n3
        else a3 = i3)"

definition ip_word :: "ipaddr \<Rightarrow> u32" where
  "ip_word a = (case a of (a0, a1, a2, a3) \<Rightarrow>
     push_bit 24 (ucast a0) OR push_bit 16 (ucast a1) OR push_bit 8 (ucast a2) OR ucast a3)"

text \<open>The bytes of \<open>HTONL (w)\<close> in memory.\<close>

definition word_ip :: "u32 \<Rightarrow> ipaddr" where
  "word_ip w = (ucast (drop_bit 24 w), ucast (drop_bit 16 w), ucast (drop_bit 8 w), ucast w)"

abbreviation ip_first :: "ipaddr \<Rightarrow> u8" where
  "ip_first a \<equiv> fst a"

definition zero_ip :: ipaddr where "zero_ip = (0, 0, 0, 0)"

text \<open>The search loops share their shape: among the records that satisfy a condition and match
  the address, keep the first one with the longest mask.\<close>

fun best_route :: "(route_t \<Rightarrow> bool) \<Rightarrow> ipaddr \<Rightarrow> route_t option \<Rightarrow> route_t list \<Rightarrow> route_t option" where
  "best_route P a best [] = best"
| "best_route P a best (r # rs) =
     (if \<not> P r then best_route P a best rs
      else if \<not> route_match r a then best_route P a best rs
      else if (case best of Some b \<Rightarrow> r_masklen b \<ge> r_masklen r | None \<Rightarrow> False) then best_route P a best rs
      else best_route P a (Some r) rs)"

definition route_setup :: "route_t list \<Rightarrow> route_t \<Rightarrow> ipaddr \<Rightarrow> nat \<Rightarrow> ipaddr option \<Rightarrow> route_t" where
  "route_setup table r addr masklen gateway =
     (let r = r\<lparr>r_ipaddr := addr, r_masklen := masklen\<rparr>;
          net = drop_bit masklen (0xffffffff :: u32);
          bcast = net OR ip_word addr;
          net = net XOR bcast;
          r = r\<lparr>r_gateway := zero_ip, r_gwifaddr := zero_ip\<rparr>;
          r = (case gateway of None \<Rightarrow> r
               | Some gw \<Rightarrow>
                   let r = r\<lparr>r_gateway := gw, r_broadcast := zero_ip\<rparr>
                   in case best_route (\<lambda>s. r_netif s \<noteq> 0 \<and> ip_first (r_gateway s) = 0) gw None table of
                        None \<Rightarrow> r
                      | Some best \<Rightarrow> r\<lparr>r_gwifaddr := r_ipaddr best\<rparr>)
      in r\<lparr>r_broadcast := word_ip bcast, r_netaddr := word_ip net\<rparr>)"

definition route_add_netif :: "route_t list \<Rightarrow> route_t \<Rightarrow> ipaddr \<Rightarrow> nat \<Rightarrow> nat \<Rightarrow> route_t list" where
  "route_add_netif table r addr masklen netif =
     (route_setup table r addr masklen None)\<lparr>r_netif := netif\<rparr> # table"

text \<open>\<open>route_lookup\<close> returns the interface, the gateway and the address of the interface.\<close>

definition route_lookup :: "route_t list \<Rightarrow> ipaddr \<Rightarrow> (nat \<times> ipaddr \<times> ipaddr) option" where
  "route_lookup table addr =
     (case best_route (\<lambda>r. r_netif r \<noteq> 0) addr None table of
        None \<Rightarrow> None
      | Some best \<Rightarrow>
          Some (r_netif best,
                if ip_first (r_gateway best) \<noteq> 0 then r_gateway best else addr,
                if ip_first (r_gateway best) \<noteq> 0 then r_gwifaddr best else r_ipaddr best))"

definition route_add_gateway ::
  "route_t list \<Rightarrow> route_t \<Rightarrow> ipaddr \<Rightarrow> nat \<Rightarrow> ipaddr \<Rightarrow> bool \<times> route_t list" where
  "route_add_gateway table r addr masklen gateway =
     (let r = route_setup table r addr masklen (Some gateway)
      in case route_lookup table gateway of
           None \<Rightarrow> (False, table)
         | Some (netif, _, _) \<Rightarrow> (True, r\<lparr>r_netif := netif\<rparr> # table))"

text \<open>\<open>route_lookup_self\<close> returns the interface and the broadcast flag.\<close>

fun route_lookup_self :: "route_t list \<Rightarrow> ipaddr \<Rightarrow> (nat \<times> bool) option" where
  "route_lookup_self [] addr = None"
| "route_lookup_self (r # rs) addr =
     (if r_netif r = 0 \<or> ip_first (r_gateway r) \<noteq> 0 then route_lookup_self rs addr
      else if r_ipaddr r = addr then Some (r_netif r, False)
      else if r_broadcast r = addr then Some (r_netif r, True)
      else route_lookup_self rs addr)"

definition route_lookup_ipaddr :: "route_t list \<Rightarrow> ipaddr \<Rightarrow> nat \<Rightarrow> ipaddr option" where
  "route_lookup_ipaddr table addr netif =
     map_option r_ipaddr
       (best_route (\<lambda>r. r_netif r = netif \<and> ip_first (r_gateway r) = 0) addr None table)"

section \<open>Prefixes\<close>

definition prefix_eq :: "nat \<Rightarrow> ipaddr \<Rightarrow> ipaddr \<Rightarrow> bool" where
  "prefix_eq m a b \<longleftrightarrow> drop_bit (32 - m) (ip_word a) = drop_bit (32 - m) (ip_word b)"

definition route_wf :: "route_t \<Rightarrow> bool" where
  "route_wf r \<longleftrightarrow> r_masklen r \<le> 32
     \<and> r_netaddr r = word_ip (ip_word (r_ipaddr r) AND NOT (drop_bit (r_masklen r) 0xffffffff))"

lemma bit_ip_word:
  "bit (ip_word (a0, a1, a2, a3)) n \<longleftrightarrow> (if n < 8 then bit a3 n else if n < 16 then bit a2 (n - 8)
     else if n < 24 then bit a1 (n - 16) else n < 32 \<and> bit a0 (n - 24))"
  by (auto simp: ip_word_def bit_simps dest: bit_u8)

lemma ip_word_inj: "ip_word a = ip_word b \<longleftrightarrow> a = b"
proof -
  have "a = b" if e: "ip_word a = ip_word b"
  proof -
    obtain a0 a1 a2 a3 where a: "a = (a0, a1, a2, a3)" by (metis prod.exhaust)
    obtain b0 b1 b2 b3 where b: "b = (b0, b1, b2, b3)" by (metis prod.exhaust)
    have e: "bit (ip_word a) n = bit (ip_word b) n" for n using e by simp
    have "bit a3 n = bit b3 n" "bit a2 n = bit b2 n" "bit a1 n = bit b1 n" "bit a0 n = bit b0 n" if "n < 8" for n
      using e [of n] e [of "n + 8"] e [of "n + 16"] e [of "n + 24"] that by (auto simp: a b bit_ip_word)
    then show ?thesis by (simp add: a b) (intro conjI bit_word_eqI; simp)
  qed
  then show ?thesis by auto
qed

text \<open>The masks of one byte.\<close>

lemma mask_byte_eq:
  assumes "1 \<le> k" "k \<le> 7"
  shows "mask_byte k = NOT (mask (8 - k))"
proof -
  have "k \<in> {1, 2, 3, 4, 5, 6, 7}" using assms by auto
  then show ?thesis by (auto simp: mask_byte_def mask_eq_exp_minus_1)
qed

lemma and_mask_byte:
  assumes "1 \<le> k" "k \<le> 7"
  shows "a AND mask_byte k = b AND mask_byte k \<longleftrightarrow> (\<forall>n. 8 - k \<le> n \<longrightarrow> n < 8 \<longrightarrow> bit a n = bit b n)"
  unfolding mask_byte_eq [OF assms]
  by (auto simp: bit_eq_iff bit_simps dest: bit_u8)

lemma eq_byte: "(a :: u8) = b \<longleftrightarrow> (\<forall>n < 8. bit a n = bit b n)"
  by (auto intro: bit_word_eqI)

lemma prefix_bytes:
  "prefix_eq m (a0, a1, a2, a3) (b0, b1, b2, b3) \<longleftrightarrow>
     (\<forall>j < 8. 8 \<le> m + j \<longrightarrow> bit a0 j = bit b0 j) \<and> (\<forall>j < 8. 16 \<le> m + j \<longrightarrow> bit a1 j = bit b1 j)
     \<and> (\<forall>j < 8. 24 \<le> m + j \<longrightarrow> bit a2 j = bit b2 j) \<and> (\<forall>j < 8. 32 \<le> m + j \<longrightarrow> bit a3 j = bit b3 j)"
    (is "?L \<longleftrightarrow> ?A \<and> ?B \<and> ?C \<and> ?D")
proof -
  let ?a = "ip_word (a0, a1, a2, a3)" and ?b = "ip_word (b0, b1, b2, b3)"
  have L: "?L \<longleftrightarrow> (\<forall>n. 32 - m \<le> n \<longrightarrow> bit ?a n = bit ?b n)"
  proof -
    have "?L \<longleftrightarrow> (\<forall>k. bit ?a (32 - m + k) = bit ?b (32 - m + k))"
    proof
      assume ?L
      then have "bit (drop_bit (32 - m) ?a) k = bit (drop_bit (32 - m) ?b) k" for k by (simp only: prefix_eq_def)
      then show "\<forall>k. bit ?a (32 - m + k) = bit ?b (32 - m + k)" by (simp add: bit_drop_bit_eq)
    next
      assume "\<forall>k. bit ?a (32 - m + k) = bit ?b (32 - m + k)"
      then show ?L unfolding prefix_eq_def by (intro bit_word_eqI) (simp add: bit_drop_bit_eq)
    qed
    then show ?thesis by (metis le_add1 le_add_diff_inverse)
  qed
  show ?thesis
  proof
    assume l: ?L
    have "bit ?a n = bit ?b n" if "32 \<le> m + n" for n using l that unfolding L by simp
    then have b: "bit ?a (j + k) = bit ?b (j + k)" if "32 \<le> m + (j + k)" for j k using that by blast
    show "?A \<and> ?B \<and> ?C \<and> ?D"
    proof (intro conjI allI impI)
      fix j :: nat assume j: "j < 8"
      show "bit a0 j = bit b0 j" if "8 \<le> m + j" using b [of j 24] that j by (simp add: bit_ip_word)
      show "bit a1 j = bit b1 j" if "16 \<le> m + j" using b [of j 16] that j by (simp add: bit_ip_word)
      show "bit a2 j = bit b2 j" if "24 \<le> m + j" using b [of j 8] that j by (simp add: bit_ip_word)
      show "bit a3 j = bit b3 j" if "32 \<le> m + j" using b [of j 0] that j by (simp add: bit_ip_word)
    qed
  next
    assume r: "?A \<and> ?B \<and> ?C \<and> ?D"
    have "bit ?a n = bit ?b n" if n: "32 - m \<le> n" for n
    proof -
      consider "n < 8" | "8 \<le> n" "n < 16" | "16 \<le> n" "n < 24" | "24 \<le> n" "n < 32" | "32 \<le> n" by linarith
      then show ?thesis
      proof cases
        case 1
        then show ?thesis using r n by (simp add: bit_ip_word)
      next
        case 2
        then have "n - 8 < 8" "24 \<le> m + (n - 8)" using n by linarith+
        then show ?thesis using r 2 by (simp add: bit_ip_word)
      next
        case 3
        then have "n - 16 < 8" "16 \<le> m + (n - 16)" using n by linarith+
        then show ?thesis using r 3 by (simp add: bit_ip_word)
      next
        case 4
        then have "n - 24 < 8" "8 \<le> m + (n - 24)" using n by linarith+
        then show ?thesis using r 4 by (simp add: bit_ip_word)
      next
        case 5
        then show ?thesis by (simp add: bit_ip_word)
      qed
    qed
    then show ?L unfolding L by blast
  qed
qed

lemma net_bytes:
  assumes "(n0, n1, n2, n3) = word_ip (ip_word (i0, i1, i2, i3) AND NOT (drop_bit m 0xffffffff))"
  shows "1 \<le> m \<Longrightarrow> m \<le> 7 \<Longrightarrow> n0 = i0 AND mask_byte m"
    "9 \<le> m \<Longrightarrow> m \<le> 15 \<Longrightarrow> n1 = i1 AND mask_byte (m - 8)"
    "17 \<le> m \<Longrightarrow> m \<le> 23 \<Longrightarrow> n2 = i2 AND mask_byte (m - 16)"
    "25 \<le> m \<Longrightarrow> m \<le> 31 \<Longrightarrow> n3 = i3 AND mask_byte (m - 24)"
proof -
  have f: "bit (0xffffffff :: u32) n \<longleftrightarrow> n < 32" for n
  proof -
    have "(0xffffffff :: u32) = - 1" by simp
    then show ?thesis by (simp only: bit_minus_1_iff possible_bit_word) simp
  qed
  define w where "w = ip_word (i0, i1, i2, i3) AND NOT (drop_bit m 0xffffffff)"
  have w: "bit w k \<longleftrightarrow> bit (ip_word (i0, i1, i2, i3)) k \<and> 32 \<le> m + k" for k
  proof -
    have g: "bit (x AND NOT (drop_bit m y)) k \<longleftrightarrow> bit x k \<and> k < 32 \<and> \<not> bit y (m + k)" for x y :: u32
      by (auto simp: bit_and_iff bit_not_iff bit_drop_bit_eq possible_bit_word dest: bit_u32)
    have "bit w k \<longleftrightarrow> bit (ip_word (i0, i1, i2, i3)) k \<and> k < 32 \<and> 32 \<le> m + k"
      unfolding w_def g f not_less by (rule refl)
    then show ?thesis using bit_u32 [of "ip_word (i0, i1, i2, i3)" k] by blast
  qed
  have n: "n0 = ucast (drop_bit 24 w)" "n1 = ucast (drop_bit 16 w)" "n2 = ucast (drop_bit 8 w)" "n3 = ucast w"
    using assms unfolding w_def [symmetric] word_ip_def prod.inject by blast+
  have b: "bit n0 j \<longleftrightarrow> j < 8 \<and> bit i0 j \<and> 8 \<le> m + j" "bit n1 j \<longleftrightarrow> j < 8 \<and> bit i1 j \<and> 16 \<le> m + j"
    "bit n2 j \<longleftrightarrow> j < 8 \<and> bit i2 j \<and> 24 \<le> m + j" "bit n3 j \<longleftrightarrow> j < 8 \<and> bit i3 j \<and> 32 \<le> m + j" for j
    by (auto simp: n bit_ucast_iff bit_drop_bit_eq possible_bit_word w bit_ip_word)
  have c: "bit (i AND mask_byte k) j \<longleftrightarrow> j < 8 \<and> bit i j \<and> 8 \<le> k + j" if "1 \<le> k" "k \<le> 7" for i k j
    using that by (auto simp: mask_byte_eq bit_simps dest: bit_u8)
  show "1 \<le> m \<Longrightarrow> m \<le> 7 \<Longrightarrow> n0 = i0 AND mask_byte m"
    by (intro bit_word_eqI) (simp add: b c)
  show "9 \<le> m \<Longrightarrow> m \<le> 15 \<Longrightarrow> n1 = i1 AND mask_byte (m - 8)"
    by (intro bit_word_eqI) (auto simp: b c)
  show "17 \<le> m \<Longrightarrow> m \<le> 23 \<Longrightarrow> n2 = i2 AND mask_byte (m - 16)"
    by (intro bit_word_eqI) (auto simp: b c)
  show "25 \<le> m \<Longrightarrow> m \<le> 31 \<Longrightarrow> n3 = i3 AND mask_byte (m - 24)"
    by (intro bit_word_eqI) (auto simp: b c)
qed

lemma route_match_prefix:
  assumes "route_wf r"
  shows "route_match r a \<longleftrightarrow> prefix_eq (r_masklen r) a (r_ipaddr r)"
proof -
  obtain a0 a1 a2 a3 where a: "a = (a0, a1, a2, a3)" by (metis prod.exhaust)
  obtain i0 i1 i2 i3 where i: "r_ipaddr r = (i0, i1, i2, i3)" by (metis prod.exhaust)
  obtain n0 n1 n2 n3 where n: "r_netaddr r = (n0, n1, n2, n3)" by (metis prod.exhaust)
  define m where "m = r_masklen r"
  have w: "m \<le> 32" "(n0, n1, n2, n3) = word_ip (ip_word (i0, i1, i2, i3) AND NOT (drop_bit m 0xffffffff))"
    using assms by (auto simp: route_wf_def m_def i n)
  note nb = net_bytes [OF w(2)]
  have u: "route_match r a = (if m = 0 then True
        else if m \<le> 7 then a0 AND mask_byte m = n0
        else if a0 \<noteq> i0 then False
        else if m = 8 then True
        else if m \<le> 15 then a1 AND mask_byte (m - 8) = n1
        else if a1 \<noteq> i1 then False
        else if m = 16 then True
        else if m \<le> 23 then a2 AND mask_byte (m - 16) = n2
        else if a2 \<noteq> i2 then False
        else if m = 24 then True
        else if m \<le> 31 then a3 AND mask_byte (m - 24) = n3
        else a3 = i3)"
    by (simp add: route_match_def a i n m_def Let_def)
  consider "m = 0" | "1 \<le> m" "m \<le> 7" | "m = 8" | "9 \<le> m" "m \<le> 15" | "m = 16" | "17 \<le> m" "m \<le> 23" | "m = 24"
    | "25 \<le> m" "m \<le> 31" | "m = 32" using w(1) by linarith
  then have "route_match r a \<longleftrightarrow> prefix_eq m (a0, a1, a2, a3) (i0, i1, i2, i3)"
  proof cases
    case 1
    then show ?thesis unfolding u prefix_bytes by simp
  next
    case 2
    have "route_match r a \<longleftrightarrow> (\<forall>j. 8 - m \<le> j \<longrightarrow> j < 8 \<longrightarrow> bit a0 j = bit i0 j)"
      using 2 nb(1) by (simp add: u and_mask_byte)
    then show ?thesis using 2 unfolding prefix_bytes by auto
  next
    case 3
    then show ?thesis unfolding u prefix_bytes by (auto simp: eq_byte)
  next
    case 4
    have "route_match r a \<longleftrightarrow> a0 = i0 \<and> (\<forall>j. 8 - (m - 8) \<le> j \<longrightarrow> j < 8 \<longrightarrow> bit a1 j = bit i1 j)"
      using 4 nb(2) by (simp add: u and_mask_byte)
    then show ?thesis using 4 unfolding prefix_bytes eq_byte by auto
  next
    case 5
    then show ?thesis unfolding u prefix_bytes by (auto simp: eq_byte)
  next
    case 6
    have "route_match r a \<longleftrightarrow> a0 = i0 \<and> a1 = i1 \<and> (\<forall>j. 8 - (m - 16) \<le> j \<longrightarrow> j < 8 \<longrightarrow> bit a2 j = bit i2 j)"
      using 6 nb(3) by (simp add: u and_mask_byte)
    then show ?thesis using 6 unfolding prefix_bytes eq_byte by auto
  next
    case 7
    then show ?thesis unfolding u prefix_bytes by (auto simp: eq_byte)
  next
    case 8
    have "route_match r a \<longleftrightarrow> a0 = i0 \<and> a1 = i1 \<and> a2 = i2 \<and> (\<forall>j. 8 - (m - 24) \<le> j \<longrightarrow> j < 8 \<longrightarrow> bit a3 j = bit i3 j)"
      using 8 nb(4) by (simp add: u and_mask_byte)
    then show ?thesis using 8 unfolding prefix_bytes eq_byte by auto
  next
    case 9
    then show ?thesis unfolding u prefix_bytes by (auto simp: eq_byte)
  qed
  then show ?thesis by (simp add: a i m_def)
qed

section \<open>The table\<close>

text \<open>What the code puts into the table.\<close>

inductive route_table :: "route_t list \<Rightarrow> bool" where
  empty: "route_table []"
| netif: "route_table t \<Longrightarrow> m \<le> 32 \<Longrightarrow> netif \<noteq> 0 \<Longrightarrow> route_table (route_add_netif t r addr m netif)"
| gateway: "route_table t \<Longrightarrow> m \<le> 32 \<Longrightarrow> ip_first gw \<noteq> 0 \<Longrightarrow> route_table (snd (route_add_gateway t r addr m gw))"

lemma best_route_Some:
  "best_route P a b rs = Some r \<Longrightarrow> (b = Some r \<or> (r \<in> set rs \<and> P r \<and> route_match r a))"
  by (induction P a b rs rule: best_route.induct) (auto split: if_splits)

lemma best_route_None: "best_route P a b rs = None \<longleftrightarrow> b = None \<and> (\<forall>r \<in> set rs. \<not> (P r \<and> route_match r a))"
  by (induction P a b rs rule: best_route.induct) (auto split: if_splits option.splits)

lemma best_route_max:
  "best_route P a b rs = Some r \<Longrightarrow>
   (\<forall>s \<in> set rs. P s \<longrightarrow> route_match s a \<longrightarrow> r_masklen s \<le> r_masklen r)
   \<and> (\<forall>s. b = Some s \<longrightarrow> r_masklen s \<le> r_masklen r)"
proof (induction rs arbitrary: b)
  case (Cons q rs)
  then show ?case by (cases b) (auto split: if_splits dest!: Cons.IH)
qed simp

lemma setup_wf: "m \<le> 32 \<Longrightarrow> route_wf (route_setup t r addr m gw)"
proof -
  assume "m \<le> 32"
  moreover have "x XOR (x OR y) = y AND NOT x" for x y :: u32
    by (rule bit_word_eqI) (auto simp: bit_simps)
  ultimately show ?thesis
    by (simp add: route_wf_def route_setup_def Let_def split: option.split)
qed

lemma setup_fields [simp]:
  "r_ipaddr (route_setup t r addr m gw) = addr" "r_masklen (route_setup t r addr m gw) = m"
  "r_gateway (route_setup t r addr m gw) = (case gw of None \<Rightarrow> zero_ip | Some g \<Rightarrow> g)"
  "r_gwifaddr (route_setup t r addr m None) = zero_ip"
  by (simp_all add: route_setup_def Let_def split: option.split)

lemma wf_netif [simp]: "route_wf (r\<lparr>r_netif := n\<rparr>) = route_wf r"
  by (simp add: route_wf_def)

lemma lookup_netif: "route_lookup t a = Some (n, g, i) \<Longrightarrow> n \<noteq> 0"
  using best_route_Some [of "\<lambda>r. r_netif r \<noteq> 0" a None t] by (auto simp: route_lookup_def split: option.splits)

lemma route_table_wf: "route_table t \<Longrightarrow> \<forall>r \<in> set t. route_wf r \<and> r_netif r \<noteq> 0"
proof (induction rule: route_table.induct)
  case (netif t m netif r addr)
  then show ?case by (auto simp: route_add_netif_def setup_wf)
next
  case (gateway t m gw r addr)
  then show ?case by (auto simp: route_add_gateway_def Let_def setup_wf split: option.split dest: lookup_netif)
qed simp

section \<open>Properties\<close>

text \<open>C13: On a table built by the code, \<open>route_lookup\<close> finds a record whose network contains the
  address, by longest prefix, and fails only if no network does. The packet goes to the
  record's gateway, or straight to its destination on an interface record.\<close>

theorem route_lookup_longest_prefix:
  assumes "route_table t"
  shows "case route_lookup t a of
      None \<Rightarrow> \<forall>r \<in> set t. \<not> prefix_eq (r_masklen r) a (r_ipaddr r)
    | Some (netif, gw, ifaddr) \<Rightarrow> \<exists>r \<in> set t. netif = r_netif r \<and> prefix_eq (r_masklen r) a (r_ipaddr r)
        \<and> (\<forall>s \<in> set t. prefix_eq (r_masklen s) a (r_ipaddr s) \<longrightarrow> r_masklen s \<le> r_masklen r)
        \<and> gw = (if ip_first (r_gateway r) \<noteq> 0 then r_gateway r else a)
        \<and> ifaddr = (if ip_first (r_gateway r) \<noteq> 0 then r_gwifaddr r else r_ipaddr r)"
proof -
  note wf = route_table_wf [OF assms]
  have m: "route_match r a \<longleftrightarrow> prefix_eq (r_masklen r) a (r_ipaddr r)" if "r \<in> set t" for r
    using wf that by (intro route_match_prefix) simp
  show ?thesis
  proof (cases "best_route (\<lambda>r. r_netif r \<noteq> 0) a None t")
    case None
    then have "\<forall>r \<in> set t. \<not> prefix_eq (r_masklen r) a (r_ipaddr r)"
      using m wf unfolding best_route_None by auto
    then show ?thesis by (simp only: route_lookup_def None option.case)
  next
    case (Some r)
    have "r \<in> set t" "route_match r a" using best_route_Some [OF Some] by auto
    moreover have "\<forall>s \<in> set t. prefix_eq (r_masklen s) a (r_ipaddr s) \<longrightarrow> r_masklen s \<le> r_masklen r"
      using best_route_max [OF Some] m wf by auto
    ultimately show ?thesis using m by (simp only: route_lookup_def Some option.case prod.case) blast
  qed
qed

definition route_example :: "route_t list" where
  "route_example =
     (let r = \<lparr>r_netif = 0, r_ipaddr = zero_ip, r_broadcast = zero_ip, r_netaddr = zero_ip,
               r_gateway = zero_ip, r_gwifaddr = zero_ip, r_masklen = 0\<rparr>;
          t = route_add_netif [] r (192, 168, 1, 7) 24 500
      in snd (route_add_gateway t r (0, 0, 0, 0) 0 (192, 168, 1, 1)))"

lemma route_lookup_longest_prefix_witness:
  "route_table route_example \<and> (\<exists>r \<in> set route_example. route_lookup route_example (192, 168, 1, 99) = Some (r_netif r, (192, 168, 1, 99), (192, 168, 1, 7)))"
proof -
  have t: "route_table route_example"
    unfolding route_example_def Let_def by (intro route_table.intros) simp_all
  have l: "route_lookup route_example (192, 168, 1, 99) = Some (500, (192, 168, 1, 99), (192, 168, 1, 7))"
    by code_simp
  show ?thesis using t route_lookup_longest_prefix [OF t, of "(192, 168, 1, 99)"] unfolding l by auto
qed

end
