(* ===== verification/Net_Link.thy ===== *)
theory Net_Link
  imports Net_Buf Route
begin

text \<open>
  The link layer: network interfaces (\<open>net/netif.c\<close>) and the address resolution protocol
  (\<open>net/arp.c\<close>), over the state of the network stack (\<open>ip_t\<close> of \<open>net/ip.h\<close>, without what
  belongs to UDP and TCP).

  An interface is named by its address, 0 is the null pointer. Its driver is a parameter: the
  answers its \<open>output\<close> gives and the packets its \<open>input\<close> delivers are fields of the interface; what
  is passed to \<open>output\<close> is recorded. All interfaces with ARP share one table. The statistics are a
  function from the names of the counters. A read or write outside of a buffer, or through a null
  pointer, has no result.
\<close>

type_synonym ethaddr = "u8 \<times> u8 \<times> u8 \<times> u8 \<times> u8 \<times> u8"

record arp_entry_t =
  ae_netif :: nat
  ae_ipaddr :: ipaddr
  ae_ethaddr :: ethaddr
  ae_age :: u8

record netif_t =
  nif_arp :: bool
  nif_ethaddr :: ethaddr
  nif_accepts :: "u8 list \<Rightarrow> bool"
  nif_in :: "packet list"
  nif_out :: "(u8 list \<times> nat) list"
  nif_out_discards :: u32
  nif_in_mcast_pkts :: u32
  nif_in_unknown_protos :: u32

datatype counter =
    In_receives | In_hdr_errors | In_addr_errors | In_unknown_protos | In_delivers
  | Out_requests | Out_discards | Out_no_routes | Forw_datagrams
  | Icmp_in_msgs | Icmp_in_errors | Icmp_in_echos | Icmp_out_msgs | Icmp_out_errors
  | Icmp_out_dest_unreachs | Icmp_out_time_excds | Icmp_out_echo_reps
  | Udp_out_datagrams | Udp_in_datagrams | Udp_in_errors | Udp_no_ports
  | Tcp_out_datagrams | Tcp_out_errors | Tcp_in_datagrams | Tcp_in_errors | Tcp_in_discards

record net_t =
  pool :: pool_t
  route :: "route_t list"
  arp_cnt :: u8
  arp_table :: "arp_entry_t list"
  netif :: "nat \<Rightarrow> netif_t"
  forwarding :: bool
  default_ttl :: u8
  tos :: u8
  ip_id :: u32
  ctr :: "counter \<Rightarrow> u32"

definition count :: "counter \<Rightarrow> net_t \<Rightarrow> net_t" where
  "count c st = st\<lparr>ctr := (ctr st)(c := ctr st c + 1)\<rparr>"

definition uncount :: "counter \<Rightarrow> net_t \<Rightarrow> net_t" where
  "uncount c st = st\<lparr>ctr := (ctr st)(c := ctr st c - 1)\<rparr>"

definition upd_netif :: "nat \<Rightarrow> (netif_t \<Rightarrow> netif_t) \<Rightarrow> net_t \<Rightarrow> net_t" where
  "upd_netif n f st = st\<lparr>netif := (netif st)(n := f (netif st n))\<rparr>"

text \<open>\<open>interface->output\<close>.\<close>

definition drv_output :: "nat \<Rightarrow> packet \<Rightarrow> nat \<Rightarrow> net_t \<Rightarrow> bool \<times> net_t" where
  "drv_output n p prio st =
     (nif_accepts (netif st n) (packet_data p),
      upd_netif n (\<lambda>u. u\<lparr>nif_out := nif_out u @ [(packet_data p, prio)]\<rparr>) st)"

section \<open>The ARP table\<close>

fun arp_find :: "(arp_entry_t \<Rightarrow> bool) \<Rightarrow> arp_entry_t list \<Rightarrow> nat option" where
  "arp_find P [] = None"
| "arp_find P (e # es) = (if P e then Some 0 else map_option Suc (arp_find P es))"

definition arp_lookup :: "nat \<Rightarrow> ipaddr \<Rightarrow> net_t \<Rightarrow> ethaddr option \<times> net_t" where
  "arp_lookup n ipaddr st =
     (case arp_find (\<lambda>e. ae_netif e = n \<and> ae_ipaddr e = ipaddr) (arp_table st) of
        None \<Rightarrow> (None, st)
      | Some i \<Rightarrow> (Some (ae_ethaddr (arp_table st ! i)),
                  st\<lparr>arp_table := (arp_table st)[i := (arp_table st ! i)\<lparr>ae_age := 0\<rparr>]\<rparr>))"

text \<open>The oldest entry: the first one of the greatest age.\<close>

fun arp_oldest :: "arp_entry_t list \<Rightarrow> nat \<Rightarrow> nat \<Rightarrow> nat \<Rightarrow> nat" where
  "arp_oldest t e q 0 = e"
| "arp_oldest t e q (Suc n) = arp_oldest t (if ae_age (t ! q) > ae_age (t ! e) then q else e) (Suc q) n"

definition arp_add_entry :: "nat \<Rightarrow> ipaddr \<Rightarrow> ethaddr \<Rightarrow> net_t \<Rightarrow> net_t" where
  "arp_add_entry n ipaddr ethaddr st =
     (let t = arp_table st in
      if ip_first ipaddr = 0 then st
      else case arp_find (\<lambda>e. ae_netif e \<noteq> 0 \<and> ae_ipaddr e = ipaddr) t of
        Some i \<Rightarrow>
          (let e = t ! i;
               e = (if ae_ethaddr e \<noteq> ethaddr \<or> ae_netif e \<noteq> n
                    then e\<lparr>ae_ethaddr := ethaddr, ae_netif := n\<rparr> else e)
           in st\<lparr>arp_table := t[i := e\<lparr>ae_age := 0\<rparr>]\<rparr>)
      | None \<Rightarrow>
          (let i = (case arp_find (\<lambda>e. ae_netif e = 0) t of Some i \<Rightarrow> i | None \<Rightarrow> arp_oldest t 0 0 (length t))
           in st\<lparr>arp_table := t[i := \<lparr>ae_netif = n, ae_ipaddr = ipaddr, ae_ethaddr = ethaddr, ae_age = 0\<rparr>]\<rparr>))"

definition age_entry :: "arp_entry_t \<Rightarrow> arp_entry_t" where
  "age_entry e =
     (if ae_netif e = 0 then e
      else let e = e\<lparr>ae_age := ae_age e + 1\<rparr> in if ae_age e > 300 div 5 then e\<lparr>ae_netif := 0\<rparr> else e)"

definition arp_timer :: "net_t \<Rightarrow> net_t" where
  "arp_timer st =
     (let st = st\<lparr>arp_cnt := arp_cnt st + 1\<rparr>
      in if arp_cnt st < 50 then st
         else st\<lparr>arp_cnt := 0, arp_table := map age_entry (arp_table st)\<rparr>)"

section \<open>ARP packets\<close>

definition list_ip :: "u8 list \<Rightarrow> ipaddr" where
  "list_ip xs = (xs ! 0, xs ! 1, xs ! 2, xs ! 3)"

definition eth_list :: "ethaddr \<Rightarrow> u8 list" where
  "eth_list a = (case a of (a0, a1, a2, a3, a4, a5) \<Rightarrow> [a0, a1, a2, a3, a4, a5])"

definition list_eth :: "u8 list \<Rightarrow> ethaddr" where
  "list_eth xs = (xs ! 0, xs ! 1, xs ! 2, xs ! 3, xs ! 4, xs ! 5)"

definition broadcast_eth :: ethaddr where
  "broadcast_eth = (0xff, 0xff, 0xff, 0xff, 0xff, 0xff)"

text \<open>\<open>struct arp_hdr\<close>, and its size.\<close>

definition arp_hdr :: "ethaddr \<Rightarrow> ethaddr \<Rightarrow> u8 list \<Rightarrow> u8 \<Rightarrow> ethaddr \<Rightarrow> ipaddr \<Rightarrow> ethaddr \<Rightarrow> ipaddr \<Rightarrow> u8 list" where
  "arp_hdr eth_dest eth_src fixed opcode src_hw src_ip dst_hw dst_ip =
     eth_list eth_dest @ eth_list eth_src @ [0x08, 0x06] @ fixed @ [0, opcode]
     @ eth_list src_hw @ ip_list src_ip @ eth_list dst_hw @ ip_list dst_ip"

abbreviation (input) ARP_HLEN :: nat where "ARP_HLEN \<equiv> 42"

definition slice :: "nat \<Rightarrow> nat \<Rightarrow> 'a list \<Rightarrow> 'a list" where
  "slice i n xs = take n (drop i xs)"

definition arp_reply :: "nat \<Rightarrow> packet \<Rightarrow> u8 list \<Rightarrow> net_t \<Rightarrow> net_t option" where
  "arp_reply n p ah st =
     (let src_hw = list_eth (slice 22 6 ah); src_ip = list_ip (slice 28 4 ah); dst_ip = list_ip (slice 38 4 ah)
      in case route_lookup_ipaddr (route st) src_ip n of
           None \<Rightarrow> Some st
         | Some ipaddr \<Rightarrow>
             if ipaddr \<noteq> dst_ip then Some st
             else do {
               let eth = nif_ethaddr (netif st n);
               b \<leftarrow> payload_put 0 (arp_hdr src_hw eth (slice 14 6 ah) 2 eth ipaddr src_hw src_ip) (hd p);
               Some (snd (drv_output n (b # tl p) 0 st))
             })"

text \<open>For an IP packet the result is the packet without its Ethernet header. A truncated packet that
  cannot be made continuous is a null pointer, which the code reads through.\<close>

definition arp_input :: "nat \<Rightarrow> packet \<Rightarrow> net_t \<Rightarrow> (packet \<times> net_t) option" where
  "arp_input n p st = do {
     assert_c (p \<noteq> []);
     proto \<leftarrow> payload_get (hd p) 12 2;
     if proto = [0x08, 0x00] then do {
       dest \<leftarrow> payload_get (hd p) 0 6;
       st \<leftarrow> (if dest ! 0 \<noteq> 255 then do {
                h \<leftarrow> payload_get (hd p) 0 34;
                Some (arp_add_entry n (list_ip (slice 26 4 h)) (list_eth (slice 6 6 h)) st)
              }
              else Some st);
       Some (snd (buf_add_header p (- 14)), st)
     }
     else if proto = [0x08, 0x06] then
       (if unat (b_tot (hd p)) < ARP_HLEN then Some ([], st)
        else do {
          p \<leftarrow> buf_truncate p 42;
          (p, m) \<leftarrow> buf_make_continuous p (pool st);
          let st = st\<lparr>pool := m\<rparr>;
          assert_c (p \<noteq> []);
          ah \<leftarrow> payload_get (hd p) 0 ARP_HLEN;
          if slice 20 2 ah = [0, 1] then map_option (\<lambda>st. ([], st)) (arp_reply n p ah st)
          else if slice 20 2 ah = [0, 2] then
            Some ([], arp_add_entry n (list_ip (slice 28 4 ah)) (list_eth (slice 22 6 ah)) st)
          else Some ([], st)
        })
     else Some ([], st)
   }"

text \<open>The packet that could not be sent becomes the request.\<close>

definition arp_request :: "nat \<Rightarrow> packet \<Rightarrow> ipaddr \<Rightarrow> ipaddr \<Rightarrow> net_t \<Rightarrow> (bool \<times> net_t) option" where
  "arp_request n p ipdest ipsrc st = do {
     assert_c (p \<noteq> []);
     let p = snd (buf_add_header p (int (b_off (hd p)) - 2));
     if unat (b_tot (hd p)) < ARP_HLEN then Some (False, st)
     else do {
       p \<leftarrow> buf_truncate p 42;
       (p, m) \<leftarrow> buf_make_continuous p (pool st);
       let st = st\<lparr>pool := m\<rparr>;
       assert_c (p \<noteq> []);
       let eth = nif_ethaddr (netif st n);
       b \<leftarrow> payload_put 0 (arp_hdr broadcast_eth eth [0, 1, 0x08, 0x00, 6, 4] 1 eth ipsrc (0, 0, 0, 0, 0, 0) ipdest) (hd p);
       Some (drv_output n (b # tl p) 0 st)
     }
   }"

text \<open>\<open>arp_add_header\<close>; the destination is null for a broadcast.\<close>

definition arp_add_header ::
  "nat \<Rightarrow> packet \<Rightarrow> ipaddr option \<Rightarrow> ethaddr option \<Rightarrow> net_t \<Rightarrow> (bool \<times> packet) option" where
  "arp_add_header n p ipdest ethdest st =
     (case buf_add_header p 14 of
        (False, p) \<Rightarrow> Some (False, [])
      | (True, p) \<Rightarrow> do {
          dest \<leftarrow> (case ipdest of
                    None \<Rightarrow> Some broadcast_eth
                  | Some (d0, d1, d2, d3) \<Rightarrow>
                      if d0 AND 0xf0 = 0xe0 then Some (0x01, 0, 0x5e, d1 AND 0x7f, d2, d3)
                      else ethdest);
          b \<leftarrow> payload_put 0 (eth_list dest @ eth_list (nif_ethaddr (netif st n)) @ [0x08, 0x00]) (hd p);
          Some (True, b # tl p)
        })"

section \<open>Network interfaces\<close>

definition netif_output_prio ::
  "nat \<Rightarrow> packet \<Rightarrow> ipaddr option \<Rightarrow> ipaddr option \<Rightarrow> nat \<Rightarrow> net_t \<Rightarrow> (bool \<times> net_t) option" where
  "netif_output_prio n p ipdest ipsrc prio st =
     (let discard = (\<lambda>st. (False, upd_netif n (\<lambda>u. u\<lparr>nif_out_discards := nif_out_discards u + 1\<rparr>) st))
      in case ipsrc of
           Some src \<Rightarrow>
             if nif_arp (netif st n) then
               (let unicast = (case ipdest of None \<Rightarrow> False | Some d \<Rightarrow> ip_first d AND 0xf0 \<noteq> 0xe0);
                    (ethdest, st) = (if unicast then arp_lookup n (the ipdest) st else (None, st))
                in if unicast \<and> ethdest = None then do {
                     (_, st) \<leftarrow> arp_request n p (the ipdest) src st;
                     Some (discard st)
                   }
                   else do {
                     (ok, p) \<leftarrow> arp_add_header n p ipdest ethdest st;
                     Some (if ok then drv_output n p prio st else discard st)
                   })
             else Some (drv_output n p prio st)
         | None \<Rightarrow> Some (drv_output n p prio st))"

definition netif_output :: "nat \<Rightarrow> packet \<Rightarrow> ipaddr option \<Rightarrow> ipaddr option \<Rightarrow> net_t \<Rightarrow> (bool \<times> net_t) option" where
  "netif_output n p ipdest ipsrc st = netif_output_prio n p ipdest ipsrc 0 st"

definition netif_input :: "nat \<Rightarrow> net_t \<Rightarrow> (packet \<times> net_t) option" where
  "netif_input n st =
     (let u = netif st n;
          (p, rest) = (case nif_in u of [] \<Rightarrow> ([], []) | p # ps \<Rightarrow> (p, ps));
          st = upd_netif n (\<lambda>u. u\<lparr>nif_in := rest\<rparr>) st
      in if p \<noteq> [] \<and> nif_arp u then arp_input n p st else Some (p, st))"


section \<open>What is sent\<close>

lemma length_eth_list [simp]: "length (eth_list a) = 6"
  by (simp add: eth_list_def split: prod.split)

lemma length_ip_list [simp]: "length (ip_list a) = 4"
  by (simp add: ip_list_def split: prod.split)

lemma nif_upd_same [simp]: "netif (upd_netif n f st) n = f (netif st n)"
  by (simp add: upd_netif_def)

lemma arp_find_Some: "arp_find P es = Some i \<Longrightarrow> i < length es \<and> P (es ! i)"
  by (induction es arbitrary: i) (auto split: if_splits)

lemma arp_find_None: "arp_find P es = None \<longleftrightarrow> (\<forall>e \<in> set es. \<not> P e)"
  by (induction es) auto

text \<open>A packet for \<open>d\<close> is sent at once: the interface needs no address resolution, or it is a
  multicast, or the address is in the table.\<close>

definition resolved :: "nat \<Rightarrow> ipaddr \<Rightarrow> net_t \<Rightarrow> bool" where
  "resolved n d st \<longleftrightarrow> \<not> nif_arp (netif st n) \<or> ip_first d AND 0xf0 = 0xe0
     \<or> arp_find (\<lambda>e. ae_netif e = n \<and> ae_ipaddr e = d) (arp_table st) \<noteq> None"

lemma arp_lookup_netif [simp]: "netif (snd (arp_lookup n d st)) = netif st"
  by (simp add: arp_lookup_def split: option.split)

lemma payload_put_front:
  assumes "packet_ok p" "packet_data p = bs @ xs" "length cs = length bs" "length cs \<le> unat (b_len (hd p))"
  shows "\<exists>b. payload_put 0 cs (hd p) = Some b \<and> packet_ok (b # tl p) \<and> packet_data (b # tl p) = cs @ xs
    \<and> b_off b = b_off (hd p) \<and> b_len b = b_len (hd p) \<and> b_tot b = b_tot (hd p)"
proof -
  obtain b q where p: "p = b # q" and b: "buf_ok b" using packet_ok_head [OF assms(1)] by auto
  let ?b = "b\<lparr>b_area := overwrite (b_off b) cs (b_area b)\<rparr>"
  have len: "length cs \<le> unat (b_len b)" using assms(4) by (simp add: p)
  have fit: "b_off b + length cs \<le> length (b_area b)" using b len by (simp add: buf_ok_def)
  have bd: "b_data b = bs @ drop (length bs) (b_data b)"
  proof -
    have "take (length bs) (packet_data p) = bs" by (simp add: assms(2))
    moreover have "length bs \<le> length (b_data b)" using len assms(3) length_b_data [OF b] by simp
    ultimately have "take (length bs) (b_data b) = bs" by (simp add: p packet_data_def)
    then show ?thesis by (metis append_take_drop_id)
  qed
  have "b_data ?b = cs @ drop (length cs) (b_data b)"
    using fit len by (simp add: b_data_def overwrite_def drop_take min_def add.commute)
  then have "packet_data (?b # q) = cs @ xs"
    using assms(2,3) length_b_data [OF b] len by (simp add: packet_data_def p)
      (metis (no_types, lifting) append.assoc append_eq_append_conv bd)
  moreover have "buf_ok ?b" using b fit by (simp add: buf_ok_def)
  ultimately show ?thesis using assms(1) fit by (simp add: payload_put_def p packet_ok_def)
qed

lemma sint_14 [simp]: "sint (word_of_int 14 :: u16) = 14" and sint_20 [simp]: "sint (word_of_int 20 :: u16) = 20"
  by simp_all

lemma netif_output_sent:
  assumes "resolved n d st" "packet_ok p" "14 \<le> b_off (hd p)" "length (packet_data p) + 14 < 2 ^ 16"
  shows "\<exists>ok st' pre. netif_output n p (Some d) (Some s) st = Some (ok, st')
    \<and> length pre = (if nif_arp (netif st n) then 14 else 0)
    \<and> nif_out (netif st' n) = nif_out (netif st n) @ [(pre @ packet_data p, 0)]"
proof (cases "nif_arp (netif st n)")
  case False
  then show ?thesis by (simp add: netif_output_def netif_output_prio_def drv_output_def)
next
  case True
  define uni where "uni \<longleftrightarrow> ip_first d AND 0xf0 \<noteq> 0xe0"
  obtain e st1 where e: "(if uni then arp_lookup n d st else (None, st)) = (e, st1)" by fastforce
  have st1: "netif st1 = netif st" using e arp_lookup_netif [of n d st] by (metis snd_conv)
  have ne: "uni \<Longrightarrow> e \<noteq> None"
  proof -
    assume u: "uni"
    then obtain i where "arp_find (\<lambda>e. ae_netif e = n \<and> ae_ipaddr e = d) (arp_table st) = Some i"
      using assms(1) True unfolding resolved_def uni_def by blast
    then show "e \<noteq> None" using e u by (auto simp: arp_lookup_def simp del: split_paired_Ex)
  qed
  obtain p' where p': "buf_add_header p 14 = (True, p')" "packet_ok p'"
    "\<exists>bs. length bs = 14 \<and> packet_data p' = bs @ packet_data p" "b_off (hd p') + 14 = b_off (hd p)"
    using add_header_ok [OF assms(2), of 14] assms(3,4) by (auto split: prod.splits bool.splits)
  obtain bs where bs: "length bs = 14" "packet_data p' = bs @ packet_data p" using p'(3) by blast
  have l14: "14 \<le> unat (b_len (hd p'))"
  proof -
    obtain b q where p: "p = b # q" using packet_ok_head [OF assms(2)] by auto
    have "p' = b\<lparr>b_off := b_off b - 14, b_len := b_len b + 14, b_tot := b_tot b + 14\<rparr> # q"
      using p'(1) assms(3) by (auto simp: p buf_add_header_def split: if_splits)
    moreover have "unat (b_len b) + 14 < 2 ^ 16"
      using assms(4) packet_ok_head [OF assms(2)] by (auto simp: p packet_data_def length_b_data)
    ultimately show ?thesis using unat_plus_u16 [of "b_len b" 14] by simp
  qed
  define dest where "dest = (case d of (d0, d1, d2, d3) \<Rightarrow>
      if d0 AND 0xf0 = 0xe0 then Some (0x01, 0, 0x5e, d1 AND 0x7f, d2, d3) else e)"
  have "dest \<noteq> None" using ne unfolding dest_def uni_def by (cases d) (simp split: if_splits)
  then obtain de where de: "dest = Some de" by blast
  define h where "h = eth_list de @ eth_list (nif_ethaddr (netif st n)) @ [0x08, 0x00]"
  obtain b where b: "payload_put 0 h (hd p') = Some b" "packet_data (b # tl p') = h @ packet_data p"
    using payload_put_front [OF p'(2) bs(2), of h] bs(1) l14 by (auto simp: h_def)
  have "arp_add_header n p (Some d) e st1 = Some (True, b # tl p')"
    using b(1) de by (cases d) (simp add: arp_add_header_def p'(1) dest_def st1 h_def split: if_splits)
  moreover have k: "\<not> (uni \<and> e = None)" using ne by blast
  ultimately have "netif_output n p (Some d) (Some s) st = Some (drv_output n (b # tl p') 0 st1)"
    unfolding netif_output_def netif_output_prio_def Let_def option.case option.sel uni_def [symmetric]
      if_P [OF True] e prod.case if_not_P [OF k] by simp
  moreover have "length h = 14" by (simp add: h_def)
  ultimately show ?thesis using True b(2) st1 by (simp add: drv_output_def)
qed

end
