(* ===== verification/Arp_Props.thy ===== *)
theory Arp_Props
  imports Net_Link
begin

text \<open>
  What the ARP table of \<open>net/arp.c\<close> promises: it maps an address to at most one entry, adding an
  entry makes it known, and only the oldest entry of a full table is given up for it.
\<close>

definition arp_ok :: "arp_entry_t list \<Rightarrow> bool" where
  "arp_ok t \<longleftrightarrow> (\<forall>i < length t. \<forall>j < length t. ae_netif (t ! i) \<noteq> 0 \<longrightarrow> ae_netif (t ! j) \<noteq> 0 \<longrightarrow>
     ae_ipaddr (t ! i) = ae_ipaddr (t ! j) \<longrightarrow> i = j)"

abbreviation arp_known :: "net_t \<Rightarrow> nat \<Rightarrow> ipaddr \<Rightarrow> ethaddr option" where
  "arp_known st n a \<equiv> fst (arp_lookup n a st)"

lemma arp_find_unique:
  assumes "i < length es" "P (es ! i)" "\<And>j. j < length es \<Longrightarrow> P (es ! j) \<Longrightarrow> j = i"
  shows "arp_find P es = Some i"
proof (cases "arp_find P es")
  case None
  then show ?thesis using assms(1,2) unfolding arp_find_None by (metis nth_mem)
next
  case (Some j)
  then show ?thesis using arp_find_Some [OF Some] assms(3) by blast
qed

lemma known_Some:
  assumes "arp_ok (arp_table st)" "n \<noteq> 0"
  shows "arp_known st n a = Some e \<longleftrightarrow>
    (\<exists>i < length (arp_table st). ae_netif (arp_table st ! i) = n \<and> ae_ipaddr (arp_table st ! i) = a
       \<and> ae_ethaddr (arp_table st ! i) = e)"
proof
  assume "arp_known st n a = Some e"
  then show "\<exists>i < length (arp_table st). ae_netif (arp_table st ! i) = n \<and> ae_ipaddr (arp_table st ! i) = a
       \<and> ae_ethaddr (arp_table st ! i) = e"
    by (auto simp: arp_lookup_def split: option.splits dest!: arp_find_Some)
next
  assume "\<exists>i < length (arp_table st). ae_netif (arp_table st ! i) = n \<and> ae_ipaddr (arp_table st ! i) = a
       \<and> ae_ethaddr (arp_table st ! i) = e"
  then obtain i where i: "i < length (arp_table st)" "ae_netif (arp_table st ! i) = n" "ae_ipaddr (arp_table st ! i) = a"
    "ae_ethaddr (arp_table st ! i) = e" by blast
  have "arp_find (\<lambda>e. ae_netif e = n \<and> ae_ipaddr e = a) (arp_table st) = Some i"
    using i assms by (intro arp_find_unique) (auto simp: arp_ok_def)
  then show "arp_known st n a = Some e" using i by (simp add: arp_lookup_def)
qed

lemma arp_oldest_max:
  "e < length t \<Longrightarrow> q + n = length t \<Longrightarrow> (\<forall>i < q. ae_age (t ! i) \<le> ae_age (t ! e)) \<Longrightarrow>
   arp_oldest t e q n < length t \<and> (\<forall>i < length t. ae_age (t ! i) \<le> ae_age (t ! arp_oldest t e q n))"
proof (induction t e q n rule: arp_oldest.induct)
  case (2 t e q n)
  define e' where "e' = (if ae_age (t ! q) > ae_age (t ! e) then q else e)"
  have "e' < length t" "\<forall>i < Suc q. ae_age (t ! i) \<le> ae_age (t ! e')"
    using 2(2-4) by (auto simp: e'_def less_Suc_eq not_less intro: order.trans less_imp_le)
  then show ?case using 2(1) 2(3) by (simp add: e'_def [symmetric])
qed simp

text \<open>The entry that is written, and what it held.\<close>

definition arp_slot :: "arp_entry_t list \<Rightarrow> ipaddr \<Rightarrow> nat" where
  "arp_slot t a =
     (case arp_find (\<lambda>e. ae_netif e \<noteq> 0 \<and> ae_ipaddr e = a) t of Some i \<Rightarrow> i
      | None \<Rightarrow> (case arp_find (\<lambda>e. ae_netif e = 0) t of Some i \<Rightarrow> i | None \<Rightarrow> arp_oldest t 0 0 (length t)))"

lemma add_entry_slot:
  assumes "ip_first a \<noteq> 0" "arp_table st \<noteq> []"
  shows "arp_add_entry n a eth st = st\<lparr>arp_table := (arp_table st)[arp_slot (arp_table st) a :=
      \<lparr>ae_netif = n, ae_ipaddr = a, ae_ethaddr = eth, ae_age = 0\<rparr>]\<rparr>"
proof (cases "arp_find (\<lambda>e. ae_netif e \<noteq> 0 \<and> ae_ipaddr e = a) (arp_table st)")
  case None
  then show ?thesis using assms by (simp add: arp_add_entry_def arp_slot_def Let_def)
next
  case (Some i)
  have a: "ae_ipaddr (arp_table st ! i) = a" using arp_find_Some [OF Some] by simp
  then have "(if ae_ethaddr (arp_table st ! i) \<noteq> eth \<or> ae_netif (arp_table st ! i) \<noteq> n
      then (arp_table st ! i)\<lparr>ae_ethaddr := eth, ae_netif := n\<rparr> else arp_table st ! i)\<lparr>ae_age := 0\<rparr>
    = \<lparr>ae_netif = n, ae_ipaddr = a, ae_ethaddr = eth, ae_age = 0\<rparr>"
    by (cases "arp_table st ! i") auto
  then show ?thesis using assms Some by (simp only: arp_add_entry_def arp_slot_def Let_def option.case if_False)
qed

lemma arp_slot_cases:
  assumes "t \<noteq> []"
  shows "arp_slot t a < length t"
    and "(ae_netif (t ! arp_slot t a) \<noteq> 0 \<and> ae_ipaddr (t ! arp_slot t a) = a)
      \<or> (\<forall>e \<in> set t. ae_netif e \<noteq> 0 \<longrightarrow> ae_ipaddr e \<noteq> a)"
    and "(ae_netif (t ! arp_slot t a) \<noteq> 0 \<and> ae_ipaddr (t ! arp_slot t a) = a) \<or> ae_netif (t ! arp_slot t a) = 0
      \<or> ((\<forall>e \<in> set t. ae_netif e \<noteq> 0) \<and> (\<forall>e \<in> set t. ae_age e \<le> ae_age (t ! arp_slot t a)))"
proof -
  have o: "arp_oldest t 0 0 (length t) < length t"
    "\<forall>i < length t. ae_age (t ! i) \<le> ae_age (t ! arp_oldest t 0 0 (length t))"
    using arp_oldest_max [of 0 t 0 "length t"] assms by auto
  show "arp_slot t a < length t"
    using o(1) by (auto simp: arp_slot_def split: option.split dest: arp_find_Some)
  show "(ae_netif (t ! arp_slot t a) \<noteq> 0 \<and> ae_ipaddr (t ! arp_slot t a) = a)
      \<or> (\<forall>e \<in> set t. ae_netif e \<noteq> 0 \<longrightarrow> ae_ipaddr e \<noteq> a)"
  proof (cases "arp_find (\<lambda>e. ae_netif e \<noteq> 0 \<and> ae_ipaddr e = a) t")
    case None
    then show ?thesis by (auto simp: arp_find_None)
  next
    case (Some i)
    then show ?thesis using arp_find_Some [OF Some] by (simp add: arp_slot_def)
  qed
  show "(ae_netif (t ! arp_slot t a) \<noteq> 0 \<and> ae_ipaddr (t ! arp_slot t a) = a) \<or> ae_netif (t ! arp_slot t a) = 0
      \<or> ((\<forall>e \<in> set t. ae_netif e \<noteq> 0) \<and> (\<forall>e \<in> set t. ae_age e \<le> ae_age (t ! arp_slot t a)))"
  proof (cases "arp_find (\<lambda>e. ae_netif e \<noteq> 0 \<and> ae_ipaddr e = a) t")
    case (Some i)
    then show ?thesis using arp_find_Some [OF Some] by (simp add: arp_slot_def)
  next
    case None
    show ?thesis
    proof (cases "arp_find (\<lambda>e. ae_netif e = 0) t")
      case (Some i)
      then show ?thesis using arp_find_Some [OF Some] None by (simp add: arp_slot_def)
    next
      case n: None
      then have "\<forall>e \<in> set t. ae_netif e \<noteq> 0" by (simp add: arp_find_None)
      moreover have "\<forall>e \<in> set t. ae_age e \<le> ae_age (t ! arp_slot t a)"
        using o(2) None n by (auto simp: arp_slot_def in_set_conv_nth)
      ultimately show ?thesis by blast
    qed
  qed
qed

section \<open>Properties\<close>

text \<open>C15: Adding a mapping to the table makes it known at once and keeps the table a function of
  the address. The mapping of another address changes only if the table was full, and then it was
  the oldest entry that has been replaced.\<close>

theorem arp_add_then_lookup:
  assumes "arp_ok (arp_table st)" "arp_table st \<noteq> []" "ip_first a \<noteq> 0" "n \<noteq> 0"
  shows "let st' = arp_add_entry n a eth st in
    arp_ok (arp_table st') \<and> length (arp_table st') = length (arp_table st) \<and> arp_known st' n a = Some eth
    \<and> (\<forall>m c. m \<noteq> 0 \<longrightarrow> c \<noteq> a \<longrightarrow> arp_known st' m c \<noteq> arp_known st m c \<longrightarrow>
         (\<forall>e \<in> set (arp_table st). ae_netif e \<noteq> 0)
         \<and> (\<exists>e \<in> set (arp_table st). ae_netif e = m \<and> ae_ipaddr e = c \<and> (\<forall>e' \<in> set (arp_table st). ae_age e' \<le> ae_age e)))"
proof -
  define t i where "t = arp_table st" and "i = arp_slot (arp_table st) a"
  define st' where "st' = arp_add_entry n a eth st"
  have t': "arp_table st' = t[i := \<lparr>ae_netif = n, ae_ipaddr = a, ae_ethaddr = eth, ae_age = 0\<rparr>]"
    using assms(2,3) by (simp add: st'_def add_entry_slot t_def i_def)
  note slot = arp_slot_cases [OF assms(2), of a, folded t_def, folded i_def [folded t_def]]
  have i: "i < length t" using slot(1) by (simp add: i_def t_def)
  have ok: "arp_ok t" using assms(1) by (simp add: t_def)
  have other: "ae_ipaddr (t ! j) \<noteq> a" if "j < length t" "j \<noteq> i" "ae_netif (t ! j) \<noteq> 0" for j
    using slot(2) ok that i nth_mem [of j t] unfolding arp_ok_def i_def t_def by metis
  have ok': "arp_ok (arp_table st')"
    using ok other i by (auto simp: arp_ok_def t' nth_list_update)
  have k: "arp_known st' n a = Some eth"
    using i by (subst known_Some [OF ok' assms(4)]) (auto simp: t')
  have old: "\<forall>e \<in> set t. ae_netif e \<noteq> 0" "ae_netif (t ! i) = m" "ae_ipaddr (t ! i) = c"
    "\<forall>e \<in> set t. ae_age e \<le> ae_age (t ! i)" if m: "m \<noteq> 0" "c \<noteq> a" and d: "arp_known st' m c \<noteq> arp_known st m c" for m c
  proof -
    have "ae_netif (t ! i) = m \<and> ae_ipaddr (t ! i) = c"
    proof (rule ccontr)
      assume n: "\<not> (ae_netif (t ! i) = m \<and> ae_ipaddr (t ! i) = c)"
      have "arp_known st' m c = Some e \<longleftrightarrow> arp_known st m c = Some e" for e
        unfolding known_Some [OF ok' m(1)] known_Some [OF assms(1) m(1)] t' t_def [symmetric]
        using n m(2) i by (auto simp: nth_list_update)
      then show False using d by (metis option.exhaust)
    qed
    then show "\<forall>e \<in> set t. ae_netif e \<noteq> 0" "ae_netif (t ! i) = m" "ae_ipaddr (t ! i) = c"
      "\<forall>e \<in> set t. ae_age e \<le> ae_age (t ! i)"
      using slot(3) m by (auto simp: i_def t_def)
  qed
  show ?thesis using ok' k old i unfolding Let_def st'_def [symmetric] t_def [symmetric]
    by (auto simp: t' intro!: bexI [of _ "t ! i"])
qed

definition arp_example :: net_t where
  "arp_example = \<lparr>pool = [], route = [], arp_cnt = 0,
     arp_table = [\<lparr>ae_netif = 3, ae_ipaddr = (10, 0, 0, 2), ae_ethaddr = (0, 0, 0, 0, 0, 2), ae_age = 4\<rparr>],
     netif = (\<lambda>_. \<lparr>nif_arp = True, nif_ethaddr = (0, 0, 0, 0, 0, 1), nif_accepts = (\<lambda>_. True), nif_in = [], nif_out = [],
                 nif_out_discards = 0, nif_in_mcast_pkts = 0, nif_in_unknown_protos = 0\<rparr>),
     forwarding = False, default_ttl = 64, tos = 0, ip_id = 0, ctr = (\<lambda>_. 0)\<rparr>"

lemma arp_add_then_lookup_witness:
  "arp_known (arp_add_entry 3 (10, 0, 0, 7) (0, 0, 0, 0, 0, 7) arp_example) 3 (10, 0, 0, 7) = Some (0, 0, 0, 0, 0, 7)"
  using arp_add_then_lookup [of arp_example "(10, 0, 0, 7)" 3 "(0, 0, 0, 0, 0, 7)"]
  by (simp add: arp_example_def arp_ok_def Let_def)

end
