(* ===== verification/Ip.thy ===== *)
theory Ip
  imports Net_Link
begin

text \<open>
  The IP layer below the transport protocols: output and forwarding (\<open>net/ip.c\<close>) and ICMP
  (\<open>net/icmp.c\<close>). \<open>Ip_Input\<close> has the input side. A header is a list of bytes at the start
  of the payload; the processor is little-endian. The ICMP errors read the header of a packet
  that they have just released; the model reads what was there.
\<close>

section \<open>Constants and tests\<close>

abbreviation (input) IP_HLEN :: nat where "IP_HLEN \<equiv> 20"
abbreviation (input) IP_PROTO_ICMP :: u8 where "IP_PROTO_ICMP \<equiv> 1"
abbreviation (input) IP_PROTO_TCP :: u8 where "IP_PROTO_TCP \<equiv> 6"
abbreviation (input) IP_PROTO_UDP :: u8 where "IP_PROTO_UDP \<equiv> 17"

definition is_broadcast :: "ipaddr \<Rightarrow> bool" where
  "is_broadcast a \<longleftrightarrow> a = (0xff, 0xff, 0xff, 0xff) \<or> a = (0, 0, 0, 0)"

definition is_multicast :: "ipaddr \<Rightarrow> bool" where
  "is_multicast a \<longleftrightarrow> ip_first a AND 0xf0 = 0xe0"

text \<open>The fields of a header.\<close>

definition ip_src :: "u8 list \<Rightarrow> ipaddr" where "ip_src h = list_ip (slice 12 4 h)"
definition ip_dest :: "u8 list \<Rightarrow> ipaddr" where "ip_dest h = list_ip (slice 16 4 h)"
definition ip_ttl :: "u8 list \<Rightarrow> u8" where "ip_ttl h = h ! 8"
definition ip_proto :: "u8 list \<Rightarrow> u8" where "ip_proto h = h ! 9"

section \<open>Output\<close>

definition ip_hdr :: "u8 \<Rightarrow> u16 \<Rightarrow> u32 \<Rightarrow> u8 \<Rightarrow> u8 \<Rightarrow> u16 \<Rightarrow> ipaddr \<Rightarrow> ipaddr \<Rightarrow> u8 list" where
  "ip_hdr service len ident ttl proto chksum src dest =
     [0x40 + 5, service, ucast (drop_bit 8 len), ucast len, ucast (drop_bit 8 ident), ucast ident, 0, 0, ttl, proto,
      ucast chksum, ucast (drop_bit 8 chksum)] @ ip_list src @ ip_list dest"

definition ip_output_netif ::
  "packet \<Rightarrow> ipaddr \<Rightarrow> ipaddr option \<Rightarrow> u8 \<Rightarrow> nat \<Rightarrow> ipaddr \<Rightarrow> net_t \<Rightarrow> (bool \<times> net_t) option" where
  "ip_output_netif p dest src proto n netif_ipaddr st =
     (let st = count Out_requests st
      in case buf_add_header p 20 of
           (False, p) \<Rightarrow> Some (False, count Out_discards st)
         | (True, p) \<Rightarrow> do {
             assert_c (p \<noteq> []);
             let st = st\<lparr>ip_id := ip_id st + 1\<rparr>;
             let hdr = (\<lambda>chksum. ip_hdr (tos st) (b_tot (hd p)) (ip_id st) (default_ttl st) proto chksum
                          (case src of Some a \<Rightarrow> a | None \<Rightarrow> netif_ipaddr) dest);
             sm \<leftarrow> crc16_inet 0 (odd (b_off (hd p))) (hdr 0);
             b \<leftarrow> payload_put 0 (hdr (NOT sm)) (hd p);
             netif_output n (b # tl p) (Some dest) (Some netif_ipaddr) st
           })"

definition ip_output :: "packet \<Rightarrow> ipaddr \<Rightarrow> ipaddr option \<Rightarrow> u8 \<Rightarrow> net_t \<Rightarrow> (bool \<times> net_t) option" where
  "ip_output p dest src proto st =
     (case route_lookup (route st) dest of
        None \<Rightarrow> Some (False, count Out_no_routes (count Out_requests st))
      | Some (n, gateway, netif_ipaddr) \<Rightarrow> ip_output_netif p dest src proto n netif_ipaddr st)"

section \<open>ICMP\<close>

text \<open>Add \<open>ICMP_ECHO << 8\<close> to the checksum, in network byte order, with the carry around.\<close>

definition echo_chksum :: "u16 \<Rightarrow> u16" where
  "echo_chksum c = (if c \<ge> 0xfff7 then c + (0x0008 + 1) else c + 0x0008)"

definition get_short :: "nat \<Rightarrow> u8 list \<Rightarrow> u16" where
  "get_short i h = ucast (h ! i) + push_bit 8 (ucast (h ! Suc i))"

definition put_short :: "u16 \<Rightarrow> u8 list" where
  "put_short c = [ucast c, ucast (drop_bit 8 c)]"

text \<open>The addresses change places, the type becomes 0.\<close>

definition echo_reply :: "u8 list \<Rightarrow> u8 list" where
  "echo_reply h =
     take 12 h @ ip_list (ip_dest h) @ ip_list (ip_src h) @ [0, h ! 21]
     @ put_short (echo_chksum (get_short 22 h))"

definition icmp_echo_request :: "packet \<Rightarrow> nat \<Rightarrow> net_t \<Rightarrow> net_t option" where
  "icmp_echo_request p inp st = do {
     assert_c (p \<noteq> []);
     if unat (b_tot (hd p)) < 28 then Some (count Icmp_in_errors st)
     else do {
       c \<leftarrow> packet_chksum p 0;
       if c \<noteq> 0 then Some (count Icmp_in_errors st)
       else do {
         h \<leftarrow> payload_get (hd p) 0 28;
         b \<leftarrow> payload_put 0 (echo_reply h) (hd p);
         (_, st) \<leftarrow> netif_output inp (b # tl p) (Some (ip_src h)) (Some (ip_dest h)) st;
         Some (count Out_requests (count Icmp_out_echo_reps (count Icmp_out_msgs st)))
       }
     }
   }"

text \<open>The header that the ICMP errors fill in is \<open>icmp_hdr_t\<close>, which starts with an IP header: the type,
  the code and the checksum are at the offsets 20, 21 and 22 of a packet that starts with the ICMP
  message itself. Then 28 bytes are copied to the offset 8.\<close>

definition icmp_error :: "counter \<Rightarrow> u8 \<Rightarrow> u8 \<Rightarrow> packet \<Rightarrow> net_t \<Rightarrow> net_t option" where
  "icmp_error ctr_out type code p st =
     (case buf_alloc 36 16 (pool st) of
        ([], m) \<Rightarrow> Some (count Icmp_out_errors (st\<lparr>pool := m\<rparr>))
      | (q # _, m) \<Rightarrow> do {
          let st = st\<lparr>pool := m\<rparr>;
          assert_c (p \<noteq> []);
          q \<leftarrow> payload_put 20 [type, code] q;
          d \<leftarrow> payload_get (hd p) 0 (IP_HLEN + 8);
          q \<leftarrow> payload_put 8 d q;
          q \<leftarrow> payload_put 22 [0, 0] q;
          sm \<leftarrow> crc16_inet 0 (odd (b_off q)) (b_data q);
          q \<leftarrow> payload_put 22 (put_short (NOT sm)) q;
          (_, st) \<leftarrow> ip_output [q] (ip_src d) None IP_PROTO_ICMP st;
          Some (count ctr_out (count Icmp_out_msgs st))
        })"

definition icmp_dest_unreach :: "packet \<Rightarrow> u8 \<Rightarrow> net_t \<Rightarrow> net_t option" where
  "icmp_dest_unreach p op st = icmp_error Icmp_out_dest_unreachs 3 op p st"

definition icmp_time_exceeded :: "packet \<Rightarrow> net_t \<Rightarrow> net_t option" where
  "icmp_time_exceeded p st = icmp_error Icmp_out_time_excds 11 0 p st"

section \<open>Forwarding\<close>

text \<open>The incremental update of the checksum.\<close>

definition forward_chksum :: "u8 \<Rightarrow> u8 \<Rightarrow> u8 list" where
  "forward_chksum h l = (if h \<noteq> 0xff then [h + 1, l] else if l \<noteq> 0xff then [0, l + 1] else [1, 0])"

definition forward_hdr :: "u8 list \<Rightarrow> u8 list" where
  "forward_hdr h = take 8 h @ [ip_ttl h - 1, h ! 9] @ forward_chksum (h ! 10) (h ! 11) @ drop 12 h"

definition ip_forward :: "packet \<Rightarrow> ipaddr option \<Rightarrow> nat \<Rightarrow> ipaddr \<Rightarrow> net_t \<Rightarrow> net_t option" where
  "ip_forward p gateway n netif_ipaddr st = do {
     assert_c (p \<noteq> []);
     h \<leftarrow> payload_get (hd p) 0 IP_HLEN;
     if ip_ttl h \<le> 1 then (if ip_proto h \<noteq> IP_PROTO_ICMP then icmp_time_exceeded p st else Some st)
     else do {
       b \<leftarrow> payload_put 0 (forward_hdr h) (hd p);
       (_, st) \<leftarrow> netif_output n (b # tl p) (Some (case gateway of Some g \<Rightarrow> g | None \<Rightarrow> ip_dest h)) (Some netif_ipaddr) st;
       Some (count Forw_datagrams st)
     }
   }"

section \<open>Valid headers\<close>

text \<open>A header passes the receiver's check when its sum is \<open>0xffff\<close>.\<close>

lemma crc_good_iff:
  assumes "even (length xs)" "length xs < 2 ^ 16" "xs \<noteq> []"
  shows "crc16_inet 0 odd_addr xs = Some 0xffff \<longleftrightarrow> rfc1071 xs mod 65535 = 0 \<and> rfc1071 xs \<noteq> 0"
proof -
  let ?s = "foldl crc16_inet_byte 0 xs"
  have s: "same (unat ?s) (rfc1071 xs)"
    using bytes_same [of 0 xs] bsum_rfc [of 0 xs] assms(1) by simp
  have "?s = 0xffff \<longleftrightarrow> same (unat ?s) (unat (0xffff :: u16))"
    using same_unique [of ?s "0xffff"] by auto
  also have "\<dots> \<longleftrightarrow> rfc1071 xs mod 65535 = 0 \<and> rfc1071 xs \<noteq> 0" using s by simp
  finally show ?thesis using crc16_inet_bytes [of xs odd_addr 0] assms(2,3) by simp
qed

lemma short_le_eq: "short_le a b = unat a + 256 * unat b"
  by (simp add: short_le_def)

lemma unat_inc: "b \<noteq> 0xff \<Longrightarrow> unat (b + 1 :: u8) = unat b + 1"
  and unat_dec: "b \<noteq> 0 \<Longrightarrow> unat (b - 1 :: u8) = unat b - 1"
proof -
  assume "b \<noteq> 0xff"
  then have "unat b \<noteq> unat (0xff :: u8)" by (metis unsigned_word_eqI)
  then have "unat b + 1 < 256" using unat_u8 [of b] by simp
  then show "unat (b + 1) = unat b + 1" by (simp add: unat_word_ariths(1))
next
  assume "b \<noteq> 0"
  then have "1 \<le> b" by (simp add: word_le_nat_alt unat_gt_0 Suc_le_eq)
  then show "unat (b - 1) = unat b - 1" by (subst unat_sub) simp_all
qed

lemma forward_chksum_sum:
  "\<exists>c. forward_chksum h l = c \<and> length c = 2 \<and>
     (short_le (c ! 0) (c ! 1)) mod 65535 = (short_le h l + 1) mod 65535"
proof -
  have "(short_le (forward_chksum h l ! 0) (forward_chksum h l ! 1)) mod 65535 = (short_le h l + 1) mod 65535"
  proof (cases "h = 0xff")
    case False
    then show ?thesis by (simp add: forward_chksum_def short_le_eq unat_inc)
  next
    case True
    show ?thesis
    proof (cases "l = 0xff")
      case False
      then show ?thesis using True by (simp add: forward_chksum_def short_le_eq unat_inc)
    next
      case l: True
      show ?thesis by (simp add: forward_chksum_def short_le_eq True l)
    qed
  qed
  moreover have "length (forward_chksum h l) = 2" by (simp add: forward_chksum_def)
  ultimately show ?thesis by blast
qed

lemma list_of_2: "length xs = 2 \<Longrightarrow> xs = [xs ! 0, xs ! 1]"
  by (auto simp: length_Suc_conv numeral_2_eq_2)

lemma drop_nth2: "Suc n < length h \<Longrightarrow> drop n h = [h ! n, h ! Suc n] @ drop (Suc (Suc n)) h"
  by (simp add: Cons_nth_drop_Suc)

lemma hdr_split:
  assumes "length h = 20"
  shows "h = take 8 h @ [h ! 8, h ! 9] @ [h ! 10, h ! 11] @ drop 12 h"
proof -
  have "drop 8 h = [h ! 8, h ! 9] @ drop 10 h" "drop 10 h = [h ! 10, h ! 11] @ drop 12 h"
    using drop_nth2 [of 8 h] drop_nth2 [of 10 h] assms by simp_all
  then show ?thesis by (metis append_take_drop_id)
qed

lemma forward_hdr_good:
  assumes "length h = 20" "even (length ys)" "ip_ttl h > 1" "20 + length ys < 2 ^ 16"
    "crc16_inet 0 a (h @ ys) = Some 0xffff"
  shows "crc16_inet 0 a' (forward_hdr h @ ys) = Some 0xffff"
proof -
  obtain c where c: "forward_chksum (h ! 10) (h ! 11) = c" "length c = 2"
    "(short_le (c ! 0) (c ! 1)) mod 65535 = (short_le (h ! 10) (h ! 11) + 1) mod 65535"
    using forward_chksum_sum by blast
  define r where "r = rfc1071 (take 8 h) + rfc1071 (drop 12 h @ ys)"
  define t where "t = unat (h ! 8)"
  have ttl: "h ! 8 \<noteq> 0" "1 < t"
    using assms(3) by (auto simp: ip_ttl_def t_def word_less_nat_alt)
  have h: "rfc1071 (h @ ys) = r + short_le (h ! 8) (h ! 9) + short_le (h ! 10) (h ! 11)"
    using assms(1) by (subst hdr_split [OF assms(1)]) (simp add: rfc1071_append r_def)
  have f: "forward_hdr h @ ys = take 8 h @ [h ! 8 - 1, h ! 9] @ [c ! 0, c ! 1] @ (drop 12 h @ ys)"
    using list_of_2 [OF c(2)] by (simp add: forward_hdr_def c(1) ip_ttl_def)
  have g: "rfc1071 (forward_hdr h @ ys) = r + short_le (h ! 8 - 1) (h ! 9) + short_le (c ! 0) (c ! 1)"
    using assms(1) by (simp add: f rfc1071_append r_def)
  have d: "short_le (h ! 8 - 1) (h ! 9) + 1 = short_le (h ! 8) (h ! 9)" "short_le (h ! 8 - 1) (h ! 9) \<noteq> 0"
    using ttl by (simp_all add: short_le_eq unat_dec t_def)
  have "rfc1071 (forward_hdr h @ ys) mod 65535 = rfc1071 (h @ ys) mod 65535"
  proof -
    have "rfc1071 (forward_hdr h @ ys) mod 65535
      = ((r + short_le (h ! 8 - 1) (h ! 9)) + (short_le (h ! 10) (h ! 11) + 1)) mod 65535"
      unfolding g by (intro mod_add_cong refl c(3))
    also have "(r + short_le (h ! 8 - 1) (h ! 9)) + (short_le (h ! 10) (h ! 11) + 1) = rfc1071 (h @ ys)"
      using d(1) unfolding h by linarith
    finally show ?thesis .
  qed
  moreover have "rfc1071 (forward_hdr h @ ys) \<noteq> 0" using d(2) unfolding g by linarith
  moreover have "rfc1071 (h @ ys) mod 65535 = 0"
  proof -
    have "h @ ys \<noteq> []" using assms(1) by auto
    then show ?thesis using assms crc_good_iff [of "h @ ys" a] by simp
  qed
  moreover have "length (forward_hdr h) = 20" using assms(1) c(2) by (simp add: forward_hdr_def c(1))
  ultimately show ?thesis using assms(2,4) by (subst crc_good_iff) auto
qed

section \<open>Frames on the wire\<close>

lemma count_simps [simp]:
  "netif (count c st) = netif st" "route (count c st) = route st" "arp_table (count c st) = arp_table st"
  "pool (count c st) = pool st" "resolved n d (count c st) = resolved n d st"
  "netif (uncount c st) = netif st" "route (uncount c st) = route st"
  by (simp_all add: count_def uncount_def resolved_def)

lemma ip_hdr_parts:
  "ip_hdr service len ident ttl proto c src dest =
    [0x45, service, ucast (drop_bit 8 len), ucast len, ucast (drop_bit 8 ident), ucast ident, 0, 0, ttl, proto]
    @ [ucast c, ucast (drop_bit 8 c)] @ (ip_list src @ ip_list dest)"
  by (simp add: ip_hdr_def)

lemma length_ip_hdr [simp]: "length (ip_hdr service len ident ttl proto c src dest) = 20"
  by (simp add: ip_hdr_parts)

lemma list_ip_list [simp]: "list_ip (ip_list a) = a"
  by (simp add: list_ip_def ip_list_def split: prod.split)

lemma ip_hdr_fields:
  "ip_src (ip_hdr service len ident ttl proto c src dest) = src"
  "ip_dest (ip_hdr service len ident ttl proto c src dest) = dest"
  "ip_proto (ip_hdr service len ident ttl proto c src dest) = proto"
  "ip_ttl (ip_hdr service len ident ttl proto c src dest) = ttl"
  by (simp_all add: ip_src_def ip_dest_def ip_proto_def ip_ttl_def slice_def ip_hdr_parts)

text \<open>A header that the receiver accepts: version, length and checksum.\<close>

definition hdr_good :: "u8 list \<Rightarrow> bool" where
  "hdr_good h \<longleftrightarrow> length h = 20 \<and> h ! 0 = 0x45 \<and> crc16_inet 0 False h = Some 0xffff \<and> crc16_inet 0 True h = Some 0xffff"

lemma ip_hdr_good:
  assumes "crc16_inet 0 a (ip_hdr service len ident ttl proto 0 src dest) = Some s"
  shows "hdr_good (ip_hdr service len ident ttl proto (NOT s) src dest)"
proof -
  let ?xs = "[0x45, service, ucast (drop_bit 8 len), ucast len, ucast (drop_bit 8 ident), ucast ident, 0, 0, ttl, proto]"
  let ?ys = "ip_list src @ ip_list dest"
  have "s = foldl crc16_inet_byte 0 (?xs @ [0, 0] @ ?ys)"
    using assms crc16_inet_bytes [of "?xs @ [0, 0] @ ?ys" a 0] unfolding ip_hdr_parts by simp
  then have "foldl crc16_inet_byte 0 (?xs @ [ucast (NOT s), ucast (drop_bit 8 (NOT s))] @ ?ys) = 0xffff"
    by (intro filled_field) simp_all
  then have "foldl crc16_inet_byte 0 (ip_hdr service len ident ttl proto (NOT s) src dest) = 0xffff"
    by (simp only: ip_hdr_parts)
  then show ?thesis
    unfolding hdr_good_def by (subst (1 2) crc16_inet_bytes) (auto simp: ip_hdr_parts)
qed

lemma add_header_true:
  assumes "packet_ok p" "h = 14 \<or> h = 20 \<or> h = 8" "int (length (packet_data p)) + h < 2 ^ 16" "h \<le> int (b_off (hd p))"
  shows "\<exists>p' bs. buf_add_header p h = (True, p') \<and> packet_ok p' \<and> b_off (hd p') + nat h = b_off (hd p)
    \<and> length bs = nat h \<and> packet_data p' = bs @ packet_data p \<and> nat h \<le> unat (b_len (hd p'))"
proof -
  have s: "sint (word_of_int h :: u16) = h" "0 \<le> h" using assms(2) by auto
  obtain p' bs where p': "buf_add_header p h = (True, p')" "packet_ok p'" "b_off (hd p') + nat h = b_off (hd p)"
    "length bs = nat h" "packet_data p' = bs @ packet_data p"
    using add_header_ok [OF assms(1) s assms(3)] assms(4) by (auto split: prod.splits bool.splits)
  obtain b q where p: "p = b # q" "buf_ok b" using packet_ok_head [OF assms(1)] by auto
  have "hd p' = b\<lparr>b_off := nat (int (b_off b) - h), b_len := b_len b + word_of_int h, b_tot := b_tot b + word_of_int h\<rparr>"
    using p'(1) assms(4) by (auto simp: p buf_add_header_def s split: if_splits)
  moreover have "unat (b_len b) + nat h < 2 ^ 16"
  proof -
    have "length (b_data b) + nat h < 65536" using assms(2,3) by (auto simp: p packet_data_def)
    then show ?thesis using length_b_data [OF p(2)] by simp
  qed
  moreover have "unat (word_of_int h :: u16) = nat h" using assms(2) by auto
  ultimately have "nat h \<le> unat (b_len (hd p'))" using unat_plus_u16 [of "b_len b" "word_of_int h"] by simp
  then show ?thesis using p' by blast
qed

lemma ip_output_netif_sent:
  assumes "packet_ok p" "34 \<le> b_off (hd p)" "length (packet_data p) + 34 < 2 ^ 16" "resolved n dest st"
  shows "\<exists>ok st' pre h. ip_output_netif p dest src proto n ifa st = Some (ok, st')
    \<and> nif_out (netif st' n) = nif_out (netif st n) @ [(pre @ h @ packet_data p, 0)]
    \<and> length pre = (if nif_arp (netif st n) then 14 else 0) \<and> hdr_good h \<and> ip_dest h = dest
    \<and> ip_src h = (case src of Some a \<Rightarrow> a | None \<Rightarrow> ifa) \<and> ip_proto h = proto \<and> ip_ttl h = default_ttl st"
proof -
  obtain p' bs where p': "buf_add_header p 20 = (True, p')" "packet_ok p'" "b_off (hd p') + 20 = b_off (hd p)"
    "length bs = 20" "packet_data p' = bs @ packet_data p" "20 \<le> unat (b_len (hd p'))"
    using add_header_true [OF assms(1), of 20] assms(2,3) by auto
  have ne: "p' \<noteq> []" using p'(2) by (auto simp: packet_ok_def)
  define st1 where "st1 = (count Out_requests st)\<lparr>ip_id := ip_id (count Out_requests st) + 1\<rparr>"
  have st1: "netif st1 = netif st" "resolved n dest st1 = resolved n dest st" "default_ttl st1 = default_ttl st"
    by (simp_all add: st1_def resolved_def count_def)
  define hdr where "hdr chksum = ip_hdr (tos st1) (b_tot (hd p')) (ip_id st1) (default_ttl st1) proto chksum
      (case src of Some a \<Rightarrow> a | None \<Rightarrow> ifa) dest" for chksum
  obtain s where s: "crc16_inet 0 (odd (b_off (hd p'))) (hdr 0) = Some s"
    using crc16_inet_bytes [of "hdr 0" "odd (b_off (hd p'))" 0] by (auto simp: hdr_def ip_hdr_parts)
  have good: "hdr_good (hdr (NOT s))" using s unfolding hdr_def by (rule ip_hdr_good)
  obtain b where b: "payload_put 0 (hdr (NOT s)) (hd p') = Some b" "packet_ok (b # tl p')"
    "packet_data (b # tl p') = hdr (NOT s) @ packet_data p" "b_off b = b_off (hd p')"
    using payload_put_front [OF p'(2,5), of "hdr (NOT s)"] p'(4,6) by (auto simp: hdr_def)
  have "ip_output_netif p dest src proto n ifa st = netif_output n (b # tl p') (Some dest) (Some ifa) st1"
    unfolding ip_output_netif_def Let_def st1_def [symmetric] p'(1) prod.case bool.case hdr_def [symmetric]
    using ne s b(1) by simp
  moreover obtain ok st' pre where "netif_output n (b # tl p') (Some dest) (Some ifa) st1 = Some (ok, st')"
    "length pre = (if nif_arp (netif st1 n) then 14 else 0)"
    "nif_out (netif st' n) = nif_out (netif st1 n) @ [(pre @ packet_data (b # tl p'), 0)]"
    using netif_output_sent [of n dest st1 "b # tl p'" ifa] assms b(2-4) p'(3) st1 by (auto simp: hdr_def)
  ultimately show ?thesis using good b(3) st1
    by (intro exI [of _ ok] exI [of _ st'] exI [of _ pre] exI [of _ "hdr (NOT s)"])
      (simp add: hdr_def ip_hdr_fields)
qed

lemma payload_get_front:
  assumes "packet_ok p" "n \<le> unat (b_len (hd p))"
  shows "payload_get (hd p) 0 n = Some (take n (packet_data p))"
proof -
  obtain b q where p: "p = b # q" "buf_ok b" using packet_ok_head [OF assms(1)] by auto
  have "take n (packet_data p) = take n (drop (b_off b) (b_area b))"
    using assms(2) length_b_data [OF p(2)] by (simp add: p packet_data_def) (simp add: b_data_def)
  then show ?thesis using assms(2) p by (simp add: payload_get_def buf_ok_def)
qed

lemma front_length: "packet_ok p \<Longrightarrow> n \<le> unat (b_len (hd p)) \<Longrightarrow> n \<le> length (packet_data p)"
  using packet_ok_head [of p] by (auto simp: packet_data_def length_b_data)

lemma length_forward_hdr: "length h = 20 \<Longrightarrow> length (forward_hdr h) = 20"
  by (simp add: forward_hdr_def forward_chksum_def)

lemma nth_forward_hdr:
  assumes "length h = 20" "i < 20" "i \<notin> {8, 10, 11}"
  shows "forward_hdr h ! i = h ! i"
proof -
  consider "i < 8" | "i = 9" | "12 \<le> i" using assms(3) by fastforce
  then show ?thesis
  proof cases
    case 3
    define xs where "xs = take 8 h @ [ip_ttl h - 1, h ! 9] @ forward_chksum (h ! 10) (h ! 11)"
    have "length xs = 12" using assms(1) by (simp add: xs_def forward_chksum_def)
    moreover have "forward_hdr h = xs @ drop 12 h" by (simp add: forward_hdr_def xs_def)
    ultimately show ?thesis using 3 assms(1,2) by (simp add: nth_append)
  qed (use assms(1) in \<open>simp_all add: forward_hdr_def nth_append\<close>)
qed

text \<open>The echo reply has the sum of the request.\<close>

lemma unat_get_short: "unat (get_short i h) = short_le (h ! i) (h ! Suc i)"
proof -
  have "unat (push_bit 8 (ucast (h ! Suc i)) :: u16) = 256 * unat (h ! Suc i)"
    using unat_u8 [of "h ! Suc i"] by (simp add: push_bit_eq_mult unat_word_ariths(2) unsigned_ucast_eq take_bit_nat_eq_self)
  moreover have "unat (ucast (h ! i) :: u16) = unat (h ! i)"
    using unat_u8 [of "h ! i"] by (simp add: unsigned_ucast_eq take_bit_nat_eq_self)
  ultimately show ?thesis
    using unat_u8 [of "h ! i"] unat_u8 [of "h ! Suc i"]
    by (simp add: get_short_def short_le_def unat_plus_u16)
qed

lemma put_short_sum: "short_le (ucast c) (ucast (drop_bit 8 c)) = unat (c :: u16)"
proof -
  have "unat c div 256 < 256" using unat_u16 [of c] by (simp add: div_less_iff_less_mult)
  then have "unat (ucast (drop_bit 8 c) :: u8) = unat c div 256"
    by (simp add: drop_bit_eq_div unat_div unsigned_ucast_eq take_bit_nat_eq_self)
  moreover have "unat (ucast c :: u8) = unat c mod 256" by (simp add: unsigned_ucast_eq take_bit_eq_mod)
  ultimately show ?thesis by (simp add: short_le_def)
qed

lemma echo_chksum_sum: "unat (echo_chksum c) mod 65535 = (unat c + 8) mod 65535"
proof (cases "c \<ge> 0xfff7")
  case True
  have ge: "65527 \<le> unat c" using True by (simp add: word_le_nat_alt)
  have "unat (c + 9) = (unat c + 9) mod 65536" by (simp add: unat_word_ariths(1))
  also have "\<dots> = unat c + 9 - 65536"
  proof -
    have "(unat c + 9) mod 65536 = (unat c + 9 - 65536) mod 65536" using ge by (subst le_mod_geq) simp_all
    then show ?thesis using unat_u16 [of c] by simp
  qed
  finally have "unat (c + 9) + 65535 = unat c + 8" using ge by linarith
  moreover have "unat (c + 9) mod 65535 = (unat (c + 9) + 65535) mod 65535" by simp
  ultimately have "unat (c + 9) mod 65535 = (unat c + 8) mod 65535" by (simp only:)
  then show ?thesis using True by (simp add: echo_chksum_def)
next
  case False
  then have "unat c + 8 < 65536" by (simp add: word_le_nat_alt)
  then show ?thesis using False by (simp add: echo_chksum_def unat_plus_u16)
qed

lemma hdr28_split:
  assumes "length h = 28"
  shows "h = take 12 h @ slice 12 4 h @ slice 16 4 h @ [h ! 20, h ! 21] @ [h ! 22, h ! 23] @ drop 24 h"
proof -
  have "drop 20 h = [h ! 20, h ! 21] @ drop 22 h" "drop 22 h = [h ! 22, h ! 23] @ drop 24 h"
    using drop_nth2 [of 20 h] drop_nth2 [of 22 h] assms by simp_all
  moreover have "drop 12 h = slice 12 4 h @ drop 16 h" "drop 16 h = slice 16 4 h @ drop 20 h"
    using append_take_drop_id [of 4 "drop 12 h"] append_take_drop_id [of 4 "drop 16 h"]
    by (simp_all add: slice_def del: append_take_drop_id)
  moreover have "h = take 12 h @ drop 12 h" by simp
  ultimately show ?thesis by (simp only: append.assoc)
qed

lemma echo_reply_good:
  assumes "length h = 28" "h ! 0 \<noteq> 0" "h ! 20 = 8" "foldl crc16_inet_byte 0 (h @ ys) = 0xffff"
  shows "foldl crc16_inet_byte 0 (echo_reply h @ drop 24 h @ ys) = 0xffff"
proof -
  define c where "c = get_short 22 h"
  define zs where "zs = drop 24 h @ ys"
  define A where "A = rfc1071 (take 12 h) + rfc1071 (slice 12 4 h) + rfc1071 (slice 16 4 h) + rfc1071 zs"
  have sl: "length (slice 12 4 h) = 4" "length (slice 16 4 h) = 4" using assms(1) by (simp_all add: slice_def)
  have ip: "ip_list (list_ip xs) = xs" if "length xs = 4" for xs
    using that by (auto simp: ip_list_def list_ip_def length_Suc_conv eval_nat_numeral)
  have rq: "h @ ys = take 12 h @ slice 12 4 h @ slice 16 4 h @ [8, h ! 21] @ [h ! 22, h ! 23] @ zs"
    using hdr28_split [OF assms(1)] assms(3) unfolding zs_def by (metis append.assoc)
  have rp: "echo_reply h @ drop 24 h @ ys = take 12 h @ slice 16 4 h @ slice 12 4 h @ [0, h ! 21] @ put_short (echo_chksum c) @ zs"
    unfolding echo_reply_def ip_src_def ip_dest_def ip [OF sl(1)] ip [OF sl(2)] zs_def c_def by simp
  have sq: "rfc1071 (h @ ys) = A + 8 + 256 * unat (h ! 21) + unat c"
    unfolding rq using assms(1) sl unat_get_short [of 22 h]
    by (simp add: rfc1071_append A_def c_def short_le_def)
  have sp: "rfc1071 (echo_reply h @ drop 24 h @ ys) = A + 256 * unat (h ! 21) + unat (echo_chksum c)"
    unfolding rp using assms(1) sl put_short_sum [of "echo_chksum c"]
    by (simp add: rfc1071_append A_def put_short_def short_le_eq)
  have "rfc1071 (take 12 h) \<noteq> 0"
  proof -
    obtain x y zs where "h = x # y # zs" using assms(1) by (cases h; cases "tl h") auto
    then show ?thesis using assms(2) by (simp add: short_le_def unat_eq_zero)
  qed
  then have A: "A \<noteq> 0" by (simp add: A_def)
  have "rfc1071 (echo_reply h @ drop 24 h @ ys) mod 65535
    = ((A + 256 * unat (h ! 21)) + (unat c + 8)) mod 65535"
    unfolding sp by (intro mod_add_cong refl echo_chksum_sum)
  then have m: "same (rfc1071 (echo_reply h @ drop 24 h @ ys)) (rfc1071 (h @ ys))"
    unfolding sp sq using A by (simp add: ac_simps)
  have l: "length (echo_reply h @ drop 24 h @ ys) = length (h @ ys)"
    using assms(1) by (simp add: echo_reply_def put_short_def)
  have m': "same (256 * rfc1071 (echo_reply h @ drop 24 h @ ys)) (256 * rfc1071 (h @ ys))"
    using m by (intro conjI mod_mult_cong refl) auto
  have "same (bsum 0 (echo_reply h @ drop 24 h @ ys)) (bsum 0 (h @ ys))"
  proof (cases "even (length (h @ ys))")
    case True
    then show ?thesis
      using bsum_rfc [of 0 "echo_reply h @ drop 24 h @ ys"] bsum_rfc [of 0 "h @ ys"] m
      unfolding l if_P [OF True] add_0 by metis
  next
    case False
    then show ?thesis
      using bsum_rfc [of 0 "echo_reply h @ drop 24 h @ ys"] bsum_rfc [of 0 "h @ ys"] m'
      unfolding l if_not_P [OF False] add_0 by metis
  qed
  then have "same (unat (foldl crc16_inet_byte 0 (echo_reply h @ drop 24 h @ ys))) (unat (foldl crc16_inet_byte 0 (h @ ys)))"
    using bytes_same [of 0 "echo_reply h @ drop 24 h @ ys"] bytes_same [of 0 "h @ ys"] by simp
  then show ?thesis using assms(4) by (metis same_unique)
qed

lemma chain_sum_Some:
  "chain_sum p s = Some r \<Longrightarrow> \<forall>(odd_addr, data) \<in> set p. length data < 2 ^ 16 \<Longrightarrow>
   r = foldl crc16_inet_byte s (concat (map snd p))"
proof (induction p arbitrary: s)
  case (Cons x p)
  obtain a d where x: "x = (a, d)" by fastforce
  obtain s' where s': "crc16_inet s a d = Some s'" "chain_sum p s' = Some r"
    using Cons.prems(1) by (auto simp: x bind_eq_Some_conv)
  have "a \<Longrightarrow> d \<noteq> []" using s'(1) by (auto simp: crc16_inet_def)
  then have "s' = foldl crc16_inet_byte s d" using crc16_inet_bytes [of d a s] s'(1) Cons.prems(2) by (auto simp: x)
  then show ?case using Cons.IH [OF s'(2)] Cons.prems(2) by (simp add: x)
qed simp

lemma packet_chksum_Some:
  assumes "packet_ok p" "packet_chksum p s = Some c"
  shows "c = NOT (foldl crc16_inet_byte s (packet_data p))"
proof -
  let ?p = "map (\<lambda>b. (odd (b_off b), b_data b)) p"
  have "\<forall>(odd_addr, data) \<in> set ?p. length data < 2 ^ 16"
    using assms(1) unat_u16 by (auto simp: packet_ok_def length_b_data)
  then show ?thesis
    using assms(2) chain_sum_Some [of ?p s]
    by (auto simp: packet_chksum_def buf_chksum_def packet_data_def comp_def)
qed

section \<open>Properties\<close>

text \<open>A packet that \<open>ip_output\<close> has a route for, and the address of whose destination is resolved,
  is handed to the driver of the interface in one frame: the Ethernet header if the interface
  has ARP, an IP header that passes the check of the receiver and has the addresses, the protocol
  and the default time to live, and the bytes of the packet.\<close>

theorem ip_output_sends:
  assumes "packet_ok p" "34 \<le> b_off (hd p)" "length (packet_data p) + 34 < 2 ^ 16"
    and "route_lookup (route st) dest = Some (n, gw, ifa)" "resolved n dest st"
  shows "\<exists>ok st' pre h. ip_output p dest src proto st = Some (ok, st')
    \<and> nif_out (netif st' n) = nif_out (netif st n) @ [(pre @ h @ packet_data p, 0)]
    \<and> length pre = (if nif_arp (netif st n) then 14 else 0) \<and> hdr_good h \<and> ip_dest h = dest
    \<and> ip_src h = (case src of Some a \<Rightarrow> a | None \<Rightarrow> ifa) \<and> ip_proto h = proto \<and> ip_ttl h = default_ttl st"
  using ip_output_netif_sent [OF assms(1-3,5), of src proto ifa] assms(4) by (simp add: ip_output_def)

definition net_example :: net_t where
  "net_example = \<lparr>pool = [], route = route_example, arp_cnt = 0, arp_table = [],
     netif = (\<lambda>_. \<lparr>nif_arp = False, nif_ethaddr = (0, 0, 0, 0, 0, 1), nif_accepts = (\<lambda>_. True), nif_in = [], nif_out = [],
                 nif_out_discards = 0, nif_in_mcast_pkts = 0, nif_in_unknown_protos = 0\<rparr>),
     forwarding = True, default_ttl = 64, tos = 0, ip_id = 0, ctr = (\<lambda>_. 0)\<rparr>"

definition packet_example :: packet where
  "packet_example = [\<lparr>b_area = replicate 40 0 @ [1, 2, 3], b_off = 40, b_len = 3, b_tot = 3\<rparr>]"

lemma packet_example_ok: "packet_ok packet_example" "packet_data packet_example = [1, 2, 3]" "b_off (hd packet_example) = 40"
  by (simp_all add: packet_example_def packet_ok_def buf_ok_def packet_data_def b_data_def)

lemma route_lookup_example: "route_lookup (route net_example) (192, 168, 1, 99) = Some (500, (192, 168, 1, 99), (192, 168, 1, 7))"
  unfolding net_example_def net_t.select_convs by code_simp

lemma ip_output_sends_witness:
  "\<exists>ok st' pre h. ip_output packet_example (192, 168, 1, 99) None 17 net_example = Some (ok, st')
    \<and> nif_out (netif st' 500) = [(pre @ h @ [1, 2, 3], 0)] \<and> hdr_good h \<and> ip_src h = (192, 168, 1, 7)"
proof -
  have "resolved 500 (192, 168, 1, 99) net_example" by (simp add: resolved_def net_example_def)
  then show ?thesis
    using ip_output_sends [OF packet_example_ok(1) _ _ route_lookup_example, of None 17] packet_example_ok
    by (fastforce simp: net_example_def)
qed

text \<open>C16: \<open>ip_forward\<close> decrements the time to live and adjusts the checksum so that the header, with
  any options, passes the check of the next receiver when it passed that of this one; every
  other byte of the packet is sent on as it came.\<close>

theorem ip_forward_keeps_checksum:
  assumes "packet_ok p" "20 \<le> unat (b_len (hd p))" "14 \<le> b_off (hd p)" "length (packet_data p) + 14 < 2 ^ 16"
    and "even hl" "20 \<le> hl" "hl \<le> length (packet_data p)"
    and "crc16_inet 0 a (take hl (packet_data p)) = Some 0xffff" "ip_ttl (packet_data p) > 1" "resolved n gw st"
  shows "\<exists>st' pre f. ip_forward p (Some gw) n ifa st = Some st'
    \<and> nif_out (netif st' n) = nif_out (netif st n) @ [(pre @ f, 0)]
    \<and> length pre = (if nif_arp (netif st n) then 14 else 0)
    \<and> crc16_inet 0 a' (take hl f) = Some 0xffff \<and> ip_ttl f = ip_ttl (packet_data p) - 1
    \<and> length f = length (packet_data p) \<and> (\<forall>i. i \<notin> {8, 10, 11} \<longrightarrow> i < length f \<longrightarrow> f ! i = packet_data p ! i)"
proof -
  define d h ys where "d = packet_data p" and "h = take 20 d" and "ys = drop 20 d"
  have d: "d = h @ ys" "length h = 20" using assms(6,7) by (simp_all add: d_def h_def ys_def)
  have ttl: "ip_ttl h = ip_ttl d" using d by (simp add: ip_ttl_def nth_append)
  let ?f = "forward_hdr h @ ys"
  obtain b where b: "payload_put 0 (forward_hdr h) (hd p) = Some b" "packet_ok (b # tl p)"
    "packet_data (b # tl p) = ?f" "b_off b = b_off (hd p)"
    using payload_put_front [OF assms(1), of h ys "forward_hdr h"] d assms(2) length_forward_hdr [OF d(2)]
    by (auto simp: d_def)
  obtain ok st1 pre where o: "netif_output n (b # tl p) (Some gw) (Some ifa) st = Some (ok, st1)"
    "length pre = (if nif_arp (netif st n) then 14 else 0)"
    "nif_out (netif st1 n) = nif_out (netif st n) @ [(pre @ ?f, 0)]"
    using netif_output_sent [OF assms(10) b(2), of ifa] b(3,4) assms(3,4) d length_forward_hdr [OF d(2)]
    by (auto simp: d_def)
  have "\<not> ip_ttl h \<le> 1" "p \<noteq> []" using assms(1,9) ttl by (auto simp: d_def packet_ok_def)
  then have "ip_forward p (Some gw) n ifa st = Some (count Forw_datagrams st1)"
    using payload_get_front [OF assms(1,2)] o(1) b(1)
    by (simp add: ip_forward_def d_def [symmetric] h_def [symmetric])
  moreover have "crc16_inet 0 a' (take hl ?f) = Some 0xffff"
  proof -
    have "take hl d = h @ take (hl - 20) ys" "take hl ?f = forward_hdr h @ take (hl - 20) ys"
      using d assms(6) length_forward_hdr [OF d(2)] by simp_all
    moreover have "even (length (take (hl - 20) ys))" "20 + length (take (hl - 20) ys) < 2 ^ 16"
      using assms(4-7) d by (simp_all add: d_def)
    ultimately show ?thesis using forward_hdr_good [of h "take (hl - 20) ys" a a'] d(2) assms(8,9) ttl
      by (simp add: d_def)
  qed
  moreover have "ip_ttl ?f = ip_ttl d - 1"
    using d(2) ttl by (simp add: ip_ttl_def forward_hdr_def nth_append)
  moreover have "\<forall>i. i \<notin> {8, 10, 11} \<longrightarrow> i < length ?f \<longrightarrow> ?f ! i = d ! i"
    using nth_forward_hdr [OF d(2)] length_forward_hdr [OF d(2)] d by (auto simp: nth_append)
  moreover have "length ?f = length d" using d length_forward_hdr [OF d(2)] by simp
  ultimately show ?thesis using o unfolding d_def
    by (intro exI [of _ "count Forw_datagrams st1"] exI [of _ pre] exI [of _ ?f]) simp
qed


lemma ip_forward_keeps_checksum_witness:
  "\<exists>c st' f. ip_forward [\<lparr>b_area = replicate 14 0 @ ip_hdr 0 20 7 5 17 c (0, 0, 0, 1) (0, 0, 0, 2), b_off = 14, b_len = 20, b_tot = 20\<rparr>]
      (Some (10, 0, 0, 9)) 3 (10, 0, 0, 1) net_example = Some st'
    \<and> nif_out (netif st' 3) = [(f, 0)] \<and> crc16_inet 0 False (take 20 f) = Some 0xffff \<and> ip_ttl f = 4"
proof -
  let ?h = "\<lambda>c. ip_hdr 0 20 7 5 17 c (0, 0, 0, 1) (0, 0, 0, 2)"
  obtain s where s: "crc16_inet 0 False (?h 0) = Some s"
    using crc16_inet_bytes [of "?h 0" False 0] by (auto simp: ip_hdr_parts)
  have g: "crc16_inet 0 False (?h (NOT s)) = Some 0xffff" using ip_hdr_good [OF s] by (simp add: hdr_good_def)
  let ?p = "[\<lparr>b_area = replicate 14 0 @ ?h (NOT s), b_off = 14, b_len = 20, b_tot = 20\<rparr>]"
  have p: "packet_ok ?p" "packet_data ?p = ?h (NOT s)"
    by (simp_all add: packet_ok_def buf_ok_def packet_data_def b_data_def)
  have "resolved 3 (10, 0, 0, 9) net_example" by (simp add: resolved_def net_example_def)
  then obtain st' pre f where "ip_forward ?p (Some (10, 0, 0, 9)) 3 (10, 0, 0, 1) net_example = Some st'"
    "nif_out (netif st' 3) = nif_out (netif net_example 3) @ [(pre @ f, 0)]"
    "length pre = (if nif_arp (netif net_example 3) then 14 else 0)"
    "crc16_inet 0 False (take 20 f) = Some 0xffff" "ip_ttl f = ip_ttl (?h (NOT s)) - 1"
    using ip_forward_keeps_checksum [where p = ?p and hl = 20 and a = False and gw = "(10, 0, 0, 9)"
        and st = net_example and n = 3 and ifa = "(10, 0, 0, 1)" and a' = False] p g
    by (auto simp: ip_hdr_fields)
  then show ?thesis by (intro exI [of _ "NOT s"] exI [of _ st'] exI [of _ f]) (simp add: net_example_def ip_hdr_fields)
qed

text \<open>An echo request that passes the checksum test is answered: the frame sent is the request with
  source and destination exchanged and the type of a reply, and the receiver's test of it
  succeeds, whatever it carries and however long it is.\<close>

theorem echo_reply_verifies:
  assumes "packet_ok p" "28 \<le> unat (b_len (hd p))" "14 \<le> b_off (hd p)" "length (packet_data p) + 14 < 2 ^ 16"
    and "packet_data p ! 0 \<noteq> 0" "packet_data p ! 20 = 8" "packet_chksum p 0 = Some 0"
    and "resolved inp (ip_src (packet_data p)) st"
  shows "\<exists>st' pre f. icmp_echo_request p inp st = Some st'
    \<and> nif_out (netif st' inp) = nif_out (netif st inp) @ [(pre @ f, 0)]
    \<and> length pre = (if nif_arp (netif st inp) then 14 else 0)
    \<and> buf_chksum [(False, f)] 0 = Some 0 \<and> ip_src f = ip_dest (packet_data p) \<and> ip_dest f = ip_src (packet_data p)
    \<and> f ! 20 = 0 \<and> drop 24 f = drop 24 (packet_data p)"
proof -
  define d h ys where "d = packet_data p" and "h = take 28 d" and "ys = drop 28 d"
  have len: "28 \<le> length d" using front_length [OF assms(1,2)] by (simp add: d_def)
  have d: "d = h @ ys" "length h = 28" using len by (simp_all add: h_def ys_def)
  have sl: "slice i 4 d = slice i 4 h" if "i \<le> 24" for i using that by (simp add: slice_def h_def drop_take)
  have f0: "ip_src d = ip_src h" "ip_dest d = ip_dest h" by (simp_all add: ip_src_def ip_dest_def sl)
  have h0: "h ! 0 \<noteq> 0" "h ! 20 = 8" using assms(5,6) d by (auto simp: d_def [symmetric] nth_append split: if_splits)
  let ?r = "echo_reply h @ drop 24 h" let ?f = "?r @ ys"
  have el: "length (echo_reply h) = 24" using d(2) by (simp add: echo_reply_def put_short_def)
  have req: "foldl crc16_inet_byte 0 d = 0xffff"
  proof -
    have "NOT (foldl crc16_inet_byte 0 d) = 0" using packet_chksum_Some [OF assms(1,7)] by (simp add: d_def)
    then have "NOT (NOT (foldl crc16_inet_byte 0 d)) = NOT 0" by (simp only:)
    then show ?thesis by simp
  qed
  have rep: "foldl crc16_inet_byte 0 ?f = 0xffff"
    using echo_reply_good [OF d(2) h0, of ys] req d(1) by simp
  obtain b where b: "payload_put 0 (echo_reply h) (hd p) = Some b" "packet_ok (b # tl p)"
    "packet_data (b # tl p) = ?f" "b_off b = b_off (hd p)"
    using payload_put_front [OF assms(1), of "take 24 h" "drop 24 h @ ys" "echo_reply h"] d el assms(2)
    by (auto simp: d_def)
  obtain ok st1 pre where o: "netif_output inp (b # tl p) (Some (ip_src h)) (Some (ip_dest h)) st = Some (ok, st1)"
    "length pre = (if nif_arp (netif st inp) then 14 else 0)"
    "nif_out (netif st1 inp) = nif_out (netif st inp) @ [(pre @ ?f, 0)]"
    using netif_output_sent [OF assms(8) b(2), of "ip_dest h"] b(3,4) assms(3,4) d el f0
    by (auto simp: d_def)
  have ne: "p \<noteq> []" using assms(1) by (auto simp: packet_ok_def)
  have "unat (b_tot (hd p)) = length d" using packet_ok_tot [OF assms(1)] by (simp add: d_def)
  then have "icmp_echo_request p inp st = Some (count Out_requests (count Icmp_out_echo_reps (count Icmp_out_msgs st1)))"
    using ne payload_get_front [OF assms(1,2)] o(1) b(1) assms(7) len
    by (simp add: icmp_echo_request_def d_def [symmetric] h_def [symmetric])
  moreover have "buf_chksum [(False, ?f)] 0 = Some 0"
  proof -
    have "length ?f < 2 ^ 16" using assms(4) d el by (simp add: d_def)
    then show ?thesis using rep crc16_inet_bytes [of ?f False 0] by (simp add: buf_chksum_def)
  qed
  moreover have "ip_src ?f = ip_dest d" "ip_dest ?f = ip_src d"
  proof -
    have il: "length (ip_list x) = 4" for x by simp
    show "ip_src ?f = ip_dest d" "ip_dest ?f = ip_src d"
      using d(2) f0 by (simp_all add: ip_src_def ip_dest_def [of "_ @ _"] echo_reply_def slice_def)
  qed
  moreover have "?f ! 20 = 0"
    using d(2) by (simp add: echo_reply_def nth_append)
  moreover have "drop 24 ?f = drop 24 d" using d el by simp
  ultimately show ?thesis using o unfolding d_def
    by (intro exI [of _ "count Out_requests (count Icmp_out_echo_reps (count Icmp_out_msgs st1))"] exI [of _ pre] exI [of _ ?f]) simp
qed

lemma echo_reply_verifies_witness:
  "\<exists>st' f. icmp_echo_request [\<lparr>b_area = replicate 14 0 @ [0x45] @ replicate 19 0 @ [8, 0, 0xb2, 0xff, 0, 0, 0, 0],
      b_off = 14, b_len = 28, b_tot = 28\<rparr>] 3 net_example = Some st'
    \<and> nif_out (netif st' 3) = [(f, 0)] \<and> buf_chksum [(False, f)] 0 = Some 0 \<and> f ! 20 = 0"
proof -
  let ?m = "[0x45] @ replicate 19 0 @ [8, 0, 0xb2, 0xff, 0, 0, 0, 0] :: u8 list"
  let ?p = "[\<lparr>b_area = replicate 14 0 @ ?m, b_off = 14, b_len = 28, b_tot = 28\<rparr>]"
  have p: "packet_ok ?p" "packet_data ?p = ?m"
    by (simp_all add: packet_ok_def buf_ok_def packet_data_def b_data_def)
  have m: "?m = [0x45, 0, 0, 0, 0, 0, 0, 0, 0, 0, 0, 0, 0, 0, 0, 0, 0, 0, 0, 0, 8, 0, 0xb2, 0xff, 0, 0, 0, 0]"
    by (simp add: numeral_eq_Suc)
  have "rfc1071 ?m = 65535" unfolding m by (simp add: short_le_def)
  then have "crc16_inet 0 False ?m = Some 0xffff" by (subst crc_good_iff) auto
  then have c: "packet_chksum ?p 0 = Some 0"
    by (simp add: packet_chksum_def buf_chksum_def b_data_def)
  have "resolved 3 (ip_src ?m) net_example" by (simp add: resolved_def net_example_def)
  then obtain st' pre f where "icmp_echo_request ?p 3 net_example = Some st'"
    "nif_out (netif st' 3) = nif_out (netif net_example 3) @ [(pre @ f, 0)]"
    "length pre = (if nif_arp (netif net_example 3) then 14 else 0)"
    "buf_chksum [(False, f)] 0 = Some 0" "f ! 20 = 0"
    using echo_reply_verifies [of ?p 3 net_example] p(1) c unfolding p(2) by (auto simp: nth_append)
  then show ?thesis by (intro exI [of _ st'] exI [of _ f]) (simp add: net_example_def)
qed

end
