(* ===== verification/Sock_Queue.thy ===== *)
theory Sock_Queue
  imports Buf_Queue
begin

text \<open>
  The receive queue of a socket. UDP and TCP have their own copies of the same code
  (\<open>udp_queue_get\<close> in \<open>net/udp.c\<close>, \<open>tcp_queue_get\<close> in \<open>net/tcp.c\<close>, and so on), for arrays of
  different sizes; here the size is an argument. Unlike the ring of \<open>Buf_Queue\<close> it fills upwards,
  and the pointer \<open>head\<close> is null until something has been put in. It is the second provider of the
  bounded queue contract \<open>fifo\<close>.
\<close>

record 'a squeue =
  sq_slots :: "nat \<Rightarrow> 'a option"
  sq_head :: "nat option"
  sq_count :: nat

definition sq_is_full :: "nat \<Rightarrow> 'a squeue \<Rightarrow> bool" where
  "sq_is_full n q \<longleftrightarrow> sq_count q = n"

definition sq_is_empty :: "'a squeue \<Rightarrow> bool" where
  "sq_is_empty q \<longleftrightarrow> sq_count q = 0"

text \<open>The null pointer lies below the array, so the first assertion fails for it.\<close>

definition sq_get :: "nat \<Rightarrow> 'a squeue \<Rightarrow> ('a option \<times> 'a squeue) option" where
  "sq_get n q =
     (if sq_count q = 0 then Some (None, q)
      else do {
        h \<leftarrow> sq_head q;
        assert_c (h < n);
        assert_c (sq_slots q h \<noteq> None);
        let head = h + 1;
        Some (sq_slots q h, q\<lparr>sq_head := Some (if head \<ge> n then 0 else head), sq_count := sq_count q - 1\<rparr>)
      })"

definition sq_put :: "nat \<Rightarrow> 'a option \<Rightarrow> 'a squeue \<Rightarrow> 'a squeue option" where
  "sq_put n p q = do {
     assert_c (sq_count q < n);
     let h = (case sq_head q of None \<Rightarrow> 0 | Some h \<Rightarrow> h);
     let tail = h + sq_count q;
     let tail = (if tail \<ge> n then tail - n else tail);
     Some (q\<lparr>sq_head := Some h, sq_slots := (sq_slots q)(tail := p), sq_count := sq_count q + 1\<rparr>)
   }"

text \<open>Release what is queued; the first component lists it.\<close>

function sq_free :: "nat \<Rightarrow> 'a squeue \<Rightarrow> ('a option list \<times> 'a squeue) option" where
  "sq_free n q =
     (if sq_count q = 0 then Some ([], q)
      else do {
        h \<leftarrow> sq_head q;
        assert_c (h < n);
        assert_c (sq_slots q h \<noteq> None);
        (freed, q') \<leftarrow> sq_free n (q\<lparr>sq_head := Some (if h + 1 \<ge> n then 0 else h + 1), sq_count := sq_count q - 1\<rparr>);
        Some (sq_slots q h # freed, q')
      })"
  by pat_completeness auto
termination by (relation "measure (\<lambda>(n, q). sq_count q)") auto

declare sq_free.simps [simp del]

definition sq_init :: "'a squeue" where
  "sq_init = \<lparr>sq_slots = (\<lambda>_. None), sq_head = None, sq_count = 0\<rparr>"

section \<open>The contents\<close>

definition sq_slot :: "nat \<Rightarrow> nat \<Rightarrow> nat \<Rightarrow> nat" where
  "sq_slot n h i = (if h + i \<ge> n then h + i - n else h + i)"

definition sq_list :: "nat \<Rightarrow> 'a squeue \<Rightarrow> 'a option list" where
  "sq_list n q = (case sq_head q of None \<Rightarrow> [] | Some h \<Rightarrow> map (\<lambda>i. sq_slots q (sq_slot n h i)) [0..<sq_count q])"

definition sq_ok :: "nat \<Rightarrow> 'a squeue \<Rightarrow> bool" where
  "sq_ok n q \<longleftrightarrow> 0 < n \<and> sq_count q \<le> n \<and> None \<notin> set (sq_list n q) \<and>
     (case sq_head q of None \<Rightarrow> sq_count q = 0 | Some h \<Rightarrow> h < n)"

lemma length_sq_list: "sq_ok n q \<Longrightarrow> length (sq_list n q) = sq_count q"
  by (auto simp: sq_list_def sq_ok_def split: option.splits)

lemma sq_init_ok [simp]: "0 < n \<Longrightarrow> sq_ok n sq_init" "sq_list n sq_init = []"
  by (simp_all add: sq_ok_def sq_init_def sq_list_def)

lemma sq_slot_inj: "h < n \<Longrightarrow> i < n \<Longrightarrow> j < n \<Longrightarrow> sq_slot n h i = sq_slot n h j \<Longrightarrow> i = j"
  by (auto simp: sq_slot_def split: if_splits)

lemma sq_get_ok:
  assumes "sq_ok n q" "sq_list n q = p # ps"
  shows "\<exists>q'. sq_get n q = Some (p, q') \<and> sq_ok n q' \<and> sq_list n q' = ps \<and> p \<noteq> None"
proof -
  obtain h where h: "sq_head q = Some h" "h < n" using assms by (auto simp: sq_ok_def sq_list_def split: option.splits)
  have c: "0 < sq_count q" "sq_count q \<le> n" using assms h by (auto simp: sq_list_def sq_ok_def)
  have l: "sq_list n q = sq_slots q h # map (\<lambda>i. sq_slots q (sq_slot n h (Suc i))) [0..<sq_count q - 1]"
  proof -
    have "[0..<sq_count q] = 0 # map Suc [0..<sq_count q - 1]" using c by (simp add: map_Suc_upt upt_conv_Cons)
    then show ?thesis using h by (simp add: sq_list_def sq_slot_def comp_def)
  qed
  define h' where "h' = (if h + 1 \<ge> n then 0 else h + 1)"
  let ?q = "q\<lparr>sq_head := Some h', sq_count := sq_count q - 1\<rparr>"
  have "sq_slot n h' i = sq_slot n h (Suc i)" if "i < sq_count q - 1" for i
    using that h c by (auto simp: sq_slot_def h'_def)
  then have "map (\<lambda>i. sq_slots q (sq_slot n h' i)) [0..<sq_count q - 1]
    = map (\<lambda>i. sq_slots q (sq_slot n h (Suc i))) [0..<sq_count q - 1]"
    by (intro map_cong refl) simp
  moreover have "sq_list n ?q = map (\<lambda>i. sq_slots q (sq_slot n h' i)) [0..<sq_count q - 1]"
    by (simp add: sq_list_def)
  moreover have "ps = map (\<lambda>i. sq_slots q (sq_slot n h (Suc i))) [0..<sq_count q - 1]"
    using l assms(2) by (simp only: list.inject)
  ultimately have l': "sq_list n ?q = ps" by (simp only:)
  have p: "sq_slots q h = p" "p \<noteq> None" "None \<notin> set ps" using l assms by (auto simp: sq_ok_def)
  have "sq_get n q = Some (p, ?q)" using c h p by (simp add: sq_get_def h'_def)
  moreover have "sq_ok n ?q" using l' p(3) h c by (simp add: sq_ok_def h'_def)
  ultimately show ?thesis using l' p(2) by blast
qed

lemma sq_put_ok:
  assumes "sq_ok n q" "sq_count q < n" "p \<noteq> None"
  shows "\<exists>q'. sq_put n p q = Some q' \<and> sq_ok n q' \<and> sq_list n q' = sq_list n q @ [p]"
proof -
  define h where "h = (case sq_head q of None \<Rightarrow> 0 | Some h \<Rightarrow> h)"
  have h: "h < n" "sq_list n q = map (\<lambda>i. sq_slots q (sq_slot n h i)) [0..<sq_count q]"
    using assms by (auto simp: sq_ok_def sq_list_def h_def split: option.splits)
  let ?q = "q\<lparr>sq_head := Some h, sq_slots := (sq_slots q)(sq_slot n h (sq_count q) := p), sq_count := sq_count q + 1\<rparr>"
  have "sq_slot n h i \<noteq> sq_slot n h (sq_count q)" if "i < sq_count q" for i
    using sq_slot_inj [OF h(1), of i "sq_count q"] that assms(2) by auto
  then have l: "sq_list n ?q = sq_list n q @ [p]" unfolding h(2) by (simp add: sq_list_def)
  moreover have "sq_ok n ?q"
  proof -
    have "None \<notin> set (sq_list n ?q)" using assms(1,3) unfolding l by (auto simp: sq_ok_def)
    then show ?thesis using assms(1,2) h(1) by (simp add: sq_ok_def)
  qed
  moreover have "sq_put n p q = Some ?q"
    using assms(2) by (simp add: sq_put_def h_def [symmetric] sq_slot_def Let_def)
  ultimately show ?thesis by blast
qed

lemma sq_free_ok:
  "sq_ok n q \<Longrightarrow> \<exists>q'. sq_free n q = Some (sq_list n q, q') \<and> sq_ok n q' \<and> sq_count q' = 0"
proof (induction n q rule: sq_free.induct)
  case (1 n q)
  show ?case
  proof (cases "sq_list n q")
    case Nil
    then have "sq_count q = 0" using length_sq_list [OF 1(2)] by simp
    then show ?thesis using 1(2) Nil by (simp add: sq_free.simps)
  next
    case (Cons p ps)
    obtain h where h: "sq_head q = Some h" "h < n" using 1(2) Cons by (auto simp: sq_ok_def sq_list_def split: option.splits)
    have c: "sq_count q \<noteq> 0" using length_sq_list [OF 1(2)] Cons by auto
    obtain q1 where q1: "sq_get n q = Some (p, q1)" "sq_ok n q1" "sq_list n q1 = ps" "p \<noteq> None"
      using sq_get_ok [OF 1(2) Cons] by blast
    have e: "q1 = q\<lparr>sq_head := Some (if h + 1 \<ge> n then 0 else h + 1), sq_count := sq_count q - 1\<rparr>" "sq_slots q h = p"
      using q1(1) c h by (auto simp: sq_get_def)
    obtain q' where q': "sq_free n q1 = Some (ps, q')" "sq_ok n q'" "sq_count q' = 0"
      using 1(1) [of h] c h q1(2-4) e by (auto simp del: split_paired_Ex)
    have "sq_free n q = Some (p # ps, q')"
      using c h q1(4) q'(1) e by (subst sq_free.simps) simp
    then show ?thesis using q' Cons by simp
  qed
qed

text \<open>It is a bounded queue.\<close>

interpretation sq: fifo "None :: 'a option" "\<lambda>p. p \<noteq> None" "\<lambda>(n, q). sq_ok n q" "\<lambda>(n, q). sq_list n q" fst
  "\<lambda>p (n, q). map_option (Pair n) (sq_put n p q)" "\<lambda>(n, q). map_option (\<lambda>(p, q). (p, n, q)) (sq_get n q)"
proof (unfold_locales, goal_cases)
  case (1 s p)
  obtain n q where s: "s = (n, q)" by fastforce
  show ?case using 1 sq_put_ok [of n q p] length_sq_list [of n q] by (auto simp: s)
next
  case (2 s p)
  then show ?case using length_sq_list [of "fst s" "snd s"] by (auto simp: sq_put_def split: prod.splits)
next
  case (3 s p ps)
  obtain n q where s: "s = (n, q)" by fastforce
  show ?case using 3 sq_get_ok [of n q p ps] by (auto simp: s simp del: split_paired_Ex)
next
  case (4 s)
  obtain n q where s: "s = (n, q)" by fastforce
  have "sq_count q = 0" using 4 length_sq_list [of n q] by (simp add: s)
  then show ?case by (simp add: s sq_get_def)
next
  case (5 s)
  obtain n q where s: "s = (n, q)" by fastforce
  then show ?case using length_sq_list [of n q] 5 by (simp add: sq_ok_def)
qed

end
