(* ===== verification/Udp.thy ===== *)
theory Udp
  imports Ip Sock_Queue
begin

text \<open>
  UDP (\<open>net/udp.c\<close>). A socket is named by its address; the list of sockets is the list of the
  addresses, newest first. An entry of a receive queue is a packet with the address and the port
  of its sender. The pointers into the routing table that a connected socket keeps are the
  addresses they point to. \<open>u_signal\<close> is set where the code signals the lock of the socket. A call
  runs with the locks it takes held.
\<close>

abbreviation (input) UDP_HLEN :: nat where "UDP_HLEN \<equiv> 8"
abbreviation (input) UDP_SOCKET_QUEUE_SIZE :: nat where "UDP_SOCKET_QUEUE_SIZE \<equiv> 8"

type_synonym udp_item = "packet \<times> ipaddr \<times> u16"

record udp_socket_t =
  u_peer_ip :: ipaddr
  u_peer_port :: u16
  u_local_port :: u16
  u_netif :: nat
  u_local_ip :: ipaddr
  u_gateway :: ipaddr
  u_queue :: "udp_item squeue"
  u_signal :: bool

record udp_t =
  usock :: "nat \<Rightarrow> udp_socket_t"
  udp_sockets :: "nat list"

definition upd_usock :: "nat \<Rightarrow> (udp_socket_t \<Rightarrow> udp_socket_t) \<Rightarrow> udp_t \<Rightarrow> udp_t" where
  "upd_usock s f us = us\<lparr>usock := (usock us)(s := f (usock us s))\<rparr>"

section \<open>The queue of a socket\<close>

definition udp_queue_get :: "udp_socket_t \<Rightarrow> (udp_item option \<times> udp_socket_t) option" where
  "udp_queue_get s = map_option (\<lambda>(x, q). (x, s\<lparr>u_queue := q\<rparr>)) (sq_get UDP_SOCKET_QUEUE_SIZE (u_queue s))"

definition udp_queue_put :: "packet \<Rightarrow> ipaddr \<Rightarrow> u16 \<Rightarrow> udp_socket_t \<Rightarrow> udp_socket_t option" where
  "udp_queue_put p addr port s =
     map_option (\<lambda>q. s\<lparr>u_queue := q\<rparr>)
       (sq_put UDP_SOCKET_QUEUE_SIZE (if p = [] then None else Some (p, addr, port)) (u_queue s))"

definition udp_queue_free :: "udp_socket_t \<Rightarrow> udp_socket_t option" where
  "udp_queue_free s = map_option (\<lambda>(_, q). s\<lparr>u_queue := q\<rparr>) (sq_free UDP_SOCKET_QUEUE_SIZE (u_queue s))"

definition udp_queue_is_full :: "udp_socket_t \<Rightarrow> bool" where
  "udp_queue_is_full s = sq_is_full UDP_SOCKET_QUEUE_SIZE (u_queue s)"

definition udp_queue_is_empty :: "udp_socket_t \<Rightarrow> bool" where
  "udp_queue_is_empty s = sq_is_empty (u_queue s)"

section \<open>Input\<close>

text \<open>The socket that takes a packet.\<close>

definition udp_match :: "udp_socket_t \<Rightarrow> u16 \<Rightarrow> u16 \<Rightarrow> ipaddr \<Rightarrow> bool" where
  "udp_match s dest src ipsrc \<longleftrightarrow>
     \<not> (u_local_port s \<noteq> dest \<or> u_peer_port s \<noteq> 0 \<and> u_peer_port s \<noteq> src
        \<or> u_peer_ip s \<noteq> zero_ip \<and> u_peer_ip s \<noteq> ipsrc)"

fun udp_find :: "(nat \<Rightarrow> udp_socket_t) \<Rightarrow> u16 \<Rightarrow> u16 \<Rightarrow> ipaddr \<Rightarrow> nat list \<Rightarrow> nat option" where
  "udp_find sock dest src ipsrc [] = None"
| "udp_find sock dest src ipsrc (s # ss) =
     (if udp_match (sock s) dest src ipsrc then Some s else udp_find sock dest src ipsrc ss)"

definition be_short :: "u8 \<Rightarrow> u8 \<Rightarrow> u16" where
  "be_short h l = push_bit 8 (ucast h) OR ucast l"

text \<open>The packet is returned if no socket takes it.\<close>

definition udp_input :: "packet \<Rightarrow> ipaddr \<Rightarrow> ipaddr \<Rightarrow> udp_t \<Rightarrow> net_t \<Rightarrow> (packet \<times> udp_t \<times> net_t) option" where
  "udp_input p ipsrc ipdest us st = do {
     let st = count Udp_in_datagrams st;
     let drop = ([], us, count Udp_in_errors st);
     assert_c (p \<noteq> []);
     if unat (b_tot (hd p)) < UDP_HLEN then Some drop
     else do {
       h \<leftarrow> payload_get (hd p) 0 UDP_HLEN;
       let len = be_short (h ! 4) (h ! 5);
       if len > b_tot (hd p) then Some drop
       else do {
         c \<leftarrow> (if (h ! 6) OR (h ! 7) \<noteq> 0
              then packet_chksum p (crc16_inet_header ipsrc ipdest IP_PROTO_UDP len) else Some 0);
         if c \<noteq> 0 then Some drop
         else
           (let dest = be_short (h ! 2) (h ! 3); src = be_short (h ! 0) (h ! 1)
            in case udp_find (usock us) dest src ipsrc (udp_sockets us) of
                 None \<Rightarrow> Some (p, us, count Udp_no_ports st)
               | Some s \<Rightarrow>
                   (let p = snd (buf_add_header p (- 8))
                    in if udp_queue_is_full (usock us s) then Some drop
                       else do {
                         r \<leftarrow> udp_queue_put p ipsrc src (usock us s);
                         Some ([], upd_usock s (\<lambda>_. r\<lparr>u_signal := True\<rparr>) us, st)
                       }))
       }
     }
   }"

section \<open>Output\<close>

definition udp_hdr :: "u16 \<Rightarrow> u16 \<Rightarrow> u16 \<Rightarrow> u16 \<Rightarrow> u8 list" where
  "udp_hdr src dest len chksum =
     [ucast (drop_bit 8 src), ucast src, ucast (drop_bit 8 dest), ucast dest,
      ucast (drop_bit 8 len), ucast len, ucast chksum, ucast (drop_bit 8 chksum)]"

text \<open>The checksum bytes: high byte first for a packet of odd length, low byte first otherwise.\<close>

definition udp_chksum_field :: "u16 \<Rightarrow> u16 \<Rightarrow> u16" where
  "udp_chksum_field c len = (let c = (if c = 0 then 0xffff else c) in if odd len then swap_bytes c else c)"

definition udp_send_netif ::
  "udp_socket_t \<Rightarrow> packet \<Rightarrow> ipaddr \<Rightarrow> u16 \<Rightarrow> nat \<Rightarrow> ipaddr \<Rightarrow> net_t \<Rightarrow> (bool \<times> net_t) option" where
  "udp_send_netif s p dest port n local_ip st =
     (case buf_add_header p 8 of
        (False, p) \<Rightarrow> Some (False, st)
      | (True, p) \<Rightarrow> do {
          assert_c (p \<noteq> []);
          let len = b_tot (hd p);
          b \<leftarrow> payload_put 0 (udp_hdr (u_local_port s) port len 0) (hd p);
          c \<leftarrow> packet_chksum (b # tl p) (crc16_inet_header local_ip dest IP_PROTO_UDP len);
          b \<leftarrow> payload_put 0 (udp_hdr (u_local_port s) port len (udp_chksum_field c len)) b;
          ip_output_netif (b # tl p) dest (Some local_ip) IP_PROTO_UDP n local_ip (count Udp_out_datagrams st)
        })"

definition udp_sendto :: "udp_socket_t \<Rightarrow> packet \<Rightarrow> ipaddr \<Rightarrow> u16 \<Rightarrow> net_t \<Rightarrow> (bool \<times> net_t) option" where
  "udp_sendto s p dest port st =
     (case route_lookup (route st) dest of
        None \<Rightarrow> Some (False, st)
      | Some (n, gateway, local_ip) \<Rightarrow> udp_send_netif s p dest port n local_ip st)"

definition udp_send :: "udp_socket_t \<Rightarrow> packet \<Rightarrow> net_t \<Rightarrow> (bool \<times> net_t) option" where
  "udp_send s p st =
     (if u_peer_port s = 0 \<or> u_peer_ip s = zero_ip then Some (False, st)
      else if u_netif s = 0 then Some (False, st)
      else udp_send_netif s p (u_peer_ip s) (u_peer_port s) (u_netif s) (u_local_ip s) st)"

section \<open>Sockets\<close>

definition udp_socket :: "nat \<Rightarrow> u16 \<Rightarrow> udp_t \<Rightarrow> udp_t" where
  "udp_socket s port us =
     (let us = upd_usock s (\<lambda>r. r\<lparr>u_local_port := port\<rparr>) us in us\<lparr>udp_sockets := s # udp_sockets us\<rparr>)"

fun udp_list_remove :: "nat \<Rightarrow> nat list \<Rightarrow> nat list" where
  "udp_list_remove ns [] = []"
| "udp_list_remove ns (p # ps) = (if p = ns then ps else p # udp_list_remove ns ps)"

definition udp_close :: "nat \<Rightarrow> udp_t \<Rightarrow> udp_t option" where
  "udp_close s us =
     (let us = us\<lparr>udp_sockets := udp_list_remove s (udp_sockets us)\<rparr>
      in map_option (\<lambda>r. upd_usock s (\<lambda>_. r) us) (udp_queue_free (usock us s)))"

definition udp_connect :: "nat \<Rightarrow> ipaddr option \<Rightarrow> u16 \<Rightarrow> net_t \<Rightarrow> udp_t \<Rightarrow> udp_t" where
  "udp_connect s ipaddr port st us =
     upd_usock s (\<lambda>r.
       let r = r\<lparr>u_peer_port := port\<rparr>
       in case ipaddr of None \<Rightarrow> r
          | Some a \<Rightarrow>
              (case route_lookup (route st) a of
                 None \<Rightarrow> r\<lparr>u_peer_ip := a, u_netif := 0\<rparr>
               | Some (n, gw, ifa) \<Rightarrow> r\<lparr>u_peer_ip := a, u_netif := n, u_gateway := gw, u_local_ip := ifa\<rparr>)) us"

definition udp_peekfrom :: "nat \<Rightarrow> udp_t \<Rightarrow> (udp_item option \<times> udp_t) option" where
  "udp_peekfrom s us = map_option (\<lambda>(x, r). (x, upd_usock s (\<lambda>_. r) us)) (udp_queue_get (usock us s))"

definition udp_recvfrom :: "nat \<Rightarrow> udp_t \<Rightarrow> (udp_item option \<times> udp_t) blocking option" where
  "udp_recvfrom s us =
     (if udp_queue_is_empty (usock us s) then Some Waits
      else map_option (\<lambda>(x, r). Returns (x, upd_usock s (\<lambda>_. r) us)) (udp_queue_get (usock us s)))"

section \<open>Datagrams\<close>

lemma be_short_bytes [simp]: "be_short (ucast (drop_bit 8 x)) (ucast x) = (x :: u16)"
  by (rule bit_word_eqI) (auto simp: be_short_def bit_simps)

lemma packet_chksum_eq:
  assumes "packet_ok p" "\<forall>b \<in> set p. b_len b \<noteq> 0"
  shows "packet_chksum p s = Some (NOT (foldl crc16_inet_byte s (packet_data p)))"
proof -
  have "\<forall>(a, data) \<in> set (map (\<lambda>b. (odd (b_off b), b_data b)) p). length data < 2 ^ 16 \<and> (a \<longrightarrow> data \<noteq> [])"
  proof (clarsimp, intro conjI impI)
    fix b assume b: "b \<in> set p"
    then have l: "length (b_data b) = unat (b_len b)" using assms(1) by (simp add: packet_ok_def length_b_data)
    then show "length (b_data b) < 65536" using unat_u16 [of "b_len b"] by simp
    show "b_data b \<noteq> []" using l assms(2) b by (auto simp: unat_eq_zero)
  qed
  then show ?thesis
    using chain_bytes [of "map (\<lambda>b. (odd (b_off b), b_data b)) p" s]
    by (simp add: packet_chksum_def buf_chksum_def packet_data_def comp_def)
qed

lemma length_udp_hdr [simp]: "length (udp_hdr src dest len c) = 8"
  by (simp add: udp_hdr_def)

lemma udp_chksum_good:
  assumes "c = NOT (foldl crc16_inet_byte s (udp_hdr src dest len 0 @ d))" "odd len = odd (length d)"
  shows "foldl crc16_inet_byte s (udp_hdr src dest len (udp_chksum_field c len) @ d) = 0xffff"
proof -
  let ?xs = "[ucast (drop_bit 8 src), ucast src, ucast (drop_bit 8 dest), ucast dest,
      ucast (drop_bit 8 len), ucast len] :: u8 list"
  have h: "udp_hdr src dest len v @ d = ?xs @ [ucast v, ucast (drop_bit 8 v)] @ d" for v
    by (simp add: udp_hdr_def)
  have "udp_chksum_field c len = chksum_field c (length d) \<or> (c = 0 \<and> udp_chksum_field c len = 0xffff)"
  proof (cases "c = 0")
    case True
    have "swap_bytes 0xffff = (0xffff :: u16)"
      unfolding swap_bytes_def by (rule bit_word_eqI) (auto simp: bit_simps less_Suc_eq numeral_eq_Suc)
    then show ?thesis using True by (simp add: udp_chksum_field_def)
  next
    case False
    then show ?thesis using assms(2) by (simp add: udp_chksum_field_def chksum_field_def)
  qed
  then show ?thesis unfolding h using assms(1) unfolding h by (intro chksum_field_good) auto
qed

lemma even_of_nat_u16: "even (of_nat n :: u16) \<longleftrightarrow> even n"
  using bit_of_nat_iff [where 'a = "16 word", of n 0] by (simp add: bit_0)

text \<open>What \<open>udp_send_netif\<close> sends is a datagram that the receiver accepts.\<close>

definition udp_datagram :: "u16 \<Rightarrow> u16 \<Rightarrow> ipaddr \<Rightarrow> ipaddr \<Rightarrow> u8 list \<Rightarrow> u8 list \<Rightarrow> bool" where
  "udp_datagram src dest ipsrc ipdest d msg \<longleftrightarrow>
     (\<exists>c. msg = udp_hdr src dest (of_nat (length d + 8)) c @ d) \<and> length d + 8 < 2 ^ 16
     \<and> foldl crc16_inet_byte (crc16_inet_header ipsrc ipdest IP_PROTO_UDP (of_nat (length msg))) msg = 0xffff"

lemma udp_send_netif_sent:
  assumes "packet_ok p" "42 \<le> b_off (hd p)" "length (packet_data p) + 42 < 2 ^ 16" "\<forall>b \<in> set (tl p). b_len b \<noteq> 0"
    and "resolved n dest st"
  shows "\<exists>ok st' pre h msg. udp_send_netif s p dest port n local_ip st = Some (ok, st')
    \<and> nif_out (netif st' n) = nif_out (netif st n) @ [(pre @ h @ msg, 0)]
    \<and> length pre = (if nif_arp (netif st n) then 14 else 0) \<and> hdr_good h
    \<and> ip_src h = local_ip \<and> ip_dest h = dest \<and> ip_proto h = IP_PROTO_UDP
    \<and> udp_datagram (u_local_port s) port local_ip dest (packet_data p) msg"
proof -
  obtain q bs where q: "buf_add_header p 8 = (True, q)" "packet_ok q" "b_off (hd q) + 8 = b_off (hd p)"
    "length bs = 8" "packet_data q = bs @ packet_data p" "8 \<le> unat (b_len (hd q))"
    using add_header_true [OF assms(1), of 8] assms(2,3) by auto
  have tl: "tl q = tl p"
    using q(1) by (cases p) (auto simp: buf_add_header_def split: if_splits)
  define len where "len = b_tot (hd q)"
  have ul: "unat len = length (packet_data p) + 8" using packet_ok_tot [OF q(2)] q(4,5) by (simp add: len_def)
  have "of_nat (unat len) = len" by simp
  then have len: "len = of_nat (length (packet_data p) + 8)" by (simp only: ul)
  have oddlen: "odd len = odd (length (packet_data p))"
    unfolding len even_of_nat_u16 by simp
  let ?hdr = "udp_hdr (u_local_port s) port len"
  let ?ini = "crc16_inet_header local_ip dest IP_PROTO_UDP len"
  obtain b where b: "payload_put 0 (?hdr 0) (hd q) = Some b" "packet_ok (b # tl q)"
    "packet_data (b # tl q) = ?hdr 0 @ packet_data p" "b_off b = b_off (hd q)" "b_len b = b_len (hd q)"
    using payload_put_front [OF q(2,5), of "?hdr 0"] q(4,6) by auto
  have nz: "\<forall>c \<in> set (b # tl q). b_len c \<noteq> 0" using assms(4) q(6) b(5) tl by (auto simp: unat_eq_zero)
  define c where "c = NOT (foldl crc16_inet_byte ?ini (?hdr 0 @ packet_data p))"
  have pc: "packet_chksum (b # tl q) ?ini = Some c"
    using packet_chksum_eq [OF b(2) nz] b(3) by (simp add: c_def)
  define v where "v = udp_chksum_field c len"
  obtain b' where b': "payload_put 0 (?hdr v) b = Some b'" "packet_ok (b' # tl q)"
    "packet_data (b' # tl q) = ?hdr v @ packet_data p" "b_off b' = b_off b"
    using payload_put_front [OF b(2,3), of "?hdr v"] q(6) b(5) by auto
  have good: "foldl crc16_inet_byte ?ini (?hdr v @ packet_data p) = 0xffff"
    unfolding v_def using oddlen by (intro udp_chksum_good c_def)
  have d: "udp_datagram (u_local_port s) port local_ip dest (packet_data p) (?hdr v @ packet_data p)"
    using good assms(3) by (auto simp: udp_datagram_def len add.commute)
  have "q \<noteq> []" using q(2) by (auto simp: packet_ok_def)
  then have send: "udp_send_netif s p dest port n local_ip st
    = ip_output_netif (b' # tl q) dest (Some local_ip) IP_PROTO_UDP n local_ip (count Udp_out_datagrams st)"
    using b(1) pc b'(1) by (simp add: udp_send_netif_def q(1) len_def [symmetric] v_def [symmetric])
  obtain ok st' pre h where o: "ip_output_netif (b' # tl q) dest (Some local_ip) IP_PROTO_UDP n local_ip (count Udp_out_datagrams st)
      = Some (ok, st')"
    "nif_out (netif st' n) = nif_out (netif st n) @ [(pre @ h @ ?hdr v @ packet_data p, 0)]"
    "length pre = (if nif_arp (netif st n) then 14 else 0)" "hdr_good h" "ip_dest h = dest" "ip_src h = local_ip"
    "ip_proto h = IP_PROTO_UDP"
    using ip_output_netif_sent [OF b'(2), of n dest "count Udp_out_datagrams st" "Some local_ip" IP_PROTO_UDP local_ip]
      assms(2,3,5) q(3) b(4) b'(3,4) by auto
  show ?thesis using send o(2-7) d unfolding o(1) by blast
qed

lemma udp_input_accepts:
  assumes "udp_datagram src dest ipsrc ipdest d (packet_data p)" "packet_ok p" "\<forall>b \<in> set p. b_len b \<noteq> 0"
    "8 \<le> unat (b_len (hd p))" "udp_find (usock us) dest src ipsrc (udp_sockets us) = Some s"
    "sq_ok 8 (u_queue (usock us s))" "sq_count (u_queue (usock us s)) < 8"
  shows "\<exists>p' us'. udp_input p ipsrc ipdest us st = Some ([], us', count Udp_in_datagrams st)
    \<and> packet_data p' = d \<and> u_signal (usock us' s) \<and> sq_ok 8 (u_queue (usock us' s))
    \<and> sq_list 8 (u_queue (usock us' s)) = sq_list 8 (u_queue (usock us s)) @ [Some (p', ipsrc, src)]"
proof -
  obtain c where m: "packet_data p = udp_hdr src dest (of_nat (length d + 8)) c @ d" "length d + 8 < 2 ^ 16"
    and good: "foldl crc16_inet_byte (crc16_inet_header ipsrc ipdest IP_PROTO_UDP (of_nat (length (packet_data p)))) (packet_data p) = 0xffff"
    using assms(1) by (auto simp: udp_datagram_def)
  define len where "len = (of_nat (length d + 8) :: u16)"
  have l: "length (packet_data p) = length d + 8" by (simp add: m(1))
  have ul: "unat len = length d + 8" using m(2) by (simp add: len_def unat_of_nat take_bit_nat_eq_self del: of_nat_add)
  have tot: "b_tot (hd p) = len" using packet_ok_tot [OF assms(2)] l ul by (metis unsigned_word_eqI)
  have h: "payload_get (hd p) 0 UDP_HLEN = Some (udp_hdr src dest len c)"
    using payload_get_front [OF assms(2,4)] m(1) by (simp add: len_def)
  have f: "be_short (udp_hdr src dest len c ! 4) (udp_hdr src dest len c ! 5) = len"
    "be_short (udp_hdr src dest len c ! 2) (udp_hdr src dest len c ! 3) = dest"
    "be_short (udp_hdr src dest len c ! 0) (udp_hdr src dest len c ! Suc 0) = src"
    by (simp_all add: udp_hdr_def)
  have c: "packet_chksum p (crc16_inet_header ipsrc ipdest IP_PROTO_UDP len) = Some 0"
    using packet_chksum_eq [OF assms(2,3)] good l by (simp add: len_def)
  obtain p' where p': "buf_add_header p (- 8) = (True, p')" "packet_ok p'" "packet_data p' = d"
    using strip_header_ok [OF assms(2), of 8] assms(4) m(1) by auto
  have ne: "p \<noteq> []" "p' \<noteq> []" using assms(2) p'(2) by (auto simp: packet_ok_def)
  obtain q where q: "sq_put 8 (Some (p', ipsrc, src)) (u_queue (usock us s)) = Some q" "sq_ok 8 q"
    "sq_list 8 q = sq_list 8 (u_queue (usock us s)) @ [Some (p', ipsrc, src)]"
    using sq_put_ok [OF assms(6,7)] by blast
  have full: "\<not> udp_queue_is_full (usock us s)" using assms(7) by (simp add: udp_queue_is_full_def sq_is_full_def)
  have "\<not> unat (b_tot (hd p)) < 8" "\<not> len > b_tot (hd p)" by (simp_all add: tot ul)
  then have "udp_input p ipsrc ipdest us st = Some ([], upd_usock s (\<lambda>_. (usock us s)\<lparr>u_queue := q, u_signal := True\<rparr>) us, count Udp_in_datagrams st)"
    using ne h c p'(1) full q(1) assms(5) by (simp add: udp_input_def f udp_queue_put_def Let_def)
  then show ?thesis using p'(3) q by (auto simp: upd_usock_def)
qed

section \<open>Properties\<close>

text \<open>C17: A datagram that a socket sends is received: the frame handed to the driver holds, behind a
  valid IP header, a message with which \<open>udp_input\<close> on the other side finds the checksum correct,
  appends exactly the bytes sent, with the address and the port of the sender, to the queue of
  the socket bound to the destination, and wakes it up. Odd lengths are included.\<close>

theorem udp_roundtrip:
  assumes "packet_ok p" "42 \<le> b_off (hd p)" "length (packet_data p) + 42 < 2 ^ 16" "\<forall>b \<in> set (tl p). b_len b \<noteq> 0"
    and "resolved n dest st"
    and "udp_find (usock us) port (u_local_port s) local_ip (udp_sockets us) = Some r"
    and "sq_ok 8 (u_queue (usock us r))" "sq_count (u_queue (usock us r)) < 8"
  shows "\<exists>ok st' pre h msg. udp_send_netif s p dest port n local_ip st = Some (ok, st')
    \<and> nif_out (netif st' n) = nif_out (netif st n) @ [(pre @ h @ msg, 0)]
    \<and> length pre = (if nif_arp (netif st n) then 14 else 0) \<and> hdr_good h \<and> ip_src h = local_ip \<and> ip_dest h = dest
    \<and> (\<forall>q st2. packet_ok q \<longrightarrow> packet_data q = msg \<longrightarrow> (\<forall>b \<in> set q. b_len b \<noteq> 0) \<longrightarrow> 8 \<le> unat (b_len (hd q)) \<longrightarrow>
        (\<exists>q' us'. udp_input q (ip_src h) (ip_dest h) us st2 = Some ([], us', count Udp_in_datagrams st2)
          \<and> packet_data q' = packet_data p \<and> u_signal (usock us' r)
          \<and> sq_list 8 (u_queue (usock us' r)) = sq_list 8 (u_queue (usock us r)) @ [Some (q', local_ip, u_local_port s)]))"
proof -
  obtain ok st' pre h msg where o: "udp_send_netif s p dest port n local_ip st = Some (ok, st')"
    "nif_out (netif st' n) = nif_out (netif st n) @ [(pre @ h @ msg, 0)]"
    "length pre = (if nif_arp (netif st n) then 14 else 0)" "hdr_good h" "ip_src h = local_ip" "ip_dest h = dest"
    "udp_datagram (u_local_port s) port local_ip dest (packet_data p) msg"
    using udp_send_netif_sent [OF assms(1-5), of s port local_ip] by blast
  have "\<exists>q' us'. udp_input q (ip_src h) (ip_dest h) us st2 = Some ([], us', count Udp_in_datagrams st2)
          \<and> packet_data q' = packet_data p \<and> u_signal (usock us' r)
          \<and> sq_list 8 (u_queue (usock us' r)) = sq_list 8 (u_queue (usock us r)) @ [Some (q', local_ip, u_local_port s)]"
    if "packet_ok q" "packet_data q = msg" "\<forall>b \<in> set q. b_len b \<noteq> 0" "8 \<le> unat (b_len (hd q))" for q st2
    using udp_input_accepts [OF _ that(1,3,4) assms(6-8), of dest "packet_data p" st2] o(5-7) that(2) by auto
  then show ?thesis using o by blast
qed

definition udp_example :: udp_t where
  "udp_example = udp_socket 900 7 \<lparr>usock = (\<lambda>_. \<lparr>u_peer_ip = zero_ip, u_peer_port = 0, u_local_port = 0, u_netif = 0,
     u_local_ip = zero_ip, u_gateway = zero_ip, u_queue = sq_init, u_signal = False\<rparr>), udp_sockets = []\<rparr>"

lemma udp_roundtrip_witness:
  "\<exists>ok st' msg pre h. udp_send_netif (usock (udp_socket 901 5 udp_example) 901)
       [\<lparr>b_area = replicate 42 0 @ [1, 2, 3], b_off = 42, b_len = 3, b_tot = 3\<rparr>] (10, 0, 0, 2) 7 4 (10, 0, 0, 1) net_example = Some (ok, st')
    \<and> nif_out (netif st' 4) = [(pre @ h @ msg, 0)] \<and> hdr_good h"
proof -
  let ?s = "usock (udp_socket 901 5 udp_example) 901"
  let ?p = "[\<lparr>b_area = replicate 42 0 @ [1, 2, 3], b_off = 42, b_len = 3, b_tot = 3\<rparr>]"
  have p: "packet_ok ?p" "packet_data ?p = [1, 2, 3]"
    by (simp_all add: packet_ok_def buf_ok_def packet_data_def b_data_def)
  have s: "u_local_port ?s = 5" by (simp add: udp_socket_def upd_usock_def)
  have f: "udp_find (usock udp_example) 7 5 (10, 0, 0, 1) (udp_sockets udp_example) = Some 900"
    by (simp add: udp_example_def udp_socket_def upd_usock_def udp_match_def)
  have q: "u_queue (usock udp_example 900) = sq_init" by (simp add: udp_example_def udp_socket_def upd_usock_def)
  have "resolved 4 (10, 0, 0, 2) net_example" by (simp add: resolved_def net_example_def)
  moreover have "nif_out (netif net_example 4) = []" by (simp add: net_example_def)
  ultimately show ?thesis
    using udp_roundtrip [of ?p 4 "(10, 0, 0, 2)" net_example udp_example 7 ?s "(10, 0, 0, 1)" 900] p s f q
    by (simp add: sq_init_def [THEN arg_cong [where f = sq_count]]) blast
qed

end
