(* ===== verification/Tcp_State.thy ===== *)
theory Tcp_State
  imports Udp
begin

text \<open>
  TCP: data and common operations (\<open>net/tcp.h\<close>, \<open>net/tcp.c\<close>). A socket is named by its address; a
  store maps addresses to sockets, and the three lists of the code (\<open>tcp_sockets\<close>,
  \<open>tcp_closing_sockets\<close>, \<open>tcp_listen_sockets\<close>) are lists of addresses.

  A segment keeps the packet that holds its header and data, the TCP length, and the header as a
  record in host byte order; the bytes of the header are written to the packet when it is
  sent. The links of the queues \<open>unsent\<close> and \<open>unacked\<close> become lists. Signed shorts are 16-bit words
  read by \<open>sint\<close>. \<open>s_signal\<close> is set where the code signals the lock of the socket. The size
  of every option is the default of \<open>net/tcp.h\<close>.
\<close>

section \<open>Types\<close>

datatype tcp_state_t = CLOSED | LISTEN | SYN_SENT | SYN_RCVD | ESTABLISHED | FIN_WAIT_1 | FIN_WAIT_2
  | CLOSE_WAIT | CLOSING | LAST_ACK | TIME_WAIT

fun state_no :: "tcp_state_t \<Rightarrow> nat" where
  "state_no CLOSED = 0" | "state_no LISTEN = 1" | "state_no SYN_SENT = 2" | "state_no SYN_RCVD = 3"
| "state_no ESTABLISHED = 4" | "state_no FIN_WAIT_1 = 5" | "state_no FIN_WAIT_2 = 6" | "state_no CLOSE_WAIT = 7"
| "state_no CLOSING = 8" | "state_no LAST_ACK = 9" | "state_no TIME_WAIT = 10"

instantiation tcp_state_t :: linorder
begin

definition less_eq_tcp_state_t :: "tcp_state_t \<Rightarrow> tcp_state_t \<Rightarrow> bool" where
  "less_eq_tcp_state_t a b \<longleftrightarrow> state_no a \<le> state_no b"

definition less_tcp_state_t :: "tcp_state_t \<Rightarrow> tcp_state_t \<Rightarrow> bool" where
  "less_tcp_state_t a b \<longleftrightarrow> state_no a < state_no b"

instance
proof (standard, goal_cases)
  case (4 x y)
  then show ?case by (cases x; cases y) (simp_all add: less_eq_tcp_state_t_def)
qed (auto simp: less_eq_tcp_state_t_def less_tcp_state_t_def)

end

record tcp_hdr_t =
  h_src :: u16
  h_dest :: u16
  h_seqno :: u32
  h_ackno :: u32
  h_offset :: u8
  h_flags :: u8
  h_wnd :: u16
  h_chksum :: u16
  h_urgp :: u16

record tcp_segment_t =
  seg_p :: packet
  seg_len :: u16
  seg_hdr :: tcp_hdr_t

record tcp_socket_t =
  s_local_ip :: ipaddr
  s_local_port :: u16
  s_state :: tcp_state_t
  s_queue :: "packet squeue"
  s_remote_ip :: ipaddr
  s_remote_port :: u16
  s_rcv_nxt :: u32
  s_rcv_wnd :: u16
  s_tmr :: u32
  s_rtime :: u16
  s_mss :: u16
  s_flags :: u8
  s_rttest :: u16
  s_rtseq :: u32
  s_sa :: u16
  s_sv :: u16
  s_rto :: u16
  s_nrtx :: u8
  s_lastack :: u32
  s_dupacks :: u8
  s_cwnd :: u16
  s_ssthresh :: u16
  s_snd_nxt :: u32
  s_snd_max :: u32
  s_snd_wnd :: u32
  s_snd_wl1 :: u32
  s_snd_wl2 :: u32
  s_snd_lbb :: u32
  s_acked :: u16
  s_snd_buf :: u16
  s_snd_queuelen :: u8
  s_unsent :: "tcp_segment_t list"
  s_unacked :: "tcp_segment_t list"
  s_signal :: bool

record tcp_t =
  tnet :: net_t
  tsock :: "nat \<Rightarrow> tcp_socket_t"
  next_sock :: nat
  tcp_listen_sockets :: "nat list"
  tcp_sockets :: "nat list"
  tcp_closing_sockets :: "nat list"
  tcp_ticks :: u32
  tcp_timer :: u8
  tcp_port :: u16
  tcp_seqno :: u32
  tcp_input_socket :: nat
  tcp_input_len :: u16
  tcp_input_flags :: u8
  tcp_input_seqno :: u32
  tcp_input_ackno :: u32

abbreviation (input) TCP_HLEN :: nat where "TCP_HLEN \<equiv> 20"
abbreviation (input) TCP_WND :: u16 where "TCP_WND \<equiv> 2048"
abbreviation (input) TCP_MSS :: u16 where "TCP_MSS \<equiv> 256"
abbreviation (input) TCP_SND_BUF :: u16 where "TCP_SND_BUF \<equiv> 1024"
abbreviation (input) TCP_SND_QUEUELEN :: u8 where "TCP_SND_QUEUELEN \<equiv> 16"
abbreviation (input) TCP_SOCKET_QUEUE_SIZE :: nat where "TCP_SOCKET_QUEUE_SIZE \<equiv> 16"

abbreviation (input) TCP_FIN :: u8 where "TCP_FIN \<equiv> 0x01"
abbreviation (input) TCP_SYN :: u8 where "TCP_SYN \<equiv> 0x02"
abbreviation (input) TCP_RST :: u8 where "TCP_RST \<equiv> 0x04"
abbreviation (input) TCP_PSH :: u8 where "TCP_PSH \<equiv> 0x08"
abbreviation (input) TCP_ACK :: u8 where "TCP_ACK \<equiv> 0x10"

abbreviation (input) TF_ACK_DELAY :: u8 where "TF_ACK_DELAY \<equiv> 0x01"
abbreviation (input) TF_ACK_NOW :: u8 where "TF_ACK_NOW \<equiv> 0x02"
abbreviation (input) TF_INFR :: u8 where "TF_INFR \<equiv> 0x04"

text \<open>\<open>flags & mask\<close> as a condition.\<close>

definition has :: "u8 \<Rightarrow> u8 \<Rightarrow> bool" where
  "has flags m \<longleftrightarrow> flags AND m \<noteq> 0"

text \<open>Comparison of sequence numbers: the sign of the 32-bit difference.\<close>

definition seq_lt :: "u32 \<Rightarrow> u32 \<Rightarrow> bool" where "seq_lt a b \<longleftrightarrow> sint (a - b) < 0"
definition seq_leq :: "u32 \<Rightarrow> u32 \<Rightarrow> bool" where "seq_leq a b \<longleftrightarrow> sint (a - b) \<le> 0"
definition seq_gt :: "u32 \<Rightarrow> u32 \<Rightarrow> bool" where "seq_gt a b \<longleftrightarrow> sint (a - b) > 0"
definition seq_geq :: "u32 \<Rightarrow> u32 \<Rightarrow> bool" where "seq_geq a b \<longleftrightarrow> sint (a - b) \<ge> 0"

definition tcp_tcplen :: "tcp_segment_t \<Rightarrow> u32" where
  "tcp_tcplen g = ucast (seg_len g) + (if has (h_flags (seg_hdr g)) (TCP_FIN OR TCP_SYN) then 1 else 0)"

definition upd_sock :: "nat \<Rightarrow> (tcp_socket_t \<Rightarrow> tcp_socket_t) \<Rightarrow> tcp_t \<Rightarrow> tcp_t" where
  "upd_sock s f t = t\<lparr>tsock := (tsock t)(s := f (tsock t s))\<rparr>"

definition upd_net :: "(net_t \<Rightarrow> net_t) \<Rightarrow> tcp_t \<Rightarrow> tcp_t" where
  "upd_net f t = t\<lparr>tnet := f (tnet t)\<rparr>"

definition sock_signal :: "nat \<Rightarrow> tcp_t \<Rightarrow> tcp_t" where
  "sock_signal s t = upd_sock s (\<lambda>k. k\<lparr>s_signal := True\<rparr>) t"

section \<open>The receive queue\<close>

text \<open>Taking a packet out opens the window again.\<close>

definition tcp_queue_get :: "tcp_socket_t \<Rightarrow> (packet \<times> tcp_socket_t) option" where
  "tcp_queue_get k = do {
     (x, q) \<leftarrow> sq_get TCP_SOCKET_QUEUE_SIZE (s_queue k);
     case x of
       None \<Rightarrow> Some ([], k)
     | Some p \<Rightarrow> do {
         assert_c (p \<noteq> []);
         let w = s_rcv_wnd k + b_tot (hd p);
         Some (p, k\<lparr>s_queue := q, s_rcv_wnd := (if w > TCP_WND then TCP_WND else w)\<rparr>)
       }
   }"

definition tcp_queue_put :: "packet \<Rightarrow> tcp_socket_t \<Rightarrow> tcp_socket_t option" where
  "tcp_queue_put p k =
     map_option (\<lambda>q. k\<lparr>s_queue := q\<rparr>) (sq_put TCP_SOCKET_QUEUE_SIZE (if p = [] then None else Some p) (s_queue k))"

definition tcp_queue_free :: "tcp_socket_t \<Rightarrow> tcp_socket_t option" where
  "tcp_queue_free k = map_option (\<lambda>(_, q). k\<lparr>s_queue := q\<rparr>) (sq_free TCP_SOCKET_QUEUE_SIZE (s_queue k))"

definition tcp_queue_is_full :: "tcp_socket_t \<Rightarrow> bool" where
  "tcp_queue_is_full k = sq_is_full TCP_SOCKET_QUEUE_SIZE (s_queue k)"

definition tcp_queue_is_empty :: "tcp_socket_t \<Rightarrow> bool" where
  "tcp_queue_is_empty k = sq_is_empty (s_queue k)"

section \<open>The lists of sockets\<close>

datatype socklist = Active | Closing | Listening

definition get_list :: "socklist \<Rightarrow> tcp_t \<Rightarrow> nat list" where
  "get_list w t = (case w of Active \<Rightarrow> tcp_sockets t | Closing \<Rightarrow> tcp_closing_sockets t | Listening \<Rightarrow> tcp_listen_sockets t)"

definition set_list :: "socklist \<Rightarrow> nat list \<Rightarrow> tcp_t \<Rightarrow> tcp_t" where
  "set_list w l t = (case w of Active \<Rightarrow> t\<lparr>tcp_sockets := l\<rparr> | Closing \<Rightarrow> t\<lparr>tcp_closing_sockets := l\<rparr>
     | Listening \<Rightarrow> t\<lparr>tcp_listen_sockets := l\<rparr>)"

text \<open>Writing the link of a socket: the list it is in goes on with \<open>l\<close>.\<close>

definition link_to :: "nat \<Rightarrow> nat list \<Rightarrow> nat list \<Rightarrow> nat list" where
  "link_to s l xs = (if s \<in> set xs then takeWhile (\<lambda>x. x \<noteq> s) xs @ s # l else xs)"

definition set_next :: "nat \<Rightarrow> nat list \<Rightarrow> tcp_t \<Rightarrow> tcp_t" where
  "set_next s l t = t\<lparr>tcp_sockets := link_to s l (tcp_sockets t),
     tcp_closing_sockets := link_to s l (tcp_closing_sockets t),
     tcp_listen_sockets := link_to s l (tcp_listen_sockets t)\<rparr>"

definition tcp_list_add :: "socklist \<Rightarrow> nat \<Rightarrow> tcp_t \<Rightarrow> tcp_t" where
  "tcp_list_add w s t = (let t' = set_next s (get_list w t) t in set_list w (s # get_list w t) t')"

text \<open>The link of the socket is cleared even if it is not on the list.\<close>

definition tcp_list_remove :: "socklist \<Rightarrow> nat \<Rightarrow> tcp_t \<Rightarrow> tcp_t" where
  "tcp_list_remove w s t = set_next s [] (set_list w (remove1 s (get_list w t)) t)"

section \<open>Common operations\<close>

definition tcp_segment_free :: "tcp_segment_t \<Rightarrow> u8" where
  "tcp_segment_free g = buf_free (seg_p g)"

fun tcp_segments_free :: "tcp_segment_t list \<Rightarrow> u8" where
  "tcp_segments_free [] = 0"
| "tcp_segments_free (g # gs) = tcp_segment_free g + tcp_segments_free gs"

definition tcp_next_seqno :: "tcp_t \<Rightarrow> u32 \<times> tcp_t" where
  "tcp_next_seqno t = (let n = tcp_seqno t + (tcp_ticks t + 1) in (n, t\<lparr>tcp_seqno := n\<rparr>))"

definition zero_socket :: tcp_socket_t where
  "zero_socket = \<lparr>s_local_ip = zero_ip, s_local_port = 0, s_state = CLOSED, s_queue = sq_init, s_remote_ip = zero_ip,
     s_remote_port = 0, s_rcv_nxt = 0, s_rcv_wnd = 0, s_tmr = 0, s_rtime = 0, s_mss = 0, s_flags = 0, s_rttest = 0,
     s_rtseq = 0, s_sa = 0, s_sv = 0, s_rto = 0, s_nrtx = 0, s_lastack = 0, s_dupacks = 0, s_cwnd = 0, s_ssthresh = 0,
     s_snd_nxt = 0, s_snd_max = 0, s_snd_wnd = 0, s_snd_wl1 = 0, s_snd_wl2 = 0, s_snd_lbb = 0, s_acked = 0,
     s_snd_buf = 0, s_snd_queuelen = 0, s_unsent = [], s_unacked = [], s_signal = False\<rparr>"

text \<open>A block of memory for a socket: a fresh address, cleared.\<close>

definition alloc_socket :: "tcp_t \<Rightarrow> nat option \<times> tcp_t" where
  "alloc_socket t =
     (let (a, m) = mem_get 236 (pool (tnet t)); t = upd_net (\<lambda>n. n\<lparr>pool := m\<rparr>) t; s = next_sock t
      in case a of None \<Rightarrow> (None, t)
         | Some _ \<Rightarrow> (Some s, upd_sock s (\<lambda>_. zero_socket) (t\<lparr>next_sock := s + 1\<rparr>)))"

definition tcp_alloc :: "tcp_t \<Rightarrow> nat option \<times> tcp_t" where
  "tcp_alloc t =
     (case alloc_socket t of
        (None, t) \<Rightarrow> (None, t)
      | (Some s, t) \<Rightarrow>
          (let (iss, t) = tcp_next_seqno t
           in (Some s, upd_sock s (\<lambda>k. k\<lparr>s_snd_buf := TCP_SND_BUF, s_snd_queuelen := 0, s_rcv_wnd := TCP_WND,
                s_mss := TCP_MSS, s_rto := 6, s_sa := 0, s_sv := 6, s_rtime := 0, s_cwnd := 1, s_snd_wl2 := iss,
                s_snd_nxt := iss, s_snd_max := iss, s_lastack := iss, s_snd_lbb := iss, s_tmr := tcp_ticks t\<rparr>) t)))"

definition tcp_socket_purge :: "nat \<Rightarrow> tcp_t \<Rightarrow> tcp_t" where
  "tcp_socket_purge s t = upd_sock s (\<lambda>k. k\<lparr>s_unsent := [], s_unacked := [], s_snd_queuelen := 0\<rparr>) t"

definition tcp_set_socket_state :: "nat \<Rightarrow> tcp_state_t \<Rightarrow> tcp_t \<Rightarrow> tcp_t" where
  "tcp_set_socket_state s st t = sock_signal s (upd_sock s (\<lambda>k. k\<lparr>s_state := st\<rparr>) t)"

end
