(* ===== verification/Tcp_Out.thy ===== *)
theory Tcp_Out
  imports Tcp_State
begin

text \<open>
  TCP output (\<open>net/tcp-out.c\<close>), acknowledgements (\<open>tcp_ack\<close> of \<open>net/tcp.h\<close>) and the removal of a socket
  (\<open>tcp_socket_remove\<close> of \<open>net/tcp.c\<close>). \<open>tcp_enqueue\<close> loops until the data are used up or there is no
  memory; every round takes two blocks from the pool, so it ends even when the segment size is 0.
\<close>

section \<open>The header on the wire\<close>

definition be16 :: "u16 \<Rightarrow> u8 list" where
  "be16 x = [ucast (drop_bit 8 x), ucast x]"

definition be32 :: "u32 \<Rightarrow> u8 list" where
  "be32 x = [ucast (drop_bit 24 x), ucast (drop_bit 16 x), ucast (drop_bit 8 x), ucast x]"

definition tcp_hdr_bytes :: "tcp_hdr_t \<Rightarrow> u8 list" where
  "tcp_hdr_bytes h = be16 (h_src h) @ be16 (h_dest h) @ be32 (h_seqno h) @ be32 (h_ackno h)
     @ [h_offset h, h_flags h] @ be16 (h_wnd h) @ put_short (h_chksum h) @ put_short (h_urgp h)"

section \<open>Queueing\<close>

text \<open>One segment: the memory, the data, the header. \<open>None\<close> inside: no memory. The fields that are filled
  in when the segment is sent are 0.\<close>

definition tcp_make_segment ::
  "tcp_socket_t \<Rightarrow> u8 list option \<Rightarrow> u8 \<Rightarrow> u8 list option \<Rightarrow> nat \<Rightarrow> nat \<Rightarrow> u32 \<Rightarrow> pool_t
   \<Rightarrow> (tcp_segment_t option \<times> pool_t) option" where
  "tcp_make_segment k arg flags optdata seglen off seqno m =
     (case buf_alloc (case optdata of Some os \<Rightarrow> of_nat (length os) | None \<Rightarrow> of_nat seglen) 56 m of
        ([], m) \<Rightarrow> Some (None, m)
      | (b # _, m) \<Rightarrow> do {
          b \<leftarrow> (case arg of Some d \<Rightarrow> payload_put 0 (slice off seglen d) b | None \<Rightarrow> Some b);
          let (ok, p) = buf_add_header [b] 20;
          if \<not> ok then Some (None, m)
          else do {
            b \<leftarrow> (case optdata of Some os \<Rightarrow> payload_put TCP_HLEN os (hd p) | None \<Rightarrow> Some (hd p));
            let offset = (case optdata of Some os \<Rightarrow> push_bit 4 (5 + of_nat (length os div 4)) | None \<Rightarrow> push_bit 4 5);
            Some (Some \<lparr>seg_p = [b], seg_len = of_nat seglen,
                  seg_hdr = \<lparr>h_src = s_local_port k, h_dest = s_remote_port k, h_seqno = seqno, h_ackno = 0,
                             h_offset = offset, h_flags = flags, h_wnd = 0, h_chksum = 0, h_urgp = 0\<rparr>\<rparr>, m)
          }
        })"

lemma buf_alloc_pool: "length (snd (buf_alloc n r m)) \<le> length m"
proof -
  have "length (snd (mem_get k m)) \<le> length m" for k by (induction k m rule: mem_get.induct) auto
  then show ?thesis by (auto simp: buf_alloc_def split: prod.split option.split) (metis snd_conv)+
qed

lemma make_segment_pool:
  assumes "tcp_make_segment k arg flags optdata seglen off seqno m = Some (g, m')"
  shows "length m' \<le> length m"
proof -
  define n :: u16 where "n = (case optdata of Some os \<Rightarrow> of_nat (length os) | None \<Rightarrow> of_nat seglen)"
  obtain p m1 where b: "buf_alloc n 56 m = (p, m1)" by fastforce
  have "m' = m1"
    using assms unfolding tcp_make_segment_def n_def [symmetric] b
    by (cases p) (auto simp: bind_eq_Some_conv Let_def case_prod_beta split: if_splits)
  then show ?thesis using buf_alloc_pool [of n 56 m] b by simp
qed

text \<open>The loop of \<open>tcp_enqueue\<close>, with the data that are left, where they start, the next sequence
  number, the segments made so far and the number of buffers queued. \<open>None\<close> inside: no memory.\<close>

function enqueue_loop ::
  "tcp_socket_t \<Rightarrow> u8 list option \<Rightarrow> u8 \<Rightarrow> u8 list option \<Rightarrow> nat \<Rightarrow> nat \<Rightarrow> u32 \<Rightarrow> tcp_segment_t list \<Rightarrow> u8 \<Rightarrow> pool_t
   \<Rightarrow> ((tcp_segment_t list \<times> u8) option \<times> pool_t) option" where
  "enqueue_loop k arg flags optdata left off seqno queue queuelen m =
     (if queue \<noteq> [] \<and> left = 0 then Some (Some (queue, queuelen), m)
      else (let seglen = (if left > unat (s_mss k) then unat (s_mss k) else left)
            in case mem_get 20 m of
                 (None, m) \<Rightarrow> Some (None, m)
               | (Some _, m) \<Rightarrow>
                   (case tcp_make_segment k arg flags optdata seglen off seqno m of
                      None \<Rightarrow> None
                    | Some (None, m) \<Rightarrow> Some (None, m)
                    | Some (Some g, m) \<Rightarrow>
                        enqueue_loop k arg flags optdata (left - seglen) (off + seglen) (seqno + of_nat seglen)
                          (queue @ [g]) (queuelen + 1) m)))"
  by pat_completeness auto
termination
proof (relation "measure (\<lambda>(k, arg, flags, optdata, left, off, seqno, queue, queuelen, m). length m)", goal_cases)
  case 1
  then show ?case by simp
next
  case (2 k arg flags optdata left off seqno queue queuelen m n xa y x2 x2a xaa ya g)
  have "length y < length m" using mem_get_less [of 20 m x2 y] 2(3,4) by simp
  moreover have "length ya \<le> length y"
    using make_segment_pool [of k arg flags optdata n off seqno y xaa ya] 2(5,6) by simp
  ultimately show ?case by simp
qed

declare enqueue_loop.simps [simp del]

text \<open>Either the last segment that waits takes the data in, or the new segments follow it.\<close>

definition tcp_append ::
  "tcp_socket_t \<Rightarrow> u8 \<Rightarrow> tcp_segment_t list \<Rightarrow> (tcp_segment_t list \<times> bool) option" where
  "tcp_append k flags queue =
     (let q = hd queue
      in if s_unsent k \<noteq> [] \<and> tcp_tcplen (last (s_unsent k)) \<noteq> 0
           \<and> \<not> has (h_flags (seg_hdr (last (s_unsent k)))) (TCP_SYN OR TCP_FIN) \<and> \<not> has flags (TCP_SYN OR TCP_FIN)
           \<and> unat (seg_len (last (s_unsent k))) + unat (seg_len q) \<le> unat (s_mss k)
         then (let useg = last (s_unsent k) in do {
           p \<leftarrow> buf_chain (seg_p useg) (snd (buf_add_header (seg_p q) (- 20)));
           Some (butlast (s_unsent k) @ [useg\<lparr>seg_p := p, seg_len := seg_len useg + seg_len q\<rparr>] @ tl queue, tl queue = [])
         })
         else Some (s_unsent k @ queue, False))"

definition set_psh :: "tcp_segment_t list \<Rightarrow> tcp_segment_t list" where
  "set_psh gs = (let g = last gs in butlast gs @ [g\<lparr>seg_hdr := (seg_hdr g)\<lparr>h_flags := h_flags (seg_hdr g) OR TCP_PSH\<rparr>\<rparr>])"

definition queued_ok :: "tcp_socket_t \<Rightarrow> bool" where
  "queued_ok k \<longleftrightarrow> (s_snd_queuelen k \<noteq> 0 \<longrightarrow> s_unacked k \<noteq> [] \<or> s_unsent k \<noteq> [])"

definition tcp_enqueue ::
  "nat \<Rightarrow> u8 list option \<Rightarrow> u16 \<Rightarrow> u8 \<Rightarrow> u8 list option \<Rightarrow> tcp_t \<Rightarrow> (bool \<times> tcp_t) option" where
  "tcp_enqueue s arg len flags optdata t =
     (let k = tsock t s
      in if len > s_snd_buf k then Some (False, t)
         else if s_snd_queuelen k \<ge> TCP_SND_QUEUELEN then Some (False, t)
         else do {
           assert_c (queued_ok k);
           (r, m) \<leftarrow> enqueue_loop k arg flags optdata (unat len) 0 (s_snd_lbb k) [] (s_snd_queuelen k) (pool (tnet t));
           let t = upd_net (\<lambda>n. n\<lparr>pool := m\<rparr>) t;
           case r of
             None \<Rightarrow> do { assert_c (queued_ok k); Some (False, upd_net (count Tcp_out_errors) t) }
           | Some (queue, queuelen) \<Rightarrow> do {
               (unsent, joined) \<leftarrow> tcp_append k flags queue;
               let len = (if has flags TCP_SYN \<or> has flags TCP_FIN then len + 1 else len);
               let k = k\<lparr>s_unsent := unsent, s_snd_lbb := s_snd_lbb k + ucast len, s_snd_buf := s_snd_buf k - len,
                         s_snd_queuelen := queuelen\<rparr>;
               assert_c (queued_ok k);
               let k = (if \<not> joined \<and> seg_len (last queue) > 0 then k\<lparr>s_unsent := set_psh (s_unsent k)\<rparr> else k);
               Some (True, upd_sock s (\<lambda>_. k) t)
             }
         })"

section \<open>Sending\<close>

text \<open>Send the bytes of a packet whose header is filled in.\<close>

definition tcp_fill_chksum :: "packet \<Rightarrow> tcp_hdr_t \<Rightarrow> ipaddr \<Rightarrow> ipaddr \<Rightarrow> (packet \<times> tcp_hdr_t) option" where
  "tcp_fill_chksum p h local_ip remote_ip = do {
     assert_c (p \<noteq> []);
     b \<leftarrow> payload_put 0 (tcp_hdr_bytes (h\<lparr>h_chksum := 0\<rparr>)) (hd p);
     n \<leftarrow> packet_chksum (b # tl p) (crc16_inet_header local_ip remote_ip IP_PROTO_TCP (b_tot b));
     let h = h\<lparr>h_chksum := (if odd (b_tot b) then swap_bytes n else n)\<rparr>;
     b \<leftarrow> payload_put 0 (tcp_hdr_bytes h) b;
     Some (b # tl p, h)
   }"

text \<open>The header and the start of the payload of a queued segment are at the same address, so nothing
  is cut off before the checksum is computed.\<close>

definition tcp_output_segment :: "tcp_segment_t \<Rightarrow> nat \<Rightarrow> tcp_t \<Rightarrow> (tcp_segment_t \<times> tcp_t) option" where
  "tcp_output_segment g s t =
     (let k = tsock t s;
          h = (seg_hdr g)\<lparr>h_ackno := s_rcv_nxt k, h_wnd := (if s_rcv_wnd k < s_mss k then 0 else s_rcv_wnd k)\<rparr>;
          g = g\<lparr>seg_hdr := h\<rparr>;
          local_ip = (if s_local_ip k = zero_ip then map_option (\<lambda>(n, gw, ifa). ifa) (route_lookup (route (tnet t)) (s_remote_ip k))
                      else Some (s_local_ip k))
      in case local_ip of
           None \<Rightarrow> Some (g, t)
         | Some local_ip \<Rightarrow>
             (let k = k\<lparr>s_local_ip := local_ip, s_rtime := 0\<rparr>;
                  k = (if s_rttest k = 0 then k\<lparr>s_rttest := ucast (tcp_ticks t), s_rtseq := h_seqno h\<rparr> else k);
                  k = k\<lparr>s_snd_nxt := h_seqno h + tcp_tcplen g\<rparr>;
                  k = (if seq_lt (s_snd_max k) (s_snd_nxt k) then k\<lparr>s_snd_max := s_snd_nxt k\<rparr> else k);
                  t = upd_sock s (\<lambda>_. k) t
              in do {
                (p, h) \<leftarrow> tcp_fill_chksum (seg_p g) h local_ip (s_remote_ip k);
                let g = g\<lparr>seg_p := p, seg_hdr := h\<rparr>;
                (q, m) \<leftarrow> buf_copy p (pool (tnet t));
                let t = upd_net (\<lambda>n. n\<lparr>pool := m\<rparr>) t;
                if q = [] then Some (g, t)
                else do {
                  (_, n) \<leftarrow> ip_output q (s_remote_ip k) (Some local_ip) IP_PROTO_TCP (count Tcp_out_datagrams (tnet t));
                  Some (g, upd_net (\<lambda>_. n) t)
                }
              }))"

text \<open>The loop of \<open>tcp_output\<close> over the segments that wait.\<close>

fun output_loop :: "nat \<Rightarrow> u32 \<Rightarrow> tcp_segment_t list \<Rightarrow> tcp_t \<Rightarrow> tcp_t option" where
  "output_loop s wnd [] t = Some t"
| "output_loop s wnd (g # gs) t =
     (if h_seqno (seg_hdr g) - s_lastack (tsock t s) + ucast (seg_len g) \<le> wnd then do {
        let t = upd_sock s (\<lambda>k. k\<lparr>s_unsent := gs\<rparr>) t;
        let syn_sent = (s_state (tsock t s) = SYN_SENT);
        let g = (if \<not> syn_sent then g\<lparr>seg_hdr := (seg_hdr g)\<lparr>h_flags := h_flags (seg_hdr g) OR TCP_ACK\<rparr>\<rparr> else g);
        let t = (if \<not> syn_sent then upd_sock s (\<lambda>k. k\<lparr>s_flags := s_flags k AND NOT (TF_ACK_DELAY OR TF_ACK_NOW)\<rparr>) t else t);
        (g, t) \<leftarrow> tcp_output_segment g s t;
        let t = (if tcp_tcplen g > 0 then upd_sock s (\<lambda>k. k\<lparr>s_unacked := s_unacked k @ [g]\<rparr>) t else t);
        output_loop s wnd gs t
      }
      else Some t)"

text \<open>An empty segment with nothing but an acknowledgement or a reset.\<close>

definition tcp_send_empty ::
  "tcp_hdr_t \<Rightarrow> ipaddr \<Rightarrow> ipaddr \<Rightarrow> counter option \<Rightarrow> tcp_t \<Rightarrow> (bool \<times> tcp_t) option" where
  "tcp_send_empty h local_ip remote_ip c t =
     (case buf_alloc 20 36 (pool (tnet t)) of
        ([], m) \<Rightarrow> Some (False, upd_net (\<lambda>n. n\<lparr>pool := m\<rparr>) t)
      | (p, m) \<Rightarrow> do {
          let t = upd_net (\<lambda>n. n\<lparr>pool := m\<rparr>) t;
          b \<leftarrow> payload_put 0 (tcp_hdr_bytes (h\<lparr>h_chksum := 0\<rparr>)) (hd p);
          n \<leftarrow> packet_chksum [b] (crc16_inet_header local_ip remote_ip IP_PROTO_TCP (b_tot b));
          b \<leftarrow> payload_put 0 (tcp_hdr_bytes (h\<lparr>h_chksum := n\<rparr>)) b;
          (_, n) \<leftarrow> ip_output [b] remote_ip (Some local_ip) IP_PROTO_TCP
                     (case c of Some c \<Rightarrow> count c (tnet t) | None \<Rightarrow> tnet t);
          Some (True, upd_net (\<lambda>_. n) t)
        })"

definition tcp_output :: "nat \<Rightarrow> tcp_t \<Rightarrow> (bool \<times> tcp_t) option" where
  "tcp_output s t =
     (if tcp_input_socket t = s then Some (True, t)
      else (let k = tsock t s;
                wnd = (if s_snd_wnd k < ucast (s_cwnd k) then s_snd_wnd k else ucast (s_cwnd k))
            in if has (s_flags k) TF_ACK_NOW
                  \<and> (s_unsent k = [] \<or>
                     h_seqno (seg_hdr (hd (s_unsent k))) - s_lastack k + ucast (seg_len (hd (s_unsent k))) > wnd)
               then tcp_send_empty
                      \<lparr>h_src = s_local_port k, h_dest = s_remote_port k, h_seqno = s_snd_nxt k, h_ackno = s_rcv_nxt k,
                       h_offset = push_bit 4 5, h_flags = TCP_ACK, h_wnd = s_rcv_wnd k, h_chksum = 0, h_urgp = 0\<rparr>
                      (s_local_ip k) (s_remote_ip k) None
                      (upd_sock s (\<lambda>k. k\<lparr>s_flags := s_flags k AND NOT (TF_ACK_DELAY OR TF_ACK_NOW)\<rparr>) t)
               else map_option (Pair True) (output_loop s wnd (s_unsent k) t)))"

definition tcp_rst :: "u32 \<Rightarrow> u32 \<Rightarrow> ipaddr \<Rightarrow> ipaddr \<Rightarrow> u16 \<Rightarrow> u16 \<Rightarrow> tcp_t \<Rightarrow> tcp_t option" where
  "tcp_rst seqno ackno local_ip remote_ip local_port remote_port t =
     map_option snd (tcp_send_empty
       \<lparr>h_src = local_port, h_dest = remote_port, h_seqno = seqno, h_ackno = ackno, h_offset = push_bit 4 5,
        h_flags = TCP_RST OR TCP_ACK, h_wnd = TCP_WND, h_chksum = 0, h_urgp = 0\<rparr>
       local_ip remote_ip (Some Tcp_out_datagrams) t)"

definition tcp_rexmit :: "nat \<Rightarrow> tcp_t \<Rightarrow> tcp_t option" where
  "tcp_rexmit s t =
     (if s_unacked (tsock t s) = [] then Some t
      else map_option snd (tcp_output s
        (upd_sock s (\<lambda>k. k\<lparr>s_unsent := s_unacked k @ s_unsent k, s_unacked := [],
           s_snd_nxt := h_seqno (seg_hdr (hd (s_unacked k))), s_nrtx := s_nrtx k + 1, s_rttest := 0\<rparr>) t)))"

section \<open>Acknowledgements\<close>

definition tcp_ack_now :: "nat \<Rightarrow> tcp_t \<Rightarrow> tcp_t option" where
  "tcp_ack_now s t =
     map_option snd (tcp_output s (upd_sock s (\<lambda>k. k\<lparr>s_flags := s_flags k OR TF_ACK_NOW\<rparr>) t))"

definition tcp_ack :: "nat \<Rightarrow> tcp_t \<Rightarrow> tcp_t option" where
  "tcp_ack s t =
     (if has (s_flags (tsock t s)) TF_ACK_DELAY
      then tcp_ack_now s (upd_sock s (\<lambda>k. k\<lparr>s_flags := s_flags k AND NOT TF_ACK_DELAY\<rparr>) t)
      else Some (upd_sock s (\<lambda>k. k\<lparr>s_flags := s_flags k OR TF_ACK_DELAY\<rparr>) t))"

definition tcp_socket_remove :: "socklist \<Rightarrow> nat \<Rightarrow> tcp_t \<Rightarrow> tcp_t option" where
  "tcp_socket_remove w s t = do {
     let t = tcp_socket_purge s (tcp_list_remove w s t);
     let k = tsock t s;
     t \<leftarrow> (if s_state k \<noteq> TIME_WAIT \<and> s_state k \<noteq> LISTEN \<and> has (s_flags k) TF_ACK_DELAY
          then map_option snd (tcp_output s (upd_sock s (\<lambda>k. k\<lparr>s_flags := s_flags k OR TF_ACK_NOW\<rparr>) t))
          else Some t);
     Some (tcp_set_socket_state s CLOSED t)
   }"

end
