(* ===== verification/Tcp_Timer.thy ===== *)
theory Tcp_Timer
  imports Tcp_Out
begin

text \<open>
  The timers of TCP (\<open>net/tcp.c\<close>). The loop of \<open>tcp_slowtmr\<close> reads the link of a socket after it may
  have moved the socket to the list of closing sockets, and then goes on along that list; the
  definition does the same, by \<open>partial_function\<close>, since nothing in the code makes that end. \<open>int\<close> is
  wide enough for the retransmission time-out to be computed without wrapping.
\<close>

section \<open>Delayed acknowledgements\<close>

definition fast_socket :: "nat \<Rightarrow> tcp_t \<Rightarrow> tcp_t option" where
  "fast_socket s t =
     (if has (s_flags (tsock t s)) TF_ACK_DELAY
      then map_option (upd_sock s (\<lambda>k. k\<lparr>s_flags := s_flags k AND NOT (TF_ACK_DELAY OR TF_ACK_NOW)\<rparr>)) (tcp_ack_now s t)
      else Some t)"

fun fast_loop :: "nat list \<Rightarrow> tcp_t \<Rightarrow> tcp_t option" where
  "fast_loop [] t = Some t"
| "fast_loop (s # ss) t = do { t \<leftarrow> fast_socket s t; fast_loop ss t }"

definition tcp_fasttmr :: "tcp_t \<Rightarrow> tcp_t option" where
  "tcp_fasttmr t = fast_loop (tcp_sockets t) t"

section \<open>Retransmission\<close>

abbreviation (input) TCP_SYNMAXRTX :: u8 where "TCP_SYNMAXRTX \<equiv> 6"
abbreviation (input) TCP_MAXRTX :: u8 where "TCP_MAXRTX \<equiv> 12"

text \<open>The table; a read past its end has no result.\<close>

definition tcp_backoff :: "u8 \<Rightarrow> nat option" where
  "tcp_backoff n = (if n < 13 then Some ([1, 2, 3, 4, 5, 6, 7, 7, 7, 7, 7, 7, 7] ! unat n) else None)"

text \<open>\<open>(sa >> 3) + sv\<close>.\<close>

definition rto_base :: "tcp_socket_t \<Rightarrow> int" where
  "rto_base k = sint (s_sa k) div 8 + sint (s_sv k)"

definition slow_rto :: "tcp_socket_t \<Rightarrow> tcp_socket_t option" where
  "slow_rto k =
     (if s_state k \<noteq> SYN_SENT
      then map_option (\<lambda>n. k\<lparr>s_rto := word_of_int (rto_base k * 2 ^ n)\<rparr>) (tcp_backoff (s_nrtx k))
      else Some k)"

definition slow_cwnd :: "tcp_socket_t \<Rightarrow> tcp_socket_t" where
  "slow_cwnd k =
     (let eff_wnd = (if ucast (s_cwnd k) < s_snd_wnd k then ucast (s_cwnd k) else s_snd_wnd k);
          ssthresh = ucast (drop_bit 1 eff_wnd)
      in k\<lparr>s_ssthresh := (if ssthresh < s_mss k then s_mss k * 2 else ssthresh), s_cwnd := s_mss k\<rparr>)"

text \<open>The first part of the round of a socket: is it given up?\<close>

definition slow_retransmit :: "nat \<Rightarrow> tcp_t \<Rightarrow> (bool \<times> tcp_t) option" where
  "slow_retransmit s t =
     (let k = tsock t s
      in if s_state k = SYN_SENT \<and> s_nrtx k = TCP_SYNMAXRTX then Some (True, t)
         else if s_nrtx k = TCP_MAXRTX then Some (True, t)
         else let k = k\<lparr>s_rtime := s_rtime k + 1\<rparr>
              in if s_unacked k \<noteq> [] \<and> s_rtime k \<ge> s_rto k then do {
                   k \<leftarrow> slow_rto k;
                   t \<leftarrow> tcp_rexmit s (upd_sock s (\<lambda>_. k) t);
                   Some (False, upd_sock s slow_cwnd t)
                 }
                 else Some (False, upd_sock s (\<lambda>_. k) t))"

section \<open>The slow timer\<close>

definition stuck :: "nat \<Rightarrow> tcp_t \<Rightarrow> bool" where
  "stuck s t \<longleftrightarrow> tcp_ticks t - s_tmr (tsock t s) > 5000 div 500"

definition expired :: "nat \<Rightarrow> tcp_t \<Rightarrow> bool" where
  "expired s t \<longleftrightarrow> tcp_ticks t - s_tmr (tsock t s) > 2 * 60000 div 500"

text \<open>A socket that waits too long for the end of the connection moves to the other list. The result
  says whether it is given up, and what its link leads to now.\<close>

definition slow_stuck :: "nat \<Rightarrow> nat list \<Rightarrow> tcp_t \<Rightarrow> bool \<times> nat list \<times> tcp_t" where
  "slow_stuck s next t =
     (if \<not> stuck s t then (False, next, t)
      else if s_state (tsock t s) = SYN_RCVD then (True, next, t)
      else if s_state (tsock t s) = FIN_WAIT_1 \<or> s_state (tsock t s) = FIN_WAIT_2 \<or> s_state (tsock t s) = CLOSING
      then (False, tcp_closing_sockets t,
            tcp_list_add Closing s (tcp_set_socket_state s TIME_WAIT (tcp_list_remove Active s t)))
      else (False, next, t))"

text \<open>Take a socket out: its predecessor in the walk gets its link.\<close>

definition slow_unlink :: "socklist \<Rightarrow> nat \<Rightarrow> nat option \<Rightarrow> nat list \<Rightarrow> tcp_t \<Rightarrow> tcp_t option" where
  "slow_unlink w s prev next t =
     (case prev of
        Some p \<Rightarrow> do { assert_c (get_list w t = [] \<or> hd (get_list w t) \<noteq> s); Some (set_next p next t) }
      | None \<Rightarrow> do { assert_c (get_list w t \<noteq> [] \<and> hd (get_list w t) = s); Some (set_list w next t) })"

partial_function (option) slow_active :: "nat option \<Rightarrow> nat list \<Rightarrow> tcp_t \<Rightarrow> tcp_t option" where
  "slow_active prev ss t =
     (case ss of
        [] \<Rightarrow> Some t
      | s # next \<Rightarrow> do {
          assert_c (s_state (tsock t s) \<noteq> CLOSED);
          assert_c (s_state (tsock t s) \<noteq> LISTEN);
          assert_c (s_state (tsock t s) \<noteq> TIME_WAIT);
          r \<leftarrow> slow_retransmit s t;
          let q = slow_stuck s next (snd r);
          if fst r \<or> fst q then do {
            t \<leftarrow> slow_unlink Active s prev (fst (snd q)) (tcp_set_socket_state s CLOSED (tcp_socket_purge s (snd (snd q))));
            slow_active prev (fst (snd q)) t
          }
          else slow_active (Some s) (fst (snd q)) (snd (snd q))
        })"

fun slow_closing :: "nat option \<Rightarrow> nat list \<Rightarrow> tcp_t \<Rightarrow> tcp_t option" where
  "slow_closing prev [] t = Some t"
| "slow_closing prev (s # next) t = do {
     assert_c (s_state (tsock t s) = TIME_WAIT);
     if expired s t then do {
       t \<leftarrow> slow_unlink Closing s prev next (tcp_socket_purge s t);
       slow_closing prev next t
     }
     else slow_closing (Some s) next t
   }"

definition tcp_slowtmr :: "tcp_t \<Rightarrow> tcp_t option" where
  "tcp_slowtmr t = do {
     let t = t\<lparr>tcp_ticks := tcp_ticks t + 1\<rparr>;
     t \<leftarrow> slow_active None (tcp_sockets t) t;
     slow_closing None (tcp_closing_sockets t) t
   }"

end
