(* ===== verification/Tcp_In.thy ===== *)
theory Tcp_In
  imports Tcp_Timer
begin

text \<open>
  TCP input (\<open>net/tcp-in.c\<close>). A segment that comes in is its packet, whose payload is the data, the
  length of the data, and the header. The packet \<open>[]\<close> is one that was passed on. The code that follows the header in
  memory, where the options are, is a list of bytes. \<open>int\<close> is wide enough for the estimation of the round-trip time to be
  computed without wrapping.
\<close>

section \<open>Acknowledgements\<close>

definition recv_window :: "u32 \<Rightarrow> u32 \<Rightarrow> u16 \<Rightarrow> tcp_socket_t \<Rightarrow> tcp_socket_t" where
  "recv_window seqno ackno wnd k =
     (if seq_lt (s_snd_wl1 k) seqno \<or> s_snd_wl1 k = seqno \<and> seq_lt (s_snd_wl2 k) ackno
         \<or> s_snd_wl2 k = ackno \<and> ucast wnd > s_snd_wnd k
      then k\<lparr>s_snd_wnd := ucast wnd, s_snd_wl1 := seqno, s_snd_wl2 := ackno\<rparr> else k)"

text \<open>The same acknowledgement again; the third one starts the fast retransmission.\<close>

definition fast_rexmit_cwnd :: "tcp_socket_t \<Rightarrow> tcp_socket_t" where
  "fast_rexmit_cwnd k =
     (let ssthresh = ucast ((s_snd_max k - s_lastack k) div 2);
          ssthresh = (if unat ssthresh < 2 * unat (s_mss k) then 2 * s_mss k else ssthresh)
      in k\<lparr>s_ssthresh := ssthresh, s_cwnd := ssthresh + 3 * s_mss k, s_flags := s_flags k OR TF_INFR\<rparr>)"

definition recv_dupack :: "nat \<Rightarrow> u32 \<Rightarrow> tcp_t \<Rightarrow> tcp_t option" where
  "recv_dupack s right_wnd_edge t =
     (let k = (tsock t s)\<lparr>s_acked := 0\<rparr>
      in if s_snd_wl1 k + s_snd_wnd k \<noteq> right_wnd_edge then Some (upd_sock s (\<lambda>_. k) t)
         else let k = k\<lparr>s_dupacks := s_dupacks k + 1\<rparr>
              in if s_dupacks k \<ge> 3 \<and> s_unacked k \<noteq> [] then
                   (if \<not> has (s_flags k) TF_INFR
                    then map_option (upd_sock s fast_rexmit_cwnd) (tcp_rexmit s (upd_sock s (\<lambda>_. k) t))
                    else if s_cwnd k + s_mss k > s_cwnd k
                    then Some (upd_sock s (\<lambda>_. k\<lparr>s_cwnd := s_cwnd k + s_mss k\<rparr>) t)
                    else Some (upd_sock s (\<lambda>_. k) t))
                 else Some (upd_sock s (\<lambda>_. k) t))"

text \<open>Segments that are acknowledged are released.\<close>

fun free_unacked :: "u32 \<Rightarrow> tcp_segment_t list \<Rightarrow> tcp_socket_t \<Rightarrow> tcp_socket_t option" where
  "free_unacked ackno [] k = Some k"
| "free_unacked ackno (g # gs) k =
     (if seq_leq (h_seqno (seg_hdr g) + tcp_tcplen g) ackno then do {
        let k = k\<lparr>s_unacked := gs, s_snd_queuelen := s_snd_queuelen k - buf_chain_len (seg_p g)\<rparr>;
        assert_c (queued_ok k);
        free_unacked ackno gs (k\<lparr>s_signal := True\<rparr>)
      }
      else Some k)"

fun free_unsent :: "u32 \<Rightarrow> tcp_segment_t list \<Rightarrow> tcp_socket_t \<Rightarrow> tcp_socket_t option" where
  "free_unsent ackno [] k = Some k"
| "free_unsent ackno (g # gs) k =
     (if seq_leq (h_seqno (seg_hdr g) + tcp_tcplen g) ackno \<and> seq_leq ackno (s_snd_max k) then do {
        let k = k\<lparr>s_unsent := gs, s_snd_queuelen := s_snd_queuelen k - buf_chain_len (seg_p g)\<rparr>;
        assert_c (queued_ok k);
        let k = (if gs \<noteq> [] then k\<lparr>s_snd_nxt := h_seqno (seg_hdr (hd gs))\<rparr> else k);
        free_unsent ackno gs (k\<lparr>s_signal := True\<rparr>)
      }
      else Some k)"

definition recv_cwnd :: "tcp_socket_t \<Rightarrow> tcp_socket_t" where
  "recv_cwnd k =
     (if s_state k \<ge> ESTABLISHED
      then let new_cwnd = (if s_cwnd k < s_ssthresh k then s_cwnd k + s_cwnd k else s_cwnd k + s_mss k)
           in if new_cwnd > s_cwnd k then k\<lparr>s_cwnd := new_cwnd\<rparr> else k
      else k)"

definition recv_new_ack :: "u32 \<Rightarrow> tcp_socket_t \<Rightarrow> tcp_socket_t option" where
  "recv_new_ack ackno k =
     (let k = (if has (s_flags k) TF_INFR then k\<lparr>s_flags := s_flags k AND NOT TF_INFR, s_cwnd := s_ssthresh k\<rparr> else k);
          k = k\<lparr>s_nrtx := 0, s_rto := word_of_int (rto_base k), s_acked := ucast (ackno - s_lastack k)\<rparr>;
          k = (if s_acked k > 0 then k\<lparr>s_snd_buf := s_snd_buf k + s_acked k, s_signal := True\<rparr> else k);
          k = recv_cwnd (k\<lparr>s_dupacks := 0, s_lastack := ackno\<rparr>)
      in free_unacked ackno (s_unacked k) k)"

text \<open>The estimation of the round-trip time.\<close>

definition recv_rtt :: "u32 \<Rightarrow> u32 \<Rightarrow> tcp_socket_t \<Rightarrow> tcp_socket_t" where
  "recv_rtt ticks ackno k =
     (if s_rttest k \<noteq> 0 \<and> seq_lt (s_rtseq k) ackno
      then let m = sint (ticks - ucast (s_rttest k)) - sint (s_sa k) div 8;
               k = k\<lparr>s_sa := s_sa k + word_of_int m\<rparr>;
               m = \<bar>m\<bar> - sint (s_sv k) div 4;
               k = k\<lparr>s_sv := s_sv k + word_of_int m\<rparr>
           in k\<lparr>s_rto := word_of_int (rto_base k), s_rttest := 0\<rparr>
      else k)"

definition recv_ack :: "nat \<Rightarrow> tcp_hdr_t \<Rightarrow> tcp_t \<Rightarrow> tcp_t option" where
  "recv_ack s h t =
     (let ackno = tcp_input_ackno t;
          right_wnd_edge = s_snd_wnd (tsock t s) + s_snd_wl1 (tsock t s);
          k = recv_window (tcp_input_seqno t) ackno (h_wnd h) (tsock t s);
          t = upd_sock s (\<lambda>_. k) t
      in do {
        t \<leftarrow> (if s_lastack k = ackno then recv_dupack s right_wnd_edge t
             else if seq_lt (s_lastack k) ackno \<and> seq_leq ackno (s_snd_max k)
             then map_option (\<lambda>k. upd_sock s (\<lambda>_. k) t) (recv_new_ack ackno k)
             else Some t);
        k \<leftarrow> free_unsent ackno (s_unsent (tsock t s)) (tsock t s);
        Some (upd_sock s (\<lambda>_. recv_rtt (tcp_ticks t) ackno k) t)
      })"

section \<open>Data\<close>

text \<open>The data that came before are cut off: the whole buffers, then the start of the next one. Only the
  total length of the first buffer counts down, by the length of the buffers that are cut off.\<close>

fun trim_chain :: "int \<Rightarrow> packet \<Rightarrow> (u16 \<times> packet) option" where
  "trim_chain off [] = None"
| "trim_chain off (b # bs) =
     (if int (unat (b_len b)) < off then do {
        (d, q) \<leftarrow> trim_chain (off - int (unat (b_len b))) bs;
        Some (b_len b + d, b\<lparr>b_len := 0\<rparr> # q)
      }
      else Some (0, snd (buf_add_header (b # bs) (- off))))"

definition recv_trim :: "u32 \<Rightarrow> u32 \<Rightarrow> tcp_segment_t \<Rightarrow> tcp_segment_t option" where
  "recv_trim rcv_nxt seqno g = do {
     (d, p) \<leftarrow> trim_chain (sint (rcv_nxt - seqno)) (seg_p g);
     Some (g\<lparr>seg_p := (hd p)\<lparr>b_tot := b_tot (hd p) - d\<rparr> # tl p, seg_len := seg_len g - ucast (rcv_nxt - seqno),
             seg_hdr := (seg_hdr g)\<lparr>h_seqno := rcv_nxt\<rparr>\<rparr>)
   }"

definition count_in_error :: "tcp_t \<Rightarrow> tcp_t" where
  "count_in_error t = upd_net (count Tcp_in_errors) t"

text \<open>Pass the packet on, if it has data. The flag \<open>FIN\<close> puts an empty packet into the queue.\<close>

definition deliver_data :: "nat \<Rightarrow> tcp_segment_t \<Rightarrow> tcp_t \<Rightarrow> (tcp_segment_t \<times> tcp_t) option" where
  "deliver_data s g t = do {
     assert_c (seg_p g \<noteq> []);
     if b_tot (hd (seg_p g)) > 0 then
        (if tcp_queue_is_full (tsock t s) then Some (g, count_in_error t)
         else map_option (\<lambda>k. (g\<lparr>seg_p := []\<rparr>, sock_signal s (upd_sock s (\<lambda>_. k) t)))
                (tcp_queue_put (seg_p g) (tsock t s)))
     else Some (g, t)
   }"

definition deliver_fin :: "nat \<Rightarrow> tcp_segment_t \<Rightarrow> tcp_t \<Rightarrow> tcp_t option" where
  "deliver_fin s g t =
     (if has (h_flags (seg_hdr g)) TCP_FIN then
        (if tcp_queue_is_full (tsock t s) then Some (count_in_error t)
         else case buf_alloc 0 0 (pool (tnet t)) of
                ([], m) \<Rightarrow> Some (count_in_error (upd_net (\<lambda>n. n\<lparr>pool := m\<rparr>) t))
              | (p, m) \<Rightarrow>
                  map_option (\<lambda>k. sock_signal s (upd_sock s (\<lambda>_. k) (upd_net (\<lambda>n. n\<lparr>pool := m\<rparr>) t)))
                    (tcp_queue_put p (tsock t s)))
      else Some t)"

definition recv_deliver :: "nat \<Rightarrow> tcp_segment_t \<Rightarrow> tcp_t \<Rightarrow> (tcp_segment_t \<times> tcp_t) option" where
  "recv_deliver s g t =
     (let len = ucast (tcp_tcplen g);
          t = upd_sock s (\<lambda>k. k\<lparr>s_rcv_nxt := s_rcv_nxt k + ucast len,
                s_rcv_wnd := (if s_rcv_wnd k < len then 0 else s_rcv_wnd k - len)\<rparr>) (t\<lparr>tcp_input_len := len\<rparr>)
      in do {
        (g, t) \<leftarrow> deliver_data s g t;
        t \<leftarrow> deliver_fin s g t;
        t \<leftarrow> tcp_ack s t;
        Some (g, t)
      })"

definition recv_data :: "nat \<Rightarrow> tcp_segment_t \<Rightarrow> tcp_t \<Rightarrow> (tcp_segment_t \<times> tcp_t) option" where
  "recv_data s g t =
     (let rcv_nxt = s_rcv_nxt (tsock t s); seqno = tcp_input_seqno t
      in do {
        (g, t) \<leftarrow>
          (if seq_lt seqno rcv_nxt then
             (if seq_lt rcv_nxt (seqno + ucast (tcp_input_len t))
              then map_option (\<lambda>g. (g, t\<lparr>tcp_input_seqno := rcv_nxt\<rparr>)) (recv_trim rcv_nxt seqno g)
              else map_option (Pair g) (tcp_ack_now s t))
           else Some (g, t));
        let k = tsock t s;
        if seq_geq (tcp_input_seqno t) (s_rcv_nxt k) \<and> seq_lt (tcp_input_seqno t) (s_rcv_nxt k + ucast (s_rcv_wnd k))
        then (if s_rcv_nxt k = tcp_input_seqno t then recv_deliver s g t else map_option (Pair g) (tcp_ack_now s t))
        else Some (g, t)
      })"

definition tcp_receive :: "nat \<Rightarrow> tcp_segment_t \<Rightarrow> tcp_t \<Rightarrow> (tcp_segment_t \<times> tcp_t) option" where
  "tcp_receive s g t = do {
     t \<leftarrow> (if has (tcp_input_flags t) TCP_ACK then recv_ack s (seg_hdr g) t else Some t);
     let k = tsock t s;
     if tcp_input_len t = 0 then
       (if seq_gt (s_rcv_nxt k) (tcp_input_seqno t)
           \<or> seq_geq (tcp_input_seqno t) (s_rcv_nxt k + ucast (s_rcv_wnd k))
        then map_option (Pair g) (tcp_ack_now s t) else Some (g, t))
     else recv_data s g t
   }"

section \<open>Options\<close>

definition opt_get :: "u8 list \<Rightarrow> nat \<Rightarrow> u8 option" where
  "opt_get opts i = (if i < length opts then Some (opts ! i) else None)"

text \<open>The index is an unsigned char, and an option can turn it back: the loop need not end.\<close>

partial_function (option) parseopt_loop :: "u8 list \<Rightarrow> nat \<Rightarrow> u8 \<Rightarrow> u16 \<Rightarrow> u16 option" where
  "parseopt_loop opts n c mss =
     (if unat c < n then do {
        opt \<leftarrow> opt_get opts (unat c);
        if opt = 0 then Some mss
        else if opt = 1 then parseopt_loop opts n (c + 1) mss
        else do {
          len \<leftarrow> opt_get opts (unat c + 1);
          if opt = 2 \<and> len = 4 then do {
            h \<leftarrow> opt_get opts (unat c + 2);
            l \<leftarrow> opt_get opts (unat c + 3);
            let v = be_short h l;
            Some (if v > TCP_MSS then TCP_MSS else v)
          }
          else if len = 0 then Some mss
          else parseopt_loop opts n (c + len) mss
        }
      }
      else Some mss)"

definition tcp_parseopt :: "u8 \<Rightarrow> u8 list \<Rightarrow> tcp_socket_t \<Rightarrow> tcp_socket_t option" where
  "tcp_parseopt offset opts k =
     (if offset AND 0xf0 > 0x50
      then map_option (\<lambda>mss. k\<lparr>s_mss := mss\<rparr>) (parseopt_loop opts ((unat (drop_bit 4 offset) - 5) * 4) 0 (s_mss k))
      else Some k)"

section \<open>The state machine\<close>

definition reset_acceptable :: "u32 \<Rightarrow> u32 \<Rightarrow> tcp_socket_t \<Rightarrow> bool" where
  "reset_acceptable seqno ackno k =
     (if s_state k = SYN_SENT then ackno = s_snd_nxt k
      else seq_geq seqno (s_rcv_nxt k) \<and> seq_leq seqno (s_rcv_nxt k + ucast (s_rcv_wnd k)))"

text \<open>The answer to a \<open>SYN\<close>; the queue of unacknowledged segments must not be empty.\<close>

definition process_syn_sent :: "nat \<Rightarrow> tcp_hdr_t \<Rightarrow> u8 list \<Rightarrow> tcp_t \<Rightarrow> tcp_t option" where
  "process_syn_sent s h opts t =
     (let k = tsock t s
      in if has (tcp_input_flags t) (TCP_ACK OR TCP_SYN) then do {
           assert_c (s_unacked k \<noteq> []);
           if tcp_input_ackno t = h_seqno (seg_hdr (hd (s_unacked k))) + 1 then do {
             k \<leftarrow> tcp_parseopt (h_offset h) opts
               (k\<lparr>s_rcv_nxt := tcp_input_seqno t + 1, s_lastack := tcp_input_ackno t, s_snd_wnd := ucast (h_wnd h),
                  s_snd_wl1 := ucast (h_wnd h), s_cwnd := s_mss k, s_snd_queuelen := s_snd_queuelen k - 1,
                  s_unacked := tl (s_unacked k)\<rparr>);
             t \<leftarrow> tcp_ack s (tcp_set_socket_state s ESTABLISHED (upd_sock s (\<lambda>_. k) t));
             Some (sock_signal s t)
           }
           else Some t
         }
         else Some t)"

definition close_time_wait :: "nat \<Rightarrow> tcp_t \<Rightarrow> tcp_t option" where
  "close_time_wait s t = do {
     t \<leftarrow> tcp_ack_now s t;
     Some (tcp_list_add Closing s (tcp_set_socket_state s TIME_WAIT (tcp_list_remove Active s t)))
   }"

text \<open>The acknowledgement of everything that was sent.\<close>

definition acks_all :: "nat \<Rightarrow> tcp_t \<Rightarrow> bool" where
  "acks_all s t \<longleftrightarrow> has (tcp_input_flags t) TCP_ACK \<and> tcp_input_ackno t = s_snd_nxt (tsock t s)"

definition process_syn_rcvd :: "nat \<Rightarrow> tcp_segment_t \<Rightarrow> tcp_t \<Rightarrow> (tcp_segment_t \<times> tcp_t) option" where
  "process_syn_rcvd s g t =
     (let k = tsock t s
      in if has (tcp_input_flags t) TCP_ACK \<and> \<not> has (tcp_input_flags t) TCP_RST
            \<and> seq_lt (s_lastack k) (tcp_input_ackno t) \<and> seq_leq (tcp_input_ackno t) (s_snd_nxt k) then do {
           (g, t) \<leftarrow> tcp_receive s g (tcp_set_socket_state s ESTABLISHED t);
           Some (g, upd_sock s (\<lambda>k. k\<lparr>s_cwnd := s_mss k\<rparr>) t)
         }
         else Some (g, t))"

definition process_fin_wait_1 :: "nat \<Rightarrow> tcp_t \<Rightarrow> tcp_t option" where
  "process_fin_wait_1 s t =
     (if has (tcp_input_flags t) TCP_FIN then
        (if acks_all s t then close_time_wait s t
         else map_option (tcp_set_socket_state s CLOSING) (tcp_ack_now s t))
      else if acks_all s t \<and> s_unsent (tsock t s) = [] then Some (tcp_set_socket_state s FIN_WAIT_2 t)
      else Some t)"

text \<open>The states in which a segment is first received, and what follows.\<close>

definition process_received :: "tcp_state_t \<Rightarrow> nat \<Rightarrow> tcp_t \<Rightarrow> tcp_t option" where
  "process_received st s t =
     (case st of
        FIN_WAIT_1 \<Rightarrow> process_fin_wait_1 s t
      | FIN_WAIT_2 \<Rightarrow> if has (tcp_input_flags t) TCP_FIN then close_time_wait s t else Some t
      | CLOSING \<Rightarrow> if acks_all s t then close_time_wait s t else Some t
      | LAST_ACK \<Rightarrow> if acks_all s t then tcp_socket_remove Active s t else Some t
      | _ \<Rightarrow> if has (tcp_input_flags t) TCP_FIN
             then map_option (tcp_set_socket_state s CLOSE_WAIT) (tcp_ack_now s t) else Some t)"

definition tcp_process :: "nat \<Rightarrow> tcp_segment_t \<Rightarrow> u8 list \<Rightarrow> tcp_t \<Rightarrow> (tcp_segment_t \<times> tcp_t) option" where
  "tcp_process s g opts t =
     (let k = tsock t s
      in if has (tcp_input_flags t) TCP_RST then
           (if \<not> reset_acceptable (tcp_input_seqno t) (tcp_input_ackno t) k then Some (g, t)
            else do {
              assert_c (s_state k \<noteq> CLOSED);
              t \<leftarrow> tcp_socket_remove Active s t;
              Some (g, upd_sock s (\<lambda>k. k\<lparr>s_flags := s_flags k AND NOT TF_ACK_DELAY\<rparr>) t)
            })
         else
           (let t = upd_sock s (\<lambda>k. k\<lparr>s_tmr := tcp_ticks t\<rparr>) t
            in case s_state k of
                 SYN_SENT \<Rightarrow> map_option (Pair g) (process_syn_sent s (seg_hdr g) opts t)
               | SYN_RCVD \<Rightarrow> process_syn_rcvd s g t
               | CLOSED \<Rightarrow> Some (g, t)
               | LISTEN \<Rightarrow> Some (g, t)
               | TIME_WAIT \<Rightarrow> Some (g, t)
               | st \<Rightarrow> do {
                   (g, t) \<leftarrow> tcp_receive s g t;
                   t \<leftarrow> process_received st s t;
                   Some (g, t)
                 }))"

section \<open>Finding the socket\<close>

definition tcp_match :: "tcp_socket_t \<Rightarrow> tcp_hdr_t \<Rightarrow> ipaddr \<Rightarrow> ipaddr \<Rightarrow> bool" where
  "tcp_match k h src dest \<longleftrightarrow>
     \<not> (s_local_port k \<noteq> h_dest h \<or> s_remote_port k \<noteq> h_src h \<or> s_remote_ip k \<noteq> src \<or> s_local_ip k \<noteq> dest)"

definition listen_match :: "tcp_socket_t \<Rightarrow> tcp_hdr_t \<Rightarrow> ipaddr \<Rightarrow> bool" where
  "listen_match k h dest \<longleftrightarrow> \<not> (s_local_port k \<noteq> h_dest h \<or> s_local_ip k \<noteq> zero_ip \<and> s_local_ip k \<noteq> dest)"

fun find_checked :: "(tcp_state_t \<Rightarrow> bool) \<Rightarrow> (tcp_socket_t \<Rightarrow> bool) \<Rightarrow> (nat \<Rightarrow> tcp_socket_t) \<Rightarrow> nat list \<Rightarrow> nat option option" where
  "find_checked ok P sock [] = Some None"
| "find_checked ok P sock (s # ss) = do {
     assert_c (ok (s_state (sock s)));
     if P (sock s) then Some (Some s) else find_checked ok P sock ss
   }"

text \<open>The socket that is found moves to the front of the list.\<close>

definition find_active_socket :: "tcp_hdr_t \<Rightarrow> ipaddr \<Rightarrow> ipaddr \<Rightarrow> tcp_t \<Rightarrow> (nat option \<times> tcp_t) option" where
  "find_active_socket h src dest t = do {
     r \<leftarrow> find_checked (\<lambda>st. st \<noteq> CLOSED \<and> st \<noteq> TIME_WAIT \<and> st \<noteq> LISTEN) (\<lambda>k. tcp_match k h src dest) (tsock t) (tcp_sockets t);
     case r of None \<Rightarrow> Some (None, t) | Some s \<Rightarrow> Some (Some s, t\<lparr>tcp_sockets := s # remove1 s (tcp_sockets t)\<rparr>)
   }"

definition find_closing_socket :: "tcp_hdr_t \<Rightarrow> ipaddr \<Rightarrow> ipaddr \<Rightarrow> tcp_t \<Rightarrow> nat option option" where
  "find_closing_socket h src dest t =
     find_checked (\<lambda>st. st = TIME_WAIT) (\<lambda>k. tcp_match k h src dest) (tsock t) (tcp_closing_sockets t)"

definition find_listen_socket :: "tcp_hdr_t \<Rightarrow> ipaddr \<Rightarrow> tcp_t \<Rightarrow> (nat option \<times> tcp_t) option" where
  "find_listen_socket h dest t = do {
     r \<leftarrow> find_checked (\<lambda>st. True) (\<lambda>k. listen_match k h dest) (tsock t) (tcp_listen_sockets t);
     case r of None \<Rightarrow> Some (None, t)
     | Some s \<Rightarrow> Some (Some s, t\<lparr>tcp_listen_sockets := s # remove1 s (tcp_listen_sockets t)\<rparr>)
   }"

section \<open>Input\<close>

text \<open>The header as it comes, and as it is left in memory: the fields that the code converts are in the
  order of the processor.\<close>

definition be_long :: "u8 \<Rightarrow> u8 \<Rightarrow> u8 \<Rightarrow> u8 \<Rightarrow> u32" where
  "be_long a b c d = push_bit 16 (ucast (be_short a b)) OR ucast (be_short c d)"

definition put_long :: "u32 \<Rightarrow> u8 list" where
  "put_long x = put_short (ucast x) @ put_short (ucast (drop_bit 16 x))"

definition get_long :: "nat \<Rightarrow> u8 list \<Rightarrow> u32" where
  "get_long i x = ucast (get_short i x) OR push_bit 16 (ucast (get_short (i + 2) x))"

definition hdr_decode :: "u8 list \<Rightarrow> tcp_hdr_t" where
  "hdr_decode x =
     \<lparr>h_src = be_short (x ! 0) (x ! 1), h_dest = be_short (x ! 2) (x ! 3), h_seqno = be_long (x ! 4) (x ! 5) (x ! 6) (x ! 7),
      h_ackno = be_long (x ! 8) (x ! 9) (x ! 10) (x ! 11), h_offset = x ! 12, h_flags = x ! 13,
      h_wnd = be_short (x ! 14) (x ! 15), h_chksum = get_short 16 x, h_urgp = get_short 18 x\<rparr>"

definition hdr_host :: "tcp_hdr_t \<Rightarrow> u8 list" where
  "hdr_host h = put_short (h_src h) @ put_short (h_dest h) @ put_long (h_seqno h) @ put_long (h_ackno h)
     @ [h_offset h, h_flags h] @ put_short (h_wnd h) @ put_short (h_chksum h) @ put_short (h_urgp h)"

definition hdr_of_host :: "u8 list \<Rightarrow> tcp_hdr_t" where
  "hdr_of_host x =
     \<lparr>h_src = get_short 0 x, h_dest = get_short 2 x, h_seqno = get_long 4 x, h_ackno = get_long 8 x,
      h_offset = x ! 12, h_flags = x ! 13, h_wnd = get_short 14 x, h_chksum = get_short 16 x, h_urgp = get_short 18 x\<rparr>"

definition input_active :: "nat \<Rightarrow> packet \<Rightarrow> tcp_hdr_t \<Rightarrow> u8 list \<Rightarrow> tcp_t \<Rightarrow> tcp_t option" where
  "input_active s p h opts t = do {
     (g, t) \<leftarrow> tcp_process s \<lparr>seg_p = p, seg_len = b_tot (hd p), seg_hdr = h\<rparr> opts (t\<lparr>tcp_input_socket := s\<rparr>);
     let t = t\<lparr>tcp_input_socket := 0\<rparr>;
     if s_unsent (tsock t s) \<noteq> [] \<or> has (s_flags (tsock t s)) TF_ACK_NOW then map_option snd (tcp_output s t)
     else Some t
   }"

definition input_closing :: "nat \<Rightarrow> tcp_t \<Rightarrow> tcp_t option" where
  "input_closing s t =
     (let next = tcp_input_seqno t + ucast (tcp_input_len t);
          t = (if seq_gt next (s_rcv_nxt (tsock t s)) then upd_sock s (\<lambda>k. k\<lparr>s_rcv_nxt := next\<rparr>) t else t)
      in do {
        t \<leftarrow> (if tcp_input_len t > 0 then tcp_ack_now s t else Some t);
        map_option snd (tcp_output s t)
      })"

text \<open>The payload goes back to the header; the lengths of the packet stay those of the data.\<close>

definition input_listen :: "nat \<Rightarrow> packet \<Rightarrow> nat \<Rightarrow> tcp_hdr_t \<Rightarrow> ipaddr \<Rightarrow> ipaddr \<Rightarrow> tcp_t \<Rightarrow> tcp_t option" where
  "input_listen s p off h src dest t =
     (if has (tcp_input_flags t) TCP_ACK then
        tcp_rst (tcp_input_ackno t + 1) (tcp_input_seqno t + ucast (tcp_input_len t)) dest src (h_dest h) (h_src h) t
      else if \<not> has (tcp_input_flags t) TCP_SYN then Some t
      else if tcp_queue_is_full (tsock t s) then Some (count_in_error t)
      else map_option (\<lambda>k. sock_signal s (upd_sock s (\<lambda>_. k) t))
             (tcp_queue_put ((hd p)\<lparr>b_off := off\<rparr> # tl p) (tsock t s)))"

definition tcp_demux :: "packet \<Rightarrow> nat \<Rightarrow> tcp_hdr_t \<Rightarrow> u8 list \<Rightarrow> ipaddr \<Rightarrow> ipaddr \<Rightarrow> tcp_t \<Rightarrow> tcp_t option" where
  "tcp_demux p off h opts src dest t = do {
     (r, t) \<leftarrow> find_active_socket h src dest t;
     case r of Some s \<Rightarrow> input_active s p h opts t
     | None \<Rightarrow> do {
         r \<leftarrow> find_closing_socket h src dest t;
         case r of Some s \<Rightarrow> input_closing s t
         | None \<Rightarrow> do {
             (r, t) \<leftarrow> find_listen_socket h dest t;
             case r of Some s \<Rightarrow> input_listen s p off h src dest t
             | None \<Rightarrow>
                 if \<not> has (h_flags h) TCP_RST
                 then tcp_rst (tcp_input_ackno t) (tcp_input_seqno t + ucast (tcp_input_len t)) dest src (h_dest h) (h_src h) t
                 else Some t
           }
       }
   }"

definition tcp_input :: "packet \<Rightarrow> ipaddr \<Rightarrow> ipaddr \<Rightarrow> tcp_t \<Rightarrow> tcp_t option" where
  "tcp_input p src dest t = do {
     let t = upd_net (count Tcp_in_datagrams) t;
     assert_c (p \<noteq> []);
     if unat (b_tot (hd p)) < TCP_HLEN then Some (count_in_error t)
     else if is_broadcast dest \<or> is_multicast dest then Some t
     else do {
       c \<leftarrow> packet_chksum p (crc16_inet_header src dest IP_PROTO_TCP (b_tot (hd p)));
       if c \<noteq> 0 then Some (count_in_error t)
       else do {
         x \<leftarrow> payload_get (hd p) 0 TCP_HLEN;
         let h = hdr_decode x;
         b \<leftarrow> payload_put 0 (hdr_host h) (hd p);
         let q = snd (buf_add_header (b # tl p) (- int (unat (drop_bit 2 (h_offset h) AND 0x3c))));
         tcp_demux q (b_off b) h (drop (b_off b + TCP_HLEN) (b_area b)) src dest
           (t\<lparr>tcp_input_seqno := h_seqno h, tcp_input_ackno := h_ackno h, tcp_input_flags := h_flags h AND 0x3f,
              tcp_input_len := b_tot (hd q) + (if has (h_flags h AND 0x3f) (TCP_FIN OR TCP_SYN) then 1 else 0)\<rparr>)
       }
     }
   }"

end
