(* ===== verification/Tcp_User.thy ===== *)
theory Tcp_User
  imports Tcp_In
begin

text \<open>
  The calls of TCP (\<open>net/tcp-user.c\<close>). A call that has to wait gives \<open>Waits\<close> with the state it leaves;
  it is run again, or goes on with the function named for it, when the lock of the socket is signalled. A call
  runs with the locks it takes held. Memory that is given back leaves the answers of the
  memory pool as they are.
\<close>

section \<open>Ports\<close>

definition port_used :: "u16 \<Rightarrow> tcp_t \<Rightarrow> bool" where
  "port_used port t \<longleftrightarrow>
     list_ex (\<lambda>s. s_local_port (tsock t s) = port) (tcp_sockets t @ tcp_closing_sockets t @ tcp_listen_sockets t)"

text \<open>The loop does not end if all the ports are in use.\<close>

partial_function (option) tcp_new_port :: "tcp_t \<Rightarrow> (u16 \<times> tcp_t) option" where
  "tcp_new_port t =
     (let port = (if tcp_port t + 1 > 0x7fff then 4096 else tcp_port t + 1); t = t\<lparr>tcp_port := port\<rparr>
      in if port_used port t then tcp_new_port t else Some (port, t))"

section \<open>Connecting\<close>

definition mss_option :: "u16 \<Rightarrow> u8 list" where
  "mss_option mss = [2, 4, ucast (mss div 256), ucast (mss AND 255)]"

text \<open>The result \<open>None\<close> is the null pointer. The code does not test whether there was memory for the socket.\<close>

definition tcp_connect :: "ipaddr option \<Rightarrow> u16 \<Rightarrow> tcp_t \<Rightarrow> (nat option \<times> tcp_t) option" where
  "tcp_connect ipaddr port t =
     (case ipaddr of None \<Rightarrow> Some (None, t)
      | Some a \<Rightarrow>
          (case tcp_alloc t of (None, t) \<Rightarrow> None
           | (Some s, t) \<Rightarrow> do {
               (lport, t) \<leftarrow> (if s_local_port (tsock t s) = 0 then tcp_new_port t else Some (s_local_port (tsock t s), t));
               let t = upd_sock s (\<lambda>k. k\<lparr>s_remote_ip := a, s_remote_port := port, s_local_port := lport,
                     s_lastack := s_snd_nxt k - 1, s_snd_lbb := s_snd_nxt k - 1, s_snd_wnd := ucast TCP_WND,
                     s_ssthresh := s_mss k * 10, s_state := SYN_SENT\<rparr>) t;
               (ok, t) \<leftarrow> tcp_enqueue s None 0 TCP_SYN (Some (mss_option (s_mss (tsock t s)))) t;
               if \<not> ok then Some (None, t)
               else do {
                 (_, t) \<leftarrow> tcp_output s (tcp_list_add Active s t);
                 Some (Some s, t)
               }
             }))"

text \<open>After every signal of the lock: the call returns or goes on waiting.\<close>

definition tcp_connect_wait :: "nat \<Rightarrow> tcp_t \<Rightarrow> nat option blocking" where
  "tcp_connect_wait s t =
     (if s_state (tsock t s) = ESTABLISHED then Returns (Some s)
      else if s_state (tsock t s) = CLOSED then Returns None
      else Waits)"

section \<open>Writing and reading\<close>

definition may_transfer :: "tcp_socket_t \<Rightarrow> bool" where
  "may_transfer k \<longleftrightarrow> \<not> (s_state k \<noteq> SYN_SENT \<and> s_state k \<noteq> SYN_RCVD \<and> s_state k \<noteq> ESTABLISHED)"

definition tcp_write :: "nat \<Rightarrow> u8 list \<Rightarrow> u16 \<Rightarrow> tcp_t \<Rightarrow> (int blocking \<times> tcp_t) option" where
  "tcp_write s arg len t =
     (if \<not> may_transfer (tsock t s) then Some (Returns (- 1), t)
      else if len = 0 then Some (Returns (- 1), t)
      else do {
        (ok, t) \<leftarrow> tcp_enqueue s (Some arg) len 0 None t;
        if \<not> ok then Some (Waits, t)
        else do {
          (_, t) \<leftarrow> tcp_output s t;
          Some (Returns (int (unat len)), t)
        }
      })"

text \<open>Copy the chunks, up to \<open>room\<close> bytes.\<close>

fun copy_chunks :: "nat \<Rightarrow> packet \<Rightarrow> u8 list option" where
  "copy_chunks room [] = Some []"
| "copy_chunks room (q # qs) =
     (if room = 0 then Some []
      else do {
        d \<leftarrow> payload_get q 0 (min (unat (b_len q)) room);
        e \<leftarrow> copy_chunks (room - length d) qs;
        Some (d @ e)
      })"

text \<open>The bytes that are read, with the result.\<close>

definition tcp_read_poll :: "nat \<Rightarrow> u16 \<Rightarrow> bool \<Rightarrow> tcp_t \<Rightarrow> ((int \<times> u8 list) blocking \<times> tcp_t) option" where
  "tcp_read_poll s len nonblock t =
     (if len = 0 then Some (Returns (- 1, []), t)
      else if tcp_queue_is_empty (tsock t s) then
        (if \<not> may_transfer (tsock t s) then Some (Returns (- 1, []), t)
         else if nonblock then Some (Returns (0, []), t)
         else Some (Waits, t))
      else do {
        (p, k) \<leftarrow> tcp_queue_get (tsock t s);
        let t = upd_sock s (\<lambda>_. k) t;
        t \<leftarrow> (if \<not> has (s_flags k) TF_ACK_DELAY \<and> \<not> has (s_flags k) TF_ACK_NOW then tcp_ack s t else Some t);
        d \<leftarrow> copy_chunks (unat len) p;
        Some (Returns (int (length d), d), t)
      })"

definition tcp_read :: "nat \<Rightarrow> u16 \<Rightarrow> tcp_t \<Rightarrow> ((int \<times> u8 list) blocking \<times> tcp_t) option" where
  "tcp_read s len t = tcp_read_poll s len False t"

section \<open>Servers\<close>

definition address_in_use :: "nat \<Rightarrow> u16 \<Rightarrow> ipaddr \<Rightarrow> tcp_t \<Rightarrow> bool" where
  "address_in_use cs port ipaddr t \<longleftrightarrow>
     s_local_port (tsock t cs) = port
     \<and> (s_local_ip (tsock t cs) = zero_ip \<or> ipaddr = zero_ip \<or> s_local_ip (tsock t cs) = ipaddr)"

definition tcp_listen :: "ipaddr option \<Rightarrow> u16 \<Rightarrow> tcp_t \<Rightarrow> (nat option \<times> tcp_t) option" where
  "tcp_listen ipaddr port t =
     (let a = (case ipaddr of None \<Rightarrow> zero_ip | Some a \<Rightarrow> a)
      in case alloc_socket t of (None, t) \<Rightarrow> Some (None, t)
         | (Some s, t) \<Rightarrow> do {
             (port, t) \<leftarrow> (if port = 0 then tcp_new_port t else Some (port, t));
             if list_ex (\<lambda>cs. address_in_use cs port a t) (tcp_listen_sockets t)
                \<or> list_ex (\<lambda>cs. address_in_use cs port a t) (tcp_sockets t)
             then Some (None, t)
             else Some (Some s, tcp_list_add Listening s
                    (upd_sock s (\<lambda>k. k\<lparr>s_local_ip := (if a \<noteq> zero_ip then a else s_local_ip k),
                                       s_local_port := port, s_state := LISTEN\<rparr>) t))
           })"

text \<open>The new socket. The IP header is before the payload; the number comes from the latest segment.\<close>

definition accept_socket :: "nat \<Rightarrow> nat \<Rightarrow> packet \<Rightarrow> tcp_t \<Rightarrow> tcp_t option" where
  "accept_socket s ns p t = do {
     assert_c (p \<noteq> []);
     assert_c (20 \<le> b_off (hd p));
     x \<leftarrow> payload_get (hd p) 0 TCP_HLEN;
     let h = hdr_of_host x;
     let iph = slice (b_off (hd p) - 20) 20 (b_area (hd p));
     let t = upd_sock ns (\<lambda>k. k\<lparr>s_local_ip := ip_dest iph, s_local_port := s_local_port (tsock t s),
           s_remote_ip := ip_src iph, s_remote_port := h_src h, s_state := SYN_RCVD,
           s_rcv_nxt := tcp_input_seqno t + 1, s_snd_wnd := ucast (h_wnd h), s_ssthresh := h_wnd h,
           s_snd_wl1 := tcp_input_seqno t\<rparr>) t;
     let t = tcp_list_add Active ns t;
     k \<leftarrow> tcp_parseopt (h_offset h) (drop (b_off (hd p) + TCP_HLEN) (b_area (hd p))) (tsock t ns);
     (_, t) \<leftarrow> tcp_enqueue ns None 0 (TCP_SYN OR TCP_ACK) (Some (mss_option (s_mss k))) (upd_sock ns (\<lambda>_. k) t);
     map_option snd (tcp_output ns t)
   }"

partial_function (option) tcp_accept :: "nat \<Rightarrow> tcp_t \<Rightarrow> (nat option blocking \<times> tcp_t) option" where
  "tcp_accept s t =
     (if s_state (tsock t s) \<noteq> LISTEN then Some (Returns None, t)
      else if tcp_queue_is_empty (tsock t s) then Some (Waits, t)
      else do {
        r \<leftarrow> tcp_queue_get (tsock t s);
        let t = upd_sock s (\<lambda>_. snd r) t;
        case tcp_alloc t of
          (None, t) \<Rightarrow> tcp_accept s (upd_net (count Tcp_in_discards) t)
        | (Some ns, t) \<Rightarrow> map_option (Pair (Returns (Some ns))) (accept_socket s ns (fst r) t)
      })"

section \<open>Closing\<close>

text \<open>Queue the \<open>FIN\<close>; without room for it the call waits and tries this step again.\<close>

definition tcp_close_fin :: "nat \<Rightarrow> tcp_t \<Rightarrow> (bool \<times> tcp_t) option" where
  "tcp_close_fin s t = do {
     (ok, t) \<leftarrow> tcp_enqueue s None 0 TCP_FIN None t;
     if \<not> ok then Some (False, t)
     else do {
       let t = upd_sock s (\<lambda>k. k\<lparr>s_state := (if s_state k = CLOSE_WAIT then LAST_ACK else FIN_WAIT_1)\<rparr>) t;
       t \<leftarrow> (if s_unsent (tsock t s) \<noteq> [] \<or> has (s_flags (tsock t s)) TF_ACK_NOW then map_option snd (tcp_output s t)
            else Some t);
       Some (True, t)
     }
   }"

definition free_queue :: "nat \<Rightarrow> tcp_t \<Rightarrow> tcp_t option" where
  "free_queue s t = map_option (\<lambda>k. upd_sock s (\<lambda>_. k) t) (tcp_queue_free (tsock t s))"

text \<open>Wait for the end of the connection.\<close>

definition tcp_close_wait :: "nat \<Rightarrow> tcp_t \<Rightarrow> (int blocking \<times> tcp_t) option" where
  "tcp_close_wait s t =
     (if s_state (tsock t s) = CLOSED then Some (Returns 1, t)
      else if s_state (tsock t s) = TIME_WAIT \<and> s_unsent (tsock t s) = []
      then do { t \<leftarrow> free_queue s t; t \<leftarrow> tcp_socket_remove Closing s t; Some (Returns 1, t) }
      else Some (Waits, t))"

definition tcp_close :: "nat \<Rightarrow> tcp_t \<Rightarrow> (int blocking \<times> tcp_t) option" where
  "tcp_close s t =
     (let st = s_state (tsock t s)
      in if st = LISTEN \<or> st = SYN_SENT then do {
           t \<leftarrow> free_queue s t;
           t \<leftarrow> tcp_socket_remove (if s_state (tsock t s) = LISTEN then Listening else Active) s t;
           Some (Returns 1, t)
         }
         else if st = SYN_RCVD \<or> st = ESTABLISHED \<or> st = CLOSE_WAIT then do {
           (ok, t) \<leftarrow> tcp_close_fin s t;
           if ok then tcp_close_wait s t else Some (Waits, t)
         }
         else map_option (Pair (Returns 1)) (free_queue s t))"

definition tcp_abort :: "nat \<Rightarrow> tcp_t \<Rightarrow> tcp_t option" where
  "tcp_abort s t =
     (let k = tsock t s
      in if s_state k = TIME_WAIT then do { t \<leftarrow> free_queue s t; tcp_socket_remove Closing s t }
         else do {
           t \<leftarrow> free_queue s t;
           t \<leftarrow> tcp_socket_remove Active s t;
           tcp_rst (s_snd_nxt k) (s_rcv_nxt k) (s_local_ip k) (s_remote_ip k) (s_local_port k) (s_remote_port k) t
         })"

definition tcp_inactivity :: "nat \<Rightarrow> tcp_t \<Rightarrow> u32" where
  "tcp_inactivity s t = drop_bit 1 (tcp_ticks t - s_tmr (tsock t s))"

end
