(* ===== verification/Ip_Input.thy ===== *)
theory Ip_Input
  imports Tcp_User
begin

text \<open>
  The input side of IP and its task (\<open>net/ip.c\<close>), over the state of the whole stack. A packet is
  checked, sent on, or given to UDP, TCP or ICMP. A round of the task (\<open>ip_main\<close>) handles one signal: a tick of the
  timer, every 100 ms, or packets of an interface. ARP is there and a tick always runs its timer; the two timers of TCP
  are linked in. When there is no route, the code tests a pointer it has not set; nothing depends on it, since the packet is released
  then.
\<close>

record ip_t =
  ip_tcp :: tcp_t
  ip_udp :: udp_t

definition upd_ipnet :: "(net_t \<Rightarrow> net_t) \<Rightarrow> ip_t \<Rightarrow> ip_t" where
  "upd_ipnet f ip = ip\<lparr>ip_tcp := upd_net f (ip_tcp ip)\<rparr>"

definition set_ipnet :: "net_t \<Rightarrow> ip_t \<Rightarrow> ip_t" where
  "set_ipnet n ip = upd_ipnet (\<lambda>_. n) ip"

section \<open>Input\<close>

text \<open>The protocols. \<open>broadcast\<close>: the packet came to a broadcast address.\<close>

definition ip_deliver_udp :: "packet \<Rightarrow> u8 list \<Rightarrow> bool \<Rightarrow> ip_t \<Rightarrow> ip_t option" where
  "ip_deliver_udp p h broadcast ip = do {
     (p, us, n) \<leftarrow> udp_input (snd (buf_add_header p (- 20))) (ip_src h) (ip_dest h) (ip_udp ip) (tnet (ip_tcp ip));
     let ip = set_ipnet n (ip\<lparr>ip_udp := us\<rparr>);
     if p \<noteq> [] \<and> \<not> broadcast \<and> \<not> is_multicast (ip_dest h)
     then map_option (\<lambda>n. set_ipnet n ip) (icmp_dest_unreach (snd (buf_add_header p 20)) 3 (tnet (ip_tcp ip)))
     else Some ip
   }"

definition ip_deliver_icmp :: "packet \<Rightarrow> u8 list \<Rightarrow> bool \<Rightarrow> nat \<Rightarrow> ip_t \<Rightarrow> ip_t option" where
  "ip_deliver_icmp p h broadcast inp ip = do {
     let ip = upd_ipnet (count Icmp_in_msgs) ip;
     type \<leftarrow> payload_get (hd p) IP_HLEN 1;
     if type = [8] then
       (let ip = upd_ipnet (count Icmp_in_echos) ip
        in if \<not> broadcast \<and> \<not> is_multicast (ip_dest h)
           then map_option (\<lambda>n. set_ipnet n ip) (icmp_echo_request p inp (tnet (ip_tcp ip)))
           else Some ip)
     else Some (upd_ipnet (count Icmp_in_errors) ip)
   }"

definition ip_deliver_unknown :: "packet \<Rightarrow> u8 list \<Rightarrow> bool \<Rightarrow> nat \<Rightarrow> ip_t \<Rightarrow> ip_t option" where
  "ip_deliver_unknown p h broadcast inp ip = do {
     ip \<leftarrow> (if \<not> broadcast \<and> \<not> is_multicast (ip_dest h)
           then map_option (\<lambda>n. set_ipnet n ip) (icmp_dest_unreach p 2 (tnet (ip_tcp ip))) else Some ip);
     Some (upd_ipnet (\<lambda>n. upd_netif inp (\<lambda>u. u\<lparr>nif_in_unknown_protos := nif_in_unknown_protos u + 1\<rparr>)
                            (count In_unknown_protos (uncount In_delivers n))) ip)
   }"

definition ip_deliver :: "packet \<Rightarrow> u8 list \<Rightarrow> bool \<Rightarrow> nat \<Rightarrow> ip_t \<Rightarrow> ip_t option" where
  "ip_deliver p h broadcast inp ip =
     (let ip = upd_ipnet (count In_delivers) ip
      in if ip_proto h = IP_PROTO_UDP then ip_deliver_udp p h broadcast ip
         else if ip_proto h = IP_PROTO_TCP
         then map_option (\<lambda>t. ip\<lparr>ip_tcp := t\<rparr>) (tcp_input (snd (buf_add_header p (- 20))) (ip_src h) (ip_dest h) (ip_tcp ip))
         else if ip_proto h = IP_PROTO_ICMP then ip_deliver_icmp p h broadcast inp ip
         else ip_deliver_unknown p h broadcast inp ip)"

text \<open>A packet for this host.\<close>

definition ip_local :: "packet \<Rightarrow> u8 list \<Rightarrow> u8 \<Rightarrow> bool \<Rightarrow> nat \<Rightarrow> ip_t \<Rightarrow> ip_t option" where
  "ip_local p h hlen broadcast inp ip =
     (let ip = (if broadcast then upd_ipnet (upd_netif inp (\<lambda>u. u\<lparr>nif_in_mcast_pkts := nif_in_mcast_pkts u + 1\<rparr>)) ip else ip)
      in if h ! 7 \<noteq> 0 \<or> h ! 6 AND (0x1f OR 0x20) \<noteq> 0 then Some (upd_ipnet (count In_hdr_errors) ip)
         else if hlen > 20 then Some (upd_ipnet (count In_hdr_errors) ip)
         else ip_deliver p h broadcast inp ip)"

text \<open>A packet for another host.\<close>

definition ip_transit :: "packet \<Rightarrow> u8 list \<Rightarrow> nat \<Rightarrow> ip_t \<Rightarrow> ip_t option" where
  "ip_transit p h inp ip =
     (let st = tnet (ip_tcp ip)
      in if forwarding st then
           (case route_lookup (route st) (ip_dest h) of
              None \<Rightarrow> Some ip
            | Some (n, gateway, ifa) \<Rightarrow>
                if n \<noteq> inp then map_option (\<lambda>n. set_ipnet n ip) (ip_forward p (Some gateway) n ifa st) else Some ip)
         else Some (upd_ipnet (count In_addr_errors) ip))"

definition ip_input :: "packet \<Rightarrow> nat \<Rightarrow> ip_t \<Rightarrow> ip_t option" where
  "ip_input p inp ip = do {
     let ip = upd_ipnet (count In_receives) ip;
     let bad = Some (upd_ipnet (count In_hdr_errors) ip);
     assert_c (p \<noteq> []);
     v \<leftarrow> payload_get (hd p) 0 1;
     let hlen = (hd v AND 0x0f) * 4;
     if hd v AND 0xf0 \<noteq> 0x40 then bad
     else if ucast hlen > b_len (hd p) then bad
     else do {
       d \<leftarrow> payload_get (hd p) 0 (unat hlen);
       c \<leftarrow> crc16_inet 0 (odd (b_off (hd p))) d;
       if c \<noteq> 0xffff then bad
       else do {
         l \<leftarrow> payload_get (hd p) 2 2;
         p \<leftarrow> buf_truncate p (be_short (l ! 0) (l ! 1));
         h \<leftarrow> payload_get (hd p) 0 IP_HLEN;
         if is_broadcast (ip_dest h) then ip_local p h hlen True inp ip
         else case route_lookup_self (route (tnet (ip_tcp ip))) (ip_dest h) of
                Some (_, broadcast) \<Rightarrow> ip_local p h hlen broadcast inp ip
              | None \<Rightarrow> ip_transit p h inp ip
       }
     }
   }"

section \<open>The task\<close>

definition ip_tick :: "ip_t \<Rightarrow> ip_t option" where
  "ip_tick ip = do {
     let t = upd_net arp_timer (ip_tcp ip);
     let t = t\<lparr>tcp_timer := (if tcp_timer t + 1 \<ge> 10 then 0 else tcp_timer t + 1)\<rparr>;
     t \<leftarrow> (if odd (tcp_timer t) then tcp_fasttmr t else Some t);
     t \<leftarrow> (if tcp_timer t = 0 \<or> tcp_timer t = 5 then tcp_slowtmr t else Some t);
     Some (ip\<lparr>ip_tcp := t\<rparr>)
   }"

text \<open>The packets of an interface, until its driver or ARP gives none.\<close>

partial_function (option) ip_receive :: "nat \<Rightarrow> ip_t \<Rightarrow> ip_t option" where
  "ip_receive inp ip = do {
     r \<leftarrow> netif_input inp (tnet (ip_tcp ip));
     let ip = set_ipnet (snd r) ip;
     if fst r = [] then Some ip
     else do { ip \<leftarrow> ip_input (fst r) inp ip; ip_receive inp ip }
   }"

datatype ip_signal = Tick | Packets nat

definition ip_main :: "ip_signal \<Rightarrow> ip_t \<Rightarrow> ip_t option" where
  "ip_main sig ip = (case sig of Tick \<Rightarrow> ip_tick ip | Packets n \<Rightarrow> ip_receive n ip)"

definition ip_init :: "pool_t \<Rightarrow> ip_t \<Rightarrow> ip_t" where
  "ip_init m ip = ip\<lparr>ip_tcp := (upd_net (\<lambda>n. n\<lparr>pool := m, default_ttl := 64\<rparr>) (ip_tcp ip))\<lparr>tcp_seqno := 6510, tcp_port := 4096\<rparr>\<rparr>"

end
