(* ===== verification/Tcp_Frame.thy ===== *)
theory Tcp_Frame
  imports Ip_Input
begin

text \<open>
  What the output of TCP leaves alone. \<open>out_frame s t t'\<close>: from \<open>t\<close> to \<open>t'\<close> only the network below TCP and
  the output fields of the socket \<open>s\<close> change.
\<close>

definition out_sock :: "tcp_socket_t \<Rightarrow> tcp_socket_t \<Rightarrow> bool" where
  "out_sock k k' \<longleftrightarrow>
     k' = k\<lparr>s_local_ip := s_local_ip k', s_rtime := s_rtime k', s_rttest := s_rttest k', s_rtseq := s_rtseq k',
            s_snd_nxt := s_snd_nxt k', s_snd_max := s_snd_max k', s_flags := s_flags k', s_unsent := s_unsent k',
            s_unacked := s_unacked k'\<rparr>"

definition out_frame :: "nat \<Rightarrow> tcp_t \<Rightarrow> tcp_t \<Rightarrow> bool" where
  "out_frame s t t' \<longleftrightarrow>
     t' = t\<lparr>tnet := tnet t', tsock := tsock t'\<rparr> \<and> out_sock (tsock t s) (tsock t' s)
     \<and> (\<forall>x. x \<noteq> s \<longrightarrow> tsock t' x = tsock t x)"

lemma out_sock_refl [simp]: "out_sock k k"
  by (simp add: out_sock_def)

lemma out_sock_cases:
  assumes "out_sock k k'"
  obtains a b c d e f g h i where "k' = k\<lparr>s_local_ip := a, s_rtime := b, s_rttest := c, s_rtseq := d,
    s_snd_nxt := e, s_snd_max := f, s_flags := g, s_unsent := h, s_unacked := i\<rparr>"
  using assms unfolding out_sock_def by blast

lemma out_sock_update:
  "out_sock k (k\<lparr>s_local_ip := a, s_rtime := b, s_rttest := c, s_rtseq := d,
    s_snd_nxt := e, s_snd_max := f, s_flags := g, s_unsent := h, s_unacked := i\<rparr>)"
  by (simp add: out_sock_def)

lemma out_sock_trans:
  assumes "out_sock k1 k2" "out_sock k2 k3"
  shows "out_sock k1 k3"
proof (rule out_sock_cases [OF assms(1)], rule out_sock_cases [OF assms(2)], goal_cases)
  case (1 a b c d e f g h i a' b' c' d' e' f' g' h' i')
  have "k3 = k1\<lparr>s_local_ip := a', s_rtime := b', s_rttest := c', s_rtseq := d',
    s_snd_nxt := e', s_snd_max := f', s_flags := g', s_unsent := h', s_unacked := i'\<rparr>"
    unfolding 1(2) unfolding 1(1) by simp
  then show ?case using out_sock_update by simp
qed

lemma out_sockD:
  assumes "out_sock k k'"
  shows "s_state k' = s_state k" "s_queue k' = s_queue k" "s_rcv_nxt k' = s_rcv_nxt k" "s_rcv_wnd k' = s_rcv_wnd k"
    "s_local_port k' = s_local_port k" "s_remote_ip k' = s_remote_ip k" "s_remote_port k' = s_remote_port k"
    "s_lastack k' = s_lastack k" "s_mss k' = s_mss k" "s_cwnd k' = s_cwnd k" "s_snd_wnd k' = s_snd_wnd k"
    "s_snd_lbb k' = s_snd_lbb k" "s_tmr k' = s_tmr k"
  by (rule out_sock_cases [OF assms], simp)+

lemma out_frame_refl [simp]: "out_frame s t t"
  by (simp add: out_frame_def)

lemma out_frame_trans: "out_frame s a b \<Longrightarrow> out_frame s b c \<Longrightarrow> out_frame s a c"
proof -
  assume ab: "out_frame s a b" and bc: "out_frame s b c"
  have "c = a\<lparr>tnet := tnet c, tsock := tsock c\<rparr>"
  proof -
    have b: "b = a\<lparr>tnet := tnet b, tsock := tsock b\<rparr>" and c: "c = b\<lparr>tnet := tnet c, tsock := tsock c\<rparr>"
      using ab bc by (simp_all add: out_frame_def)
    show ?thesis by (subst c, subst b) simp
  qed
  then show ?thesis using ab bc out_sock_trans unfolding out_frame_def by metis
qed

lemma out_frame_net [simp]: "out_frame s t (upd_net f t)"
  by (simp add: out_frame_def upd_net_def)

lemma out_frame_sock: "out_sock (tsock t s) (f (tsock t s)) \<Longrightarrow> out_frame s t (upd_sock s f t)"
  by (simp add: out_frame_def upd_sock_def)

lemma out_frameD:
  assumes "out_frame s t t'"
  shows "tcp_sockets t' = tcp_sockets t" "tcp_closing_sockets t' = tcp_closing_sockets t"
    "tcp_listen_sockets t' = tcp_listen_sockets t" "next_sock t' = next_sock t" "tcp_input_socket t' = tcp_input_socket t"
    "tcp_input_len t' = tcp_input_len t" "tcp_input_flags t' = tcp_input_flags t" "tcp_input_seqno t' = tcp_input_seqno t"
    "tcp_input_ackno t' = tcp_input_ackno t" "tcp_ticks t' = tcp_ticks t"
proof -
  obtain n u where t': "t' = t\<lparr>tnet := n, tsock := u\<rparr>"
    using assms unfolding out_frame_def by (elim conjE) (rule that)
  show "tcp_sockets t' = tcp_sockets t" "tcp_closing_sockets t' = tcp_closing_sockets t"
    "tcp_listen_sockets t' = tcp_listen_sockets t" "next_sock t' = next_sock t" "tcp_input_socket t' = tcp_input_socket t"
    "tcp_input_len t' = tcp_input_len t" "tcp_input_flags t' = tcp_input_flags t" "tcp_input_seqno t' = tcp_input_seqno t"
    "tcp_input_ackno t' = tcp_input_ackno t" "tcp_ticks t' = tcp_ticks t"
    unfolding t' by simp_all
qed

lemma out_frame_state: "out_frame s t t' \<Longrightarrow> s_state (tsock t' x) = s_state (tsock t x)"
  unfolding out_frame_def by (cases "x = s") (auto dest: out_sockD(1))

section \<open>The output functions\<close>

lemma upd_sock_simps [simp]:
  "tsock (upd_sock s f t) s = f (tsock t s)" "x \<noteq> s \<Longrightarrow> tsock (upd_sock s f t) x = tsock t x"
  "tnet (upd_sock s f t) = tnet t" "tsock (upd_net g t) = tsock t" "tnet (upd_net g t) = g (tnet t)"
  "tcp_input_socket (upd_sock s f t) = tcp_input_socket t" "tcp_input_socket (upd_net g t) = tcp_input_socket t"
  "upd_sock s f2 (upd_sock s f t) = upd_sock s (\<lambda>k. f2 (f k)) t"
  by (simp_all add: upd_sock_def upd_net_def)

lemma output_segment_frame:
  assumes "tcp_output_segment g s t = Some (g', t')"
  shows "out_frame s t t'"
proof -
  define h where "h = (seg_hdr g)\<lparr>h_ackno := s_rcv_nxt (tsock t s),
    h_wnd := (if s_rcv_wnd (tsock t s) < s_mss (tsock t s) then 0 else s_rcv_wnd (tsock t s))\<rparr>"
  define l where "l = (if s_local_ip (tsock t s) = zero_ip
    then map_option (\<lambda>(n, gw, ifa). ifa) (route_lookup (route (tnet t)) (s_remote_ip (tsock t s)))
    else Some (s_local_ip (tsock t s)))"
  show ?thesis
  proof (cases l)
    case None
    then show ?thesis using assms unfolding tcp_output_segment_def Let_def h_def [symmetric] l_def [symmetric] by simp
  next
    case (Some ip)
    define k where "k = (let k = (tsock t s)\<lparr>s_local_ip := ip, s_rtime := 0\<rparr>;
                  k = (if s_rttest k = 0 then k\<lparr>s_rttest := ucast (tcp_ticks t), s_rtseq := h_seqno h\<rparr> else k);
                  k = k\<lparr>s_snd_nxt := h_seqno h + tcp_tcplen (g\<lparr>seg_hdr := h\<rparr>)\<rparr>
      in if seq_lt (s_snd_max k) (s_snd_nxt k) then k\<lparr>s_snd_max := s_snd_nxt k\<rparr> else k)"
    have k: "out_sock (tsock t s) k" unfolding k_def out_sock_def by (simp add: Let_def)
    have "\<exists>f. t' = upd_net f (upd_sock s (\<lambda>_. k) t)"
    proof -
      obtain p h' q m where "tcp_fill_chksum (seg_p (g\<lparr>seg_hdr := h\<rparr>)) h ip (s_remote_ip k) = Some (p, h')"
        "buf_copy p (pool (tnet (upd_sock s (\<lambda>_. k) t))) = Some (q, m)"
        and r: "(if q = [] then Some (g\<lparr>seg_p := p, seg_hdr := h'\<rparr>, upd_net (\<lambda>n. n\<lparr>pool := m\<rparr>) (upd_sock s (\<lambda>_. k) t))
          else do { (_, n) \<leftarrow> ip_output q (s_remote_ip k) (Some ip) IP_PROTO_TCP
                      (count Tcp_out_datagrams (tnet (upd_net (\<lambda>n. n\<lparr>pool := m\<rparr>) (upd_sock s (\<lambda>_. k) t))));
                    Some (g\<lparr>seg_p := p, seg_hdr := h'\<rparr>, upd_net (\<lambda>_. n) (upd_net (\<lambda>n. n\<lparr>pool := m\<rparr>) (upd_sock s (\<lambda>_. k) t))) })
          = Some (g', t')"
        using assms unfolding tcp_output_segment_def Let_def h_def [symmetric] l_def [symmetric] Some
        by (simp add: bind_eq_Some_conv k_def Let_def split: if_splits)
      show ?thesis
      proof (cases "q = []")
        case True
        then show ?thesis using r by auto
      next
        case False
        then obtain n where "t' = upd_net (\<lambda>_. n) (upd_net (\<lambda>n. n\<lparr>pool := m\<rparr>) (upd_sock s (\<lambda>_. k) t))"
          using r by (auto simp: bind_eq_Some_conv)
        then have "t' = upd_net (\<lambda>_. n) (upd_sock s (\<lambda>_. k) t)" by (simp add: upd_net_def)
        then show ?thesis by blast
      qed
    qed
    then obtain f where "t' = upd_net f (upd_sock s (\<lambda>_. k) t)" ..
    moreover have "out_frame s t (upd_sock s (\<lambda>_. k) t)" using k by (rule out_frame_sock)
    ultimately show ?thesis using out_frame_trans out_frame_net by blast
  qed
qed

lemma send_empty_net: "tcp_send_empty h lip rip c t = Some (b, t') \<Longrightarrow> \<exists>n. t' = upd_net (\<lambda>_. n) t"
  unfolding tcp_send_empty_def Let_def
  by (auto simp: bind_eq_Some_conv upd_net_def split: prod.splits list.splits)

lemma output_loop_frame: "output_loop s wnd gs t = Some t' \<Longrightarrow> out_frame s t t'"
proof (induction s wnd gs t rule: output_loop.induct)
  case (1 s wnd t)
  then show ?case by simp
next
  case (2 s wnd g gs t)
  show ?case
  proof (cases "h_seqno (seg_hdr g) - s_lastack (tsock t s) + ucast (seg_len g) \<le> wnd")
    case False
    then show ?thesis using 2(2) by simp
  next
    case True
    define t1 where "t1 = upd_sock s (\<lambda>k. k\<lparr>s_unsent := gs\<rparr>) t"
    define syn where "syn = (s_state (tsock t1 s) = SYN_SENT)"
    define g1 where "g1 = (if \<not> syn then g\<lparr>seg_hdr := (seg_hdr g)\<lparr>h_flags := h_flags (seg_hdr g) OR TCP_ACK\<rparr>\<rparr> else g)"
    define t2 where "t2 = (if \<not> syn then upd_sock s (\<lambda>k. k\<lparr>s_flags := s_flags k AND NOT (TF_ACK_DELAY OR TF_ACK_NOW)\<rparr>) t1 else t1)"
    obtain g2 t3 where g2: "tcp_output_segment g1 s t2 = Some (g2, t3)"
      and r: "output_loop s wnd gs (if tcp_tcplen g2 > 0 then upd_sock s (\<lambda>k. k\<lparr>s_unacked := s_unacked k @ [g2]\<rparr>) t3 else t3) = Some t'"
      using 2(2) True unfolding output_loop.simps Let_def if_P [OF True] t1_def [symmetric] syn_def [symmetric]
        g1_def [symmetric] t2_def [symmetric] by (auto simp: bind_eq_Some_conv)
    define t4 where "t4 = (if tcp_tcplen g2 > 0 then upd_sock s (\<lambda>k. k\<lparr>s_unacked := s_unacked k @ [g2]\<rparr>) t3 else t3)"
    have "out_frame s t t1" unfolding t1_def by (rule out_frame_sock) (simp add: out_sock_def)
    moreover have "out_frame s t1 t2"
      unfolding t2_def by (cases syn) (simp_all add: out_frame_sock out_sock_def)
    moreover have "out_frame s t2 t3" using g2 by (rule output_segment_frame)
    moreover have "out_frame s t3 t4"
      unfolding t4_def by (cases "tcp_tcplen g2 > 0") (simp_all add: out_frame_sock out_sock_def)
    moreover have "out_frame s t4 t'"
      using 2(1) [OF True refl refl refl refl g2 [unfolded g1_def t2_def syn_def t1_def] refl refl] r
      unfolding t4_def by simp
    ultimately show ?thesis using out_frame_trans by blast
  qed
qed

lemma tcp_output_frame:
  assumes "tcp_output s t = Some (b, t')"
  shows "out_frame s t t'"
proof (cases "tcp_input_socket t = s")
  case True
  then show ?thesis using assms by (simp add: tcp_output_def)
next
  case False
  define wnd where "wnd = (if s_snd_wnd (tsock t s) < ucast (s_cwnd (tsock t s)) then s_snd_wnd (tsock t s) else ucast (s_cwnd (tsock t s)))"
  define t1 where "t1 = upd_sock s (\<lambda>k. k\<lparr>s_flags := s_flags k AND NOT (TF_ACK_DELAY OR TF_ACK_NOW)\<rparr>) t"
  consider h lip rip c where "tcp_send_empty h lip rip c t1 = Some (b, t')" | "output_loop s wnd (s_unsent (tsock t s)) t = Some t'"
    using assms False unfolding tcp_output_def Let_def wnd_def [symmetric] t1_def [symmetric] by (auto split: if_splits)
  then show ?thesis
  proof cases
    case 1
    then obtain n where "t' = upd_net (\<lambda>_. n) t1" using send_empty_net by blast
    moreover have "out_frame s t t1" unfolding t1_def by (rule out_frame_sock) (simp add: out_sock_def)
    ultimately show ?thesis using out_frame_trans out_frame_net by blast
  next
    case 2
    then show ?thesis by (rule output_loop_frame)
  qed
qed

lemma ack_now_frame:
  assumes "tcp_ack_now s t = Some t'"
  shows "out_frame s t t'"
proof -
  obtain b where "tcp_output s (upd_sock s (\<lambda>k. k\<lparr>s_flags := s_flags k OR TF_ACK_NOW\<rparr>) t) = Some (b, t')"
    using assms by (auto simp: tcp_ack_now_def)
  then have "out_frame s (upd_sock s (\<lambda>k. k\<lparr>s_flags := s_flags k OR TF_ACK_NOW\<rparr>) t) t'" by (rule tcp_output_frame)
  moreover have "out_frame s t (upd_sock s (\<lambda>k. k\<lparr>s_flags := s_flags k OR TF_ACK_NOW\<rparr>) t)"
    by (rule out_frame_sock) (simp add: out_sock_def)
  ultimately show ?thesis using out_frame_trans by blast
qed

lemma ack_frame:
  assumes "tcp_ack s t = Some t'"
  shows "out_frame s t t'"
proof (cases "has (s_flags (tsock t s)) TF_ACK_DELAY")
  case True
  then have "out_frame s (upd_sock s (\<lambda>k. k\<lparr>s_flags := s_flags k AND NOT TF_ACK_DELAY\<rparr>) t) t'"
    using assms ack_now_frame unfolding tcp_ack_def by simp
  moreover have "out_frame s t (upd_sock s (\<lambda>k. k\<lparr>s_flags := s_flags k AND NOT TF_ACK_DELAY\<rparr>) t)"
    by (rule out_frame_sock) (simp add: out_sock_def)
  ultimately show ?thesis using out_frame_trans by blast
next
  case False
  then have "t' = upd_sock s (\<lambda>k. k\<lparr>s_flags := s_flags k OR TF_ACK_DELAY\<rparr>) t" using assms by (simp add: tcp_ack_def)
  then show ?thesis using out_frame_sock [of t s] by (simp add: out_sock_def)
qed

end
