(* ===== verification/Tcp_Send.thy ===== *)
theory Tcp_Send
  imports Tcp_Frame
begin

text \<open>
  The sending side of TCP: what \<open>tcp_enqueue\<close> queues is the data it is given, in order and at the right
  sequence numbers, and \<open>tcp_output\<close> stays in the windows.
\<close>

section \<open>Segments\<close>

definition seg_ok :: "tcp_segment_t \<Rightarrow> bool" where
  "seg_ok g \<longleftrightarrow> packet_ok (seg_p g) \<and> length (packet_data (seg_p g)) = 20 + unat (seg_len g)
     \<and> 20 \<le> unat (b_len (hd (seg_p g)))"

definition seg_data :: "tcp_segment_t \<Rightarrow> u8 list" where
  "seg_data g = drop 20 (packet_data (seg_p g))"

definition send_data :: "tcp_segment_t list \<Rightarrow> u8 list" where
  "send_data gs = concat (map seg_data gs)"

text \<open>The segments follow each other from one sequence number to another.\<close>

fun contig :: "u32 \<Rightarrow> tcp_segment_t list \<Rightarrow> u32 \<Rightarrow> bool" where
  "contig a [] b \<longleftrightarrow> a = b"
| "contig a (g # gs) b \<longleftrightarrow> h_seqno (seg_hdr g) = a \<and> contig (a + tcp_tcplen g) gs b"

lemma contig_append: "contig a (xs @ ys) c \<longleftrightarrow> (\<exists>b. contig a xs b \<and> contig b ys c)"
  by (induction xs arbitrary: a) auto

lemma send_data_append [simp]: "send_data (xs @ ys) = send_data xs @ send_data ys" "send_data [] = []"
  "send_data (g # gs) = seg_data g @ send_data gs"
  by (simp_all add: send_data_def)

lemma alloc_ok:
  assumes "buf_alloc n r m = (b # q, m')"
  shows "q = [] \<and> packet_ok [b] \<and> b_len b = n \<and> b_off b = unat r"
proof -
  obtain area where "mem_get (unat n + unat r) m = (Some area, m')"
    "b = \<lparr>b_area = area, b_off = unat r, b_len = n, b_tot = n\<rparr>" "q = []"
    using assms by (auto simp: buf_alloc_def split: prod.splits option.splits)
  then show ?thesis using mem_get_length by (simp add: packet_ok_def buf_ok_def)
qed

lemma make_segment_ok:
  assumes "tcp_make_segment k (Some d) flags None seglen off seqno m = Some (Some g, m')"
    "off + seglen \<le> length d" "seglen \<le> 256"
  shows "seg_ok g \<and> seg_data g = slice off seglen d \<and> unat (seg_len g) = seglen
    \<and> h_seqno (seg_hdr g) = seqno \<and> h_flags (seg_hdr g) = flags"
proof -
  have us: "unat (of_nat seglen :: u16) = seglen" using assms(3) by (simp add: unat_of_nat)
  have ls: "length (slice off seglen d) = seglen" using assms(2) by (simp add: slice_def)
  obtain b q m1 where b: "buf_alloc (of_nat seglen) 56 m = (b # q, m1)"
    using assms(1) by (cases "buf_alloc (of_nat seglen) 56 m"; cases "fst (buf_alloc (of_nat seglen) 56 m)")
      (auto simp: tcp_make_segment_def)
  have b1: "q = []" "packet_ok [b]" "b_len b = of_nat seglen" "b_off b = 56" using alloc_ok [OF b] by simp_all
  obtain b' where p: "payload_put 0 (slice off seglen d) b = Some b'" "packet_ok [b']" "packet_data [b'] = slice off seglen d"
      "b_off b' = 56"
    using payload_put_front [of "[b]" "packet_data [b]" "[]" "slice off seglen d"] b1 ls us
    by (auto simp: packet_data_def length_b_data packet_ok_def)
  obtain q bs where q: "buf_add_header [b'] 20 = (True, q)" "packet_ok q" "length bs = 20"
      "packet_data q = bs @ slice off seglen d" "20 \<le> unat (b_len (hd q))"
    using add_header_true [of "[b']" 20] p ls assms(3) by auto
  have "length q = 1" using q(1) by (auto simp: buf_add_header_def split: if_splits)
  then have "[hd q] = q" by (cases q) auto
  then have "g = \<lparr>seg_p = q, seg_len = of_nat seglen,
                  seg_hdr = \<lparr>h_src = s_local_port k, h_dest = s_remote_port k, h_seqno = seqno, h_ackno = 0,
                             h_offset = push_bit 4 5, h_flags = flags, h_wnd = 0, h_chksum = 0, h_urgp = 0\<rparr>\<rparr>"
    using assms(1) by (simp add: tcp_make_segment_def b p(1) q(1))
  then show ?thesis using q ls us by (simp add: seg_ok_def seg_data_def)
qed

section \<open>Queueing\<close>

text \<open>What the loop adds to the segments it has made.\<close>

definition queued_segs :: "tcp_segment_t list \<Rightarrow> u16 \<Rightarrow> u8 list \<Rightarrow> u32 \<Rightarrow> u8 \<Rightarrow> bool" where
  "queued_segs gs mss d seqno flags \<longleftrightarrow> (\<forall>g \<in> set gs. seg_ok g \<and> seg_len g \<le> mss \<and> h_flags (seg_hdr g) = flags)
     \<and> send_data gs = d \<and> contig seqno gs (seqno + of_nat (length d))"

lemma queued_nil [simp]: "queued_segs [] mss [] seqno flags"
  by (simp add: queued_segs_def)

lemma queued_cons:
  assumes "seg_ok g" "seg_len g \<le> mss" "h_flags (seg_hdr g) = flags" "\<not> has flags (TCP_FIN OR TCP_SYN)"
    "h_seqno (seg_hdr g) = seqno" "queued_segs gs mss d (seqno + of_nat (length (seg_data g))) flags"
  shows "queued_segs (g # gs) mss (seg_data g @ d) seqno flags"
proof -
  have l: "length (seg_data g) = unat (seg_len g)" using assms(1) by (simp add: seg_ok_def seg_data_def)
  then have "tcp_tcplen g = of_nat (length (seg_data g))" using assms(3,4) by (simp add: tcp_tcplen_def)
  then show ?thesis using assms by (simp add: queued_segs_def algebra_simps)
qed

lemma slice_split: "n \<le> left \<Longrightarrow> slice off left d = slice off n d @ slice (off + n) (left - n) d"
  unfolding slice_def by (metis add.commute drop_drop le_add_diff_inverse take_add)

lemma enqueue_loop_ok:
  assumes "enqueue_loop k (Some d) flags None left off seqno queue ql m = Some (Some (queue', ql'), m')"
    "off + left \<le> length d" "s_mss k \<le> 256" "\<not> has flags (TCP_FIN OR TCP_SYN)"
  shows "\<exists>new. queue' = queue @ new \<and> (queue = [] \<longrightarrow> new \<noteq> []) \<and> queued_segs new (s_mss k) (slice off left d) seqno flags"
  using assms
proof (induction k "Some d" flags "None :: u8 list option" left off seqno queue ql m rule: enqueue_loop.induct)
  case (1 k flags left off seqno queue ql m)
  show ?case
  proof (cases "queue \<noteq> [] \<and> left = 0")
    case True
    then show ?thesis using 1(2) by (subst (asm) enqueue_loop.simps) (simp add: slice_def)
  next
    case False
    define n where "n = (if left > unat (s_mss k) then unat (s_mss k) else left)"
    have mss: "unat (s_mss k) \<le> 256" using 1(4) by (simp add: word_le_nat_alt)
    have n: "n \<le> left" "n \<le> 256" "n \<le> unat (s_mss k)" using mss by (auto simp: n_def)
    obtain x m1 where x: "mem_get 20 m = (Some x, m1)"
      using 1(2) False by (subst (asm) enqueue_loop.simps) (auto simp: Let_def split: prod.splits option.splits)
    obtain g m2 where g: "tcp_make_segment k (Some d) flags None n off seqno m1 = Some (Some g, m2)"
      using 1(2) False x by (subst (asm) enqueue_loop.simps) (auto simp: Let_def n_def [symmetric] split: prod.splits option.splits)
    have e: "enqueue_loop k (Some d) flags None (left - n) (off + n) (seqno + of_nat n) (queue @ [g]) (ql + 1) m2
      = Some (Some (queue', ql'), m')"
      using 1(2) by (subst (asm) enqueue_loop.simps) (simp only: if_not_P [OF False] Let_def n_def [symmetric] x g prod.case option.case)
    have g1: "seg_ok g" "seg_data g = slice off n d" "unat (seg_len g) = n" "h_seqno (seg_hdr g) = seqno" "h_flags (seg_hdr g) = flags"
      using make_segment_ok [OF g] n 1(3) by simp_all
    obtain new where new: "queue' = (queue @ [g]) @ new" "queued_segs new (s_mss k) (slice (off + n) (left - n) d) (seqno + of_nat n) flags"
      using 1(1) [OF False n_def x [symmetric] refl g refl refl e _ 1(4,5)] 1(3) n(1) by auto
    have ln: "length (slice off n d) = n" using 1(3) n(1) by (simp add: slice_def)
    have "queued_segs (g # new) (s_mss k) (slice off n d @ slice (off + n) (left - n) d) seqno flags"
      using queued_cons [of g "s_mss k" flags seqno new] g1 new(2) n(3) 1(5) ln by (simp add: word_le_nat_alt)
    then show ?thesis using new(1) unfolding slice_split [OF n(1), of off d] by auto
  qed
qed

lemma unat_ucast_u16 [simp]: "unat (ucast (x :: u16) :: u32) = unat x"
  using unat_u16 [of x] by (simp add: unsigned_ucast_eq take_bit_nat_eq_self)

lemma of_nat_unat_u16 [simp]: "of_nat (unat (x :: u16)) = (ucast x :: u32)"
  using unat_u16 [of x] by (simp add: word_unat_eq_iff unsigned_of_nat take_bit_nat_eq_self)

lemma has_or: "x AND m = 0 \<Longrightarrow> has (f OR x) m = has f m"
  by (simp add: has_def bit.conj_disj_distrib2)

lemma seg_flags_simps [simp]:
  "seg_ok (g\<lparr>seg_hdr := h\<rparr>) = seg_ok g" "seg_data (g\<lparr>seg_hdr := h\<rparr>) = seg_data g"
  by (simp_all add: seg_ok_def seg_data_def)

lemma contig_flags:
  "x AND 3 = 0 \<Longrightarrow> tcp_tcplen (g\<lparr>seg_hdr := (seg_hdr g)\<lparr>h_flags := h_flags (seg_hdr g) OR x\<rparr>\<rparr>) = tcp_tcplen g"
  by (simp add: tcp_tcplen_def has_or)

lemma set_psh_ok:
  assumes "gs \<noteq> []"
  shows "(\<forall>g \<in> set (set_psh gs). seg_ok g) = (\<forall>g \<in> set gs. seg_ok g)" "send_data (set_psh gs) = send_data gs"
    "contig a (set_psh gs) b = contig a gs b"
proof -
  obtain xs g where gs: "gs = xs @ [g]" using assms by (cases gs rule: rev_cases) auto
  show "(\<forall>g \<in> set (set_psh gs). seg_ok g) = (\<forall>g \<in> set gs. seg_ok g)" "send_data (set_psh gs) = send_data gs"
    "contig a (set_psh gs) b = contig a gs b"
    by (simp_all add: gs set_psh_def contig_append contig_flags)
qed

text \<open>Joining the first new segment to the last one that waits.\<close>

lemma join_ok:
  assumes "seg_ok u" "seg_ok q" "unat (seg_len u) + unat (seg_len q) \<le> 256"
    "\<not> has (h_flags (seg_hdr u)) 3" "\<not> has (h_flags (seg_hdr q)) 3"
    "buf_chain (seg_p u) (snd (buf_add_header (seg_p q) (- 20))) = Some p"
    "u' = u\<lparr>seg_p := p, seg_len := seg_len u + seg_len q\<rparr>"
  shows "seg_ok u' \<and> seg_data u' = seg_data u @ seg_data q \<and> tcp_tcplen u' = tcp_tcplen u + tcp_tcplen q"
proof -
  have q: "packet_ok (seg_p q)" "20 \<le> unat (b_len (hd (seg_p q)))" "length (packet_data (seg_p q)) = 20 + unat (seg_len q)"
    and u: "packet_ok (seg_p u)" "20 \<le> unat (b_len (hd (seg_p u)))" "length (packet_data (seg_p u)) = 20 + unat (seg_len u)"
    using assms(1,2) by (simp_all add: seg_ok_def)
  obtain q' where q': "buf_add_header (seg_p q) (- 20) = (True, q')" "packet_ok q'" "packet_data q' = seg_data q"
    using strip_header_ok [OF q(1), of 20] q(2) by (auto simp: seg_data_def)
  have lq: "length (seg_data q) = unat (seg_len q)" using q(3) by (simp add: seg_data_def)
  obtain r where r: "buf_chain (seg_p u) q' = Some r" "packet_ok r" "packet_data r = packet_data (seg_p u) @ seg_data q"
    using chain_data [OF u(1) q'(2)] u(3) q'(3) lq assms(3) by auto
  have p: "p = r" using assms(6) r(1) q'(1) by simp
  have h: "b_len (hd r) = b_len (hd (seg_p u))" using r(1) by (auto simp: buf_chain_def split: list.splits)
  have l: "unat (seg_len u + seg_len q) = unat (seg_len u) + unat (seg_len q)" using assms(3) by (simp add: unat_plus_u16)
  have "seg_ok u'" using r u h l lq by (simp add: assms(7) p seg_ok_def)
  moreover have "seg_data u' = seg_data u @ seg_data q" using r(3) u(3) by (simp add: assms(7) p seg_data_def)
  moreover have "ucast (seg_len u + seg_len q) = (ucast (seg_len u) + ucast (seg_len q) :: u32)"
  proof (subst word_unat_eq_iff)
    have "unat (ucast (seg_len u) + ucast (seg_len q) :: u32) = unat (seg_len u) + unat (seg_len q)"
      using assms(3) by (simp add: unat_word_ariths(1))
    then show "unat (ucast (seg_len u + seg_len q) :: u32) = unat (ucast (seg_len u) + ucast (seg_len q) :: u32)"
      using l by simp
  qed
  then have "tcp_tcplen u' = tcp_tcplen u + tcp_tcplen q"
    using assms(4,5) by (simp add: assms(7) tcp_tcplen_def)
  ultimately show ?thesis by blast
qed

lemma append_ok:
  assumes "tcp_append k flags gs = Some (new, joined)" "gs \<noteq> []" "queued_segs gs (s_mss k) d lbb flags"
    "\<forall>g \<in> set (s_unsent k). seg_ok g" "contig a (s_unsent k) lbb" "s_mss k \<le> 256"
  shows "new \<noteq> [] \<and> (\<forall>g \<in> set new. seg_ok g) \<and> send_data new = send_data (s_unsent k) @ d
    \<and> contig a new (lbb + of_nat (length d))"
proof -
  obtain q qs where gs: "gs = q # qs" using assms(2) by (cases gs) auto
  have d: "send_data gs = d" "\<forall>g \<in> set gs. seg_ok g" "contig lbb gs (lbb + of_nat (length d))" "h_flags (seg_hdr q) = flags"
    using assms(3) by (simp_all add: queued_segs_def gs)
  define u where "u = last (s_unsent k)"
  define C where "C \<longleftrightarrow> s_unsent k \<noteq> [] \<and> tcp_tcplen u \<noteq> 0 \<and> \<not> has (h_flags (seg_hdr u)) (TCP_SYN OR TCP_FIN)
    \<and> \<not> has flags (TCP_SYN OR TCP_FIN) \<and> unat (seg_len u) + unat (seg_len q) \<le> unat (s_mss k)"
  show ?thesis
  proof (cases C)
    case False
    then have "new = s_unsent k @ gs" using assms(1) by (simp add: tcp_append_def C_def u_def gs split: if_splits)
    then show ?thesis using assms(2,4,5) d by (auto simp: contig_append)
  next
    case True
    then obtain p where p: "buf_chain (seg_p u) (snd (buf_add_header (seg_p q) (- 20))) = Some p"
      and new: "new = butlast (s_unsent k) @ [u\<lparr>seg_p := p, seg_len := seg_len u + seg_len q\<rparr>] @ qs"
      using assms(1) by (auto simp: tcp_append_def C_def u_def gs Let_def bind_eq_Some_conv split: if_splits)
    define u' where "u' = u\<lparr>seg_p := p, seg_len := seg_len u + seg_len q\<rparr>"
    have us: "s_unsent k = butlast (s_unsent k) @ [u]" using True by (simp add: C_def u_def)
    have m: "unat (s_mss k) \<le> 256" using assms(6) by (simp add: word_le_nat_alt)
    have "seg_ok u" using us assms(4) by (metis in_set_conv_decomp)
    then have j: "seg_ok u'" "seg_data u' = seg_data u @ seg_data q" "tcp_tcplen u' = tcp_tcplen u + tcp_tcplen q"
      using join_ok [OF _ _ _ _ _ p u'_def] d(2,4) True m by (auto simp: C_def gs)
    obtain b where b: "contig a (butlast (s_unsent k)) b" "h_seqno (seg_hdr u) = b" "b + tcp_tcplen u = lbb"
      using assms(5) us by (metis contig.simps contig_append)
    have q: "contig (lbb + tcp_tcplen q) qs (lbb + of_nat (length d))" using d(3) by (simp add: gs)
    have "h_seqno (seg_hdr u') = b" using b(2) by (simp add: u'_def)
    then have "contig b (u' # qs) (lbb + of_nat (length d))" using q j(3) b(3) by (simp add: add.assoc [symmetric])
    then have "contig a (butlast (s_unsent k) @ u' # qs) (lbb + of_nat (length d))" using b(1) contig_append by blast
    moreover have "send_data (butlast (s_unsent k) @ u' # qs) = send_data (s_unsent k) @ d"
      using d(1) j(2) by (subst us) (simp add: gs)
    moreover have "\<forall>g \<in> set (butlast (s_unsent k) @ u' # qs). seg_ok g"
      using j(1) d(2) assms(4) by (auto simp: gs dest: in_set_butlastD)
    ultimately show ?thesis using new by (simp add: u'_def)
  qed
qed

text \<open>C20: What \<open>tcp_enqueue\<close> accepts is queued whole and in order: after a call that
  succeeds, the data of the segments that wait to be sent are the old data followed by the new ones,
  the sequence numbers have no gap and no overlap, and they end at \<open>snd_lbb\<close>.\<close>

theorem tcp_enqueue_stream:
  assumes "tcp_enqueue s (Some d) len flags None t = Some (True, t')" "unat len \<le> length d"
    "\<not> has flags (TCP_SYN OR TCP_FIN)" "s_mss (tsock t s) \<le> 256"
    "\<forall>g \<in> set (s_unsent (tsock t s)). seg_ok g" "contig a (s_unsent (tsock t s)) (s_snd_lbb (tsock t s))"
  shows "(\<forall>g \<in> set (s_unsent (tsock t' s)). seg_ok g)
    \<and> send_data (s_unsent (tsock t' s)) = send_data (s_unsent (tsock t s)) @ take (unat len) d
    \<and> contig a (s_unsent (tsock t' s)) (s_snd_lbb (tsock t' s))
    \<and> s_snd_lbb (tsock t' s) = s_snd_lbb (tsock t s) + ucast len"
proof -
  define k where "k = tsock t s"
  have nf: "\<not> has flags TCP_SYN" "\<not> has flags TCP_FIN"
  proof -
    have z: "flags AND 3 = 0" using assms(3) by (simp add: has_def)
    have "flags AND 2 = (flags AND 3) AND 2" "flags AND 1 = (flags AND 3) AND 1" by (simp_all add: and.assoc)
    then show "\<not> has flags TCP_SYN" "\<not> has flags TCP_FIN" unfolding z by (simp_all add: has_def)
  qed
  obtain gs ql m unsent joined where l: "enqueue_loop k (Some d) flags None (unat len) 0 (s_snd_lbb k) []
      (s_snd_queuelen k) (pool (tnet t)) = Some (Some (gs, ql), m)"
    and ap: "tcp_append k flags gs = Some (unsent, joined)"
    and k': "tsock t' s = (let k = k\<lparr>s_unsent := unsent, s_snd_lbb := s_snd_lbb k + ucast len, s_snd_buf := s_snd_buf k - len,
                                s_snd_queuelen := ql\<rparr>
      in if \<not> joined \<and> seg_len (last gs) > 0 then k\<lparr>s_unsent := set_psh (s_unsent k)\<rparr> else k)"
  proof (cases "enqueue_loop k (Some d) flags None (unat len) 0 (s_snd_lbb k) [] (s_snd_queuelen k) (pool (tnet t))")
    case None
    then show ?thesis using assms(1) by (simp add: tcp_enqueue_def k_def Let_def split: if_splits)
  next
    case (Some rm)
    obtain m where rm: "rm = (fst rm, m)" by (cases rm) auto
    obtain gs ql where gs: "fst rm = Some (gs, ql)"
      using assms(1) Some rm by (cases rm; cases "fst rm")
        (auto simp: tcp_enqueue_def k_def [symmetric] Let_def bind_eq_Some_conv split: if_splits)
    obtain unsent joined where ap: "tcp_append k flags gs = Some (unsent, joined)"
      using assms(1) Some rm gs by (cases rm; cases "tcp_append k flags gs")
        (auto simp: tcp_enqueue_def k_def [symmetric] Let_def bind_eq_Some_conv split: if_splits)
    have "rm = (Some (gs, ql), m)" using rm gs by (metis prod.collapse snd_conv)
    then show ?thesis
      using that [of gs ql m unsent joined] assms(1) Some ap nf
      by (simp add: tcp_enqueue_def k_def [symmetric] Let_def bind_eq_Some_conv split: if_splits) auto
  qed
  have "queued_segs gs (s_mss k) (take (unat len) d) (s_snd_lbb k) flags" "gs \<noteq> []"
    using enqueue_loop_ok [OF l] assms(2-4) by (auto simp: k_def slice_def)
  then have u: "unsent \<noteq> []" "\<forall>g \<in> set unsent. seg_ok g" "send_data unsent = send_data (s_unsent k) @ take (unat len) d"
    "contig a unsent (s_snd_lbb k + ucast len)"
    using append_ok [OF ap, of "take (unat len) d" "s_snd_lbb k" a] assms(2,4,5,6) by (auto simp: k_def min_absorb2)
  then show ?thesis using k' set_psh_ok [OF u(1)] by (auto simp: k_def Let_def)
qed

definition socket_example :: tcp_socket_t where
  "socket_example = zero_socket\<lparr>s_state := ESTABLISHED, s_local_ip := (192, 168, 1, 7), s_local_port := 80,
     s_remote_ip := (192, 168, 1, 99), s_remote_port := 4000, s_mss := 2, s_rcv_nxt := 500, s_rcv_wnd := 2048,
     s_lastack := 100, s_snd_nxt := 100, s_snd_max := 100, s_snd_lbb := 100, s_snd_wl1 := 500, s_snd_wl2 := 100,
     s_snd_buf := 1024, s_snd_wnd := 2048, s_cwnd := 512\<rparr>"

definition tcp_example :: tcp_t where
  "tcp_example = \<lparr>tnet = net_example\<lparr>pool := [Some (\<lambda>_. 0), Some (\<lambda>_. 0), Some (\<lambda>_. 0), Some (\<lambda>_. 0)]\<rparr>, tsock = (\<lambda>_. socket_example), next_sock = 2,
     tcp_listen_sockets = [], tcp_sockets = [1], tcp_closing_sockets = [], tcp_ticks = 7, tcp_timer = 0, tcp_port = 4096,
     tcp_seqno = 6510, tcp_input_socket = 0, tcp_input_len = 0, tcp_input_flags = 0, tcp_input_seqno = 0,
     tcp_input_ackno = 0\<rparr>"

lemma enqueue_example: "\<exists>t'. tcp_enqueue 1 (Some [1, 2, 3]) 3 0 None tcp_example = Some (True, t')"
  by (simp add: tcp_enqueue_def tcp_example_def socket_example_def zero_socket_def queued_ok_def enqueue_loop.simps
      tcp_make_segment_def buf_alloc_def payload_put_def slice_def buf_add_header_def tcp_append_def Let_def has_def
      net_example_def)

lemma tcp_enqueue_stream_witness:
  "\<exists>t'. tcp_enqueue 1 (Some [1, 2, 3]) 3 0 None tcp_example = Some (True, t')
    \<and> send_data (s_unsent (tsock t' 1)) = [1, 2, 3] \<and> contig 100 (s_unsent (tsock t' 1)) 103"
proof -
  have k: "s_unsent (tsock tcp_example 1) = []" "s_snd_lbb (tsock tcp_example 1) = 100" "s_mss (tsock tcp_example 1) = 2"
    by (simp_all add: tcp_example_def socket_example_def zero_socket_def)
  obtain t' where t': "tcp_enqueue 1 (Some [1, 2, 3]) 3 0 None tcp_example = Some (True, t')"
    using enqueue_example by blast
  then show ?thesis using tcp_enqueue_stream [OF t', of 100] k by (auto simp: has_def)
qed

section \<open>Output\<close>

text \<open>A segment that is sent stays what it was, but for its header on the wire.\<close>

definition same_seg :: "tcp_segment_t \<Rightarrow> tcp_segment_t \<Rightarrow> bool" where
  "same_seg g g' \<longleftrightarrow> h_seqno (seg_hdr g') = h_seqno (seg_hdr g) \<and> seg_len g' = seg_len g \<and> tcp_tcplen g' = tcp_tcplen g
     \<and> (seg_ok g \<longrightarrow> seg_ok g' \<and> seg_data g' = seg_data g)"

lemma length_tcp_hdr_bytes [simp]: "length (tcp_hdr_bytes h) = 20"
  by (simp add: tcp_hdr_bytes_def be16_def be32_def put_short_def)

lemma put_header:
  assumes "packet_ok p" "20 \<le> unat (b_len (hd p))" "payload_put 0 (tcp_hdr_bytes h) (hd p) = Some b"
  shows "packet_ok (b # tl p) \<and> length (packet_data (b # tl p)) = length (packet_data p)
    \<and> drop 20 (packet_data (b # tl p)) = drop 20 (packet_data p) \<and> 20 \<le> unat (b_len b)"
proof -
  have "20 \<le> length (packet_data p)" using front_length [OF assms(1,2)] .
  then have "length (take 20 (packet_data p)) = 20" by simp
  then show ?thesis
    using payload_put_front [OF assms(1), of "take 20 (packet_data p)" "drop 20 (packet_data p)" "tcp_hdr_bytes h"]
      assms(2,3) by auto
qed

lemma fill_chksum_ok:
  assumes "tcp_fill_chksum p h lip rip = Some (p', h')"
  shows "h_seqno h' = h_seqno h \<and> h_flags h' = h_flags h
    \<and> (packet_ok p \<and> 20 \<le> unat (b_len (hd p)) \<longrightarrow> packet_ok p' \<and> length (packet_data p') = length (packet_data p)
        \<and> drop 20 (packet_data p') = drop 20 (packet_data p) \<and> 20 \<le> unat (b_len (hd p')))"
proof -
  obtain b c b' where b: "payload_put 0 (tcp_hdr_bytes (h\<lparr>h_chksum := 0\<rparr>)) (hd p) = Some b"
    "payload_put 0 (tcp_hdr_bytes (h\<lparr>h_chksum := c\<rparr>)) b = Some b'" "p' = b' # tl p" "h' = h\<lparr>h_chksum := c\<rparr>"
    using assms by (auto simp: tcp_fill_chksum_def bind_eq_Some_conv Let_def)
  show ?thesis
  proof (cases "packet_ok p \<and> 20 \<le> unat (b_len (hd p))")
    case False
    then show ?thesis by (auto simp: b(4))
  next
    case True
    then show ?thesis using put_header [of p _ b] put_header [of "b # tl p" _ b'] b by auto
  qed
qed

lemma output_segment_seg:
  assumes "tcp_output_segment g s t = Some (g', t')"
  shows "same_seg g g'"
proof -
  define h where "h = (seg_hdr g)\<lparr>h_ackno := s_rcv_nxt (tsock t s),
    h_wnd := (if s_rcv_wnd (tsock t s) < s_mss (tsock t s) then 0 else s_rcv_wnd (tsock t s))\<rparr>"
  have h: "h_seqno h = h_seqno (seg_hdr g)" "h_flags h = h_flags (seg_hdr g)" by (simp_all add: h_def)
  consider "g' = g\<lparr>seg_hdr := h\<rparr>"
    | p h' lip rip where "tcp_fill_chksum (seg_p g) h lip rip = Some (p, h')" "g' = g\<lparr>seg_p := p, seg_hdr := h'\<rparr>"
    using assms unfolding tcp_output_segment_def Let_def h_def [symmetric]
    by (auto simp: bind_eq_Some_conv split: option.splits if_splits)
  then show ?thesis
  proof cases
    case 1
    then show ?thesis by (simp add: same_seg_def tcp_tcplen_def h)
  next
    case 2
    then show ?thesis using fill_chksum_ok [OF 2(1)]
      by (simp add: same_seg_def tcp_tcplen_def h seg_ok_def seg_data_def)
  qed
qed

lemma output_segment_queues:
  assumes "tcp_output_segment g s t = Some (g', t')"
  shows "s_unsent (tsock t' s) = s_unsent (tsock t s)" "s_unacked (tsock t' s) = s_unacked (tsock t s)"
    "s_lastack (tsock t' s) = s_lastack (tsock t s)"
  using assms unfolding tcp_output_segment_def Let_def
  by (auto simp: bind_eq_Some_conv split: option.splits if_splits)

text \<open>The end of a segment, counted from what is acknowledged.\<close>

definition seg_end :: "tcp_socket_t \<Rightarrow> tcp_segment_t \<Rightarrow> u32" where
  "seg_end k g = h_seqno (seg_hdr g) - s_lastack k + ucast (seg_len g)"

lemma output_loop_sent:
  assumes "output_loop s wnd gs t = Some t'" "s_unsent (tsock t s) = gs"
  shows "\<exists>n sent. s_unsent (tsock t' s) = drop n gs \<and> s_unacked (tsock t' s) = s_unacked (tsock t s) @ sent
    \<and> list_all2 same_seg (filter (\<lambda>g. tcp_tcplen g > 0) (take n gs)) sent
    \<and> (\<forall>g \<in> set (take n gs). seg_end (tsock t s) g \<le> wnd)
    \<and> (n < length gs \<longrightarrow> seg_end (tsock t s) (gs ! n) > wnd)"
  using assms
proof (induction s wnd gs t rule: output_loop.induct)
  case (1 s wnd t)
  then show ?case by simp
next
  case (2 s wnd g gs t)
  show ?case
  proof (cases "seg_end (tsock t s) g \<le> wnd")
    case False
    then have "t' = t" using 2(2) by (simp add: seg_end_def)
    then show ?thesis using 2(3) False by (intro exI [of _ 0] exI [of _ "[]"]) auto
  next
    case wnd: True
    then have True: "h_seqno (seg_hdr g) - s_lastack (tsock t s) + ucast (seg_len g) \<le> wnd" by (simp add: seg_end_def)
    define t1 where "t1 = upd_sock s (\<lambda>k. k\<lparr>s_unsent := gs\<rparr>) t"
    define syn where "syn = (s_state (tsock t1 s) = SYN_SENT)"
    define g1 where "g1 = (if \<not> syn then g\<lparr>seg_hdr := (seg_hdr g)\<lparr>h_flags := h_flags (seg_hdr g) OR TCP_ACK\<rparr>\<rparr> else g)"
    define t2 where "t2 = (if \<not> syn then upd_sock s (\<lambda>k. k\<lparr>s_flags := s_flags k AND NOT (TF_ACK_DELAY OR TF_ACK_NOW)\<rparr>) t1 else t1)"
    obtain g2 t3 where g2: "tcp_output_segment g1 s t2 = Some (g2, t3)"
      and r: "output_loop s wnd gs (if tcp_tcplen g2 > 0 then upd_sock s (\<lambda>k. k\<lparr>s_unacked := s_unacked k @ [g2]\<rparr>) t3 else t3) = Some t'"
      using 2(2) True unfolding output_loop.simps Let_def if_P [OF True] t1_def [symmetric] syn_def [symmetric]
        g1_def [symmetric] t2_def [symmetric] by (auto simp: bind_eq_Some_conv)
    define t4 where "t4 = (if tcp_tcplen g2 > 0 then upd_sock s (\<lambda>k. k\<lparr>s_unacked := s_unacked k @ [g2]\<rparr>) t3 else t3)"
    have t2: "s_unsent (tsock t2 s) = gs" "s_unacked (tsock t2 s) = s_unacked (tsock t s)" "s_lastack (tsock t2 s) = s_lastack (tsock t s)"
      by (simp_all add: t2_def t1_def)
    have t3: "s_unsent (tsock t3 s) = gs" "s_unacked (tsock t3 s) = s_unacked (tsock t s)" "s_lastack (tsock t3 s) = s_lastack (tsock t s)"
      using output_segment_queues [OF g2] t2 by simp_all
    have t4: "s_unsent (tsock t4 s) = gs" "s_lastack (tsock t4 s) = s_lastack (tsock t s)"
      "s_unacked (tsock t4 s) = s_unacked (tsock t s) @ (if tcp_tcplen g2 > 0 then [g2] else [])"
      using t3 by (simp_all add: t4_def)
    have e: "seg_end (tsock t4 s) = seg_end (tsock t s)" using t4(2) by (auto simp: seg_end_def)
    have "same_seg g g1" by (simp add: g1_def same_seg_def contig_flags)
    then have g: "same_seg g g2" using output_segment_seg [OF g2] by (auto simp: same_seg_def)
    obtain n sent where n: "s_unsent (tsock t' s) = drop n gs" "s_unacked (tsock t' s) = s_unacked (tsock t4 s) @ sent"
      "list_all2 same_seg (filter (\<lambda>g. tcp_tcplen g > 0) (take n gs)) sent"
      "\<forall>g \<in> set (take n gs). seg_end (tsock t s) g \<le> wnd" "n < length gs \<longrightarrow> seg_end (tsock t s) (gs ! n) > wnd"
      using 2(1) [OF True refl refl refl refl g2 [unfolded g1_def t2_def syn_def t1_def] refl refl] r t4(1)
      unfolding t4_def [symmetric] e [unfolded t4_def] by (auto simp: t4_def [symmetric] e)
    have "s_unacked (tsock t' s) = s_unacked (tsock t s) @ (if tcp_tcplen g2 > 0 then [g2] else []) @ sent"
      using n(2) t4(3) by simp
    moreover have "list_all2 same_seg (filter (\<lambda>g. tcp_tcplen g > 0) (take (Suc n) (g # gs))) ((if tcp_tcplen g2 > 0 then [g2] else []) @ sent)"
      using n(3) g by (auto simp: same_seg_def)
    ultimately show ?thesis using n(1,4,5) wnd
      by (intro exI [of _ "Suc n"] exI [of _ "(if tcp_tcplen g2 > 0 then [g2] else []) @ sent"]) auto
  qed
qed

text \<open>C21: \<open>tcp_output\<close> sends a prefix of the segments that wait, each of them inside the window of the peer and
  the congestion window, and keeps what takes sequence space, unchanged and in order, behind the
  segments that are not acknowledged yet. Unless the call comes from the input of the same socket, it
  stops only at a segment that does not fit.\<close>

theorem tcp_output_window:
  assumes "tcp_output s t = Some (b, t')"
  shows "\<exists>n sent. s_unsent (tsock t' s) = drop n (s_unsent (tsock t s))
    \<and> s_unacked (tsock t' s) = s_unacked (tsock t s) @ sent
    \<and> list_all2 same_seg (filter (\<lambda>g. tcp_tcplen g > 0) (take n (s_unsent (tsock t s)))) sent
    \<and> (\<forall>g \<in> set (take n (s_unsent (tsock t s))).
         seg_end (tsock t s) g \<le> s_snd_wnd (tsock t s) \<and> seg_end (tsock t s) g \<le> ucast (s_cwnd (tsock t s)))
    \<and> (tcp_input_socket t \<noteq> s \<and> n < length (s_unsent (tsock t s)) \<longrightarrow>
         \<not> (seg_end (tsock t s) (s_unsent (tsock t s) ! n) \<le> s_snd_wnd (tsock t s)
            \<and> seg_end (tsock t s) (s_unsent (tsock t s) ! n) \<le> ucast (s_cwnd (tsock t s))))"
proof -
  define k where "k = tsock t s"
  define wnd where "wnd = (if s_snd_wnd k < ucast (s_cwnd k) then s_snd_wnd k else ucast (s_cwnd k))"
  have w: "x \<le> wnd \<longleftrightarrow> x \<le> s_snd_wnd k \<and> x \<le> ucast (s_cwnd k)" for x by (auto simp: wnd_def)
  define t1 where "t1 = upd_sock s (\<lambda>k. k\<lparr>s_flags := s_flags k AND NOT (TF_ACK_DELAY OR TF_ACK_NOW)\<rparr>) t"
  consider "tcp_input_socket t = s" "t' = t"
    | h lip rip c where "tcp_send_empty h lip rip c t1 = Some (b, t')" "s_unsent k = [] \<or> seg_end k (hd (s_unsent k)) > wnd"
    | "output_loop s wnd (s_unsent k) t = Some t'"
    using assms unfolding tcp_output_def Let_def k_def [symmetric] wnd_def [symmetric] t1_def [symmetric] seg_end_def
    by (auto split: if_splits)
  then have "\<exists>n sent. s_unsent (tsock t' s) = drop n (s_unsent k) \<and> s_unacked (tsock t' s) = s_unacked k @ sent
    \<and> list_all2 same_seg (filter (\<lambda>g. tcp_tcplen g > 0) (take n (s_unsent k))) sent
    \<and> (\<forall>g \<in> set (take n (s_unsent k)). seg_end k g \<le> wnd)
    \<and> (tcp_input_socket t \<noteq> s \<and> n < length (s_unsent k) \<longrightarrow> \<not> seg_end k (s_unsent k ! n) \<le> wnd)"
  proof cases
    case 1
    then show ?thesis by (intro exI [of _ 0] exI [of _ "[]"]) (simp add: k_def)
  next
    case 2
    then obtain n where "t' = upd_net (\<lambda>_. n) t1" using send_empty_net by blast
    then have "s_unsent (tsock t' s) = s_unsent k" "s_unacked (tsock t' s) = s_unacked k" by (simp_all add: t1_def k_def)
    then show ?thesis using 2(2) by (intro exI [of _ 0] exI [of _ "[]"]) (auto simp: hd_conv_nth)
  next
    case 3
    then show ?thesis using output_loop_sent [OF 3] unfolding k_def by (meson not_le)
  qed
  then show ?thesis unfolding w k_def .
qed

text \<open>A segment that fits is sent, the next one waits for the window.\<close>

definition window_example :: tcp_t where
  "window_example = upd_sock 1 (\<lambda>k. k\<lparr>s_snd_wnd := 3, s_local_ip := zero_ip, s_unsent :=
     [\<lparr>seg_p = [], seg_len = 2, seg_hdr = \<lparr>h_src = 80, h_dest = 4000, h_seqno = 100, h_ackno = 0, h_offset = 80, h_flags = 16,
        h_wnd = 0, h_chksum = 0, h_urgp = 0\<rparr>\<rparr>,
      \<lparr>seg_p = [], seg_len = 2, seg_hdr = \<lparr>h_src = 80, h_dest = 4000, h_seqno = 102, h_ackno = 0, h_offset = 80, h_flags = 16,
        h_wnd = 0, h_chksum = 0, h_urgp = 0\<rparr>\<rparr>]\<rparr>)
     (upd_net (\<lambda>n. n\<lparr>route := []\<rparr>) tcp_example)"

lemma window_example_output: "\<exists>t'. tcp_output 1 window_example = Some (True, t') \<and> length (s_unsent (tsock t' 1)) = 1"
  by (simp add: window_example_def upd_sock_def upd_net_def tcp_example_def socket_example_def zero_socket_def tcp_output_def
      tcp_output_segment_def Let_def has_def tcp_tcplen_def route_lookup_def)

lemma tcp_output_window_witness:
  "\<exists>t' sent. tcp_output 1 window_example = Some (True, t')
    \<and> s_unacked (tsock t' 1) = sent \<and> list_all2 same_seg (take 1 (s_unsent (tsock window_example 1))) sent"
proof -
  obtain t' where t': "tcp_output 1 window_example = Some (True, t')" "length (s_unsent (tsock t' 1)) = 1"
    using window_example_output by blast
  have k: "s_unacked (tsock window_example 1) = []" "length (s_unsent (tsock window_example 1)) = 2"
    "filter (\<lambda>g. tcp_tcplen g > 0) (take 1 (s_unsent (tsock window_example 1))) = take 1 (s_unsent (tsock window_example 1))"
    by (simp_all add: window_example_def tcp_example_def socket_example_def zero_socket_def tcp_tcplen_def has_def)
  obtain n sent where n: "s_unsent (tsock t' 1) = drop n (s_unsent (tsock window_example 1))" "s_unacked (tsock t' 1) = sent"
    "list_all2 same_seg (filter (\<lambda>g. tcp_tcplen g > 0) (take n (s_unsent (tsock window_example 1)))) sent"
    using tcp_output_window [OF t'(1)] k(1) by auto
  have "n = 1" using n(1) t'(2) k(2) by auto
  then show ?thesis using t'(1) n k(3) by auto
qed

end
