(* ===== verification/Tcp_Recv.thy ===== *)
theory Tcp_Recv
  imports Tcp_Send
begin

text \<open>
  The receiving side of TCP: the bytes that reach the receive queue of a socket are those of the
  sender's stream, in order, without gap or repetition, while the queue has room and the segment is in one buffer.
\<close>

section \<open>Steps that leave the receiver alone\<close>

definition same_lists :: "tcp_t \<Rightarrow> tcp_t \<Rightarrow> bool" where
  "same_lists t t' \<longleftrightarrow> tcp_sockets t' = tcp_sockets t \<and> tcp_closing_sockets t' = tcp_closing_sockets t
     \<and> tcp_listen_sockets t' = tcp_listen_sockets t \<and> next_sock t' = next_sock t
     \<and> (\<forall>x. s_state (tsock t' x) = s_state (tsock t x))"

definition same_rcv :: "tcp_socket_t \<Rightarrow> tcp_socket_t \<Rightarrow> bool" where
  "same_rcv k k' \<longleftrightarrow> s_state k' = s_state k \<and> s_queue k' = s_queue k \<and> s_rcv_nxt k' = s_rcv_nxt k \<and> s_rcv_wnd k' = s_rcv_wnd k"

definition quiet :: "tcp_t \<Rightarrow> tcp_t \<Rightarrow> bool" where
  "quiet t t' \<longleftrightarrow> same_lists t t' \<and> (\<forall>x. same_rcv (tsock t x) (tsock t' x))
     \<and> tcp_input_socket t' = tcp_input_socket t \<and> tcp_input_len t' = tcp_input_len t
     \<and> tcp_input_flags t' = tcp_input_flags t \<and> tcp_input_seqno t' = tcp_input_seqno t
     \<and> tcp_input_ackno t' = tcp_input_ackno t"

lemma same_lists_refl [simp]: "same_lists t t"
  by (simp add: same_lists_def)

lemma same_lists_trans [trans]: "same_lists a b \<Longrightarrow> same_lists b c \<Longrightarrow> same_lists a c"
  by (simp add: same_lists_def)

lemma same_rcv_refl [simp]: "same_rcv k k"
  by (simp add: same_rcv_def)

lemma same_rcv_trans: "same_rcv a b \<Longrightarrow> same_rcv b c \<Longrightarrow> same_rcv a c"
  by (simp add: same_rcv_def)

lemma quiet_refl [simp]: "quiet t t"
  by (simp add: quiet_def)

lemma quiet_trans [trans]: "quiet a b \<Longrightarrow> quiet b c \<Longrightarrow> quiet a c"
  unfolding quiet_def using same_lists_trans same_rcv_trans by metis

lemma quiet_lists: "quiet t t' \<Longrightarrow> same_lists t t'"
  by (simp add: quiet_def)

lemma quiet_net [simp]: "quiet t (upd_net f t)"
  by (simp add: quiet_def same_lists_def upd_net_def)

lemma quiet_sock: "same_rcv (tsock t s) (f (tsock t s)) \<Longrightarrow> quiet t (upd_sock s f t)"
  by (auto simp: quiet_def same_lists_def same_rcv_def upd_sock_def)

lemma quiet_frame: "out_frame s t t' \<Longrightarrow> quiet t t'"
proof -
  assume f: "out_frame s t t'"
  have "same_rcv (tsock t x) (tsock t' x)" for x
    using f out_sockD [of "tsock t s" "tsock t' s"] by (cases "x = s") (auto simp: out_frame_def same_rcv_def)
  then show ?thesis using out_frameD [OF f] out_frame_state [OF f] by (simp add: quiet_def same_lists_def)
qed

lemmas quiet_output = quiet_frame [OF tcp_output_frame] quiet_frame [OF ack_now_frame] quiet_frame [OF ack_frame]

lemma quiet_rexmit:
  assumes "tcp_rexmit s t = Some t'"
  shows "quiet t t'"
proof (cases "s_unacked (tsock t s) = []")
  case True
  then show ?thesis using assms by (simp add: tcp_rexmit_def)
next
  case False
  define t1 where "t1 = upd_sock s (\<lambda>k. k\<lparr>s_unsent := s_unacked k @ s_unsent k, s_unacked := [],
           s_snd_nxt := h_seqno (seg_hdr (hd (s_unacked k))), s_nrtx := s_nrtx k + 1, s_rttest := 0\<rparr>) t"
  obtain b where "tcp_output s t1 = Some (b, t')"
    using assms False unfolding tcp_rexmit_def t1_def [symmetric] by auto
  then have "quiet t1 t'" by (rule quiet_output)
  moreover have "quiet t t1" unfolding t1_def by (rule quiet_sock) (simp add: same_rcv_def)
  ultimately show ?thesis using quiet_trans by blast
qed

section \<open>Acknowledgements leave it alone\<close>

lemma free_unacked_rcv: "free_unacked ackno gs k = Some k' \<Longrightarrow> same_rcv k k'"
  by (induction ackno gs k rule: free_unacked.induct)
    (auto simp: Let_def same_rcv_def split: if_splits)

lemma free_unsent_rcv: "free_unsent ackno gs k = Some k' \<Longrightarrow> same_rcv k k'"
proof (induction ackno gs k rule: free_unsent.induct)
  case (1 ackno k)
  then show ?case by simp
next
  case (2 ackno g gs k)
  then show ?case by (cases "gs = []") (auto simp: Let_def same_rcv_def split: if_splits)
qed

lemma recv_window_rcv: "same_rcv k (recv_window seqno ackno wnd k)"
  by (simp add: recv_window_def same_rcv_def)

lemma recv_rtt_rcv: "same_rcv k (recv_rtt ticks ackno k)"
  by (simp add: recv_rtt_def same_rcv_def Let_def)

lemma recv_new_ack_rcv:
  assumes "recv_new_ack ackno k = Some k'"
  shows "same_rcv k k'"
proof -
  define k1 where "k1 = (if has (s_flags k) TF_INFR then k\<lparr>s_flags := s_flags k AND NOT TF_INFR, s_cwnd := s_ssthresh k\<rparr> else k)"
  define k2 where "k2 = k1\<lparr>s_nrtx := 0, s_rto := word_of_int (rto_base k1), s_acked := ucast (ackno - s_lastack k1)\<rparr>"
  define k3 where "k3 = (if s_acked k2 > 0 then k2\<lparr>s_snd_buf := s_snd_buf k2 + s_acked k2, s_signal := True\<rparr> else k2)"
  define k4 where "k4 = recv_cwnd (k3\<lparr>s_dupacks := 0, s_lastack := ackno\<rparr>)"
  have "same_rcv k k1" "same_rcv k1 k2" "same_rcv k2 k3" "same_rcv k3 k4"
    by (simp_all add: k1_def k2_def k3_def k4_def same_rcv_def recv_cwnd_def Let_def)
  moreover have "same_rcv k4 k'"
    using assms unfolding recv_new_ack_def Let_def k1_def [symmetric] k2_def [symmetric] k3_def [symmetric] k4_def [symmetric]
    by (rule free_unacked_rcv)
  ultimately show ?thesis using same_rcv_trans by blast
qed

lemma recv_dupack_quiet:
  assumes "recv_dupack s edge t = Some t'"
  shows "quiet t t'"
proof -
  define k where "k = (tsock t s)\<lparr>s_acked := 0\<rparr>"
  define k2 where "k2 = k\<lparr>s_dupacks := s_dupacks k + 1\<rparr>"
  have k: "same_rcv (tsock t s) k" "same_rcv (tsock t s) k2" by (simp_all add: k_def k2_def same_rcv_def)
  have c: "quiet t (upd_sock s fast_rexmit_cwnd t)" for t
    by (rule quiet_sock) (simp add: same_rcv_def fast_rexmit_cwnd_def Let_def)
  consider "t' = upd_sock s (\<lambda>_. k) t" | "t' = upd_sock s (\<lambda>_. k2) t" | "t' = upd_sock s (\<lambda>_. k2\<lparr>s_cwnd := s_cwnd k2 + s_mss k2\<rparr>) t"
    | t1 where "tcp_rexmit s (upd_sock s (\<lambda>_. k2) t) = Some t1" "t' = upd_sock s fast_rexmit_cwnd t1"
    using assms unfolding recv_dupack_def Let_def k_def [symmetric] k2_def [symmetric] by (auto split: if_splits)
  then show ?thesis
  proof cases
    case 4
    have "quiet t (upd_sock s (\<lambda>_. k2) t)" by (rule quiet_sock) (rule k)
    from quiet_trans [OF this quiet_rexmit [OF 4(1)]] have "quiet t t1" .
    from quiet_trans [OF this c [of t1]] show ?thesis unfolding 4(2) .
  qed (use k in \<open>auto intro!: quiet_sock simp: same_rcv_def\<close>)
qed

lemma recv_ack_quiet:
  assumes "recv_ack s h t = Some t'"
  shows "quiet t t'"
proof -
  define k where "k = recv_window (tcp_input_seqno t) (tcp_input_ackno t) (h_wnd h) (tsock t s)"
  define t1 where "t1 = upd_sock s (\<lambda>_. k) t"
  define edge where "edge = s_snd_wnd (tsock t s) + s_snd_wl1 (tsock t s)"
  obtain t2 k2 where t2: "(if s_lastack k = tcp_input_ackno t then recv_dupack s edge t1
             else if seq_lt (s_lastack k) (tcp_input_ackno t) \<and> seq_leq (tcp_input_ackno t) (s_snd_max k)
             then map_option (\<lambda>k. upd_sock s (\<lambda>_. k) t1) (recv_new_ack (tcp_input_ackno t) k) else Some t1) = Some t2"
    and k2: "free_unsent (tcp_input_ackno t) (s_unsent (tsock t2 s)) (tsock t2 s) = Some k2"
      "t' = upd_sock s (\<lambda>_. recv_rtt (tcp_ticks t2) (tcp_input_ackno t) k2) t2"
    using assms unfolding recv_ack_def Let_def k_def [symmetric] t1_def [symmetric] edge_def [symmetric]
    by (auto simp: bind_eq_Some_conv)
  have 1: "quiet t t1" unfolding t1_def by (rule quiet_sock) (simp add: k_def recv_window_rcv)
  have 2: "quiet t1 t2"
  proof -
    consider "s_lastack k = tcp_input_ackno t" | "s_lastack k \<noteq> tcp_input_ackno t"
        "seq_lt (s_lastack k) (tcp_input_ackno t) \<and> seq_leq (tcp_input_ackno t) (s_snd_max k)"
      | "s_lastack k \<noteq> tcp_input_ackno t" "\<not> (seq_lt (s_lastack k) (tcp_input_ackno t) \<and> seq_leq (tcp_input_ackno t) (s_snd_max k))"
      by blast
    then show ?thesis
    proof cases
      case 1
      then show ?thesis using t2 recv_dupack_quiet by simp
    next
      case 2
      then obtain k' where k': "recv_new_ack (tcp_input_ackno t) k = Some k'" "upd_sock s (\<lambda>_. k') t1 = t2"
        using t2 unfolding if_not_P [OF 2(1)] if_P [OF 2(2)] by (auto simp only: map_option_eq_Some)
      have "same_rcv (tsock t1 s) k'" using recv_new_ack_rcv [OF k'(1)] by (simp add: t1_def)
      then show ?thesis unfolding k'(2) [symmetric] by (rule quiet_sock)
    next
      case 3
      then show ?thesis using t2 unfolding if_not_P [OF 3(1)] if_not_P [OF 3(2)] by simp
    qed
  qed
  have "same_rcv (tsock t2 s) (recv_rtt (tcp_ticks t2) (tcp_input_ackno t) k2)"
    using free_unsent_rcv [OF k2(1)] recv_rtt_rcv same_rcv_trans by blast
  then have "quiet t2 t'" unfolding k2(2) by (rule quiet_sock)
  then show ?thesis using 1 2 quiet_trans by blast
qed

end
