(* ===== verification/Tcp_Deliver.thy ===== *)
theory Tcp_Deliver
  imports Tcp_Recv
begin

text \<open>
  In-order delivery: what \<open>tcp_receive\<close> puts into the receive queue continues the stream of the sender
  where the queue ended, while the queue has room and the segment is in one buffer.
\<close>

section \<open>Sequence numbers\<close>

text \<open>A segment that starts before what is expected and ends behind it.\<close>

lemma seq_between:
  assumes "seq_lt a b" "seq_lt b (a + of_nat n)" "0 < n" "n < 2 ^ 31"
  shows "0 < unat (b - a) \<and> unat (b - a) < n \<and> sint (b - a) = int (unat (b - a))"
proof -
  define d where "d = b - a"
  have n: "unat (of_nat n :: u32) = n" using assms(4) by (simp add: unsigned_of_nat take_bit_nat_eq_self)
  have "sint (- d) < 0" using assms(1) by (simp add: seq_lt_def d_def)
  then have d0: "unat d \<noteq> 0" "unat d \<le> 2 ^ 31"
    using unat_diff_u32 [of 0 d] u32_bound [of d] by (auto simp: sint_u32 split: if_splits)
  have "sint (d - of_nat n) < 0" using assms(2) by (simp add: seq_lt_def d_def algebra_simps)
  then have "unat d < n"
    using unat_diff_u32 [of d "of_nat n"] u32_bound [of d] d0 assms(3,4) by (auto simp: sint_u32 n split: if_splits)
  then show ?thesis using d0 assms(4) unfolding d_def [symmetric] by (simp add: sint_u32)
qed

section \<open>The stream\<close>

text \<open>The bytes of a stream from a sequence number on; the bytes that wait in the receive queue.\<close>

definition stream :: "(u32 \<Rightarrow> u8) \<Rightarrow> u32 \<Rightarrow> nat \<Rightarrow> u8 list" where
  "stream str a n = map (\<lambda>i. str (a + of_nat i)) [0..<n]"

definition rcv_bytes :: "tcp_socket_t \<Rightarrow> u8 list" where
  "rcv_bytes k = concat (map (case_option [] packet_data) (sq_list TCP_SOCKET_QUEUE_SIZE (s_queue k)))"

lemma length_stream [simp]: "length (stream str a n) = n" and stream_0 [simp]: "stream str a 0 = []"
  by (simp_all add: stream_def)

lemma drop_stream: "drop m (stream str a n) = stream str (a + of_nat m) (n - m)"
  by (rule nth_equalityI) (auto simp: stream_def add.assoc)

section \<open>Delivery\<close>

lemma ucast_ucast_16: "unat (x :: u32) < 65536 \<Longrightarrow> ucast (ucast x :: u16) = x"
  by (simp add: word_unat_eq_iff unsigned_ucast_eq unsigned_take_bit_eq take_bit_nat_eq_self)

lemma queue_put_bytes:
  assumes "tcp_queue_put p k = Some k'" "sq_ok 16 (s_queue k)" "p \<noteq> []"
  shows "rcv_bytes k' = rcv_bytes k @ packet_data p \<and> sq_ok 16 (s_queue k') \<and> s_rcv_nxt k' = s_rcv_nxt k
    \<and> s_rcv_wnd k' = s_rcv_wnd k"
proof -
  obtain q where q: "sq_put 16 (Some p) (s_queue k) = Some q" "k' = k\<lparr>s_queue := q\<rparr>"
    using assms(1,3) by (auto simp: tcp_queue_put_def)
  have "sq_count (s_queue k) < 16" using q(1) by (simp add: sq_put_def)
  then show ?thesis using sq_put_ok [OF assms(2), of "Some p"] q by (auto simp: rcv_bytes_def)
qed

lemma deliver_data_bytes:
  assumes "deliver_data s g t = Some (g', t')" "packet_ok (seg_p g)" "sq_ok 16 (s_queue (tsock t s))"
    "sq_count (s_queue (tsock t s)) < 16"
  shows "rcv_bytes (tsock t' s) = rcv_bytes (tsock t s) @ packet_data (seg_p g) \<and> sq_ok 16 (s_queue (tsock t' s))
    \<and> s_rcv_nxt (tsock t' s) = s_rcv_nxt (tsock t s) \<and> seg_hdr g' = seg_hdr g
    \<and> tcp_input_socket t' = tcp_input_socket t"
proof (cases "b_tot (hd (seg_p g)) > 0")
  case True
  have ne: "seg_p g \<noteq> []" using assms(2) by (auto simp: packet_ok_def)
  have "\<not> tcp_queue_is_full (tsock t s)" using assms(4) by (simp add: tcp_queue_is_full_def sq_is_full_def)
  then obtain k where k: "tcp_queue_put (seg_p g) (tsock t s) = Some k" "t' = sock_signal s (upd_sock s (\<lambda>_. k) t)"
    "g' = g\<lparr>seg_p := []\<rparr>" using assms(1) True ne by (auto simp: deliver_data_def)
  show ?thesis using queue_put_bytes [OF k(1) assms(3) ne] k(2,3) by (simp add: sock_signal_def rcv_bytes_def)
next
  case False
  then have "b_tot (hd (seg_p g)) = 0" by (metis word_gt_0)
  then have "unat (b_tot (hd (seg_p g))) = 0" by simp
  then have "packet_data (seg_p g) = []" using packet_ok_tot [OF assms(2)] by simp
  then show ?thesis using assms(1,3) False by (auto simp: deliver_data_def)
qed

lemma deliver_fin_bytes:
  assumes "deliver_fin s g t = Some t'" "sq_ok 16 (s_queue (tsock t s))"
  shows "rcv_bytes (tsock t' s) = rcv_bytes (tsock t s) \<and> sq_ok 16 (s_queue (tsock t' s))
    \<and> s_rcv_nxt (tsock t' s) = s_rcv_nxt (tsock t s) \<and> tcp_input_socket t' = tcp_input_socket t"
proof -
  obtain p m where a: "buf_alloc 0 0 (pool (tnet t)) = (p, m)" by fastforce
  define t1 where "t1 = upd_net (\<lambda>n. n\<lparr>pool := m\<rparr>) t"
  have t1: "tsock t1 = tsock t" "tcp_input_socket t1 = tcp_input_socket t" by (simp_all add: t1_def upd_net_def)
  have err: ?thesis if "t' = count_in_error u" "tsock u = tsock t" "tcp_input_socket u = tcp_input_socket t" for u
    using that assms(2) by (simp add: count_in_error_def upd_net_def)
  show ?thesis
  proof (cases "has (h_flags (seg_hdr g)) TCP_FIN")
    case False
    then show ?thesis using assms by (simp add: deliver_fin_def)
  next
    case fin: True
    show ?thesis
    proof (cases "tcp_queue_is_full (tsock t s)")
      case True
      then show ?thesis using assms(1) fin err [of t] by (simp add: deliver_fin_def)
    next
      case full: False
      show ?thesis
      proof (cases p)
        case Nil
        then show ?thesis using assms(1) fin full a err [of t1] t1 by (simp add: deliver_fin_def t1_def)
      next
        case (Cons b q)
        then obtain k where k: "tcp_queue_put p (tsock t s) = Some k" "sock_signal s (upd_sock s (\<lambda>_. k) t1) = t'"
          using assms(1) fin full a unfolding deliver_fin_def if_P [OF fin] if_not_P [OF full] a t1_def by auto
        have "packet_data p = []" using alloc_ok [of 0 0 "pool (tnet t)" b q m] a Cons by (simp add: packet_data_def b_data_def)
        then show ?thesis using queue_put_bytes [OF k(1) assms(2)] Cons t1(2) unfolding k(2) [symmetric]
          by (simp add: sock_signal_def rcv_bytes_def)
      qed
    qed
  qed
qed

lemma recv_deliver_bytes:
  assumes "recv_deliver s g t = Some (g', t')" "packet_ok (seg_p g)" "unat (seg_len g) = length (packet_data (seg_p g))"
    "length (packet_data (seg_p g)) < 2 ^ 15" "sq_ok 16 (s_queue (tsock t s))" "sq_count (s_queue (tsock t s)) < 16"
  shows "rcv_bytes (tsock t' s) = rcv_bytes (tsock t s) @ packet_data (seg_p g) \<and> sq_ok 16 (s_queue (tsock t' s))
    \<and> s_rcv_nxt (tsock t' s) = s_rcv_nxt (tsock t s) + tcp_tcplen g"
proof -
  define len :: u16 where "len = ucast (tcp_tcplen g)"
  define t1 where "t1 = upd_sock s (\<lambda>k. k\<lparr>s_rcv_nxt := s_rcv_nxt k + ucast len,
    s_rcv_wnd := (if s_rcv_wnd k < len then 0 else s_rcv_wnd k - len)\<rparr>) (t\<lparr>tcp_input_len := len\<rparr>)"
  obtain t2 t3 where t2: "deliver_data s g t1 = Some (g', t2)" and t3: "deliver_fin s g' t2 = Some t3" "tcp_ack s t3 = Some t'"
    using assms(1) unfolding recv_deliver_def Let_def len_def [symmetric] t1_def [symmetric] by (auto simp: bind_eq_Some_conv)
  have 1: "s_queue (tsock t1 s) = s_queue (tsock t s)" "s_rcv_nxt (tsock t1 s) = s_rcv_nxt (tsock t s) + ucast len"
    by (simp_all add: t1_def)
  have 2: "rcv_bytes (tsock t2 s) = rcv_bytes (tsock t s) @ packet_data (seg_p g)" "sq_ok 16 (s_queue (tsock t2 s))"
    "s_rcv_nxt (tsock t2 s) = s_rcv_nxt (tsock t s) + ucast len"
    using deliver_data_bytes [OF t2 assms(2)] assms(5,6) 1 by (simp_all add: rcv_bytes_def)
  have "same_rcv (tsock t3 s) (tsock t' s)" using quiet_output(3) [OF t3(2)] by (simp add: quiet_def)
  moreover have "unat (tcp_tcplen g) < 65536"
    using assms(3,4) by (auto simp: tcp_tcplen_def unat_word_ariths(1))
  then have "ucast len = tcp_tcplen g" by (simp add: len_def ucast_ucast_16)
  ultimately show ?thesis using deliver_fin_bytes [OF t3(1)] 2 by (simp add: same_rcv_def rcv_bytes_def)
qed

section \<open>Trimming\<close>

lemma recv_trim_ok:
  assumes "recv_trim r q g = Some g'" "seg_p g = [b]" "packet_ok [b]" "unat (seg_len g) = unat (b_len b)"
    "unat (b_len b) < 2 ^ 15" "unat (r - q) = d" "sint (r - q) = int d" "d \<le> unat (b_len b)"
  shows "packet_ok (seg_p g') \<and> packet_data (seg_p g') = drop d (packet_data [b])
    \<and> unat (seg_len g') = unat (b_len b) - d \<and> h_flags (seg_hdr g') = h_flags (seg_hdr g)"
proof -
  have s: "sint (word_of_int (- int d) :: u16) = - int d"
    using assms(5,8) by (subst signed_of_int) (simp add: signed_take_bit_int_eq_self)
  obtain p' where p': "buf_add_header [b] (- int d) = (True, p')" "packet_ok p'" "packet_data p' = drop d (packet_data [b])"
    using strip_header_ok [OF assms(3) s] assms(8) by auto
  have nl: "\<not> int (unat (b_len b)) < int d" unfolding not_less of_nat_le_iff using assms(8) .
  have "trim_chain (int d) [b] = Some (0, p')"
    unfolding trim_chain.simps if_not_P [OF nl] p'(1) by simp
  then have g': "g' = g\<lparr>seg_p := (hd p')\<lparr>b_tot := b_tot (hd p') - 0\<rparr> # tl p', seg_len := seg_len g - ucast (r - q),
             seg_hdr := (seg_hdr g)\<lparr>h_seqno := r\<rparr>\<rparr>"
    using assms(1) by (simp add: recv_trim_def assms(2,7))
  have "p' \<noteq> []" using p'(2) by (auto simp: packet_ok_def)
  then have "seg_p g' = p'" by (simp add: g')
  moreover have "unat (ucast (r - q) :: u16) = d"
    using assms(5,6,8) by (simp add: unsigned_ucast_eq take_bit_nat_eq_self)
  then have "unat (seg_len g - ucast (r - q)) = unat (b_len b) - d"
    using assms(4,8) by (simp add: unat_sub word_le_nat_alt)
  ultimately show ?thesis using p' by (simp add: g')
qed

section \<open>In order, exactly once\<close>

lemma seq_refl: "seq_geq a a" "\<not> seq_lt a a"
  by (simp_all add: seq_geq_def seq_lt_def)

lemma seq_window_open:
  assumes "w \<noteq> 0"
  shows "seq_lt a (a + ucast (w :: u16))"
proof -
  have n: "0 < unat w" "unat w < 65536" using assms unat_u16 [of w] by (simp_all add: unat_gt_0)
  have m: "(if 4294967296 - m < 2 ^ 31 then int (4294967296 - m) else int (4294967296 - m) - 2 ^ 32) < 0"
    if "0 < m" "m < 65536" for m :: nat using that by auto
  have "unat (- (ucast w :: u32)) = 4294967296 - unat w" using n unat_diff_u32 [of 0 "ucast w"] by simp
  then have "sint (- (ucast w :: u32)) < 0" using m [OF n] by (simp only: sint_u32)
  then show ?thesis by (simp add: seq_lt_def)
qed

lemma has_fin_syn: "\<not> has f TCP_SYN \<Longrightarrow> has f 3 = has f TCP_FIN"
proof -
  assume "\<not> has f TCP_SYN"
  then have "f AND 2 = 0" by (simp add: has_def)
  moreover have "f AND 3 = (f AND 2) OR (f AND 1)" by (simp flip: bit.conj_disj_distrib)
  ultimately show ?thesis by (simp add: has_def)
qed

text \<open>A segment that holds what is expected next.\<close>

definition next_in :: "u32 \<Rightarrow> u32 \<Rightarrow> u16 \<Rightarrow> bool" where
  "next_in r q len \<longleftrightarrow> len \<noteq> 0 \<and> seq_leq q r \<and> seq_lt r (q + ucast len)"

lemma recv_data_bytes:
  fixes str :: "u32 \<Rightarrow> u8"
  assumes "recv_data s g t = Some (g', t')" "tcp_input_socket t = s" "seg_p g = [b]" "packet_ok [b]"
    "seg_len g = b_len b" "unat (b_len b) < 2 ^ 15" "\<not> has (h_flags (seg_hdr g)) TCP_SYN"
    "tcp_input_len t = b_len b + (if has (h_flags (seg_hdr g)) TCP_FIN then 1 else 0)" "tcp_input_len t \<noteq> 0"
    "packet_data [b] = stream str (tcp_input_seqno t) (unat (b_len b))"
    "sq_ok 16 (s_queue (tsock t s))" "sq_count (s_queue (tsock t s)) < 16"
  shows "\<exists>n fin. fin \<le> (if has (h_flags (seg_hdr g)) TCP_FIN then 1 else 0)
    \<and> s_rcv_nxt (tsock t' s) = s_rcv_nxt (tsock t s) + of_nat n + of_nat fin
    \<and> rcv_bytes (tsock t' s) = rcv_bytes (tsock t s) @ stream str (s_rcv_nxt (tsock t s)) n
    \<and> sq_ok 16 (s_queue (tsock t' s))
    \<and> (next_in (s_rcv_nxt (tsock t s)) (tcp_input_seqno t) (tcp_input_len t) \<and> s_rcv_wnd (tsock t s) \<noteq> 0
        \<longrightarrow> s_rcv_nxt (tsock t' s) = tcp_input_seqno t + ucast (tcp_input_len t))"
proof -
  define fin where "fin = (if has (h_flags (seg_hdr g)) TCP_FIN then 1 else 0 :: nat)"
  define k where "k = tsock t s"
  define r where "r = s_rcv_nxt k"
  define q where "q = tcp_input_seqno t"
  define L where "L = unat (b_len b) + fin"
  have L: "unat (tcp_input_len t) = L" "0 < L" "L < 2 ^ 31" "ucast (tcp_input_len t) = (of_nat L :: u32)"
  proof -
    show l: "unat (tcp_input_len t) = L" using assms(6,8) by (auto simp: L_def fin_def unat_word_ariths(1))
    then show "0 < L" using assms(9) by (metis unat_gt_0)
    show "L < 2 ^ 31" using assms(6) by (simp add: L_def fin_def)
    show "ucast (tcp_input_len t) = (of_nat L :: u32)" unfolding l [symmetric] by simp
  qed
  have quiet_case: "?thesis" if "quiet t t'" "\<not> (next_in r q (tcp_input_len t) \<and> s_rcv_wnd k \<noteq> 0)"
  proof -
    have "same_rcv k (tsock t' s)" using that(1) by (simp add: quiet_def k_def)
    then show ?thesis using that(2) assms(11) unfolding k_def r_def q_def
      by (intro exI [of _ 0]) (auto simp: same_rcv_def rcv_bytes_def)
  qed
  text \<open>The rest of a segment from \<open>d\<close> on is delivered.\<close>
  have deliver: "?thesis"
    if "recv_deliver s g2 t2 = Some (g', t')" "packet_ok (seg_p g2)" "packet_data (seg_p g2) = drop d (packet_data [b])"
      "unat (seg_len g2) = unat (b_len b) - d" "h_flags (seg_hdr g2) = h_flags (seg_hdr g)" "tsock t2 s = k"
      "d \<le> unat (b_len b)" "r = q + of_nat d" for g2 t2 d
  proof -
    have len: "length (packet_data [b]) = unat (b_len b)" using assms(10) by simp
    have D: "rcv_bytes (tsock t' s) = rcv_bytes k @ packet_data (seg_p g2)" "sq_ok 16 (s_queue (tsock t' s))"
      "s_rcv_nxt (tsock t' s) = r + tcp_tcplen g2"
      using recv_deliver_bytes [OF that(1,2)] that(3-6) len assms(6,11,12) by (auto simp: r_def k_def)
    have f: "has (h_flags (seg_hdr g)) 3 = has (h_flags (seg_hdr g)) TCP_FIN"
      using assms(7) by (rule has_fin_syn)
    have "tcp_tcplen g2 = of_nat (unat (seg_len g2)) + of_nat fin"
      by (simp add: tcp_tcplen_def that(5) f fin_def)
    then have tl: "tcp_tcplen g2 = of_nat (unat (b_len b) - d) + of_nat fin" by (simp only: that(4))
    have "packet_data (seg_p g2) = stream str r (unat (b_len b) - d)"
      unfolding that(3) assms(10) drop_stream q_def [symmetric] that(8) ..
    moreover have "r + tcp_tcplen g2 = q + of_nat L"
    proof -
      have "of_nat d + of_nat (unat (b_len b) - d) = (of_nat (unat (b_len b)) :: u32)"
        using that(7) by (simp flip: of_nat_add)
      then show ?thesis unfolding tl that(8) L_def of_nat_add by (simp add: algebra_simps)
    qed
    ultimately show ?thesis using D(1,2,3) L(4) tl unfolding k_def [symmetric] r_def [symmetric] q_def [symmetric]
      by (intro exI [of _ "unat (b_len b) - d"] exI [of _ fin]) (simp add: fin_def add.assoc)
  qed
  show ?thesis
  proof (cases "seq_lt q r")
    case lt: True
    then have nq: "\<not> seq_geq q r" by (simp add: seq_lt_def seq_geq_def)
    show ?thesis
    proof (cases "seq_lt r (q + ucast (tcp_input_len t))")
      case True
      have d: "0 < unat (r - q)" "unat (r - q) < L" "sint (r - q) = int (unat (r - q))"
        using seq_between [OF lt _ L(2,3)] True L(4) by auto
      have dl: "unat (r - q) \<le> unat (b_len b)" using d(2) by (auto simp: L_def fin_def split: if_splits)
      obtain g2 where g2: "recv_trim r q g = Some g2"
        using assms(1) lt True unfolding recv_data_def Let_def k_def [symmetric] r_def [symmetric] q_def [symmetric]
        by (cases "recv_trim r q g") auto
      have G: "packet_ok (seg_p g2)" "packet_data (seg_p g2) = drop (unat (r - q)) (packet_data [b])"
        "unat (seg_len g2) = unat (b_len b) - unat (r - q)" "h_flags (seg_hdr g2) = h_flags (seg_hdr g)"
        using recv_trim_ok [OF g2 assms(3,4) _ assms(6) refl d(3) dl] assms(5) by auto
      define t2 where "t2 = t\<lparr>tcp_input_seqno := r\<rparr>"
      have t2: "tsock t2 s = k" "tcp_input_seqno t2 = r" by (simp_all add: t2_def k_def)
      have rest: "(if seq_geq r r \<and> seq_lt r (r + ucast (s_rcv_wnd k)) then recv_deliver s g2 t2 else Some (g2, t2)) = Some (g', t')"
        using assms(1) lt True g2 unfolding recv_data_def Let_def r_def q_def k_def t2_def
        by (simp cong: if_cong)
      show ?thesis
      proof (cases "s_rcv_wnd k = 0")
        case True
        then have "t' = t2" using rest by (simp add: seq_refl)
        then have "quiet t t' \<or> True" and S: "tsock t' s = k" using t2 by simp_all
        show ?thesis using True S assms(11) unfolding k_def [symmetric]
          by (intro exI [of _ 0]) (auto simp: rcv_bytes_def)
      next
        case False
        then have "recv_deliver s g2 t2 = Some (g', t')" using rest seq_window_open seq_refl(1) by simp
        then show ?thesis using deliver [OF _ G t2(1) dl] by simp
      qed
    next
      case False
      have n: "\<not> next_in r q (tcp_input_len t)" using False by (simp add: next_in_def)
      obtain t2 where t2: "tcp_ack_now s t = Some t2" "quiet t t2" "t' = t2"
      proof -
        obtain t2 where a: "tcp_ack_now s t = Some t2"
          using assms(1) lt False unfolding recv_data_def Let_def k_def [symmetric] r_def [symmetric] q_def [symmetric]
          by (cases "tcp_ack_now s t") auto
        have "quiet t t2" using quiet_output(2) [OF a] .
        moreover have "tcp_input_seqno t2 = q" "s_rcv_nxt (tsock t2 s) = r"
          using \<open>quiet t t2\<close> by (simp_all add: quiet_def same_rcv_def q_def r_def k_def)
        moreover have "t' = t2"
          using assms(1) lt False a nq calculation(2,3)
          unfolding recv_data_def Let_def k_def [symmetric] r_def [symmetric] q_def [symmetric] by simp
        ultimately show ?thesis using that a by blast
      qed
      then show ?thesis using quiet_case n by blast
    qed
  next
    case nlt: False
    have r1: "(if seq_geq q r \<and> seq_lt q (r + ucast (s_rcv_wnd k))
       then (if r = q then recv_deliver s g t else map_option (Pair g) (tcp_ack_now s t)) else Some (g, t)) = Some (g', t')"
      using assms(1) nlt unfolding recv_data_def Let_def r_def q_def k_def by (simp cong: if_cong)
    show ?thesis
    proof (cases "r = q")
      case True
      show ?thesis
      proof (cases "s_rcv_wnd k = 0")
        case w: True
        then have "t' = t" using r1 True by (simp add: seq_refl)
        then show ?thesis using quiet_case w by simp
      next
        case False
        then have "recv_deliver s g t = Some (g', t')" using r1 True seq_window_open seq_refl(1) by simp
        then show ?thesis using deliver [of g t 0] assms(3,4,5) True by (simp add: k_def)
      qed
    next
      case False
      have "\<not> next_in r q (tcp_input_len t)"
      proof
        assume "next_in r q (tcp_input_len t)"
        then have "sint (q - r) = 0" using nlt by (simp add: next_in_def seq_leq_def seq_lt_def)
        then have "q - r = 0" by (metis sint_0 signed_word_eqI)
        then show False using False by simp
      qed
      moreover have "quiet t t'" using r1 False quiet_output(2) by (auto split: if_splits)
      ultimately show ?thesis using quiet_case by blast
    qed
  qed
qed

text \<open>C22: While the receive queue has room, TCP delivers a segment held in one buffer in order. The conditions are: the receive
  queue of the socket is a proper ring with fewer than 16 packets in it; the segment is in a single buffer, shorter than \<open>2 ^ 15\<close>
  bytes, has no \<open>SYN\<close>, and \<open>tcp_input_len\<close> is its length and one more for a \<open>FIN\<close>; its bytes are those of the stream of
  the sender from its sequence number on; and the socket is the one that segment was found to be for. Then when \<open>tcp_receive\<close> returns, it
  has appended to the queue the bytes of the stream from \<open>rcv_nxt\<close> on, as many as \<open>rcv_nxt\<close> advances by, not counting
  the \<open>FIN\<close>, whatever the segment repeats, skips or acknowledges; and a segment that holds the expected byte is taken whole when the
  window is open. Neither condition on the queue and the buffer can be left out: with a full queue the code advances \<open>rcv_nxt\<close>
  and acknowledges bytes that it then drops, and when it trims a packet of several buffers it leaves the total length too large.\<close>

theorem tcp_receive_in_order:
  fixes str :: "u32 \<Rightarrow> u8"
  assumes "tcp_receive s g t = Some (g', t')" "tcp_input_socket t = s" "seg_p g = [b]" "packet_ok [b]"
    "seg_len g = b_len b" "unat (b_len b) < 2 ^ 15" "\<not> has (h_flags (seg_hdr g)) TCP_SYN"
    "tcp_input_len t = b_len b + (if has (h_flags (seg_hdr g)) TCP_FIN then 1 else 0)"
    "packet_data [b] = stream str (tcp_input_seqno t) (unat (b_len b))"
    "sq_ok 16 (s_queue (tsock t s))" "sq_count (s_queue (tsock t s)) < 16"
  shows "\<exists>n fin. fin \<le> (if has (h_flags (seg_hdr g)) TCP_FIN then 1 else 0)
    \<and> s_rcv_nxt (tsock t' s) = s_rcv_nxt (tsock t s) + of_nat n + of_nat fin
    \<and> rcv_bytes (tsock t' s) = rcv_bytes (tsock t s) @ stream str (s_rcv_nxt (tsock t s)) n
    \<and> sq_ok 16 (s_queue (tsock t' s))
    \<and> (next_in (s_rcv_nxt (tsock t s)) (tcp_input_seqno t) (tcp_input_len t) \<and> s_rcv_wnd (tsock t s) \<noteq> 0
        \<longrightarrow> s_rcv_nxt (tsock t' s) = tcp_input_seqno t + ucast (tcp_input_len t))"
proof -
  obtain t1 where t1: "(if has (tcp_input_flags t) TCP_ACK then recv_ack s (seg_hdr g) t else Some t) = Some t1"
    and r: "(if tcp_input_len t1 = 0 then
       (if seq_gt (s_rcv_nxt (tsock t1 s)) (tcp_input_seqno t1)
           \<or> seq_geq (tcp_input_seqno t1) (s_rcv_nxt (tsock t1 s) + ucast (s_rcv_wnd (tsock t1 s)))
        then map_option (Pair g) (tcp_ack_now s t1) else Some (g, t1))
     else recv_data s g t1) = Some (g', t')"
    using assms(1) unfolding tcp_receive_def Let_def by (cases "if has (tcp_input_flags t) TCP_ACK then recv_ack s (seg_hdr g) t else Some t") auto
  have q1: "quiet t t1" using t1 recv_ack_quiet by (auto split: if_splits)
  have e: "s_rcv_nxt (tsock t1 s) = s_rcv_nxt (tsock t s)" "s_rcv_wnd (tsock t1 s) = s_rcv_wnd (tsock t s)"
    "rcv_bytes (tsock t1 s) = rcv_bytes (tsock t s)" "s_queue (tsock t1 s) = s_queue (tsock t s)"
    "tcp_input_socket t1 = s" "tcp_input_len t1 = tcp_input_len t" "tcp_input_seqno t1 = tcp_input_seqno t"
    using q1 assms(2) by (simp_all add: quiet_def same_rcv_def rcv_bytes_def)
  show ?thesis
  proof (cases "tcp_input_len t = 0")
    case True
    have "quiet t1 t'" using r True e(6) quiet_output(2) by (auto split: if_splits)
    from quiet_trans [OF q1 this] have "same_rcv (tsock t s) (tsock t' s)" by (simp add: quiet_def)
    then show ?thesis using assms(10) True by (intro exI [of _ 0]) (auto simp: same_rcv_def rcv_bytes_def next_in_def)
  next
    case False
    have d: "recv_data s g t1 = Some (g', t')" using r unfolding e(6) if_not_P [OF False] .
    show ?thesis
      using recv_data_bytes [OF d e(5) assms(3-7)] assms(8-11) False unfolding e(1-4,6,7) by blast
  qed
qed

text \<open>The first two of four bytes have come before.\<close>

definition recv_example :: tcp_t where
  "recv_example = tcp_example\<lparr>tcp_input_socket := 1, tcp_input_len := 4, tcp_input_seqno := 498\<rparr>"

definition seg_example :: tcp_segment_t where
  "seg_example = \<lparr>seg_p = [\<lparr>b_area = [0, 0, 1, 2, 3, 4], b_off = 2, b_len = 4, b_tot = 4\<rparr>], seg_len = 4,
     seg_hdr = \<lparr>h_src = 4000, h_dest = 80, h_seqno = 498, h_ackno = 0, h_offset = 80, h_flags = 0, h_wnd = 0,
       h_chksum = 0, h_urgp = 0\<rparr>\<rparr>"

lemma receive_example: "\<exists>g' t'. tcp_receive 1 seg_example recv_example = Some (g', t')"
  by (simp add: tcp_receive_def recv_example_def seg_example_def tcp_example_def socket_example_def zero_socket_def has_def
      recv_data_def recv_trim_def buf_add_header_def seq_lt_def seq_geq_def recv_deliver_def deliver_data_def deliver_fin_def
      tcp_ack_def tcp_queue_is_full_def sq_is_full_def tcp_queue_put_def sq_put_def sq_init_def tcp_tcplen_def sock_signal_def
      upd_sock_def Let_def)

lemma tcp_receive_in_order_witness:
  "\<exists>g' t' n. tcp_receive 1 seg_example recv_example = Some (g', t')
    \<and> rcv_bytes (tsock t' 1) = stream (\<lambda>w. ucast (w - 497)) 500 n \<and> s_rcv_nxt (tsock t' 1) = 502"
proof -
  define b where "b = \<lparr>b_area = [0, 0, 1, 2, 3, 4 :: u8], b_off = 2, b_len = 4, b_tot = 4\<rparr>"
  obtain g' t' where r: "tcp_receive 1 seg_example recv_example = Some (g', t')" using receive_example by blast
  have g: "seg_p seg_example = [b]" "packet_ok [b]" "seg_len seg_example = b_len b" "h_flags (seg_hdr seg_example) = 0"
    "unat (b_len b) = 4" "packet_data [b] = [1, 2, 3, 4]"
    by (simp_all add: seg_example_def b_def packet_ok_def buf_ok_def packet_data_def b_data_def)
  have st: "stream (\<lambda>w. ucast (w - 497)) 498 4 = [1, 2, 3, 4 :: u8]" by (simp add: stream_def upt_rec)
  have t: "tcp_input_socket recv_example = 1" "tcp_input_len recv_example = 4" "tcp_input_seqno recv_example = 498"
    "s_queue (tsock recv_example 1) = sq_init" "s_rcv_nxt (tsock recv_example 1) = 500" "s_rcv_wnd (tsock recv_example 1) = 2048"
    by (simp_all add: recv_example_def tcp_example_def socket_example_def zero_socket_def)
  have n: "next_in 500 498 4" by (simp add: next_in_def seq_leq_def seq_lt_def)
  have b4: "b_len b = 4" by (simp add: b_def)
  have q: "sq_ok 16 (sq_init :: packet squeue)" "sq_count (sq_init :: packet squeue) = 0" "rcv_bytes (tsock recv_example 1) = []"
    using t(4) by (simp_all add: rcv_bytes_def) (simp add: sq_init_def)
  show ?thesis
    using tcp_receive_in_order [OF r t(1) g(1,2,3), of "\<lambda>w. ucast (w - 497)"] r g(4-6) t n st b4 q
    by (auto simp: has_def)
qed

end
