(* ===== verification/Tcp_Lists.thy ===== *)
theory Tcp_Lists
  imports Tcp_Deliver
begin

text \<open>
  The axioms of \<open>net/tcp.h\<close> about the lists of sockets: a socket is only in one of the lists, the sockets that
  wait for connections are in the state \<open>LISTEN\<close>, those on their way out in \<open>TIME_WAIT\<close>, and the active ones in one of the
  other states but \<open>CLOSED\<close>. They are kept by the input of segments, by the timers and by the calls, along
  the runs of \<open>stack_step\<close> (theory \<open>Stack_Run\<close>), which leave out the cases in which the code breaks them. A socket that is in no
  list is not covered.
\<close>

definition active_state :: "tcp_state_t \<Rightarrow> bool" where
  "active_state st \<longleftrightarrow> st \<noteq> CLOSED \<and> st \<noteq> LISTEN \<and> st \<noteq> TIME_WAIT"

definition list_type :: "socklist \<Rightarrow> tcp_state_t \<Rightarrow> bool" where
  "list_type w st \<longleftrightarrow> (case w of Active \<Rightarrow> active_state st | Closing \<Rightarrow> st = TIME_WAIT | Listening \<Rightarrow> st = LISTEN)"

definition lists_ok :: "tcp_t \<Rightarrow> bool" where
  "lists_ok t \<longleftrightarrow> 0 < next_sock t \<and> (\<forall>w. distinct (get_list w t) \<and>
     (\<forall>s \<in> set (get_list w t). list_type w (s_state (tsock t s)) \<and> 0 < s \<and> s < next_sock t))"

section \<open>The operations on the lists\<close>

lemma get_set_list [simp]: "get_list w (set_list w' l t) = (if w' = w then l else get_list w t)"
  "tsock (set_list w' l t) = tsock t" "next_sock (set_list w' l t) = next_sock t"
  by (auto simp: get_list_def set_list_def split: socklist.splits)

lemma get_list_upd [simp]: "get_list w (upd_sock s f t) = get_list w t" "get_list w (upd_net g t) = get_list w t"
  "next_sock (upd_sock s f t) = next_sock t" "next_sock (upd_net g t) = next_sock t"
  "get_list w (sock_signal s t) = get_list w t" "next_sock (sock_signal s t) = next_sock t"
  "s_state (tsock (sock_signal s t) x) = s_state (tsock t x)"
  by (auto simp: get_list_def upd_sock_def upd_net_def sock_signal_def split: socklist.splits)

lemma get_set_next [simp]: "get_list w (set_next s l t) = link_to s l (get_list w t)" "tsock (set_next s l t) = tsock t"
  "next_sock (set_next s l t) = next_sock t"
  by (auto simp: get_list_def set_next_def split: socklist.splits)

lemma set_state_simps [simp]: "get_list w (tcp_set_socket_state s st t) = get_list w t"
  "next_sock (tcp_set_socket_state s st t) = next_sock t"
  "s_state (tsock (tcp_set_socket_state s st t) x) = (if x = s then st else s_state (tsock t x))"
  by (auto simp: tcp_set_socket_state_def sock_signal_def)

lemma link_to_notin: "s \<notin> set xs \<Longrightarrow> link_to s l xs = xs"
  by (simp add: link_to_def)

text \<open>A socket is in one list at most, the list of its state.\<close>

lemma list_type_unique: "list_type w st \<Longrightarrow> list_type w' st \<Longrightarrow> w = w'"
  by (cases w; cases w') (auto simp: list_type_def active_state_def)

lemma lists_ok_unique: "lists_ok t \<Longrightarrow> s \<in> set (get_list w t) \<Longrightarrow> s \<in> set (get_list w' t) \<Longrightarrow> w = w'"
  using list_type_unique unfolding lists_ok_def by blast

lemma lists_ok_notin: "lists_ok t \<Longrightarrow> \<not> list_type w (s_state (tsock t s)) \<Longrightarrow> s \<notin> set (get_list w t)"
  unfolding lists_ok_def by blast

lemma lists_ok_distinct: "lists_ok t \<Longrightarrow> distinct (get_list w t)"
  by (simp add: lists_ok_def)

lemma lists_ok_same:
  assumes "same_lists t t'" "lists_ok t"
  shows "lists_ok t'"
proof -
  have "get_list w t' = get_list w t" for w using assms(1) by (cases w) (simp_all add: same_lists_def get_list_def)
  then show ?thesis using assms by (simp add: lists_ok_def same_lists_def)
qed

lemma lists_ok_state:
  assumes "lists_ok t" "\<And>w. s \<in> set (get_list w t) \<Longrightarrow> list_type w st"
  shows "lists_ok (tcp_set_socket_state s st t)"
  using assms by (simp add: lists_ok_def)

text \<open>\<open>s\<close> is in no other list than \<open>w\<close>.\<close>

definition only_in :: "socklist \<Rightarrow> nat \<Rightarrow> tcp_t \<Rightarrow> bool" where
  "only_in w s t \<longleftrightarrow> (\<forall>w'. w' \<noteq> w \<longrightarrow> s \<notin> set (get_list w' t))"

lemma only_in_type: "lists_ok t \<Longrightarrow> list_type w (s_state (tsock t s)) \<Longrightarrow> only_in w s t"
  using list_type_unique lists_ok_notin unfolding only_in_def by blast

lemma only_in_closed: "lists_ok t \<Longrightarrow> s_state (tsock t s) = CLOSED \<Longrightarrow> only_in w s t"
proof -
  assume "lists_ok t" "s_state (tsock t s) = CLOSED"
  moreover have "\<not> list_type w' CLOSED" for w' by (cases w') (simp_all add: list_type_def active_state_def)
  ultimately show ?thesis unfolding only_in_def using lists_ok_notin by metis
qed

lemma list_remove_gets:
  assumes "lists_ok t" "only_in w s t"
  shows "get_list w' (tcp_list_remove w s t) = (if w' = w then remove1 s (get_list w t) else get_list w' t)"
    "tsock (tcp_list_remove w s t) = tsock t" "next_sock (tcp_list_remove w s t) = next_sock t"
proof -
  have "s \<notin> set (get_list w' t)" if "w' \<noteq> w"
    using assms(2) that by (simp add: only_in_def)
  moreover have "s \<notin> set (remove1 s (get_list w t))" using lists_ok_distinct [OF assms(1)] by simp
  ultimately show "get_list w' (tcp_list_remove w s t) = (if w' = w then remove1 s (get_list w t) else get_list w' t)"
    by (auto simp: tcp_list_remove_def link_to_notin)
  show "tsock (tcp_list_remove w s t) = tsock t" "next_sock (tcp_list_remove w s t) = next_sock t"
    by (simp_all add: tcp_list_remove_def)
qed

lemma list_add_gets:
  assumes "\<And>w. s \<notin> set (get_list w t)"
  shows "get_list w' (tcp_list_add w s t) = (if w' = w then s # get_list w t else get_list w' t)"
    "tsock (tcp_list_add w s t) = tsock t" "next_sock (tcp_list_add w s t) = next_sock t"
  using assms by (auto simp: tcp_list_add_def Let_def link_to_notin)

text \<open>Taking a socket out of its list.\<close>

lemma removed:
  assumes "lists_ok t" "only_in w s t"
  shows "lists_ok (tcp_list_remove w s t)" "s \<notin> set (get_list w' (tcp_list_remove w s t))"
proof -
  note g = list_remove_gets [OF assms]
  show "lists_ok (tcp_list_remove w s t)"
    unfolding lists_ok_def g using assms(1) by (auto simp: lists_ok_def dest: notin_set_remove1 in_set_remove1 [THEN iffD1, rotated])
  show "s \<notin> set (get_list w' (tcp_list_remove w s t))"
    using assms(2) lists_ok_distinct [OF assms(1)] by (simp add: g only_in_def)
qed

lemma lists_ok_add:
  assumes "lists_ok t" "\<And>w. s \<notin> set (get_list w t)" "list_type w (s_state (tsock t s))" "0 < s" "s < next_sock t"
  shows "lists_ok (tcp_list_add w s t)"
  unfolding lists_ok_def list_add_gets [OF assms(2)] using assms by (auto simp: lists_ok_def)

section \<open>Steps that keep the lists as they are\<close>

lemma same_sock: "s_state (f (tsock t s)) = s_state (tsock t s) \<Longrightarrow> same_lists t (upd_sock s f t)"
  by (auto simp: same_lists_def upd_sock_def)

lemma same_net [simp]: "same_lists t (upd_net f t)" and same_signal [simp]: "same_lists t (sock_signal s t)"
  by (simp_all add: same_lists_def upd_net_def sock_signal_def upd_sock_def)

lemma same_frame: "out_frame s t t' \<Longrightarrow> same_lists t t'"
  by (intro quiet_lists quiet_frame)

lemmas same_output = same_frame [OF tcp_output_frame] same_frame [OF ack_now_frame] same_frame [OF ack_frame]

lemma queue_get_state:
  assumes "tcp_queue_get k = Some (p, k')"
  shows "s_state k' = s_state k"
proof -
  obtain x q where x: "sq_get 16 (s_queue k) = Some (x, q)"
    using assms by (cases "sq_get 16 (s_queue k)") (auto simp: tcp_queue_get_def)
  show ?thesis
  proof (cases x)
    case None
    then show ?thesis using assms x by (simp add: tcp_queue_get_def)
  next
    case (Some p')
    obtain w where "k\<lparr>s_queue := q, s_rcv_wnd := w\<rparr> = k'"
      using assms x Some unfolding tcp_queue_get_def Let_def by (cases "p' = []") auto
    then show ?thesis by (rule subst) simp
  qed
qed

lemma queue_state:
  "tcp_queue_put p k = Some k' \<Longrightarrow> s_state k' = s_state k" "tcp_queue_free k = Some k' \<Longrightarrow> s_state k' = s_state k"
  by (auto simp: tcp_queue_put_def tcp_queue_free_def)

lemma same_deliver_data: "deliver_data s g t = Some (g', t') \<Longrightarrow> same_lists t t'"
proof -
  assume d: "deliver_data s g t = Some (g', t')"
  have c: "t' = t \<or> t' = count_in_error t \<or> (\<exists>k. tcp_queue_put (seg_p g) (tsock t s) = Some k \<and> t' = sock_signal s (upd_sock s (\<lambda>_. k) t))"
    using d by (auto simp: deliver_data_def split: if_splits)
  have "same_lists t (sock_signal s (upd_sock s (\<lambda>_. k) t))" if "tcp_queue_put (seg_p g) (tsock t s) = Some k" for k
    using same_lists_trans [OF same_sock same_signal] queue_state(1) [OF that] by simp
  then show ?thesis using c by (auto simp: count_in_error_def)
qed

lemma same_deliver_fin:
  assumes "deliver_fin s g t = Some t'"
  shows "same_lists t t'"
proof -
  obtain p m where a: "buf_alloc 0 0 (pool (tnet t)) = (p, m)" by fastforce
  define t1 where "t1 = upd_net (\<lambda>n. n\<lparr>pool := m\<rparr>) t"
  have c: "t' = t \<or> t' = count_in_error t \<or> t' = count_in_error t1
    \<or> (\<exists>k. tcp_queue_put p (tsock t s) = Some k \<and> sock_signal s (upd_sock s (\<lambda>_. k) t1) = t')"
    using assms unfolding deliver_fin_def a t1_def by (cases p) (auto split: if_splits)
  have 1: "same_lists t t1" "tsock t1 = tsock t" by (simp_all add: t1_def)
  have "same_lists t (sock_signal s (upd_sock s (\<lambda>_. k) t1))" if "tcp_queue_put p (tsock t s) = Some k" for k
  proof -
    have "same_lists t1 (upd_sock s (\<lambda>_. k) t1)" using queue_state(1) [OF that] 1(2) by (simp add: same_sock)
    then show ?thesis using 1(1) same_signal same_lists_trans by blast
  qed
  moreover have "same_lists t (count_in_error t1)" using same_lists_trans [OF 1(1) same_net] by (simp add: count_in_error_def)
  ultimately show ?thesis using c by (auto simp: count_in_error_def)
qed

lemma same_recv_deliver:
  assumes "recv_deliver s g t = Some (g', t')"
  shows "same_lists t t'"
proof -
  define len :: u16 where "len = ucast (tcp_tcplen g)"
  define t0 where "t0 = t\<lparr>tcp_input_len := len\<rparr>"
  define t1 where "t1 = upd_sock s (\<lambda>k. k\<lparr>s_rcv_nxt := s_rcv_nxt k + ucast len,
    s_rcv_wnd := (if s_rcv_wnd k < len then 0 else s_rcv_wnd k - len)\<rparr>) t0"
  obtain t2 t3 where t2: "deliver_data s g t1 = Some (g', t2)" and t3: "deliver_fin s g' t2 = Some t3" "tcp_ack s t3 = Some t'"
    using assms(1) unfolding recv_deliver_def Let_def len_def [symmetric] t0_def [symmetric] t1_def [symmetric]
    by (auto simp: bind_eq_Some_conv)
  have "same_lists t t0" by (simp add: t0_def same_lists_def)
  moreover have "same_lists t0 t1" unfolding t1_def by (rule same_sock) simp
  ultimately show ?thesis
    using same_deliver_data [OF t2] same_deliver_fin [OF t3(1)] same_output(3) [OF t3(2)] same_lists_trans by blast
qed

lemma same_recv_data:
  assumes "recv_data s g t = Some (g', t')"
  shows "same_lists t t'"
proof -
  define r where "r = s_rcv_nxt (tsock t s)"
  obtain g1 t1 where 1: "(if seq_lt (tcp_input_seqno t) r then
             (if seq_lt r (tcp_input_seqno t + ucast (tcp_input_len t))
              then map_option (\<lambda>g. (g, t\<lparr>tcp_input_seqno := r\<rparr>)) (recv_trim r (tcp_input_seqno t) g)
              else map_option (Pair g) (tcp_ack_now s t))
           else Some (g, t)) = Some (g1, t1)"
    and 2: "recv_deliver s g1 t1 = Some (g', t') \<or> tcp_ack_now s t1 = Some t' \<or> t' = t1"
    using assms unfolding recv_data_def Let_def r_def [symmetric] by (auto simp: bind_eq_Some_conv split: if_splits)
  have "same_lists t t1"
    using 1 same_output(2) by (auto simp: same_lists_def split: if_splits)
  moreover have "same_lists t1 t'" using 2 same_recv_deliver same_output(2) same_lists_refl by blast
  ultimately show ?thesis using same_lists_trans by blast
qed

lemma same_receive:
  assumes "tcp_receive s g t = Some (g', t')"
  shows "same_lists t t'"
proof -
  obtain t1 where 1: "(if has (tcp_input_flags t) TCP_ACK then recv_ack s (seg_hdr g) t else Some t) = Some t1"
    and 2: "recv_data s g t1 = Some (g', t') \<or> tcp_ack_now s t1 = Some t' \<or> t' = t1"
    using assms unfolding tcp_receive_def Let_def by (auto simp: bind_eq_Some_conv split: if_splits)
  have "same_lists t t1" using 1 quiet_lists [OF recv_ack_quiet] by (auto split: if_splits)
  moreover have "same_lists t1 t'" using 2 same_recv_data same_output(2) same_lists_refl by blast
  ultimately show ?thesis using same_lists_trans by blast
qed

section \<open>The state machine\<close>

lemma list_type_simps [simp]: "list_type Active st = active_state st" "list_type Closing st \<longleftrightarrow> st = TIME_WAIT"
  "list_type Listening st \<longleftrightarrow> st = LISTEN"
  by (simp_all add: list_type_def)

lemma active_simps [simp]: "active_state SYN_SENT" "active_state SYN_RCVD" "active_state ESTABLISHED" "active_state FIN_WAIT_1"
  "active_state FIN_WAIT_2" "active_state CLOSE_WAIT" "active_state CLOSING" "active_state LAST_ACK" "\<not> active_state CLOSED"
  "\<not> active_state LISTEN" "\<not> active_state TIME_WAIT"
  by (simp_all add: active_state_def)

definition on_active :: "nat \<Rightarrow> tcp_t \<Rightarrow> bool" where
  "on_active s t \<longleftrightarrow> lists_ok t \<and> s \<in> set (tcp_sockets t)"

lemma on_active_same: "on_active s t \<Longrightarrow> same_lists t t' \<Longrightarrow> on_active s t'"
  using lists_ok_same by (auto simp: on_active_def same_lists_def)

lemma on_active_type:
  assumes "on_active s t"
  shows "active_state (s_state (tsock t s))" "s \<in> set (get_list w t) \<longleftrightarrow> w = Active" "0 < s" "s < next_sock t"
proof -
  have a: "s \<in> set (get_list Active t)" using assms by (simp add: on_active_def get_list_def)
  then show "s \<in> set (get_list w t) \<longleftrightarrow> w = Active" using assms lists_ok_unique by (auto simp: on_active_def)
  show "active_state (s_state (tsock t s))" "0 < s" "s < next_sock t"
    using a assms unfolding on_active_def lists_ok_def by (metis list_type_simps(1))+
qed

lemma set_active:
  assumes "on_active s t" "active_state st"
  shows "on_active s (tcp_set_socket_state s st t)"
proof -
  have "lists_ok (tcp_set_socket_state s st t)"
    using assms on_active_type(2) [OF assms(1)] by (intro lists_ok_state) (auto simp: on_active_def)
  moreover have "tcp_sockets (tcp_set_socket_state s st t) = tcp_sockets t"
    by (simp add: tcp_set_socket_state_def sock_signal_def upd_sock_def)
  ultimately show ?thesis using assms(1) by (simp add: on_active_def)
qed

lemma to_closing:
  assumes "on_active s t"
  shows "lists_ok (tcp_list_add Closing s (tcp_set_socket_state s TIME_WAIT (tcp_list_remove Active s t)))"
proof -
  have ok: "lists_ok t" "only_in Active s t" using assms on_active_type(2) [OF assms] by (simp_all add: on_active_def only_in_def)
  define t1 where "t1 = tcp_set_socket_state s TIME_WAIT (tcp_list_remove Active s t)"
  have n: "s \<notin> set (get_list w t1)" for w using removed(2) [OF ok] by (simp add: t1_def)
  have "lists_ok t1" using removed [OF ok] unfolding t1_def by (intro lists_ok_state) auto
  moreover have "0 < s" "s < next_sock t1" "list_type Closing (s_state (tsock t1 s))"
    using on_active_type(3,4) [OF assms] list_remove_gets(3) [OF ok] by (simp_all add: t1_def)
  ultimately show ?thesis using lists_ok_add [OF _ n] unfolding t1_def by blast
qed

lemma remove_ok:
  assumes "tcp_socket_remove w s t = Some t'" "lists_ok t" "only_in w s t"
  shows "lists_ok t' \<and> (\<forall>w. s \<notin> set (get_list w t')) \<and> next_sock t' = next_sock t"
proof -
  define t1 where "t1 = tcp_socket_purge s (tcp_list_remove w s t)"
  define C where "C \<longleftrightarrow> s_state (tsock t1 s) \<noteq> TIME_WAIT \<and> s_state (tsock t1 s) \<noteq> LISTEN \<and> has (s_flags (tsock t1 s)) TF_ACK_DELAY"
  obtain t2 where 2: "(if C then map_option snd (tcp_output s (upd_sock s (\<lambda>k. k\<lparr>s_flags := s_flags k OR TF_ACK_NOW\<rparr>) t1)) else Some t1) = Some t2"
    and t': "t' = tcp_set_socket_state s CLOSED t2"
    using assms(1) unfolding tcp_socket_remove_def Let_def t1_def [symmetric] C_def [symmetric] by (auto simp: bind_eq_Some_conv)
  have p: "same_lists (tcp_list_remove w s t) t1" unfolding t1_def tcp_socket_purge_def by (rule same_sock) simp
  have "same_lists t1 t2"
  proof (cases C)
    case True
    define t3 where "t3 = upd_sock s (\<lambda>k. k\<lparr>s_flags := s_flags k OR TF_ACK_NOW\<rparr>) t1"
    obtain b where "tcp_output s t3 = Some (b, t2)" using 2 True unfolding t3_def by auto
    moreover have "same_lists t1 t3" unfolding t3_def by (rule same_sock) simp
    ultimately show ?thesis using same_output(1) same_lists_trans by blast
  qed (use 2 in simp)
  then have 3: "same_lists (tcp_list_remove w s t) t2" using p same_lists_trans by blast
  have g: "get_list w' t2 = get_list w' (tcp_list_remove w s t)" for w'
    using 3 by (cases w') (simp_all add: same_lists_def get_list_def)
  have "lists_ok t2" using lists_ok_same [OF 3] removed(1) [OF assms(2,3)] .
  then have "lists_ok t'" unfolding t' using removed(2) [OF assms(2,3)] g by (intro lists_ok_state) auto
  then show ?thesis using removed(2) [OF assms(2,3)] g 3 list_remove_gets(3) [OF assms(2,3)] by (simp add: t' same_lists_def)
qed

lemma close_time_wait_ok: "close_time_wait s t = Some t' \<Longrightarrow> on_active s t \<Longrightarrow> lists_ok t'"
  using on_active_same [OF _ same_output(2)] to_closing by (auto simp: close_time_wait_def bind_eq_Some_conv)

lemma on_active_ok: "on_active s t \<Longrightarrow> lists_ok t"
  by (simp add: on_active_def)

lemma ack_now_set:
  "tcp_ack_now s t = Some t1 \<Longrightarrow> on_active s t \<Longrightarrow> active_state st \<Longrightarrow> lists_ok (tcp_set_socket_state s st t1)"
  using on_active_same [OF _ same_output(2)] set_active on_active_ok by blast

lemma process_received_ok:
  assumes "process_received st s t = Some t'" "on_active s t"
  shows "lists_ok t'"
proof -
  have ok: "lists_ok t" "active_state (s_state (tsock t s))" using assms(2) on_active_ok on_active_type(1) by blast+
  have fw: "lists_ok t'" if "process_fin_wait_1 s t = Some t'"
    using that close_time_wait_ok [OF _ assms(2)] ack_now_set [OF _ assms(2), of _ CLOSING] ok
      on_active_ok [OF set_active [OF assms(2), of FIN_WAIT_2]]
    by (auto simp: process_fin_wait_1_def split: if_splits)
  show ?thesis
    using assms(1) fw close_time_wait_ok [OF _ assms(2)] ack_now_set [OF _ assms(2), of _ CLOSE_WAIT] ok remove_ok [of Active s t t']
      only_in_type [OF ok(1), of Active s]
    by (cases st) (auto simp: process_received_def split: if_splits)
qed

lemma process_syn_sent_ok:
  assumes "process_syn_sent s h opts t = Some t'" "on_active s t"
  shows "lists_ok t'"
proof -
  have parse: "s_state k' = s_state k" if "tcp_parseopt off os k = Some k'" for off os k k'
    using that by (auto simp: tcp_parseopt_def split: if_splits)
  consider "t' = t" | k k0 t1 where "tcp_parseopt (h_offset h) opts k0 = Some k" "s_state k0 = s_state (tsock t s)"
      "tcp_ack s (tcp_set_socket_state s ESTABLISHED (upd_sock s (\<lambda>_. k) t)) = Some t1" "t' = sock_signal s t1"
    using assms(1) unfolding process_syn_sent_def Let_def
    by (simp add: bind_eq_Some_conv split: if_splits) fastforce+
  then show ?thesis
  proof cases
    case 1
    then show ?thesis using assms(2) on_active_ok by simp
  next
    case 2
    have "on_active s (upd_sock s (\<lambda>_. k) t)"
      using parse [OF 2(1)] 2(2) by (intro on_active_same [OF assms(2)] same_sock) simp
    then have "on_active s (tcp_set_socket_state s ESTABLISHED (upd_sock s (\<lambda>_. k) t))" by (rule set_active) simp
    from on_active_same [OF this same_output(3) [OF 2(3)]] show ?thesis
      unfolding 2(4) using on_active_ok on_active_same same_signal by blast
  qed
qed

lemma process_syn_rcvd_ok:
  assumes "process_syn_rcvd s g t = Some (g', t')" "on_active s t"
  shows "lists_ok t'"
proof -
  consider "t' = t" | g1 t1 where "tcp_receive s g (tcp_set_socket_state s ESTABLISHED t) = Some (g1, t1)"
      "t' = upd_sock s (\<lambda>k. k\<lparr>s_cwnd := s_mss k\<rparr>) t1"
    using assms(1) unfolding process_syn_rcvd_def Let_def by (auto simp: bind_eq_Some_conv split: if_splits)
  then show ?thesis
  proof cases
    case 1
    then show ?thesis using assms(2) on_active_ok by simp
  next
    case 2
    have "on_active s (tcp_set_socket_state s ESTABLISHED t)" using assms(2) by (rule set_active) simp
    then have "on_active s t1" using same_receive [OF 2(1)] by (rule on_active_same)
    then have "lists_ok t1" by (rule on_active_ok)
    moreover have "same_lists t1 t'" unfolding 2(2) by (rule same_sock) simp
    ultimately show ?thesis using lists_ok_same by blast
  qed
qed

lemma process_ok:
  assumes "tcp_process s g opts t = Some (g', t')" "on_active s t"
  shows "lists_ok t'"
proof (cases "has (tcp_input_flags t) TCP_RST")
  case True
  have a: "only_in Active s t" using on_active_type(2) [OF assms(2)] by (simp add: only_in_def)
  consider "t' = t" | t1 where "tcp_socket_remove Active s t = Some t1"
      "t' = upd_sock s (\<lambda>k. k\<lparr>s_flags := s_flags k AND NOT TF_ACK_DELAY\<rparr>) t1"
    using assms(1) True by (auto simp: tcp_process_def Let_def bind_eq_Some_conv split: if_splits)
  then show ?thesis
  proof cases
    case 1
    then show ?thesis using assms(2) on_active_ok by simp
  next
    case 2
    have "lists_ok t1" using remove_ok [OF 2(1) on_active_ok [OF assms(2)] a] by simp
    moreover have "same_lists t1 t'" unfolding 2(2) by (rule same_sock) simp
    ultimately show ?thesis using lists_ok_same by blast
  qed
next
  case False
  define t1 where "t1 = upd_sock s (\<lambda>k. k\<lparr>s_tmr := tcp_ticks t\<rparr>) t"
  have 1: "on_active s t1" unfolding t1_def by (rule on_active_same [OF assms(2)], rule same_sock) simp
  have rest: "lists_ok t'" if h: "tcp_receive s g t1 \<bind> (\<lambda>(g, t). process_received st s t \<bind> (\<lambda>t. Some (g, t))) = Some (g', t')" for st
  proof -
    obtain g2 t2 where 2: "tcp_receive s g t1 = Some (g2, t2)" "process_received st s t2 = Some t'"
      using h by (auto simp: bind_eq_Some_conv)
    show ?thesis using process_received_ok [OF 2(2)] on_active_same [OF 1 same_receive [OF 2(1)]] by blast
  qed
  show ?thesis
    using assms(1) False rest on_active_ok [OF 1] process_syn_sent_ok [OF _ 1] process_syn_rcvd_ok [OF _ 1]
    unfolding tcp_process_def Let_def t1_def [symmetric]
    by (cases "s_state (tsock t s)") auto
qed

section \<open>Input\<close>

lemma find_checked_in: "find_checked ok P sock ss = Some (Some s) \<Longrightarrow> s \<in> set ss"
  by (induction ss) (auto simp: bind_eq_Some_conv split: if_splits)

lemma find_checked_total: "\<forall>s \<in> set ss. ok (s_state (sock s)) \<Longrightarrow> find_checked ok P sock ss \<noteq> None"
  by (induction ss) auto

text \<open>A socket may be moved to the front of its list.\<close>

lemma to_front_ok:
  assumes "lists_ok t" "s \<in> set (get_list w t)"
  shows "lists_ok (set_list w (s # remove1 s (get_list w t)) t)"
proof -
  have "distinct (s # remove1 s (get_list w t))" "set (s # remove1 s (get_list w t)) = set (get_list w t)"
    using assms(2) lists_ok_distinct [OF assms(1), of w] by (auto simp: insert_absorb)
  then show ?thesis using assms unfolding lists_ok_def get_set_list by metis
qed

lemma find_active_ok:
  assumes "find_active_socket h src dest t = Some (r, t')" "lists_ok t"
  shows "case r of None \<Rightarrow> t' = t | Some s \<Rightarrow> on_active s t'"
proof -
  obtain r' where f: "find_checked (\<lambda>st. st \<noteq> CLOSED \<and> st \<noteq> TIME_WAIT \<and> st \<noteq> LISTEN) (\<lambda>k. tcp_match k h src dest) (tsock t) (tcp_sockets t)
      = Some r'" and r: "(case r' of None \<Rightarrow> Some (None, t)
        | Some s \<Rightarrow> Some (Some s, t\<lparr>tcp_sockets := s # remove1 s (tcp_sockets t)\<rparr>)) = Some (r, t')"
    using assms(1) unfolding find_active_socket_def by (auto simp: bind_eq_Some_conv)
  show ?thesis
  proof (cases r')
    case None
    then show ?thesis using r by auto
  next
    case (Some s)
    have "s \<in> set (get_list Active t)" using find_checked_in f Some by (auto simp: get_list_def)
    from to_front_ok [OF assms(2) this] show ?thesis using r Some by (auto simp: on_active_def set_list_def get_list_def)
  qed
qed

lemma find_listen_ok:
  assumes "find_listen_socket h dest t = Some (r, t')" "lists_ok t"
  shows "lists_ok t'"
proof -
  obtain r' where f: "find_checked (\<lambda>st. True) (\<lambda>k. listen_match k h dest) (tsock t) (tcp_listen_sockets t) = Some r'"
    and r: "(case r' of None \<Rightarrow> Some (None, t)
        | Some s \<Rightarrow> Some (Some s, t\<lparr>tcp_listen_sockets := s # remove1 s (tcp_listen_sockets t)\<rparr>)) = Some (r, t')"
    using assms(1) unfolding find_listen_socket_def by (auto simp: bind_eq_Some_conv)
  show ?thesis
  proof (cases r')
    case None
    then show ?thesis using r assms(2) by simp
  next
    case (Some s)
    have "s \<in> set (get_list Listening t)" using find_checked_in f Some by (auto simp: get_list_def)
    from to_front_ok [OF assms(2) this] show ?thesis using r Some by (auto simp: set_list_def get_list_def)
  qed
qed

lemma same_rst: "tcp_rst a b c d e f t = Some t' \<Longrightarrow> same_lists t t'"
  using send_empty_net same_net by (fastforce simp: tcp_rst_def)

lemma input_active_ok:
  assumes "input_active s p h opts t = Some t'" "on_active s t"
  shows "lists_ok t'"
proof -
  define t0 where "t0 = t\<lparr>tcp_input_socket := s\<rparr>"
  obtain g t1 where 1: "tcp_process s \<lparr>seg_p = p, seg_len = b_tot (hd p), seg_hdr = h\<rparr> opts t0 = Some (g, t1)"
    and 2: "(if s_unsent (tsock t1 s) \<noteq> [] \<or> has (s_flags (tsock t1 s)) TF_ACK_NOW
      then map_option snd (tcp_output s (t1\<lparr>tcp_input_socket := 0\<rparr>)) else Some (t1\<lparr>tcp_input_socket := 0\<rparr>)) = Some t'"
    using assms(1) unfolding input_active_def t0_def by (auto simp: bind_eq_Some_conv Let_def)
  have "on_active s t0" by (rule on_active_same [OF assms(2)]) (simp add: same_lists_def t0_def)
  then have "lists_ok t1" using process_ok [OF 1] by blast
  then have "lists_ok (t1\<lparr>tcp_input_socket := 0\<rparr>)" by (rule lists_ok_same [rotated]) (simp add: same_lists_def)
  moreover consider "t' = t1\<lparr>tcp_input_socket := 0\<rparr>" | b where "tcp_output s (t1\<lparr>tcp_input_socket := 0\<rparr>) = Some (b, t')"
    using 2 by (cases "s_unsent (tsock t1 s) \<noteq> [] \<or> has (s_flags (tsock t1 s)) TF_ACK_NOW") auto
  ultimately show ?thesis by cases (blast intro: lists_ok_same same_output(1))+
qed

lemma same_input_closing:
  assumes "input_closing s t = Some t'"
  shows "same_lists t t'"
proof -
  define n where "n = tcp_input_seqno t + ucast (tcp_input_len t)"
  define t1 where "t1 = (if seq_gt n (s_rcv_nxt (tsock t s)) then upd_sock s (\<lambda>k. k\<lparr>s_rcv_nxt := n\<rparr>) t else t)"
  obtain t2 b where 2: "(if tcp_input_len t > 0 then tcp_ack_now s t1 else Some t1) = Some t2" "tcp_output s t2 = Some (b, t')"
  proof -
    have "tcp_input_len t1 = tcp_input_len t" by (simp add: t1_def upd_sock_def)
    then show ?thesis using that assms unfolding input_closing_def Let_def n_def [symmetric] t1_def [symmetric]
      by (auto simp: bind_eq_Some_conv)
  qed
  have "same_lists t t1" unfolding t1_def using same_sock [of "\<lambda>k. k\<lparr>s_rcv_nxt := n\<rparr>" t s] by simp
  moreover have "same_lists t1 t2" using 2(1) same_output(2) by (auto split: if_splits)
  ultimately show ?thesis using same_output(1) [OF 2(2)] same_lists_trans by blast
qed

lemma same_input_listen:
  assumes "input_listen s p off h src dest t = Some t'"
  shows "same_lists t t'"
proof -
  have q: "same_lists t (sock_signal s (upd_sock s (\<lambda>_. k) t))" if "tcp_queue_put x (tsock t s) = Some k" for x k
  proof -
    have "same_lists t (upd_sock s (\<lambda>_. k) t)" using queue_state(1) [OF that] by (intro same_sock) simp
    then show ?thesis using same_signal same_lists_trans by blast
  qed
  show ?thesis
  proof (cases "has (tcp_input_flags t) TCP_ACK")
    case True
    then show ?thesis using assms same_rst by (simp add: input_listen_def)
  next
    case a: False
    show ?thesis
    proof (cases "has (tcp_input_flags t) TCP_SYN \<and> \<not> tcp_queue_is_full (tsock t s)")
      case True
      then obtain k where "tcp_queue_put ((hd p)\<lparr>b_off := off\<rparr> # tl p) (tsock t s) = Some k"
        "sock_signal s (upd_sock s (\<lambda>_. k) t) = t'" using assms a by (auto simp: input_listen_def)
      then show ?thesis using q by blast
    next
      case False
      then show ?thesis using assms a by (auto simp: input_listen_def count_in_error_def split: if_splits)
    qed
  qed
qed

lemma demux_ok:
  assumes "tcp_demux p off h opts src dest t = Some t'" "lists_ok t"
  shows "lists_ok t'"
proof -
  obtain r t1 where f: "find_active_socket h src dest t = Some (r, t1)"
    using assms(1) by (cases "find_active_socket h src dest t") (auto simp: tcp_demux_def)
  show ?thesis
  proof (cases r)
    case (Some s)
    then have "input_active s p h opts t1 = Some t'" "on_active s t1"
      using assms f find_active_ok [OF f assms(2)] by (auto simp: tcp_demux_def)
    then show ?thesis by (rule input_active_ok)
  next
    case None
    then have "t1 = t" using find_active_ok [OF f assms(2)] by simp
    obtain r2 where f2: "find_closing_socket h src dest t = Some r2"
      using assms(1) f None \<open>t1 = t\<close> by (cases "find_closing_socket h src dest t") (auto simp: tcp_demux_def)
    show ?thesis
    proof (cases r2)
      case (Some s)
      then have "input_closing s t = Some t'" using assms(1) f f2 None \<open>t1 = t\<close> by (auto simp: tcp_demux_def)
      then show ?thesis using lists_ok_same same_input_closing assms(2) by blast
    next
      case r2: None
      obtain r3 t3 where f3: "find_listen_socket h dest t = Some (r3, t3)"
        using assms(1) f f2 None r2 \<open>t1 = t\<close> by (cases "find_listen_socket h dest t") (auto simp: tcp_demux_def)
      have 3: "lists_ok t3" using find_listen_ok [OF f3 assms(2)] .
      have "(\<exists>s. input_listen s p off h src dest t3 = Some t') \<or> t' = t3
          \<or> (\<exists>a b. tcp_rst a b dest src (h_dest h) (h_src h) t3 = Some t')"
        using assms(1) f f2 f3 None r2 \<open>t1 = t\<close> by (cases r3) (auto simp: tcp_demux_def split: if_splits)
      then show ?thesis using 3 lists_ok_same same_input_listen same_rst by blast
    qed
  qed
qed

lemma input_ok:
  assumes "tcp_input p src dest t = Some t'" "lists_ok t"
  shows "lists_ok t'"
proof -
  define t1 where "t1 = upd_net (count Tcp_in_datagrams) t"
  have 1: "lists_ok t1" using lists_ok_same [OF same_net assms(2)] by (simp add: t1_def)
  then have 2: "lists_ok (count_in_error t1)" using lists_ok_same [OF same_net] by (simp add: count_in_error_def)
  have 3: "lists_ok t'" if "tcp_demux q off h opts src dest
      (t1\<lparr>tcp_input_seqno := a, tcp_input_ackno := b, tcp_input_flags := c, tcp_input_len := d\<rparr>) = Some t'" for q off h opts a b c d
    using that by (rule demux_ok) (rule lists_ok_same [OF _ 1], simp add: same_lists_def)
  show ?thesis
    using assms(1) unfolding tcp_input_def t1_def [symmetric] Let_def
    by (insert 1, simp only: bind_eq_Some_conv, elim exE conjE) (auto simp: bind_eq_Some_conv 2 intro: 3 split: if_split_asm)
qed

end
