(* ===== verification/Tcp_Run.thy ===== *)
theory Tcp_Run
  imports Tcp_Lists
begin

text \<open>
  The timers and the task of IP keep the axioms of the lists of sockets, unless the slow timer gives a socket up
  in the round in which it also moves it to the closing sockets (\<open>slow_clash\<close>).
\<close>

section \<open>The timers\<close>

text \<open>From \<open>t\<close> to \<open>t'\<close> only the socket \<open>s\<close> and the network change, and \<open>s\<close> keeps its state and its time.\<close>

definition own_change :: "nat \<Rightarrow> tcp_t \<Rightarrow> tcp_t \<Rightarrow> bool" where
  "own_change s t t' \<longleftrightarrow> same_lists t t' \<and> tcp_ticks t' = tcp_ticks t \<and> s_tmr (tsock t' s) = s_tmr (tsock t s)
     \<and> (\<forall>x. x \<noteq> s \<longrightarrow> tsock t' x = tsock t x)"

lemma own_refl [simp]: "own_change s t t"
  by (simp add: own_change_def)

lemma own_trans: "own_change s a b \<Longrightarrow> own_change s b c \<Longrightarrow> own_change s a c"
  using same_lists_trans by (simp add: own_change_def) blast

lemma own_frame: "out_frame s t t' \<Longrightarrow> own_change s t t'"
proof -
  assume f: "out_frame s t t'"
  then have "s_tmr (tsock t' s) = s_tmr (tsock t s)" "\<forall>x. x \<noteq> s \<longrightarrow> tsock t' x = tsock t x"
    using out_sockD(13) by (simp_all add: out_frame_def)
  then show ?thesis using same_frame [OF f] out_frameD(10) [OF f] by (simp add: own_change_def)
qed

lemma own_sock:
  "s_state (f (tsock t s)) = s_state (tsock t s) \<Longrightarrow> s_tmr (f (tsock t s)) = s_tmr (tsock t s) \<Longrightarrow> own_change s t (upd_sock s f t)"
  unfolding own_change_def using same_sock by (auto simp: upd_sock_def)

lemma own_rexmit:
  assumes "tcp_rexmit s t = Some t'"
  shows "own_change s t t'"
proof (cases "s_unacked (tsock t s) = []")
  case True
  then show ?thesis using assms by (simp add: tcp_rexmit_def)
next
  case False
  define t1 where "t1 = upd_sock s (\<lambda>k. k\<lparr>s_unsent := s_unacked k @ s_unsent k, s_unacked := [],
    s_snd_nxt := h_seqno (seg_hdr (hd (s_unacked k))), s_nrtx := s_nrtx k + 1, s_rttest := 0\<rparr>) t"
  obtain b where "tcp_output s t1 = Some (b, t')"
    using assms False unfolding tcp_rexmit_def t1_def by auto
  moreover have "own_change s t t1" unfolding t1_def by (rule own_sock) simp_all
  ultimately show ?thesis using own_trans own_frame tcp_output_frame by blast
qed

definition given_up :: "tcp_socket_t \<Rightarrow> bool" where
  "given_up k \<longleftrightarrow> s_state k = SYN_SENT \<and> s_nrtx k = TCP_SYNMAXRTX \<or> s_nrtx k = TCP_MAXRTX"

lemma slow_retransmit_ok:
  assumes "slow_retransmit s t = Some (b, t')"
  shows "own_change s t t'" "b \<longleftrightarrow> given_up (tsock t s)"
proof -
  define k where "k = (tsock t s)\<lparr>s_rtime := s_rtime (tsock t s) + 1\<rparr>"
  have "own_change s t t' \<and> (b \<longleftrightarrow> given_up (tsock t s))"
  proof (cases "given_up (tsock t s)")
    case True
    then show ?thesis using assms by (auto simp: slow_retransmit_def Let_def given_up_def split: if_splits)
  next
    case False
    have k: "s_state k = s_state (tsock t s)" "s_tmr k = s_tmr (tsock t s)" by (simp_all add: k_def)
    show ?thesis
    proof (cases "s_unacked k \<noteq> [] \<and> s_rtime k \<ge> s_rto k")
      case True
      then obtain k1 t1 where 1: "slow_rto k = Some k1" "tcp_rexmit s (upd_sock s (\<lambda>_. k1) t) = Some t1"
        "upd_sock s slow_cwnd t1 = t'" "\<not> b"
        using assms False unfolding slow_retransmit_def Let_def k_def [symmetric] given_up_def
        by (auto simp: bind_eq_Some_conv split: if_splits)
      have "s_state k1 = s_state k" "s_tmr k1 = s_tmr k" using 1(1) by (auto simp: slow_rto_def split: if_splits)
      then have "own_change s t (upd_sock s (\<lambda>_. k1) t)" using k by (intro own_sock) simp_all
      moreover have "own_change s t1 t'" unfolding 1(3) [symmetric] by (rule own_sock) (simp_all add: slow_cwnd_def Let_def)
      ultimately show ?thesis using own_trans own_rexmit [OF 1(2)] 1(4) False by blast
    next
      case True: False
      then have "upd_sock s (\<lambda>_. k) t = t'" "\<not> b"
        using assms False unfolding slow_retransmit_def Let_def k_def [symmetric] given_up_def by (auto split: if_splits)
      then show ?thesis using own_sock [of "\<lambda>_. k" t s] k False by auto
    qed
  qed
  then show "own_change s t t'" "b \<longleftrightarrow> given_up (tsock t s)" by simp_all
qed

lemma ticks_list [simp]: "tcp_ticks (set_list w l t) = tcp_ticks t" "tcp_ticks (set_next s l t) = tcp_ticks t"
  by (cases w) (simp_all add: set_list_def set_next_def)

text \<open>A socket that is taken out of its list, with the predecessor in the walk.\<close>

lemma link_to_last:
  assumes "distinct (pre @ s # next)" "pre \<noteq> []"
  shows "link_to (last pre) next (pre @ s # next) = pre @ next"
proof -
  obtain xs x where pre: "pre = xs @ [x]" using assms(2) by (metis rev_exhaust)
  have "takeWhile (\<lambda>y. y \<noteq> x) (xs @ x # s # next) = xs" using assms(1) unfolding pre by (induction xs) auto
  then show ?thesis by (simp add: pre link_to_def)
qed

definition walk_prev :: "nat list \<Rightarrow> nat option" where
  "walk_prev pre = (if pre = [] then None else Some (last pre))"

lemma walk_prev_snoc [simp]: "walk_prev (pre @ [s]) = Some s"
  by (simp add: walk_prev_def)

lemma unlink_gets:
  assumes "slow_unlink w s (walk_prev pre) next t = Some t'" "get_list w t = pre @ s # next"
    "distinct (pre @ s # next)" "\<And>x. x \<in> set pre \<Longrightarrow> only_in w x t"
  shows "get_list w' t' = (if w' = w then pre @ next else get_list w' t)" "tsock t' = tsock t" "next_sock t' = next_sock t"
    "tcp_ticks t' = tcp_ticks t"
proof -
  have "get_list w' t' = (if w' = w then pre @ next else get_list w' t) \<and> tsock t' = tsock t \<and> next_sock t' = next_sock t
    \<and> tcp_ticks t' = tcp_ticks t"
  proof (cases "pre = []")
    case True
    then have "t' = set_list w next t"
      using assms(1) by (auto simp: slow_unlink_def walk_prev_def split: if_splits)
    then show ?thesis using True by simp
  next
    case False
    then have t': "t' = set_next (last pre) next t"
      using assms(1) by (auto simp: slow_unlink_def walk_prev_def split: if_splits)
    have "last pre \<notin> set (get_list w' t)" if "w' \<noteq> w" using assms(4) [of "last pre"] False that by (simp add: only_in_def)
    then show ?thesis using link_to_last [OF assms(3) False] assms(2) by (auto simp: t' link_to_notin)
  qed
  then show "get_list w' t' = (if w' = w then pre @ next else get_list w' t)" "tsock t' = tsock t" "next_sock t' = next_sock t"
    "tcp_ticks t' = tcp_ticks t" by simp_all
qed

lemma lists_ok_in: "lists_ok t \<Longrightarrow> x \<in> set (get_list w t) \<Longrightarrow> only_in w x t"
  using lists_ok_unique unfolding only_in_def by blast

lemma lists_ok_drop:
  assumes "lists_ok t" "get_list w t = pre @ s # next" "\<And>w'. get_list w' t' = (if w' = w then pre @ next else get_list w' t)"
    "next_sock t' = next_sock t" "\<And>x. x \<noteq> s \<Longrightarrow> s_state (tsock t' x) = s_state (tsock t x)"
  shows "lists_ok t'"
proof -
  have d: "distinct (pre @ s # next)" using lists_ok_distinct [OF assms(1), of w] assms(2) by simp
  have "distinct (get_list w' t') \<and> (\<forall>x \<in> set (get_list w' t'). x \<noteq> s \<and> x \<in> set (get_list w' t))" for w'
  proof (cases "w' = w")
    case True
    then show ?thesis using assms(2,3) d by auto
  next
    case False
    then have "s \<notin> set (get_list w' t)" using lists_ok_in [OF assms(1), of s w] assms(2) by (simp add: only_in_def)
    then show ?thesis using assms(3) False lists_ok_distinct [OF assms(1), of w'] by auto
  qed
  then show ?thesis using assms(1,4,5) unfolding lists_ok_def by metis
qed

text \<open>A socket that is given up in the round in which it also leaves for the closing sockets would be taken out of the
  wrong list.\<close>

definition slow_clash :: "tcp_t \<Rightarrow> nat \<Rightarrow> bool" where
  "slow_clash t s \<longleftrightarrow> given_up (tsock t s) \<and> stuck s t \<and> s_state (tsock t s) \<in> {FIN_WAIT_1, FIN_WAIT_2, CLOSING}"

lemma clash_own: "own_change s t t' \<Longrightarrow> x \<noteq> s \<Longrightarrow> slow_clash t' x = slow_clash t x"
  by (simp add: own_change_def slow_clash_def stuck_def)

lemma stuck_own: "own_change s t t' \<Longrightarrow> stuck s t' = stuck s t"
  by (simp add: own_change_def stuck_def)

text \<open>Giving a socket up.\<close>

lemma give_up_ok:
  assumes "lists_ok t" "tcp_sockets t = pre @ s # next"
    "slow_unlink Active s (walk_prev pre) next (tcp_set_socket_state s CLOSED (tcp_socket_purge s t)) = Some t'"
  shows "lists_ok t'" "tcp_sockets t' = pre @ next" "tcp_ticks t' = tcp_ticks t" "\<And>x. x \<noteq> s \<Longrightarrow> tsock t' x = tsock t x"
proof -
  define t1 where "t1 = tcp_set_socket_state s CLOSED (tcp_socket_purge s t)"
  have l: "get_list w t1 = get_list w t" for w by (simp add: t1_def tcp_socket_purge_def)
  have a: "get_list Active t = pre @ s # next" using assms(2) by (simp add: get_list_def)
  have d: "distinct (pre @ s # next)" using lists_ok_distinct [OF assms(1), of Active] a by simp
  have x: "tsock t1 x = tsock t x" if "x \<noteq> s" for x
    using that by (simp add: t1_def tcp_set_socket_state_def sock_signal_def tcp_socket_purge_def)
  have "only_in Active x t1" if "x \<in> set pre" for x
    using lists_ok_in [OF assms(1), of x Active] that a l by (simp add: only_in_def)
  note g = unlink_gets [OF assms(3) [folded t1_def] _ d this, unfolded l, OF a]
  show "tcp_sockets t' = pre @ next" using g(1) [of Active] by (simp add: get_list_def)
  show "tcp_ticks t' = tcp_ticks t" using g(4)
    by (simp add: t1_def tcp_set_socket_state_def sock_signal_def upd_sock_def tcp_socket_purge_def)
  show "tsock t' x = tsock t x" if "x \<noteq> s" for x using g(2) x that by simp
  then show "lists_ok t'"
    using lists_ok_drop [OF assms(1) a, of t'] g(1,3) by (simp add: t1_def tcp_socket_purge_def)
qed

text \<open>After a socket has left for the closing sockets, the walk ends: it goes on along them, and the first of them is
  no active socket.\<close>

lemma walk_closing:
  assumes "slow_active prev (tcp_closing_sockets t) t' = Some t''" "lists_ok t"
    "\<And>x. x \<in> set (tcp_closing_sockets t) \<Longrightarrow> s_state (tsock t' x) = s_state (tsock t x)"
  shows "t'' = t'"
proof (cases "tcp_closing_sockets t")
  case Nil
  then show ?thesis using assms(1) by (simp add: slow_active.simps)
next
  case (Cons c cs)
  have "\<forall>x \<in> set (get_list Closing t). list_type Closing (s_state (tsock t x))" using assms(2) unfolding lists_ok_def by blast
  then have "s_state (tsock t' c) = TIME_WAIT" using Cons assms(3) [of c] by (simp add: get_list_def)
  then show ?thesis using assms(1) Cons by (simp add: slow_active.simps)
qed

lemma slow_active_ok:
  assumes "slow_active (walk_prev pre) ss t = Some t'" "lists_ok t" "tcp_sockets t = pre @ ss" "\<forall>x \<in> set ss. \<not> slow_clash t x"
  shows "lists_ok t'"
  using assms
proof (induction ss arbitrary: pre t)
  case Nil
  then show ?case by (simp add: slow_active.simps)
next
  case (Cons s ss)
  obtain b t1 where r: "slow_retransmit s t = Some (b, t1)"
    and n: "(let q = slow_stuck s ss t1 in if b \<or> fst q then
        slow_unlink Active s (walk_prev pre) (fst (snd q)) (tcp_set_socket_state s CLOSED (tcp_socket_purge s (snd (snd q))))
          \<bind> (\<lambda>t. slow_active (walk_prev pre) (fst (snd q)) t)
      else slow_active (Some s) (fst (snd q)) (snd (snd q))) = Some t'"
    using Cons.prems(1) by (subst (asm) slow_active.simps) (auto simp: bind_eq_Some_conv)
  note o = slow_retransmit_ok(1) [OF r]
  have ok: "lists_ok t1" using lists_ok_same [OF _ Cons.prems(2)] o by (simp add: own_change_def)
  have ts: "tcp_sockets t1 = pre @ s # ss" using o Cons.prems(3) by (simp add: own_change_def same_lists_def)
  have d: "s \<notin> set ss" using lists_ok_distinct [OF ok, of Active] ts by (simp add: get_list_def)
  have nc: "\<forall>x \<in> set ss. \<not> slow_clash t1 x" using clash_own [OF o] Cons.prems(4) d by (metis list.set_intros(2))
  have up: "lists_ok t'" if h: "slow_unlink Active s (walk_prev pre) ss (tcp_set_socket_state s CLOSED (tcp_socket_purge s t1))
      \<bind> (\<lambda>t. slow_active (walk_prev pre) ss t) = Some t'"
  proof -
    obtain t2 where u: "slow_unlink Active s (walk_prev pre) ss (tcp_set_socket_state s CLOSED (tcp_socket_purge s t1)) = Some t2"
      and a: "slow_active (walk_prev pre) ss t2 = Some t'" using h by (auto simp: bind_eq_Some_conv)
    note g = give_up_ok [OF ok ts u]
    have "\<forall>x \<in> set ss. \<not> slow_clash t2 x" using nc g(3,4) d by (metis slow_clash_def stuck_def)
    then show ?thesis using Cons.IH [OF a g(1,2)] by simp
  qed
  have on: "lists_ok t'" if "slow_active (Some s) ss t1 = Some t'"
    using Cons.IH [of "pre @ [s]" t1] that ok ts nc by simp
  define mv where "mv \<longleftrightarrow> stuck s t1 \<and> s_state (tsock t1 s) \<in> {FIN_WAIT_1, FIN_WAIT_2, CLOSING}"
  show ?case
  proof (cases mv)
    case False
    then have "fst (snd (slow_stuck s ss t1)) = ss" "snd (snd (slow_stuck s ss t1)) = t1"
      unfolding mv_def slow_stuck_def by auto
    then show ?thesis using n up on unfolding Let_def by (auto split: if_splits)
  next
    case True
    define t2 where "t2 = tcp_list_add Closing s (tcp_set_socket_state s TIME_WAIT (tcp_list_remove Active s t1))"
    have q: "slow_stuck s ss t1 = (False, tcp_closing_sockets t1, t2)"
      using True unfolding mv_def slow_stuck_def t2_def by auto
    have "s_state (tsock t s) = s_state (tsock t1 s)" using o by (simp add: own_change_def same_lists_def)
    then have "\<not> b" using Cons.prems(4) True stuck_own [OF o] slow_retransmit_ok(2) [OF r] unfolding mv_def slow_clash_def by auto
    then have a: "slow_active (Some s) (tcp_closing_sockets t1) t2 = Some t'" using n unfolding q Let_def by simp
    have act: "on_active s t1" using ok ts by (simp add: on_active_def)
    have "lists_ok t2" unfolding t2_def using act by (rule to_closing)
    moreover have "t' = t2"
    proof (rule walk_closing [OF a ok])
      fix x assume x: "x \<in> set (tcp_closing_sockets t1)"
      have "s \<notin> set (get_list Closing t1)" using on_active_type(2) [OF act, of Closing] by simp
      then have "x \<noteq> s" using x by (auto simp: get_list_def)
      have off: "s \<notin> set (get_list w (tcp_set_socket_state s TIME_WAIT (tcp_list_remove Active s t1)))" for w
        using removed(2) [OF ok, of Active s] on_active_type(2) [OF act] by (simp add: only_in_def)
      show "s_state (tsock t2 x) = s_state (tsock t1 x)" unfolding t2_def list_add_gets(2) [OF off]
        using \<open>x \<noteq> s\<close> by (simp add: tcp_list_remove_def)
    qed
    ultimately show ?thesis by simp
  qed
qed

lemma slow_closing_ok:
  assumes "slow_closing (walk_prev pre) ss t = Some t'" "lists_ok t" "tcp_closing_sockets t = pre @ ss"
  shows "lists_ok t'"
  using assms
proof (induction ss arbitrary: pre t)
  case Nil
  then show ?case by simp
next
  case (Cons s ss)
  show ?case
  proof (cases "expired s t")
    case False
    then show ?thesis using Cons.IH [of "pre @ [s]" t] Cons.prems by (simp add: bind_eq_Some_conv)
  next
    case True
    define t1 where "t1 = tcp_socket_purge s t"
    obtain t2 where u: "slow_unlink Closing s (walk_prev pre) ss t1 = Some t2" and a: "slow_closing (walk_prev pre) ss t2 = Some t'"
      using Cons.prems(1) True unfolding t1_def by (auto simp: bind_eq_Some_conv)
    have l: "get_list w t1 = get_list w t" for w by (simp add: t1_def tcp_socket_purge_def)
    have c: "get_list Closing t = pre @ s # ss" using Cons.prems(3) by (simp add: get_list_def)
    have d: "distinct (pre @ s # ss)" using lists_ok_distinct [OF Cons.prems(2), of Closing] c by simp
    have "only_in Closing x t1" if "x \<in> set pre" for x
      using lists_ok_in [OF Cons.prems(2), of x Closing] that c l by (simp add: only_in_def)
    note g = unlink_gets [OF u _ d this, unfolded l, OF c]
    have "lists_ok t2" using lists_ok_drop [OF Cons.prems(2) c, of t2] g(1-3) by (simp add: t1_def tcp_socket_purge_def)
    moreover have "tcp_closing_sockets t2 = pre @ ss" using g(1) [of Closing] by (simp add: get_list_def)
    ultimately show ?thesis using Cons.IH [OF a] by simp
  qed
qed

definition slow_safe :: "tcp_t \<Rightarrow> bool" where
  "slow_safe t \<longleftrightarrow> list_all (\<lambda>s. \<not> slow_clash (t\<lparr>tcp_ticks := tcp_ticks t + 1\<rparr>) s) (tcp_sockets t)"

lemma slowtmr_ok:
  assumes "tcp_slowtmr t = Some t'" "lists_ok t" "slow_safe t"
  shows "lists_ok t'"
proof -
  define t0 where "t0 = t\<lparr>tcp_ticks := tcp_ticks t + 1\<rparr>"
  obtain t1 where 1: "slow_active None (tcp_sockets t0) t0 = Some t1" "slow_closing None (tcp_closing_sockets t1) t1 = Some t'"
    using assms(1) unfolding tcp_slowtmr_def Let_def t0_def by (auto simp: bind_eq_Some_conv)
  have "lists_ok t0" using assms(2) by (rule lists_ok_same [rotated]) (simp add: t0_def same_lists_def)
  moreover have "\<forall>x \<in> set (tcp_sockets t0). \<not> slow_clash t0 x"
    using assms(3) by (simp add: slow_safe_def list_all_iff t0_def)
  ultimately have "lists_ok t1" using slow_active_ok [of "[]" "tcp_sockets t0" t0 t1] 1(1) by (simp add: walk_prev_def)
  then show ?thesis using slow_closing_ok [of "[]" "tcp_closing_sockets t1" t1 t'] 1(2) by (simp add: walk_prev_def)
qed

text \<open>The fast timer sends acknowledgements; nothing that the slow timer looks at changes.\<close>

lemma out_sock_nrtx: "out_sock k k' \<Longrightarrow> s_nrtx k' = s_nrtx k"
  by (rule out_sock_cases, assumption, simp)

definition slow_frame :: "tcp_t \<Rightarrow> tcp_t \<Rightarrow> bool" where
  "slow_frame t t' \<longleftrightarrow> same_lists t t' \<and> tcp_ticks t' = tcp_ticks t
     \<and> (\<forall>x. s_tmr (tsock t' x) = s_tmr (tsock t x) \<and> s_nrtx (tsock t' x) = s_nrtx (tsock t x))"

lemma slow_frame_trans: "slow_frame a b \<Longrightarrow> slow_frame b c \<Longrightarrow> slow_frame a c"
  using same_lists_trans by (simp add: slow_frame_def) blast

lemma slow_frame_safe: "slow_frame t t' \<Longrightarrow> slow_safe t' = slow_safe t"
  by (simp add: slow_frame_def slow_safe_def slow_clash_def stuck_def given_up_def same_lists_def)

lemma slow_frame_out:
  assumes "out_frame s t t'"
  shows "slow_frame t t'"
proof -
  have "s_tmr (tsock t' x) = s_tmr (tsock t x) \<and> s_nrtx (tsock t' x) = s_nrtx (tsock t x)" for x
    using assms out_sockD(13) out_sock_nrtx by (cases "x = s") (simp_all add: out_frame_def)
  then show ?thesis using same_frame [OF assms] out_frameD(10) [OF assms] by (simp add: slow_frame_def)
qed

lemma fast_socket_frame:
  assumes "fast_socket s t = Some t'"
  shows "out_frame s t t'"
proof (cases "has (s_flags (tsock t s)) TF_ACK_DELAY")
  case True
  then obtain t1 where "tcp_ack_now s t = Some t1"
    and t': "upd_sock s (\<lambda>k. k\<lparr>s_flags := s_flags k AND NOT (TF_ACK_DELAY OR TF_ACK_NOW)\<rparr>) t1 = t'"
    using assms by (auto simp: fast_socket_def)
  moreover have "out_frame s t1 t'" unfolding t' [symmetric] by (rule out_frame_sock) (simp add: out_sock_def)
  ultimately show ?thesis using ack_now_frame out_frame_trans by blast
qed (use assms in \<open>simp add: fast_socket_def\<close>)

lemma fast_loop_frame: "fast_loop ss t = Some t' \<Longrightarrow> slow_frame t t'"
proof (induction ss arbitrary: t)
  case Nil
  then show ?case by (simp add: slow_frame_def)
next
  case (Cons s ss)
  then obtain t1 where 1: "fast_socket s t = Some t1" "fast_loop ss t1 = Some t'" by (auto simp: bind_eq_Some_conv)
  then show ?case using Cons.IH slow_frame_trans slow_frame_out [OF fast_socket_frame] by blast
qed

lemma fasttmr_ok: "tcp_fasttmr t = Some t' \<Longrightarrow> slow_frame t t'"
  unfolding tcp_fasttmr_def by (rule fast_loop_frame)

section \<open>The task of IP\<close>

lemma same_ipnet [simp]: "same_lists (ip_tcp ip) (ip_tcp (upd_ipnet f ip))" "same_lists (ip_tcp ip) (ip_tcp (set_ipnet n ip))"
  by (simp_all add: upd_ipnet_def set_ipnet_def)

definition ip_keeps :: "ip_t \<Rightarrow> ip_t \<Rightarrow> bool" where
  "ip_keeps ip ip' \<longleftrightarrow> (lists_ok (ip_tcp ip) \<longrightarrow> lists_ok (ip_tcp ip'))"

lemma keeps_trans: "ip_keeps a b \<Longrightarrow> ip_keeps b c \<Longrightarrow> ip_keeps a c" and keeps_refl [simp]: "ip_keeps a a"
  and keeps_same: "same_lists (ip_tcp a) (ip_tcp b) \<Longrightarrow> ip_keeps a b"
  by (auto simp: ip_keeps_def intro: lists_ok_same)

lemma keeps_net [simp]: "ip_keeps ip (upd_ipnet f ip)" "ip_keeps ip (set_ipnet n ip)"
  by (simp_all add: keeps_same)

lemma keeps_net_net: "ip_keeps ip (set_ipnet n (upd_ipnet f ip))" "ip_keeps ip (upd_ipnet g (set_ipnet n ip))"
  "ip_keeps ip (upd_ipnet g (upd_ipnet f ip))"
  by (blast intro: keeps_trans keeps_net)+

lemma deliver_udp_keeps: "ip_deliver_udp p h b ip = Some ip' \<Longrightarrow> ip_keeps ip ip'"
  by (rule keeps_same)
    (auto simp: ip_deliver_udp_def bind_eq_Some_conv Let_def set_ipnet_def upd_ipnet_def upd_net_def same_lists_def split: if_splits)

lemma deliver_icmp_keeps: "ip_deliver_icmp p h b inp ip = Some ip' \<Longrightarrow> ip_keeps ip ip'"
  by (rule keeps_same)
    (auto simp: ip_deliver_icmp_def bind_eq_Some_conv Let_def set_ipnet_def upd_ipnet_def upd_net_def same_lists_def split: if_splits)

lemma deliver_unknown_keeps: "ip_deliver_unknown p h b inp ip = Some ip' \<Longrightarrow> ip_keeps ip ip'"
  by (rule keeps_same)
    (auto simp: ip_deliver_unknown_def bind_eq_Some_conv Let_def set_ipnet_def upd_ipnet_def upd_net_def same_lists_def split: if_splits)

lemma transit_keeps: "ip_transit p h inp ip = Some ip' \<Longrightarrow> ip_keeps ip ip'"
  by (rule keeps_same)
    (auto simp: ip_transit_def Let_def set_ipnet_def upd_ipnet_def upd_net_def same_lists_def split: if_splits option.splits)

lemma deliver_keeps:
  assumes "ip_deliver p h b inp ip = Some ip'"
  shows "ip_keeps ip ip'"
proof -
  define ip1 where "ip1 = upd_ipnet (count In_delivers) ip"
  consider "ip_deliver_udp p h b ip1 = Some ip'" | "ip_deliver_icmp p h b inp ip1 = Some ip'" | "ip_deliver_unknown p h b inp ip1 = Some ip'"
    | t where "tcp_input (snd (buf_add_header p (- 20))) (ip_src h) (ip_dest h) (ip_tcp ip1) = Some t" "ip1\<lparr>ip_tcp := t\<rparr> = ip'"
    using assms unfolding ip_deliver_def ip1_def [symmetric] Let_def by (auto split: if_splits)
  then have "ip_keeps ip1 ip'"
  proof cases
    case 4
    then show ?thesis using input_ok [OF 4(1)] unfolding ip_keeps_def 4(2) [symmetric] by simp
  qed (simp_all add: deliver_udp_keeps deliver_icmp_keeps deliver_unknown_keeps)
  moreover have "ip_keeps ip ip1" by (simp add: ip1_def)
  ultimately show ?thesis using keeps_trans by blast
qed

lemma local_keeps:
  assumes "ip_local p h hlen b inp ip = Some ip'"
  shows "ip_keeps ip ip'"
proof -
  define ip1 where "ip1 = (if b then upd_ipnet (upd_netif inp (\<lambda>u. u\<lparr>nif_in_mcast_pkts := nif_in_mcast_pkts u + 1\<rparr>)) ip else ip)"
  have "ip' = upd_ipnet (count In_hdr_errors) ip1 \<or> ip_deliver p h b inp ip1 = Some ip'"
    using assms unfolding ip_local_def ip1_def [symmetric] Let_def by (simp split: if_split_asm)
  moreover have "ip_keeps ip ip1" by (simp add: ip1_def)
  ultimately show ?thesis using deliver_keeps keeps_net(1) keeps_trans by metis
qed

lemma ip_input_keeps:
  assumes "ip_input p inp ip = Some ip'"
  shows "ip_keeps ip ip'"
proof -
  define ip1 where "ip1 = upd_ipnet (count In_receives) ip"
  have "ip' = upd_ipnet (count In_hdr_errors) ip1 \<or> (\<exists>p h hl b. ip_local p h hl b inp ip1 = Some ip') \<or> (\<exists>p h. ip_transit p h inp ip1 = Some ip')"
    using assms unfolding ip_input_def ip1_def [symmetric] Let_def
    by (simp only: bind_eq_Some_conv, elim exE conjE) (auto simp: bind_eq_Some_conv split: if_split_asm option.splits)
  moreover have "ip_keeps ip ip1" by (simp add: ip1_def)
  ultimately show ?thesis using local_keeps transit_keeps keeps_net(1) keeps_trans by metis
qed

lemma ip_receive_keeps: "ip_receive inp ip = Some ip' \<Longrightarrow> ip_keeps ip ip'"
proof (induction rule: ip_receive.raw_induct [rotated 1, consumes 1])
  case (1 f inp ip ip')
  then obtain r where r: "netif_input inp (tnet (ip_tcp ip)) = Some r"
    and 2: "(if fst r = [] then Some (set_ipnet (snd r) ip) else ip_input (fst r) inp (set_ipnet (snd r) ip) \<bind> f inp) = Some ip'"
    by (auto simp: bind_eq_Some_conv Let_def)
  show ?case
  proof (cases "fst r = []")
    case True
    then show ?thesis using 2 by auto
  next
    case False
    then obtain ip1 where i: "ip_input (fst r) inp (set_ipnet (snd r) ip) = Some ip1" "f inp ip1 = Some ip'"
      using 2 by (auto simp: bind_eq_Some_conv)
    have "ip_keeps (set_ipnet (snd r) ip) ip1" "ip_keeps ip1 ip'" by (rule ip_input_keeps [OF i(1)], rule 1(1) [OF i(2)])
    then show ?thesis using keeps_trans [OF keeps_net(2)] keeps_trans by blast
  qed
qed

lemma ip_tick_keeps:
  assumes "ip_tick ip = Some ip'" "slow_safe (ip_tcp ip)"
  shows "ip_keeps ip ip'"
proof -
  define t1 where "t1 = (upd_net arp_timer (ip_tcp ip))\<lparr>tcp_timer :=
    (if tcp_timer (upd_net arp_timer (ip_tcp ip)) + 1 \<ge> 10 then 0 else tcp_timer (upd_net arp_timer (ip_tcp ip)) + 1)\<rparr>"
  obtain t2 t3 where t2: "(if odd (tcp_timer t1) then tcp_fasttmr t1 else Some t1) = Some t2"
    and t3: "(if tcp_timer t2 = 0 \<or> tcp_timer t2 = 5 then tcp_slowtmr t2 else Some t2) = Some t3" and ip': "ip\<lparr>ip_tcp := t3\<rparr> = ip'"
    using assms(1) unfolding ip_tick_def Let_def t1_def by (auto simp: bind_eq_Some_conv)
  have 1: "slow_frame (ip_tcp ip) t1" by (simp add: t1_def slow_frame_def upd_net_def same_lists_def)
  moreover have "slow_frame t1 t2"
    using t2 fasttmr_ok [of t1 t2] by (cases "odd (tcp_timer t1)") (auto simp: slow_frame_def)
  ultimately have 2: "slow_frame (ip_tcp ip) t2" by (rule slow_frame_trans)
  then have "lists_ok t2" if "lists_ok (ip_tcp ip)" using that lists_ok_same by (simp add: slow_frame_def) blast
  moreover have "lists_ok t2 \<Longrightarrow> lists_ok t3"
    using t3 slowtmr_ok [of t2 t3] assms(2) slow_frame_safe [OF 2] by (auto split: if_splits)
  ultimately show ?thesis unfolding ip_keeps_def ip' [symmetric] by simp
qed

end
