(* ===== verification/Stack_Run.thy ===== *)
theory Stack_Run
  imports Tcp_Run
begin

text \<open>
  The calls of TCP keep the axioms of the lists of sockets, and so do the runs of the stack, made of the signals of the task of IP and
  of calls (\<open>stack_step\<close>); the steps left out are named there.
\<close>

section \<open>New sockets\<close>

text \<open>A socket that is allocated and in no list.\<close>

definition unlisted :: "nat \<Rightarrow> tcp_t \<Rightarrow> bool" where
  "unlisted s t \<longleftrightarrow> lists_ok t \<and> 0 < s \<and> s < next_sock t \<and> (\<forall>w. s \<notin> set (get_list w t))"

lemma unlisted_ok: "unlisted s t \<Longrightarrow> lists_ok t"
  by (simp add: unlisted_def)

lemma get_list_same: "same_lists t t' \<Longrightarrow> get_list w t' = get_list w t"
  by (cases w) (simp_all add: same_lists_def get_list_def)

lemma unlisted_same: "unlisted s t \<Longrightarrow> same_lists t t' \<Longrightarrow> unlisted s t'"
  using lists_ok_same get_list_same unfolding unlisted_def by (metis same_lists_def)

lemma unlisted_upd:
  assumes "unlisted s t"
  shows "unlisted s (upd_sock s f t)"
proof -
  have "s_state (tsock (upd_sock s f t) x) = s_state (tsock t x)" if "x \<in> set (get_list w t)" for x w
    using that assms by (cases "x = s") (auto simp: unlisted_def)
  then show ?thesis using assms unfolding unlisted_def lists_ok_def get_list_upd by metis
qed

lemma unlisted_add: "unlisted s t \<Longrightarrow> list_type w (s_state (tsock t s)) \<Longrightarrow> lists_ok (tcp_list_add w s t)"
  unfolding unlisted_def using lists_ok_add by blast

lemma alloc_socket_ok:
  assumes "alloc_socket t = (r, t')" "lists_ok t"
  shows "case r of None \<Rightarrow> lists_ok t' | Some s \<Rightarrow> unlisted s t' \<and> tsock t' s = zero_socket"
proof -
  obtain a m where a: "mem_get 236 (pool (tnet t)) = (a, m)" by fastforce
  define t1 where "t1 = upd_net (\<lambda>n. n\<lparr>pool := m\<rparr>) t"
  have 1: "lists_ok t1" using lists_ok_same [OF same_net assms(2)] by (simp add: t1_def)
  show ?thesis
  proof (cases a)
    case None
    then show ?thesis using assms(1) 1 unfolding alloc_socket_def a t1_def by auto
  next
    case (Some x)
    define s where "s = next_sock t1"
    define t2 where "t2 = t1\<lparr>next_sock := s + 1\<rparr>"
    have r: "r = Some s" "t' = upd_sock s (\<lambda>_. zero_socket) t2"
      using assms(1) Some unfolding alloc_socket_def a Let_def t2_def s_def t1_def by auto
    have l: "get_list w t2 = get_list w t1" for w by (cases w) (simp_all add: t2_def get_list_def)
    have "s \<notin> set (get_list w t1)" for w using 1 unfolding lists_ok_def s_def by blast
    moreover have "lists_ok t2" using 1 unfolding lists_ok_def l by (auto simp: t2_def s_def less_Suc_eq)
    moreover have "0 < s" using 1 by (simp add: lists_ok_def s_def)
    ultimately have "unlisted s t2" unfolding unlisted_def l by (simp add: t2_def)
    then show ?thesis using unlisted_upd r by simp
  qed
qed

lemma tcp_alloc_ok:
  assumes "tcp_alloc t = (r, t')" "lists_ok t"
  shows "case r of None \<Rightarrow> lists_ok t' | Some s \<Rightarrow> unlisted s t'"
proof -
  obtain q t1 where a: "alloc_socket t = (q, t1)" by fastforce
  show ?thesis
  proof (cases q)
    case None
    then show ?thesis using assms alloc_socket_ok [OF a] by (simp add: tcp_alloc_def a)
  next
    case (Some s)
    obtain iss t2 where i: "tcp_next_seqno t1 = (iss, t2)" by fastforce
    have "same_lists t1 t2" using i by (auto simp: tcp_next_seqno_def Let_def same_lists_def)
    then have "unlisted s t2" using alloc_socket_ok [OF a assms(2)] Some unlisted_same [of s t1 t2] by simp
    moreover have "r = Some s" using assms(1) Some i by (simp add: tcp_alloc_def a)
    moreover have "\<exists>f. upd_sock s f t2 = t'" using assms(1) Some i by (auto simp: tcp_alloc_def a)
    ultimately show ?thesis using unlisted_upd by auto
  qed
qed

section \<open>The calls\<close>

lemma same_new_port: "tcp_new_port t = Some y \<Longrightarrow> same_lists t (snd y)"
proof (induction rule: tcp_new_port.raw_induct [rotated 1, consumes 1])
  case (1 f t y)
  define t1 where "t1 = t\<lparr>tcp_port := (if tcp_port t + 1 > 0x7fff then 4096 else tcp_port t + 1)\<rparr>"
  have "f t1 = Some y \<or> snd y = t1" using 1(2) unfolding Let_def t1_def [symmetric] by (auto split: if_splits)
  then have "same_lists t1 (snd y)" using 1(1) [of t1 y] by auto
  moreover have "same_lists t t1" by (simp add: t1_def same_lists_def)
  ultimately show ?case using same_lists_trans by blast
qed

lemma same_net_sock: "s_state k' = s_state (tsock t s) \<Longrightarrow> same_lists t (upd_sock s (\<lambda>_. k') (upd_net f t))"
proof -
  assume "s_state k' = s_state (tsock t s)"
  then have "same_lists (upd_net f t) (upd_sock s (\<lambda>_. k') (upd_net f t))" by (intro same_sock) simp
  then show ?thesis by (rule same_lists_trans [OF same_net])
qed

lemma same_enqueue:
  assumes "tcp_enqueue s arg len flags optdata t = Some (ok, t')"
  shows "same_lists t t'"
proof -
  have "same_lists t (upd_net f (upd_net g t))" for f g using same_net same_lists_trans by blast
  then show ?thesis
    using assms unfolding tcp_enqueue_def Let_def
    by (auto simp: bind_eq_Some_conv same_net_sock split: if_split_asm option.splits)
qed

lemma same_out: "map_option snd (tcp_output s t) = Some t' \<Longrightarrow> same_lists t t'"
  using same_output(1) by fastforce

lemma same_parseopt: "tcp_parseopt off os k = Some k' \<Longrightarrow> s_state k' = s_state k"
  by (auto simp: tcp_parseopt_def split: if_splits)

lemma connect_ok:
  assumes "tcp_connect ipaddr port t = Some (r, t')" "lists_ok t"
  shows "lists_ok t'"
proof (cases ipaddr)
  case None
  then show ?thesis using assms by (simp add: tcp_connect_def)
next
  case (Some a)
  obtain s t1 where 1: "tcp_alloc t = (Some s, t1)"
    using assms(1) Some unfolding tcp_connect_def by (auto split: prod.splits option.splits)
  define np where "np = (if s_local_port (tsock t1 s) = 0 then tcp_new_port t1 else Some (s_local_port (tsock t1 s), t1))"
  define conn :: "u16 \<Rightarrow> tcp_socket_t \<Rightarrow> tcp_socket_t" where "conn lport = (\<lambda>k. k\<lparr>s_remote_ip := a, s_remote_port := port, s_local_port := lport,
    s_lastack := s_snd_nxt k - 1, s_snd_lbb := s_snd_nxt k - 1, s_snd_wnd := ucast TCP_WND,
    s_ssthresh := s_mss k * 10, s_state := SYN_SENT\<rparr>)" for lport
  obtain lport t2 ok t4 where 2: "np = Some (lport, t2)"
    and 4: "tcp_enqueue s None 0 TCP_SYN (Some (mss_option (s_mss (tsock (upd_sock s (conn lport) t2) s)))) (upd_sock s (conn lport) t2) = Some (ok, t4)"
    and r: "t' = t4 \<or> (\<exists>b. tcp_output s (tcp_list_add Active s t4) = Some (b, t'))"
    using assms(1) Some 1 unfolding tcp_connect_def Let_def np_def conn_def by (auto simp: bind_eq_Some_conv split: if_splits)
  have u1: "unlisted s t1" using tcp_alloc_ok [OF 1 assms(2)] by simp
  have "same_lists t1 t2" using 2 same_new_port [of t1 "(lport, t2)"] unfolding np_def by (auto split: if_splits)
  then have "unlisted s (upd_sock s (conn lport) t2)" using unlisted_same [OF u1] unlisted_upd by blast
  then have u4: "unlisted s t4" using unlisted_same same_enqueue [OF 4] by blast
  have "s_state (tsock t4 s) = SYN_SENT" using same_enqueue [OF 4] by (simp add: same_lists_def conn_def)
  then have "lists_ok (tcp_list_add Active s t4)" using unlisted_add [OF u4] by simp
  then show ?thesis using r unlisted_ok [OF u4] same_output(1) lists_ok_same by blast
qed

lemma write_ok:
  assumes "tcp_write s arg len t = Some (r, t')"
  shows "same_lists t t'"
proof -
  consider "t' = t" | ok t1 where "tcp_enqueue s (Some arg) len 0 None t = Some (ok, t1)" "t' = t1 \<or> (\<exists>b. tcp_output s t1 = Some (b, t'))"
    using assms unfolding tcp_write_def by (auto simp: bind_eq_Some_conv split: if_splits)
  then show ?thesis using same_enqueue same_output(1) same_lists_trans same_lists_refl by cases blast+
qed

lemma read_ok:
  assumes "tcp_read_poll s len nonblock t = Some (r, t')"
  shows "same_lists t t'"
proof -
  consider "t' = t" | p k where "tcp_queue_get (tsock t s) = Some (p, k)"
      "t' = upd_sock s (\<lambda>_. k) t \<or> tcp_ack s (upd_sock s (\<lambda>_. k) t) = Some t'"
    using assms unfolding tcp_read_poll_def Let_def by (auto simp: bind_eq_Some_conv split: if_splits)
  then show ?thesis
  proof cases
    case 2
    have "same_lists t (upd_sock s (\<lambda>_. k) t)" using queue_get_state [OF 2(1)] by (intro same_sock) simp
    then show ?thesis using 2(2) same_output(3) same_lists_trans by blast
  qed simp
qed

lemma listen_ok:
  assumes "tcp_listen ipaddr port t = Some (r, t')" "lists_ok t"
  shows "lists_ok t'"
proof -
  obtain q t1 where 1: "alloc_socket t = (q, t1)" by fastforce
  show ?thesis
  proof (cases q)
    case None
    then show ?thesis using assms 1 alloc_socket_ok [OF 1 assms(2)] by (auto simp: tcp_listen_def Let_def)
  next
    case (Some s)
    define np where "np = (if port = 0 then tcp_new_port t1 else Some (port, t1))"
    define a where "a = (case ipaddr of None \<Rightarrow> zero_ip | Some a \<Rightarrow> a)"
    define lis :: "u16 \<Rightarrow> tcp_socket_t \<Rightarrow> tcp_socket_t" where
      "lis p = (\<lambda>k. k\<lparr>s_local_ip := (if a \<noteq> zero_ip then a else s_local_ip k), s_local_port := p, s_state := LISTEN\<rparr>)" for p
    obtain port' t2 where 2: "np = Some (port', t2)" and r: "t2 = t' \<or> tcp_list_add Listening s (upd_sock s (lis port') t2) = t'"
      using assms(1) Some 1 unfolding tcp_listen_def Let_def np_def a_def [symmetric] lis_def by (auto simp: bind_eq_Some_conv split: if_splits)
    have u1: "unlisted s t1" using alloc_socket_ok [OF 1 assms(2)] Some by simp
    have "same_lists t1 t2" using 2 same_new_port [of t1 "(port', t2)"] unfolding np_def by (auto split: if_splits)
    then have u2: "unlisted s t2" using unlisted_same [OF u1] by blast
    then have "lists_ok (tcp_list_add Listening s (upd_sock s (lis port') t2))"
      by (intro unlisted_add unlisted_upd) (simp_all add: lis_def)
    then show ?thesis using r unlisted_ok [OF u2] by blast
  qed
qed

lemma accept_socket_ok:
  assumes "accept_socket s ns p t = Some t'" "unlisted ns t"
  shows "lists_ok t'"
proof -
  obtain x where x: "payload_get (hd p) 0 TCP_HLEN = Some x"
    using assms(1) by (auto simp: accept_socket_def bind_eq_Some_conv)
  define h where "h = hdr_of_host x"
  define iph where "iph = slice (b_off (hd p) - 20) 20 (b_area (hd p))"
  define acc :: "tcp_socket_t \<Rightarrow> tcp_socket_t" where
    "acc = (\<lambda>k. k\<lparr>s_local_ip := ip_dest iph, s_local_port := s_local_port (tsock t s),
           s_remote_ip := ip_src iph, s_remote_port := h_src h, s_state := SYN_RCVD,
           s_rcv_nxt := tcp_input_seqno t + 1, s_snd_wnd := ucast (h_wnd h), s_ssthresh := h_wnd h,
           s_snd_wl1 := tcp_input_seqno t\<rparr>)"
  obtain k ok t3 where
    k: "tcp_parseopt (h_offset h) (drop (b_off (hd p) + TCP_HLEN) (b_area (hd p))) (tsock (tcp_list_add Active ns (upd_sock ns acc t)) ns) = Some k"
    and e: "tcp_enqueue ns None 0 (TCP_SYN OR TCP_ACK) (Some (mss_option (s_mss k)))
      (upd_sock ns (\<lambda>_. k) (tcp_list_add Active ns (upd_sock ns acc t))) = Some (ok, t3)"
    and o: "map_option snd (tcp_output ns t3) = Some t'"
    using assms(1) x unfolding accept_socket_def Let_def acc_def h_def iph_def by (auto simp: bind_eq_Some_conv)
  define t1 where "t1 = upd_sock ns acc t"
  have "unlisted ns t1" "s_state (tsock t1 ns) = SYN_RCVD" using assms(2) unlisted_upd by (simp_all add: t1_def acc_def)
  then have 1: "lists_ok (tcp_list_add Active ns t1)" using unlisted_add by simp
  moreover have "same_lists (tcp_list_add Active ns t1) (upd_sock ns (\<lambda>_. k) (tcp_list_add Active ns t1))"
    using same_parseopt [OF k] by (intro same_sock) (simp add: t1_def)
  ultimately show ?thesis using same_enqueue [OF e] same_out [OF o] lists_ok_same unfolding t1_def by blast
qed

lemma accept_ok: "tcp_accept s t = Some y \<Longrightarrow> lists_ok t \<Longrightarrow> lists_ok (snd y)"
proof (induction rule: tcp_accept.raw_induct [rotated 1, consumes 1])
  case (1 f s t y)
  show ?case
  proof (cases "s_state (tsock t s) \<noteq> LISTEN \<or> tcp_queue_is_empty (tsock t s)")
    case True
    then show ?thesis using 1(2,3) by (auto split: if_splits)
  next
    case False
    then obtain r where q: "tcp_queue_get (tsock t s) = Some r"
      and c: "(case tcp_alloc (upd_sock s (\<lambda>_. snd r) t) of (None, t) \<Rightarrow> f s (upd_net (count Tcp_in_discards) t)
        | (Some ns, t) \<Rightarrow> map_option (Pair (Returns (Some ns))) (accept_socket s ns (fst r) t)) = Some y"
      using 1(2) unfolding Let_def by (auto simp: bind_eq_Some_conv)
    have "same_lists t (upd_sock s (\<lambda>_. snd r) t)" using queue_get_state [of "tsock t s" "fst r" "snd r"] q by (intro same_sock) simp
    then have ok: "lists_ok (upd_sock s (\<lambda>_. snd r) t)" using 1(3) lists_ok_same by blast
    obtain a t1 where a: "tcp_alloc (upd_sock s (\<lambda>_. snd r) t) = (a, t1)" by fastforce
    show ?thesis
    proof (cases a)
      case None
      then have "lists_ok t1" using tcp_alloc_ok [OF a ok] by simp
      then have "lists_ok (upd_net (count Tcp_in_discards) t1)" by (rule lists_ok_same [OF same_net])
      then show ?thesis using 1(1) c a None by simp
    next
      case (Some ns)
      then have "unlisted ns t1" using tcp_alloc_ok [OF a ok] by simp
      then show ?thesis using accept_socket_ok c a Some by auto
    qed
  qed
qed

lemma same_free_queue: "free_queue s t = Some t' \<Longrightarrow> same_lists t t'"
  unfolding free_queue_def using queue_state(2) by (auto intro!: same_sock)

lemma only_in_same: "only_in w s t \<Longrightarrow> same_lists t t' \<Longrightarrow> only_in w s t'"
  using get_list_same by (simp add: only_in_def)

lemma free_remove_ok:
  assumes "free_queue s t = Some t1" "tcp_socket_remove w s t1 = Some t'" "lists_ok t" "only_in w s t"
  shows "lists_ok t'"
proof -
  have "same_lists t t1" using assms(1) by (rule same_free_queue)
  then show ?thesis using remove_ok [OF assms(2)] lists_ok_same [OF _ assms(3)] only_in_same [OF assms(4)] by blast
qed

lemma close_wait_ok:
  assumes "tcp_close_wait s t = Some (r, t')" "lists_ok t"
  shows "lists_ok t'"
proof (cases "s_state (tsock t s) = TIME_WAIT \<and> s_unsent (tsock t s) = []")
  case True
  then have "only_in Closing s t" using only_in_type [OF assms(2)] by simp
  then show ?thesis using assms True free_remove_ok [OF _ _ assms(2)]
    by (auto simp: tcp_close_wait_def bind_eq_Some_conv)
qed (use assms in \<open>auto simp: tcp_close_wait_def split: if_splits\<close>)

lemma close_fin_ok:
  assumes "tcp_close_fin s t = Some (ok, t')" "lists_ok t" "s_state (tsock t s) \<noteq> TIME_WAIT" "s_state (tsock t s) \<noteq> LISTEN"
  shows "lists_ok t'"
proof -
  define fin :: "tcp_socket_t \<Rightarrow> tcp_socket_t" where "fin = (\<lambda>k. k\<lparr>s_state := (if s_state k = CLOSE_WAIT then LAST_ACK else FIN_WAIT_1)\<rparr>)"
  obtain t1 where e: "tcp_enqueue s None 0 TCP_FIN None t = Some (ok, t1)"
    and c: "t' = t1 \<or> upd_sock s fin t1 = t' \<or> map_option snd (tcp_output s (upd_sock s fin t1)) = Some t'"
    using assms(1) unfolding tcp_close_fin_def Let_def fin_def by (auto simp: bind_eq_Some_conv split: if_splits)
  note l = same_enqueue [OF e]
  have 1: "lists_ok t1" using lists_ok_same [OF l assms(2)] .
  have st: "s_state (tsock t1 s) \<noteq> TIME_WAIT" "s_state (tsock t1 s) \<noteq> LISTEN" using l assms(3,4) by (simp_all add: same_lists_def)
  have "list_type w (s_state (tsock (upd_sock s fin t1) x))" if "x \<in> set (get_list w t1)" for x w
  proof (cases "x = s")
    case False
    then show ?thesis using that 1 by (auto simp: lists_ok_def)
  next
    case True
    then have "list_type w (s_state (tsock t1 s))" using that 1 unfolding lists_ok_def by blast
    then have "w = Active" using st by (cases w) simp_all
    then show ?thesis using True by (simp add: fin_def)
  qed
  then have "lists_ok (upd_sock s fin t1)" using 1 unfolding lists_ok_def get_list_upd by metis
  then show ?thesis using c 1 same_out lists_ok_same by blast
qed

lemma close_ok:
  assumes "tcp_close s t = Some (r, t')" "lists_ok t"
  shows "lists_ok t'"
proof -
  define st where "st = s_state (tsock t s)"
  consider (listen) t1 where "st = LISTEN \<or> st = SYN_SENT" "free_queue s t = Some t1"
      "tcp_socket_remove (if s_state (tsock t1 s) = LISTEN then Listening else Active) s t1 = Some t'"
    | (fin) ok t1 where "st = SYN_RCVD \<or> st = ESTABLISHED \<or> st = CLOSE_WAIT" "tcp_close_fin s t = Some (ok, t1)"
      "t' = t1 \<or> tcp_close_wait s t1 = Some (r, t')"
    | (other) "free_queue s t = Some t'"
    using assms(1) unfolding tcp_close_def Let_def st_def [symmetric] by (auto simp: bind_eq_Some_conv split: if_splits)
  then show ?thesis
  proof cases
    case listen
    have "s_state (tsock t1 s) = st" using same_free_queue [OF listen(2)] by (simp add: same_lists_def st_def)
    then have "list_type (if s_state (tsock t1 s) = LISTEN then Listening else Active) st" using listen(1) by auto
    then show ?thesis using free_remove_ok [OF listen(2,3) assms(2)] only_in_type [OF assms(2)] unfolding st_def by blast
  next
    case fin
    have "lists_ok t1" using close_fin_ok [OF fin(2) assms(2)] fin(1) unfolding st_def by auto
    then show ?thesis using fin(3) close_wait_ok by blast
  next
    case other
    then show ?thesis using same_free_queue lists_ok_same assms(2) by blast
  qed
qed

lemma abort_ok:
  assumes "tcp_abort s t = Some t'" "lists_ok t" "s_state (tsock t s) \<noteq> LISTEN"
  shows "lists_ok t'"
proof (cases "s_state (tsock t s) = TIME_WAIT")
  case True
  then have "only_in Closing s t" using only_in_type [OF assms(2)] by simp
  then show ?thesis using assms(1) True free_remove_ok [OF _ _ assms(2)] by (auto simp: tcp_abort_def bind_eq_Some_conv)
next
  case False
  define k where "k = tsock t s"
  obtain t1 t2 where 1: "free_queue s t = Some t1" "tcp_socket_remove Active s t1 = Some t2"
    "tcp_rst (s_snd_nxt k) (s_rcv_nxt k) (s_local_ip k) (s_remote_ip k) (s_local_port k) (s_remote_port k) t2 = Some t'"
    using assms(1) False unfolding tcp_abort_def Let_def k_def by (auto simp: bind_eq_Some_conv)
  have "only_in Active s t"
    using only_in_type [OF assms(2), of Active s] only_in_closed [OF assms(2), of s Active] assms(3) False by (auto simp: active_state_def)
  then show ?thesis using free_remove_ok [OF 1(1,2) assms(2)] same_rst [OF 1(3)] lists_ok_same by blast
qed

section \<open>Runs\<close>

text \<open>A step is a signal of the task of IP or a call, with any arguments but for three cases, in which the code breaks the lists. The slow
  timer runs when no socket is given up in the round in which it also leaves for the closing sockets (\<open>slow_safe\<close>), since it is then
  taken out of the wrong list. The second half of \<open>tcp_close\<close> does not find the socket in \<open>TIME_WAIT\<close> or \<open>LISTEN\<close>. A socket
  that waits for connections is closed, not aborted, since \<open>tcp_abort\<close> takes it out of the active list, which it is not in.\<close>

inductive stack_step :: "ip_t \<Rightarrow> ip_t \<Rightarrow> bool" where
  tick: "ip_main Tick ip = Some ip' \<Longrightarrow> slow_safe (ip_tcp ip) \<Longrightarrow> stack_step ip ip'"
| packets: "ip_main (Packets inp) ip = Some ip' \<Longrightarrow> stack_step ip ip'"
| call_connect: "tcp_connect addr port (ip_tcp ip) = Some (r, t) \<Longrightarrow> stack_step ip (ip\<lparr>ip_tcp := t\<rparr>)"
| call_listen: "tcp_listen addr port (ip_tcp ip) = Some (r, t) \<Longrightarrow> stack_step ip (ip\<lparr>ip_tcp := t\<rparr>)"
| call_accept: "tcp_accept s (ip_tcp ip) = Some (q, t) \<Longrightarrow> stack_step ip (ip\<lparr>ip_tcp := t\<rparr>)"
| call_write: "tcp_write s d len (ip_tcp ip) = Some (w, t) \<Longrightarrow> stack_step ip (ip\<lparr>ip_tcp := t\<rparr>)"
| call_read: "tcp_read_poll s len nonblock (ip_tcp ip) = Some (x, t) \<Longrightarrow> stack_step ip (ip\<lparr>ip_tcp := t\<rparr>)"
| call_close: "tcp_close s (ip_tcp ip) = Some (w, t) \<Longrightarrow> stack_step ip (ip\<lparr>ip_tcp := t\<rparr>)"
| call_close_fin: "tcp_close_fin s (ip_tcp ip) = Some (ok, t) \<Longrightarrow> s_state (tsock (ip_tcp ip) s) \<noteq> TIME_WAIT
    \<Longrightarrow> s_state (tsock (ip_tcp ip) s) \<noteq> LISTEN \<Longrightarrow> stack_step ip (ip\<lparr>ip_tcp := t\<rparr>)"
| call_close_wait: "tcp_close_wait s (ip_tcp ip) = Some (w, t) \<Longrightarrow> stack_step ip (ip\<lparr>ip_tcp := t\<rparr>)"
| call_abort: "tcp_abort s (ip_tcp ip) = Some t \<Longrightarrow> s_state (tsock (ip_tcp ip) s) \<noteq> LISTEN \<Longrightarrow> stack_step ip (ip\<lparr>ip_tcp := t\<rparr>)"
| other: "stack_step ip (set_ipnet n (ip\<lparr>ip_udp := u\<rparr>))"

lemma bind_eq_None_conv: "Option.bind x f = None \<longleftrightarrow> x = None \<or> (\<exists>y. x = Some y \<and> f y = None)"
  by (cases x) auto

lemma stack_step_keeps:
  assumes "stack_step ip ip'" "lists_ok (ip_tcp ip)"
  shows "lists_ok (ip_tcp ip')"
  using assms
proof cases
  case tick
  then show ?thesis using ip_tick_keeps assms(2) by (simp add: ip_main_def ip_keeps_def)
next
  case packets
  then show ?thesis using ip_receive_keeps assms(2) by (simp add: ip_main_def ip_keeps_def)
next
  case call_connect
  then show ?thesis using connect_ok assms(2) by simp
next
  case call_listen
  then show ?thesis using listen_ok assms(2) by simp
next
  case call_accept
  then show ?thesis using accept_ok assms(2) by fastforce
next
  case call_write
  then show ?thesis using lists_ok_same [OF write_ok assms(2)] by simp
next
  case call_read
  then show ?thesis using lists_ok_same [OF read_ok assms(2)] by simp
next
  case call_close
  then show ?thesis using close_ok assms(2) by simp
next
  case call_close_fin
  then show ?thesis using close_fin_ok assms(2) by simp
next
  case call_close_wait
  then show ?thesis using close_wait_ok assms(2) by simp
next
  case call_abort
  then show ?thesis using abort_ok assms(2) by simp
next
  case (other n u)
  have "same_lists (ip_tcp ip) (ip_tcp ip')" using other by (simp add: set_ipnet_def upd_ipnet_def)
  then show ?thesis using lists_ok_same assms(2) by blast
qed

lemma stack_run_keeps: "stack_step\<^sup>*\<^sup>* ip ip' \<Longrightarrow> lists_ok (ip_tcp ip) \<Longrightarrow> lists_ok (ip_tcp ip')"
  by (induction rule: rtranclp_induct) (auto intro: stack_step_keeps)

text \<open>The memory at the start is zero: there are no sockets.\<close>

definition no_sockets :: "tcp_t \<Rightarrow> bool" where
  "no_sockets t \<longleftrightarrow> tcp_sockets t = [] \<and> tcp_closing_sockets t = [] \<and> tcp_listen_sockets t = [] \<and> 0 < next_sock t"

lemma start_ok: "no_sockets (ip_tcp ip) \<Longrightarrow> lists_ok (ip_tcp (ip_init m ip))"
  unfolding lists_ok_def no_sockets_def ip_init_def
  by (auto simp: get_list_def upd_net_def split: socklist.splits)

text \<open>C23: The members of each list of sockets have a state that belongs there. In any run of \<open>stack_step\<close> from the start of the
  stack without sockets, made of ticks of the timers, packets that come in and calls, the members of the list of listening sockets are in the
  state \<open>LISTEN\<close>, those of the closing list in \<open>TIME_WAIT\<close>, those of the active list in none of these and not \<open>CLOSED\<close>, no
  socket is twice in the lists, and so the assertions of the search for the socket of a segment never fail. It speaks of the members
  of the lists only: a socket whose \<open>TIME_WAIT\<close> has expired is in no list and keeps that state. The runs leave out what does break the
  lists in the code: a tick in which the slow timer gives a socket up and also moves it to the closing sockets, \<open>tcp_close_fin\<close> for a
  socket in \<open>TIME_WAIT\<close> or \<open>LISTEN\<close>, and \<open>tcp_abort\<close> of a listening socket. A step that fails an assertion or does not
  return ends the run.\<close>

theorem stack_sockets_typed:
  assumes "no_sockets (ip_tcp ip0)" "stack_step\<^sup>*\<^sup>* (ip_init m ip0) ip" "t = ip_tcp ip"
  shows "distinct (tcp_sockets t @ tcp_closing_sockets t @ tcp_listen_sockets t)
    \<and> (\<forall>s \<in> set (tcp_sockets t). s_state (tsock t s) \<noteq> CLOSED \<and> s_state (tsock t s) \<noteq> LISTEN \<and> s_state (tsock t s) \<noteq> TIME_WAIT)
    \<and> (\<forall>s \<in> set (tcp_closing_sockets t). s_state (tsock t s) = TIME_WAIT)
    \<and> (\<forall>s \<in> set (tcp_listen_sockets t). s_state (tsock t s) = LISTEN)
    \<and> find_active_socket h src dest t \<noteq> None \<and> find_closing_socket h src dest t \<noteq> None \<and> find_listen_socket h dest t \<noteq> None"
proof -
  have ok: "lists_ok t" using stack_run_keeps [OF assms(2)] start_ok [OF assms(1)] assms(3) by simp
  have d: "distinct (get_list w t)" and ty: "s \<in> set (get_list w t) \<Longrightarrow> list_type w (s_state (tsock t s))" for w s
    using ok by (auto simp: lists_ok_def)
  note l = d [of Active] d [of Closing] d [of Listening] ty [of _ Active] ty [of _ Closing] ty [of _ Listening]
  have a: "\<forall>s \<in> set (tcp_sockets t). s_state (tsock t s) \<noteq> CLOSED \<and> s_state (tsock t s) \<noteq> TIME_WAIT \<and> s_state (tsock t s) \<noteq> LISTEN"
    and c: "\<forall>s \<in> set (tcp_closing_sockets t). s_state (tsock t s) = TIME_WAIT"
    and li: "\<forall>s \<in> set (tcp_listen_sockets t). s_state (tsock t s) = LISTEN"
    using l(4-6) by (auto simp: get_list_def active_state_def)
  have "find_active_socket h src dest t \<noteq> None"
    using find_checked_total [OF a, of "\<lambda>k. tcp_match k h src dest"] unfolding find_active_socket_def
    by (auto split: option.splits simp: bind_eq_None_conv)
  moreover have "find_closing_socket h src dest t \<noteq> None"
    using find_checked_total [OF c] unfolding find_closing_socket_def by simp
  moreover have "find_listen_socket h dest t \<noteq> None"
    using find_checked_total [of "tcp_listen_sockets t" "\<lambda>_. True" "tsock t" "\<lambda>k. listen_match k h dest"] unfolding find_listen_socket_def
    by (auto split: option.splits simp: bind_eq_None_conv)
  moreover have "distinct (tcp_sockets t @ tcp_closing_sockets t @ tcp_listen_sockets t)"
    using l(1-3) a c li by (auto simp: get_list_def)
  ultimately show ?thesis using a c li by blast
qed

text \<open>A server is started, and then a client connects to another host.\<close>

definition start_example :: ip_t where
  "start_example = \<lparr>ip_tcp = tcp_example\<lparr>tcp_sockets := []\<rparr>, ip_udp = udp_example\<rparr>"

definition listen_example :: "tcp_t option" where
  "listen_example = map_option snd (tcp_listen None 80 (ip_tcp (ip_init [Some (\<lambda>_. 0), Some (\<lambda>_. 0), Some (\<lambda>_. 0)] start_example)))"

lemma listen_example: "\<exists>t. listen_example = Some t \<and> tcp_listen_sockets t = [2]"
  by (simp add: listen_example_def tcp_listen_def ip_init_def start_example_def tcp_example_def alloc_socket_def upd_net_def upd_sock_def
      Let_def zero_socket_def tcp_list_add_def get_list_def set_list_def set_next_def link_to_def)

lemma stack_sockets_typed_witness:
  "\<exists>ip. stack_step\<^sup>*\<^sup>* (ip_init [Some (\<lambda>_. 0), Some (\<lambda>_. 0), Some (\<lambda>_. 0)] start_example) ip
     \<and> tcp_listen_sockets (ip_tcp ip) = [2] \<and> s_state (tsock (ip_tcp ip) 2) = LISTEN"
proof -
  define ip1 where "ip1 = ip_init [Some (\<lambda>_. 0), Some (\<lambda>_. 0), Some (\<lambda>_. 0)] start_example"
  obtain t r where t: "tcp_listen None 80 (ip_tcp ip1) = Some (r, t)" "tcp_listen_sockets t = [2]"
    using listen_example unfolding listen_example_def ip1_def by auto
  have n: "no_sockets (ip_tcp start_example)" by (simp add: no_sockets_def start_example_def tcp_example_def)
  have st: "stack_step\<^sup>*\<^sup>* ip1 (ip1\<lparr>ip_tcp := t\<rparr>)" using call_listen [OF t(1)] by blast
  have "\<forall>s \<in> set (tcp_listen_sockets t). s_state (tsock t s) = LISTEN"
    using stack_sockets_typed [OF n st [unfolded ip1_def], of t] by simp
  then show ?thesis using st t(2) unfolding ip1_def [symmetric] by (intro exI [of _ "ip1\<lparr>ip_tcp := t\<rparr>"]) simp
qed

end
