(* ===== verification/Tcp_Live.thy ===== *)
theory Tcp_Live
  imports Stack_Run
begin

text \<open>
  Delayed acknowledgements that need a segment of their own are sent: the frame that the fast timer hands to the driver, and what the
  output of a packet leaves of the network for the sockets that follow.
\<close>

section \<open>What is left of the network\<close>

text \<open>The driver gets more frames, and addresses that were resolved stay so.\<close>

definition net_ext :: "net_t \<Rightarrow> net_t \<Rightarrow> bool" where
  "net_ext st st' \<longleftrightarrow> route st' = route st \<and> (\<forall>n d. resolved n d st \<longrightarrow> resolved n d st')
     \<and> (\<forall>n. \<exists>new. nif_out (netif st' n) = nif_out (netif st n) @ new)"

lemma net_ext_refl [simp]: "net_ext st st"
  by (simp add: net_ext_def)

lemma net_ext_trans:
  assumes "net_ext a b" "net_ext b c"
  shows "net_ext a c"
proof -
  have "\<exists>new. nif_out (netif c n) = nif_out (netif a n) @ new" for n
    using assms unfolding net_ext_def by (metis append.assoc)
  then show ?thesis using assms by (simp add: net_ext_def)
qed

lemma arp_find_aged:
  "arp_find (\<lambda>e. ae_netif e = n \<and> ae_ipaddr e = d) (es[i := (es ! i)\<lparr>ae_age := a\<rparr>]) = arp_find (\<lambda>e. ae_netif e = n \<and> ae_ipaddr e = d) es"
proof (induction es arbitrary: i)
  case (Cons e es)
  then show ?case by (cases i) simp_all
qed simp

lemma arp_lookup_ext: "arp_lookup n d st = (e, st') \<Longrightarrow> net_ext st st' \<and> pool st' = pool st"
  by (auto simp: arp_lookup_def net_ext_def resolved_def arp_find_aged split: option.splits)

lemma upd_netif_ext:
  assumes "\<And>u. nif_arp (f u) = nif_arp u" "\<And>u. \<exists>new. nif_out (f u) = nif_out u @ new"
  shows "net_ext st (upd_netif n f st) \<and> pool (upd_netif n f st) = pool st"
  using assms by (auto simp: net_ext_def resolved_def upd_netif_def)

lemma netif_output_ext:
  assumes "netif_output n p (Some d) (Some s) st = Some (ok, st')" "resolved n d st"
  shows "net_ext st st' \<and> pool st' = pool st"
proof -
  have drv: "net_ext u (snd (drv_output n q prio u)) \<and> pool (snd (drv_output n q prio u)) = pool u" for q prio u
    unfolding drv_output_def by (simp add: upd_netif_ext)
  have disc: "net_ext u (upd_netif n (\<lambda>u. u\<lparr>nif_out_discards := nif_out_discards u + 1\<rparr>) u)
    \<and> pool (upd_netif n (\<lambda>u. u\<lparr>nif_out_discards := nif_out_discards u + 1\<rparr>) u) = pool u" for u
    by (simp add: upd_netif_ext)
  show ?thesis
  proof (cases "nif_arp (netif st n)")
    case False
    then have "st' = snd (drv_output n p 0 st)" using assms(1) by (auto simp: netif_output_def netif_output_prio_def)
    then show ?thesis using drv by simp
  next
    case True
    define uni where "uni \<longleftrightarrow> ip_first d AND 0xf0 \<noteq> 0xe0"
    obtain e st1 where e: "(if uni then arp_lookup n d st else (None, st)) = (e, st1)" by fastforce
    have 1: "net_ext st st1 \<and> pool st1 = pool st" using e arp_lookup_ext by (cases uni) auto
    have k: "\<not> (uni \<and> e = None)"
    proof
      assume u: "uni \<and> e = None"
      then obtain i where "arp_find (\<lambda>e. ae_netif e = n \<and> ae_ipaddr e = d) (arp_table st) = Some i"
        using assms(2) True unfolding resolved_def uni_def by blast
      then show False using e u by (simp add: arp_lookup_def)
    qed
    obtain ok' p' where p': "arp_add_header n p (Some d) e st1 = Some (ok', p')"
      and st': "st' = snd (if ok' then drv_output n p' 0 st1 else (False, upd_netif n (\<lambda>u. u\<lparr>nif_out_discards := nif_out_discards u + 1\<rparr>) st1))"
      using assms(1) True e k unfolding netif_output_def netif_output_prio_def Let_def option.case option.sel uni_def [symmetric]
      by (auto simp: bind_eq_Some_conv)
    have "net_ext st1 st' \<and> pool st' = pool st1" using drv disc by (simp add: st')
    then show ?thesis using 1 net_ext_trans by auto
  qed
qed

lemma ip_output_ext:
  assumes "ip_output p dest src proto st = Some (ok, st')" "route_lookup (route st) dest = Some (n, gw, ifa)" "resolved n dest st"
  shows "net_ext st st' \<and> pool st' = pool st"
proof -
  have cnt: "net_ext st (count c st) \<and> pool (count c st) = pool st" for c st by (simp add: net_ext_def)
  have o: "ip_output_netif p dest src proto n ifa st = Some (ok, st')" using assms(1,2) by (simp add: ip_output_def)
  obtain b p' where h: "buf_add_header p 20 = (b, p')" by fastforce
  show ?thesis
  proof (cases b)
    case False
    then have "st' = count Out_discards (count Out_requests st)" using o h by (simp add: ip_output_netif_def)
    then show ?thesis using cnt net_ext_trans by metis
  next
    case True
    define st1 where "st1 = (count Out_requests st)\<lparr>ip_id := ip_id (count Out_requests st) + 1\<rparr>"
    have 1: "net_ext st st1" "pool st1 = pool st" "resolved n dest st1"
      using assms(3) by (simp_all add: st1_def net_ext_def resolved_def count_def)
    obtain q where "netif_output n q (Some dest) (Some ifa) st1 = Some (ok, st')"
      using o h True unfolding ip_output_netif_def Let_def st1_def by (auto simp: bind_eq_Some_conv)
    from netif_output_ext [OF this 1(3)] show ?thesis using 1(1,2) net_ext_trans by auto
  qed
qed

section \<open>Empty segments\<close>

text \<open>A frame with an IP header that the receiver accepts and a TCP header whose checksum is right.\<close>

definition tcp_frame :: "tcp_hdr_t \<Rightarrow> ipaddr \<Rightarrow> ipaddr \<Rightarrow> u8 list \<Rightarrow> bool" where
  "tcp_frame h lip rip fr \<longleftrightarrow> (\<exists>pre ih ck. fr = pre @ ih @ tcp_hdr_bytes (h\<lparr>h_chksum := ck\<rparr>) \<and> hdr_good ih
     \<and> ip_src ih = lip \<and> ip_dest ih = rip \<and> ip_proto ih = IP_PROTO_TCP
     \<and> foldl crc16_inet_byte (crc16_inet_header lip rip IP_PROTO_TCP 20) (tcp_hdr_bytes (h\<lparr>h_chksum := ck\<rparr>)) = 0xffff)"

lemma tcp_hdr_parts:
  "tcp_hdr_bytes (h\<lparr>h_chksum := c\<rparr>) = (be16 (h_src h) @ be16 (h_dest h) @ be32 (h_seqno h) @ be32 (h_ackno h)
     @ [h_offset h, h_flags h] @ be16 (h_wnd h)) @ [ucast c, ucast (drop_bit 8 c)] @ put_short (h_urgp h)"
  by (simp add: tcp_hdr_bytes_def put_short_def)

lemma tcp_chksum_good:
  assumes "c = NOT (foldl crc16_inet_byte s (tcp_hdr_bytes (h\<lparr>h_chksum := 0\<rparr>)))"
  shows "foldl crc16_inet_byte s (tcp_hdr_bytes (h\<lparr>h_chksum := c\<rparr>)) = 0xffff"
  unfolding tcp_hdr_parts
proof (rule chksum_field_good)
  show "c = NOT (foldl crc16_inet_byte s ((be16 (h_src h) @ be16 (h_dest h) @ be32 (h_seqno h) @ be32 (h_ackno h)
     @ [h_offset h, h_flags h] @ be16 (h_wnd h)) @ [0, 0] @ put_short (h_urgp h)))"
    unfolding assms tcp_hdr_parts by simp
qed (simp_all add: be16_def be32_def put_short_def chksum_field_def)

lemma send_empty_sent:
  assumes "pool (tnet t) = Some f # m" "route_lookup (route (tnet t)) rip = Some (n, gw, ifa)" "resolved n rip (tnet t)"
  shows "\<exists>t' fr u. tcp_send_empty h lip rip c t = Some (True, t') \<and> t' = upd_net (\<lambda>_. u) t \<and> tcp_frame h lip rip fr
    \<and> nif_out (netif (tnet t') n) = nif_out (netif (tnet t) n) @ [(fr, 0)] \<and> net_ext (tnet t) (tnet t') \<and> pool (tnet t') = m"
proof -
  define p where "p = [\<lparr>b_area = map f [0..<56], b_off = 36, b_len = 20, b_tot = 20\<rparr>]"
  have al: "buf_alloc 20 36 (pool (tnet t)) = (p, m)" by (simp add: buf_alloc_def assms(1) p_def)
  have ok: "packet_ok p" "length (packet_data p) = 20" "b_off (hd p) = 36" "tl p = []" "unat (b_len (hd p)) = 20"
    by (simp_all add: p_def packet_ok_def buf_ok_def packet_data_def b_data_def)
  define st where "st = (case c of Some c \<Rightarrow> count c | None \<Rightarrow> (\<lambda>x. x)) ((tnet t)\<lparr>pool := m\<rparr>)"
  have st: "route st = route (tnet t)" "netif st = netif (tnet t)" "pool st = m" "resolved n rip st" "net_ext (tnet t) st"
    using assms(3) by (cases c; simp add: st_def resolved_def net_ext_def)+
  define ini where "ini = crc16_inet_header lip rip IP_PROTO_TCP 20"
  obtain b where b: "payload_put 0 (tcp_hdr_bytes (h\<lparr>h_chksum := 0\<rparr>)) (hd p) = Some b" "packet_ok [b]"
    "packet_data [b] = tcp_hdr_bytes (h\<lparr>h_chksum := 0\<rparr>)" "b_off b = 36" "b_len b = b_len (hd p)" "b_tot b = b_tot (hd p)"
    using payload_put_front [OF ok(1), of "packet_data p" "[]" "tcp_hdr_bytes (h\<lparr>h_chksum := 0\<rparr>)"] ok(2-5) by auto
  have bl: "b_len b = 20" "b_tot b = 20" using b(5,6) by (simp_all add: p_def)
  define v where "v = NOT (foldl crc16_inet_byte ini (tcp_hdr_bytes (h\<lparr>h_chksum := 0\<rparr>)))"
  have pc: "packet_chksum [b] ini = Some v" using packet_chksum_eq [OF b(2)] b(3) bl by (simp add: v_def)
  obtain b' where b': "payload_put 0 (tcp_hdr_bytes (h\<lparr>h_chksum := v\<rparr>)) b = Some b'" "packet_ok [b']"
    "packet_data [b'] = tcp_hdr_bytes (h\<lparr>h_chksum := v\<rparr>)" "b_off b' = b_off b"
    using payload_put_front [OF b(2), of "packet_data [b]" "[]" "tcp_hdr_bytes (h\<lparr>h_chksum := v\<rparr>)"] b(3) bl by auto
  have ch: "foldl crc16_inet_byte ini (tcp_hdr_bytes (h\<lparr>h_chksum := v\<rparr>)) = 0xffff" by (rule tcp_chksum_good) (simp add: v_def)
  obtain ok' st' pre ih where o: "ip_output_netif [b'] rip (Some lip) IP_PROTO_TCP n ifa st = Some (ok', st')"
    "nif_out (netif st' n) = nif_out (netif st n) @ [(pre @ ih @ packet_data [b'], 0)]" "hdr_good ih" "ip_dest ih = rip"
    "ip_src ih = lip" "ip_proto ih = IP_PROTO_TCP"
    using ip_output_netif_sent [OF b'(2) _ _ st(4), of "Some lip" IP_PROTO_TCP ifa] b'(3,4) b(4) by auto
  have io: "ip_output [b'] rip (Some lip) IP_PROTO_TCP st = Some (ok', st')" using o(1) assms(2) st(1) by (simp add: ip_output_def)
  have ext: "net_ext (tnet t) st'" "pool st' = m"
    using ip_output_ext [OF io _ st(4)] assms(2) st(1,3,5) net_ext_trans by auto
  have st_eq: "(case c of Some c \<Rightarrow> count c (tnet (upd_net (\<lambda>n. n\<lparr>pool := m\<rparr>) t)) | None \<Rightarrow> tnet (upd_net (\<lambda>n. n\<lparr>pool := m\<rparr>) t)) = st"
    by (cases c) (simp_all add: st_def)
  have "p \<noteq> []" by (simp add: p_def)
  then have se: "tcp_send_empty h lip rip c t = Some (True, upd_net (\<lambda>_. st') (upd_net (\<lambda>n. n\<lparr>pool := m\<rparr>) t))"
    unfolding tcp_send_empty_def al Let_def using b(1) bl(2) pc [unfolded ini_def] b'(1) io st_eq by (cases p) simp_all
  have "tcp_frame h lip rip (pre @ ih @ packet_data [b'])"
    unfolding tcp_frame_def using o(3-6) b'(3) ch ini_def by blast
  then show ?thesis
    using se ext o(2) st(2) by (intro exI [of _ "upd_net (\<lambda>_. st') t"] exI [of _ "pre @ ih @ packet_data [b']"] exI [of _ st'])
      (simp add: upd_net_def)
qed

section \<open>The fast timer\<close>

definition ack_hdr :: "tcp_socket_t \<Rightarrow> tcp_hdr_t" where
  "ack_hdr k = \<lparr>h_src = s_local_port k, h_dest = s_remote_port k, h_seqno = s_snd_nxt k, h_ackno = s_rcv_nxt k,
     h_offset = 0x50, h_flags = TCP_ACK, h_wnd = s_rcv_wnd k, h_chksum = 0, h_urgp = 0\<rparr>"

text \<open>The socket has a delayed acknowledgement.\<close>

abbreviation (input) waiting :: "tcp_t \<Rightarrow> nat \<Rightarrow> bool" where
  "waiting t s \<equiv> has (s_flags (tsock t s)) TF_ACK_DELAY"

text \<open>No segment waits to be sent that would carry the acknowledgement: none waits, or the window has no room for the first one.
  This is the condition of \<open>tcp_output\<close> for an empty segment.\<close>

definition none_carries :: "tcp_socket_t \<Rightarrow> bool" where
  "none_carries k \<longleftrightarrow> s_unsent k = [] \<or>
     h_seqno (seg_hdr (hd (s_unsent k))) - s_lastack k + ucast (seg_len (hd (s_unsent k))) > min (s_snd_wnd k) (ucast (s_cwnd k))"

text \<open>What the acknowledgement of a socket needs, memory apart: nothing that would carry it waits to be sent, the socket is not the one
  whose segment is being processed, for which \<open>tcp_output\<close> sends nothing, and there is a route to the other host, whose address
  is resolved.\<close>

definition ack_ready :: "tcp_t \<Rightarrow> nat \<Rightarrow> bool" where
  "ack_ready t s \<longleftrightarrow> none_carries (tsock t s) \<and> tcp_input_socket t \<noteq> s
     \<and> (\<exists>n gw ifa. route_lookup (route (tnet t)) (s_remote_ip (tsock t s)) = Some (n, gw, ifa) \<and> resolved n (s_remote_ip (tsock t s)) (tnet t))"

text \<open>From \<open>t\<close> to \<open>t'\<close> the interface of its route has sent the acknowledgement of \<open>s\<close>.\<close>

definition acked :: "tcp_t \<Rightarrow> nat \<Rightarrow> tcp_t \<Rightarrow> bool" where
  "acked t s t' \<longleftrightarrow> (\<exists>n gw ifa fr a b. route_lookup (route (tnet t)) (s_remote_ip (tsock t s)) = Some (n, gw, ifa)
     \<and> tcp_frame (ack_hdr (tsock t s)) (s_local_ip (tsock t s)) (s_remote_ip (tsock t s)) fr
     \<and> nif_out (netif (tnet t') n) = nif_out (netif (tnet t) n) @ a @ (fr, 0) # b)"

lemma has_bits: "has (x OR 2) 2" "\<not> has (x AND NOT (1 OR 2)) 1"
proof -
  have "bit ((x OR 2) AND 2) 1" by (simp add: bit_simps)
  then have "(x OR 2) AND 2 \<noteq> 0" by auto
  then show "has (x OR 2) 2" by (simp add: has_def)
  have "(x AND NOT (1 OR 2)) AND 1 = 0" by (rule bit_word_eqI) (auto simp: bit_simps)
  then show "\<not> has (x AND NOT (1 OR 2)) 1" by (simp add: has_def)
qed

lemma fast_socket_sends:
  assumes "waiting t s" "ack_ready t s" "pool (tnet t) = Some f # m"
  shows "\<exists>t'. fast_socket s t = Some t' \<and> acked t s t' \<and> net_ext (tnet t) (tnet t') \<and> pool (tnet t') = m \<and> \<not> waiting t' s
    \<and> (\<forall>x. x \<noteq> s \<longrightarrow> tsock t' x = tsock t x) \<and> tcp_input_socket t' = tcp_input_socket t"
proof -
  define k where "k = tsock t s"
  define t1 where "t1 = upd_sock s (\<lambda>k. k\<lparr>s_flags := s_flags k OR TF_ACK_NOW\<rparr>) t"
  define t2 where "t2 = upd_sock s (\<lambda>k. k\<lparr>s_flags := s_flags k AND NOT (TF_ACK_DELAY OR TF_ACK_NOW)\<rparr>) t1"
  obtain n gw ifa where r: "route_lookup (route (tnet t)) (s_remote_ip k) = Some (n, gw, ifa)" "resolved n (s_remote_ip k) (tnet t)"
    and i: "none_carries k" "tcp_input_socket t \<noteq> s" using assms(2) unfolding ack_ready_def k_def by blast
  have n2: "tnet t2 = tnet t" by (simp add: t1_def t2_def)
  obtain t3 fr u where s: "tcp_send_empty (ack_hdr k) (s_local_ip k) (s_remote_ip k) None t2 = Some (True, t3)" "t3 = upd_net (\<lambda>_. u) t2"
    "tcp_frame (ack_hdr k) (s_local_ip k) (s_remote_ip k) fr" "nif_out (netif (tnet t3) n) = nif_out (netif (tnet t) n) @ [(fr, 0)]"
    "net_ext (tnet t) (tnet t3)" "pool (tnet t3) = m"
    using send_empty_sent [of t2 f m "s_remote_ip k" n gw ifa "ack_hdr k" "s_local_ip k" None] r assms(3) unfolding n2 by blast
  have k1: "tsock t1 s = k\<lparr>s_flags := s_flags k OR 2\<rparr>" "tcp_input_socket t1 \<noteq> s" using i(2) by (simp_all add: t1_def k_def)
  have "push_bit 4 5 = (0x50 :: u8)" by simp
  define wnd where "wnd = (if s_snd_wnd k < ucast (s_cwnd k) then s_snd_wnd k else ucast (s_cwnd k))"
  have "wnd = min (s_snd_wnd k) (ucast (s_cwnd k))" by (auto simp: wnd_def min_def)
  then have c: "s_unsent k = [] \<or> h_seqno (seg_hdr (hd (s_unsent k))) - s_lastack k + ucast (seg_len (hd (s_unsent k))) > wnd"
    using i(1) by (simp add: none_carries_def)
  have "tcp_output s t1 = Some (True, t3)"
    using k1 has_bits(1) [of "s_flags k"] s(1) c unfolding tcp_output_def t2_def [symmetric] wnd_def
    by (auto simp: ack_hdr_def Let_def)
  then have an: "tcp_ack_now s t = Some t3" by (simp add: tcp_ack_now_def t1_def)
  define t4 where "t4 = upd_sock s (\<lambda>k. k\<lparr>s_flags := s_flags k AND NOT (TF_ACK_DELAY OR TF_ACK_NOW)\<rparr>) t3"
  have f: "fast_socket s t = Some t4" using an assms(1) by (simp add: fast_socket_def t4_def)
  have "tsock t3 = tsock t2" by (simp add: s(2))
  then have "\<forall>x. x \<noteq> s \<longrightarrow> tsock t4 x = tsock t x" by (simp add: t4_def t1_def t2_def)
  moreover have "\<not> waiting t4 s" using has_bits(2) by (simp add: t4_def)
  moreover have "acked t s t4"
    unfolding acked_def k_def [symmetric] using r(1) s(3,4)
    by (intro exI [of _ n] exI [of _ gw] exI [of _ ifa] exI [of _ fr] exI [of _ "[]"]) (simp add: t4_def)
  moreover have "tcp_input_socket t4 = tcp_input_socket t" by (simp add: t4_def s(2) t1_def t2_def)
  ultimately show ?thesis using f s(5,6) by (intro exI [of _ t4]) (simp add: t4_def)
qed

text \<open>The pool answers the next requests.\<close>

definition grants :: "nat \<Rightarrow> pool_t \<Rightarrow> bool" where
  "grants c m \<longleftrightarrow> c \<le> length m \<and> None \<notin> set (take c m)"

lemma acked_ext: "acked t s t' \<Longrightarrow> net_ext (tnet t') (tnet t'') \<Longrightarrow> acked t s t''"
  unfolding acked_def net_ext_def by (metis append.assoc append_Cons)

lemma acked_from:
  assumes "net_ext (tnet t) (tnet t1)" "acked t1 s t'" "tsock t1 s = tsock t s"
  shows "acked t s t'"
proof -
  obtain n gw ifa fr a b where "route_lookup (route (tnet t)) (s_remote_ip (tsock t s)) = Some (n, gw, ifa)"
    "tcp_frame (ack_hdr (tsock t s)) (s_local_ip (tsock t s)) (s_remote_ip (tsock t s)) fr"
    "nif_out (netif (tnet t') n) = nif_out (netif (tnet t1) n) @ a @ (fr, 0) # b"
    using assms unfolding acked_def net_ext_def by auto
  moreover obtain new where "nif_out (netif (tnet t1) n) = nif_out (netif (tnet t) n) @ new"
    using assms(1) unfolding net_ext_def by blast
  ultimately show ?thesis unfolding acked_def by (metis append.assoc)
qed

lemma ack_ready_ext:
  assumes "ack_ready t s" "net_ext (tnet t) (tnet t1)" "tsock t1 s = tsock t s" "tcp_input_socket t1 = tcp_input_socket t"
  shows "ack_ready t1 s"
proof -
  have "route (tnet t1) = route (tnet t)" "resolved n d (tnet t) \<Longrightarrow> resolved n d (tnet t1)" for n d
    using assms(2) unfolding net_ext_def by blast+
  then show ?thesis using assms(1) unfolding ack_ready_def assms(3,4) by metis
qed

lemma fast_loop_sends:
  assumes "distinct ss" "\<forall>s \<in> set ss. waiting t s \<longrightarrow> ack_ready t s" "grants (length (filter (waiting t) ss)) (pool (tnet t))"
  shows "\<exists>t'. fast_loop ss t = Some t' \<and> net_ext (tnet t) (tnet t') \<and> (\<forall>x. x \<notin> set ss \<longrightarrow> tsock t' x = tsock t x)
    \<and> (\<forall>s \<in> set ss. \<not> waiting t' s \<and> (waiting t s \<longrightarrow> acked t s t'))"
  using assms
proof (induction ss arbitrary: t)
  case Nil
  then show ?case by simp
next
  case (Cons s ss)
  obtain t1 where 1: "fast_socket s t = Some t1" "net_ext (tnet t) (tnet t1)" "\<forall>x. x \<noteq> s \<longrightarrow> tsock t1 x = tsock t x"
    "\<not> waiting t1 s" "waiting t s \<longrightarrow> acked t s t1" "tcp_input_socket t1 = tcp_input_socket t"
    "grants (length (filter (waiting t) ss)) (pool (tnet t1))"
  proof (cases "waiting t s")
    case False
    then show ?thesis using that [of t] Cons.prems(3) by (simp add: fast_socket_def)
  next
    case True
    then obtain f m where m: "pool (tnet t) = Some f # m"
      using Cons.prems(3) by (cases "pool (tnet t)"; cases "hd (pool (tnet t))") (auto simp: grants_def)
    have "grants (length (filter (waiting t) ss)) m" using Cons.prems(3) True m by (simp add: grants_def)
    then show ?thesis using fast_socket_sends [OF True _ m] that Cons.prems(2) True by auto
  qed
  have eq: "tsock t1 x = tsock t x" if "x \<in> set ss" for x using 1(3) Cons.prems(1) that by auto
  then have w: "filter (waiting t1) ss = filter (waiting t) ss" by (intro filter_cong) simp_all
  have r: "\<forall>x \<in> set ss. waiting t1 x \<longrightarrow> ack_ready t1 x"
    using Cons.prems(2) eq ack_ready_ext [OF _ 1(2) eq 1(6)] by simp
  obtain t' where 2: "fast_loop ss t1 = Some t'" "net_ext (tnet t1) (tnet t')" "\<forall>x. x \<notin> set ss \<longrightarrow> tsock t' x = tsock t1 x"
    "\<forall>x \<in> set ss. \<not> waiting t' x \<and> (waiting t1 x \<longrightarrow> acked t1 x t')"
    using Cons.IH [of t1] Cons.prems(1) r 1(7) unfolding w by auto
  have "waiting t s \<longrightarrow> acked t s t'" using 1(5) acked_ext 2(2) by blast
  moreover have "\<not> waiting t' s" using 2(3) 1(4) Cons.prems(1) by simp
  moreover have "\<forall>x \<in> set ss. \<not> waiting t' x \<and> (waiting t x \<longrightarrow> acked t x t')"
    using 2(4) eq acked_from [OF 1(2)] by simp
  ultimately show ?case using 1(1-3) 2(1-3) net_ext_trans [OF 1(2) 2(2)] by simp
qed

text \<open>C24: A delayed acknowledgement that has to go in a segment of its own is sent by the next run of the fast timer. The conditions
  are: the list of active sockets has no socket twice; for every active socket that waits, no unsent segment is queued that fits into
  the window and would carry the acknowledgement, the socket is not the one whose segment is being processed, and there is a route
  to the other host, whose address is resolved (\<open>ack_ready\<close>); and the memory for one packet for each such socket is granted
  (\<open>grants\<close>). Then \<open>tcp_fasttmr\<close> returns, no active socket waits any more, and for each that did the driver of its
  interface has got a frame with valid checksums from its address to the other host, that acknowledges everything received so far and
  tells the window. The acknowledgement that rides on a queued segment is not covered: \<open>tcp_output\<close> clears the flag for it, and what
  it does with the segment is stated for the queues only (\<open>tcp_output_window\<close>). Without memory the flag is cleared and nothing is
  sent.\<close>

theorem tcp_fasttmr_sends_acks:
  assumes "distinct (tcp_sockets t)" "\<forall>s \<in> set (tcp_sockets t). waiting t s \<longrightarrow> ack_ready t s"
    "grants (length (filter (waiting t) (tcp_sockets t))) (pool (tnet t))"
  shows "\<exists>t'. tcp_fasttmr t = Some t' \<and> (\<forall>s \<in> set (tcp_sockets t). \<not> waiting t' s \<and> (waiting t s \<longrightarrow> acked t s t'))"
  using fast_loop_sends [OF assms] unfolding tcp_fasttmr_def by blast

definition delay_example :: tcp_t where
  "delay_example = upd_sock 1 (\<lambda>k. k\<lparr>s_flags := TF_ACK_DELAY\<rparr>) tcp_example"

lemma tcp_fasttmr_sends_acks_witness:
  "\<exists>t'. waiting delay_example 1 \<and> tcp_fasttmr delay_example = Some t' \<and> acked delay_example 1 t'"
proof -
  have k: "tcp_sockets delay_example = [1]" "s_unsent (tsock delay_example 1) = []" "tcp_input_socket delay_example = 0"
    "s_remote_ip (tsock delay_example 1) = (192, 168, 1, 99)" "route (tnet delay_example) = route net_example"
    "length (pool (tnet delay_example)) = 4" "None \<notin> set (take 1 (pool (tnet delay_example)))"
    by (simp_all add: delay_example_def tcp_example_def socket_example_def zero_socket_def upd_sock_def)
  have w: "waiting delay_example 1" by (simp add: delay_example_def has_def)
  have "resolved 500 (192, 168, 1, 99) (tnet delay_example)"
    by (simp add: resolved_def delay_example_def tcp_example_def net_example_def)
  then have "ack_ready delay_example 1"
    unfolding ack_ready_def none_carries_def k(2-5) route_lookup_example by simp
  then show ?thesis
    using tcp_fasttmr_sends_acks [of delay_example] k(1,6,7) w by (simp add: grants_def) blast
qed

end
