(* ===== verification/Asn.thy ===== *)
theory Asn
  imports Net_Buf
begin

text \<open>
  The ASN.1 coding of SNMP (\<open>snmp/asn.c\<close>, \<open>snmp/asn-cnt.c\<close>). A structure is a value of \<open>asn_t\<close>, whose
  constructors are the members of the union that the code uses for its types; the null pointer is encoded as
  \<open>asn_null\<close> is. Input is the list of the bytes that are left, output the list of bytes that are
  written, from the end of the buffer to its beginning, where \<open>sz\<close> bytes are free. Memory is the list of answers
  of the pool. \<open>None\<close> inside: the function returns 0; outside: it reads beyond an object.
\<close>

section \<open>Types\<close>

datatype asn_t = Asn_Null | Asn_Exception u8 | Asn_Int u32 | Asn_Uint u8 u32 | Asn_String u8 "u8 list" | Asn_Oid "u16 list"
  | Asn_Seq u8 "asn_t list"

abbreviation (input) ASN_CONSTRUCTED :: u8 where "ASN_CONSTRUCTED \<equiv> 0x20"
abbreviation (input) ASN_INTEGER :: u8 where "ASN_INTEGER \<equiv> 0x02"
abbreviation (input) ASN_STRING :: u8 where "ASN_STRING \<equiv> 0x04"
abbreviation (input) ASN_NULL :: u8 where "ASN_NULL \<equiv> 0x05"
abbreviation (input) ASN_OID :: u8 where "ASN_OID \<equiv> 0x06"
abbreviation (input) ASN_IP_ADDRESS :: u8 where "ASN_IP_ADDRESS \<equiv> 0x40"
abbreviation (input) ASN_COUNTER :: u8 where "ASN_COUNTER \<equiv> 0x41"
abbreviation (input) ASN_GAUGE :: u8 where "ASN_GAUGE \<equiv> 0x42"
abbreviation (input) ASN_TIME_TICKS :: u8 where "ASN_TIME_TICKS \<equiv> 0x43"
abbreviation (input) ASN_OPAQUE :: u8 where "ASN_OPAQUE \<equiv> 0x44"
abbreviation (input) ASN_NOSUCHOBJECT :: u8 where "ASN_NOSUCHOBJECT \<equiv> 0x80"
abbreviation (input) ASN_NOSUCHINSTANCE :: u8 where "ASN_NOSUCHINSTANCE \<equiv> 0x81"
abbreviation (input) ASN_ENDOFMIBVIEW :: u8 where "ASN_ENDOFMIBVIEW \<equiv> 0x82"

definition exception_type :: "u8 \<Rightarrow> bool" where
  "exception_type typ \<longleftrightarrow> typ = ASN_NOSUCHOBJECT \<or> typ = ASN_NOSUCHINSTANCE \<or> typ = ASN_ENDOFMIBVIEW"

definition counter_type :: "u8 \<Rightarrow> bool" where
  "counter_type typ \<longleftrightarrow> typ = ASN_COUNTER \<or> typ = ASN_GAUGE \<or> typ = ASN_TIME_TICKS"

definition string_type :: "u8 \<Rightarrow> bool" where
  "string_type typ \<longleftrightarrow> typ = ASN_STRING \<or> typ = ASN_OPAQUE"

text \<open>The sizes of the blocks on a 32-bit processor.\<close>

definition sizeof_string :: "nat \<Rightarrow> nat" where "sizeof_string n = 8 + n - 1"
definition sizeof_oid :: "nat \<Rightarrow> nat" where "sizeof_oid n = 8 + 2 * n - 2"
definition sizeof_sequence :: "nat \<Rightarrow> nat" where "sizeof_sequence n = 8 + 4 * n - 4"

definition asn_new :: "nat \<Rightarrow> pool_t \<Rightarrow> bool \<times> pool_t" where
  "asn_new n m = (let (a, m) = mem_get n m in (a \<noteq> None, m))"

text \<open>The result of a function that allocates one block and fills it in.\<close>

definition asn_make :: "nat \<Rightarrow> asn_t \<Rightarrow> pool_t \<Rightarrow> asn_t option \<times> pool_t" where
  "asn_make n b m = (let (ok, m) = asn_new n m in (if ok then Some b else None, m))"

section \<open>Parsing\<close>

text \<open>\<open>val = (val << 8) | *input++\<close>\<close>

fun be_val :: "u32 \<Rightarrow> u8 list \<Rightarrow> u32" where
  "be_val v [] = v"
| "be_val v (x # xs) = be_val (push_bit 8 v OR ucast x) xs"

definition asn_get_length :: "u8 list \<Rightarrow> (u32 \<times> u8 list) option" where
  "asn_get_length inp =
     (case inp of [] \<Rightarrow> None
      | n # xs \<Rightarrow>
          if n = 0xff then None
          else if n AND 0x80 = 0 then Some (ucast n, xs)
          else (let k = n AND 0x7f
                in if k > 4 \<or> length xs < unat k then None
                   else Some (be_val 0 (take (unat k) xs), drop (unat k) xs)))"

definition asn_get_int :: "u8 list \<Rightarrow> pool_t \<Rightarrow> asn_t option \<times> pool_t" where
  "asn_get_int inp m =
     (if length inp > 4 then (None, m)
      else asn_make 8 (Asn_Int (case inp of [] \<Rightarrow> 0 | x # xs \<Rightarrow> be_val (scast x) xs)) m)"

definition asn_get_uint :: "u8 list \<Rightarrow> u8 \<Rightarrow> pool_t \<Rightarrow> asn_t option \<times> pool_t" where
  "asn_get_uint inp typ m = (if length inp > 4 then (None, m) else asn_make 8 (Asn_Uint typ (be_val 0 inp)) m)"

text \<open>The length is an unsigned short.\<close>

definition asn_get_string :: "u8 list \<Rightarrow> u8 \<Rightarrow> pool_t \<Rightarrow> asn_t option \<times> pool_t" where
  "asn_get_string inp typ m =
     asn_make (sizeof_string (length inp + 1)) (Asn_String typ (take (length inp mod 65536) inp)) m"

fun get_id :: "u16 \<Rightarrow> u8 list \<Rightarrow> (u16 \<times> u8 list) option" where
  "get_id i [] = None"
| "get_id i (x # xs) =
     (if x AND 0x80 \<noteq> 0 then get_id (push_bit 7 (i OR ucast (x AND 0x7f))) xs else Some (i OR ucast x, xs))"

lemma get_id_length: "get_id i xs = Some (j, rest) \<Longrightarrow> length rest < length xs"
  by (induction i xs rule: get_id.induct) (auto split: if_splits)

function get_ids :: "u8 list \<Rightarrow> u16 list option" where
  "get_ids inp =
     (if inp = [] then Some []
      else case get_id 0 inp of None \<Rightarrow> None | Some (i, rest) \<Rightarrow> map_option ((#) i) (get_ids rest))"
  by pat_completeness auto
termination by (relation "measure length") (auto dest: get_id_length)

declare get_ids.simps [simp del]

definition asn_get_oid :: "u8 list \<Rightarrow> pool_t \<Rightarrow> asn_t option \<times> pool_t" where
  "asn_get_oid inp m =
     (let (ok, m) = asn_new (sizeof_oid (if inp \<noteq> [] then length inp + 1 else 10)) m
      in (if \<not> ok then None
          else case inp of [] \<Rightarrow> Some (Asn_Oid [])
               | x # xs \<Rightarrow> map_option (\<lambda>ids. let ids = ucast (x div 40) # ucast (x mod 40) # ids
                                         in Asn_Oid (take (length ids mod 65536) ids)) (get_ids xs), m))"

text \<open>The first half of \<open>asn_parse\<close>: the type, the bytes of the value, and the rest.\<close>

definition asn_header :: "u8 list \<Rightarrow> (u8 \<times> u8 list \<times> u8 list) option" where
  "asn_header inp =
     (if length inp < 2 then None
      else case asn_get_length (tl inp) of None \<Rightarrow> None
           | Some (len, xs) \<Rightarrow> if unat len > length xs then None else Some (hd inp, take (unat len) xs, drop (unat len) xs))"

lemma get_length_shorter: "asn_get_length inp = Some (len, xs) \<Longrightarrow> length xs < length inp"
  by (auto simp: asn_get_length_def Let_def split: list.splits if_splits)

lemma asn_header_length: "asn_header inp = Some (typ, v, rest) \<Longrightarrow> length v + length rest + 2 \<le> length inp"
  using get_length_shorter [of "tl inp"] by (fastforce simp: asn_header_def split: option.splits if_splits)

text \<open>The second half: the switch over the types, and the elements of a sequence, for which it is called again. The count of
  elements is an unsigned short.\<close>

function asn_value :: "u8 \<Rightarrow> u8 list \<Rightarrow> pool_t \<Rightarrow> asn_t option \<times> pool_t"
  and asn_elements :: "nat \<Rightarrow> asn_t list \<Rightarrow> u8 list \<Rightarrow> pool_t \<Rightarrow> asn_t list option \<times> pool_t" where
  "asn_value typ v m =
     (if typ = ASN_NULL then (Some Asn_Null, m)
      else if exception_type typ then asn_make 8 (Asn_Exception typ) m
      else if typ = ASN_INTEGER then asn_get_int v m
      else if counter_type typ then asn_get_uint v typ m
      else if typ = ASN_IP_ADDRESS then (if length v \<noteq> 4 then (None, m) else asn_get_uint v typ m)
      else if string_type typ then asn_get_string v typ m
      else if typ = ASN_OID then asn_get_oid v m
      else if typ AND ASN_CONSTRUCTED = 0 then (None, m)
      else case asn_new (sizeof_sequence 5) m of (ok, m) \<Rightarrow>
        if \<not> ok then (None, m)
        else case asn_elements 5 [] v m of (es, m) \<Rightarrow> (map_option (Asn_Seq typ) es, m))"
| "asn_elements nelem es inp m =
     (if inp = [] then (Some es, m)
      else case (if length es \<ge> nelem then asn_new (sizeof_sequence (nelem + 10)) m else (True, m)) of (ok, m) \<Rightarrow>
        if \<not> ok then (None, m)
        else case asn_header inp of None \<Rightarrow> (None, m)
          | Some (typ, v, rest) \<Rightarrow>
              (case asn_value typ v m of (None, m) \<Rightarrow> (None, m)
               | (Some e, m) \<Rightarrow>
                   asn_elements (if length es \<ge> nelem then nelem + 10 else nelem)
                     (if length es = 65535 then [] else es @ [e]) rest m))"
  by pat_completeness auto
termination
  by (relation "measure (\<lambda>x. case x of Inl (typ, v, m) \<Rightarrow> 2 * length v + 1 | Inr (nelem, es, inp, m) \<Rightarrow> 2 * length inp)")
    (auto dest!: asn_header_length)

declare asn_value.simps [simp del] asn_elements.simps [simp del]

definition asn_parse :: "u8 list \<Rightarrow> pool_t \<Rightarrow> (asn_t \<times> u8 list) option \<times> pool_t" where
  "asn_parse inp m =
     (case asn_header inp of None \<Rightarrow> (None, m)
      | Some (typ, v, rest) \<Rightarrow> (case asn_value typ v m of (b, m) \<Rightarrow> (map_option (\<lambda>b. (b, rest)) b, m)))"

section \<open>Encoding\<close>

text \<open>The lowest \<open>k\<close> bytes, highest first.\<close>

fun be_bytes :: "nat \<Rightarrow> u32 \<Rightarrow> u8 list" where
  "be_bytes 0 v = []"
| "be_bytes (Suc k) v = be_bytes k (drop_bit 8 v) @ [ucast v]"

definition asn_put_int :: "u32 \<Rightarrow> nat \<Rightarrow> u8 list option" where
  "asn_put_int val sz =
     (if sint val < 0x80 \<and> sint val \<ge> - 0x80 then (if sz < 3 then None else Some (ASN_INTEGER # 1 # be_bytes 1 val))
      else if sint val < 0x8000 \<and> sint val \<ge> - 0x8000 then (if sz < 4 then None else Some (ASN_INTEGER # 2 # be_bytes 2 val))
      else if sint val < 0x800000 \<and> sint val \<ge> - 0x800000 then (if sz < 5 then None else Some (ASN_INTEGER # 3 # be_bytes 3 val))
      else if sz < 6 then None else Some (ASN_INTEGER # 4 # be_bytes 4 val))"

definition asn_put_uint :: "u32 \<Rightarrow> nat \<Rightarrow> u8 \<Rightarrow> u8 list option" where
  "asn_put_uint val sz typ =
     (if typ = ASN_IP_ADDRESS \<or> val > 0x7fffff then (if sz < 6 then None else Some (typ # 4 # be_bytes 4 val))
      else if val \<le> 0x7f then (if sz < 3 then None else Some (typ # 1 # be_bytes 1 val))
      else if val \<le> 0x7fff then (if sz < 4 then None else Some (typ # 2 # be_bytes 2 val))
      else if sz < 5 then None else Some (typ # 3 # be_bytes 3 val))"

definition asn_put_length :: "nat \<Rightarrow> nat \<Rightarrow> u8 list option" where
  "asn_put_length val sz =
     (if val < 0x80 then (if sz < 1 then None else Some (be_bytes 1 (of_nat val)))
      else if val < 0x100 then (if sz < 2 then None else Some (0x81 # be_bytes 1 (of_nat val)))
      else if val < 0x10000 then (if sz < 3 then None else Some (0x82 # be_bytes 2 (of_nat val)))
      else if val < 0x1000000 then (if sz < 4 then None else Some (0x83 # be_bytes 3 (of_nat val)))
      else if sz < 5 then None else Some (0x84 # be_bytes 4 (of_nat val)))"

text \<open>The type and the length before the bytes that are there.\<close>

definition asn_put_header :: "u8 \<Rightarrow> u8 list \<Rightarrow> nat \<Rightarrow> u8 list option" where
  "asn_put_header typ body sz =
     (case asn_put_length (length body) sz of None \<Rightarrow> None
      | Some l \<Rightarrow> if sz - length l < 1 then None else Some (typ # l @ body))"

definition asn_put_string :: "u8 list \<Rightarrow> nat \<Rightarrow> u8 list option" where
  "asn_put_string str sz = (if sz < length str then None else asn_put_header ASN_STRING str (sz - length str))"

function put_id_loop :: "u32 \<Rightarrow> u8 list \<Rightarrow> nat \<Rightarrow> u8 list option" where
  "put_id_loop val out sz =
     (if val \<ge> 0x80 then
        (if sz < 1 then None else put_id_loop (drop_bit 7 val) ((0x80 OR ucast (drop_bit 7 val AND 0x7f)) # out) (sz - 1))
      else Some out)"
  by pat_completeness auto
termination
  by (relation "measure (\<lambda>(val, out, sz). sz)") auto

declare put_id_loop.simps [simp del]

definition asn_put_id1 :: "u32 \<Rightarrow> nat \<Rightarrow> u8 list option" where
  "asn_put_id1 val sz = (if sz < 1 then None else put_id_loop val [ucast (val AND 0x7f)] (sz - 1))"

text \<open>The numbers, the last one first, before the bytes that are there.\<close>

fun put_ids :: "u16 list \<Rightarrow> u8 list \<Rightarrow> nat \<Rightarrow> (u8 list \<times> nat) option" where
  "put_ids [] out sz = Some (out, sz)"
| "put_ids (i # is) out sz =
     (case asn_put_id1 (ucast i) sz of None \<Rightarrow> None
      | Some x \<Rightarrow> put_ids is (x @ out) (sz - length x))"

text \<open>The loop over \<open>v->id\<close> starts below 0 when there is no number, and the second one is read without a test.\<close>

definition asn_put_oid :: "u16 list \<Rightarrow> nat \<Rightarrow> u8 list option option" where
  "asn_put_oid v sz =
     (if length v < 2 then None
      else Some (case put_ids (rev (drop 2 v)) [] sz of None \<Rightarrow> None
             | Some (out, sz) \<Rightarrow>
                 if sz < 1 then None
                 else asn_put_header ASN_OID (ucast (v ! 0 * 40 + v ! 1) # out) (sz - 1)))"

text \<open>The elements of a sequence are encoded from the last to the first.\<close>

fun asn_encode :: "asn_t \<Rightarrow> nat \<Rightarrow> u8 list option option"
  and put_elements :: "asn_t list \<Rightarrow> nat \<Rightarrow> (u8 list \<times> nat) option option" where
  "asn_encode Asn_Null sz = Some (if sz < 2 then None else Some [ASN_NULL, 0])"
| "asn_encode (Asn_Exception typ) sz = Some (if sz < 2 then None else Some [typ, 0])"
| "asn_encode (Asn_Int val) sz = Some (asn_put_int val sz)"
| "asn_encode (Asn_Uint typ val) sz =
     Some (if counter_type typ \<or> typ = ASN_IP_ADDRESS then asn_put_uint val sz typ else None)"
| "asn_encode (Asn_String typ str) sz = Some (asn_put_string str sz)"
| "asn_encode (Asn_Oid v) sz = asn_put_oid v sz"
| "asn_encode (Asn_Seq typ es) sz =
     (case put_elements es sz of None \<Rightarrow> None
      | Some None \<Rightarrow> Some None
      | Some (Some (out, sz)) \<Rightarrow> Some (asn_put_header typ out sz))"
| "put_elements [] sz = Some (Some ([], sz))"
| "put_elements (e # es) sz =
     (case put_elements es sz of None \<Rightarrow> None
      | Some None \<Rightarrow> Some None
      | Some (Some (out, sz)) \<Rightarrow>
          (case asn_encode e sz of None \<Rightarrow> None
           | Some None \<Rightarrow> Some None
           | Some (Some x) \<Rightarrow> Some (Some (x @ out, sz - length x))))"

section \<open>Making structures\<close>

definition digit :: "u8 \<Rightarrow> bool" where
  "digit c \<longleftrightarrow> 48 \<le> c \<and> c \<le> 57"

text \<open>The number at the start of a string, in \<open>unsigned int\<close> arithmetic, and what follows.\<close>

fun dec_number :: "u32 \<Rightarrow> u8 list \<Rightarrow> u32 \<times> u8 list" where
  "dec_number val [] = (val, [])"
| "dec_number val (c # cs) = (if digit c then dec_number (val * 10 + ucast c - 48) cs else (val, c # cs))"

lemma dec_number_length: "length (snd (dec_number val cs)) \<le> length cs"
  by (induction val cs rule: dec_number.induct) auto

text \<open>The numbers of a string without the zero at its end.\<close>

function oid_numbers :: "u8 list \<Rightarrow> u16 list" where
  "oid_numbers str =
     (case dropWhile (\<lambda>c. c = 46) str of [] \<Rightarrow> []
      | c # cs \<Rightarrow> if \<not> digit c then [] else (let (val, rest) = dec_number (ucast c - 48) cs in ucast val # oid_numbers rest))"
  by pat_completeness auto
termination
proof (relation "measure length", goal_cases)
  case (2 str c cs x val rest)
  have "length (c # cs) \<le> length str" using length_dropWhile_le [of "\<lambda>c. c = 46" str] 2(1) by simp
  moreover have "length rest \<le> length cs" using dec_number_length [of "ucast c - 48" cs] 2(3,4) by (metis snd_conv)
  ultimately show ?case by simp
qed simp

declare oid_numbers.simps [simp del]

definition asn_make_oid :: "u8 list \<Rightarrow> pool_t \<Rightarrow> asn_t option \<times> pool_t" where
  "asn_make_oid str m = asn_make (sizeof_oid ((length str + 1) div 2)) (Asn_Oid (oid_numbers str)) m"

definition asn_make_stringn :: "u8 list \<Rightarrow> pool_t \<Rightarrow> asn_t option \<times> pool_t" where
  "asn_make_stringn str m =
     asn_make (sizeof_string (length str + 1)) (Asn_String ASN_STRING (take (length str mod 65536) str)) m"

text \<open>An integer, a counter, or an exception, which has no value; the code makes no others this way.\<close>

definition asn_make_int :: "u32 \<Rightarrow> u8 \<Rightarrow> pool_t \<Rightarrow> asn_t option \<times> pool_t" where
  "asn_make_int val typ m =
     asn_make 8 (if typ = ASN_INTEGER then Asn_Int val else if exception_type typ then Asn_Exception typ else Asn_Uint typ val) m"

text \<open>A sequence that is still empty, with room for \<open>n\<close> elements.\<close>

definition asn_make_seq :: "nat \<Rightarrow> u8 \<Rightarrow> pool_t \<Rightarrow> asn_t option \<times> pool_t" where
  "asn_make_seq n typ m = asn_make (sizeof_sequence n) (Asn_Seq typ []) m"

text \<open>The number 255 stands for the number of the enterprise.\<close>

definition asn_make_oidn :: "u32 \<Rightarrow> u8 list \<Rightarrow> u32 list \<Rightarrow> pool_t \<Rightarrow> asn_t option \<times> pool_t" where
  "asn_make_oidn enterprise oid args m =
     asn_make (sizeof_oid (length oid + length args + 1))
       (Asn_Oid (map (\<lambda>x. if x = 255 then ucast enterprise else ucast x) oid @ map ucast args)) m"

text \<open>Counters that stay at their greatest value, with a value for unknown.\<close>

definition asn_make_cnt16 :: "u32 \<Rightarrow> pool_t \<Rightarrow> asn_t option \<times> pool_t" where
  "asn_make_cnt16 val m = (if val = 0xffff then (Some Asn_Null, m) else asn_make_int val ASN_INTEGER m)"

definition asn_make_cnt32 :: "u32 \<Rightarrow> pool_t \<Rightarrow> asn_t option \<times> pool_t" where
  "asn_make_cnt32 val m = (if val = - 1 then (Some Asn_Null, m) else asn_make_int val ASN_COUNTER m)"

definition asn_make_cnt32as16 :: "u32 \<Rightarrow> pool_t \<Rightarrow> asn_t option \<times> pool_t" where
  "asn_make_cnt32as16 val m =
     (if val = - 1 then (Some Asn_Null, m) else asn_make_int (if val > 0xfffe then 0xfffe else val) ASN_INTEGER m)"

definition asn_make_cnt16as32 :: "u32 \<Rightarrow> pool_t \<Rightarrow> asn_t option \<times> pool_t" where
  "asn_make_cnt16as32 val m = (if val = 0xffff then (Some Asn_Null, m) else asn_make_int val ASN_COUNTER m)"

text \<open>A copy, with a block for every part of the structure.\<close>

fun asn_copy :: "asn_t \<Rightarrow> pool_t \<Rightarrow> asn_t option \<times> pool_t"
  and copy_elements :: "asn_t list \<Rightarrow> pool_t \<Rightarrow> asn_t list option \<times> pool_t" where
  "asn_copy (Asn_Seq typ es) m =
     (case asn_new (sizeof_sequence (length es)) m of (ok, m) \<Rightarrow>
        if \<not> ok then (None, m)
        else case copy_elements es m of (es', m) \<Rightarrow> (map_option (Asn_Seq typ) es', m))"
| "asn_copy (Asn_String typ str) m = asn_make (sizeof_string (length str + 1)) (Asn_String typ str) m"
| "asn_copy (Asn_Oid v) m = asn_make (sizeof_oid (length v)) (Asn_Oid v) m"
| "asn_copy Asn_Null m = (Some Asn_Null, m)"
| "asn_copy (Asn_Int val) m = asn_make 8 (Asn_Int val) m"
| "asn_copy (Asn_Uint typ val) m =
     (if counter_type typ \<or> typ = ASN_IP_ADDRESS then asn_make 8 (Asn_Uint typ val) m else (None, m))"
| "asn_copy (Asn_Exception typ) m = asn_make 8 (Asn_Exception typ) m"
| "copy_elements [] m = (Some [], m)"
| "copy_elements (e # es) m =
     (case asn_copy e m of (None, m) \<Rightarrow> (None, m)
      | (Some e', m) \<Rightarrow> (case copy_elements es m of (es', m) \<Rightarrow> (map_option ((#) e') es', m)))"

text \<open>The number of blocks that \<open>asn_free\<close> gives back.\<close>

fun asn_free :: "asn_t \<Rightarrow> nat" where
  "asn_free Asn_Null = 0"
| "asn_free (Asn_Seq typ es) = 1 + sum_list (map asn_free es)"
| "asn_free b = 1"

end
