(* ===== verification/Snmp.thy ===== *)
theory Snmp
  imports Asn
begin

text \<open>
  The agent of SNMP (\<open>snmp/snmp.c\<close>). The table of variables and the functions that get, set and step through them are parameters;
  they work on the state of the agent, \<open>sn_env\<close> being what they manage. \<open>None\<close> outside: an object is read or written
  beyond its end, or as one of another type; a response of 65536 pairs, whose count would wrap, is \<open>None\<close> as well.
\<close>

section \<open>State\<close>

record 'e snmp_t =
  sn_pool :: pool_t
  sn_enterprise :: u32
  sn_user_addr :: u32
  sn_get_community :: "u8 list"
  sn_set_community :: "u8 list"
  sn_get_addr :: u32
  sn_get_mask :: u32
  sn_set_addr :: u32
  sn_set_mask :: u32
  sn_auth_failure :: bool
  sn_in_pkts :: u32
  sn_in_asn_parse_errs :: u32
  sn_in_bad_versions :: u32
  sn_in_bad_community_names :: u32
  sn_in_bad_community_uses :: u32
  sn_in_get_requests :: u32
  sn_in_get_nexts :: u32
  sn_in_get_bulks :: u32
  sn_in_set_requests :: u32
  sn_in_total_req_vars :: u32
  sn_in_total_set_vars :: u32
  sn_out_pkts :: u32
  sn_out_no_such_names :: u32
  sn_out_bad_values :: u32
  sn_out_gen_errs :: u32
  sn_out_too_bigs :: u32
  sn_out_get_responses :: u32
  sn_env :: 'e

text \<open>A function of a table gets the indices of the row; \<open>next\<close> changes them.\<close>

record 'e snmp_var_t =
  v_id :: "u8 list"
  v_type :: u8
  v_nargs :: u8
  v_get :: "(u32 list \<Rightarrow> 'e snmp_t \<Rightarrow> asn_t option \<times> 'e snmp_t) option"
  v_next :: "(bool \<Rightarrow> u32 list \<Rightarrow> 'e snmp_t \<Rightarrow> (asn_t option \<times> u32 list) \<times> 'e snmp_t) option"
  v_set :: "(asn_t \<Rightarrow> u32 list \<Rightarrow> 'e snmp_t \<Rightarrow> u32 \<times> 'e snmp_t) option"

abbreviation (input) SNMP_TAB1 :: u8 where "SNMP_TAB1 \<equiv> 1"
abbreviation (input) SNMP_TAB4 :: u8 where "SNMP_TAB4 \<equiv> 2"
abbreviation (input) SNMP_TAB41 :: u8 where "SNMP_TAB41 \<equiv> 3"
abbreviation (input) SNMP_TAB14 :: u8 where "SNMP_TAB14 \<equiv> 4"
abbreviation (input) SNMP_TAB4141 :: u8 where "SNMP_TAB4141 \<equiv> 5"
abbreviation (input) SNMP_TAB111 :: u8 where "SNMP_TAB111 \<equiv> 6"

abbreviation (input) SNMP_NO_ERROR :: u32 where "SNMP_NO_ERROR \<equiv> 0"
abbreviation (input) SNMP_TOO_BIG :: u32 where "SNMP_TOO_BIG \<equiv> 1"
abbreviation (input) SNMP_NO_SUCH_NAME :: u32 where "SNMP_NO_SUCH_NAME \<equiv> 2"
abbreviation (input) SNMP_BAD_VALUE :: u32 where "SNMP_BAD_VALUE \<equiv> 3"
abbreviation (input) SNMP_READ_ONLY :: u32 where "SNMP_READ_ONLY \<equiv> 4"
abbreviation (input) SNMP_GEN_ERR :: u32 where "SNMP_GEN_ERR \<equiv> 5"

abbreviation (input) ASN_SEQUENCE :: u8 where "ASN_SEQUENCE \<equiv> 0x30"
abbreviation (input) ASN_GET_REQUEST :: u8 where "ASN_GET_REQUEST \<equiv> 0xa0"
abbreviation (input) ASN_GET_NEXT_REQUEST :: u8 where "ASN_GET_NEXT_REQUEST \<equiv> 0xa1"
abbreviation (input) ASN_GET_RESPONSE :: u8 where "ASN_GET_RESPONSE \<equiv> 0xa2"
abbreviation (input) ASN_SET_REQUEST :: u8 where "ASN_SET_REQUEST \<equiv> 0xa3"
abbreviation (input) ASN_GET_BULK_REQUEST :: u8 where "ASN_GET_BULK_REQUEST \<equiv> 0xa5"

section \<open>The table of variables\<close>

text \<open>The number 255 of an entry stands for the number of the enterprise.\<close>

definition var_number :: "u32 \<Rightarrow> u8 \<Rightarrow> u32" where
  "var_number enterprise y = (if y = 255 then enterprise else ucast y)"

fun compare_id :: "u32 \<Rightarrow> u16 list \<Rightarrow> u8 list \<Rightarrow> int" where
  "compare_id ent [] [] = 0"
| "compare_id ent [] (y # ys) = - 1"
| "compare_id ent (x # xs) [] = 1"
| "compare_id ent (x # xs) (y # ys) =
     (if ucast x < var_number ent y then - 1 else if ucast x > var_number ent y then 1 else compare_id ent xs ys)"

text \<open>The search looks at the \<open>lim\<close> entries from \<open>base\<close> on.\<close>

function find_loop :: "u32 \<Rightarrow> 'e snmp_var_t list \<Rightarrow> u16 list \<Rightarrow> nat \<Rightarrow> nat \<Rightarrow> (nat \<times> bool) option option" where
  "find_loop ent tab name base lim =
     (let vp = base + lim div 2
      in if vp \<ge> length tab \<or> lim = 0 then None
         else let c = compare_id ent name (v_id (tab ! vp))
           in if c = 0 then Some (Some (vp, True))
              else if c = 1 then
                (if lim - (lim div 2 + 1) = 0 then Some (Some (vp, False))
                 else find_loop ent tab name (vp + 1) (lim - (lim div 2 + 1)))
              else if lim = 1 then (if vp = 0 then Some None else Some (Some (vp - 1, False)))
              else find_loop ent tab name base (lim div 2))"
  by pat_completeness auto
termination by (relation "measure (\<lambda>(ent, tab, name, base, lim). lim)") (auto simp: Let_def)

declare find_loop.simps [simp del]

definition find_var :: "u32 \<Rightarrow> 'e snmp_var_t list \<Rightarrow> u16 list \<Rightarrow> (nat \<times> bool) option option" where
  "find_var ent tab name = find_loop ent tab name 0 (length tab)"

section \<open>Get and set\<close>

text \<open>\<open>LONG\<close>: four numbers, which need not be bytes.\<close>

definition long_at :: "u16 list \<Rightarrow> nat \<Rightarrow> u32" where
  "long_at oid k = push_bit 24 (ucast (oid ! k)) OR push_bit 16 (ucast (oid ! (k + 1))) OR push_bit 8 (ucast (oid ! (k + 2))) OR ucast (oid ! (k + 3))"

text \<open>The indices by the type of the table; for another type there is no case.\<close>

definition get_args :: "u8 \<Rightarrow> u16 list \<Rightarrow> nat \<Rightarrow> u32 list option" where
  "get_args typ oid k =
     (if typ = SNMP_TAB1 then Some [ucast (oid ! k)]
      else if typ = SNMP_TAB4 then Some [long_at oid k]
      else if typ = SNMP_TAB41 then Some [long_at oid k, ucast (oid ! (k + 4))]
      else if typ = SNMP_TAB14 then Some [ucast (oid ! k), long_at oid (k + 1)]
      else if typ = SNMP_TAB4141 then Some [long_at oid k, ucast (oid ! (k + 4)), long_at oid (k + 5), ucast (oid ! (k + 9))]
      else if typ = SNMP_TAB111 then Some [ucast (oid ! k), ucast (oid ! (k + 1)), ucast (oid ! (k + 2))]
      else None)"

definition args_width :: "u8 \<Rightarrow> nat" where
  "args_width typ =
     (if typ = SNMP_TAB1 then 1 else if typ = SNMP_TAB4 then 4 else if typ = SNMP_TAB41 \<or> typ = SNMP_TAB14 then 5
      else if typ = SNMP_TAB4141 then 10 else if typ = SNMP_TAB111 then 3 else 0)"

text \<open>The outcome of a call of one of the functions; without one of the cases, the answer depends on whether there is a value, and for
  a request to set there always is.\<close>

definition get_set :: "'e snmp_var_t list \<Rightarrow> u16 list \<Rightarrow> asn_t \<Rightarrow> bool \<Rightarrow> 'e snmp_t \<Rightarrow> ((u32 \<times> asn_t option) \<times> 'e snmp_t) option" where
  "get_set tab name value setflag sn =
     (case find_var (sn_enterprise sn) tab name of None \<Rightarrow> None
      | Some None \<Rightarrow> Some ((SNMP_NO_SUCH_NAME, None), sn)
      | Some (Some (i, exact)) \<Rightarrow>
          (let v = tab ! i; k = length (v_id v);
               get = (\<lambda>g args. let (val, sn) = g args sn
                       in Some ((if val = None then SNMP_NO_SUCH_NAME else SNMP_NO_ERROR, val), sn));
               set = (\<lambda>f args. let (err, sn) = f value args sn in Some ((err, Some value), sn))
           in if setflag \<and> v_set v = None then Some ((SNMP_READ_ONLY, None), sn)
              else if \<not> setflag \<and> v_get v = None then Some ((SNMP_NO_ERROR, Some Asn_Null), sn)
              else if exact then
                (if v_nargs v \<noteq> 0 then Some ((SNMP_NO_SUCH_NAME, None), sn)
                 else if setflag then set (the (v_set v)) [] else get (the (v_get v)) [])
              else if k + unat (v_nargs v) \<noteq> length name then Some ((SNMP_NO_SUCH_NAME, None), sn)
              else if length name < k + args_width (v_type v) then None
              else (case get_args (v_type v) name k of
                      None \<Rightarrow> Some (if setflag then (SNMP_NO_ERROR, Some value) else (SNMP_NO_SUCH_NAME, None), sn)
                    | Some args \<Rightarrow> if setflag then set (the (v_set v)) args else get (the (v_get v)) args)))"

section \<open>The next variable\<close>

definition arg_at :: "u16 list \<Rightarrow> nat \<Rightarrow> u32" where
  "arg_at oid k = (if k < length oid then ucast (oid ! k) else 0)"

definition load_req_idx :: "u16 list \<Rightarrow> nat \<Rightarrow> u32" where
  "load_req_idx oid k =
     push_bit 24 (arg_at oid k) OR push_bit 16 (arg_at oid (k + 1)) OR push_bit 8 (arg_at oid (k + 2))
       OR (if k + 3 < length oid then ucast (ucast (oid ! (k + 3)) :: u8) else 0)"

text \<open>The indices that a name goes on with; \<open>i3\<close> is what this variable holds.\<close>

definition next_args :: "u8 \<Rightarrow> u16 list \<Rightarrow> nat \<Rightarrow> u32 \<Rightarrow> u32 list" where
  "next_args typ oid k i3 =
     (if typ = SNMP_TAB1 then [arg_at oid k]
      else if typ = SNMP_TAB4 then [load_req_idx oid k]
      else if typ = SNMP_TAB41 then [load_req_idx oid k, arg_at oid (k + 4)]
      else if typ = SNMP_TAB14 then [arg_at oid k, load_req_idx oid (k + 1)]
      else if typ = SNMP_TAB4141 then [load_req_idx oid k, arg_at oid (k + 4), load_req_idx oid (k + 5), arg_at oid (k + 9)]
      else if typ = SNMP_TAB111 then [arg_at oid k, arg_at oid (k + 1), if k + 2 < length oid then ucast (oid ! (k + 2)) else i3]
      else [])"

definition zero_args :: "u8 \<Rightarrow> u32 \<Rightarrow> u32 list" where
  "zero_args typ i3 = next_args typ [] 0 i3"

text \<open>The numbers by which a name goes on for these indices.\<close>

definition long_bytes :: "u32 \<Rightarrow> u32 list" where
  "long_bytes a = map ucast (be_bytes 4 a)"

fun name_args :: "u8 \<Rightarrow> u32 list \<Rightarrow> u32 list" where
  "name_args typ [a] = (if typ = SNMP_TAB4 then long_bytes a else [a])"
| "name_args typ [a, b] = (if typ = SNMP_TAB41 then long_bytes a @ [b] else a # long_bytes b)"
| "name_args typ [a, b, c, d] = long_bytes a @ [b] @ long_bytes c @ [d]"
| "name_args typ args = args"

text \<open>One round of the loop: the value, the indices it has now.\<close>

definition next_value :: "'e snmp_var_t \<Rightarrow> bool \<Rightarrow> u32 list \<Rightarrow> 'e snmp_t \<Rightarrow> (asn_t option \<times> u32 list) \<times> 'e snmp_t" where
  "next_value v nextflag args sn =
     (let get = (\<lambda>args. case v_get v of None \<Rightarrow> ((Some Asn_Null, args), sn) | Some g \<Rightarrow> (let (val, sn) = g args sn in ((val, args), sn)))
      in if SNMP_TAB1 \<le> v_type v \<and> v_type v \<le> SNMP_TAB111 then
           (case v_next v of
              Some f \<Rightarrow> f nextflag args sn
            | None \<Rightarrow> if v_type v = SNMP_TAB1 then get [if nextflag then hd args + 1 else 0] else ((None, args), sn))
         else get [])"

definition next_i3 :: "'e snmp_var_t \<Rightarrow> u32 list \<Rightarrow> u32 \<Rightarrow> u32" where
  "next_i3 v args i3 = (case args of [_, _, c] \<Rightarrow> c | _ \<Rightarrow> i3)"

text \<open>The entries from the current one on.\<close>

fun next_loop :: "'e snmp_var_t list \<Rightarrow> bool \<Rightarrow> u32 list \<Rightarrow> u32 \<Rightarrow> asn_t option \<Rightarrow> 'e snmp_t \<Rightarrow> (u32 \<times> asn_t option \<times> asn_t option) \<times> 'e snmp_t" where
  "next_loop [] nextflag args i3 name sn = ((SNMP_NO_SUCH_NAME, name, None), sn)"
| "next_loop (v # vs) nextflag args i3 name sn =
     (let ((val, args), sn) = next_value v nextflag args sn; i3 = next_i3 v args i3
      in case val of
           None \<Rightarrow> next_loop vs False (case vs of [] \<Rightarrow> [] | w # _ \<Rightarrow> zero_args (v_type w) i3) i3 name sn
         | Some x \<Rightarrow>
             (let (name, m) = asn_make_oidn (sn_enterprise sn) (v_id v) (name_args (v_type v) args) (sn_pool sn);
                  sn = sn\<lparr>sn_pool := m\<rparr>
              in case name of
                   None \<Rightarrow> next_loop vs False (case vs of [] \<Rightarrow> [] | w # _ \<Rightarrow> zero_args (v_type w) i3) i3 None sn
                 | Some n \<Rightarrow> ((SNMP_NO_ERROR, Some n, Some x), sn)))"

text \<open>Where the loop starts: the entry, and whether the name goes on with indices.\<close>

definition next_start :: "u32 \<Rightarrow> 'e snmp_var_t list \<Rightarrow> u16 list \<Rightarrow> (nat \<times> bool) option" where
  "next_start ent tab name =
     (case find_var ent tab name of None \<Rightarrow> None
      | Some None \<Rightarrow> Some (0, False)
      | Some (Some (i, exact)) \<Rightarrow>
          (let v = tab ! i; k = length (v_id v); l = min k (length name)
           in Some (if v_nargs v = 0 \<or> compare_id ent (take l name) (take l (v_id v)) \<noteq> 0 then (i + 1, False)
                    else (i, k < length name \<and> compare_id ent (take k name) (v_id v) = 0))))"

text \<open>\<open>junk\<close> is the initial value of \<open>i3\<close>, which the code does not set.\<close>

definition snmp_next :: "u32 \<Rightarrow> 'e snmp_var_t list \<Rightarrow> u16 list \<Rightarrow> 'e snmp_t \<Rightarrow> ((u32 \<times> asn_t option \<times> asn_t option) \<times> 'e snmp_t) option" where
  "snmp_next junk tab name sn =
     (case next_start (sn_enterprise sn) tab name of None \<Rightarrow> None
      | Some (i, nextflag) \<Rightarrow>
          Some (next_loop (drop i tab) nextflag
                  (case drop i tab of [] \<Rightarrow> []
                   | v # _ \<Rightarrow> if nextflag then next_args (v_type v) name (length (v_id v)) junk else zero_args (v_type v) junk)
                  junk (Some (Asn_Oid name)) sn))"

section \<open>Requests\<close>

text \<open>\<open>strncmp\<close> of strings that end with a zero.\<close>

definition same_string :: "u8 list \<Rightarrow> u8 list \<Rightarrow> bool" where
  "same_string a b \<longleftrightarrow> take 32 (takeWhile (\<lambda>c. c \<noteq> 0) a) = take 32 (takeWhile (\<lambda>c. c \<noteq> 0) b)"

definition snmp_auth :: "u8 list \<Rightarrow> bool \<Rightarrow> 'e snmp_t \<Rightarrow> bool \<times> 'e snmp_t" where
  "snmp_auth community setflag sn =
     (let set_name = same_string community (sn_set_community sn);
          get_name = (\<not> setflag \<and> same_string community (sn_get_community sn))
      in if set_name \<and> (sn_user_addr sn XOR sn_set_addr sn) AND sn_set_mask sn = 0 then (True, sn)
         else if get_name \<and> (sn_user_addr sn XOR sn_get_addr sn) AND sn_get_mask sn = 0 then (True, sn)
         else if set_name \<or> get_name then (False, sn\<lparr>sn_in_bad_community_uses := sn_in_bad_community_uses sn + 1\<rparr>)
         else (False, sn\<lparr>sn_in_bad_community_names := sn_in_bad_community_names sn + 1\<rparr>))"

text \<open>The list of the response, with room for \<open>cap\<close> pairs.\<close>

definition add_pair :: "nat \<Rightarrow> asn_t list \<Rightarrow> asn_t option \<Rightarrow> asn_t option \<Rightarrow> 'e snmp_t \<Rightarrow> (asn_t list option \<times> 'e snmp_t) option" where
  "add_pair cap out name val sn =
     (case (name, val) of
        (Some n, Some x) \<Rightarrow>
          (let (pair, m) = asn_make_seq 2 ASN_SEQUENCE (sn_pool sn); sn = sn\<lparr>sn_pool := m\<rparr>
           in if pair = None then Some (None, sn)
              else if length out \<ge> cap \<or> length out = 65535 then None
              else Some (Some (out @ [Asn_Seq ASN_SEQUENCE [n, x]]), sn))
      | _ \<Rightarrow> Some (None, sn))"

text \<open>The size of the response is computed in 32 bits, and so is that of its block.\<close>

definition make_outbind :: "u32 \<Rightarrow> 'e snmp_t \<Rightarrow> (nat option \<times> 'e snmp_t) option" where
  "make_outbind n sn =
     (let bytes = 4 + 4 * n; (ok, m) = asn_new (unat bytes) (sn_pool sn); sn = sn\<lparr>sn_pool := m\<rparr>
      in if \<not> ok then Some (None, sn)
         else if unat bytes < 4 + unat (4 * n) then None
         else Some (Some (unat (4 * n) div 4), sn))"

datatype progress = Answer "asn_t list" | Fatal u32 nat | Bad

definition copy_in :: "asn_t option \<Rightarrow> 'e snmp_t \<Rightarrow> asn_t option \<times> 'e snmp_t" where
  "copy_in b sn = (case b of None \<Rightarrow> (None, sn) | Some x \<Rightarrow> (let (c, m) = asn_copy x (sn_pool sn) in (c, sn\<lparr>sn_pool := m\<rparr>)))"

definition end_of_mib :: "'e snmp_t \<Rightarrow> asn_t option \<times> 'e snmp_t" where
  "end_of_mib sn = (let (v, m) = asn_make_int 0 ASN_ENDOFMIBVIEW (sn_pool sn) in (v, sn\<lparr>sn_pool := m\<rparr>))"

definition count_req :: "'e snmp_t \<Rightarrow> 'e snmp_t" where
  "count_req sn = sn\<lparr>sn_in_total_req_vars := sn_in_total_req_vars sn + 1\<rparr>"

definition count_set :: "'e snmp_t \<Rightarrow> 'e snmp_t" where
  "count_set sn = sn\<lparr>sn_in_total_set_vars := sn_in_total_set_vars sn + 1\<rparr>"

definition parse_err :: "'e snmp_t \<Rightarrow> 'e snmp_t" where
  "parse_err sn = sn\<lparr>sn_in_asn_parse_errs := sn_in_asn_parse_errs sn + 1\<rparr>"

text \<open>The value for a pair of the request: an error, or the name and value of the response.\<close>

definition one_var :: "u32 \<Rightarrow> 'e snmp_var_t list \<Rightarrow> u8 \<Rightarrow> u32 \<Rightarrow> u16 list \<Rightarrow> asn_t \<Rightarrow> 'e snmp_t
    \<Rightarrow> ((u32 \<times> asn_t option \<times> asn_t option) \<times> 'e snmp_t) option" where
  "one_var junk tab typ version name value sn =
     (if typ = ASN_GET_REQUEST then do {
        ((err, val), sn) \<leftarrow> get_set tab name value False sn;
        let sn = count_req sn;
        if err \<noteq> SNMP_NO_ERROR then Some ((err, None, None), sn)
        else let (n, sn) = copy_in (Some (Asn_Oid name)) sn in Some ((err, n, val), sn)
      } else if typ = ASN_SET_REQUEST then do {
        ((err, val), sn) \<leftarrow> get_set tab name value True sn;
        let sn = count_set sn;
        if err \<noteq> SNMP_NO_ERROR then Some ((err, None, None), sn)
        else let (n, sn) = copy_in (Some (Asn_Oid name)) sn; (val, sn) = copy_in (Some value) sn in Some ((err, n, val), sn)
      } else do {
        ((err, n, val), sn) \<leftarrow> snmp_next junk tab name sn;
        let sn = count_req sn;
        if err = SNMP_NO_SUCH_NAME \<and> version \<noteq> 0 then
          let (n, sn) = copy_in n sn; (val, sn) = end_of_mib sn in Some ((SNMP_NO_ERROR, n, val), sn)
        else Some ((err, n, val), sn)
      })"

text \<open>The size of the object that a structure of a parsed packet lies in, on a 32-bit processor: a string has a byte more than
  its text, an identifier the numbers that it holds (of one number per byte, the first byte giving two), and a sequence has room for
  five elements at least.\<close>

fun object_size :: "asn_t \<Rightarrow> nat" where
  "object_size (Asn_String typ str) = sizeof_string (length str + 1)"
| "object_size (Asn_Oid v) = sizeof_oid (if v = [] then 10 else length v)"
| "object_size (Asn_Seq typ es) = sizeof_sequence (max 5 (length es))"
| "object_size b = 8"

text \<open>\<open>arr[0]\<close> and \<open>arr[1]\<close> of an element of the list are read as those of a sequence, before the test that it is one: they
  have to lie within its object.\<close>

definition pair_readable :: "asn_t \<Rightarrow> bool" where
  "pair_readable pair \<longleftrightarrow> sizeof_sequence 2 \<le> object_size pair"

fun first_loop :: "u32 \<Rightarrow> 'e snmp_var_t list \<Rightarrow> u8 \<Rightarrow> u32 \<Rightarrow> nat \<Rightarrow> nat \<Rightarrow> asn_t list \<Rightarrow> asn_t list \<Rightarrow> 'e snmp_t \<Rightarrow> (progress \<times> 'e snmp_t) option" where
  "first_loop junk tab typ version cap i [] out sn = Some (Answer out, sn)"
| "first_loop junk tab typ version cap i (pair # pairs) out sn =
     (if \<not> pair_readable pair then None else case pair of
        Asn_Seq ty (Asn_Oid name # value # _) \<Rightarrow>
          if ty \<noteq> ASN_SEQUENCE then Some (Bad, parse_err sn)
          else do {
            ((err, n, val), sn) \<leftarrow> one_var junk tab typ version name value sn;
            if err \<noteq> SNMP_NO_ERROR then Some (Fatal err i, sn)
            else do {
              (out, sn) \<leftarrow> add_pair cap out n val sn;
              case out of None \<Rightarrow> Some (Fatal SNMP_GEN_ERR i, sn)
              | Some out \<Rightarrow> first_loop junk tab typ version cap (i + 1) pairs out sn
            }
          }
      | _ \<Rightarrow> Some (Bad, parse_err sn))"

text \<open>One round of the repetitions, which takes the names from \<open>srcs\<close>; what these pairs are is not checked.\<close>

fun bulk_round :: "u32 \<Rightarrow> 'e snmp_var_t list \<Rightarrow> nat \<Rightarrow> nat \<Rightarrow> asn_t list \<Rightarrow> asn_t list \<Rightarrow> 'e snmp_t \<Rightarrow> (progress \<times> 'e snmp_t) option" where
  "bulk_round junk tab cap i [] out sn = Some (Answer out, sn)"
| "bulk_round junk tab cap i (pair # pairs) out sn =
     (case pair of
        Asn_Seq ty (Asn_Oid name # _) \<Rightarrow> do {
          ((err, n, val), sn) \<leftarrow> snmp_next junk tab name sn;
          let sn = count_req sn;
          let (n, val, err, sn) = (if err = SNMP_NO_SUCH_NAME
              then let (n, sn) = copy_in n sn; (val, sn) = end_of_mib sn in (n, val, SNMP_NO_ERROR, sn) else (n, val, err, sn));
          if err \<noteq> SNMP_NO_ERROR then Some (Fatal err i, sn)
          else do {
            (out, sn) \<leftarrow> add_pair cap out n val sn;
            case out of None \<Rightarrow> Some (Fatal SNMP_GEN_ERR i, sn)
            | Some out \<Rightarrow> bulk_round junk tab cap (i + 1) pairs out sn
          }
        }
      | _ \<Rightarrow> None)"

text \<open>A round takes its names from the pairs of the round before.\<close>

fun bulk_loop :: "u32 \<Rightarrow> 'e snmp_var_t list \<Rightarrow> nat \<Rightarrow> nat \<Rightarrow> nat \<Rightarrow> asn_t list \<Rightarrow> asn_t list \<Rightarrow> 'e snmp_t \<Rightarrow> (progress \<times> 'e snmp_t) option" where
  "bulk_loop junk tab cap i 0 srcs out sn = Some (Answer out, sn)"
| "bulk_loop junk tab cap i (Suc r) srcs out sn =
     (case bulk_round junk tab cap i srcs out sn of None \<Rightarrow> None
      | Some (Answer out', sn) \<Rightarrow> bulk_loop junk tab cap i r (drop (length out) out') out' sn
      | Some (p, sn) \<Rightarrow> Some (p, sn))"

definition bulk_counts :: "u32 \<Rightarrow> u32 \<Rightarrow> nat \<Rightarrow> u32 \<times> u32" where
  "bulk_counts a b n =
     (let nonrepeaters = (if sint a < 0 then 0 else if sint a > int n then of_nat n else a);
          repetitions = (if sint b < 0 then 0 else b)
      in if nonrepeaters = 0 \<and> repetitions = 0 then (of_nat n, repetitions) else (nonrepeaters, repetitions))"

definition snmp_message :: "u32 \<Rightarrow> u8 list \<Rightarrow> u8 \<Rightarrow> u32 \<Rightarrow> u32 \<Rightarrow> u32 \<Rightarrow> asn_t \<Rightarrow> asn_t" where
  "snmp_message version community typ request_id status index vars =
     Asn_Seq ASN_SEQUENCE [Asn_Int version, Asn_String ASN_STRING community,
       Asn_Seq typ [Asn_Int request_id, Asn_Int status, Asn_Int index, vars]]"

text \<open>The last part of \<open>snmp_execute\<close>: the response, or the request with an error.\<close>

definition count_error :: "u32 \<Rightarrow> 'e snmp_t \<Rightarrow> 'e snmp_t" where
  "count_error err sn =
     (if err = SNMP_NO_SUCH_NAME then sn\<lparr>sn_out_no_such_names := sn_out_no_such_names sn + 1\<rparr>
      else if err = SNMP_BAD_VALUE then sn\<lparr>sn_out_bad_values := sn_out_bad_values sn + 1\<rparr>
      else if err = SNMP_GEN_ERR then sn\<lparr>sn_out_gen_errs := sn_out_gen_errs sn + 1\<rparr> else sn)"

definition snmp_respond :: "nat \<Rightarrow> (u8 \<Rightarrow> u32 \<Rightarrow> u32 \<Rightarrow> asn_t \<Rightarrow> asn_t) \<Rightarrow> asn_t \<Rightarrow> progress \<Rightarrow> 'e snmp_t \<Rightarrow> (u8 list option \<times> 'e snmp_t) option" where
  "snmp_respond outsz msg inbind p sn =
     (let sent = (\<lambda>bs sn. (bs, sn\<lparr>sn_out_pkts := sn_out_pkts sn + 1\<rparr>))
      in case p of
           Bad \<Rightarrow> Some (None, sn)
         | Fatal err i \<Rightarrow> do {
             bs \<leftarrow> asn_encode (msg ASN_GET_RESPONSE err (of_nat i + 1) inbind) outsz;
             Some (sent bs (count_error err sn))
           }
         | Answer out \<Rightarrow> do {
             bs \<leftarrow> asn_encode (msg ASN_GET_RESPONSE 0 0 (Asn_Seq ASN_SEQUENCE out)) outsz;
             if bs \<noteq> None then Some (sent bs (sn\<lparr>sn_out_get_responses := sn_out_get_responses sn + 1\<rparr>))
             else do {
               bs \<leftarrow> asn_encode (msg ASN_GET_RESPONSE SNMP_TOO_BIG 0 inbind) outsz;
               Some (sent bs (sn\<lparr>sn_out_too_bigs := sn_out_too_bigs sn + 1\<rparr>))
             }
           })"

text \<open>The requests on the variables of the list \<open>inbind\<close>.\<close>

definition snmp_process :: "u32 \<Rightarrow> 'e snmp_var_t list \<Rightarrow> u8 \<Rightarrow> u32 \<Rightarrow> u32 \<Rightarrow> u32 \<Rightarrow> asn_t list \<Rightarrow> 'e snmp_t \<Rightarrow> (progress \<times> 'e snmp_t) option" where
  "snmp_process junk tab typ version a b pairs sn =
     (let n = length pairs;
          (nonrepeaters, repetitions) = (if typ = ASN_GET_BULK_REQUEST then bulk_counts a b n else (of_nat n, 0))
      in do {
        (cap, sn) \<leftarrow> make_outbind (nonrepeaters + (of_nat n - nonrepeaters) * repetitions) sn;
        case cap of
          None \<Rightarrow> Some (Bad, sn\<lparr>sn_out_too_bigs := sn_out_too_bigs sn + 1\<rparr>)
        | Some cap \<Rightarrow> do {
            (p, sn) \<leftarrow> first_loop junk tab typ version cap 0 (take (unat nonrepeaters) pairs) [] sn;
            case p of
              Answer out \<Rightarrow>
                if typ = ASN_GET_BULK_REQUEST \<and> version \<noteq> 0
                then bulk_loop junk tab cap (unat nonrepeaters) (unat repetitions) (drop (unat nonrepeaters) pairs) out sn
                else Some (Answer out, sn)
            | _ \<Rightarrow> Some (p, sn)
          }
      })"

definition count_request :: "u8 \<Rightarrow> 'e snmp_t \<Rightarrow> 'e snmp_t option" where
  "count_request typ sn =
     (if typ = ASN_GET_REQUEST then Some (sn\<lparr>sn_in_get_requests := sn_in_get_requests sn + 1\<rparr>)
      else if typ = ASN_GET_NEXT_REQUEST then Some (sn\<lparr>sn_in_get_nexts := sn_in_get_nexts sn + 1\<rparr>)
      else if typ = ASN_GET_BULK_REQUEST then Some (sn\<lparr>sn_in_get_bulks := sn_in_get_bulks sn + 1\<rparr>)
      else if typ = ASN_SET_REQUEST then Some (sn\<lparr>sn_in_set_requests := sn_in_set_requests sn + 1\<rparr>)
      else None)"

text \<open>The count of a structure as that of a sequence: for strings and identifiers it is the same field.\<close>

fun seq_count :: "asn_t \<Rightarrow> nat" where
  "seq_count (Asn_String typ str) = length str"
| "seq_count (Asn_Oid v) = length v"
| "seq_count (Asn_Seq typ es) = length es"
| "seq_count b = 0"

fun actual_type :: "asn_t \<Rightarrow> u8" where
  "actual_type Asn_Null = ASN_NULL"
| "actual_type (Asn_Exception typ) = typ"
| "actual_type (Asn_Int v) = ASN_INTEGER"
| "actual_type (Asn_Uint typ v) = typ"
| "actual_type (Asn_String typ str) = typ"
| "actual_type (Asn_Oid v) = ASN_OID"
| "actual_type (Asn_Seq typ es) = typ"

definition snmp_pdu :: "u32 \<Rightarrow> 'e snmp_var_t list \<Rightarrow> nat \<Rightarrow> u32 \<Rightarrow> u8 list \<Rightarrow> asn_t \<Rightarrow> 'e snmp_t \<Rightarrow> (u8 list option \<times> 'e snmp_t) option" where
  "snmp_pdu junk tab outsz version community pdu sn =
     (if seq_count pdu \<noteq> 4 then Some (None, parse_err sn)
      else (case pdu of
              Asn_Seq typ [Asn_Int request_id, Asn_Int a, Asn_Int b, Asn_Seq vty pairs] \<Rightarrow>
                if vty \<noteq> ASN_SEQUENCE then Some (None, parse_err sn)
                else (case count_request typ sn of
                        None \<Rightarrow> Some (None, parse_err sn)
                      | Some sn \<Rightarrow> do {
                          (p, sn) \<leftarrow> snmp_process junk tab typ version a b pairs sn;
                          snmp_respond outsz (\<lambda>typ. snmp_message version community typ request_id)
                            (Asn_Seq vty pairs) p sn
                        })
            | Asn_Seq typ es \<Rightarrow> Some (None, parse_err sn)
            | _ \<Rightarrow> None))"

definition snmp_execute :: "u32 \<Rightarrow> 'e snmp_var_t list \<Rightarrow> u8 list \<Rightarrow> nat \<Rightarrow> 'e snmp_t \<Rightarrow> (u8 list option \<times> 'e snmp_t) option" where
  "snmp_execute junk tab input outsz sn =
     (let sn = sn\<lparr>sn_in_pkts := sn_in_pkts sn + 1, sn_auth_failure := False\<rparr>;
          (b, m) = asn_parse input (sn_pool sn); sn = sn\<lparr>sn_pool := m\<rparr>
      in case b of
           Some (Asn_Seq ty [Asn_Int version, Asn_String sty community, pdu], _) \<Rightarrow>
             if ty \<noteq> ASN_SEQUENCE \<or> sty \<noteq> ASN_STRING then Some (None, parse_err sn)
             else if version \<noteq> 0 \<and> version \<noteq> 1 then Some (None, sn\<lparr>sn_in_bad_versions := sn_in_bad_versions sn + 1\<rparr>)
             else (let (ok, sn) = snmp_auth community (actual_type pdu = ASN_SET_REQUEST) sn
               in if \<not> ok then Some (None, sn\<lparr>sn_auth_failure := True\<rparr>)
                  else snmp_pdu junk tab outsz version community pdu sn)
         | _ \<Rightarrow> Some (None, parse_err sn))"

definition snmp_init :: "u32 \<Rightarrow> 'e snmp_t \<Rightarrow> 'e snmp_t" where
  "snmp_init enterprise sn = sn\<lparr>sn_enterprise := enterprise, sn_get_community := [112, 117, 98, 108, 105, 99, 0]\<rparr>"

end
