(* ===== verification/Asn_Props.thy ===== *)
theory Asn_Props
  imports Asn
begin

text \<open>
  The coding of \<open>snmp/asn.c\<close>, from the front to the back (\<open>coding\<close>): \<open>asn_encode\<close> gives these bytes when they fit
  and 0 otherwise, and \<open>asn_parse\<close> gives the structure back. The reference is \<open>ber\<close>, the basic encoding rules over
  integers of any size. The coding departs from it for opaque strings, which get the type of a plain one, and for
  unsigned numbers from \<open>2 ^ 31\<close> on, which get four octets and so are negative to a reader; for all others
  (\<open>ber_form\<close>) it is the same.
\<close>

section \<open>What the code writes\<close>

definition int_width :: "u32 \<Rightarrow> nat" where
  "int_width v =
     (if - (2 ^ 7) \<le> sint v \<and> sint v < 2 ^ 7 then 1 else if - (2 ^ 15) \<le> sint v \<and> sint v < 2 ^ 15 then 2
      else if - (2 ^ 23) \<le> sint v \<and> sint v < 2 ^ 23 then 3 else 4)"

text \<open>Four octets for the greatest unsigned numbers, too, although their highest bit is set.\<close>

definition uint_width :: "u8 \<Rightarrow> u32 \<Rightarrow> nat" where
  "uint_width typ v =
     (if typ = ASN_IP_ADDRESS then 4
      else if v < 2 ^ 7 then 1 else if v < 2 ^ 15 then 2 else if v < 2 ^ 23 then 3 else 4)"

definition length_width :: "nat \<Rightarrow> nat" where
  "length_width n = (if n < 2 ^ 8 then 1 else if n < 2 ^ 16 then 2 else if n < 2 ^ 24 then 3 else 4)"

definition ber_length :: "nat \<Rightarrow> u8 list" where
  "ber_length n = (if n < 2 ^ 7 then [of_nat n] else (0x80 + of_nat (length_width n)) # be_bytes (length_width n) (of_nat n))"

definition tlv :: "u8 \<Rightarrow> u8 list \<Rightarrow> u8 list" where
  "tlv typ body = typ # ber_length (length body) @ body"

text \<open>A number in groups of seven bits, all but the last one marked.\<close>

function septets :: "nat \<Rightarrow> u8 list" where
  "septets n = (if n < 128 then [] else septets (n div 128) @ [0x80 OR of_nat (n div 128 mod 128)])"
  by pat_completeness auto
termination by (relation "measure (\<lambda>n. n)") auto

declare septets.simps [simp del]

definition ber_id :: "u16 \<Rightarrow> u8 list" where
  "ber_id i = septets (unat i) @ [of_nat (unat i mod 128)]"

fun asn_type :: "asn_t \<Rightarrow> u8" where
  "asn_type Asn_Null = ASN_NULL"
| "asn_type (Asn_Exception typ) = typ"
| "asn_type (Asn_Int v) = ASN_INTEGER"
| "asn_type (Asn_Uint typ v) = typ"
| "asn_type (Asn_String typ str) = ASN_STRING"
| "asn_type (Asn_Oid v) = ASN_OID"
| "asn_type (Asn_Seq typ es) = typ"

fun coding :: "asn_t \<Rightarrow> u8 list" and coded :: "asn_t \<Rightarrow> u8 list" where
  "coding b = tlv (asn_type b) (coded b)"
| "coded Asn_Null = []"
| "coded (Asn_Exception typ) = []"
| "coded (Asn_Int v) = be_bytes (int_width v) v"
| "coded (Asn_Uint typ v) = be_bytes (uint_width typ v) v"
| "coded (Asn_String typ str) = str"
| "coded (Asn_Oid v) = ucast (v ! 0 * 40 + v ! 1) # concat (map ber_id (drop 2 v))"
| "coded (Asn_Seq typ es) = concat (map coding es)"

section \<open>The basic encoding rules\<close>

text \<open>An integer in two's complement, in as few octets as it needs.\<close>

function ber_int :: "int \<Rightarrow> u8 list" where
  "ber_int i = (if - 128 \<le> i \<and> i < 128 then [of_int i] else ber_int (i div 256) @ [of_int i])"
  by pat_completeness auto
termination by (relation "measure (\<lambda>i. nat \<bar>i\<bar>)") (auto simp: abs_if)

declare ber_int.simps [simp del]

fun ber_type :: "asn_t \<Rightarrow> u8" where
  "ber_type (Asn_String typ str) = typ"
| "ber_type b = asn_type b"

text \<open>Unsigned numbers are integers, too; an address is a string of four octets. The first two numbers of an identifier
  are one number.\<close>

fun ber :: "asn_t \<Rightarrow> u8 list" and ber_content :: "asn_t \<Rightarrow> u8 list" where
  "ber b = tlv (ber_type b) (ber_content b)"
| "ber_content Asn_Null = []"
| "ber_content (Asn_Exception typ) = []"
| "ber_content (Asn_Int v) = ber_int (sint v)"
| "ber_content (Asn_Uint typ v) = (if typ = ASN_IP_ADDRESS then be_bytes 4 v else ber_int (uint v))"
| "ber_content (Asn_String typ str) = str"
| "ber_content (Asn_Oid v) = concat (map ber_id ((v ! 0 * 40 + v ! 1) # drop 2 v))"
| "ber_content (Asn_Seq typ es) = concat (map ber es)"

text \<open>No opaque string and no unsigned number from \<open>2 ^ 31\<close> on, at any depth; the roots of identifiers are 0, 1 and 2.\<close>

fun ber_form :: "asn_t \<Rightarrow> bool" where
  "ber_form (Asn_Uint typ v) = (typ = ASN_IP_ADDRESS \<or> v < 2 ^ 31)"
| "ber_form (Asn_String typ str) = (typ \<noteq> ASN_OPAQUE)"
| "ber_form (Asn_Oid v) = (v ! 0 \<le> 2)"
| "ber_form (Asn_Seq typ es) = list_all ber_form es"
| "ber_form b = True"

text \<open>The structures that the agent makes, and any that a packet holds, but for identifiers of less than two numbers.\<close>

fun asn_ok :: "asn_t \<Rightarrow> bool" where
  "asn_ok (Asn_Exception typ) = exception_type typ"
| "asn_ok (Asn_Uint typ v) = (counter_type typ \<or> typ = ASN_IP_ADDRESS)"
| "asn_ok (Asn_String typ str) = (string_type typ \<and> length str < 65536)"
| "asn_ok (Asn_Oid v) = (2 \<le> length v \<and> length v < 65536 \<and> v ! 0 \<le> 5 \<and> v ! 1 < 40)"
| "asn_ok (Asn_Seq typ es) = (typ AND ASN_CONSTRUCTED \<noteq> 0 \<and> length es < 65536 \<and> list_all asn_ok es)"
| "asn_ok b = True"

text \<open>What is read back: \<open>asn_put_string\<close> writes the type of a string for an opaque one, too.\<close>

fun plain :: "asn_t \<Rightarrow> asn_t" where
  "plain (Asn_String typ str) = Asn_String ASN_STRING str"
| "plain (Asn_Seq typ es) = Asn_Seq typ (map plain es)"
| "plain b = b"

section \<open>Bytes\<close>

lemma length_be_bytes [simp]: "length (be_bytes k v) = k"
  by (induction k arbitrary: v) simp_all

lemma be_bytes_numeral: "be_bytes (numeral k) v = be_bytes (pred_numeral k) (drop_bit 8 v) @ [ucast v]"
  by (simp add: numeral_eq_Suc)

lemma be_val_append: "be_val a (xs @ ys) = be_val (be_val a xs) ys"
  by (induction a xs rule: be_val.induct) simp_all

lemma be_val_bytes: "be_val 0 (be_bytes k v) = take_bit (8 * k) v"
proof (induction k arbitrary: v)
  case 0
  then show ?case by simp
next
  case (Suc k)
  have "be_val 0 (be_bytes (Suc k) v) = push_bit 8 (take_bit (8 * k) (drop_bit 8 v)) OR ucast (ucast v :: u8)"
    by (simp add: be_val_append Suc)
  also have "\<dots> = take_bit (8 * Suc k) v"
    by (rule bit_word_eqI) (auto simp: bit_simps)
  finally show ?case .
qed

lemma unat_u8b: "unat (x :: u8) < 256"
  using unsigned_less [of x, where ?'a = nat] by simp

lemma u8_low: "x AND 0x80 = 0 \<longleftrightarrow> x < 0x80" for x :: u8
proof -
  have m: "x AND 0x80 = (if bit x 7 then 0x80 else 0 :: u8)"
  proof (rule bit_word_eqI)
    fix n :: nat
    have "(0x80 :: u8) = 2 ^ 7" by simp
    then have "bit (0x80 :: u8) n \<longleftrightarrow> n = 7" by (simp only: bit_exp_iff possible_bit_word) auto
    then show "bit (x AND 0x80) n = bit (if bit x 7 then 0x80 else 0 :: u8) n" by (auto simp: bit_simps)
  qed
  have "bit x 7 \<longleftrightarrow> bit (unat x) 7" by (simp add: bit_unsigned_iff)
  also have "\<dots> \<longleftrightarrow> odd (unat x div 2 ^ 7)" by (simp only: bit_iff_odd)
  also have "\<dots> \<longleftrightarrow> \<not> unat x < 128"
  proof -
    have "unat x div 128 < 2" using unat_u8b [of x] by simp
    then show ?thesis by (cases "unat x < 128") auto
  qed
  finally show ?thesis using m by (simp add: word_less_nat_alt)
qed

lemma ucast_of_nat_down: "ucast (of_nat n :: u32) = (of_nat n :: u8)"
  by (rule bit_word_eqI) (simp add: unsigned_of_nat bit_simps)

lemma word_of_nat_unat_id: "of_nat (unat v) = (v :: u32)"
  by simp

lemma word_of_nat_unat: "unat (v :: u32) = n \<Longrightarrow> ucast v = (of_nat n :: u8)"
proof -
  assume "unat v = n"
  then have "of_nat n = v" by (metis word_of_nat_unat_id)
  then show ?thesis using ucast_of_nat_down [of n] by simp
qed

section \<open>The length\<close>

lemma length_ber_length: "length (ber_length n) = (if n < 128 then 1 else 1 + length_width n)"
  by (simp add: ber_length_def)

lemma put_length_ber: "asn_put_length n sz = (if length (ber_length n) \<le> sz then Some (ber_length n) else None)"
  by (auto simp: asn_put_length_def ber_length_def length_width_def not_less_eq_eq ucast_of_nat_down)

lemma put_header_ber:
  "asn_put_header typ body sz = (if length (tlv typ body) \<le> sz + length body then Some (tlv typ body) else None)"
  by (auto simp: asn_put_header_def put_length_ber tlv_def)

lemma take_length_width:
  assumes "n < 2 ^ 32"
  shows "take_bit (8 * length_width n) (of_nat n :: u32) = of_nat n"
proof -
  have "n < 2 ^ (8 * length_width n)" using assms by (auto simp: length_width_def)
  then have "take_bit (8 * length_width n) n = n" by (simp add: take_bit_nat_eq_self_iff)
  then show ?thesis by (metis take_bit_of_nat)
qed

lemma unat_ucast_u8: "unat (ucast (x :: u8) :: u32) = unat x"
  by (simp add: unsigned_ucast_eq take_bit_nat_eq_self less_trans [OF unsigned_less])

lemma unat_of_nat_u32: "n < 128 \<Longrightarrow> unat (of_nat n :: u32) = n"
  by (simp add: unat_of_nat take_bit_nat_eq_self)

lemma get_length_ber:
  assumes "n < 2 ^ 32"
  shows "asn_get_length (ber_length n @ xs) = Some (of_nat n, xs)"
proof (cases "n < 128")
  case True
  then have u: "unat (of_nat n :: u8) = n" by (simp add: unat_of_nat take_bit_nat_eq_self)
  then have "(of_nat n :: u8) \<noteq> 0xff" using True by (intro notI) simp
  moreover have "(of_nat n :: u8) AND 0x80 = 0" using True u by (simp add: u8_low word_less_nat_alt)
  moreover have "ucast (of_nat n :: u8) = (of_nat n :: u32)" using True u by (metis word_unat_eq_iff unat_ucast_u8 unat_of_nat_u32)
  ultimately show ?thesis using True by (simp add: asn_get_length_def ber_length_def)
next
  case False
  define w where "w = length_width n"
  have "w \<in> {1, 2, 3, 4}" by (simp add: w_def length_width_def)
  then have "0x80 + of_nat w \<noteq> (0xff :: u8) \<and> \<not> 0x80 + of_nat w < (0x80 :: u8) \<and> (0x80 + of_nat w) AND 0x7f = (of_nat w :: u8)
    \<and> \<not> of_nat w > (4 :: u8) \<and> unat (of_nat w :: u8) = w" by auto
  then have "asn_get_length (ber_length n @ xs) = Some (be_val 0 (be_bytes w (of_nat n)), xs)"
    using False by (simp add: asn_get_length_def ber_length_def w_def [symmetric] u8_low)
  then show ?thesis using take_length_width [OF assms] by (simp add: be_val_bytes w_def)
qed

lemma header_tlv:
  assumes "length body < 2 ^ 32"
  shows "asn_header (tlv typ body @ rest) = Some (typ, body, rest)"
proof -
  have "unat (of_nat (length body) :: u32) = length body" using assms by (simp add: unat_of_nat take_bit_nat_eq_self)
  moreover have "0 < length (ber_length (length body))" by (simp add: length_ber_length)
  ultimately show ?thesis using get_length_ber [OF assms, of "body @ rest"]
    by (cases "ber_length (length body)") (simp_all add: asn_header_def tlv_def)
qed

section \<open>Encoding\<close>

lemma drop_bit_7: "unat (drop_bit 7 v :: u32) = unat v div 128"
  by (simp add: drop_bit_eq_div unat_div)

lemma low_septet: "ucast (v AND 0x7f :: u32) = (of_nat (unat v mod 128) :: u8)"
proof -
  have "v AND 0x7f = take_bit 7 v" by (simp add: take_bit_eq_mask mask_eq_exp_minus_1)
  then have "unat (v AND 0x7f) = unat v mod 128" by (simp add: unsigned_take_bit_eq) (simp add: take_bit_eq_mod)
  then show ?thesis using word_of_nat_unat by metis
qed

lemma put_id_loop_septets:
  "put_id_loop v out sz = (if length (septets (unat v)) \<le> sz then Some (septets (unat v) @ out) else None)"
proof (induction v out sz rule: put_id_loop.induct)
  case (1 v out sz)
  have lt: "v \<ge> 0x80 \<longleftrightarrow> \<not> unat v < 128" by (simp add: word_le_nat_alt not_less)
  show ?case
  proof (cases "v \<ge> 0x80")
    case False
    then have "septets (unat v) = []" using lt by (simp add: septets.simps)
    then show ?thesis using False by (simp add: put_id_loop.simps)
  next
    case True
    then have s: "septets (unat v) = septets (unat v div 128) @ [0x80 OR of_nat (unat v div 128 mod 128)]"
      using lt by (subst septets.simps) simp
    have b: "ucast (drop_bit 7 v AND 0x7f) = (of_nat (unat v div 128 mod 128) :: u8)"
      using low_septet [of "drop_bit 7 v"] by (simp add: drop_bit_7)
    show ?thesis
    proof (cases "sz < 1")
      case False
      have "put_id_loop v out sz = put_id_loop (drop_bit 7 v) ((0x80 OR ucast (drop_bit 7 v AND 0x7f)) # out) (sz - 1)"
        using True False by (subst put_id_loop.simps) simp
      then show ?thesis using 1 [OF True False] False unfolding s b drop_bit_7 by auto
    qed (use True s in \<open>simp add: put_id_loop.simps\<close>)
  qed
qed

lemma put_id_ber: "asn_put_id1 (ucast i) sz = (if length (ber_id i) \<le> sz then Some (ber_id i) else None)"
proof -
  have u: "unat (ucast i :: u32) = unat i" by (simp add: unsigned_ucast_eq take_bit_nat_eq_self less_trans [OF unsigned_less])
  show ?thesis
    using low_septet [of "ucast i"] unfolding asn_put_id1_def put_id_loop_septets ber_id_def u by auto
qed

lemma put_ids_ber:
  "put_ids is out sz = (let bs = concat (map ber_id (rev is)) in
     if length bs \<le> sz then Some (bs @ out, sz - length bs) else None)"
  by (induction "is" out sz rule: put_ids.induct) (auto simp: put_id_ber Let_def)

lemma put_oid_coding:
  assumes "2 \<le> length v"
  shows "asn_put_oid v sz = Some (if length (coding (Asn_Oid v)) \<le> sz then Some (coding (Asn_Oid v)) else None)"
  using assms by (auto simp: asn_put_oid_def put_ids_ber put_header_ber Let_def tlv_def)

lemma put_int_coding: "asn_put_int v sz = (if length (coding (Asn_Int v)) \<le> sz then Some (coding (Asn_Int v)) else None)"
  by (simp add: asn_put_int_def tlv_def ber_length_def int_width_def)

lemma put_uint_coding: "asn_put_uint v sz typ = (if length (coding (Asn_Uint typ v)) \<le> sz then Some (coding (Asn_Uint typ v)) else None)"
proof -
  have w: "v \<le> 0x7f \<longleftrightarrow> v < 2 ^ 7" "v \<le> 0x7fff \<longleftrightarrow> v < 2 ^ 15" "\<not> v > 0x7fffff \<longleftrightarrow> v < 2 ^ 23"
    by (simp_all add: word_le_nat_alt word_less_nat_alt) linarith+
  have g: "v > 0x7fffff \<longleftrightarrow> \<not> v < 2 ^ 23" using w(3) by blast
  have l: "v < 2 ^ 7 \<Longrightarrow> v < 2 ^ 15" "v < 2 ^ 15 \<Longrightarrow> v < 2 ^ 23" by (simp_all add: word_less_nat_alt)
  show ?thesis
    unfolding asn_put_uint_def w(1,2) g
    by (cases "typ = ASN_IP_ADDRESS"; cases "v < 2 ^ 7"; cases "v < 2 ^ 15"; cases "v < 2 ^ 23")
      (use l in \<open>simp_all add: tlv_def uint_width_def ber_length_def del: be_bytes.simps\<close>)
qed

lemma put_elements_coding:
  assumes "\<forall>e \<in> set es. \<forall>sz. asn_encode e sz = Some (if length (coding e) \<le> sz then Some (coding e) else None)"
  shows "put_elements es sz = Some (let bs = concat (map coding es) in if length bs \<le> sz then Some (bs, sz - length bs) else None)"
  using assms by (induction es arbitrary: sz) (auto simp: Let_def)

lemma encode_coding:
  "asn_ok b \<Longrightarrow> asn_encode b sz = Some (if length (coding b) \<le> sz then Some (coding b) else None)"
proof (induction b arbitrary: sz rule: asn_t.induct)
  case (Asn_Seq ty es)
  then have "put_elements es sz = Some (let bs = concat (map coding es) in if length bs \<le> sz then Some (bs, sz - length bs) else None)"
    by (intro put_elements_coding) (simp add: list_all_iff)
  then show ?case by (auto simp: Let_def put_header_ber tlv_def)
next
  case (Asn_String ty str)
  then show ?case by (auto simp: asn_put_string_def put_header_ber tlv_def)
next
  case Asn_Null
  then show ?case by (auto simp: tlv_def ber_length_def)
next
  case (Asn_Exception ty)
  then show ?case by (auto simp: tlv_def ber_length_def)
next
  case (Asn_Int v)
  then show ?case by (simp only: asn_encode.simps put_int_coding)
next
  case (Asn_Uint ty v)
  then show ?case by (simp only: asn_encode.simps put_uint_coding asn_ok.simps if_True)
next
  case (Asn_Oid v)
  then show ?case by (simp only: asn_encode.simps put_oid_coding asn_ok.simps)
qed

section \<open>Reading numbers\<close>

lemma be_val_bytes_from: "be_val a (be_bytes k v) = push_bit (8 * k) a OR take_bit (8 * k) v"
proof (induction k arbitrary: v)
  case 0
  then show ?case by simp
next
  case (Suc k)
  have "be_val a (be_bytes (Suc k) v)
      = push_bit 8 (push_bit (8 * k) a OR take_bit (8 * k) (drop_bit 8 v)) OR ucast (ucast v :: u8)"
    by (simp add: be_val_append Suc)
  also have "\<dots> = push_bit (8 * Suc k) a OR take_bit (8 * Suc k) v"
    by (rule bit_word_eqI) (auto simp: bit_simps)
  finally show ?case .
qed

lemma be_bytes_front: "be_bytes (Suc k) v = ucast (drop_bit (8 * k) v) # be_bytes k v"
proof (induction k arbitrary: v)
  case 0
  then show ?case by simp
next
  case (Suc k)
  have "be_bytes (Suc (Suc k)) v = be_bytes (Suc k) (drop_bit 8 v) @ [ucast v]" by (rule be_bytes.simps)
  also have "\<dots> = (ucast (drop_bit (8 * k) (drop_bit 8 v)) # be_bytes k (drop_bit 8 v)) @ [ucast v]" by (simp only: Suc)
  also have "\<dots> = ucast (drop_bit (8 * k) (drop_bit 8 v)) # be_bytes (Suc k) v" by (simp only: be_bytes.simps append_Cons)
  also have "drop_bit (8 * k) (drop_bit 8 v) = drop_bit (8 * Suc k) v" by (simp add: drop_bit_drop_bit add.commute)
  finally show ?case .
qed

section \<open>The coding and the basic encoding rules\<close>

lemma be_bytes_low: "be_bytes k (take_bit (8 * k) v) = be_bytes k v"
proof (induction k arbitrary: v)
  case (Suc k)
  have "be_bytes k (drop_bit 8 (take_bit (8 * Suc k) v)) = be_bytes k (drop_bit 8 v)"
    using Suc [of "drop_bit 8 v"] by (simp add: drop_bit_take_bit)
  moreover have "ucast (take_bit (8 * Suc k) v) = (ucast v :: u8)"
    by (rule bit_word_eqI) (auto simp: bit_simps)
  ultimately show ?case by (simp only: be_bytes.simps)
qed simp

lemma be_bytes_of_int:
  assumes "k < 4"
  shows "be_bytes (Suc k) (of_int i) = be_bytes k (of_int (i div 256)) @ [of_int i]"
proof -
  have d: "i div 256 = drop_bit 8 i" by (simp add: drop_bit_eq_div)
  have "take_bit (8 * k) (drop_bit 8 (of_int i :: u32)) = take_bit (8 * k) (of_int (i div 256))"
    unfolding d using assms by (intro bit_word_eqI) (auto simp: bit_simps)
  then have "be_bytes k (drop_bit 8 (of_int i)) = be_bytes k (of_int (i div 256))" by (metis be_bytes_low)
  moreover have "ucast (of_int i :: u32) = (of_int i :: u8)" by (rule bit_word_eqI) (auto simp: bit_simps)
  ultimately show ?thesis by simp
qed

text \<open>With \<open>k + 1\<close> octets, and no fewer.\<close>

lemma ber_int_bytes:
  assumes "k < 4" "- (2 ^ (8 * k + 7)) \<le> i" "i < 2 ^ (8 * k + 7)"
    and "k = 0 \<or> i < - (2 ^ (8 * k - 1)) \<or> 2 ^ (8 * k - 1) \<le> i"
  shows "ber_int i = be_bytes (Suc k) (of_int i)"
  using assms
proof (induction k arbitrary: i)
  case 0
  then show ?case using be_bytes_of_int [of 0 i] by (simp add: ber_int.simps)
next
  case (Suc k)
  have e: "8 * Suc k - 1 = 8 * k + 7" "8 * Suc k + 7 = (8 * k + 7) + 8" by simp_all
  define B :: int where "B = 2 ^ (8 * k + 7)"
  have B: "- (B * 256) \<le> i" "i < B * 256" "i < - B \<or> B \<le> i"
    using Suc.prems(2,3,4) unfolding e B_def by (simp_all add: power_add)
  have lower: "128 \<le> B" unfolding B_def using power_increasing [of 7 "8 * k + 7" "2 :: int"] by simp
  then have "\<not> (- 128 \<le> i \<and> i < 128)" using B(3) by linarith
  then have "ber_int i = ber_int (i div 256) @ [of_int i]" by (simp add: ber_int.simps)
  moreover have "k = 0 \<or> i div 256 < - (2 ^ (8 * k - 1)) \<or> 2 ^ (8 * k - 1) \<le> i div 256"
  proof (cases k)
    case (Suc j)
    have "B = 2 ^ (8 * k - 1) * 256" unfolding B_def Suc using power_add [of "2 :: int" "7 + 8 * j" 8] by (simp add: add.commute)
    then show ?thesis using B(3) by linarith
  qed simp
  moreover have "- (2 ^ (8 * k + 7)) \<le> i div 256" "i div 256 < 2 ^ (8 * k + 7)" using B(1,2) unfolding B_def by linarith+
  ultimately show ?case using Suc.IH [of "i div 256"] Suc.prems(1) be_bytes_of_int [of "Suc k" i] by simp
qed

lemma four: "4 = Suc (Suc (Suc (Suc 0)))"
  by simp

lemma ber_int_sint: "ber_int (sint v) = be_bytes (int_width v) v" for v :: u32
proof -
  have "- (2 ^ 31) \<le> sint v" "sint v < 2 ^ 31" using sint_range_size [of v] by (simp_all add: word_size)
  then show ?thesis
    using ber_int_bytes [of 0 "sint v"] ber_int_bytes [of 1 "sint v"] ber_int_bytes [of 2 "sint v"] ber_int_bytes [of 3 "sint v"]
    by (auto simp: int_width_def numeral_2_eq_2 numeral_3_eq_3 four simp del: be_bytes.simps)
qed

lemma ber_int_uint:
  fixes v :: u32
  assumes "typ \<noteq> ASN_IP_ADDRESS"
  shows "ber_int (uint v) = (if v < 2 ^ 31 then be_bytes (uint_width typ v) v else 0 # be_bytes 4 v)"
proof (cases "v < 2 ^ 31")
  case True
  have w: "v < 2 ^ 7 \<longleftrightarrow> uint v < 2 ^ 7" "v < 2 ^ 15 \<longleftrightarrow> uint v < 2 ^ 15" "v < 2 ^ 23 \<longleftrightarrow> uint v < 2 ^ 23"
    "v < 2 ^ 31 \<longleftrightarrow> uint v < 2 ^ 31" by (simp_all add: word_less_def)
  have "- m \<le> uint v" if "0 \<le> m" for m :: int using that uint_ge_0 [of v] by linarith
  then have "- (2 ^ 7) \<le> uint v" "- (2 ^ 15) \<le> uint v" "- (2 ^ 23) \<le> uint v" "- (2 ^ 31) \<le> uint v" by simp_all
  then show ?thesis
    using True ber_int_bytes [of 0 "uint v"] ber_int_bytes [of 1 "uint v"] ber_int_bytes [of 2 "uint v"] ber_int_bytes [of 3 "uint v"]
    using assms unfolding uint_width_def w
    by (auto simp: numeral_2_eq_2 numeral_3_eq_3 four simp del: be_bytes.simps)
next
  case False
  then have u: "2 ^ 31 \<le> uint v" "uint v < 2 ^ 32" using unsigned_less [of v, where ?'a = int] by (simp_all add: word_less_def)
  have "uint v div 256 = uint (drop_bit 8 v)" by (simp add: drop_bit_eq_div uint_div)
  then have d: "of_int (uint v div 256) = drop_bit 8 v" by simp
  have "\<not> uint v < 128" using u(1) by simp
  then have "ber_int (uint v) = ber_int (uint v div 256) @ [ucast v]" by (simp add: ber_int.simps [of "uint v"])
  also have "ber_int (uint v div 256) = be_bytes (Suc 3) (of_int (uint v div 256))"
    by (rule ber_int_bytes) (use u in \<open>simp_all, linarith+\<close>)
  also have "be_bytes (Suc 3) (of_int (uint v div 256)) @ [ucast v] = be_bytes (Suc 4) v"
    unfolding d be_bytes.simps(2) [of 4 v] by simp
  also have "\<dots> = ucast (drop_bit (8 * 4) v) # be_bytes 4 v" by (rule be_bytes_front)
  also have "drop_bit (8 * 4) v = 0" by (rule bit_word_eqI) (auto simp: bit_simps dest: bit_imp_le_length)
  finally show ?thesis using False by simp
qed

lemma ber_id_short: "unat n < 128 \<Longrightarrow> ber_id n = [ucast n]"
  by (simp add: ber_id_def septets.simps)

lemma coding_is_ber: "asn_ok b \<Longrightarrow> ber_form b \<Longrightarrow> coding b = ber b"
proof (induction b rule: asn_t.induct)
  case (Asn_Seq ty es)
  then have m: "map coding es = map ber es" by (simp add: list_all_iff del: coding.simps ber.simps)
  show ?case unfolding coding.simps [of "Asn_Seq ty es"] ber.simps [of "Asn_Seq ty es"]
    by (simp only: m coded.simps ber_content.simps asn_type.simps ber_type.simps)
next
  case (Asn_Int v)
  then show ?case by (simp add: ber_int_sint)
next
  case (Asn_Uint ty v)
  then show ?case by (cases "ty = ASN_IP_ADDRESS") (simp_all add: ber_int_uint, simp add: uint_width_def)
next
  case (Asn_String ty str)
  then show ?case by (auto simp: string_type_def)
next
  case (Asn_Oid v)
  have u: "unat (v ! 0 * 40 + v ! 1) < 128"
    using Asn_Oid by (simp add: word_le_nat_alt word_less_nat_alt unat_word_ariths)
  then have "ber_id (v ! 0 * 40 + v ! 1) = [ucast (v ! 0 * 40 + v ! 1)]" by (rule ber_id_short)
  then show ?case by simp
qed simp_all

text \<open>Where the code departs.\<close>

lemma coding_departs:
  "coding (Asn_String ASN_OPAQUE str) = tlv ASN_STRING str" "ber (Asn_String ASN_OPAQUE str) = tlv ASN_OPAQUE str"
  "counter_type typ \<Longrightarrow> \<not> v < 2 ^ 31 \<Longrightarrow> coding (Asn_Uint typ v) = tlv typ (be_bytes 4 v)"
  "counter_type typ \<Longrightarrow> \<not> v < 2 ^ 31 \<Longrightarrow> ber (Asn_Uint typ v) = tlv typ (0 # be_bytes 4 v)"
proof -
  assume "counter_type typ" "\<not> v < 2 ^ 31"
  moreover have "typ \<noteq> ASN_IP_ADDRESS" using calculation(1) by (auto simp: counter_type_def)
  moreover have "\<not> v < 2 ^ 23" "\<not> v < 2 ^ 15" "\<not> v < 2 ^ 7" using calculation(2) by (auto simp: word_less_nat_alt)
  ultimately show "coding (Asn_Uint typ v) = tlv typ (be_bytes 4 v)" "ber (Asn_Uint typ v) = tlv typ (0 # be_bytes 4 v)"
    by (simp_all add: ber_int_uint uint_width_def)
qed simp_all

section \<open>Reading integers\<close>

lemma sint_range_bit:
  assumes "- (2 ^ n) \<le> sint (v :: u32)" "sint v < 2 ^ n" "m < 32" "n < 32"
  shows "bit v m = bit v (min n m)"
proof -
  have s: "signed_take_bit n (sint v) = sint v" using assms(1,2) by (simp add: signed_take_bit_int_eq_self)
  have "bit (sint v) m = bit (signed_take_bit n (sint v)) m" by (simp only: s)
  also have "\<dots> = bit (sint v) (min n m)" by (simp add: bit_signed_take_bit_iff)
  finally show ?thesis using assms(3,4) by (simp add: bit_sint_iff split: if_splits)
qed

lemma get_int_bytes:
  assumes "- (2 ^ (8 * k + 7)) \<le> sint (v :: u32)" "sint v < 2 ^ (8 * k + 7)" "k < 4"
  shows "(case be_bytes (Suc k) v of [] \<Rightarrow> 0 | x # xs \<Rightarrow> be_val (scast x) xs) = v"
proof -
  have "push_bit (8 * k) (scast (ucast (drop_bit (8 * k) v) :: u8)) OR take_bit (8 * k) v = v"
  proof (rule bit_word_eqI)
    fix n assume n: "n < LENGTH(32)"
    have "bit (scast (ucast (drop_bit (8 * k) v) :: u8) :: u32) (n - 8 * k) = bit v n" if "8 * k \<le> n"
    proof -
      have "bit (scast (ucast (drop_bit (8 * k) v) :: u8) :: u32) (n - 8 * k) = bit v (8 * k + min (n - 8 * k) 7)"
        using n that assms(3) by (auto simp: bit_simps min_def)
      also have "8 * k + min (n - 8 * k) 7 = min (8 * k + 7) n" using that by auto
      also have "bit v \<dots> = bit v n" using sint_range_bit [of "8 * k + 7" v n] assms n by simp
      finally show ?thesis .
    qed
    then show "bit (push_bit (8 * k) (scast (ucast (drop_bit (8 * k) v) :: u8)) OR take_bit (8 * k) v) n = bit v n"
      using n by (auto simp: bit_simps not_le)
  qed
  then show ?thesis by (simp add: be_bytes_front be_val_bytes_from del: be_bytes.simps)
qed

lemma get_int_coding: "(case be_bytes (int_width v) v of [] \<Rightarrow> 0 | x # xs \<Rightarrow> be_val (scast x) xs) = v"
proof -
  have "- (2 ^ 31) \<le> sint v" "sint v < 2 ^ 31"
    using sint_range_size [of v] by (simp_all add: word_size)
  then show ?thesis
    using get_int_bytes [of 0 v] get_int_bytes [of 1 v] get_int_bytes [of 2 v] get_int_bytes [of 3 v]
    unfolding int_width_def by (simp del: be_bytes.simps add: eval_nat_numeral)
qed

section \<open>Reading identifiers\<close>

lemma or_septet: "(of_nat (n div 128 * 128) :: u16) OR of_nat (n mod 128) = of_nat n"
proof -
  have "n div 128 * 128 OR n mod 128 = n"
  proof (rule bit_eqI)
    fix i
    have "n div 128 * 128 = push_bit 7 (drop_bit 7 n)" "n mod 128 = take_bit 7 n"
      by (simp_all add: push_bit_eq_mult drop_bit_eq_div take_bit_eq_mod)
    then show "bit (n div 128 * 128 OR n mod 128) i = bit n i" by (auto simp: bit_simps)
  qed
  then show ?thesis by (metis of_nat_or_eq)
qed

lemma marked_septet:
  assumes "k < 128"
  shows "(0x80 OR of_nat k :: u8) AND 0x80 \<noteq> 0" "ucast ((0x80 OR of_nat k :: u8) AND 0x7f) = (of_nat k :: u16)"
proof -
  have "\<forall>k \<in> set [0..<128]. (0x80 OR of_nat k :: u8) AND 0x80 \<noteq> 0 \<and> ucast ((0x80 OR of_nat k :: u8) AND 0x7f) = (of_nat k :: u16)"
    by code_simp
  then show "(0x80 OR of_nat k :: u8) AND 0x80 \<noteq> 0" "ucast ((0x80 OR of_nat k :: u8) AND 0x7f) = (of_nat k :: u16)"
    using assms by simp_all
qed

lemma plain_septet:
  assumes "k < 128"
  shows "(of_nat k :: u8) AND 0x80 = 0" "ucast (of_nat k :: u8) = (of_nat k :: u16)"
proof -
  have "\<forall>k \<in> set [0..<128]. (of_nat k :: u8) AND 0x80 = 0 \<and> ucast (of_nat k :: u8) = (of_nat k :: u16)"
    by code_simp
  then show "(of_nat k :: u8) AND 0x80 = 0" "ucast (of_nat k :: u8) = (of_nat k :: u16)"
    using assms by simp_all
qed

lemma get_id_septets: "get_id 0 (septets n @ ys) = get_id (of_nat (n div 128 * 128)) ys"
proof (induction n arbitrary: ys rule: septets.induct)
  case (1 n)
  show ?case
  proof (cases "n < 128")
    case True
    then show ?thesis by (simp add: septets.simps)
  next
    case False
    let ?k = "n div 128 mod 128"
    have "get_id 0 (septets n @ ys) = get_id 0 (septets (n div 128) @ (0x80 OR of_nat ?k) # ys)"
      using False by (subst septets.simps) simp
    also have "\<dots> = get_id (of_nat (n div 128 div 128 * 128)) ((0x80 OR of_nat ?k) # ys)" by (rule 1 [OF False])
    also have "\<dots> = get_id (push_bit 7 (of_nat (n div 128 div 128 * 128) OR of_nat ?k)) ys"
      using marked_septet [of ?k] by simp
    also have "\<dots> = get_id (push_bit 7 (of_nat (n div 128))) ys" by (simp only: or_septet)
    also have "push_bit 7 (of_nat (n div 128)) = (of_nat (n div 128 * 128) :: u16)"
      by (simp add: push_bit_eq_mult mult.commute)
    finally show ?thesis .
  qed
qed

lemma get_id_ber: "get_id 0 (ber_id i @ ys) = Some (i, ys)"
  using plain_septet [of "unat i mod 128"] or_septet [of "unat i"] by (simp add: ber_id_def get_id_septets)

lemma get_ids_ber: "get_ids (concat (map ber_id is)) = Some is"
proof (induction "is")
  case Nil
  then show ?case by (simp add: get_ids.simps)
next
  case (Cons i "is")
  moreover have "ber_id i \<noteq> []" by (simp add: ber_id_def)
  ultimately show ?case using get_id_ber [of i] by (subst get_ids.simps) simp
qed

lemma first_byte:
  assumes "a \<le> 5" "b < 40"
  shows "ucast ((ucast (a * 40 + b) :: u8) div 40) = (a :: u16)" "ucast ((ucast (a * 40 + b) :: u8) mod 40) = (b :: u16)"
proof -
  have u: "unat (a * 40 + b) = unat a * 40 + unat b" "unat a \<le> 5" "unat b < 40"
    using assms by (simp_all add: word_le_nat_alt word_less_nat_alt unat_word_ariths)
  then have "unat (ucast (a * 40 + b) :: u8) = unat a * 40 + unat b"
    by (simp add: unsigned_ucast_eq take_bit_nat_eq_self)
  then show "ucast ((ucast (a * 40 + b) :: u8) div 40) = a" "ucast ((ucast (a * 40 + b) :: u8) mod 40) = b"
    using u(2,3) by (simp_all add: word_unat_eq_iff unsigned_ucast_eq take_bit_nat_eq_self unat_div unat_mod)
qed

section \<open>Reading structures\<close>

text \<open>The blocks that a structure takes. A sequence starts with room for five elements and grows by ten.\<close>

fun blocks :: "asn_t \<Rightarrow> nat" where
  "blocks Asn_Null = 0"
| "blocks (Asn_Seq typ es) = 1 + sum_list (map blocks es) + (length es + 4) div 10"
| "blocks b = 1"

definition enough :: "nat \<Rightarrow> pool_t \<Rightarrow> bool" where
  "enough n m \<longleftrightarrow> n \<le> length m \<and> None \<notin> set m"

lemma new_enough: "enough (Suc n) m \<Longrightarrow> asn_new k m = (True, tl m) \<and> enough n (tl m)"
  by (cases m; cases "hd m") (auto simp: asn_new_def enough_def)

lemma enough_drop: "enough (a + b) m \<Longrightarrow> enough a m \<and> enough b (drop a m)"
  by (auto simp: enough_def dest: in_set_dropD)

lemma make_enough: "enough (Suc 0) m \<Longrightarrow> asn_make k b m = (Some b, drop 1 m)"
  using new_enough [of 0 m k] by (simp add: asn_make_def drop_Suc)

lemma exception_not: "exception_type t \<Longrightarrow> t \<noteq> 0x05" "counter_type t \<Longrightarrow> t \<noteq> 0x05 \<and> \<not> exception_type t \<and> t \<noteq> 0x02"
  by (auto simp: exception_type_def counter_type_def)

text \<open>A type with the mark of a constructed value is none of the others.\<close>

lemma constructed_not:
  "t AND 0x20 \<noteq> (0 :: u8) \<Longrightarrow> t \<noteq> 0x05 \<and> \<not> exception_type t \<and> t \<noteq> 0x02 \<and> \<not> counter_type t \<and> t \<noteq> 0x40 \<and> \<not> string_type t \<and> t \<noteq> 0x06"
  by (auto simp: exception_type_def counter_type_def string_type_def)

lemma length_coded: "length (coded b) < length (coding b)"
  by (simp add: tlv_def length_ber_length)

lemma uint_coding: "counter_type typ \<or> typ = ASN_IP_ADDRESS \<Longrightarrow> be_val 0 (be_bytes (uint_width typ v) v) = v"
  using unsigned_less [of v, where ?'a = nat]
  by (auto simp: be_val_bytes uint_width_def word_less_nat_alt word_unat_eq_iff unsigned_take_bit_eq take_bit_nat_eq_self_iff)

text \<open>The state of the loop before the element \<open>c\<close>: \<open>nelem\<close> is determined by \<open>c\<close>.\<close>

abbreviation (input) room :: "nat \<Rightarrow> nat" where
  "room c \<equiv> 5 + 10 * ((c + 4) div 10)"

lemma room_step: "c \<ge> room c \<longleftrightarrow> (c + 5) div 10 = Suc ((c + 4) div 10)" "\<not> c \<ge> room c \<longleftrightarrow> (c + 5) div 10 = (c + 4) div 10"
proof -
  have "c + 4 = 10 * ((c + 4) div 10) + (c + 4) mod 10" "c + 5 = 10 * ((c + 5) div 10) + (c + 5) mod 10"
    "(c + 4) mod 10 < 10" "(c + 5) mod 10 < 10" by simp_all
  then show "c \<ge> room c \<longleftrightarrow> (c + 5) div 10 = Suc ((c + 4) div 10)" "\<not> c \<ge> room c \<longleftrightarrow> (c + 5) div 10 = (c + 4) div 10"
    by linarith+
qed

definition reads_back :: "asn_t \<Rightarrow> bool" where
  "reads_back b \<longleftrightarrow> (\<forall>m. enough (blocks b) m \<longrightarrow> length (coded b) < 2 ^ 32 \<longrightarrow>
     asn_value (asn_type b) (coded b) m = (Some (plain b), drop (blocks b) m))"

lemma elements_coding:
  assumes "list_all reads_back es" "length out + length es < 65536" "length (concat (map coding es)) < 2 ^ 32"
    "enough (sum_list (map blocks es) + ((length out + length es + 4) div 10 - (length out + 4) div 10)) m"
  shows "asn_elements (room (length out)) out (concat (map coding es)) m
    = (Some (out @ map plain es), drop (sum_list (map blocks es) + ((length out + length es + 4) div 10 - (length out + 4) div 10)) m)"
  using assms
proof (induction es arbitrary: out m)
  case Nil
  then show ?case by (simp add: asn_elements.simps)
next
  case (Cons e es)
  let ?c = "length out"
  define g where "g = (?c + 5) div 10 - (?c + 4) div 10"
  define r where "r = sum_list (map blocks es) + ((?c + length (e # es) + 4) div 10 - (?c + 5) div 10)"
  have n: "sum_list (map blocks (e # es)) + ((?c + length (e # es) + 4) div 10 - (?c + 4) div 10) = g + (blocks e + r)"
  proof -
    have "(?c + 5) div 10 \<le> (?c + length (e # es) + 4) div 10" "(?c + 4) div 10 \<le> (?c + 5) div 10" by (simp_all add: div_le_mono)
    then show ?thesis unfolding g_def r_def list.map sum_list.Cons by linarith
  qed
  have g: "(if ?c \<ge> room ?c then asn_new (sizeof_sequence (room ?c + 10)) m else (True, m)) = (True, drop g m)"
    and e: "enough (blocks e + r) (drop g m)"
    and room: "(if ?c \<ge> room ?c then room ?c + 10 else room ?c) = room (Suc ?c)"
  proof -
    have m: "enough (g + (blocks e + r)) m" using Cons.prems(4) n by simp
    then show "enough (blocks e + r) (drop g m)" using enough_drop by blast
    show "(if ?c \<ge> room ?c then asn_new (sizeof_sequence (room ?c + 10)) m else (True, m)) = (True, drop g m)"
    proof (cases "?c \<ge> room ?c")
      case True
      then have "g = 1" using room_step(1) [of ?c] by (simp add: g_def)
      then show ?thesis using True m new_enough [of "blocks e + r" m] by (simp add: drop_Suc)
    next
      case False
      then show ?thesis using room_step(2) [of ?c] by (simp add: g_def)
    qed
    show "(if ?c \<ge> room ?c then room ?c + 10 else room ?c) = room (Suc ?c)"
      using room_step [of ?c] by (cases "?c \<ge> room ?c") (simp_all add: add.commute)
  qed
  have l: "length (coded e) < 2 ^ 32" "length (concat (map coding es)) < 2 ^ 32"
    using Cons.prems(3) length_coded [of e] by (simp_all del: coding.simps)
  have v: "asn_value (asn_type e) (coded e) (drop g m) = (Some (plain e), drop (blocks e) (drop g m))"
    using Cons.prems(1) enough_drop [OF e] l(1) by (simp add: reads_back_def)
  have rest: "asn_elements (room (length (out @ [plain e]))) (out @ [plain e]) (concat (map coding es)) (drop (blocks e) (drop g m))
      = (Some ((out @ [plain e]) @ map plain es), drop r (drop (blocks e) (drop g m)))"
    using Cons.IH [of "out @ [plain e]" "drop (blocks e) (drop g m)"] Cons.prems(1,2) l(2) enough_drop [OF e]
    by (simp add: r_def add.commute add.left_commute del: coding.simps)
  have h: "asn_header (concat (map coding (e # es))) = Some (asn_type e, coded e, concat (map coding es))"
    using header_tlv [OF l(1), of "asn_type e" "concat (map coding es)"] by simp
  have "coding e \<noteq> []" by (simp add: tlv_def)
  then have "asn_elements (room ?c) out (concat (map coding (e # es))) m
      = asn_elements (room (Suc ?c)) (out @ [plain e]) (concat (map coding es)) (drop (blocks e) (drop g m))"
    using Cons.prems(2) by (subst asn_elements.simps) (simp add: g h room v del: list.map concat.simps coding.simps drop_drop)
  also have "\<dots> = (Some (out @ map plain (e # es)), drop (g + (blocks e + r)) m)" using rest by (simp add: add.commute add.left_commute)
  finally show ?case unfolding n .
qed

lemma asn_ok_reads_back: "asn_ok b \<Longrightarrow> reads_back b"
proof (induction b rule: asn_t.induct)
  case (Asn_Seq ty es)
  have "asn_value ty (concat (map coding es)) m = (Some (Asn_Seq ty (map plain es)), drop (blocks (Asn_Seq ty es)) m)"
    if m: "enough (blocks (Asn_Seq ty es)) m" and l: "length (concat (map coding es)) < 2 ^ 32" for m
  proof -
    have n: "asn_new (sizeof_sequence 5) m = (True, tl m)"
      and t: "enough (sum_list (map blocks es) + (length es + 4) div 10) (tl m)"
      using new_enough m by simp_all
    have "list_all reads_back es" using Asn_Seq by (simp add: list_all_iff)
    then have "asn_elements 5 [] (concat (map coding es)) (tl m)
        = (Some (map plain es), drop (sum_list (map blocks es) + (length es + 4) div 10) (tl m))"
      using elements_coding [of es "[]" "tl m"] Asn_Seq.prems l t by simp
    then show ?thesis using constructed_not Asn_Seq.prems n by (subst asn_value.simps) (simp add: drop_Suc)
  qed
  then show ?case by (simp add: reads_back_def)
next
  case Asn_Null
  then show ?case by (simp add: reads_back_def asn_value.simps)
next
  case (Asn_Exception ty)
  then show ?case using exception_not by (simp add: reads_back_def asn_value.simps make_enough)
next
  case (Asn_Int v)
  have "exception_type 0x02 = False" by (simp add: exception_type_def)
  moreover have "int_width v \<le> 4" by (simp add: int_width_def)
  ultimately show ?case by (simp add: reads_back_def asn_value.simps asn_get_int_def get_int_coding make_enough)
next
  case (Asn_Uint ty v)
  then have "ty = 0x40 \<Longrightarrow> uint_width ty v = 4" "uint_width ty v \<le> 4" by (simp_all add: uint_width_def)
  moreover have "\<not> exception_type 0x40" "\<not> counter_type 0x40" by (simp_all add: exception_type_def counter_type_def)
  ultimately show ?case using Asn_Uint exception_not(2) [of ty] uint_coding [of ty v]
    by (cases "ty = 0x40") (simp_all add: reads_back_def asn_value.simps asn_get_uint_def make_enough)
next
  case (Asn_String ty str)
  have "\<not> exception_type 0x04" "\<not> counter_type 0x04" "string_type 0x04"
    by (simp_all add: exception_type_def counter_type_def string_type_def)
  then show ?case using Asn_String by (simp add: reads_back_def asn_value.simps asn_get_string_def make_enough)
next
  case (Asn_Oid v)
  then obtain a b "is" where v: "v = a # b # is" by (cases v; cases "tl v") auto
  have "\<not> exception_type 0x06" "\<not> counter_type 0x06" "\<not> string_type 0x06"
    by (simp_all add: exception_type_def counter_type_def string_type_def)
  then show ?case using Asn_Oid new_enough [of 0] first_byte [of a b]
    by (simp add: reads_back_def asn_value.simps asn_get_oid_def v get_ids_ber drop_Suc)
qed

lemma parse_coding:
  assumes "asn_ok b" "length (coding b) < 2 ^ 32" "enough (blocks b) m"
  shows "asn_parse (coding b @ rest) m = (Some (plain b, rest), drop (blocks b) m)"
proof -
  have l: "length (coded b) < 2 ^ 32" using assms(2) length_coded [of b] by linarith
  then have "asn_value (asn_type b) (coded b) m = (Some (plain b), drop (blocks b) m)"
    using asn_ok_reads_back [OF assms(1)] assms(3) by (simp add: reads_back_def)
  then show ?thesis using header_tlv [OF l] by (simp add: asn_parse_def)
qed

section \<open>Properties\<close>

text \<open>C25: For structures of any depth without opaque strings and without unsigned numbers from \<open>2 ^ 31\<close> on, made of the types of the agent,
  with lengths below 65536 and identifiers of at least two numbers, the first at most 2 and the second below 40, \<open>asn_encode\<close> never
  reads beyond the structure, gives the bytes of the basic encoding rules (a length of at most 127 in one byte, a
  longer one in as few bytes as it needs, integers in as few bytes as they need) when they fit into the buffer, and
  0 whenever they do not. (Opaque strings get the type of a plain one and the greatest unsigned numbers lack their leading zero:
  \<open>coding_departs\<close>.)\<close>

theorem asn_encode_is_ber:
  "asn_ok b \<Longrightarrow> ber_form b \<Longrightarrow> asn_encode b sz = Some (if length (ber b) \<le> sz then Some (ber b) else None)"
  using encode_coding [of b sz] by (simp only: coding_is_ber)

theorem asn_encode_is_ber_witness:
  "asn_encode (Asn_Seq 0x30 [Asn_Int (- 129), Asn_Oid [1, 3, 6, 311]]) 13
     = Some (Some [0x30, 10, 0x02, 2, 0xff, 0x7f, 0x06, 4, 43, 6, 0x82, 0x37])
   \<and> asn_encode (Asn_Seq 0x30 [Asn_Int (- 129), Asn_Oid [1, 3, 6, 311]]) 11 = Some None"
proof -
  have "asn_ok (Asn_Seq 0x30 [Asn_Int (- 129), Asn_Oid [1, 3, 6, 311]])"
    "ber_form (Asn_Seq 0x30 [Asn_Int (- 129), Asn_Oid [1, 3, 6, 311]])" by simp_all
  moreover have "ber (Asn_Seq 0x30 [Asn_Int (- 129), Asn_Oid [1, 3, 6, 311]])
    = [0x30, 10, 0x02, 2, 0xff, 0x7f, 0x06, 4, 43, 6, 0x82, 0x37]"
    by (simp add: tlv_def ber_length_def ber_int.simps ber_id_def septets.simps)
  ultimately show ?thesis
    using asn_encode_is_ber [of "Asn_Seq 0x30 [Asn_Int (- 129), Asn_Oid [1, 3, 6, 311]]" 13]
      asn_encode_is_ber [of "Asn_Seq 0x30 [Asn_Int (- 129), Asn_Oid [1, 3, 6, 311]]" 11] by (simp del: ber.simps)
qed

text \<open>C26: What \<open>asn_encode\<close> has written, \<open>asn_parse\<close> reads back, whatever follows in the input, as long as the pool has
  the blocks that the structure needs (it takes exactly these): every number, identifier and element is the same, and a
  string that was opaque has become a plain one.\<close>

theorem asn_parse_encode:
  assumes "asn_ok b" "asn_encode b sz = Some (Some bs)" "sz < 2 ^ 32" "blocks b \<le> length m" "None \<notin> set m"
  shows "asn_parse (bs @ rest) m = (Some (plain b, rest), drop (blocks b) m)"
proof -
  have "bs = coding b" "length (coding b) < 2 ^ 32" using encode_coding [OF assms(1), of sz] assms(2,3) by (simp_all split: if_splits)
  then show ?thesis using parse_coding [OF assms(1)] assms(4,5) by (simp add: enough_def)
qed

theorem asn_parse_encode_witness:
  "asn_parse ([0x30, 10, 0x02, 2, 0xff, 0x7f, 0x06, 4, 43, 6, 0x82, 0x37] @ [7]) (replicate 4 (Some (\<lambda>_. 0)))
     = (Some (Asn_Seq 0x30 [Asn_Int (- 129), Asn_Oid [1, 3, 6, 311]], [7]), [Some (\<lambda>_. 0)])"
proof -
  have ok: "asn_ok (Asn_Seq 0x30 [Asn_Int (- 129), Asn_Oid [1, 3, 6, 311]])" by simp
  have enc: "asn_encode (Asn_Seq 0x30 [Asn_Int (- 129), Asn_Oid [1, 3, 6, 311]]) 12
    = Some (Some [0x30, 10, 0x02, 2, 0xff, 0x7f, 0x06, 4, 43, 6, 0x82, 0x37])"
    by (simp add: asn_put_int_def asn_put_oid_def asn_put_id1_def put_id_loop.simps asn_put_header_def asn_put_length_def be_bytes_numeral)
  have "blocks (Asn_Seq 0x30 [Asn_Int (- 129), Asn_Oid [1, 3, 6, 311]]) = 3" by code_simp
  then show ?thesis using asn_parse_encode [OF ok enc, of "replicate 4 (Some (\<lambda>_. 0))" "[7]"] by simp
qed

end
