(* ===== verification/Snmp_Props.thy ===== *)
theory Snmp_Props
  imports Snmp Asn_Props "HOL-Library.List_Lexorder"
begin

text \<open>
  The agent of SNMP: the search finds the entry that a name belongs to, stepping from name to name goes up in the order of names,
  and what a request for variables returns.
\<close>

section \<open>The order of names\<close>

definition name_key :: "u16 list \<Rightarrow> u32 list" where
  "name_key name = map ucast name"

definition var_key :: "u32 \<Rightarrow> 'e snmp_var_t \<Rightarrow> u32 list" where
  "var_key ent v = map (var_number ent) (v_id v)"

lemma compare_id_order:
  "compare_id ent name bs =
     (if name_key name < map (var_number ent) bs then - 1 else if name_key name > map (var_number ent) bs then 1 else 0)"
  by (induction ent name bs rule: compare_id.induct) (auto simp: name_key_def)

lemma compare_id_zero: "compare_id ent name bs = 0 \<longleftrightarrow> name_key name = map (var_number ent) bs"
  by (auto simp: compare_id_order)

section \<open>The search\<close>

definition sorted_table :: "u32 \<Rightarrow> 'e snmp_var_t list \<Rightarrow> bool" where
  "sorted_table ent tab \<longleftrightarrow> sorted_wrt (<) (map (var_key ent) tab)"

lemma sorted_table_less:
  "sorted_table ent tab \<Longrightarrow> i < j \<Longrightarrow> j < length tab \<Longrightarrow> var_key ent (tab ! i) < var_key ent (tab ! j)"
  by (simp add: sorted_table_def sorted_wrt_iff_nth_less)

text \<open>The last entry that is not after the name.\<close>

definition last_entry :: "u32 \<Rightarrow> 'e snmp_var_t list \<Rightarrow> u16 list \<Rightarrow> (nat \<times> bool) option \<Rightarrow> bool" where
  "last_entry ent tab name r \<longleftrightarrow>
     (case r of
        None \<Rightarrow> \<forall>j < length tab. name_key name < var_key ent (tab ! j)
      | Some (i, exact) \<Rightarrow> i < length tab \<and> var_key ent (tab ! i) \<le> name_key name \<and> (exact \<longleftrightarrow> var_key ent (tab ! i) = name_key name)
          \<and> (\<forall>j. i < j \<and> j < length tab \<longrightarrow> name_key name < var_key ent (tab ! j)))"

lemma find_loop_last:
  assumes "sorted_table ent tab" "base + lim \<le> length tab" "0 < lim"
    "\<forall>j < base. var_key ent (tab ! j) < name_key name" "\<forall>j. base + lim \<le> j \<and> j < length tab \<longrightarrow> name_key name < var_key ent (tab ! j)"
  shows "\<exists>r. find_loop ent tab name base lim = Some r \<and> last_entry ent tab name r"
  using assms
proof (induction ent tab name base lim rule: find_loop.induct)
  case (1 ent tab name base lim)
  define vp where "vp = base + lim div 2"
  have vp: "vp < length tab" "vp < base + lim" using 1(4,5) by (auto simp: vp_def)
  let ?k = "var_key ent (tab ! vp)" and ?n = "name_key name"
  have g: "\<not> (vp \<ge> length tab \<or> lim = 0)" using vp(1) 1(5) by simp
  note step = find_loop.simps [of ent tab name base lim, folded vp_def]
  have up: "?k < var_key ent (tab ! j)" if "vp < j" "j < length tab" for j
    using sorted_table_less [OF 1(3) that] .
  have dn: "var_key ent (tab ! j) < ?k" if "j < vp" for j
    using sorted_table_less [OF 1(3) that vp(1)] .
  have c: "compare_id ent name (v_id (tab ! vp)) = (if ?n < ?k then - 1 else if ?n > ?k then 1 else 0)"
    by (simp add: compare_id_order var_key_def)
  consider (eq) "?n = ?k" | (gt) "?k < ?n" | (lt) "?n < ?k" by fastforce
  then show ?case
  proof cases
    case eq
    then have "find_loop ent tab name base lim = Some (Some (vp, True))" using step vp 1(5) c by simp
    then show ?thesis using eq vp up by (simp add: last_entry_def)
  next
    case gt
    then have c1: "compare_id ent name (v_id (tab ! vp)) = 1" using c by (metis order_less_not_sym)
    show ?thesis
    proof (cases "lim - (lim div 2 + 1) = 0")
      case True
      then have f: "find_loop ent tab name base lim = Some (Some (vp, False))" using step vp 1(5) c1 by simp
      have "vp + 1 = base + lim" using True 1(5) unfolding vp_def by linarith
      then have "\<forall>j. vp < j \<and> j < length tab \<longrightarrow> ?n < var_key ent (tab ! j)" using 1(7) by auto
      then show ?thesis using f gt vp(1) by (auto simp: last_entry_def)
    next
      case False
      then have f: "find_loop ent tab name base lim = find_loop ent tab name (vp + 1) (lim - (lim div 2 + 1))"
        using step vp 1(5) c1 by simp
      have e: "vp + 1 + (lim - (lim div 2 + 1)) = base + lim" using False unfolding vp_def by linarith
      have "\<forall>j < vp + 1. var_key ent (tab ! j) < ?n" using dn gt by (metis Suc_eq_plus1 less_Suc_eq order_less_trans)
      moreover have "\<exists>r. find_loop ent tab name (vp + 1) (lim - (lim div 2 + 1)) = Some r \<and> last_entry ent tab name r"
        if "\<forall>j < vp + 1. var_key ent (tab ! j) < ?n"
        using 1(1) [OF vp_def g refl _ c1 False 1(3)] that e 1(4,7) False c1 by simp
      ultimately show ?thesis unfolding f by blast
    qed
  next
    case lt
    then have c2: "compare_id ent name (v_id (tab ! vp)) = - 1" using c by simp
    show ?thesis
    proof (cases "lim = 1")
      case True
      then have b: "vp = base" by (simp add: vp_def)
      show ?thesis
      proof (cases "vp = 0")
        case z: True
        then have "find_loop ent tab name base lim = Some None" using step vp 1(5) c2 True by simp
        moreover have "?n < var_key ent (tab ! j)" if "j < length tab" for j
          using lt up [of j] that z by (cases "j = 0") auto
        ultimately show ?thesis by (simp add: last_entry_def)
      next
        case nz: False
        then have "find_loop ent tab name base lim = Some (Some (vp - 1, False))" using step vp 1(5) c2 True by simp
        moreover have "var_key ent (tab ! (vp - 1)) < ?n" using 1(6) b nz by simp
        moreover have "?n < var_key ent (tab ! j)" if "vp - 1 < j" "j < length tab" for j
        proof -
          have "vp \<le> j" using that(1) nz by simp
          then show ?thesis using lt up [of j] that(2) by (cases "j = vp") auto
        qed
        ultimately show ?thesis using vp(1) by (auto simp: last_entry_def)
      qed
    next
      case False
      then have f: "find_loop ent tab name base lim = find_loop ent tab name base (lim div 2)" using step vp 1(5) c2 by simp
      have "?n < var_key ent (tab ! j)" if "base + lim div 2 \<le> j" "j < length tab" for j
        using lt up [of j] that by (cases "j = vp") (auto simp: vp_def)
      then show ?thesis unfolding f using 1(2) [OF vp_def g refl] c2 False 1(3-6) by simp
    qed
  qed
qed

lemma find_var_last:
  "sorted_table ent tab \<Longrightarrow> tab \<noteq> [] \<Longrightarrow> \<exists>r. find_var ent tab name = Some r \<and> last_entry ent tab name r"
proof -
  assume "sorted_table ent tab" "tab \<noteq> []"
  moreover have "\<forall>j. 0 + length tab \<le> j \<and> j < length tab \<longrightarrow> name_key name < var_key ent (tab ! j)" by auto
  ultimately show ?thesis using find_loop_last [of ent tab 0 "length tab" name] unfolding find_var_def by fastforce
qed

section \<open>Stepping through the names\<close>

text \<open>What \<open>next\<close> relies on: the functions of a table keep the number of the enterprise, and the row that they step to has a
  greater name than the one they are given, whose numbers fit into a name.\<close>

definition good_args :: "u8 \<Rightarrow> u32 list \<Rightarrow> bool" where
  "good_args typ args \<longleftrightarrow> length args = length (zero_args typ 0) \<and> list_all (\<lambda>x. x < 65536) (name_args typ args)"

definition rows_grow :: "'e snmp_var_t \<Rightarrow> bool" where
  "rows_grow v \<longleftrightarrow>
     unat (v_nargs v) = args_width (v_type v)
     \<and> (\<forall>f flag args sn x args' sn'. v_next v = Some f \<longrightarrow> length args = length (zero_args (v_type v) 0)
          \<longrightarrow> f flag args sn = ((x, args'), sn')
          \<longrightarrow> sn_enterprise sn' = sn_enterprise sn
            \<and> (x \<noteq> None \<longrightarrow> good_args (v_type v) args' \<and> (flag \<longrightarrow> name_args (v_type v) args < name_args (v_type v) args')))
     \<and> (\<forall>g args sn x sn'. v_get v = Some g \<longrightarrow> g args sn = (x, sn') \<longrightarrow> sn_enterprise sn' = sn_enterprise sn)
     \<and> (v_next v = None \<and> v_type v = SNMP_TAB1 \<longrightarrow>
          (\<exists>g. v_get v = Some g \<and> (\<forall>i sn x sn'. g [i] sn = (Some x, sn') \<longrightarrow> i < 65536)))"

lemma zero_args_length: "length (zero_args typ i3) = length (zero_args typ 0)"
  by (simp add: zero_args_def next_args_def)

lemma next_args_length: "length (next_args typ oid k i3) = length (zero_args typ 0)"
  by (simp add: zero_args_def next_args_def)

lemma table_types:
  "SNMP_TAB1 \<le> t \<and> t \<le> SNMP_TAB111 \<longleftrightarrow>
     t = SNMP_TAB1 \<or> t = SNMP_TAB4 \<or> t = SNMP_TAB41 \<or> t = SNMP_TAB14 \<or> t = SNMP_TAB4141 \<or> t = SNMP_TAB111" for t :: u8
proof -
  have "1 \<le> unat t \<and> unat t \<le> 6 \<longleftrightarrow> unat t = 1 \<or> unat t = 2 \<or> unat t = 3 \<or> unat t = 4 \<or> unat t = 5 \<or> unat t = 6"
    by linarith
  then show ?thesis by (simp add: word_le_nat_alt word_unat_eq_iff)
qed

lemma length_long_bytes [simp]: "length (long_bytes a) = 4"
  by (simp add: long_bytes_def)

lemma name_args_length:
  assumes "length args = length (zero_args t 0)"
    "t = SNMP_TAB1 \<or> t = SNMP_TAB4 \<or> t = SNMP_TAB41 \<or> t = SNMP_TAB14 \<or> t = SNMP_TAB4141 \<or> t = SNMP_TAB111"
  shows "length (name_args t args) = args_width t"
  using assms(2,1)
proof (elim disjE)
  assume "t = SNMP_TAB1" "length args = length (zero_args t 0)"
  then show ?thesis by (cases args) (auto simp: zero_args_def next_args_def args_width_def)
next
  assume "t = SNMP_TAB4" "length args = length (zero_args t 0)"
  then show ?thesis by (cases args) (auto simp: zero_args_def next_args_def args_width_def)
next
  assume t: "t = SNMP_TAB41" "length args = length (zero_args t 0)"
  then obtain a b where "args = [a, b]" by (cases args; cases "tl args") (auto simp: zero_args_def next_args_def)
  then show ?thesis using t(1) by (simp add: args_width_def)
next
  assume t: "t = SNMP_TAB14" "length args = length (zero_args t 0)"
  then obtain a b where "args = [a, b]" by (cases args; cases "tl args") (auto simp: zero_args_def next_args_def)
  then show ?thesis using t(1) by (simp add: args_width_def)
next
  assume t: "t = SNMP_TAB4141" "length args = length (zero_args t 0)"
  then have "length args = 4" by (simp add: zero_args_def next_args_def)
  then obtain a b c d where "args = [a, b, c, d]" by (auto simp: length_Suc_conv numeral_eq_Suc)
  then show ?thesis using t(1) by (simp add: args_width_def)
next
  assume t: "t = SNMP_TAB111" "length args = length (zero_args t 0)"
  then have "length args = 3" by (simp add: zero_args_def next_args_def)
  then obtain a b c where "args = [a, b, c]" by (auto simp: length_Suc_conv numeral_eq_Suc)
  then show ?thesis using t(1) by (simp add: args_width_def)
qed

lemma next_value_grows:
  assumes "rows_grow v" "next_value v flag args sn = ((x, args'), sn')" "length args = length (zero_args (v_type v) 0)"
    and "flag \<longrightarrow> v_type v = SNMP_TAB1 \<longrightarrow> hd args < 65536"
  shows "sn_enterprise sn' = sn_enterprise sn"
    "x \<noteq> None \<Longrightarrow> list_all (\<lambda>x. x < 65536) (name_args (v_type v) args')
      \<and> (flag \<and> v_nargs v \<noteq> 0 \<longrightarrow> name_args (v_type v) args < name_args (v_type v) args') \<and> (v_nargs v \<noteq> 0 \<longrightarrow> length (name_args (v_type v) args') = args_width (v_type v))"
proof -
  have w: "v_nargs v \<noteq> 0 \<longleftrightarrow> SNMP_TAB1 \<le> v_type v \<and> v_type v \<le> SNMP_TAB111"
  proof -
    have "v_nargs v \<noteq> 0 \<longleftrightarrow> args_width (v_type v) \<noteq> 0" using assms(1) by (auto simp: rows_grow_def word_unat_eq_iff)
    then show ?thesis unfolding table_types by (auto simp: args_width_def)
  qed
  have e: "sn_enterprise sn' = sn_enterprise sn" if "v_get v = Some g" "g a sn = (y, sn')" for g a y
    using assms(1) that unfolding rows_grow_def by blast
  have ne: "length (name_args (v_type v) args') = args_width (v_type v)" if "v_nargs v \<noteq> 0" "good_args (v_type v) args'"
    using name_args_length that unfolding w table_types good_args_def by blast
  have "sn_enterprise sn' = sn_enterprise sn \<and> (x \<noteq> None \<longrightarrow> list_all (\<lambda>x. x < 65536) (name_args (v_type v) args')
      \<and> (flag \<and> v_nargs v \<noteq> 0 \<longrightarrow> name_args (v_type v) args < name_args (v_type v) args') \<and> (v_nargs v \<noteq> 0 \<longrightarrow> length (name_args (v_type v) args') = args_width (v_type v)))"
  proof (cases "SNMP_TAB1 \<le> v_type v \<and> v_type v \<le> SNMP_TAB111")
    case False
    then have "args' = []" using assms(2) by (auto simp: next_value_def Let_def split: option.splits prod.splits)
    moreover have "sn_enterprise sn' = sn_enterprise sn"
      using assms(2) False e by (auto simp: next_value_def Let_def split: option.splits prod.splits)
    ultimately show ?thesis using False w by auto
  next
    case True
    show ?thesis
    proof (cases "v_next v")
      case (Some f)
      then have f: "f flag args sn = ((x, args'), sn')" using assms(2) True by (simp add: next_value_def)
      then have "sn_enterprise sn' = sn_enterprise sn
            \<and> (x \<noteq> None \<longrightarrow> good_args (v_type v) args' \<and> (flag \<longrightarrow> name_args (v_type v) args < name_args (v_type v) args'))"
        using assms(1,3) Some unfolding rows_grow_def by blast
      then show ?thesis using ne by (auto simp: good_args_def)
    next
      case None
      show ?thesis
      proof (cases "v_type v = SNMP_TAB1")
        case False
        then show ?thesis using assms(2) True None by (auto simp: next_value_def Let_def)
      next
        case t: True
        then obtain g where g: "v_get v = Some g" "\<forall>i sn x sn'. g [i] sn = (Some x, sn') \<longrightarrow> i < 65536"
          using assms(1) None unfolding rows_grow_def by blast
        let ?i = "if flag then hd args + 1 else 0"
        have n: "g [?i] sn = (x, sn')" "args' = [?i]"
          using assms(2) True None t g(1) by (auto simp: next_value_def Let_def split: prod.splits)
        obtain a where a: "args = [a]" using assms(3) t by (cases args) (auto simp: zero_args_def next_args_def)
        have "a < a + 1" if "flag"
        proof -
          have "unat a < 65536" using assms(4) that t a by (simp add: word_less_nat_alt)
          then show ?thesis by (simp add: word_less_nat_alt unat_word_ariths)
        qed
        then show ?thesis using e [OF g(1) n(1)] g(2) n a t by (auto simp: args_width_def split: if_splits)
      qed
    qed
  qed
  then show "sn_enterprise sn' = sn_enterprise sn"
    "x \<noteq> None \<Longrightarrow> list_all (\<lambda>x. x < 65536) (name_args (v_type v) args')
      \<and> (flag \<and> v_nargs v \<noteq> 0 \<longrightarrow> name_args (v_type v) args < name_args (v_type v) args') \<and> (v_nargs v \<noteq> 0 \<longrightarrow> length (name_args (v_type v) args') = args_width (v_type v))"
    by blast+
qed

text \<open>The name that a value is returned under, and the order of it.\<close>

lemma next_loop_result:
  assumes "next_loop vs flag args i3 nm sn = ((err, n, Some x), sn')" "\<forall>v \<in> set vs. rows_grow v"
    "vs \<noteq> [] \<longrightarrow> length args = length (zero_args (v_type (hd vs)) 0)"
    "flag \<longrightarrow> vs \<noteq> [] \<longrightarrow> v_type (hd vs) = SNMP_TAB1 \<longrightarrow> hd args < 65536"
  shows "\<exists>j args'. j < length vs \<and> err = SNMP_NO_ERROR
    \<and> n = Some (Asn_Oid (map (\<lambda>x. if x = 255 then ucast (sn_enterprise sn) else ucast x) (v_id (vs ! j)) @ map ucast (name_args (v_type (vs ! j)) args')))
    \<and> list_all (\<lambda>x. x < 65536) (name_args (v_type (vs ! j)) args') \<and> (v_nargs (vs ! j) \<noteq> 0 \<longrightarrow> length (name_args (v_type (vs ! j)) args') = args_width (v_type (vs ! j)))
    \<and> (j = 0 \<and> flag \<and> v_nargs (vs ! 0) \<noteq> 0 \<longrightarrow> name_args (v_type (vs ! 0)) args < name_args (v_type (vs ! 0)) args')"
  using assms
proof (induction vs arbitrary: flag args i3 nm sn)
  case Nil
  then show ?case by simp
next
  case (Cons v vs)
  obtain val args1 sn1 where v: "next_value v flag args sn = ((val, args1), sn1)" by (metis surj_pair)
  have g: "sn_enterprise sn1 = sn_enterprise sn"
    "val \<noteq> None \<longrightarrow> list_all (\<lambda>x. x < 65536) (name_args (v_type v) args1)
      \<and> (flag \<and> v_nargs v \<noteq> 0 \<longrightarrow> name_args (v_type v) args < name_args (v_type v) args1) \<and> (v_nargs v \<noteq> 0 \<longrightarrow> length (name_args (v_type v) args1) = args_width (v_type v))"
    using next_value_grows [OF _ v] Cons.prems(2-4) by (auto simp del: not_None_eq)
  define j3 where "j3 = next_i3 v args1 i3"
  define rest where "rest = (case vs of [] \<Rightarrow> [] | w # _ \<Rightarrow> zero_args (v_type w) j3)"
  have rest: "vs \<noteq> [] \<longrightarrow> length rest = length (zero_args (v_type (hd vs)) 0)"
    by (cases vs) (simp_all add: rest_def zero_args_length [of _ j3])
  let ?P = "\<lambda>vs j args' flag args. j < length vs \<and> err = SNMP_NO_ERROR
    \<and> n = Some (Asn_Oid (map (\<lambda>x. if x = 255 then ucast (sn_enterprise sn) else ucast x) (v_id (vs ! j)) @ map ucast (name_args (v_type (vs ! j)) args')))
    \<and> list_all (\<lambda>x. x < 65536) (name_args (v_type (vs ! j)) args') \<and> (v_nargs (vs ! j) \<noteq> 0 \<longrightarrow> length (name_args (v_type (vs ! j)) args') = args_width (v_type (vs ! j)))
    \<and> (j = 0 \<and> flag \<and> v_nargs (vs ! 0) \<noteq> 0 \<longrightarrow> name_args (v_type (vs ! 0)) args < name_args (v_type (vs ! 0)) args')"
  have IH: "\<exists>j args'. ?P (v # vs) j args' flag args"
    if n: "next_loop vs False rest j3 nm' s = ((err, n, Some x), sn')" and s: "sn_enterprise s = sn_enterprise sn" for nm' s
  proof -
    have "\<exists>j args'. ?P vs j args' False rest" using Cons.IH [OF n, unfolded s] Cons.prems(2) rest by simp
    then obtain j args' where "?P vs j args' False rest" by blast
    then have "?P (v # vs) (Suc j) args' flag args" by simp
    then show ?thesis by blast
  qed
  show ?case
  proof (cases val)
    case None
    then show ?thesis using IH [of nm sn1] Cons.prems(1) g(1) v by (simp add: j3_def [symmetric] rest_def [symmetric])
  next
    case (Some y)
    obtain name m where nm: "asn_make_oidn (sn_enterprise sn1) (v_id v) (name_args (v_type v) args1) (sn_pool sn1) = (name, m)" by fastforce
    show ?thesis
    proof (cases name)
      case None
      then show ?thesis using IH [of None "sn1\<lparr>sn_pool := m\<rparr>"] Cons.prems(1) g(1) v nm Some
        by (simp add: j3_def [symmetric] rest_def [symmetric])
    next
      case o: (Some w)
      have "w = Asn_Oid (map (\<lambda>x. if x = 255 then ucast (sn_enterprise sn) else ucast x) (v_id v) @ map ucast (name_args (v_type v) args1))"
        using nm o g(1) by (auto simp: asn_make_oidn_def asn_make_def split: prod.splits if_splits)
      moreover have "err = SNMP_NO_ERROR" "n = Some w" using Cons.prems(1) v Some nm o by simp_all
      ultimately have "?P (v # vs) 0 args1 flag args" using g(2) Some by simp
      then show ?thesis by blast
    qed
  qed
qed

text \<open>The numbers of a name behind those of the entry, which have to be bytes where they make up a word.\<close>

definition byte_places :: "u8 \<Rightarrow> nat list" where
  "byte_places typ =
     (if typ = SNMP_TAB4 \<or> typ = SNMP_TAB41 then [0, 1, 2, 3] else if typ = SNMP_TAB14 then [1, 2, 3, 4]
      else if typ = SNMP_TAB4141 then [0, 1, 2, 3, 5, 6, 7, 8] else [])"

definition bytes_fit :: "u8 \<Rightarrow> u16 list \<Rightarrow> nat \<Rightarrow> bool" where
  "bytes_fit typ name k \<longleftrightarrow> (\<forall>p \<in> set (byte_places typ). k + p < length name \<longrightarrow> name ! (k + p) < 256)"

lemma be_bytes_4: "be_bytes 4 v = [ucast (drop_bit 24 v), ucast (drop_bit 16 v), ucast (drop_bit 8 v), ucast v]"
  by (simp add: be_bytes_numeral drop_bit_drop_bit)

lemma long_bytes_or:
  "long_bytes (push_bit 24 (ucast (a :: u8)) OR push_bit 16 (ucast (b :: u8)) OR push_bit 8 (ucast (c :: u8)) OR ucast (d :: u8))
     = [ucast a, ucast b, ucast c, ucast d]"
proof -
  let ?w = "push_bit 24 (ucast a) OR push_bit 16 (ucast b) OR push_bit 8 (ucast c) OR ucast d :: u32"
  have "ucast (drop_bit 24 ?w) = a" "ucast (drop_bit 16 ?w) = b" "ucast (drop_bit 8 ?w) = c" "ucast ?w = d"
    by (rule bit_word_eqI; auto simp: bit_simps dest: bit_imp_le_length)+
  then show ?thesis by (simp only: long_bytes_def be_bytes_4 list.map)
qed

definition byte_at :: "u16 list \<Rightarrow> nat \<Rightarrow> u8" where
  "byte_at name k = (if k < length name then ucast (name ! k) else 0)"

lemma arg_at_byte:
  assumes "k < length name \<longrightarrow> name ! k < 256"
  shows "arg_at name k = ucast (byte_at name k)"
proof (cases "k < length name")
  case True
  then have "unat (name ! k) < 256" using assms by (simp add: word_less_nat_alt)
  then have "(ucast (ucast (name ! k) :: u8) :: u32) = ucast (name ! k)"
    by (simp add: word_unat_eq_iff unsigned_ucast_eq unsigned_take_bit_eq take_bit_nat_eq_self)
  then show ?thesis using True by (simp add: arg_at_def byte_at_def)
qed (simp add: arg_at_def byte_at_def)

lemma load_req_idx_bytes:
  assumes "\<forall>p \<in> {0, 1, 2, 3}. k + p < length name \<longrightarrow> name ! (k + p) < 256"
  shows "long_bytes (load_req_idx name k) = [arg_at name k, arg_at name (k + 1), arg_at name (k + 2), arg_at name (k + 3)]"
proof -
  have a: "arg_at name k = ucast (byte_at name k)" "arg_at name (k + 1) = ucast (byte_at name (k + 1))"
    "arg_at name (k + 2) = ucast (byte_at name (k + 2))" "arg_at name (k + 3) = ucast (byte_at name (k + 3))"
    using assms by (intro arg_at_byte; simp)+
  have d: "(if k + 3 < length name then ucast (ucast (name ! (k + 3)) :: u8) else 0 :: u32) = ucast (byte_at name (k + 3))"
    by (simp add: byte_at_def)
  show ?thesis unfolding load_req_idx_def a d by (rule long_bytes_or)
qed

text \<open>Where a name goes on, the indices that are read from it are those numbers, with what is missing filled in.\<close>

lemma name_args_of_name:
  assumes "bytes_fit t name k"
    "t = SNMP_TAB1 \<or> t = SNMP_TAB4 \<or> t = SNMP_TAB41 \<or> t = SNMP_TAB14 \<or> t = SNMP_TAB4141 \<or> t = SNMP_TAB111"
  shows "length (name_args t (next_args t name k junk)) = args_width t
    \<and> (\<forall>p < args_width t. k + p < length name \<longrightarrow> name_args t (next_args t name k junk) ! p = ucast (name ! (k + p)))"
proof -
  have a: "arg_at name (k + p) = ucast (name ! (k + p))" if "k + p < length name" for p using that by (simp add: arg_at_def)
  have l: "long_bytes (load_req_idx name (k + q)) = [arg_at name (k + q), arg_at name (k + q + 1), arg_at name (k + q + 2), arg_at name (k + q + 3)]"
    if "{q, q + 1, q + 2, q + 3} \<subseteq> set (byte_places t)" for q
    using assms(1) that unfolding bytes_fit_def by (intro load_req_idx_bytes) (auto simp: add.assoc)
  have l0: "long_bytes (load_req_idx name k) = [arg_at name k, arg_at name (k + 1), arg_at name (k + 2), arg_at name (k + 3)]"
    if "{0, 1, 2, 3} \<subseteq> set (byte_places t)"
    using l [of 0] that by (simp add: eval_nat_numeral)
  consider "t = SNMP_TAB1" | "t = SNMP_TAB4" | "t = SNMP_TAB41" | "t = SNMP_TAB14" | "t = SNMP_TAB4141" | "t = SNMP_TAB111"
    using assms(2) by blast
  then show ?thesis
  proof cases
    case 1
    then show ?thesis using a [of 0] by (simp add: next_args_def args_width_def)
  next
    case 2
    then have "name_args t (next_args t name k junk) = [arg_at name k, arg_at name (k + 1), arg_at name (k + 2), arg_at name (k + 3)]"
      using l0 by (simp add: next_args_def byte_places_def)
    then show ?thesis using a [of 0] a [of 1] a [of 2] a [of 3] 2 by (auto simp: args_width_def less_Suc_eq numeral_eq_Suc)
  next
    case 3
    then have "name_args t (next_args t name k junk) = [arg_at name k, arg_at name (k + 1), arg_at name (k + 2), arg_at name (k + 3), arg_at name (k + 4)]"
      using l0 by (simp add: next_args_def byte_places_def)
    then show ?thesis using a [of 0] a [of 1] a [of 2] a [of 3] a [of 4] 3 by (auto simp: args_width_def less_Suc_eq numeral_eq_Suc)
  next
    case 4
    have e: "k + 1 + 1 = k + 2" "k + 1 + 2 = k + 3" "k + 1 + 3 = k + 4" by simp_all
    have "{1, 1 + 1, 1 + 2, 1 + 3} \<subseteq> set (byte_places t)" using 4 by (simp add: byte_places_def)
    note l1 = l [OF this, unfolded e]
    have n: "name_args t (next_args t name k junk) = [arg_at name k, arg_at name (k + 1), arg_at name (k + 2), arg_at name (k + 3), arg_at name (k + 4)]"
      using l1 4 by (simp add: next_args_def)
    have w: "args_width t = 5" using 4 by (simp add: args_width_def)
    show ?thesis unfolding n w using a [of 0] a [of 1] a [of 2] a [of 3] a [of 4] by (auto simp: less_Suc_eq numeral_eq_Suc)
  next
    case 5
    have e: "k + 5 + 1 = k + 6" "k + 5 + 2 = k + 7" "k + 5 + 3 = k + 8" by simp_all
    have "{5, 5 + 1, 5 + 2, 5 + 3} \<subseteq> set (byte_places t)" using 5 by (simp add: byte_places_def)
    note l5 = l [OF this, unfolded e]
    have n: "name_args t (next_args t name k junk) = [arg_at name k, arg_at name (k + 1), arg_at name (k + 2), arg_at name (k + 3), arg_at name (k + 4),
        arg_at name (k + 5), arg_at name (k + 6), arg_at name (k + 7), arg_at name (k + 8), arg_at name (k + 9)]"
      using l0 l5 5 by (simp add: next_args_def byte_places_def)
    have w: "args_width t = 10" using 5 by (simp add: args_width_def)
    show ?thesis unfolding n w using a [of 0] a [of 1] a [of 2] a [of 3] a [of 4] a [of 5] a [of 6] a [of 7] a [of 8] a [of 9]
      by (auto simp: less_Suc_eq numeral_eq_Suc)
  next
    case 6
    then have n: "name_args t (next_args t name k junk) = [arg_at name k, arg_at name (k + 1), if k + 2 < length name then ucast (name ! (k + 2)) else junk]"
      by (simp add: next_args_def)
    have w: "args_width t = 3" using 6 by (simp add: args_width_def)
    show ?thesis unfolding n w using a [of 0] a [of 1] by (auto simp: less_Suc_eq numeral_eq_Suc)
  qed
qed

lemma list_less_append: "ys \<noteq> [] \<Longrightarrow> xs < xs @ ys" for xs :: "'a :: linorder list"
proof (induction xs)
  case Nil
  then show ?case by (cases ys) simp_all
qed simp

lemma list_le_append: "xs \<le> xs @ ys" for xs :: "'a :: linorder list"
  by (cases "ys = []") (simp_all add: list_less_append order.strict_implies_order)

lemma append_less [simp]: "zs @ xs < zs @ ys \<longleftrightarrow> xs < ys" for xs :: "'a :: linorder list"
  by (induction zs) simp_all

text \<open>A list whose numbers, as far as it goes, are those of a smaller list is smaller itself.\<close>

lemma prefix_less:
  fixes as bs cs :: "'a :: linorder list"
  assumes "bs < cs" "length bs = length cs" "\<forall>p < length bs. p < length as \<longrightarrow> bs ! p = as ! p"
  shows "as < cs"
  using assms
proof (induction bs cs arbitrary: as rule: list_induct2')
  case (4 b bs c cs)
  show ?case
  proof (cases as)
    case (Cons a as')
    have "b = a" using 4(4) Cons by fastforce
    moreover have "\<forall>p < length bs. p < length as' \<longrightarrow> bs ! p = as' ! p"
    proof (intro allI impI)
      fix p assume "p < length bs" "p < length as'"
      then show "bs ! p = as' ! p" using 4(4) [rule_format, of "Suc p"] Cons by simp
    qed
    ultimately show ?thesis using 4 Cons by auto
  qed simp
qed simp_all

lemma name_key_result:
  assumes "unat ent < 65536" "list_all (\<lambda>x. x < 65536) args"
  shows "name_key (map (\<lambda>x. if x = 255 then ucast ent else ucast x) bs @ map ucast args) = map (var_number ent) bs @ args"
proof -
  have u: "ucast (ucast x :: u16) = x" if "unat x < 65536" for x :: u32
    using that by (simp add: word_unat_eq_iff unsigned_ucast_eq unsigned_take_bit_eq take_bit_nat_eq_self)
  have "(ucast (ucast (b :: u8) :: u16) :: u32) = ucast b" for b
    using unsigned_less [of b, where ?'a = nat]
    by (simp add: word_unat_eq_iff unsigned_ucast_eq unsigned_take_bit_eq take_bit_nat_eq_self)
  then show ?thesis using u [OF assms(1)] u assms(2)
    by (auto simp: name_key_def var_number_def list_all_iff word_less_nat_alt intro!: map_idI)
qed

lemma next_grows:
  assumes tab: "sorted_table ent tab" "tab \<noteq> []" "\<forall>v \<in> set tab. rows_grow v" and ent: "sn_enterprise sn = ent" "unat ent < 65536"
    and fit: "\<forall>v \<in> set tab. bytes_fit (v_type v) name (length (v_id v))"
  shows "\<exists>err n val sn'. snmp_next junk tab name sn = Some ((err, n, val), sn')
    \<and> (val \<noteq> None \<longrightarrow> (\<exists>m. err = SNMP_NO_ERROR \<and> n = Some (Asn_Oid m) \<and> name_key name < name_key m))"
proof -
  obtain r where r: "find_var ent tab name = Some r" "last_entry ent tab name r" using find_var_last [OF tab(1,2)] by blast
  have "next_start ent tab name \<noteq> None" using r(1) by (auto simp: next_start_def Let_def split: option.splits)
  then obtain i flag where start: "next_start ent tab name = Some (i, flag)" by (metis not_None_eq surj_pair)
  define args where "args = (case drop i tab of [] \<Rightarrow> []
    | v # _ \<Rightarrow> if flag then next_args (v_type v) name (length (v_id v)) junk else zero_args (v_type v) junk)"
  obtain err n val sn' where nl: "next_loop (drop i tab) flag args junk (Some (Asn_Oid name)) sn = ((err, n, val), sn')"
    by (metis surj_pair)
  then have step: "snmp_next junk tab name sn = Some ((err, n, val), sn')" by (simp add: snmp_next_def ent(1) start args_def)
  have "\<exists>m. err = SNMP_NO_ERROR \<and> n = Some (Asn_Oid m) \<and> name_key name < name_key m" if v: "val = Some x" for x
  proof -
    have al: "drop i tab \<noteq> [] \<longrightarrow> length args = length (zero_args (v_type (hd (drop i tab))) 0)"
      by (cases "drop i tab") (simp_all add: args_def next_args_length zero_args_length [of _ junk])
    have a1: "flag \<longrightarrow> drop i tab \<noteq> [] \<longrightarrow> v_type (hd (drop i tab)) = SNMP_TAB1 \<longrightarrow> hd args < 65536"
    proof -
      have "arg_at name k < 65536" for k
        using unsigned_less [of "name ! k", where ?'a = nat] by (simp add: arg_at_def word_less_nat_alt unsigned_ucast_eq take_bit_nat_eq_self)
      then show ?thesis by (cases "drop i tab") (simp_all add: args_def next_args_def)
    qed
    have gr: "\<forall>v \<in> set (drop i tab). rows_grow v" using tab(3) in_set_dropD by fast
    note res = next_loop_result [OF nl [unfolded v] gr al a1]
    obtain j args' where j: "j < length (drop i tab)" "err = SNMP_NO_ERROR"
      and n: "n = Some (Asn_Oid (map (\<lambda>x. if x = 255 then ucast ent else ucast x) (v_id (drop i tab ! j)) @ map ucast (name_args (v_type (drop i tab ! j)) args')))"
      and small: "list_all (\<lambda>x. x < 65536) (name_args (v_type (drop i tab ! j)) args')"
      and len: "v_nargs (drop i tab ! j) \<noteq> 0 \<longrightarrow> length (name_args (v_type (drop i tab ! j)) args') = args_width (v_type (drop i tab ! j))"
      and less: "j = 0 \<and> flag \<and> v_nargs (drop i tab ! 0) \<noteq> 0 \<longrightarrow> name_args (v_type (drop i tab ! 0)) args < name_args (v_type (drop i tab ! 0)) args'"
      using res unfolding ent(1) by blast
    let ?v = "tab ! (i + j)"
    have ij: "i + j < length tab" "drop i tab ! j = ?v" using j(1) by (simp_all add: nth_drop)
    let ?m = "map (\<lambda>x. if x = 255 then ucast ent else ucast x) (v_id ?v) @ map ucast (name_args (v_type ?v) args')"
    have m: "name_key ?m = var_key ent ?v @ name_args (v_type ?v) args'"
      using name_key_result [OF ent(2)] small unfolding ij(2) var_key_def by blast
    have "name_key name < name_key ?m"
    proof (cases "name_key name < var_key ent ?v")
      case True
      then show ?thesis unfolding m using list_le_append order_less_le_trans by blast
    next
      case False
      obtain a e where re: "r = Some (a, e)" using r(2) False ij(1) by (cases r) (auto simp: last_entry_def)
      have ia: "i = a \<or> i = a + 1" using start r(1) re by (auto simp: next_start_def Let_def split: if_splits)
      have "\<not> a < i + j" using r(2) re False ij(1) by (auto simp: last_entry_def)
      then have j0: "j = 0" "a = i" using ia by auto
      have ri: "v_nargs ?v \<noteq> 0"
        "compare_id ent (take (min (length (v_id ?v)) (length name)) name) (take (min (length (v_id ?v)) (length name)) (v_id ?v)) = 0"
        "flag \<longleftrightarrow> length (v_id ?v) < length name \<and> compare_id ent (take (length (v_id ?v)) name) (v_id ?v) = 0"
        using start r(1) re j0 by (auto simp: next_start_def Let_def split: if_splits)
      have le: "var_key ent ?v \<le> name_key name" using r(2) re j0 by (simp add: last_entry_def)
      have ty: "SNMP_TAB1 \<le> v_type ?v \<and> v_type ?v \<le> SNMP_TAB111"
      proof -
        have "unat (v_nargs ?v) = args_width (v_type ?v)" using tab(3) ij(1) by (simp add: rows_grow_def)
        then have "args_width (v_type ?v) \<noteq> 0" using ri(1) by (auto simp: word_unat_eq_iff)
        then show ?thesis unfolding table_types by (auto simp: args_width_def split: if_splits)
      qed
      have w: "length (name_args (v_type ?v) args') = args_width (v_type ?v)" using len ri(1) unfolding ij(2) by blast
      show ?thesis
      proof (cases flag)
        case True
        let ?k = "length (v_id ?v)"
        have "name_key (take ?k name) = var_key ent ?v" using ri(3) True by (simp add: compare_id_zero var_key_def)
        then have nm: "name_key name = var_key ent ?v @ name_key (drop ?k name)"
          by (metis append_take_drop_id map_append name_key_def)
        have "drop i tab = ?v # drop (Suc i) tab" using ij(1) j0 by (simp add: Cons_nth_drop_Suc)
        then have ar: "args = next_args (v_type ?v) name ?k junk" using True by (simp add: args_def)
        have "bytes_fit (v_type ?v) name ?k" using fit ij(1) by simp
        note na = name_args_of_name [OF this ty [unfolded table_types], of junk, folded ar]
        have "name_args (v_type ?v) args < name_args (v_type ?v) args'" using less True ri(1) j0 ij(2) by simp
        then have "name_key (drop ?k name) < name_args (v_type ?v) args'"
          by (rule prefix_less) (use na w in \<open>auto simp: name_key_def\<close>)
        then show ?thesis unfolding m nm by simp
      next
        case False
        have "\<not> length (v_id ?v) < length name"
        proof
          assume "length (v_id ?v) < length name"
          then show False using ri(2,3) False by (simp add: min_def split: if_splits)
        qed
        then have "name_key name = take (length name) (var_key ent ?v)"
          using ri(2) by (simp add: compare_id_zero var_key_def take_map min_def split: if_splits)
        then have "name_key name \<le> var_key ent ?v" by (metis append_take_drop_id list_le_append)
        then have "name_key name = var_key ent ?v" using le by simp
        moreover have "name_args (v_type ?v) args' \<noteq> []" using w ty [unfolded table_types] by (auto simp: args_width_def)
        ultimately show ?thesis unfolding m by (simp add: list_less_append)
      qed
    qed
    then show ?thesis using j(2) n unfolding ij(2) by blast
  qed
  then show ?thesis using step by blast
qed

section \<open>A request\<close>

text \<open>The name is that of a variable, for which the agent returns this value and takes so many blocks.\<close>

definition reads :: "'e snmp_var_t list \<Rightarrow> u32 \<Rightarrow> u16 list \<Rightarrow> asn_t \<Rightarrow> nat \<Rightarrow> bool" where
  "reads tab ent name x c \<longleftrightarrow>
     (\<exists>i < length tab. var_key ent (tab ! i) = name_key name \<and> v_nargs (tab ! i) = 0
        \<and> (\<exists>g. v_get (tab ! i) = Some g \<and> (\<forall>sn. sn_enterprise sn = ent \<longrightarrow> enough c (sn_pool sn)
              \<longrightarrow> g [] sn = (Some x, sn\<lparr>sn_pool := drop c (sn_pool sn)\<rparr>))))"

text \<open>No entry has as many numbers and indices as the name, so that no value is there.\<close>

definition unknown :: "'e snmp_var_t list \<Rightarrow> u16 list \<Rightarrow> bool" where
  "unknown tab name \<longleftrightarrow> (\<forall>v \<in> set tab. v_get v \<noteq> None \<and> length (v_id v) + unat (v_nargs v) \<noteq> length name)"

lemma get_reads:
  assumes "sorted_table ent tab" "reads tab ent name x c" "sn_enterprise sn = ent" "enough c (sn_pool sn)"
  shows "get_set tab name w False sn = Some ((SNMP_NO_ERROR, Some x), sn\<lparr>sn_pool := drop c (sn_pool sn)\<rparr>)"
proof -
  obtain i g where i: "i < length tab" "var_key ent (tab ! i) = name_key name" "v_nargs (tab ! i) = 0" "v_get (tab ! i) = Some g"
    "g [] sn = (Some x, sn\<lparr>sn_pool := drop c (sn_pool sn)\<rparr>)"
    using assms(2-4) unfolding reads_def by blast
  then have "tab \<noteq> []" by auto
  then obtain r where r: "find_var ent tab name = Some r" "last_entry ent tab name r" using find_var_last [OF assms(1)] by blast
  have "r = Some (i, True)"
  proof (cases r)
    case None
    then show ?thesis using r(2) i(1,2) by (auto simp: last_entry_def)
  next
    case (Some p)
    obtain a e where p: "p = (a, e)" by (metis surj_pair)
    have a: "a < length tab" "var_key ent (tab ! a) \<le> name_key name" "e \<longleftrightarrow> var_key ent (tab ! a) = name_key name"
      "\<not> a < i" using r(2) i(1,2) Some p by (auto simp: last_entry_def)
    have "\<not> i < a" using sorted_table_less [OF assms(1) _ a(1), of i] a(2) i(2) by auto
    then show ?thesis using Some p a i(2) by simp
  qed
  then show ?thesis using r(1) i by (simp add: get_set_def Let_def assms(3))
qed

lemma get_unknown:
  assumes "sorted_table (sn_enterprise sn) tab" "tab \<noteq> []" "unknown tab name"
  shows "get_set tab name w False sn = Some ((SNMP_NO_SUCH_NAME, None), sn)"
proof -
  obtain r where r: "find_var (sn_enterprise sn) tab name = Some r" "last_entry (sn_enterprise sn) tab name r"
    using find_var_last [OF assms(1,2)] by blast
  show ?thesis
  proof (cases r)
    case None
    then show ?thesis using r(1) by (simp add: get_set_def)
  next
    case (Some p)
    obtain a e where p: "p = (a, e)" by (metis surj_pair)
    have a: "a < length tab" "e \<longleftrightarrow> var_key (sn_enterprise sn) (tab ! a) = name_key name" using r(2) Some p by (auto simp: last_entry_def)
    then have u: "v_get (tab ! a) \<noteq> None" "length (v_id (tab ! a)) + unat (v_nargs (tab ! a)) \<noteq> length name"
      using assms(3) unfolding unknown_def by (meson nth_mem)+
    have "v_nargs (tab ! a) \<noteq> 0" if e
    proof
      assume z: "v_nargs (tab ! a) = 0"
      have "length (var_key (sn_enterprise sn) (tab ! a)) = length (name_key name)" using a(2) that by simp
      then show False using u(2) z by (simp add: var_key_def name_key_def)
    qed
    then show ?thesis using r(1) Some p u by (auto simp: get_set_def Let_def)
  qed
qed

type_synonym reading = "u16 list \<times> asn_t \<times> asn_t \<times> nat"

definition asked :: "reading \<Rightarrow> asn_t" where
  "asked = (\<lambda>(n, w, x, c). Asn_Seq ASN_SEQUENCE [Asn_Oid n, w])"

definition answered :: "reading \<Rightarrow> asn_t" where
  "answered = (\<lambda>(n, w, x, c). Asn_Seq ASN_SEQUENCE [Asn_Oid n, x])"

definition reading_cost :: "reading \<Rightarrow> nat" where
  "reading_cost = (\<lambda>(n, w, x, c). c + 2)"

definition all_read :: "'e snmp_var_t list \<Rightarrow> u32 \<Rightarrow> reading list \<Rightarrow> bool" where
  "all_read tab ent vars \<longleftrightarrow> (\<forall>(n, w, x, c) \<in> set vars. reads tab ent n x c)"

text \<open>The agent after so many readings.\<close>

definition after :: "nat \<Rightarrow> reading list \<Rightarrow> 'e snmp_t \<Rightarrow> 'e snmp_t" where
  "after k vars sn = sn\<lparr>sn_pool := drop k (sn_pool sn), sn_in_total_req_vars := sn_in_total_req_vars sn + of_nat (length vars)\<rparr>"

lemma add_pair_ok:
  assumes "enough 1 (sn_pool sn)" "length out < cap" "length out < 65535"
  shows "add_pair cap out (Some n) (Some x) sn = Some (Some (out @ [Asn_Seq ASN_SEQUENCE [n, x]]), sn\<lparr>sn_pool := drop 1 (sn_pool sn)\<rparr>)"
  using make_enough [of "sn_pool sn"] assms by (simp add: add_pair_def asn_make_seq_def)

lemma one_reading:
  assumes "sorted_table (sn_enterprise sn) tab" "reads tab (sn_enterprise sn) n x c" "enough (c + 1) (sn_pool sn)"
  shows "one_var junk tab ASN_GET_REQUEST version n w sn
    = Some ((SNMP_NO_ERROR, Some (Asn_Oid n), Some x),
        sn\<lparr>sn_pool := drop (c + 1) (sn_pool sn), sn_in_total_req_vars := sn_in_total_req_vars sn + 1\<rparr>)"
proof -
  have e: "enough c (sn_pool sn)" "enough 1 (drop c (sn_pool sn))" using enough_drop [OF assms(3)] by simp_all
  show ?thesis
    using get_reads [OF assms(1,2) refl e(1), of w] make_enough [of "drop c (sn_pool sn)"] e(2)
    by (simp add: one_var_def count_req_def copy_in_def add.commute)
qed

lemma seq_readable [simp]: "pair_readable (Asn_Seq t es)"
  by (simp add: pair_readable_def sizeof_sequence_def)

lemma first_loop_reads:
  assumes "sorted_table (sn_enterprise sn) tab" "all_read tab (sn_enterprise sn) vars"
    "enough (sum_list (map reading_cost vars)) (sn_pool sn)" "length out + length vars \<le> cap" "length out + length vars \<le> 65535"
  shows "first_loop junk tab ASN_GET_REQUEST version cap i (map asked vars @ tail) out sn
    = first_loop junk tab ASN_GET_REQUEST version cap (i + length vars) tail (out @ map answered vars)
        (after (sum_list (map reading_cost vars)) vars sn)"
  using assms
proof (induction vars arbitrary: i out sn)
  case Nil
  then show ?case by (simp add: after_def)
next
  case (Cons v vars)
  obtain n w x c where v: "v = (n, w, x, c)" by (metis surj_pair)
  have r: "reads tab (sn_enterprise sn) n x c" using Cons.prems(2) v by (simp add: all_read_def)
  have "sum_list (map reading_cost (v # vars)) = (c + 1) + (1 + sum_list (map reading_cost vars))" by (simp add: v reading_cost_def)
  then have e: "enough (c + 1) (sn_pool sn)" "enough (1 + sum_list (map reading_cost vars)) (drop (c + 1) (sn_pool sn))"
    using enough_drop [of "c + 1" "1 + sum_list (map reading_cost vars)"] Cons.prems(3) by simp_all
  have e2: "enough 1 (drop (c + 1) (sn_pool sn))" "enough (sum_list (map reading_cost vars)) (drop (c + 2) (sn_pool sn))"
    using enough_drop [OF e(2)] by (simp_all add: add.commute)
  let ?s = "sn\<lparr>sn_pool := drop (c + 1) (sn_pool sn), sn_in_total_req_vars := sn_in_total_req_vars sn + 1\<rparr>"
  let ?s2 = "sn\<lparr>sn_pool := drop (c + 2) (sn_pool sn), sn_in_total_req_vars := sn_in_total_req_vars sn + 1\<rparr>"
  have a: "add_pair cap out (Some (Asn_Oid n)) (Some x) ?s = Some (Some (out @ [answered v]), ?s2)"
    using add_pair_ok [of ?s out cap "Asn_Oid n" x] e2(1) Cons.prems(4,5) by (simp add: v answered_def add.commute)
  have "first_loop junk tab ASN_GET_REQUEST version cap i (map asked (v # vars) @ tail) out sn
      = first_loop junk tab ASN_GET_REQUEST version cap (i + 1) (map asked vars @ tail) (out @ [answered v]) ?s2"
    using one_reading [OF Cons.prems(1) r e(1), of junk version w] a by (simp add: v asked_def)
  also have "\<dots> = first_loop junk tab ASN_GET_REQUEST version cap (i + 1 + length vars) tail ((out @ [answered v]) @ map answered vars)
      (after (sum_list (map reading_cost vars)) vars ?s2)"
    using Cons.prems e2(2) by (intro Cons.IH) (simp_all add: all_read_def)
  finally show ?case by (simp add: after_def v reading_cost_def add.commute add.left_commute)
qed

lemma make_outbind_ok:
  assumes "unat n < 2 ^ 30 - 1" "enough 1 (sn_pool sn)"
  shows "make_outbind n sn = Some (Some (unat n), sn\<lparr>sn_pool := drop 1 (sn_pool sn)\<rparr>)"
proof -
  have u: "unat (4 * n) = 4 * unat n" "unat (4 + 4 * n) = 4 + 4 * unat n"
    using assms(1) by (simp_all add: unat_word_ariths)
  then show ?thesis
    using new_enough [of 0 "sn_pool sn" "unat (4 + 4 * n)"] assms(2) by (simp add: make_outbind_def Let_def drop_Suc)
qed

lemma process_reads:
  assumes "sorted_table (sn_enterprise sn) tab" "all_read tab (sn_enterprise sn) vars"
    "enough (1 + sum_list (map reading_cost vars)) (sn_pool sn)" "length vars + length tail < 65536"
  shows "snmp_process junk tab ASN_GET_REQUEST version a b (map asked vars @ tail) sn
    = (case first_loop junk tab ASN_GET_REQUEST version (length vars + length tail) (length vars) tail (map answered vars)
          (after (1 + sum_list (map reading_cost vars)) vars sn) of
         None \<Rightarrow> None | Some (p, sn) \<Rightarrow> Some (p, sn))"
proof -
  let ?n = "length vars + length tail"
  have u: "unat (of_nat ?n :: u32) = ?n" using assms(4) by (simp only: unat_of_nat) (simp add: take_bit_nat_eq_self)
  have e: "enough 1 (sn_pool sn)" "enough (sum_list (map reading_cost vars)) (drop 1 (sn_pool sn))" using enough_drop [OF assms(3)] by blast+
  let ?s = "sn\<lparr>sn_pool := drop 1 (sn_pool sn)\<rparr>"
  have mo: "make_outbind (of_nat ?n) sn = Some (Some ?n, ?s)"
    using make_outbind_ok [of "of_nat ?n" sn] u assms(4) e(1) by simp
  have t: "take ?n (map asked vars @ tail) = map asked vars @ tail" by simp
  have fl: "first_loop junk tab ASN_GET_REQUEST version ?n 0 (map asked vars @ tail) [] ?s
      = first_loop junk tab ASN_GET_REQUEST version ?n (length vars) tail (map answered vars) (after (sum_list (map reading_cost vars)) vars ?s)"
    using first_loop_reads [of ?s tab vars "[]" ?n junk version 0 tail] assms(1,2,4) e(2) by simp
  have af: "after (sum_list (map reading_cost vars)) vars ?s = after (1 + sum_list (map reading_cost vars)) vars sn"
    by (simp add: after_def add.commute)
  have "length (map asked vars @ tail) = ?n" by simp
  then have "snmp_process junk tab ASN_GET_REQUEST version a b (map asked vars @ tail) sn
    = (case first_loop junk tab ASN_GET_REQUEST version ?n 0 (map asked vars @ tail) [] ?s of
         None \<Rightarrow> None | Some (p, sn) \<Rightarrow> Some (p, sn))"
    using mo t u unfolding snmp_process_def Let_def
    by (simp split: option.splits progress.splits del: of_nat_add)
  then show ?thesis unfolding fl af .
qed

lemma auth_same: "fst (snmp_auth c f sn) \<Longrightarrow> snd (snmp_auth c f sn) = sn"
  by (auto simp: snmp_auth_def Let_def)

lemma auth_cong:
  "fst (snmp_auth c f (sn\<lparr>sn_in_pkts := k, sn_auth_failure := af, sn_pool := m\<rparr>)) = fst (snmp_auth c f sn)"
  by (simp add: snmp_auth_def Let_def)

text \<open>A request that is parsed and admitted is processed.\<close>

lemma pdu_counted:
  "count_request t sn = Some s \<Longrightarrow>
    snmp_pdu junk tab outsz version community (Asn_Seq t [Asn_Int rid, Asn_Int a, Asn_Int b, Asn_Seq ASN_SEQUENCE pairs]) sn
      = (case snmp_process junk tab t version a b pairs s of
           None \<Rightarrow> None
         | Some (p, sn) \<Rightarrow> snmp_respond outsz (\<lambda>t. snmp_message version community t rid) (Asn_Seq ASN_SEQUENCE pairs) p sn)"
  by (simp add: snmp_pdu_def split: option.split)

lemma execute_parsed:
  assumes p: "asn_parse input (sn_pool sn) = (Some (Asn_Seq ASN_SEQUENCE [Asn_Int version, Asn_String ASN_STRING community, pdu], rest), m)"
    and v: "version = 0 \<or> version = 1" and t: "actual_type pdu \<noteq> ASN_SET_REQUEST" and auth: "fst (snmp_auth community False sn)"
  shows "snmp_execute junk tab input outsz sn
    = snmp_pdu junk tab outsz version community pdu
        (sn\<lparr>sn_in_pkts := sn_in_pkts sn + 1, sn_auth_failure := False, sn_pool := m\<rparr>)"
proof -
  let ?s1 = "sn\<lparr>sn_in_pkts := sn_in_pkts sn + 1, sn_auth_failure := False, sn_pool := m\<rparr>"
  have "fst (snmp_auth community False ?s1)" using auth by (simp only: auth_cong)
  then have a: "snmp_auth community False ?s1 = (True, ?s1)"
    using auth_same by (intro prod_eqI) (simp_all only: fst_conv snd_conv)
  have v': "\<not> (version \<noteq> 0 \<and> version \<noteq> 1)" using v by blast
  show ?thesis using t by (simp add: snmp_execute_def p a v')
qed

lemma execute_request:
  assumes req: "req = snmp_message version community t rid a b (Asn_Seq ASN_SEQUENCE pairs)"
    and ok: "asn_ok req" "plain req = req" "length (coding req) < 2 ^ 32" and v: "version = 0 \<or> version = 1" and t: "t \<noteq> ASN_SET_REQUEST"
    and auth: "fst (snmp_auth community False sn)" and m: "enough (blocks req) (sn_pool sn)"
    and c: "count_request t (sn\<lparr>sn_in_pkts := sn_in_pkts sn + 1, sn_auth_failure := False, sn_pool := drop (blocks req) (sn_pool sn)\<rparr>) = Some s"
  shows "snmp_execute junk tab (coding req @ rest) outsz sn
    = (case snmp_process junk tab t version a b pairs s of
         None \<Rightarrow> None
       | Some (p, sn) \<Rightarrow> snmp_respond outsz (\<lambda>t. snmp_message version community t rid) (Asn_Seq ASN_SEQUENCE pairs) p sn)"
proof -
  have p: "asn_parse (coding req @ rest) (sn_pool sn) = (Some (req, rest), drop (blocks req) (sn_pool sn))"
    using parse_coding [OF ok(1,3) m] ok(2) by simp
  show ?thesis
    using execute_parsed [of "coding req @ rest" sn version community _ rest, OF _ v _ auth] p t pdu_counted [OF c]
    by (simp add: req snmp_message_def del: coding.simps)
qed

lemma execute_get:
  assumes "req = snmp_message version community ASN_GET_REQUEST rid a b (Asn_Seq ASN_SEQUENCE pairs)"
    and "asn_ok req" "plain req = req" "length (coding req) < 2 ^ 32" "version = 0 \<or> version = 1"
    and "fst (snmp_auth community False sn)" "enough (blocks req) (sn_pool sn)"
  shows "snmp_execute junk tab (coding req @ rest) outsz sn
    = (case snmp_process junk tab ASN_GET_REQUEST version a b pairs
          (sn\<lparr>sn_in_pkts := sn_in_pkts sn + 1, sn_auth_failure := False, sn_pool := drop (blocks req) (sn_pool sn),
            sn_in_get_requests := sn_in_get_requests sn + 1\<rparr>) of
         None \<Rightarrow> None
       | Some (p, sn) \<Rightarrow> snmp_respond outsz (\<lambda>t. snmp_message version community t rid) (Asn_Seq ASN_SEQUENCE pairs) p sn)"
  using assms by (intro execute_request) (simp_all add: count_request_def del: coding.simps)

definition get_cost :: "asn_t \<Rightarrow> reading list \<Rightarrow> nat" where
  "get_cost req vars = blocks req + 1 + sum_list (map reading_cost vars)"

text \<open>The agent after it has received a request for these variables, and read them.\<close>

definition received :: "asn_t \<Rightarrow> reading list \<Rightarrow> 'e snmp_t \<Rightarrow> 'e snmp_t" where
  "received req vars sn = sn\<lparr>sn_in_pkts := sn_in_pkts sn + 1, sn_auth_failure := False, sn_pool := drop (get_cost req vars) (sn_pool sn),
     sn_in_get_requests := sn_in_get_requests sn + 1, sn_in_total_req_vars := sn_in_total_req_vars sn + of_nat (length vars)\<rparr>"

lemma execute_reads:
  assumes tab: "sorted_table (sn_enterprise sn) tab" "all_read tab (sn_enterprise sn) vars"
    and req: "req = snmp_message version community ASN_GET_REQUEST rid a b (Asn_Seq ASN_SEQUENCE (map asked vars @ tail))"
    and ok: "asn_ok req" "plain req = req" "length (coding req) < 2 ^ 32" and v: "version = 0 \<or> version = 1"
    and auth: "fst (snmp_auth community False sn)" and m: "enough (get_cost req vars) (sn_pool sn)"
  shows "snmp_execute junk tab (coding req @ rest) outsz sn
    = (case first_loop junk tab ASN_GET_REQUEST version (length vars + length tail) (length vars) tail (map answered vars) (received req vars sn) of
         None \<Rightarrow> None
       | Some (p, sn) \<Rightarrow> snmp_respond outsz (\<lambda>t. snmp_message version community t rid) (Asn_Seq ASN_SEQUENCE (map asked vars @ tail)) p sn)"
proof -
  let ?s = "sn\<lparr>sn_in_pkts := sn_in_pkts sn + 1, sn_auth_failure := False, sn_pool := drop (blocks req) (sn_pool sn),
            sn_in_get_requests := sn_in_get_requests sn + 1\<rparr>"
  have e: "enough (blocks req) (sn_pool sn)" "enough (1 + sum_list (map reading_cost vars)) (drop (blocks req) (sn_pool sn))"
    using enough_drop [of "blocks req" "1 + sum_list (map reading_cost vars)"] m by (simp_all add: get_cost_def)
  have n: "length vars + length tail < 65536" using ok(1) by (simp add: req snmp_message_def)
  have "snmp_process junk tab ASN_GET_REQUEST version a b (map asked vars @ tail) ?s
    = (case first_loop junk tab ASN_GET_REQUEST version (length vars + length tail) (length vars) tail (map answered vars)
          (after (1 + sum_list (map reading_cost vars)) vars ?s) of
         None \<Rightarrow> None | Some (p, sn) \<Rightarrow> Some (p, sn))"
    using tab e(2) n by (intro process_reads) simp_all
  moreover have "after (1 + sum_list (map reading_cost vars)) vars ?s = received req vars sn"
    by (simp add: after_def received_def get_cost_def add.commute add.left_commute)
  ultimately show ?thesis
    by (simp add: execute_get [OF req ok v auth e(1)] del: coding.simps split: option.split)
qed

lemma message_ok:
  "asn_ok (snmp_message version community ASN_GET_REQUEST rid a b vars) \<Longrightarrow> asn_ok (snmp_message version community ASN_GET_RESPONSE rid c d vars)"
  by (simp add: snmp_message_def)

text \<open>A request for names that are all read.\<close>

lemma get_answers:
  assumes "sorted_table (sn_enterprise sn) tab" "all_read tab (sn_enterprise sn) vars"
    and req: "req = snmp_message version community ASN_GET_REQUEST rid a b (Asn_Seq ASN_SEQUENCE (map asked vars))"
    and "asn_ok req" "plain req = req" "length (coding req) < 2 ^ 32" "version = 0 \<or> version = 1"
    and "fst (snmp_auth community False sn)" "enough (get_cost req vars) (sn_pool sn)"
    and resp: "resp = snmp_message version community ASN_GET_RESPONSE rid 0 0 (Asn_Seq ASN_SEQUENCE (map answered vars))"
    and fits: "asn_ok resp" "length (coding resp) \<le> outsz"
  shows "snmp_execute junk tab (coding req @ rest) outsz sn
    = Some (Some (coding resp), (received req vars sn)\<lparr>sn_out_get_responses := sn_out_get_responses sn + 1, sn_out_pkts := sn_out_pkts sn + 1\<rparr>)"
proof -
  have r: "asn_encode resp outsz = Some (Some (coding resp))" using encode_coding [OF fits(1)] fits(2) by simp
  have "req = snmp_message version community ASN_GET_REQUEST rid a b (Asn_Seq ASN_SEQUENCE (map asked vars @ []))" using req by simp
  note e = execute_reads [OF assms(1,2) this assms(4-9)]
  show ?thesis
    using r by (simp add: e snmp_respond_def Let_def received_def del: coding.simps flip: resp)
qed

lemma get_fails:
  assumes "sorted_table (sn_enterprise sn) tab" "all_read tab (sn_enterprise sn) vars"
    and req: "req = snmp_message version community ASN_GET_REQUEST rid a b (Asn_Seq ASN_SEQUENCE (map asked vars @ Asn_Seq ASN_SEQUENCE [Asn_Oid name, w] # others))"
    and "asn_ok req" "plain req = req" "length (coding req) < 2 ^ 32" "version = 0 \<or> version = 1"
    and "fst (snmp_auth community False sn)" "enough (get_cost req vars) (sn_pool sn)"
    and u: "tab \<noteq> []" "unknown tab name"
    and resp: "resp = snmp_message version community ASN_GET_RESPONSE rid SNMP_NO_SUCH_NAME (of_nat (length vars) + 1)
          (Asn_Seq ASN_SEQUENCE (map asked vars @ Asn_Seq ASN_SEQUENCE [Asn_Oid name, w] # others))"
    and fits: "length (coding resp) \<le> outsz"
  shows "snmp_execute junk tab (coding req @ rest) outsz sn
    = Some (Some (coding resp), (received req vars sn)\<lparr>sn_in_total_req_vars := sn_in_total_req_vars sn + of_nat (length vars) + 1,
        sn_out_no_such_names := sn_out_no_such_names sn + 1, sn_out_pkts := sn_out_pkts sn + 1\<rparr>)"
proof -
  have "asn_ok resp" using assms(4) unfolding req resp by (rule message_ok)
  then have r: "asn_encode resp outsz = Some (Some (coding resp))" using encode_coding fits by simp
  let ?s = "received req vars sn"
  have "get_set tab name w False ?s = Some ((SNMP_NO_SUCH_NAME, None), ?s)"
    using get_unknown [of ?s, OF _ u] assms(1) by (simp add: received_def)
  then have o: "one_var junk tab ASN_GET_REQUEST version name w ?s = Some ((SNMP_NO_SUCH_NAME, None, None), count_req ?s)"
    by (simp add: one_var_def)
  have f: "first_loop junk tab ASN_GET_REQUEST version c (length vars) (Asn_Seq ASN_SEQUENCE [Asn_Oid name, w] # others) out ?s
      = Some (Fatal SNMP_NO_SUCH_NAME (length vars), count_req ?s)" for c out
    by (simp add: o)
  have e: "snmp_execute junk tab (coding req @ rest) outsz sn = snmp_respond outsz (\<lambda>t. snmp_message version community t rid)
      (Asn_Seq ASN_SEQUENCE (map asked vars @ Asn_Seq ASN_SEQUENCE [Asn_Oid name, w] # others)) (Fatal SNMP_NO_SUCH_NAME (length vars)) (count_req ?s)"
    by (simp only: execute_reads [OF assms(1,2) req assms(4-9)] f option.case prod.case)
  show ?thesis
    using r by (simp add: e snmp_respond_def Let_def received_def count_error_def count_req_def del: coding.simps flip: resp)
qed

section \<open>A table of single variables\<close>

text \<open>A variable without indices, whose value is this and takes so many blocks.\<close>

definition gives :: "u32 \<Rightarrow> 'e snmp_var_t \<Rightarrow> asn_t \<Rightarrow> nat \<Rightarrow> bool" where
  "gives ent v x c \<longleftrightarrow> v_nargs v = 0 \<and> args_width (v_type v) = 0
     \<and> (\<exists>g. v_get v = Some g \<and> (\<forall>sn. sn_enterprise sn = ent \<longrightarrow> enough c (sn_pool sn)
              \<longrightarrow> g [] sn = (Some x, sn\<lparr>sn_pool := drop c (sn_pool sn)\<rparr>)))"

definition var_name :: "u32 \<Rightarrow> 'e snmp_var_t \<Rightarrow> u16 list" where
  "var_name ent v = map (\<lambda>x. if x = 255 then ucast ent else ucast x) (v_id v)"

lemma gives_next:
  assumes "gives (sn_enterprise sn) v x c" "enough (c + 1) (sn_pool sn)"
  shows "next_loop (v # vs) flag args i3 nm sn
    = ((SNMP_NO_ERROR, Some (Asn_Oid (var_name (sn_enterprise sn) v)), Some x), sn\<lparr>sn_pool := drop (c + 1) (sn_pool sn)\<rparr>)"
proof -
  have e: "enough c (sn_pool sn)" "enough 1 (drop c (sn_pool sn))" using enough_drop [OF assms(2)] by simp_all
  have t: "\<not> (SNMP_TAB1 \<le> v_type v \<and> v_type v \<le> SNMP_TAB111)"
    using assms(1) unfolding table_types gives_def by (auto simp: args_width_def)
  obtain g where g: "v_get v = Some g" "g [] sn = (Some x, sn\<lparr>sn_pool := drop c (sn_pool sn)\<rparr>)"
    using assms(1) e(1) unfolding gives_def by blast
  have "next_value v flag args sn = ((Some x, []), sn\<lparr>sn_pool := drop c (sn_pool sn)\<rparr>)"
    unfolding next_value_def Let_def if_not_P [OF t] by (simp add: g)
  then show ?thesis
    using make_enough [of "drop c (sn_pool sn)"] e(2) by (simp add: asn_make_oidn_def var_name_def Let_def add.commute)
qed

lemma filter_from:
  assumes "\<forall>j < k. \<not> P (xs ! j)" "\<forall>j. k \<le> j \<and> j < length xs \<longrightarrow> P (xs ! j)" "k \<le> length xs"
  shows "filter P xs = drop k xs"
proof -
  have "filter P (take k xs) = []" using assms(1) by (auto simp: filter_empty_conv in_set_conv_nth)
  moreover have "filter P (drop k xs) = drop k xs"
    using assms(2) by (auto simp: filter_id_conv in_set_conv_nth)
  ultimately show ?thesis by (metis append_Nil append_take_drop_id filter_append)
qed

text \<open>The variables after a name.\<close>

definition later :: "u32 \<Rightarrow> 'e snmp_var_t list \<Rightarrow> u16 list \<Rightarrow> 'e snmp_var_t list" where
  "later ent tab name = filter (\<lambda>v. name_key name < var_key ent v) tab"

lemma start_later:
  assumes "sorted_table ent tab" "tab \<noteq> []" "\<forall>v \<in> set tab. v_nargs v = 0"
  shows "\<exists>i. next_start ent tab name = Some (i, False) \<and> drop i tab = later ent tab name"
proof -
  obtain r where r: "find_var ent tab name = Some r" "last_entry ent tab name r" using find_var_last [OF assms(1,2)] by blast
  show ?thesis
  proof (cases r)
    case None
    then have "later ent tab name = tab" using r(2) by (auto simp: later_def last_entry_def filter_id_conv in_set_conv_nth)
    then show ?thesis using r(1) None by (simp add: next_start_def)
  next
    case (Some p)
    obtain a e where p: "p = (a, e)" by (metis surj_pair)
    have a: "a < length tab" "var_key ent (tab ! a) \<le> name_key name" "\<And>j. a < j \<Longrightarrow> j < length tab \<Longrightarrow> name_key name < var_key ent (tab ! j)"
      using r(2) Some p by (auto simp: last_entry_def)
    have "var_key ent (tab ! j) \<le> name_key name" if "j < Suc a" for j
      using sorted_table_less [OF assms(1) _ a(1), of j] a(2) that by (cases "j = a") auto
    then have "later ent tab name = drop (Suc a) tab"
      unfolding later_def using a(1,3) by (intro filter_from) (auto simp: not_less)
    then show ?thesis using r(1) Some p assms(3) a(1) by (simp add: next_start_def Let_def)
  qed
qed

lemma next_is_later:
  assumes "sorted_table (sn_enterprise sn) tab" "tab \<noteq> []" "\<forall>v \<in> set tab. gives (sn_enterprise sn) v (val v) c" "enough (c + 1) (sn_pool sn)"
  shows "snmp_next junk tab name sn = Some
    (case later (sn_enterprise sn) tab name of
       [] \<Rightarrow> ((SNMP_NO_SUCH_NAME, Some (Asn_Oid name), None), sn)
     | v # _ \<Rightarrow> ((SNMP_NO_ERROR, Some (Asn_Oid (var_name (sn_enterprise sn) v)), Some (val v)), sn\<lparr>sn_pool := drop (c + 1) (sn_pool sn)\<rparr>))"
proof -
  have "\<forall>v \<in> set tab. v_nargs v = 0" using assms(3) by (simp add: gives_def)
  then obtain i where i: "next_start (sn_enterprise sn) tab name = Some (i, False)" "drop i tab = later (sn_enterprise sn) tab name"
    using start_later assms(1,2) by blast
  show ?thesis
  proof (cases "later (sn_enterprise sn) tab name")
    case Nil
    then show ?thesis using i by (simp add: snmp_next_def)
  next
    case (Cons v vs)
    then have "v \<in> set tab" using i(2) by (metis in_set_dropD list.set_intros(1))
    then show ?thesis using i Cons gives_next [of sn v "val v" c] assms(3,4) by (simp add: snmp_next_def del: next_loop.simps(2))
  qed
qed

lemma name_key_var_name: "unat ent < 65536 \<Longrightarrow> name_key (var_name ent v) = var_key ent v"
  using name_key_result [of ent "[]" "v_id v"] by (simp add: var_name_def var_key_def)

lemma later_step:
  assumes "sorted_table ent tab" "unat ent < 65536" "later ent tab name = v # vs"
  shows "later ent tab (var_name ent v) = vs"
proof -
  let ?P = "\<lambda>w. name_key name < var_key ent w" and ?Q = "\<lambda>w. var_key ent v < var_key ent w"
  have "sorted_wrt (\<lambda>x y. var_key ent x < var_key ent y) tab" using assms(1) by (simp add: sorted_table_def sorted_wrt_map)
  then have "sorted_wrt (\<lambda>x y. var_key ent x < var_key ent y) (v # vs)"
    unfolding assms(3) [symmetric] later_def by (rule sorted_wrt_filter)
  then have "filter ?Q (v # vs) = vs" by (simp add: filter_id_conv)
  moreover have "?P v" using assms(3) unfolding later_def by (metis filter_eq_ConsD)
  then have "filter ?Q (filter ?P tab) = filter ?Q tab" by (auto intro!: filter_cong)
  moreover have "filter ?Q tab = later ent tab (var_name ent v)" by (simp add: later_def name_key_var_name [OF assms(2)])
  ultimately show ?thesis using assms(3) unfolding later_def [of ent tab name] by metis
qed

text \<open>A manager that steps from name to name, with so many requests.\<close>

fun walk :: "u32 \<Rightarrow> 'e snmp_var_t list \<Rightarrow> nat \<Rightarrow> u16 list \<Rightarrow> 'e snmp_t \<Rightarrow> (u16 list \<times> asn_t) list option" where
  "walk junk tab 0 name sn = None"
| "walk junk tab (Suc k) name sn =
     (case snmp_next junk tab name sn of
        Some ((err, Some (Asn_Oid n), Some x), sn) \<Rightarrow> if err = SNMP_NO_ERROR then map_option ((#) (n, x)) (walk junk tab k n sn) else Some []
      | Some _ \<Rightarrow> Some []
      | None \<Rightarrow> None)"

lemma walk_later:
  assumes "sorted_table (sn_enterprise sn) tab" "tab \<noteq> []" "\<forall>v \<in> set tab. gives (sn_enterprise sn) v (val v) c" "unat (sn_enterprise sn) < 65536"
    "enough ((length (later (sn_enterprise sn) tab name) + 1) * (c + 1)) (sn_pool sn)"
  shows "walk junk tab (length (later (sn_enterprise sn) tab name) + 1) name sn
    = Some (map (\<lambda>v. (var_name (sn_enterprise sn) v, val v)) (later (sn_enterprise sn) tab name))"
  using assms(1,3-)
proof (induction "later (sn_enterprise sn) tab name" arbitrary: name sn)
  case Nil
  have "enough (c + 1) (sn_pool sn)" using Nil(1,5) by simp
  then show ?case using next_is_later [of sn tab val c junk name] Nil(1-3) assms(2) by (simp flip: Nil(1))
next
  case (Cons v vs)
  let ?e = "sn_enterprise sn" and ?s = "sn\<lparr>sn_pool := drop (c + 1) (sn_pool sn)\<rparr>"
  have m: "enough (c + 1) (sn_pool sn)" "enough ((length vs + 1) * (c + 1)) (drop (c + 1) (sn_pool sn))"
    using enough_drop [of "c + 1" "(length vs + 1) * (c + 1)" "sn_pool sn"] Cons.prems(4) Cons.hyps(2) [symmetric] by (simp_all add: ac_simps)
  have s: "snmp_next junk tab name sn = Some ((SNMP_NO_ERROR, Some (Asn_Oid (var_name ?e v)), Some (val v)), ?s)"
    using next_is_later [of sn tab val c junk name] Cons.prems(1,2) assms(2) m(1) by (simp flip: Cons.hyps(2))
  have l: "vs = later (sn_enterprise ?s) tab (var_name ?e v)"
    using later_step [OF Cons.prems(1,3) Cons.hyps(2) [symmetric]] by simp
  have "walk junk tab (length vs + 1) (var_name ?e v) ?s = Some (map (\<lambda>v. (var_name ?e v, val v)) vs)"
    using Cons.hyps(1) [OF l] Cons.prems(1-3) m(2) l by simp
  then show ?case using s by (simp flip: Cons.hyps(2))
qed

section \<open>The room for the response\<close>

text \<open>What a table keeps to: the functions leave the number of the enterprise as it is, and an entry of a table has as many indices
  as its type says.\<close>

definition regular :: "'e snmp_var_t \<Rightarrow> bool" where
  "regular v \<longleftrightarrow> unat (v_nargs v) = args_width (v_type v)
     \<and> (\<forall>g args sn. v_get v = Some g \<longrightarrow> sn_enterprise (snd (g args sn)) = sn_enterprise sn)
     \<and> (\<forall>f flag args sn. v_next v = Some f \<longrightarrow> sn_enterprise (snd (f flag args sn)) = sn_enterprise sn)
     \<and> (\<forall>f x args sn. v_set v = Some f \<longrightarrow> sn_enterprise (snd (f x args sn)) = sn_enterprise sn)"

definition regular_table :: "u32 \<Rightarrow> 'e snmp_var_t list \<Rightarrow> bool" where
  "regular_table ent tab \<longleftrightarrow> sorted_table ent tab \<and> tab \<noteq> [] \<and> (\<forall>v \<in> set tab. regular v)"

abbreviation same_ent :: "'e snmp_t \<Rightarrow> 'e snmp_t \<Rightarrow> bool" where
  "same_ent sn' sn \<equiv> sn_enterprise sn' = sn_enterprise sn"

lemma get_set_total:
  assumes "regular_table (sn_enterprise sn) tab"
  shows "\<exists>err val sn'. get_set tab name w flag sn = Some ((err, val), sn') \<and> same_ent sn' sn"
proof -
  have t: "sorted_table (sn_enterprise sn) tab" "tab \<noteq> []" using assms by (simp_all add: regular_table_def)
  obtain r where r: "find_var (sn_enterprise sn) tab name = Some r" "last_entry (sn_enterprise sn) tab name r"
    using find_var_last [OF t] by blast
  show ?thesis
  proof (cases r)
    case None
    then show ?thesis using r(1) by (simp add: get_set_def)
  next
    case (Some p)
    obtain i e where p: "p = (i, e)" by (metis surj_pair)
    then have "i < length tab" using r(2) Some by (simp add: last_entry_def)
    then have v: "regular (tab ! i)" using assms by (simp add: regular_table_def)
    have g: "same_ent sn' sn" if "v_get (tab ! i) = Some g" "g args sn = (x, sn')" for g args x sn'
      using v that unfolding regular_def by (metis snd_conv)
    have f: "same_ent sn' sn" if "v_set (tab ! i) = Some f" "f w args sn = (x, sn')" for f args x sn'
      using v that unfolding regular_def by (metis snd_conv)
    show ?thesis
      using r(1) Some p g f v by (auto simp: get_set_def Let_def regular_def split: option.splits prod.splits)
  qed
qed

lemma next_value_same: "regular v \<Longrightarrow> same_ent (snd (next_value v flag args sn)) sn"
  by (auto simp: next_value_def Let_def regular_def split: option.splits prod.splits) (metis snd_conv)+

lemma next_loop_same:
  assumes "\<forall>v \<in> set vs. regular v" "nm = None \<or> (\<exists>o1. nm = Some (Asn_Oid o1))"
  shows "\<exists>err n val sn'. next_loop vs flag args i3 nm sn = ((err, n, val), sn') \<and> same_ent sn' sn \<and> (n = None \<or> (\<exists>o1. n = Some (Asn_Oid o1)))"
  using assms
proof (induction vs arbitrary: flag args i3 nm sn)
  case Nil
  then show ?case by simp
next
  case (Cons v vs)
  obtain val args1 sn1 where v: "next_value v flag args sn = ((val, args1), sn1)" by (metis surj_pair)
  have s1: "same_ent sn1 sn" using next_value_same [of v flag args sn] v Cons.prems(1) by simp
  obtain name m where nm: "asn_make_oidn (sn_enterprise sn1) (v_id v) (name_args (v_type v) args1) (sn_pool sn1) = (name, m)" by fastforce
  have no: "name = None \<or> (\<exists>o1. name = Some (Asn_Oid o1))"
    using nm by (auto simp: asn_make_oidn_def asn_make_def split: prod.splits if_splits)
  define rest where "rest = (case vs of [] \<Rightarrow> [] | w # _ \<Rightarrow> zero_args (v_type w) (next_i3 v args1 i3))"
  have IH: "\<exists>err n val sn'. next_loop vs False rest (next_i3 v args1 i3) nm' s = ((err, n, val), sn') \<and> same_ent sn' sn
      \<and> (n = None \<or> (\<exists>o1. n = Some (Asn_Oid o1)))" if "nm' = None \<or> (\<exists>o1. nm' = Some (Asn_Oid o1))" "same_ent s sn" for nm' s
    using Cons.IH [of nm' False rest "next_i3 v args1 i3" s] Cons.prems(1) that by simp
  show ?case
  proof (cases val)
    case None
    then show ?thesis using IH [of nm sn1] s1 Cons.prems(2) v by (simp flip: rest_def)
  next
    case (Some y)
    then show ?thesis using IH [of None "sn1\<lparr>sn_pool := m\<rparr>"] s1 no v nm by (cases name) (auto simp flip: rest_def)
  qed
qed

lemma next_total:
  assumes "regular_table (sn_enterprise sn) tab"
  shows "\<exists>err n val sn'. snmp_next junk tab name sn = Some ((err, n, val), sn') \<and> same_ent sn' sn \<and> (n = None \<or> (\<exists>o1. n = Some (Asn_Oid o1)))"
proof -
  obtain r where "find_var (sn_enterprise sn) tab name = Some r"
    using find_var_last assms unfolding regular_table_def by blast
  then have "next_start (sn_enterprise sn) tab name \<noteq> None" by (auto simp: next_start_def Let_def split: option.splits)
  then obtain i flag where s: "next_start (sn_enterprise sn) tab name = Some (i, flag)" by (metis not_None_eq surj_pair)
  have "\<forall>v \<in> set (drop i tab). regular v" using assms in_set_dropD unfolding regular_table_def by fast
  then show ?thesis using next_loop_same [of "drop i tab" "Some (Asn_Oid name)"] by (simp add: snmp_next_def s)
qed

lemma copy_in_same:
  "n = None \<or> (\<exists>o1. n = Some (Asn_Oid o1)) \<Longrightarrow>
    \<exists>n' sn'. copy_in n sn = (n', sn') \<and> same_ent sn' sn \<and> (n' = None \<or> (\<exists>o1. n' = Some (Asn_Oid o1)))"
  by (auto simp: copy_in_def asn_make_def split: option.splits prod.splits if_splits)

lemma copy_value_same: "same_ent (snd (copy_in b sn)) sn"
  by (auto simp: copy_in_def split: option.splits prod.splits)

lemma end_of_mib_same: "same_ent (snd (end_of_mib sn)) sn"
  by (auto simp: end_of_mib_def split: prod.splits)

lemma one_var_total:
  assumes "regular_table (sn_enterprise sn) tab"
  shows "\<exists>err n val sn'. one_var junk tab t version name w sn = Some ((err, n, val), sn') \<and> same_ent sn' sn \<and> (n = None \<or> (\<exists>o1. n = Some (Asn_Oid o1)))"
proof -
  have c: "same_ent (count_req s) s" "same_ent (count_set s) s" for s :: "'a snmp_t" by (simp_all add: count_req_def count_set_def)
  obtain e v s where g: "get_set tab name w False sn = Some ((e, v), s)" "same_ent s sn" using get_set_total [OF assms] by blast
  obtain e' v' s' where g': "get_set tab name w True sn = Some ((e', v'), s')" "same_ent s' sn" using get_set_total [OF assms] by blast
  obtain e2 n2 v2 s2 where n: "snmp_next junk tab name sn = Some ((e2, n2, v2), s2)" "same_ent s2 sn" "n2 = None \<or> (\<exists>o1. n2 = Some (Asn_Oid o1))"
    using next_total [OF assms] by blast
  obtain n3 s3 where c3: "copy_in (Some (Asn_Oid name)) (count_req s) = (n3, s3)" "same_ent s3 (count_req s)" "n3 = None \<or> (\<exists>o1. n3 = Some (Asn_Oid o1))"
    using copy_in_same [of "Some (Asn_Oid name)"] by blast
  obtain n4 s4 where c4: "copy_in (Some (Asn_Oid name)) (count_set s') = (n4, s4)" "same_ent s4 (count_set s')" "n4 = None \<or> (\<exists>o1. n4 = Some (Asn_Oid o1))"
    using copy_in_same [of "Some (Asn_Oid name)"] by blast
  obtain v5 s5 where c5: "copy_in (Some w) s4 = (v5, s5)" "same_ent s5 s4" using copy_value_same [of "Some w" s4] by (metis prod.collapse)
  obtain n6 s6 where c6: "copy_in n2 (count_req s2) = (n6, s6)" "same_ent s6 (count_req s2)" "n6 = None \<or> (\<exists>o1. n6 = Some (Asn_Oid o1))"
    using copy_in_same [OF n(3)] by blast
  obtain v7 s7 where c7: "end_of_mib s6 = (v7, s7)" "same_ent s7 s6" using end_of_mib_same [of s6] by (metis prod.collapse)
  consider (get) "t = ASN_GET_REQUEST" | (set') "t \<noteq> ASN_GET_REQUEST" "t = ASN_SET_REQUEST" | (step) "t \<noteq> ASN_GET_REQUEST" "t \<noteq> ASN_SET_REQUEST" by blast
  then show ?thesis
  proof cases
    case get
    then show ?thesis using g c c3 by (auto simp: one_var_def Let_def)
  next
    case set'
    then show ?thesis using g' c c4 c5 by (auto simp: one_var_def Let_def)
  next
    case step
    then show ?thesis using n c c6 c7 by (auto simp: one_var_def Let_def)
  qed
qed

text \<open>A pair that a name can be taken from.\<close>

fun named :: "asn_t \<Rightarrow> bool" where
  "named (Asn_Seq t (Asn_Oid o1 # _)) = True"
| "named b = False"

lemma add_pair_total:
  assumes "n = None \<or> (\<exists>o1. n = Some (Asn_Oid o1))" "length out < cap" "length out < 65535"
  shows "\<exists>out' sn'. add_pair cap out n val sn = Some (out', sn') \<and> same_ent sn' sn
    \<and> (\<forall>x. out' = Some x \<longrightarrow> (\<exists>p. named p \<and> x = out @ [p]))"
  using assms by (auto simp: add_pair_def Let_def split: option.splits prod.splits)

lemma first_loop_total:
  assumes "regular_table (sn_enterprise sn) tab" "length out + length pairs \<le> cap" "length out + length pairs \<le> 65535"
    "list_all pair_readable pairs"
  shows "\<exists>p sn'. first_loop junk tab t version cap i pairs out sn = Some (p, sn') \<and> same_ent sn' sn
    \<and> (\<forall>out'. p = Answer out' \<longrightarrow> length out' = length out + length pairs)"
  using assms
proof (induction pairs arbitrary: i out sn)
  case Nil
  then show ?case by simp
next
  case (Cons pair pairs)
  show ?case
  proof (cases "\<exists>name w es. pair = Asn_Seq ASN_SEQUENCE (Asn_Oid name # w # es)")
    case False
    then have "first_loop junk tab t version cap i (pair # pairs) out sn = Some (Bad, parse_err sn)"
      using Cons.prems(4) by (auto split: asn_t.splits list.splits)
    then show ?thesis by (simp add: parse_err_def)
  next
    case True
    then obtain name w es where p: "pair = Asn_Seq ASN_SEQUENCE (Asn_Oid name # w # es)" by blast
    obtain err n val s where v: "one_var junk tab t version name w sn = Some ((err, n, val), s)" "same_ent s sn"
      "n = None \<or> (\<exists>o1. n = Some (Asn_Oid o1))"
      using one_var_total [OF Cons.prems(1)] by blast
    have "length out < cap" "length out < 65535" using Cons.prems(2,3) by simp_all
    then obtain out' s' where a: "add_pair cap out n val s = Some (out', s')" "same_ent s' s"
      "\<And>x. out' = Some x \<Longrightarrow> \<exists>p. named p \<and> x = out @ [p]"
      using add_pair_total [OF v(3)] by blast
    show ?thesis
    proof (cases "err = SNMP_NO_ERROR \<and> out' \<noteq> None")
      case False
      then show ?thesis using p v(1,2) a(1,2) by auto
    next
      case t: True
      then obtain x where x: "out' = Some x" by blast
      then have l: "length x = length out + 1" using a(3) by fastforce
      then show ?thesis using Cons.IH [of s' x "i + 1"] Cons.prems p v(1,2) a(1,2) x t by auto
    qed
  qed
qed

lemma bulk_round_total:
  assumes "regular_table (sn_enterprise sn) tab" "length out + length pairs \<le> cap" "length out + length pairs \<le> 65535" "list_all named pairs"
  shows "\<exists>p sn'. bulk_round junk tab cap i pairs out sn = Some (p, sn') \<and> same_ent sn' sn
    \<and> (\<forall>out'. p = Answer out' \<longrightarrow> (\<exists>ps. out' = out @ ps \<and> length ps = length pairs \<and> list_all named ps))"
  using assms
proof (induction pairs arbitrary: i out sn)
  case Nil
  then show ?case by simp
next
  case (Cons pair pairs)
  obtain ty name es where p: "pair = Asn_Seq ty (Asn_Oid name # es)" using Cons.prems(4) by (cases pair rule: named.cases) auto
  obtain err n val s where v: "snmp_next junk tab name sn = Some ((err, n, val), s)" "same_ent s sn"
    "n = None \<or> (\<exists>o1. n = Some (Asn_Oid o1))"
    using next_total [OF Cons.prems(1)] by blast
  define s1 where "s1 = count_req s"
  have s1: "same_ent s1 sn" using v(2) by (simp add: s1_def count_req_def)
  obtain n' c where c: "copy_in n s1 = (n', c)" "same_ent c s1" "n' = None \<or> (\<exists>o1. n' = Some (Asn_Oid o1))"
    using copy_in_same [OF v(3)] by blast
  obtain m d where d: "end_of_mib c = (m, d)" "same_ent d c" using end_of_mib_same [of c] by (metis prod.collapse)
  define q where "q = (if err = SNMP_NO_SUCH_NAME then (n', m, SNMP_NO_ERROR, d) else (n, val, err, s1))"
  obtain n2 val2 err2 s2 where q: "q = (n2, val2, err2, s2)" by (metis surj_pair)
  have s2: "same_ent s2 sn" "n2 = None \<or> (\<exists>o1. n2 = Some (Asn_Oid o1))" using q c d v(3) s1 unfolding q_def by (auto split: if_splits)
  have "length out < cap" "length out < 65535" using Cons.prems(2,3) by simp_all
  then obtain out' s' where a: "add_pair cap out n2 val2 s2 = Some (out', s')" "same_ent s' s2"
    "\<And>x. out' = Some x \<Longrightarrow> \<exists>p. named p \<and> x = out @ [p]"
    using add_pair_total [OF s2(2)] by blast
  have step: "bulk_round junk tab cap i (pair # pairs) out sn =
      (if err2 \<noteq> SNMP_NO_ERROR then Some (Fatal err2 i, s2)
       else case out' of None \<Rightarrow> Some (Fatal SNMP_GEN_ERR i, s') | Some out \<Rightarrow> bulk_round junk tab cap (i + 1) pairs out s')"
    using p v(1) c(1) d(1) q a(1) unfolding q_def s1_def by (auto split: if_splits)
  show ?case
  proof (cases "err2 = SNMP_NO_ERROR \<and> out' \<noteq> None")
    case False
    then show ?thesis using step s2(1) a(2) by auto
  next
    case True
    then obtain x where x: "out' = Some x" by blast
    then obtain pr where pr: "named pr" "x = out @ [pr]" using a(3) by blast
    have "\<exists>p sn'. bulk_round junk tab cap (i + 1) pairs x s' = Some (p, sn') \<and> same_ent sn' s'
      \<and> (\<forall>out'. p = Answer out' \<longrightarrow> (\<exists>ps. out' = x @ ps \<and> length ps = length pairs \<and> list_all named ps))"
      using Cons.prems a(2) s2(1) pr by (intro Cons.IH) simp_all
    then obtain p' sn' where r: "bulk_round junk tab cap (i + 1) pairs x s' = Some (p', sn')" "same_ent sn' s'"
      "\<And>out'. p' = Answer out' \<Longrightarrow> \<exists>ps. out' = x @ ps \<and> length ps = length pairs \<and> list_all named ps" by blast
    have "\<exists>ps. out' = out @ ps \<and> length ps = length (pair # pairs) \<and> list_all named ps" if "p' = Answer out'" for out'
      using r(3) [OF that] pr by force
    then show ?thesis using step True x r(1,2) a(2) s2(1) by simp
  qed
qed

lemma bulk_loop_total:
  assumes "regular_table (sn_enterprise sn) tab" "length out + r * length srcs \<le> cap" "length out + r * length srcs \<le> 65535" "list_all named srcs"
  shows "\<exists>p sn'. bulk_loop junk tab cap i r srcs out sn = Some (p, sn')"
  using assms
proof (induction r arbitrary: srcs out sn)
  case 0
  then show ?case by simp
next
  case (Suc r)
  have "length out + length srcs \<le> cap" "length out + length srcs \<le> 65535" using Suc.prems(2,3) by simp_all
  then obtain p s where b: "bulk_round junk tab cap i srcs out sn = Some (p, s)" "same_ent s sn"
    "\<And>out'. p = Answer out' \<Longrightarrow> \<exists>ps. out' = out @ ps \<and> length ps = length srcs \<and> list_all named ps"
    using bulk_round_total [of sn tab out srcs cap junk i] Suc.prems(1,4) by blast
  show ?case
  proof (cases p)
    case (Answer out')
    then obtain ps where ps: "out' = out @ ps" "length ps = length srcs" "list_all named ps" using b(3) by blast
    then show ?thesis using Suc.IH [of s out' ps] Suc.prems(1-3) b(1,2) Answer by (simp add: algebra_simps)
  qed (use b(1) in simp_all)
qed

text \<open>How many pairs there are, and how many repetitions of the last of them.\<close>

definition counts :: "u8 \<Rightarrow> u32 \<Rightarrow> u32 \<Rightarrow> nat \<Rightarrow> u32 \<times> u32" where
  "counts t a b n = (if t = ASN_GET_BULK_REQUEST then bulk_counts a b n else (of_nat n, 0))"

definition response_pairs :: "u8 \<Rightarrow> u32 \<Rightarrow> u32 \<Rightarrow> nat \<Rightarrow> nat" where
  "response_pairs t a b n = (let (nr, r) = counts t a b n in unat nr + (n - unat nr) * unat r)"

lemma counts_le: "n < 65536 \<Longrightarrow> unat (fst (counts t a b n)) \<le> n"
proof -
  assume n: "n < 65536"
  have "unat a \<le> n" if "\<not> sint a < 0" "\<not> sint a > int n"
  proof (cases "unat a < 2 ^ 31")
    case True
    then have "sint a = int (unat a)" by (simp only: sint_u32 if_True)
    then show ?thesis using that(2) by linarith
  next
    case False
    then have "sint a = int (unat a) - 2 ^ 32" by (simp only: sint_u32 if_False)
    moreover have "int (unat a) < int (2 ^ 32)" using u32_bound [of a] by (simp only: of_nat_less_iff)
    moreover have "int (2 ^ 32) = 2 ^ 32" by simp
    ultimately show ?thesis using that(1) by linarith
  qed
  then show ?thesis using unat_of_nat_small [OF n] by (simp add: counts_def bulk_counts_def Let_def)
qed

lemma small_bytes: "unat (w :: u32) < 65536 \<Longrightarrow> unat (4 * w) = 4 * unat w \<and> unat (4 + 4 * w) = 4 + 4 * unat w"
  by (simp add: unat_word_ariths)

lemma process_total:
  assumes tab: "regular_table (sn_enterprise sn) tab" and n: "length pairs < 65536" and len: "response_pairs t a b (length pairs) < 65536"
    and pr: "list_all pair_readable (take (unat (fst (counts t a b (length pairs)))) pairs)"
    and nam: "list_all named (drop (unat (fst (counts t a b (length pairs)))) pairs)"
  shows "\<exists>p sn'. snmp_process junk tab t version a b pairs sn = Some (p, sn')"
proof -
  obtain nr r where c: "counts t a b (length pairs) = (nr, r)" by fastforce
  define N where "N = unat nr + (length pairs - unat nr) * unat r"
  have N: "N < 65536" using len by (simp add: response_pairs_def c N_def)
  have nr: "unat nr \<le> length pairs" using counts_le [OF n, of t a b] c by simp
  have l: "of_nat (length pairs) - nr = of_nat (length pairs - unat nr)" using nr by (simp add: of_nat_diff)
  have "nr + (of_nat (length pairs) - nr) * r = of_nat N" unfolding N_def l by simp
  then have w: "unat (nr + (of_nat (length pairs) - nr) * r) = N" using unat_of_nat_small [OF N] by simp
  obtain cap s where m: "make_outbind (nr + (of_nat (length pairs) - nr) * r) sn = Some (cap, s)" "same_ent s sn" "cap = None \<or> cap = Some N"
  proof -
    let ?w = "nr + (of_nat (length pairs) - nr) * r"
    have u: "unat (4 * ?w) = 4 * N" "unat (4 + 4 * ?w) = 4 + 4 * N" using small_bytes [of ?w] w N by simp_all
    show ?thesis using that u by (fastforce simp: make_outbind_def Let_def split: prod.splits if_splits)
  qed
  show ?thesis
  proof (cases cap)
    case None
    then show ?thesis using m(1) c by (simp add: snmp_process_def counts_def Let_def)
  next
    case (Some k)
    then have k: "k = N" using m(3) by simp
    obtain p s2 where f: "first_loop junk tab t version N 0 (take (unat nr) pairs) [] s = Some (p, s2)" "same_ent s2 s"
      "\<And>out'. p = Answer out' \<Longrightarrow> length out' = unat nr"
    proof -
      have l: "length (take (unat nr) pairs) = unat nr" using nr by simp
      have "regular_table (sn_enterprise s) tab" "length [] + unat nr \<le> N" "length [] + unat nr \<le> 65535" using tab m(2) N by (simp_all add: N_def)
      then show ?thesis using that first_loop_total [of s tab "[]" "take (unat nr) pairs" N junk t version 0] pr c unfolding l by auto
    qed
    have e: "snmp_process junk tab t version a b pairs sn
      = (case p of Answer out \<Rightarrow>
           if t = ASN_GET_BULK_REQUEST \<and> version \<noteq> 0 then bulk_loop junk tab N (unat nr) (unat r) (drop (unat nr) pairs) out s2 else Some (Answer out, s2)
         | _ \<Rightarrow> Some (p, s2))"
      using m(1) c Some k f(1) by (simp add: snmp_process_def counts_def Let_def)
    show ?thesis
    proof (cases p)
      case (Answer out)
      have "length out + unat r * length (drop (unat nr) pairs) = N" using f(3) [OF Answer] by (simp add: N_def)
      then have "\<exists>p sn'. bulk_loop junk tab N (unat nr) (unat r) (drop (unat nr) pairs) out s2 = Some (p, sn')"
        using tab m(2) f(2) N nam c by (intro bulk_loop_total) simp_all
      then show ?thesis using e Answer by simp
    qed (use e in simp_all)
  qed
qed

lemma enough_at: "enough n m \<Longrightarrow> k + j \<le> n \<Longrightarrow> enough j (drop k m)"
  using enough_drop [of k "n - k" m] enough_drop [of j "n - k - j" "drop k m"] by simp

text \<open>One variable and \<open>2\<^sup>3\<^sup>0\<close> repetitions: the response gets no room at all.\<close>

lemma bulk_without_room:
  assumes "sorted_table (sn_enterprise sn) tab" "tab \<noteq> []" "\<forall>v \<in> set tab. gives (sn_enterprise sn) v (val v) c" "enough (c + 4) (sn_pool sn)"
  shows "snmp_process junk tab ASN_GET_BULK_REQUEST 1 0 0x40000000 [Asn_Seq ASN_SEQUENCE [Asn_Oid name, Asn_Null]] sn = None"
proof -
  let ?s = "sn\<lparr>sn_pool := drop 1 (sn_pool sn)\<rparr>"
  have e: "enough 1 (sn_pool sn)" "enough (c + 3) (drop 1 (sn_pool sn))" using enough_drop [of 1 "c + 3" "sn_pool sn"] assms(4) by (simp_all add: add.commute)
  have m: "make_outbind 0x40000000 sn = Some (Some 0, ?s)"
    using new_enough [of 0 "sn_pool sn" 4] e(1) by (simp add: make_outbind_def Let_def drop_Suc)
  have full: "add_pair 0 [] (Some n) (Some x) s = None" if "enough 1 (sn_pool s)" for n x and s :: "'a snmp_t"
    using make_enough [of "sn_pool s"] that by (simp add: add_pair_def asn_make_seq_def)
  have "bulk_round junk tab 0 0 [Asn_Seq ASN_SEQUENCE [Asn_Oid name, Asn_Null]] [] ?s = None"
  proof (cases "later (sn_enterprise sn) tab name")
    case (Cons v vs)
    have e2: "enough (c + 1) (drop 1 (sn_pool sn))" "enough 1 (drop (c + 1) (drop 1 (sn_pool sn)))"
      using enough_drop [of "c + 1" 2 "drop 1 (sn_pool sn)"] enough_drop [of 1 1 "drop (c + 1) (drop 1 (sn_pool sn))"] e(2)
      by (simp_all add: eval_nat_numeral)
    then show ?thesis using next_is_later [of ?s tab val c junk name] assms(1-3) Cons full by (simp add: count_req_def)
  next
    case Nil
    have e3: "enough 1 (drop 1 (sn_pool sn))" "enough 1 (drop 1 (drop 1 (sn_pool sn)))" "enough 1 (drop 1 (drop 1 (drop 1 (sn_pool sn))))"
      "enough (c + 1) (drop 1 (sn_pool sn))"
      by (simp_all only: drop_drop) (rule enough_at [OF assms(4)]; simp)+
    then show ?thesis using next_is_later [of ?s tab val c junk name] assms(1-3) Nil full make_enough
      by (simp add: count_req_def copy_in_def end_of_mib_def asn_make_int_def)
  qed
  then have "bulk_loop junk tab 0 0 (Suc r) [Asn_Seq ASN_SEQUENCE [Asn_Oid name, Asn_Null]] [] ?s = None" for r
    by (simp del: bulk_round.simps)
  then have "bulk_loop junk tab 0 0 0x40000000 [Asn_Seq ASN_SEQUENCE [Asn_Oid name, Asn_Null]] [] ?s = None"
    by (metis Suc_pred zero_less_numeral)
  then show ?thesis using m by (simp add: snmp_process_def bulk_counts_def del: bulk_round.simps bulk_loop.simps)
qed

lemma execute_bulk:
  assumes "req = snmp_message 1 community ASN_GET_BULK_REQUEST rid 0 0x40000000 (Asn_Seq ASN_SEQUENCE [Asn_Seq ASN_SEQUENCE [Asn_Oid name, Asn_Null]])"
    and "asn_ok req" "plain req = req" "length (coding req) < 2 ^ 32" "fst (snmp_auth community False sn)" "enough (blocks req + c + 4) (sn_pool sn)"
    and "sorted_table (sn_enterprise sn) tab" "tab \<noteq> []" "\<forall>v \<in> set tab. gives (sn_enterprise sn) v (val v) c"
  shows "snmp_execute junk tab (coding req @ rest) outsz sn = None"
proof -
  have e: "enough (blocks req) (sn_pool sn)" "enough (c + 4) (drop (blocks req) (sn_pool sn))"
    using enough_at [OF assms(6), of 0] enough_at [OF assms(6), of "blocks req"] by simp_all
  show ?thesis
    using assms(7-9) e(2)
    by (simp add: execute_request [OF assms(1-4) _ _ assms(5) e(1)] count_request_def bulk_without_room del: coding.simps)
qed

end
