(* ===== verification/Snmp_Agent.thy ===== *)
theory Snmp_Agent
  imports Snmp_Props
begin

text \<open>
  What the agent of SNMP promises: its search, the steps of a manager through the variables, the response to a request for
  variables, and the room that there is for a response. An agent with two variables is the example.
\<close>

section \<open>An example\<close>

definition sample_get :: "u32 \<Rightarrow> u32 list \<Rightarrow> unit snmp_t \<Rightarrow> asn_t option \<times> unit snmp_t" where
  "sample_get v args sn = (let (b, m) = asn_make_int v ASN_INTEGER (sn_pool sn) in (b, sn\<lparr>sn_pool := m\<rparr>))"

definition sample_var :: "u8 \<Rightarrow> unit snmp_var_t" where
  "sample_var k = \<lparr>v_id = [1, 3, k], v_type = 0, v_nargs = 0, v_get = Some (sample_get (ucast k)), v_next = None, v_set = None\<rparr>"

definition sample_table :: "unit snmp_var_t list" where
  "sample_table = [sample_var 1, sample_var 255]"

text \<open>A row for each index up to two.\<close>

definition sample_row :: "unit snmp_var_t" where
  "sample_row = \<lparr>v_id = [1, 4], v_type = SNMP_TAB1, v_nargs = 1,
     v_get = Some (\<lambda>args sn. if hd args \<le> 2 then sample_get (hd args) args sn else (None, sn)), v_next = None, v_set = None\<rparr>"

definition sample_rows :: "unit snmp_var_t list" where
  "sample_rows = sample_table @ [sample_row]"

definition sample_agent :: "nat \<Rightarrow> unit snmp_t" where
  "sample_agent n = snmp_init 300 \<lparr>sn_pool = replicate n (Some (\<lambda>_. 0)), sn_enterprise = 0, sn_user_addr = 0, sn_get_community = [0],
     sn_set_community = [0], sn_get_addr = 0, sn_get_mask = 0, sn_set_addr = 0, sn_set_mask = 0, sn_auth_failure = False,
     sn_in_pkts = 0, sn_in_asn_parse_errs = 0, sn_in_bad_versions = 0, sn_in_bad_community_names = 0, sn_in_bad_community_uses = 0,
     sn_in_get_requests = 0, sn_in_get_nexts = 0, sn_in_get_bulks = 0, sn_in_set_requests = 0, sn_in_total_req_vars = 0,
     sn_in_total_set_vars = 0, sn_out_pkts = 0, sn_out_no_such_names = 0, sn_out_bad_values = 0, sn_out_gen_errs = 0,
     sn_out_too_bigs = 0, sn_out_get_responses = 0, sn_env = ()\<rparr>"

lemma sample_enterprise [simp]: "sn_enterprise (sample_agent n) = 300"
  by (simp add: sample_agent_def snmp_init_def)

lemma sample_pool [simp]: "sn_pool (sample_agent n) = replicate n (Some (\<lambda>_. 0))"
  by (simp add: sample_agent_def snmp_init_def)

lemma sample_enough [simp]: "enough k (replicate n (Some x)) \<longleftrightarrow> k \<le> n"
  by (auto simp: enough_def)

lemma sample_auth: "fst (snmp_auth [112, 117, 98, 108, 105, 99] False (sample_agent n))"
  by (simp add: snmp_auth_def Let_def same_string_def sample_agent_def snmp_init_def)

lemma sample_sorted: "sorted_table 300 sample_table" "sorted_table 300 sample_rows" "sample_table \<noteq> []" "sample_rows \<noteq> []"
  by (simp_all add: sorted_table_def sample_rows_def sample_table_def sample_var_def sample_row_def var_key_def var_number_def)

lemma sample_get_value: "enough 1 (sn_pool sn) \<Longrightarrow> sample_get v args sn = (Some (Asn_Int v), sn\<lparr>sn_pool := drop 1 (sn_pool sn)\<rparr>)"
  using make_enough [of "sn_pool sn"] by (simp add: sample_get_def asn_make_int_def)

lemma sample_get_same: "sn_enterprise (snd (sample_get v args sn)) = sn_enterprise sn"
  by (simp add: sample_get_def split: prod.split)

definition sample_value :: "unit snmp_var_t \<Rightarrow> asn_t" where
  "sample_value v = Asn_Int (ucast (v_id v ! 2))"

lemma sample_gives: "\<forall>v \<in> set sample_table. gives 300 v (sample_value v) 1"
  by (simp add: sample_table_def sample_var_def gives_def args_width_def sample_value_def sample_get_value)

lemma sample_rows_grow: "\<forall>v \<in> set sample_rows. rows_grow v"
proof -
  have "rows_grow (sample_var k)" for k
    using sample_get_same by (auto simp: sample_var_def rows_grow_def args_width_def) (metis snd_conv)
  moreover have "rows_grow sample_row"
  proof -
    have "i < 65536" if "i \<le> 2" for i :: u32 using that by (rule order_le_less_trans) simp
    then show ?thesis using sample_get_same
      by (auto simp: sample_row_def rows_grow_def args_width_def split: if_splits) (metis snd_conv)
  qed
  ultimately show ?thesis by (simp add: sample_rows_def sample_table_def)
qed

lemma sample_regular: "regular_table 300 sample_table"
proof -
  have "regular (sample_var k)" for k
    using sample_get_same by (auto simp: sample_var_def regular_def args_width_def)
  then show ?thesis using sample_sorted(1,3) by (simp add: regular_table_def sample_table_def)
qed

lemma sample_reads: "reads sample_table 300 [1, 3, 300] (Asn_Int 255) 1" "unknown sample_table [1, 3, 300, 0]"
  unfolding reads_def
  by (rule exI [of _ 1], simp_all add: sample_table_def sample_var_def var_key_def var_number_def name_key_def sample_get_value unknown_def)

section \<open>The table\<close>

text \<open>C29: In a sorted table, \<open>GETNEXT\<close> reads no entry outside the table, and a name that it answers with is greater than the
  name it was given, so that a manager that goes on with each answer comes to no name twice, under two conditions. The
  numbers of the name that stand in the place of the bytes of an address are at most 255 (\<open>bytes_fit\<close>; a manager may send
  greater ones, and then the answer can be smaller). And each variable takes as many indices as its type says, and its functions leave the
  number of the enterprise as it is and step from row to row upwards, to indices below 65536 (\<open>rows_grow\<close>; the row after 65535 of a simple table is named as row 0).\<close>

theorem next_name_greater:
  assumes "sorted_table ent tab" "tab \<noteq> []" "\<forall>v \<in> set tab. rows_grow v" "sn_enterprise sn = ent" "unat ent < 65536"
    "\<forall>v \<in> set tab. bytes_fit (v_type v) name (length (v_id v))"
  shows "\<exists>err n val sn'. snmp_next junk tab name sn = Some ((err, n, val), sn')
    \<and> (val \<noteq> None \<longrightarrow> (\<exists>m. err = SNMP_NO_ERROR \<and> n = Some (Asn_Oid m) \<and> name_key name < name_key m))"
  by (rule next_grows [OF assms])

theorem next_name_greater_witness:
  "\<exists>err n val sn'. snmp_next 0 sample_rows [1, 4, 1] (sample_agent 8) = Some ((err, n, val), sn')
    \<and> (val \<noteq> None \<longrightarrow> (\<exists>m. err = SNMP_NO_ERROR \<and> n = Some (Asn_Oid m) \<and> name_key [1, 4, 1] < name_key m))"
  by (rule next_name_greater [OF sample_sorted(2,4) sample_rows_grow]; simp add: bytes_fit_def byte_places_def sample_rows_def sample_table_def sample_var_def sample_row_def)

text \<open>C28: In a sorted table of variables without indices (none of them has rows) that all have a value and whose functions take at most
  \<open>c\<close> blocks of memory each, with the memory for the whole walk: a manager that starts at any name and goes on with
  each name that it gets reaches the end after as many requests as there are variables after the first name, and one
  more; it has then seen each of these variables once, in the order of the table, with its value.\<close>

theorem walk_visits_all:
  assumes "sorted_table (sn_enterprise sn) tab" "tab \<noteq> []" "\<forall>v \<in> set tab. gives (sn_enterprise sn) v (val v) c" "unat (sn_enterprise sn) < 65536"
    "(length (later (sn_enterprise sn) tab name) + 1) * (c + 1) \<le> length (sn_pool sn)" "None \<notin> set (sn_pool sn)"
  shows "walk junk tab (length (later (sn_enterprise sn) tab name) + 1) name sn
    = Some (map (\<lambda>v. (var_name (sn_enterprise sn) v, val v)) (later (sn_enterprise sn) tab name))"
  using walk_later [OF assms(1-4)] assms(5,6) by (simp add: enough_def)

theorem walk_visits_all_witness:
  "walk 0 sample_table 3 [1, 2] (sample_agent 6) = Some [([1, 3, 1], Asn_Int 1), ([1, 3, 300], Asn_Int 255)]"
proof -
  have l: "later 300 sample_table [1, 2] = sample_table"
    by (simp add: later_def sample_table_def sample_var_def name_key_def var_key_def var_number_def)
  have n: "map (\<lambda>v. (var_name 300 v, sample_value v)) sample_table = [([1, 3, 1], Asn_Int 1), ([1, 3, 300], Asn_Int 255)]"
    by (simp add: sample_table_def sample_var_def var_name_def sample_value_def)
  have k: "length (later 300 sample_table [1, 2]) + 1 = 3" unfolding l by (simp add: sample_table_def)
  have "3 * (1 + 1) \<le> length (sn_pool (sample_agent 6))" by simp
  then show ?thesis
    using walk_visits_all [of "sample_agent 6" sample_table sample_value 1 "[1, 2]" 0, unfolded sample_enterprise k, OF sample_sorted(1,3) sample_gives]
    unfolding l n by simp
qed

section \<open>Requests\<close>

text \<open>C27: From the bytes of a request for variables to the bytes of the response: when the community is admitted, the memory suffices
  and the response fits, \<open>snmp_execute\<close> answers a request for names that all have values with exactly these names and values, in
  their order, under the number of the request and without an error; it counts the request and its variables.\<close>

theorem get_request_answered:
  assumes "sorted_table (sn_enterprise sn) tab" "all_read tab (sn_enterprise sn) vars"
    and "req = snmp_message version community ASN_GET_REQUEST rid a b (Asn_Seq ASN_SEQUENCE (map asked vars))"
    and "asn_ok req" "plain req = req" "length (coding req) < 2 ^ 32" "version = 0 \<or> version = 1"
    and "fst (snmp_auth community False sn)" "enough (get_cost req vars) (sn_pool sn)"
    and "resp = snmp_message version community ASN_GET_RESPONSE rid 0 0 (Asn_Seq ASN_SEQUENCE (map answered vars))"
    and "asn_ok resp" "length (coding resp) \<le> outsz"
  shows "snmp_execute junk tab (coding req @ rest) outsz sn
    = Some (Some (coding resp), (received req vars sn)\<lparr>sn_out_get_responses := sn_out_get_responses sn + 1, sn_out_pkts := sn_out_pkts sn + 1\<rparr>)"
  by (rule get_answers [OF assms])

lemma sample_request:
  assumes "req = snmp_message v [112, 117, 98, 108, 105, 99] t 9 0 n (Asn_Seq ASN_SEQUENCE [Asn_Seq ASN_SEQUENCE [Asn_Oid name, Asn_Null]])"
    "t AND ASN_CONSTRUCTED \<noteq> 0" "2 \<le> length name" "length name < 65536" "name ! 0 \<le> 5" "name ! 1 < 40"
  shows "asn_ok req \<and> plain req = req"
  using assms by (simp add: snmp_message_def string_type_def)

theorem get_request_answered_witness:
  "snmp_execute 0 sample_table
     ([0x30, 33, 2, 1, 0, 4, 6, 112, 117, 98, 108, 105, 99, 0xa0, 20, 2, 1, 9, 2, 1, 0, 2, 1, 0,
       0x30, 9, 0x30, 7, 6, 3, 43, 0x82, 0x2c, 5, 0] @ [77]) 100 (sample_agent 20)
   = Some (Some [0x30, 35, 2, 1, 0, 4, 6, 112, 117, 98, 108, 105, 99, 0xa2, 22, 2, 1, 9, 2, 1, 0, 2, 1, 0,
       0x30, 11, 0x30, 9, 6, 3, 43, 0x82, 0x2c, 2, 2, 0, 255],
     (received (snmp_message 0 [112, 117, 98, 108, 105, 99] ASN_GET_REQUEST 9 0 0
         (Asn_Seq ASN_SEQUENCE [Asn_Seq ASN_SEQUENCE [Asn_Oid [1, 3, 300], Asn_Null]])) [([1, 3, 300], Asn_Null, Asn_Int 255, 1)] (sample_agent 20))
       \<lparr>sn_out_get_responses := 1, sn_out_pkts := 1\<rparr>)"
proof -
  let ?vars = "[([1, 3, 300], Asn_Null, Asn_Int 255, 1)] :: reading list"
  define req where "req = snmp_message 0 [112, 117, 98, 108, 105, 99] ASN_GET_REQUEST 9 0 0
         (Asn_Seq ASN_SEQUENCE [Asn_Seq ASN_SEQUENCE [Asn_Oid [1, 3, 300], Asn_Null]])"
  define resp where "resp = snmp_message 0 [112, 117, 98, 108, 105, 99] ASN_GET_RESPONSE 9 0 0
         (Asn_Seq ASN_SEQUENCE [Asn_Seq ASN_SEQUENCE [Asn_Oid [1, 3, 300], Asn_Int 255]])"
  have ok: "asn_ok req" "plain req = req" using sample_request [OF req_def] by simp_all
  have ok2: "asn_ok resp" by (simp add: resp_def snmp_message_def string_type_def)
  have b: "coding req = [0x30, 33, 2, 1, 0, 4, 6, 112, 117, 98, 108, 105, 99, 0xa0, 20, 2, 1, 9, 2, 1, 0, 2, 1, 0,
       0x30, 9, 0x30, 7, 6, 3, 43, 0x82, 0x2c, 5, 0]"
    by (simp add: req_def snmp_message_def tlv_def ber_length_def int_width_def ber_id_def septets.simps be_bytes_numeral)
  have b2: "coding resp = [0x30, 35, 2, 1, 0, 4, 6, 112, 117, 98, 108, 105, 99, 0xa2, 22, 2, 1, 9, 2, 1, 0, 2, 1, 0,
       0x30, 11, 0x30, 9, 6, 3, 43, 0x82, 0x2c, 2, 2, 0, 255]"
    by (simp add: resp_def snmp_message_def tlv_def ber_length_def int_width_def ber_id_def septets.simps be_bytes_numeral)
  have c: "get_cost req ?vars \<le> 20" by (simp add: get_cost_def req_def snmp_message_def reading_cost_def)
  have r: "req = snmp_message 0 [112, 117, 98, 108, 105, 99] ASN_GET_REQUEST 9 0 0 (Asn_Seq ASN_SEQUENCE (map asked ?vars))"
    "resp = snmp_message 0 [112, 117, 98, 108, 105, 99] ASN_GET_RESPONSE 9 0 0 (Asn_Seq ASN_SEQUENCE (map answered ?vars))"
    by (simp_all add: req_def resp_def asked_def answered_def)
  have k: "sn_out_get_responses (sample_agent 20) = 0" "sn_out_pkts (sample_agent 20) = 0" by (simp_all add: sample_agent_def snmp_init_def)
  have "snmp_execute 0 sample_table (coding req @ [77]) 100 (sample_agent 20)
    = Some (Some (coding resp), (received req ?vars (sample_agent 20))\<lparr>sn_out_get_responses := sn_out_get_responses (sample_agent 20) + 1,
        sn_out_pkts := sn_out_pkts (sample_agent 20) + 1\<rparr>)"
    by (rule get_request_answered [OF _ _ r(1) ok _ _ sample_auth _ r(2) ok2])
      (use sample_sorted(1) sample_reads(1) c in \<open>simp_all add: all_read_def b b2 del: coding.simps\<close>)
  then show ?thesis unfolding k b b2 unfolding req_def by simp
qed

text \<open>When one of the names of a request for variables belongs to no entry, the response is the request itself with the error
  \<open>noSuchName\<close> and the place of the first such name, counted from one; the variables before it have been read.\<close>

theorem get_request_unknown:
  assumes "sorted_table (sn_enterprise sn) tab" "all_read tab (sn_enterprise sn) vars"
    and "req = snmp_message version community ASN_GET_REQUEST rid a b
      (Asn_Seq ASN_SEQUENCE (map asked vars @ Asn_Seq ASN_SEQUENCE [Asn_Oid name, w] # others))"
    and "asn_ok req" "plain req = req" "length (coding req) < 2 ^ 32" "version = 0 \<or> version = 1"
    and "fst (snmp_auth community False sn)" "enough (get_cost req vars) (sn_pool sn)" "tab \<noteq> []" "unknown tab name"
    and "resp = snmp_message version community ASN_GET_RESPONSE rid SNMP_NO_SUCH_NAME (of_nat (length vars) + 1)
      (Asn_Seq ASN_SEQUENCE (map asked vars @ Asn_Seq ASN_SEQUENCE [Asn_Oid name, w] # others))"
    and "length (coding resp) \<le> outsz"
  shows "snmp_execute junk tab (coding req @ rest) outsz sn
    = Some (Some (coding resp), (received req vars sn)\<lparr>sn_in_total_req_vars := sn_in_total_req_vars sn + of_nat (length vars) + 1,
        sn_out_no_such_names := sn_out_no_such_names sn + 1, sn_out_pkts := sn_out_pkts sn + 1\<rparr>)"
  by (rule get_fails [OF assms])

theorem get_request_unknown_witness:
  "\<exists>sn'. snmp_execute 0 sample_table
     ([0x30, 34, 2, 1, 0, 4, 6, 112, 117, 98, 108, 105, 99, 0xa0, 21, 2, 1, 9, 2, 1, 0, 2, 1, 0,
       0x30, 10, 0x30, 8, 6, 4, 43, 0x82, 0x2c, 0, 5, 0] @ []) 100 (sample_agent 20)
   = Some (Some [0x30, 34, 2, 1, 0, 4, 6, 112, 117, 98, 108, 105, 99, 0xa2, 21, 2, 1, 9, 2, 1, 2, 2, 1, 1,
       0x30, 10, 0x30, 8, 6, 4, 43, 0x82, 0x2c, 0, 5, 0], sn')"
proof -
  define req where "req = snmp_message 0 [112, 117, 98, 108, 105, 99] ASN_GET_REQUEST 9 0 0
         (Asn_Seq ASN_SEQUENCE (map asked [] @ [Asn_Seq ASN_SEQUENCE [Asn_Oid [1, 3, 300, 0], Asn_Null]]))"
  define resp where "resp = snmp_message 0 [112, 117, 98, 108, 105, 99] ASN_GET_RESPONSE 9 SNMP_NO_SUCH_NAME (of_nat (length ([] :: reading list)) + 1)
         (Asn_Seq ASN_SEQUENCE (map asked [] @ [Asn_Seq ASN_SEQUENCE [Asn_Oid [1, 3, 300, 0], Asn_Null]]))"
  have ok: "asn_ok req" "plain req = req" by (simp_all add: req_def snmp_message_def string_type_def)
  have b: "coding req = [0x30, 34, 2, 1, 0, 4, 6, 112, 117, 98, 108, 105, 99, 0xa0, 21, 2, 1, 9, 2, 1, 0, 2, 1, 0,
       0x30, 10, 0x30, 8, 6, 4, 43, 0x82, 0x2c, 0, 5, 0]"
    by (simp add: req_def snmp_message_def tlv_def ber_length_def int_width_def ber_id_def septets.simps be_bytes_numeral)
  have b2: "coding resp = [0x30, 34, 2, 1, 0, 4, 6, 112, 117, 98, 108, 105, 99, 0xa2, 21, 2, 1, 9, 2, 1, 2, 2, 1, 1,
       0x30, 10, 0x30, 8, 6, 4, 43, 0x82, 0x2c, 0, 5, 0]"
    by (simp add: resp_def snmp_message_def tlv_def ber_length_def int_width_def ber_id_def septets.simps be_bytes_numeral)
  have c: "get_cost req [] \<le> 20" by (simp add: get_cost_def req_def snmp_message_def)
  have "\<exists>sn'. snmp_execute 0 sample_table (coding req @ []) 100 (sample_agent 20) = Some (Some (coding resp), sn')"
    by (rule exI, rule get_request_unknown [OF _ _ req_def ok _ _ sample_auth _ _ sample_reads(2) resp_def])
      (use sample_sorted(1,3) c in \<open>simp_all add: all_read_def b b2 del: coding.simps\<close>)
  then show ?thesis unfolding b b2 .
qed

text \<open>C30: For a sorted table whose functions leave the number of the enterprise as it is, \<open>snmp_process\<close> stays inside its objects
  under three conditions on the list of the request: the pairs of the response, counted without wrapping, are less than 65536; the elements that
  are processed once lie in objects with room for two pointers (every sequence does, but not a number, a null or a string
  of less than four bytes: \<open>arr[0]\<close> and \<open>arr[1]\<close> are read before the type is tested); and the elements that are to be
  repeated are sequences that start with a name.\<close>

theorem process_in_bounds:
  assumes "regular_table (sn_enterprise sn) tab" "length pairs < 65536" "response_pairs t a b (length pairs) < 65536"
    "list_all pair_readable (take (unat (fst (counts t a b (length pairs)))) pairs)"
    "list_all named (drop (unat (fst (counts t a b (length pairs)))) pairs)"
  shows "\<exists>p sn'. snmp_process junk tab t version a b pairs sn = Some (p, sn')"
  by (rule process_total [OF assms])

theorem process_in_bounds_witness:
  "\<exists>p sn'. snmp_process 0 sample_table ASN_GET_BULK_REQUEST 1 1 5
     [Asn_String ASN_STRING [1, 2, 3, 4], Asn_Seq ASN_SEQUENCE [Asn_Oid [1, 3], Asn_Null]] (sample_agent 20) = Some (p, sn')"
  by (rule process_in_bounds)
    (simp_all add: sample_regular response_pairs_def counts_def bulk_counts_def pair_readable_def sizeof_string_def sizeof_sequence_def)

text \<open>C31: One small \<open>GETBULK\<close> request is enough to make the agent write outside its memory: for \<open>2\<^sup>3\<^sup>0\<close> repetitions of one name the
  size of the response wraps to four bytes, and its first pair is written behind them.\<close>

theorem bulk_request_overflows:
  assumes "req = snmp_message 1 community ASN_GET_BULK_REQUEST rid 0 0x40000000 (Asn_Seq ASN_SEQUENCE [Asn_Seq ASN_SEQUENCE [Asn_Oid name, Asn_Null]])"
    and "asn_ok req" "plain req = req" "length (coding req) < 2 ^ 32" "fst (snmp_auth community False sn)" "enough (blocks req + c + 4) (sn_pool sn)"
    and "sorted_table (sn_enterprise sn) tab" "tab \<noteq> []" "\<forall>v \<in> set tab. gives (sn_enterprise sn) v (val v) c"
  shows "snmp_execute junk tab (coding req @ rest) outsz sn = None"
  by (rule execute_bulk [OF assms])

theorem bulk_request_overflows_witness:
  "snmp_execute 0 sample_table
     ([0x30, 34, 2, 1, 1, 4, 6, 112, 117, 98, 108, 105, 99, 0xa5, 21, 2, 1, 9, 2, 1, 0, 2, 4, 64, 0, 0, 0, 0x30, 7, 0x30, 5, 6, 1, 43, 5, 0] @ [])
     100 (sample_agent 20) = None"
proof -
  define req where "req = snmp_message 1 [112, 117, 98, 108, 105, 99] ASN_GET_BULK_REQUEST 9 0 0x40000000
         (Asn_Seq ASN_SEQUENCE [Asn_Seq ASN_SEQUENCE [Asn_Oid [1, 3], Asn_Null]])"
  have ok: "asn_ok req" "plain req = req" using sample_request [OF req_def] by simp_all
  have b: "coding req = [0x30, 34, 2, 1, 1, 4, 6, 112, 117, 98, 108, 105, 99, 0xa5, 21, 2, 1, 9, 2, 1, 0, 2, 4, 64, 0, 0, 0, 0x30, 7, 0x30, 5, 6, 1, 43, 5, 0]"
    by (simp add: req_def snmp_message_def tlv_def ber_length_def int_width_def ber_id_def septets.simps be_bytes_numeral)
  have c: "blocks req + 1 + 4 \<le> 20" by (simp add: req_def snmp_message_def)
  show ?thesis unfolding b [symmetric]
    by (rule bulk_request_overflows [OF req_def ok _ sample_auth _ _ sample_sorted(3), of 1 _ sample_value])
      (use sample_sorted(1) sample_gives c in \<open>simp_all add: b del: coding.simps\<close>)
qed

end
