(* ===== verification/Nvdata.thy ===== *)
theory Nvdata
  imports Uos_Prelude
begin

text \<open>
  Settings in non-volatile memory (\<open>nvram/nvdata*.c\<close>, \<open>nvram/nvram-rw.c\<close>) and the sum that protects them (\<open>crc/crc32-vak.c\<close>):
  a region with a header (offset of a second copy, signature, length, sum) and data, read and written byte by byte in transactions.
  The macros \<open>NVDATA_READ_TAINT\<close> and \<open>NVDATA_WRITE_TAINT\<close> are the parameters \<open>rt\<close> and \<open>wt\<close>. The memory is that of the chip; every
  byte that is written is recorded in \<open>nv_log\<close>, in order. The lock is held by the calling task \<open>nv_held\<close> times; \<open>nv_owned\<close> says that \<open>owner\<close>
  is this task.
\<close>

section \<open>The sum\<close>

definition rot13 :: "u32 \<Rightarrow> u32" where
  "rot13 v = push_bit 13 v OR drop_bit 19 v"

definition crc32_vak_byte :: "u32 \<Rightarrow> u8 \<Rightarrow> u32" where
  "crc32_vak_byte s byte = (let s = s + ucast byte in s - rot13 s)"

fun crc32_vak :: "u32 \<Rightarrow> u8 list \<Rightarrow> u32" where
  "crc32_vak s [] = s"
| "crc32_vak s (b # buf) = crc32_vak (crc32_vak_byte s b) buf"

section \<open>State\<close>

record nvdata_t =
  nv_crc :: u32
  nv_addr :: u32
  nv_begin :: u32
  nv_limit :: u32
  nv_end :: u32
  nv_sign :: u32
  nv_owned :: bool
  nv_held :: nat
  nv_mem :: "u32 \<Rightarrow> u8"
  nv_log :: "(u32 \<times> u8) list"

datatype nv_reason = NVDATA_OK | NVDATA_EMPTY | NVDATA_DEAD | NVDATA_DIFFERENT | NVDATA_INVALID | NVDATA_EOF

abbreviation (input) NVDATA_BAD_ADDRESS :: u32 where "NVDATA_BAD_ADDRESS \<equiv> - 1"
abbreviation (input) NVDATA_HEADER_SIZE :: u32 where "NVDATA_HEADER_SIZE \<equiv> 10"
abbreviation (input) NVDATA_CRC_INIT :: u32 where "NVDATA_CRC_INIT \<equiv> 0x517CC1B7"

section \<open>Bytes\<close>

definition is_valid_addr :: "nvdata_t \<Rightarrow> u32 \<Rightarrow> bool" where
  "is_valid_addr v a \<longleftrightarrow> nv_owned v \<and> nv_begin v \<le> a \<and> nv_limit v > a"

definition nvram_store :: "u32 \<Rightarrow> u8 \<Rightarrow> nvdata_t \<Rightarrow> nvdata_t" where
  "nvram_store a c v = v\<lparr>nv_mem := (nv_mem v)(a := c), nv_log := nv_log v @ [(a, c)]\<rparr>"

definition nvdata_write_byte :: "u8 \<Rightarrow> nvdata_t \<Rightarrow> nvdata_t option" where
  "nvdata_write_byte c v = do {
     assert_c (is_valid_addr v (nv_addr v));
     Some (if is_valid_addr v (nv_addr v)
       then (nvram_store (nv_addr v) c v)\<lparr>nv_crc := crc32_vak_byte (nv_crc v) c, nv_addr := nv_addr v + 1\<rparr> else v)
   }"

definition nvdata_read_byte :: "nvdata_t \<Rightarrow> (u8 \<times> nvdata_t) option" where
  "nvdata_read_byte v = do {
     assert_c (is_valid_addr v (nv_addr v));
     Some (if is_valid_addr v (nv_addr v)
       then (let c = nv_mem v (nv_addr v) in (c, v\<lparr>nv_crc := crc32_vak_byte (nv_crc v) c, nv_addr := nv_addr v + 1\<rparr>)) else (- 1, v))
   }"

definition nvdata_write_word :: "u16 \<Rightarrow> nvdata_t \<Rightarrow> nvdata_t option" where
  "nvdata_write_word val v = do {
     v \<leftarrow> nvdata_write_byte (ucast val) v;
     nvdata_write_byte (ucast (drop_bit 8 val)) v
   }"

definition nvdata_read_word :: "nvdata_t \<Rightarrow> (u32 \<times> nvdata_t) option" where
  "nvdata_read_word v = do {
     (a, v) \<leftarrow> nvdata_read_byte v;
     (b, v) \<leftarrow> nvdata_read_byte v;
     Some (ucast a + push_bit 8 (ucast b), v)
   }"

definition nvdata_write_dword :: "u32 \<Rightarrow> nvdata_t \<Rightarrow> nvdata_t option" where
  "nvdata_write_dword val v = do {
     v \<leftarrow> nvdata_write_word (ucast val) v;
     nvdata_write_word (ucast (drop_bit 16 val)) v
   }"

definition nvdata_read_dword :: "nvdata_t \<Rightarrow> (u32 \<times> nvdata_t) option" where
  "nvdata_read_dword v = do {
     (a, v) \<leftarrow> nvdata_read_word v;
     (b, v) \<leftarrow> nvdata_read_word v;
     Some (a + push_bit 16 b, v)
   }"

definition nvdata_write_bool :: "bool \<Rightarrow> nvdata_t \<Rightarrow> nvdata_t option" where
  "nvdata_write_bool b v = nvdata_write_byte (if b then 0xA5 else 0x5A) v"

definition nvdata_read_bool :: "nvdata_t \<Rightarrow> (bool \<times> nvdata_t) option" where
  "nvdata_read_bool v = do { (c, v) \<leftarrow> nvdata_read_byte v; Some (c = 0xA5, v) }"

fun nvdata_write_mem :: "u8 list \<Rightarrow> nvdata_t \<Rightarrow> nvdata_t option" where
  "nvdata_write_mem [] v = Some v"
| "nvdata_write_mem (c # cs) v = do { v \<leftarrow> nvdata_write_byte c v; nvdata_write_mem cs v }"

fun nvdata_read_mem :: "nat \<Rightarrow> nvdata_t \<Rightarrow> (u8 list \<times> nvdata_t) option" where
  "nvdata_read_mem 0 v = Some ([], v)"
| "nvdata_read_mem (Suc n) v = do { (c, v) \<leftarrow> nvdata_read_byte v; (cs, v) \<leftarrow> nvdata_read_mem n v; Some (c # cs, v) }"

text \<open>The string includes its zero; without one, the code reads beyond it.\<close>

fun nvdata_write_str :: "nat \<Rightarrow> u8 list \<Rightarrow> nvdata_t \<Rightarrow> nvdata_t option" where
  "nvdata_write_str 0 str v = Some v"
| "nvdata_write_str (Suc n) [] v = None"
| "nvdata_write_str (Suc n) (c # cs) v = do {
     assert_c (c = 0 \<or> sint c \<ge> 32);
     v \<leftarrow> nvdata_write_byte c v;
     nvdata_write_str n (if c \<noteq> 0 then cs else c # cs) v
   }"

fun nvdata_read_str :: "nat \<Rightarrow> nvdata_t \<Rightarrow> (u8 list \<times> nvdata_t) option" where
  "nvdata_read_str 0 v = Some ([], v)"
| "nvdata_read_str (Suc n) v = do {
     (c, v) \<leftarrow> nvdata_read_byte v;
     let (c, v) = (if c \<noteq> 0 \<and> sint c < 32 then (0, v\<lparr>nv_crc := nv_crc v XOR 0xDEAD\<rparr>) else (c, v));
     (cs, v) \<leftarrow> nvdata_read_str n v;
     Some (c # cs, v)
   }"

section \<open>Transactions\<close>

definition nv_enter :: "nvdata_t \<Rightarrow> nvdata_t" where
  "nv_enter v = v\<lparr>nv_held := nv_held v + 1, nv_owned := True\<rparr>"

definition nv_leave :: "nv_reason \<Rightarrow> nvdata_t \<Rightarrow> (nv_reason \<times> nvdata_t) option" where
  "nv_leave reason v = Some (reason, v\<lparr>nv_addr := NVDATA_BAD_ADDRESS, nv_owned := False, nv_held := nv_held v - 1\<rparr>)"

definition nvdata_is_compatible :: "u32 \<Rightarrow> u32 \<Rightarrow> bool" where
  "nvdata_is_compatible nvram soft \<longleftrightarrow> nvram XOR soft \<le> 0x0F"

text \<open>The signature is overwritten, so that a transaction that is not completed can be told.\<close>

definition nv_taint :: "bool \<Rightarrow> u16 \<Rightarrow> nvdata_t \<Rightarrow> nvdata_t option" where
  "nv_taint on w v = (if on then nvdata_write_word w (v\<lparr>nv_addr := nv_begin v + 2\<rparr>) else Some v)"

definition nvdata_begin_read :: "bool \<Rightarrow> u32 \<Rightarrow> nvdata_t \<Rightarrow> (nv_reason \<times> nvdata_t) option" where
  "nvdata_begin_read rt sign v = do {
     let v = nv_enter v;
     assert_c (nv_addr v = NVDATA_BAD_ADDRESS);
     (off, v) \<leftarrow> nvdata_read_word (v\<lparr>nv_end := nv_begin v, nv_sign := 0, nv_addr := nv_begin v\<rparr>);
     if off \<noteq> 0 then nv_leave NVDATA_DIFFERENT v else do {
     (s, v) \<leftarrow> nvdata_read_word v;
     if s = 0 \<or> s = 0xFFFF then nv_leave NVDATA_EMPTY v
     else let s = s XOR 0xDEAD in
     if s = 0 then nv_leave NVDATA_DEAD v
     else if \<not> nvdata_is_compatible s sign then nv_leave NVDATA_DIFFERENT v
     else do {
     (len, v) \<leftarrow> nvdata_read_word v;
     if \<not> is_valid_addr v (len + nv_begin v) \<or> len + nv_begin v < nv_begin v + NVDATA_HEADER_SIZE then nv_leave NVDATA_INVALID v
     else do {
     v \<leftarrow> nv_taint rt 0xDEAD (v\<lparr>nv_sign := s\<rparr>);
     Some (NVDATA_OK, v\<lparr>nv_addr := nv_begin v + NVDATA_HEADER_SIZE, nv_crc := NVDATA_CRC_INIT\<rparr>)
   }}}}"

definition nv_sign_crc :: "nvdata_t \<Rightarrow> nvdata_t" where
  "nv_sign_crc v = v\<lparr>nv_crc := crc32_vak_byte (crc32_vak_byte (nv_crc v) (ucast (nv_sign v))) (ucast (drop_bit 8 (nv_sign v)))\<rparr>"

definition nvdata_finalize_read :: "bool \<Rightarrow> nvdata_t \<Rightarrow> (nv_reason \<times> nvdata_t) option" where
  "nvdata_finalize_read rt v = do {
     assert_c (nv_owned v \<and> nv_addr v \<noteq> NVDATA_BAD_ADDRESS);
     if \<not> nv_owned v \<or> nv_addr v = NVDATA_BAD_ADDRESS then Some (NVDATA_INVALID, v)
     else let v = v\<lparr>nv_end := nv_begin v\<rparr> in
     if nv_addr v \<ge> nv_limit v then nv_leave NVDATA_EOF v
     else let v = nv_sign_crc v; len = nv_addr v - nv_begin v in do {
     (nlen, v) \<leftarrow> nvdata_read_word (v\<lparr>nv_addr := nv_begin v + 4\<rparr>);
     if nlen \<noteq> len then nv_leave NVDATA_INVALID v
     else let crc = nv_crc v in do {
     (ncrc, v) \<leftarrow> nvdata_read_dword v;
     if ncrc \<noteq> crc then nv_leave NVDATA_INVALID v
     else do {
     v \<leftarrow> nv_taint rt (ucast (nv_sign v XOR 0xDEAD)) v;
     nv_leave NVDATA_OK (v\<lparr>nv_end := nv_begin v + len\<rparr>)
   }}}}"

definition nvdata_begin_write :: "bool \<Rightarrow> nvdata_t \<Rightarrow> nvdata_t option" where
  "nvdata_begin_write wt v = do {
     let v = nv_enter v;
     assert_c (nv_addr v = NVDATA_BAD_ADDRESS);
     v \<leftarrow> nvdata_write_word 0 (v\<lparr>nv_end := nv_begin v, nv_addr := nv_begin v\<rparr>);
     v \<leftarrow> (if wt then nvdata_write_word 0xDEAD v else Some v);
     Some (v\<lparr>nv_addr := nv_begin v + NVDATA_HEADER_SIZE, nv_crc := NVDATA_CRC_INIT\<rparr>)
   }"

definition nvdata_finalize_write :: "u32 \<Rightarrow> nvdata_t \<Rightarrow> (nv_reason \<times> nvdata_t) option" where
  "nvdata_finalize_write sign v = do {
     assert_c (nv_owned v \<and> nv_addr v \<noteq> NVDATA_BAD_ADDRESS);
     if \<not> nv_owned v \<or> nv_addr v = NVDATA_BAD_ADDRESS then Some (NVDATA_INVALID, v)
     else let v = v\<lparr>nv_end := nv_begin v\<rparr> in
     if nv_addr v \<ge> nv_limit v then nv_leave NVDATA_EOF v
     else let v = nv_sign_crc (v\<lparr>nv_sign := sign\<rparr>); len = nv_addr v - nv_begin v in do {
     v \<leftarrow> nvdata_write_word (ucast len) (v\<lparr>nv_addr := nv_begin v + 4\<rparr>);
     v \<leftarrow> nvdata_write_dword (nv_crc v) v;
     v \<leftarrow> nvdata_write_word (ucast (nv_sign v XOR 0xDEAD)) (v\<lparr>nv_addr := nv_begin v + 2\<rparr>);
     nv_leave NVDATA_OK (v\<lparr>nv_end := nv_begin v + len\<rparr>)
   }}"

text \<open>\<open>nvdata_is_valid_addr\<close>: an address relative to the region, in the data that is there.\<close>

definition nvdata_is_valid_addr :: "nvdata_t \<Rightarrow> u32 \<Rightarrow> bool option" where
  "nvdata_is_valid_addr v a = do {
     assert_c (nv_owned v);
     Some (a \<ge> NVDATA_HEADER_SIZE \<and> a \<le> nv_end v - nv_begin v \<and> nv_owned v)
   }"

definition nvdata_get_addr :: "nvdata_t \<Rightarrow> u32 option" where
  "nvdata_get_addr v = do {
     assert_c (nv_owned v);
     Some (if \<not> nv_owned v then NVDATA_BAD_ADDRESS else nv_addr v - nv_begin v)
   }"

definition nvdata_init :: "u32 \<Rightarrow> u32 \<Rightarrow> nvdata_t \<Rightarrow> nvdata_t option" where
  "nvdata_init region_begin region_end v = do {
     assert_c (region_end > region_begin \<and> region_end - region_begin > 255);
     assert_c (region_end \<le> NVDATA_BAD_ADDRESS);
     let v = (nv_enter v)\<lparr>nv_begin := region_begin, nv_limit := region_end, nv_addr := NVDATA_BAD_ADDRESS, nv_end := region_begin\<rparr>;
     bad \<leftarrow> nvdata_is_valid_addr v NVDATA_BAD_ADDRESS;
     assert_c (\<not> bad);
     zero \<leftarrow> nvdata_is_valid_addr v 0;
     assert_c (\<not> zero);
     assert_c (\<not> is_valid_addr v NVDATA_BAD_ADDRESS);
     Some (v\<lparr>nv_owned := False, nv_held := nv_held v - 1\<rparr>)
   }"

section \<open>Parts of the data\<close>

text \<open>The ways out of \<open>nvdata_begin_load\<close> and \<open>nvdata_begin_update\<close> leave the address as it is.\<close>

definition nv_refuse :: "nv_reason \<Rightarrow> nvdata_t \<Rightarrow> (nv_reason \<times> nvdata_t) option" where
  "nv_refuse reason v = Some (reason, v\<lparr>nv_owned := False, nv_held := nv_held v - 1\<rparr>)"

definition nvdata_begin_load :: "bool \<Rightarrow> u32 \<Rightarrow> nvdata_t \<Rightarrow> (nv_reason \<times> nvdata_t) option" where
  "nvdata_begin_load rt a v = do {
     let v = nv_enter v;
     assert_c (nv_addr v = NVDATA_BAD_ADDRESS \<and> nv_end v \<noteq> nv_begin v);
     if nv_addr v \<noteq> NVDATA_BAD_ADDRESS \<or> nv_end v = nv_begin v then nv_refuse NVDATA_INVALID v else do {
     ok \<leftarrow> nvdata_is_valid_addr v a;
     assert_c ok;
     if \<not> ok then nv_refuse NVDATA_EOF v else do {
     v \<leftarrow> nv_taint rt 0xDEAD v;
     Some (NVDATA_OK, v\<lparr>nv_addr := a + nv_begin v\<rparr>)
   }}}"

definition nvdata_finalize_load :: "bool \<Rightarrow> nvdata_t \<Rightarrow> (nv_reason \<times> nvdata_t) option" where
  "nvdata_finalize_load rt v = do {
     assert_c (nv_addr v \<noteq> NVDATA_BAD_ADDRESS \<and> nv_owned v \<and> nv_end v \<noteq> nv_begin v);
     if nv_addr v = NVDATA_BAD_ADDRESS \<or> nv_end v = nv_begin v \<or> \<not> nv_owned v then Some (NVDATA_INVALID, v) else do {
     assert_c (nv_addr v \<ge> nv_begin v + NVDATA_HEADER_SIZE \<and> nv_addr v \<le> nv_end v);
     if nv_addr v < nv_begin v + NVDATA_HEADER_SIZE \<or> nv_addr v > nv_end v then nv_leave NVDATA_EOF v else do {
     v \<leftarrow> nv_taint rt (ucast (nv_sign v XOR 0xDEAD)) v;
     nv_leave NVDATA_OK v
   }}}"

text \<open>The loops that read on to an address, for the sum.\<close>

lemma read_byte_step: "nvdata_read_byte v = Some (c, w) \<Longrightarrow> nv_addr v < nv_limit v \<and> nv_addr w = nv_addr v + 1"
  by (auto simp: nvdata_read_byte_def is_valid_addr_def Let_def)

function nv_read_until :: "u32 \<Rightarrow> nvdata_t \<Rightarrow> nvdata_t option" where
  "nv_read_until a v =
     (if nv_addr v < a then (case nvdata_read_byte v of None \<Rightarrow> None | Some (c, w) \<Rightarrow> nv_read_until a w) else Some v)"
  by pat_completeness auto
termination
proof (relation "measure (\<lambda>(a, v). unat (a - nv_addr v))")
  fix a v p c w
  assume less: "nv_addr v < a" and "nvdata_read_byte v = Some p" "(c, w) = p"
  then have w: "nv_addr w = nv_addr v + 1" using read_byte_step by metis
  define x where "x = a - nv_addr v"
  have "x \<noteq> 0" using less by (auto simp: x_def)
  then have "unat (x - 1) < unat x" by (simp add: unat_minus_one unat_gt_0)
  moreover have "a - nv_addr w = x - 1" by (simp add: x_def w)
  ultimately show "((a, w), (a, v)) \<in> measure (\<lambda>(a, v). unat (a - nv_addr v))" by (simp only: in_measure prod.case x_def)
qed simp

declare nv_read_until.simps [simp del]

definition nvdata_begin_update :: "bool \<Rightarrow> u32 \<Rightarrow> nvdata_t \<Rightarrow> (nv_reason \<times> nvdata_t) option" where
  "nvdata_begin_update wt a v = do {
     let v = nv_enter v;
     assert_c (nv_addr v = NVDATA_BAD_ADDRESS \<and> nv_end v \<noteq> nv_begin v);
     if nv_addr v \<noteq> NVDATA_BAD_ADDRESS \<or> nv_end v = nv_begin v then nv_refuse NVDATA_INVALID v else do {
     ok \<leftarrow> nvdata_is_valid_addr v a;
     assert_c ok;
     if \<not> ok then nv_refuse NVDATA_EOF v else do {
     v \<leftarrow> nv_taint wt 0xDEAD v;
     v \<leftarrow> nv_read_until (a + nv_begin v) (v\<lparr>nv_addr := nv_begin v + NVDATA_HEADER_SIZE, nv_crc := NVDATA_CRC_INIT\<rparr>);
     Some (NVDATA_OK, v)
   }}}"

definition nvdata_finalize_update :: "bool \<Rightarrow> nvdata_t \<Rightarrow> (nv_reason \<times> nvdata_t) option" where
  "nvdata_finalize_update wt v = do {
     assert_c (nv_addr v \<noteq> NVDATA_BAD_ADDRESS \<and> nv_end v \<noteq> nv_begin v \<and> nv_owned v);
     if nv_addr v = NVDATA_BAD_ADDRESS \<or> nv_end v = nv_begin v \<or> \<not> nv_owned v then Some (NVDATA_INVALID, v) else do {
     assert_c (nv_addr v \<ge> nv_begin v + NVDATA_HEADER_SIZE \<and> nv_addr v \<le> nv_end v);
     if nv_addr v < nv_begin v + NVDATA_HEADER_SIZE \<or> nv_addr v > nv_end v then nv_leave NVDATA_EOF v else do {
     v \<leftarrow> nv_read_until (nv_end v) v;
     let v = nv_sign_crc v;
     (len, v) \<leftarrow> nvdata_read_word (v\<lparr>nv_addr := nv_begin v + 4\<rparr>);
     v \<leftarrow> nvdata_write_dword (nv_crc v) v;
     v \<leftarrow> nv_taint wt (ucast (nv_sign v XOR 0xDEAD)) v;
     nv_leave NVDATA_OK v
   }}}"

definition nvdata_update_str :: "bool \<Rightarrow> u32 \<Rightarrow> u8 list \<Rightarrow> nat \<Rightarrow> nvdata_t \<Rightarrow> (nv_reason \<times> nvdata_t) option" where
  "nvdata_update_str wt a str maxlen v = do {
     (reason, v) \<leftarrow> nvdata_begin_update wt a v;
     if reason = NVDATA_OK then do { v \<leftarrow> nvdata_write_str maxlen str v; nvdata_finalize_update wt v } else Some (reason, v)
   }"

section \<open>Words in the memory of the chip\<close>

text \<open>\<open>nvram-rw.c\<close>; the address is the same for each byte.\<close>

definition nvram_write16 :: "u32 \<Rightarrow> u16 \<Rightarrow> (u32 \<Rightarrow> u8) \<Rightarrow> u32 \<Rightarrow> u8" where
  "nvram_write16 a val m = (m(a := ucast val))(a := ucast (drop_bit 8 val))"

definition nvram_read16 :: "u32 \<Rightarrow> (u32 \<Rightarrow> u8) \<Rightarrow> u16" where
  "nvram_read16 a m = ucast (ucast (m a) OR push_bit 8 (ucast (m a)) :: u32)"

definition nvram_write32 :: "u32 \<Rightarrow> u32 \<Rightarrow> (u32 \<Rightarrow> u8) \<Rightarrow> u32 \<Rightarrow> u8" where
  "nvram_write32 a val m = nvram_write16 a (ucast (drop_bit 16 val)) (nvram_write16 a (ucast val) m)"

definition nvram_read32 :: "u32 \<Rightarrow> (u32 \<Rightarrow> u8) \<Rightarrow> u32" where
  "nvram_read32 a m = ucast (nvram_read16 a m) OR push_bit 16 (ucast (nvram_read16 a m))"

end
