(* ===== verification/Nvdata_Props.thy ===== *)
theory Nvdata_Props
  imports Nvdata
begin

text \<open>
  What the settings promise: data that are written are read back, also after parts of them have been updated, and a
  transaction that is cut off leaves either the data of before or those of after, or is recognised.
\<close>

section \<open>The memory\<close>

fun entries :: "u32 \<Rightarrow> u8 list \<Rightarrow> (u32 \<times> u8) list" where
  "entries a [] = []"
| "entries a (c # cs) = (a, c) # entries (a + 1) cs"

definition apply_log :: "(u32 \<Rightarrow> u8) \<Rightarrow> (u32 \<times> u8) list \<Rightarrow> u32 \<Rightarrow> u8" where
  "apply_log m es = foldl (\<lambda>m (a, c). m(a := c)) m es"

fun peek :: "(u32 \<Rightarrow> u8) \<Rightarrow> u32 \<Rightarrow> nat \<Rightarrow> u8 list" where
  "peek m a 0 = []"
| "peek m a (Suc n) = m a # peek m (a + 1) n"

lemma apply_log_append [simp]: "apply_log m (es @ fs) = apply_log (apply_log m es) fs"
  by (simp add: apply_log_def)

lemma apply_log_Nil [simp]: "apply_log m [] = m"
  and apply_log_Cons [simp]: "apply_log m ((a, c) # es) = apply_log (m(a := c)) es"
  by (simp_all add: apply_log_def)

lemma length_entries [simp]: "length (entries a cs) = length cs"
  by (induction cs arbitrary: a) simp_all

lemma length_peek [simp]: "length (peek m a n) = n"
  by (induction n arbitrary: a) simp_all

lemma entries_append: "entries a (cs @ ds) = entries a cs @ entries (a + of_nat (length cs)) ds"
  by (induction cs arbitrary: a) (simp_all add: add.assoc)

lemma peek_add: "peek m a (j + k) = peek m a j @ peek m (a + of_nat j) k"
  by (induction j arbitrary: a) (simp_all add: add.assoc)

lemma unat_add_nat: "unat a + n < 2 ^ 32 \<Longrightarrow> unat (a + of_nat n :: u32) = unat a + n"
  by (simp add: unat_word_ariths unat_of_nat)

lemma entries_outside:
  "unat a + length cs \<le> 2 ^ 32 \<Longrightarrow> unat x < unat a \<or> unat a + length cs \<le> unat x \<Longrightarrow> apply_log m (entries a cs) x = m x"
proof (induction cs arbitrary: a m)
  case (Cons c cs)
  have "x \<noteq> a" using Cons.prems(2) by auto
  show ?case
  proof (cases "cs = []")
    case True
    then show ?thesis using \<open>x \<noteq> a\<close> by simp
  next
    case False
    then have "unat (a + 1) = unat a + 1" using unat_add_nat [of a 1] Cons.prems(1) by (cases cs) simp_all
    then have "apply_log (m(a := c)) (entries (a + 1) cs) x = (m(a := c)) x" using Cons.prems by (intro Cons.IH) auto
    then show ?thesis using \<open>x \<noteq> a\<close> by simp
  qed
qed simp

lemma peek_cong: "unat a + n \<le> 2 ^ 32 \<Longrightarrow> (\<And>x. unat a \<le> unat x \<Longrightarrow> unat x < unat a + n \<Longrightarrow> m x = m' x) \<Longrightarrow> peek m a n = peek m' a n"
proof (induction n arbitrary: a)
  case (Suc n)
  show ?case
  proof (cases n)
    case 0
    then show ?thesis using Suc.prems(2) by simp
  next
    case (Suc k)
    then have u: "unat (a + 1) = unat a + 1" using unat_add_nat [of a 1] Suc.prems(1) by simp
    then show ?thesis using Suc.IH [of "a + 1"] Suc.prems by simp
  qed
qed simp

lemma peek_entries_other:
  assumes "unat a + length cs \<le> 2 ^ 32" "unat b + n \<le> 2 ^ 32" "unat b + n \<le> unat a \<or> unat a + length cs \<le> unat b"
  shows "peek (apply_log m (entries a cs)) b n = peek m b n"
  using assms by (intro peek_cong entries_outside) auto

lemma peek_entries: "unat a + length cs \<le> 2 ^ 32 \<Longrightarrow> peek (apply_log m (entries a cs)) a (length cs) = cs"
proof (induction cs arbitrary: a m)
  case (Cons c cs)
  show ?case
  proof (cases "cs = []")
    case False
    then have u: "unat (a + 1) = unat a + 1" using unat_add_nat [of a 1] Cons.prems by (cases cs) simp_all
    have "apply_log (m(a := c)) (entries (a + 1) cs) a = c" using entries_outside [of "a + 1" cs a] u Cons.prems by simp
    then show ?thesis using Cons.IH [of "a + 1"] u Cons.prems by simp
  qed simp
qed simp

section \<open>Reading and writing\<close>

lemma valid_addr: "nv_owned v \<Longrightarrow> nv_begin v \<le> a \<Longrightarrow> unat a < unat (nv_limit v) \<Longrightarrow> is_valid_addr v a"
  by (simp add: is_valid_addr_def word_less_nat_alt)

text \<open>Inside the region so many bytes can be accessed at the address.\<close>

definition room :: "nvdata_t \<Rightarrow> nat \<Rightarrow> bool" where
  "room v n \<longleftrightarrow> nv_owned v \<and> unat (nv_begin v) \<le> unat (nv_addr v) \<and> unat (nv_addr v) + n \<le> unat (nv_limit v)"

definition written :: "u8 list \<Rightarrow> nvdata_t \<Rightarrow> nvdata_t" where
  "written cs v = v\<lparr>nv_mem := apply_log (nv_mem v) (entries (nv_addr v) cs), nv_log := nv_log v @ entries (nv_addr v) cs,
     nv_crc := foldl crc32_vak_byte (nv_crc v) cs, nv_addr := nv_addr v + of_nat (length cs)\<rparr>"

definition skimmed :: "nat \<Rightarrow> nvdata_t \<Rightarrow> nvdata_t" where
  "skimmed n v = v\<lparr>nv_crc := foldl crc32_vak_byte (nv_crc v) (peek (nv_mem v) (nv_addr v) n), nv_addr := nv_addr v + of_nat n\<rparr>"

lemma room_valid: "room v (Suc n) \<Longrightarrow> is_valid_addr v (nv_addr v)"
  by (simp add: room_def is_valid_addr_def word_less_nat_alt word_le_nat_alt)

lemma room_bound: "room v n \<Longrightarrow> unat (nv_addr v) + n < 2 ^ 32"
  using u32_bound [of "nv_limit v"] by (simp add: room_def)

lemma write_byte_ok: "room v (Suc n) \<Longrightarrow> nvdata_write_byte c v = Some (written [c] v) \<and> room (written [c] v) n"
  using room_valid [of v n] room_bound [of v "Suc n"] unat_add_nat [of "nv_addr v" 1]
  by (auto simp: nvdata_write_byte_def written_def nvram_store_def room_def)

lemma written_append: "written (cs @ ds) v = written ds (written cs v)"
  by (simp add: written_def entries_append add.assoc)

lemma written_Nil [simp]: "written [] v = v"
  by (simp add: written_def)

lemma write_mem_ok: "room v (length cs + n) \<Longrightarrow> nvdata_write_mem cs v = Some (written cs v) \<and> room (written cs v) n"
proof (induction cs arbitrary: v)
  case (Cons c cs)
  have b: "nvdata_write_byte c v = Some (written [c] v)" "room (written [c] v) (length cs + n)"
    using write_byte_ok [of v "length cs + n" c] Cons.prems by simp_all
  show ?case using Cons.IH [OF b(2)] b(1) written_append [of "[c]" cs v] by simp
qed simp

definition le2 :: "u16 \<Rightarrow> u8 list" where
  "le2 w = [ucast w, ucast (drop_bit 8 w)]"

definition le4 :: "u32 \<Rightarrow> u8 list" where
  "le4 w = le2 (ucast w) @ le2 (ucast (drop_bit 16 w))"

lemma length_le [simp]: "length (le2 w) = 2" "length (le4 d) = 4"
  by (simp_all add: le2_def le4_def)

lemma le2_numerals: "le2 0 = [0, 0]" "le2 0xDEAD = [0xAD, 0xDE]"
  by (simp_all add: le2_def)

lemma write_word_ok: "room v (2 + n) \<Longrightarrow> nvdata_write_word w v = Some (written (le2 w) v) \<and> room (written (le2 w) v) n"
  using write_mem_ok [of v "le2 w" n] by (simp add: nvdata_write_word_def le2_def split: option.splits bind_splits)

lemma write_dword_ok: "room v (4 + n) \<Longrightarrow> nvdata_write_dword d v = Some (written (le4 d) v) \<and> room (written (le4 d) v) n"
proof -
  assume r: "room v (4 + n)"
  have "4 + n = 2 + (2 + n)" by simp
  with r have "room v (2 + (2 + n))" by (simp only:)
  note a = write_word_ok [OF this, of "ucast d"]
  note b = write_word_ok [OF conjunct2 [OF a], of "ucast (drop_bit 16 d)"]
  show ?thesis using a b by (simp add: nvdata_write_dword_def le4_def written_append)
qed

lemma read_byte_ok: "room v (Suc n) \<Longrightarrow> nvdata_read_byte v = Some (nv_mem v (nv_addr v), skimmed 1 v) \<and> room (skimmed 1 v) n"
  using room_valid [of v n] room_bound [of v "Suc n"] unat_add_nat [of "nv_addr v" 1]
  by (auto simp: nvdata_read_byte_def skimmed_def room_def Let_def)

lemma skimmed_add: "skimmed (j + k) v = skimmed k (skimmed j v)"
  by (simp add: skimmed_def peek_add add.assoc)

lemma skimmed_0 [simp]: "skimmed 0 v = v"
  by (simp add: skimmed_def)

lemma read_mem_ok: "room v (k + n) \<Longrightarrow> nvdata_read_mem k v = Some (peek (nv_mem v) (nv_addr v) k, skimmed k v) \<and> room (skimmed k v) n"
proof (induction k arbitrary: v)
  case (Suc k)
  have b: "nvdata_read_byte v = Some (nv_mem v (nv_addr v), skimmed 1 v)" "room (skimmed 1 v) (k + n)"
    using read_byte_ok [of v "k + n"] Suc.prems by simp_all
  have "nv_mem (skimmed 1 v) = nv_mem v" "nv_addr (skimmed 1 v) = nv_addr v + 1" by (simp_all add: skimmed_def)
  then show ?case using Suc.IH [OF b(2)] b(1) skimmed_add [of 1 k v] by simp
qed simp

definition word_at :: "(u32 \<Rightarrow> u8) \<Rightarrow> u32 \<Rightarrow> u32" where
  "word_at m a = ucast (m a) + push_bit 8 (ucast (m (a + 1)))"

definition dword_at :: "(u32 \<Rightarrow> u8) \<Rightarrow> u32 \<Rightarrow> u32" where
  "dword_at m a = word_at m a + push_bit 16 (word_at m (a + 2))"

lemma skimmed_same [simp]: "nv_mem (skimmed n v) = nv_mem v" "nv_addr (skimmed n v) = nv_addr v + of_nat n"
  by (simp_all add: skimmed_def)

lemma read_word_ok: "room v (2 + n) \<Longrightarrow> nvdata_read_word v = Some (word_at (nv_mem v) (nv_addr v), skimmed 2 v) \<and> room (skimmed 2 v) n"
proof -
  assume r: "room v (2 + n)"
  have "2 + n = Suc (Suc n)" by simp
  with r have "room v (Suc (Suc n))" by (simp only:)
  note a = read_byte_ok [OF this]
  note b = read_byte_ok [OF conjunct2 [OF a]]
  have "skimmed 2 v = skimmed 1 (skimmed 1 v)" using skimmed_add [of 1 1 v] by (simp add: numeral_2_eq_2)
  then show ?thesis using a b by (simp add: nvdata_read_word_def word_at_def)
qed

lemma read_dword_ok: "room v (4 + n) \<Longrightarrow> nvdata_read_dword v = Some (dword_at (nv_mem v) (nv_addr v), skimmed 4 v) \<and> room (skimmed 4 v) n"
proof -
  assume r: "room v (4 + n)"
  have "4 + n = 2 + (2 + n)" by simp
  with r have "room v (2 + (2 + n))" by (simp only:)
  note a = read_word_ok [OF this]
  note b = read_word_ok [OF conjunct2 [OF a]]
  show ?thesis using a b skimmed_add [of 2 2 v] by (simp add: nvdata_read_dword_def dword_at_def)
qed

section \<open>A transaction\<close>

text \<open>The sum over the data, the signature and the length.\<close>

definition nv_sum :: "u32 \<Rightarrow> u8 list \<Rightarrow> u32" where
  "nv_sum sign bs = foldl crc32_vak_byte NVDATA_CRC_INIT (bs @ le2 (ucast sign) @ le2 (of_nat (10 + length bs)))"

text \<open>What a transaction that writes these bytes writes to the memory, in order.\<close>

definition header_writes :: "bool \<Rightarrow> u32 \<Rightarrow> (u32 \<times> u8) list" where
  "header_writes wt b = entries b ([0, 0] @ (if wt then [0xAD, 0xDE] else []))"

definition final_writes :: "u32 \<Rightarrow> u32 \<Rightarrow> u8 list \<Rightarrow> (u32 \<times> u8) list" where
  "final_writes b sign bs = entries (b + 4) (le2 (of_nat (10 + length bs)) @ le4 (nv_sum sign bs)) @ entries (b + 2) (le2 (ucast (sign XOR 0xDEAD)))"

definition txn_writes :: "bool \<Rightarrow> u32 \<Rightarrow> u32 \<Rightarrow> u8 list \<Rightarrow> (u32 \<times> u8) list" where
  "txn_writes wt b sign bs = header_writes wt b @ entries (b + 10) bs @ final_writes b sign bs"

definition nv_write :: "bool \<Rightarrow> u32 \<Rightarrow> u8 list \<Rightarrow> nvdata_t \<Rightarrow> (nv_reason \<times> nvdata_t) option" where
  "nv_write wt sign bs v = do { v \<leftarrow> nvdata_begin_write wt v; v \<leftarrow> nvdata_write_mem bs v; nvdata_finalize_write sign v }"

definition nv_read :: "bool \<Rightarrow> u32 \<Rightarrow> nat \<Rightarrow> nvdata_t \<Rightarrow> (nv_reason \<times> u8 list \<times> nvdata_t) option" where
  "nv_read rt sign n v = do {
     (reason, v) \<leftarrow> nvdata_begin_read rt sign v;
     if reason \<noteq> NVDATA_OK then Some (reason, [], v)
     else do { (bs, v) \<leftarrow> nvdata_read_mem n v; (reason, v) \<leftarrow> nvdata_finalize_read rt v; Some (reason, bs, v) }
   }"

text \<open>Between transactions; the region is as \<open>nvdata_init\<close> asks for.\<close>

definition idle :: "nvdata_t \<Rightarrow> bool" where
  "idle v \<longleftrightarrow> nv_addr v = NVDATA_BAD_ADDRESS \<and> unat (nv_begin v) + 255 < unat (nv_limit v)"

text \<open>After a transaction with these writes.\<close>

definition done_writes :: "(u32 \<times> u8) list \<Rightarrow> nvdata_t \<Rightarrow> nvdata_t" where
  "done_writes es v = v\<lparr>nv_mem := apply_log (nv_mem v) es, nv_log := nv_log v @ es\<rparr>"

lemma done_writes_append: "done_writes (es @ fs) v = done_writes fs (done_writes es v)"
  by (simp add: done_writes_def)

lemma written_done: "written cs v = (done_writes (entries (nv_addr v) cs) v)\<lparr>nv_crc := foldl crc32_vak_byte (nv_crc v) cs, nv_addr := nv_addr v + of_nat (length cs)\<rparr>"
  by (simp add: written_def done_writes_def)

lemma done_writes_same [simp]: "nv_addr (done_writes es v) = nv_addr v" "nv_begin (done_writes es v) = nv_begin v" "nv_limit (done_writes es v) = nv_limit v"
  "nv_owned (done_writes es v) = nv_owned v" "nv_crc (done_writes es v) = nv_crc v" "nv_held (done_writes es v) = nv_held v"
  "nv_end (done_writes es v) = nv_end v" "nv_sign (done_writes es v) = nv_sign v" "nv_mem (done_writes es v) = apply_log (nv_mem v) es"
  by (simp_all add: done_writes_def)

lemma written_same [simp]: "nv_begin (written cs v) = nv_begin v" "nv_limit (written cs v) = nv_limit v" "nv_owned (written cs v) = nv_owned v"
  "nv_crc (written cs v) = foldl crc32_vak_byte (nv_crc v) cs" "nv_addr (written cs v) = nv_addr v + of_nat (length cs)"
  "nv_mem (written cs v) = apply_log (nv_mem v) (entries (nv_addr v) cs)" "nv_end (written cs v) = nv_end v" "nv_sign (written cs v) = nv_sign v"
  by (simp_all add: written_def)

lemma region_unat:
  assumes "unat (b :: u32) + 255 < unat (l :: u32)" "n \<le> 255"
  shows "unat (b + of_nat n) = unat b + n"
proof -
  have "unat b + n < 2 ^ 32" using assms u32_bound [of l] by linarith
  then show ?thesis by (rule unat_add_nat)
qed

lemma region_numeral: "unat (b :: u32) + 255 < unat (l :: u32) \<Longrightarrow> numeral n \<le> (255 :: nat) \<Longrightarrow> unat (b + numeral n) = unat b + numeral n"
  using region_unat [of b l "numeral n"] by simp

lemma begin_write_ok:
  assumes "idle v"
  shows "nvdata_begin_write wt v = Some ((done_writes (header_writes wt (nv_begin v)) (nv_enter v))
      \<lparr>nv_end := nv_begin v, nv_addr := nv_begin v + 10, nv_crc := NVDATA_CRC_INIT\<rparr>)"
proof -
  let ?v = "(nv_enter v)\<lparr>nv_end := nv_begin v, nv_addr := nv_begin v\<rparr>"
  have r: "room ?v (2 + 253)" using assms by (simp add: room_def idle_def nv_enter_def)
  note a = write_word_ok [OF r, of 0]
  then have "room (written (le2 0) ?v) (2 + 251)" by simp
  note b = write_word_ok [OF this, of "0xDEAD"]
  show ?thesis
    using a b assms by (simp add: nvdata_begin_write_def idle_def header_writes_def nv_enter_def Let_def written_def done_writes_def le2_numerals add.commute)
qed

text \<open>Where the data end, and that they fit.\<close>

definition fits :: "nvdata_t \<Rightarrow> u8 list \<Rightarrow> bool" where
  "fits v bs \<longleftrightarrow> unat (nv_begin v) + 10 + length bs < unat (nv_limit v) \<and> 10 + length bs < 65536"

lemma of_nat_u16: "ucast (of_nat n :: u32) = (of_nat n :: u16)"
  by (rule bit_word_eqI) (simp add: unsigned_of_nat bit_simps)

lemma sign_crc: "nv_sign_crc v = v\<lparr>nv_crc := foldl crc32_vak_byte (nv_crc v) (le2 (ucast (nv_sign v)))\<rparr>"
proof -
  have "(ucast (ucast x :: u16) :: u8) = ucast x" "(ucast (drop_bit 8 (ucast x :: u16)) :: u8) = ucast (drop_bit 8 x)" for x :: u32
    by (rule bit_word_eqI; auto simp: bit_simps)+
  then show ?thesis by (simp add: nv_sign_crc_def le2_def)
qed

lemma finalize_write_ok:
  assumes v: "nv_owned v" "nv_addr v = nv_begin v + 10 + of_nat (length bs)" "nv_crc v = foldl crc32_vak_byte NVDATA_CRC_INIT bs"
    and region: "unat (nv_begin v) + 255 < unat (nv_limit v)" and f: "fits v bs"
  shows "\<exists>c. nvdata_finalize_write sign v = Some (NVDATA_OK, (done_writes (final_writes (nv_begin v) sign bs) v)
      \<lparr>nv_sign := sign, nv_end := nv_begin v + 10 + of_nat (length bs), nv_crc := c,
        nv_addr := NVDATA_BAD_ADDRESS, nv_owned := False, nv_held := nv_held v - 1\<rparr>)"
proof -
  let ?b = "nv_begin v"
  define n where "n = 10 + length bs"
  have na: "nv_addr v = ?b + of_nat n" using v(2) by (simp add: add.assoc n_def)
  have b: "unat ?b + n < unat (nv_limit v)" using f by (simp add: fits_def n_def)
  then have "unat ?b + n < 2 ^ 32" using u32_bound [of "nv_limit v"] by linarith
  then have u: "unat (nv_addr v) = unat ?b + n" unfolding na by (rule unat_add_nat)
  have lim: "\<not> nv_addr v \<ge> nv_limit v" using u b by (simp add: word_le_nat_alt)
  then have bad: "nv_addr v \<noteq> - 1" by auto
  have len: "ucast (nv_addr v - ?b) = (of_nat n :: u16)" "?b + (nv_addr v - ?b) = ?b + of_nat n"
    unfolding na using of_nat_u16 [of n] by simp_all
  let ?v1 = "nv_sign_crc (v\<lparr>nv_end := ?b, nv_sign := sign\<rparr>)"
  let ?v2 = "?v1\<lparr>nv_addr := ?b + 4\<rparr>"
  have s1: "nv_crc ?v1 = foldl crc32_vak_byte NVDATA_CRC_INIT (bs @ le2 (ucast sign))" using v(3) by (simp add: sign_crc)
  have r: "room ?v2 (2 + (4 + 245))" using v(1) region region_numeral [OF region, of "Num.Bit0 (Num.Bit0 Num.One)"]
    by (simp add: room_def sign_crc)
  note a = write_word_ok [OF r, of "of_nat n"]
  let ?v3 = "written (le2 (of_nat n)) ?v2"
  have sum: "nv_crc ?v3 = nv_sum sign bs" using s1 by (simp add: nv_sum_def n_def)
  note d = write_dword_ok [OF conjunct2 [OF a], of "nv_sum sign bs"]
  let ?v4 = "written (le4 (nv_sum sign bs)) ?v3"
  have four: "?v4 = written (le2 (of_nat n) @ le4 (nv_sum sign bs)) ?v2" by (simp only: written_append)
  have r2: "room (?v4\<lparr>nv_addr := ?b + 2\<rparr>) (2 + 251)" using v(1) region region_numeral [OF region, of "Num.Bit0 Num.One"]
    by (simp add: room_def sign_crc)
  note e = write_word_ok [OF r2, of "ucast (sign XOR 0xDEAD)"]
  let ?v5 = "written (le2 (ucast (sign XOR 0xDEAD))) (?v4\<lparr>nv_addr := ?b + 2\<rparr>)"
  have b1: "nv_begin ?v1 = ?b" "nv_addr ?v1 = nv_addr v" by (simp_all add: sign_crc)
  have b4: "nv_begin ?v4 = ?b" "nv_sign ?v4 = sign" by (simp_all add: sign_crc)
  have b5: "nv_begin ?v5 = ?b" by (simp add: sign_crc)
  have "nvdata_finalize_write sign v = nv_leave NVDATA_OK (?v5\<lparr>nv_end := ?b + of_nat n\<rparr>)"
    unfolding nvdata_finalize_write_def Let_def nvdata_t.simps
    using v(1) bad lim
    by (simp only: b1 b4 b5 len a [THEN conjunct1] sum d [THEN conjunct1] e [THEN conjunct1] bind.bind_lunit) simp
  then show ?thesis unfolding four
    by (intro exI [of _ "foldl crc32_vak_byte (nv_crc v) (le2 (ucast sign) @ (le2 (of_nat n) @ le4 (nv_sum sign bs)) @ le2 (ucast (sign XOR 0xDEAD)))"])
      (simp add: nv_leave_def written_def done_writes_def sign_crc final_writes_def n_def add.assoc)
qed

lemma nv_write_ok:
  assumes v: "idle v" and f: "fits v bs"
  shows "\<exists>c. nv_write wt sign bs v = Some (NVDATA_OK, (done_writes (txn_writes wt (nv_begin v) sign bs) v)
      \<lparr>nv_sign := sign, nv_end := nv_begin v + 10 + of_nat (length bs), nv_crc := c, nv_addr := NVDATA_BAD_ADDRESS, nv_owned := False\<rparr>)"
proof -
  let ?b = "nv_begin v"
  let ?v1 = "(done_writes (header_writes wt ?b) (nv_enter v))\<lparr>nv_end := ?b, nv_addr := ?b + 10, nv_crc := NVDATA_CRC_INIT\<rparr>"
  have region: "unat ?b + 255 < unat (nv_limit v)" using v by (simp add: idle_def)
  have "unat (?b + 10) = unat ?b + 10" using region_numeral [OF region, of "Num.Bit0 (Num.Bit1 (Num.Bit0 Num.One))"] by simp
  then have "room ?v1 (length bs + 0)" using f by (simp add: room_def fits_def nv_enter_def)
  note w = write_mem_ok [OF this, THEN conjunct1]
  let ?v2 = "written bs ?v1"
  have "\<exists>c. nvdata_finalize_write sign ?v2 = Some (NVDATA_OK, (done_writes (final_writes (nv_begin ?v2) sign bs) ?v2)
      \<lparr>nv_sign := sign, nv_end := nv_begin ?v2 + 10 + of_nat (length bs), nv_crc := c,
        nv_addr := NVDATA_BAD_ADDRESS, nv_owned := False, nv_held := nv_held ?v2 - 1\<rparr>)"
    using region f by (intro finalize_write_ok) (simp_all add: nv_enter_def fits_def)
  then show ?thesis
    using begin_write_ok [OF v, of wt] w
    by (simp add: nv_write_def txn_writes_def written_def done_writes_def nv_enter_def)
qed

section \<open>What is stored\<close>

text \<open>A signature that the code can tell from the marks for an empty region and for a transaction that was cut off.\<close>

definition sign_ok :: "u32 \<Rightarrow> bool" where
  "sign_ok sign \<longleftrightarrow> sign < 0x10000 \<and> sign \<noteq> 0 \<and> sign \<noteq> 0xDEAD \<and> sign \<noteq> 0x2152"

definition nv_image :: "(u32 \<Rightarrow> u8) \<Rightarrow> u32 \<Rightarrow> u32 \<Rightarrow> u8 list \<Rightarrow> bool" where
  "nv_image m b sign bs \<longleftrightarrow> peek m b 2 = [0, 0] \<and> peek m (b + 2) 2 = le2 (ucast (sign XOR 0xDEAD)) \<and> peek m (b + 4) 2 = le2 (of_nat (10 + length bs))
     \<and> peek m (b + 6) 4 = le4 (nv_sum sign bs) \<and> peek m (b + 10) (length bs) = bs"

definition stored :: "nvdata_t \<Rightarrow> u32 \<Rightarrow> u8 list \<Rightarrow> bool" where
  "stored v sign bs \<longleftrightarrow> idle v \<and> fits v bs \<and> nv_image (nv_mem v) (nv_begin v) sign bs"

lemma word_at_le2: "peek m a 2 = le2 w \<Longrightarrow> word_at m a = ucast w"
proof -
  assume "peek m a 2 = le2 w"
  then have "m a = ucast w" "m (a + 1) = ucast (drop_bit 8 w)" by (simp_all add: le2_def numeral_2_eq_2)
  moreover have "ucast (ucast w :: u8) + push_bit 8 (ucast (ucast (drop_bit 8 w) :: u8)) = (ucast w :: u32)"
  proof -
    have "ucast (ucast w :: u8) AND push_bit 8 (ucast (ucast (drop_bit 8 w) :: u8)) = (0 :: u32)"
      by (rule bit_word_eqI) (auto simp: bit_simps)
    then have "ucast (ucast w :: u8) + push_bit 8 (ucast (ucast (drop_bit 8 w) :: u8))
      = (ucast (ucast w :: u8) OR push_bit 8 (ucast (ucast (drop_bit 8 w) :: u8)) :: u32)" by (rule disjunctive_add_eq_or)
    also have "\<dots> = ucast w" by (rule bit_word_eqI) (auto simp: bit_simps dest: bit_u16)
    finally show ?thesis .
  qed
  ultimately show ?thesis by (simp add: word_at_def)
qed

lemma dword_at_le4: "peek m a 4 = le4 d \<Longrightarrow> dword_at m a = d"
proof -
  assume "peek m a 4 = le4 d"
  then have "peek m a 2 @ peek m (a + 2) 2 = le2 (ucast d) @ le2 (ucast (drop_bit 16 d))" using peek_add [of m a 2 2] by (simp add: le4_def)
  then have "peek m a 2 = le2 (ucast d)" "peek m (a + 2) 2 = le2 (ucast (drop_bit 16 d))" by (simp_all add: append_eq_append_conv)
  then have "dword_at m a = ucast (ucast d :: u16) + push_bit 16 (ucast (ucast (drop_bit 16 d) :: u16))"
    by (simp add: dword_at_def word_at_le2)
  also have "\<dots> = (ucast (ucast d :: u16) OR push_bit 16 (ucast (ucast (drop_bit 16 d) :: u16)))"
    by (rule disjunctive_add_eq_or, rule bit_word_eqI) (auto simp: bit_simps)
  also have "\<dots> = d" by (rule bit_word_eqI) (auto simp: bit_simps dest: bit_u32)
  finally show ?thesis .
qed

lemma image_written:
  assumes region: "unat b + 255 < unat l" and f: "unat b + 10 + length bs < unat (l :: u32)" "10 + length bs < 65536"
  shows "nv_image (apply_log m (txn_writes wt b sign bs)) b sign bs"
proof -
  have l: "unat l < 2 ^ 32" by (rule u32_bound)
  have u: "unat (b + 2) = unat b + 2" "unat (b + 4) = unat b + 4" "unat (b + 6) = unat b + 6" "unat (b + 10) = unat b + 10"
    using region_unat [OF region, of 2] region_unat [OF region, of 4] region_unat [OF region, of 6] region_unat [OF region, of 10] by simp_all
  define m1 where "m1 = apply_log m (header_writes wt b)"
  define m2 where "m2 = apply_log m1 (entries (b + 10) bs)"
  define cs where "cs = le2 (of_nat (10 + length bs)) @ le4 (nv_sum sign bs)"
  define m3 where "m3 = apply_log m2 (entries (b + 4) cs)"
  define m4 where "m4 = apply_log m3 (entries (b + 2) (le2 (ucast (sign XOR 0xDEAD))))"
  have c: "length cs = 6" by (simp add: cs_def)
  have m: "apply_log m (txn_writes wt b sign bs) = m4"
    by (simp add: txn_writes_def final_writes_def m4_def m3_def m2_def m1_def cs_def)
  have o4: "peek m4 a n = peek m3 a n" if "unat a + n \<le> 2 ^ 32" "unat a + n \<le> unat b + 2 \<or> unat b + 4 \<le> unat a" for a n
    unfolding m4_def using that region l u by (intro peek_entries_other) auto
  have o3: "peek m3 a n = peek m2 a n" if "unat a + n \<le> 2 ^ 32" "unat a + n \<le> unat b + 4 \<or> unat b + 10 \<le> unat a" for a n
    unfolding m3_def using that region l u c by (intro peek_entries_other) auto
  have o2: "peek m2 a n = peek m1 a n" if "unat a + n \<le> 2 ^ 32" "unat a + n \<le> unat b + 10" for a n
    unfolding m2_def using that region l u f(1) by (intro peek_entries_other) auto
  have p1: "peek m1 b 2 = [0, 0]"
  proof -
    have "peek (apply_log m (entries b [0, 0])) b 2 = [0, 0]" using peek_entries [of b "[0, 0]" m] region l by (simp add: numeral_2_eq_2)
    moreover have "peek (apply_log m1' (entries (b + 2) cs)) b 2 = peek m1' b 2" if "length cs = 2" for m1' cs
      using that region l u by (intro peek_entries_other) auto
    ultimately show ?thesis using entries_append [of b "[0, 0]" "[0xAD, 0xDE]"]
      by (simp add: m1_def header_writes_def del: entries.simps)
  qed
  have "peek m4 b 2 = [0, 0]" using o4 [of b 2] o3 [of b 2] o2 [of b 2] p1 region l by simp
  moreover have "peek m4 (b + 2) 2 = le2 (ucast (sign XOR 0xDEAD))"
    using peek_entries [of "b + 2" "le2 (ucast (sign XOR 0xDEAD))" m3] u region l by (simp add: m4_def)
  moreover have six: "peek m4 (b + 4) 6 = cs"
    using o4 [of "b + 4" 6] peek_entries [of "b + 4" cs m2] u region l c by (simp add: m3_def)
  moreover have "peek m4 (b + 10) (length bs) = bs"
    using o4 [of "b + 10" "length bs"] o3 [of "b + 10" "length bs"] peek_entries [of "b + 10" bs m1] u region l f(1) by (simp add: m2_def)
  moreover have "peek m4 (b + 4) 2 = le2 (of_nat (10 + length bs)) \<and> peek m4 (b + 6) 4 = le4 (nv_sum sign bs)"
    using six peek_add [of m4 "b + 4" 2 4] by (simp add: cs_def append_eq_append_conv add.assoc)
  ultimately show ?thesis unfolding m nv_image_def by simp
qed

text \<open>The header without the sum, for so many bytes of data.\<close>

definition nv_head :: "(u32 \<Rightarrow> u8) \<Rightarrow> u32 \<Rightarrow> u32 \<Rightarrow> nat \<Rightarrow> bool" where
  "nv_head m b sign n \<longleftrightarrow> peek m b 2 = [0, 0] \<and> peek m (b + 2) 2 = le2 (ucast (sign XOR 0xDEAD)) \<and> peek m (b + 4) 2 = le2 (of_nat (10 + n))"

lemma image_head: "nv_image m b sign bs \<Longrightarrow> nv_head m b sign (length bs)"
  by (simp add: nv_image_def nv_head_def)

lemma head_words:
  assumes "nv_head m b sign n" "sign < 0x10000"
  shows "word_at m b = 0" "word_at m (b + 2) = sign XOR 0xDEAD" "word_at m (b + 4) = ucast (of_nat (10 + n) :: u16)"
proof -
  show "word_at m b = 0" using assms(1) word_at_le2 [of m b 0] by (simp add: nv_head_def le2_numerals)
  have "ucast (ucast x :: u16) = x" if "x < 0x10000" for x :: u32
    using that by (simp add: word_unat_eq_iff unsigned_ucast_eq unsigned_take_bit_eq word_less_nat_alt take_bit_nat_eq_self)
  moreover have "sign XOR 0xDEAD < 0x10000"
  proof -
    have "take_bit 16 sign = sign" using assms(2) by (simp add: word_less_nat_alt word_unat_eq_iff unsigned_take_bit_eq take_bit_nat_eq_self)
    then have "take_bit 16 (sign XOR 0xDEAD) = sign XOR 0xDEAD" by (simp add: take_bit_xor)
    moreover have "unat (take_bit 16 (sign XOR 0xDEAD)) < 2 ^ 16" by (simp only: unsigned_take_bit_eq take_bit_nat_less_exp)
    ultimately show ?thesis by (simp add: word_less_nat_alt)
  qed
  ultimately show "word_at m (b + 2) = sign XOR 0xDEAD" using assms(1) word_at_le2 by (simp add: nv_head_def)
qed (use assms(1) word_at_le2 in \<open>simp_all add: nv_head_def\<close>)

definition taint_writes :: "bool \<Rightarrow> u32 \<Rightarrow> u16 \<Rightarrow> (u32 \<times> u8) list" where
  "taint_writes on b w = (if on then entries (b + 2) (le2 w) else [])"

lemma taint_ok:
  assumes "nv_owned v" "unat (nv_begin v) + 255 < unat (nv_limit v)"
  shows "\<exists>c a. nv_taint on w v = Some ((done_writes (taint_writes on (nv_begin v) w) v)\<lparr>nv_crc := c, nv_addr := a\<rparr>)"
proof (cases on)
  case True
  have "room (v\<lparr>nv_addr := nv_begin v + 2\<rparr>) (2 + 251)"
    using assms region_numeral [OF assms(2), of "Num.Bit0 Num.One"] by (simp add: room_def)
  note w = write_word_ok [OF this, of w]
  show ?thesis
    by (intro exI [of _ "foldl crc32_vak_byte (nv_crc v) (le2 w)"] exI [of _ "nv_begin v + 2 + 2"])
      (use w True in \<open>simp add: nv_taint_def taint_writes_def written_def done_writes_def\<close>)
next
  case False
  then show ?thesis by (intro exI [of _ "nv_crc v"] exI [of _ "nv_addr v"]) (simp add: nv_taint_def taint_writes_def done_writes_def)
qed

lemma begin_read_head:
  assumes st: "idle v" "fits v bs" "nv_head (nv_mem v) (nv_begin v) sign (length bs)" and sg: "sign_ok sign" "nvdata_is_compatible sign soft"
  shows "nvdata_begin_read rt soft v = Some (NVDATA_OK, (done_writes (taint_writes rt (nv_begin v) 0xDEAD) (nv_enter v))
      \<lparr>nv_end := nv_begin v, nv_sign := sign, nv_addr := nv_begin v + 10, nv_crc := NVDATA_CRC_INIT\<rparr>)"
proof -
  let ?b = "nv_begin v" and ?m = "nv_mem v"
  have region: "unat ?b + 255 < unat (nv_limit v)" and f: "fits v bs" and a: "nv_addr v = - 1"
    using st by (simp_all add: idle_def)
  have s: "sign < 0x10000" using sg(1) by (simp add: sign_ok_def)
  note h = head_words [OF st(3) s]
  let ?v0 = "(nv_enter v)\<lparr>nv_end := ?b, nv_sign := 0, nv_addr := ?b\<rparr>"
  have "room ?v0 (2 + (2 + (2 + 249)))" using region by (simp add: room_def nv_enter_def)
  note r1 = read_word_ok [OF this]
  note r2 = read_word_ok [OF conjunct2 [OF r1]]
  note r3 = read_word_ok [OF conjunct2 [OF r2]]
  let ?v3 = "skimmed 2 (skimmed 2 (skimmed 2 ?v0))"
  have w: "word_at (nv_mem ?v0) (nv_addr ?v0) = 0" "word_at (nv_mem (skimmed 2 ?v0)) (nv_addr (skimmed 2 ?v0)) = sign XOR 0xDEAD"
    "word_at (nv_mem (skimmed 2 (skimmed 2 ?v0))) (nv_addr (skimmed 2 (skimmed 2 ?v0))) = ucast (of_nat (10 + length bs) :: u16)"
    using h by (simp_all add: nv_enter_def add.assoc)
  have x: "sign XOR 0xDEAD \<noteq> 0" "sign XOR 0xDEAD \<noteq> 0xFFFF" "(sign XOR 0xDEAD) XOR 0xDEAD = sign" "sign \<noteq> 0"
  proof -
    show x3: "(sign XOR 0xDEAD) XOR 0xDEAD = sign" by (simp add: xor.assoc)
    show "sign XOR 0xDEAD \<noteq> 0" using sg(1) x3 by (auto simp: sign_ok_def)
    show "sign XOR 0xDEAD \<noteq> 0xFFFF" using sg(1) x3 by (auto simp: sign_ok_def)
    show "sign \<noteq> 0" using sg(1) by (simp add: sign_ok_def)
  qed
  have n: "ucast (of_nat (10 + length bs) :: u16) = (of_nat (10 + length bs) :: u32)"
    using f by (simp only: word_unat_eq_iff unsigned_ucast_eq unsigned_of_nat) (simp add: take_bit_nat_eq_self fits_def)
  have k: "of_nat (10 + length bs) + ?b = ?b + of_nat (10 + length bs)" by (rule add.commute)
  have u: "unat (?b + of_nat (10 + length bs)) = unat ?b + (10 + length bs)"
    using f u32_bound [of "nv_limit v"] unfolding fits_def by (intro unat_add_nat) linarith
  have va: "is_valid_addr ?v3 (of_nat (10 + length bs) + ?b) = True"
    using f u unfolding k by (simp add: is_valid_addr_def skimmed_def nv_enter_def k word_less_nat_alt word_le_nat_alt fits_def del: of_nat_add)
  have ge: "(of_nat (10 + length bs) + ?b < ?b + 10) = False"
    using u region_numeral [OF region, of "Num.Bit0 (Num.Bit1 (Num.Bit0 Num.One))"]
    by (simp add: skimmed_def nv_enter_def k word_less_nat_alt del: of_nat_add)
  obtain c a' where t: "nv_taint rt 0xDEAD (?v3\<lparr>nv_sign := sign\<rparr>) = Some ((done_writes (taint_writes rt ?b 0xDEAD) (?v3\<lparr>nv_sign := sign\<rparr>))\<lparr>nv_crc := c, nv_addr := a'\<rparr>)"
    using taint_ok [of "?v3\<lparr>nv_sign := sign\<rparr>" rt "0xDEAD"] region by (auto simp: skimmed_def nv_enter_def)
  have "nvdata_begin_read rt soft v = Some (NVDATA_OK, ((done_writes (taint_writes rt ?b 0xDEAD) (?v3\<lparr>nv_sign := sign\<rparr>))\<lparr>nv_crc := c, nv_addr := a'\<rparr>)
      \<lparr>nv_addr := ?b + 10, nv_crc := NVDATA_CRC_INIT\<rparr>)"
  proof -
    have b: "nv_begin ?v3 = ?b" "nv_begin (?v3\<lparr>nv_sign := sign\<rparr>) = ?b" by (simp_all add: skimmed_def nv_enter_def)
    have e: "nv_addr (nv_enter v) = - 1" "nv_begin (nv_enter v) = ?b" using a by (simp_all add: nv_enter_def)
    have c': "nvdata_is_compatible sign soft = True" using sg(2) by simp
    show ?thesis
      unfolding nvdata_begin_read_def Let_def e
      by (simp only: assert_c_simps simp_thms bind.bind_lunit prod.case r1 [THEN conjunct1] r2 [THEN conjunct1] r3 [THEN conjunct1] w x n c' va ge if_True if_False
        not_False_eq_True not_True_eq_False t b) (simp add: skimmed_def nv_enter_def)
  qed
  then show ?thesis by (simp add: skimmed_def done_writes_def nv_enter_def)
qed

lemmas begin_read_ok = begin_read_head [OF _ _ image_head]

lemma data_end:
  assumes "fits v bs"
  shows "unat (nv_begin v + of_nat (10 + length bs)) = unat (nv_begin v) + (10 + length bs)" "(nv_begin v + of_nat (10 + length bs) \<ge> nv_limit v) = False"
    "nv_begin v + of_nat (10 + length bs) \<noteq> - 1" "nv_begin v + 10 + of_nat (length bs) = nv_begin v + of_nat (10 + length bs)"
    "ucast (of_nat (10 + length bs) :: u16) = (of_nat (10 + length bs) :: u32)"
proof -
  have f: "unat (nv_begin v) + (10 + length bs) < unat (nv_limit v)" "10 + length bs < 65536" using assms by (simp_all add: fits_def)
  have "unat (nv_begin v) + (10 + length bs) < 2 ^ 32" using f(1) u32_bound [of "nv_limit v"] by linarith
  then show u: "unat (nv_begin v + of_nat (10 + length bs)) = unat (nv_begin v) + (10 + length bs)" by (rule unat_add_nat)
  then show l: "(nv_begin v + of_nat (10 + length bs) \<ge> nv_limit v) = False" using f(1) by (simp add: word_le_nat_alt)
  show "nv_begin v + of_nat (10 + length bs) \<noteq> - 1"
  proof
    assume "nv_begin v + of_nat (10 + length bs) = - 1"
    then show False using l by (simp del: of_nat_add)
  qed
  show "nv_begin v + 10 + of_nat (length bs) = nv_begin v + of_nat (10 + length bs)" by (simp add: add.assoc)
  show "ucast (of_nat (10 + length bs) :: u16) = (of_nat (10 + length bs) :: u32)"
    using f(2) by (simp only: word_unat_eq_iff unsigned_ucast_eq unsigned_of_nat) (simp add: take_bit_nat_eq_self)
qed

lemma finalize_read_ok:
  assumes v: "nv_owned v" "nv_addr v = nv_begin v + of_nat (10 + length bs)" "nv_crc v = foldl crc32_vak_byte NVDATA_CRC_INIT bs" "nv_sign v = sign"
    and region: "unat (nv_begin v) + 255 < unat (nv_limit v)" and f: "fits v bs"
    and m: "word_at (nv_mem v) (nv_begin v + 4) = ucast (of_nat (10 + length bs) :: u16)" "peek (nv_mem v) (nv_begin v + 4) 2 = le2 (of_nat (10 + length bs))"
      "dword_at (nv_mem v) (nv_begin v + 6) = nv_sum sign bs"
  shows "\<exists>c. nvdata_finalize_read rt v = Some (NVDATA_OK, (done_writes (taint_writes rt (nv_begin v) (ucast (sign XOR 0xDEAD))) v)
      \<lparr>nv_end := nv_begin v + of_nat (10 + length bs), nv_crc := c, nv_addr := NVDATA_BAD_ADDRESS, nv_owned := False, nv_held := nv_held v - 1\<rparr>)"
proof -
  let ?b = "nv_begin v" and ?n = "of_nat (10 + length bs) :: u32"
  let ?v1 = "nv_sign_crc (v\<lparr>nv_end := ?b\<rparr>)"
  let ?v2 = "?v1\<lparr>nv_addr := ?b + 4\<rparr>"
  have "room ?v2 (2 + (4 + 245))" using v(1) region region_numeral [OF region, of "Num.Bit0 (Num.Bit0 Num.One)"]
    by (simp add: room_def sign_crc)
  note r1 = read_word_ok [OF this]
  note r2 = read_dword_ok [OF conjunct2 [OF r1]]
  let ?v3 = "skimmed 2 ?v2" and ?v4 = "skimmed 4 (skimmed 2 ?v2)"
  have w: "word_at (nv_mem ?v2) (nv_addr ?v2) = ?n" "dword_at (nv_mem ?v3) (nv_addr ?v3) = nv_sum sign bs"
    using m data_end(5) [OF f] by (simp_all add: sign_crc add.commute)
  have c: "nv_crc ?v3 = nv_sum sign bs" using v(3,4) m(2) by (simp add: skimmed_def sign_crc nv_sum_def)
  have b: "nv_begin ?v1 = ?b" "nv_addr ?v1 = nv_addr v" "nv_begin ?v4 = ?b" "nv_sign ?v4 = sign" "nv_begin (v\<lparr>nv_end := ?b\<rparr>) = ?b"
    "nv_addr (v\<lparr>nv_end := ?b\<rparr>) = nv_addr v" "nv_limit (v\<lparr>nv_end := ?b\<rparr>) = nv_limit v"
    using v(4) by (simp_all add: skimmed_def sign_crc)
  obtain c' a' where t: "nv_taint rt (ucast (sign XOR 0xDEAD)) ?v4 = Some ((done_writes (taint_writes rt ?b (ucast (sign XOR 0xDEAD))) ?v4)\<lparr>nv_crc := c', nv_addr := a'\<rparr>)"
    using taint_ok [of ?v4 rt "ucast (sign XOR 0xDEAD)"] v(1) region by (auto simp: skimmed_def sign_crc)
  have l: "nv_addr v - ?b = ?n" "(nv_addr v = - 1) = False" "(nv_limit v \<le> nv_addr v) = False" "nv_owned v = True"
    using v(1) data_end [OF f] unfolding v(2) by simp_all
  have "nvdata_finalize_read rt v = nv_leave NVDATA_OK (((done_writes (taint_writes rt ?b (ucast (sign XOR 0xDEAD))) ?v4)\<lparr>nv_crc := c', nv_addr := a'\<rparr>)\<lparr>nv_end := ?b + ?n\<rparr>)"
    unfolding nvdata_finalize_read_def Let_def
    by (simp only: assert_c_simps simp_thms bind.bind_lunit prod.case b l w c r1 [THEN conjunct1] r2 [THEN conjunct1] if_True if_False t) (simp add: skimmed_def sign_crc)
  then show ?thesis
    by (intro exI [of _ c']) (simp add: nv_leave_def done_writes_def skimmed_def sign_crc)
qed

lemma taint_undone:
  assumes "peek m (b + 2) 2 = le2 w"
  shows "apply_log (apply_log m (taint_writes on b x)) (taint_writes on b w) = m"
proof -
  have "m (b + 2) = ucast w" "m (b + 3) = ucast (drop_bit 8 w)" using assms by (simp_all add: le2_def numeral_2_eq_2 add.assoc)
  then show ?thesis by (auto simp: taint_writes_def le2_def add.assoc)
qed

text \<open>A transaction has left its data, and where they end.\<close>

definition loaded :: "nvdata_t \<Rightarrow> u32 \<Rightarrow> u8 list \<Rightarrow> bool" where
  "loaded v sign bs \<longleftrightarrow> stored v sign bs \<and> nv_end v = nv_begin v + of_nat (10 + length bs) \<and> nv_sign v = sign"

lemma nv_read_ok:
  assumes st: "stored v sign bs" and sg: "sign_ok sign" "nvdata_is_compatible sign soft"
  shows "\<exists>w. nv_read rt soft (length bs) v = Some (NVDATA_OK, bs, w) \<and> loaded w sign bs \<and> nv_mem w = nv_mem v"
proof -
  let ?b = "nv_begin v"
  have region: "unat ?b + 255 < unat (nv_limit v)" and f: "fits v bs" and i: "nv_image (nv_mem v) ?b sign bs"
    using st by (simp_all add: stored_def idle_def)
  have s: "sign < 0x10000" using sg(1) by (simp add: sign_ok_def)
  let ?v1 = "(done_writes (taint_writes rt ?b 0xDEAD) (nv_enter v))\<lparr>nv_end := ?b, nv_sign := sign, nv_addr := ?b + 10, nv_crc := NVDATA_CRC_INIT\<rparr>"
  have u: "unat (?b + 2) = unat ?b + 2" "unat (?b + 4) = unat ?b + 4" "unat (?b + 6) = unat ?b + 6" "unat (?b + 10) = unat ?b + 10"
    using region_unat [OF region, of 2] region_unat [OF region, of 4] region_unat [OF region, of 6] region_unat [OF region, of 10] by simp_all
  have l: "unat (nv_limit v) < 2 ^ 32" by (rule u32_bound)
  have o4: "peek (nv_mem ?v1) a n = peek (nv_mem v) a n" if "unat a + n \<le> 2 ^ 32" "unat ?b + 4 \<le> unat a" for a n
    using that u region l peek_entries_other [of "?b + 2" "le2 0xDEAD" a n] by (simp add: taint_writes_def nv_enter_def)
  have "room ?v1 (length bs + 0)" using f u by (simp add: room_def fits_def nv_enter_def)
  note r = read_mem_ok [OF this, THEN conjunct1]
  let ?v2 = "skimmed (length bs) ?v1"
  have p: "peek (nv_mem ?v1) (?b + 10) (length bs) = bs" using o4 [of "?b + 10" "length bs"] i f u l by (simp add: nv_image_def fits_def)
  have p4: "peek (nv_mem ?v1) (?b + 4) 2 = le2 (of_nat (10 + length bs))" "peek (nv_mem ?v1) (?b + 6) 4 = le4 (nv_sum sign bs)"
    using o4 [of "?b + 4" 2] o4 [of "?b + 6" 4] i region l u by (simp_all add: nv_image_def)
  have b2: "nv_begin ?v2 = ?b" "nv_limit ?v2 = nv_limit v" "nv_mem ?v2 = nv_mem ?v1" by (simp_all add: skimmed_def nv_enter_def)
  have "\<exists>c. nvdata_finalize_read rt ?v2 = Some (NVDATA_OK, (done_writes (taint_writes rt (nv_begin ?v2) (ucast (sign XOR 0xDEAD))) ?v2)
      \<lparr>nv_end := nv_begin ?v2 + of_nat (10 + length bs), nv_crc := c, nv_addr := NVDATA_BAD_ADDRESS, nv_owned := False, nv_held := nv_held ?v2 - 1\<rparr>)"
  proof (rule finalize_read_ok)
    show "nv_crc ?v2 = foldl crc32_vak_byte NVDATA_CRC_INIT bs" using p by (simp add: skimmed_def)
    show "fits ?v2 bs" using f by (simp add: fits_def b2)
  qed (use region p4 word_at_le2 dword_at_le4 in \<open>simp_all add: b2, simp_all add: skimmed_def nv_enter_def add.assoc\<close>)
  then obtain c where fin: "nvdata_finalize_read rt ?v2 = Some (NVDATA_OK, (done_writes (taint_writes rt ?b (ucast (sign XOR 0xDEAD))) ?v2)
      \<lparr>nv_end := ?b + of_nat (10 + length bs), nv_crc := c, nv_addr := NVDATA_BAD_ADDRESS, nv_owned := False, nv_held := nv_held ?v2 - 1\<rparr>)"
    unfolding b2 by blast
  let ?w = "(done_writes (taint_writes rt ?b (ucast (sign XOR 0xDEAD))) ?v2)
      \<lparr>nv_end := ?b + of_nat (10 + length bs), nv_crc := c, nv_addr := NVDATA_BAD_ADDRESS, nv_owned := False, nv_held := nv_held ?v2 - 1\<rparr>"
  have mem: "nv_mem ?w = nv_mem v"
    using taint_undone [of "nv_mem v" ?b "ucast (sign XOR 0xDEAD)" rt "0xDEAD"] i by (simp add: nv_image_def nv_enter_def)
  have "nv_read rt soft (length bs) v = Some (NVDATA_OK, bs, ?w)"
    using begin_read_ok [OF _ f i sg, of rt] st r fin p by (simp add: nv_read_def stored_def)
  moreover have "loaded ?w sign bs"
    using st mem by (simp add: loaded_def stored_def idle_def fits_def skimmed_def nv_enter_def)
  ultimately show ?thesis using mem by blast
qed

lemma write_stores:
  assumes "idle v" "fits v bs"
  shows "\<exists>w. nv_write wt sign bs v = Some (NVDATA_OK, w) \<and> loaded w sign bs \<and> nv_begin w = nv_begin v \<and> nv_limit w = nv_limit v
    \<and> nv_mem w = apply_log (nv_mem v) (txn_writes wt (nv_begin v) sign bs) \<and> nv_log w = nv_log v @ txn_writes wt (nv_begin v) sign bs"
proof -
  obtain c where w: "nv_write wt sign bs v = Some (NVDATA_OK, (done_writes (txn_writes wt (nv_begin v) sign bs) v)
      \<lparr>nv_sign := sign, nv_end := nv_begin v + 10 + of_nat (length bs), nv_crc := c, nv_addr := NVDATA_BAD_ADDRESS, nv_owned := False\<rparr>)"
    using nv_write_ok [OF assms] by blast
  have "unat (nv_begin v) + 255 < unat (nv_limit v)" "unat (nv_begin v) + 10 + length bs < unat (nv_limit v)" "10 + length bs < 65536"
    using assms by (simp_all add: idle_def fits_def)
  note i = image_written [OF this, of "nv_mem v" wt sign]
  show ?thesis unfolding w
    using i assms by (simp add: loaded_def stored_def idle_def fits_def done_writes_def add.assoc)
qed

section \<open>A transaction that is cut off\<close>

text \<open>The power fails after so many of the bytes that the transaction from \<open>v\<close> to \<open>w\<close> writes.\<close>

definition cut_off :: "nat \<Rightarrow> nvdata_t \<Rightarrow> nvdata_t \<Rightarrow> nvdata_t" where
  "cut_off k v w = v\<lparr>nv_mem := apply_log (nv_mem v) (take k (drop (length (nv_log v)) (nv_log w)))\<rparr>"

text \<open>Length, sum and data of the region are the same.\<close>

definition same_data :: "nvdata_t \<Rightarrow> (u32 \<Rightarrow> u8) \<Rightarrow> (u32 \<Rightarrow> u8) \<Rightarrow> bool" where
  "same_data v m m' \<longleftrightarrow> (\<forall>a. unat (nv_begin v) + 4 \<le> unat a \<and> unat a < unat (nv_limit v) \<longrightarrow> m a = m' a)"

lemma apply_log_other: "a \<notin> fst ` set es \<Longrightarrow> apply_log m es a = m a"
  by (induction es arbitrary: m) (auto simp: apply_log_def)

lemma entries_addresses: "unat a + length cs \<le> 2 ^ 32 \<Longrightarrow> x \<in> fst ` set (entries a cs) \<Longrightarrow> unat a \<le> unat x \<and> unat x < unat a + length cs"
proof (induction cs arbitrary: a)
  case (Cons c cs)
  show ?case
  proof (cases "x = a")
    case False
    then have x: "x \<in> fst ` set (entries (a + 1) cs)" using Cons.prems(2) by simp
    then have "cs \<noteq> []" by auto
    then have "unat (a + 1) = unat a + 1" using unat_add_nat [of a 1] Cons.prems(1) by (cases cs) simp_all
    then show ?thesis using Cons.IH [OF _ x] Cons.prems(1) by simp
  qed simp
qed simp

lemma begin_read_total:
  assumes "idle v"
  shows "\<exists>r x. nvdata_begin_read rt soft v = Some (r, x) \<and> (r = NVDATA_OK \<longrightarrow> word_at (nv_mem v) (nv_begin v + 2) \<noteq> 0xDEAD)"
proof -
  let ?b = "nv_begin v"
  have region: "unat ?b + 255 < unat (nv_limit v)" and a: "nv_addr v = - 1" using assms by (simp_all add: idle_def)
  let ?v0 = "(nv_enter v)\<lparr>nv_end := ?b, nv_sign := 0, nv_addr := ?b\<rparr>"
  have "room ?v0 (2 + (2 + (2 + 249)))" using region by (simp add: room_def nv_enter_def)
  note r1 = read_word_ok [OF this]
  note r2 = read_word_ok [OF conjunct2 [OF r1]]
  note r3 = read_word_ok [OF conjunct2 [OF r2]]
  let ?v3 = "skimmed 2 (skimmed 2 (skimmed 2 ?v0))"
  have w: "word_at (nv_mem (skimmed 2 ?v0)) (nv_addr (skimmed 2 ?v0)) = word_at (nv_mem v) (?b + 2)" by (simp add: nv_enter_def)
  have t: "\<exists>y. nv_taint rt 0xDEAD (?v3\<lparr>nv_sign := s\<rparr>) = Some y" for s
    using taint_ok [of "?v3\<lparr>nv_sign := s\<rparr>" rt "0xDEAD"] region by (auto simp: skimmed_def nv_enter_def)
  have e: "nv_addr (nv_enter v) = - 1" "nv_begin (nv_enter v) = ?b" using a by (simp_all add: nv_enter_def)
  define safe where "safe p = (\<exists>r x. p = Some (r, x) \<and> (r = NVDATA_OK \<longrightarrow> word_at (nv_mem v) (?b + 2) \<noteq> 0xDEAD))"
    for p :: "(nv_reason \<times> nvdata_t) option"
  have safe_if: "safe (if c then p else q)" if "c \<Longrightarrow> safe p" "\<not> c \<Longrightarrow> safe q" for c p q using that by simp
  have leave: "safe (nv_leave r y)" if "r \<noteq> NVDATA_OK" for r y using that by (simp add: safe_def nv_leave_def)
  have "safe (nvdata_begin_read rt soft v)"
    unfolding nvdata_begin_read_def Let_def e
    apply (simp only: assert_c_simps simp_thms bind.bind_lunit prod.case r1 [THEN conjunct1] r2 [THEN conjunct1] r3 [THEN conjunct1] w)
    apply (intro safe_if leave; (simp; fail)?)
    subgoal premises prems
      using t [of "word_at (nv_mem v) (?b + 2) XOR 0xDEAD"] prems(3) by (auto simp: safe_def)
    done
  then show ?thesis by (simp only: safe_def)
qed

text \<open>The writes to the header, the data and the rest of the header, and what part of them leaves.\<close>

lemma cut_parts:
  assumes region: "unat b + 255 < unat l" and f: "unat b + 10 + length bs < unat (l :: u32)" "10 + length bs < 65536"
    and m: "mk = apply_log m (take k (txn_writes True b sign bs))"
  shows "(\<forall>a. unat b + 4 \<le> unat a \<longrightarrow> mk a = m a) \<or> word_at mk (b + 2) = 0xDEAD
    \<or> (\<forall>a. unat b + 4 \<le> unat a \<longrightarrow> mk a = apply_log m (txn_writes True b sign bs) a)"
proof -
  have u: "unat (b + 1) = unat b + 1" "unat (b + 2) = unat b + 2" "unat (b + 3) = unat b + 3" "unat (b + 4) = unat b + 4" "unat (b + 10) = unat b + 10"
    using region_unat [OF region, of 1] region_unat [OF region, of 2] region_unat [OF region, of 3] region_unat [OF region, of 4] region_unat [OF region, of 10]
    by simp_all
  have l: "unat l < 2 ^ 32" by (rule u32_bound)
  define H where "H = header_writes True b"
  define D where "D = entries (b + 10) bs @ entries (b + 4) (le2 (of_nat (10 + length bs)) @ le4 (nv_sum sign bs))"
  define S where "S = entries (b + 2) (le2 (ucast (sign XOR 0xDEAD)))"
  have t: "txn_writes True b sign bs = H @ D @ S" by (simp add: txn_writes_def final_writes_def H_def D_def S_def)
  have low: "unat x < unat b + 4" if "x \<in> fst ` set (H @ S)" for x
  proof -
    have "x \<in> fst ` set (entries b [0, 0, 0xAD, 0xDE]) \<or> x \<in> fst ` set (entries (b + 2) (le2 (ucast (sign XOR 0xDEAD))))"
      using that by (simp add: H_def S_def header_writes_def image_Un del: entries.simps)
    then show ?thesis
      using entries_addresses [of b "[0, 0, 0xAD, 0xDE]" x] entries_addresses [of "b + 2" "le2 (ucast (sign XOR 0xDEAD))" x] region l u
      by (elim disjE) (simp_all del: entries.simps)
  qed
  have high: "unat b + 4 \<le> unat x" if "x \<in> fst ` set D" for x
  proof -
    have "x \<in> fst ` set (entries (b + 10) bs) \<or> x \<in> fst ` set (entries (b + 4) (le2 (of_nat (10 + length bs)) @ le4 (nv_sum sign bs)))"
      using that by (simp add: D_def image_Un)
    then show ?thesis
      using entries_addresses [of "b + 10" bs x] entries_addresses [of "b + 4" "le2 (of_nat (10 + length bs)) @ le4 (nv_sum sign bs)" x] region l u f
      by (elim disjE) simp_all
  qed
  have len: "length H = 4" by (simp add: H_def header_writes_def)
  consider "k \<le> 4" | "4 < k" "k \<le> 4 + length D" | "4 + length D < k" by linarith
  then show ?thesis
  proof cases
    case 1
    then have "mk = apply_log m (take k H)" using m len by (simp add: t)
    moreover have "a \<notin> fst ` set (take k H)" if "unat b + 4 \<le> unat a" for a
      using low [of a] that set_take_subset [of k H] by (auto simp: image_Un)
    ultimately show ?thesis using apply_log_other by blast
  next
    case 2
    then have mk: "mk = apply_log (apply_log m H) (take (k - 4) D)" using m len by (simp add: t)
    have "mk a = apply_log m H a" if "unat a < unat b + 4" for a
      unfolding mk using high [of a] that set_take_subset [of "k - 4" D] by (intro apply_log_other) auto
    moreover have "apply_log m H (b + 2) = 0xAD" "apply_log m H (b + 3) = 0xDE" by (simp_all add: H_def header_writes_def add.assoc)
    ultimately have "mk (b + 2) = 0xAD" "mk (b + 3) = 0xDE" using u by simp_all
    then have "word_at mk (b + 2) = 0xDEAD" by (simp add: word_at_def add.assoc)
    then show ?thesis by blast
  next
    case 3
    then have mk: "mk = apply_log (apply_log m (H @ D)) (take (k - 4 - length D) S)" using m len by (simp add: t)
    have "mk a = apply_log m (H @ D @ S) a" if "unat b + 4 \<le> unat a" for a
    proof -
      have "a \<notin> fst ` set S" "a \<notin> fst ` set (take (k - 4 - length D) S)"
        using low [of a] that set_take_subset [of "k - 4 - length D" S] by (auto simp: image_Un)
      then show ?thesis unfolding mk using apply_log_other by simp
    qed
    then show ?thesis unfolding t by blast
  qed
qed

section \<open>An update\<close>

definition nv_update :: "bool \<Rightarrow> nat \<Rightarrow> u8 list \<Rightarrow> nvdata_t \<Rightarrow> (nv_reason \<times> nvdata_t) option" where
  "nv_update wt pos cs v = do {
     (reason, v) \<leftarrow> nvdata_begin_update wt (10 + of_nat pos) v;
     if reason \<noteq> NVDATA_OK then Some (reason, v) else do { v \<leftarrow> nvdata_write_mem cs v; nvdata_finalize_update wt v }
   }"

definition patch :: "nat \<Rightarrow> 'a list \<Rightarrow> 'a list \<Rightarrow> 'a list" where
  "patch pos cs bs = take pos bs @ cs @ drop (pos + length cs) bs"

lemma length_patch [simp]: "pos + length cs \<le> length bs \<Longrightarrow> length (patch pos cs bs) = length bs"
  by (simp add: patch_def)

lemma peek_part: "peek m a n = bs \<Longrightarrow> i + k \<le> n \<Longrightarrow> peek m (a + of_nat i) k = take k (drop i bs)"
proof -
  assume p: "peek m a n = bs" and k: "i + k \<le> n"
  have "peek m a (i + (k + (n - i - k))) = bs" using p k by simp
  then have "peek m a i @ peek m (a + of_nat i) k @ peek m (a + of_nat i + of_nat k) (n - i - k) = bs" by (simp only: peek_add)
  then have "drop i bs = peek m (a + of_nat i) k @ peek m (a + of_nat i + of_nat k) (n - i - k)" by (metis append_eq_conv_conj length_peek)
  then show ?thesis by simp
qed

lemma read_until_ok: "room v n \<Longrightarrow> nv_read_until (nv_addr v + of_nat n) v = Some (skimmed n v) \<and> room (skimmed n v) 0"
proof (induction n arbitrary: v)
  case 0
  then show ?case by (simp add: nv_read_until.simps)
next
  case (Suc n)
  note r = read_byte_ok [OF Suc.prems]
  have "unat (nv_addr v + of_nat (Suc n)) = unat (nv_addr v) + Suc n" using room_bound [OF Suc.prems] by (rule unat_add_nat)
  then have "nv_addr v < nv_addr v + of_nat (Suc n)" by (simp add: word_less_nat_alt del: of_nat_Suc)
  moreover have "nv_read_until (nv_addr v + of_nat (Suc n)) (skimmed 1 v) = Some (skimmed n (skimmed 1 v)) \<and> room (skimmed n (skimmed 1 v)) 0"
    using Suc.IH [OF conjunct2 [OF r]] by (simp add: add.assoc)
  moreover have "skimmed (Suc n) v = skimmed n (skimmed 1 v)" using skimmed_add [of 1 n v] by simp
  ultimately show ?case using r by (simp add: nv_read_until.simps [of "nv_addr v + of_nat (Suc n)" v] del: of_nat_Suc)
qed

lemma room_less: "room v (n + k) \<Longrightarrow> room v n"
  by (simp add: room_def)

lemma begin_update_ok:
  fixes wt :: bool
  assumes l: "loaded v sign bs" and p: "pos \<le> length bs"
  defines "m1 \<equiv> apply_log (nv_mem v) (taint_writes wt (nv_begin v) 0xDEAD)"
  shows "nvdata_begin_update wt (10 + of_nat pos) v = Some (NVDATA_OK, (done_writes (taint_writes wt (nv_begin v) 0xDEAD) (nv_enter v))
      \<lparr>nv_addr := nv_begin v + 10 + of_nat pos, nv_crc := foldl crc32_vak_byte NVDATA_CRC_INIT (peek m1 (nv_begin v + 10) pos)\<rparr>)"
proof -
  let ?b = "nv_begin v" and ?n = "of_nat (10 + length bs) :: u32"
  have region: "unat ?b + 255 < unat (nv_limit v)" and a: "nv_addr v = - 1" and f: "fits v bs" and e: "nv_end v = ?b + ?n"
    using l by (simp_all add: loaded_def stored_def idle_def)
  note d = data_end [OF f]
  have n: "unat ?n = 10 + length bs" using f by (intro unat_of_nat_small) (simp add: fits_def)
  have q: "unat (10 + of_nat pos :: u32) = 10 + pos"
  proof -
    have "unat (of_nat (10 + pos) :: u32) = 10 + pos" using f p by (intro unat_of_nat_small) (simp add: fits_def)
    then show ?thesis by simp
  qed
  have ne: "?b + ?n \<noteq> ?b" using n by auto
  let ?v0 = "nv_enter v"
  have va: "nvdata_is_valid_addr ?v0 (10 + of_nat pos) = Some True"
    using e n q p by (simp add: nvdata_is_valid_addr_def nv_enter_def word_le_nat_alt del: of_nat_add)
  obtain c' a' where t: "nv_taint wt 0xDEAD ?v0 = Some ((done_writes (taint_writes wt ?b 0xDEAD) ?v0)\<lparr>nv_crc := c', nv_addr := a'\<rparr>)"
    using taint_ok [of ?v0 wt "0xDEAD"] region by (auto simp: nv_enter_def)
  let ?v1 = "((done_writes (taint_writes wt ?b 0xDEAD) ?v0)\<lparr>nv_crc := c', nv_addr := a'\<rparr>)\<lparr>nv_addr := ?b + 10, nv_crc := NVDATA_CRC_INIT\<rparr>"
  have u: "unat (?b + 10) = unat ?b + 10" using region_unat [OF region, of 10] by simp
  have "room ?v1 pos" using f p u by (simp add: room_def nv_enter_def fits_def)
  note r = read_until_ok [OF this, THEN conjunct1]
  have k: "10 + of_nat pos + ?b = nv_addr ?v1 + of_nat pos" by (simp add: ac_simps)
  have s: "nv_addr ?v0 = - 1" "nv_end ?v0 = ?b + ?n" "nv_begin ?v0 = ?b" "nv_begin ((done_writes (taint_writes wt ?b 0xDEAD) ?v0)\<lparr>nv_crc := c', nv_addr := a'\<rparr>) = ?b"
    using a e by (simp_all add: nv_enter_def)
  have "nvdata_begin_update wt (10 + of_nat pos) v = Some (NVDATA_OK, skimmed pos ?v1)"
    unfolding nvdata_begin_update_def Let_def s
    by (simp only: assert_c_simps simp_thms ne bind.bind_lunit va t s k r if_False if_True not_True_eq_False)
  then show ?thesis by (simp add: skimmed_def m1_def nv_enter_def done_writes_def)
qed

lemma finalize_update_ok:
  assumes v: "nv_owned v" "nv_addr v = nv_begin v + 10 + of_nat k" "nv_crc v = foldl crc32_vak_byte NVDATA_CRC_INIT (peek (nv_mem v) (nv_begin v + 10) k)"
      "nv_sign v = sign" "nv_end v = nv_begin v + of_nat (10 + length bs)" "k \<le> length bs"
    and region: "unat (nv_begin v) + 255 < unat (nv_limit v)" and f: "fits v bs"
    and m: "peek (nv_mem v) (nv_begin v + 4) 2 = le2 (of_nat (10 + length bs))" "peek (nv_mem v) (nv_begin v + 10) (length bs) = bs"
  shows "\<exists>c. nvdata_finalize_update wt v = Some (NVDATA_OK,
      (done_writes (entries (nv_begin v + 6) (le4 (nv_sum sign bs)) @ taint_writes wt (nv_begin v) (ucast (sign XOR 0xDEAD))) v)
      \<lparr>nv_crc := c, nv_addr := NVDATA_BAD_ADDRESS, nv_owned := False, nv_held := nv_held v - 1\<rparr>)"
proof -
  let ?b = "nv_begin v" and ?n = "of_nat (10 + length bs) :: u32"
  note d = data_end [OF f]
  have f': "unat ?b + (10 + length bs) < unat (nv_limit v)" using f by (simp add: fits_def)
  have u10: "unat (?b + 10) = unat ?b + 10" using region_unat [OF region, of 10] by simp
  have ka: "nv_addr v = ?b + of_nat (10 + k)" unfolding v(2) by (simp add: add.assoc)
  have ku: "unat (nv_addr v) = unat ?b + (10 + k)"
    unfolding ka using f' v(6) u32_bound [of "nv_limit v"] by (intro unat_add_nat) linarith
  have eu: "unat (nv_end v) = unat ?b + (10 + length bs)" unfolding v(5) by (rule d(1))
  have c1: "(nv_addr v = - 1) = False" "(nv_end v = ?b) = False" "(?b + 10 \<le> nv_addr v) = True" "(nv_addr v \<le> nv_end v) = True"
    "(nv_addr v < ?b + 10) = False" "(nv_addr v > nv_end v) = False"
  proof -
    have "\<not> nv_limit v \<le> nv_addr v" using ku f' v(6) by (simp add: word_le_nat_alt)
    then show "(nv_addr v = - 1) = False" by auto
    show "(nv_end v = ?b) = False" using eu by auto
  qed (use ku eu u10 v(6) in \<open>simp_all add: word_le_nat_alt word_less_nat_alt\<close>)
  have room: "room v ((length bs - k) + 0)" using v(1,6) ku f' by (simp add: room_def)
  have to_end: "nv_end v = nv_addr v + of_nat (length bs - k)"
  proof -
    have "10 + length bs = (10 + k) + (length bs - k)" using v(6) by simp
    then have "?b + ?n = ?b + of_nat ((10 + k) + (length bs - k))" by (simp only:)
    then show ?thesis unfolding v(5) ka by (simp only: of_nat_add add.assoc)
  qed
  note r0 = read_until_ok [OF room_less [OF room], THEN conjunct1]
  let ?v1 = "nv_sign_crc (skimmed (length bs - k) v)"
  have s1: "nv_crc ?v1 = foldl crc32_vak_byte NVDATA_CRC_INIT (bs @ le2 (ucast sign))"
  proof -
    have "peek (nv_mem v) (?b + 10) (k + (length bs - k)) = bs" using m(2) v(6) by simp
    then have "peek (nv_mem v) (?b + 10) k @ peek (nv_mem v) (nv_addr v) (length bs - k) = bs" by (simp only: peek_add v(2))
    then have "foldl crc32_vak_byte NVDATA_CRC_INIT bs = foldl crc32_vak_byte (nv_crc v) (peek (nv_mem v) (nv_addr v) (length bs - k))"
      unfolding v(3) by (metis foldl_append)
    then show ?thesis using v(4) by (simp add: sign_crc skimmed_def)
  qed
  let ?v2 = "?v1\<lparr>nv_addr := ?b + 4\<rparr>"
  have "room ?v2 (2 + (4 + 245))" using v(1) region region_numeral [OF region, of "Num.Bit0 (Num.Bit0 Num.One)"]
    by (simp add: room_def sign_crc skimmed_def)
  note r1 = read_word_ok [OF this]
  let ?v3 = "skimmed 2 ?v2"
  have c: "nv_crc ?v3 = nv_sum sign bs" using s1 m(1) by (simp add: skimmed_def sign_crc nv_sum_def)
  note r2 = write_dword_ok [OF conjunct2 [OF r1], of "nv_sum sign bs"]
  let ?v4 = "written (le4 (nv_sum sign bs)) ?v3"
  have b: "nv_begin ?v1 = ?b" "nv_sign ?v4 = sign" "nv_begin ?v4 = ?b"
    using v(4) by (simp_all add: skimmed_def sign_crc)
  obtain c' a' where t: "nv_taint wt (ucast (sign XOR 0xDEAD)) ?v4 = Some ((done_writes (taint_writes wt ?b (ucast (sign XOR 0xDEAD))) ?v4)\<lparr>nv_crc := c', nv_addr := a'\<rparr>)"
    using taint_ok [of ?v4 wt "ucast (sign XOR 0xDEAD)"] v(1) region by (auto simp: skimmed_def sign_crc)
  have o: "nv_owned v = True" using v(1) by simp
  have "nvdata_finalize_update wt v = nv_leave NVDATA_OK ((done_writes (taint_writes wt ?b (ucast (sign XOR 0xDEAD))) ?v4)\<lparr>nv_crc := c', nv_addr := a'\<rparr>)"
    unfolding nvdata_finalize_update_def Let_def
    by (simp only: assert_c_simps simp_thms c1 o bind.bind_lunit r0 to_end [symmetric] b c r1 [THEN conjunct1] r2 [THEN conjunct1] prod.case if_False t)
      (simp only: to_end r0 bind.bind_lunit b c r1 [THEN conjunct1] r2 [THEN conjunct1] prod.case t)
  then show ?thesis
    by (intro exI [of _ c']) (simp add: nv_leave_def done_writes_def skimmed_def sign_crc written_def add.commute)
qed

lemma update_ok:
  fixes wt :: bool
  assumes l: "loaded v sign bs" and p: "pos + length cs \<le> length bs"
  shows "\<exists>w. nv_update wt pos cs v = Some (NVDATA_OK, w) \<and> loaded w sign (patch pos cs bs)"
proof -
  let ?b = "nv_begin v" and ?bs = "patch pos cs bs"
  have region: "unat ?b + 255 < unat (nv_limit v)" and f: "fits v bs" and e: "nv_end v = ?b + of_nat (10 + length bs)"
    and i: "nv_image (nv_mem v) ?b sign bs" and sg: "nv_sign v = sign"
    using l by (simp_all add: loaded_def stored_def idle_def)
  have lim: "unat (nv_limit v) < 2 ^ 32" by (rule u32_bound)
  have f': "unat ?b + 10 + length bs < unat (nv_limit v)" using f by (simp add: fits_def)
  have u: "unat (?b + 2) = unat ?b + 2" "unat (?b + 4) = unat ?b + 4" "unat (?b + 6) = unat ?b + 6" "unat (?b + 10) = unat ?b + 10"
    using region_unat [OF region, of 2] region_unat [OF region, of 4] region_unat [OF region, of 6] region_unat [OF region, of 10] by simp_all
  have a: "?b + 10 + of_nat j = ?b + of_nat (10 + j)" for j by (simp add: add.assoc)
  have up: "unat (?b + 10 + of_nat j) = unat ?b + (10 + j)" if "j \<le> length bs" for j
    unfolding a using f' lim that by (intro unat_add_nat) linarith
  define T1 where "T1 = taint_writes wt ?b 0xDEAD"
  define T2 where "T2 = taint_writes wt ?b (ucast (sign XOR 0xDEAD))"
  define C where "C = entries (?b + 10 + of_nat pos) cs"
  define S where "S = entries (?b + 6) (le4 (nv_sum sign ?bs))"
  define m1 where "m1 = apply_log (nv_mem v) T1"
  define m2 where "m2 = apply_log m1 C"
  define m3 where "m3 = apply_log m2 S"
  define m4 where "m4 = apply_log m3 T2"
  have taint: "peek (apply_log m (taint_writes wt ?b w)) x n = peek m x n" if "unat x + n \<le> unat ?b + 2 \<or> unat ?b + 4 \<le> unat x" "unat x + n \<le> 2 ^ 32" for m w x n
    using that region lim u peek_entries_other [of "?b + 2" "le2 w" x n] by (auto simp: taint_writes_def)
  have o2: "peek m2 x n = peek m1 x n" if "unat x + n \<le> unat ?b + 10 + pos \<or> unat ?b + 10 + pos + length cs \<le> unat x" "unat x + n \<le> 2 ^ 32" for x n
    unfolding m2_def C_def using that p f' lim up [of pos] by (intro peek_entries_other) auto
  have o3: "peek m3 x n = peek m2 x n" if "unat x + n \<le> unat ?b + 6 \<or> unat ?b + 10 \<le> unat x" "unat x + n \<le> 2 ^ 32" for x n
    unfolding m3_def S_def using that region lim u by (intro peek_entries_other) auto
  have data1: "peek m1 (?b + 10) (length bs) = bs" using taint i u f' lim by (simp add: m1_def T1_def nv_image_def)
  have data2: "peek m2 (?b + 10) (length bs) = ?bs"
  proof -
    have "length bs = pos + (length cs + (length bs - pos - length cs))" using p by simp
    then have "peek m2 (?b + 10) (length bs)
      = peek m2 (?b + 10) pos @ peek m2 (?b + 10 + of_nat pos) (length cs) @ peek m2 (?b + 10 + of_nat (pos + length cs)) (length bs - pos - length cs)"
      by (metis (no_types, lifting) peek_add of_nat_add add.assoc)
    moreover have "peek m2 (?b + 10) pos = take pos bs"
      using o2 [of "?b + 10" pos] peek_part [OF data1, of 0 pos] p u f' lim by simp
    moreover have "peek m2 (?b + 10 + of_nat pos) (length cs) = cs"
      unfolding m2_def C_def using p up [of pos] f' lim by (intro peek_entries) simp
    moreover have "peek m2 (?b + 10 + of_nat (pos + length cs)) (length bs - pos - length cs) = drop (pos + length cs) bs"
      using o2 [of "?b + 10 + of_nat (pos + length cs)" "length bs - pos - length cs"] peek_part [OF data1, of "pos + length cs" "length bs - pos - length cs"]
        p up [of "pos + length cs"] f' lim by (simp del: of_nat_add)
    ultimately show ?thesis by (simp add: patch_def)
  qed
  have img: "nv_image m4 ?b sign ?bs"
  proof -
    have "peek m4 ?b 2 = [0, 0]" using taint o3 [of ?b 2] o2 [of ?b 2] i region lim u by (simp add: m4_def T2_def m1_def T1_def nv_image_def)
    moreover have "peek m4 (?b + 2) 2 = le2 (ucast (sign XOR 0xDEAD))"
      using o3 [of "?b + 2" 2] o2 [of "?b + 2" 2] i region lim u peek_entries [of "?b + 2" "le2 (ucast (sign XOR 0xDEAD))" m3]
      by (simp add: m4_def T2_def m1_def T1_def nv_image_def taint_writes_def split: if_splits)
    moreover have "peek m4 (?b + 4) 2 = le2 (of_nat (10 + length bs))"
      using taint o3 [of "?b + 4" 2] o2 [of "?b + 4" 2] i region lim u by (simp add: m4_def T2_def m1_def T1_def nv_image_def)
    moreover have "peek m4 (?b + 6) 4 = le4 (nv_sum sign ?bs)"
      using taint region lim u peek_entries [of "?b + 6" "le4 (nv_sum sign ?bs)" m2] by (simp add: m4_def T2_def m3_def S_def)
    moreover have "peek m4 (?b + 10) (length bs) = ?bs"
      using taint o3 [of "?b + 10" "length bs"] data2 u f' lim by (simp add: m4_def T2_def)
    ultimately show ?thesis using p by (simp add: nv_image_def)
  qed
  let ?v1 = "(done_writes T1 (nv_enter v))\<lparr>nv_addr := ?b + 10 + of_nat pos, nv_crc := foldl crc32_vak_byte NVDATA_CRC_INIT (peek m1 (?b + 10) pos)\<rparr>"
  have b: "nvdata_begin_update wt (10 + of_nat pos) v = Some (NVDATA_OK, ?v1)"
    using begin_update_ok [OF l, of pos wt] p by (simp add: T1_def m1_def)
  have "room ?v1 (length cs + 0)" using up [of pos] p f' by (simp add: room_def nv_enter_def)
  note w = write_mem_ok [OF this, THEN conjunct1]
  let ?v2 = "written cs ?v1"
  have v2: "nv_begin ?v2 = ?b" "nv_limit ?v2 = nv_limit v" "nv_mem ?v2 = m2" "nv_owned ?v2" "nv_sign ?v2 = sign" "nv_end ?v2 = ?b + of_nat (10 + length bs)"
    using sg e by (simp_all add: nv_enter_def m2_def C_def m1_def)
  have crc: "nv_crc ?v2 = foldl crc32_vak_byte NVDATA_CRC_INIT (peek m2 (?b + 10) (pos + length cs))"
  proof -
    have "peek m2 (?b + 10) pos = peek m1 (?b + 10) pos" using o2 [of "?b + 10" pos] p u f' lim by simp
    moreover have "peek m2 (?b + 10 + of_nat pos) (length cs) = cs"
      unfolding m2_def C_def using p up [of pos] f' lim by (intro peek_entries) simp
    ultimately show ?thesis by (simp add: peek_add)
  qed
  have "\<exists>c. nvdata_finalize_update wt ?v2 = Some (NVDATA_OK,
      (done_writes (entries (nv_begin ?v2 + 6) (le4 (nv_sum sign ?bs)) @ taint_writes wt (nv_begin ?v2) (ucast (sign XOR 0xDEAD))) ?v2)
      \<lparr>nv_crc := c, nv_addr := NVDATA_BAD_ADDRESS, nv_owned := False, nv_held := nv_held ?v2 - 1\<rparr>)"
  proof (rule finalize_update_ok)
    show "nv_addr ?v2 = nv_begin ?v2 + 10 + of_nat (pos + length cs)" unfolding v2 by (simp add: add.assoc)
    show "nv_crc ?v2 = foldl crc32_vak_byte NVDATA_CRC_INIT (peek (nv_mem ?v2) (nv_begin ?v2 + 10) (pos + length cs))" unfolding v2 by (rule crc)
    show "fits ?v2 ?bs" using f p unfolding fits_def v2 by simp
    show "peek (nv_mem ?v2) (nv_begin ?v2 + 10) (length ?bs) = ?bs" unfolding v2 using data2 p by simp
    have "peek m2 (?b + 4) 2 = le2 (of_nat (10 + length bs))"
      using taint o2 [of "?b + 4" 2] i region lim u by (simp add: m1_def T1_def nv_image_def)
    then show "peek (nv_mem ?v2) (nv_begin ?v2 + 4) 2 = le2 (of_nat (10 + length ?bs))" unfolding v2 using p by simp
  qed (use v2 p region in simp_all)
  then obtain c where fin: "nvdata_finalize_update wt ?v2 = Some (NVDATA_OK,
      (done_writes (S @ T2) ?v2)\<lparr>nv_crc := c, nv_addr := NVDATA_BAD_ADDRESS, nv_owned := False, nv_held := nv_held ?v2 - 1\<rparr>)"
    unfolding v2 S_def T2_def by blast
  let ?w = "(done_writes (S @ T2) ?v2)\<lparr>nv_crc := c, nv_addr := NVDATA_BAD_ADDRESS, nv_owned := False, nv_held := nv_held ?v2 - 1\<rparr>"
  have "nv_update wt pos cs v = Some (NVDATA_OK, ?w)" using b w fin by (simp add: nv_update_def)
  moreover have "loaded ?w sign ?bs"
  proof -
    have "nv_mem ?w = m4" using v2(3) by (simp add: m4_def m3_def)
    then show ?thesis using img l p v2 by (simp add: loaded_def stored_def idle_def fits_def)
  qed
  ultimately show ?thesis by blast
qed

end
