(* ===== verification/Nvdata_Safe.thy ===== *)
theory Nvdata_Safe
  imports Nvdata_Props
begin

text \<open>
  The settings in non-volatile memory: a store of bytes that are written as a whole and updated in parts, and that survives a loss of
  power when its transactions are marked; when they are not marked, torn data are handed out.
\<close>

section \<open>A store of settings\<close>

fun nv_updates :: "bool \<Rightarrow> (nat \<times> u8 list) list \<Rightarrow> nvdata_t \<Rightarrow> (nv_reason \<times> nvdata_t) option" where
  "nv_updates wt [] v = Some (NVDATA_OK, v)"
| "nv_updates wt ((pos, cs) # us) v = do {
     (reason, v) \<leftarrow> nv_update wt pos cs v;
     if reason \<noteq> NVDATA_OK then Some (reason, v) else nv_updates wt us v
   }"

fun patches :: "(nat \<times> 'a list) list \<Rightarrow> 'a list \<Rightarrow> 'a list" where
  "patches [] bs = bs"
| "patches ((pos, cs) # us) bs = patches us (patch pos cs bs)"

lemma updates_ok:
  "loaded v sign bs \<Longrightarrow> \<forall>(pos, cs) \<in> set us. pos + length cs \<le> length bs \<Longrightarrow>
    \<exists>w. nv_updates wt us v = Some (NVDATA_OK, w) \<and> loaded w sign (patches us bs) \<and> length (patches us bs) = length bs"
proof (induction us arbitrary: v bs)
  case (Cons u us)
  obtain pos cs where u: "u = (pos, cs)" by (metis surj_pair)
  have p: "pos + length cs \<le> length bs" using Cons.prems(2) u by simp
  obtain w where w: "nv_update wt pos cs v = Some (NVDATA_OK, w)" "loaded w sign (patch pos cs bs)"
    using update_ok [OF Cons.prems(1) p] by blast
  have "\<forall>(pos', cs') \<in> set us. pos' + length cs' \<le> length (patch pos cs bs)" using Cons.prems(2) p by simp
  then show ?case using Cons.IH [OF w(2)] w(1) p u by simp
qed simp

text \<open>C32: Data that a transaction has written, and that any number of updates inside them have changed in part, are read back as the
  data with these parts replaced, whether transactions are marked or not. The signature must not be one of the three values that stand
  for an empty region and for a broken transaction, and the data must leave a byte of the region free.\<close>

theorem settings_read_back:
  assumes "idle v" "fits v bs" "sign_ok sign" "nvdata_is_compatible sign soft" "\<forall>(pos, cs) \<in> set us. pos + length cs \<le> length bs"
  shows "\<exists>w x y. nv_write wt sign bs v = Some (NVDATA_OK, w) \<and> nv_updates wt us w = Some (NVDATA_OK, x)
    \<and> nv_read rt soft (length bs) x = Some (NVDATA_OK, patches us bs, y) \<and> nv_mem y = nv_mem x"
proof -
  obtain w where w: "nv_write wt sign bs v = Some (NVDATA_OK, w)" "loaded w sign bs" using write_stores [OF assms(1,2)] by blast
  obtain x where x: "nv_updates wt us w = Some (NVDATA_OK, x)" "loaded x sign (patches us bs)" "length (patches us bs) = length bs"
    using updates_ok [OF w(2) assms(5)] by blast
  show ?thesis using w(1) x nv_read_ok [of x sign "patches us bs" soft rt] assms(3,4) by (auto simp: loaded_def)
qed

definition sample_nv :: nvdata_t where
  "sample_nv = \<lparr>nv_crc = 0, nv_addr = - 1, nv_begin = 64, nv_limit = 512, nv_end = 64, nv_sign = 0, nv_owned = False, nv_held = 0,
     nv_mem = (\<lambda>_. 0xFF), nv_log = []\<rparr>"

lemma sample_nv_ok: "idle sample_nv" "length bs < 400 \<Longrightarrow> fits sample_nv bs" "sign_ok 0x1234" "nvdata_is_compatible 0x1234 0x1235"
  by (simp_all add: sample_nv_def idle_def fits_def sign_ok_def nvdata_is_compatible_def)

theorem settings_read_back_witness:
  "\<exists>w x y. nv_write True 0x1234 [1, 2, 3, 4] sample_nv = Some (NVDATA_OK, w) \<and> nv_updates True [(1, [7, 8]), (3, [9])] w = Some (NVDATA_OK, x)
    \<and> nv_read False 0x1235 4 x = Some (NVDATA_OK, [1, 7, 8, 9], y) \<and> nv_mem y = nv_mem x"
proof -
  let ?us = "[(1, [7, 8]), (3, [9])] :: (nat \<times> u8 list) list"
  have p: "patches ?us [1, 2, 3, 4] = [1, 7, 8, 9]" "length [1, 2, 3, 4 :: u8] = 4" by (simp_all add: patch_def)
  have b: "\<forall>(pos, cs) \<in> set ?us. pos + length cs \<le> length [1, 2, 3, 4 :: u8]" by simp
  have f: "fits sample_nv [1, 2, 3, 4]" using sample_nv_ok(2) by simp
  show ?thesis using settings_read_back [OF sample_nv_ok(1) f sample_nv_ok(3,4) b, of True False, unfolded p] by blast
qed

section \<open>Loss of power\<close>

lemma init_ok:
  assumes "unat b + 255 < unat l"
  shows "\<exists>u. nvdata_init b l v = Some u \<and> idle u \<and> nv_begin u = b \<and> nv_limit u = l \<and> nv_mem u = nv_mem v"
proof -
  have bl: "b < l" "unat (l - b) = unat l - unat b" using assms by (simp_all add: word_less_nat_alt unat_diff_u32)
  then have "l - b > 255" using assms by (simp add: word_less_nat_alt)
  then show ?thesis using bl(1) assms
    by (simp add: nvdata_init_def nvdata_is_valid_addr_def is_valid_addr_def nv_enter_def idle_def Let_def)
qed

text \<open>C33: With marked transactions, the power may fail after any byte that a transaction writes: after the restart
  \<open>nvdata_begin_read\<close> either reports an error, or the region holds all of the data of before, or all of the new ones.\<close>

theorem power_loss_keeps_settings:
  assumes "idle v" "fits v bs" "nv_write True sign bs v = Some (NVDATA_OK, w)"
  shows "\<exists>u r x. nvdata_init (nv_begin v) (nv_limit v) (cut_off k v w) = Some u \<and> nvdata_begin_read rt soft u = Some (r, x)
    \<and> (r = NVDATA_OK \<longrightarrow> same_data v (nv_mem u) (nv_mem v) \<or> same_data v (nv_mem u) (nv_mem w))"
proof -
  have region: "unat (nv_begin v) + 255 < unat (nv_limit v)" using assms(1) by (simp add: idle_def)
  have w: "nv_mem w = apply_log (nv_mem v) (txn_writes True (nv_begin v) sign bs)" "nv_log w = nv_log v @ txn_writes True (nv_begin v) sign bs"
    using write_stores [OF assms(1,2), of True sign] assms(3) by auto
  obtain u where u: "nvdata_init (nv_begin v) (nv_limit v) (cut_off k v w) = Some u" "idle u" "nv_begin u = nv_begin v"
    "nv_mem u = apply_log (nv_mem v) (take k (txn_writes True (nv_begin v) sign bs))"
    using init_ok [OF region, of "cut_off k v w"] w(2) by (auto simp: cut_off_def)
  obtain r x where r: "nvdata_begin_read rt soft u = Some (r, x)" "r = NVDATA_OK \<longrightarrow> word_at (nv_mem u) (nv_begin v + 2) \<noteq> 0xDEAD"
    using begin_read_total [OF u(2), of rt soft] u(3) by auto
  have f: "unat (nv_begin v) + 10 + length bs < unat (nv_limit v)" "10 + length bs < 65536" using assms(2) by (simp_all add: fits_def)
  show ?thesis using cut_parts [OF region f u(4)] u(1) r w(1) by (auto simp: same_data_def)
qed

theorem power_loss_keeps_settings_witness:
  "\<exists>w. nv_write True 0x1234 [1, 2, 3, 4] sample_nv = Some (NVDATA_OK, w)
    \<and> (\<exists>u r x. nvdata_init 64 512 (cut_off 7 sample_nv w) = Some u \<and> nvdata_begin_read False 0x1234 u = Some (r, x)
      \<and> (r = NVDATA_OK \<longrightarrow> same_data sample_nv (nv_mem u) (nv_mem sample_nv) \<or> same_data sample_nv (nv_mem u) (nv_mem w)))"
proof -
  have f: "fits sample_nv [1, 2, 3, 4]" using sample_nv_ok(2) by simp
  obtain w where w: "nv_write True 0x1234 [1, 2, 3, 4] sample_nv = Some (NVDATA_OK, w)" using write_stores [OF sample_nv_ok(1) f] by blast
  have b: "nv_begin sample_nv = 64" "nv_limit sample_nv = 512" by (simp_all add: sample_nv_def)
  show ?thesis using w power_loss_keeps_settings [OF sample_nv_ok(1) f w, of 7 False "0x1234", unfolded b] by blast
qed

lemma unmarked_cut:
  assumes region: "unat b + 255 < unat (l :: u32)" and f': "unat b + 10 + length bs0 < unat l" and img: "nv_image m b sign0 bs0"
    and len: "length bs = length bs0" "j \<le> length bs"
    and c: "c = apply_log (apply_log m (entries b [0, 0])) (entries (b + 10) (take j bs))"
  shows "nv_head c b sign0 (length bs0) \<and> peek c (b + 10) (length bs) = take j bs @ drop j bs0"
proof -
  let ?M = "apply_log m (entries b [0, 0])"
  have lim: "unat l < 2 ^ 32" by (rule u32_bound)
  have u: "unat (b + 2) = unat b + 2" "unat (b + 4) = unat b + 4" "unat (b + 10) = unat b + 10"
    using region_unat [OF region, of 2] region_unat [OF region, of 4] region_unat [OF region, of 10] by simp_all
  have tl: "length (take j bs) = j" using len(2) by simp
  have o: "peek c x n = peek m x n" if "unat b + 2 \<le> unat x" "unat x + n \<le> unat b + 10 \<or> unat b + 10 + j \<le> unat x" "unat x + n \<le> 2 ^ 32" for x n
    using that u region f' lim len peek_entries_other [of "b + 10" "take j bs" x n ?M] peek_entries_other [of b "[0, 0]" x n m]
    unfolding c by (auto simp: min_def simp del: entries.simps)
  have "peek c b 2 = [0, 0]"
    using peek_entries_other [of "b + 10" "take j bs" b 2 ?M] peek_entries [of b "[0, 0]" m] u region f' lim len
    unfolding c by (simp add: numeral_2_eq_2)
  then have h: "nv_head c b sign0 (length bs0)"
    using img o [of "b + 2" 2] o [of "b + 4" 2] u lim region by (simp add: nv_head_def nv_image_def)
  have t: "peek c (b + 10) j = take j bs"
    using peek_entries [of "b + 10" "take j bs" ?M, unfolded tl] u f' lim len unfolding c by simp
  have a: "unat (b + 10 + of_nat j) = unat b + 10 + j" using unat_add_nat [of "b + 10" j] u f' lim len by simp
  have "peek m (b + 10 + of_nat j) (length bs - j) = drop j bs0"
    using peek_part [of m "b + 10" "length bs0" bs0 j "length bs - j"] img len by (simp add: nv_image_def)
  then have "peek c (b + 10 + of_nat j) (length bs - j) = drop j bs0" using o [of "b + 10 + of_nat j" "length bs - j"] a f' lim len by simp
  then show ?thesis using h t peek_add [of c "b + 10" j "length bs - j"] len by simp
qed

text \<open>C34: Without marks, which is what the code does unless \<open>NVDATA_WRITE_TAINT\<close> is defined, a transaction over data of the same
  length that is cut off leaves a header that is accepted: \<open>nvdata_begin_read\<close> returns \<open>NVDATA_OK\<close>, and the bytes it then hands out are
  the first ones of the new data followed by the rest of the old ones; only the sum, which is compared after all has been used, can tell.\<close>

theorem unmarked_settings_torn:
  assumes "stored v sign0 bs0" "sign_ok sign0" "nvdata_is_compatible sign0 soft" "length bs = length bs0" "j \<le> length bs"
    "nv_write False sign bs v = Some (NVDATA_OK, w)"
  shows "\<exists>u x y. nvdata_init (nv_begin v) (nv_limit v) (cut_off (2 + j) v w) = Some u \<and> nvdata_begin_read rt soft u = Some (NVDATA_OK, x)
    \<and> nvdata_read_mem (length bs) x = Some (take j bs @ drop j bs0, y)"
proof -
  let ?b = "nv_begin v" and ?M = "apply_log (nv_mem v) (entries (nv_begin v) [0, 0])"
  have region: "unat ?b + 255 < unat (nv_limit v)" and i: "idle v" and f: "fits v bs" and f0: "fits v bs0" and img: "nv_image (nv_mem v) ?b sign0 bs0"
    using assms(1,4) by (simp_all add: stored_def idle_def fits_def)
  have f': "unat ?b + 10 + length bs0 < unat (nv_limit v)" using f0 by (simp add: fits_def)
  have u: "unat (?b + 2) = unat ?b + 2" "unat (?b + 10) = unat ?b + 10"
    using region_unat [OF region, of 2] region_unat [OF region, of 10] by simp_all
  have w: "nv_log w = nv_log v @ txn_writes False ?b sign bs" using write_stores [OF i f, of False sign] assms(6) by auto
  have tk: "take j (entries a bs) = entries a (take j bs)" for a
    using entries_append [of a "take j bs" "drop j bs"] assms(5) by simp
  obtain z where z: "nvdata_init ?b (nv_limit v) (cut_off (2 + j) v w) = Some z" "idle z" "nv_begin z = ?b" "nv_limit z = nv_limit v"
    "nv_mem z = apply_log ?M (entries (?b + 10) (take j bs))"
    using init_ok [OF region, of "cut_off (2 + j) v w"] w assms(5) tk [of "?b + 10"]
    by (auto simp: cut_off_def txn_writes_def header_writes_def)
  have h: "nv_head (nv_mem z) (nv_begin z) sign0 (length bs0)" and d: "peek (nv_mem z) (?b + 10) (length bs) = take j bs @ drop j bs0"
    using unmarked_cut [OF region f' img assms(4,5) z(5)] by (simp_all add: z(3))
  have fz: "fits z bs0" using f0 by (simp add: fits_def z(3,4))
  note r = begin_read_head [OF z(2) fz h assms(2,3), of rt]
  let ?x = "(done_writes (taint_writes rt (nv_begin z) 0xDEAD) (nv_enter z))
      \<lparr>nv_end := nv_begin z, nv_sign := sign0, nv_addr := nv_begin z + 10, nv_crc := NVDATA_CRC_INIT\<rparr>"
  have "room ?x (length bs + 0)" using f' u z(3,4) assms(4) by (simp add: room_def nv_enter_def)
  note q = read_mem_ok [OF this, THEN conjunct1]
  have "peek (nv_mem ?x) (nv_addr ?x) (length bs) = peek (nv_mem z) (?b + 10) (length bs)"
    using peek_entries_other [of "?b + 2" "le2 0xDEAD" "?b + 10" "length bs" "nv_mem z"] u f' u32_bound [of "nv_limit v"] assms(4) z(3)
    by (simp add: taint_writes_def nv_enter_def)
  then show ?thesis using z(1) r q d by fastforce
qed

theorem unmarked_settings_torn_witness:
  "\<exists>v w u x y. stored v 0x1234 [1, 2, 3] \<and> nv_write False 0x1234 [4, 5, 6] v = Some (NVDATA_OK, w)
    \<and> nvdata_init (nv_begin v) (nv_limit v) (cut_off 3 v w) = Some u \<and> nvdata_begin_read False 0x1234 u = Some (NVDATA_OK, x)
    \<and> nvdata_read_mem 3 x = Some ([4, 2, 3], y)"
proof -
  have f: "fits sample_nv [1, 2, 3]" using sample_nv_ok(2) by simp
  obtain v where v: "loaded v 0x1234 [1, 2, 3]" using write_stores [OF sample_nv_ok(1) f] by blast
  then have s: "stored v 0x1234 [1, 2, 3]" by (simp add: loaded_def)
  then have "idle v" "fits v [4, 5, 6]" by (simp_all add: stored_def fits_def)
  then obtain w where w: "nv_write False 0x1234 [4, 5, 6] v = Some (NVDATA_OK, w)" using write_stores by blast
  have c: "nvdata_is_compatible 0x1234 0x1234" by (simp add: nvdata_is_compatible_def)
  have l: "length [4, 5, 6 :: u8] = length [1, 2, 3 :: u8]" "1 \<le> length [4, 5, 6 :: u8]" by simp_all
  have n: "2 + 1 = (3 :: nat)" "length [4, 5, 6 :: u8] = 3" "take 1 [4, 5, 6] @ drop 1 [1, 2, 3] = [4, 2, 3 :: u8]" by simp_all
  show ?thesis using s w unmarked_settings_torn [OF s sample_nv_ok(3) c l w, of False, unfolded n] by blast
qed

end
