(* ===== verification/Cmem.thy ===== *)
theory Cmem
  imports Uos_Prelude
begin

text \<open>
  A memory of bytes for the C library: addresses of 32 bits, and only the bytes of objects can be accessed. An access to another address is
  \<open>None\<close>. Words of four bytes are stored with the low byte first. Functions that read beyond the end of a string, up to the end of a word,
  need that word to be there as a whole.
\<close>

section \<open>Access\<close>

type_synonym cmem = "u32 \<Rightarrow> u8 option"

definition store8 :: "u32 \<Rightarrow> u8 \<Rightarrow> cmem \<Rightarrow> cmem option" where
  "store8 p c m = (if m p = None then None else Some (m(p \<mapsto> c)))"

definition word_of :: "u8 \<Rightarrow> u8 \<Rightarrow> u8 \<Rightarrow> u8 \<Rightarrow> u32" where
  "word_of a b c d = ucast a OR push_bit 8 (ucast b) OR push_bit 16 (ucast c) OR push_bit 24 (ucast d)"

definition load32 :: "cmem \<Rightarrow> u32 \<Rightarrow> u32 option" where
  "load32 m p = do { a \<leftarrow> m p; b \<leftarrow> m (p + 1); c \<leftarrow> m (p + 2); d \<leftarrow> m (p + 3); Some (word_of a b c d) }"

definition store32 :: "u32 \<Rightarrow> u32 \<Rightarrow> cmem \<Rightarrow> cmem option" where
  "store32 p w m = do {
     m \<leftarrow> store8 p (ucast w) m;
     m \<leftarrow> store8 (p + 1) (ucast (drop_bit 8 w)) m;
     m \<leftarrow> store8 (p + 2) (ucast (drop_bit 16 w)) m;
     store8 (p + 3) (ucast (drop_bit 24 w)) m
   }"

text \<open>\<open>UNALIGNED\<close> and \<open>DETECTNULL\<close> of the fast functions.\<close>

definition unaligned :: "u32 \<Rightarrow> bool" where
  "unaligned p \<longleftrightarrow> p AND 3 \<noteq> 0"

definition detect_null :: "u32 \<Rightarrow> u32" where
  "detect_null x = (x - 0x01010101) AND NOT x AND 0x80808080"

section \<open>What the memory holds\<close>

fun holds :: "cmem \<Rightarrow> u32 \<Rightarrow> u8 list \<Rightarrow> bool" where
  "holds m p [] = True"
| "holds m p (b # bs) = (m p = Some b \<and> holds m (p + 1) bs)"

definition cstring :: "cmem \<Rightarrow> u32 \<Rightarrow> u8 list \<Rightarrow> bool" where
  "cstring m p s \<longleftrightarrow> 0 \<notin> set s \<and> holds m p (s @ [0])"

definition mapped :: "cmem \<Rightarrow> u32 \<Rightarrow> nat \<Rightarrow> bool" where
  "mapped m p n \<longleftrightarrow> (\<forall>i < n. m (p + of_nat i) \<noteq> None)"

fun put_bytes :: "u32 \<Rightarrow> u8 list \<Rightarrow> cmem \<Rightarrow> cmem" where
  "put_bytes p [] m = m"
| "put_bytes p (b # bs) m = put_bytes (p + 1) bs (m(p \<mapsto> b))"

text \<open>Every word, at a multiple of four, that has one of the bytes.\<close>

definition whole_words :: "cmem \<Rightarrow> u32 \<Rightarrow> nat \<Rightarrow> bool" where
  "whole_words m p n \<longleftrightarrow> (\<forall>i < n. \<forall>k < 4. m ((p + of_nat i AND NOT 3) + of_nat k) \<noteq> None)"

section \<open>Zero bytes in a word\<close>

lemma uint_u8: "0 \<le> uint (b :: u8)" "uint (b :: u8) < 256" using unsigned_less [where 'a = int, of b] by simp_all

lemma u8_or_push: "uint (a :: u8) OR push_bit 8 x = uint a + 256 * x"
proof -
  have "uint a + push_bit 8 x = uint a OR push_bit 8 x"
    by (rule disjunctive_add_eq_or) (auto simp: bit_eq_iff bit_simps dest: bit_u8)
  then show ?thesis by (simp add: push_bit_eq_mult)
qed

lemma uint_word_of: "uint (word_of a b c d) = uint a + 256 * (uint b + 256 * (uint c + 256 * uint d))"
proof -
  have "uint (word_of a b c d) = uint a OR push_bit 8 (uint b OR push_bit 8 (uint c OR push_bit 8 (uint d)))"
    by (rule bit_eqI) (auto simp: word_of_def bit_simps dest: bit_u8)
  then show ?thesis by (simp add: u8_or_push)
qed

lemma low_byte_bits:
  fixes p q :: int
  assumes "0 \<le> p" "p < 256"
  shows "bit (p + 256 * q) 7 \<longleftrightarrow> 128 \<le> p" "bit (p + 256 * q) (n + 8) \<longleftrightarrow> bit q n"
proof -
  have "(p + 256 * q) div 128 = p div 128 + 2 * q" by linarith
  moreover have "p div 128 = (if 128 \<le> p then 1 else 0)" using assms by auto
  ultimately show "bit (p + 256 * q) 7 \<longleftrightarrow> 128 \<le> p" by (simp add: bit_iff_odd)
  have "(p + 256 * q) div 2 ^ (n + 8) = (p + 256 * q) div (256 * 2 ^ n)" by (simp add: power_add mult.commute)
  also have "\<dots> = (p + 256 * q) div 256 div 2 ^ n" by (rule zdiv_zmult2_eq) simp
  also have "(p + 256 * q) div 256 = q" using assms by simp
  finally show "bit (p + 256 * q) (n + 8) \<longleftrightarrow> bit q n" by (simp add: bit_iff_odd)
qed

lemma byte_bits:
  fixes p :: int
  assumes "0 \<le> p" "p < 256" "0 \<le> q" "q < 256" "0 \<le> r" "r < 256"
  shows "bit (p + 256 * (q + 256 * (r + 256 * s))) 7 \<longleftrightarrow> 128 \<le> p"
    "bit (p + 256 * (q + 256 * (r + 256 * s))) 15 \<longleftrightarrow> 128 \<le> q"
    "bit (p + 256 * (q + 256 * (r + 256 * s))) 23 \<longleftrightarrow> 128 \<le> r"
    "bit (p + 256 * (q + 256 * (r + 256 * s))) 31 \<longleftrightarrow> bit s 7"
  using low_byte_bits (1) [OF assms(1,2)] low_byte_bits(2) [OF assms(1,2), of _ 7] low_byte_bits(2) [OF assms(1,2), of _ 15] 
   low_byte_bits(2) [OF assms(1,2), of _ 23] low_byte_bits (1) [OF assms(3,4)] low_byte_bits(2) [OF assms(3,4), of _ 7] low_byte_bits(2) [OF assms(3,4), of _ 15] 
   low_byte_bits (1) [OF assms(5,6)] low_byte_bits(2) [OF assms(5,6), of _ 7]
  by (simp_all del: distrib_left_numeral)

lemma second_byte_bit:
  fixes p :: int
  assumes "0 \<le> p" "p < 256" "0 \<le> q" "q < 256"
  shows "bit (p + 256 * (q + 256 * r)) 15 \<longleftrightarrow> 128 \<le> q"
  using low_byte_bits(2) [OF assms(1,2), of _ 7] low_byte_bits(1) [OF assms(3,4)] by (simp del: distrib_left_numeral)

lemma bit_u8_7: "bit (b :: u8) 7 \<longleftrightarrow> 128 \<le> uint b"
proof -
  have "bit (uint b) 7 \<longleftrightarrow> 128 \<le> uint b" using low_byte_bits(1) [OF uint_u8 [of b], of 0] by simp
  then show ?thesis by (simp add: bit_uint_iff)
qed

lemma bit_diff: "bit (x - y :: u32) n \<longleftrightarrow> n < 32 \<and> bit (uint x - uint y) n"
proof -
  have "uint (x - y) = take_bit 32 (uint x - uint y)" by (simp add: uint_word_ariths take_bit_eq_mod)
  then have "bit (uint (x - y)) n \<longleftrightarrow> n < 32 \<and> bit (uint x - uint y) n" by (simp add: bit_take_bit_iff)
  then show ?thesis by (simp add: bit_uint_iff) (metis bit_u32)
qed

lemma top_bits: "detect_null x = 0 \<longleftrightarrow> (\<forall>n \<in> {7, 15, 23, 31}. \<not> bit (x - 0x01010101) n \<or> bit x n)"
proof -
  have "(0x80808080 :: u32) = push_bit 7 1 OR push_bit 15 1 OR push_bit 23 1 OR push_bit 31 1" by simp
  then have b: "bit (0x80808080 :: u32) n \<longleftrightarrow> n \<in> {7, 15, 23, 31}" for n
    by (simp only: bit_or_iff bit_push_bit_iff bit_1_iff) auto
  show ?thesis unfolding detect_null_def by (simp only: bit_eq_iff [of _ "0 :: u32"] bit_and_iff b) (auto simp: bit_and_iff bit_not_iff dest: bit_u32)
qed

text \<open>The test of the fast functions finds a zero byte wherever it is in the word.\<close>

lemma detect_null_0: "detect_null (word_of a b c d) = 0 \<longleftrightarrow> a \<noteq> 0 \<and> b \<noteq> 0 \<and> c \<noteq> 0 \<and> d \<noteq> 0"
proof -
  let ?z = "uint (word_of a b c d) - 0x01010101"
  note u = uint_u8 [of a] uint_u8 [of b] uint_u8 [of c] uint_u8 [of d]
  have z: "?z = (uint a - 1) + 256 * ((uint b - 1) + 256 * ((uint c - 1) + 256 * (uint d - 1)))" by (simp add: uint_word_of)
  have x: "bit (word_of a b c d) 7 \<longleftrightarrow> 128 \<le> uint a" "bit (word_of a b c d) 15 \<longleftrightarrow> 128 \<le> uint b"
    "bit (word_of a b c d) 23 \<longleftrightarrow> 128 \<le> uint c" "bit (word_of a b c d) 31 \<longleftrightarrow> 128 \<le> uint d"
    by (auto simp: word_of_def bit_simps bit_u8_7 [symmetric] dest: bit_u8)
  have dn: "detect_null (word_of a b c d) = 0 \<longleftrightarrow> (\<not> bit ?z 7 \<or> 128 \<le> uint a) \<and> (\<not> bit ?z 15 \<or> 128 \<le> uint b)
     \<and> (\<not> bit ?z 23 \<or> 128 \<le> uint c) \<and> (\<not> bit ?z 31 \<or> 128 \<le> uint d)"
    by (simp add: top_bits bit_diff x)
  have zero: "(b = 0) = (uint b = 0)" for b :: u8 by (simp add: unsigned_eq_0_iff)
  have s: "- 1 + 256 * q = 255 + 256 * (q - 1)" for q :: int by simp
  consider "uint a = 0" | "uint a \<ge> 1" "uint b = 0" | "uint a \<ge> 1" "uint b \<ge> 1" "uint c = 0" | "uint a \<ge> 1" "uint b \<ge> 1" "uint c \<ge> 1" "uint d = 0"
    | "uint a \<ge> 1" "uint b \<ge> 1" "uint c \<ge> 1" "uint d \<ge> 1" using u by linarith
  then show ?thesis
  proof cases
    case 1
    have e: "?z = 255 + 256 * ((uint b - 1) + 256 * ((uint c - 1) + 256 * (uint d - 1)) - 1)" unfolding z 1 by (simp add: algebra_simps)
    have "bit ?z 7" unfolding e by (subst low_byte_bits(1)) simp_all
    then show ?thesis using 1 by (simp add: dn zero)
  next
    case 2
    have e: "?z = (uint a - 1) + 256 * (255 + 256 * ((uint c - 1) - 1 + 256 * (uint d - 1)))" unfolding z 2 by (simp add: algebra_simps)
    have "bit ?z 15" unfolding e by (subst second_byte_bit) (use 2 u in simp_all)
    then show ?thesis using 2 by (simp add: dn zero)
  next
    case 3
    have e: "?z = (uint a - 1) + 256 * ((uint b - 1) + 256 * (255 + 256 * ((uint d - 1) - 1)))" unfolding z 3 by (simp add: algebra_simps)
    have "bit ?z 23" unfolding e by (subst byte_bits(3)) (use 3 u in simp_all)
    then show ?thesis using 3 by (simp add: dn zero)
  next
    case 4
    have "bit ?z 31" unfolding z by (subst byte_bits(4)) (use 4 u in simp_all)
    then show ?thesis using 4 by (simp add: dn zero)
  next
    case 5
    have "bit (uint d - 1) 7 \<longleftrightarrow> 128 \<le> uint d - 1" using low_byte_bits(1) [of "uint d - 1" 0] 5 u by simp
    then show ?thesis using byte_bits [of "uint a - 1" "uint b - 1" "uint c - 1" "uint d - 1"] 5 u unfolding dn z by (auto simp: zero)
  qed
qed

section \<open>Words in memory\<close>

lemma bytes_of_word [simp]:
  "ucast (word_of a b c d) = a" "ucast (drop_bit 8 (word_of a b c d)) = b"
  "ucast (drop_bit 16 (word_of a b c d)) = c" "ucast (drop_bit 24 (word_of a b c d)) = d"
  by (rule bit_word_eqI; auto simp: word_of_def bit_simps dest: bit_u8)+

lemma word_of_eq [simp]: "word_of a b c d = word_of a' b' c' d' \<longleftrightarrow> a = a' \<and> b = b' \<and> c = c' \<and> d = d'"
  by (metis bytes_of_word)

lemma bit_word_of: "bit (word_of a b c d) n \<longleftrightarrow>
    (if n < 8 then bit a n else if n < 16 then bit b (n - 8) else if n < 24 then bit c (n - 16) else bit d (n - 24))"
  using bit_u8 [of a n] bit_u8 [of b "n - 8"] bit_u8 [of c "n - 16"] bit_u8 [of d "n - 24"] by (auto simp: word_of_def bit_simps)

lemma word_of_xor: "word_of a b c d XOR word_of a' b' c' d' = word_of (a XOR a') (b XOR b') (c XOR c') (d XOR d')"
  by (rule bit_word_eqI) (simp add: bit_word_of bit_xor_iff)

lemma store32_word_of: "store32 p (word_of a b c d) m =
    do { m \<leftarrow> store8 p a m; m \<leftarrow> store8 (p + 1) b m; m \<leftarrow> store8 (p + 2) c m; store8 (p + 3) d m }"
  by (simp add: store32_def)

lemma load32_holds: "holds m p [a, b, c, d] \<Longrightarrow> load32 m p = Some (word_of a b c d)"
  by (simp add: load32_def add.assoc)

lemma near_distinct: "p + 1 \<noteq> (p :: u32)" "p + 2 \<noteq> p" "p + 3 \<noteq> p" "p + 2 \<noteq> p + 1" "p + 3 \<noteq> p + 1" "p + 3 \<noteq> p + 2"
  "p \<noteq> p + 1" "p \<noteq> p + 2" "p \<noteq> p + 3" "p + 1 \<noteq> p + 2" "p + 1 \<noteq> p + 3" "p + 2 \<noteq> p + 3"
  by simp_all

lemma unat_and_3: "unat (p AND 3 :: u32) = unat p mod 4"
proof -
  have "p AND 3 = take_bit 2 p" by (simp add: take_bit_eq_mask mask_numeral)
  then have "unat (p AND 3) = take_bit 2 (unat p)" by (simp only: unsigned_take_bit_eq)
  then show ?thesis by (simp add: take_bit_eq_mod)
qed

lemma unaligned_mod: "unaligned p \<longleftrightarrow> unat p mod 4 \<noteq> 0"
  using unat_and_3 [of p] by (metis unaligned_def unat_eq_zero)

lemma aligned_bound: "\<not> unaligned p \<Longrightarrow> unat p + 4 \<le> 2 ^ 32"
  using u32_bound [of p] by (simp add: unaligned_mod) presburger

lemma aligned_unat: "\<not> unaligned p \<Longrightarrow> i < 4 \<Longrightarrow> unat (p + of_nat i) = unat p + i"
  using aligned_bound [of p] by (simp add: unat_word_ariths unat_of_nat)

lemma aligned_next: "\<not> unaligned p \<Longrightarrow> \<not> unaligned (p + 4)"
proof -
  have "unat (p + 4) mod 4 = (unat p + 4) mod 4" by (simp add: unat_word_ariths mod_mod_cancel)
  then show "\<not> unaligned p \<Longrightarrow> \<not> unaligned (p + 4)" by (simp add: unaligned_mod)
qed

lemma aligned_apart: "\<not> unaligned p \<Longrightarrow> \<not> unaligned q \<Longrightarrow> i < 4 \<Longrightarrow> j < 4 \<Longrightarrow> p + of_nat i = q + of_nat j \<Longrightarrow> i = j \<and> p = q"
proof -
  assume a: "\<not> unaligned p" "\<not> unaligned q" "i < 4" "j < 4" "p + of_nat i = q + of_nat j"
  then have "unat p + i = unat q + j" using aligned_unat by metis
  then have "i = j" using a(1-4) unfolding unaligned_mod by presburger
  then show ?thesis using a(5) by simp
qed

lemma aligned_base: "\<not> unaligned p \<Longrightarrow> i < 4 \<Longrightarrow> p + of_nat i AND NOT 3 = p"
proof -
  assume a: "\<not> unaligned p" "i < 4"
  then have "unat (p + of_nat i) mod 4 = i" unfolding aligned_unat [OF a] unaligned_mod by presburger
  then have "p + of_nat i AND 3 = of_nat i" by (metis unat_and_3 of_nat_unat ucast_id)
  moreover have "x AND NOT y = x - (x AND y)" for x y :: u32
  proof -
    have "x AND NOT y = x AND NOT (x AND y)" by (rule bit_word_eqI) (auto simp: bit_simps)
    also have "\<dots> = x - (x AND y)" by (rule disjunctive_diff_eq_and_not [symmetric]) (rule bit_word_eqI, auto simp: bit_simps)
    finally show ?thesis .
  qed
  ultimately show "p + of_nat i AND NOT 3 = p" by (metis add_diff_cancel_right')
qed

section \<open>Ranges of addresses\<close>

lemma mapped_Suc: "mapped m p (Suc n) \<longleftrightarrow> m p \<noteq> None \<and> mapped m (p + 1) n"
  unfolding mapped_def by (subst All_less_Suc2) (simp add: add.assoc)

lemma mapped_drop: "mapped m p n \<Longrightarrow> k \<le> n \<Longrightarrow> mapped m (p + of_nat k) (n - k)"
  unfolding mapped_def by (metis add.assoc less_diff_conv2 of_nat_add add.commute less_diff_conv)

lemma holds_append: "holds m p (xs @ ys) \<longleftrightarrow> holds m p xs \<and> holds m (p + of_nat (length xs)) ys"
  by (induction xs arbitrary: p) (auto simp: add.assoc)

lemma holds_nth: "holds m p bs \<longleftrightarrow> (\<forall>i < length bs. m (p + of_nat i) = Some (bs ! i))"
proof (induction bs arbitrary: p)
  case (Cons b bs)
  have "(\<forall>i < Suc (length bs). m (p + of_nat i) = Some ((b # bs) ! i))
    \<longleftrightarrow> m p = Some b \<and> (\<forall>i < length bs. m (p + 1 + of_nat i) = Some (bs ! i))"
    by (subst All_less_Suc2) (simp add: add.assoc)
  then show ?case using Cons by simp
qed simp

lemma holds_mapped: "holds m p bs \<Longrightarrow> mapped m p (length bs)"
  by (simp add: holds_nth mapped_def)

lemma mapped_holds: "mapped m p n \<Longrightarrow> \<exists>bs. length bs = n \<and> holds m p bs"
  by (rule exI [of _ "map (\<lambda>i. the (m (p + of_nat i))) [0..<n]"]) (auto simp: holds_nth mapped_def)

lemma mapped_4:
  assumes "mapped m p n" "4 \<le> n"
  obtains a b c d where "holds m p [a, b, c, d]" "load32 m p = Some (word_of a b c d)" "mapped m (p + 4) (n - 4)"
proof -
  have "\<exists>a b c d. holds m p [a, b, c, d]"
  proof -
    have "m (p + of_nat i) \<noteq> None" if "i < 4" for i using assms that by (simp add: mapped_def)
    from this [of 0] this [of 1] this [of 2] this [of 3] show ?thesis by (auto simp: add.assoc)
  qed
  then show thesis using that load32_holds mapped_drop [OF assms] by (metis of_nat_numeral)
qed

text \<open>A range that does not reach the end of the address space: its addresses are in order.\<close>

lemma range_unat: "unat (p :: u32) + n \<le> 2 ^ 32 \<Longrightarrow> i < n \<Longrightarrow> unat (p + of_nat i) = unat p + i"
  by (simp add: unat_word_ariths unat_of_nat)

lemma holds_other:
  assumes "holds m p bs" "unat p + length bs \<le> 2 ^ 32" "unat a < unat p \<or> unat p + length bs \<le> unat a"
  shows "holds (m(a \<mapsto> b)) p bs"
proof -
  have "p + of_nat i \<noteq> a" if "i < length bs" for i
    using range_unat [OF assms(2) that] assms(3) that by auto
  then show ?thesis using assms(1) by (auto simp: holds_nth)
qed

lemma mapped_upd: "mapped m p n \<Longrightarrow> mapped (m(a \<mapsto> b)) p n"
  by (simp add: mapped_def)

lemma unat_next: "unat (p :: u32) + Suc n \<le> 2 ^ 32 \<Longrightarrow> n \<noteq> 0 \<Longrightarrow> unat (p + 1) = unat p + 1"
  by (simp add: unat_word_ariths)

lemma put_bytes_other: "unat p + length bs \<le> 2 ^ 32 \<Longrightarrow> unat a < unat p \<or> unat p + length bs \<le> unat a \<Longrightarrow> put_bytes p bs m a = m a"
proof (induction bs arbitrary: p m)
  case (Cons b bs)
  have "a \<noteq> p" using Cons.prems(2) by auto
  then show ?case using Cons unat_next [of p "length bs"] by (cases "bs = []") auto
qed simp

lemma put_bytes_upd:
  "unat p + length bs \<le> 2 ^ 32 \<Longrightarrow> unat a < unat p \<or> unat p + length bs \<le> unat a \<Longrightarrow> put_bytes p bs (m(a \<mapsto> c)) = (put_bytes p bs m)(a \<mapsto> c)"
proof (induction bs arbitrary: p m)
  case (Cons b bs)
  have a: "a \<noteq> p" using Cons.prems(2) by auto
  show ?case
  proof (cases "bs = []")
    case False
    have u: "unat (p + 1) = unat p + 1" using Cons.prems(1) unat_next [of p "length bs"] False by simp
    then show ?thesis using Cons.IH [of "p + 1" "m(p \<mapsto> b)"] Cons.prems by (auto simp: fun_upd_twist [OF a] simp del: fun_upd_apply)
  qed (auto simp: fun_eq_iff a)
qed simp

lemma put_bytes_append: "put_bytes p (xs @ ys) m = put_bytes (p + of_nat (length xs)) ys (put_bytes p xs m)"
  by (induction xs arbitrary: p m) (auto simp: add.assoc)

lemma put_bytes_holds: "unat p + length bs \<le> 2 ^ 32 \<Longrightarrow> holds (put_bytes p bs m) p bs"
proof (induction bs arbitrary: p m)
  case (Cons b bs)
  show ?case
  proof (cases "bs = []")
    case False
    then have u: "unat (p + 1) = unat p + 1" using Cons.prems unat_next [of p "length bs"] by simp
    then have "put_bytes (p + 1) bs (m(p \<mapsto> b)) p = Some b" using put_bytes_other [of "p + 1" bs p] Cons.prems by simp
    then show ?thesis using Cons u by simp
  qed simp
qed simp

end
