(* ===== verification/Cstring.thy ===== *)
theory Cstring
  imports Cmem
begin

text \<open>
  The functions of the C library on strings and on blocks of memory (\<open>runtime/str*.c\<close>, \<open>runtime/mem*.c\<close>), in the plain version that works
  byte by byte and in the fast one that works on whole words. A function that does not find what it looks for returns the address 0. Loops that end at a zero
  are partial functions; counts are natural numbers. Functions that return their first argument return only the memory.
\<close>

section \<open>Byte by byte\<close>

text \<open>\<open>while (*s++ != '\0');\<close> leaves the address after the zero.\<close>

partial_function (option) past_nul :: "cmem \<Rightarrow> u32 \<Rightarrow> u32 option" where
  "past_nul m s = do { c \<leftarrow> m s; if c \<noteq> 0 then past_nul m (s + 1) else Some (s + 1) }"

definition strlen :: "cmem \<Rightarrow> u32 \<Rightarrow> u32 option" where
  "strlen m s = do { s1 \<leftarrow> past_nul m s; Some (s1 - s - 1) }"

fun strnlen :: "cmem \<Rightarrow> u32 \<Rightarrow> nat \<Rightarrow> nat option" where
  "strnlen m s 0 = Some 0"
| "strnlen m s (Suc n) = do { c \<leftarrow> m s; if c = 0 then Some 0 else do { k \<leftarrow> strnlen m (s + 1) n; Some (Suc k) } }"

text \<open>The difference is kept in a \<open>signed char\<close>.\<close>

partial_function (option) strcmp :: "cmem \<Rightarrow> u32 \<Rightarrow> u32 \<Rightarrow> int option" where
  "strcmp m s1 s2 = do {
     c \<leftarrow> m s1;
     tmp \<leftarrow> m s2;
     let ret = sint (c - tmp);
     if ret = 0 \<and> tmp \<noteq> 0 then strcmp m (s1 + 1) (s2 + 1) else Some ret
   }"

fun strncmp :: "cmem \<Rightarrow> u32 \<Rightarrow> u32 \<Rightarrow> nat \<Rightarrow> int option" where
  "strncmp m s1 s2 0 = Some 0"
| "strncmp m s1 s2 (Suc n) = do {
     c \<leftarrow> m s1;
     tmp \<leftarrow> m s2;
     let ret = sint (c - tmp);
     if ret = 0 \<and> tmp \<noteq> 0 \<and> n \<noteq> 0 then strncmp m (s1 + 1) (s2 + 1) n else Some ret
   }"

partial_function (option) strcpy :: "u32 \<Rightarrow> u32 \<Rightarrow> cmem \<Rightarrow> cmem option" where
  "strcpy tmp src m = do {
     c \<leftarrow> m src;
     m \<leftarrow> store8 tmp c m;
     if c \<noteq> 0 then strcpy (tmp + 1) (src + 1) m else Some m
   }"

fun memset :: "u32 \<Rightarrow> u8 \<Rightarrow> nat \<Rightarrow> cmem \<Rightarrow> cmem option" where
  "memset s c 0 m = Some m"
| "memset s c (Suc n) m = do { m \<leftarrow> store8 s c m; memset (s + 1) c n m }"

text \<open>Once the zero is copied, \<open>n\<close> counts it as still to be written.\<close>

fun strncpy :: "u32 \<Rightarrow> u32 \<Rightarrow> nat \<Rightarrow> cmem \<Rightarrow> cmem option" where
  "strncpy tmp src 0 m = Some m"
| "strncpy tmp src (Suc n) m = do {
     c \<leftarrow> m src;
     m \<leftarrow> store8 tmp c m;
     if c \<noteq> 0 then (if n = 0 then Some m else strncpy (tmp + 1) (src + 1) n m) else memset (tmp + 1) 0 (Suc n) m
   }"

definition strcat :: "u32 \<Rightarrow> u32 \<Rightarrow> cmem \<Rightarrow> cmem option" where
  "strcat dest src m = do { tmp \<leftarrow> past_nul m dest; strcpy (tmp - 1) src m }"

fun strncat_loop :: "u32 \<Rightarrow> u32 \<Rightarrow> nat \<Rightarrow> cmem \<Rightarrow> cmem option" where
  "strncat_loop tmp src 0 m = Some m"
| "strncat_loop tmp src (Suc n) m = do {
     c \<leftarrow> m src;
     m \<leftarrow> store8 tmp c m;
     if c \<noteq> 0 \<and> n \<noteq> 0 then strncat_loop (tmp + 1) (src + 1) n m else Some m
   }"

definition strncat :: "u32 \<Rightarrow> u32 \<Rightarrow> nat \<Rightarrow> cmem \<Rightarrow> cmem option" where
  "strncat dest src n m = (if n \<noteq> 0 then do { tmp \<leftarrow> past_nul m dest; strncat_loop (tmp - 1) src n m } else Some m)"

partial_function (option) strchr :: "cmem \<Rightarrow> u32 \<Rightarrow> u8 \<Rightarrow> u32 option" where
  "strchr m s c = do {
     tmp \<leftarrow> m s;
     if tmp = c then Some s else if tmp \<noteq> 0 then strchr m (s + 1) c else Some 0
   }"

text \<open>The loop of \<open>strrchr\<close>: \<open>ret\<close> is one more than the address found, and 1 when there is none.\<close>

partial_function (option) strrchr_loop :: "cmem \<Rightarrow> u32 \<Rightarrow> u8 \<Rightarrow> u32 \<Rightarrow> u32 option" where
  "strrchr_loop m s c ret = do {
     tmp \<leftarrow> m s;
     let ret = (if tmp = c then s + 1 else ret);
     if tmp \<noteq> 0 then strrchr_loop m (s + 1) c ret else Some ret
   }"

definition strrchr :: "cmem \<Rightarrow> u32 \<Rightarrow> u8 \<Rightarrow> u32 option" where
  "strrchr m s c = do { ret \<leftarrow> strrchr_loop m s c 1; Some (ret - 1) }"

fun memcpy :: "u32 \<Rightarrow> u32 \<Rightarrow> nat \<Rightarrow> cmem \<Rightarrow> cmem option" where
  "memcpy tmp csrc 0 m = Some m"
| "memcpy tmp csrc (Suc n) m = do { c \<leftarrow> m csrc; m \<leftarrow> store8 tmp c m; memcpy (tmp + 1) (csrc + 1) n m }"

text \<open>The copy from the last byte to the first; the addresses are those after the last byte.\<close>

fun copy_back :: "u32 \<Rightarrow> u32 \<Rightarrow> nat \<Rightarrow> cmem \<Rightarrow> cmem option" where
  "copy_back tmp csrc 0 m = Some m"
| "copy_back tmp csrc (Suc n) m = do { c \<leftarrow> m (csrc - 1); m \<leftarrow> store8 (tmp - 1) c m; copy_back (tmp - 1) (csrc - 1) n m }"

definition memmove :: "u32 \<Rightarrow> u32 \<Rightarrow> nat \<Rightarrow> cmem \<Rightarrow> cmem option" where
  "memmove dest src n m = (if src < dest then copy_back (dest + of_nat n) (src + of_nat n) n m else memcpy dest src n m)"

fun memcmp :: "cmem \<Rightarrow> u32 \<Rightarrow> u32 \<Rightarrow> nat \<Rightarrow> int option" where
  "memcmp m s1 s2 0 = Some 0"
| "memcmp m s1 s2 (Suc n) = do {
     c \<leftarrow> m s1;
     d \<leftarrow> m s2;
     let ret = sint (c - d);
     if ret = 0 \<and> n \<noteq> 0 then memcmp m (s1 + 1) (s2 + 1) n else Some ret
   }"

fun memchr :: "cmem \<Rightarrow> u32 \<Rightarrow> u8 \<Rightarrow> nat \<Rightarrow> u32 option" where
  "memchr m cp c 0 = Some 0"
| "memchr m cp c (Suc n) = do { d \<leftarrow> m cp; if d = c then Some cp else memchr m (cp + 1) c n }"

section \<open>Sets of bytes\<close>

partial_function (option) in_accept :: "cmem \<Rightarrow> u8 \<Rightarrow> u32 \<Rightarrow> bool option" where
  "in_accept m c a = do { d \<leftarrow> m a; if d = 0 then Some False else if c = d then Some True else in_accept m c (a + 1) }"

partial_function (option) strspn_loop :: "cmem \<Rightarrow> u32 \<Rightarrow> u32 \<Rightarrow> nat \<Rightarrow> nat option" where
  "strspn_loop m p accept count = do {
     c \<leftarrow> m p;
     if c = 0 then Some count else do {
     found \<leftarrow> in_accept m c accept;
     if \<not> found then Some count else strspn_loop m (p + 1) accept (count + 1)
   }}"

definition strspn :: "cmem \<Rightarrow> u32 \<Rightarrow> u32 \<Rightarrow> nat option" where
  "strspn m s accept = strspn_loop m s accept 0"

partial_function (option) strcspn_loop :: "cmem \<Rightarrow> u32 \<Rightarrow> u32 \<Rightarrow> nat \<Rightarrow> nat option" where
  "strcspn_loop m s reject count = do {
     c \<leftarrow> m s;
     if c = 0 then Some count else do {
     p \<leftarrow> strchr m reject c;
     if p = 0 then Some count else strcspn_loop m (s + 1) reject (count + 1)
   }}"

definition strcspn :: "cmem \<Rightarrow> u32 \<Rightarrow> u32 \<Rightarrow> nat option" where
  "strcspn m s reject = strcspn_loop m s reject 0"

section \<open>Word by word\<close>

partial_function (option) at_nul :: "cmem \<Rightarrow> u32 \<Rightarrow> u32 option" where
  "at_nul m s = do { c \<leftarrow> m s; if c \<noteq> 0 then at_nul m (s + 1) else Some s }"

text \<open>\<open>while (!DETECTNULL (*aligned_addr)) aligned_addr++\<close>\<close>

partial_function (option) skip_words :: "cmem \<Rightarrow> u32 \<Rightarrow> u32 option" where
  "skip_words m a = do { x \<leftarrow> load32 m a; if detect_null x = 0 then skip_words m (a + 4) else Some a }"

definition strlen_fast :: "cmem \<Rightarrow> u32 \<Rightarrow> u32 option" where
  "strlen_fast m start = do {
     str \<leftarrow> (if \<not> unaligned start then skip_words m start else Some start);
     str \<leftarrow> at_nul m str;
     Some (str - start)
   }"

text \<open>The loop over equal words: the result, or where the bytes are to be compared.\<close>

partial_function (option) strcmp_words :: "cmem \<Rightarrow> u32 \<Rightarrow> u32 \<Rightarrow> (int + u32 \<times> u32) option" where
  "strcmp_words m a1 a2 = do {
     x \<leftarrow> load32 m a1;
     y \<leftarrow> load32 m a2;
     if x = y then (if detect_null x \<noteq> 0 then Some (Inl 0) else strcmp_words m (a1 + 4) (a2 + 4)) else Some (Inr (a1, a2))
   }"

partial_function (option) strcmp_bytes :: "cmem \<Rightarrow> u32 \<Rightarrow> u32 \<Rightarrow> int option" where
  "strcmp_bytes m s1 s2 = do {
     c \<leftarrow> m s1;
     if c = 0 then do { d \<leftarrow> m s2; Some (uint c - uint d) } else do {
     d \<leftarrow> m s2;
     if c = d then strcmp_bytes m (s1 + 1) (s2 + 1) else Some (uint c - uint d)
   }}"

definition strcmp_fast :: "cmem \<Rightarrow> u32 \<Rightarrow> u32 \<Rightarrow> int option" where
  "strcmp_fast m s1 s2 = (if \<not> unaligned s1 \<and> \<not> unaligned s2
     then do {
       r \<leftarrow> strcmp_words m s1 s2;
       case r of Inl z \<Rightarrow> Some z | Inr (s1, s2) \<Rightarrow> strcmp_bytes m s1 s2
     } else strcmp_bytes m s1 s2)"

fun strncmp_words :: "cmem \<Rightarrow> u32 \<Rightarrow> u32 \<Rightarrow> nat \<Rightarrow> (int + u32 \<times> u32 \<times> nat) option" where
  "strncmp_words m a1 a2 n = (if n < 4 then Some (Inr (a1, a2, n)) else do {
     x \<leftarrow> load32 m a1;
     y \<leftarrow> load32 m a2;
     if x = y then (if n - 4 = 0 \<or> detect_null x \<noteq> 0 then Some (Inl 0) else strncmp_words m (a1 + 4) (a2 + 4) (n - 4))
     else Some (Inr (a1, a2, n))
   })"

fun strncmp_bytes :: "cmem \<Rightarrow> u32 \<Rightarrow> u32 \<Rightarrow> nat \<Rightarrow> int option" where
  "strncmp_bytes m s1 s2 0 = do { c \<leftarrow> m s1; d \<leftarrow> m s2; Some (uint c - uint d) }"
| "strncmp_bytes m s1 s2 (Suc n) = do {
     c \<leftarrow> m s1;
     d \<leftarrow> m s2;
     if c = d then (if n = 0 \<or> c = 0 then Some 0 else strncmp_bytes m (s1 + 1) (s2 + 1) n) else Some (uint c - uint d)
   }"

definition strncmp_fast :: "cmem \<Rightarrow> u32 \<Rightarrow> u32 \<Rightarrow> nat \<Rightarrow> int option" where
  "strncmp_fast m s1 s2 n = (if n = 0 then Some 0 else if \<not> unaligned s1 \<and> \<not> unaligned s2
     then do {
       r \<leftarrow> strncmp_words m s1 s2 n;
       case r of Inl z \<Rightarrow> Some z | Inr (s1, s2, n) \<Rightarrow> strncmp_bytes m s1 s2 n
     } else strncmp_bytes m s1 s2 n)"

partial_function (option) strcpy_words :: "u32 \<Rightarrow> u32 \<Rightarrow> cmem \<Rightarrow> (u32 \<times> u32 \<times> cmem) option" where
  "strcpy_words dst src m = do {
     x \<leftarrow> load32 m src;
     if detect_null x = 0 then do { m \<leftarrow> store32 dst x m; strcpy_words (dst + 4) (src + 4) m } else Some (dst, src, m)
   }"

text \<open>The loop over the bytes that are left is that of the plain \<open>strcpy\<close>.\<close>

definition strcpy_fast :: "u32 \<Rightarrow> u32 \<Rightarrow> cmem \<Rightarrow> cmem option" where
  "strcpy_fast dst src m = do {
     (dst, src, m) \<leftarrow> (if \<not> unaligned src \<and> \<not> unaligned dst then strcpy_words dst src m else Some (dst, src, m));
     strcpy dst src m
   }"

fun strncpy_words :: "u32 \<Rightarrow> u32 \<Rightarrow> nat \<Rightarrow> cmem \<Rightarrow> (u32 \<times> u32 \<times> nat \<times> cmem) option" where
  "strncpy_words dst src count m = (if count < 4 then Some (dst, src, count, m) else do {
     x \<leftarrow> load32 m src;
     if detect_null x = 0 then do { m \<leftarrow> store32 dst x m; strncpy_words (dst + 4) (src + 4) (count - 4) m } else Some (dst, src, count, m)
   })"

fun strncpy_bytes :: "u32 \<Rightarrow> u32 \<Rightarrow> nat \<Rightarrow> cmem \<Rightarrow> (u32 \<times> nat \<times> cmem) option" where
  "strncpy_bytes dst src 0 m = Some (dst, 0, m)"
| "strncpy_bytes dst src (Suc count) m = do {
     c \<leftarrow> m src;
     m \<leftarrow> store8 dst c m;
     if c = 0 then Some (dst + 1, count, m) else strncpy_bytes (dst + 1) (src + 1) count m
   }"

definition strncpy_fast :: "u32 \<Rightarrow> u32 \<Rightarrow> nat \<Rightarrow> cmem \<Rightarrow> cmem option" where
  "strncpy_fast dst src count m = do {
     (dst, src, count, m) \<leftarrow> (if \<not> unaligned src \<and> \<not> unaligned dst \<and> \<not> count < 4 then strncpy_words dst src count m else Some (dst, src, count, m));
     (dst, count, m) \<leftarrow> strncpy_bytes dst src count m;
     memset dst 0 count m
   }"

definition byte_mask :: "u8 \<Rightarrow> u32" where
  "byte_mask c = foldl (\<lambda>msk _. push_bit 8 msk OR ucast c) 0 [0..<4]"

partial_function (option) skip_char_words :: "cmem \<Rightarrow> u32 \<Rightarrow> u32 \<Rightarrow> u32 option" where
  "skip_char_words m a msk = do {
     x \<leftarrow> load32 m a;
     if detect_null x = 0 \<and> detect_null (x XOR msk) = 0 then skip_char_words m (a + 4) msk else Some a
   }"

partial_function (option) at_char :: "cmem \<Rightarrow> u32 \<Rightarrow> u8 \<Rightarrow> u32 option" where
  "at_char m s c = do { d \<leftarrow> m s; if d \<noteq> 0 \<and> d \<noteq> c then at_char m (s + 1) c else Some s }"

definition strchr_fast :: "cmem \<Rightarrow> u32 \<Rightarrow> u8 \<Rightarrow> u32 option" where
  "strchr_fast m s c = do {
     s \<leftarrow> (if \<not> unaligned s then skip_char_words m s (byte_mask c) else Some s);
     s \<leftarrow> at_char m s c;
     d \<leftarrow> m s;
     Some (if d = c then s else 0)
   }"

partial_function (option) strrchr_fast_loop :: "cmem \<Rightarrow> u32 \<Rightarrow> u8 \<Rightarrow> u32 \<Rightarrow> u32 option" where
  "strrchr_fast_loop m s i found = do {
     s \<leftarrow> strchr_fast m s i;
     if s \<noteq> 0 then strrchr_fast_loop m (s + 1) i s else Some found
   }"

definition strrchr_fast :: "cmem \<Rightarrow> u32 \<Rightarrow> u8 \<Rightarrow> u32 option" where
  "strrchr_fast m s i = (if i \<noteq> 0 then strrchr_fast_loop m s i 0 else strchr_fast m s i)"

definition end_of_string :: "cmem \<Rightarrow> u32 \<Rightarrow> u32 option" where
  "end_of_string m s1 = do { s1 \<leftarrow> (if \<not> unaligned s1 then skip_words m s1 else Some s1); at_nul m s1 }"

definition strcat_fast :: "u32 \<Rightarrow> u32 \<Rightarrow> cmem \<Rightarrow> cmem option" where
  "strcat_fast s1 s2 m = do { s1 \<leftarrow> end_of_string m s1; strcpy_fast s1 s2 m }"

fun strncat_bytes :: "u32 \<Rightarrow> u32 \<Rightarrow> nat \<Rightarrow> cmem \<Rightarrow> cmem option" where
  "strncat_bytes s1 s2 0 m = Some m"
| "strncat_bytes s1 s2 (Suc n) m = do {
     c \<leftarrow> m s2;
     m \<leftarrow> store8 s1 c m;
     if c \<noteq> 0 then do { m \<leftarrow> (if n = 0 then store8 (s1 + 1) 0 m else Some m); strncat_bytes (s1 + 1) (s2 + 1) n m } else Some m
   }"

definition strncat_fast :: "u32 \<Rightarrow> u32 \<Rightarrow> nat \<Rightarrow> cmem \<Rightarrow> cmem option" where
  "strncat_fast s1 s2 n m = do { s1 \<leftarrow> end_of_string m s1; strncat_bytes s1 s2 n m }"

section \<open>Blocks, word by word\<close>

definition byte_sum :: "u8 \<Rightarrow> u32" where
  "byte_sum c = foldl (\<lambda>msk _. push_bit 8 msk + ucast c) 0 [0..<4]"

fun copy_words :: "u32 \<Rightarrow> u32 \<Rightarrow> nat \<Rightarrow> cmem \<Rightarrow> cmem option" where
  "copy_words dst src 0 m = Some m"
| "copy_words dst src (Suc k) m = do { x \<leftarrow> load32 m src; m \<leftarrow> store32 dst x m; copy_words (dst + 4) (src + 4) k m }"

text \<open>The loop that copies four words, and the one that copies one.\<close>

fun copy_big :: "u32 \<Rightarrow> u32 \<Rightarrow> nat \<Rightarrow> cmem \<Rightarrow> (u32 \<times> u32 \<times> nat \<times> cmem) option" where
  "copy_big dst src len m = (if len \<ge> 16 then do { m \<leftarrow> copy_words dst src 4 m; copy_big (dst + 16) (src + 16) (len - 16) m }
     else Some (dst, src, len, m))"

fun copy_little :: "u32 \<Rightarrow> u32 \<Rightarrow> nat \<Rightarrow> cmem \<Rightarrow> (u32 \<times> u32 \<times> nat \<times> cmem) option" where
  "copy_little dst src len m = (if len \<ge> 4 then do { m \<leftarrow> copy_words dst src 1 m; copy_little (dst + 4) (src + 4) (len - 4) m }
     else Some (dst, src, len, m))"

definition memcpy_fast :: "u32 \<Rightarrow> u32 \<Rightarrow> nat \<Rightarrow> cmem \<Rightarrow> cmem option" where
  "memcpy_fast dst src len m = do {
     (dst, src, len, m) \<leftarrow> (if \<not> len < 16 \<and> \<not> unaligned src \<and> \<not> unaligned dst
       then do { (dst, src, len, m) \<leftarrow> copy_big dst src len m; copy_little dst src len m } else Some (dst, src, len, m));
     memcpy dst src len m
   }"

definition memmove_fast :: "u32 \<Rightarrow> u32 \<Rightarrow> nat \<Rightarrow> cmem \<Rightarrow> cmem option" where
  "memmove_fast dst src len m = (if src < dst \<and> dst < src + of_nat len
     then copy_back (dst + of_nat len) (src + of_nat len) len m else memcpy_fast dst src len m)"

fun memcmp_words :: "cmem \<Rightarrow> u32 \<Rightarrow> u32 \<Rightarrow> nat \<Rightarrow> (u32 \<times> u32 \<times> nat) option" where
  "memcmp_words m a1 a2 n = (if n \<ge> 4 then do {
     x \<leftarrow> load32 m a1;
     y \<leftarrow> load32 m a2;
     if x \<noteq> y then Some (a1, a2, n) else memcmp_words m (a1 + 4) (a2 + 4) (n - 4)
   } else Some (a1, a2, n))"

fun memcmp_bytes :: "cmem \<Rightarrow> u32 \<Rightarrow> u32 \<Rightarrow> nat \<Rightarrow> int option" where
  "memcmp_bytes m s1 s2 0 = Some 0"
| "memcmp_bytes m s1 s2 (Suc n) = do {
     c \<leftarrow> m s1;
     d \<leftarrow> m s2;
     if c \<noteq> d then Some (uint c - uint d) else memcmp_bytes m (s1 + 1) (s2 + 1) n
   }"

definition memcmp_fast :: "cmem \<Rightarrow> u32 \<Rightarrow> u32 \<Rightarrow> nat \<Rightarrow> int option" where
  "memcmp_fast m s1 s2 n = do {
     (s1, s2, n) \<leftarrow> (if \<not> n < 4 \<and> \<not> unaligned s1 \<and> \<not> unaligned s2 then memcmp_words m s1 s2 n else Some (s1, s2, n));
     memcmp_bytes m s1 s2 n
   }"

text \<open>The loop over the bytes of one word.\<close>

fun memchr_block :: "cmem \<Rightarrow> u32 \<Rightarrow> u8 \<Rightarrow> nat \<Rightarrow> u32 option option" where
  "memchr_block m src c 0 = Some None"
| "memchr_block m src c (Suc j) = do { d \<leftarrow> m src; if d = c then Some (Some src) else memchr_block m (src + 1) c j }"

fun memchr_words :: "cmem \<Rightarrow> u32 \<Rightarrow> u8 \<Rightarrow> u32 \<Rightarrow> nat \<Rightarrow> (u32 + u32 \<times> nat) option" where
  "memchr_words m asrc c msk n = (if n \<ge> 4 then do {
     x \<leftarrow> load32 m asrc;
     found \<leftarrow> (if detect_null (x XOR msk) \<noteq> 0 then memchr_block m asrc c 4 else Some None);
     case found of Some p \<Rightarrow> Some (Inl p) | None \<Rightarrow> memchr_words m (asrc + 4) c msk (n - 4)
   } else Some (Inr (asrc, n)))"

definition memchr_fast :: "cmem \<Rightarrow> u32 \<Rightarrow> u8 \<Rightarrow> nat \<Rightarrow> u32 option" where
  "memchr_fast m src c n = (if \<not> n < 4 \<and> \<not> unaligned src
     then do {
       r \<leftarrow> memchr_words m src c (byte_sum c) n;
       case r of Inl p \<Rightarrow> Some p | Inr (src, n) \<Rightarrow> memchr m src c n
     } else memchr m src c n)"

text \<open>\<open>memset\<close> sets the first bytes up to a word one by one; \<open>n\<close> is the count before each step.\<close>

fun memset_head :: "u32 \<Rightarrow> u8 \<Rightarrow> nat \<Rightarrow> cmem \<Rightarrow> (u32 \<times> nat \<times> cmem) option" where
  "memset_head s c 0 m = Some (s, 0, m)"
| "memset_head s c (Suc n) m = (if unaligned s then do { m \<leftarrow> store8 s c m; memset_head (s + 1) c n m } else Some (s, Suc n, m))"

fun memset_big :: "u32 \<Rightarrow> u32 \<Rightarrow> nat \<Rightarrow> cmem \<Rightarrow> (u32 \<times> nat \<times> cmem) option" where
  "memset_big s buffer n m = (if n \<ge> 16 then do {
     m \<leftarrow> store32 s buffer m;
     m \<leftarrow> store32 (s + 4) buffer m;
     m \<leftarrow> store32 (s + 8) buffer m;
     m \<leftarrow> store32 (s + 12) buffer m;
     memset_big (s + 16) buffer (n - 16) m
   } else Some (s, n, m))"

fun memset_little :: "u32 \<Rightarrow> u32 \<Rightarrow> nat \<Rightarrow> cmem \<Rightarrow> (u32 \<times> nat \<times> cmem) option" where
  "memset_little s buffer n m = (if n \<ge> 4 then do { m \<leftarrow> store32 s buffer m; memset_little (s + 4) buffer (n - 4) m } else Some (s, n, m))"

definition memset_buffer :: "u8 \<Rightarrow> u32" where
  "memset_buffer c = (let b = ucast c; b = b OR push_bit 8 b in b OR push_bit 16 b)"

definition memset_fast :: "u32 \<Rightarrow> u8 \<Rightarrow> nat \<Rightarrow> cmem \<Rightarrow> cmem option" where
  "memset_fast s c n m = do {
     (s, n, m) \<leftarrow> memset_head s c n m;
     (s, n, m) \<leftarrow> (if \<not> n < 4 then do { (s, n, m) \<leftarrow> memset_big s (memset_buffer c) n m; memset_little s (memset_buffer c) n m } else Some (s, n, m));
     memset s c n m
   }"

declare strncmp_words.simps [simp del] strncpy_words.simps [simp del] copy_big.simps [simp del] copy_little.simps [simp del]
  memcmp_words.simps [simp del] memchr_words.simps [simp del] memset_big.simps [simp del] memset_little.simps [simp del]

end
