(* ===== verification/Cblock_Props.thy ===== *)
theory Cblock_Props
  imports Cstring
begin

text \<open>
  Blocks of memory: the fast functions compute what the plain ones do, and copies of blocks that overlap are right.
\<close>

section \<open>Copies\<close>

lemma memcpy_add: "memcpy dst src (a + b) m = do { m \<leftarrow> memcpy dst src a m; memcpy (dst + of_nat a) (src + of_nat a) b m }"
proof (induction a arbitrary: dst src m)
  case (Suc a)
  then show ?case by (simp add: Suc add.commute add.left_commute cong: option.case_cong split: Option.bind_splits)
qed simp

lemma memset_add: "memset s c (a + b) m = do { m \<leftarrow> memset s c a m; memset (s + of_nat a) c b m }"
proof (induction a arbitrary: s m)
  case (Suc a)
  then show ?case by (cases "store8 s c m") (simp_all add: Suc add.commute add.left_commute)
qed simp

lemma copy_word:
  assumes "\<not> unaligned dst" "\<not> unaligned src"
  shows "do { x \<leftarrow> load32 m src; store32 dst x m } = memcpy dst src 4 m"
proof -
  have n: "src + 1 \<noteq> dst" "src + 2 \<noteq> dst" "src + 3 \<noteq> dst" "src + 2 \<noteq> dst + 1" "src + 3 \<noteq> dst + 1" "src + 3 \<noteq> dst + 2"
    using aligned_apart [OF assms(2,1), of 1 0] aligned_apart [OF assms(2,1), of 2 0] aligned_apart [OF assms(2,1), of 3 0]
      aligned_apart [OF assms(2,1), of 2 1] aligned_apart [OF assms(2,1), of 3 1] aligned_apart [OF assms(2,1), of 3 2] by auto
  have four: "memcpy dst src 4 m = memcpy dst src (Suc (Suc (Suc (Suc 0)))) m" by (simp add: eval_nat_numeral)
  show ?thesis
    by (cases "m src"; cases "m (src + 1)"; cases "m (src + 2)"; cases "m (src + 3)"; cases "m dst"; cases "m (dst + 1)"; cases "m (dst + 2)"; cases "m (dst + 3)")
      (simp_all add: four load32_def store32_word_of store8_def n near_distinct add.assoc)
qed

lemma copy_words_memcpy:
  "\<not> unaligned dst \<Longrightarrow> \<not> unaligned src \<Longrightarrow> copy_words dst src k m = memcpy dst src (4 * k) m"
proof (induction k arbitrary: dst src m)
  case (Suc k)
  have "memcpy dst src (4 * Suc k) m = do { m \<leftarrow> memcpy dst src 4 m; memcpy (dst + 4) (src + 4) (4 * k) m }"
    using memcpy_add [of dst src 4 "4 * k" m] by simp
  also have "\<dots> = do { m \<leftarrow> memcpy dst src 4 m; copy_words (dst + 4) (src + 4) k m }"
    using Suc aligned_next by simp
  finally show ?case using Suc.prems by (simp add: copy_word [symmetric] bind_assoc)
qed simp

lemma copy_little_memcpy:
  "\<not> unaligned dst \<Longrightarrow> \<not> unaligned src \<Longrightarrow>
    do { (dst, src, len, m) \<leftarrow> copy_little dst src len m; memcpy dst src len m } = memcpy dst src len m"
proof (induction dst src len m rule: copy_little.induct)
  case (1 dst src len m)
  show ?case
  proof (cases "len \<ge> 4")
    case True
    have "do { (dst, src, len, m) \<leftarrow> copy_little dst src len m; memcpy dst src len m }
       = do { m \<leftarrow> copy_words dst src 1 m; (dst, src, len, m) \<leftarrow> copy_little (dst + 4) (src + 4) (len - 4) m; memcpy dst src len m }"
      using True by (subst copy_little.simps) simp
    also have "\<dots> = do { m \<leftarrow> memcpy dst src 4 m; memcpy (dst + 4) (src + 4) (len - 4) m }"
      using copy_words_memcpy [of dst src 1] 1 True aligned_next by (cases "memcpy dst src 4 m") (simp_all add: split_def)
    also have "\<dots> = memcpy dst src len m" using memcpy_add [of dst src 4 "len - 4" m] True by simp
    finally show ?thesis .
  qed (simp add: copy_little.simps)
qed

lemma copy_big_memcpy:
  "\<not> unaligned dst \<Longrightarrow> \<not> unaligned src \<Longrightarrow>
    do { (dst, src, len, m) \<leftarrow> copy_big dst src len m; (dst, src, len, m) \<leftarrow> copy_little dst src len m; memcpy dst src len m }
    = memcpy dst src len m"
proof (induction dst src len m rule: copy_big.induct)
  case (1 dst src len m)
  have a: "\<not> unaligned (dst + 16)" "\<not> unaligned (src + 16)"
    using aligned_next [OF aligned_next [OF aligned_next [OF aligned_next]]] 1(2,3) by (simp_all add: add.assoc)
  show ?case
  proof (cases "len \<ge> 16")
    case True
    have "do { (dst, src, len, m) \<leftarrow> copy_big dst src len m; (dst, src, len, m) \<leftarrow> copy_little dst src len m; memcpy dst src len m }
       = do { m \<leftarrow> copy_words dst src 4 m; (dst, src, len, m) \<leftarrow> copy_big (dst + 16) (src + 16) (len - 16) m;
              (dst, src, len, m) \<leftarrow> copy_little dst src len m; memcpy dst src len m }"
      using True by (subst copy_big.simps) simp
    also have "\<dots> = do { m \<leftarrow> memcpy dst src 16 m; memcpy (dst + 16) (src + 16) (len - 16) m }"
      using copy_words_memcpy [of dst src 4] 1 True a by (cases "memcpy dst src 16 m") (simp_all add: split_def)
    also have "\<dots> = memcpy dst src len m" using memcpy_add [of dst src 16 "len - 16" m] True by simp
    finally show ?thesis .
  next
    case False
    then show ?thesis using copy_little_memcpy [OF 1(2,3)] by (simp add: copy_big.simps)
  qed
qed

lemma memcpy_fast_eq: "memcpy_fast dst src len m = memcpy dst src len m"
  using copy_big_memcpy [of dst src len m] by (auto simp: memcpy_fast_def split_def)

section \<open>Filling\<close>

lemma byte_words: "memset_buffer c = word_of c c c c" "byte_mask c = word_of c c c c" "byte_sum c = word_of c c c c"
proof -
  have f: "[0..<4] = [0, 1, 2, 3 :: nat]" by (simp add: upt_rec)
  show "memset_buffer c = word_of c c c c" by (rule bit_word_eqI) (auto simp: memset_buffer_def word_of_def Let_def bit_simps dest: bit_u8)
  show m: "byte_mask c = word_of c c c c" by (rule bit_word_eqI) (auto simp: byte_mask_def word_of_def f bit_simps dest: bit_u8)
  have "push_bit 8 x + ucast c = push_bit 8 x OR ucast c" for x :: u32
    by (rule disjunctive_add_eq_or) (rule bit_word_eqI, auto simp: bit_simps dest: bit_u8)
  then show "byte_sum c = word_of c c c c" unfolding m [symmetric] by (simp add: byte_sum_def byte_mask_def)
qed

lemma set_word: "store32 s (word_of c c c c) m = memset s c 4 m"
proof -
  have "memset s c (Suc n) = (\<lambda>m. store8 s c m \<bind> memset (s + 1) c n)" for s n by (rule ext) simp
  moreover have "memset s c 0 = Some" for s by (rule ext) simp
  ultimately show ?thesis by (simp add: eval_nat_numeral store32_word_of add.assoc)
qed

lemma memset_head_ok:
  "memset s c n m = do { (s, n, m) \<leftarrow> memset_head s c n m; memset s c n m }"
  by (induction s c n m rule: memset_head.induct) (auto split: Option.bind_splits)

lemma memset_little_ok: "do { (s, n, m) \<leftarrow> memset_little s (word_of c c c c) n m; memset s c n m } = memset s c n m"
proof (induction s "word_of c c c c" n m rule: memset_little.induct)
  case (1 s n m)
  show ?case
  proof (cases "n \<ge> 4")
    case True
    then show ?thesis using 1 memset_add [of s c 4 "n - 4" m] memset_little.simps [of s "word_of c c c c" n m] unfolding set_word
      by (cases "memset s c 4 m") simp_all
  qed (simp add: memset_little.simps)
qed

lemma memset_big_ok:
  "do { (s, n, m) \<leftarrow> memset_big s (word_of c c c c) n m; (s, n, m) \<leftarrow> memset_little s (word_of c c c c) n m; memset s c n m } = memset s c n m"
proof (induction s "word_of c c c c" n m rule: memset_big.induct)
  case (1 s n m)
  have four: "do { m \<leftarrow> memset s c 4 m; m \<leftarrow> memset (s + 4) c 4 m; m \<leftarrow> memset (s + 8) c 4 m; memset (s + 12) c 4 m } = memset s c 16 m"
    using memset_add [of s c 4 12 m] memset_add [of "s + 4" c 4 8] memset_add [of "s + 8" c 4 4] by (simp add: add.assoc)
  show ?case
  proof (cases "n \<ge> 16")
    case True
    have b: "memset_big s (word_of c c c c) n m = do { m \<leftarrow> memset s c 16 m; memset_big (s + 16) (word_of c c c c) (n - 16) m }"
      using True by (subst memset_big.simps) (simp add: set_word four [symmetric])
    have n: "memset s c n m = do { m \<leftarrow> memset s c 16 m; memset (s + 16) c (n - 16) m }"
      using memset_add [of s c 16 "n - 16" m] True by simp
    show ?thesis
    proof (cases "memset s c 16 m")
      case (Some d)
      then obtain a1 a2 a3 where "memset s c 4 m = Some a1" "memset (s + 4) c 4 a1 = Some a2" "memset (s + 8) c 4 a2 = Some a3" "memset (s + 12) c 4 a3 = Some d"
        by (auto simp: four [symmetric] bind_eq_Some_conv)
      then show ?thesis using 1 [OF True, unfolded set_word] n b Some by (simp add: split_def)
    qed (simp add: n b)
  next
    case False
    then show ?thesis using memset_little_ok [of s c n m] by (simp add: memset_big.simps)
  qed
qed

lemma memset_fast_eq: "memset_fast s c n m = memset s c n m"
proof (cases "memset_head s c n m")
  case None
  then show ?thesis using memset_head_ok [of s c n m] by (simp add: memset_fast_def)
next
  case (Some h)
  then show ?thesis using memset_head_ok [of s c n m] memset_big_ok [where c = c] by (cases h) (auto simp: memset_fast_def byte_words split_def)
qed

section \<open>Searches and comparisons\<close>

lemma memchr_block_add:
  "memchr m cp c (a + b) = do { r \<leftarrow> memchr_block m cp c a; case r of Some p \<Rightarrow> Some p | None \<Rightarrow> memchr m (cp + of_nat a) c b }"
  by (induction a arbitrary: cp) (auto simp: add.assoc split: Option.bind_splits)

lemma xor_eq_0: "a XOR c = 0 \<longleftrightarrow> a = (c :: u8)"
  by (metis xor.assoc xor.right_neutral xor_self_eq)

lemma memchr_words_ok:
  "mapped m s n \<Longrightarrow> do { r \<leftarrow> memchr_words m s c (word_of c c c c) n; case r of Inl p \<Rightarrow> Some p | Inr (s, n) \<Rightarrow> memchr m s c n } = memchr m s c n"
proof (induction m s c "word_of c c c c" n rule: memchr_words.induct)
  case (1 m s c n)
  show ?case
  proof (cases "n \<ge> 4")
    case True
    obtain a b e f where w: "holds m s [a, b, e, f]" "load32 m s = Some (word_of a b e f)" "mapped m (s + 4) (n - 4)"
      using mapped_4 [OF 1(2) True] by blast
    have x: "word_of a b e f XOR word_of c c c c = word_of (a XOR c) (b XOR c) (e XOR c) (f XOR c)" by (rule word_of_xor)
    have n: "memchr m s c n = do { r \<leftarrow> memchr_block m s c 4; case r of Some p \<Rightarrow> Some p | None \<Rightarrow> memchr m (s + 4) c (n - 4) }"
      using memchr_block_add [of m s c 4 "n - 4", unfolded of_nat_numeral] True by simp
    have blk: "memchr_block m s c 4 = (if a = c then Some (Some s) else if b = c then Some (Some (s + 1)) else
      if e = c then Some (Some (s + 2)) else if f = c then Some (Some (s + 3)) else Some None)"
      using w(1) by (simp add: eval_nat_numeral add.assoc)
    have "detect_null (word_of a b e f XOR word_of c c c c) = 0 \<longleftrightarrow> a \<noteq> c \<and> b \<noteq> c \<and> e \<noteq> c \<and> f \<noteq> c"
      by (simp add: x detect_null_0 xor_eq_0)
    then have found: "(if detect_null (word_of a b e f XOR word_of c c c c) \<noteq> 0 then memchr_block m s c 4 else Some None) = memchr_block m s c 4"
      by (simp add: blk)
    show ?thesis
    proof (cases "the (memchr_block m s c 4)")
      case (Some p)
      then have "memchr_block m s c 4 = Some (Some p)" using blk by (auto split: if_splits)
      then show ?thesis using n True w(2) found by (subst memchr_words.simps) simp
    next
      case None
      then have "memchr_block m s c 4 = Some None" using blk by (auto split: if_splits)
      then show ?thesis using n True w(2) found 1(1) [OF True w(2) _ _ w(3)] by (subst memchr_words.simps) simp
    qed
  qed (simp add: memchr_words.simps)
qed

lemma memchr_fast_eq: "mapped m s n \<Longrightarrow> memchr_fast m s c n = memchr m s c n"
  using memchr_words_ok [of m s n c] by (simp add: memchr_fast_def byte_words)

lemma memcmp_words_ok:
  "mapped m s n \<Longrightarrow> mapped m t n \<Longrightarrow> do { (s, t, n) \<leftarrow> memcmp_words m s t n; memcmp_bytes m s t n } = memcmp_bytes m s t n"
proof (induction m s t n rule: memcmp_words.induct)
  case (1 m s t n)
  show ?case
  proof (cases "n \<ge> 4")
    case True
    obtain a b c d where w: "holds m s [a, b, c, d]" "load32 m s = Some (word_of a b c d)" "mapped m (s + 4) (n - 4)"
      using mapped_4 [OF 1(2) True] by blast
    obtain a' b' c' d' where w': "holds m t [a', b', c', d']" "load32 m t = Some (word_of a' b' c' d')" "mapped m (t + 4) (n - 4)"
      using mapped_4 [OF 1(3) True] by blast
    have n: "n = Suc (Suc (Suc (Suc (n - 4))))" using True by simp
    show ?thesis
    proof (cases "word_of a b c d = word_of a' b' c' d'")
      case eq: True
      then have "memcmp_bytes m s t n = memcmp_bytes m (s + 4) (t + 4) (n - 4)"
        using w(1) w'(1) by (subst n) (simp add: add.assoc)
      then show ?thesis using 1(1) [OF True w(2) w'(2) _ w(3) w'(3)] True w(2) w'(2) eq by (subst memcmp_words.simps) simp
    next
      case False
      then show ?thesis using True w(2) w'(2) by (subst memcmp_words.simps) simp
    qed
  qed (simp add: memcmp_words.simps)
qed

lemma memcmp_fast_bytes: "mapped m s n \<Longrightarrow> mapped m t n \<Longrightarrow> memcmp_fast m s t n = memcmp_bytes m s t n"
  using memcmp_words_ok [of m s n t] by (auto simp: memcmp_fast_def split_def)

fun first_diff :: "u8 list \<Rightarrow> u8 list \<Rightarrow> u8 \<times> u8" where
  "first_diff (b # bs) (c # cs) = (if b = c then first_diff bs cs else (b, c))"
| "first_diff _ _ = (0, 0)"

lemma memcmp_spec:
  "holds m s bs \<Longrightarrow> holds m t cs \<Longrightarrow> length bs = n \<Longrightarrow> length cs = n \<Longrightarrow>
    memcmp_bytes m s t n = Some (case first_diff bs cs of (b, c) \<Rightarrow> uint b - uint c) \<and>
    memcmp m s t n = Some (case first_diff bs cs of (b, c) \<Rightarrow> sint (b - c))"
proof (induction n arbitrary: s t bs cs)
  case (Suc n)
  then obtain b bs' c cs' where l: "bs = b # bs'" "cs = c # cs'" by (metis length_Suc_conv)
  have "sint (b - c) = 0 \<longleftrightarrow> b = c" by (simp add: signed_eq_0_iff)
  then show ?case using Suc.IH [of "s + 1" bs' "t + 1" cs'] Suc.prems by (cases "n = 0") (auto simp: l)
qed simp

section \<open>Blocks that overlap\<close>

lemma copy_forward:
  "holds m src bs \<Longrightarrow> mapped m dst (length bs) \<Longrightarrow> unat src + length bs \<le> 2 ^ 32 \<Longrightarrow> unat dst + length bs \<le> 2 ^ 32 \<Longrightarrow>
    \<not> (src < dst \<and> unat dst < unat src + length bs) \<Longrightarrow> memcpy dst src (length bs) m = Some (put_bytes dst bs m)"
proof (induction bs arbitrary: m dst src)
  case (Cons b bs)
  have d: "m dst \<noteq> None" "mapped (m(dst \<mapsto> b)) (dst + 1) (length bs)" using Cons.prems(2) mapped_upd by (auto simp: mapped_Suc)
  show ?case
  proof (cases "bs = []")
    case False
    then have u: "unat (src + 1) = unat src + 1" "unat (dst + 1) = unat dst + 1"
      using Cons.prems(3,4) unat_next [of _ "length bs"] by simp_all
    have "holds (m(dst \<mapsto> b)) (src + 1) bs"
      by (rule holds_other) (use Cons.prems u in \<open>auto simp: word_less_nat_alt\<close>)
    then show ?thesis using Cons.IH [of "m(dst \<mapsto> b)" "src + 1" "dst + 1"] Cons.prems d u
      by (auto simp: store8_def word_less_nat_alt simp del: fun_upd_apply)
  qed (use Cons.prems d in \<open>auto simp: store8_def\<close>)
qed simp

lemma copy_backward:
  "holds m src bs \<Longrightarrow> mapped m dst (length bs) \<Longrightarrow> unat src + length bs \<le> 2 ^ 32 \<Longrightarrow> unat dst + length bs \<le> 2 ^ 32 \<Longrightarrow>
    src < dst \<Longrightarrow> copy_back (dst + of_nat (length bs)) (src + of_nat (length bs)) (length bs) m = Some (put_bytes dst bs m)"
proof (induction bs arbitrary: m rule: rev_induct)
  case (snoc b bs)
  let ?n = "length bs"
  have a: "unat (dst + of_nat ?n) = unat dst + ?n" "unat (src + of_nat ?n) = unat src + ?n"
    using snoc.prems(3,4) range_unat [of _ "Suc ?n" ?n] by simp_all
  have h: "holds m src bs" "m (src + of_nat ?n) = Some b" using snoc.prems(1) by (simp_all add: holds_append)
  have d: "m (dst + of_nat ?n) \<noteq> None" "mapped (m(dst + of_nat ?n \<mapsto> b)) dst ?n"
    using snoc.prems(2) mapped_upd by (auto simp: mapped_def)
  have "holds (m(dst + of_nat ?n \<mapsto> b)) src bs"
    by (rule holds_other) (use h snoc.prems a in \<open>auto simp: word_less_nat_alt\<close>)
  then have "copy_back (dst + of_nat ?n) (src + of_nat ?n) ?n (m(dst + of_nat ?n \<mapsto> b)) = Some (put_bytes dst bs (m(dst + of_nat ?n \<mapsto> b)))"
    using snoc.IH [of "m(dst + of_nat ?n \<mapsto> b)"] d snoc.prems(3,4,5) by (simp del: fun_upd_apply)
  moreover have "put_bytes dst bs (m(dst + of_nat ?n \<mapsto> b)) = put_bytes dst (bs @ [b]) m"
    using put_bytes_upd [of dst bs "dst + of_nat ?n" m b] snoc.prems(4) a by (simp add: put_bytes_append)
  ultimately show ?case using h d by (simp add: store8_def add.assoc [symmetric])
qed simp

end
