(* ===== verification/Cstring_Props.thy ===== *)
theory Cstring_Props
  imports Cblock_Props
begin

text \<open>
  Strings: what the plain functions return, that the fast ones agree with them, and where functions do not do what they are for.
\<close>

section \<open>Ends of strings\<close>

lemma cstring_Nil [simp]: "cstring m p [] \<longleftrightarrow> m p = Some 0"
  by (simp add: cstring_def)

lemma cstring_Cons [simp]: "cstring m p (c # s) \<longleftrightarrow> c \<noteq> 0 \<and> m p = Some c \<and> cstring m (p + 1) s"
  by (auto simp: cstring_def)

lemma cstring_drop: "cstring m p s \<Longrightarrow> k \<le> length s \<Longrightarrow> cstring m (p + of_nat k) (drop k s)"
proof (induction k arbitrary: p s)
  case (Suc k)
  then show ?case by (cases s) (auto simp: add.assoc [symmetric])
qed simp

lemma past_nul_ok: "cstring m p s \<Longrightarrow> past_nul m p = Some (p + of_nat (length s) + 1)"
  by (induction s arbitrary: p) (subst past_nul.simps, simp add: add.assoc)+

lemma at_nul_ok: "cstring m p s \<Longrightarrow> at_nul m p = Some (p + of_nat (length s))"
  by (induction s arbitrary: p) (subst at_nul.simps, simp add: add.assoc)+

lemma strlen_ok: "cstring m p s \<Longrightarrow> strlen m p = Some (of_nat (length s))"
  by (simp add: strlen_def past_nul_ok)

lemma whole_words_0:
  assumes "whole_words m p n" "\<not> unaligned p" "0 < n"
  obtains a b c d where "holds m p [a, b, c, d]" "load32 m p = Some (word_of a b c d)" "whole_words m (p + 4) (n - 4)"
proof -
  have "m ((p + of_nat 0 AND NOT 3) + of_nat k) \<noteq> None" if "k < 4" for k
    using assms(1,3) that unfolding whole_words_def by blast
  then have "mapped m p 4" unfolding aligned_base [OF assms(2) zero_less_numeral] by (simp add: mapped_def)
  moreover have "whole_words m (p + 4) (n - 4)"
    unfolding whole_words_def
  proof (intro allI impI)
    fix i k assume "i < n - 4" "k < (4 :: nat)"
    then have "4 + i < n" by simp
    then have "m ((p + of_nat (4 + i) AND NOT 3) + of_nat k) \<noteq> None" using assms(1) \<open>k < 4\<close> unfolding whole_words_def by blast
    then show "m ((p + 4 + of_nat i AND NOT 3) + of_nat k) \<noteq> None" by (simp add: add.assoc)
  qed
  ultimately show thesis using that mapped_4 [of m p 4] by (metis order_refl)
qed

lemma cstring_cases:
  assumes "cstring m p s" "m p = Some a"
  obtains "s = []" "a = 0" | s' where "s = a # s'" "a \<noteq> 0" "cstring m (p + 1) s'"
  using assms by (cases s) auto

lemma cstring_word:
  assumes "cstring m p s" "holds m p [a, b, c, d]"
  shows "(a \<noteq> 0 \<and> b \<noteq> 0 \<and> c \<noteq> 0 \<and> d \<noteq> 0 \<longleftrightarrow> 4 \<le> length s) \<and> (4 \<le> length s \<longrightarrow> s = [a, b, c, d] @ drop 4 s \<and> cstring m (p + 4) (drop 4 s))"
proof -
  have h: "m p = Some a" "m (p + 1) = Some b" "m (p + 1 + 1) = Some c" "m (p + 1 + 1 + 1) = Some d" using assms(2) by simp_all
  have p: "p + 1 + 1 + 1 + 1 = p + 4" by simp
  show ?thesis
  proof (cases rule: cstring_cases [OF assms(1) h(1)])
    case (2 s1)
    then show ?thesis
    proof (cases rule: cstring_cases [OF 2(3) h(2), case_names a b])
      case (b s2)
      then show ?thesis
      proof (cases rule: cstring_cases [OF b(3) h(3), case_names a c])
        case (c s3)
        then show ?thesis by (cases rule: cstring_cases [OF c(3) h(4)]) (simp_all add: 2 b c add.commute [of p])
      qed (simp add: 2 b)
    qed (simp add: 2)
  qed simp
qed

lemma skip_words_ok:
  "cstring m p s \<Longrightarrow> whole_words m p (length s + 1) \<Longrightarrow> \<not> unaligned p \<Longrightarrow>
    \<exists>k \<le> length s. skip_words m p = Some (p + of_nat k)"
proof (induction s arbitrary: p rule: length_induct)
  case (1 s)
  obtain a b c d where w: "holds m p [a, b, c, d]" "load32 m p = Some (word_of a b c d)" "whole_words m (p + 4) (length s + 1 - 4)"
    by (rule whole_words_0 [OF 1(3,4)]) simp
  show ?case
  proof (cases "4 \<le> length s")
    case True
    have c4: "cstring m (p + 4) (drop 4 s)" using cstring_word [OF 1(2) w(1)] True by blast
    have "whole_words m (p + 4) (length (drop 4 s) + 1)" using w(3) True Suc_diff_le [of 4 "length s"] by simp
    then obtain k where "k \<le> length s - 4" "skip_words m (p + 4) = Some (p + 4 + of_nat k)"
      using 1(1) c4 aligned_next [OF 1(4)] True by (auto dest!: spec [of _ "drop 4 s"])
    moreover have "skip_words m p = skip_words m (p + 4)"
      using w(2) cstring_word [OF 1(2) w(1)] True by (subst skip_words.simps) (simp add: detect_null_0)
    ultimately show ?thesis using True by (intro exI [of _ "k + 4"]) (simp add: algebra_simps)
  next
    case False
    then have "skip_words m p = Some p" using w(2) cstring_word [OF 1(2) w(1)] by (subst skip_words.simps) (auto simp: detect_null_0)
    then show ?thesis by (intro exI [of _ 0]) simp
  qed
qed

lemma end_of_string_ok:
  assumes "cstring m p s" "whole_words m p (length s + 1)"
  shows "end_of_string m p = Some (p + of_nat (length s))"
proof (cases "unaligned p")
  case False
  then obtain k where k: "k \<le> length s" "skip_words m p = Some (p + of_nat k)" using skip_words_ok assms by blast
  then have "at_nul m (p + of_nat k) = Some (p + of_nat k + of_nat (length s - k))" using at_nul_ok [OF cstring_drop [OF assms(1)]] by simp
  moreover have "of_nat k + of_nat (length s - k) = (of_nat (length s) :: u32)" using k(1) by (metis le_add_diff_inverse of_nat_add)
  ultimately show ?thesis using False k by (simp add: end_of_string_def add.assoc)
qed (simp add: end_of_string_def at_nul_ok [OF assms(1)])

lemma strlen_fast_ok: "cstring m p s \<Longrightarrow> whole_words m p (length s + 1) \<Longrightarrow> strlen_fast m p = Some (of_nat (length s))"
  using end_of_string_ok [of m p s] by (auto simp: strlen_fast_def end_of_string_def split: Option.bind_splits if_splits)

section \<open>Searches\<close>

fun first_at :: "u8 \<Rightarrow> u8 list \<Rightarrow> nat option" where
  "first_at c [] = None"
| "first_at c (b # bs) = (if b = c then Some 0 else map_option Suc (first_at c bs))"

fun last_at :: "u8 \<Rightarrow> u8 list \<Rightarrow> nat option" where
  "last_at c [] = None"
| "last_at c (b # bs) = (case last_at c bs of Some i \<Rightarrow> Some (Suc i) | None \<Rightarrow> if b = c then Some 0 else None)"

abbreviation (input) place :: "u32 \<Rightarrow> nat option \<Rightarrow> u32" where
  "place p r \<equiv> (case r of None \<Rightarrow> 0 | Some i \<Rightarrow> p + of_nat i)"

lemma first_at_skip: "c \<notin> set xs \<Longrightarrow> first_at c (xs @ ys) = map_option ((+) (length xs)) (first_at c ys)"
  by (induction xs) (cases "first_at c ys"; auto)+

lemma last_at_None: "last_at c t = None \<longleftrightarrow> c \<notin> set t"
  by (induction t) (auto split: option.splits)

lemma last_at_append: "last_at c (xs @ c # ys) = Some (case last_at c ys of None \<Rightarrow> length xs | Some j \<Rightarrow> length xs + Suc j)"
  by (induction xs) (auto split: option.splits)

lemma first_at_split: "first_at c t = Some i \<Longrightarrow> i < length t \<and> t ! i = c"
proof (induction t arbitrary: i)
  case (Cons b t)
  then show ?case by (cases i) (auto split: if_splits)
qed simp

lemma first_at_None: "first_at c t = None \<longleftrightarrow> c \<notin> set t"
  by (induction t) auto

lemma strchr_ok: "cstring m p s \<Longrightarrow> strchr m p c = Some (place p (first_at c (s @ [0])))"
  by (induction s arbitrary: p) (subst strchr.simps, auto simp: add.assoc split: option.splits)+

lemma at_char_ok:
  "cstring m p s \<Longrightarrow> \<exists>d. at_char m p c = Some (p + of_nat (length (takeWhile (\<lambda>x. x \<noteq> c) s))) \<and>
    m (p + of_nat (length (takeWhile (\<lambda>x. x \<noteq> c) s))) = Some d \<and> (d = c \<longleftrightarrow> c \<in> set (s @ [0]))"
proof (induction s arbitrary: p)
  case Nil
  then show ?case by (subst at_char.simps) auto
next
  case (Cons b s)
  show ?case
  proof (cases "b = c")
    case True
    then show ?thesis using Cons.prems by (subst at_char.simps) auto
  next
    case False
    have "at_char m p c = at_char m (p + 1) c" using Cons.prems False by (subst at_char.simps) simp
    then show ?thesis using Cons.IH [of "p + 1"] Cons.prems False by (auto simp: add.assoc)
  qed
qed

lemma first_at_takeWhile: "c \<in> set t \<Longrightarrow> first_at c t = Some (length (takeWhile (\<lambda>x. x \<noteq> c) t))"
  by (induction t) auto

lemma whole_words_drop: "whole_words m p n \<Longrightarrow> k \<le> n \<Longrightarrow> whole_words m (p + of_nat k) (n - k)"
  unfolding whole_words_def
proof (intro allI impI)
  fix i j assume "\<forall>i < n. \<forall>k < 4. m ((p + of_nat i AND NOT 3) + of_nat k) \<noteq> None" "k \<le> n" "i < n - k" "j < (4 :: nat)"
  then have "m ((p + of_nat (k + i) AND NOT 3) + of_nat j) \<noteq> None" by (metis add.commute less_diff_conv)
  then show "m ((p + of_nat k + of_nat i AND NOT 3) + of_nat j) \<noteq> None" by (simp only: of_nat_add add.assoc not_False_eq_True)
qed

lemma skip_char_words_ok:
  "cstring m p s \<Longrightarrow> whole_words m p (length s + 1) \<Longrightarrow> \<not> unaligned p \<Longrightarrow>
    \<exists>k \<le> length s. skip_char_words m p (word_of e e e e) = Some (p + of_nat k) \<and> e \<notin> set (take k s)"
proof (induction s arbitrary: p rule: length_induct)
  case (1 s)
  obtain a b c d where w: "holds m p [a, b, c, d]" "load32 m p = Some (word_of a b c d)" "whole_words m (p + 4) (length s + 1 - 4)"
    by (rule whole_words_0 [OF 1(3,4)]) simp
  note cw = cstring_word [OF 1(2) w(1)]
  show ?case
  proof (cases "4 \<le> length s \<and> a \<noteq> e \<and> b \<noteq> e \<and> c \<noteq> e \<and> d \<noteq> e")
    case True
    have c4: "cstring m (p + 4) (drop 4 s)" "s = [a, b, c, d] @ drop 4 s" using cw True by blast+
    have "whole_words m (p + 4) (length (drop 4 s) + 1)" using w(3) True Suc_diff_le [of 4 "length s"] by simp
    then obtain k where k: "k \<le> length s - 4" "skip_char_words m (p + 4) (word_of e e e e) = Some (p + 4 + of_nat k)" "e \<notin> set (take k (drop 4 s))"
      using 1(1) c4(1) aligned_next [OF 1(4)] True by (auto dest!: spec [of _ "drop 4 s"])
    have "take (k + 4) s = [a, b, c, d] @ take k (drop 4 s)" by (subst c4(2)) (simp only: take_append, simp)
    then have "e \<notin> set (take (k + 4) s)" using k(3) True by auto
    moreover have "skip_char_words m p (word_of e e e e) = skip_char_words m (p + 4) (word_of e e e e)"
      using w(2) cw True by (subst skip_char_words.simps) (auto simp: detect_null_0 word_of_xor xor_eq_0)
    ultimately show ?thesis using True k by (intro exI [of _ "k + 4"]) (auto simp: algebra_simps)
  next
    case False
    then have "skip_char_words m p (word_of e e e e) = Some p"
      using w(2) cw by (subst skip_char_words.simps) (auto simp: detect_null_0 word_of_xor xor_eq_0)
    then show ?thesis by (intro exI [of _ 0]) simp
  qed
qed

lemma strchr_fast_ok:
  assumes "cstring m p s" "whole_words m p (length s + 1)"
  shows "strchr_fast m p c = Some (place p (first_at c (s @ [0])))"
proof -
  have "\<exists>k \<le> length s. (if \<not> unaligned p then skip_char_words m p (byte_mask c) else Some p) = Some (p + of_nat k) \<and> c \<notin> set (take k s)"
    using skip_char_words_ok [OF assms] by (auto simp: byte_words intro: exI [of _ 0])
  then obtain k where k: "k \<le> length s" "(if \<not> unaligned p then skip_char_words m p (byte_mask c) else Some p) = Some (p + of_nat k)" "c \<notin> set (take k s)"
    by blast
  let ?i = "length (takeWhile (\<lambda>x. x \<noteq> c) (drop k s))"
  obtain d where d: "at_char m (p + of_nat k) c = Some (p + of_nat k + of_nat ?i)" "m (p + of_nat k + of_nat ?i) = Some d" "d = c \<longleftrightarrow> c \<in> set (drop k s @ [0])"
    using at_char_ok [OF cstring_drop [OF assms(1) k(1)], of c] by blast
  have f: "first_at c (s @ [0]) = map_option ((+) k) (first_at c (drop k s @ [0]))"
    using first_at_skip [OF k(3), of "drop k s @ [0]"] k(1) by (simp only: append_assoc [symmetric] append_take_drop_id length_take min_absorb2)
  show ?thesis
  proof (cases "d = c")
    case True
    have "takeWhile (\<lambda>x. x \<noteq> c) (drop k s @ [0]) = takeWhile (\<lambda>x. x \<noteq> c) (drop k s)"
      using d(3) True by (cases "c \<in> set (drop k s)") (auto simp: takeWhile_append intro!: takeWhile_eq_all_conv [THEN iffD2, symmetric])
    then show ?thesis using d k(2) f True first_at_takeWhile [of c "drop k s @ [0]"] by (simp add: strchr_fast_def add.assoc)
  next
    case False
    then have "first_at c (drop k s @ [0]) = None" using d(3) by (simp add: first_at_None)
    then show ?thesis using d k(2) f False by (simp add: strchr_fast_def)
  qed
qed

lemma strrchr_loop_ok:
  "cstring m p s \<Longrightarrow> strrchr_loop m p c ret = Some (case last_at c (s @ [0]) of None \<Rightarrow> ret | Some i \<Rightarrow> p + of_nat i + 1)"
  by (induction s arbitrary: p ret) (subst strrchr_loop.simps, auto simp: add.assoc split: option.splits)+

lemma strrchr_ok: "cstring m p s \<Longrightarrow> strrchr m p c = Some (place p (last_at c (s @ [0])))"
  by (simp add: strrchr_def strrchr_loop_ok split: option.splits)

lemma strrchr_fast_loop_ok:
  "cstring m p s \<Longrightarrow> whole_words m p (length s + 1) \<Longrightarrow> m 0 = None \<Longrightarrow> c \<noteq> 0 \<Longrightarrow>
    strrchr_fast_loop m p c found = Some (case last_at c (s @ [0]) of None \<Rightarrow> found | Some i \<Rightarrow> p + of_nat i)"
proof (induction s arbitrary: p found rule: length_induct)
  case (1 s)
  note f = strchr_fast_ok [OF 1(2,3), of c]
  show ?case
  proof (cases "first_at c (s @ [0])")
    case None
    then have "last_at c (s @ [0]) = None" by (simp add: first_at_None last_at_None)
    then show ?thesis using f None by (subst strrchr_fast_loop.simps) simp
  next
    case (Some i)
    have i: "i < length s" "s ! i = c" using first_at_split [OF Some] 1(5) by (auto simp: nth_append less_Suc_eq split: if_splits)
    let ?s = "drop (i + 1) s"
    have split: "s @ [0] = take i s @ c # ?s @ [0]" using id_take_nth_drop [OF i(1)] i(2) by simp
    have nz: "p + of_nat i \<noteq> 0" using cstring_drop [OF 1(2), of i] i 1(4) by (cases "drop i s") auto
    have "cstring m (p + of_nat i + 1) ?s" using cstring_drop [OF 1(2), of "i + 1"] i by (simp add: ac_simps)
    moreover have "whole_words m (p + of_nat i + 1) (length ?s + 1)"
      using whole_words_drop [OF 1(3), of "i + 1"] i Suc_diff_Suc [OF i(1)] by (simp add: ac_simps)
    ultimately have "strrchr_fast_loop m (p + of_nat i + 1) c (p + of_nat i)
        = Some (case last_at c (?s @ [0]) of None \<Rightarrow> p + of_nat i | Some j \<Rightarrow> p + of_nat i + 1 + of_nat j)"
      using 1 i by simp
    moreover have "last_at c (s @ [0]) = Some (case last_at c (?s @ [0]) of None \<Rightarrow> i | Some j \<Rightarrow> i + Suc j)"
      unfolding split last_at_append using i by (simp split: option.split)
    ultimately show ?thesis using f Some nz by (subst strrchr_fast_loop.simps) (simp split: option.splits add: algebra_simps)
  qed
qed

lemma strrchr_fast_ok:
  assumes "cstring m p s" "whole_words m p (length s + 1)" "m 0 = None"
  shows "strrchr_fast m p c = Some (place p (last_at c (s @ [0])))"
proof (cases "c = 0")
  case True
  have "0 \<notin> set s" using assms(1) by (simp add: cstring_def)
  then have "first_at 0 (s @ [0]) = last_at 0 (s @ [0])" using last_at_append [of 0 s "[]"] first_at_skip [of 0 s "[0]"] by simp
  then show ?thesis using True strchr_fast_ok [OF assms(1,2)] by (simp add: strrchr_fast_def)
qed (simp add: strrchr_fast_def strrchr_fast_loop_ok [OF assms])

section \<open>Comparisons\<close>

lemma cstring_takeWhile: "cstring m p s \<Longrightarrow> holds m p bs \<Longrightarrow> length s < length bs \<Longrightarrow> s = takeWhile (\<lambda>x. x \<noteq> 0) bs"
proof (induction s arbitrary: p bs)
  case Nil
  then show ?case by (cases bs) auto
next
  case (Cons c s)
  then show ?case by (cases bs) auto
qed

lemma strcmp_ok:
  "cstring m p s \<Longrightarrow> cstring m q t \<Longrightarrow> strcmp m p q = Some (case first_diff (s @ [0]) (t @ [0]) of (b, c) \<Rightarrow> sint (b - c))"
proof (induction s arbitrary: p q t)
  case Nil
  then show ?case by (subst strcmp.simps) (cases t, auto simp: signed_eq_0_iff)
next
  case (Cons b s)
  then show ?case by (subst strcmp.simps) (cases t, auto simp: signed_eq_0_iff)
qed

lemma strcmp_bytes_ok:
  "cstring m p s \<Longrightarrow> cstring m q t \<Longrightarrow> strcmp_bytes m p q = Some (case first_diff (s @ [0]) (t @ [0]) of (b, c) \<Rightarrow> uint b - uint c)"
proof (induction s arbitrary: p q t)
  case Nil
  then show ?case by (subst strcmp_bytes.simps) (cases t, auto)
next
  case (Cons b s)
  then show ?case by (subst strcmp_bytes.simps) (cases t, auto)
qed

lemma first_diff_refl [simp]: "first_diff s s = (0, 0)"
  by (induction s) auto

lemma strcmp_words_ok:
  "cstring m p s \<Longrightarrow> cstring m q t \<Longrightarrow> whole_words m p (length s + 1) \<Longrightarrow> whole_words m q (length t + 1) \<Longrightarrow> \<not> unaligned p \<Longrightarrow> \<not> unaligned q \<Longrightarrow>
    (strcmp_words m p q = Some (Inl 0) \<and> s = t) \<or>
    (\<exists>p' q' s' t'. strcmp_words m p q = Some (Inr (p', q')) \<and> cstring m p' s' \<and> cstring m q' t' \<and> first_diff (s @ [0]) (t @ [0]) = first_diff (s' @ [0]) (t' @ [0]))"
proof (induction s arbitrary: p q t rule: length_induct)
  case (1 s)
  obtain a b c d where w: "holds m p [a, b, c, d]" "load32 m p = Some (word_of a b c d)" "whole_words m (p + 4) (length s + 1 - 4)"
    by (rule whole_words_0 [OF 1(4,6)]) simp
  obtain a' b' c' d' where w': "holds m q [a', b', c', d']" "load32 m q = Some (word_of a' b' c' d')" "whole_words m (q + 4) (length t + 1 - 4)"
    by (rule whole_words_0 [OF 1(5,7)]) simp
  note cw = cstring_word [OF 1(2) w(1)] and cw' = cstring_word [OF 1(3) w'(1)]
  consider (diff) "word_of a b c d \<noteq> word_of a' b' c' d'" | (same) "word_of a b c d = word_of a' b' c' d'" "4 \<le> length s" "4 \<le> length t"
    | (ended) "word_of a b c d = word_of a' b' c' d'" "length s < 4" "length t < 4" using cw cw' by fastforce
  then show ?case
  proof cases
    case diff
    then have "strcmp_words m p q = Some (Inr (p, q))" using w(2) w'(2) by (subst strcmp_words.simps) auto
    then show ?thesis using 1(2,3) by blast
  next
    case ended
    then have "s = t" using cstring_takeWhile [OF 1(2) w(1)] cstring_takeWhile [OF 1(3) w'(1)] by simp
    moreover have "strcmp_words m p q = Some (Inl 0)" using ended cw w(2) w'(2) by (subst strcmp_words.simps) (auto simp: detect_null_0)
    ultimately show ?thesis by blast
  next
    case same
    let ?s = "drop 4 s" and ?t = "drop 4 t"
    have d: "s = [a, b, c, d] @ ?s" "cstring m (p + 4) ?s" "t = [a', b', c', d'] @ ?t" "cstring m (q + 4) ?t" using cw cw' same by blast+
    have l: "length ?s + 1 = length s + 1 - 4" "length ?t + 1 = length t + 1 - 4" "length ?s < length s" using same by auto
    have "strcmp_words m p q = strcmp_words m (p + 4) (q + 4)" using same cw w(2) w'(2) by (subst strcmp_words.simps) (auto simp: detect_null_0)
    moreover have "first_diff (s @ [0]) (t @ [0]) = first_diff (?s @ [0]) (?t @ [0])" using same(1) by (subst d(1), subst d(3)) simp
    moreover have "s = t" if "?s = ?t" using that d(1,3) same(1) by (metis word_of_eq)
    ultimately show ?thesis using 1(1) [rule_format, OF l(3) d(2,4)] w(3) w'(3) aligned_next [OF 1(6)] aligned_next [OF 1(7)] unfolding l by auto
  qed
qed

lemma strcmp_fast_ok:
  assumes "cstring m p s" "cstring m q t" "whole_words m p (length s + 1)" "whole_words m q (length t + 1)"
  shows "strcmp_fast m p q = Some (case first_diff (s @ [0]) (t @ [0]) of (b, c) \<Rightarrow> uint b - uint c)"
proof (cases "unaligned p \<or> unaligned q")
  case True
  then show ?thesis using strcmp_bytes_ok [OF assms(1,2)] by (auto simp: strcmp_fast_def)
next
  case False
  then have u: "\<not> unaligned p" "\<not> unaligned q" by blast+
  show ?thesis using strcmp_words_ok [OF assms u]
  proof (elim disjE exE conjE)
    fix p' q' s' t'
    assume r: "strcmp_words m p q = Some (Inr (p', q'))" "cstring m p' s'" "cstring m q' t'" "first_diff (s @ [0]) (t @ [0]) = first_diff (s' @ [0]) (t' @ [0])"
    then show ?thesis using u strcmp_bytes_ok [OF r(2,3)] by (simp add: strcmp_fast_def)
  qed (simp add: strcmp_fast_def u)
qed

end
