(* ===== verification/Cstring_Copy.thy ===== *)
theory Cstring_Copy
  imports Cstring_Props
begin

text \<open>
  Copies of strings: where they are put, and how many bytes the plain \<open>strncpy\<close> and \<open>strncat\<close> write.
\<close>

section \<open>Copying forward\<close>

text \<open>A copy from the first byte on is right unless it overwrites bytes that are still to be read.\<close>

definition forward_ok :: "u32 \<Rightarrow> u32 \<Rightarrow> nat \<Rightarrow> bool" where
  "forward_ok dst src n \<longleftrightarrow> unat src + n \<le> 2 ^ 32 \<and> unat dst + n \<le> 2 ^ 32 \<and> \<not> (unat src < unat dst \<and> unat dst < unat src + n)"

lemma forward_step: "forward_ok dst src (Suc n) \<Longrightarrow> n \<noteq> 0 \<Longrightarrow> forward_ok (dst + 1) (src + 1) n"
  using unat_next [of src n] unat_next [of dst n] by (auto simp: forward_ok_def)

lemma forward_less: "forward_ok dst src n \<Longrightarrow> k \<le> n \<Longrightarrow> forward_ok dst src k"
  by (auto simp: forward_ok_def)

lemma forward_keeps:
  assumes "forward_ok dst src (Suc (length bs))" "holds m (src + 1) bs"
  shows "holds (m(dst \<mapsto> c)) (src + 1) bs"
proof (cases "bs = []")
  case False
  then have "unat (src + 1) = unat src + 1" using assms(1) unat_next [of src "length bs"] by (simp add: forward_ok_def)
  then show ?thesis using assms by (intro holds_other) (auto simp: forward_ok_def)
qed simp

lemma holds_put:
  assumes "holds m p bs" "unat p + length bs \<le> 2 ^ 32" "unat q + length cs \<le> 2 ^ 32" "unat q + length cs \<le> unat p \<or> unat p + length bs \<le> unat q"
  shows "holds (put_bytes q cs m) p bs"
proof -
  have "put_bytes q cs m (p + of_nat i) = m (p + of_nat i)" if "i < length bs" for i
    using put_bytes_other [OF assms(3), of "p + of_nat i" m] range_unat [OF assms(2) that] assms(4) that by auto
  then show ?thesis using assms(1) by (simp add: holds_nth)
qed

lemma put_bytes_mapped: "m a \<noteq> None \<Longrightarrow> put_bytes p bs m a \<noteq> None"
  by (induction bs arbitrary: p m) auto

lemma put_mapped: "mapped m a n \<Longrightarrow> mapped (put_bytes p bs m) a n"
  using put_bytes_mapped unfolding mapped_def by blast

lemma put_whole_words: "whole_words m a n \<Longrightarrow> whole_words (put_bytes p bs m) a n"
  using put_bytes_mapped unfolding whole_words_def by blast

lemma strcpy_ok:
  "cstring m src s \<Longrightarrow> forward_ok dst src (length s + 1) \<Longrightarrow> mapped m dst (length s + 1) \<Longrightarrow> strcpy dst src m = Some (put_bytes dst (s @ [0]) m)"
proof (induction s arbitrary: m dst src)
  case Nil
  then show ?case by (subst strcpy.simps) (auto simp: store8_def mapped_Suc)
next
  case (Cons c s)
  have "cstring (m(dst \<mapsto> c)) (src + 1) s" using Cons.prems forward_keeps [of dst src "s @ [0]" m c] by (simp add: cstring_def)
  moreover have "forward_ok (dst + 1) (src + 1) (length s + 1)" using Cons.prems(2) forward_step [of dst src "length s + 1"] by simp
  moreover have d: "m dst \<noteq> None" "mapped (m(dst \<mapsto> c)) (dst + 1) (length s + 1)" using Cons.prems(3) mapped_upd by (auto simp: mapped_Suc)
  ultimately have "strcpy (dst + 1) (src + 1) (m(dst \<mapsto> c)) = Some (put_bytes (dst + 1) (s @ [0]) (m(dst \<mapsto> c)))" using Cons.IH by blast
  then show ?case using Cons.prems(1) d(1) by (subst strcpy.simps) (simp add: store8_def del: fun_upd_apply)
qed

lemma store_word_ok:
  assumes "cstring m src s" "4 \<le> length s" "holds m src [a, b, c, d]" "load32 m src = Some (word_of a b c d)"
    "forward_ok dst src (length s + 1)" "mapped m dst 4" "\<not> unaligned src" "\<not> unaligned dst"
  shows "store32 dst (word_of a b c d) m = Some (put_bytes dst [a, b, c, d] m)" "cstring (put_bytes dst [a, b, c, d] m) (src + 4) (drop 4 s)"
    "forward_ok (dst + 4) (src + 4) (length s + 1 - 4)"
proof -
  have u: "unat (src + 4) = unat src + 4" "unat (dst + 4) = unat dst + 4"
    using assms(2,5) range_unat [of src "length s + 1" 4] range_unat [of dst "length s + 1" 4] by (simp_all add: forward_ok_def)
  have l4: "length [a, b, c, d] = 4" by simp
  have f4: "forward_ok dst src 4" using assms(2,5) by (auto intro: forward_less)
  have "store32 dst (word_of a b c d) m = memcpy dst src 4 m" using copy_word [OF assms(8,7), of m] assms(4) by simp
  also have "\<dots> = Some (put_bytes dst [a, b, c, d] m)"
    using copy_forward [OF assms(3), unfolded l4] assms(6) f4 by (simp add: forward_ok_def word_less_nat_alt)
  finally show "store32 dst (word_of a b c d) m = Some (put_bytes dst [a, b, c, d] m)" .
  have "cstring m (src + 4) (drop 4 s)" using cstring_word [OF assms(1,3)] assms(2) by blast
  then have h: "0 \<notin> set (drop 4 s)" "holds m (src + 4) (drop 4 s @ [0])" by (simp_all add: cstring_def)
  have "holds (put_bytes dst [a, b, c, d] m) (src + 4) (drop 4 s @ [0])"
    by (rule holds_put [OF h(2)], unfold l4) (use assms(2,5) u in \<open>auto simp: forward_ok_def\<close>)
  then show "cstring (put_bytes dst [a, b, c, d] m) (src + 4) (drop 4 s)" using h(1) by (simp add: cstring_def)
  show "forward_ok (dst + 4) (src + 4) (length s + 1 - 4)" using assms(2,5) u by (auto simp: forward_ok_def)
qed

lemma strcpy_words_ok:
  "cstring m src s \<Longrightarrow> forward_ok dst src (length s + 1) \<Longrightarrow> mapped m dst (length s + 1) \<Longrightarrow> whole_words m src (length s + 1) \<Longrightarrow>
    \<not> unaligned src \<Longrightarrow> \<not> unaligned dst \<Longrightarrow>
    do { (dst, src, m) \<leftarrow> strcpy_words dst src m; strcpy dst src m } = Some (put_bytes dst (s @ [0]) m)"
proof (induction s arbitrary: m dst src rule: length_induct)
  case (1 s)
  obtain a b c d where w: "holds m src [a, b, c, d]" "load32 m src = Some (word_of a b c d)" "whole_words m (src + 4) (length s + 1 - 4)"
    by (rule whole_words_0 [OF 1(5,6)]) simp
  note cw = cstring_word [OF 1(2) w(1)]
  show ?case
  proof (cases "4 \<le> length s")
    case True
    let ?m = "put_bytes dst [a, b, c, d] m" and ?s = "drop 4 s"
    have "mapped m dst 4" using 1(4) True by (simp add: mapped_def)
    note st = store_word_ok [OF 1(2) True w(1,2) 1(3) this 1(6,7)]
    have l: "length ?s + 1 = length s + 1 - 4" "length ?s < length s" "s = [a, b, c, d] @ ?s" using True cw by auto
    have "mapped ?m (dst + 4) (length ?s + 1)" using put_mapped [OF mapped_drop [OF 1(4), of 4]] True unfolding l(1) by (simp del: put_bytes.simps)
    moreover have "whole_words ?m (src + 4) (length ?s + 1)" using put_whole_words w(3) unfolding l(1) by blast
    ultimately have "do { (dst, src, m) \<leftarrow> strcpy_words (dst + 4) (src + 4) ?m; strcpy dst src m } = Some (put_bytes (dst + 4) (?s @ [0]) ?m)"
      using 1(1) [rule_format, OF l(2) st(2)] st(3) aligned_next [OF 1(6)] aligned_next [OF 1(7)] unfolding l(1) by blast
    moreover have "strcpy_words dst src m = strcpy_words (dst + 4) (src + 4) ?m"
      using w(2) st(1) cw True by (subst strcpy_words.simps) (simp add: detect_null_0 del: put_bytes.simps)
    moreover have "put_bytes (dst + 4) (?s @ [0]) ?m = put_bytes dst (s @ [0]) m"
      using put_bytes_append [of dst "[a, b, c, d]" "?s @ [0]" m] arg_cong [OF l(3), of "\<lambda>s. put_bytes dst (s @ [0]) m"] by simp
    ultimately show ?thesis by simp
  next
    case False
    then have "strcpy_words dst src m = Some (dst, src, m)" using w(2) cw by (subst strcpy_words.simps) (auto simp: detect_null_0)
    then show ?thesis using strcpy_ok [OF 1(2-4)] by simp
  qed
qed

lemma strcpy_fast_ok:
  "cstring m src s \<Longrightarrow> forward_ok dst src (length s + 1) \<Longrightarrow> mapped m dst (length s + 1) \<Longrightarrow> whole_words m src (length s + 1) \<Longrightarrow>
    strcpy_fast dst src m = Some (put_bytes dst (s @ [0]) m)"
  using strcpy_words_ok [of m src s dst] strcpy_ok [of m src s dst] by (auto simp: strcpy_fast_def)

section \<open>Copies with a count\<close>

lemma memset_ok: "mapped m s n \<Longrightarrow> memset s c n m = Some (put_bytes s (replicate n c) m)"
proof (induction n arbitrary: s m)
  case (Suc n)
  have "mapped (m(s \<mapsto> c)) (s + 1) n" using Suc.prems mapped_upd by (auto simp: mapped_Suc)
  then show ?case using Suc by (auto simp: store8_def mapped_Suc)
qed simp

lemma memset_unmapped: "m (s + of_nat i) = None \<Longrightarrow> i < n \<Longrightarrow> memset s c n m = None"
proof (induction n arbitrary: s i m)
  case (Suc n)
  show ?case
  proof (cases i)
    case 0
    then show ?thesis using Suc.prems by (simp add: store8_def)
  next
    case (Suc j)
    have "memset (s + 1) c n (m(s \<mapsto> c)) = None" if "m s \<noteq> None"
    proof (rule Suc.IH [of "m(s \<mapsto> c)" "s + 1" j])
      show "(m(s \<mapsto> c)) (s + 1 + of_nat j) = None" using Suc.prems(1) that \<open>i = Suc j\<close> by (auto simp: add.assoc)
    qed (use Suc.prems \<open>i = Suc j\<close> in simp)
    then show ?thesis by (simp add: store8_def)
  qed
qed simp

text \<open>What is put there when the string is shorter than the count: the plain function writes a byte more.\<close>

lemma strncpy_ok:
  "cstring m src s \<Longrightarrow> forward_ok dst src (length s + 1) \<Longrightarrow> length s < n \<Longrightarrow> mapped m dst (n + 1) \<Longrightarrow>
    strncpy dst src n m = Some (put_bytes dst (s @ replicate (n + 1 - length s) 0) m)"
proof (induction s arbitrary: m dst src n)
  case Nil
  then show ?case using memset_ok [of "m(dst \<mapsto> 0)" "dst + 1" n 0] mapped_upd by (cases n) (auto simp: store8_def mapped_Suc)
next
  case (Cons c s)
  obtain k where k: "n = Suc k" "k \<noteq> 0" using Cons.prems(3) by (cases n) auto
  have "cstring (m(dst \<mapsto> c)) (src + 1) s" using Cons.prems forward_keeps [of dst src "s @ [0]" m c] by (simp add: cstring_def)
  moreover have "forward_ok (dst + 1) (src + 1) (length s + 1)" using Cons.prems(2) forward_step [of dst src "length s + 1"] by simp
  moreover have d: "m dst \<noteq> None" "mapped (m(dst \<mapsto> c)) (dst + 1) (k + 1)" using Cons.prems(4) mapped_upd k by (auto simp: mapped_Suc)
  moreover have "length s < k" using Cons.prems(3) k by simp
  ultimately have "strncpy (dst + 1) (src + 1) k (m(dst \<mapsto> c)) = Some (put_bytes (dst + 1) (s @ replicate (k + 1 - length s) 0) (m(dst \<mapsto> c)))"
    using Cons.IH by blast
  then show ?case using Cons.prems(1) d(1) k by (simp add: store8_def del: fun_upd_apply)
qed

lemma strncpy_unmapped:
  "cstring m src s \<Longrightarrow> forward_ok dst src (length s + 1) \<Longrightarrow> length s < n \<Longrightarrow> mapped m dst n \<Longrightarrow> m (dst + of_nat n) = None \<Longrightarrow>
    unat dst + n < 2 ^ 32 \<Longrightarrow> strncpy dst src n m = None"
proof (induction s arbitrary: m dst src n)
  case Nil
  obtain k where k: "n = Suc k" using Nil.prems(3) by (cases n) auto
  have "dst + 1 + of_nat k \<noteq> dst" using range_unat [of dst "Suc n" n] Nil.prems(6) k by (auto simp: add.assoc)
  then have "memset (dst + 1) 0 n (m(dst \<mapsto> 0)) = None"
    using Nil.prems(5) k by (intro memset_unmapped [of _ _ k]) (auto simp: add.assoc)
  then show ?case using Nil.prems k by (auto simp: store8_def mapped_Suc)
next
  case (Cons c s)
  obtain k where k: "n = Suc k" "k \<noteq> 0" using Cons.prems(3) by (cases n) auto
  have "cstring (m(dst \<mapsto> c)) (src + 1) s" using Cons.prems forward_keeps [of dst src "s @ [0]" m c] by (simp add: cstring_def)
  moreover have "forward_ok (dst + 1) (src + 1) (length s + 1)" using Cons.prems(2) forward_step [of dst src "length s + 1"] by simp
  moreover have d: "m dst \<noteq> None" "mapped (m(dst \<mapsto> c)) (dst + 1) k" using Cons.prems(4) mapped_upd k by (auto simp: mapped_Suc)
  moreover have "dst + 1 + of_nat k \<noteq> dst" using range_unat [of dst "Suc n" n] Cons.prems(6) k by (auto simp: add.assoc)
  then have "(m(dst \<mapsto> c)) (dst + 1 + of_nat k) = None" using Cons.prems(5) k by (auto simp: add.assoc)
  moreover have "unat (dst + 1) + k < 2 ^ 32" using unat_next [of dst n] Cons.prems(6) k by simp
  moreover have "length s < k" using Cons.prems(3) k by simp
  ultimately have "strncpy (dst + 1) (src + 1) k (m(dst \<mapsto> c)) = None" using Cons.IH by blast
  then show ?case using Cons.prems(1) d(1) k by (simp add: store8_def del: fun_upd_apply)
qed

lemma strncpy_bytes_ok:
  "cstring m src s \<Longrightarrow> forward_ok dst src (length s + 1) \<Longrightarrow> mapped m dst n \<Longrightarrow>
    do { (dst, n, m) \<leftarrow> strncpy_bytes dst src n m; memset dst 0 n m } = Some (put_bytes dst (take n (s @ replicate n 0)) m)"
proof (induction s arbitrary: m dst src n)
  case Nil
  then show ?case using memset_ok [of "m(dst \<mapsto> 0)" "dst + 1" "n - 1" 0] mapped_upd by (cases n) (auto simp: store8_def mapped_Suc)
next
  case (Cons c s)
  show ?case
  proof (cases n)
    case (Suc k)
    have "cstring (m(dst \<mapsto> c)) (src + 1) s" using Cons.prems forward_keeps [of dst src "s @ [0]" m c] by (simp add: cstring_def)
    moreover have "forward_ok (dst + 1) (src + 1) (length s + 1)" using Cons.prems(2) forward_step [of dst src "length s + 1"] by simp
    moreover have d: "m dst \<noteq> None" "mapped (m(dst \<mapsto> c)) (dst + 1) k" using Cons.prems(3) mapped_upd Suc by (auto simp: mapped_Suc)
    ultimately have "do { (dst, n, m) \<leftarrow> strncpy_bytes (dst + 1) (src + 1) k (m(dst \<mapsto> c)); memset dst 0 n m }
        = Some (put_bytes (dst + 1) (take k (s @ replicate k 0)) (m(dst \<mapsto> c)))" using Cons.IH by blast
    moreover have "take n ((c # s) @ replicate n 0) = c # take k (s @ replicate k 0)" using Suc by (simp add: replicate_append_same [symmetric])
    ultimately show ?thesis using Cons.prems(1) d(1) Suc by (simp add: store8_def del: fun_upd_apply)
  qed simp
qed

lemma strncpy_words_ok:
  "cstring m src s \<Longrightarrow> forward_ok dst src (length s + 1) \<Longrightarrow> mapped m dst n \<Longrightarrow> whole_words m src (length s + 1) \<Longrightarrow>
    \<not> unaligned src \<Longrightarrow> \<not> unaligned dst \<Longrightarrow>
    do { (dst, src, n, m) \<leftarrow> strncpy_words dst src n m; (dst, n, m) \<leftarrow> strncpy_bytes dst src n m; memset dst 0 n m }
    = Some (put_bytes dst (take n (s @ replicate n 0)) m)"
proof (induction n arbitrary: s m dst src rule: less_induct)
  case (less n)
  obtain a b c d where w: "holds m src [a, b, c, d]" "load32 m src = Some (word_of a b c d)" "whole_words m (src + 4) (length s + 1 - 4)"
    by (rule whole_words_0 [OF less(5,6)]) simp
  note cw = cstring_word [OF less(2) w(1)]
  show ?case
  proof (cases "4 \<le> n \<and> 4 \<le> length s")
    case True
    let ?m = "put_bytes dst [a, b, c, d] m" and ?s = "drop 4 s"
    have m4: "mapped m dst 4" using less(4) True by (simp add: mapped_def)
    have s4: "4 \<le> length s" and n4: "n - 4 < n" using True by auto
    note st = store_word_ok [OF less(2) s4 w(1,2) less(3) m4 less(6,7)]
    have l: "length ?s + 1 = length s + 1 - 4" "s = [a, b, c, d] @ ?s" using s4 cw by auto
    have "mapped ?m (dst + 4) (n - 4)" using put_mapped [OF mapped_drop [OF less(4), of 4]] True by (simp del: put_bytes.simps)
    moreover have "whole_words ?m (src + 4) (length ?s + 1)" using put_whole_words w(3) unfolding l(1) by blast
    ultimately have "do { (dst, src, n, m) \<leftarrow> strncpy_words (dst + 4) (src + 4) (n - 4) ?m; (dst, n, m) \<leftarrow> strncpy_bytes dst src n m; memset dst 0 n m }
        = Some (put_bytes (dst + 4) (take (n - 4) (?s @ replicate (n - 4) 0)) ?m)"
      using less(1) [OF n4 st(2)] st(3) aligned_next [OF less(6)] aligned_next [OF less(7)] unfolding l(1) by blast
    moreover have "strncpy_words dst src n m = strncpy_words (dst + 4) (src + 4) (n - 4) ?m"
      using w(2) st(1) cw True by (subst strncpy_words.simps) (simp add: detect_null_0 del: put_bytes.simps)
    moreover have "take n (s @ replicate n 0) = [a, b, c, d] @ take (n - 4) (?s @ replicate (n - 4) 0)"
    proof -
      have "take n ([a, b, c, d] @ ?s @ replicate n 0) = [a, b, c, d] @ take (n - 4) (?s @ replicate n 0)"
        using True take_append [of n "[a, b, c, d]" "?s @ replicate n 0"] by (simp del: take_append) (simp add: eval_nat_numeral del: take_append)
      moreover have "take (n - 4) (?s @ replicate n 0) = take (n - 4) (?s @ replicate (n - 4) 0)" by (simp add: min_def)
      ultimately show ?thesis using l(2) by (metis append_assoc)
    qed
    ultimately show ?thesis using put_bytes_append [of dst "[a, b, c, d]" _ m] by simp
  next
    case False
    then have "strncpy_words dst src n m = Some (dst, src, n, m)" using w(2) cw by (subst strncpy_words.simps) (auto simp: detect_null_0)
    then show ?thesis using strncpy_bytes_ok [OF less(2,3,4)] by simp
  qed
qed

lemma strncpy_fast_ok:
  "cstring m src s \<Longrightarrow> forward_ok dst src (length s + 1) \<Longrightarrow> mapped m dst n \<Longrightarrow> whole_words m src (length s + 1) \<Longrightarrow>
    strncpy_fast dst src n m = Some (put_bytes dst (take n (s @ replicate n 0)) m)"
  using strncpy_words_ok [of m src s dst n] strncpy_bytes_ok [of m src s dst n] by (auto simp: strncpy_fast_def)

section \<open>Appending\<close>

lemma strcat_ok:
  assumes "cstring m p s" "cstring m q t" "forward_ok (p + of_nat (length s)) q (length t + 1)" "mapped m (p + of_nat (length s)) (length t + 1)"
  shows "strcat p q m = Some (put_bytes (p + of_nat (length s)) (t @ [0]) m)"
  using strcpy_ok [OF assms(2-4)] past_nul_ok [OF assms(1)] by (simp add: strcat_def)

lemma strcat_fast_ok:
  assumes "cstring m p s" "cstring m q t" "forward_ok (p + of_nat (length s)) q (length t + 1)" "mapped m (p + of_nat (length s)) (length t + 1)"
    "whole_words m p (length s + 1)" "whole_words m q (length t + 1)"
  shows "strcat_fast p q m = Some (put_bytes (p + of_nat (length s)) (t @ [0]) m)"
  using strcpy_fast_ok [OF assms(2-4,6)] end_of_string_ok [OF assms(1,5)] by (simp add: strcat_fast_def)

lemma appended:
  assumes "cstring m p s" "cstring m q t" "unat p + length s + length t + 1 \<le> 2 ^ 32"
  shows "cstring (put_bytes (p + of_nat (length s)) (t @ [0]) m) p (s @ t)"
proof -
  have e: "unat (p + of_nat (length s)) = unat p + length s" using range_unat [of p "length s + length t + 1" "length s"] assms(3) by simp
  have "holds m p s" using assms(1) by (simp add: cstring_def holds_append)
  then have "holds (put_bytes (p + of_nat (length s)) (t @ [0]) m) p s" by (rule holds_put) (use assms(3) e in auto)
  moreover have "holds (put_bytes (p + of_nat (length s)) (t @ [0]) m) (p + of_nat (length s)) (t @ [0])"
    by (rule put_bytes_holds) (use assms(3) e in simp)
  ultimately show ?thesis using assms(1,2) by (simp add: cstring_def holds_append del: put_bytes.simps)
qed

lemma strncat_loop_ok:
  "cstring m src t \<Longrightarrow> forward_ok dst src (length t + 1) \<Longrightarrow> mapped m dst (min n (length t + 1)) \<Longrightarrow>
    strncat_loop dst src n m = Some (put_bytes dst (take n (t @ [0])) m)"
proof (induction t arbitrary: m dst src n)
  case Nil
  then show ?case by (cases n) (auto simp: store8_def mapped_Suc)
next
  case (Cons c s)
  show ?case
  proof (cases n)
    case (Suc k)
    have "cstring (m(dst \<mapsto> c)) (src + 1) s" using Cons.prems forward_keeps [of dst src "s @ [0]" m c] by (simp add: cstring_def)
    moreover have "forward_ok (dst + 1) (src + 1) (length s + 1)" using Cons.prems(2) forward_step [of dst src "length s + 1"] by simp
    moreover have d: "m dst \<noteq> None" "mapped (m(dst \<mapsto> c)) (dst + 1) (min k (length s + 1))" using Cons.prems(3) mapped_upd Suc by (auto simp: mapped_Suc)
    ultimately have "strncat_loop (dst + 1) (src + 1) k (m(dst \<mapsto> c)) = Some (put_bytes (dst + 1) (take k (s @ [0])) (m(dst \<mapsto> c)))" using Cons.IH by blast
    then show ?thesis using Cons.prems(1) d(1) Suc by (cases "k = 0") (simp_all add: store8_def del: fun_upd_apply)
  qed simp
qed

lemma strncat_bytes_ok:
  "cstring m src t \<Longrightarrow> forward_ok dst src (length t + 1) \<Longrightarrow> mapped m dst (min n (length t) + 1) \<Longrightarrow> n \<noteq> 0 \<Longrightarrow>
    strncat_bytes dst src n m = Some (put_bytes dst (take n t @ [0]) m)"
proof (induction t arbitrary: m dst src n)
  case Nil
  then show ?case by (cases n) (auto simp: store8_def mapped_Suc)
next
  case (Cons c s)
  obtain k where k: "n = Suc k" using Cons.prems(4) by (cases n) auto
  have d: "m dst \<noteq> None" "mapped (m(dst \<mapsto> c)) (dst + 1) (min k (length s) + 1)" using Cons.prems(3) mapped_upd k by (auto simp: mapped_Suc)
  show ?case
  proof (cases "k = 0")
    case True
    then show ?thesis using Cons.prems(1) d k by (auto simp: store8_def mapped_Suc)
  next
    case False
    have "cstring (m(dst \<mapsto> c)) (src + 1) s" using Cons.prems forward_keeps [of dst src "s @ [0]" m c] by (simp add: cstring_def)
    moreover have "forward_ok (dst + 1) (src + 1) (length s + 1)" using Cons.prems(2) forward_step [of dst src "length s + 1"] by simp
    ultimately have "strncat_bytes (dst + 1) (src + 1) k (m(dst \<mapsto> c)) = Some (put_bytes (dst + 1) (take k s @ [0]) (m(dst \<mapsto> c)))"
      using Cons.IH d(2) False by blast
    then show ?thesis using Cons.prems(1) d(1) k False by (simp add: store8_def del: fun_upd_apply)
  qed
qed

section \<open>What the functions do\<close>

text \<open>C35: The fast functions compute what the plain ones do: copying and filling for all arguments, blocks that overlap included, searching in
  blocks that can be read, and, where the words that the string touches can be read as a whole, the length of a string and the first
  and the last place of a byte in it, which are those of the list of its bytes.\<close>

theorem fast_functions_agree:
  assumes "cstring m p s" "whole_words m p (length s + 1)" "m 0 = None" "mapped m q n"
  shows "memcpy_fast d e k m = memcpy d e k m \<and> memset_fast d c k m = memset d c k m \<and> memchr_fast m q c n = memchr m q c n
    \<and> strlen_fast m p = Some (of_nat (length s)) \<and> strlen m p = Some (of_nat (length s))
    \<and> strchr_fast m p c = Some (place p (first_at c (s @ [0]))) \<and> strchr m p c = Some (place p (first_at c (s @ [0])))
    \<and> strrchr_fast m p c = Some (place p (last_at c (s @ [0]))) \<and> strrchr m p c = Some (place p (last_at c (s @ [0])))"
  by (intro conjI memcpy_fast_eq memset_fast_eq memchr_fast_eq [OF assms(4)] strlen_fast_ok [OF assms(1,2)] strlen_ok [OF assms(1)]
      strchr_fast_ok [OF assms(1,2)] strchr_ok [OF assms(1)] strrchr_fast_ok [OF assms(1-3)] strrchr_ok [OF assms(1)])

definition sample_mem :: cmem where
  "sample_mem = put_bytes 64 [97, 98, 99, 100, 97, 0, 0xFF, 0xFF, 1, 98, 0, 0xFF, 0xC8, 98, 0, 0xFF] Map.empty"

lemma sample_mem_holds:
  "holds sample_mem 64 [97, 98, 99, 100, 97, 0, 0xFF, 0xFF, 1, 98, 0, 0xFF, 0xC8, 98, 0, 0xFF]" "sample_mem 0 = None" "sample_mem 80 = None"
proof -
  show "holds sample_mem 64 [97, 98, 99, 100, 97, 0, 0xFF, 0xFF, 1, 98, 0, 0xFF, 0xC8, 98, 0, 0xFF]"
    unfolding sample_mem_def by (rule put_bytes_holds) simp
  show "sample_mem 0 = None" "sample_mem 80 = None" by (simp_all add: sample_mem_def)
qed

lemma sample_mem_at: "i < 16 \<Longrightarrow> sample_mem (64 + of_nat i) = Some ([97, 98, 99, 100, 97, 0, 0xFF, 0xFF, 1, 98, 0, 0xFF, 0xC8, 98, 0, 0xFF] ! i)"
  using sample_mem_holds(1) unfolding holds_nth by simp

lemma sample_strings: "cstring sample_mem 64 [97, 98, 99, 100, 97]" "cstring sample_mem 72 [1, 98]" "cstring sample_mem 76 [0xC8, 98]"
  using sample_mem_holds(1) by (simp_all add: cstring_def)

lemma sample_words: "i + n \<le> 16 \<Longrightarrow> whole_words sample_mem (64 + of_nat i) n"
proof -
  have "whole_words sample_mem 64 16"
    unfolding whole_words_def
  proof (intro allI impI)
    fix x k :: nat assume x: "x < 16" "k < 4"
    let ?b = "4 * (x div 4)"
    have "unat (64 + of_nat ?b :: u32) = 64 + ?b" using range_unat [of 64 16 ?b] x by simp
    then have "\<not> unaligned (64 + of_nat ?b)" by (simp add: unaligned_mod mod_add_eq)
    then have "64 + of_nat ?b + of_nat (x mod 4) AND NOT 3 = (64 + of_nat ?b :: u32)" using aligned_base by simp
    moreover have "64 + of_nat ?b + of_nat (x mod 4) = (64 + of_nat x :: u32)" by (metis add.assoc mult_div_mod_eq of_nat_add)
    ultimately have e: "(64 + of_nat x AND NOT 3) + of_nat k = (64 + of_nat (?b + k) :: u32)" by (metis add.assoc of_nat_add)
    have "?b + k < 16" using x by presburger
    then show "sample_mem ((64 + of_nat x AND NOT 3) + of_nat k) \<noteq> None" unfolding e using sample_mem_at [of "?b + k"] by (simp del: of_nat_add of_nat_mult)
  qed
  then show "whole_words sample_mem (64 + of_nat i) n" if "i + n \<le> 16"
    using whole_words_drop [of sample_mem 64 16 i] that unfolding whole_words_def by auto
qed

theorem fast_functions_agree_witness:
  "strlen_fast sample_mem 64 = Some 5 \<and> strchr_fast sample_mem 64 97 = Some 64 \<and> strrchr_fast sample_mem 64 97 = Some 68
    \<and> strchr sample_mem 64 0xFF = Some 0 \<and> memchr_fast sample_mem 64 0xFF 16 = memchr sample_mem 64 0xFF 16"
proof -
  have w: "whole_words sample_mem 64 (length [97, 98, 99, 100, 97 :: u8] + 1)" using sample_words [of 0 6] by (simp add: eval_nat_numeral)
  have m: "mapped sample_mem 64 16" using holds_mapped [OF sample_mem_holds(1)] by (simp add: eval_nat_numeral)
  note f = fast_functions_agree [OF sample_strings(1) w sample_mem_holds(2) m]
  show ?thesis using f [of 0 0 0 97] f [of 0 0 0 "0xFF"] by simp
qed

text \<open>C36: Both versions of \<open>memmove\<close> put the bytes that the source had before at the destination, however the two blocks overlap.\<close>

theorem memmove_overlap:
  assumes "holds m src bs" "mapped m dst (length bs)" "unat src + length bs < 2 ^ 32" "unat dst + length bs \<le> 2 ^ 32"
  shows "memmove dst src (length bs) m = Some (put_bytes dst bs m) \<and> memmove_fast dst src (length bs) m = Some (put_bytes dst bs m)
    \<and> holds (put_bytes dst bs m) dst bs"
proof -
  have e: "unat (src + of_nat (length bs)) = unat src + length bs" using assms(3) by (simp add: unat_word_ariths unat_of_nat)
  have s: "unat src + length bs \<le> 2 ^ 32" using assms(3) by simp
  show ?thesis
  proof (cases "src < dst")
    case True
    then show ?thesis using copy_backward [OF assms(1,2) s assms(4)] copy_forward [OF assms(1,2) s assms(4)] put_bytes_holds [OF assms(4)] e
      by (simp add: memmove_def memmove_fast_def memcpy_fast_eq word_less_nat_alt)
  next
    case False
    then show ?thesis using copy_forward [OF assms(1,2) s assms(4)] put_bytes_holds [OF assms(4)]
      by (simp add: memmove_def memmove_fast_def memcpy_fast_eq)
  qed
qed

theorem memmove_overlap_witness:
  "\<exists>m. memmove 66 64 5 sample_mem = Some m \<and> memmove_fast 66 64 5 sample_mem = Some m \<and> holds m 66 [97, 98, 99, 100, 97]"
proof -
  let ?bs = "[97, 98, 99, 100, 97 :: u8]"
  have h: "holds sample_mem 64 ?bs" using sample_strings(1) by (simp add: cstring_def)
  have "mapped sample_mem 64 16" using holds_mapped [OF sample_mem_holds(1)] by (simp add: eval_nat_numeral)
  from mapped_drop [OF this, of 2] have m: "mapped sample_mem 66 (length ?bs)" by (simp add: mapped_def)
  have n: "unat (64 :: u32) + length ?bs < 2 ^ 32" "unat (66 :: u32) + length ?bs \<le> 2 ^ 32" and l: "length ?bs = 5" by simp_all
  show ?thesis using memmove_overlap [OF h m n, unfolded l] by blast
qed

text \<open>When the byte in which two strings differ is smaller by more than 128 in the first one, the fast \<open>strcmp\<close> returns a negative number and the plain
  one a positive number, because it keeps the difference in eight bits.\<close>

theorem strcmp_sign:
  assumes "cstring m p s" "cstring m q t" "whole_words m p (length s + 1)" "whole_words m q (length t + 1)"
    "first_diff (s @ [0]) (t @ [0]) = (b, c)" "uint b + 128 < uint c"
  shows "\<exists>x y. strcmp_fast m p q = Some x \<and> x < 0 \<and> strcmp m p q = Some y \<and> 0 < y"
proof -
  have "(uint b - uint c) mod 256 = (uint b - uint c + 256) mod 256" by simp
  also have "\<dots> = uint b - uint c + 256" using assms(6) uint_u8 [of b] uint_u8 [of c] by (intro mod_pos_pos_trivial) linarith+
  finally have "uint (b - c) = uint b - uint c + 256" by (simp add: uint_word_ariths)
  moreover have p: "(2 :: int) ^ 7 = 128" by simp
  moreover have "- (2 ^ 7) \<le> uint b - uint c + 256 \<and> uint b - uint c + 256 < 2 ^ 7"
    unfolding p using assms(6) uint_u8 [of b] uint_u8 [of c] by linarith
  ultimately have "sint (b - c) = uint b - uint c + 256" by (simp add: sint_uint signed_take_bit_int_eq_self)
  then have "0 < sint (b - c)" using uint_u8 [of b] uint_u8 [of c] by linarith
  then show ?thesis using strcmp_fast_ok [OF assms(1-4)] strcmp_ok [OF assms(1,2)] assms(5,6) by simp
qed

theorem strcmp_sign_witness:
  "\<exists>x y. strcmp_fast sample_mem 72 76 = Some x \<and> x < 0 \<and> strcmp sample_mem 72 76 = Some y \<and> 0 < y"
proof -
  have w: "whole_words sample_mem 72 (length [1, 98 :: u8] + 1)" "whole_words sample_mem 76 (length [0xC8, 98 :: u8] + 1)"
    using sample_words [of 8 3] sample_words [of 12 3] by (simp_all add: eval_nat_numeral)
  have "first_diff ([1, 98] @ [0]) ([0xC8, 98] @ [0]) = (1, 0xC8)" "uint (1 :: u8) + 128 < uint (0xC8 :: u8)" by simp_all
  from strcmp_sign [OF sample_strings(2,3) w this] show ?thesis .
qed

text \<open>Both versions of \<open>strcat\<close> leave at the first address the string that has the second string appended, and change nothing but the bytes
  from the end of the first string on.\<close>

theorem strcat_appends:
  assumes "cstring m p s" "cstring m q t" "forward_ok (p + of_nat (length s)) q (length t + 1)" "mapped m (p + of_nat (length s)) (length t + 1)"
    "unat p + length s + length t + 1 \<le> 2 ^ 32" "whole_words m p (length s + 1)" "whole_words m q (length t + 1)"
  shows "\<exists>m'. strcat p q m = Some m' \<and> strcat_fast p q m = Some m' \<and> cstring m' p (s @ t)
    \<and> (\<forall>a. unat a < unat p + length s \<or> unat p + length s + length t + 1 \<le> unat a \<longrightarrow> m' a = m a)"
proof -
  let ?e = "p + of_nat (length s)"
  have e: "unat ?e = unat p + length s" using range_unat [of p "length s + length t + 1" "length s"] assms(5) by simp
  have "put_bytes ?e (t @ [0]) m a = m a" if "unat a < unat p + length s \<or> unat p + length s + length t + 1 \<le> unat a" for a
    by (rule put_bytes_other) (use assms(5) e that in auto)
  then show ?thesis using strcat_ok [OF assms(1-4)] strcat_fast_ok [OF assms(1-4,6,7)] appended [OF assms(1,2,5)] by blast
qed

lemma sample_mapped: "64 \<le> p \<Longrightarrow> unat p + n \<le> 80 \<Longrightarrow> mapped sample_mem p n"
proof -
  assume a: "64 \<le> p" "unat p + n \<le> 80"
  have m: "mapped sample_mem 64 16" using holds_mapped [OF sample_mem_holds(1)] by (simp add: eval_nat_numeral)
  have p: "64 + of_nat (unat p - 64) = p" using a(1) by (simp add: word_le_nat_alt of_nat_diff)
  show "mapped sample_mem p n" using mapped_drop [OF m, of "unat p - 64"] a unfolding p by (auto simp: mapped_def word_le_nat_alt)
qed

theorem strcat_appends_witness:
  "\<exists>m'. strcat 72 76 sample_mem = Some m' \<and> strcat_fast 72 76 sample_mem = Some m' \<and> cstring m' 72 [1, 98, 0xC8, 98]"
proof -
  have l: "length [1, 98 :: u8] = 2" "length [0xC8, 98 :: u8] + 1 = 3" "length [1, 98 :: u8] + 1 = 3" by simp_all
  have f: "forward_ok (72 + of_nat (length [1, 98 :: u8])) 76 (length [0xC8, 98 :: u8] + 1)" by (simp add: forward_ok_def)
  have m: "mapped sample_mem (72 + of_nat (length [1, 98 :: u8])) (length [0xC8, 98 :: u8] + 1)" unfolding l by (rule sample_mapped) simp_all
  have u: "unat (72 :: u32) + length [1, 98 :: u8] + length [0xC8, 98 :: u8] + 1 \<le> 2 ^ 32" by simp
  have w: "whole_words sample_mem 72 (length [1, 98 :: u8] + 1)" "whole_words sample_mem 76 (length [0xC8, 98 :: u8] + 1)"
    unfolding l using sample_words [of 8 3] sample_words [of 12 3] by simp_all
  show ?thesis using strcat_appends [OF sample_strings(2,3) f m u w] by auto
qed

text \<open>C38: When the string is shorter than the count \<open>n\<close>, the fast \<open>strncpy\<close> writes the string and zeros, \<open>n\<close> bytes in all, but the plain one writes a
  further zero behind them: into an object of exactly \<open>n\<close> bytes it is an access out of bounds.\<close>

theorem strncpy_overruns:
  assumes "cstring m src s" "forward_ok dst src (length s + 1)" "length s < n" "mapped m dst n" "unat dst + n < 2 ^ 32" "whole_words m src (length s + 1)"
  shows "strncpy_fast dst src n m = Some (put_bytes dst (s @ replicate (n - length s) 0) m)
    \<and> (if m (dst + of_nat n) = None then strncpy dst src n m = None
       else strncpy dst src n m = Some (put_bytes dst (s @ replicate (n - length s) 0 @ [0]) m))"
proof -
  have t: "take n (s @ replicate n 0) = s @ replicate (n - length s) 0" using assms(3) by simp
  have r: "replicate (n + 1 - length s) 0 = replicate (n - length s) 0 @ [0 :: u8]" using assms(3) by (simp add: Suc_diff_le replicate_append_same)
  have "mapped m dst (n + 1)" if "m (dst + of_nat n) \<noteq> None" using assms(4) that by (auto simp: mapped_def less_Suc_eq)
  then show ?thesis using strncpy_fast_ok [OF assms(1,2,4,6)] strncpy_ok [OF assms(1-3)] strncpy_unmapped [OF assms(1-4) _ assms(5)] unfolding t r by simp
qed

theorem strncpy_overruns_witness:
  "strncpy_fast 76 72 4 sample_mem = Some (put_bytes 76 [1, 98, 0, 0] sample_mem) \<and> strncpy 76 72 4 sample_mem = None"
proof -
  have l: "length [1, 98 :: u8] + 1 = 3" by simp
  have f: "forward_ok 76 72 (length [1, 98 :: u8] + 1)" "length [1, 98 :: u8] < 4" by (simp_all add: forward_ok_def)
  have m: "mapped sample_mem 76 4" by (rule sample_mapped) simp_all
  have u: "unat (76 :: u32) + 4 < 2 ^ 32" by simp
  have w: "whole_words sample_mem 72 (length [1, 98 :: u8] + 1)" unfolding l using sample_words [of 8 3] by simp
  have "(76 :: u32) + of_nat 4 = 80" "[1, 98] @ replicate (4 - length [1, 98 :: u8]) 0 = [1, 98, 0, 0 :: u8]" by (simp_all add: eval_nat_numeral)
  then show ?thesis using strncpy_overruns [OF sample_strings(2) f m u w] sample_mem_holds(3) by (simp del: put_bytes.simps)
qed

text \<open>When the string to be appended is at least as long as the count \<open>n\<close>, the fast \<open>strncat\<close> writes \<open>n\<close> bytes of it and a zero; the plain one writes no
  zero, and the byte that happened to be there follows.\<close>

theorem strncat_unterminated:
  assumes "cstring m p s" "cstring m q t" "forward_ok (p + of_nat (length s)) q (length t + 1)" "mapped m (p + of_nat (length s)) (n + 1)"
    "n \<noteq> 0" "n \<le> length t" "unat p + length s + length t + 1 \<le> 2 ^ 32" "whole_words m p (length s + 1)"
  shows "\<exists>m' f. strncat p q n m = Some m' \<and> strncat_fast p q n m = Some f \<and> cstring f p (s @ take n t)
    \<and> holds m' p (s @ take n t) \<and> m' (p + of_nat (length s + n)) = m (p + of_nat (length s + n))"
proof -
  let ?e = "p + of_nat (length s)"
  have e: "unat ?e = unat p + length s" "unat (p + of_nat (length s + n)) = unat p + length s + n"
    using range_unat [of p "length s + length t + 1" "length s"] range_unat [of p "length s + length t + 1" "length s + n"] assms(6,7)
    by (simp_all del: of_nat_add)
  have m: "mapped m ?e (min n (length t + 1))" "mapped m ?e (min n (length t) + 1)" using assms(4,6) by (auto simp: mapped_def min_def)
  have pl: "strncat p q n m = Some (put_bytes ?e (take n t) m)"
    using strncat_loop_ok [OF assms(2,3) m(1)] past_nul_ok [OF assms(1)] assms(5,6) by (simp add: strncat_def)
  have fa: "strncat_fast p q n m = Some (put_bytes ?e (take n t @ [0]) m)"
    using strncat_bytes_ok [OF assms(2,3) m(2) assms(5)] end_of_string_ok [OF assms(1,8)] by (simp add: strncat_fast_def)
  have h: "holds m p s" using assms(1) by (simp add: cstring_def holds_append)
  have hs: "holds (put_bytes ?e cs m) p s" "holds (put_bytes ?e cs m) ?e cs" if "length cs \<le> n + 1" for cs
    using holds_put [OF h, of ?e cs] put_bytes_holds [of ?e cs m] that assms(6,7) e by auto
  have "0 \<notin> set s" "0 \<notin> set (take n t)" using assms(1,2) by (auto simp: cstring_def dest: in_set_takeD)
  then have "cstring (put_bytes ?e (take n t @ [0]) m) p (s @ take n t)"
    using hs [of "take n t @ [0]"] assms(6) by (simp add: cstring_def holds_append del: put_bytes.simps)
  moreover have "holds (put_bytes ?e (take n t) m) p (s @ take n t)" using hs [of "take n t"] assms(6) by (simp add: holds_append)
  moreover have "put_bytes ?e (take n t) m (p + of_nat (length s + n)) = m (p + of_nat (length s + n))"
    by (rule put_bytes_other) (use assms(6,7) e in auto)
  ultimately show ?thesis using pl fa by blast
qed

theorem strncat_unterminated_witness:
  "\<exists>m' f. strncat 72 64 3 sample_mem = Some m' \<and> strncat_fast 72 64 3 sample_mem = Some f \<and> cstring f 72 [1, 98, 97, 98, 99]
    \<and> holds m' 72 [1, 98, 97, 98, 99, 98]"
proof -
  let ?s = "[1, 98 :: u8]" and ?t = "[97, 98, 99, 100, 97 :: u8]"
  have l: "length ?s = 2" "length ?s + 1 = 3" "length ?t + 1 = 6" "length ?s + 3 = 5" by simp_all
  have f: "forward_ok (72 + of_nat (length ?s)) 64 (length ?t + 1)" by (simp add: forward_ok_def)
  have m: "mapped sample_mem (72 + of_nat (length ?s)) (3 + 1)" by (rule sample_mapped) simp_all
  have n: "(3 :: nat) \<noteq> 0" "3 \<le> length ?t" "unat (72 :: u32) + length ?s + length ?t + 1 \<le> 2 ^ 32" by simp_all
  have w: "whole_words sample_mem 72 (length ?s + 1)" unfolding l using sample_words [of 8 3] by simp
  have t: "?s @ take 3 ?t = [1, 98, 97, 98, 99]" "(72 :: u32) + of_nat (length ?s + 3) = 77" by simp_all
  have "sample_mem 77 = Some 98" using sample_mem_holds(1) by simp
  then show ?thesis using strncat_unterminated [OF sample_strings(2,1) f m n w] unfolding t by auto
qed

section \<open>Sets of bytes\<close>

lemma in_accept_ok: "cstring m q t \<Longrightarrow> c \<noteq> 0 \<Longrightarrow> in_accept m c q = Some (c \<in> set t)"
  by (induction t arbitrary: q) (subst in_accept.simps, auto)+

lemma strchr_found: "cstring m q t \<Longrightarrow> c \<noteq> 0 \<Longrightarrow> m 0 = None \<Longrightarrow> \<exists>p. strchr m q c = Some p \<and> (p \<noteq> 0 \<longleftrightarrow> c \<in> set t)"
proof (induction t arbitrary: q)
  case Nil
  then show ?case by (subst strchr.simps) auto
next
  case (Cons b t)
  have "q \<noteq> 0" using Cons.prems by auto
  then show ?case using Cons by (subst strchr.simps) auto
qed

lemma strspn_loop_ok: "cstring m p s \<Longrightarrow> cstring m q t \<Longrightarrow> strspn_loop m p q n = Some (n + length (takeWhile (\<lambda>c. c \<in> set t) s))"
  by (induction s arbitrary: p n) (subst strspn_loop.simps, auto simp: in_accept_ok)+

lemma strcspn_loop_ok:
  "cstring m p s \<Longrightarrow> cstring m q t \<Longrightarrow> m 0 = None \<Longrightarrow> strcspn_loop m p q n = Some (n + length (takeWhile (\<lambda>c. c \<in> set t) s))"
proof (induction s arbitrary: p n)
  case Nil
  then show ?case by (subst strcspn_loop.simps) simp
next
  case (Cons b s)
  obtain r where "strchr m q b = Some r" "r \<noteq> 0 \<longleftrightarrow> b \<in> set t" using strchr_found [OF Cons.prems(2) _ Cons.prems(3), of b] Cons.prems(1) by auto
  then show ?case using Cons by (subst strcspn_loop.simps) auto
qed

text \<open>C40: \<open>strcspn\<close>, which is to count the bytes at the start of a string that are \<open>not\<close> in a set, computes what \<open>strspn\<close> computes: it counts those that are.\<close>

theorem strcspn_is_strspn:
  assumes "m 0 = None" "cstring m p s" "cstring m q t"
  shows "strspn m p q = Some (length (takeWhile (\<lambda>c. c \<in> set t) s)) \<and> strcspn m p q = strspn m p q"
  using strspn_loop_ok [OF assms(2,3), of 0] strcspn_loop_ok [OF assms(2,3,1), of 0] by (simp add: strspn_def strcspn_def)

theorem strcspn_is_strspn_witness: "strspn sample_mem 64 76 = Some 0 \<and> strcspn sample_mem 64 76 = Some 0"
proof -
  have "length (takeWhile (\<lambda>c. c \<in> set [0xC8, 98]) [97, 98, 99, 100, 97 :: u8]) = 0" by simp
  then show ?thesis using strcspn_is_strspn [OF sample_mem_holds(2) sample_strings(1,3)] by simp
qed

end
