(* ===== verification/Strmatch.thy ===== *)
theory Strmatch
  imports Cstring_Props
begin

text \<open>
  Matching with the wild cards of the shell (\<open>runtime/strmatch.c\<close>).
\<close>

section \<open>Patterns\<close>

text \<open>The loop over the ranges of a class, for the byte \<open>d\<close> of the string: \<open>None\<close> inside is the end of the function without a match; otherwise
  whether a range has matched, with the pattern as it has been read.\<close>

partial_function (option) class_loop :: "cmem \<Rightarrow> u8 \<Rightarrow> u8 \<Rightarrow> u32 \<Rightarrow> (bool \<times> u8 \<times> u32) option option" where
  "class_loop m d c p = (if c = 0 then Some None else do {
     let cstart = c;
     c \<leftarrow> m p;
     let p = p + 1;
     range \<leftarrow> (if c = 0x2D then do { e \<leftarrow> m p; Some (e \<noteq> 0x5D) } else Some False);
     (cend, c, p) \<leftarrow> (if range then do { e \<leftarrow> m p; c \<leftarrow> (if e = 0 then Some 0 else m (p + 1)); Some (e, c, p + 2) } else Some (cstart, c, p));
     if range \<and> cend = 0 then Some None
     else if cstart \<le> d \<and> d \<le> cend then Some (Some (True, c, p))
     else if c = 0x5D then Some (Some (False, c, p))
     else class_loop m d c p
   })"

text \<open>The rest of a class that has matched is skipped.\<close>

partial_function (option) skip_class :: "cmem \<Rightarrow> u8 \<Rightarrow> u32 \<Rightarrow> u32 option option" where
  "skip_class m c p = (if c = 0x5D then Some (Some p) else if c = 0 then Some None else do { c \<leftarrow> m p; skip_class m c (p + 1) })"

text \<open>A class, from the byte after the bracket on: the address after it when the byte \<open>d\<close> is accepted.\<close>

definition match_class :: "cmem \<Rightarrow> u8 \<Rightarrow> u32 \<Rightarrow> u32 option option" where
  "match_class m d p = do {
     x \<leftarrow> m p;
     let not = (x = 0x21 \<or> x = 0x5E);
     let p = (if not then p + 1 else p);
     c \<leftarrow> m p;
     r \<leftarrow> class_loop m d c (p + 1);
     case r of None \<Rightarrow> Some None
     | Some (matched, c, p) \<Rightarrow>
         if \<not> matched then Some (if \<not> not then None else Some p)
         else do { q \<leftarrow> skip_class m c p; Some (if not then None else q) }
   }"

text \<open>The loop after a star, which takes further stars and question marks; the byte that follows them, with the addresses in the pattern and in the string.\<close>

partial_function (option) skip_stars :: "cmem \<Rightarrow> u8 \<Rightarrow> u32 \<Rightarrow> u32 \<Rightarrow> (u8 \<times> u32 \<times> u32) option option" where
  "skip_stars m c p n = (if c = 0x3F \<or> c = 0x2A then do {
     over \<leftarrow> (if c = 0x3F then do { d \<leftarrow> m n; Some (d = 0) } else Some False);
     if over then Some None else do { c \<leftarrow> m p; skip_stars m c (p + 1) (n + 1) }
   } else Some (Some (c, p, n)))"

text \<open>The function, and the loop that tries what follows a star at each place of the string; \<open>star\<close> is \<open>None\<close> in the function, and \<open>c\<close> and \<open>c1\<close> in that loop.\<close>

partial_function (option) match_from :: "cmem \<Rightarrow> u32 \<Rightarrow> u32 \<Rightarrow> u32 \<Rightarrow> (u8 \<times> u8) option \<Rightarrow> u32 option" where
  "match_from m string n p star = (case star of
     Some (c, c1) \<Rightarrow> do {
       d \<leftarrow> m n;
       if d = 0 then Some 0 else do {
       found \<leftarrow> (if c = 0x5B \<or> d = c1 then do { r \<leftarrow> match_from m n n p None; Some (r = 0) } else Some False);
       if found then Some string else match_from m string (n + 1) p star
     }}
   | None \<Rightarrow> do {
       c \<leftarrow> m p;
       d \<leftarrow> (if c = 0x2A then Some 0 else m n);
       if c = 0 then Some (if d = 0 then string else 0)
       else if c = 0x3F then (if d = 0 then Some 0 else match_from m string (n + 1) (p + 1) None)
       else if c = 0x2A then do {
         c \<leftarrow> m (p + 1);
         r \<leftarrow> skip_stars m c (p + 2) n;
         case r of None \<Rightarrow> Some 0
         | Some (c, p, n) \<Rightarrow>
             if c = 0 then Some string
             else do { c1 \<leftarrow> (if c = 0x5C then m p else Some c); match_from m string n (p - 1) (Some (c, c1)) }
       }
       else if c = 0x5B then (if d = 0 then Some 0 else do {
         r \<leftarrow> match_class m d (p + 1);
         case r of None \<Rightarrow> Some 0 | Some p \<Rightarrow> match_from m string (n + 1) p None
       })
       else if c = 0x5C then do {
         c \<leftarrow> m (p + 1);
         if c \<noteq> d then Some 0 else match_from m string (n + 1) (p + 2) None
       }
       else if c \<noteq> d then Some 0 else match_from m string (n + 1) (p + 1) None
     })"

definition strmatch :: "cmem \<Rightarrow> u32 \<Rightarrow> u32 \<Rightarrow> u32 option" where
  "strmatch m string pattern = match_from m string string pattern None"

section \<open>What a pattern accepts\<close>

datatype item = Lit u8 | Any | Class bool "(u8 \<times> u8) list"

text \<open>A pattern without stars is a list of items; classes are lists of ranges.\<close>

definition enc_ranges :: "(u8 \<times> u8) list \<Rightarrow> u8 list" where
  "enc_ranges rs = concat (map (\<lambda>(a, b). [a, 0x2D, b]) rs)"

fun enc_item :: "item \<Rightarrow> u8 list" where
  "enc_item (Lit c) = (if c \<in> {0x3F, 0x2A, 0x5B, 0x5C} then [0x5C, c] else [c])"
| "enc_item Any = [0x3F]"
| "enc_item (Class neg rs) = 0x5B # (if neg then [0x5E] else []) @ enc_ranges rs @ [0x5D]"

definition enc_items :: "item list \<Rightarrow> u8 list" where
  "enc_items its = concat (map enc_item its)"

fun item_ok :: "item \<Rightarrow> bool" where
  "item_ok (Lit c) \<longleftrightarrow> c \<noteq> 0"
| "item_ok Any \<longleftrightarrow> True"
| "item_ok (Class neg rs) \<longleftrightarrow> rs \<noteq> [] \<and> (\<forall>(a, b) \<in> set rs. a \<notin> {0, 0x5D} \<and> b \<notin> {0, 0x5D}) \<and> (neg \<or> fst (hd rs) \<notin> {0x21, 0x5E})"

fun accepts :: "item \<Rightarrow> u8 \<Rightarrow> bool" where
  "accepts (Lit c) d \<longleftrightarrow> d = c"
| "accepts Any d \<longleftrightarrow> True"
| "accepts (Class neg rs) d \<longleftrightarrow> neg \<noteq> (\<exists>(a, b) \<in> set rs. a \<le> d \<and> d \<le> b)"

lemma skip_class_ok:
  "c \<noteq> 0 \<Longrightarrow> 0 \<notin> set bs \<Longrightarrow> 0x5D \<notin> set bs \<Longrightarrow> c \<noteq> 0x5D \<Longrightarrow> holds m p (bs @ [0x5D]) \<Longrightarrow> skip_class m c p = Some (Some (p + of_nat (length bs) + 1))"
proof (induction bs arbitrary: c p)
  case Nil
  then show ?case by (subst skip_class.simps, simp) (subst skip_class.simps, simp)
next
  case (Cons b bs)
  then show ?case by (subst skip_class.simps) (simp add: add.assoc)
qed

lemma class_loop_ok:
  "item_ok (Class True ((a, b) # rs)) \<Longrightarrow> holds m p (0x2D # b # enc_ranges rs @ [0x5D]) \<Longrightarrow>
    \<exists>c q. class_loop m d a p = Some (Some (accepts (Class False ((a, b) # rs)) d, c, q)) \<and>
      (if accepts (Class False ((a, b) # rs)) d then c = 0x5D \<and> q = p + of_nat (length (enc_ranges rs)) + 3 \<or> skip_class m c q = Some (Some (p + of_nat (length (enc_ranges rs)) + 3))
       else q = p + of_nat (length (enc_ranges rs)) + 3)"
proof (induction rs arbitrary: a b p)
  case Nil
  have "class_loop m d a p = Some (Some (accepts (Class False [(a, b)]) d, 0x5D, p + 3))"
    using Nil by (subst class_loop.simps) (auto simp: enc_ranges_def add.assoc)
  then show ?case by (auto simp: enc_ranges_def)
next
  case (Cons r rs)
  obtain a' b' where r: "r = (a', b')" by (metis surj_pair)
  have h: "m p = Some 0x2D" "m (p + 1) = Some b" "m (p + 2) = Some a'" "holds m (p + 3) (0x2D # b' # enc_ranges rs @ [0x5D])"
    using Cons.prems(2) by (simp_all add: r enc_ranges_def add.assoc)
  have l: "length (enc_ranges (r # rs)) = length (enc_ranges rs) + 3" by (simp add: r enc_ranges_def)
  show ?case
  proof (cases "a \<le> d \<and> d \<le> b")
    case True
    have "class_loop m d a p = Some (Some (True, a', p + 3))" using h Cons.prems(1) True by (subst class_loop.simps) (auto simp: add.assoc)
    moreover have "skip_class m a' (p + 3) = Some (Some (p + 3 + of_nat (length (0x2D # b' # enc_ranges rs)) + 1))"
      by (rule skip_class_ok) (use Cons.prems(1) h(4) in \<open>auto simp: r enc_ranges_def\<close>)
    ultimately show ?thesis using True by (auto simp: l add.assoc add.commute)
  next
    case False
    have "class_loop m d a p = class_loop m d a' (p + 3)" using h Cons.prems(1) False by (subst class_loop.simps) (auto simp: r add.assoc)
    moreover have "accepts (Class False ((a, b) # r # rs)) d = accepts (Class False ((a', b') # rs)) d" using False by (auto simp: r)
    moreover have "p + 3 + of_nat (length (enc_ranges rs)) + 3 = p + of_nat (length (enc_ranges (r # rs))) + 3" by (simp add: l)
    moreover have "item_ok (Class True ((a', b') # rs))" using Cons.prems(1) by (simp add: r)
    ultimately show ?thesis using Cons.IH [of a' b' "p + 3", OF _ h(4)] by metis
  qed
qed

lemma match_class_ok:
  assumes "item_ok (Class neg rs)" "holds m p (enc_item (Class neg rs))"
  shows "match_class m d (p + 1) = Some (if accepts (Class neg rs) d then Some (p + of_nat (length (enc_item (Class neg rs)))) else None)"
proof -
  obtain a b rs' where rs: "rs = (a, b) # rs'" using assms(1) by (cases rs) auto
  define q where "q = (if neg then p + 2 else p + 1)"
  have h: "m q = Some a" "holds m (q + 1) (0x2D # b # enc_ranges rs' @ [0x5D])" "m (p + 1) = Some (if neg then 0x5E else a)"
    using assms(2) by (auto simp: rs q_def enc_ranges_def add.assoc)
  have e: "q + 1 + of_nat (length (enc_ranges rs')) + 3 = p + of_nat (length (enc_item (Class neg rs)))"
    by (auto simp: q_def rs enc_ranges_def)
  obtain c r where c: "class_loop m d a (q + 1) = Some (Some (accepts (Class False rs) d, c, r))"
    "if accepts (Class False rs) d then c = 0x5D \<and> r = p + of_nat (length (enc_item (Class neg rs))) \<or> skip_class m c r = Some (Some (p + of_nat (length (enc_item (Class neg rs)))))
     else r = p + of_nat (length (enc_item (Class neg rs)))"
    using class_loop_ok [of a b rs' m "q + 1" d, unfolded e, OF _ h(2)] assms(1) unfolding rs by auto
  have sk: "skip_class m c r = Some (Some (p + of_nat (length (enc_item (Class neg rs)))))" if "accepts (Class False rs) d"
    using c(2) that by (auto simp: skip_class.simps)
  have n: "(x = 0x21 \<or> x = 0x5E) = neg" if "m (p + 1) = Some x" for x using that h(3) assms(1) by (auto simp: rs split: if_splits)
  show ?thesis
    unfolding match_class_def using h(3) n h(1) c sk by (cases neg; cases "accepts (Class False rs) d") (auto simp: q_def add.assoc simp del: enc_item.simps)
qed

text \<open>The items of a pattern take one byte of the string each; then matching goes on with the rest.\<close>

lemma match_items:
  "\<forall>i \<in> set its. item_ok i \<Longrightarrow> holds m p (enc_items its) \<Longrightarrow> cstring m n s \<Longrightarrow>
    match_from m string n p None = (if length its \<le> length s \<and> list_all2 accepts its (take (length its) s)
      then match_from m string (n + of_nat (length its)) (p + of_nat (length (enc_items its))) None else Some 0)"
proof (induction its arbitrary: n p s)
  case Nil
  then show ?case by (simp add: enc_items_def)
next
  case (Cons i its)
  let ?q = "p + of_nat (length (enc_item i))"
  have h: "holds m p (enc_item i)" "holds m ?q (enc_items its)" using Cons.prems(2) by (simp_all add: enc_items_def holds_append)
  have l: "?q + of_nat (length (enc_items its)) = p + of_nat (length (enc_items (i # its)))" by (simp add: enc_items_def add.assoc)
  obtain d where d: "m n = Some d" "d = (case s of [] \<Rightarrow> 0 | d # _ \<Rightarrow> d)" using Cons.prems(3) by (cases s) auto
  have step: "match_from m string n p None = (if s \<noteq> [] \<and> accepts i d then match_from m string (n + 1) ?q None else Some 0)"
  proof (cases i)
    case (Lit c)
    have "c \<noteq> 0" using Cons.prems(1) Lit by simp
    then show ?thesis using h(1) d Cons.prems(3) Lit
      by (subst match_from.simps) (cases s; cases "c = 0x3F \<or> c = 0x2A \<or> c = 0x5B \<or> c = 0x5C"; auto)
  next
    case Any
    then show ?thesis using h(1) d Cons.prems(3) by (subst match_from.simps) (cases s; auto)
  next
    case (Class neg rs)
    have ok: "item_ok (Class neg rs)" using Cons.prems(1) Class by simp
    have "holds m p (enc_item (Class neg rs))" using h(1) Class by simp
    note mc = match_class_ok [OF ok this, of d]
    have "m p = Some 0x5B" using h(1) Class by simp
    then show ?thesis using mc d Cons.prems(3) Class by (subst match_from.simps) (cases s; auto simp del: accepts.simps enc_item.simps)
  qed
  show ?case
  proof (cases s)
    case Nil
    then show ?thesis using step by simp
  next
    case (Cons d' s')
    then have "d' = d" "cstring m (n + 1) s'" using d Cons.prems(3) by simp_all
    then show ?thesis using Cons.IH [OF _ h(2), of "n + 1" s'] step Cons.prems(1) l Cons by (simp add: add.assoc)
  qed
qed

lemma match_end: "m p = Some 0 \<Longrightarrow> cstring m n s \<Longrightarrow> match_from m string n p None = Some (if s = [] then string else 0)"
  by (subst match_from.simps) (cases s; auto)

lemma strmatch_items:
  assumes "\<forall>i \<in> set its. item_ok i" "holds m p (enc_items its @ [0])" "cstring m n s"
  shows "match_from m string n p None = Some (if list_all2 accepts its s then string else 0)"
proof -
  have h: "holds m p (enc_items its)" "m (p + of_nat (length (enc_items its))) = Some 0" using assms(2) by (simp_all add: holds_append)
  show ?thesis
  proof (cases "length its \<le> length s \<and> list_all2 accepts its (take (length its) s)")
    case True
    then have "match_from m string n p None = Some (if drop (length its) s = [] then string else 0)"
      using match_items [OF assms(1) h(1) assms(3), of string] match_end [OF h(2) cstring_drop [OF assms(3)]] by simp
    moreover have "list_all2 accepts its s \<longleftrightarrow> drop (length its) s = []" using True list_all2_lengthD [of accepts its s] by auto
    ultimately show ?thesis by simp
  next
    case False
    then have "\<not> list_all2 accepts its s" using list_all2_lengthD [of accepts its s] by auto
    then show ?thesis using match_items [OF assms(1) h(1) assms(3), of string] False by auto
  qed
qed

lemma match_star:
  assumes "\<forall>i \<in> set its. item_ok i" "c \<noteq> 0" "holds m q (enc_items (Lit c # its) @ [0])" "m 0 = None" "c0 \<noteq> 0x5B"
  shows "cstring m n s \<Longrightarrow> match_from m string n q (Some (c0, c)) =
    Some (if \<exists>i < length s. s ! i = c \<and> \<not> list_all2 accepts (Lit c # its) (drop i s) then string else 0)"
proof (induction s arbitrary: n)
  case Nil
  then show ?case by (subst match_from.simps) simp
next
  case (Cons d s)
  have "n \<noteq> 0" using Cons.prems assms(4) by auto
  moreover have "\<forall>i \<in> set (Lit c # its). item_ok i" using assms(1,2) by simp
  ultimately have r: "match_from m n n q None = Some (if list_all2 accepts (Lit c # its) (d # s) then n else 0)" "n \<noteq> 0"
    using strmatch_items [OF _ assms(3) Cons.prems] by simp_all
  have split: "(\<exists>i < length (d # s). (d # s) ! i = c \<and> \<not> list_all2 accepts (Lit c # its) (drop i (d # s)))
    \<longleftrightarrow> d = c \<and> \<not> list_all2 accepts (Lit c # its) (d # s) \<or> (\<exists>i < length s. s ! i = c \<and> \<not> list_all2 accepts (Lit c # its) (drop i s))"
    unfolding length_Cons Ex_less_Suc2 by simp
  show ?case unfolding split using Cons assms(5) r by (subst match_from.simps) (auto simp del: list_all2_Cons accepts.simps)
qed

text \<open>C37: A pattern without stars, that is a sequence of bytes, question marks and classes, matches a string just when each item accepts the byte at its place.\<close>

theorem strmatch_plain:
  assumes "\<forall>i \<in> set its. item_ok i" "holds m p (enc_items its @ [0])" "cstring m n s"
  shows "strmatch m n p = Some (if list_all2 accepts its s then n else 0)"
  unfolding strmatch_def by (rule strmatch_items [OF assms])

definition match_mem :: cmem where
  "match_mem = put_bytes 64 [97, 98, 99, 0, 97, 0x2A, 99, 0, 97, 98, 99, 100, 0, 97, 0x3F, 0x5B, 97, 0x2D, 99, 0x5D, 0] Map.empty"

lemma match_mem_holds: "holds match_mem 64 [97, 98, 99, 0, 97, 0x2A, 99, 0, 97, 98, 99, 100, 0, 97, 0x3F, 0x5B, 97, 0x2D, 99, 0x5D, 0]" "match_mem 0 = None"
  unfolding match_mem_def by (rule put_bytes_holds, simp) simp

lemma match_mem_strings: "cstring match_mem 64 [97, 98, 99]" "cstring match_mem 72 [97, 98, 99, 100]"
  using match_mem_holds(1) by (simp_all add: cstring_def)

theorem strmatch_plain_witness: "strmatch match_mem 64 77 = Some 64 \<and> strmatch match_mem 72 77 = Some 0"
proof -
  let ?its = "[Lit 97, Any, Class False [(97, 99)]]"
  have ok: "\<forall>i \<in> set ?its. item_ok i" by simp
  have h: "holds match_mem 77 (enc_items ?its @ [0])" using match_mem_holds(1) by (simp add: enc_items_def enc_ranges_def)
  show ?thesis using strmatch_plain [OF ok h match_mem_strings(1)] strmatch_plain [OF ok h match_mem_strings(2)] by simp
qed

text \<open>C39: With a star in front of a byte the answer is inverted: the function finds a match when the rest of the pattern does \<open>not\<close> match at some
  later place of the string that has this byte, and finds none when it matches at all of them.\<close>

theorem strmatch_star_inverted:
  assumes "\<forall>i \<in> set pre. item_ok i" "\<forall>i \<in> set its. item_ok i" "c \<noteq> 0" "m 0 = None"
    "holds m p (enc_items pre @ 0x2A # enc_items (Lit c # its) @ [0])" "cstring m n s"
  shows "strmatch m n p = Some (if length pre \<le> length s \<and> list_all2 accepts pre (take (length pre) s)
    \<and> (\<exists>i. length pre \<le> i \<and> i < length s \<and> s ! i = c \<and> \<not> list_all2 accepts (Lit c # its) (drop i s)) then n else 0)"
proof -
  let ?k = "length pre"
  define q where "q = p + of_nat (length (enc_items pre))"
  have h: "holds m p (enc_items pre)" "m q = Some 0x2A" "holds m (q + 1) (enc_items (Lit c # its) @ [0])"
    using assms(5) by (simp_all add: holds_append q_def)
  show ?thesis
  proof (cases "?k \<le> length s \<and> list_all2 accepts pre (take ?k s)")
    case True
    note d = cstring_drop [OF assms(6), of ?k]
    define c0 where "c0 = (if c \<in> {0x3F, 0x2A, 0x5B, 0x5C} then 0x5C else c)"
    have c0: "m (q + 1) = Some c0" "c0 \<noteq> 0" "c0 \<noteq> 0x5B" "c0 \<noteq> 0x3F" "c0 \<noteq> 0x2A" "c0 = 0x5C \<longrightarrow> m (q + 2) = Some c" "c0 \<noteq> 0x5C \<longrightarrow> c0 = c"
      using h(3) assms(3) by (auto simp: c0_def enc_items_def add.assoc split: if_splits)
    have "skip_stars m c0 (q + 2) (n + of_nat ?k) = Some (Some (c0, q + 2, n + of_nat ?k))" using c0 by (subst skip_stars.simps) simp
    then have "match_from m n (n + of_nat ?k) q None = match_from m n (n + of_nat ?k) (q + 1) (Some (c0, c))"
      using h(2) c0 by (subst match_from.simps) (auto simp: add.commute [of 1 q])
    also have "\<dots> = Some (if \<exists>i < length (drop ?k s). drop ?k s ! i = c \<and> \<not> list_all2 accepts (Lit c # its) (drop i (drop ?k s)) then n else 0)"
      using match_star [OF assms(2,3) h(3) assms(4) c0(3) d] True by simp
    also have "(\<exists>i < length (drop ?k s). drop ?k s ! i = c \<and> \<not> list_all2 accepts (Lit c # its) (drop i (drop ?k s)))
      \<longleftrightarrow> (\<exists>i. ?k \<le> i \<and> i < length s \<and> s ! i = c \<and> \<not> list_all2 accepts (Lit c # its) (drop i s))" (is "?l \<longleftrightarrow> ?r")
    proof
      assume ?l
      then obtain i where "i < length s - ?k" "s ! (?k + i) = c" "\<not> list_all2 accepts (Lit c # its) (drop (?k + i) s)" using True by (auto simp: add.commute)
      then show ?r using True by (intro exI [of _ "?k + i"]) auto
    next
      assume ?r
      then obtain i where "?k \<le> i" "i < length s" "s ! i = c" "\<not> list_all2 accepts (Lit c # its) (drop i s)" by blast
      then show ?l using True by (intro exI [of _ "i - ?k"]) auto
    qed
    finally show ?thesis using match_items [OF assms(1) h(1) assms(6), of n] True by (simp add: strmatch_def q_def)
  next
    case False
    then show ?thesis using match_items [OF assms(1) h(1) assms(6), of n] by (auto simp: strmatch_def)
  qed
qed

text \<open>The pattern \<open>a*c\<close> does not match \<open>abc\<close>, but it matches \<open>abcd\<close>.\<close>

theorem strmatch_star_inverted_witness: "strmatch match_mem 64 68 = Some 0 \<and> strmatch match_mem 72 68 = Some 72"
proof -
  have ok: "\<forall>i \<in> set [Lit 97]. item_ok i" "\<forall>i \<in> set []. item_ok i" "(99 :: u8) \<noteq> 0" by simp_all
  have h: "holds match_mem 68 (enc_items [Lit 97] @ 0x2A # enc_items (Lit 99 # []) @ [0])"
    using match_mem_holds(1) by (simp add: enc_items_def)
  note w = strmatch_star_inverted [OF ok match_mem_holds(2) h]
  have n: "\<not> (\<exists>i \<ge> 1. i < 3 \<and> [97, 98, 99 :: u8] ! i = 99 \<and> \<not> list_all2 accepts [Lit 99] (drop i [97, 98, 99]))"
    by (auto simp: eval_nat_numeral less_Suc_eq)
  have y: "\<exists>i \<ge> 1. i < 4 \<and> [97, 98, 99, 100 :: u8] ! i = 99 \<and> \<not> list_all2 accepts [Lit 99] (drop i [97, 98, 99, 100])"
    by (rule exI [of _ 2]) simp
  have l: "length [97, 98, 99 :: u8] = 3" "length [97, 98, 99, 100 :: u8] = 4" "length [Lit 97] = 1" by simp_all
  show ?thesis using w [OF match_mem_strings(1), unfolded l] w [OF match_mem_strings(2), unfolded l] n y by simp
qed

end
