(* ===== verification/Spec2Isabelle.thy ===== *)
theory Spec2Isabelle
  imports Timer_Props Mem_Props Crc Buf_Prio Arp_Props Tcp_Live Snmp_Agent Nvdata_Safe Cstring_Copy Strmatch
begin

text \<open>
  The embedded operating system uOS: a model of its kernel and of its libraries, translated from the C
  sources, with the properties that make them correct.

  \<^bold>\<open>The program.\<close> The kernel (\<open>kernel\<close>) runs tasks by priority; a task holds locks, waits for the signals
  that other tasks or interrupt handlers send to a lock, and inherits the priority of those that wait for its
  locks. The allocator (\<open>mem\<close>) hands out blocks of a pool. Packets are chains of buffers from a pool (\<open>buf\<close>), kept
  in rings. The network (\<open>net\<close>) is a task that is woken up by a timer and by the interfaces: it takes
  packets from the drivers, resolves addresses (ARP), routes, and hands them to ICMP, UDP or TCP, whose sockets are locks that
  the tasks of the user wait on. All sums that travel with data come from \<open>crc\<close>.

  \<^bold>\<open>The model.\<close> A C function is a function of the state it works on. A failing \<open>assert\<close>, an access out of the bounds of an
  object, or a loop without end is the result \<open>None\<close>; what the code reports as failure is a value inside. Machine integers are words, the wrap-around of
  C included. Objects that the code links by pointers are named by their addresses in a store; the
  lists that code walks along are lists of addresses, and where a link is written in a way that other objects can see, the model does it to all the lists
  (\<open>set_next\<close>).

  \<^item> \<open>Uos_Prelude\<close>: integer types, \<open>assert_c\<close>, lemmas on lists.
  \<^item> \<open>Link_Lists\<close>: \<open>runtime/list.h\<close>, the intrusive circular lists, as a pointer heap, refined to a store of
    disjoint sequences (locale \<open>link_store\<close>), which the kernel uses.
  \<^item> \<open>Kernel_State\<close>, \<open>Kernel_Calls\<close>: the data of \<open>kernel/uos.h\<close> and \<open>kernel/internal.h\<close> and the calls of
    \<open>kernel/*.c\<close>; a call that gives up the processor leaves what it still has to do in a frame.
    \<open>Kernel_Inv\<close>, \<open>Kernel_Prio\<close>, \<open>Kernel_Safe\<close>, \<open>Kernel_Run\<close>: the invariant, and that every call, continuation
    and interrupt keeps it. \<open>Kernel_Props\<close>: no assertion fails when the rules of the calls are kept (\<open>event_ok\<close>: no recursive
    \<open>mutex_lock\<close>, a lock is taken at most 32767 times over, the width of its depth, only what is held is released, a task whose
    stack has overflowed makes no call that looks at its guard) and no tasks are deadlocked; priorities, signals, and
    what the code does not keep (inheritance along a chain, locks of a task that exits).
  \<^item> \<open>Timer\<close>, \<open>Timer_Props\<close>: \<open>timer/timer.c\<close>, the clock, whose handler is one of the fast handlers of the kernel
    (\<open>timer_run\<close>): the time that it shows in every run, the tasks that it wakes up, delays.
  \<^item> \<open>Mem_Alloc\<close>, \<open>Mem_Props\<close>: \<open>mem/mem.c\<close> on a 32-bit address space; a pool is a set of blocks and holes that
    tile it (locale \<open>allocator\<close>), first fit, coalescing, and the contents of blocks.
  \<^item> \<open>Crc\<close>, \<open>Crc_Inet\<close>: \<open>crc/*.c\<close> and \<open>buf/buf-chksum.c\<close>: the tables are those of polynomial
    division, bursts are detected (locales \<open>byte_check\<close>, \<open>burst_check\<close>), the Internet sum is that of RFC 1071 and a packet with its sum filled in
    verifies.
  \<^item> \<open>Buf_Queue\<close>, \<open>Buf_Prio\<close>, \<open>Sock_Queue\<close>: the rings of \<open>buf/buf-queue.c\<close>, \<open>buf/buf-prio.c\<close> and of the sockets, which implement queues
    (locale \<open>fifo\<close>).
  \<^item> \<open>Net_Buf\<close>: \<open>buf/buf.c\<close>: packets and what each operation does to their bytes; \<open>buf_truncate\<close> halts when two or more
    buffers are left over, since it frees the rest of the chain twice.
  \<^item> \<open>Route\<close>, \<open>Net_Link\<close>, \<open>Arp_Props\<close>, \<open>Ip\<close>, \<open>Udp\<close>: \<open>net/route.c\<close>, \<open>net/netif.c\<close>, \<open>net/arp.c\<close>, the output side of
    \<open>net/ip.c\<close> with \<open>net/icmp.c\<close>, and \<open>net/udp.c\<close>: longest prefixes, the ARP table, headers and sums
    that the receiver accepts, datagrams from socket to socket.
  \<^item> \<open>Tcp_State\<close>, \<open>Tcp_Out\<close>, \<open>Tcp_Timer\<close>, \<open>Tcp_In\<close>, \<open>Tcp_User\<close>, \<open>Ip_Input\<close>: \<open>net/tcp.h\<close>, \<open>net/tcp.c\<close>, \<open>net/tcp-out.c\<close>,
    \<open>net/tcp-in.c\<close>, \<open>net/tcp-user.c\<close> and the input side and the task of \<open>net/ip.c\<close>.
    \<open>Tcp_Frame\<close>, \<open>Tcp_Recv\<close>: what output and acknowledgements leave alone. \<open>Tcp_Send\<close>, \<open>Tcp_Deliver\<close>: the stream is
    queued, sent inside the windows and, while the receive queue has room and a segment is in one buffer, delivered in order.
    \<open>Tcp_Lists\<close>, \<open>Tcp_Run\<close>, \<open>Stack_Run\<close>: the axioms
    on the members of the lists of sockets in the runs of the stack (\<open>stack_step\<close>, which leaves out the ticks and calls that break the lists
    in the code). \<open>Tcp_Live\<close>: delayed acknowledgements that cannot ride on a queued segment are sent when memory, a route and the
    address are there.
  \<^item> \<open>Asn\<close>, \<open>Asn_Props\<close>: \<open>snmp/asn.c\<close> and \<open>snmp/asn-cnt.c\<close>, the coding of the structures of SNMP and back, and where it agrees with the basic
    encoding rules (\<open>ber\<close>, a reference of its own over integers of any size): for all but opaque strings and unsigned numbers from
    \<open>2 ^ 31\<close> on.
  \<^item> \<open>Snmp\<close>, \<open>Snmp_Props\<close>, \<open>Snmp_Agent\<close>: \<open>snmp/snmp.c\<close>, the agent, from the bytes of a request to those of the response: the search
    in the table of variables, the steps of a manager through it (each variable once, for tables without rows; upwards, with rows, as
    long as the numbers of a name fit into the bytes of an address and the row functions step upwards below 65536), requests for variables, and how much
    room the response has. The pair of a request is read before its type is tested, and so the object must have room for it (\<open>pair_readable\<close>).
  \<^item> \<open>Nvdata\<close>, \<open>Nvdata_Props\<close>, \<open>Nvdata_Safe\<close>: \<open>nvram/nvdata*.c\<close>, \<open>nvram/nvram-rw.c\<close> and \<open>crc/crc32-vak.c\<close>, settings in
    non-volatile memory: transactions that read, write and update them, and what a loss of power leaves of them.
  \<^item> \<open>Cmem\<close>, \<open>Cstring\<close>, \<open>Cblock_Props\<close>, \<open>Cstring_Props\<close>, \<open>Cstring_Copy\<close>, \<open>Strmatch\<close>: \<open>runtime/str*.c\<close> and \<open>runtime/mem*.c\<close> on a memory
    of bytes in which only objects can be accessed: the functions that work on words agree with those that work on bytes (the test for a zero
    byte in a word, \<open>detect_null_0\<close>), copies, comparisons, patterns, and the functions that do not do what they are for.

  \<^bold>\<open>Parameters.\<close> The drivers are parameters: whether an interface takes a packet (\<open>nif_accepts\<close>), and what it has received
  (\<open>nif_in\<close>); what is handed to a driver is recorded in \<open>nif_out\<close>. The network takes its memory from a
  list of answers (\<open>pool_t\<close>), each a failure or the contents of a fresh block; \<open>Mem_Alloc\<close> shows what these answers can be.
  The macros \<open>NVDATA_READ_TAINT\<close> and \<open>NVDATA_WRITE_TAINT\<close> are arguments.
  The functions of the variables of SNMP work on a state of any type (\<open>sn_env\<close>). The fast interrupt handlers of the user and the order of the steps of a run are parameters as well.

  \<^bold>\<open>Loops.\<close> Loops over lists are structural, those with a counter have a measure (the binary search \<open>find_loop\<close> halves its interval, \<open>nv_read_until\<close> comes closer to its address), \<open>enqueue_loop\<close> ends because each
  round takes a block from the pool. Loops that need not end in the code are partial functions, \<open>None\<close> if they do not:
  the walks along links (\<open>list_walk\<close>, \<open>find_hole\<close>, \<open>insert_hole_loop\<close>, \<open>task_recalculate_prio\<close>, \<open>slow_active\<close>), and
  the loops over strings of \<open>Cstring\<close> and \<open>Strmatch\<close>, \<open>parseopt_loop\<close>, \<open>tcp_new_port\<close>, \<open>tcp_accept\<close>, \<open>ip_receive\<close>. No fuel is used; for the walks of the kernel and the allocator
  the invariants show that they end.

  \<^bold>\<open>Not modelled.\<close> Context switches and the saving of registers (assembler of each processor), device drivers, the
  displays, file systems, sorting, numbers and dates of the C library, formatted streams, the variables of SNMP and its traps, Tcl and the regular expressions, the ported
  software under \<open>contrib\<close>, and the debugging output. A call of the network runs with the locks it takes held, so the model does not interleave the calls of two tasks inside one; where a
  call waits, it gives up its locks and is run again.
\<close>

end
